(* ===== verification/Prelude.thy ===== *)
theory Prelude
  imports Main "HOL-Library.Sublist" "HOL-Library.Char_ord" "HOL-Library.List_Lexorder"
begin

text \<open>
  Shared ground of the development: the C++ standard library functions the modelled
  sources call on bytes and strings (the \<open>cctype\<close> predicates in the ``C'' locale,
  \<open>std::string::find\<close>, \<open>std::to_string\<close>, trimming), the collections the component
  theories add their facts to, and three interfaces used by several components:

  \<^item> \<open>op_machine\<close>: a state with operations that keep an invariant, so every run keeps it;
  \<^item> \<open>chunked_feed\<close>: a consumer of a stream whose result does not depend on how the stream
    is cut into chunks;
  \<^item> \<open>codec\<close>: a partial decoder that undoes an encoder, so the encoder is injective.

  A \<open>std::string\<close> is a list of bytes and every Isabelle \<open>char\<close> is a byte, so
  \<open>string\<close> models it with \<open>length\<close> as \<open>size()\<close>.
\<close>

named_theorems byte_simps "byte classification and case folding"
named_theorems inv_steps "operations that keep a component's invariant"

section \<open>Bytes\<close>

abbreviation byte :: "char \<Rightarrow> nat" where
  "byte c \<equiv> of_char c"

abbreviation backslash :: char where
  "backslash \<equiv> CHR 0x5C"

abbreviation slash :: char where
  "slash \<equiv> CHR ''/''"

abbreviation dquote :: char where
  "dquote \<equiv> CHR 0x22"

abbreviation squote :: char where
  "squote \<equiv> CHR 0x27"

definition to_lower :: "char \<Rightarrow> char" where
  "to_lower c = (if 65 \<le> byte c \<and> byte c \<le> 90 then char_of (byte c + 32) else c)"

definition is_space :: "char \<Rightarrow> bool" where
  "is_space c \<longleftrightarrow> byte c = 32 \<or> (9 \<le> byte c \<and> byte c \<le> 13)"

definition is_digit :: "char \<Rightarrow> bool" where
  "is_digit c \<longleftrightarrow> 48 \<le> byte c \<and> byte c \<le> 57"

definition is_alpha :: "char \<Rightarrow> bool" where
  "is_alpha c \<longleftrightarrow> (65 \<le> byte c \<and> byte c \<le> 90) \<or> (97 \<le> byte c \<and> byte c \<le> 122)"

definition is_alnum :: "char \<Rightarrow> bool" where
  "is_alnum c \<longleftrightarrow> is_alpha c \<or> is_digit c"

definition is_punct :: "char \<Rightarrow> bool" where
  "is_punct c \<longleftrightarrow> 33 \<le> byte c \<and> byte c \<le> 126 \<and> \<not> is_alnum c"

lemma byte_less_256 [simp, byte_simps]: "byte c < 256"
  using of_char_mod_256 [of c, where ?'a = nat] by (metis mod_less_divisor zero_less_numeral)

lemma byte_char_of [simp]: "n < 256 \<Longrightarrow> byte (char_of n) = n"
  by (simp add: of_char_of)

lemma byte_eq_iff: "byte c = byte d \<longleftrightarrow> c = d"
  by (simp add: of_char_eq_iff)

lemma to_lower_idem [simp]: "to_lower (to_lower c) = to_lower c"
  by (simp add: to_lower_def)

lemma byte_to_lower:
  "byte (to_lower c) = (if 65 \<le> byte c \<and> byte c \<le> 90 then byte c + 32 else byte c)"
  by (simp add: to_lower_def)

definition ascii_lower :: "string \<Rightarrow> string" where
  "ascii_lower s = map to_lower s"

definition forward_slashes :: "string \<Rightarrow> string" where
  "forward_slashes s = map (\<lambda>c. if c = backslash then CHR ''/'' else c) s"

lemma ascii_lower_simps [simp]:
  "ascii_lower [] = []"
  "ascii_lower (c # s) = to_lower c # ascii_lower s"
  "ascii_lower (s @ t) = ascii_lower s @ ascii_lower t"
  "length (ascii_lower s) = length s"
  "ascii_lower (ascii_lower s) = ascii_lower s"
  by (simp_all add: ascii_lower_def comp_def)

lemma forward_slashes_simps [simp]:
  "forward_slashes [] = []"
  "forward_slashes (c # s) = (if c = backslash then CHR ''/'' else c) # forward_slashes s"
  "forward_slashes (s @ t) = forward_slashes s @ forward_slashes t"
  "length (forward_slashes s) = length s"
  "forward_slashes (forward_slashes s) = forward_slashes s"
  by (simp_all add: forward_slashes_def comp_def)

lemma no_backslash_forward_slashes [simp]: "backslash \<notin> set (forward_slashes s)"
  by (auto simp: forward_slashes_def)

section \<open>Strings\<close>

text \<open>\<open>hay.find(needle) != npos\<close>, and the disjunction over a list of needles.\<close>

definition contains :: "string \<Rightarrow> string \<Rightarrow> bool" where
  "contains hay needle \<longleftrightarrow> sublist needle hay"

definition contains_any :: "string \<Rightarrow> string list \<Rightarrow> bool" where
  "contains_any hay needles \<longleftrightarrow> list_ex (contains hay) needles"

lemma contains_iff: "contains hay needle \<longleftrightarrow> (\<exists>u v. hay = u @ needle @ v)"
  by (simp add: contains_def sublist_def)

lemma containsI: "contains (u @ needle @ v) needle"
  by (auto simp: contains_iff)

lemma contains_any_iff: "contains_any hay ns \<longleftrightarrow> (\<exists>n\<in>set ns. contains hay n)"
  by (simp add: contains_any_def list_ex_iff)

lemma contains_ext: "contains hay n \<Longrightarrow> contains (u @ hay @ v) n"
  unfolding contains_iff by (metis append.assoc)

lemma contains_any_ext: "contains_any hay ns \<Longrightarrow> contains_any (u @ hay @ v) ns"
  unfolding contains_any_iff using contains_ext by blast

text \<open>\<open>hay.find(needle)\<close>: the least offset at which the needle occurs.\<close>

fun str_find :: "string \<Rightarrow> string \<Rightarrow> nat option" where
  "str_find needle [] = (if needle = [] then Some 0 else None)"
| "str_find needle (c # hay) =
     (if prefix needle (c # hay) then Some 0 else map_option Suc (str_find needle hay))"

lemma str_find_SomeD:
  "str_find needle hay = Some i \<Longrightarrow> i + length needle \<le> length hay \<and>
     take (length needle) (drop i hay) = needle"
proof (induction hay arbitrary: i)
  case Nil
  then show ?case by (simp split: if_splits)
next
  case (Cons c hay)
  show ?case
  proof (cases "prefix needle (c # hay)")
    case True
    with Cons.prems show ?thesis
      by (auto simp: prefix_def dest: arg_cong [where f = length])
  next
    case False
    with Cons.prems obtain j where "str_find needle hay = Some j" "i = Suc j" by auto
    with Cons.IH show ?thesis by simp
  qed
qed

lemma str_find_None_iff: "str_find needle hay = None \<longleftrightarrow> \<not> contains hay needle"
  by (induction needle hay rule: str_find.induct) (auto simp: contains_def sublist_Cons_right)

lemma str_find_append_Some:
  "str_find needle hay = Some i \<Longrightarrow> str_find needle (hay @ more) = Some i"
proof (induction hay arbitrary: i)
  case Nil
  then show ?case by (cases more) (auto split: if_splits)
next
  case (Cons c hay)
  show ?case
  proof (cases "prefix needle (c # hay)")
    case True
    then have "prefix needle ((c # hay) @ more)" by (rule prefix_prefix)
    then have "prefix needle (c # hay @ more)" by simp
    with True Cons.prems show ?thesis by simp
  next
    case False
    with Cons.prems obtain j where j: "str_find needle hay = Some j" "i = Suc j" by auto
    from str_find_SomeD [OF j(1)] have "length needle \<le> length hay" by simp
    with False have "\<not> prefix needle (c # hay @ more)"
      by (metis append_Cons length_Cons le_SucI prefix_append prefix_def prefix_length_le
          prefix_length_prefix)
    with j Cons.IH show ?thesis by simp
  qed
qed

text \<open>Trimming at both ends by a predicate (the \<open>find_if_not\<close> idiom).\<close>

definition rstrip :: "('a \<Rightarrow> bool) \<Rightarrow> 'a list \<Rightarrow> 'a list" where
  "rstrip P s = rev (dropWhile P (rev s))"

definition trim_by :: "('a \<Rightarrow> bool) \<Rightarrow> 'a list \<Rightarrow> 'a list" where
  "trim_by P s = rstrip P (dropWhile P s)"

lemma rstrip_append:
  "rstrip P (xs @ [x]) = (if P x then rstrip P xs else xs @ [x])"
  by (simp add: rstrip_def)

lemma rstrip_Nil [simp]: "rstrip P [] = []"
  by (simp add: rstrip_def)

lemma rstrip_last: "rstrip P s \<noteq> [] \<Longrightarrow> \<not> P (last (rstrip P s))"
  by (simp add: rstrip_def last_rev hd_dropWhile)

lemma rstrip_id: "s = [] \<or> \<not> P (last s) \<Longrightarrow> rstrip P s = s"
  by (cases s rule: rev_cases) (auto simp: rstrip_def)

lemma rstrip_idem [simp]: "rstrip P (rstrip P s) = rstrip P s"
  using rstrip_last rstrip_id by metis

lemma prefix_rstrip: "prefix (rstrip P s) s"
  by (metis rstrip_def suffix_dropWhile suffix_to_prefix rev_rev_ident)

lemma prefix_take_iff: "prefix xs ys \<longleftrightarrow> length xs \<le> length ys \<and> xs = take (length xs) ys"
  by (metis append_eq_conv_conj length_take min.absorb2 prefix_def prefix_length_le take_is_prefix)

lemma hd_prefix: "prefix xs ys \<Longrightarrow> xs \<noteq> [] \<Longrightarrow> hd xs = hd ys"
  by (auto simp: prefix_def)

lemma trim_by_ends:
  assumes "trim_by P s \<noteq> []"
  shows "\<not> P (hd (trim_by P s)) \<and> \<not> P (last (trim_by P s))"
proof -
  let ?d = "dropWhile P s"
  have p: "prefix (rstrip P ?d) ?d" by (rule prefix_rstrip)
  from assms have r: "rstrip P ?d \<noteq> []" by (simp add: trim_by_def)
  then have d: "?d \<noteq> []" by (metis rstrip_Nil)
  have "hd (rstrip P ?d) = hd ?d" using p r by (rule hd_prefix)
  with r d show ?thesis
    by (metis trim_by_def rstrip_last hd_dropWhile)
qed

lemma trim_by_idem [simp]: "trim_by P (trim_by P s) = trim_by P s"
proof (cases "trim_by P s = []")
  case True
  then show ?thesis by (simp add: trim_by_def)
next
  case False
  with trim_by_ends have h: "\<not> P (hd (trim_by P s))" and l: "\<not> P (last (trim_by P s))" by blast+
  from False h have "dropWhile P (trim_by P s) = trim_by P s"
    by (cases "trim_by P s") auto
  with l show ?thesis by (simp add: trim_by_def rstrip_id)
qed

text \<open>Splitting at every occurrence of a byte; there is always at least one segment.\<close>

fun split_on :: "'a \<Rightarrow> 'a list \<Rightarrow> 'a list list" where
  "split_on d [] = [[]]"
| "split_on d (c # s) =
     (if c = d then [] # split_on d s
      else (case split_on d s of [] \<Rightarrow> [[c]] | seg # segs \<Rightarrow> (c # seg) # segs))"

lemma split_on_not_Nil [simp]: "split_on d s \<noteq> []"
  by (cases s) (auto split: list.splits)

lemma split_on_no_sep: "seg \<in> set (split_on d s) \<Longrightarrow> d \<notin> set seg"
  by (induction s arbitrary: seg) (auto split: if_splits list.splits)

fun join_with :: "'a \<Rightarrow> 'a list list \<Rightarrow> 'a list" where
  "join_with d [] = []"
| "join_with d [s] = s"
| "join_with d (s # t # ss) = s @ d # join_with d (t # ss)"

lemma join_split: "join_with d (split_on d s) = s"
proof (induction s)
  case Nil
  then show ?case by simp
next
  case (Cons c s)
  then show ?case
    by (cases "split_on d s"; cases "tl (split_on d s)") (auto split: list.splits)
qed

lemma split_on_sepfree: "d \<notin> set s \<Longrightarrow> split_on d s = [s]"
  by (induction s) auto

lemma split_on_append: "d \<notin> set s \<Longrightarrow> split_on d (s @ d # t) = s # split_on d t"
  by (induction s) auto

lemma strict_sorted_distinct: "sorted_wrt (<) (xs :: 'a :: linorder list) \<Longrightarrow> distinct xs"
  by (simp add: strict_sorted_iff)

lemma count_list_distinct: "distinct xs \<Longrightarrow> count_list xs x = (if x \<in> set xs then 1 else 0)"
  by (induction xs) auto

section \<open>Decimal numbers\<close>

text \<open>\<open>std::to_string\<close> on non-negative and on signed integers, and reading digits back.\<close>

definition digit_char :: "nat \<Rightarrow> char" where
  "digit_char d = char_of (48 + d)"

definition digit_val :: "char \<Rightarrow> nat" where
  "digit_val c = byte c - 48"

fun show_nat :: "nat \<Rightarrow> string" where
  "show_nat n = (if n < 10 then [digit_char n] else show_nat (n div 10) @ [digit_char (n mod 10)])"

declare show_nat.simps [simp del]

definition show_int :: "int \<Rightarrow> string" where
  "show_int i = (if i < 0 then CHR ''-'' # show_nat (nat (- i)) else show_nat (nat i))"

definition digits_val :: "string \<Rightarrow> nat" where
  "digits_val s = foldl (\<lambda>v c. v * 10 + digit_val c) 0 s"

lemma digit_char_props [simp]:
  "d < 10 \<Longrightarrow> is_digit (digit_char d)"
  "d < 10 \<Longrightarrow> digit_val (digit_char d) = d"
  by (simp_all add: is_digit_def digit_char_def digit_val_def)

lemma show_nat_not_Nil [simp]: "show_nat n \<noteq> []"
  by (subst show_nat.simps) simp

lemma show_nat_digits: "list_all is_digit (show_nat n)"
proof (induction n rule: show_nat.induct)
  case (1 n)
  then show ?case by (subst show_nat.simps) simp
qed

lemma digits_val_snoc: "digits_val (s @ [c]) = digits_val s * 10 + digit_val c"
  by (simp add: digits_val_def)

lemma digits_val_show_nat [simp]: "digits_val (show_nat n) = n"
proof (induction n rule: show_nat.induct)
  case (1 n)
  show ?case
  proof (cases "n < 10")
    case True
    then show ?thesis by (subst show_nat.simps) (simp add: digits_val_def)
  next
    case False
    with 1 show ?thesis by (subst show_nat.simps) (simp add: digits_val_snoc)
  qed
qed

lemma show_nat_inject: "show_nat m = show_nat n \<longleftrightarrow> m = n"
  using digits_val_show_nat by metis

section \<open>Interfaces\<close>

text \<open>A component whose operations keep an invariant keeps it over every run.\<close>

locale op_machine =
  fixes step :: "'op \<Rightarrow> 's \<Rightarrow> 's"
    and inv :: "'s \<Rightarrow> bool"
  assumes step_inv: "inv s \<Longrightarrow> inv (step oper s)"
begin

lemma run_inv: "inv s \<Longrightarrow> inv (fold step ops s)"
  by (induction ops arbitrary: s) (simp_all add: step_inv)

lemma run_prefix_inv: "inv s \<Longrightarrow> inv (fold step (take n ops) s)"
  by (rule run_inv)

end

text \<open>A consumer of a stream that arrives in chunks: if one chunk takes a state that stands for what was
  read to one that stands for the longer text, any cutting of the stream ends in such a state.\<close>

locale chunked_feed =
  fixes feed :: "'a list \<Rightarrow> 's \<Rightarrow> 's"
    and stands :: "'s \<Rightarrow> 'a list \<Rightarrow> bool"
  assumes feed_stands: "stands s xs \<Longrightarrow> stands (feed ys s) (xs @ ys)"
begin

lemma fold_stands: "stands s xs \<Longrightarrow> stands (fold feed chunks s) (xs @ concat chunks)"
proof (induction chunks arbitrary: s xs)
  case (Cons c chunks)
  from Cons.IH [OF feed_stands [OF Cons.prems, of c]] show ?case by simp
qed simp

lemma fold_stands_Nil: "stands s [] \<Longrightarrow> stands (fold feed chunks s) (concat chunks)"
  using fold_stands [of s "[]" chunks] by simp

end

text \<open>A question that several parties may answer: once there is an answer, no step changes it.\<close>

locale first_answer =
  fixes step :: "'s \<Rightarrow> 's \<Rightarrow> bool"
    and answer :: "'s \<Rightarrow> 'a option"
  assumes answer_kept: "step s s' \<Longrightarrow> answer s = Some a \<Longrightarrow> answer s' = Some a"
begin

lemma answer_final: "step\<^sup>*\<^sup>* s s' \<Longrightarrow> answer s = Some a \<Longrightarrow> answer s' = Some a"
  by (induction rule: rtranclp_induct) (auto dest: answer_kept)

lemma answers_agree: "step\<^sup>*\<^sup>* s s' \<Longrightarrow> answer s = Some a \<Longrightarrow> answer s' = Some b \<Longrightarrow> a = b"
  by (simp add: answer_final)

end

text \<open>An encoder with a partial decoder that undoes it.\<close>

locale codec =
  fixes enc :: "'a \<Rightarrow> 'b"
    and dec :: "'b \<Rightarrow> 'a option"
  assumes dec_enc: "dec (enc x) = Some x"
begin

lemma enc_inject: "enc x = enc y \<longleftrightarrow> x = y"
  by (metis dec_enc option.inject)

lemma inj_enc: "inj enc"
  by (rule injI) (simp add: enc_inject)

end

interpretation decimal: codec show_nat "\<lambda>s. if list_all is_digit s \<and> s \<noteq> [] then Some (digits_val s) else None"
  by unfold_locales (simp add: show_nat_digits)

end
