(* ===== verification/Permissions.thy ===== *)
theory Permissions
  imports Prelude "HOL-Library.Multiset"
begin

text \<open>
  The permission rules engine of \<open>src/src/permissions.hpp\<close>: rules, modes, the
  \<open>PermissionManager\<close> with its Plan-mode memory, and the glob matcher the rules use.

  \<^item> \<open>permission_manager\<close> is the class's fields; each member function is a definition
    from the state (and arguments) to the new state or to its answer. The atomics and the
    mutex make each of them one step.
  \<^item> \<open>std::sort\<close> does not fix the order of rules of equal priority, so the sort is an
    argument \<open>srt\<close>; the locale \<open>rule_sorting\<close> states what the standard promises of it.
  \<^item> \<open>glob_match_impl\<close> is the pointer loop over two NUL-terminated strings; a string
    that goes through \<open>c_str()\<close> is cut at its first NUL byte.

  The lemmas relate the matcher to a declarative glob semantics (sound, and complete on the
  patterns where no single star stands before a slash or at the end), show when a Deny rule
  wins, and what Plan mode remembers.
\<close>

section \<open>Rules and modes\<close>

datatype rule_action = RuleAllow | RuleDeny

record permission_rule =
  tool_pattern :: string
  path_pattern :: string
  command_pattern :: string
  rule_act :: rule_action
  rule_priority :: int

datatype permission_mode = Default | AcceptEdits | Yolo | Plan

datatype permission_result = Allow | Deny | AlwaysAllow

record permission_manager =
  pm_mode :: permission_mode
  pm_pre_plan :: permission_mode
  pm_has_pre_plan :: bool
  pm_dangerous :: bool
  pm_session_allowed :: "string set"
  pm_rules :: "permission_rule list"

definition init_manager :: permission_manager where
  "init_manager = \<lparr>pm_mode = Default, pm_pre_plan = Default, pm_has_pre_plan = False,
     pm_dangerous = False, pm_session_allowed = {}, pm_rules = []\<rparr>"

definition set_mode :: "permission_mode \<Rightarrow> permission_manager \<Rightarrow> permission_manager" where
  "set_mode m pm =
     (let current = pm_mode pm;
          pm1 = (if m = Plan
                 then (if current \<noteq> Plan
                       then pm\<lparr>pm_pre_plan := current, pm_has_pre_plan := True\<rparr> else pm)
                 else pm\<lparr>pm_has_pre_plan := False\<rparr>)
      in pm1\<lparr>pm_mode := m\<rparr>)"

definition pre_plan_mode :: "permission_manager \<Rightarrow> permission_mode" where
  "pre_plan_mode pm =
     (if \<not> pm_has_pre_plan pm then Default
      else if pm_pre_plan pm = Plan then Default else pm_pre_plan pm)"

definition set_pre_plan_mode :: "permission_mode \<Rightarrow> permission_manager \<Rightarrow> permission_manager" where
  "set_pre_plan_mode m pm =
     pm\<lparr>pm_pre_plan := (if m = Plan then Default else m), pm_has_pre_plan := True\<rparr>"

definition clear_session_allows :: "permission_manager \<Rightarrow> permission_manager" where
  "clear_session_allows pm = pm\<lparr>pm_session_allowed := {}\<rparr>"

definition restore_pre_plan_mode :: "permission_manager \<Rightarrow> permission_mode \<times> permission_manager" where
  "restore_pre_plan_mode pm =
     (let restored = pre_plan_mode pm
      in (restored, clear_session_allows (pm\<lparr>pm_mode := restored, pm_has_pre_plan := False\<rparr>)))"

definition set_dangerous :: "bool \<Rightarrow> permission_manager \<Rightarrow> permission_manager" where
  "set_dangerous enabled pm = pm\<lparr>pm_dangerous := enabled\<rparr>"

definition add_rule :: "permission_rule \<Rightarrow> permission_manager \<Rightarrow> permission_manager" where
  "add_rule r pm = pm\<lparr>pm_rules := pm_rules pm @ [r]\<rparr>"

definition add_session_allow :: "string \<Rightarrow> permission_manager \<Rightarrow> permission_manager" where
  "add_session_allow tool pm = pm\<lparr>pm_session_allowed := insert tool (pm_session_allowed pm)\<rparr>"

definition has_session_allow :: "string \<Rightarrow> permission_manager \<Rightarrow> bool" where
  "has_session_allow tool pm \<longleftrightarrow> tool \<in> pm_session_allowed pm"

fun next_mode :: "permission_mode \<Rightarrow> permission_mode" where
  "next_mode Default = AcceptEdits"
| "next_mode AcceptEdits = Yolo"
| "next_mode Yolo = Plan"
| "next_mode Plan = Default"

definition cycle_mode :: "permission_manager \<Rightarrow> permission_mode \<times> permission_manager" where
  "cycle_mode pm =
     (let next = next_mode (pm_mode pm) in (next, clear_session_allows (set_mode next pm)))"

fun mode_name :: "permission_mode \<Rightarrow> string" where
  "mode_name Default = ''default''"
| "mode_name AcceptEdits = ''accept-edits''"
| "mode_name Yolo = ''yolo''"
| "mode_name Plan = ''plan''"

fun mode_description :: "permission_mode \<Rightarrow> string" where
  "mode_description Default = ''Prompt for write/exec tools''"
| "mode_description AcceptEdits = ''Auto-allow file edits, prompt for bash''"
| "mode_description Yolo = ''Auto-allow tools; confirm first external file write''"
| "mode_description Plan = ''Plan first, approve before coding''"

section \<open>Glob matching\<close>

definition c_str :: "string \<Rightarrow> string" where
  "c_str s = takeWhile (\<lambda>c. c \<noteq> CHR 0x00) s"

abbreviation star :: char where
  "star \<equiv> CHR ''*''"

text \<open>
  The positions the two inner loops try: \<open>**\<close> tries every non-empty suffix and then the
  empty one; \<open>*\<close> tries the suffixes from \<open>t\<close> up to, but not including, the first one
  that starts with a slash or is empty, and then \<open>t\<close> itself once more.
\<close>

fun nonempty_suffixes :: "'a list \<Rightarrow> 'a list list" where
  "nonempty_suffixes [] = []"
| "nonempty_suffixes (c # t) = (c # t) # nonempty_suffixes t"

fun star_suffixes :: "string \<Rightarrow> string list" where
  "star_suffixes [] = []"
| "star_suffixes (c # t) = (if c = slash then [] else (c # t) # star_suffixes t)"

function glob_match_impl :: "string \<Rightarrow> string \<Rightarrow> bool" where
  "glob_match_impl [] t = (t = [])"
| "glob_match_impl (p # ps) t =
     (if p = star \<and> ps \<noteq> [] \<and> hd ps = star then
        (let rest = tl ps;
             rest' = (if rest \<noteq> [] \<and> hd rest = slash then tl rest else rest)
         in if rest' = [] then True
            else list_ex (glob_match_impl rest') (nonempty_suffixes t) \<or> glob_match_impl rest' [])
      else if p = star then
        list_ex (glob_match_impl ps) (star_suffixes t) \<or> glob_match_impl ps t
      else if p = CHR ''?'' then
        (if t = [] \<or> hd t = slash then False else glob_match_impl ps (tl t))
      else
        (if t = [] then False
         else if to_lower p \<noteq> to_lower (hd t) then False
         else glob_match_impl ps (tl t)))"
  by pat_completeness auto
termination
  by (relation "measure (\<lambda>(p, t). length p)") auto

text \<open>
  The last branch compares \<open>*p\<close> with \<open>*t\<close>; at the end of the text \<open>*t\<close> is the NUL byte,
  which differs from every byte of a pattern cut by \<open>c_str\<close>.
\<close>

definition glob_match :: "string \<Rightarrow> string \<Rightarrow> bool" where
  "glob_match pattern text \<longleftrightarrow> pattern = [] \<or> glob_match_impl (c_str pattern) (c_str text)"

definition normalize_path :: "string \<Rightarrow> string" where
  "normalize_path p = forward_slashes p"

definition rule_matches :: "permission_rule \<Rightarrow> string \<Rightarrow> string \<Rightarrow> string \<Rightarrow> bool" where
  "rule_matches rule tool_name path command =
     (if tool_pattern rule \<noteq> [] \<and> \<not> glob_match (tool_pattern rule) tool_name then False
      else if path_pattern rule \<noteq> [] \<and> path \<noteq> [] \<and>
              \<not> glob_match (path_pattern rule) (normalize_path path) then False
      else if path_pattern rule \<noteq> [] \<and> path = [] then False
      else if command_pattern rule \<noteq> [] \<and> command \<noteq> [] \<and>
              take (length (command_pattern rule)) command \<noteq> command_pattern rule then False
      else if command_pattern rule \<noteq> [] \<and> command = [] then False
      else True)"

section \<open>The decision\<close>

definition native_agent_browser_tools :: "string list" where
  "native_agent_browser_tools =
     [''browser_open'', ''browser_navigate'', ''browser_read_page'', ''browser_click'',
      ''browser_fill'', ''browser_type'', ''browser_press'', ''browser_hover'', ''browser_drag'',
      ''browser_scroll'', ''browser_wait'', ''browser_screenshot'', ''browser_handle_dialog'',
      ''browser_evaluate'', ''browser_close'']"

fun first_match :: "permission_rule list \<Rightarrow> string \<Rightarrow> string \<Rightarrow> string \<Rightarrow> rule_action option" where
  "first_match [] tool path cmd = None"
| "first_match (r # rs) tool path cmd =
     (if rule_matches r tool path cmd then Some (rule_act r) else first_match rs tool path cmd)"

definition should_auto_allow ::
  "(permission_rule list \<Rightarrow> permission_rule list) \<Rightarrow> permission_manager \<Rightarrow>
     string \<Rightarrow> bool \<Rightarrow> string \<Rightarrow> string \<Rightarrow> bool" where
  "should_auto_allow srt pm tool_name is_read_only path command =
     (if pm_dangerous pm then True
      else case first_match (if pm_rules pm = [] then [] else srt (pm_rules pm)) tool_name path command of
        Some RuleDeny \<Rightarrow> False
      | Some RuleAllow \<Rightarrow> True
      | None \<Rightarrow>
          if pm_mode pm = Yolo then True
          else if is_read_only then True
          else if tool_name = ''memory_write'' then True
          else if tool_name = ''task_complete'' then True
          else if tool_name = ''TodoWrite'' then True
          else if tool_name \<in> set native_agent_browser_tools then True
          else if tool_name \<in> pm_session_allowed pm then True
          else if pm_mode pm = AcceptEdits \<and> (tool_name = ''file_write'' \<or> tool_name = ''file_edit'')
               then True
          else False)"

section \<open>The glob matcher against a declarative semantics\<close>

declare glob_match_impl.simps(2) [simp del]

lemma nonempty_suffixes_iff:
  "s \<in> set (nonempty_suffixes t) \<longleftrightarrow> s \<noteq> [] \<and> (\<exists>u. t = u @ s)"
  by (induction t) (auto simp: Cons_eq_append_conv)

lemma star_suffixes_iff:
  "s \<in> set (star_suffixes t) \<longleftrightarrow>
     s \<noteq> [] \<and> hd s \<noteq> slash \<and> (\<exists>u. t = u @ s \<and> slash \<notin> set u)"
  by (induction t) (auto simp: Cons_eq_append_conv)

text \<open>
  What the comments promise: \<open>*\<close> is any run without a slash, \<open>**\<close> any run at all, a slash
  after \<open>**\<close> is optional, \<open>?\<close> is one byte that is no slash, letters match in either case.
\<close>

definition skip_slash :: "string \<Rightarrow> string" where
  "skip_slash ps = (if ps \<noteq> [] \<and> hd ps = slash then tl ps else ps)"

inductive glob_sem :: "string \<Rightarrow> string \<Rightarrow> bool" where
  empty: "glob_sem [] []"
| dstar: "glob_sem (skip_slash ps) t \<Longrightarrow> glob_sem (star # star # ps) (u @ t)"
| single: "slash \<notin> set u \<Longrightarrow> ps = [] \<or> hd ps \<noteq> star \<Longrightarrow> glob_sem ps t \<Longrightarrow>
     glob_sem (star # ps) (u @ t)"
| any: "c \<noteq> slash \<Longrightarrow> glob_sem ps t \<Longrightarrow> glob_sem (CHR ''?'' # ps) (c # t)"
| lit: "p \<noteq> star \<Longrightarrow> p \<noteq> CHR ''?'' \<Longrightarrow> to_lower p = to_lower c \<Longrightarrow> glob_sem ps t \<Longrightarrow>
     glob_sem (p # ps) (c # t)"

inductive_cases glob_sem_NilE: "glob_sem [] t"

inductive_cases glob_sem_ConsE: "glob_sem (p # ps) t"

lemma glob_sem_Nil [simp]: "glob_sem [] t \<longleftrightarrow> t = []"
  by (auto elim: glob_sem_NilE intro: glob_sem.empty)

lemma impl_dstar:
  "glob_match_impl (star # star # ps) t \<longleftrightarrow> (\<exists>u s. t = u @ s \<and> glob_match_impl (skip_slash ps) s)"
proof (cases "skip_slash ps = []")
  case True
  then show ?thesis
    by (simp add: glob_match_impl.simps(2) [of star] skip_slash_def Let_def del: split_paired_Ex)
next
  case False
  then have "glob_match_impl (star # star # ps) t \<longleftrightarrow>
      list_ex (glob_match_impl (skip_slash ps)) (nonempty_suffixes t) \<or> glob_match_impl (skip_slash ps) []"
    by (simp add: glob_match_impl.simps(2) [of star] skip_slash_def Let_def)
  also have "\<dots> \<longleftrightarrow> (\<exists>u s. t = u @ s \<and> glob_match_impl (skip_slash ps) s)"
    unfolding list_ex_iff Bex_def nonempty_suffixes_iff by (metis append_Nil2)
  finally show ?thesis .
qed

lemma impl_star:
  assumes "ps = [] \<or> hd ps \<noteq> star"
  shows "glob_match_impl (star # ps) t \<longleftrightarrow> glob_match_impl ps t \<or>
    (\<exists>u s. t = u @ s \<and> slash \<notin> set u \<and> s \<noteq> [] \<and> hd s \<noteq> slash \<and> glob_match_impl ps s)"
proof -
  from assms have "glob_match_impl (star # ps) t \<longleftrightarrow>
      list_ex (glob_match_impl ps) (star_suffixes t) \<or> glob_match_impl ps t"
    by (auto simp: glob_match_impl.simps(2) [of star])
  then show ?thesis unfolding list_ex_iff Bex_def star_suffixes_iff by blast
qed

lemma impl_starD:
  assumes "glob_match_impl (star # ps) t" "ps = [] \<or> hd ps \<noteq> star"
  obtains u s where "t = u @ s" "slash \<notin> set u" "glob_match_impl ps s"
proof -
  from assms impl_star [of ps t]
  have "\<exists>u s. t = u @ s \<and> slash \<notin> set u \<and> glob_match_impl ps s"
    by (metis append_Nil empty_iff list.set(1))
  then show thesis using that by blast
qed

lemma impl_any:
  "glob_match_impl (CHR ''?'' # ps) t \<longleftrightarrow> t \<noteq> [] \<and> hd t \<noteq> slash \<and> glob_match_impl ps (tl t)"
  by (simp add: glob_match_impl.simps(2) [of "CHR ''?''"])

lemma impl_lit:
  "p \<noteq> star \<Longrightarrow> p \<noteq> CHR ''?'' \<Longrightarrow>
     glob_match_impl (p # ps) t \<longleftrightarrow> t \<noteq> [] \<and> to_lower p = to_lower (hd t) \<and> glob_match_impl ps (tl t)"
  by (simp add: glob_match_impl.simps(2) [of p])

lemmas impl_simps = impl_dstar impl_star impl_any impl_lit

lemma pattern_cases [case_names empty dstar single any lit]:
  assumes "ps = [] \<Longrightarrow> P"
    and "\<And>qs. ps = star # star # qs \<Longrightarrow> P"
    and "\<And>qs. ps = star # qs \<Longrightarrow> qs = [] \<or> hd qs \<noteq> star \<Longrightarrow> P"
    and "\<And>qs. ps = CHR ''?'' # qs \<Longrightarrow> P"
    and "\<And>p qs. ps = p # qs \<Longrightarrow> p \<noteq> star \<Longrightarrow> p \<noteq> CHR ''?'' \<Longrightarrow> P"
  shows P
  using assms by (metis list.collapse)

lemma length_skip_slash: "length (skip_slash ps) \<le> length ps"
  by (simp add: skip_slash_def)

lemma glob_impl_sound: "glob_match_impl ps t \<Longrightarrow> glob_sem ps t"
proof (induction "length ps" arbitrary: ps t rule: less_induct)
  case less
  note IH = less.hyps
  show ?case
  proof (cases ps rule: pattern_cases)
    case empty
    with less.prems show ?thesis by simp
  next
    case (dstar qs)
    with less.prems obtain u s where s: "t = u @ s" "glob_match_impl (skip_slash qs) s"
      by (auto simp: impl_dstar)
    have "glob_sem (skip_slash qs) s"
      using IH s(2) length_skip_slash [of qs] dstar by simp
    with s dstar show ?thesis by (auto intro: glob_sem.dstar)
  next
    case (single qs)
    with less.prems obtain u s where s: "t = u @ s" "slash \<notin> set u" "glob_match_impl qs s"
      using impl_starD by blast
    then have "glob_sem qs s" using IH single by simp
    with s single show ?thesis by (auto intro: glob_sem.single)
  next
    case (any qs)
    with less.prems obtain c s where "t = c # s" "c \<noteq> slash" "glob_match_impl qs s"
      by (cases t) (auto simp: impl_any)
    with any IH show ?thesis by (auto intro: glob_sem.any)
  next
    case (lit p qs)
    with less.prems obtain c s where "t = c # s" "to_lower p = to_lower c" "glob_match_impl qs s"
      by (cases t) (auto simp: impl_lit)
    with lit IH show ?thesis by (auto intro: glob_sem.lit)
  qed
qed

text \<open>No single star stands at the end of the pattern or before a slash.\<close>

function stars_anchored :: "string \<Rightarrow> bool" where
  "stars_anchored [] = True"
| "stars_anchored (p # ps) =
     (if p = star \<and> ps \<noteq> [] \<and> hd ps = star then stars_anchored (skip_slash (tl ps))
      else if p = star then ps \<noteq> [] \<and> hd ps \<noteq> slash \<and> stars_anchored ps
      else stars_anchored ps)"
  by pat_completeness auto
termination
  by (relation "measure length") (auto simp: skip_slash_def)

lemma anchored_needs_byte:
  assumes "glob_match_impl ps s" "ps \<noteq> []" "hd ps \<noteq> slash" "hd ps \<noteq> star"
  shows "s \<noteq> [] \<and> hd s \<noteq> slash"
proof -
  from assms obtain p qs where ps: "ps = p # qs" "p \<noteq> star" "p \<noteq> slash" by (cases ps) auto
  show ?thesis
  proof (cases "p = CHR ''?''")
    case True
    with assms ps show ?thesis by (auto simp: impl_any)
  next
    case False
    have "to_lower p \<noteq> to_lower slash" if "p \<noteq> slash"
    proof
      assume "to_lower p = to_lower slash"
      then have "byte (to_lower p) = 47" by (simp add: to_lower_def)
      then have "byte p = byte slash" by (simp add: byte_to_lower split: if_splits)
      with that show False by (simp only: byte_eq_iff)
    qed
    with False assms ps show ?thesis by (auto simp: impl_lit)
  qed
qed

lemma glob_impl_complete: "glob_sem ps t \<Longrightarrow> stars_anchored ps \<Longrightarrow> glob_match_impl ps t"
proof (induction rule: glob_sem.induct)
  case empty
  then show ?case by simp
next
  case (dstar ps t u)
  then show ?case by (auto simp: impl_dstar)
next
  case (single u ps t)
  then have ps: "ps \<noteq> []" "hd ps \<noteq> slash" "hd ps \<noteq> star" "glob_match_impl ps t" by auto
  with anchored_needs_byte have "t \<noteq> []" "hd t \<noteq> slash" by auto
  with ps single.hyps show ?case by (auto simp: impl_star)
next
  case (any c ps t)
  then show ?case by (auto simp: impl_any)
next
  case (lit p c ps t)
  then show ?case by (auto simp: impl_lit)
qed

lemma single_star_only_empty: "glob_match_impl [star] t \<longleftrightarrow> t = []"
  by (auto simp: impl_star)

section \<open>Start-up rules\<close>

definition permission_mode_from_meta_name :: "string \<Rightarrow> permission_mode" where
  "permission_mode_from_meta_name m =
     (let m' = (if m = ''acceptEdits'' then ''accept-edits'' else m)
      in if m' = ''accept-edits'' then AcceptEdits
         else if m' = ''yolo'' then Yolo
         else if m' = ''plan'' then Plan
         else Default)"

definition deny_rule :: "string \<Rightarrow> string \<Rightarrow> string \<Rightarrow> permission_rule" where
  "deny_rule tool path cmd =
     \<lparr>tool_pattern = tool, path_pattern = path, command_pattern = cmd,
      rule_act = RuleDeny, rule_priority = 100\<rparr>"

definition configure_permissions :: "bool \<Rightarrow> string \<Rightarrow> permission_manager \<Rightarrow> permission_manager" where
  "configure_permissions dangerous default_mode pm =
     (let pm1 = set_mode (permission_mode_from_meta_name default_mode) pm;
          pm2 = (if dangerous then set_mode Yolo (set_dangerous True pm1) else pm1)
      in fold add_rule
           [deny_rule ''file_write'' ''*.env'' [], deny_rule ''file_edit'' ''*.env'' [],
            deny_rule ''file_write'' ''.git/**'' [], deny_rule ''file_edit'' ''.git/**'' [],
            deny_rule ''bash'' [] ''rm -rf /''] pm2)"

text \<open>Every mode is reached by its own name: the names are a code for the modes.\<close>

interpretation mode_code: codec mode_name "\<lambda>s. Some (permission_mode_from_meta_name s)"
proof
  show "Some (permission_mode_from_meta_name (mode_name m)) = Some m" for m
    by (cases m) (simp_all add: permission_mode_from_meta_name_def)
qed

section \<open>The order of evaluation\<close>

lemma first_match_find:
  "first_match rs tool path cmd = map_option rule_act (find (\<lambda>r. rule_matches r tool path cmd) rs)"
  by (induction rs) auto

lemma find_sorted_max:
  assumes "sorted_wrt (\<lambda>a b. rule_priority a \<ge> rule_priority b) rs"
    and "r \<in> set rs" "P r"
  shows "\<exists>q\<in>set rs. find P rs = Some q \<and> P q \<and> rule_priority r \<le> rule_priority q"
  using assms by (induction rs) auto

text \<open>What the standard promises of \<open>std::sort\<close> with the comparison \<open>a.priority > b.priority\<close>.\<close>

locale rule_sorting =
  fixes srt :: "permission_rule list \<Rightarrow> permission_rule list"
  assumes srt_perm: "mset (srt rs) = mset rs"
    and srt_desc: "sorted_wrt (\<lambda>a b. rule_priority a \<ge> rule_priority b) (srt rs)"
begin

lemma set_srt: "set (srt rs) = set rs"
  using srt_perm by (rule mset_eq_setD)

lemma first_match_srt:
  assumes "r \<in> set rs" "rule_matches r tool path cmd"
  shows "\<exists>q\<in>set rs. first_match (srt rs) tool path cmd = Some (rule_act q) \<and>
           rule_matches q tool path cmd \<and> rule_priority r \<le> rule_priority q"
  using find_sorted_max [OF srt_desc, of r rs "\<lambda>r. rule_matches r tool path cmd"] assms
  by (auto simp: first_match_find set_srt)

lemma first_match_None_iff:
  "first_match (srt rs) tool path cmd = None \<longleftrightarrow> (\<forall>r\<in>set rs. \<not> rule_matches r tool path cmd)"
  by (auto simp: first_match_find find_None_iff set_srt)

lemma top_deny_first:
  assumes "r \<in> set rs" "rule_matches r tool path cmd" "rule_act r = RuleDeny"
    and "\<And>q. q \<in> set rs \<Longrightarrow> rule_matches q tool path cmd \<Longrightarrow> rule_act q = RuleAllow \<Longrightarrow>
      rule_priority q < rule_priority r"
  shows "first_match (srt rs) tool path cmd = Some RuleDeny"
proof -
  obtain q where q: "q \<in> set rs" "first_match (srt rs) tool path cmd = Some (rule_act q)"
    "rule_matches q tool path cmd" "rule_priority r \<le> rule_priority q"
    using first_match_srt [OF assms(1,2)] by blast
  have "rule_act q \<noteq> RuleAllow"
    using assms(4) [OF q(1,3)] q(4) by fastforce
  with q(2) show ?thesis by (cases "rule_act q") auto
qed

lemma srt_Nil: "srt [] = []"
  using srt_perm [of "[]"] by simp

lemma auto_allow_cases:
  "should_auto_allow srt pm tool ro path cmd \<longleftrightarrow> pm_dangerous pm \<or>
     (case first_match (srt (pm_rules pm)) tool path cmd of
        Some a \<Rightarrow> a = RuleAllow
      | None \<Rightarrow> pm_mode pm = Yolo \<or> ro \<or> tool \<in> {''memory_write'', ''task_complete'', ''TodoWrite''} \<or>
          tool \<in> set native_agent_browser_tools \<or> tool \<in> pm_session_allowed pm \<or>
          pm_mode pm = AcceptEdits \<and> tool \<in> {''file_write'', ''file_edit''})"
  by (auto simp: should_auto_allow_def srt_Nil split: option.splits rule_action.splits)

end

interpretation stable_sort: rule_sorting "sort_key (\<lambda>r. - rule_priority r)"
proof
  fix rs :: "permission_rule list"
  show "mset (sort_key (\<lambda>r. - rule_priority r) rs) = mset rs" by simp
  have "sorted (map (\<lambda>r. - rule_priority r) (sort_key (\<lambda>r. - rule_priority r) rs))"
    by (rule sorted_sort_key)
  then show "sorted_wrt (\<lambda>a b. rule_priority a \<ge> rule_priority b) (sort_key (\<lambda>r. - rule_priority r) rs)"
    by (simp add: sorted_wrt_map)
qed

section \<open>Plan mode and the operations as a machine\<close>

datatype pm_op =
  SetMode permission_mode | SetPrePlanMode permission_mode | RestorePrePlan | SetDangerous bool
| AddRule permission_rule | AddSessionAllow string | ClearSessionAllows | CycleMode

fun pm_step :: "pm_op \<Rightarrow> permission_manager \<Rightarrow> permission_manager" where
  "pm_step (SetMode m) pm = set_mode m pm"
| "pm_step (SetPrePlanMode m) pm = set_pre_plan_mode m pm"
| "pm_step RestorePrePlan pm = snd (restore_pre_plan_mode pm)"
| "pm_step (SetDangerous b) pm = set_dangerous b pm"
| "pm_step (AddRule r) pm = add_rule r pm"
| "pm_step (AddSessionAllow t) pm = add_session_allow t pm"
| "pm_step ClearSessionAllows pm = clear_session_allows pm"
| "pm_step CycleMode pm = snd (cycle_mode pm)"

lemmas pm_defs = set_mode_def set_pre_plan_mode_def restore_pre_plan_mode_def set_dangerous_def
  add_rule_def add_session_allow_def clear_session_allows_def cycle_mode_def pre_plan_mode_def Let_def

text \<open>The Plan-mode memory: while in Plan mode the mode to return to is known and is not Plan.\<close>

definition plan_memory :: "permission_manager \<Rightarrow> bool" where
  "plan_memory pm \<longleftrightarrow>
     (pm_mode pm = Plan \<longrightarrow> pm_has_pre_plan pm \<and> pm_pre_plan pm \<noteq> Plan)"

lemma pm_step_plan_memory [inv_steps]: "plan_memory pm \<Longrightarrow> plan_memory (pm_step oper pm)"
  by (cases oper) (auto simp: plan_memory_def pm_defs)

interpretation pm_machine: op_machine pm_step plan_memory
  by unfold_locales (rule pm_step_plan_memory)

text \<open>The operations that keep the current mode and the memory untouched.\<close>

fun keeps_mode :: "pm_op \<Rightarrow> bool" where
  "keeps_mode (SetMode m) = (m = Plan)"
| "keeps_mode (SetPrePlanMode m) = False"
| "keeps_mode RestorePrePlan = False"
| "keeps_mode CycleMode = False"
| "keeps_mode _ = True"

lemma keeps_mode_run:
  "list_all keeps_mode ops \<Longrightarrow> pm_mode pm = Plan \<Longrightarrow>
     pm_mode (fold pm_step ops pm) = Plan \<and> pm_pre_plan (fold pm_step ops pm) = pm_pre_plan pm \<and>
     pm_has_pre_plan (fold pm_step ops pm) = pm_has_pre_plan pm"
proof (induction ops arbitrary: pm)
  case (Cons oper ops)
  from Cons.prems have "pm_mode (pm_step oper pm) = Plan \<and>
      pm_pre_plan (pm_step oper pm) = pm_pre_plan pm \<and>
      pm_has_pre_plan (pm_step oper pm) = pm_has_pre_plan pm"
    by (cases oper) (auto simp: pm_defs)
  with Cons show ?case by simp
qed simp

section \<open>Properties\<close>

text \<open>C33: A matching Deny rule that outranks every matching Allow rule is never auto-allowed,
  whatever the mode (Yolo included), the read-only flag and the session grants, and whichever
  order \<open>std::sort\<close> gives to rules of equal priority; only the dangerous flag bypasses it.\<close>

theorem deny_rule_outranks:
  assumes "\<And>rs. mset (srt rs) = mset rs"
    and "\<And>rs. sorted_wrt (\<lambda>a b. rule_priority a \<ge> rule_priority b) (srt rs)"
    and "\<not> pm_dangerous pm"
    and "r \<in> set (pm_rules pm)" "rule_matches r tool path cmd" "rule_act r = RuleDeny"
    and "\<And>q. q \<in> set (pm_rules pm) \<Longrightarrow> rule_matches q tool path cmd \<Longrightarrow> rule_act q = RuleAllow \<Longrightarrow>
      rule_priority q < rule_priority r"
  shows "\<not> should_auto_allow srt pm tool ro path cmd"
proof -
  have srt: "rule_sorting srt" using assms(1,2) by unfold_locales
  have "first_match (srt (pm_rules pm)) tool path cmd = Some RuleDeny"
    using rule_sorting.top_deny_first [OF srt assms(4-7)] .
  with assms(3) show ?thesis by (simp add: rule_sorting.auto_allow_cases [OF srt])
qed

theorem deny_rule_outranks_witness:
  "\<not> should_auto_allow (sort_key (\<lambda>r. - rule_priority r)) (configure_permissions False ''yolo'' init_manager)
     ''bash'' False [] ''rm -rf /home''"
proof (rule deny_rule_outranks [where r = "deny_rule ''bash'' [] ''rm -rf /''"])
  show "rule_matches (deny_rule ''bash'' [] ''rm -rf /'') ''bash'' [] ''rm -rf /home''" by code_simp
qed (auto simp: stable_sort.srt_desc configure_permissions_def permission_mode_from_meta_name_def
      init_manager_def pm_defs deny_rule_def)

text \<open>With no matching rule and no dangerous flag, a tool that changes something is
  auto-allowed exactly in Yolo mode, or when it is one of the exempt built-ins, or when the user
  granted it for the session, or when it is a file tool in AcceptEdits mode.\<close>

lemma auto_allow_without_rules:
  assumes "\<not> pm_dangerous pm" "\<And>r. r \<in> set (pm_rules pm) \<Longrightarrow> \<not> rule_matches r tool path cmd"
    and "\<And>rs. mset (srt rs) = mset rs"
    and "\<And>rs. sorted_wrt (\<lambda>a b. rule_priority a \<ge> rule_priority b) (srt rs)"
  shows "should_auto_allow srt pm tool False path cmd \<longleftrightarrow>
    pm_mode pm = Yolo \<or> tool \<in> {''memory_write'', ''task_complete'', ''TodoWrite''} \<or>
    tool \<in> set native_agent_browser_tools \<or> has_session_allow tool pm \<or>
    pm_mode pm = AcceptEdits \<and> tool \<in> {''file_write'', ''file_edit''}"
proof -
  have srt: "rule_sorting srt" using assms(3,4) by unfold_locales
  have "first_match (srt (pm_rules pm)) tool path cmd = None"
    using assms(2) by (simp add: rule_sorting.first_match_None_iff [OF srt])
  with assms(1) show ?thesis
    by (simp add: rule_sorting.auto_allow_cases [OF srt] has_session_allow_def)
qed

lemma auto_allow_without_rules_witness:
  "should_auto_allow (sort_key (\<lambda>r. - rule_priority r)) (set_mode AcceptEdits init_manager) ''file_edit'' False ''a'' [] \<and>
   \<not> should_auto_allow (sort_key (\<lambda>r. - rule_priority r)) (set_mode AcceptEdits init_manager) ''bash'' False [] ''ls''"
proof -
  have no: "\<not> pm_dangerous (set_mode AcceptEdits init_manager)" "pm_rules (set_mode AcceptEdits init_manager) = []"
    "pm_mode (set_mode AcceptEdits init_manager) = AcceptEdits"
    "pm_session_allowed (set_mode AcceptEdits init_manager) = {}"
    by (simp_all add: init_manager_def pm_defs)
  show ?thesis
    by (subst (1 2) auto_allow_without_rules)
       (simp_all add: no stable_sort.srt_desc native_agent_browser_tools_def has_session_allow_def)
qed

text \<open>Leaving Plan mode restores the mode that was active when Plan mode was entered and drops
  the session grants, over any run in between of operations that do not set another mode.\<close>

lemma plan_mode_round_trip:
  assumes "pm_mode pm \<noteq> Plan" "list_all keeps_mode ops"
  shows "(case restore_pre_plan_mode (fold pm_step ops (set_mode Plan pm)) of
      (m, pm') \<Rightarrow> m = pm_mode pm \<and> pm_mode pm' = pm_mode pm \<and> pm_session_allowed pm' = {} \<and>
        \<not> pm_has_pre_plan pm')"
proof -
  have "pm_mode (set_mode Plan pm) = Plan" "pm_pre_plan (set_mode Plan pm) = pm_mode pm"
    "pm_has_pre_plan (set_mode Plan pm)"
    using assms(1) by (simp_all add: pm_defs)
  with keeps_mode_run [OF assms(2), of "set_mode Plan pm"] assms(1) show ?thesis
    by (simp add: pm_defs)
qed

lemma plan_mode_round_trip_witness:
  "fst (restore_pre_plan_mode (fold pm_step [SetMode Plan, AddSessionAllow ''bash'']
     (set_mode Plan (set_mode AcceptEdits init_manager)))) = AcceptEdits"
proof -
  have m: "pm_mode (set_mode AcceptEdits init_manager) = AcceptEdits"
    by (simp add: pm_defs)
  show ?thesis
    using plan_mode_round_trip [of "set_mode AcceptEdits init_manager" "[SetMode Plan, AddSessionAllow ''bash'']"] m
    by (simp add: split_beta)
qed

text \<open>In every state reached from a fresh manager, Plan mode implies that the mode to return to
  is recorded and is not Plan, so \<open>pre_plan_mode\<close> reports the recorded mode.\<close>

lemma plan_memory_reachable:
  "pm_mode (fold pm_step ops init_manager) = Plan \<longrightarrow>
     pm_has_pre_plan (fold pm_step ops init_manager) \<and>
     pre_plan_mode (fold pm_step ops init_manager) = pm_pre_plan (fold pm_step ops init_manager) \<and>
     pre_plan_mode (fold pm_step ops init_manager) \<noteq> Plan"
proof -
  have "plan_memory init_manager" by (simp add: plan_memory_def init_manager_def)
  then have "plan_memory (fold pm_step ops init_manager)" by (rule pm_machine.run_inv)
  then show ?thesis by (auto simp: plan_memory_def pre_plan_mode_def)
qed

lemma plan_memory_reachable_witness:
  "pm_mode (fold pm_step [CycleMode, CycleMode, CycleMode] init_manager) = Plan \<and>
   pre_plan_mode (fold pm_step [CycleMode, CycleMode, CycleMode] init_manager) = Yolo"
proof -
  have "pm_mode (fold pm_step [CycleMode, CycleMode, CycleMode] init_manager) = Plan"
    "pm_pre_plan (fold pm_step [CycleMode, CycleMode, CycleMode] init_manager) = Yolo"
    by (simp_all add: init_manager_def pm_defs)
  with plan_memory_reachable [of "[CycleMode, CycleMode, CycleMode]"] show ?thesis by simp
qed

text \<open>The glob matcher never accepts a text the declarative semantics of the comments rejects,
  and it accepts exactly that semantics on every pattern in which no single star stands before a
  slash or at the end.\<close>

lemma glob_match_correct:
  "(glob_match_impl p t \<longrightarrow> glob_sem p t) \<and>
   (stars_anchored p \<longrightarrow> glob_match_impl p t = glob_sem p t)"
  using glob_impl_sound glob_impl_complete by blast

lemma glob_match_correct_witness:
  "stars_anchored ''*.env'' \<and> glob_sem ''*.env'' ''a.env'' \<and> \<not> glob_sem ''*.env'' ''b/a.env''"
proof -
  have a: "stars_anchored ''*.env''" by simp
  have "glob_match_impl ''*.env'' ''a.env''" "\<not> glob_match_impl ''*.env'' ''b/a.env''"
    by code_simp+
  with a glob_match_correct [of "''*.env''"] show ?thesis by blast
qed

text \<open>A single star at the end of a pattern matches only the empty rest, so a rule for
  \<open>file_*\<close> does not apply to \<open>file_write\<close>, and a rule for the pattern \<open>*\<close> applies to no tool with
  a non-empty name, although the header gives both as patterns for tools.\<close>

lemma trailing_star_matches_nothing:
  "(glob_match ''*'' tool \<longleftrightarrow> c_str tool = []) \<and> \<not> glob_match ''file_*'' ''file_write'' \<and>
   glob_sem ''file_*'' ''file_write'' \<and> (slash \<notin> set tool \<longrightarrow> glob_sem ''*'' (c_str tool))"
proof (intro conjI impI)
  show "glob_match ''*'' tool \<longleftrightarrow> c_str tool = []"
    by (simp add: glob_match_def c_str_def [of "''*''"] single_star_only_empty)
  show "\<not> glob_match ''file_*'' ''file_write''" by code_simp
  have star: "glob_sem ''*'' u" if "slash \<notin> set u" for u
    using glob_sem.single [OF that, of "[]" "[]"] by (simp add: glob_sem.empty)
  have "glob_sem ''*'' ''write''" by (rule star) simp
  then show "glob_sem ''file_*'' ''file_write''"
    by (intro glob_sem.lit [where ?p = "CHR ''f''"] glob_sem.lit [where ?p = "CHR ''i''"]
        glob_sem.lit [where ?p = "CHR ''l''"] glob_sem.lit [where ?p = "CHR ''e''"]
        glob_sem.lit [where ?p = "CHR ''_''"]) simp_all
  show "glob_sem ''*'' (c_str tool)" if "slash \<notin> set tool"
    by (rule star) (use that set_takeWhileD in \<open>force simp: c_str_def\<close>)
qed

lemma trailing_star_matches_nothing_witness:
  "\<not> glob_match ''*'' ''bash'' \<and> glob_sem ''*'' ''bash''"
  using trailing_star_matches_nothing [of "''bash''"] by (simp add: c_str_def)

end
