(* ===== verification/PathValidator.thy ===== *)
theory PathValidator
  imports Prelude
begin

text \<open>
  \<open>utils/path_validator.hpp\<close>: the check that a file tool stays inside the working directory, and
  the list of files and directories no tool may touch.  A path is its UTF-8 string.  What
  \<open>std::filesystem\<close> answers is a parameter, the record \<open>fs_api\<close>: \<open>weakly_canonical\<close> (\<open>None\<close> when
  it throws), \<open>is_relative\<close> and \<open>operator/\<close>.  The lemmas read both checks on path segments: a path
  is inside iff the segments of the working directory are a prefix of its segments (up to case),
  and it is dangerous iff its last segment is a listed file or one of its segments a listed
  directory.
\<close>

record fs_api =
  weakly_canonical :: "string \<Rightarrow> string option"
  is_relative :: "string \<Rightarrow> bool"
  path_join :: "string \<Rightarrow> string \<Rightarrow> string"

record path_validator =
  working_dir :: string
  dangerous_mode :: bool

section \<open>Strings\<close>

text \<open>\<open>normalize\<close>: forward slashes only, no trailing slash except for the root.\<close>

function drop_trailing_slashes :: "string \<Rightarrow> string" where
  "drop_trailing_slashes s =
     (if length s > 1 \<and> last s = slash then drop_trailing_slashes (butlast s) else s)"
  by pat_completeness auto
termination
  by (relation "measure length") auto

declare drop_trailing_slashes.simps [simp del]

definition normalize :: "string \<Rightarrow> string" where
  "normalize path = drop_trailing_slashes (forward_slashes path)"

text \<open>\<open>path.substr(path.rfind('/') + 1)\<close>, or all of it.\<close>

definition get_filename :: "string \<Rightarrow> string" where
  "get_filename path = rev (takeWhile (\<lambda>c. c \<noteq> slash) (rev path))"

definition ends_with_ci :: "string \<Rightarrow> string \<Rightarrow> bool" where
  "ends_with_ci str suff \<longleftrightarrow>
     length suff \<le> length str \<and>
     list_all2 (\<lambda>a b. to_lower a = to_lower b) (rev suff) (take (length suff) (rev str))"

definition starts_with_ci :: "string \<Rightarrow> string \<Rightarrow> bool" where
  "starts_with_ci str pre \<longleftrightarrow>
     length pre \<le> length str \<and>
     (\<forall>i < length pre. to_lower (str ! i) = to_lower (pre ! i)) \<and>
     \<not> (length str > length pre \<and> str ! length pre \<noteq> slash)"

definition dangerous_files :: "string list" where
  "dangerous_files =
     [''.env'', ''.env.local'', ''.env.production'',
      ''.gitconfig'', ''.bashrc'', ''.bash_profile'', ''.zshrc'',
      ''.npmrc'', ''.yarnrc'',
      ''id_rsa'', ''id_ed25519'', ''id_ecdsa'', ''id_dsa'',
      ''*.pem'', ''*.key'', ''*.p12'', ''*.pfx'',
      ''authorized_keys'', ''known_hosts'',
      ''.netrc'', ''.pgpass'']"

definition dangerous_directories :: "string list" where
  "dangerous_directories =
     [''.git'', ''.ssh'', ''.gnupg'', ''.vscode'', ''.aws'', ''.azure'', ''.kube'']"

section \<open>The validator\<close>

definition make_validator :: "fs_api \<Rightarrow> string \<Rightarrow> bool \<Rightarrow> path_validator" where
  "make_validator fs wd dangerous =
     \<lparr>working_dir = (case weakly_canonical fs wd of Some p \<Rightarrow> normalize p | None \<Rightarrow> normalize wd),
      dangerous_mode = dangerous\<rparr>"

definition resolve_input_path :: "fs_api \<Rightarrow> path_validator \<Rightarrow> string \<Rightarrow> string" where
  "resolve_input_path fs v path =
     (if is_relative fs path \<and> working_dir v \<noteq> [] then path_join fs (working_dir v) path else path)"

text \<open>The \<open>try\<close> block at the head of both checks.\<close>

definition resolved_path :: "fs_api \<Rightarrow> path_validator \<Rightarrow> string \<Rightarrow> string" where
  "resolved_path fs v path =
     (case weakly_canonical fs (resolve_input_path fs v path) of
        Some p \<Rightarrow> normalize p
      | None \<Rightarrow> normalize (resolve_input_path fs v path))"

definition is_inside_working_dir :: "path_validator \<Rightarrow> string \<Rightarrow> bool" where
  "is_inside_working_dir v resolved \<longleftrightarrow>
     starts_with_ci resolved (working_dir v) \<and>
     (length resolved = length (working_dir v) \<or>
      resolved ! length (working_dir v) = slash \<or> resolved ! length (working_dir v) = backslash)"

definition validate :: "fs_api \<Rightarrow> path_validator \<Rightarrow> string \<Rightarrow> string" where
  "validate fs v path =
     (if dangerous_mode v then []
      else let resolved = resolved_path fs v path
        in if \<not> is_inside_working_dir v resolved
           then ''Path outside working directory: '' @ path @ '' (resolved: '' @ resolved @
                '', cwd: '' @ working_dir v @ '')''
           else [])"

definition dangerous_file_match :: "string \<Rightarrow> string \<Rightarrow> bool" where
  "dangerous_file_match filename_lower df \<longleftrightarrow>
     (if df \<noteq> [] \<and> hd df = CHR ''*'' then ends_with_ci filename_lower (tl df)
      else filename_lower = df)"

definition dangerous_dir_match :: "string \<Rightarrow> string \<Rightarrow> bool" where
  "dangerous_dir_match resolved_lower dd \<longleftrightarrow>
     contains resolved_lower (slash # dd @ [slash]) \<or> ends_with_ci resolved_lower (slash # dd)"

definition is_dangerous_path :: "fs_api \<Rightarrow> path_validator \<Rightarrow> string \<Rightarrow> bool" where
  "is_dangerous_path fs v path \<longleftrightarrow>
     \<not> dangerous_mode v \<and>
     (let resolved = resolved_path fs v path;
          filename_lower = ascii_lower (get_filename resolved)
      in list_ex (dangerous_file_match filename_lower) dangerous_files \<or>
         list_ex (dangerous_dir_match (ascii_lower resolved)) dangerous_directories)"

section \<open>Normal form\<close>

lemma drop_trailing_slashes_props:
  "prefix (drop_trailing_slashes s) s \<and>
   (length (drop_trailing_slashes s) \<le> 1 \<or> last (drop_trailing_slashes s) \<noteq> slash)"
proof (induction s rule: drop_trailing_slashes.induct)
  case (1 s)
  show ?case
  proof (cases "length s > 1 \<and> last s = slash")
    case True
    then have "drop_trailing_slashes s = drop_trailing_slashes (butlast s)"
      by (subst drop_trailing_slashes.simps) simp
    with 1 [OF True] prefixeq_butlast [of s] show ?thesis
      using prefix_order.trans by metis
  next
    case False
    then have "drop_trailing_slashes s = s" by (subst drop_trailing_slashes.simps) (simp only: if_False)
    with False show ?thesis by auto
  qed
qed

lemma drop_trailing_slashes_id:
  "length s \<le> 1 \<or> last s \<noteq> slash \<Longrightarrow> drop_trailing_slashes s = s"
  by (subst drop_trailing_slashes.simps) auto

lemma normalize_idem [simp]: "normalize (normalize s) = normalize s"
proof -
  let ?d = "drop_trailing_slashes (forward_slashes s)"
  have pre: "prefix ?d (forward_slashes s)" using drop_trailing_slashes_props by blast
  then have "backslash \<notin> set ?d" using no_backslash_forward_slashes set_mono_prefix by blast
  then have "forward_slashes ?d = ?d"
    by (auto simp: forward_slashes_def intro!: map_idI)
  then show ?thesis
    using drop_trailing_slashes_props [of "forward_slashes s"]
    by (simp add: normalize_def drop_trailing_slashes_id)
qed

lemma no_backslash_normalize: "backslash \<notin> set (normalize s)"
  unfolding normalize_def
  using drop_trailing_slashes_props [of "forward_slashes s"] no_backslash_forward_slashes
    set_mono_prefix by blast

section \<open>Segments\<close>

lemma to_lower_slash_iff: "to_lower c = slash \<longleftrightarrow> c = slash"
proof
  assume "to_lower c = slash"
  then have "byte (to_lower c) = 47" by simp
  then have "byte c = byte slash" by (simp add: byte_to_lower split: if_splits)
  then show "c = slash" by (simp only: byte_eq_iff)
qed (simp add: to_lower_def)

lemma slash_to_lower_iff: "slash = to_lower c \<longleftrightarrow> c = slash"
  using to_lower_slash_iff [of c] by auto

lemma to_lower_slash [simp]: "to_lower slash = slash"
  by (simp add: to_lower_slash_iff)

lemma ends_with_ci_iff: "ends_with_ci s t \<longleftrightarrow> suffix (ascii_lower t) (ascii_lower s)"
proof -
  have "ends_with_ci s t \<longleftrightarrow> length t \<le> length s \<and>
      map to_lower (rev t) = take (length t) (map to_lower (rev s))"
    by (auto simp: ends_with_ci_def list_all2_conv_all_nth list_eq_iff_nth_eq take_map)
  also have "\<dots> \<longleftrightarrow> prefix (map to_lower (rev t)) (map to_lower (rev s))"
    unfolding prefix_take_iff by simp
  finally show ?thesis by (simp add: suffix_to_prefix ascii_lower_def rev_map)
qed

lemma starts_with_ci_iff:
  "starts_with_ci s t \<longleftrightarrow>
     ascii_lower s = ascii_lower t \<or> prefix (ascii_lower t @ [slash]) (ascii_lower s)"
proof -
  let ?s = "ascii_lower s" and ?t = "ascii_lower t"
  have "starts_with_ci s t \<longleftrightarrow> prefix ?t ?s \<and> (length s > length t \<longrightarrow> s ! length t = slash)"
    unfolding starts_with_ci_def prefix_take_iff
    by (auto simp: ascii_lower_def list_eq_iff_nth_eq)
  also have "\<dots> \<longleftrightarrow> prefix ?t ?s \<and> (length ?s > length ?t \<longrightarrow> ?s ! length ?t = slash)"
    by (auto simp: ascii_lower_def to_lower_slash_iff)
  also have "\<dots> \<longleftrightarrow> ?s = ?t \<or> prefix (?t @ [slash]) ?s"
  proof (cases "prefix ?t ?s")
    case True
    then obtain u where u: "?s = ?t @ u" by (auto simp: prefix_def)
    show ?thesis by (cases u) (auto simp del: ascii_lower_simps simp: u nth_append)
  next
    case False
    then show ?thesis using append_prefixD by fastforce
  qed
  finally show ?thesis .
qed

lemma prefix_split_on:
  "prefix (split_on d a) (split_on d b) \<longleftrightarrow> b = a \<or> prefix (a @ [d]) b"
proof (induction a arbitrary: b)
  case Nil
  show ?case
  proof (cases b)
    case (Cons c b')
    then show ?thesis by (cases "split_on d b'") auto
  qed simp
next
  case (Cons x a)
  show ?case
  proof (cases b)
    case Nil
    then show ?thesis by (cases "split_on d a") (auto simp: Cons.IH)
  next
    case (Cons c b')
    then show ?thesis
      using Cons.IH [of b']
      by (cases "split_on d a"; cases "split_on d b'") auto
  qed
qed

lemma segment_iff:
  assumes "d \<notin> set x"
  shows "x \<in> set (tl (split_on d s)) \<longleftrightarrow> sublist (d # x @ [d]) s \<or> suffix (d # x) s"
proof (induction s)
  case (Cons c s)
  show ?case
  proof (cases "c = d")
    case True
    have hd: "hd (split_on d s) = x \<longleftrightarrow> s = x \<or> prefix (x @ [d]) s"
      using prefix_split_on [of d x s] split_on_sepfree [OF assms]
      by (cases "split_on d s") auto
    have "x \<in> set (split_on d s) \<longleftrightarrow> hd (split_on d s) = x \<or> x \<in> set (tl (split_on d s))"
      by (cases "split_on d s") auto
    with True Cons hd show ?thesis
      by (auto simp: sublist_Cons_right suffix_Cons)
  next
    case False
    then show ?thesis
      using Cons by (cases "split_on d s") (auto simp: sublist_Cons_right suffix_Cons)
  qed
qed simp

lemma last_split_on: "last (split_on slash s) = get_filename s"
proof (induction s)
  case Nil
  then show ?case by (simp add: get_filename_def)
next
  case (Cons c s)
  have tw: "takeWhile (\<lambda>c. c \<noteq> slash) (rev s @ [c]) =
      (if slash \<in> set s then takeWhile (\<lambda>c. c \<noteq> slash) (rev s)
       else rev s @ (if c = slash then [] else [c]))"
    by (auto simp: takeWhile_append)
  show ?case
  proof (cases "slash \<in> set s")
    case True
    then obtain u v w where "split_on slash s = u # v # w"
      using join_split [of slash s] split_on_no_sep [of _ slash s]
      by (cases "split_on slash s" rule: remdups_adj.cases) auto
    with True Cons tw show ?thesis by (auto simp: get_filename_def)
  next
    case False
    with Cons tw show ?thesis
      by (auto simp: get_filename_def split_on_sepfree takeWhile_eq_all_conv)
  qed
qed

lemma split_on_ascii_lower:
  "split_on slash (ascii_lower s) = map ascii_lower (split_on slash s)"
  by (induction s) (auto simp: to_lower_slash_iff split: list.splits)

lemma is_inside_iff:
  "is_inside_working_dir v r \<longleftrightarrow>
     prefix (split_on slash (ascii_lower (working_dir v))) (split_on slash (ascii_lower r))"
proof -
  have "is_inside_working_dir v r \<longleftrightarrow> starts_with_ci r (working_dir v)"
    by (auto simp: is_inside_working_dir_def starts_with_ci_def)
  also have "\<dots> \<longleftrightarrow> prefix (split_on slash (ascii_lower (working_dir v))) (split_on slash (ascii_lower r))"
    by (simp only: starts_with_ci_iff prefix_split_on)
  finally show ?thesis .
qed

lemma dangerous_dir_match_iff:
  assumes "slash \<notin> set dd" "ascii_lower dd = dd"
  shows "dangerous_dir_match (ascii_lower r) dd \<longleftrightarrow> dd \<in> set (tl (split_on slash (ascii_lower r)))"
  using assms by (simp add: dangerous_dir_match_def segment_iff contains_def ends_with_ci_iff)

lemma dangerous_directories_plain:
  "dd \<in> set dangerous_directories \<Longrightarrow> slash \<notin> set dd \<and> ascii_lower dd = dd"
  by (auto simp: dangerous_directories_def to_lower_def)

text \<open>The listed names, and the listed extensions.\<close>

definition plain_dangerous_names :: "string list" where
  "plain_dangerous_names = [df \<leftarrow> dangerous_files. hd df \<noteq> CHR ''*'']"

definition dangerous_extensions :: "string list" where
  "dangerous_extensions = [''.pem'', ''.key'', ''.p12'', ''.pfx'']"

lemma dangerous_file_match_iff:
  "list_ex (dangerous_file_match (ascii_lower f)) dangerous_files \<longleftrightarrow>
     ascii_lower f \<in> set plain_dangerous_names \<or>
     (\<exists>e\<in>set dangerous_extensions. suffix e (ascii_lower f))"
  by (simp add: dangerous_files_def plain_dangerous_names_def dangerous_extensions_def
      dangerous_file_match_def ends_with_ci_iff) (auto simp: to_lower_def)

lemma validate_ok_iff:
  "validate fs v path = [] \<longleftrightarrow> dangerous_mode v \<or>
     prefix (split_on slash (ascii_lower (working_dir v)))
       (split_on slash (ascii_lower (resolved_path fs v path)))"
  by (simp add: validate_def Let_def is_inside_iff)

section \<open>Properties\<close>

text \<open>Outside dangerous mode the validator accepts exactly the paths whose resolved form has,
  up to case, the segments of the working directory as a prefix: no sibling directory that merely
  starts with the same characters is let through.\<close>

lemma validate_inside_iff:
  "validate fs v path = [] \<longleftrightarrow> dangerous_mode v \<or>
     prefix (split_on slash (ascii_lower (working_dir v)))
       (split_on slash (ascii_lower (resolved_path fs v path)))"
  by (rule validate_ok_iff)

text \<open>A path is dangerous exactly when, case folded, its last segment is one of the listed file
  names or ends with a listed key extension, or some segment after the first is one of the listed
  directories.\<close>

lemma dangerous_path_iff:
  "is_dangerous_path fs v path \<longleftrightarrow> \<not> dangerous_mode v \<and>
     (let segs = split_on slash (ascii_lower (resolved_path fs v path))
      in last segs \<in> set plain_dangerous_names \<or>
         (\<exists>e\<in>set dangerous_extensions. suffix e (last segs)) \<or>
         (\<exists>d\<in>set dangerous_directories. d \<in> set (tl segs)))"
proof -
  let ?r = "resolved_path fs v path"
  have l: "last (split_on slash (ascii_lower ?r)) = ascii_lower (get_filename ?r)"
    by (simp add: split_on_ascii_lower last_map last_split_on)
  have "list_ex (dangerous_dir_match (ascii_lower ?r)) dangerous_directories \<longleftrightarrow>
      (\<exists>d\<in>set dangerous_directories. d \<in> set (tl (split_on slash (ascii_lower ?r))))"
    unfolding list_ex_iff using dangerous_directories_plain dangerous_dir_match_iff by blast
  then show ?thesis
    unfolding is_dangerous_path_def Let_def l dangerous_file_match_iff by blast
qed

text \<open>When the working directory is the filesystem root, every other absolute path is rejected as
  outside: the boundary check looks for a slash after the root's own slash.\<close>

lemma root_rejects_everything:
  assumes "weakly_canonical fs wd = Some [slash]" "resolved_path fs (make_validator fs wd False) path \<noteq> [slash]"
    and "\<not> prefix [slash, slash] (resolved_path fs (make_validator fs wd False) path)"
  shows "validate fs (make_validator fs wd False) path \<noteq> []"
proof -
  let ?v = "make_validator fs wd False" and ?r = "resolved_path fs (make_validator fs wd False) path"
  have n: "normalize [slash] = [slash]" by (simp add: normalize_def drop_trailing_slashes_id)
  then have v: "working_dir ?v = [slash]" "dangerous_mode ?v = False"
    using assms(1) by (simp_all add: make_validator_def)
  have "prefix [slash, slash] ?r" if "prefix [slash, slash] (ascii_lower ?r)"
    using that by (cases ?r; cases "tl ?r") (auto simp: to_lower_slash_iff slash_to_lower_iff ascii_lower_def)
  moreover have "?r = [slash]" if "ascii_lower ?r = [slash]"
    using that by (cases ?r) (auto simp: to_lower_slash_iff ascii_lower_def)
  ultimately show ?thesis
    using assms(2,3) v(2) unfolding validate_ok_iff v prefix_split_on by auto
qed

text \<open>A file system without links: every path is its own canonical form.\<close>

definition plain_fs :: fs_api where
  "plain_fs = \<lparr>weakly_canonical = Some, is_relative = (\<lambda>p. p = [] \<or> hd p \<noteq> slash),
     path_join = (\<lambda>a b. a @ slash # b)\<rparr>"

lemma root_rejects_everything_witness:
  "validate plain_fs (make_validator plain_fs ''/'' False) ''/etc'' \<noteq> []"
  by (rule root_rejects_everything)
     (simp_all add: plain_fs_def make_validator_def resolved_path_def resolve_input_path_def
       normalize_def drop_trailing_slashes_id)

end
