(* ===== verification/ShellGuard.thy ===== *)
theory ShellGuard
  imports PathValidator
begin

text \<open>
  \<open>agent_loop_shell_guard.hpp\<close>: the text-level guard on shell commands.  The heuristics that say
  whether a command mentions a path or writes a file, the shell tokenizer, the lexical check of
  Windows paths, and the guard of unattended runs (\<open>loop_shell_write_escape_reason\<close>), which
  extracts the write destinations it can see, recurses into quoted scripts and asks the path
  validator about each destination.  The empty string is the C++ function's empty reason: the
  command is allowed.
\<close>

section \<open>What a command mentions and whether it writes\<close>

definition normalize_path_for_command_match :: "string \<Rightarrow> string" where
  "normalize_path_for_command_match s = ascii_lower (forward_slashes s)"

definition command_mentions_path :: "string \<Rightarrow> string \<Rightarrow> bool" where
  "command_mentions_path command path =
     (let cmd = normalize_path_for_command_match command;
          normalized_path = normalize_path_for_command_match path
      in if normalized_path = [] then False
         else if contains cmd normalized_path then True
         else let basename = get_filename normalized_path
           in length basename \<ge> 4 \<and> contains cmd basename)"

definition script_write_apis :: "string list" where
  "script_write_apis =
     [''writealltext'', ''writealllines'', ''write_text'', ''write_bytes'', ''writelines'', ''.write('']"

definition write_features :: "string list" where
  "write_features =
     [''>'',
      ''set-content'', ''out-file'', ''add-content'', ''tee '',
      ''sed -i'', ''copy '', ''move '', ''copy-item'', ''move-item'', ''cp '', ''mv '',
      ''remove-item'', ''new-item'', ''clear-content'', ''mkdir '', ''rmdir '',
      ''touch '', ''rm '', ''del '', ''chmod '', ''chown ''] @ script_write_apis"

definition command_looks_like_file_write :: "string \<Rightarrow> bool" where
  "command_looks_like_file_write command = contains_any (ascii_lower command) write_features"

section \<open>The tokenizer\<close>

definition flush :: "string \<Rightarrow> string list" where
  "flush token = (if token = [] then [] else [token])"

definition is_quote :: "char \<Rightarrow> bool" where
  "is_quote c \<longleftrightarrow> c = squote \<or> c = dquote"

definition is_separator :: "char \<Rightarrow> bool" where
  "is_separator c \<longleftrightarrow> is_space c \<or> c = CHR '';'' \<or> c = CHR ''|''"

text \<open>The loop over the command, with the open quote and the token being read.\<close>

fun tokenize_from :: "char option \<Rightarrow> string \<Rightarrow> string \<Rightarrow> string list" where
  "tokenize_from quote token [] = flush token"
| "tokenize_from (Some q) token (c # cs) =
     (if c = q then tokenize_from None token cs else tokenize_from (Some q) (token @ [c]) cs)"
| "tokenize_from None token (c # cs) =
     (if is_quote c then tokenize_from (Some c) token cs
      else if is_separator c then flush token @ tokenize_from None [] cs
      else if c = CHR ''>'' then
        flush token @
          (if cs \<noteq> [] \<and> hd cs = CHR ''>'' then ''>>'' # tokenize_from None [] (tl cs)
           else ''>'' # tokenize_from None [] cs)
      else tokenize_from None (token @ [c]) cs)"

definition tokenize_shell_command :: "string \<Rightarrow> string list" where
  "tokenize_shell_command command = tokenize_from None [] command"

section \<open>Targets\<close>

definition trim_shell_target :: "string \<Rightarrow> string" where
  "trim_shell_target s =
     rstrip (\<lambda>c. c \<in> {CHR '')'', CHR '']'', CHR '','', CHR '';''})
       (dropWhile (\<lambda>c. c \<in> {CHR ''('', CHR ''['', CHR '',''}) s)"

definition shell_target_is_dynamic :: "string \<Rightarrow> bool" where
  "shell_target_is_dynamic s \<longleftrightarrow> s = [] \<or> CHR ''$'' \<in> set s \<or> CHR ''%'' \<in> set s \<or>
     CHR ''*'' \<in> set s \<or> CHR ''?'' \<in> set s"

definition shell_target_is_windows_absolute :: "string \<Rightarrow> bool" where
  "shell_target_is_windows_absolute s \<longleftrightarrow> length s \<ge> 3 \<and> is_alpha (s ! 0) \<and> s ! 1 = CHR '':'' \<and>
     (s ! 2 = slash \<or> s ! 2 = backslash)"

definition push_segment :: "string \<Rightarrow> string list \<Rightarrow> string list" where
  "push_segment segment segments =
     (if segment = ''..'' then (if length segments > 1 then butlast segments else segments)
      else if segment \<noteq> [] \<and> segment \<noteq> ''.'' then segments @ [segment]
      else segments)"

definition windows_segments :: "string \<Rightarrow> string list" where
  "windows_segments s = fold push_segment (split_on slash (normalize_path_for_command_match s)) []"

definition normalize_windows_absolute_for_compare :: "string \<Rightarrow> string" where
  "normalize_windows_absolute_for_compare s = join_with slash (windows_segments s)"

definition windows_absolute_is_inside :: "string \<Rightarrow> string \<Rightarrow> bool" where
  "windows_absolute_is_inside target root =
     (if \<not> shell_target_is_windows_absolute target \<or> \<not> shell_target_is_windows_absolute root
      then False
      else let nt = normalize_windows_absolute_for_compare target;
               nr = rstrip (\<lambda>c. c = slash) (normalize_windows_absolute_for_compare root)
        in nt = nr \<or>
           (length nt > length nr \<and> take (length nr) nt = nr \<and> nt ! length nr = slash))"

text \<open>\<open>take_after_option\<close>: the word after the first of the options.\<close>

fun take_after_option :: "string list \<Rightarrow> string list \<Rightarrow> string option" where
  "take_after_option options (a # b # rest) =
     (if ascii_lower a \<in> set options then Some b else take_after_option options (b # rest))"
| "take_after_option options _ = None"

text \<open>The last word that does not start with a dash.\<close>

definition last_operand :: "string list \<Rightarrow> string option" where
  "last_operand ws = find (\<lambda>w. w \<noteq> [] \<and> hd w \<noteq> CHR ''-'') (rev ws)"

definition option_or_next :: "string list \<Rightarrow> string list \<Rightarrow> string list" where
  "option_or_next options rest =
     (case take_after_option options rest of
        Some t \<Rightarrow> [t]
      | None \<Rightarrow> (if rest \<noteq> [] then [hd rest] else []))"

definition operand_list :: "string list \<Rightarrow> string list" where
  "operand_list rest = (case last_operand rest of Some t \<Rightarrow> [t] | None \<Rightarrow> [])"

text \<open>One round of the loop over the tokens: the destinations the word at the head adds, and
  whether it demands a provable destination.\<close>

definition word_targets :: "string \<Rightarrow> string list \<Rightarrow> string list \<times> bool" where
  "word_targets w rest =
     (let key = ascii_lower w
      in if key \<in> {''>'', ''>>''} \<and> rest \<noteq> [] then ([hd rest], True)
         else if key \<in> {''set-content'', ''add-content'', ''out-file''} then
           (option_or_next [''-path'', ''-literalpath'', ''-filepath''] rest, True)
         else if key \<in> {''copy'', ''move'', ''copy-item'', ''move-item'', ''cp'', ''mv''} then
           (case take_after_option [''-destination'', ''-dest''] rest of
              Some t \<Rightarrow> ([t], True)
            | None \<Rightarrow> (operand_list rest, True))
         else if key \<in> {''remove-item'', ''new-item'', ''clear-content''} then
           (option_or_next [''-path'', ''-literalpath''] rest, True)
         else if key \<in> {''mkdir'', ''md'', ''rmdir'', ''touch'', ''rm'', ''del'', ''chmod'', ''chown''} then
           (operand_list rest, True)
         else if key = ''sed'' \<and> rest \<noteq> [] \<and> ''-i'' \<in> set rest then ([last rest], True)
         else ([], False))"

fun collect_targets :: "string list \<Rightarrow> string list \<times> bool" where
  "collect_targets [] = ([], False)"
| "collect_targets (w # rest) =
     (let (ts, r) = word_targets w rest; (ts', r') = collect_targets rest
      in (ts @ ts', r \<or> r'))"

text \<open>The closing loop over the destinations; \<open>check\<close> is the validator built on the work root.\<close>

fun check_targets :: "(string \<Rightarrow> string) \<Rightarrow> string \<Rightarrow> string list \<Rightarrow> string" where
  "check_targets check root [] = []"
| "check_targets check root (t # ts) =
     (let target = trim_shell_target t
      in if shell_target_is_dynamic target then
           ''LOOP Yolo blocked a dynamic shell write destination: '' @ target
         else if shell_target_is_windows_absolute target then
           (if \<not> windows_absolute_is_inside target root
            then ''LOOP Yolo blocked an external shell write: '' @ target
            else check_targets check root ts)
         else if check target \<noteq> [] then ''LOOP Yolo blocked an external shell write: '' @ target
         else check_targets check root ts)"

section \<open>The guard\<close>

text \<open>The scripts passed to a wrapper: the words after \<open>-Command\<close>, \<open>-c\<close> or \<open>/c\<close> that write.\<close>

fun nested_scripts :: "string \<Rightarrow> string list \<Rightarrow> string list" where
  "nested_scripts command (a # b # rest) =
     (if ascii_lower a \<in> {''-command'', ''-c'', ''/c''} \<and> b \<noteq> command \<and> command_looks_like_file_write b
      then [b] else []) @ nested_scripts command (b # rest)"
| "nested_scripts command _ = []"

definition first_nonempty :: "string list \<Rightarrow> string" where
  "first_nonempty rs = (case find (\<lambda>r. r \<noteq> []) rs of Some r \<Rightarrow> r | None \<Rightarrow> [])"

lemma tokens_length: "sum_list (map length (tokenize_from q t s)) \<le> length t + length s"
proof (induction q t s rule: tokenize_from.induct)
  case (3 t c cs)
  then show ?case by (cases cs) (auto simp: flush_def)
qed (auto simp: flush_def)

lemma nested_scripts_length:
  "n \<in> set (nested_scripts command ts) \<Longrightarrow> length n < sum_list (map length ts)"
  by (induction command ts rule: nested_scripts.induct) (auto split: if_splits dest: arg_cong [where f = length])

function loop_shell_write_escape_reason :: "fs_api \<Rightarrow> string \<Rightarrow> string \<Rightarrow> string" where
  "loop_shell_write_escape_reason fs command root =
     (if \<not> command_looks_like_file_write command then []
      else let tokens = tokenize_shell_command command;
               nested_reason = first_nonempty
                 (map (\<lambda>n. loop_shell_write_escape_reason fs n root) (nested_scripts command tokens));
               targets = fst (collect_targets tokens)
        in if nested_reason \<noteq> [] then nested_reason
           else if targets = [] \<and> contains_any (ascii_lower command) script_write_apis then
             ''LOOP Yolo blocked a shell write whose target cannot be proven inside the work root''
           else if snd (collect_targets tokens) \<and> targets = [] then
             ''LOOP Yolo blocked a shell write with no provable destination''
           else check_targets (validate fs (make_validator fs root False)) root targets)"
  by pat_completeness auto
termination
proof (relation "measure (\<lambda>(fs, c, w). length c)")
  fix fs command root tokens n
  assume "tokens = tokenize_shell_command command" "n \<in> set (nested_scripts command tokens)"
  then show "((fs, n, root), (fs, command, root)) \<in> measure (\<lambda>(fs, c, w). length c)"
    using nested_scripts_length [of n command tokens] tokens_length [of None "[]" command]
    by (simp add: tokenize_shell_command_def)
qed simp

declare loop_shell_write_escape_reason.simps [simp del]

section \<open>The guard and the validator\<close>

text \<open>What the guard asks of the checker of single destinations: an empty answer means inside.\<close>

definition safe_target :: "(string \<Rightarrow> bool) \<Rightarrow> string \<Rightarrow> string \<Rightarrow> bool" where
  "safe_target inside root t \<longleftrightarrow> \<not> shell_target_is_dynamic t \<and>
     (if shell_target_is_windows_absolute t then windows_absolute_is_inside t root else inside t)"

locale target_checker =
  fixes check :: "string \<Rightarrow> string"
    and inside :: "string \<Rightarrow> bool"
  assumes check_ok: "check p = [] \<Longrightarrow> inside p"
begin

lemma check_targets_safe:
  "check_targets check root ts = [] \<Longrightarrow> t \<in> set ts \<Longrightarrow> safe_target inside root (trim_shell_target t)"
  by (induction ts) (auto simp: safe_target_def Let_def check_ok split: if_splits)

end

definition inside_root :: "fs_api \<Rightarrow> string \<Rightarrow> string \<Rightarrow> bool" where
  "inside_root fs root p \<longleftrightarrow>
     (let v = make_validator fs root False
      in prefix (split_on slash (ascii_lower (working_dir v)))
           (split_on slash (ascii_lower (resolved_path fs v p))))"

interpretation root_checker: target_checker "validate fs (make_validator fs root False)" "inside_root fs root"
  for fs root
  by unfold_locales (simp add: validate_ok_iff inside_root_def Let_def make_validator_def)

text \<open>The destinations the guard can see: those of the command and of its quoted scripts.\<close>

inductive visible_target :: "string \<Rightarrow> string \<Rightarrow> bool" where
  direct: "command_looks_like_file_write c \<Longrightarrow>
     t \<in> set (fst (collect_targets (tokenize_shell_command c))) \<Longrightarrow> visible_target c t"
| nested: "command_looks_like_file_write c \<Longrightarrow>
     n \<in> set (nested_scripts c (tokenize_shell_command c)) \<Longrightarrow> visible_target n t \<Longrightarrow> visible_target c t"

lemma first_nonempty_Nil_iff: "first_nonempty rs = [] \<longleftrightarrow> (\<forall>r\<in>set rs. r = [])"
proof (cases "find (\<lambda>r. r \<noteq> []) rs")
  case None
  then have "\<forall>r\<in>set rs. r = []" by (auto simp: find_None_iff)
  with None show ?thesis by (simp add: first_nonempty_def)
next
  case (Some r)
  then have "r \<noteq> []" "r \<in> set rs" by (auto simp: find_Some_iff)
  with Some show ?thesis by (auto simp: first_nonempty_def)
qed

lemma guard_allowsD:
  assumes "loop_shell_write_escape_reason fs c root = []" "command_looks_like_file_write c"
  shows "check_targets (validate fs (make_validator fs root False)) root
           (fst (collect_targets (tokenize_shell_command c))) = []"
    and "n \<in> set (nested_scripts c (tokenize_shell_command c)) \<Longrightarrow>
           loop_shell_write_escape_reason fs n root = []"
    and "snd (collect_targets (tokenize_shell_command c)) \<Longrightarrow>
           fst (collect_targets (tokenize_shell_command c)) \<noteq> []"
  using assms by (subst (asm) loop_shell_write_escape_reason.simps,
      auto simp: Let_def first_nonempty_Nil_iff split: if_splits)+

lemma visible_target_safe:
  "visible_target c t \<Longrightarrow> loop_shell_write_escape_reason fs c root = [] \<Longrightarrow>
     safe_target (inside_root fs root) root (trim_shell_target t)"
proof (induction rule: visible_target.induct)
  case (direct c t)
  then show ?case
    using root_checker.check_targets_safe guard_allowsD(1) by blast
next
  case (nested c n t)
  then show ?case using guard_allowsD(2) by blast
qed

section \<open>Windows paths\<close>

lemma split_join:
  "ss \<noteq> [] \<Longrightarrow> \<forall>s\<in>set ss. d \<notin> set s \<Longrightarrow> split_on d (join_with d ss) = ss"
proof (induction d ss rule: join_with.induct)
  case (2 d s)
  then show ?case by (simp add: split_on_sepfree)
next
  case (3 d s t ss)
  then have "split_on d (join_with d (t # ss)) = t # ss" by simp
  with 3 split_on_append [of d s "join_with d (t # ss)"] show ?case by simp
qed simp

lemma windows_segments_sepfree: "s \<in> set (windows_segments p) \<Longrightarrow> slash \<notin> set s \<and> s \<noteq> []"
proof -
  have keep: "\<forall>s\<in>set (fold push_segment segs acc). slash \<notin> set s \<and> s \<noteq> []"
    if "\<forall>s\<in>set segs. slash \<notin> set s" "\<forall>s\<in>set acc. slash \<notin> set s \<and> s \<noteq> []" for segs acc
    using that
  proof (induction segs arbitrary: acc)
    case (Cons x segs)
    have "\<forall>s\<in>set (push_segment x acc). slash \<notin> set s \<and> s \<noteq> []"
      using Cons.prems in_set_butlastD [of _ acc] unfolding push_segment_def by (simp split: if_split)
    moreover have "\<forall>s\<in>set segs. slash \<notin> set s" using Cons.prems(1) by simp
    ultimately show ?case unfolding fold_Cons comp_apply by (intro Cons.IH)
  qed simp
  have "\<forall>x\<in>set (split_on slash (normalize_path_for_command_match p)). slash \<notin> set x"
    by (intro ballI) (rule split_on_no_sep)
  moreover have "\<forall>x\<in>set []. slash \<notin> set x \<and> x \<noteq> []" by simp
  ultimately have "\<forall>x\<in>set (windows_segments p). slash \<notin> set x \<and> x \<noteq> []"
    unfolding windows_segments_def by (rule keep)
  then show "s \<in> set (windows_segments p) \<Longrightarrow> slash \<notin> set s \<and> s \<noteq> []" by (rule bspec)
qed

lemma push_segment_hd: "acc \<noteq> [] \<Longrightarrow> fold push_segment segs acc \<noteq> [] \<and> hd (fold push_segment segs acc) = hd acc"
proof (induction segs arbitrary: acc)
  case (Cons s segs)
  have "push_segment s acc \<noteq> [] \<and> hd (push_segment s acc) = hd acc"
  proof -
    from Cons.prems obtain a as where acc: "acc = a # as" by (cases acc) auto
    show ?thesis unfolding acc push_segment_def by (cases as) simp_all
  qed
  with Cons.IH show ?case by simp
qed simp

lemma windows_absolute_segments:
  assumes "shell_target_is_windows_absolute p"
  shows "windows_segments p \<noteq> [] \<and> hd (windows_segments p) = [to_lower (p ! 0), CHR '':'']"
proof -
  from assms obtain a b c r where p: "p = a # b # c # r"
    by (auto simp: shell_target_is_windows_absolute_def numeral_3_eq_3 Suc_le_length_iff)
  with assms have a: "is_alpha a" "b = CHR '':''" "c = slash \<or> c = backslash"
    by (simp_all add: shell_target_is_windows_absolute_def)
  have "to_lower a \<noteq> slash" "a \<noteq> backslash"
    using a(1) by (auto simp: is_alpha_def to_lower_slash_iff)
  moreover have "to_lower CHR '':'' = CHR '':''" by (simp add: to_lower_def)
  ultimately have "split_on slash (normalize_path_for_command_match p) =
      [to_lower a, CHR '':''] # split_on slash (normalize_path_for_command_match r)"
    using a(2,3) p by (auto simp: normalize_path_for_command_match_def)
  moreover have "push_segment [to_lower a, CHR '':''] [] = [[to_lower a, CHR '':'']]"
    by (simp add: push_segment_def)
  ultimately show ?thesis
    using push_segment_hd [of "[[to_lower a, CHR '':'']]"] p by (simp add: windows_segments_def)
qed

lemma join_last: "ss \<noteq> [] \<Longrightarrow> last ss \<noteq> [] \<Longrightarrow> join_with d ss \<noteq> [] \<and> last (join_with d ss) = last (last ss)"
  by (induction d ss rule: join_with.induct) auto

lemma windows_inside_iff:
  "windows_absolute_is_inside target root \<longleftrightarrow>
     shell_target_is_windows_absolute target \<and> shell_target_is_windows_absolute root \<and>
     prefix (windows_segments root) (windows_segments target)"
proof (cases "shell_target_is_windows_absolute target \<and> shell_target_is_windows_absolute root")
  case True
  let ?t = "windows_segments target" and ?r = "windows_segments root"
  have ne: "?t \<noteq> []" "?r \<noteq> []" using True windows_absolute_segments by blast+
  have sp: "split_on slash (join_with slash ?t) = ?t" "split_on slash (join_with slash ?r) = ?r"
    using ne windows_segments_sepfree by (auto intro!: split_join)
  have lr: "last ?r \<noteq> []" "slash \<notin> set (last ?r)"
    using windows_segments_sepfree last_in_set [OF ne(2)] by blast+
  then have "last (join_with slash ?r) \<noteq> slash"
    using join_last [OF ne(2) lr(1), of slash] by (metis last_in_set)
  then have nr: "rstrip (\<lambda>c. c = slash) (join_with slash ?r) = join_with slash ?r"
    by (simp add: rstrip_id)
  have "length r < length t \<and> take (length r) t = r \<and> t ! length r = slash \<longleftrightarrow> prefix (r @ [slash]) t" for r t
    by (auto simp: prefix_take_iff take_Suc_conv_app_nth)
  then have "windows_absolute_is_inside target root \<longleftrightarrow>
      join_with slash ?t = join_with slash ?r \<or> prefix (join_with slash ?r @ [slash]) (join_with slash ?t)"
    using True by (simp add: windows_absolute_is_inside_def normalize_windows_absolute_for_compare_def nr Let_def)
  also have "\<dots> \<longleftrightarrow> prefix ?r ?t"
    using prefix_split_on [of slash "join_with slash ?r" "join_with slash ?t"] sp by simp
  finally show ?thesis using True by simp
qed (auto simp: windows_absolute_is_inside_def)

section \<open>Tokens\<close>

lemma tokens_bytes: "w \<in> set (tokenize_from q t s) \<Longrightarrow> set w \<subseteq> set t \<union> set s"
proof (induction q t s rule: tokenize_from.induct)
  case (3 t c cs)
  then show ?case by (cases cs) (auto simp: flush_def split: if_splits)
qed (auto simp: flush_def split: if_splits)

lemma quoted_word: "q \<notin> set w \<Longrightarrow> tokenize_from (Some q) t (w @ q # rest) = tokenize_from None (t @ w) rest"
  by (induction w arbitrary: t) auto

lemma collect_targets_word:
  "t \<in> set (fst (word_targets w rest)) \<Longrightarrow> t \<in> set (fst (collect_targets (u @ w # rest)))"
  by (induction u) (auto simp: Let_def split_beta)

lemma redirect_writes:
  assumes "w \<in> set (tokenize_shell_command c)" "CHR ''>'' \<in> set w"
  shows "command_looks_like_file_write c"
proof -
  from assms have "CHR ''>'' \<in> set c"
    using tokens_bytes [of w None "[]" c] by (auto simp: tokenize_shell_command_def)
  then obtain u v where "c = u @ CHR ''>'' # v" by (auto simp: in_set_conv_decomp)
  then have "ascii_lower c = ascii_lower u @ ''>'' @ ascii_lower v" by (simp add: to_lower_def)
  then have "contains (ascii_lower c) ''>''" by (metis containsI)
  then show ?thesis
    unfolding command_looks_like_file_write_def contains_any_iff write_features_def by auto
qed

section \<open>Properties\<close>

text \<open>C34: When the unattended guard lets a command through, every write destination it can see, in
  the command itself or in a script quoted for a wrapper to any depth, is a static path inside the
  work root: a Windows path by its lexical segments, any other path by the validator.\<close>

theorem guard_confines_writes:
  assumes "loop_shell_write_escape_reason fs c root = []" "visible_target c t"
  shows "\<not> shell_target_is_dynamic (trim_shell_target t) \<and>
    (if shell_target_is_windows_absolute (trim_shell_target t)
     then prefix (windows_segments root) (windows_segments (trim_shell_target t))
     else inside_root fs root (trim_shell_target t))"
  using visible_target_safe [OF assms(2,1)] by (auto simp: safe_target_def windows_inside_iff)

theorem guard_confines_writes_witness:
  "inside_root plain_fs ''/w'' ''/w/out''"
proof -
  have "loop_shell_write_escape_reason plain_fs ''bash -c 'echo a > /w/out' '' ''/w'' = []"
    by code_simp
  moreover have "visible_target ''bash -c 'echo a > /w/out' '' ''/w/out''"
  proof (rule visible_target.nested)
    show "visible_target ''echo a > /w/out'' ''/w/out''"
      by (rule visible_target.direct; code_simp)
  qed (code_simp+)
  ultimately have "\<not> shell_target_is_windows_absolute ''/w/out'' \<longrightarrow>
      inside_root plain_fs ''/w'' (trim_shell_target ''/w/out'')"
    using guard_confines_writes [of plain_fs _ "''/w''" "''/w/out''"]
    by (simp add: trim_shell_target_def rstrip_def shell_target_is_windows_absolute_def)
  then show ?thesis
    by (simp add: trim_shell_target_def rstrip_def shell_target_is_windows_absolute_def is_alpha_def)
qed

text \<open>A redirection is never let through to a destination outside: whatever precedes and follows
  it, the word after a redirection operator is checked.\<close>

lemma redirect_is_checked:
  assumes "tokenize_shell_command c = u @ oper # t # v" "oper \<in> {''>'', ''>>''}"
    and "loop_shell_write_escape_reason fs c root = []"
    and "\<not> shell_target_is_windows_absolute (trim_shell_target t)"
  shows "inside_root fs root (trim_shell_target t)"
proof -
  have "oper \<in> set (tokenize_shell_command c)" "CHR ''>'' \<in> set oper" using assms(1,2) by auto
  then have w: "command_looks_like_file_write c" by (rule redirect_writes)
  have "ascii_lower oper = oper" using assms(2) by (auto simp: to_lower_def)
  then have "t \<in> set (fst (word_targets oper (t # v)))"
    using assms(2) by (auto simp: word_targets_def Let_def)
  then have "t \<in> set (fst (collect_targets (tokenize_shell_command c)))"
    unfolding assms(1) by (rule collect_targets_word)
  with w have "visible_target c t" by (rule visible_target.direct)
  from visible_target_safe [OF this assms(3)] assms(4) show ?thesis by (simp add: safe_target_def)
qed

lemma redirect_is_checked_witness:
  "inside_root plain_fs ''/w'' ''out''"
proof -
  have "tokenize_shell_command ''echo a >out;ls'' = [''echo'', ''a''] @ ''>'' # ''out'' # [''ls'']"
    by code_simp
  moreover have "loop_shell_write_escape_reason plain_fs ''echo a >out;ls'' ''/w'' = []"
    by code_simp
  moreover have "trim_shell_target ''out'' = ''out''" "\<not> shell_target_is_windows_absolute ''out''"
    by code_simp+
  ultimately show ?thesis
    using redirect_is_checked [of "''echo a >out;ls''" "[''echo'', ''a'']" "''>''" "''out''" "[''ls'']"
      plain_fs "''/w''"] by simp
qed

text \<open>Words quoted with double quotes and joined by spaces are read back by the tokenizer as the
  same words, whatever they contain besides a double quote.\<close>

lemma tokenize_quoted_words:
  assumes "list_all (\<lambda>w. w \<noteq> [] \<and> dquote \<notin> set w) ws"
  shows "tokenize_shell_command (join_with CHR '' '' (map (\<lambda>w. dquote # w @ [dquote]) ws)) = ws"
proof -
  have "tokenize_from None [] (join_with CHR '' '' (map (\<lambda>w. dquote # w @ [dquote]) ws)) = ws"
    using assms
  proof (induction ws)
    case (Cons w ws)
    have sp: "\<not> is_quote CHR '' ''" "is_separator CHR '' ''"
      by (simp_all add: is_quote_def is_separator_def is_space_def)
    from Cons have w: "w \<noteq> []" "dquote \<notin> set w" by simp_all
    show ?case
    proof (cases ws)
      case Nil
      with w show ?thesis by (simp add: is_quote_def quoted_word flush_def)
    next
      case (Cons v vs)
      with w sp Cons.IH Cons.prems show ?thesis
        by (simp add: is_quote_def [of dquote] quoted_word flush_def)
    qed
  qed (simp add: flush_def)
  then show ?thesis by (simp add: tokenize_shell_command_def)
qed

lemma tokenize_quoted_words_witness:
  "tokenize_shell_command (join_with CHR '' '' (map (\<lambda>w. dquote # w @ [dquote]) [''cp'', ''a b'', ''x > y;z''])) =
     [''cp'', ''a b'', ''x > y;z'']"
  by (rule tokenize_quoted_words) simp

text \<open>The command separator \<open>&&\<close> is no separator for the guard, and a copy command's destination
  is taken to be the last word of the whole line: a copy to an outside path that is refused alone is
  let through when a harmless command follows it.\<close>

lemma chained_copy_is_let_through:
  "loop_shell_write_escape_reason plain_fs ''cp a /etc/passwd'' ''/w'' \<noteq> [] \<and>
   loop_shell_write_escape_reason plain_fs ''cp a /etc/passwd && echo ok'' ''/w'' = []"
  by code_simp

end
