(* ===== verification/EventDispatcher.thy ===== *)
theory EventDispatcher
  imports Prelude
begin

text \<open>
  \<open>session/event_dispatcher.cpp\<close>: the replay buffer and the ordered delivery of session events to
  subscribers, with the concurrency of the code kept.  Each section under the mutex is a function on
  the record \<open>dispatcher\<close>; the code between two sections is a thread state (\<open>thread\<close>), and
  \<open>sys_step\<close> lets any thread make its next move, so every interleaving of emitters, subscribers and
  unsubscribers is a path.  A listener call appends to the ghost \<open>delivered\<close>; the ghost \<open>expected\<close>
  collects what a subscriber should see: the replayed part of the buffer and every event emitted
  while it is registered.

  The lemmas show that the buffer is bounded, ordered and consistent with the coalescing map, that
  each subscription has at most one delivering thread, and that what was delivered, is in the hands
  of a thread, and is still pending make up exactly what is expected, in order.  The sequence
  counter is a natural number (the code's 64 bits do not overflow in practice).
\<close>

record 'p event =
  ev_seq :: nat
  ev_body :: 'p

record 'p subscription =
  has_listener :: bool
  catching_up :: bool
  delivering :: bool
  pending :: "'p event list"

record 'p dispatcher =
  seq_counter :: nat
  next_sub_id :: nat
  buffer_capacity :: nat
  buffer :: "'p event list"
  coalesced :: "string \<Rightarrow> nat option"
  subs :: "nat \<Rightarrow> 'p subscription option"
  observer_id :: nat

definition make_dispatcher :: "nat \<Rightarrow> 'p dispatcher" where
  "make_dispatcher capacity =
     \<lparr>seq_counter = 0, next_sub_id = 1, buffer_capacity = (if capacity = 0 then 1 else capacity),
      buffer = [], coalesced = (\<lambda>_. None), subs = (\<lambda>_. None), observer_id = 0\<rparr>"

section \<open>Sections under the mutex\<close>

fun remove_seq :: "nat \<Rightarrow> 'p event list \<Rightarrow> 'p event list" where
  "remove_seq n [] = []"
| "remove_seq n (e # es) = (if ev_seq e = n then es else e # remove_seq n es)"

function evict :: "nat \<Rightarrow> 'p event list \<Rightarrow> (string \<Rightarrow> nat option) \<Rightarrow>
    'p event list \<times> (string \<Rightarrow> nat option)" where
  "evict capacity buf m =
     (if length buf > capacity
      then evict capacity (tl buf) (\<lambda>k. if m k = Some (ev_seq (hd buf)) then None else m k)
      else (buf, m))"
  by pat_completeness auto
termination
  by (relation "measure (\<lambda>(c, b, m). length b)") auto

declare evict.simps [simp del]

definition push_to_buffer :: "'p event \<Rightarrow> string \<Rightarrow> 'p dispatcher \<Rightarrow> 'p dispatcher" where
  "push_to_buffer evt key d =
     (let b = (if key \<noteq> [] then (case coalesced d key of Some old \<Rightarrow> remove_seq old (buffer d)
                                 | None \<Rightarrow> buffer d)
               else buffer d);
          m = (if key \<noteq> [] then (coalesced d)(key \<mapsto> ev_seq evt) else coalesced d);
          (b', m') = evict (buffer_capacity d) (b @ [evt]) m
      in d\<lparr>buffer := b', coalesced := m'\<rparr>)"

definition claimable :: "'p subscription \<Rightarrow> bool" where
  "claimable s \<longleftrightarrow> \<not> catching_up s \<and> \<not> delivering s \<and> has_listener s"

definition enqueue :: "'p event \<Rightarrow> 'p subscription \<Rightarrow> 'p subscription" where
  "enqueue evt s =
     (let s1 = s\<lparr>pending := pending s @ [evt]\<rparr>
      in if claimable s1 then s1\<lparr>delivering := True\<rparr> else s1)"

definition next_event :: "'p \<Rightarrow> 'p dispatcher \<Rightarrow> 'p event" where
  "next_event body d = \<lparr>ev_seq = Suc (seq_counter d), ev_body = body\<rparr>"

definition emit_locked :: "bool \<Rightarrow> string \<Rightarrow> 'p \<Rightarrow> 'p dispatcher \<Rightarrow> 'p dispatcher" where
  "emit_locked buffered key body d =
     (let evt = next_event body d;
          d1 = d\<lparr>seq_counter := Suc (seq_counter d)\<rparr>;
          d2 = (if buffered then push_to_buffer evt key d1 else d1)
      in d2\<lparr>subs := (\<lambda>sid. map_option (enqueue evt) (subs d2 sid))\<rparr>)"

text \<open>The subscriptions the emitter claims in that section (\<open>drain_targets\<close>, in any order).\<close>

definition claimed :: "'p dispatcher \<Rightarrow> nat set" where
  "claimed d = {sid. \<exists>s. subs d sid = Some s \<and> claimable s}"

definition upd_sub :: "nat \<Rightarrow> ('p subscription \<Rightarrow> 'p subscription) \<Rightarrow> 'p dispatcher \<Rightarrow> 'p dispatcher" where
  "upd_sub sid f d = d\<lparr>subs := (subs d)(sid := map_option f (subs d sid))\<rparr>"

text \<open>One locked section of \<open>drain_subscription\<close>: the event taken, or none when it returns.\<close>

definition drain_locked :: "nat \<Rightarrow> 'p dispatcher \<Rightarrow> 'p event option \<times> 'p dispatcher" where
  "drain_locked sid d =
     (case subs d sid of
        None \<Rightarrow> (None, d)
      | Some s \<Rightarrow>
          if catching_up s \<or> pending s = [] then (None, upd_sub sid (\<lambda>s. s\<lparr>delivering := False\<rparr>) d)
          else (Some (hd (pending s)), upd_sub sid (\<lambda>s. s\<lparr>pending := tl (pending s)\<rparr>) d))"

definition subscribe_locked :: "bool \<Rightarrow> nat \<Rightarrow> 'p dispatcher \<Rightarrow> nat \<times> 'p event list \<times> 'p dispatcher" where
  "subscribe_locked listener since d =
     (let sid = next_sub_id d;
          to_replay = (if since > 0 then [e \<leftarrow> buffer d. ev_seq e > since] else []);
          sub = \<lparr>has_listener = listener, catching_up = True, delivering = False, pending = []\<rparr>
      in (sid, to_replay, d\<lparr>next_sub_id := Suc sid, subs := (subs d)(sid \<mapsto> sub)\<rparr>))"

text \<open>One locked section of the catch-up loop.\<close>

definition flush_locked :: "nat \<Rightarrow> 'p dispatcher \<Rightarrow> 'p event option \<times> 'p dispatcher" where
  "flush_locked sid d =
     (case subs d sid of
        None \<Rightarrow> (None, d)
      | Some s \<Rightarrow>
          if pending s = [] then (None, upd_sub sid (\<lambda>s. s\<lparr>catching_up := False\<rparr>) d)
          else (Some (hd (pending s)), upd_sub sid (\<lambda>s. s\<lparr>pending := tl (pending s)\<rparr>) d))"

definition unsubscribe :: "nat \<Rightarrow> 'p dispatcher \<Rightarrow> 'p dispatcher" where
  "unsubscribe sid d =
     d\<lparr>subs := (subs d)(sid := None), observer_id := (if observer_id d = sid then 0 else observer_id d)\<rparr>"

definition listener_count :: "'p dispatcher \<Rightarrow> nat" where
  "listener_count d =
     card (dom (subs d)) - (if observer_id d \<noteq> 0 \<and> subs d (observer_id d) \<noteq> None then 1 else 0)"

section \<open>Threads\<close>

text \<open>
  \<open>Draining\<close>: an emitter with the targets still to drain and the event it took from the first;
  \<open>Replaying\<close> and \<open>Flushing\<close>: a subscriber in its second and third step (the flag marks the
  subscription made by \<open>set_observer\<close>); \<open>ObserverReset\<close> and \<open>ObserverDone\<close>: \<open>set_observer\<close> after
  its first section and before its last.
\<close>

datatype 'p thread =
  Draining "nat list" "'p event option"
| Replaying nat bool "'p event list"
| Flushing nat bool "'p event option"
| ObserverReset nat bool
| ObserverDone nat

record 'p system =
  disp :: "'p dispatcher"
  threads :: "'p thread list"
  delivered :: "nat \<Rightarrow> 'p event list"
  expected :: "nat \<Rightarrow> 'p event list"

text \<open>\<open>listener(evt)\<close>, outside the lock (a null listener drops the event at this point).\<close>

definition deliver :: "nat \<Rightarrow> 'p event \<Rightarrow> 'p system \<Rightarrow> 'p system" where
  "deliver sid e sys = sys\<lparr>delivered := (delivered sys)(sid := delivered sys sid @ [e])\<rparr>"

definition start_subscription :: "bool \<Rightarrow> bool \<Rightarrow> nat \<Rightarrow> 'p system \<Rightarrow> 'p system \<times> 'p thread list" where
  "start_subscription listener obs since sys =
     (case subscribe_locked listener since (disp sys) of (sid, replay, d) \<Rightarrow>
        (sys\<lparr>disp := d, expected := (expected sys)(sid := replay)\<rparr>, [Replaying sid obs replay]))"

text \<open>The next move of a thread: the new system and what becomes of the thread.\<close>

fun thread_move :: "'p thread \<Rightarrow> 'p system \<Rightarrow> 'p system \<times> 'p thread list" where
  "thread_move (Draining [] h) sys = (sys, [])"
| "thread_move (Draining (sid # sids) None) sys =
     (case drain_locked sid (disp sys) of (taken, d) \<Rightarrow>
        (sys\<lparr>disp := d\<rparr>, [Draining (if taken = None then sids else sid # sids) taken]))"
| "thread_move (Draining (sid # sids) (Some e)) sys = (deliver sid e sys, [Draining (sid # sids) None])"
| "thread_move (Replaying sid obs []) sys = (sys, [Flushing sid obs None])"
| "thread_move (Replaying sid obs (e # es)) sys = (deliver sid e sys, [Replaying sid obs es])"
| "thread_move (Flushing sid obs None) sys =
     (case flush_locked sid (disp sys) of (taken, d) \<Rightarrow>
        (sys\<lparr>disp := d\<rparr>,
         if taken = None then (if obs then [ObserverDone sid] else []) else [Flushing sid obs taken]))"
| "thread_move (Flushing sid obs (Some e)) sys = (deliver sid e sys, [Flushing sid obs None])"
| "thread_move (ObserverReset previous install) sys =
     (if previous \<noteq> 0
      then (sys\<lparr>disp := unsubscribe previous (disp sys)\<rparr>, [ObserverReset 0 install])
      else if install then start_subscription True True 0 sys else (sys, []))"
| "thread_move (ObserverDone sid) sys = (sys\<lparr>disp := (disp sys)\<lparr>observer_id := sid\<rparr>\<rparr>, [])"

text \<open>One move of the thread at a position of the list.\<close>

definition emit_system :: "nat list \<Rightarrow> bool \<Rightarrow> string \<Rightarrow> 'p \<Rightarrow> 'p system \<Rightarrow> 'p system" where
  "emit_system sids buffered key body sys =
     sys\<lparr>disp := emit_locked buffered key body (disp sys),
       threads := threads sys @ [Draining sids None],
       expected := (\<lambda>x. if subs (disp sys) x \<noteq> None
                       then expected sys x @ [next_event body (disp sys)] else expected sys x)\<rparr>"

inductive sys_step :: "'p system \<Rightarrow> 'p system \<Rightarrow> bool" where
  emit: "distinct sids \<Longrightarrow> set sids = claimed (disp sys) \<Longrightarrow>
     sys_step sys (emit_system sids buffered key body sys)"
| subscribe: "start_subscription listener False since sys = (sys', ts) \<Longrightarrow>
     sys_step sys (sys'\<lparr>threads := threads sys @ ts\<rparr>)"
| unsubscribe: "sys_step sys (sys\<lparr>disp := unsubscribe sid (disp sys)\<rparr>)"
| set_observer: "sys_step sys
     (sys\<lparr>disp := (disp sys)\<lparr>observer_id := 0\<rparr>,
       threads := threads sys @ [ObserverReset (observer_id (disp sys)) install]\<rparr>)"
| move: "threads sys = us @ t # vs \<Longrightarrow> thread_move t sys = (sys', ts) \<Longrightarrow>
     sys_step sys (sys'\<lparr>threads := us @ ts @ vs\<rparr>)"

inductive_cases sys_stepE: "sys_step sys sys'"

definition init_system :: "nat \<Rightarrow> 'p system" where
  "init_system capacity =
     \<lparr>disp = make_dispatcher capacity, threads = [], delivered = (\<lambda>_. []), expected = (\<lambda>_. [])\<rparr>"

inductive reachable :: "nat \<Rightarrow> 'p system \<Rightarrow> bool" for capacity where
  init: "reachable capacity (init_system capacity)"
| step: "reachable capacity sys \<Longrightarrow> sys_step sys sys' \<Longrightarrow> reachable capacity sys'"

section \<open>The buffer\<close>

abbreviation seqs :: "'p event list \<Rightarrow> nat list" where
  "seqs es \<equiv> map ev_seq es"

definition buffer_ok :: "'p dispatcher \<Rightarrow> bool" where
  "buffer_ok d \<longleftrightarrow> 1 \<le> buffer_capacity d \<and> length (buffer d) \<le> buffer_capacity d \<and>
     sorted_wrt (<) (seqs (buffer d)) \<and> (\<forall>e\<in>set (buffer d). ev_seq e \<le> seq_counter d) \<and>
     (\<forall>k n. coalesced d k = Some n \<longrightarrow> n \<in> set (seqs (buffer d))) \<and>
     inj_on (coalesced d) (dom (coalesced d))"

lemma remove_seq_filter: "distinct (seqs es) \<Longrightarrow> remove_seq n es = [e \<leftarrow> es. ev_seq e \<noteq> n]"
  by (induction es) (auto intro!: filter_True [symmetric] simp: image_iff)

lemma evict_drop:
  "fst (evict c buf m) = drop (length buf - c) buf"
proof (induction c buf m rule: evict.induct)
  case (1 c buf m)
  show ?case
  proof (cases "length buf > c")
    case True
    with 1 have "fst (evict c buf m) = drop (length (tl buf) - c) (tl buf)"
      by (subst evict.simps) simp
    also have "\<dots> = drop (length buf - c) buf"
      using True by (cases buf) (auto simp: Suc_diff_le)
    finally show ?thesis .
  qed (subst evict.simps, simp)
qed

lemma evict_keys:
  "distinct (seqs buf) \<Longrightarrow> (\<And>k n. m k = Some n \<Longrightarrow> n \<in> set (seqs buf)) \<Longrightarrow>
     snd (evict c buf m) k = Some n \<Longrightarrow> n \<in> set (seqs (fst (evict c buf m))) \<and> m k = Some n"
proof (induction c buf m rule: evict.induct)
  case (1 c buf m)
  show ?case
  proof (cases "length buf > c")
    case True
    then obtain e es where buf: "buf = e # es" by (cases buf) auto
    let ?m = "\<lambda>k. if m k = Some (ev_seq e) then None else m k"
    have ev: "evict c buf m = evict c es ?m"
      using True buf by (subst evict.simps) simp
    have "n \<in> set (seqs (fst (evict c es ?m))) \<and> ?m k = Some n"
    proof (rule 1(1) [OF True, unfolded buf list.sel])
      show "distinct (seqs es)" using 1(2) buf by simp
      show "n \<in> set (seqs es)" if "?m k = Some n" for k n
        using that 1(3) [of k n] buf by (auto split: if_splits)
      show "snd (evict c es ?m) k = Some n" using 1(4) ev by simp
    qed
    then show ?thesis unfolding ev by (auto split: if_splits)
  next
    case False
    then have "evict c buf m = (buf, m)" by (subst evict.simps) simp
    with 1(3,4) show ?thesis by simp
  qed
qed

lemma evict_inj:
  assumes "distinct (seqs buf)" "\<And>k n. m k = Some n \<Longrightarrow> n \<in> set (seqs buf)" "inj_on m (dom m)"
  shows "inj_on (snd (evict c buf m)) (dom (snd (evict c buf m)))"
proof (rule inj_onI)
  fix k k'
  assume k: "k \<in> dom (snd (evict c buf m))" and k': "k' \<in> dom (snd (evict c buf m))"
    and eq: "snd (evict c buf m) k = snd (evict c buf m) k'"
  then obtain n where n: "snd (evict c buf m) k = Some n" "snd (evict c buf m) k' = Some n" by auto
  have "m k = Some n" using evict_keys [OF assms(1,2) n(1)] by simp
  moreover have "m k' = Some n" using evict_keys [OF assms(1,2) n(2)] by simp
  ultimately show "k = k'" using inj_onD [OF assms(3), of k k'] by auto
qed

text \<open>What \<open>push_to_buffer\<close> leaves: the older event of the same key is gone, the new one is last, and
  the oldest events beyond the capacity are dropped.\<close>

definition pushed :: "'p event \<Rightarrow> string \<Rightarrow> 'p dispatcher \<Rightarrow> 'p event list" where
  "pushed evt key d =
     [e \<leftarrow> buffer d. key = [] \<or> coalesced d key \<noteq> Some (ev_seq e)] @ [evt]"

lemma push_buffer:
  assumes ok: "buffer_ok d" and n: "\<forall>e\<in>set (buffer d). ev_seq e < ev_seq evt"
  shows "buffer (push_to_buffer evt key d) = drop (length (pushed evt key d) - buffer_capacity d) (pushed evt key d)"
    and "\<And>k m. coalesced (push_to_buffer evt key d) k = Some m \<Longrightarrow>
           m \<in> set (seqs (buffer (push_to_buffer evt key d)))"
    and "inj_on (coalesced (push_to_buffer evt key d)) (dom (coalesced (push_to_buffer evt key d)))"
    and "sorted_wrt (<) (seqs (pushed evt key d))"
    and "subs (push_to_buffer evt key d) = subs d" "seq_counter (push_to_buffer evt key d) = seq_counter d"
      "next_sub_id (push_to_buffer evt key d) = next_sub_id d"
      "buffer_capacity (push_to_buffer evt key d) = buffer_capacity d"
      "observer_id (push_to_buffer evt key d) = observer_id d"
proof -
  have srt: "sorted_wrt (<) (seqs (buffer d))" and keys: "\<And>k n. coalesced d k = Some n \<Longrightarrow> n \<in> set (seqs (buffer d))"
    and inj: "inj_on (coalesced d) (dom (coalesced d))"
    using ok by (auto simp: buffer_ok_def)
  have dist: "distinct (seqs (buffer d))" using srt by (rule strict_sorted_distinct)
  define b where "b = pushed evt key d"
  define m where "m = (if key \<noteq> [] then (coalesced d)(key \<mapsto> ev_seq evt) else coalesced d)"
  have "(if key \<noteq> [] then (case coalesced d key of Some old \<Rightarrow> remove_seq old (buffer d) | None \<Rightarrow> buffer d)
      else buffer d) @ [evt] = b"
    by (auto simp: b_def pushed_def remove_seq_filter [OF dist] intro!: filter_cong split: option.split)
  then have push: "push_to_buffer evt key d =
      d\<lparr>buffer := fst (evict (buffer_capacity d) b m), coalesced := snd (evict (buffer_capacity d) b m)\<rparr>"
    unfolding push_to_buffer_def by (simp only: Let_def split_beta m_def)
  then show "buffer (push_to_buffer evt key d) = drop (length (pushed evt key d) - buffer_capacity d) (pushed evt key d)"
    and "subs (push_to_buffer evt key d) = subs d" "seq_counter (push_to_buffer evt key d) = seq_counter d"
      "next_sub_id (push_to_buffer evt key d) = next_sub_id d"
      "buffer_capacity (push_to_buffer evt key d) = buffer_capacity d"
      "observer_id (push_to_buffer evt key d) = observer_id d"
    by (simp_all add: evict_drop b_def)
  show sb: "sorted_wrt (<) (seqs (pushed evt key d))"
    using srt n by (auto simp: pushed_def sorted_wrt_append sorted_wrt_map intro: sorted_wrt_filter)
  then have distb: "distinct (seqs b)" unfolding b_def by (rule strict_sorted_distinct)
  have fresh: "coalesced d k \<noteq> Some (ev_seq evt)" for k
    using keys [of k "ev_seq evt"] n by force
  have mb: "n \<in> set (seqs b)" if "m k = Some n" for k n
  proof (cases "key \<noteq> [] \<and> k = key")
    case True
    with that show ?thesis by (auto simp: m_def b_def pushed_def)
  next
    case False
    with that have k: "coalesced d k = Some n" by (auto simp: m_def split: if_splits)
    have "key = [] \<or> coalesced d key \<noteq> Some n"
      using inj_onD [OF inj, of k key] k False by (auto simp: dom_def)
    with keys [OF k] show ?thesis by (auto simp: b_def pushed_def)
  qed
  have "inj_on m (dom m)"
  proof (rule inj_onI)
    fix k k' assume k: "k \<in> dom m" "k' \<in> dom m" "m k = m k'"
    then obtain n where n: "m k = Some n" "m k' = Some n" by auto
    have "coalesced d x = Some n" if "m x = Some n" "\<not> (key \<noteq> [] \<and> x = key)" for x
      using that by (auto simp: m_def split: if_splits)
    moreover have "n = ev_seq evt" if "m x = Some n" "key \<noteq> [] \<and> x = key" for x
      using that by (simp add: m_def)
    ultimately show "k = k'"
      using n fresh inj_onD [OF inj, of k k'] by (metis domI)
  qed
  then show "inj_on (coalesced (push_to_buffer evt key d)) (dom (coalesced (push_to_buffer evt key d)))"
    unfolding push using evict_inj [OF distb, of m] mb by simp
  show "x \<in> set (seqs (buffer (push_to_buffer evt key d)))"
    if "coalesced (push_to_buffer evt key d) k = Some x" for k x
    using that evict_keys [OF distb, where m = m and k = k and n = x] mb unfolding push by simp
qed

lemma buffer_ok_tick:
  assumes "buffer_ok d"
  shows "buffer_ok (d\<lparr>seq_counter := Suc (seq_counter d)\<rparr>)"
    and "\<forall>e\<in>set (buffer (d\<lparr>seq_counter := Suc (seq_counter d)\<rparr>)). ev_seq e < ev_seq (next_event body d)"
  using assms by (auto simp: buffer_ok_def next_event_def)

lemma buffer_ok_emit:
  assumes "buffer_ok d"
  shows "buffer_ok (emit_locked buffered key body d)"
proof -
  let ?d = "d\<lparr>seq_counter := Suc (seq_counter d)\<rparr>" and ?evt = "next_event body d"
  note ok = buffer_ok_tick(1) [OF assms] and n = buffer_ok_tick(2) [OF assms, of body]
  note p = push_buffer [OF ok n, where key = key]
  let ?p = "pushed ?evt key ?d"
  have "sorted_wrt (<) (seqs (drop k ?p))" for k
    using p(4) by (simp add: drop_map [symmetric] sorted_wrt_drop)
  moreover have "ev_seq e \<le> Suc (seq_counter d)" if "e \<in> set (drop k ?p)" for e k
    using in_set_dropD [OF that] assms by (auto simp: pushed_def buffer_ok_def next_event_def)
  ultimately have "buffer_ok (push_to_buffer ?evt key ?d)"
    using ok p(2,3) unfolding buffer_ok_def p(6,8) p(1) by auto
  with ok show ?thesis by (auto simp: emit_locked_def Let_def buffer_ok_def)
qed

section \<open>Who delivers what\<close>

fun drain_ids :: "'p thread \<Rightarrow> nat list" where
  "drain_ids (Draining sids h) = sids"
| "drain_ids _ = []"

fun catch_ids :: "'p thread \<Rightarrow> nat list" where
  "catch_ids (Replaying sid obs es) = [sid]"
| "catch_ids (Flushing sid obs h) = [sid]"
| "catch_ids _ = []"

fun in_hand :: "nat \<Rightarrow> 'p thread \<Rightarrow> 'p event list" where
  "in_hand x (Draining (sid # sids) (Some e)) = (if x = sid then [e] else [])"
| "in_hand x (Replaying sid obs es) = (if x = sid then es else [])"
| "in_hand x (Flushing sid obs (Some e)) = (if x = sid then [e] else [])"
| "in_hand x _ = []"

definition drainers :: "nat \<Rightarrow> 'p thread list \<Rightarrow> nat" where
  "drainers x ts = sum_list (map (\<lambda>t. count_list (drain_ids t) x) ts)"

definition catchers :: "nat \<Rightarrow> 'p thread list \<Rightarrow> nat" where
  "catchers x ts = sum_list (map (\<lambda>t. count_list (catch_ids t) x) ts)"

definition held :: "nat \<Rightarrow> 'p thread list \<Rightarrow> 'p event list" where
  "held x ts = concat (map (in_hand x) ts)"

lemma owner_simps [simp]:
  "drainers x [] = 0" "catchers x [] = 0" "held x [] = []"
  "drainers x (t # ts) = count_list (drain_ids t) x + drainers x ts"
  "catchers x (t # ts) = count_list (catch_ids t) x + catchers x ts"
  "held x (t # ts) = in_hand x t @ held x ts"
  "drainers x (ts @ us) = drainers x ts + drainers x us"
  "catchers x (ts @ us) = catchers x ts + catchers x us"
  "held x (ts @ us) = held x ts @ held x us"
  by (simp_all add: drainers_def catchers_def held_def)

lemma in_hand_owned: "count_list (drain_ids t) x = 0 \<Longrightarrow> count_list (catch_ids t) x = 0 \<Longrightarrow> in_hand x t = []"
  by (induction x t rule: in_hand.induct) (auto split: if_splits)

lemma held_owned: "drainers x ts = 0 \<Longrightarrow> catchers x ts = 0 \<Longrightarrow> held x ts = []"
  by (induction ts) (auto simp: in_hand_owned)

text \<open>The state of one subscription: its entry, how many threads deliver to it, what they hold,
  what was delivered and what is expected.\<close>

definition channel_ok ::
  "'p subscription option \<Rightarrow> nat \<Rightarrow> nat \<Rightarrow> 'p event list \<Rightarrow> 'p event list \<Rightarrow> 'p event list \<Rightarrow> bool" where
  "channel_ok entry dr ca h del ex \<longleftrightarrow> dr + ca \<le> 1 \<and>
     (case entry of
        None \<Rightarrow> prefix (del @ h) ex
      | Some s \<Rightarrow> (delivering s \<longleftrightarrow> dr = 1) \<and> (catching_up s \<longleftrightarrow> ca = 1) \<and>
          (has_listener s \<and> pending s \<noteq> [] \<longrightarrow> dr + ca = 1) \<and> del @ h @ pending s = ex)"

abbreviation channel :: "nat \<Rightarrow> 'p system \<Rightarrow> bool" where
  "channel x sys \<equiv> channel_ok (subs (disp sys) x) (drainers x (threads sys)) (catchers x (threads sys))
     (held x (threads sys)) (delivered sys x) (expected sys x)"

definition fresh_ok :: "nat \<Rightarrow> 'p system \<Rightarrow> bool" where
  "fresh_ok x sys \<longleftrightarrow> next_sub_id (disp sys) \<le> x \<longrightarrow> subs (disp sys) x = None \<and>
     drainers x (threads sys) = 0 \<and> catchers x (threads sys) = 0 \<and> delivered sys x = []"

definition expected_ok :: "nat \<Rightarrow> 'p system \<Rightarrow> bool" where
  "expected_ok x sys \<longleftrightarrow> sorted_wrt (<) (seqs (expected sys x)) \<and>
     (\<forall>e\<in>set (expected sys x). ev_seq e \<le> seq_counter (disp sys))"

definition system_inv :: "'p system \<Rightarrow> bool" where
  "system_inv sys \<longleftrightarrow> buffer_ok (disp sys) \<and>
     (\<forall>x. channel x sys \<and> fresh_ok x sys \<and> expected_ok x sys)"

lemma system_invI:
  assumes "buffer_ok (disp sys)" "\<And>x. channel x sys" "\<And>x. fresh_ok x sys" "\<And>x. expected_ok x sys"
  shows "system_inv sys"
  using assms by (simp add: system_inv_def)

lemma system_invD:
  assumes "system_inv sys"
  shows "buffer_ok (disp sys)" "channel x sys" "fresh_ok x sys" "expected_ok x sys"
  using assms by (simp_all add: system_inv_def)

lemma init_inv: "system_inv (init_system capacity)"
  by (rule system_invI)
     (auto simp: init_system_def make_dispatcher_def buffer_ok_def channel_ok_def fresh_ok_def expected_ok_def)

lemma emit_locked_parts:
  assumes "buffer_ok d"
  shows "subs (emit_locked buffered key body d) x = map_option (enqueue (next_event body d)) (subs d x)"
    and "next_sub_id (emit_locked buffered key body d) = next_sub_id d"
    and "seq_counter (emit_locked buffered key body d) = Suc (seq_counter d)"
proof -
  let ?d = "d\<lparr>seq_counter := Suc (seq_counter d)\<rparr>"
  note ok = buffer_ok_tick(1) [OF assms] and n = buffer_ok_tick(2) [OF assms, of body]
  note p = push_buffer [OF ok n, where key = key]
  show "subs (emit_locked buffered key body d) x = map_option (enqueue (next_event body d)) (subs d x)"
    and "next_sub_id (emit_locked buffered key body d) = next_sub_id d"
    and "seq_counter (emit_locked buffered key body d) = Suc (seq_counter d)"
    using p by (auto simp: emit_locked_def Let_def)
qed

lemma emit_locked_buffer:
  assumes "buffer_ok d"
  shows "buffer (emit_locked True key body d) =
      (let p = pushed (next_event body d) key d in drop (length p - buffer_capacity d) p)"
    and "buffer_capacity (emit_locked True key body d) = buffer_capacity d"
proof -
  note p = push_buffer [OF buffer_ok_tick(1) [OF assms] buffer_ok_tick(2) [OF assms, of body], where key = key]
  show "buffer (emit_locked True key body d) =
      (let p = pushed (next_event body d) key d in drop (length p - buffer_capacity d) p)"
    and "buffer_capacity (emit_locked True key body d) = buffer_capacity d"
    using p(1,8) by (simp_all add: emit_locked_def Let_def pushed_def)
qed

lemma emit_inv:
  assumes inv: "system_inv sys" and ids: "distinct sids" "set sids = claimed (disp sys)"
  shows "system_inv (emit_system sids buffered key body sys)"
proof (rule system_invI)
  note ok = system_invD(1) [OF inv]
  note parts = emit_locked_parts [OF ok]
  have cnt: "count_list sids x = (if x \<in> claimed (disp sys) then 1 else 0)" for x
    using ids by (simp add: count_list_distinct)
  show "buffer_ok (disp (emit_system sids buffered key body sys))"
    using ok by (simp add: emit_system_def buffer_ok_emit)
  fix x
  show "channel x (emit_system sids buffered key body sys)"
    using system_invD(2) [OF inv, of x] cnt [of x]
    by (cases "subs (disp sys) x")
       (auto simp: emit_system_def parts channel_ok_def claimed_def enqueue_def Let_def claimable_def)
  show "fresh_ok x (emit_system sids buffered key body sys)"
    using system_invD(3) [OF inv, of x] cnt [of x]
    by (auto simp: emit_system_def parts fresh_ok_def claimed_def)
  show "expected_ok x (emit_system sids buffered key body sys)"
    using system_invD(4) [OF inv, of x]
    by (auto simp: emit_system_def parts expected_ok_def sorted_wrt_append next_event_def less_Suc_eq_le le_SucI)
qed

lemma others_idle:
  assumes "channel x sys" "threads sys = us @ t # vs"
    and "count_list (drain_ids t) x + count_list (catch_ids t) x \<ge> 1"
  shows "drainers x us = 0" "drainers x vs = 0" "catchers x us = 0" "catchers x vs = 0"
    "held x us = []" "held x vs = []"
    "count_list (drain_ids t) x + count_list (catch_ids t) x = 1"
proof -
  have "drainers x us = 0 \<and> drainers x vs = 0 \<and> catchers x us = 0 \<and> catchers x vs = 0 \<and>
      count_list (drain_ids t) x + count_list (catch_ids t) x = 1"
    using assms unfolding channel_ok_def by simp
  then show "drainers x us = 0" "drainers x vs = 0" "catchers x us = 0" "catchers x vs = 0"
    "held x us = []" "held x vs = []" "count_list (drain_ids t) x + count_list (catch_ids t) x = 1"
    by (auto simp: held_owned)
qed

text \<open>A move that keeps the dispatcher's buffer, counters and expectations, and touches at most the
  subscription it works on.\<close>

lemma local_move:
  assumes inv: "system_inv sys" and th: "threads sys = us @ t # vs"
    and frame: "seq_counter (disp sys') = seq_counter (disp sys)"
      "next_sub_id (disp sys') = next_sub_id (disp sys)" "buffer_ok (disp sys')"
      "expected sys' = expected sys"
      "\<And>x. x \<noteq> sid \<Longrightarrow> subs (disp sys') x = subs (disp sys) x \<and> delivered sys' x = delivered sys x \<and>
         drainers x ts = count_list (drain_ids t) x \<and> catchers x ts = count_list (catch_ids t) x \<and>
         held x ts = in_hand x t"
    and own: "count_list (drain_ids t) sid + count_list (catch_ids t) sid \<ge> 1"
    and local: "drainers sid us = 0 \<Longrightarrow> drainers sid vs = 0 \<Longrightarrow> catchers sid us = 0 \<Longrightarrow>
      catchers sid vs = 0 \<Longrightarrow> held sid us = [] \<Longrightarrow> held sid vs = [] \<Longrightarrow>
      channel_ok (subs (disp sys) sid) (count_list (drain_ids t) sid) (count_list (catch_ids t) sid)
        (in_hand sid t) (delivered sys sid) (expected sys sid) \<Longrightarrow>
      channel_ok (subs (disp sys') sid) (drainers sid ts) (catchers sid ts)
        (held sid ts) (delivered sys' sid) (expected sys sid)"
  shows "system_inv (sys'\<lparr>threads := us @ ts @ vs\<rparr>)"
proof (rule system_invI)
  note idle = others_idle [OF system_invD(2) [OF inv] th own]
  have sidlt: "sid < next_sub_id (disp sys)"
    using system_invD(3) [OF inv, of sid] own by (auto simp: fresh_ok_def th)
  show "buffer_ok (disp (sys'\<lparr>threads := us @ ts @ vs\<rparr>))" using frame by simp
  fix x
  show "channel x (sys'\<lparr>threads := us @ ts @ vs\<rparr>)"
  proof (cases "x = sid")
    case True
    have "channel_ok (subs (disp sys) sid) (count_list (drain_ids t) sid) (count_list (catch_ids t) sid)
        (in_hand sid t) (delivered sys sid) (expected sys sid)"
      using system_invD(2) [OF inv, of sid] by (simp add: th idle)
    then show ?thesis using local idle True frame(4) by simp
  next
    case False
    then show ?thesis using system_invD(2) [OF inv, of x] frame(4,5) by (simp add: th)
  qed
  show "fresh_ok x (sys'\<lparr>threads := us @ ts @ vs\<rparr>)"
    using system_invD(3) [OF inv, of x] frame sidlt
    by (cases "x = sid") (auto simp: th fresh_ok_def)
  show "expected_ok x (sys'\<lparr>threads := us @ ts @ vs\<rparr>)"
    using system_invD(4) [OF inv, of x] frame by (simp add: expected_ok_def)
qed

lemma upd_sub_simps [simp]:
  "seq_counter (upd_sub sid f d) = seq_counter d" "next_sub_id (upd_sub sid f d) = next_sub_id d"
  "buffer (upd_sub sid f d) = buffer d" "coalesced (upd_sub sid f d) = coalesced d"
  "buffer_capacity (upd_sub sid f d) = buffer_capacity d"
  "buffer_ok (upd_sub sid f d) = buffer_ok d"
  "subs (upd_sub sid f d) x = (if x = sid then map_option f (subs d x) else subs d x)"
  by (simp_all add: upd_sub_def buffer_ok_def)

lemmas channel_simps = channel_ok_def deliver_def drain_locked_def flush_locked_def

lemma buffer_ok_unsubscribe [simp]: "buffer_ok (unsubscribe sid d) = buffer_ok d"
  by (simp add: unsubscribe_def buffer_ok_def)

lemma channel_dropped:
  assumes "channel_ok entry dr ca h del ex"
  shows "channel_ok None dr ca h del ex"
proof (cases entry)
  case (Some s)
  with assms have "ex = (del @ h) @ pending s" by (simp add: channel_ok_def)
  then have "prefix (del @ h) ex" by (rule prefixI)
  with assms show ?thesis by (simp add: channel_ok_def)
qed (use assms in simp)

lemma unsubscribe_inv:
  assumes inv: "system_inv sys"
  shows "system_inv (sys\<lparr>disp := unsubscribe sid (disp sys)\<rparr>)"
proof (rule system_invI)
  fix x
  show "channel x (sys\<lparr>disp := unsubscribe sid (disp sys)\<rparr>)"
    using system_invD(2) [OF inv, of x] channel_dropped
    by (cases "x = sid") (auto simp: unsubscribe_def)
qed (use inv in \<open>simp_all add: system_inv_def fresh_ok_def expected_ok_def unsubscribe_def buffer_ok_def\<close>)

lemma start_inv:
  assumes inv: "system_inv sys" and st: "start_subscription listener obs since sys = (sys', ts)"
    and th: "threads sys = us @ vs"
  shows "system_inv (sys'\<lparr>threads := us @ ts @ vs\<rparr>)"
proof (rule system_invI)
  let ?id = "next_sub_id (disp sys)"
  note ok = system_invD(1) [OF inv]
  have ts: "ts = [Replaying ?id obs (if since > 0 then [e \<leftarrow> buffer (disp sys). ev_seq e > since] else [])]"
    and d: "disp sys' = (disp sys)\<lparr>next_sub_id := Suc ?id,
      subs := (subs (disp sys))(?id \<mapsto> \<lparr>has_listener = listener, catching_up = True, delivering = False, pending = []\<rparr>)\<rparr>"
    and ex: "expected sys' = (expected sys)(?id := (if since > 0 then [e \<leftarrow> buffer (disp sys). ev_seq e > since] else []))"
    and del: "delivered sys' = delivered sys"
    using st by (auto simp: start_subscription_def subscribe_locked_def Let_def)
  show "buffer_ok (disp (sys'\<lparr>threads := us @ ts @ vs\<rparr>))" using ok by (simp add: d buffer_ok_def)
  fix x
  have fresh: "drainers ?id us = 0" "drainers ?id vs = 0" "catchers ?id us = 0" "catchers ?id vs = 0"
    "delivered sys ?id = []"
    using system_invD(3) [OF inv, of ?id] by (simp_all add: fresh_ok_def th)
  show "channel x (sys'\<lparr>threads := us @ ts @ vs\<rparr>)"
    using system_invD(2) [OF inv, of x] fresh
    by (cases "x = ?id") (auto simp: ts d ex del th channel_ok_def held_owned)
  show "fresh_ok x (sys'\<lparr>threads := us @ ts @ vs\<rparr>)"
    using system_invD(3) [OF inv, of x] by (auto simp: fresh_ok_def d del ts th)
  show "expected_ok x (sys'\<lparr>threads := us @ ts @ vs\<rparr>)"
    using system_invD(4) [OF inv, of x] ok
    by (auto simp: expected_ok_def d ex buffer_ok_def sorted_wrt_map intro: sorted_wrt_filter)
qed

lemma move_inv:
  assumes inv: "system_inv sys" and th: "threads sys = us @ t # vs"
    and mv: "thread_move t sys = (sys', ts)"
  shows "system_inv (sys'\<lparr>threads := us @ ts @ vs\<rparr>)"
  using mv
proof (cases "(t, sys)" rule: thread_move.cases)
  case (1 h s)
  with mv have "sys' = sys" "ts = []" by simp_all
  with inv 1 show ?thesis
    by (simp add: system_inv_def th fresh_ok_def expected_ok_def)
next
  case (2 sid sids s)
  have own: "count_list (drain_ids t) sid + count_list (catch_ids t) sid \<ge> 1" using 2 by simp
  note one = others_idle(7) [OF system_invD(2) [OF inv] th own]
  show ?thesis
    by (rule local_move [OF inv th _ _ _ _ _ own])
       (use mv 2 one system_invD(1) [OF inv] in
         \<open>auto simp: channel_simps split: option.splits if_splits list.splits\<close>)
next
  case (3 sid sids e s)
  have own: "count_list (drain_ids t) sid + count_list (catch_ids t) sid \<ge> 1" using 3 by simp
  show ?thesis
    by (rule local_move [OF inv th _ _ _ _ _ own])
       (use mv 3 system_invD(1) [OF inv] in \<open>auto simp: channel_simps split: option.splits\<close>)
next
  case (4 sid obs s)
  have own: "count_list (drain_ids t) sid + count_list (catch_ids t) sid \<ge> 1" using 4 by simp
  show ?thesis
    by (rule local_move [OF inv th _ _ _ _ _ own])
       (use mv 4 system_invD(1) [OF inv] in \<open>auto simp: channel_simps split: option.splits\<close>)
next
  case (5 sid obs e es s)
  have own: "count_list (drain_ids t) sid + count_list (catch_ids t) sid \<ge> 1" using 5 by simp
  show ?thesis
    by (rule local_move [OF inv th _ _ _ _ _ own])
       (use mv 5 system_invD(1) [OF inv] in \<open>auto simp: channel_simps split: option.splits\<close>)
next
  case (6 sid obs s)
  have own: "count_list (drain_ids t) sid + count_list (catch_ids t) sid \<ge> 1" using 6 by simp
  show ?thesis
    by (rule local_move [OF inv th _ _ _ _ _ own])
       (use mv 6 system_invD(1) [OF inv] in
         \<open>auto simp: channel_simps split: option.splits if_splits list.splits\<close>)
next
  case (7 sid obs e s)
  have own: "count_list (drain_ids t) sid + count_list (catch_ids t) sid \<ge> 1" using 7 by simp
  show ?thesis
    by (rule local_move [OF inv th _ _ _ _ _ own])
       (use mv 7 system_invD(1) [OF inv] in \<open>auto simp: channel_simps split: option.splits\<close>)
next
  case (8 previous install s)
  have drop: "system_inv (sys\<lparr>threads := us @ vs\<rparr>)"
    using inv 8 by (simp add: system_inv_def th fresh_ok_def expected_ok_def)
  show ?thesis
  proof (cases "previous \<noteq> 0")
    case True
    with mv 8 have "sys' = sys\<lparr>disp := unsubscribe previous (disp sys)\<rparr>" "ts = [ObserverReset 0 install]"
      by auto
    with unsubscribe_inv [OF inv, of previous] 8 show ?thesis
      by (simp add: system_inv_def th fresh_ok_def expected_ok_def)
  next
    case no: False
    show ?thesis
    proof (cases install)
      case True
      then have "start_subscription True True 0 (sys\<lparr>threads := us @ vs\<rparr>) = (sys'\<lparr>threads := us @ vs\<rparr>, ts)"
        using mv 8 no by (auto simp: start_subscription_def split_beta)
      from start_inv [OF drop this, of us vs] show ?thesis by simp
    next
      case False
      with no mv 8 drop show ?thesis by simp
    qed
  qed
next
  case (9 sid s)
  with mv inv show ?thesis
    by (auto simp: system_inv_def th fresh_ok_def expected_ok_def buffer_ok_def)
qed

lemma sys_step_inv: "sys_step sys sys' \<Longrightarrow> system_inv sys \<Longrightarrow> system_inv sys'"
proof (induction rule: sys_step.induct)
  case (emit sids sys buffered key body)
  then show ?case by (intro emit_inv)
next
  case (subscribe listener since sys sys' ts)
  then show ?case using start_inv [of sys listener False since sys' ts "threads sys" "[]"] by simp
next
  case (unsubscribe sys sid)
  then show ?case by (rule unsubscribe_inv)
next
  case (set_observer sys install)
  then show ?case by (simp add: system_inv_def fresh_ok_def expected_ok_def buffer_ok_def)
next
  case (move sys us t vs sys' ts)
  then show ?case by (intro move_inv)
qed

lemma reachable_inv: "reachable capacity sys \<Longrightarrow> system_inv sys"
  by (induction rule: reachable.induct) (auto intro: init_inv sys_step_inv)

section \<open>A concrete run\<close>

definition move_at :: "nat \<Rightarrow> 'p system \<Rightarrow> 'p system" where
  "move_at i sys =
     (case thread_move (threads sys ! i) sys of (sys', ts) \<Rightarrow>
        sys'\<lparr>threads := take i (threads sys) @ ts @ drop (Suc i) (threads sys)\<rparr>)"

lemma reachable_move_at:
  assumes "reachable capacity sys" "i < length (threads sys)"
  shows "reachable capacity (move_at i sys)"
proof -
  obtain sys' ts where mv: "thread_move (threads sys ! i) sys = (sys', ts)" by fastforce
  from id_take_nth_drop [OF assms(2)] mv
  have "sys_step sys (sys'\<lparr>threads := take i (threads sys) @ ts @ drop (Suc i) (threads sys)\<rparr>)"
    by (rule sys_step.move)
  with assms(1) mv show ?thesis by (auto simp: move_at_def intro: reachable.step)
qed

definition subscribe_system :: "bool \<Rightarrow> nat \<Rightarrow> 'p system \<Rightarrow> 'p system" where
  "subscribe_system listener since sys =
     (case start_subscription listener False since sys of (sys', ts) \<Rightarrow> sys'\<lparr>threads := threads sys @ ts\<rparr>)"

lemma reachable_subscribe:
  "reachable capacity sys \<Longrightarrow> reachable capacity (subscribe_system listener since sys)"
  unfolding subscribe_system_def
  by (rule reachable.step, assumption) (auto intro: sys_step.subscribe split: prod.split)

lemma reachable_emit:
  "reachable capacity sys \<Longrightarrow> distinct sids \<Longrightarrow> set sids = claimed (disp sys) \<Longrightarrow>
     reachable capacity (emit_system sids buffered key body sys)"
  by (rule reachable.step, assumption) (rule sys_step.emit)

text \<open>Two events, a subscriber that replays the second one while a third arrives, a fourth event.\<close>

definition caught_up :: "nat system" where
  "caught_up = fold move_at [0, 0, 0, 0, 0, 0] (emit_system [] True [] 30
     (subscribe_system True 1 (fold move_at [0, 0] (emit_system [] True [] 20
       (emit_system [] True [] 10 (init_system 2))))))"

definition sample_run :: "nat system" where
  "sample_run = fold move_at [0, 0, 0, 0] (emit_system [1] True [] 40 caught_up)"

fun runnable :: "nat list \<Rightarrow> 'p system \<Rightarrow> bool" where
  "runnable [] sys = True"
| "runnable (i # is) sys = (i < length (threads sys) \<and> runnable is (move_at i sys))"

lemma reachable_run:
  "reachable capacity sys \<Longrightarrow> runnable is sys \<Longrightarrow> reachable capacity (fold move_at is sys)"
  by (induction "is" arbitrary: sys) (auto intro: reachable_move_at)

lemmas run_simps = emit_system_def emit_locked_def next_event_def push_to_buffer_def evict.simps
  enqueue_def claimable_def upd_sub_def drain_locked_def subscribe_locked_def flush_locked_def
  deliver_def start_subscription_def subscribe_system_def init_system_def make_dispatcher_def
  move_at_def

lemma caught_up_state:
  "threads caught_up = []"
  "subs (disp caught_up) = (\<lambda>x. if x = 1 then Some \<lparr>has_listener = True, catching_up = False,
     delivering = False, pending = []\<rparr> else None)"
  by (simp_all add: caught_up_def run_simps Let_def fun_eq_iff)

lemma caught_up_reachable: "reachable 2 caught_up"
proof -
  let ?s0 = "emit_system [] True [] 20 (emit_system [] True [] 10 (init_system 2)) :: nat system"
  have "reachable 2 ?s0"
    by (intro reachable_emit reachable.init)
       (auto simp: claimed_def init_system_def make_dispatcher_def emit_system_def emit_locked_def
         push_to_buffer_def Let_def split_beta)
  moreover have "runnable [0, 0] ?s0" by (simp add: run_simps Let_def)
  ultimately have "reachable 2 (subscribe_system True 1 (fold move_at [0, 0] ?s0))"
    by (intro reachable_subscribe reachable_run)
  moreover have "claimed (disp (subscribe_system True 1 (fold move_at [0, 0] ?s0))) = {}"
    by (simp add: claimed_def run_simps Let_def)
  ultimately have "reachable 2 (emit_system [] True [] 30 (subscribe_system True 1 (fold move_at [0, 0] ?s0)))"
    by (intro reachable_emit) simp_all
  moreover have "runnable [0, 0, 0, 0, 0, 0]
      (emit_system [] True [] 30 (subscribe_system True 1 (fold move_at [0, 0] ?s0)))"
    by (simp add: run_simps Let_def)
  ultimately show ?thesis unfolding caught_up_def by (rule reachable_run)
qed

lemma sample_run_reachable: "reachable 2 sample_run"
proof -
  have "claimed (disp caught_up) = {1}"
    by (auto simp: claimed_def caught_up_state claimable_def split: if_splits)
  then have "reachable 2 (emit_system [1] True [] 40 caught_up)"
    by (intro reachable_emit caught_up_reachable) simp_all
  moreover have "runnable [0, 0, 0, 0] (emit_system [1] True [] 40 caught_up)"
    by (simp add: caught_up_def run_simps Let_def)
  ultimately show ?thesis unfolding sample_run_def by (rule reachable_run)
qed

lemma sample_run_state:
  "threads sample_run = []" "map ev_body (delivered sample_run 1) = [20, 30, 40]"
  "subs (disp sample_run) 1 = Some \<lparr>has_listener = True, catching_up = False, delivering = False, pending = []\<rparr>"
  "map ev_body (buffer (disp sample_run)) = [30, 40]"
  by (simp_all add: sample_run_def caught_up_def run_simps Let_def)

section \<open>Properties\<close>

text \<open>C36: In every reachable state, whatever the interleaving of emitters, subscribers and
  unsubscribers, each listener has received a prefix of the events it should see (the replayed ones,
  then all those emitted while it was registered), in strictly increasing sequence order: nothing is
  skipped, duplicated or reordered.\<close>

theorem delivery_in_order:
  assumes "reachable capacity sys"
  shows "prefix (delivered sys x) (expected sys x) \<and> sorted_wrt (<) (seqs (delivered sys x))"
proof -
  note inv = reachable_inv [OF assms]
  have pre: "prefix (delivered sys x) (expected sys x)"
    using channel_dropped [OF system_invD(2) [OF inv, of x]] by (auto simp: channel_ok_def dest: append_prefixD)
  moreover have "sorted_wrt (<) (seqs (expected sys x))"
    using system_invD(4) [OF inv, of x] by (simp add: expected_ok_def)
  ultimately show ?thesis by (auto simp: prefix_def sorted_wrt_append)
qed

theorem delivery_in_order_witness:
  "prefix (delivered sample_run 1) (expected sample_run 1) \<and> length (delivered sample_run 1) = 3"
proof -
  have "length (map ev_body (delivered sample_run 1)) = 3" by (simp only: sample_run_state(2)) simp
  with delivery_in_order [OF sample_run_reachable, of 1] show ?thesis by simp
qed

text \<open>C37: No event is stranded: when no thread is delivering to a registered listener, everything
  expected has been delivered and nothing is pending, so in every other state a thread is at work
  on the subscription, and exactly one.\<close>

theorem nothing_stranded:
  assumes "reachable capacity sys" "subs (disp sys) x = Some s" "has_listener s"
  shows "drainers x (threads sys) + catchers x (threads sys) \<le> 1 \<and>
    (drainers x (threads sys) + catchers x (threads sys) = 0 \<longrightarrow>
       delivered sys x = expected sys x \<and> pending s = [])"
  using system_invD(2) [OF reachable_inv [OF assms(1)], of x] assms(2,3)
  by (auto simp: channel_ok_def held_owned)

theorem nothing_stranded_witness:
  "delivered sample_run 1 = expected sample_run 1"
  using nothing_stranded [OF sample_run_reachable sample_run_state(3)]
  by (simp add: sample_run_state(1))

text \<open>The replay buffer never exceeds its capacity and is strictly ordered by sequence number,
  no buffered number is above the counter, and every coalescing key points to a buffered event, two
  keys never to the same one, so the map is bounded by the capacity too.\<close>

lemma replay_buffer_bounded:
  assumes "reachable capacity sys"
  shows "length (buffer (disp sys)) \<le> buffer_capacity (disp sys) \<and>
    sorted_wrt (<) (seqs (buffer (disp sys))) \<and>
    (\<forall>e\<in>set (buffer (disp sys)). ev_seq e \<le> seq_counter (disp sys)) \<and>
    card (dom (coalesced (disp sys))) \<le> length (buffer (disp sys))"
proof -
  have ok: "buffer_ok (disp sys)" using system_invD(1) [OF reachable_inv [OF assms]] .
  let ?m = "coalesced (disp sys)" and ?b = "buffer (disp sys)"
  have "?m ` dom ?m \<subseteq> Some ` set (seqs ?b)" using ok by (auto simp: buffer_ok_def)
  then have "card (dom ?m) \<le> card (Some ` set (seqs ?b))"
    using ok by (intro card_inj_on_le [of ?m]) (auto simp: buffer_ok_def)
  also have "\<dots> \<le> length (seqs ?b)"
    by (metis card_image_le card_length finite_imageI List.finite_set order_trans)
  finally show ?thesis using ok by (simp add: buffer_ok_def)
qed

lemma replay_buffer_bounded_witness:
  "length (buffer (disp sample_run)) \<le> buffer_capacity (disp sample_run) \<and>
   map ev_body (buffer (disp sample_run)) = [30, 40]"
  using replay_buffer_bounded [OF sample_run_reachable] sample_run_state(4) by simp

text \<open>After any number of plain emissions the buffer is exactly the newest events, as many as
  fit, numbered consecutively from one.\<close>

lemma buffer_is_newest:
  "buffer (fold (emit_locked True []) bodies (make_dispatcher capacity)) =
     drop (length bodies - max 1 capacity)
       (map (\<lambda>(i, b). \<lparr>ev_seq = Suc i, ev_body = b\<rparr>) (enumerate 0 bodies))"
  (is "_ = drop _ (?evs bodies)")
proof -
  let ?d = "\<lambda>bs. fold (emit_locked True []) bs (make_dispatcher capacity)"
  have "buffer_ok (?d bodies) \<and> buffer_capacity (?d bodies) = max 1 capacity \<and>
      seq_counter (?d bodies) = length bodies \<and>
      buffer (?d bodies) = drop (length bodies - max 1 capacity) (?evs bodies)"
  proof (induction bodies rule: rev_induct)
    case Nil
    show ?case by (auto simp: make_dispatcher_def buffer_ok_def)
  next
    case (snoc b bs)
    let ?e = "?d bs"
    have oke: "buffer_ok ?e" using snoc by blast
    have d: "?d (bs @ [b]) = emit_locked True [] b ?e" by simp
    have cap: "buffer_capacity (?d (bs @ [b])) = max 1 capacity"
      unfolding d emit_locked_buffer(2) [OF oke] using snoc by blast
    have "buffer (?d (bs @ [b])) = drop (Suc (length (buffer ?e)) - max 1 capacity) (buffer ?e @ [next_event b ?e])"
      unfolding d emit_locked_buffer(1) [OF oke] using snoc by (simp add: Let_def pushed_def)
    also have "\<dots> = drop (Suc (length bs) - max 1 capacity) (?evs bs @ [next_event b ?e])"
      using snoc by (cases "length bs < max 1 capacity") (auto simp: drop_append)
    finally show ?case
      using snoc cap buffer_ok_emit [of ?e True "[]" b] emit_locked_parts(3) [of ?e True "[]" b]
      by (simp add: next_event_def enumerate_append_eq)
  qed
  then show ?thesis by blast
qed

end
