(* ===== verification/Json.thy ===== *)
theory Json
  imports Prelude
begin

text \<open>
  The JSON values the components exchange (\<open>nlohmann::json\<close>), as a tree (a float is its text).  Parsing and printing of
  JSON text belong to the library and are parameters of the definitions that use them; what the
  sources use of a value (\<open>is_object\<close>, \<open>contains\<close>, \<open>is_string\<close>, \<open>get\<close>, \<open>value\<close> with a default) is
  defined here.
\<close>

datatype json =
  JNull
| JBool bool
| JInt int
| JFloat string
| JStr string
| JArr "json list"
| JObj "(string \<times> json) list"

fun is_object :: "json \<Rightarrow> bool" where
  "is_object (JObj m) = True"
| "is_object _ = False"

fun is_string :: "json \<Rightarrow> bool" where
  "is_string (JStr s) = True"
| "is_string _ = False"

fun field :: "json \<Rightarrow> string \<Rightarrow> json option" where
  "field (JObj m) k = map_of m k"
| "field _ k = None"

fun is_integer :: "json \<Rightarrow> bool" where
  "is_integer (JInt i) = True"
| "is_integer _ = False"

text \<open>\<open>j.contains(k) && j[k].is_string()\<close>, and the string.\<close>

definition string_field :: "json \<Rightarrow> string \<Rightarrow> string option" where
  "string_field j k = (case field j k of Some (JStr s) \<Rightarrow> Some s | _ \<Rightarrow> None)"

text \<open>\<open>get<int>\<close> and \<open>get<int64_t>\<close> convert by reduction to the width.\<close>

definition wrap_signed :: "nat \<Rightarrow> int \<Rightarrow> int" where
  "wrap_signed w i = (i + 2 ^ (w - 1)) mod 2 ^ w - 2 ^ (w - 1)"

abbreviation int32_min :: int where "int32_min \<equiv> - (2 ^ 31)"
abbreviation int32_max :: int where "int32_max \<equiv> 2 ^ 31 - 1"
abbreviation int64_min :: int where "int64_min \<equiv> - (2 ^ 63)"
abbreviation int64_max :: int where "int64_max \<equiv> 2 ^ 63 - 1"

lemma wrap_signed_id: "w > 0 \<Longrightarrow> - (2 ^ (w - 1)) \<le> i \<Longrightarrow> i < 2 ^ (w - 1) \<Longrightarrow> wrap_signed w i = i"
proof -
  assume "w > 0" "- (2 ^ (w - 1)) \<le> i" "i < 2 ^ (w - 1)"
  moreover have "(2 :: int) ^ w = 2 * 2 ^ (w - 1)" using \<open>w > 0\<close> by (cases w) simp_all
  ultimately show ?thesis by (simp add: wrap_signed_def)
qed

lemma wrap_signed_simps [simp]:
  "int32_min \<le> i \<Longrightarrow> i \<le> int32_max \<Longrightarrow> wrap_signed 32 i = i"
  "int64_min \<le> i \<Longrightarrow> i \<le> int64_max \<Longrightarrow> wrap_signed 64 i = i"
  by (simp_all add: wrap_signed_id)

lemma string_field_Some_iff: "string_field j k = Some s \<longleftrightarrow> field j k = Some (JStr s)"
  by (simp add: string_field_def split: option.split json.split)

lemma string_field_object: "string_field j k = Some s \<Longrightarrow> is_object j"
  by (cases j) (simp_all add: string_field_def)

end
