(* ===== verification/DoomGuard.thy ===== *)
theory DoomGuard
  imports Json
begin

text \<open>
  \<open>agent_loop_doom_guard.cpp\<close>: the guard that stops the model from repeating a tool call that told
  it nothing.  A call is reduced to a key (\<open>build_key\<close>: the exact call, and for shell commands an
  operation on a target), a result to a class (\<open>classify_result\<close>), and the guard keeps the last 64
  attempts of the turn and a cool-down per tool.  The parser of the call's JSON arguments is the
  parameter \<open>parse\<close> (\<open>None\<close> when it fails).  The lemmas say what is counted against a call (what the
  guard does to the repeats in a model's answer is in \<open>Repeats\<close>), that a useful result clears the way, that failures with a recovery path do not count, and that
  the guard's own answers are recognised as such.
\<close>

section \<open>Calls and results\<close>

datatype operation = OpUnknown | OpRead | OpSearch | OpVerify | OpWrite

datatype result_class =
  Useful | EmptyResult | ErrorResult | Denied | NotFound | Timeout | Unchanged | Guarded

record tool_call =
  call_id :: string
  function_name :: string
  function_arguments :: string

record tool_summary =
  sum_verb :: string
  sum_object :: string
  sum_metrics :: "(string \<times> string) list"
  sum_icon :: string

record tool_result =
  res_output :: string
  res_success :: bool
  res_summary :: "tool_summary option"

record call_key =
  key_tool :: string
  key_exact :: string
  key_semantic :: string
  key_operation :: operation
  key_target :: string

record attempt =
  att_key :: call_key
  att_result :: result_class
  att_low_signal :: bool

record doom_guard =
  attempts :: "attempt list"
  cooldown_turns :: "string \<Rightarrow> int option"

section \<open>Text\<close>

text \<open>The loop of \<open>collapse_space\<close>: the output so far and whether the last byte was a space.\<close>

fun collapse_from :: "string \<Rightarrow> bool \<Rightarrow> string \<Rightarrow> string" where
  "collapse_from out previous_space [] = out"
| "collapse_from out previous_space (c # cs) =
     (if is_space c
      then collapse_from (if \<not> previous_space \<and> out \<noteq> [] then out @ '' '' else out) True cs
      else collapse_from (out @ [c]) False cs)"

definition collapse_space :: "string \<Rightarrow> string" where
  "collapse_space s =
     (let out = collapse_from [] False s
      in if out \<noteq> [] \<and> last out = CHR '' '' then butlast out else out)"

definition normalize_command :: "string \<Rightarrow> string" where
  "normalize_command s = collapse_space (ascii_lower (forward_slashes s))"

function strip_wrapping_quotes :: "string \<Rightarrow> string" where
  "strip_wrapping_quotes s =
     (if length s \<ge> 2 \<and> (hd s = dquote \<and> last s = dquote \<or> hd s = squote \<and> last s = squote)
      then strip_wrapping_quotes (butlast (tl s)) else s)"
  by pat_completeness auto
termination
  by (relation "measure length") auto

declare strip_wrapping_quotes.simps [simp del]

definition path_extensions :: "string list" where
  "path_extensions =
     [''.md'', ''.txt'', ''.json'', ''.jsonl'', ''.cpp'', ''.hpp'', ''.h'', ''.c'',
      ''.py'', ''.js'', ''.ts'', ''.tsx'', ''.jsx'', ''.cs'', ''.java'', ''.xml'',
      ''.yaml'', ''.yml'', ''.ini'', ''.log'', ''.csv'', ''.html'', ''.css'']"

definition looks_like_path :: "string \<Rightarrow> bool" where
  "looks_like_path token =
     (if length token < 3 then False
      else if is_alpha (token ! 0) \<and> token ! 1 = CHR '':'' \<and> (token ! 2 = slash \<or> token ! 2 = backslash) then True
      else if prefix ''./'' token \<or> prefix ''../'' token then True
      else if slash \<notin> set token \<and> backslash \<notin> set token then False
      else let lower = ascii_lower token
        in if contains_any lower path_extensions then True
           else slash \<in> set lower \<or> backslash \<in> set lower)"

fun command_tokens_from :: "char option \<Rightarrow> string \<Rightarrow> string \<Rightarrow> string list" where
  "command_tokens_from quote current [] = (if current \<noteq> [] then [current] else [])"
| "command_tokens_from (Some q) current (c # cs) =
     (if c = q then command_tokens_from None current cs
      else command_tokens_from (Some q) (current @ [c]) cs)"
| "command_tokens_from None current (c # cs) =
     (if c = dquote \<or> c = squote then command_tokens_from (Some c) current cs
      else if is_space c \<or> c = CHR '','' \<or> c = CHR '';'' then
        (if current \<noteq> [] then [current] else []) @ command_tokens_from None [] cs
      else command_tokens_from None (current @ [c]) cs)"

definition command_tokens_preserving_quotes :: "string \<Rightarrow> string list" where
  "command_tokens_preserving_quotes command = command_tokens_from None [] command"

text \<open>The first loop of \<open>extract_target_from_command\<close>: a drive path anywhere in the text.\<close>

definition ends_drive_path :: "char \<Rightarrow> bool" where
  "ends_drive_path c \<longleftrightarrow> is_space c \<or> c = dquote \<or> c = squote \<or>
     c \<in> {CHR ''|'', CHR '')'', CHR '']'', CHR ''}'', CHR '','', CHR '';''}"

fun find_drive_path :: "string \<Rightarrow> string option" where
  "find_drive_path (a # b # c # rest) =
     (if \<not> is_alpha a \<or> b \<noteq> CHR '':'' \<or> (c \<noteq> backslash \<and> c \<noteq> slash)
      then find_drive_path (b # c # rest)
      else Some (ascii_lower (forward_slashes (a # b # c # takeWhile (\<lambda>x. \<not> ends_drive_path x) rest))))"
| "find_drive_path _ = None"

definition clean_token :: "string \<Rightarrow> string" where
  "clean_token token =
     dropWhile (\<lambda>c. c \<in> {CHR ''('', CHR ''['', CHR ''{''})
       (rstrip (\<lambda>c. c \<in> {CHR '')'', CHR '']'', CHR ''}''}) (strip_wrapping_quotes token))"

definition extract_target_from_command :: "string \<Rightarrow> string" where
  "extract_target_from_command command =
     (case find_drive_path command of
        Some path \<Rightarrow> path
      | None \<Rightarrow>
          (case find looks_like_path (map clean_token (command_tokens_preserving_quotes command)) of
             Some token \<Rightarrow> ascii_lower (forward_slashes token)
           | None \<Rightarrow> []))"

definition classify_bash_operation :: "string \<Rightarrow> operation" where
  "classify_bash_operation c =
     (if contains_any c [''set-content'', ''out-file'', ''add-content'', ''writealltext'',
            ''write_text'', ''open('', ''replace('', ''move '', ''copy '', ''>>'', ''>''] then OpWrite
      else if contains_any c [''findstr'', ''select-string'', ''grep'', ''rg '', ''search'', ''contains'',
            ''re.search'', ''indexof'', ''match''] then OpSearch
      else if contains_any c [''old remaining'', ''remaining:'', ''verify'', ''check'', ''compare'',
            ''diff'', ''fc ''] then OpVerify
      else if contains_any c [''type '', ''get-content'', ''cat '', ''readalltext'', ''.read()'',
            ''read_text'', ''head '', ''tail ''] then OpRead
      else OpUnknown)"

definition is_retryable_precondition_failure :: "tool_result \<Rightarrow> bool" where
  "is_retryable_precondition_failure r \<longleftrightarrow> \<not> res_success r \<and>
     contains_any (ascii_lower (res_output r))
       [''read the target file with file_read'', ''re-read the file before writing'']"

fun operation_name :: "operation \<Rightarrow> string" where
  "operation_name OpRead = ''read''"
| "operation_name OpSearch = ''search''"
| "operation_name OpVerify = ''verify''"
| "operation_name OpWrite = ''write''"
| "operation_name OpUnknown = ''unknown''"

definition prior_attempts_before_guard :: nat where
  "prior_attempts_before_guard = 3 - 1"

abbreviation newline :: char where
  "newline \<equiv> CHR 0x0A"

section \<open>Keys and classes\<close>

definition argument_target :: "json \<Rightarrow> string" where
  "argument_target args =
     (case string_field args ''file_path'' of
        Some p \<Rightarrow> normalize_command p
      | None \<Rightarrow> (case string_field args ''path'' of Some p \<Rightarrow> normalize_command p | None \<Rightarrow> []))"

definition build_key :: "(string \<Rightarrow> json option) \<Rightarrow> tool_call \<Rightarrow> call_key" where
  "build_key parse call =
     (let tool = ascii_lower (function_name call);
          exact = tool @ newline # collapse_space (function_arguments call);
          args = (case parse (function_arguments call) of Some j \<Rightarrow> j | None \<Rightarrow> JNull);
          target = argument_target args
      in case (if tool = ''bash'' then string_field args ''command'' else None) of
           Some command \<Rightarrow>
             let normalized_command = normalize_command command;
                 target' = (if target = [] then extract_target_from_command command else target);
                 oper = classify_bash_operation normalized_command
             in \<lparr>key_tool = tool, key_exact = tool @ newline # normalized_command,
                  key_semantic = (if target' \<noteq> [] \<and> oper \<noteq> OpUnknown
                    then tool @ newline # operation_name oper @ newline # target' else []),
                  key_operation = oper, key_target = target'\<rparr>
         | None \<Rightarrow>
             \<lparr>key_tool = tool, key_exact = exact,
               key_semantic = (if target \<noteq> [] then tool @ newline # target else []),
               key_operation = OpUnknown, key_target = target\<rparr>)"

definition bytes :: "nat list \<Rightarrow> string" where
  "bytes ns = map char_of ns"

definition denied_words :: "string list" where
  "denied_words = [''access denied'', ''permission denied'',
     bytes [0xE6, 0x8B, 0x92, 0xE7, 0xBB, 0x9D, 0xE8, 0xAE, 0xBF, 0xE9, 0x97, 0xAE]]"

definition not_found_words :: "string list" where
  "not_found_words = [''no such file'', ''not found'', ''cannot find'',
     bytes [0xE6, 0x89, 0xBE, 0xE4, 0xB8, 0x8D, 0xE5, 0x88, 0xB0, 0xE6, 0x8C, 0x87, 0xE5, 0xAE, 0x9A,
       0xE7, 0x9A, 0x84, 0xE6, 0x96, 0x87, 0xE4, 0xBB, 0xB6],
     bytes [0xE7, 0xB3, 0xBB, 0xE7, 0xBB, 0x9F, 0xE6, 0x89, 0xBE, 0xE4, 0xB8, 0x8D, 0xE5, 0x88, 0xB0],
     bytes [0xE4, 0xB8, 0x8D, 0xE5, 0xAD, 0x98, 0xE5, 0x9C, 0xA8]]"

definition classify_result :: "tool_result \<Rightarrow> result_class" where
  "classify_result r =
     (let out = collapse_space (res_output r); lower = ascii_lower out
      in if contains lower ''[doom-loop guard]'' then Guarded
         else if contains lower ''[cached read guard]'' then Guarded
         else if prefix ''file unchanged since last read.'' lower then Unchanged
         else if res_success r then
           (if out = [] \<or> lower = ''(no output)'' \<or> lower = ''no output'' then EmptyResult else Useful)
         else if contains_any lower denied_words then Denied
         else if contains_any lower not_found_words then NotFound
         else if contains_any lower [''timed out'', ''timeout'', bytes [0xE8, 0xB6, 0x85, 0xE6, 0x97, 0xB6]] then Timeout
         else if contains_any lower [''old remaining: true'', ''remaining: true'', ''unchanged'',
               ''no changes'', ''0 replacements'', ''found 0 matches''] then Unchanged
         else ErrorResult)"

definition is_low_signal :: "result_class \<Rightarrow> bool" where
  "is_low_signal c \<longleftrightarrow> c \<noteq> Useful"

section \<open>The guard\<close>

definition reset :: "doom_guard \<Rightarrow> doom_guard" where
  "reset g = g\<lparr>attempts := [], cooldown_turns := (\<lambda>_. None)\<rparr>"

definition begin_model_turn :: "doom_guard \<Rightarrow> doom_guard" where
  "begin_model_turn g = reset g"

definition exact_result_count :: "doom_guard \<Rightarrow> call_key \<Rightarrow> result_class \<Rightarrow> nat" where
  "exact_result_count g key c =
     length [a \<leftarrow> attempts g. key_tool (att_key a) = key_tool key \<and>
       key_exact (att_key a) = key_exact key \<and> att_result a = c]"

definition low_signal_exact_count :: "doom_guard \<Rightarrow> call_key \<Rightarrow> nat" where
  "low_signal_exact_count g key =
     length [a \<leftarrow> attempts g. att_low_signal a \<and> key_tool (att_key a) = key_tool key \<and>
       key_exact (att_key a) = key_exact key]"

definition low_signal_semantic_count :: "doom_guard \<Rightarrow> call_key \<Rightarrow> nat" where
  "low_signal_semantic_count g key =
     (if key_semantic key = [] then 0
      else length [a \<leftarrow> attempts g. att_low_signal a \<and>
        key_semantic (att_key a) = key_semantic key \<and> key_operation (att_key a) \<noteq> OpWrite])"

definition start_cooldown :: "string \<Rightarrow> int \<Rightarrow> doom_guard \<Rightarrow> doom_guard" where
  "start_cooldown tool turns g =
     (if turns \<le> 0 then g
      else let current = (case cooldown_turns g tool of Some t \<Rightarrow> t | None \<Rightarrow> 0)
        in g\<lparr>cooldown_turns := (cooldown_turns g)(tool \<mapsto> max current turns)\<rparr>)"

definition cooldown_active :: "doom_guard \<Rightarrow> string \<Rightarrow> bool" where
  "cooldown_active g tool \<longleftrightarrow> (case cooldown_turns g tool of Some t \<Rightarrow> t > 0 | None \<Rightarrow> False)"

definition make_cached_read_result :: "call_key \<Rightarrow> tool_result" where
  "make_cached_read_result key =
     \<lparr>res_output = ''[Cached read guard] Skipped repeated file_read: the same file/range was already reported unchanged.'' @
        (if key_target key \<noteq> [] then newline # ''Target: '' @ key_target key else []) @
        newline # ''Use the previous file_read result. If that result was a <persisted-output> preview, read its saved output path instead of reading the original file/range again.'',
      res_success = False,
      res_summary = Some \<lparr>sum_verb = ''Cached'',
        sum_object = (if key_target key = [] then ''file_read'' else key_target key),
        sum_metrics = [(''reason'', ''unchanged'')], sum_icon = ''!''\<rparr>\<rparr>"

definition make_synthetic_result :: "call_key \<Rightarrow> string \<Rightarrow> bool \<Rightarrow> tool_result" where
  "make_synthetic_result key reason cooldown =
     \<lparr>res_output = ''[Doom-loop guard] Skipped repeated tool call: '' @ reason @ ''.'' @
        (if key_target key \<noteq> [] then newline # ''Target: '' @ key_target key else []) @
        (if key_operation key \<noteq> OpUnknown then newline # ''Intent: '' @ operation_name (key_operation key) else []) @
        (if cooldown \<and> key_tool key = ''bash'' then
           newline # ''The bash tool is temporarily cooled down for this task. '' @
           ''Use existing evidence or a dedicated non-shell tool such as file_read or grep when applicable.''
         else newline # ''Use the previous result, choose a different approach, or answer with the evidence already available.''),
      res_success = False,
      res_summary = Some \<lparr>sum_verb = ''Guarded'',
        sum_object = (if key_tool key = [] then ''tool call'' else key_tool key),
        sum_metrics = [(''reason'', if cooldown then ''cooldown'' else ''repeat'')], sum_icon = ''!''\<rparr>\<rparr>"

definition maybe_guard ::
  "(string \<Rightarrow> json option) \<Rightarrow> tool_call \<Rightarrow> doom_guard \<Rightarrow> tool_result option \<times> doom_guard" where
  "maybe_guard parse call g =
     (let key = build_key parse call
      in if cooldown_active g (key_tool key) then
           (Some (make_synthetic_result key
              ''the tool is temporarily cooled down after repeated low-signal attempts'' True), g)
         else if key_tool key = ''file_read'' \<and>
                 exact_result_count g key Unchanged \<ge> prior_attempts_before_guard then
           (Some (make_cached_read_result key), g)
         else if low_signal_exact_count g key \<ge> prior_attempts_before_guard then
           (Some (make_synthetic_result key
              ''the exact same tool call already produced a low-signal result'' False), g)
         else if key_tool key = ''bash'' \<and> key_operation key \<noteq> OpWrite \<and> key_semantic key \<noteq> [] \<and>
                 low_signal_semantic_count g key \<ge> prior_attempts_before_guard then
           (Some (make_synthetic_result key
              ''similar shell attempts against the same target already produced low-signal results'' True),
            start_cooldown ''bash'' 2 g)
         else (None, g))"

definition max_attempts :: nat where
  "max_attempts = 64"

definition record_result ::
  "(string \<Rightarrow> json option) \<Rightarrow> tool_call \<Rightarrow> tool_result \<Rightarrow> doom_guard \<Rightarrow> doom_guard" where
  "record_result parse call result g =
     (let key = build_key parse call;
          c = classify_result result;
          kept = (if c = Useful
            then [a \<leftarrow> attempts g. \<not> (key_exact (att_key a) = key_exact key \<or>
                   (key_semantic key \<noteq> [] \<and> key_semantic (att_key a) = key_semantic key))]
            else attempts g)
      in if is_retryable_precondition_failure result then g\<lparr>attempts := kept\<rparr>
         else let added = kept @ [\<lparr>att_key = key, att_result = c, att_low_signal = is_low_signal c\<rparr>]
           in g\<lparr>attempts := drop (length added - max_attempts) added\<rparr>)"

section \<open>The guard as a machine\<close>

datatype guard_op = BeginTurn | MaybeGuard tool_call | RecordResult tool_call tool_result

fun guard_step :: "(string \<Rightarrow> json option) \<Rightarrow> guard_op \<Rightarrow> doom_guard \<Rightarrow> doom_guard" where
  "guard_step parse BeginTurn g = begin_model_turn g"
| "guard_step parse (MaybeGuard call) g = snd (maybe_guard parse call g)"
| "guard_step parse (RecordResult call r) g = record_result parse call r g"

definition guard_inv :: "doom_guard \<Rightarrow> bool" where
  "guard_inv g \<longleftrightarrow> length (attempts g) \<le> max_attempts \<and>
     (\<forall>a\<in>set (attempts g). att_low_signal a \<longleftrightarrow> att_result a \<noteq> Useful)"

lemma length_filter_max: "length xs \<le> n \<Longrightarrow> length (filter P xs) \<le> n"
  using length_filter_le order_trans by blast

lemma maybe_guard_attempts [simp]: "attempts (snd (maybe_guard parse call g)) = attempts g"
  by (simp add: maybe_guard_def Let_def start_cooldown_def)

lemma record_result_inv: "guard_inv g \<Longrightarrow> guard_inv (record_result parse call r g)"
  by (auto simp: guard_inv_def record_result_def Let_def is_low_signal_def length_filter_max
      dest!: in_set_dropD)

lemma guard_step_inv [inv_steps]: "guard_inv g \<Longrightarrow> guard_inv (guard_step parse oper g)"
  by (cases oper) (auto simp: begin_model_turn_def reset_def guard_inv_def record_result_inv [unfolded guard_inv_def])

interpretation guard_machine: op_machine "guard_step parse" guard_inv for parse
  by unfold_locales (rule guard_step_inv)

section \<open>The guard's own answers\<close>

lemma collapse_from_extends: "\<exists>w. collapse_from out sp s = out @ w"
proof (induction out sp s rule: collapse_from.induct)
  case (2 out sp c cs)
  show ?case
  proof (cases "is_space c")
    case True
    with 2(1) show ?thesis by (auto split: if_splits)
  next
    case False
    with 2(2) show ?thesis by auto
  qed
qed simp

lemma prefix_collapse_space:
  assumes "collapse_from [] False (p @ s) = collapse_from p False s" "p \<noteq> []" "last p \<noteq> CHR '' ''"
  shows "prefix p (collapse_space (p @ s))"
proof -
  obtain w where w: "collapse_from [] False (p @ s) = p @ w"
    using collapse_from_extends assms(1) by metis
  show ?thesis
    using assms(2,3) by (auto simp: collapse_space_def w Let_def butlast_append)
qed

lemma guard_text_collapse:
  "collapse_from [] False (''[Doom-loop guard]'' @ s) = collapse_from ''[Doom-loop guard]'' False s"
  "collapse_from [] False (''[Cached read guard]'' @ s) = collapse_from ''[Cached read guard]'' False s"
  by (simp_all add: is_space_def)

lemma prefix_contains: "prefix p s \<Longrightarrow> contains (ascii_lower s) (ascii_lower p)"
  using containsI [of "[]"] by (auto simp: prefix_def)

lemma synthetic_guarded [simp]: "classify_result (make_synthetic_result key reason cd) = Guarded"
proof -
  obtain s where s: "res_output (make_synthetic_result key reason cd) = ''[Doom-loop guard]'' @ s"
    by (simp add: make_synthetic_result_def)
  have "contains (ascii_lower (collapse_space (''[Doom-loop guard]'' @ s))) (ascii_lower ''[Doom-loop guard]'')"
    by (intro prefix_contains prefix_collapse_space guard_text_collapse) simp_all
  moreover have "ascii_lower ''[Doom-loop guard]'' = ''[doom-loop guard]''" by code_simp
  ultimately show ?thesis unfolding classify_result_def s Let_def by simp
qed

lemma cached_guarded [simp]: "classify_result (make_cached_read_result key) = Guarded"
proof -
  obtain s where s: "res_output (make_cached_read_result key) = ''[Cached read guard]'' @ s"
    by (simp add: make_cached_read_result_def)
  have "contains (ascii_lower (collapse_space (''[Cached read guard]'' @ s))) (ascii_lower ''[Cached read guard]'')"
    by (intro prefix_contains prefix_collapse_space guard_text_collapse) simp_all
  moreover have "ascii_lower ''[Cached read guard]'' = ''[cached read guard]''" by code_simp
  ultimately show ?thesis unfolding classify_result_def s Let_def by simp
qed

lemma maybe_guard_Some_class:
  "fst (maybe_guard parse call g) = Some r \<Longrightarrow> classify_result r = Guarded"
  by (auto simp: maybe_guard_def Let_def split: if_splits)

section \<open>Repeats\<close>

text \<open>The low-signal attempts of one key.  As long as the window of 64 is not full, every answer that is
  recorded for the key adds one, unless it is useful or names a way out; and two of them raise the guard.\<close>

definition unhelpful :: "tool_result \<Rightarrow> bool" where
  "unhelpful r \<longleftrightarrow> classify_result r \<noteq> Useful \<and> \<not> is_retryable_precondition_failure r"

definition related :: "call_key \<Rightarrow> call_key \<Rightarrow> bool" where
  "related k k' \<longleftrightarrow> key_exact k' = key_exact k \<or> (key_semantic k' \<noteq> [] \<and> key_semantic k' = key_semantic k)"

definition low_count :: "call_key \<Rightarrow> doom_guard \<Rightarrow> nat" where
  "low_count k g = length [a \<leftarrow> attempts g. att_low_signal a \<and> att_key a = k]"

lemma related_refl [simp]: "related k k" by (simp add: related_def)

lemma length_filter_mono: "(\<And>a. P a \<Longrightarrow> Q a) \<Longrightarrow> length (filter P as) \<le> length (filter Q as)"
  by (induction as) (auto intro: le_SucI)

lemma low_count_le: "low_count k g \<le> low_signal_exact_count g k"
  unfolding low_count_def low_signal_exact_count_def by (rule length_filter_mono) simp

lemma unguarded_low_count:
  assumes "fst (maybe_guard parse call g) = None" shows "low_count (build_key parse call) g \<le> 1"
proof -
  have "\<not> low_signal_exact_count g (build_key parse call) \<ge> prior_attempts_before_guard"
    using assms by (auto simp: maybe_guard_def Let_def split: if_splits)
  then show ?thesis using low_count_le [of "build_key parse call" g] by (simp add: prior_attempts_before_guard_def)
qed

lemma low_count_attempts: "attempts g = attempts g' \<Longrightarrow> low_count k g = low_count k g'"
  by (simp add: low_count_def)

lemma record_low_count:
  assumes "related k (build_key parse tc) \<Longrightarrow> classify_result r \<noteq> Useful" "length (attempts g) < max_attempts"
  shows "low_count k g + (if build_key parse tc = k \<and> unhelpful r then 1 else 0) \<le> low_count k (record_result parse tc r g)"
    "length (attempts (record_result parse tc r g)) \<le> Suc (length (attempts g))"
proof -
  let ?key = "build_key parse tc"
  define kept where "kept = (if classify_result r = Useful
      then [a \<leftarrow> attempts g. \<not> (key_exact (att_key a) = key_exact ?key \<or>
             (key_semantic ?key \<noteq> [] \<and> key_semantic (att_key a) = key_semantic ?key))]
      else attempts g)"
  define new where "new = \<lparr>att_key = ?key, att_result = classify_result r, att_low_signal = is_low_signal (classify_result r)\<rparr>"
  have len: "length kept \<le> length (attempts g)" by (simp add: kept_def)
  then have "length (kept @ [new]) - max_attempts = 0" using assms(2) by simp
  then have at: "attempts (record_result parse tc r g) =
      (if is_retryable_precondition_failure r then kept else kept @ [new])"
    by (simp add: record_result_def Let_def kept_def [symmetric] new_def [symmetric])
  have same: "[a \<leftarrow> kept. att_low_signal a \<and> att_key a = k] = [a \<leftarrow> attempts g. att_low_signal a \<and> att_key a = k]"
  proof (cases "classify_result r = Useful")
    case True
    with assms(1) have "\<not> related k ?key" by blast
    then show ?thesis
      using True unfolding kept_def related_def by (auto intro!: filter_cong)
  qed (simp add: kept_def)
  show "low_count k g + (if ?key = k \<and> unhelpful r then 1 else 0) \<le> low_count k (record_result parse tc r g)"
    by (auto simp: low_count_def at same new_def unhelpful_def is_low_signal_def)
  show "length (attempts (record_result parse tc r g)) \<le> Suc (length (attempts g))"
    using len by (simp add: at)
qed

lemma build_key_call: 
  "build_key parse \<lparr>call_id = i, function_name = function_name tc, function_arguments = function_arguments tc\<rparr> =
     build_key parse tc"
  by (simp add: build_key_def)

lemma useful_success: "classify_result r = Useful \<Longrightarrow> res_success r"
  by (simp add: classify_result_def Let_def split: if_splits)

lemma counts_zero:
  assumes "\<And>a. a \<in> set (attempts g) \<Longrightarrow> key_exact (att_key a) = key_exact key \<Longrightarrow> att_result a = Useful \<and> \<not> att_low_signal a"
    and "\<And>a. a \<in> set (attempts g) \<Longrightarrow> key_semantic key \<noteq> [] \<Longrightarrow> key_semantic (att_key a) = key_semantic key \<Longrightarrow> \<not> att_low_signal a"
  shows "exact_result_count g key Unchanged = 0" "low_signal_exact_count g key = 0"
    "low_signal_semantic_count g key = 0"
  using assms
  by (auto simp: exact_result_count_def low_signal_exact_count_def low_signal_semantic_count_def
      filter_empty_conv)

section \<open>Properties\<close>

text \<open>A useful result clears the way: once recorded, the same call is not blocked, whatever came
  before, unless its tool is cooled down.\<close>

lemma useful_result_unblocks:
  assumes "classify_result r = Useful" "\<not> cooldown_active g (key_tool (build_key parse call))"
  shows "fst (maybe_guard parse call (record_result parse call r g)) = None"
proof -
  let ?key = "build_key parse call" and ?g = "record_result parse call r g"
  let ?new = "\<lparr>att_key = ?key, att_result = Useful, att_low_signal = False\<rparr>"
  have nr: "\<not> is_retryable_precondition_failure r"
    using useful_success [OF assms(1)] by (simp add: is_retryable_precondition_failure_def)
  let ?kept = "[a \<leftarrow> attempts g. \<not> (key_exact (att_key a) = key_exact ?key \<or>
      (key_semantic ?key \<noteq> [] \<and> key_semantic (att_key a) = key_semantic ?key))]"
  have at: "set (attempts ?g) \<subseteq> insert ?new (set ?kept)"
    using assms(1) nr set_drop_subset [of "Suc (length ?kept) - max_attempts" "?kept @ [?new]"]
    by (auto simp: record_result_def Let_def is_low_signal_def)
  have "exact_result_count ?g ?key Unchanged = 0" "low_signal_exact_count ?g ?key = 0"
    "low_signal_semantic_count ?g ?key = 0"
    by (rule counts_zero; use at in auto)+
  moreover have "cooldown_active ?g = cooldown_active g"
    by (rule ext) (simp add: record_result_def Let_def cooldown_active_def)
  ultimately show ?thesis
    using assms(2) by (simp add: maybe_guard_def Let_def prior_attempts_before_guard_def)
qed

lemma useful_result_unblocks_witness:
  "fst (maybe_guard (\<lambda>_. None) \<lparr>call_id = [], function_name = ''grep'', function_arguments = ''x''\<rparr>
     (record_result (\<lambda>_. None) \<lparr>call_id = [], function_name = ''grep'', function_arguments = ''x''\<rparr>
       \<lparr>res_output = ''a.cpp'', res_success = True, res_summary = None\<rparr>
       \<lparr>attempts = [], cooldown_turns = (\<lambda>_. None)\<rparr>)) = None"
proof (rule useful_result_unblocks)
  show "classify_result \<lparr>res_output = ''a.cpp'', res_success = True, res_summary = None\<rparr> = Useful"
    by code_simp
qed (simp add: cooldown_active_def)

text \<open>A failure whose message names the way out (read the file first, then retry) leaves the
  guard exactly as it was, so the identical retry it asks for is not counted as a repeat.\<close>

lemma recovery_path_not_counted:
  assumes "is_retryable_precondition_failure r"
  shows "record_result parse call r g = g"
proof -
  have "classify_result r \<noteq> Useful"
    using assms useful_success by (auto simp: is_retryable_precondition_failure_def)
  with assms show ?thesis by (simp add: record_result_def Let_def)
qed

lemma recovery_path_not_counted_witness:
  "record_result (\<lambda>_. None) \<lparr>call_id = [], function_name = ''file_edit'', function_arguments = ''x''\<rparr>
     \<lparr>res_output = ''Re-read the file before writing.'', res_success = False, res_summary = None\<rparr>
     \<lparr>attempts = [], cooldown_turns = (\<lambda>_. None)\<rparr> = \<lparr>attempts = [], cooldown_turns = (\<lambda>_. None)\<rparr>"
  by (rule recovery_path_not_counted) code_simp

text \<open>In every state reached by turns, guard queries and recorded results the guard keeps at most
  64 attempts, and their low-signal flag agrees with their class.\<close>

lemma guard_window_bounded:
  "guard_inv (fold (guard_step parse) ops \<lparr>attempts = [], cooldown_turns = (\<lambda>_. None)\<rparr>)"
  by (rule guard_machine.run_inv) (simp add: guard_inv_def)

end
