(* ===== verification/Lcs.thy ===== *)
theory Lcs
  imports Prelude
begin

text \<open>
  The longest-common-subsequence edit script, which \<open>tool/diff_utils.cpp\<close> computes on lines and
  \<open>tool/word_diff.cpp\<close> on words: the table \<open>dp\<close> filled row by row and the walk back from its
  corner.  The lemmas show that the script consumes both sequences exactly, pairs only equal
  elements, and keeps as many as any common subsequence has.
\<close>

datatype op_kind = Keep | Del | Add

record line_op =
  op_kind :: op_kind
  old_index :: nat
  new_index :: nat

abbreviation keep_op :: "nat \<Rightarrow> nat \<Rightarrow> line_op" where
  "keep_op i j \<equiv> \<lparr>op_kind = Keep, old_index = i, new_index = j\<rparr>"

abbreviation del_op :: "nat \<Rightarrow> nat \<Rightarrow> line_op" where
  "del_op i j \<equiv> \<lparr>op_kind = Del, old_index = i, new_index = j\<rparr>"

abbreviation add_op :: "nat \<Rightarrow> nat \<Rightarrow> line_op" where
  "add_op i j \<equiv> \<lparr>op_kind = Add, old_index = i, new_index = j\<rparr>"

section \<open>The table\<close>

text \<open>The inner loop: the cells of row \<open>i\<close> from the previous row and the cell on the left.\<close>

fun dp_cells :: "'a \<Rightarrow> 'a list \<Rightarrow> nat list \<Rightarrow> nat \<Rightarrow> nat list" where
  "dp_cells x (y # ys) (diag # up # prev) left =
     (let cell = (if x = y then diag + 1 else if up \<ge> left then up else left)
      in cell # dp_cells x ys (up # prev) cell)"
| "dp_cells x _ _ left = []"

definition dp_row :: "'a \<Rightarrow> 'a list \<Rightarrow> nat list \<Rightarrow> nat list" where
  "dp_row x b prev = 0 # dp_cells x b prev 0"

fun dp_rows :: "'a list \<Rightarrow> 'a list \<Rightarrow> nat list \<Rightarrow> nat list list" where
  "dp_rows [] b prev = [prev]"
| "dp_rows (x # a) b prev = prev # dp_rows a b (dp_row x b prev)"

definition dp_table :: "'a list \<Rightarrow> 'a list \<Rightarrow> nat list list" where
  "dp_table a b = dp_rows a b (replicate (length b + 1) 0)"

text \<open>The three loops of the walk back, already in forward order.\<close>

function walk_back :: "'a list \<Rightarrow> 'a list \<Rightarrow> nat list list \<Rightarrow> nat \<Rightarrow> nat \<Rightarrow> line_op list" where
  "walk_back a b dp i j =
     (if i > 0 \<and> j > 0 then
        (if a ! (i - 1) = b ! (j - 1) then walk_back a b dp (i - 1) (j - 1) @ [keep_op (i - 1) (j - 1)]
         else if dp ! (i - 1) ! j \<ge> dp ! i ! (j - 1) then walk_back a b dp (i - 1) j @ [del_op (i - 1) j]
         else walk_back a b dp i (j - 1) @ [add_op i (j - 1)])
      else if i > 0 then walk_back a b dp (i - 1) j @ [del_op (i - 1) j]
      else if j > 0 then walk_back a b dp i (j - 1) @ [add_op i (j - 1)]
      else [])"
  by pat_completeness auto
termination
  by (relation "measure (\<lambda>(a, b, dp, i, j). i + j)") auto

declare walk_back.simps [simp del]

definition lcs_script :: "'a list \<Rightarrow> 'a list \<Rightarrow> line_op list" where
  "lcs_script a b = walk_back a b (dp_table a b) (length a) (length b)"

section \<open>The table holds the lengths\<close>

text \<open>The recurrence on prefixes, by their lengths.\<close>

fun lcs_len :: "'a list \<Rightarrow> 'a list \<Rightarrow> nat \<Rightarrow> nat \<Rightarrow> nat" where
  "lcs_len a b 0 j = 0"
| "lcs_len a b (Suc i) 0 = 0"
| "lcs_len a b (Suc i) (Suc j) =
     (if a ! i = b ! j then lcs_len a b i j + 1
      else max (lcs_len a b i (Suc j)) (lcs_len a b (Suc i) j))"

lemma lcs_len_0 [simp]: "lcs_len a b i 0 = 0"
  by (cases i) simp_all

lemma dp_cells_nth:
  assumes "length prev = length ys + 1"
    and "\<And>j. j \<le> length ys \<Longrightarrow> prev ! j = f (k + j)" "g k = left"
    and step: "\<And>j. j < length ys \<Longrightarrow>
      g (Suc (k + j)) = (if x = ys ! j then f (k + j) + 1 else max (f (Suc (k + j))) (g (k + j)))"
  shows "length (dp_cells x ys prev left) = length ys \<and>
    (\<forall>j < length ys. dp_cells x ys prev left ! j = g (Suc (k + j)))"
  using assms
proof (induction x ys prev left arbitrary: k rule: dp_cells.induct)
  case (1 x y ys diag up prev left)
  let ?cell = "if x = y then diag + 1 else if up \<ge> left then up else left"
  have d: "diag = f k" "up = f (Suc k)"
    using 1(3) [of 0] 1(3) [of 1] by simp_all
  have cell: "?cell = g (Suc k)"
    using 1(5) [of 0] 1(4) d by (auto simp: max_def)
  have "length (dp_cells x ys (up # prev) ?cell) = length ys \<and>
      (\<forall>j < length ys. dp_cells x ys (up # prev) ?cell ! j = g (Suc (Suc k + j)))"
  proof (rule 1(1) [OF refl])
    show "length (up # prev) = length ys + 1" using 1(2) by simp
    show "(up # prev) ! j = f (Suc k + j)" if "j \<le> length ys" for j
      using 1(3) [of "Suc j"] that by simp
    show "g (Suc k) = ?cell" using cell by simp
    show "g (Suc (Suc k + j)) = (if x = ys ! j then f (Suc k + j) + 1 else max (f (Suc (Suc k + j))) (g (Suc k + j)))"
      if "j < length ys" for j
      using 1(5) [of "Suc j"] that by simp
  qed
  with cell show ?case by (auto simp: nth_Cons Let_def split: nat.split)
qed auto

lemma dp_row_nth:
  assumes "length prev = length b + 1" "\<And>j. j \<le> length b \<Longrightarrow> prev ! j = lcs_len a b i j"
    and "i < length a"
  shows "length (dp_row (a ! i) b prev) = length b + 1 \<and>
    (\<forall>j \<le> length b. dp_row (a ! i) b prev ! j = lcs_len a b (Suc i) j)"
proof -
  have "length (dp_cells (a ! i) b prev 0) = length b \<and>
      (\<forall>j < length b. dp_cells (a ! i) b prev 0 ! j = lcs_len a b (Suc i) (Suc (0 + j)))"
    by (rule dp_cells_nth [where f = "lcs_len a b i" and g = "lcs_len a b (Suc i)"]) (use assms in auto)
  then show ?thesis by (auto simp: dp_row_def nth_Cons split: nat.split)
qed

lemma dp_rows_nth:
  assumes "length prev = length b + 1" "\<And>j. j \<le> length b \<Longrightarrow> prev ! j = lcs_len a b k j"
    and "k + length a' = length a" "drop k a = a'"
    and "i \<le> length a'" "j \<le> length b"
  shows "dp_rows a' b prev ! i ! j = lcs_len a b (k + i) j"
  using assms
proof (induction a' arbitrary: prev k i)
  case Nil
  then show ?case by simp
next
  case (Cons x a')
  have k: "k < length a" using Cons.prems(3) by simp
  then have "drop k a = a ! k # drop (Suc k) a" by (rule Cons_nth_drop_Suc [symmetric])
  with Cons.prems(4) have x: "x = a ! k" "drop (Suc k) a = a'" by simp_all
  show ?case
  proof (cases i)
    case 0
    with Cons.prems(2,6) show ?thesis by simp
  next
    case (Suc i')
    have row: "length (dp_row x b prev) = length b + 1"
      "\<And>j. j \<le> length b \<Longrightarrow> dp_row x b prev ! j = lcs_len a b (Suc k) j"
      using dp_row_nth [OF Cons.prems(1,2) k] x by auto
    have "dp_rows a' b (dp_row x b prev) ! i' ! j = lcs_len a b (Suc k + i') j"
      using Cons.prems Suc x by (intro Cons.IH row) simp_all
    with Suc show ?thesis by simp
  qed
qed

lemma dp_table_nth:
  "i \<le> length a \<Longrightarrow> j \<le> length b \<Longrightarrow> dp_table a b ! i ! j = lcs_len a b i j"
  unfolding dp_table_def
  using dp_rows_nth [of "replicate (length b + 1) 0" b a 0 a i j] by (simp del: replicate_Suc)

section \<open>The script\<close>

text \<open>The walk with the recurrence in place of the table.\<close>

lemma walk_back_table:
  assumes "i \<le> length a" "j \<le> length b"
  shows "walk_back a b (dp_table a b) i j =
     (if i > 0 \<and> j > 0 then
        (if a ! (i - 1) = b ! (j - 1)
         then walk_back a b (dp_table a b) (i - 1) (j - 1) @ [keep_op (i - 1) (j - 1)]
         else if lcs_len a b (i - 1) j \<ge> lcs_len a b i (j - 1)
         then walk_back a b (dp_table a b) (i - 1) j @ [del_op (i - 1) j]
         else walk_back a b (dp_table a b) i (j - 1) @ [add_op i (j - 1)])
      else if i > 0 then walk_back a b (dp_table a b) (i - 1) j @ [del_op (i - 1) j]
      else if j > 0 then walk_back a b (dp_table a b) i (j - 1) @ [add_op i (j - 1)]
      else [])"
  using assms by (subst walk_back.simps) (simp add: dp_table_nth)

definition is_keep :: "line_op \<Rightarrow> bool" where
  "is_keep op \<longleftrightarrow> op_kind op = Keep"

definition old_ops :: "line_op list \<Rightarrow> nat list" where
  "old_ops ops = map old_index [op \<leftarrow> ops. op_kind op \<noteq> Add]"

definition new_ops :: "line_op list \<Rightarrow> nat list" where
  "new_ops ops = map new_index [op \<leftarrow> ops. op_kind op \<noteq> Del]"

text \<open>A script from the start of both sequences to positions \<open>i\<close> and \<open>j\<close>.\<close>

definition script_ok :: "'a list \<Rightarrow> 'a list \<Rightarrow> nat \<Rightarrow> nat \<Rightarrow> line_op list \<Rightarrow> bool" where
  "script_ok a b i j ops \<longleftrightarrow> old_ops ops = [0..<i] \<and> new_ops ops = [0..<j] \<and>
     (\<forall>op\<in>set ops. is_keep op \<longrightarrow> a ! old_index op = b ! new_index op)"

lemma ops_simps [simp]:
  "old_ops [] = []" "new_ops [] = []"
  "old_ops (ops @ ops') = old_ops ops @ old_ops ops'" "new_ops (ops @ ops') = new_ops ops @ new_ops ops'"
  "old_ops (op # ops) = (if op_kind op = Add then [] else [old_index op]) @ old_ops ops"
  "new_ops (op # ops) = (if op_kind op = Del then [] else [new_index op]) @ new_ops ops"
  by (simp_all add: old_ops_def new_ops_def)

lemma walk_back_correct:
  "i \<le> length a \<Longrightarrow> j \<le> length b \<Longrightarrow>
     script_ok a b i j (walk_back a b (dp_table a b) i j) \<and>
     length (filter is_keep (walk_back a b (dp_table a b) i j)) = lcs_len a b i j"
proof (induction "i + j" arbitrary: i j rule: less_induct)
  case less
  note wb = walk_back_table [OF less.prems]
  consider "i = 0" "j = 0" | i' where "i = Suc i'" "j = 0" | j' where "i = 0" "j = Suc j'"
    | i' j' where "i = Suc i'" "j = Suc j'" "a ! i' = b ! j'"
    | i' j' where "i = Suc i'" "j = Suc j'" "a ! i' \<noteq> b ! j'" "lcs_len a b i' j \<ge> lcs_len a b i j'"
    | i' j' where "i = Suc i'" "j = Suc j'" "a ! i' \<noteq> b ! j'" "lcs_len a b i' j < lcs_len a b i j'"
    by (cases i; cases j; force simp: not_le)
  then show ?case
  proof cases
    case 1
    with wb show ?thesis by (simp add: script_ok_def)
  next
    case 2
    with wb less.hyps [of i' 0] less.prems show ?thesis by (simp add: script_ok_def is_keep_def)
  next
    case 3
    with wb less.hyps [of 0 j'] less.prems show ?thesis by (simp add: script_ok_def is_keep_def)
  next
    case 4
    with wb less.hyps [of i' j'] less.prems show ?thesis by (simp add: script_ok_def is_keep_def)
  next
    case 5
    with wb less.hyps [of i' j] less.prems show ?thesis by (simp add: script_ok_def is_keep_def max_def)
  next
    case 6
    with wb less.hyps [of i j'] less.prems show ?thesis by (simp add: script_ok_def is_keep_def max_def)
  qed
qed

lemma lcs_script_ok: "script_ok a b (length a) (length b) (lcs_script a b)"
  and lcs_script_keeps: "length (filter is_keep (lcs_script a b)) = lcs_len a b (length a) (length b)"
  using walk_back_correct [of "length a" a "length b" b] by (simp_all add: lcs_script_def)

section \<open>Optimality\<close>

lemma subseq_snoc:
  assumes "subseq s (xs @ [x])"
  shows "subseq s xs \<or> (\<exists>t. s = t @ [x] \<and> subseq t xs)"
proof -
  from assms obtain t u where s: "s = t @ u" "subseq t xs" "subseq u [x]"
    by (auto simp: subseq_append_iff)
  then show ?thesis by (cases u) (auto split: if_splits)
qed

lemma common_subseq_le:
  "i \<le> length a \<Longrightarrow> j \<le> length b \<Longrightarrow> subseq s (take i a) \<Longrightarrow> subseq s (take j b) \<Longrightarrow>
     length s \<le> lcs_len a b i j"
proof (induction a b i j arbitrary: s rule: lcs_len.induct)
  case (3 a b i j)
  have ti: "take (Suc i) a = take i a @ [a ! i]" and tj: "take (Suc j) b = take j b @ [b ! j]"
    using 3 by (simp_all add: take_Suc_conv_app_nth)
  note sa = subseq_snoc [OF 3(6) [unfolded ti]] and sb = subseq_snoc [OF 3(7) [unfolded tj]]
  show ?case
  proof (cases "a ! i = b ! j")
    case True
    have "length s \<le> Suc (lcs_len a b i j)"
    proof (cases "s = []")
      case False
      then have bl: "s = butlast s @ [last s]" by simp
      have bs: "subseq (butlast s) s" by (metis bl subseq_rev_drop_many subseq_order.refl)
      have "subseq (butlast s) (take i a)"
        using sa bs subseq_order.trans by (metis butlast_snoc)
      moreover have "subseq (butlast s) (take j b)"
        using sb bs subseq_order.trans by (metis butlast_snoc)
      ultimately have "length (butlast s) \<le> lcs_len a b i j"
        using 3(1) [of "butlast s"] 3(4,5) True by simp
      then show ?thesis by simp
    qed simp
    with True show ?thesis by simp
  next
    case False
    have "subseq s (take i a) \<or> subseq s (take j b)"
      using sa sb False by auto
    then show ?thesis
    proof
      assume "subseq s (take i a)"
      with False 3 show ?thesis by (simp add: le_max_iff_disj)
    next
      assume "subseq s (take j b)"
      with False 3 show ?thesis by (simp add: le_max_iff_disj)
    qed
  qed
qed auto

text \<open>The kept elements are themselves a common subsequence, so the bound is reached.\<close>

definition kept :: "'a list \<Rightarrow> line_op list \<Rightarrow> 'a list" where
  "kept a ops = map (\<lambda>op. a ! old_index op) (filter is_keep ops)"

lemma script_optimal:
  assumes "subseq s a" "subseq s b"
  shows "length s \<le> length (filter is_keep (lcs_script a b))"
  using common_subseq_le [of "length a" a "length b" b s] assms by (simp add: lcs_script_keeps)

lemma subseq_map_filter: "subseq (map f (filter P xs)) (map f xs)"
  by (simp add: subseq_map)

lemma nth_upt_id: "map ((!) xs) [0..<length xs] = xs"
  by (rule nth_equalityI) simp_all

lemma kept_common:
  assumes "script_ok a b (length a) (length b) ops"
  shows "subseq (kept a ops) a" "subseq (kept a ops) b"
proof -
  have fa: "filter is_keep ops = filter is_keep (filter (\<lambda>op. op_kind op \<noteq> Add) ops)"
    and fb: "filter is_keep ops = filter is_keep (filter (\<lambda>op. op_kind op \<noteq> Del) ops)"
    by (induction ops) (auto simp: is_keep_def)
  have "map (\<lambda>op. a ! old_index op) (filter (\<lambda>op. op_kind op \<noteq> Add) ops) = map ((!) a) (old_ops ops)"
    by (simp add: old_ops_def)
  also have "\<dots> = a" using assms by (simp add: script_ok_def nth_upt_id)
  finally show "subseq (kept a ops) a"
    unfolding kept_def fa by (metis subseq_map_filter)
  have "map (\<lambda>op. b ! new_index op) (filter (\<lambda>op. op_kind op \<noteq> Del) ops) = map ((!) b) (new_ops ops)"
    by (simp add: new_ops_def)
  also have "\<dots> = b" using assms by (simp add: script_ok_def nth_upt_id)
  finally have b: "map (\<lambda>op. b ! new_index op) (filter (\<lambda>op. op_kind op \<noteq> Del) ops) = b" .
  have "kept a ops = map (\<lambda>op. b ! new_index op) (filter is_keep ops)"
    using assms by (auto simp: kept_def script_ok_def)
  also have "subseq \<dots> b"
    unfolding fb using subseq_map_filter [of "\<lambda>op. b ! new_index op" is_keep "filter (\<lambda>op. op_kind op \<noteq> Del) ops"]
    by (simp only: b)
  finally show "subseq (kept a ops) b" .
qed

end
