(* ===== verification/Diff.thy ===== *)
theory Diff
  imports Lcs
begin

text \<open>
  \<open>tool/diff_utils.cpp\<close>: the line diff shown for file edits.  Lines are split without their line
  ends, the common prefix and suffix are set aside, the middle gets an edit script, changed runs
  become spans, close spans are merged, and each span becomes a hunk with up to three lines of
  context.  The specification is the reader of a patch, \<open>apply_hunks\<close>, which checks the positions,
  the counts and the old side of every hunk: the lemmas show that it turns the old lines into the
  new lines.  Line numbers are natural numbers (the code's \<open>int\<close> and \<open>size_t\<close>).
\<close>

datatype diff_line_kind = Context | Added | Removed

record diff_line =
  dl_kind :: diff_line_kind
  dl_text :: string
  dl_old_no :: "nat option"
  dl_new_no :: "nat option"

record diff_hunk =
  h_old_start :: nat
  h_old_count :: nat
  h_new_start :: nat
  h_new_count :: nat
  h_lines :: "diff_line list"

record change_span =
  old_start :: nat
  old_end :: nat
  new_start :: nat
  new_end :: nat

record diff_stats =
  additions :: nat
  deletions :: nat

section \<open>Lines\<close>

abbreviation newline :: char where
  "newline \<equiv> CHR 0x0A"

definition strip_cr :: "string \<Rightarrow> string" where
  "strip_cr line = (if line \<noteq> [] \<and> last line = CHR 0x0D then butlast line else line)"

text \<open>\<open>std::getline\<close> yields no last empty line after a final newline.\<close>

definition split_lines :: "string \<Rightarrow> string list" where
  "split_lines s =
     (let segs = split_on newline s
      in map strip_cr (if last segs = [] then butlast segs else segs))"

section \<open>From script to hunks\<close>

definition context_limit :: nat where
  "context_limit = 3"

definition max_lcs_cells :: nat where
  "max_lcs_cells = 1500000"

definition edit_script :: "string list \<Rightarrow> string list \<Rightarrow> line_op list" where
  "edit_script a b =
     (if a = [] \<and> b = [] then []
      else if a \<noteq> [] \<and> b \<noteq> [] \<and> length a > max_lcs_cells div length b then
        map (\<lambda>i. del_op i 0) [0..<length a] @ map (\<lambda>j. add_op 0 j) [0..<length b]
      else lcs_script a b)"

definition flush_span :: "change_span option \<Rightarrow> change_span list" where
  "flush_span cur = (case cur of None \<Rightarrow> [] | Some s \<Rightarrow> [s])"

fun collect_from :: "change_span option \<Rightarrow> nat \<Rightarrow> nat \<Rightarrow> line_op list \<Rightarrow> change_span list" where
  "collect_from cur old_i new_i [] = flush_span cur"
| "collect_from cur old_i new_i (op # ops) =
     (if op_kind op = Keep then flush_span cur @ collect_from None (Suc old_i) (Suc new_i) ops
      else let current = (case cur of
              None \<Rightarrow> \<lparr>old_start = old_i, old_end = old_i, new_start = new_i, new_end = new_i\<rparr>
            | Some s \<Rightarrow> s)
        in if op_kind op = Del
           then collect_from (Some (current\<lparr>old_end := Suc old_i\<rparr>)) (Suc old_i) new_i ops
           else collect_from (Some (current\<lparr>new_end := Suc new_i\<rparr>)) old_i (Suc new_i) ops)"

definition collect_change_spans :: "line_op list \<Rightarrow> change_span list" where
  "collect_change_spans ops = collect_from None 0 0 ops"

fun merge_from :: "change_span \<Rightarrow> change_span list \<Rightarrow> change_span list" where
  "merge_from prev [] = [prev]"
| "merge_from prev (nxt # rest) =
     (if old_start nxt \<le> old_end prev + 2 * context_limit \<and>
         new_start nxt \<le> new_end prev + 2 * context_limit
      then merge_from (prev\<lparr>old_end := old_end nxt, new_end := new_end nxt\<rparr>) rest
      else prev # merge_from nxt rest)"

definition merge_change_spans :: "change_span list \<Rightarrow> change_span list" where
  "merge_change_spans spans = (case spans of [] \<Rightarrow> [] | s # ss \<Rightarrow> merge_from s ss)"

text \<open>The four loops of \<open>make_hunk\<close>: a run of lines with the numbers counted up from the start.\<close>

definition context_run :: "string list \<Rightarrow> nat \<Rightarrow> nat \<Rightarrow> nat \<Rightarrow> nat \<Rightarrow> diff_line list" where
  "context_run ls from to old_no new_no =
     map (\<lambda>i. \<lparr>dl_kind = Context, dl_text = ls ! i, dl_old_no = Some (old_no + (i - from)),
       dl_new_no = Some (new_no + (i - from))\<rparr>) [from..<to]"

definition removed_run :: "string list \<Rightarrow> nat \<Rightarrow> nat \<Rightarrow> nat \<Rightarrow> diff_line list" where
  "removed_run ls from to old_no =
     map (\<lambda>i. \<lparr>dl_kind = Removed, dl_text = ls ! i, dl_old_no = Some (old_no + (i - from)),
       dl_new_no = None\<rparr>) [from..<to]"

definition added_run :: "string list \<Rightarrow> nat \<Rightarrow> nat \<Rightarrow> nat \<Rightarrow> diff_line list" where
  "added_run ls from to new_no =
     map (\<lambda>i. \<lparr>dl_kind = Added, dl_text = ls ! i, dl_old_no = None,
       dl_new_no = Some (new_no + (i - from))\<rparr>) [from..<to]"

definition make_hunk :: "string list \<Rightarrow> string list \<Rightarrow> change_span \<Rightarrow> diff_hunk" where
  "make_hunk old_lines new_lines c =
     (let pre = min context_limit (min (old_start c) (new_start c));
          post = min context_limit (min (length old_lines - old_end c) (length new_lines - new_end c));
          hob = old_start c - pre; hoe = old_end c + post;
          hnb = new_start c - pre; hne = new_end c + post;
          removed = old_end c - old_start c; added = new_end c - new_start c
      in \<lparr>h_old_start = hob + 1, h_old_count = hoe - hob, h_new_start = hnb + 1, h_new_count = hne - hnb,
           h_lines =
             context_run old_lines hob (old_start c) (hob + 1) (hnb + 1) @
             removed_run old_lines (old_start c) (old_end c) (hob + 1 + pre) @
             added_run new_lines (new_start c) (new_end c) (hnb + 1 + pre) @
             context_run old_lines (old_end c) hoe (hob + 1 + pre + removed) (hnb + 1 + pre + added)\<rparr>)"

fun common_prefix :: "'a list \<Rightarrow> 'a list \<Rightarrow> nat" where
  "common_prefix (x # xs) (y # ys) = (if x = y then Suc (common_prefix xs ys) else 0)"
| "common_prefix _ _ = 0"

definition shift_op :: "nat \<Rightarrow> line_op \<Rightarrow> line_op" where
  "shift_op k op = op\<lparr>old_index := old_index op + k, new_index := new_index op + k\<rparr>"

definition full_ops :: "string list \<Rightarrow> string list \<Rightarrow> nat \<Rightarrow> nat \<Rightarrow> line_op list" where
  "full_ops old_lines new_lines pre suf =
     (let old_mid = drop pre (take (length old_lines - suf) old_lines);
          new_mid = drop pre (take (length new_lines - suf) new_lines)
      in map (\<lambda>i. keep_op i i) [0..<pre] @
         map (shift_op pre) (edit_script old_mid new_mid) @
         map (\<lambda>i. keep_op (length old_lines - suf + i) (length new_lines - suf + i)) [0..<suf])"

definition diff_of_lines :: "string list \<Rightarrow> string list \<Rightarrow> diff_hunk list" where
  "diff_of_lines old_lines new_lines =
     (let pre = common_prefix old_lines new_lines;
          suf = common_prefix (rev (drop pre old_lines)) (rev (drop pre new_lines))
      in if pre + suf = length old_lines \<and> pre + suf = length new_lines then []
         else map (make_hunk old_lines new_lines)
           (merge_change_spans (collect_change_spans (full_ops old_lines new_lines pre suf))))"

definition generate_structured_diff :: "string \<Rightarrow> string \<Rightarrow> diff_hunk list" where
  "generate_structured_diff old_content new_content =
     diff_of_lines (split_lines old_content) (split_lines new_content)"

section \<open>Unified text\<close>

fun marker :: "diff_line_kind \<Rightarrow> char" where
  "marker Added = CHR ''+''"
| "marker Removed = CHR ''-''"
| "marker Context = CHR '' ''"

definition hunk_text :: "diff_hunk \<Rightarrow> string" where
  "hunk_text h =
     ''@@ -'' @ show_nat (h_old_start h) @ '','' @ show_nat (h_old_count h) @
     '' +'' @ show_nat (h_new_start h) @ '','' @ show_nat (h_new_count h) @ '' @@'' @ [newline] @
     concat (map (\<lambda>l. marker (dl_kind l) # dl_text l @ [newline]) (h_lines h))"

definition count_kind :: "diff_line_kind \<Rightarrow> diff_hunk list \<Rightarrow> nat" where
  "count_kind k hs = sum_list (map (\<lambda>h. length [l \<leftarrow> h_lines h. dl_kind l = k]) hs)"

definition generate_unified_diff :: "string \<Rightarrow> string \<Rightarrow> string \<Rightarrow> string \<times> diff_stats" where
  "generate_unified_diff old_content new_content file_path =
     (let hunks = generate_structured_diff old_content new_content
      in (''--- '' @ file_path @ [newline] @ ''+++ '' @ file_path @ [newline] @ concat (map hunk_text hunks),
          \<lparr>additions = count_kind Added hunks, deletions = count_kind Removed hunks\<rparr>))"

section \<open>Reading a patch\<close>

definition old_side :: "diff_hunk \<Rightarrow> string list" where
  "old_side h = map dl_text [l \<leftarrow> h_lines h. dl_kind l \<noteq> Added]"

definition new_side :: "diff_hunk \<Rightarrow> string list" where
  "new_side h = map dl_text [l \<leftarrow> h_lines h. dl_kind l \<noteq> Removed]"

text \<open>\<open>apply_hunks p q rest hs\<close>: \<open>p\<close> old lines are consumed, \<open>q\<close> new lines written, \<open>rest\<close> is left.\<close>

fun apply_hunks :: "nat \<Rightarrow> nat \<Rightarrow> string list \<Rightarrow> diff_hunk list \<Rightarrow> string list option" where
  "apply_hunks p q rest [] = Some rest"
| "apply_hunks p q rest (h # hs) =
     (let skip = h_old_start h - 1 - p; body = drop skip rest
      in if p \<le> h_old_start h - 1 \<and> q + skip = h_new_start h - 1 \<and> skip + h_old_count h \<le> length rest \<and>
            take (h_old_count h) body = old_side h \<and> h_new_count h = length (new_side h)
         then map_option (\<lambda>r. take skip rest @ new_side h @ r)
           (apply_hunks (p + skip + h_old_count h) (q + skip + h_new_count h)
              (drop (h_old_count h) body) hs)
         else None)"

section \<open>Spans cover the changes\<close>

definition slice :: "'a list \<Rightarrow> nat \<Rightarrow> nat \<Rightarrow> 'a list" where
  "slice xs i j = take (j - i) (drop i xs)"

lemma slice_append:
  assumes "i \<le> j" "j \<le> k"
  shows "slice xs i j @ slice xs j k = slice xs i k"
proof -
  from assms obtain p q where "j = i + p" "k = i + p + q" by (auto simp: le_iff_add)
  then show ?thesis by (simp add: slice_def take_add add.commute)
qed

lemma slice_drop: "i \<le> j \<Longrightarrow> drop i xs = slice xs i j @ drop j xs"
  by (simp add: slice_def) (metis append_take_drop_id drop_drop le_add_diff_inverse2)

lemma length_slice: "length (slice xs i j) = min (j - i) (length xs - i)"
  by (simp add: slice_def)

lemma slice_nth_map: "j \<le> length xs \<Longrightarrow> map ((!) xs) [i..<j] = slice xs i j"
  by (rule nth_equalityI) (auto simp: slice_def)

lemma slice_Suc: "i < j \<Longrightarrow> j \<le> length xs \<Longrightarrow> slice xs i j = xs ! i # slice xs (Suc i) j"
  by (simp add: slice_nth_map [symmetric] upt_conv_Cons)

text \<open>From positions \<open>i\<close> and \<open>j\<close> on, both sequences agree outside the spans.\<close>

fun spans_ok :: "'a list \<Rightarrow> 'a list \<Rightarrow> nat \<Rightarrow> nat \<Rightarrow> change_span list \<Rightarrow> bool" where
  "spans_ok a b i j [] \<longleftrightarrow> i \<le> length a \<and> j \<le> length b \<and> drop i a = drop j b"
| "spans_ok a b i j (s # ss) \<longleftrightarrow> i \<le> old_start s \<and> j \<le> new_start s \<and>
     old_start s - i = new_start s - j \<and> slice a i (old_start s) = slice b j (new_start s) \<and>
     old_start s \<le> old_end s \<and> new_start s \<le> new_end s \<and>
     old_end s \<le> length a \<and> new_end s \<le> length b \<and> spans_ok a b (old_end s) (new_end s) ss"

lemma spans_back:
  assumes "spans_ok a b (Suc i) (Suc j) ss" "i < length a" "j < length b" "a ! i = b ! j"
  shows "spans_ok a b i j ss"
proof (cases ss)
  case Nil
  with assms show ?thesis by (simp add: Cons_nth_drop_Suc [symmetric])
next
  case (Cons s ss')
  have "slice a i (old_start s) = slice b j (new_start s)"
    using assms Cons by (simp add: slice_Suc [of i] slice_Suc [of j])
  with assms Cons show ?thesis by auto
qed

lemma spans_forward:
  assumes "spans_ok a b i j (s # ss)" "k \<le> old_start s - i"
  shows "spans_ok a b (i + k) (j + k) (s # ss)"
proof -
  have "slice a i (old_start s) = slice b j (new_start s)" using assms by simp
  then have "drop k (slice a i (old_start s)) = drop k (slice b j (new_start s))" by simp
  then have "slice a (i + k) (old_start s) = slice b (j + k) (new_start s)"
    by (simp add: slice_def drop_take add.commute)
  with assms show ?thesis by auto
qed

text \<open>The script from positions \<open>i\<close> and \<open>j\<close> to the ends.\<close>

definition script_from :: "'a list \<Rightarrow> 'a list \<Rightarrow> nat \<Rightarrow> nat \<Rightarrow> line_op list \<Rightarrow> bool" where
  "script_from a b i j ops \<longleftrightarrow> i \<le> length a \<and> j \<le> length b \<and>
     old_ops ops = [i..<length a] \<and> new_ops ops = [j..<length b] \<and>
     (\<forall>op\<in>set ops. is_keep op \<longrightarrow> a ! old_index op = b ! new_index op)"

lemma script_from_Nil: "script_from a b i j [] \<Longrightarrow> i = length a \<and> j = length b"
  by (simp add: script_from_def) (metis le_antisym upt_eq_Nil_conv le_0_eq)

lemma upt_eq_Cons: "x # xs = [i..<n] \<longleftrightarrow> i < n \<and> x = i \<and> xs = [Suc i..<n]"
  by (cases "i < n") (auto simp: upt_conv_Cons)

lemma script_from_Keep:
  assumes "script_from a b i j (op # ops)" "op_kind op = Keep"
  shows "i < length a" "j < length b" "a ! i = b ! j" "script_from a b (Suc i) (Suc j) ops"
  using assms by (auto simp: script_from_def upt_eq_Cons is_keep_def)

lemma script_from_Del:
  assumes "script_from a b i j (op # ops)" "op_kind op = Del"
  shows "i < length a" "script_from a b (Suc i) j ops"
  using assms by (auto simp: script_from_def upt_eq_Cons)

lemma script_from_Add:
  assumes "script_from a b i j (op # ops)" "op_kind op = Add"
  shows "j < length b" "script_from a b i (Suc j) ops"
  using assms by (auto simp: script_from_def upt_eq_Cons)

definition open_ok :: "change_span \<Rightarrow> nat \<Rightarrow> nat \<Rightarrow> bool" where
  "open_ok s i j \<longleftrightarrow> old_start s \<le> i \<and> new_start s \<le> j \<and> old_end s = i \<and> new_end s = j"

lemma collect_ok:
  "script_from a b i j ops \<Longrightarrow>
     (case cur of
        None \<Rightarrow> spans_ok a b i j (collect_from cur i j ops)
      | Some s \<Rightarrow> open_ok s i j \<longrightarrow>
          (\<exists>s' rest. collect_from cur i j ops = s' # rest \<and> old_start s' = old_start s \<and>
             new_start s' = new_start s \<and> i \<le> old_end s' \<and> j \<le> new_end s' \<and>
             old_end s' \<le> length a \<and> new_end s' \<le> length b \<and>
             spans_ok a b (old_end s') (new_end s') rest))"
proof (induction cur i j ops rule: collect_from.induct)
  case (1 cur i j)
  then show ?case
    using script_from_Nil [OF 1] by (auto simp: flush_span_def open_ok_def split: option.splits)
next
  case (2 cur i j op ops)
  show ?case
  proof (cases "op_kind op")
    case Keep
    note k = script_from_Keep [OF 2(4) Keep]
    have "spans_ok a b (Suc i) (Suc j) (collect_from None (Suc i) (Suc j) ops)"
      using 2(1) [OF Keep k(4)] by simp
    with k have "spans_ok a b i j (collect_from None (Suc i) (Suc j) ops)" by (blast intro: spans_back)
    with Keep k show ?thesis
      by (auto simp: flush_span_def open_ok_def split: option.splits)
  next
    case Del
    note d = script_from_Del [OF 2(4) Del]
    from Del have nk: "op_kind op \<noteq> Keep" by simp
    show ?thesis
    proof (cases cur)
      case None
      then show ?thesis using 2(2) [OF nk refl Del d(2)] Del d script_from_def
        by (auto simp: open_ok_def slice_def script_from_def)
    next
      case (Some s)
      then show ?thesis using 2(2) [OF nk refl Del d(2)] Del d
        by (auto simp: open_ok_def Let_def)
    qed
  next
    case Add
    then have nk: "op_kind op \<noteq> Keep" "op_kind op \<noteq> Del" by simp_all
    note d = script_from_Add [OF 2(4) Add]
    show ?thesis
    proof (cases cur)
      case None
      then show ?thesis using 2(3) [OF nk(1) refl nk(2) d(2)] Add d
        by (auto simp: open_ok_def slice_def script_from_def)
    next
      case (Some s)
      then show ?thesis using 2(3) [OF nk(1) refl nk(2) d(2)] Add d
        by (auto simp: open_ok_def Let_def)
    qed
  qed
qed

section \<open>The full script\<close>

lemma common_prefix_props:
  "common_prefix xs ys \<le> length xs \<and> common_prefix xs ys \<le> length ys \<and>
   take (common_prefix xs ys) xs = take (common_prefix xs ys) ys"
  by (induction xs ys rule: common_prefix.induct) auto

lemma edit_script_ok: "script_ok a b (length a) (length b) (edit_script a b)"
proof -
  have "script_ok a b (length a) (length b)
      (map (\<lambda>i. del_op i 0) [0..<length a] @ map (\<lambda>j. add_op 0 j) [0..<length b])"
    by (auto simp: script_ok_def is_keep_def old_ops_def new_ops_def filter_map comp_def)
  moreover have "script_ok a b (length a) (length b) []" if "a = []" "b = []"
    using that by (simp add: script_ok_def)
  ultimately show ?thesis
    unfolding edit_script_def using lcs_script_ok [of a b] by (simp split: if_split)
qed

lemma upt_join: "i \<le> j \<Longrightarrow> j \<le> k \<Longrightarrow> [i..<j] @ [j..<k] = [i..<k]"
  by (metis le_iff_add upt_add_eq_append)

lemma shift_ops [simp]:
  "old_ops (map (shift_op k) ops) = map (\<lambda>i. i + k) (old_ops ops)"
  "new_ops (map (shift_op k) ops) = map (\<lambda>i. i + k) (new_ops ops)"
  by (induction ops) (auto simp: shift_op_def)

lemma keep_run_ops [simp]:
  "old_ops (map (\<lambda>i. keep_op (f i) (g i)) xs) = map f xs"
  "new_ops (map (\<lambda>i. keep_op (f i) (g i)) xs) = map g xs"
  by (induction xs) auto

lemma map_add_upt': "map (\<lambda>i. i + k) [0..<n] = [k..<k + n]"
  by (induction n) (auto simp: add.commute)

lemma full_ops_ok:
  fixes a b :: "string list"
  assumes pre: "pre = common_prefix a b" and suf: "suf = common_prefix (rev (drop pre a)) (rev (drop pre b))"
  shows "script_from a b 0 0 (full_ops a b pre suf)"
proof -
  have p: "pre \<le> length a" "pre \<le> length b" "take pre a = take pre b"
    using common_prefix_props [of a b] pre by simp_all
  have s: "suf \<le> length a - pre" "suf \<le> length b - pre"
    "take suf (rev (drop pre a)) = take suf (rev (drop pre b))"
    using common_prefix_props [of "rev (drop pre a)" "rev (drop pre b)"] suf by simp_all
  let ?am = "drop pre (take (length a - suf) a)" and ?bm = "drop pre (take (length b - suf) b)"
  have len: "length ?am = length a - suf - pre" "length ?bm = length b - suf - pre" by simp_all
  have ok: "script_ok ?am ?bm (length ?am) (length ?bm) (edit_script ?am ?bm)" by (rule edit_script_ok)
  have sfx: "a ! (length a - suf + i) = b ! (length b - suf + i)" if "i < suf" for i
  proof -
    have "rev (drop pre a) ! (suf - Suc i) = rev (drop pre b) ! (suf - Suc i)"
      using s(3) that by (metis diff_less nth_take zero_less_Suc less_imp_Suc_add zero_less_iff_neq_zero not_less0)
    then show ?thesis using that s p by (simp add: rev_nth)
  qed
  have old: "old_ops (full_ops a b pre suf) = [0..<length a]"
  proof -
    have "old_ops (full_ops a b pre suf) =
        [0..<pre] @ map (\<lambda>i. i + pre) [0..<length ?am] @ map (\<lambda>i. i + (length a - suf)) [0..<suf]"
      using ok by (simp add: full_ops_def Let_def script_ok_def add.commute)
    also have "\<dots> = [0..<pre] @ [pre..<length a - suf] @ [length a - suf..<length a]"
      unfolding map_add_upt' len using p s by simp
    also have "\<dots> = [0..<length a]"
      using p s by (simp add: upt_join)
    finally show ?thesis .
  qed
  have new: "new_ops (full_ops a b pre suf) = [0..<length b]"
  proof -
    have "new_ops (full_ops a b pre suf) =
        [0..<pre] @ map (\<lambda>i. i + pre) [0..<length ?bm] @ map (\<lambda>i. i + (length b - suf)) [0..<suf]"
      using ok by (simp add: full_ops_def Let_def script_ok_def add.commute)
    also have "\<dots> = [0..<pre] @ [pre..<length b - suf] @ [length b - suf..<length b]"
      unfolding map_add_upt' len using p s by simp
    also have "\<dots> = [0..<length b]"
      using p s by (simp add: upt_join)
    finally show ?thesis .
  qed
  have mid: "a ! (old_index op + pre) = b ! (new_index op + pre)"
    if "op \<in> set (edit_script ?am ?bm)" "is_keep op" for op
  proof -
    have "old_index op \<in> set (old_ops (edit_script ?am ?bm))" "new_index op \<in> set (new_ops (edit_script ?am ?bm))"
      using that by (auto simp: old_ops_def new_ops_def is_keep_def)
    then have "old_index op < length ?am" "new_index op < length ?bm"
      using ok by (simp_all add: script_ok_def)
    moreover have "?am ! old_index op = ?bm ! new_index op" using ok that by (simp add: script_ok_def)
    ultimately show ?thesis by (simp add: add.commute)
  qed
  have "a ! old_index op = b ! new_index op" if "op \<in> set (full_ops a b pre suf)" "is_keep op" for op
    using that mid sfx p(3)
    by (auto simp: full_ops_def Let_def shift_op_def is_keep_def) (metis nth_take)
  with old new show ?thesis by (simp add: script_from_def)
qed

section \<open>Merging\<close>

fun separated :: "change_span list \<Rightarrow> bool" where
  "separated (s # t # ss) \<longleftrightarrow>
     (old_end s + 2 * context_limit < old_start t \<or> new_end s + 2 * context_limit < new_start t) \<and>
     separated (t # ss)"
| "separated _ = True"

lemma merge_from_not_Nil: "merge_from s ss \<noteq> []"
  by (induction s ss rule: merge_from.induct) auto

lemma merge_from_ok:
  "spans_ok a b i j (s # ss) \<Longrightarrow> spans_ok a b i j (merge_from s ss) \<and> separated (merge_from s ss) \<and>
     old_start (hd (merge_from s ss)) = old_start s \<and> new_start (hd (merge_from s ss)) = new_start s"
proof (induction s ss arbitrary: i j rule: merge_from.induct)
  case (2 prev nxt rest)
  show ?case
  proof (cases "old_start nxt \<le> old_end prev + 2 * context_limit \<and> new_start nxt \<le> new_end prev + 2 * context_limit")
    case True
    have "spans_ok a b i j (prev\<lparr>old_end := old_end nxt, new_end := new_end nxt\<rparr> # rest)"
      using 2(3) by auto
    from 2(1) [OF True this] True show ?thesis by simp
  next
    case False
    have "spans_ok a b (old_end prev) (new_end prev) (nxt # rest)" using 2(3) by simp
    note IH = 2(2) [OF False this]
    obtain m ms where m: "merge_from nxt rest = m # ms"
      using merge_from_not_Nil by (meson neq_Nil_conv)
    have "old_end prev + 2 * context_limit < old_start nxt \<or> new_end prev + 2 * context_limit < new_start nxt"
      using False by auto
    with IH m False 2(3) show ?thesis by auto
  qed
qed simp

lemma merge_ok:
  assumes "spans_ok a b i j ss"
  shows "spans_ok a b i j (merge_change_spans ss)" "separated (merge_change_spans ss)"
  using assms merge_from_ok [of a b i j "hd ss" "tl ss"]
  by (cases ss; simp add: merge_change_spans_def)+

section \<open>Hunks rebuild the new lines\<close>

abbreviation span_pre :: "change_span \<Rightarrow> nat" where
  "span_pre s \<equiv> min context_limit (min (old_start s) (new_start s))"

abbreviation span_post :: "'a list \<Rightarrow> 'a list \<Rightarrow> change_span \<Rightarrow> nat" where
  "span_post a b s \<equiv> min context_limit (min (length a - old_end s) (length b - new_end s))"

lemma run_sides [simp]:
  "map dl_text (filter (\<lambda>l. dl_kind l \<noteq> Added) (context_run ls i j p q)) = map ((!) ls) [i..<j]"
  "map dl_text (filter (\<lambda>l. dl_kind l \<noteq> Added) (removed_run ls i j p)) = map ((!) ls) [i..<j]"
  "map dl_text (filter (\<lambda>l. dl_kind l \<noteq> Added) (added_run ls i j p)) = []"
  "map dl_text (filter (\<lambda>l. dl_kind l \<noteq> Removed) (context_run ls i j p q)) = map ((!) ls) [i..<j]"
  "map dl_text (filter (\<lambda>l. dl_kind l \<noteq> Removed) (removed_run ls i j p)) = []"
  "map dl_text (filter (\<lambda>l. dl_kind l \<noteq> Removed) (added_run ls i j p)) = map ((!) ls) [i..<j]"
  by (simp_all add: context_run_def removed_run_def added_run_def filter_map comp_def)

lemma hunk_sides:
  assumes "old_start s \<le> old_end s" "new_start s \<le> new_end s" "old_end s \<le> length a" "new_end s \<le> length b"
  shows "old_side (make_hunk a b s) = slice a (old_start s - span_pre s) (old_end s + span_post a b s)"
    and "new_side (make_hunk a b s) = slice a (old_start s - span_pre s) (old_start s) @
      slice b (new_start s) (new_end s) @ slice a (old_end s) (old_end s + span_post a b s)"
proof -
  have le: "old_end s + span_post a b s \<le> length a" "old_start s - span_pre s \<le> old_start s" using assms by auto
  show "old_side (make_hunk a b s) = slice a (old_start s - span_pre s) (old_end s + span_post a b s)"
    unfolding old_side_def make_hunk_def Let_def using le assms
    by (simp add: slice_nth_map slice_append)
  show "new_side (make_hunk a b s) = slice a (old_start s - span_pre s) (old_start s) @
      slice b (new_start s) (new_end s) @ slice a (old_end s) (old_end s + span_post a b s)"
    unfolding new_side_def make_hunk_def Let_def using le assms
    by (simp add: slice_nth_map)
qed

lemma slice_sub:
  assumes "slice a i k = slice b j l" "k - i = l - j" "p \<le> k - i"
  shows "slice a i (i + p) = slice b j (j + p)" "slice a (i + p) k = slice b (j + p) l"
proof -
  have "take p (slice a i k) = take p (slice b j l)" "drop p (slice a i k) = drop p (slice b j l)"
    using assms(1) by simp_all
  moreover have "k - (i + p) = l - (j + p)" using assms(2) by (simp flip: diff_diff_left)
  ultimately show "slice a i (i + p) = slice b j (j + p)" "slice a (i + p) k = slice b (j + p) l"
    using assms(2,3) by (simp_all add: slice_def drop_take add.commute)
qed

lemma spans_next:
  assumes "spans_ok a b i j ss" "p \<le> length a - i" "p \<le> length b - j"
    and "\<And>s ss'. ss = s # ss' \<Longrightarrow> p \<le> old_start s - i"
  shows "spans_ok a b (i + p) (j + p) ss" "slice a i (i + p) = slice b j (j + p)"
proof -
  show "spans_ok a b (i + p) (j + p) ss"
  proof (cases ss)
    case Nil
    then have d: "i \<le> length a" "j \<le> length b" "drop i a = drop j b" using assms(1) by simp_all
    then have "drop p (drop i a) = drop p (drop j b)" by simp
    then have "drop (i + p) a = drop (j + p) b" by (simp add: add.commute)
    with Nil assms(2,3) d show ?thesis by auto
  next
    case (Cons s ss')
    with assms(1,4) show ?thesis using spans_forward [of a b i j s ss' p] by blast
  qed
  show "slice a i (i + p) = slice b j (j + p)"
  proof (cases ss)
    case Nil
    with assms show ?thesis by (simp add: slice_def)
  next
    case (Cons s ss')
    with assms(1,4) show ?thesis
      using slice_sub(1) [of a i "old_start s" b j "new_start s" p] by simp
  qed
qed

lemma apply_spans:
  "spans_ok a b i j ss \<Longrightarrow> separated ss \<Longrightarrow>
     (\<And>s ss'. ss = s # ss' \<Longrightarrow> span_pre s \<le> old_start s - i) \<Longrightarrow>
     apply_hunks i j (drop i a) (map (make_hunk a b) ss) = Some (drop j b)"
proof (induction ss arbitrary: i j)
  case Nil
  then show ?case by simp
next
  case (Cons s ss)
  define pre where "pre = span_pre s"
  define post where "post = span_post a b s"
  have sp: "i \<le> old_start s" "j \<le> new_start s" "old_start s - i = new_start s - j"
    "slice a i (old_start s) = slice b j (new_start s)" "old_start s \<le> old_end s" "new_start s \<le> new_end s"
    "old_end s \<le> length a" "new_end s \<le> length b" "spans_ok a b (old_end s) (new_end s) ss"
    using Cons.prems(1) by simp_all
  have pre: "pre \<le> old_start s - i" "pre \<le> old_start s" "pre \<le> new_start s"
    using Cons.prems(3) by (auto simp: pre_def)
  let ?skip = "old_start s - pre - i"
  have gap: "post \<le> old_start t - old_end s \<and> span_pre t \<le> old_start t - (old_end s + post)"
    if "ss = t # ss'" for t ss'
  proof -
    have "old_start t - old_end s = new_start t - new_end s" "old_end s \<le> old_start t" "new_end s \<le> new_start t"
      using sp(9) that by simp_all
    with Cons.prems(2) that have "old_end s + 2 * context_limit < old_start t" by auto
    then show ?thesis by (auto simp: context_limit_def post_def)
  qed
  have post: "post \<le> length a - old_end s" "post \<le> length b - new_end s" by (simp_all add: post_def)
  have nxt: "spans_ok a b (old_end s + post) (new_end s + post) ss"
    "slice a (old_end s) (old_end s + post) = slice b (new_end s) (new_end s + post)"
    using spans_next [OF sp(9) post] gap by blast+
  have rec: "apply_hunks (old_end s + post) (new_end s + post) (drop (old_end s + post) a) (map (make_hunk a b) ss) =
      Some (drop (new_end s + post) b)"
    by (rule Cons.IH [OF nxt(1)]) (use Cons.prems(2) gap in \<open>cases ss; auto\<close>)+
  note sides = hunk_sides [OF sp(5-8), folded pre_def post_def]
  have k: "pre \<le> old_start s - i" "old_start s - i - pre = ?skip" "i + ?skip = old_start s - pre"
    "j + ?skip = new_start s - pre" "?skip \<le> old_start s - i"
    using pre sp(1-3) by linarith+
  have s1: "slice a i (old_start s - pre) = slice b j (new_start s - pre)"
    "slice a (old_start s - pre) (old_start s) = slice b (new_start s - pre) (new_start s)"
    using slice_sub [OF sp(4,3) k(5)] unfolding k(3,4) by simp_all
  have new: "new_side (make_hunk a b s) = slice b (new_start s - pre) (new_end s + post)"
    unfolding sides s1(2) nxt(2) using sp post by (simp add: slice_append)
  have hd: "h_old_start (make_hunk a b s) - 1 = old_start s - pre" "h_new_start (make_hunk a b s) - 1 = new_start s - pre"
    "h_old_count (make_hunk a b s) = old_end s + post - (old_start s - pre)"
    "h_new_count (make_hunk a b s) = new_end s + post - (new_start s - pre)"
    by (simp_all add: make_hunk_def Let_def pre_def post_def)
  have fit: "?skip + (old_end s + post - (old_start s - pre)) = old_end s + post - i"
    "i + ?skip + (old_end s + post - (old_start s - pre)) = old_end s + post"
    "j + ?skip + (new_end s + post - (new_start s - pre)) = new_end s + post"
    using sp pre by auto
  have body: "drop ?skip (drop i a) = drop (old_start s - pre) a"
    using k(3) by (simp add: add.commute)
  have old: "take (h_old_count (make_hunk a b s)) (drop (old_start s - pre) a) = old_side (make_hunk a b s)"
    unfolding sides hd by (simp add: slice_def)
  have cnt: "h_new_count (make_hunk a b s) = length (new_side (make_hunk a b s))"
    unfolding new hd using sp post by (simp add: length_slice)
  have rest: "drop (h_old_count (make_hunk a b s)) (drop (old_start s - pre) a) = drop (old_end s + post) a"
    unfolding hd using sp pre by simp
  have out: "take ?skip (drop i a) @ new_side (make_hunk a b s) @ drop (new_end s + post) b = drop j b"
  proof -
    have "take ?skip (drop i a) = slice b j (new_start s - pre)"
      using s1(1) by (simp add: slice_def)
    moreover have "j \<le> new_start s - pre" "new_start s - pre \<le> new_end s + post" using k(4) sp pre by linarith+
    ultimately show ?thesis unfolding new by (metis slice_drop)
  qed
  have inside: "old_end s + post - i \<le> length a - i" using post(1) sp(7) by linarith
  show ?case
    unfolding list.map apply_hunks.simps Let_def hd(1,2) body old rest
    using inside fit k sp post cnt rec out hd(3,4) by simp
qed

lemma diff_applies: "apply_hunks 0 0 a (diff_of_lines a b) = Some b"
proof -
  define pre where "pre = common_prefix a b"
  define suf where "suf = common_prefix (rev (drop pre a)) (rev (drop pre b))"
  have p: "pre \<le> length a" "pre \<le> length b" "take pre a = take pre b"
    using common_prefix_props [of a b] pre_def by simp_all
  have s: "suf \<le> length a - pre" "suf \<le> length b - pre"
    "take suf (rev (drop pre a)) = take suf (rev (drop pre b))"
    using common_prefix_props [of "rev (drop pre a)" "rev (drop pre b)"] suf_def by simp_all
  show ?thesis
  proof (cases "pre + suf = length a \<and> pre + suf = length b")
    case True
    then have "suf = length (rev (drop pre a))" "suf = length (rev (drop pre b))" by auto
    with s(3) have "rev (drop pre a) = rev (drop pre b)" by (metis take_all order_refl)
    then have "drop pre a = drop pre b" by simp
    with p have "a = b" by (metis append_take_drop_id)
    with True show ?thesis by (simp add: diff_of_lines_def Let_def pre_def suf_def)
  next
    case False
    let ?ops = "full_ops a b pre suf"
    have "spans_ok a b 0 0 (collect_change_spans ?ops)"
      using collect_ok [OF full_ops_ok [OF pre_def suf_def], of None] by (simp add: collect_change_spans_def)
    note m = merge_ok [OF this]
    have "apply_hunks 0 0 (drop 0 a) (map (make_hunk a b) (merge_change_spans (collect_change_spans ?ops))) = Some (drop 0 b)"
      by (rule apply_spans [OF m]) auto
    with False show ?thesis
      by (simp only: diff_of_lines_def Let_def pre_def [symmetric] suf_def [symmetric] if_False drop_0)
  qed
qed

lemma kind_counts:
  "length [l \<leftarrow> ls. dl_kind l \<noteq> Added] + length [l \<leftarrow> ls. dl_kind l = Added] =
   length [l \<leftarrow> ls. dl_kind l \<noteq> Removed] + length [l \<leftarrow> ls. dl_kind l = Removed]"
  by (induction ls) auto

lemma apply_counts:
  "apply_hunks p q rest hs = Some new \<Longrightarrow> length new + count_kind Removed hs = length rest + count_kind Added hs"
proof (induction p q rest hs arbitrary: new rule: apply_hunks.induct)
  case (2 p q rest h hs)
  let ?skip = "h_old_start h - 1 - p"
  from 2(2) obtain r where r: "apply_hunks (p + ?skip + h_old_count h) (q + ?skip + h_new_count h)
      (drop (h_old_count h) (drop ?skip rest)) hs = Some r"
    and new: "new = take ?skip rest @ new_side h @ r" and fit: "?skip + h_old_count h \<le> length rest"
    and old: "take (h_old_count h) (drop ?skip rest) = old_side h"
    and cond: "p \<le> h_old_start h - 1 \<and> q + ?skip = h_new_start h - 1 \<and> ?skip + h_old_count h \<le> length rest \<and>
            take (h_old_count h) (drop ?skip rest) = old_side h \<and> h_new_count h = length (new_side h)"
    by (auto simp: Let_def split: if_splits)
  have IH: "length r + count_kind Removed hs = length rest - ?skip - h_old_count h + count_kind Added hs"
    using 2(1) [OF refl refl cond r] by simp
  have l: "length (old_side h) = h_old_count h" using old fit by (metis length_drop length_take min.absorb2 add_leD2 le_diff_conv2 add.commute add_leE)
  have "length (old_side h) + length [l \<leftarrow> h_lines h. dl_kind l = Added] =
      length (new_side h) + length [l \<leftarrow> h_lines h. dl_kind l = Removed]"
    unfolding old_side_def new_side_def length_map by (rule kind_counts)
  with IH new fit l show ?case by (simp add: count_kind_def)
qed (simp add: count_kind_def)

section \<open>Properties\<close>

text \<open>C39: The hunks of the structured diff are a well-formed patch from the old lines to the new
  lines: read in order, every hunk stands at the position and has the counts it announces, its old
  side is what the old content has there, and the result is the new content's lines.\<close>

theorem diff_rebuilds_new_lines:
  "apply_hunks 0 0 (split_lines old_content) (generate_structured_diff old_content new_content) =
     Some (split_lines new_content)"
  unfolding generate_structured_diff_def by (rule diff_applies)

text \<open>The edit script keeps only equal elements and is optimal: what it keeps is a common
  subsequence, and no common subsequence of the two sequences is longer.\<close>

lemma edit_script_optimal:
  "script_ok a b (length a) (length b) (lcs_script a b) \<and> subseq (kept a (lcs_script a b)) a \<and>
   subseq (kept a (lcs_script a b)) b \<and>
   (\<forall>s. subseq s a \<and> subseq s b \<longrightarrow> length s \<le> length (kept a (lcs_script a b)))"
  using lcs_script_ok [of a b] kept_common [OF lcs_script_ok, of a b] script_optimal [of _ a b]
  by (simp add: kept_def)

lemma edit_script_optimal_witness:
  "length ''bd'' \<le> length (kept ''abcd'' (lcs_script ''abcd'' ''bxd''))"
proof -
  have "subseq ''bd'' ''abcd''" "subseq ''bd'' ''bxd''" by simp_all
  with edit_script_optimal [of "''abcd''" "''bxd''"] show ?thesis by blast
qed

text \<open>The counters of the unified diff balance: new lines plus deletions are old lines plus
  additions.\<close>

lemma diff_stats_balance:
  "length (split_lines new_content) + deletions (snd (generate_unified_diff old_content new_content path)) =
   length (split_lines old_content) + additions (snd (generate_unified_diff old_content new_content path))"
  using apply_counts [OF diff_applies, of "split_lines new_content" "split_lines old_content"]
  by (simp add: generate_unified_diff_def Let_def generate_structured_diff_def)

end
