(* ===== verification/WordDiff.thy ===== *)
theory WordDiff
  imports Complex_Main Lcs Diff
begin

text \<open>
  \<open>tool/word_diff.cpp\<close> and \<open>tool/diff_view_truncate.cpp\<close>: the word-level diff of two changed lines,
  and the folding of hunks and the line-number gutter of the diff view.  The lemmas show that the
  segments of a word diff spell out both lines, whichever way they were computed, that a folded hunk
  keeps both ends and accounts for what it hides, and that the gutter has the width computed for it.
\<close>

section \<open>Words\<close>

datatype word_diff_kind = Same | WAdded | WRemoved

record word_segment =
  ws_kind :: word_diff_kind
  ws_value :: string

definition is_delimiter_byte :: "char \<Rightarrow> bool" where
  "is_delimiter_byte c = (if byte c \<ge> 0x80 then False else if is_space c then True
     else if is_punct c then True else False)"

definition flush_token :: "string \<Rightarrow> string list" where
  "flush_token current = (if current = [] then [] else [current])"

text \<open>The loop over the bytes; whatever is being collected is always a word, as a delimiter is
  flushed at once.\<close>

fun word_tokens_from :: "string \<Rightarrow> string \<Rightarrow> string list" where
  "word_tokens_from current [] = flush_token current"
| "word_tokens_from current (c # cs) =
     (if is_delimiter_byte c then flush_token current @ [c] # word_tokens_from [] cs
      else word_tokens_from (current @ [c]) cs)"

definition tokenize_for_word_diff :: "string \<Rightarrow> string list" where
  "tokenize_for_word_diff s = word_tokens_from [] s"

definition op_segment :: "string list \<Rightarrow> string list \<Rightarrow> line_op \<Rightarrow> word_segment" where
  "op_segment ta tb op =
     (case op_kind op of
        Keep \<Rightarrow> \<lparr>ws_kind = Same, ws_value = ta ! old_index op\<rparr>
      | Del \<Rightarrow> \<lparr>ws_kind = WRemoved, ws_value = ta ! old_index op\<rparr>
      | Add \<Rightarrow> \<lparr>ws_kind = WAdded, ws_value = tb ! new_index op\<rparr>)"

text \<open>Appending a segment to the output, merged into the last one when of the same kind.\<close>

definition push_word_segment :: "word_segment \<Rightarrow> word_segment list \<Rightarrow> word_segment list" where
  "push_word_segment s out =
     (if out \<noteq> [] \<and> ws_kind (last out) = ws_kind s
      then butlast out @ [(last out)\<lparr>ws_value := ws_value (last out) @ ws_value s\<rparr>]
      else out @ [s])"

definition word_diff :: "string \<Rightarrow> string \<Rightarrow> nat \<Rightarrow> word_segment list" where
  "word_diff a b max_tokens_per_side =
     (let ta = tokenize_for_word_diff a; tb = tokenize_for_word_diff b
      in if ta = [] \<and> tb = [] then []
         else if length ta > max_tokens_per_side \<or> length tb > max_tokens_per_side then
           (if a \<noteq> [] then [\<lparr>ws_kind = WRemoved, ws_value = a\<rparr>] else []) @
           (if b \<noteq> [] then [\<lparr>ws_kind = WAdded, ws_value = b\<rparr>] else [])
         else fold push_word_segment (map (op_segment ta tb) (lcs_script ta tb)) [])"

text \<open>The \<open>double\<close> quotient is kept exact.\<close>

definition word_diff_change_ratio :: "word_segment list \<Rightarrow> real" where
  "word_diff_change_ratio segments =
     (let total = sum_list (map (\<lambda>s. length (ws_value s)) segments);
          changed = sum_list (map (\<lambda>s. if ws_kind s \<noteq> Same then length (ws_value s) else 0) segments)
      in if total = 0 then 0 else real changed / real total)"

section \<open>The segments spell out both lines\<close>

definition old_text :: "word_segment list \<Rightarrow> string" where
  "old_text ss = concat (map ws_value [s \<leftarrow> ss. ws_kind s \<noteq> WAdded])"

definition new_text :: "word_segment list \<Rightarrow> string" where
  "new_text ss = concat (map ws_value [s \<leftarrow> ss. ws_kind s \<noteq> WRemoved])"

lemma text_simps [simp]:
  "old_text [] = []" "new_text [] = []"
  "old_text (s # ss) = (if ws_kind s = WAdded then [] else ws_value s) @ old_text ss"
  "new_text (s # ss) = (if ws_kind s = WRemoved then [] else ws_value s) @ new_text ss"
  "old_text (ss @ ts) = old_text ss @ old_text ts" "new_text (ss @ ts) = new_text ss @ new_text ts"
  by (simp_all add: old_text_def new_text_def)

lemma tokens_concat: "concat (word_tokens_from cur s) = cur @ s"
  by (induction cur s rule: word_tokens_from.induct) (auto simp: flush_token_def)

lemma tokens_nonempty: "[] \<notin> set (word_tokens_from cur s)"
  by (induction cur s rule: word_tokens_from.induct) (auto simp: flush_token_def)

lemma push_text:
  "old_text (push_word_segment s out) = old_text out @ old_text [s]"
  "new_text (push_word_segment s out) = new_text out @ new_text [s]"
  by (cases out rule: rev_cases; simp add: push_word_segment_def)+

lemma fold_push_text:
  "old_text (fold push_word_segment ss out) = old_text out @ old_text ss"
  "new_text (fold push_word_segment ss out) = new_text out @ new_text ss"
  by (induction ss arbitrary: out) (simp_all add: push_text)

lemma script_text:
  assumes "\<forall>op\<in>set ops. is_keep op \<longrightarrow> ta ! old_index op = tb ! new_index op"
  shows "old_text (map (op_segment ta tb) ops) = concat (map ((!) ta) (old_ops ops))"
    and "new_text (map (op_segment ta tb) ops) = concat (map ((!) tb) (new_ops ops))"
  using assms
  by (induction ops) (auto simp: op_segment_def is_keep_def split: op_kind.splits)

definition no_adjacent :: "word_segment list \<Rightarrow> bool" where
  "no_adjacent ss \<longleftrightarrow> (\<forall>i. Suc i < length ss \<longrightarrow> ws_kind (ss ! i) \<noteq> ws_kind (ss ! Suc i))"

lemma no_adjacent_snoc:
  "no_adjacent (ss @ [s]) \<longleftrightarrow> no_adjacent ss \<and> (ss \<noteq> [] \<longrightarrow> ws_kind (last ss) \<noteq> ws_kind s)"
proof (cases ss rule: rev_cases)
  case (snoc ts t)
  show ?thesis
    unfolding no_adjacent_def snoc
    by (auto simp: nth_append less_Suc_eq all_conj_distrib)
qed (simp add: no_adjacent_def)

lemma no_adjacent_push: "no_adjacent out \<Longrightarrow> no_adjacent (push_word_segment s out)"
proof (cases out rule: rev_cases)
  case Nil
  then show ?thesis by (simp add: push_word_segment_def no_adjacent_def)
next
  case (snoc ys y)
  assume "no_adjacent out"
  then show ?thesis
    using snoc no_adjacent_snoc [of ys y] no_adjacent_snoc [of "ys @ [y]" s]
      no_adjacent_snoc [of ys "y\<lparr>ws_value := ws_value y @ ws_value s\<rparr>"]
    by (simp add: push_word_segment_def)
qed

lemma no_adjacent_fold: "no_adjacent out \<Longrightarrow> no_adjacent (fold push_word_segment ss out)"
  by (induction ss arbitrary: out) (simp_all add: no_adjacent_push)

section \<open>Folding and the gutter\<close>

record truncated_diff =
  td_hunks :: "diff_hunk list"
  td_hidden_hunks :: nat
  td_hidden_lines :: "nat list"

text \<open>One round of the loop: the hunk with its lines cut to the first and last halves.\<close>

definition fold_hunk :: "int \<Rightarrow> diff_hunk \<Rightarrow> diff_hunk \<times> nat" where
  "fold_hunk max_lines h =
     (if max_lines > 0 \<and> length (h_lines h) > nat max_lines then
        (let keep = nat max_lines; hd_part = (keep + 1) div 2; tl_part = keep - hd_part
         in (h\<lparr>h_lines := take hd_part (h_lines h) @ drop (length (h_lines h) - tl_part) (h_lines h)\<rparr>,
             length (h_lines h) - keep))
      else (h, 0))"

definition truncate_hunks_for_fold :: "diff_hunk list \<Rightarrow> int \<Rightarrow> int \<Rightarrow> truncated_diff" where
  "truncate_hunks_for_fold hunks max_hunks max_lines =
     (let cut = max_hunks > 0 \<and> length hunks > nat max_hunks;
          kept = (if cut then nat max_hunks else length hunks);
          folded = map (fold_hunk max_lines) (take kept hunks)
      in \<lparr>td_hunks = map fst folded, td_hidden_hunks = (if cut then length hunks - kept else 0),
           td_hidden_lines = map snd folded\<rparr>)"

definition format_gutter :: "diff_line_kind \<Rightarrow> nat option \<Rightarrow> nat option \<Rightarrow> int \<Rightarrow> string" where
  "format_gutter k old_no new_no width =
     (let w = (if width < 1 then 1 else width);
          shown = (case k of Added \<Rightarrow> new_no | Removed \<Rightarrow> old_no
            | Context \<Rightarrow> (if new_no \<noteq> None then new_no else old_no));
          num = (case shown of Some n \<Rightarrow> show_nat n | None \<Rightarrow> []);
          padded = (if int (length num) < w then replicate (nat w - length num) CHR '' '' @ num else num)
      in padded @ [CHR '' '', marker k])"

function digits_loop :: "nat \<Rightarrow> nat \<Rightarrow> nat" where
  "digits_loop max_no w = (if max_no \<ge> 10 then digits_loop (max_no div 10) (w + 1) else w)"
  by pat_completeness auto
termination
  by (relation "measure fst") auto

declare digits_loop.simps [simp del]

definition compute_line_no_width :: "diff_hunk \<Rightarrow> nat" where
  "compute_line_no_width h =
     digits_loop (max (max 1 (h_old_start h + h_old_count h - 1)) (h_new_start h + h_new_count h - 1)) 1"

lemma digits_loop_length: "digits_loop n w + 1 = w + length (show_nat n)"
proof (induction n w rule: digits_loop.induct)
  case (1 n w)
  show ?case
  proof (cases "n \<ge> 10")
    case True
    then show ?thesis using 1 by (subst digits_loop.simps, subst show_nat.simps) simp
  next
    case False
    then show ?thesis by (subst digits_loop.simps, subst show_nat.simps) simp
  qed
qed

lemma length_show_nat_mono: "m \<le> n \<Longrightarrow> length (show_nat m) \<le> length (show_nat n)"
proof (induction n arbitrary: m rule: show_nat.induct)
  case (1 n)
  show ?case
  proof (cases "n < 10")
    case True
    with 1(2) show ?thesis by (subst (1 2) show_nat.simps) simp
  next
    case False
    then have "length (show_nat n) = Suc (length (show_nat (n div 10)))"
      by (subst show_nat.simps) simp
    moreover have "length (show_nat m) \<le> Suc (length (show_nat (n div 10)))"
    proof (cases "m < 10")
      case True
      then show ?thesis by (subst show_nat.simps) simp
    next
      case m: False
      have "length (show_nat (m div 10)) \<le> length (show_nat (n div 10))"
        using 1(1) [OF False] 1(2) div_le_mono by blast
      with m show ?thesis by (subst show_nat.simps) simp
    qed
    ultimately show ?thesis by simp
  qed
qed

lemma fold_hunk_parts:
  "case fold_hunk ml h of (h', hidden) \<Rightarrow>
     (\<exists>p m s. h_lines h = p @ m @ s \<and> h_lines h' = p @ s \<and> length m = hidden) \<and>
     int (length (h_lines h')) \<le> (if ml > 0 then ml else int (length (h_lines h)))"
proof (cases "ml > 0 \<and> length (h_lines h) > nat ml")
  case True
  define keep where "keep = nat ml"
  define n where "n = length (h_lines h)"
  define k where "k = (keep + 1) div 2"
  have k: "k \<le> keep" "keep < n" using True by (auto simp: k_def keep_def n_def)
  let ?p = "take k (h_lines h)" and ?m = "take (n - keep) (drop k (h_lines h))"
    and ?s = "drop (n - (keep - k)) (h_lines h)"
  have fold: "fold_hunk ml h = (h\<lparr>h_lines := ?p @ ?s\<rparr>, n - keep)"
    using True by (simp add: fold_hunk_def Let_def k_def keep_def n_def)
  have "n - (keep - k) = k + (n - keep)" using k by simp
  then have whole: "h_lines h = ?p @ ?m @ ?s"
    by (metis append_take_drop_id drop_drop add.commute)
  have hidden: "length ?m = n - keep" using k by (simp add: n_def)
  have cut: "h_lines (h\<lparr>h_lines := ?p @ ?s\<rparr>) = ?p @ ?s" by simp
  have "int (length (?p @ ?s)) \<le> ml" using k True by (simp add: n_def keep_def)
  then have le: "int (length (h_lines (h\<lparr>h_lines := ?p @ ?s\<rparr>))) \<le> (if ml > 0 then ml else int (length (h_lines h)))"
    unfolding cut using True by simp
  have "\<exists>p m s. h_lines h = p @ m @ s \<and> h_lines (h\<lparr>h_lines := ?p @ ?s\<rparr>) = p @ s \<and> length m = n - keep"
    using whole cut hidden by blast
  with le show ?thesis unfolding fold split by blast
next
  case False
  then have "fold_hunk ml h = (h, 0)" by (auto simp: fold_hunk_def)
  moreover have "\<exists>p m s. h_lines h = p @ m @ s \<and> h_lines h = p @ s \<and> length m = 0"
    by (rule exI [of _ "h_lines h"]) simp
  ultimately show ?thesis using False by auto
qed

section \<open>Properties\<close>

text \<open>The segments of a word diff spell out both lines: without the added ones they are the old
  line, without the removed ones the new line, for every token limit; and no two
  neighbouring segments have the same kind.\<close>

lemma word_diff_spells_both:
  "old_text (word_diff a b limit) = a \<and> new_text (word_diff a b limit) = b \<and> no_adjacent (word_diff a b limit)"
proof -
  let ?ta = "tokenize_for_word_diff a" and ?tb = "tokenize_for_word_diff b"
  have ca: "concat ?ta = a" "concat ?tb = b" by (simp_all add: tokenize_for_word_diff_def tokens_concat)
  have ok: "script_ok ?ta ?tb (length ?ta) (length ?tb) (lcs_script ?ta ?tb)" by (rule lcs_script_ok)
  let ?s = "fold push_word_segment (map (op_segment ?ta ?tb) (lcs_script ?ta ?tb)) []"
  have "old_text ?s = a" "new_text ?s = b"
    using script_text [of "lcs_script ?ta ?tb" ?ta ?tb] ok ca
    by (simp_all add: fold_push_text script_ok_def nth_upt_id)
  moreover have "no_adjacent ?s" by (rule no_adjacent_fold) (simp add: no_adjacent_def)
  moreover have "a = [] \<and> b = []" if "?ta = [] \<and> ?tb = []" using ca that by simp
  ultimately show ?thesis
    by (auto simp: word_diff_def Let_def no_adjacent_def nth_Cons split: nat.splits)
qed

text \<open>Folding a hunk keeps a prefix and a suffix of its lines, never more than the limit, and what
  is kept plus what is reported hidden is the whole; the hunks hidden and kept add up too.\<close>

lemma fold_accounts_for_hidden:
  "length (td_hunks (truncate_hunks_for_fold hunks mh ml)) + td_hidden_hunks (truncate_hunks_for_fold hunks mh ml) =
     length hunks \<and>
   list_all2 (\<lambda>h (h', hidden). (\<exists>p m s. h_lines h = p @ m @ s \<and> h_lines h' = p @ s \<and> length m = hidden) \<and>
       int (length (h_lines h')) \<le> (if ml > 0 then ml else int (length (h_lines h))))
     (take (length (td_hunks (truncate_hunks_for_fold hunks mh ml))) hunks)
     (zip (td_hunks (truncate_hunks_for_fold hunks mh ml)) (td_hidden_lines (truncate_hunks_for_fold hunks mh ml)))"
proof -
  let ?P = "\<lambda>h (h', hidden). (\<exists>p m s. h_lines h = p @ m @ s \<and> h_lines h' = p @ s \<and> length m = hidden) \<and>
       int (length (h_lines h')) \<le> (if ml > 0 then ml else int (length (h_lines h)))"
  let ?kept = "if mh > 0 \<and> length hunks > nat mh then nat mh else length hunks"
  have "list_all2 ?P (take ?kept hunks) (map (fold_hunk ml) (take ?kept hunks))"
    by (simp add: list.rel_map list.rel_refl fold_hunk_parts)
  moreover have "zip (td_hunks (truncate_hunks_for_fold hunks mh ml)) (td_hidden_lines (truncate_hunks_for_fold hunks mh ml)) =
      map (fold_hunk ml) (take ?kept hunks)"
    by (simp only: truncate_hunks_for_fold_def Let_def truncated_diff.simps zip_map_fst_snd)
  moreover have "length (td_hunks (truncate_hunks_for_fold hunks mh ml)) = ?kept"
    "length (td_hunks (truncate_hunks_for_fold hunks mh ml)) + td_hidden_hunks (truncate_hunks_for_fold hunks mh ml) = length hunks"
    by (simp_all add: truncate_hunks_for_fold_def Let_def)
  ultimately show ?thesis by (simp only: simp_thms)
qed

text \<open>The gutter of every line of a hunk fits the width computed for the hunk: it is the line
  number right-aligned to that width, a blank and the marker.\<close>

lemma gutter_fits_width:
  assumes "old_no \<le> h_old_start h + h_old_count h - 1" "new_no \<le> h_new_start h + h_new_count h - 1"
  shows "length (format_gutter k (Some old_no) (Some new_no) (int (compute_line_no_width h))) =
    compute_line_no_width h + 2"
proof -
  let ?m = "max (max 1 (h_old_start h + h_old_count h - 1)) (h_new_start h + h_new_count h - 1)"
  have w: "compute_line_no_width h = length (show_nat ?m)"
    using digits_loop_length [of ?m 1] by (simp add: compute_line_no_width_def)
  have "length (show_nat old_no) \<le> length (show_nat ?m)" "length (show_nat new_no) \<le> length (show_nat ?m)"
    using assms by (intro length_show_nat_mono, simp)+
  moreover have "length (show_nat ?m) \<ge> 1"
    by (metis One_nat_def Suc_leI length_greater_0_conv show_nat_not_Nil)
  moreover obtain M where "length (show_nat ?m) = M" by blast
  ultimately show ?thesis
    unfolding format_gutter_def w Let_def by (cases k) auto
qed

lemma gutter_fits_width_witness:
  "length (format_gutter Added (Some 7) (Some 9)
     (int (compute_line_no_width \<lparr>h_old_start = 5, h_old_count = 100, h_new_start = 5, h_new_count = 99, h_lines = []\<rparr>))) =
   compute_line_no_width \<lparr>h_old_start = 5, h_old_count = 100, h_new_start = 5, h_new_count = 99, h_lines = []\<rparr> + 2"
  by (rule gutter_fits_width) simp_all

end
