(* ===== verification/LoopTypes.thy ===== *)
theory LoopTypes
  imports Json
begin

text \<open>
  \<open>loop/loop_types.cpp\<close>: the definitions of scheduled loops, their validation and their JSON form.
  Integers are \<open>int\<close> with the range checks and the conversions of the code; the optional error
  argument of the C++ functions is the left side of a sum.  The lemmas give the codes of the
  enumerations, the round trip of a valid schedule and of a valid loop through JSON, and what a
  definition accepted from JSON satisfies.
\<close>

datatype schedule_kind = Period | Interval | Once
datatype period_kind = Daily | Workdays | Weekly
datatype interval_unit = Minutes | Hours | Days
datatype run_status = Scheduled | Running | WaitingUser | Completed | Failed | Missed

record loop_schedule =
  s_kind :: schedule_kind
  s_period :: period_kind
  s_weekdays :: "int list"
  s_hour :: int
  s_minute :: int
  s_interval_value :: int
  s_interval_unit :: interval_unit
  s_anchor_ms :: int
  s_once_at_ms :: int
  s_tz_offset :: int
  s_valid_from :: "int option"
  s_valid_until :: "int option"

definition default_schedule :: loop_schedule where
  "default_schedule = \<lparr>s_kind = Period, s_period = Daily, s_weekdays = [], s_hour = 9, s_minute = 0,
     s_interval_value = 1, s_interval_unit = Hours, s_anchor_ms = 0, s_once_at_ms = 0,
     s_tz_offset = 0, s_valid_from = None, s_valid_until = None\<rparr>"

record loop_definition =
  l_id :: string
  l_name :: string
  l_prompt :: string
  l_workspace_hash :: string
  l_workspace_cwd :: string
  l_model_name :: string
  l_permission_mode :: string
  l_use_worktree :: bool
  l_schedule :: loop_schedule
  l_schedule_expr :: string
  l_next_run :: "int option"
  l_enabled :: bool
  l_created_at :: int
  l_updated_at :: int

definition default_loop :: loop_definition where
  "default_loop = \<lparr>l_id = [], l_name = [], l_prompt = [], l_workspace_hash = [], l_workspace_cwd = [],
     l_model_name = [], l_permission_mode = ''yolo'', l_use_worktree = False,
     l_schedule = default_schedule, l_schedule_expr = [], l_next_run = None, l_enabled = True,
     l_created_at = 0, l_updated_at = 0\<rparr>"

record loop_run =
  r_id :: string
  r_loop_id :: string
  r_scheduled_at :: int
  r_started_at :: "int option"
  r_finished_at :: "int option"
  r_status :: run_status
  r_reason :: string
  r_missed_count :: int
  r_session_id :: string
  r_worktree_path :: string
  r_worktree_branch :: string

record validation_error =
  err_code :: string
  err_field :: string
  err_message :: string

abbreviation error :: "string \<Rightarrow> string \<Rightarrow> string \<Rightarrow> validation_error" where
  "error c f m \<equiv> \<lparr>err_code = c, err_field = f, err_message = m\<rparr>"

section \<open>Names of the enumerations\<close>

fun schedule_kind_name :: "schedule_kind \<Rightarrow> string" where
  "schedule_kind_name Period = ''period''"
| "schedule_kind_name Interval = ''interval''"
| "schedule_kind_name Once = ''once''"

fun period_kind_name :: "period_kind \<Rightarrow> string" where
  "period_kind_name Daily = ''daily''"
| "period_kind_name Workdays = ''workdays''"
| "period_kind_name Weekly = ''weekly''"

fun interval_unit_name :: "interval_unit \<Rightarrow> string" where
  "interval_unit_name Minutes = ''minutes''"
| "interval_unit_name Hours = ''hours''"
| "interval_unit_name Days = ''days''"

fun run_status_name :: "run_status \<Rightarrow> string" where
  "run_status_name Scheduled = ''scheduled''"
| "run_status_name Running = ''running''"
| "run_status_name WaitingUser = ''waiting_user''"
| "run_status_name Completed = ''completed''"
| "run_status_name Failed = ''failed''"
| "run_status_name Missed = ''missed''"

definition parse_schedule_kind :: "string \<Rightarrow> schedule_kind option" where
  "parse_schedule_kind v =
     (if v = ''period'' then Some Period else if v = ''interval'' then Some Interval
      else if v = ''once'' then Some Once else None)"

definition parse_period_kind :: "string \<Rightarrow> period_kind option" where
  "parse_period_kind v =
     (if v = ''daily'' then Some Daily else if v = ''workdays'' then Some Workdays
      else if v = ''weekly'' then Some Weekly else None)"

definition parse_interval_unit :: "string \<Rightarrow> interval_unit option" where
  "parse_interval_unit v =
     (if v = ''minutes'' then Some Minutes else if v = ''hours'' then Some Hours
      else if v = ''days'' then Some Days else None)"

definition parse_run_status :: "string \<Rightarrow> run_status option" where
  "parse_run_status v =
     (if v = ''scheduled'' then Some Scheduled else if v = ''running'' then Some Running
      else if v = ''waiting_user'' then Some WaitingUser else if v = ''completed'' then Some Completed
      else if v = ''failed'' then Some Failed else if v = ''missed'' then Some Missed else None)"

interpretation kind_code: codec schedule_kind_name parse_schedule_kind
proof
  show "parse_schedule_kind (schedule_kind_name k) = Some k" for k
    by (cases k) (simp_all add: parse_schedule_kind_def)
qed

interpretation period_code: codec period_kind_name parse_period_kind
proof
  show "parse_period_kind (period_kind_name k) = Some k" for k
    by (cases k) (simp_all add: parse_period_kind_def)
qed

interpretation unit_code: codec interval_unit_name parse_interval_unit
proof
  show "parse_interval_unit (interval_unit_name k) = Some k" for k
    by (cases k) (simp_all add: parse_interval_unit_def)
qed

interpretation status_code: codec run_status_name parse_run_status
proof
  show "parse_run_status (run_status_name k) = Some k" for k
    by (cases k) (simp_all add: parse_run_status_def)
qed

section \<open>Normal form and validation\<close>

definition trim_loop_text :: "string \<Rightarrow> string" where
  "trim_loop_text v = trim_by is_space v"

text \<open>\<open>std::sort\<close> followed by \<open>erase(unique)\<close>.\<close>

definition sort_unique :: "int list \<Rightarrow> int list" where
  "sort_unique ds = remdups_adj (sort ds)"

definition normalize_loop_definition :: "loop_definition \<Rightarrow> loop_definition" where
  "normalize_loop_definition v =
     v\<lparr>l_name := trim_loop_text (l_name v), l_prompt := trim_loop_text (l_prompt v),
       l_workspace_hash := trim_loop_text (l_workspace_hash v),
       l_workspace_cwd := trim_loop_text (l_workspace_cwd v),
       l_model_name := trim_loop_text (l_model_name v),
       l_permission_mode := trim_loop_text (l_permission_mode v),
       l_schedule := (l_schedule v)\<lparr>s_weekdays := sort_unique (s_weekdays (l_schedule v))\<rparr>\<rparr>"

text \<open>The loop over the weekdays with the set of days already seen.\<close>

fun weekdays_ok :: "int set \<Rightarrow> int list \<Rightarrow> bool" where
  "weekdays_ok seen [] = True"
| "weekdays_ok seen (d # ds) =
     (if d < 0 \<or> d > 6 \<or> d \<in> seen then False else weekdays_ok (insert d seen) ds)"

definition validate_loop_schedule :: "loop_schedule \<Rightarrow> validation_error option" where
  "validate_loop_schedule v =
     (if s_tz_offset v < - (14 * 60) \<or> s_tz_offset v > 14 * 60 then
        Some (error ''INVALID_TIMEZONE'' ''schedule.timezone_offset_minutes''
          ''timezone offset must be between -840 and 840 minutes'')
      else if (case (s_valid_from v, s_valid_until v) of (Some f, Some u) \<Rightarrow> u < f | _ \<Rightarrow> False) then
        Some (error ''INVALID_VALIDITY_WINDOW'' ''schedule.valid_until_ms''
          ''valid_until_ms must not be earlier than valid_from_ms'')
      else case s_kind v of
        Period \<Rightarrow>
          if s_hour v < 0 \<or> s_hour v > 23 \<or> s_minute v < 0 \<or> s_minute v > 59 then
            Some (error ''INVALID_TIME'' ''schedule.time'' ''period hour/minute is out of range'')
          else if s_period v = Weekly \<and> s_weekdays v = [] then
            Some (error ''MISSING_WEEKDAY'' ''schedule.weekdays'' ''weekly schedule requires at least one weekday'')
          else if \<not> weekdays_ok {} (s_weekdays v) then
            Some (error ''INVALID_WEEKDAY'' ''schedule.weekdays'' ''weekdays must be unique values from 0 through 6'')
          else None
      | Interval \<Rightarrow>
          if s_interval_value v \<le> 0 \<or> s_interval_value v > 100000 then
            Some (error ''INVALID_INTERVAL'' ''schedule.interval_value'' ''interval_value must be between 1 and 100000'')
          else if s_anchor_ms v \<le> 0 then
            Some (error ''INVALID_ANCHOR'' ''schedule.anchor_ms'' ''interval schedule requires a positive anchor_ms'')
          else None
      | Once \<Rightarrow>
          if s_once_at_ms v \<le> 0 then
            Some (error ''INVALID_ONCE_TIME'' ''schedule.once_at_ms'' ''once schedule requires a positive once_at_ms'')
          else None)"

definition max_name_bytes :: nat where "max_name_bytes = 160"
definition max_prompt_bytes :: nat where "max_prompt_bytes = 256 * 1024"

definition validate_loop_definition :: "loop_definition \<Rightarrow> validation_error option" where
  "validate_loop_definition v =
     (if trim_loop_text (l_name v) = [] then Some (error ''MISSING_NAME'' ''name'' ''LOOP name is required'')
      else if length (l_name v) > max_name_bytes then Some (error ''NAME_TOO_LONG'' ''name'' ''LOOP name is too long'')
      else if trim_loop_text (l_prompt v) = [] then Some (error ''MISSING_PROMPT'' ''prompt'' ''LOOP prompt is required'')
      else if length (l_prompt v) > max_prompt_bytes then
        Some (error ''PROMPT_TOO_LONG'' ''prompt'' ''LOOP prompt is too long'')
      else if trim_loop_text (l_model_name v) = [] then
        Some (error ''MISSING_MODEL'' ''model_name'' ''LOOP model is required'')
      else if l_permission_mode v \<noteq> ''default'' \<and> l_permission_mode v \<noteq> ''yolo'' then
        Some (error ''INVALID_PERMISSION_MODE'' ''permission_mode'' ''LOOP permission_mode must be default or yolo'')
      else if (trim_loop_text (l_workspace_hash v) \<noteq> []) \<noteq> (trim_loop_text (l_workspace_cwd v) \<noteq> []) then
        Some (error ''INVALID_WORKSPACE'' ''workspace''
          ''workspace_hash and workspace_cwd must both be set or both be empty'')
      else validate_loop_schedule (l_schedule v))"

section \<open>JSON\<close>

definition opt_json :: "int option \<Rightarrow> json" where
  "opt_json v = (case v of Some i \<Rightarrow> JInt i | None \<Rightarrow> JNull)"

definition schedule_to_json :: "loop_schedule \<Rightarrow> json" where
  "schedule_to_json v = JObj
     ([(''kind'', JStr (schedule_kind_name (s_kind v))),
       (''timezone_offset_minutes'', JInt (s_tz_offset v)),
       (''valid_from_ms'', opt_json (s_valid_from v)),
       (''valid_until_ms'', opt_json (s_valid_until v))] @
      (case s_kind v of
         Period \<Rightarrow> [(''period'', JStr (period_kind_name (s_period v))),
           (''weekdays'', JArr (map JInt (s_weekdays v))),
           (''hour'', JInt (s_hour v)), (''minute'', JInt (s_minute v))]
       | Interval \<Rightarrow> [(''interval_value'', JInt (s_interval_value v)),
           (''interval_unit'', JStr (interval_unit_name (s_interval_unit v))),
           (''anchor_ms'', JInt (s_anchor_ms v))]
       | Once \<Rightarrow> [(''once_at_ms'', JInt (s_once_at_ms v))]))"

text \<open>\<open>read_integer\<close> for the two widths it is used with.\<close>

definition read_integer :: "int \<Rightarrow> int \<Rightarrow> json \<Rightarrow> string \<Rightarrow> int option" where
  "read_integer lo hi j k =
     (case field j k of
        Some (JInt i) \<Rightarrow>
          let raw = wrap_signed 64 i in if raw < lo \<or> raw > hi then None else Some raw
      | _ \<Rightarrow> None)"

definition read_int :: "json \<Rightarrow> string \<Rightarrow> int option" where
  "read_int = read_integer int32_min int32_max"

definition read_i64 :: "json \<Rightarrow> string \<Rightarrow> int option" where
  "read_i64 = read_integer int64_min int64_max"

definition optional_i64 :: "json \<Rightarrow> string \<Rightarrow> int option" where
  "optional_i64 j k = (case field j k of Some (JInt i) \<Rightarrow> Some (wrap_signed 64 i) | _ \<Rightarrow> None)"

definition valid_optional_i64 :: "json \<Rightarrow> string \<Rightarrow> bool" where
  "valid_optional_i64 j k =
     (case field j k of None \<Rightarrow> True | Some v \<Rightarrow> v = JNull \<or> is_integer v)"

text \<open>The array of weekdays: every item must be an integer; \<open>get<int>\<close> reduces it to 32 bits.\<close>

fun read_weekdays :: "json list \<Rightarrow> int list option" where
  "read_weekdays [] = Some []"
| "read_weekdays (JInt i # js) = map_option (\<lambda>ds. wrap_signed 32 i # ds) (read_weekdays js)"
| "read_weekdays (_ # js) = None"

definition period_from_json :: "json \<Rightarrow> loop_schedule \<Rightarrow> validation_error + loop_schedule" where
  "period_from_json j parsed =
     (case string_field j ''period'' of
        None \<Rightarrow> Inl (error ''MISSING_PERIOD'' ''schedule.period'' ''period is required'')
      | Some p \<Rightarrow>
        (case parse_period_kind p of
           None \<Rightarrow> Inl (error ''INVALID_PERIOD'' ''schedule.period'' ''unsupported period'')
         | Some period \<Rightarrow>
           (case (read_int j ''hour'', read_int j ''minute'') of
              (Some h, Some m) \<Rightarrow>
                let parsed1 = parsed\<lparr>s_period := period, s_hour := h, s_minute := m\<rparr>
                in (case field j ''weekdays'' of
                      None \<Rightarrow> Inr (parsed1\<lparr>s_weekdays := sort_unique []\<rparr>)
                    | Some (JArr items) \<Rightarrow>
                        (case read_weekdays items of
                           None \<Rightarrow> Inl (error ''INVALID_WEEKDAY'' ''schedule.weekdays'' ''weekday must be an integer'')
                         | Some ds \<Rightarrow> Inr (parsed1\<lparr>s_weekdays := sort_unique ds\<rparr>))
                    | Some _ \<Rightarrow> Inl (error ''INVALID_WEEKDAY'' ''schedule.weekdays'' ''weekdays must be an array''))
            | _ \<Rightarrow> Inl (error ''INVALID_TIME'' ''schedule.time'' ''hour and minute are required integers''))))"

definition interval_from_json :: "json \<Rightarrow> loop_schedule \<Rightarrow> validation_error + loop_schedule" where
  "interval_from_json j parsed =
     (case (read_int j ''interval_value'', read_i64 j ''anchor_ms'', string_field j ''interval_unit'') of
        (Some n, Some a, Some u) \<Rightarrow>
          (case parse_interval_unit u of
             None \<Rightarrow> Inl (error ''INVALID_INTERVAL_UNIT'' ''schedule.interval_unit'' ''unsupported interval unit'')
           | Some unit \<Rightarrow> Inr (parsed\<lparr>s_interval_value := n, s_anchor_ms := a, s_interval_unit := unit\<rparr>))
      | _ \<Rightarrow> Inl (error ''INVALID_INTERVAL'' ''schedule'' ''interval fields are incomplete''))"

definition once_from_json :: "json \<Rightarrow> loop_schedule \<Rightarrow> validation_error + loop_schedule" where
  "once_from_json j parsed =
     (case read_i64 j ''once_at_ms'' of
        None \<Rightarrow> Inl (error ''INVALID_ONCE_TIME'' ''schedule.once_at_ms'' ''once_at_ms is required'')
      | Some t \<Rightarrow> Inr (parsed\<lparr>s_once_at_ms := t\<rparr>))"

definition checked_schedule :: "validation_error + loop_schedule \<Rightarrow> validation_error + loop_schedule" where
  "checked_schedule r =
     (case r of Inl e \<Rightarrow> Inl e
      | Inr s \<Rightarrow> (case validate_loop_schedule s of Some e \<Rightarrow> Inl e | None \<Rightarrow> Inr s))"

definition schedule_from_json :: "json \<Rightarrow> validation_error + loop_schedule" where
  "schedule_from_json j =
     (if \<not> is_object j then Inl (error ''INVALID_SCHEDULE'' ''schedule'' ''schedule must be an object'')
      else case string_field j ''kind'' of
        None \<Rightarrow> Inl (error ''MISSING_SCHEDULE_KIND'' ''schedule.kind'' ''schedule kind is required'')
      | Some ks \<Rightarrow>
        (case parse_schedule_kind ks of
           None \<Rightarrow> Inl (error ''INVALID_SCHEDULE_KIND'' ''schedule.kind'' ''unsupported schedule kind'')
         | Some kind \<Rightarrow>
           (case (if field j ''timezone_offset_minutes'' = None then Some (s_tz_offset default_schedule)
                  else read_int j ''timezone_offset_minutes'') of
              None \<Rightarrow> Inl (error ''INVALID_TIMEZONE'' ''schedule.timezone_offset_minutes''
                         ''timezone_offset_minutes must be an integer'')
            | Some tz \<Rightarrow>
              if \<not> valid_optional_i64 j ''valid_from_ms'' \<or> \<not> valid_optional_i64 j ''valid_until_ms'' then
                Inl (error ''INVALID_VALIDITY_WINDOW'' ''schedule'' ''validity timestamps must be integers or null'')
              else
                let parsed = default_schedule\<lparr>s_kind := kind, s_tz_offset := tz,
                      s_valid_from := optional_i64 j ''valid_from_ms'',
                      s_valid_until := optional_i64 j ''valid_until_ms''\<rparr>
                in checked_schedule
                     (case kind of
                        Period \<Rightarrow> period_from_json j parsed
                      | Interval \<Rightarrow> interval_from_json j parsed
                      | Once \<Rightarrow> once_from_json j parsed))))"

definition loop_to_json :: "loop_definition \<Rightarrow> bool \<Rightarrow> json" where
  "loop_to_json v include_internal = JObj
     ([(''id'', JStr (l_id v)), (''name'', JStr (l_name v)), (''prompt'', JStr (l_prompt v)),
       (''workspace_hash'', JStr (l_workspace_hash v)), (''workspace_cwd'', JStr (l_workspace_cwd v)),
       (''model_name'', JStr (l_model_name v)), (''permission_mode'', JStr (l_permission_mode v)),
       (''use_worktree'', JBool (l_use_worktree v)), (''schedule'', schedule_to_json (l_schedule v)),
       (''next_run_at_ms'', opt_json (l_next_run v)), (''enabled'', JBool (l_enabled v)),
       (''created_at_ms'', JInt (l_created_at v)), (''updated_at_ms'', JInt (l_updated_at v))] @
      (if include_internal then [(''schedule_expr'', JStr (l_schedule_expr v))] else []))"

text \<open>The lambda \<open>read_string\<close>: the new value of the target, or \<open>None\<close> when it returns false.\<close>

definition read_string :: "json \<Rightarrow> string \<Rightarrow> string \<Rightarrow> bool \<Rightarrow> string option" where
  "read_string j k target required =
     (case field j k of
        None \<Rightarrow> (if required then None else Some target)
      | Some (JStr s) \<Rightarrow> Some s
      | Some _ \<Rightarrow> None)"

definition read_bool :: "json \<Rightarrow> string \<Rightarrow> bool \<Rightarrow> bool option" where
  "read_bool j k target =
     (case field j k of None \<Rightarrow> Some target | Some (JBool b) \<Rightarrow> Some b | Some _ \<Rightarrow> None)"

definition loop_from_json :: "json \<Rightarrow> validation_error + loop_definition" where
  "loop_from_json j =
     (if \<not> is_object j then Inl (error ''INVALID_LOOP'' [] ''LOOP body must be an object'')
      else case (read_string j ''name'' [] True, read_string j ''prompt'' [] True,
                 read_string j ''workspace_hash'' [] False, read_string j ''workspace_cwd'' [] False,
                 read_string j ''model_name'' [] True, read_string j ''permission_mode'' ''yolo'' False) of
        (Some name, Some prompt, Some hash, Some cwd, Some model, Some mode) \<Rightarrow>
          (case read_bool j ''enabled'' True of
             None \<Rightarrow> Inl (error ''INVALID_ENABLED'' ''enabled'' ''enabled must be boolean'')
           | Some enabled \<Rightarrow>
             (case read_bool j ''use_worktree'' False of
                None \<Rightarrow> Inl (error ''INVALID_USE_WORKTREE'' ''use_worktree'' ''use_worktree must be boolean'')
              | Some worktree \<Rightarrow>
                (case field j ''schedule'' of
                   None \<Rightarrow> Inl (error ''MISSING_SCHEDULE'' ''schedule'' ''schedule is required'')
                 | Some sj \<Rightarrow>
                   (case schedule_from_json sj of
                      Inl e \<Rightarrow> Inl e
                    | Inr s \<Rightarrow>
                      let parsed = normalize_loop_definition
                            (default_loop\<lparr>l_id := (case string_field j ''id'' of Some i \<Rightarrow> i | None \<Rightarrow> []),
                               l_name := name, l_prompt := prompt, l_workspace_hash := hash,
                               l_workspace_cwd := cwd, l_model_name := model, l_permission_mode := mode,
                               l_enabled := enabled, l_use_worktree := worktree, l_schedule := s\<rparr>)
                      in (case validate_loop_definition parsed of Some e \<Rightarrow> Inl e | None \<Rightarrow> Inr parsed)))))
      | _ \<Rightarrow> Inl (error ''INVALID_FIELD_TYPE'' [] ''LOOP string field has an invalid type''))"

definition run_to_json :: "loop_run \<Rightarrow> json" where
  "run_to_json v = JObj
     [(''id'', JStr (r_id v)), (''loop_id'', JStr (r_loop_id v)), (''scheduled_at_ms'', JInt (r_scheduled_at v)),
      (''started_at_ms'', opt_json (r_started_at v)), (''finished_at_ms'', opt_json (r_finished_at v)),
      (''status'', JStr (run_status_name (r_status v))), (''reason'', JStr (r_reason v)),
      (''missed_count'', JInt (r_missed_count v)), (''session_id'', JStr (r_session_id v)),
      (''worktree_path'', JStr (r_worktree_path v)), (''worktree_branch'', JStr (r_worktree_branch v))]"

section \<open>Facts on normal form and ranges\<close>

lemma sort_unique_idem [simp]: "sort_unique (sort_unique ds) = sort_unique ds"
proof -
  have dist: "sorted xs \<Longrightarrow> distinct (remdups_adj xs)" for xs :: "int list"
    by (induction xs rule: remdups_adj.induct) auto
  have adj: "remdups_adj (remdups_adj (sort ds)) = remdups_adj (sort ds)"
    by (rule remdups_adj_distinct) (rule dist, simp)
  have "sorted (remdups_adj (sort ds))" by simp
  then have "sort (remdups_adj (sort ds)) = remdups_adj (sort ds)" by (rule sorted_sort_id)
  then show ?thesis by (simp add: sort_unique_def adj)
qed

lemma sort_unique_Nil [simp]: "sort_unique [] = []"
  by (simp add: sort_unique_def)

lemma normalize_loop_idem [simp]: "normalize_loop_definition (normalize_loop_definition v) = normalize_loop_definition v"
  by (simp add: normalize_loop_definition_def trim_loop_text_def)

lemma weekdays_ok_iff: "weekdays_ok seen ds \<longleftrightarrow> distinct ds \<and> (\<forall>d\<in>set ds. 0 \<le> d \<and> d \<le> 6 \<and> d \<notin> seen)"
  by (induction ds arbitrary: seen) auto

lemmas validate_simps = validate_loop_schedule_def weekdays_ok_iff

definition in_i64 :: "int option \<Rightarrow> bool" where
  "in_i64 v = (case v of None \<Rightarrow> True | Some i \<Rightarrow> int64_min \<le> i \<and> i \<le> int64_max)"

text \<open>A schedule the C++ type can hold and whose fields of the other kinds have their defaults.\<close>

definition canonical_schedule :: "loop_schedule \<Rightarrow> bool" where
  "canonical_schedule s \<longleftrightarrow> in_i64 (s_valid_from s) \<and> in_i64 (s_valid_until s) \<and>
     s_anchor_ms s \<le> int64_max \<and> s_once_at_ms s \<le> int64_max \<and>
     s_weekdays s = sort_unique (s_weekdays s) \<and>
     (s_kind s \<noteq> Period \<longrightarrow> s_period s = Daily \<and> s_weekdays s = [] \<and> s_hour s = 9 \<and> s_minute s = 0) \<and>
     (s_kind s \<noteq> Interval \<longrightarrow> s_interval_value s = 1 \<and> s_interval_unit s = Hours \<and> s_anchor_ms s = 0) \<and>
     (s_kind s \<noteq> Once \<longrightarrow> s_once_at_ms s = 0)"

lemma read_weekdays_JInt:
  "\<forall>d\<in>set ds. 0 \<le> d \<and> d \<le> 6 \<Longrightarrow> read_weekdays (map JInt ds) = Some ds"
  by (induction ds) simp_all

lemma optional_i64_opt_json: "field j k = Some (opt_json v) \<Longrightarrow> in_i64 v \<Longrightarrow> optional_i64 j k = v"
  by (cases v) (simp_all add: optional_i64_def opt_json_def in_i64_def)

lemma valid_optional_opt_json: "field j k = Some (opt_json v) \<Longrightarrow> valid_optional_i64 j k"
  by (cases v) (simp_all add: valid_optional_i64_def opt_json_def)

lemma read_integer_JInt:
  "field j k = Some (JInt i) \<Longrightarrow> lo \<le> i \<Longrightarrow> i \<le> hi \<Longrightarrow> int64_min \<le> i \<Longrightarrow> i \<le> int64_max \<Longrightarrow>
     read_integer lo hi j k = Some i"
  by (simp add: read_integer_def)

lemma read_int_JInt:
  "field j k = Some (JInt i) \<Longrightarrow> int32_min \<le> i \<Longrightarrow> i \<le> int32_max \<Longrightarrow> read_int j k = Some i"
  by (simp add: read_int_def read_integer_JInt)

lemma read_i64_JInt:
  "field j k = Some (JInt i) \<Longrightarrow> int64_min \<le> i \<Longrightarrow> i \<le> int64_max \<Longrightarrow> read_i64 j k = Some i"
  by (simp add: read_i64_def read_integer_JInt)

lemma string_field_JStr: "field j k = Some (JStr s) \<Longrightarrow> string_field j k = Some s"
  by (simp add: string_field_Some_iff)

lemma schedule_roundtrip:
  assumes valid: "validate_loop_schedule s = None" and canon: "canonical_schedule s"
  shows "schedule_from_json (schedule_to_json s) = Inr s"
proof -
  let ?j = "schedule_to_json s"
  have obj: "is_object ?j" by (simp add: schedule_to_json_def)
  have f: "field ?j ''kind'' = Some (JStr (schedule_kind_name (s_kind s)))"
    "field ?j ''timezone_offset_minutes'' = Some (JInt (s_tz_offset s))"
    "field ?j ''valid_from_ms'' = Some (opt_json (s_valid_from s))"
    "field ?j ''valid_until_ms'' = Some (opt_json (s_valid_until s))"
    by (simp_all add: schedule_to_json_def)
  have tz: "read_int ?j ''timezone_offset_minutes'' = Some (s_tz_offset s)"
    by (rule read_int_JInt [OF f(2)]) (use valid in \<open>auto simp: validate_simps split: if_splits\<close>)
  have win: "in_i64 (s_valid_from s)" "in_i64 (s_valid_until s)" using canon by (simp_all add: canonical_schedule_def)
  let ?p = "default_schedule\<lparr>s_kind := s_kind s, s_tz_offset := s_tz_offset s,
    s_valid_from := s_valid_from s, s_valid_until := s_valid_until s\<rparr>"
  have "(case s_kind s of Period \<Rightarrow> period_from_json ?j ?p | Interval \<Rightarrow> interval_from_json ?j ?p
      | Once \<Rightarrow> once_from_json ?j ?p) = Inr s"
  proof (cases "s_kind s")
    case Period
    then have g: "field ?j ''period'' = Some (JStr (period_kind_name (s_period s)))"
      "field ?j ''hour'' = Some (JInt (s_hour s))" "field ?j ''minute'' = Some (JInt (s_minute s))"
      "field ?j ''weekdays'' = Some (JArr (map JInt (s_weekdays s)))"
      by (simp_all add: schedule_to_json_def)
    have r: "0 \<le> s_hour s" "s_hour s \<le> 23" "0 \<le> s_minute s" "s_minute s \<le> 59"
      "\<forall>d\<in>set (s_weekdays s). 0 \<le> d \<and> d \<le> 6"
      using valid Period by (auto simp: validate_simps split: if_splits)
    have hm: "read_int ?j ''hour'' = Some (s_hour s)" "read_int ?j ''minute'' = Some (s_minute s)"
      using r by (auto intro!: read_int_JInt g(2,3))
    have w: "read_weekdays (map JInt (s_weekdays s)) = Some (s_weekdays s)"
      by (rule read_weekdays_JInt [OF r(5)])
    show ?thesis
      using canon Period
      by (simp add: period_from_json_def string_field_JStr [OF g(1)] period_code.dec_enc hm g(4) w Let_def
          canonical_schedule_def default_schedule_def)
  next
    case Interval
    then have g: "field ?j ''interval_unit'' = Some (JStr (interval_unit_name (s_interval_unit s)))"
      "field ?j ''interval_value'' = Some (JInt (s_interval_value s))" "field ?j ''anchor_ms'' = Some (JInt (s_anchor_ms s))"
      by (simp_all add: schedule_to_json_def)
    have r: "0 < s_interval_value s" "s_interval_value s \<le> 100000" "0 < s_anchor_ms s"
      using valid Interval by (auto simp: validate_simps split: if_splits)
    have "read_int ?j ''interval_value'' = Some (s_interval_value s)" "read_i64 ?j ''anchor_ms'' = Some (s_anchor_ms s)"
      using r canon by (auto intro!: read_int_JInt read_i64_JInt g(2,3) simp: canonical_schedule_def)
    then show ?thesis
      using canon Interval
      by (simp add: interval_from_json_def string_field_JStr [OF g(1)] unit_code.dec_enc
          canonical_schedule_def default_schedule_def)
  next
    case Once
    then have g: "field ?j ''once_at_ms'' = Some (JInt (s_once_at_ms s))" by (simp add: schedule_to_json_def)
    have "0 < s_once_at_ms s" using valid Once by (auto simp: validate_simps split: if_splits)
    then have "read_i64 ?j ''once_at_ms'' = Some (s_once_at_ms s)"
      using canon by (auto intro!: read_i64_JInt g simp: canonical_schedule_def)
    then show ?thesis
      using canon Once by (simp add: once_from_json_def canonical_schedule_def default_schedule_def)
  qed
  then show ?thesis
    unfolding schedule_from_json_def
    using obj valid
    by (simp add: string_field_JStr [OF f(1)] kind_code.dec_enc f(2) tz valid_optional_opt_json [OF f(3)]
        valid_optional_opt_json [OF f(4)] optional_i64_opt_json [OF f(3) win(1)]
        optional_i64_opt_json [OF f(4) win(2)] Let_def checked_schedule_def)
qed

lemma checked_schedule_Inr: "checked_schedule r = Inr s \<longleftrightarrow> r = Inr s \<and> validate_loop_schedule s = None"
  by (cases r) (auto simp: checked_schedule_def split: option.splits)

lemma schedule_from_json_valid: "schedule_from_json j = Inr s \<Longrightarrow> validate_loop_schedule s = None"
  by (auto simp: schedule_from_json_def Let_def checked_schedule_Inr split: if_splits option.splits)

lemma loop_from_json_valid:
  "loop_from_json j = Inr v \<Longrightarrow>
     validate_loop_definition v = None \<and> normalize_loop_definition v = v"
  by (auto simp: loop_from_json_def Let_def split: if_splits option.splits sum.splits)

section \<open>Properties\<close>

text \<open>A valid schedule in canonical form survives JSON: reading back what was written gives the
  same schedule.\<close>

lemma schedule_json_roundtrip:
  assumes "validate_loop_schedule s = None" "canonical_schedule s"
  shows "schedule_from_json (schedule_to_json s) = Inr s"
  using assms by (rule schedule_roundtrip)

lemma schedule_json_roundtrip_witness:
  "schedule_from_json (schedule_to_json
     (default_schedule\<lparr>s_period := Weekly, s_weekdays := [1, 3, 5], s_tz_offset := 480\<rparr>)) =
   Inr (default_schedule\<lparr>s_period := Weekly, s_weekdays := [1, 3, 5], s_tz_offset := 480\<rparr>)"
proof (rule schedule_json_roundtrip)
  show "validate_loop_schedule (default_schedule\<lparr>s_period := Weekly, s_weekdays := [1, 3, 5], s_tz_offset := 480\<rparr>) = None"
    by (simp add: validate_loop_schedule_def default_schedule_def)
  show "canonical_schedule (default_schedule\<lparr>s_period := Weekly, s_weekdays := [1, 3, 5], s_tz_offset := 480\<rparr>)"
    by (simp add: canonical_schedule_def default_schedule_def in_i64_def sort_unique_def)
qed

text \<open>Whatever JSON a loop is read from, an accepted definition is in normal form and passes the
  whole validation, its schedule's included; and a valid one in normal form survives the round trip,
  except for the fields the server owns.\<close>

lemma loop_json_sound_and_complete:
  "(loop_from_json j = Inr v \<longrightarrow> validate_loop_definition v = None \<and> normalize_loop_definition v = v \<and>
      validate_loop_schedule (l_schedule v) = None) \<and>
   (validate_loop_definition v = None \<and> normalize_loop_definition v = v \<and> canonical_schedule (l_schedule v) \<longrightarrow>
      loop_from_json (loop_to_json v internal) =
        Inr (v\<lparr>l_schedule_expr := [], l_next_run := None, l_created_at := 0, l_updated_at := 0\<rparr>))"
proof (intro conjI impI)
  assume ok: "loop_from_json j = Inr v"
  from loop_from_json_valid [OF ok]
  show "validate_loop_definition v = None" "normalize_loop_definition v = v" by blast+
  then show "validate_loop_schedule (l_schedule v) = None"
    by (simp add: validate_loop_definition_def split: if_splits)
next
  assume v: "validate_loop_definition v = None \<and> normalize_loop_definition v = v \<and> canonical_schedule (l_schedule v)"
  let ?j = "loop_to_json v internal"
  let ?v = "v\<lparr>l_schedule_expr := [], l_next_run := None, l_created_at := 0, l_updated_at := 0\<rparr>"
  have s: "schedule_from_json (schedule_to_json (l_schedule v)) = Inr (l_schedule v)"
    using v by (intro schedule_roundtrip) (auto simp: validate_loop_definition_def split: if_splits)
  have f: "field ?j ''schedule'' = Some (schedule_to_json (l_schedule v))" "is_object ?j"
    "read_string ?j ''name'' [] True = Some (l_name v)" "read_string ?j ''prompt'' [] True = Some (l_prompt v)"
    "read_string ?j ''workspace_hash'' [] False = Some (l_workspace_hash v)"
    "read_string ?j ''workspace_cwd'' [] False = Some (l_workspace_cwd v)"
    "read_string ?j ''model_name'' [] True = Some (l_model_name v)"
    "read_string ?j ''permission_mode'' ''yolo'' False = Some (l_permission_mode v)"
    "read_bool ?j ''enabled'' True = Some (l_enabled v)" "read_bool ?j ''use_worktree'' False = Some (l_use_worktree v)"
    "string_field ?j ''id'' = Some (l_id v)"
    by (simp_all add: loop_to_json_def read_string_def read_bool_def string_field_def)
  have parsed: "default_loop\<lparr>l_id := l_id v, l_name := l_name v, l_prompt := l_prompt v,
      l_workspace_hash := l_workspace_hash v, l_workspace_cwd := l_workspace_cwd v, l_model_name := l_model_name v,
      l_permission_mode := l_permission_mode v, l_enabled := l_enabled v, l_use_worktree := l_use_worktree v,
      l_schedule := l_schedule v\<rparr> = ?v"
    by (cases v) (simp add: default_loop_def)
  have norm: "normalize_loop_definition ?v = ?v"
    using v by (cases v) (simp add: normalize_loop_definition_def)
  have "validate_loop_definition ?v = validate_loop_definition v"
    by (simp add: validate_loop_definition_def)
  then have "validate_loop_definition ?v = None" using v by simp
  then show "loop_from_json ?j = Inr ?v"
    unfolding loop_from_json_def f
    by (simp add: s f(2) Let_def parsed norm)
qed

definition sample_loop :: loop_definition where
  "sample_loop = default_loop\<lparr>l_name := ''nightly'', l_prompt := ''run the tests'', l_model_name := ''m''\<rparr>"

lemma loop_json_sound_and_complete_witness:
  "loop_from_json (loop_to_json sample_loop False) = Inr sample_loop"
proof -
  have "validate_loop_definition sample_loop = None"
    by (simp add: validate_loop_definition_def sample_loop_def default_loop_def default_schedule_def
        validate_loop_schedule_def trim_loop_text_def trim_by_def rstrip_def is_space_def
        max_name_bytes_def max_prompt_bytes_def)
  moreover have "normalize_loop_definition sample_loop = sample_loop" by code_simp
  moreover have "canonical_schedule (l_schedule sample_loop)"
    by (simp add: canonical_schedule_def sample_loop_def default_loop_def default_schedule_def in_i64_def)
  moreover have "sample_loop\<lparr>l_schedule_expr := [], l_next_run := None, l_created_at := 0, l_updated_at := 0\<rparr> = sample_loop"
    by (simp add: sample_loop_def default_loop_def)
  ultimately show ?thesis
    using loop_json_sound_and_complete [of _ sample_loop False] by simp
qed

text \<open>A weekday outside 32 bits is not rejected but reduced: the number 4294967297 is read as
  Monday, although weekdays must be from 0 through 6 and every other field is range checked.\<close>

lemma weekday_overflow_accepted:
  "schedule_from_json (JObj [(''kind'', JStr ''period''), (''period'', JStr ''weekly''), (''hour'', JInt 9),
     (''minute'', JInt 0), (''weekdays'', JArr [JInt 4294967297])]) =
   Inr (default_schedule\<lparr>s_period := Weekly, s_weekdays := [1]\<rparr>) \<and>
   schedule_from_json (JObj [(''kind'', JStr ''period''), (''period'', JStr ''weekly''), (''hour'', JInt 4294967305),
     (''minute'', JInt 0), (''weekdays'', JArr [JInt 1])]) =
   Inl (error ''INVALID_TIME'' ''schedule.time'' ''hour and minute are required integers'')"
  by code_simp

end
