(* ===== verification/LoopSchedule.thy ===== *)
theory LoopSchedule
  imports LoopTypes "HOL-Library.Signed_Division"
begin

text \<open>
  \<open>loop/loop_schedule.cpp\<close>: when a scheduled loop runs next, what it missed while the daemon was
  down, and whether two loops of one workspace collide.  Times are milliseconds as \<open>int\<close>; the checks
  against the 64-bit limit are those of the code, and \<open>/\<close> and \<open>%\<close> truncate (\<open>sdiv\<close>, \<open>smod\<close>).  The
  specification is the set of a schedule's occurrences (\<open>occurs\<close>): the lemmas show that
  \<open>next_occurrence_ms\<close> is its least element after the given time, that the walk over two schedules
  finds a collision exactly when there is one, and what the catch-up computation returns.
\<close>

definition minute_ms :: int where "minute_ms = 60000"
definition hour_ms :: int where "hour_ms = 60 * minute_ms"
definition day_ms :: int where "day_ms = 24 * hour_ms"

lemmas ms_defs = minute_ms_def hour_ms_def day_ms_def

section \<open>Days and validity\<close>

definition floor_div :: "int \<Rightarrow> int \<Rightarrow> int" where
  "floor_div v d =
     (let q = v sdiv d; r = v smod d in if r \<noteq> 0 \<and> ((r < 0) \<noteq> (d < 0)) then q - 1 else q)"

definition positive_mod :: "int \<Rightarrow> int \<Rightarrow> int" where
  "positive_mod v m = (let r = v smod m in if r < 0 then r + m else r)"

definition day_matches :: "loop_schedule \<Rightarrow> int \<Rightarrow> bool" where
  "day_matches s epoch_day =
     (let weekday = positive_mod (epoch_day + 4) 7
      in case s_period s of
           Daily \<Rightarrow> True
         | Workdays \<Rightarrow> weekday \<ge> 1 \<and> weekday \<le> 5
         | Weekly \<Rightarrow> weekday \<in> set (s_weekdays s))"

definition within_validity :: "loop_schedule \<Rightarrow> int \<Rightarrow> bool" where
  "within_validity s t =
     (if (case s_valid_from s of Some f \<Rightarrow> t < f | None \<Rightarrow> False) then False
      else if (case s_valid_until s of Some u \<Rightarrow> t > u | None \<Rightarrow> False) then False
      else True)"

definition minute_bucket :: "int \<Rightarrow> int" where
  "minute_bucket t = floor_div t minute_ms"

definition workspace_key :: "loop_definition \<Rightarrow> string" where
  "workspace_key v =
     (if l_workspace_hash v \<noteq> [] then ''hash:'' @ l_workspace_hash v
      else if l_workspace_cwd v \<noteq> [] then ''cwd:'' @ l_workspace_cwd v
      else [])"

definition interval_duration_ms :: "loop_schedule \<Rightarrow> int" where
  "interval_duration_ms s =
     (if s_kind s \<noteq> Interval \<or> s_interval_value s \<le> 0 then 0
      else let unit = (case s_interval_unit s of Minutes \<Rightarrow> minute_ms | Hours \<Rightarrow> hour_ms | Days \<Rightarrow> day_ms)
        in if s_interval_value s > int64_max sdiv unit then 0 else s_interval_value s * unit)"

section \<open>The next occurrence\<close>

definition lower_bound :: "loop_schedule \<Rightarrow> int \<Rightarrow> int" where
  "lower_bound s after =
     (case s_valid_from s of Some f \<Rightarrow> (if after < f - 1 then f - 1 else after) | None \<Rightarrow> after)"

definition next_interval :: "loop_schedule \<Rightarrow> int \<Rightarrow> int option" where
  "next_interval s after =
     (let duration = interval_duration_ms s
      in if duration \<le> 0 then None
         else let lower = lower_bound s after; candidate = s_anchor_ms s
           in if candidate \<le> lower then
                (let delta = lower - candidate; steps = delta sdiv duration + 1
                 in if steps > (int64_max - candidate) sdiv duration then None
                    else let c = candidate + steps * duration
                      in if \<not> within_validity s c then None else Some c)
              else if \<not> within_validity s candidate then None else Some candidate)"

definition minute_of_day :: "loop_schedule \<Rightarrow> int" where
  "minute_of_day s = (s_hour s * 60 + s_minute s) * minute_ms"

definition offset_ms :: "loop_schedule \<Rightarrow> int" where
  "offset_ms s = s_tz_offset s * minute_ms"

definition day_time :: "loop_schedule \<Rightarrow> int \<Rightarrow> int" where
  "day_time s day = day * day_ms + minute_of_day s - offset_ms s"

text \<open>The loop over the days from \<open>start_day\<close> on.\<close>

fun scan_days :: "loop_schedule \<Rightarrow> int \<Rightarrow> int list \<Rightarrow> int option" where
  "scan_days s lower [] = None"
| "scan_days s lower (day # days) =
     (if \<not> day_matches s day then scan_days s lower days
      else let candidate = day_time s day
        in if candidate \<le> lower then scan_days s lower days
           else if (case s_valid_until s of Some u \<Rightarrow> candidate > u | None \<Rightarrow> False) then None
           else if within_validity s candidate then Some candidate
           else scan_days s lower days)"

definition next_period :: "loop_schedule \<Rightarrow> int \<Rightarrow> int option" where
  "next_period s after =
     (let lower = lower_bound s after;
          start_day = floor_div (lower + offset_ms s) day_ms
      in scan_days s lower (map (\<lambda>delta. start_day + delta) [0..14]))"

definition next_occurrence_ms :: "loop_schedule \<Rightarrow> int \<Rightarrow> int option" where
  "next_occurrence_ms s after =
     (case s_kind s of
        Once \<Rightarrow> if s_once_at_ms s > after \<and> within_validity s (s_once_at_ms s)
                then Some (s_once_at_ms s) else None
      | Interval \<Rightarrow> next_interval s after
      | Period \<Rightarrow> next_period s after)"

record schedule_compilation =
  c_expression :: string
  c_next_run :: "int option"

definition commas :: "int list \<Rightarrow> string" where
  "commas ds = join_with CHR '','' (map show_int ds)"

definition schedule_expression :: "loop_schedule \<Rightarrow> string" where
  "schedule_expression s =
     (case s_kind s of
        Period \<Rightarrow> show_int (s_minute s) @ '' '' @ show_int (s_hour s) @ '' * * '' @
          (case s_period s of Daily \<Rightarrow> ''*'' | Workdays \<Rightarrow> ''1-5'' | Weekly \<Rightarrow> commas (s_weekdays s))
      | Interval \<Rightarrow> ''@every '' @ show_int (s_interval_value s) @
          (case s_interval_unit s of Minutes \<Rightarrow> ''m'' | Hours \<Rightarrow> ''h'' | Days \<Rightarrow> ''d'')
      | Once \<Rightarrow> ''@at '' @ show_int (s_once_at_ms s))"

definition compile_schedule :: "loop_schedule \<Rightarrow> int \<Rightarrow> validation_error + schedule_compilation" where
  "compile_schedule s now =
     (case validate_loop_schedule s of
        Some e \<Rightarrow> Inl e
      | None \<Rightarrow>
        (case next_occurrence_ms s now of
           None \<Rightarrow> Inl (error ''NO_FUTURE_OCCURRENCE'' ''schedule''
                      ''schedule has no occurrence after the current time'')
         | Some t \<Rightarrow> Inr \<lparr>c_expression = schedule_expression s, c_next_run = Some t\<rparr>))"

section \<open>Missed occurrences\<close>

record missed_advance =
  missed_count :: int
  last_missed :: "int option"
  next_run :: "int option"

function missed_loop :: "loop_schedule \<Rightarrow> int \<Rightarrow> nat \<Rightarrow> int option \<Rightarrow> int option \<Rightarrow>
    nat \<times> int option \<times> int option" where
  "missed_loop s now count lst current =
     (case current of
        None \<Rightarrow> (count, lst, None)
      | Some c \<Rightarrow>
          if c \<le> now then
            (let nxt = next_occurrence_ms s c
             in if Suc count \<ge> 1000000 then (Suc count, Some c, nxt)
                else missed_loop s now (Suc count) (Some c) nxt)
          else (count, lst, Some c))"
  by pat_completeness auto
termination
  by (relation "measure (\<lambda>(s, now, count, lst, current). 1000000 - count)") auto

declare missed_loop.simps [simp del]

definition advance_missed_occurrences :: "loop_schedule \<Rightarrow> int \<Rightarrow> int \<Rightarrow> missed_advance" where
  "advance_missed_occurrences s first_due now =
     (if first_due > now then \<lparr>missed_count = 0, last_missed = None, next_run = Some first_due\<rparr>
      else if s_kind s = Interval then
        (let duration = interval_duration_ms s
         in if duration \<le> 0 then \<lparr>missed_count = 0, last_missed = None, next_run = None\<rparr>
            else let count = (now - first_due) sdiv duration + 1;
                     lst = first_due + (count - 1) * duration;
                     nxt = lst + duration
              in \<lparr>missed_count = count, last_missed = Some lst,
                   next_run = (if within_validity s nxt then Some nxt else None)\<rparr>)
      else
        (case missed_loop s now 0 None (Some first_due) of (count, lst, current) \<Rightarrow>
           \<lparr>missed_count = int count, last_missed = lst,
             next_run = (case current of Some c \<Rightarrow> (if c > now then Some c else None) | None \<Rightarrow> None)\<rparr>))"

section \<open>Arithmetic\<close>

lemma sdiv_nonneg: "0 \<le> a \<Longrightarrow> 0 < b \<Longrightarrow> a sdiv b = a div (b :: int)"
  by (simp add: signed_divide_int_def sgn_if)

lemma int_div_less:
  assumes "0 < (d :: int)"
  shows "a div d < n \<longleftrightarrow> a < n * d"
proof -
  obtain q r where qr: "q = a div d" "r = a mod d" "a = q * d + r" "0 \<le> r" "r < d"
    using assms by (metis div_mult_mod_eq pos_mod_bound pos_mod_sign)
  have "q < n \<longleftrightarrow> q * d + r < n * d"
  proof
    assume "q < n"
    then have "(q + 1) * d \<le> n * d" using assms by (intro mult_right_mono) auto
    then have "q * d + d \<le> n * d" by (simp only: distrib_right mult_1)
    with qr(5) show "q * d + r < n * d" by linarith
  next
    assume lt: "q * d + r < n * d"
    show "q < n"
    proof (rule ccontr)
      assume "\<not> q < n"
      then have "n * d \<le> q * d" using assms by (intro mult_right_mono) auto
      with lt qr(4) show False by linarith
    qed
  qed
  with qr(1,3) show ?thesis by simp
qed

lemma smod_range:
  assumes "0 < (d :: int)"
  shows "v smod d = (if v mod d = 0 \<or> 0 \<le> v then v mod d else v mod d - d)"
  using assms unfolding signed_modulo_int_eq_modulo_int
  by (auto simp: dvd_eq_mod_eq_0 sgn_if)

lemma floor_div_eq:
  assumes "0 < d"
  shows "floor_div v d = v div d"
proof -
  have nn: "\<not> v mod d < 0" using assms by (simp add: not_less)
  have "v sdiv d * d + v smod d = v" "v div d * d + v mod d = v"
    by (rule sdiv_mult_smod_eq) simp
  then have eq: "(v sdiv d - v div d) * d = v mod d - v smod d" by (simp add: algebra_simps)
  show ?thesis
  proof (cases "v mod d = 0 \<or> 0 \<le> v")
    case True
    then have "v smod d = v mod d" using assms by (simp add: smod_range)
    moreover from this eq assms have "v sdiv d = v div d" by simp
    ultimately show ?thesis
      using assms nn by (auto simp: floor_div_def Let_def)
  next
    case False
    then have r: "v smod d = v mod d - d" using assms by (simp add: smod_range)
    with eq have "(v sdiv d - v div d) * d = 1 * d" by simp
    then have "v sdiv d = v div d + 1" using assms by (simp only: mult_cancel_right) simp
    moreover have "v smod d < 0" using r pos_mod_bound [OF assms, of v] by simp
    ultimately show ?thesis using assms by (simp add: floor_div_def Let_def)
  qed
qed

lemma positive_mod_eq: "0 < m \<Longrightarrow> positive_mod v m = v mod m"
  by (auto simp: positive_mod_def Let_def smod_range not_less [symmetric] dest: pos_mod_sign [of m v])

section \<open>Occurrences\<close>

definition occurs :: "loop_schedule \<Rightarrow> int \<Rightarrow> bool" where
  "occurs s t \<longleftrightarrow> within_validity s t \<and>
     (case s_kind s of
        Once \<Rightarrow> t = s_once_at_ms s
      | Interval \<Rightarrow> t \<le> int64_max \<and> (\<exists>k \<ge> 0. t = s_anchor_ms s + k * interval_duration_ms s)
      | Period \<Rightarrow> (\<exists>day. day_matches s day \<and> t = day_time s day))"

text \<open>What a client of a schedule relies on: the next occurrence is the least one after a time.\<close>

locale occurrence_source =
  fixes nxt :: "int \<Rightarrow> int option"
    and occ :: "int \<Rightarrow> bool"
  assumes nxt_SomeD: "nxt a = Some t \<Longrightarrow> a < t \<and> occ t \<and> (\<forall>u. occ u \<and> a < u \<longrightarrow> t \<le> u)"
    and nxt_NoneD: "nxt a = None \<Longrightarrow> occ u \<Longrightarrow> u \<le> a"
begin

lemma nxt_None_iff: "nxt a = None \<longleftrightarrow> (\<forall>u. occ u \<longrightarrow> u \<le> a)"
  using nxt_SomeD nxt_NoneD by (metis not_le option.exhaust)

lemma nxt_Some_iff: "nxt a = Some t \<longleftrightarrow> a < t \<and> occ t \<and> (\<forall>u. occ u \<and> a < u \<longrightarrow> t \<le> u)"
  using nxt_SomeD nxt_NoneD by (metis antisym not_le option.exhaust)

text \<open>Between an occurrence and the next one there is no other.\<close>

lemma nxt_gap: "nxt a = Some t \<Longrightarrow> occ u \<Longrightarrow> u < t \<Longrightarrow> u \<le> a"
  using nxt_SomeD by (meson not_le)

end

definition valid_schedule :: "loop_schedule \<Rightarrow> bool" where
  "valid_schedule s \<longleftrightarrow> validate_loop_schedule s = None \<and> s_anchor_ms s \<le> int64_max"

lemma valid_interval:
  assumes "valid_schedule s" "s_kind s = Interval"
  shows "0 < interval_duration_ms s" "0 < s_anchor_ms s" "s_anchor_ms s \<le> int64_max"
proof -
  have r: "0 < s_interval_value s" "s_interval_value s \<le> 100000" "0 < s_anchor_ms s"
    using assms by (auto simp: valid_schedule_def validate_simps split: if_splits)
  let ?u = "case s_interval_unit s of Minutes \<Rightarrow> minute_ms | Hours \<Rightarrow> hour_ms | Days \<Rightarrow> day_ms"
  have u: "0 < ?u" "?u \<le> 86400000" by (cases "s_interval_unit s"; simp add: ms_defs)+
  have "100000 \<le> int64_max div ?u" by (cases "s_interval_unit s") (simp_all add: ms_defs)
  then show "0 < interval_duration_ms s"
    using r assms(2) u by (simp add: interval_duration_ms_def Let_def sdiv_nonneg)
  show "0 < s_anchor_ms s" "s_anchor_ms s \<le> int64_max"
    using r assms by (simp_all add: valid_schedule_def)
qed

lemma lower_bound_props:
  "after \<le> lower_bound s after"
  "lower_bound s after < t \<longleftrightarrow> after < t \<and> (case s_valid_from s of Some f \<Rightarrow> f \<le> t | None \<Rightarrow> True)"
  by (auto simp: lower_bound_def split: option.splits)

lemma within_iff:
  "within_validity s t \<longleftrightarrow> (case s_valid_from s of Some f \<Rightarrow> f \<le> t | None \<Rightarrow> True) \<and>
     (case s_valid_until s of Some u \<Rightarrow> t \<le> u | None \<Rightarrow> True)"
  by (auto simp: within_validity_def split: option.splits)

lemma within_down: "within_validity s u \<Longrightarrow> t \<le> u \<Longrightarrow> lower_bound s after < t \<Longrightarrow> within_validity s t"
  by (auto simp: within_iff lower_bound_props split: option.splits)

section \<open>Intervals\<close>

lemma next_interval_spec:
  assumes v: "valid_schedule s" and k: "s_kind s = Interval"
  shows "(next_interval s after = Some t \<longrightarrow> after < t \<and> occurs s t \<and> (\<forall>u. occurs s u \<and> after < u \<longrightarrow> t \<le> u)) \<and>
     (next_interval s after = None \<longrightarrow> (\<forall>u. occurs s u \<longrightarrow> u \<le> after))"
proof -
  define d where "d = interval_duration_ms s"
  define a where "a = s_anchor_ms s"
  define lo where "lo = lower_bound s after"
  have d: "0 < d" and a: "0 < a" "a \<le> int64_max"
    using valid_interval [OF v k] by (simp_all add: d_def a_def)
  have occ: "occurs s u \<longleftrightarrow> within_validity s u \<and> u \<le> int64_max \<and> (\<exists>k \<ge> 0. u = a + k * d)" for u
    by (simp add: occurs_def k a_def d_def)
  have later: "lo < u" if "occurs s u" "after < u" for u
    using that by (auto simp: occ lo_def lower_bound_props within_iff split: option.splits)
  text \<open>The first grid point after the lower bound.\<close>
  define c where "c = (if a \<le> lo then a + ((lo - a) div d + 1) * d else a)"
  have c_gt: "lo < c"
  proof (cases "a \<le> lo")
    case True
    have "lo - a < ((lo - a) div d + 1) * d"
      using int_div_less [OF d, of "lo - a" "(lo - a) div d + 1"] by simp
    with True show ?thesis by (simp add: c_def)
  qed (simp add: c_def)
  have c_grid: "\<exists>k \<ge> 0. c = a + k * d"
  proof (cases "a \<le> lo")
    case True
    then have "0 \<le> (lo - a) div d + 1" using d by (simp add: pos_imp_zdiv_nonneg_iff)
    with True show ?thesis by (auto simp: c_def)
  next
    case False
    then show ?thesis by (auto simp: c_def intro: exI [of _ 0])
  qed
  have c_least: "c \<le> u" if "lo < u" "u = a + k * d" "0 \<le> k" for u k
  proof (cases "a \<le> lo")
    case True
    have "lo - a < k * d" using that by simp
    then have "(lo - a) div d < k" using d by (simp add: int_div_less)
    then have "((lo - a) div d + 1) * d \<le> k * d" using d by (intro mult_right_mono) auto
    with True that show ?thesis by (simp add: c_def)
  next
    case False
    with that d show ?thesis by (simp add: c_def)
  qed
  have least: "c \<le> u" if "occurs s u" "after < u" for u
    using that later [OF that] c_least by (auto simp: occ)
  have le: "after \<le> lo" by (simp add: lo_def lower_bound_props)
  have code: "next_interval s after = (if c \<le> int64_max \<and> within_validity s c then Some c else None)"
  proof (cases "a \<le> lo")
    case True
    have "0 \<le> lo - a" "0 \<le> int64_max - a" using True a by simp_all
    then have "lo - a \<ge> 0 \<and> (lo - a) sdiv d = (lo - a) div d \<and> (int64_max - a) sdiv d = (int64_max - a) div d"
      using d sdiv_nonneg by blast
    moreover have "(lo - a) div d + 1 > (int64_max - a) div d \<longleftrightarrow> c > int64_max"
    proof -
      have "(int64_max - a) div d < (lo - a) div d + 1 \<longleftrightarrow> int64_max - a < ((lo - a) div d + 1) * d"
        using d by (rule int_div_less)
      then show ?thesis using True by (auto simp: c_def)
    qed
    ultimately show ?thesis
      using True d by (auto simp: next_interval_def Let_def c_def simp flip: d_def a_def lo_def)
  next
    case False
    then show ?thesis
      using d a by (auto simp: next_interval_def Let_def c_def simp flip: d_def a_def lo_def)
  qed
  show ?thesis
  proof (intro conjI impI allI)
    assume "next_interval s after = Some t"
    then have t: "t = c" "c \<le> int64_max" "within_validity s c" by (simp_all add: code split: if_splits)
    then show "after < t" "occurs s t" using c_gt le c_grid by (simp_all add: occ)
    show "t \<le> u" if "occurs s u \<and> after < u" for u using least that t by blast
  next
    fix u
    assume none: "next_interval s after = None" and u: "occurs s u"
    show "u \<le> after"
    proof (rule ccontr)
      assume "\<not> u \<le> after"
      then have cu: "c \<le> u" using least [OF u] by simp
      with u have "c \<le> int64_max" "within_validity s c"
        using within_down [of s u c after] c_gt by (auto simp: occ lo_def)
      with none show False by (simp add: code)
    qed
  qed
qed

section \<open>Days\<close>

lemma day_time_strict: "i < j \<Longrightarrow> day_time s i < day_time s j"
  by (simp add: day_time_def ms_defs)

lemma day_time_mono: "day_time s i \<le> day_time s j \<longleftrightarrow> i \<le> j"
  using day_time_strict [of i j s] day_time_strict [of j i s] by (cases i j rule: linorder_cases) auto

lemma scan_days_spec:
  assumes "sorted days"
  shows "case scan_days s lower days of
     Some t \<Rightarrow> \<exists>day\<in>set days. t = day_time s day \<and> day_matches s day \<and> lower < t \<and> within_validity s t \<and>
       (\<forall>e\<in>set days. day_matches s e \<and> lower < day_time s e \<and> within_validity s (day_time s e) \<longrightarrow> t \<le> day_time s e)
   | None \<Rightarrow> \<forall>e\<in>set days. day_matches s e \<and> lower < day_time s e \<longrightarrow> \<not> within_validity s (day_time s e)"
  using assms
proof (induction days)
  case (Cons day days)
  have IH: "case scan_days s lower days of
     Some t \<Rightarrow> \<exists>day\<in>set days. t = day_time s day \<and> day_matches s day \<and> lower < t \<and> within_validity s t \<and>
       (\<forall>e\<in>set days. day_matches s e \<and> lower < day_time s e \<and> within_validity s (day_time s e) \<longrightarrow> t \<le> day_time s e)
   | None \<Rightarrow> \<forall>e\<in>set days. day_matches s e \<and> lower < day_time s e \<longrightarrow> \<not> within_validity s (day_time s e)"
    using Cons by simp
  show ?case
  proof (cases "\<not> day_matches s day \<or> day_time s day \<le> lower")
    case True
    then have "scan_days s lower (day # days) = scan_days s lower days" by (auto simp: Let_def)
    with IH True show ?thesis by (cases "scan_days s lower days") auto
  next
    case False
    have mono: "day_time s day \<le> day_time s e" if "e \<in> set days" for e
      using Cons.prems that by (simp add: day_time_mono)
    show ?thesis
    proof (cases "case s_valid_until s of Some u \<Rightarrow> day_time s day > u | None \<Rightarrow> False")
      case True
      then obtain u where u: "s_valid_until s = Some u" "u < day_time s day" by (auto split: option.splits)
      then have "\<not> within_validity s (day_time s e)" if "e \<in> insert day (set days)" for e
        using mono that by (fastforce simp: within_iff)
      with False True show ?thesis by (auto simp: Let_def)
    next
      case until: False
      show ?thesis
      proof (cases "within_validity s (day_time s day)")
        case True
        with False until mono show ?thesis by (auto simp: Let_def)
      next
        case no: False
        then have "scan_days s lower (day # days) = scan_days s lower days" using False until by (auto simp: Let_def)
        with IH no show ?thesis by (cases "scan_days s lower days") auto
      qed
    qed
  qed
qed simp

lemma week_has_match:
  assumes v: "valid_schedule s" and k: "s_kind s = Period"
  shows "\<exists>i \<in> {1..7}. day_matches s (day + i)"
proof -
  have w: "\<exists>i \<in> {1..7}. (day + i + 4) mod 7 = r" if "0 \<le> r" "r \<le> 6" for r :: int
  proof -
    define i where "i = (r - (day + 5)) mod 7 + 1"
    have "(day + i + 4) mod 7 = ((day + 5) + (r - (day + 5)) mod 7) mod 7" by (simp add: i_def algebra_simps)
    also have "\<dots> = r mod 7" by (simp add: mod_simps)
    also have "\<dots> = r" using that by simp
    finally have "(day + i + 4) mod 7 = r" .
    moreover have "0 \<le> (r - (day + 5)) mod 7 \<and> (r - (day + 5)) mod 7 < 7" by simp
    then have "i \<in> {1..7}" unfolding i_def by auto
    ultimately show ?thesis by blast
  qed
  show ?thesis
  proof (cases "s_period s")
    case Daily
    then show ?thesis by (auto simp: day_matches_def intro: bexI [of _ 1])
  next
    case Workdays
    from w [of 1] obtain i where i: "i \<in> {1..7}" "(day + i + 4) mod 7 = 1" by auto
    with Workdays have "day_matches s (day + i)" by (simp add: day_matches_def Let_def positive_mod_eq)
    with i(1) show ?thesis by blast
  next
    case Weekly
    with v k have ds: "s_weekdays s \<noteq> []" "\<forall>d\<in>set (s_weekdays s). 0 \<le> d \<and> d \<le> 6"
      by (auto simp: valid_schedule_def validate_simps split: if_splits)
    then obtain d where d: "d \<in> set (s_weekdays s)" "0 \<le> d" "d \<le> 6" by (cases "s_weekdays s") auto
    from w [OF d(2,3)] obtain i where "i \<in> {1..7}" "(day + i + 4) mod 7 = d" by blast
    moreover from this d Weekly have "day_matches s (day + i)"
      by (simp add: day_matches_def Let_def positive_mod_eq)
    ultimately show ?thesis by blast
  qed
qed

lemma next_period_spec:
  assumes v: "valid_schedule s" and k: "s_kind s = Period"
  shows "(next_period s after = Some t \<longrightarrow> after < t \<and> occurs s t \<and> (\<forall>u. occurs s u \<and> after < u \<longrightarrow> t \<le> u)) \<and>
     (next_period s after = None \<longrightarrow> (\<forall>u. occurs s u \<longrightarrow> u \<le> after))"
proof -
  define lo where "lo = lower_bound s after"
  define start where "start = (lo + offset_ms s) div day_ms"
  have day: "0 < day_ms" by (simp add: ms_defs)
  have mins: "0 \<le> minute_of_day s" "minute_of_day s < day_ms"
    using v k by (auto simp: valid_schedule_def validate_simps minute_of_day_def ms_defs split: if_splits)
  have code: "next_period s after = scan_days s lo (map (\<lambda>delta. start + delta) [0..14])"
    using day by (simp add: next_period_def Let_def floor_div_eq flip: lo_def start_def)
  have days: "set (map (\<lambda>delta. start + delta) [0..14]) = {start..start + 14}"
    by (auto simp: image_iff intro: bexI [of _ "_ - start"])
  have srt: "sorted (map (\<lambda>delta. start + delta) [0..14])"
    by (simp add: sorted_map sorted_wrt_upto)
  have le: "after \<le> lo" by (simp add: lo_def lower_bound_props)
  have from_start: "start \<le> e" if "lo < day_time s e" for e
  proof (rule ccontr)
    assume "\<not> start \<le> e"
    then have "e + 1 \<le> start" by simp
    then have "(e + 1) * day_ms \<le> start * day_ms" using day by (intro mult_right_mono) auto
    moreover have "start * day_ms \<le> lo + offset_ms s"
      using int_div_less [OF day, of "lo + offset_ms s" start] by (simp add: start_def not_less [symmetric])
    ultimately show False using that mins by (simp add: day_time_def distrib_right)
  qed
  have after_start: "lo < day_time s e" if "start < e" for e
  proof -
    have "lo + offset_ms s < e * day_ms"
      using int_div_less [OF day, of "lo + offset_ms s" e] that by (simp add: start_def)
    then show ?thesis using mins by (simp add: day_time_def)
  qed
  obtain i where i: "i \<in> {1..7}" "day_matches s (start + i)" using week_has_match [OF v k, of start] by blast
  have later: "lo < u" if "occurs s u" "after < u" for u
    using that by (auto simp: occurs_def lo_def lower_bound_props within_iff split: option.splits)
  note spec = scan_days_spec [OF srt, of s lo, folded code, unfolded days]
  show ?thesis
  proof (intro conjI impI allI)
    assume some: "next_period s after = Some t"
    then obtain d where d: "d \<in> {start..start + 14}" "t = day_time s d" "day_matches s d" "lo < t" "within_validity s t"
      and least: "\<forall>e\<in>{start..start + 14}. day_matches s e \<and> lo < day_time s e \<and> within_validity s (day_time s e) \<longrightarrow> t \<le> day_time s e"
      using spec by auto
    show "after < t" using d le by simp
    show "occurs s t" using d k by (auto simp: occurs_def)
    show "t \<le> u" if u: "occurs s u \<and> after < u" for u
    proof -
      obtain e where e: "day_matches s e" "u = day_time s e" using u k by (auto simp: occurs_def)
      have ge: "start \<le> e" using from_start later u e by blast
      show ?thesis
      proof (cases "e \<le> start + 14")
        case True
        with ge e u later least show ?thesis by (auto simp: occurs_def)
      next
        case False
        with d(1) have "d \<le> e" by simp
        with d(2) e(2) show ?thesis by (simp add: day_time_mono)
      qed
    qed
  next
    fix u
    assume none: "next_period s after = None" and u: "occurs s u"
    show "u \<le> after"
    proof (rule ccontr)
      assume "\<not> u \<le> after"
      then have au: "after < u" by simp
      obtain e where e: "day_matches s e" "u = day_time s e" using u k by (auto simp: occurs_def)
      have ge: "start \<le> e" using from_start later [OF u au] e by blast
      have "\<exists>f\<in>{start..start + 14}. day_matches s f \<and> lo < day_time s f \<and> day_time s f \<le> u"
      proof (cases "e \<le> start + 14")
        case True
        with ge e later [OF u au] show ?thesis by auto
      next
        case False
        with i have "start + i \<in> {start..start + 14}" "start + i \<le> e" "start < start + i" by auto
        with i e after_start show ?thesis by (auto simp: day_time_mono)
      qed
      then obtain f where f: "f \<in> {start..start + 14}" "day_matches s f" "lo < day_time s f" "day_time s f \<le> u" by blast
      have "within_validity s (day_time s f)"
        using within_down [of s u "day_time s f" after] u f by (simp add: occurs_def lo_def)
      with none spec f show False by auto
    qed
  qed
qed

lemma next_once_spec:
  assumes "s_kind s = Once"
  shows "(next_occurrence_ms s after = Some t \<longrightarrow> after < t \<and> occurs s t \<and> (\<forall>u. occurs s u \<and> after < u \<longrightarrow> t \<le> u)) \<and>
     (next_occurrence_ms s after = None \<longrightarrow> (\<forall>u. occurs s u \<longrightarrow> u \<le> after))"
  using assms by (auto simp: next_occurrence_ms_def occurs_def)

lemma next_occurrence_spec:
  assumes "valid_schedule s"
  shows "(next_occurrence_ms s after = Some t \<longrightarrow> after < t \<and> occurs s t \<and> (\<forall>u. occurs s u \<and> after < u \<longrightarrow> t \<le> u)) \<and>
     (next_occurrence_ms s after = None \<longrightarrow> (\<forall>u. occurs s u \<longrightarrow> u \<le> after))"
proof (cases "s_kind s")
  case Period
  with next_period_spec [OF assms] show ?thesis by (simp add: next_occurrence_ms_def)
next
  case Interval
  with next_interval_spec [OF assms] show ?thesis by (simp add: next_occurrence_ms_def)
next
  case Once
  with next_once_spec show ?thesis by blast
qed

definition valid_next :: "loop_schedule \<Rightarrow> int \<Rightarrow> int option" where
  "valid_next s a = (if valid_schedule s then next_occurrence_ms s a else None)"

definition valid_occurs :: "loop_schedule \<Rightarrow> int \<Rightarrow> bool" where
  "valid_occurs s t \<longleftrightarrow> valid_schedule s \<and> occurs s t"

interpretation schedule: occurrence_source "valid_next s" "valid_occurs s" for s
proof
  show "a < t \<and> valid_occurs s t \<and> (\<forall>u. valid_occurs s u \<and> a < u \<longrightarrow> t \<le> u)" if "valid_next s a = Some t" for a t
    using that next_occurrence_spec [of s a t] by (auto simp: valid_next_def valid_occurs_def split: if_splits)
  show "u \<le> a" if "valid_next s a = None" "valid_occurs s u" for a u
    using that next_occurrence_spec [of s a] by (auto simp: valid_next_def valid_occurs_def split: if_splits)
qed

section \<open>Progress\<close>

lemma scan_days_gt: "scan_days s lower days = Some t \<Longrightarrow> lower < t"
  by (induction days) (auto simp: Let_def split: if_splits)

lemma next_interval_gt: "next_interval s after = Some t \<Longrightarrow> after < t"
proof -
  define d where "d = interval_duration_ms s"
  define lo where "lo = lower_bound s after"
  define a where "a = s_anchor_ms s"
  assume n: "next_interval s after = Some t"
  then have d: "0 < d" by (auto simp: next_interval_def Let_def d_def split: if_splits)
  have le: "after \<le> lo" by (simp add: lo_def lower_bound_props)
  show ?thesis
  proof (cases "a \<le> lo")
    case True
    then have "t = a + ((lo - a) div d + 1) * d"
      using n d sdiv_nonneg [of "lo - a" d]
      by (auto simp: next_interval_def Let_def simp flip: d_def lo_def a_def split: if_splits)
    moreover have "lo - a < ((lo - a) div d + 1) * d"
      using int_div_less [OF d, of "lo - a" "(lo - a) div d + 1"] by simp
    ultimately show ?thesis using le by simp
  next
    case False
    then have "t = a" using n d by (auto simp: next_interval_def Let_def simp flip: d_def lo_def a_def split: if_splits)
    with False le show ?thesis by simp
  qed
qed

lemma next_occurrence_gt: "next_occurrence_ms s after = Some t \<Longrightarrow> after < t"
  using scan_days_gt next_interval_gt lower_bound_props(1) [of after s]
  by (fastforce simp: next_occurrence_ms_def next_period_def Let_def split: schedule_kind.splits if_splits)

section \<open>Conflicts\<close>

text \<open>The walk over two schedules, always advancing the one whose minute is earlier.\<close>

function conflict_walk :: "loop_schedule \<Rightarrow> loop_schedule \<Rightarrow> int \<Rightarrow> int option \<Rightarrow> int option \<Rightarrow> int option" where
  "conflict_walk sl sr end_ms left right =
     (case (left, right) of
        (Some l, Some r) \<Rightarrow>
          if l \<le> end_ms \<and> r \<le> end_ms then
            (if minute_bucket l = minute_bucket r then Some (max l r)
             else if minute_bucket l < minute_bucket r
             then conflict_walk sl sr end_ms (next_occurrence_ms sl l) right
             else conflict_walk sl sr end_ms left (next_occurrence_ms sr r))
          else None
      | _ \<Rightarrow> None)"
  by pat_completeness auto
termination
proof (relation "measure (\<lambda>(sl, sr, e, l, r).
    (case l of Some x \<Rightarrow> nat (e - x + 2) | None \<Rightarrow> 0) + (case r of Some x \<Rightarrow> nat (e - x + 2) | None \<Rightarrow> 0))", goal_cases)
  case (2 sl sr e left right x y l r)
  then show ?case
    using next_occurrence_gt [of sl l] by (cases "next_occurrence_ms sl l") auto
next
  case (3 sl sr e left right x y l r)
  then show ?case
    using next_occurrence_gt [of sr r] by (cases "next_occurrence_ms sr r") auto
qed simp

declare conflict_walk.simps [simp del]

record schedule_conflict =
  conflict_id :: string
  conflict_name :: string
  conflict_at :: int

definition competes :: "loop_definition \<Rightarrow> loop_definition \<Rightarrow> bool" where
  "competes candidate other \<longleftrightarrow>
     \<not> (\<not> l_enabled other \<or> (l_id candidate \<noteq> [] \<and> l_id candidate = l_id other) \<or>
        workspace_key other \<noteq> workspace_key candidate)"

fun first_conflict :: "loop_definition \<Rightarrow> int \<Rightarrow> int \<Rightarrow> loop_definition list \<Rightarrow> schedule_conflict option" where
  "first_conflict candidate now end_ms [] = None"
| "first_conflict candidate now end_ms (other # rest) =
     (if \<not> competes candidate other then first_conflict candidate now end_ms rest
      else case conflict_walk (l_schedule candidate) (l_schedule other) end_ms
             (next_occurrence_ms (l_schedule candidate) (now - 1))
             (next_occurrence_ms (l_schedule other) (now - 1)) of
          Some t \<Rightarrow> Some \<lparr>conflict_id = l_id other, conflict_name = l_name other, conflict_at = t\<rparr>
        | None \<Rightarrow> first_conflict candidate now end_ms rest)"

definition find_schedule_conflict ::
  "loop_definition \<Rightarrow> loop_definition list \<Rightarrow> int \<Rightarrow> int \<Rightarrow> schedule_conflict option" where
  "find_schedule_conflict candidate existing now horizon =
     (if workspace_key candidate = [] \<or> \<not> l_enabled candidate \<or> horizon \<le> 0 then None
      else let end_ms = (if now > int64_max - horizon then int64_max else now + horizon)
        in first_conflict candidate now end_ms existing)"

lemma minute_bucket_mono: "a \<le> b \<Longrightarrow> minute_bucket a \<le> minute_bucket b"
  by (simp add: minute_bucket_def floor_div_eq ms_defs zdiv_mono1)

text \<open>Two occurrences of the two schedules in the same minute of the window.\<close>

definition collide :: "loop_schedule \<Rightarrow> loop_schedule \<Rightarrow> int \<Rightarrow> int \<Rightarrow> int \<Rightarrow> int \<Rightarrow> bool" where
  "collide sl sr now end_ms l r \<longleftrightarrow> occurs sl l \<and> occurs sr r \<and> now \<le> l \<and> now \<le> r \<and>
     l \<le> end_ms \<and> r \<le> end_ms \<and> minute_bucket l = minute_bucket r"

definition at_or_before :: "int option \<Rightarrow> int \<Rightarrow> bool" where
  "at_or_before x t \<longleftrightarrow> (\<exists>a. x = Some a \<and> a \<le> t)"

lemma next_at_or_before:
  "valid_schedule s \<Longrightarrow> occurs s u \<Longrightarrow> a < u \<Longrightarrow> at_or_before (next_occurrence_ms s a) u"
  using next_occurrence_spec [of s a] by (cases "next_occurrence_ms s a") (force simp: at_or_before_def)+

lemma conflict_walk_spec:
  assumes "valid_schedule sl" "valid_schedule sr"
    and "\<And>l. left = Some l \<Longrightarrow> occurs sl l \<and> now \<le> l" "\<And>r. right = Some r \<Longrightarrow> occurs sr r \<and> now \<le> r"
    and "\<And>l r. collide sl sr now end_ms l r \<Longrightarrow> at_or_before left l \<and> at_or_before right r"
  shows "case conflict_walk sl sr end_ms left right of
     Some t \<Rightarrow> \<exists>l r. collide sl sr now end_ms l r \<and> t = max l r
   | None \<Rightarrow> \<forall>l r. \<not> collide sl sr now end_ms l r"
  using assms
proof (induction sl sr end_ms left right rule: conflict_walk.induct)
  case (1 sl sr end_ms left right)
  show ?case
  proof (cases "\<exists>l r. left = Some l \<and> right = Some r \<and> l \<le> end_ms \<and> r \<le> end_ms")
    case False
    then have none: "conflict_walk sl sr end_ms left right = None"
      by (subst conflict_walk.simps) (auto split: option.splits)
    have "\<not> collide sl sr now end_ms l r" for l r
    proof
      assume c: "collide sl sr now end_ms l r"
      with 1(7) have "at_or_before left l" "at_or_before right r" by blast+
      then obtain a b where "left = Some a" "a \<le> l" "right = Some b" "b \<le> r"
        unfolding at_or_before_def by blast
      moreover have "l \<le> end_ms" "r \<le> end_ms" using c by (simp_all add: collide_def)
      ultimately have "left = Some a \<and> right = Some b \<and> a \<le> end_ms \<and> b \<le> end_ms" by simp
      with False show False by blast
    qed
    with none show ?thesis by simp
  next
    case True
    then obtain l r where lr: "left = Some l" "right = Some r" "l \<le> end_ms" "r \<le> end_ms" by blast
    have occ: "occurs sl l" "now \<le> l" "occurs sr r" "now \<le> r" using 1(5,6) lr by auto
    consider "minute_bucket l = minute_bucket r" | "minute_bucket l < minute_bucket r" | "minute_bucket r < minute_bucket l"
      by linarith
    then show ?thesis
    proof cases
      case 1
      then have "conflict_walk sl sr end_ms left right = Some (max l r)"
        using lr by (subst conflict_walk.simps) simp
      moreover have "collide sl sr now end_ms l r" using 1 lr occ by (simp add: collide_def)
      ultimately show ?thesis by auto
    next
      case 2
      then have eq: "conflict_walk sl sr end_ms left right = conflict_walk sl sr end_ms (next_occurrence_ms sl l) right"
        using lr by (subst conflict_walk.simps) simp
      show ?thesis unfolding eq
      proof (rule 1(1) [OF refl lr(1,2)])
        show "l \<le> end_ms \<and> r \<le> end_ms" using lr by simp
        show "minute_bucket l \<noteq> minute_bucket r" "minute_bucket l < minute_bucket r" using 2 by simp_all
        show "occurs sl x \<and> now \<le> x" if "next_occurrence_ms sl l = Some x" for x
          using next_occurrence_spec [OF 1(3), of l x] that occ by auto
        show "occurs sr x \<and> now \<le> x" if "right = Some x" for x using 1(6) that .
        show "at_or_before (next_occurrence_ms sl l) x \<and> at_or_before right y" if c: "collide sl sr now end_ms x y" for x y
        proof -
          from 1(7) [OF c] lr have "l \<le> x" "r \<le> y" "at_or_before right y" by (auto simp: at_or_before_def)
          moreover have "minute_bucket r \<le> minute_bucket x"
            using minute_bucket_mono [OF \<open>r \<le> y\<close>] c by (simp add: collide_def)
          then have "x \<noteq> l" using 2 by auto
          ultimately show ?thesis using next_at_or_before [OF 1(3), of x l] c by (simp add: collide_def)
        qed
      qed (use 1 in auto)
    next
      case 3
      then have eq: "conflict_walk sl sr end_ms left right = conflict_walk sl sr end_ms left (next_occurrence_ms sr r)"
        using lr by (subst conflict_walk.simps) simp
      show ?thesis unfolding eq
      proof (rule 1(2) [OF refl lr(1,2)])
        show "l \<le> end_ms \<and> r \<le> end_ms" using lr by simp
        show "minute_bucket l \<noteq> minute_bucket r" "\<not> minute_bucket l < minute_bucket r" using 3 by simp_all
        show "occurs sl x \<and> now \<le> x" if "left = Some x" for x using 1(5) that .
        show "occurs sr x \<and> now \<le> x" if "next_occurrence_ms sr r = Some x" for x
          using next_occurrence_spec [OF 1(4), of r x] that occ by auto
        show "at_or_before left x \<and> at_or_before (next_occurrence_ms sr r) y" if c: "collide sl sr now end_ms x y" for x y
        proof -
          from 1(7) [OF c] lr have "l \<le> x" "r \<le> y" "at_or_before left x" by (auto simp: at_or_before_def)
          moreover have "minute_bucket l \<le> minute_bucket y"
            using minute_bucket_mono [OF \<open>l \<le> x\<close>] c by (simp add: collide_def)
          then have "y \<noteq> r" using 3 by auto
          ultimately show ?thesis using next_at_or_before [OF 1(4), of y r] c by (simp add: collide_def)
        qed
      qed (use 1 in auto)
    qed
  qed
qed

lemma conflict_start:
  assumes "valid_schedule sl" "valid_schedule sr"
  shows "case conflict_walk sl sr end_ms (next_occurrence_ms sl (now - 1)) (next_occurrence_ms sr (now - 1)) of
     Some t \<Rightarrow> \<exists>l r. collide sl sr now end_ms l r \<and> t = max l r
   | None \<Rightarrow> \<forall>l r. \<not> collide sl sr now end_ms l r"
proof (rule conflict_walk_spec [OF assms])
  show "occurs sl l \<and> now \<le> l" if "next_occurrence_ms sl (now - 1) = Some l" for l
    using next_occurrence_spec [OF assms(1), of "now - 1" l] that by auto
  show "occurs sr r \<and> now \<le> r" if "next_occurrence_ms sr (now - 1) = Some r" for r
    using next_occurrence_spec [OF assms(2), of "now - 1" r] that by auto
  show "at_or_before (next_occurrence_ms sl (now - 1)) l \<and> at_or_before (next_occurrence_ms sr (now - 1)) r"
    if "collide sl sr now end_ms l r" for l r
    using that next_at_or_before [OF assms(1), of l "now - 1"] next_at_or_before [OF assms(2), of r "now - 1"]
    by (simp add: collide_def)
qed

section \<open>Properties\<close>

text \<open>C40: For a valid schedule the next run is the least occurrence strictly after the given time and
  inside the validity window: none is skipped, and when there is no next run no occurrence is left.\<close>

theorem next_run_is_least:
  assumes "valid_schedule s"
  shows "next_occurrence_ms s after = Some t \<longleftrightarrow> after < t \<and> occurs s t \<and> (\<forall>u. occurs s u \<and> after < u \<longrightarrow> t \<le> u)"
  using schedule.nxt_Some_iff [of s after t] assms by (simp add: valid_next_def valid_occurs_def)

definition weekday_schedule :: loop_schedule where
  "weekday_schedule = default_schedule\<lparr>s_period := Workdays, s_tz_offset := 480\<rparr>"

definition hourly_schedule :: loop_schedule where
  "hourly_schedule = default_schedule\<lparr>s_kind := Interval, s_anchor_ms := 3600000\<rparr>"

theorem next_run_is_least_witness:
  "next_occurrence_ms weekday_schedule 0 = Some 3600000 \<and> occurs weekday_schedule 3600000 \<and>
   {u. occurs weekday_schedule u \<and> 0 < u \<and> u < 3600000} = {}"
proof -
  have v: "valid_schedule weekday_schedule"
    by (simp add: valid_schedule_def validate_loop_schedule_def weekday_schedule_def default_schedule_def)
  have "next_occurrence_ms weekday_schedule 0 = Some 3600000" by code_simp
  with next_run_is_least [OF v, of 0 3600000] show ?thesis by (auto simp: not_le [symmetric])
qed

text \<open>The conflict check is exact: two valid schedules that compete for one workspace are reported
  exactly when they have occurrences in the same minute of the horizon, and the time reported is the
  later of two such occurrences.\<close>

lemma conflict_check_exact:
  assumes "valid_schedule (l_schedule candidate)" "\<forall>other\<in>set existing. valid_schedule (l_schedule other)"
    and "workspace_key candidate \<noteq> []" "l_enabled candidate" "horizon > 0" "now + horizon \<le> int64_max"
  shows "case find_schedule_conflict candidate existing now horizon of
     Some c \<Rightarrow> \<exists>other\<in>set existing. competes candidate other \<and> conflict_id c = l_id other \<and>
       (\<exists>l r. collide (l_schedule candidate) (l_schedule other) now (now + horizon) l r \<and> conflict_at c = max l r)
   | None \<Rightarrow> \<forall>other\<in>set existing. competes candidate other \<longrightarrow>
       (\<forall>l r. \<not> collide (l_schedule candidate) (l_schedule other) now (now + horizon) l r)"
proof -
  have "case first_conflict candidate now e existing of
     Some c \<Rightarrow> \<exists>other\<in>set existing. competes candidate other \<and> conflict_id c = l_id other \<and>
       (\<exists>l r. collide (l_schedule candidate) (l_schedule other) now e l r \<and> conflict_at c = max l r)
   | None \<Rightarrow> \<forall>other\<in>set existing. competes candidate other \<longrightarrow>
       (\<forall>l r. \<not> collide (l_schedule candidate) (l_schedule other) now e l r)" for e
    using assms(2)
  proof (induction existing)
    case (Cons other rest)
    then have IH: "case first_conflict candidate now e rest of
       Some c \<Rightarrow> \<exists>other\<in>set rest. competes candidate other \<and> conflict_id c = l_id other \<and>
         (\<exists>l r. collide (l_schedule candidate) (l_schedule other) now e l r \<and> conflict_at c = max l r)
     | None \<Rightarrow> \<forall>other\<in>set rest. competes candidate other \<longrightarrow>
         (\<forall>l r. \<not> collide (l_schedule candidate) (l_schedule other) now e l r)"
      by simp
    note walk = conflict_start [OF assms(1), where sr = "l_schedule other" and end_ms = e and now = now]
    show ?case
    proof (cases "conflict_walk (l_schedule candidate) (l_schedule other) e
             (next_occurrence_ms (l_schedule candidate) (now - 1)) (next_occurrence_ms (l_schedule other) (now - 1))")
      case None
      with IH walk Cons.prems show ?thesis
        by (cases "first_conflict candidate now e rest") auto
    next
      case (Some t)
      show ?thesis
      proof (cases "competes candidate other")
        case True
        from walk Some Cons.prems obtain l r where
          "collide (l_schedule candidate) (l_schedule other) now e l r" "t = max l r" by auto
        with True Some show ?thesis by auto
      next
        case False
        with IH show ?thesis by (cases "first_conflict candidate now e rest") auto
      qed
    qed
  qed simp
  with assms(3-6) show ?thesis by (simp add: find_schedule_conflict_def Let_def)
qed

definition loop_at :: "string \<Rightarrow> loop_schedule \<Rightarrow> loop_definition" where
  "loop_at i s = default_loop\<lparr>l_id := i, l_workspace_hash := ''w'', l_schedule := s\<rparr>"

lemma conflict_check_exact_witness:
  "\<exists>c. find_schedule_conflict (loop_at ''a'' weekday_schedule) [loop_at ''b'' hourly_schedule] 0 7200000 = Some c \<and>
     (\<exists>l r. collide weekday_schedule hourly_schedule 0 7200000 l r \<and> conflict_at c = max l r)"
proof -
  have v: "valid_schedule weekday_schedule" "valid_schedule hourly_schedule"
    by (simp_all add: valid_schedule_def validate_loop_schedule_def weekday_schedule_def hourly_schedule_def
        default_schedule_def)
  have f: "find_schedule_conflict (loop_at ''a'' weekday_schedule) [loop_at ''b'' hourly_schedule] 0 7200000 =
      Some \<lparr>conflict_id = ''b'', conflict_name = [], conflict_at = 3600000\<rparr>"
    by code_simp
  show ?thesis
    using conflict_check_exact [of "loop_at ''a'' weekday_schedule" "[loop_at ''b'' hourly_schedule]" 7200000 0] v f
    by (simp add: loop_at_def default_loop_def workspace_key_def)
qed

text \<open>The catch-up of a valid interval schedule lands on the grid: the last missed run is the
  latest grid point not after now, the count is the number of grid points from the first due one to
  it, and the next run, when there is one, is the first grid point after now.\<close>

lemma interval_catch_up:
  assumes "valid_schedule s" "s_kind s = Interval" "first_due \<le> now"
  shows "\<exists>n \<ge> 0. missed_count (advance_missed_occurrences s first_due now) = n + 1 \<and>
     last_missed (advance_missed_occurrences s first_due now) = Some (first_due + n * interval_duration_ms s) \<and>
     first_due + n * interval_duration_ms s \<le> now \<and> now < first_due + (n + 1) * interval_duration_ms s \<and>
     (\<forall>t. next_run (advance_missed_occurrences s first_due now) = Some t \<longrightarrow>
        t = first_due + (n + 1) * interval_duration_ms s \<and> within_validity s t)"
proof -
  define d where "d = interval_duration_ms s"
  define n where "n = (now - first_due) div d"
  have d: "0 < d" using valid_interval(1) [OF assms(1,2)] by (simp add: d_def)
  have n: "0 \<le> n" "(now - first_due) sdiv d = n"
    using assms(3) d by (simp_all add: n_def pos_imp_zdiv_nonneg_iff sdiv_nonneg)
  have b: "first_due + n * d \<le> now" "now < first_due + (n + 1) * d"
    using int_div_less [OF d, of "now - first_due" n] int_div_less [OF d, of "now - first_due" "n + 1"]
    by (simp_all add: n_def)
  have code: "advance_missed_occurrences s first_due now =
      \<lparr>missed_count = n + 1, last_missed = Some (first_due + n * d),
       next_run = (if within_validity s (first_due + n * d + d) then Some (first_due + n * d + d) else None)\<rparr>"
    using assms(2,3) d n(2) by (simp add: advance_missed_occurrences_def Let_def flip: d_def)
  show ?thesis
    unfolding code d_def [symmetric] using n(1) b by (intro exI [of _ n]) (auto simp: algebra_simps)
qed

lemma interval_catch_up_witness:
  "\<exists>n \<ge> 0. missed_count (advance_missed_occurrences hourly_schedule 3600000 9000000) = n + 1"
  using interval_catch_up [of hourly_schedule 3600000 9000000]
  by (auto simp: valid_schedule_def validate_loop_schedule_def hourly_schedule_def default_schedule_def)

text \<open>The closed form counts grid points beyond the end of the validity window: a schedule whose
  window has one occurrence is reported to have missed ten.\<close>

lemma catch_up_counts_expired:
  "missed_count (advance_missed_occurrences (hourly_schedule\<lparr>s_valid_until := Some 3600000\<rparr>) 3600000 36000000) = 10 \<and>
   {t. occurs (hourly_schedule\<lparr>s_valid_until := Some 3600000\<rparr>) t} = {3600000}"
proof
  let ?s = "hourly_schedule\<lparr>s_valid_until := Some 3600000\<rparr>"
  show "missed_count (advance_missed_occurrences ?s 3600000 36000000) = 10" by code_simp
  have d: "interval_duration_ms ?s = 3600000" by code_simp
  have "t = 3600000" if o: "occurs ?s t" for t
  proof -
    have "within_validity ?s t" using o by (simp add: occurs_def hourly_schedule_def)
    then have "t \<le> 3600000" by (simp add: within_validity_def hourly_schedule_def default_schedule_def split: if_splits)
    moreover have "3600000 \<le> t" using o d by (auto simp: occurs_def hourly_schedule_def default_schedule_def)
    ultimately show ?thesis by simp
  qed
  moreover have "occurs ?s 3600000"
    by (auto simp: occurs_def within_validity_def hourly_schedule_def default_schedule_def intro: exI [of _ 0])
  ultimately show "{t. occurs ?s t} = {3600000}" by blast
qed

end
