(* ===== verification/HistoryRecovery.thy ===== *)
theory HistoryRecovery
  imports Json
begin

text \<open>
  \<open>session/session_history_recovery.cpp\<close>: the repair of the history that is sent to the model
  provider.  A provider refuses a history in which a tool call has no result, a result has no call, or
  a call is repeated; a session that was interrupted can hold all three.  The model is the loop of
  \<open>recover_provider_history\<close> over the messages, with its local sets as a record.  The specification is
  the provider's protocol, written as a checker that reads a history once (\<open>scan\<close>).
\<close>

section \<open>Messages\<close>

record chat_message =
  role :: string
  content :: string
  content_parts :: json
  tool_calls :: json
  tool_call_id :: string
  reasoning_content :: string
  uuid :: string
  subtype :: string
  timestamp :: string
  is_meta :: bool
  is_compact_summary :: bool
  metadata :: json
  display_override :: string

definition empty_message :: chat_message where
  "empty_message = \<lparr>role = [], content = [], content_parts = JNull, tool_calls = JNull, tool_call_id = [],
     reasoning_content = [], uuid = [], subtype = [], timestamp = [], is_meta = False,
     is_compact_summary = False, metadata = JNull, display_override = []\<rparr>"

record recovery_stats =
  malformed_calls :: nat
  duplicate_calls :: nat
  synthesized_results :: nat
  standalone_results :: nat
  unexpected_results :: nat
  duplicate_results :: nat
  empty_assistants :: nat

definition no_stats :: recovery_stats where
  "no_stats = \<lparr>malformed_calls = 0, duplicate_calls = 0, synthesized_results = 0, standalone_results = 0,
     unexpected_results = 0, duplicate_results = 0, empty_assistants = 0\<rparr>"

definition stats_changed :: "recovery_stats \<Rightarrow> bool" where
  "stats_changed s \<longleftrightarrow> malformed_calls s > 0 \<or> duplicate_calls s > 0 \<or> synthesized_results s > 0 \<or>
     standalone_results s > 0 \<or> unexpected_results s > 0 \<or> duplicate_results s > 0 \<or> empty_assistants s > 0"

definition interrupted_text :: string where
  "interrupted_text = ''[Interrupted] ACECode recovered this session after the tool call ended '' @
     ''without a persisted result. The execution outcome is unknown. Inspect '' @
     ''the current state before deciding whether to retry; do not assume success '' @
     ''or failure.''"

definition has_assistant_content :: "chat_message \<Rightarrow> bool" where
  "has_assistant_content m \<longleftrightarrow> content m \<noteq> [] \<or> reasoning_content m \<noteq> [] \<or>
     (case content_parts m of JArr ps \<Rightarrow> ps \<noteq> [] | _ \<Rightarrow> False)"

definition valid_tool_call_id :: "json \<Rightarrow> string option" where
  "valid_tool_call_id call =
     (case string_field call ''id'' of
        None \<Rightarrow> None
      | Some i \<Rightarrow>
          if i = [] then None
          else (case field call ''function'' of
             Some (JObj f) \<Rightarrow>
               (case string_field (JObj f) ''name'' of
                  Some n \<Rightarrow> if n = [] then None else Some i
                | None \<Rightarrow> None)
           | _ \<Rightarrow> None))"

definition interrupted_tool_result :: "string \<Rightarrow> chat_message" where
  "interrupted_tool_result i = empty_message\<lparr>role := ''tool'', tool_call_id := i, content := interrupted_text,
     metadata := JObj [(''session_recovery'',
       JObj [(''version'', JInt 1), (''kind'', JStr ''missing_tool_result''), (''outcome'', JStr ''unknown'')])]\<rparr>"

section \<open>The recovery loop\<close>

record recovery =
  recovered :: "chat_message list"
  rstats :: recovery_stats
  pending_order :: "string list"
  pending_ids :: "string set"
  seen_call_ids :: "string set"
  seen_result_ids :: "string set"

definition recovery_start :: recovery where
  "recovery_start = \<lparr>recovered = [], rstats = no_stats, pending_order = [], pending_ids = {},
     seen_call_ids = {}, seen_result_ids = {}\<rparr>"

definition push_message :: "chat_message \<Rightarrow> recovery \<Rightarrow> recovery" where
  "push_message m st = st\<lparr>recovered := recovered st @ [m]\<rparr>"

definition bump :: "(recovery_stats \<Rightarrow> recovery_stats) \<Rightarrow> recovery \<Rightarrow> recovery" where
  "bump f st = st\<lparr>rstats := f (rstats st)\<rparr>"

definition flush_one :: "string \<Rightarrow> recovery \<Rightarrow> recovery" where
  "flush_one i st =
     (if i \<notin> pending_ids st then st
      else bump (\<lambda>s. s\<lparr>synthesized_results := synthesized_results s + 1\<rparr>)
        ((push_message (interrupted_tool_result i) st)\<lparr>seen_result_ids := insert i (seen_result_ids st)\<rparr>))"

definition flush_missing_results :: "recovery \<Rightarrow> recovery" where
  "flush_missing_results st =
     (fold flush_one (pending_order st) st)\<lparr>pending_order := [], pending_ids := {}\<rparr>"

definition keep_call :: "json \<Rightarrow> recovery \<times> json list \<Rightarrow> recovery \<times> json list" where
  "keep_call call p =
     (case p of (st, retained) \<Rightarrow>
        case valid_tool_call_id call of
          None \<Rightarrow> (bump (\<lambda>s. s\<lparr>malformed_calls := malformed_calls s + 1\<rparr>) st, retained)
        | Some i \<Rightarrow>
            if i \<in> seen_call_ids st
            then (bump (\<lambda>s. s\<lparr>duplicate_calls := duplicate_calls s + 1\<rparr>) st, retained)
            else (st\<lparr>seen_call_ids := insert i (seen_call_ids st), pending_order := pending_order st @ [i],
                     pending_ids := insert i (pending_ids st)\<rparr>, retained @ [call]))"

definition calls_of :: "chat_message \<Rightarrow> json list" where
  "calls_of m = (case tool_calls m of JArr cs \<Rightarrow> cs | JObj o' \<Rightarrow> [JObj o'] | _ \<Rightarrow> [])"

definition assistant_step :: "chat_message \<Rightarrow> recovery \<Rightarrow> recovery" where
  "assistant_step m st =
     (case fold keep_call (calls_of m) (st, []) of (st', retained) \<Rightarrow>
        if retained = [] then
          (let a = m\<lparr>tool_calls := JNull\<rparr>
           in if \<not> has_assistant_content a
              then bump (\<lambda>s. s\<lparr>empty_assistants := empty_assistants s + 1\<rparr>) st'
              else push_message a st')
        else push_message (m\<lparr>tool_calls := JArr retained\<rparr>) st')"

definition tool_step :: "chat_message \<Rightarrow> recovery \<Rightarrow> recovery" where
  "tool_step m st =
     (let i = tool_call_id m
      in if i \<noteq> [] \<and> i \<in> pending_ids st
         then (push_message m st)\<lparr>pending_ids := pending_ids st - {i}, seen_result_ids := insert i (seen_result_ids st)\<rparr>
         else if i \<noteq> [] \<and> i \<in> seen_result_ids st
         then bump (\<lambda>s. s\<lparr>duplicate_results := duplicate_results s + 1\<rparr>) st
         else if pending_ids st = {}
         then bump (\<lambda>s. s\<lparr>standalone_results := standalone_results s + 1\<rparr>) st
         else bump (\<lambda>s. s\<lparr>unexpected_results := unexpected_results s + 1\<rparr>) st)"

definition recovery_step :: "chat_message \<Rightarrow> recovery \<Rightarrow> recovery" where
  "recovery_step m st0 =
     (let st = (if role m \<noteq> ''tool'' \<and> role m \<noteq> ''system'' then flush_missing_results st0 else st0)
      in if role m = ''assistant'' then assistant_step m st
         else if role m = ''tool'' then tool_step m st
         else push_message m st)"

definition recover_provider_history :: "chat_message list \<Rightarrow> chat_message list \<times> recovery_stats" where
  "recover_provider_history ms =
     (let st = flush_missing_results (fold recovery_step ms recovery_start) in (recovered st, rstats st))"

section \<open>The protocol\<close>

text \<open>The ids of an assistant row: no calls at all is \<open>null\<close>, otherwise a non-empty array of valid
  calls.\<close>

definition call_ids :: "json \<Rightarrow> string list option" where
  "call_ids j =
     (case j of
        JNull \<Rightarrow> Some []
      | JArr cs \<Rightarrow> if cs \<noteq> [] \<and> (\<forall>c\<in>set cs. valid_tool_call_id c \<noteq> None)
                  then Some (map (\<lambda>c. the (valid_tool_call_id c)) cs) else None
      | _ \<Rightarrow> None)"

text \<open>Reading a history with the set of calls that wait for a result and the set of ids ever used.\<close>

fun scan :: "string set \<Rightarrow> string set \<Rightarrow> chat_message list \<Rightarrow> (string set \<times> string set) option" where
  "scan waiting used [] = Some (waiting, used)"
| "scan waiting used (m # ms) =
     (if role m = ''tool'' then
        (if tool_call_id m \<in> waiting then scan (waiting - {tool_call_id m}) used ms else None)
      else if role m = ''system'' then scan waiting used ms
      else if waiting \<noteq> {} then None
      else if role m = ''assistant'' then
        (case call_ids (tool_calls m) of
           None \<Rightarrow> None
         | Some ids \<Rightarrow>
             if distinct ids \<and> set ids \<inter> used = {} \<and> (ids \<noteq> [] \<or> has_assistant_content m)
             then scan (set ids) (used \<union> set ids) ms else None)
      else scan {} used ms)"

definition valid_history :: "chat_message list \<Rightarrow> bool" where
  "valid_history ms = (case scan {} {} ms of Some (waiting, used) \<Rightarrow> waiting = {} | None \<Rightarrow> False)"

lemma scan_append:
  "scan w u (xs @ ys) = (case scan w u xs of Some (w', u') \<Rightarrow> scan w' u' ys | None \<Rightarrow> None)"
  by (induction w u xs rule: scan.induct) (auto split: option.splits)

lemmas recovery_simps = push_message_def bump_def empty_message_def interrupted_tool_result_def

section \<open>The loop against the protocol\<close>

definition recovery_inv :: "recovery \<Rightarrow> bool" where
  "recovery_inv st \<longleftrightarrow> scan {} {} (recovered st) = Some (pending_ids st, seen_call_ids st) \<and>
     pending_ids st \<subseteq> set (pending_order st) \<and> distinct (pending_order st) \<and>
     set (pending_order st) \<subseteq> seen_call_ids st \<and> [] \<notin> pending_ids st"

lemma valid_id_nonempty: "valid_tool_call_id c = Some i \<Longrightarrow> i \<noteq> []"
  by (auto simp: valid_tool_call_id_def split: option.splits json.splits if_splits)

lemma flush_one_fields [simp]:
  "pending_ids (flush_one i st) = pending_ids st" "pending_order (flush_one i st) = pending_order st"
  "seen_call_ids (flush_one i st) = seen_call_ids st"
  by (simp_all add: flush_one_def recovery_simps)

lemma flush_fold_fields [simp]:
  "pending_ids (fold flush_one is st) = pending_ids st" "pending_order (fold flush_one is st) = pending_order st"
  "seen_call_ids (fold flush_one is st) = seen_call_ids st"
  by (induction "is" arbitrary: st) simp_all

lemma flush_fold_recovered:
  "recovered (fold flush_one is st) =
     recovered st @ map interrupted_tool_result (filter (\<lambda>i. i \<in> pending_ids st) is)"
  by (induction "is" arbitrary: st) (simp_all add: flush_one_def push_message_def bump_def)

lemma flush_fold_stats:
  "rstats (fold flush_one is st) =
     rstats st\<lparr>synthesized_results := synthesized_results (rstats st) + length (filter (\<lambda>i. i \<in> pending_ids st) is)\<rparr>"
  by (induction "is" arbitrary: st) (simp_all add: flush_one_def push_message_def bump_def)

lemma flush_idle:
  assumes "pending_ids st = {}"
  shows "recovered (flush_missing_results st) = recovered st" "rstats (flush_missing_results st) = rstats st"
  using assms by (simp_all add: flush_missing_results_def flush_fold_recovered flush_fold_stats)

lemma flush_fields [simp]:
  "pending_ids (flush_missing_results st) = {}" "pending_order (flush_missing_results st) = []"
  "seen_call_ids (flush_missing_results st) = seen_call_ids st"
  by (simp_all add: flush_missing_results_def)

lemma placeholder_fields [simp]:
  "role (interrupted_tool_result i) = ''tool''" "tool_call_id (interrupted_tool_result i) = i"
  by (simp_all add: interrupted_tool_result_def)

lemma scan_placeholders:
  "distinct is \<Longrightarrow> set is \<subseteq> w \<Longrightarrow> scan w u (map interrupted_tool_result is) = Some (w - set is, u)"
proof (induction "is" arbitrary: w)
  case (Cons i ids)
  have "set ids \<subseteq> w - {i}" "distinct ids" using Cons.prems by auto
  from Cons.IH [OF this(2,1)] have "scan (w - {i}) u (map interrupted_tool_result ids) = Some (w - {i} - set ids, u)" .
  moreover have "w - {i} - set ids = w - set (i # ids)" by auto
  ultimately have "scan (w - {i}) u (map interrupted_tool_result ids) = Some (w - set (i # ids), u)" by simp
  with Cons.prems show ?case by simp
qed simp

lemma flush_inv: "recovery_inv st \<Longrightarrow> recovery_inv (flush_missing_results st)"
proof -
  assume inv: "recovery_inv st"
  let ?ids = "filter (\<lambda>i. i \<in> pending_ids st) (pending_order st)"
  have "set ?ids = pending_ids st" "distinct ?ids" using inv by (auto simp: recovery_inv_def)
  then have "scan (pending_ids st) (seen_call_ids st) (map interrupted_tool_result ?ids) = Some ({}, seen_call_ids st)"
    using scan_placeholders [of ?ids "pending_ids st" "seen_call_ids st"] by simp
  moreover have "recovered (flush_missing_results st) = recovered st @ map interrupted_tool_result ?ids"
    by (simp add: flush_missing_results_def flush_fold_recovered)
  ultimately show ?thesis
    using inv by (simp add: recovery_inv_def scan_append)
qed

lemma keep_call_cases:
  "valid_tool_call_id c = None \<Longrightarrow>
     keep_call c (st, kept) = (bump (\<lambda>s. s\<lparr>malformed_calls := malformed_calls s + 1\<rparr>) st, kept)"
  "valid_tool_call_id c = Some i \<Longrightarrow> i \<in> seen_call_ids st \<Longrightarrow>
     keep_call c (st, kept) = (bump (\<lambda>s. s\<lparr>duplicate_calls := duplicate_calls s + 1\<rparr>) st, kept)"
  "valid_tool_call_id c = Some i \<Longrightarrow> i \<notin> seen_call_ids st \<Longrightarrow>
     keep_call c (st, kept) = (st\<lparr>seen_call_ids := insert i (seen_call_ids st), pending_order := pending_order st @ [i],
        pending_ids := insert i (pending_ids st)\<rparr>, kept @ [c])"
  by (simp_all add: keep_call_def)

lemma bump_fields [simp]:
  "recovered (bump f st) = recovered st" "pending_ids (bump f st) = pending_ids st"
  "pending_order (bump f st) = pending_order st" "seen_call_ids (bump f st) = seen_call_ids st"
  "seen_result_ids (bump f st) = seen_result_ids st" "rstats (bump f st) = f (rstats st)"
  by (simp_all add: bump_def)

lemma keep_calls_spec:
  assumes "fold keep_call cs (st, retained) = (st', kept)"
  shows "\<exists>new. kept = retained @ new \<and> (\<forall>c\<in>set new. valid_tool_call_id c \<noteq> None) \<and>
     recovered st' = recovered st \<and> seen_result_ids st' = seen_result_ids st \<and>
     (let ids = map (\<lambda>c. the (valid_tool_call_id c)) new in
        distinct ids \<and> set ids \<inter> seen_call_ids st = {} \<and> [] \<notin> set ids \<and>
        seen_call_ids st' = seen_call_ids st \<union> set ids \<and> pending_ids st' = pending_ids st \<union> set ids \<and>
        pending_order st' = pending_order st @ ids)"
  using assms
proof (induction cs arbitrary: st retained)
  case (Cons c cs)
  consider "valid_tool_call_id c = None" | i where "valid_tool_call_id c = Some i" "i \<in> seen_call_ids st"
    | i where "valid_tool_call_id c = Some i" "i \<notin> seen_call_ids st"
    by (cases "valid_tool_call_id c") auto
  then show ?case
  proof cases
    case 1
    with Cons.IH [of "bump (\<lambda>s. s\<lparr>malformed_calls := malformed_calls s + 1\<rparr>) st" retained] Cons.prems
    show ?thesis by (simp add: keep_call_cases)
  next
    case 2
    with Cons.IH [of "bump (\<lambda>s. s\<lparr>duplicate_calls := duplicate_calls s + 1\<rparr>) st" retained] Cons.prems
    show ?thesis by (simp add: keep_call_cases)
  next
    case (3 i)
    let ?st = "st\<lparr>seen_call_ids := insert i (seen_call_ids st), pending_order := pending_order st @ [i],
                  pending_ids := insert i (pending_ids st)\<rparr>"
    have "fold keep_call cs (?st, retained @ [c]) = (st', kept)"
      using Cons.prems 3 by (simp add: keep_call_cases)
    from Cons.IH [OF this] obtain new where new: "kept = (retained @ [c]) @ new"
      "\<forall>c\<in>set new. valid_tool_call_id c \<noteq> None" "recovered st' = recovered ?st" "seen_result_ids st' = seen_result_ids ?st"
      "let ids = map (\<lambda>c. the (valid_tool_call_id c)) new in
        distinct ids \<and> set ids \<inter> seen_call_ids ?st = {} \<and> [] \<notin> set ids \<and>
        seen_call_ids st' = seen_call_ids ?st \<union> set ids \<and> pending_ids st' = pending_ids ?st \<union> set ids \<and>
        pending_order st' = pending_order ?st @ ids" by blast
    have "i \<noteq> []" using 3(1) by (rule valid_id_nonempty)
    show ?thesis
      by (rule exI [of _ "c # new"]) (use new 3 \<open>i \<noteq> []\<close> in \<open>auto simp: Let_def\<close>)
  qed
qed simp

lemma push_fields [simp]:
  "recovered (push_message m st) = recovered st @ [m]" "pending_ids (push_message m st) = pending_ids st"
  "pending_order (push_message m st) = pending_order st" "seen_call_ids (push_message m st) = seen_call_ids st"
  "seen_result_ids (push_message m st) = seen_result_ids st" "rstats (push_message m st) = rstats st"
  by (simp_all add: push_message_def)

lemma call_ids_kept:
  "new \<noteq> [] \<Longrightarrow> \<forall>c\<in>set new. valid_tool_call_id c \<noteq> None \<Longrightarrow>
     call_ids (JArr new) = Some (map (\<lambda>c. the (valid_tool_call_id c)) new)"
  by (simp add: call_ids_def)

lemma call_ids_nonempty: "call_ids j = Some ids \<Longrightarrow> [] \<notin> set ids"
proof -
  assume j: "call_ids j = Some ids"
  have "i \<noteq> []" if i: "i \<in> set ids" for i
  proof -
    have "\<exists>c. valid_tool_call_id c \<noteq> None \<and> i = the (valid_tool_call_id c)"
      using j i by (fastforce simp: call_ids_def split: json.splits if_splits)
    then obtain c where "valid_tool_call_id c \<noteq> None" "i = the (valid_tool_call_id c)" by blast
    then show ?thesis using valid_id_nonempty [of c i] by auto
  qed
  then show ?thesis by auto
qed

lemma has_content_update [simp]: "has_assistant_content (m\<lparr>tool_calls := x\<rparr>) = has_assistant_content m"
  by (simp add: has_assistant_content_def)

lemma assistant_inv:
  assumes inv: "recovery_inv st" and idle: "pending_ids st = {}" "pending_order st = []"
    and m: "role m = ''assistant''"
  shows "recovery_inv (assistant_step m st)"
proof -
  obtain st' kept where f: "fold keep_call (calls_of m) (st, []) = (st', kept)" by fastforce
  from keep_calls_spec [OF f] have k: "\<forall>c\<in>set kept. valid_tool_call_id c \<noteq> None" "recovered st' = recovered st"
    by auto
  define ids where "ids = map (\<lambda>c. the (valid_tool_call_id c)) kept"
  from keep_calls_spec [OF f] idle have ids: "distinct ids" "set ids \<inter> seen_call_ids st = {}" "[] \<notin> set ids"
      "seen_call_ids st' = seen_call_ids st \<union> set ids" "pending_ids st' = set ids" "pending_order st' = ids"
    by (auto simp: ids_def Let_def)
  have sc: "scan {} {} (recovered st) = Some ({}, seen_call_ids st)" using inv idle by (simp add: recovery_inv_def)
  show ?thesis
  proof (cases "kept = []")
    case True
    then have "ids = []" by (simp add: ids_def)
    with True f ids k sc m show ?thesis
      by (simp add: assistant_step_def recovery_inv_def Let_def scan_append call_ids_def)
  next
    case False
    then have "ids \<noteq> []" by (simp add: ids_def)
    with False f ids k sc m call_ids_kept [OF False k(1)] show ?thesis
      by (simp add: assistant_step_def recovery_inv_def scan_append ids_def [symmetric])
  qed
qed

lemma tool_inv: "recovery_inv st \<Longrightarrow> role m = ''tool'' \<Longrightarrow> recovery_inv (tool_step m st)"
  by (auto simp: recovery_inv_def tool_step_def Let_def scan_append)

lemma push_inv:
  assumes "recovery_inv st" "role m \<noteq> ''assistant''" "role m \<noteq> ''tool''" "role m = ''system'' \<or> pending_ids st = {}"
  shows "recovery_inv (push_message m st)"
  using assms by (auto simp: recovery_inv_def scan_append)

lemma recovery_step_inv: "recovery_inv st \<Longrightarrow> recovery_inv (recovery_step m st)"
  using flush_inv [of st] by (simp add: recovery_step_def Let_def assistant_inv tool_inv push_inv)

interpretation recovery_machine: op_machine recovery_step recovery_inv
  by unfold_locales (rule recovery_step_inv)

lemma recovery_start_inv: "recovery_inv recovery_start"
  by (simp add: recovery_inv_def recovery_start_def)

section \<open>Valid histories are left alone\<close>

lemma keep_calls_all:
  assumes "\<forall>c\<in>set cs. valid_tool_call_id c \<noteq> None" "distinct (map (\<lambda>c. the (valid_tool_call_id c)) cs)"
    and "set (map (\<lambda>c. the (valid_tool_call_id c)) cs) \<inter> seen_call_ids st = {}"
  shows "\<exists>st'. fold keep_call cs (st, kept) = (st', kept @ cs) \<and> recovered st' = recovered st \<and> rstats st' = rstats st \<and>
     seen_call_ids st' = seen_call_ids st \<union> set (map (\<lambda>c. the (valid_tool_call_id c)) cs) \<and>
     pending_ids st' = pending_ids st \<union> set (map (\<lambda>c. the (valid_tool_call_id c)) cs)"
  using assms
proof (induction cs arbitrary: st kept)
  case (Cons c cs)
  then obtain i where i: "valid_tool_call_id c = Some i" by auto
  with Cons.prems have new: "i \<notin> seen_call_ids st" by auto
  let ?st = "st\<lparr>seen_call_ids := insert i (seen_call_ids st), pending_order := pending_order st @ [i],
                pending_ids := insert i (pending_ids st)\<rparr>"
  have "\<exists>st'. fold keep_call cs (?st, kept @ [c]) = (st', (kept @ [c]) @ cs) \<and> recovered st' = recovered ?st \<and>
     rstats st' = rstats ?st \<and>
     seen_call_ids st' = seen_call_ids ?st \<union> set (map (\<lambda>c. the (valid_tool_call_id c)) cs) \<and>
     pending_ids st' = pending_ids ?st \<union> set (map (\<lambda>c. the (valid_tool_call_id c)) cs)"
    using Cons.prems i by (intro Cons.IH) auto
  then show ?case using i new by (simp add: keep_call_cases)
qed simp

definition keeps :: "recovery \<Rightarrow> recovery \<Rightarrow> chat_message list \<Rightarrow> bool" where
  "keeps st st' ms \<longleftrightarrow> recovered st' = recovered st @ ms \<and> rstats st' = rstats st"

lemma assistant_keeps:
  assumes "pending_ids st = {}" "call_ids (tool_calls m) = Some ids" "distinct ids" "set ids \<inter> seen_call_ids st = {}"
    and "ids \<noteq> [] \<or> has_assistant_content m"
  shows "keeps st (assistant_step m st) [m] \<and> pending_ids (assistant_step m st) = set ids \<and>
     seen_call_ids (assistant_step m st) = seen_call_ids st \<union> set ids"
proof (cases "tool_calls m")
  case JNull
  then have "m\<lparr>tool_calls := JNull\<rparr> = m" by (metis chat_message.surjective chat_message.update_convs(4))
  with JNull assms show ?thesis
    by (simp add: assistant_step_def calls_of_def call_ids_def keeps_def Let_def)
next
  case (JArr cs)
  with assms(2) have cs: "cs \<noteq> []" "\<forall>c\<in>set cs. valid_tool_call_id c \<noteq> None" "ids = map (\<lambda>c. the (valid_tool_call_id c)) cs"
    by (auto simp: call_ids_def split: if_splits)
  from keep_calls_all [OF cs(2), of st "[]"] assms(3,4) cs(3) obtain st' where st':
      "fold keep_call cs (st, []) = (st', cs)" "recovered st' = recovered st" "rstats st' = rstats st"
      "seen_call_ids st' = seen_call_ids st \<union> set ids" "pending_ids st' = pending_ids st \<union> set ids"
    by auto
  from JArr have "m\<lparr>tool_calls := JArr cs\<rparr> = m" by (metis chat_message.surjective chat_message.update_convs(4))
  with JArr cs(1) st' assms(1) show ?thesis
    by (simp add: assistant_step_def calls_of_def keeps_def)
qed (use assms in \<open>simp_all add: call_ids_def\<close>)

lemma scan_keeps:
  assumes "scan (pending_ids st) (seen_call_ids st) ms = Some (w, u)" "[] \<notin> pending_ids st"
  shows "keeps st (fold recovery_step ms st) ms \<and> pending_ids (fold recovery_step ms st) = w"
  using assms
proof (induction ms arbitrary: st)
  case (Cons m ms)
  have step: "keeps st (recovery_step m st) [m] \<and> [] \<notin> pending_ids (recovery_step m st) \<and>
     scan (pending_ids (recovery_step m st)) (seen_call_ids (recovery_step m st)) ms = Some (w, u)"
  proof -
    consider "role m = ''tool''" | "role m = ''system''" | "role m = ''assistant''"
      | "role m \<notin> {''tool'', ''system'', ''assistant''}" by auto
    then show ?thesis
    proof cases
      case 1
      with Cons.prems show ?thesis
        by (auto simp: recovery_step_def tool_step_def keeps_def Let_def split: if_splits)
    next
      case 2
      with Cons.prems show ?thesis by (simp add: recovery_step_def keeps_def)
    next
      case 3
      with Cons.prems obtain ids where ids: "pending_ids st = {}" "call_ids (tool_calls m) = Some ids" "distinct ids"
          "set ids \<inter> seen_call_ids st = {}" "ids \<noteq> [] \<or> has_assistant_content m"
          "scan (set ids) (seen_call_ids st \<union> set ids) ms = Some (w, u)"
        by (auto split: if_splits option.splits)
      moreover have "[] \<notin> set ids"
        using call_ids_nonempty [OF ids(2)] .
      ultimately show ?thesis
        using 3 assistant_keeps [of "flush_missing_results st" m ids] flush_idle [of st]
        by (simp add: recovery_step_def keeps_def)
    next
      case 4
      with Cons.prems show ?thesis
        using flush_idle [of st] by (auto simp: recovery_step_def keeps_def split: if_splits)
    qed
  qed
  with Cons.IH [of "recovery_step m st"] show ?case by (simp add: keeps_def)
qed (simp add: keeps_def)

section \<open>Accounting\<close>

text \<open>Every row of the input is kept or counted as dropped, and every row that was added is counted.\<close>

definition dropped :: "recovery_stats \<Rightarrow> nat" where
  "dropped s = standalone_results s + unexpected_results s + duplicate_results s + empty_assistants s"

definition balanced :: "nat \<Rightarrow> recovery \<Rightarrow> bool" where
  "balanced n st \<longleftrightarrow> length (recovered st) + dropped (rstats st) = n + synthesized_results (rstats st)"

lemma balanced_flush: "balanced n st \<Longrightarrow> balanced n (flush_missing_results st)"
  by (simp add: balanced_def dropped_def flush_missing_results_def flush_fold_recovered flush_fold_stats)

lemma keep_calls_balanced:
  "balanced n st \<Longrightarrow> balanced n (fst (fold keep_call cs (st, kept)))"
proof (induction cs arbitrary: st kept)
  case (Cons c cs)
  have "balanced n (fst (keep_call c (st, kept)))"
    using Cons.prems by (auto simp: keep_call_def balanced_def dropped_def split: option.split)
  then show ?case using Cons.IH by (metis fold_simps(2) prod.collapse)
qed simp

lemma step_balanced: "balanced n st \<Longrightarrow> balanced (Suc n) (recovery_step m st)"
proof -
  assume b: "balanced n st"
  let ?st = "if role m \<noteq> ''tool'' \<and> role m \<noteq> ''system'' then flush_missing_results st else st"
  have st: "balanced n ?st" using b balanced_flush by simp
  obtain st' kept where f: "fold keep_call (calls_of m) (?st, []) = (st', kept)" by fastforce
  have "balanced n st'" using keep_calls_balanced [OF st, of "calls_of m" "[]"] f by simp
  then have "balanced (Suc n) (assistant_step m ?st)"
    unfolding assistant_step_def f by (auto simp: balanced_def dropped_def Let_def)
  moreover have "balanced (Suc n) (tool_step m ?st)"
    using st by (auto simp: tool_step_def balanced_def dropped_def Let_def)
  moreover have "balanced (Suc n) (push_message m ?st)"
    using st by (auto simp: balanced_def)
  ultimately show ?thesis unfolding recovery_step_def Let_def by (cases "role m = ''assistant''"; cases "role m = ''tool''") simp_all
qed

lemma fold_balanced: "balanced n st \<Longrightarrow> balanced (n + length ms) (fold recovery_step ms st)"
proof (induction ms arbitrary: n st)
  case (Cons m ms)
  from Cons.IH [OF step_balanced [OF Cons.prems, of m]] show ?case by simp
qed simp

text \<open>The rows other than tool rows keep their order and, assistant calls apart, their content.\<close>

definition plain_rows :: "chat_message list \<Rightarrow> chat_message list" where
  "plain_rows ms = filter (\<lambda>m. role m \<noteq> ''tool'' \<and> role m \<noteq> ''assistant'') ms"

lemma plain_rows_append [simp]: "plain_rows (xs @ ys) = plain_rows xs @ plain_rows ys"
  by (simp add: plain_rows_def)

lemma plain_rows_flush: "plain_rows (recovered (flush_missing_results st)) = plain_rows (recovered st)"
  by (simp add: flush_missing_results_def flush_fold_recovered plain_rows_def filter_empty_conv)

lemma plain_rows_step: "plain_rows (recovered (recovery_step m st)) = plain_rows (recovered st) @ plain_rows [m]"
proof -
  have "plain_rows (recovered (assistant_step m st')) = plain_rows (recovered st')" if "role m = ''assistant''" for st'
  proof -
    obtain st2 kept where f: "fold keep_call (calls_of m) (st', []) = (st2, kept)" by fastforce
    from keep_calls_spec [OF f] have "recovered st2 = recovered st'" by blast
    then show ?thesis unfolding assistant_step_def f using that by (simp add: plain_rows_def Let_def)
  qed
  moreover have "plain_rows (recovered (tool_step m st')) = plain_rows (recovered st')" if "role m = ''tool''" for st'
    using that by (simp add: tool_step_def Let_def plain_rows_def)
  ultimately show ?thesis
    by (simp add: recovery_step_def Let_def plain_rows_flush) (simp add: plain_rows_def)
qed

lemma plain_rows_fold: "plain_rows (recovered (fold recovery_step ms st)) = plain_rows (recovered st) @ plain_rows ms"
proof (induction ms arbitrary: st)
  case (Cons m ms)
  then show ?case using plain_rows_step [of m st] by (simp add: plain_rows_def)
qed (simp add: plain_rows_def)

section \<open>Properties\<close>

text \<open>Whatever history the session was left with, the recovered one follows the provider's
  protocol: every tool row answers a call that waits for it, every call is answered exactly once before
  the next turn, no call id is used twice, and no assistant row is empty.\<close>

lemma recovered_valid: "valid_history (fst (recover_provider_history ms))"
proof -
  have "recovery_inv (flush_missing_results (fold recovery_step ms recovery_start))"
    by (intro flush_inv recovery_machine.run_inv recovery_start_inv)
  then show ?thesis
    by (simp add: recovery_inv_def recover_provider_history_def valid_history_def Let_def)
qed

text \<open>A history that already follows the protocol is returned as it is, with no repair counted;
  so recovering a recovered history changes nothing.\<close>

lemma recovery_is_idempotent:
  "(valid_history ms \<longrightarrow> recover_provider_history ms = (ms, no_stats)) \<and>
   recover_provider_history (fst (recover_provider_history ms)) = (fst (recover_provider_history ms), no_stats)"
proof -
  have id: "recover_provider_history hs = (hs, no_stats)" if v: "valid_history hs" for hs
  proof -
    from v obtain u where "scan {} {} hs = Some ({}, u)"
      by (auto simp: valid_history_def split: option.splits)
    then have "keeps recovery_start (fold recovery_step hs recovery_start) hs \<and>
        pending_ids (fold recovery_step hs recovery_start) = {}"
      using scan_keeps [of recovery_start hs "{}" u] by (simp add: recovery_start_def)
    then show ?thesis
      by (simp add: recover_provider_history_def Let_def flush_idle keeps_def) (simp add: recovery_start_def)
  qed
  have "valid_history (fst (recover_provider_history ms))"
    using flush_inv [OF recovery_machine.run_inv [OF recovery_start_inv], of ms]
    by (simp add: recovery_inv_def recover_provider_history_def valid_history_def Let_def)
  with id show ?thesis by blast
qed

definition sample_call :: json where
  "sample_call = JObj [(''id'', JStr ''c1''), (''function'', JObj [(''name'', JStr ''bash'')])]"

definition sample_history :: "chat_message list" where
  "sample_history =
     [empty_message\<lparr>role := ''user'', content := ''hi''\<rparr>,
      empty_message\<lparr>role := ''assistant'', tool_calls := JArr [sample_call]\<rparr>,
      empty_message\<lparr>role := ''tool'', tool_call_id := ''c1'', content := ''ok''\<rparr>]"

lemma recovery_is_idempotent_witness:
  "valid_history sample_history \<and> recover_provider_history sample_history = (sample_history, no_stats)"
proof -
  have "valid_history sample_history"
    by (simp add: valid_history_def sample_history_def sample_call_def empty_message_def call_ids_def
        valid_tool_call_id_def string_field_def)
  with recovery_is_idempotent [of sample_history] show ?thesis by blast
qed

text \<open>The counters account for every row: the rows kept and the rows counted as dropped are the
  input and the synthesized results together, and the user and system rows come through in order and
  unchanged.\<close>

lemma recovery_accounts_for_rows:
  "length (fst (recover_provider_history ms)) + dropped (snd (recover_provider_history ms)) =
     length ms + synthesized_results (snd (recover_provider_history ms)) \<and>
   plain_rows (fst (recover_provider_history ms)) = plain_rows ms"
proof
  have "balanced 0 recovery_start" by (simp add: balanced_def recovery_start_def dropped_def no_stats_def)
  from balanced_flush [OF fold_balanced [OF this, of ms]]
  show "length (fst (recover_provider_history ms)) + dropped (snd (recover_provider_history ms)) =
     length ms + synthesized_results (snd (recover_provider_history ms))"
    by (simp add: balanced_def recover_provider_history_def Let_def)
  show "plain_rows (fst (recover_provider_history ms)) = plain_rows ms"
    using plain_rows_fold [of ms recovery_start]
    by (simp add: recover_provider_history_def Let_def plain_rows_flush) (simp add: recovery_start_def plain_rows_def)
qed

end
