(* ===== verification/Hashing.thy ===== *)
theory Hashing
  imports Prelude "HOL-Library.Word"
begin

text \<open>
  \<open>utils/sha256.hpp\<close> and \<open>utils/sha1.hpp\<close>: the hashes behind file checksums and message ids.  Words are
  kept at their width, the 64-byte buffer of the streaming hash is a list updated by index, and the
  loops over bytes are written out.  The specification is the padded message cut into blocks: the lemmas
  show that the streaming hash, fed in any chunks, and the one-shot hash both run their compression
  function over exactly those blocks.
\<close>

unbundle bit_operations_syntax

type_synonym bytes = "8 word list"

definition bytes_of :: "string \<Rightarrow> bytes" where
  "bytes_of s = map (\<lambda>c. word_of_nat (byte c)) s"

definition be32 :: "8 word \<Rightarrow> 8 word \<Rightarrow> 8 word \<Rightarrow> 8 word \<Rightarrow> 32 word" where
  "be32 b0 b1 b2 b3 = push_bit 24 (ucast b0) OR push_bit 16 (ucast b1) OR push_bit 8 (ucast b2) OR ucast b3"

text \<open>The first sixteen words of a block.\<close>

definition block_words :: "bytes \<Rightarrow> 32 word list" where
  "block_words chunk =
     map (\<lambda>i. be32 (chunk ! (i * 4)) (chunk ! (i * 4 + 1)) (chunk ! (i * 4 + 2)) (chunk ! (i * 4 + 3))) [0..<16]"

definition hex_digit :: "nat \<Rightarrow> char" where
  "hex_digit d = (if d < 10 then char_of (48 + d) else char_of (87 + d))"

definition hex32 :: "32 word \<Rightarrow> string" where
  "hex32 w = map (\<lambda>i. hex_digit (unat (drop_bit (4 * i) w AND 15))) (rev [0..<8])"

section \<open>SHA-256\<close>

definition rotr :: "32 word \<Rightarrow> nat \<Rightarrow> 32 word" where
  "rotr x n = drop_bit n x OR push_bit (32 - n) x"

definition choose256 :: "32 word \<Rightarrow> 32 word \<Rightarrow> 32 word \<Rightarrow> 32 word" where
  "choose256 e f g = (e AND f) XOR ((NOT e) AND g)"

definition majority :: "32 word \<Rightarrow> 32 word \<Rightarrow> 32 word \<Rightarrow> 32 word" where
  "majority a b c = (a AND b) XOR (a AND c) XOR (b AND c)"

definition sha256_k :: "32 word list" where
  "sha256_k =
    [0x428a2f98, 0x71374491, 0xb5c0fbcf, 0xe9b5dba5] @
    [0x3956c25b, 0x59f111f1, 0x923f82a4, 0xab1c5ed5] @
    [0xd807aa98, 0x12835b01, 0x243185be, 0x550c7dc3] @
    [0x72be5d74, 0x80deb1fe, 0x9bdc06a7, 0xc19bf174] @
    [0xe49b69c1, 0xefbe4786, 0x0fc19dc6, 0x240ca1cc] @
    [0x2de92c6f, 0x4a7484aa, 0x5cb0a9dc, 0x76f988da] @
    [0x983e5152, 0xa831c66d, 0xb00327c8, 0xbf597fc7] @
    [0xc6e00bf3, 0xd5a79147, 0x06ca6351, 0x14292967] @
    [0x27b70a85, 0x2e1b2138, 0x4d2c6dfc, 0x53380d13] @
    [0x650a7354, 0x766a0abb, 0x81c2c92e, 0x92722c85] @
    [0xa2bfe8a1, 0xa81a664b, 0xc24b8b70, 0xc76c51a3] @
    [0xd192e819, 0xd6990624, 0xf40e3585, 0x106aa070] @
    [0x19a4c116, 0x1e376c08, 0x2748774c, 0x34b0bcb5] @
    [0x391c0cb3, 0x4ed8aa4a, 0x5b9cca4f, 0x682e6ff3] @
    [0x748f82ee, 0x78a5636f, 0x84c87814, 0x8cc70208] @
    [0x90befffa, 0xa4506ceb, 0xbef9a3f7, 0xc67178f2]"

definition extend256 :: "nat \<Rightarrow> 32 word list \<Rightarrow> 32 word list" where
  "extend256 i w =
     (let s0 = rotr (w ! (i - 15)) 7 XOR rotr (w ! (i - 15)) 18 XOR drop_bit 3 (w ! (i - 15));
          s1 = rotr (w ! (i - 2)) 17 XOR rotr (w ! (i - 2)) 19 XOR drop_bit 10 (w ! (i - 2))
      in w @ [w ! (i - 16) + s0 + w ! (i - 7) + s1])"

type_synonym regs256 = "32 word \<times> 32 word \<times> 32 word \<times> 32 word \<times> 32 word \<times> 32 word \<times> 32 word \<times> 32 word"

fun round256 :: "32 word \<Rightarrow> 32 word \<Rightarrow> regs256 \<Rightarrow> regs256" where
  "round256 ki wi (a, b, c, d, e, f, g, h) =
     (let s1 = rotr e 6 XOR rotr e 11 XOR rotr e 25;
          temp1 = h + s1 + choose256 e f g + ki + wi;
          s0 = rotr a 2 XOR rotr a 13 XOR rotr a 22;
          temp2 = s0 + majority a b c
      in (temp1 + temp2, a, b, c, d + temp1, e, f, g))"

definition transform :: "bytes \<Rightarrow> 32 word list \<Rightarrow> 32 word list" where
  "transform chunk st =
     (let w = fold extend256 [16..<64] (block_words chunk)
      in case fold (\<lambda>i. round256 (sha256_k ! i) (w ! i)) [0..<64]
             (st ! 0, st ! 1, st ! 2, st ! 3, st ! 4, st ! 5, st ! 6, st ! 7) of
           (a, b, c, d, e, f, g, h) \<Rightarrow>
             [st ! 0 + a, st ! 1 + b, st ! 2 + c, st ! 3 + d, st ! 4 + e, st ! 5 + f, st ! 6 + g, st ! 7 + h])"

record sha256 =
  h_state :: "32 word list"
  h_buffer :: bytes
  h_buffer_len :: nat
  h_bit_len :: "64 word"

definition sha256_init :: "32 word list" where
  "sha256_init = [0x6a09e667, 0xbb67ae85, 0x3c6ef372, 0xa54ff53a, 0x510e527f, 0x9b05688c, 0x1f83d9ab, 0x5be0cd19]"

definition sha256_reset :: sha256 where
  "sha256_reset = \<lparr>h_state = sha256_init, h_buffer = replicate 64 0, h_buffer_len = 0, h_bit_len = 0\<rparr>"

text \<open>\<open>memcpy\<close> into a buffer at an offset.\<close>

definition copy_at :: "nat \<Rightarrow> bytes \<Rightarrow> bytes \<Rightarrow> bytes" where
  "copy_at off src dst = take off dst @ src @ drop (off + length src) dst"

text \<open>One round of the \<open>while\<close> loop of \<open>update\<close>: how many bytes it takes, and the state after it.\<close>

definition take_size :: "bytes \<Rightarrow> sha256 \<Rightarrow> nat" where
  "take_size data st =
     (let room = 64 - h_buffer_len st in if length data < room then length data else room)"

definition update_round :: "bytes \<Rightarrow> sha256 \<Rightarrow> sha256" where
  "update_round data st =
     (let n = take_size data st;
          st1 = st\<lparr>h_buffer := copy_at (h_buffer_len st) (take n data) (h_buffer st),
                   h_buffer_len := h_buffer_len st + n\<rparr>
      in if h_buffer_len st1 = 64
         then st1\<lparr>h_state := transform (h_buffer st1) (h_state st1), h_buffer_len := 0\<rparr> else st1)"

text \<open>The fuel bounds the rounds; each round takes a byte as long as the buffer is not full, so the
  length of the data is enough (\<open>update_loop_spec\<close>).\<close>

fun update_loop :: "nat \<Rightarrow> bytes \<Rightarrow> sha256 \<Rightarrow> sha256" where
  "update_loop 0 data st = st"
| "update_loop (Suc fuel) data st =
     (if length data > 0 then update_loop fuel (drop (take_size data st) data) (update_round data st) else st)"

definition update256 :: "bytes \<Rightarrow> sha256 \<Rightarrow> sha256" where
  "update256 data st =
     update_loop (length data) data (st\<lparr>h_bit_len := h_bit_len st + word_of_nat (length data) * 8\<rparr>)"

definition zero_fill :: "nat \<Rightarrow> nat \<Rightarrow> bytes \<Rightarrow> bytes" where
  "zero_fill a b tail = fold (\<lambda>i t. t[i := 0]) [a..<b] tail"

text \<open>\<open>(bit_len >> (i * 8)) & 0xff\<close> for i from 7 down to 0, stored from an offset on.\<close>

definition put_length :: "nat \<Rightarrow> 64 word \<Rightarrow> bytes \<Rightarrow> bytes" where
  "put_length off bits tail =
     fold (\<lambda>i t. t[off + i := ucast (drop_bit ((7 - i) * 8) bits AND 0xff)]) [0..<8] tail"

definition final_hex :: "sha256 \<Rightarrow> string \<times> sha256" where
  "final_hex st =
     (let tail0 = (h_buffer st)[h_buffer_len st := 0x80];
          len = h_buffer_len st + 1;
          (tail1, len1, state1) =
            (if len > 56 then (replicate 64 0, 0, transform (zero_fill len 64 tail0) (h_state st))
             else (tail0, len, h_state st));
          tail2 = put_length 56 (h_bit_len st) (zero_fill len1 56 tail1);
          state2 = transform tail2 state1
      in (concat (map hex32 state2), st\<lparr>h_state := state2\<rparr>))"

definition sha256_hex :: "string \<Rightarrow> string" where
  "sha256_hex input = fst (final_hex (update256 (bytes_of input) sha256_reset))"

text \<open>The file variant: whether the file opens, what the successive reads return, and whether the stream
  went bad are the environment's.\<close>

definition sha256_file_hex :: "string \<Rightarrow> bool \<Rightarrow> bytes list \<Rightarrow> bool \<Rightarrow> string + string" where
  "sha256_file_hex path opens reads bad =
     (if \<not> opens then Inl (''failed to open file for SHA-256: '' @ path)
      else let st = fold (\<lambda>buf st. if length buf > 0 then update256 buf st else st) reads sha256_reset
        in if bad then Inl (''failed to read file for SHA-256: '' @ path) else Inr (fst (final_hex st)))"

section \<open>SHA-1\<close>

definition rotl :: "32 word \<Rightarrow> nat \<Rightarrow> 32 word" where
  "rotl x n = push_bit n x OR drop_bit (32 - n) x"

definition extend1 :: "nat \<Rightarrow> 32 word list \<Rightarrow> 32 word list" where
  "extend1 i w = w @ [rotl (w ! (i - 3) XOR w ! (i - 8) XOR w ! (i - 14) XOR w ! (i - 16)) 1]"

type_synonym regs1 = "32 word \<times> 32 word \<times> 32 word \<times> 32 word \<times> 32 word"

fun round1 :: "nat \<Rightarrow> 32 word \<Rightarrow> regs1 \<Rightarrow> regs1" where
  "round1 i wi (a, b, c, d, e) =
     (let (f, k) =
        (if i < 20 then ((b AND c) OR ((NOT b) AND d), 0x5A827999)
         else if i < 40 then (b XOR c XOR d, 0x6ED9EBA1)
         else if i < 60 then ((b AND c) OR (b AND d) OR (c AND d), 0x8F1BBCDC)
         else (b XOR c XOR d, 0xCA62C1D6));
        temp = rotl a 5 + f + e + k + wi
      in (temp, a, rotl b 30, c, d))"

definition process_block :: "bytes \<Rightarrow> 32 word list \<Rightarrow> 32 word list" where
  "process_block block st =
     (let w = fold extend1 [16..<80] (block_words block)
      in case fold (\<lambda>i. round1 i (w ! i)) [0..<80] (st ! 0, st ! 1, st ! 2, st ! 3, st ! 4) of
           (a, b, c, d, e) \<Rightarrow> [st ! 0 + a, st ! 1 + b, st ! 2 + c, st ! 3 + d, st ! 4 + e])"

definition sha1_init :: "32 word list" where
  "sha1_init = [0x67452301, 0xEFCDAB89, 0x98BADCFE, 0x10325476, 0xC3D2E1F0]"

definition sha1_state :: "bytes \<Rightarrow> 32 word list" where
  "sha1_state data =
     (let len = length data;
          full_blocks = len div 64;
          st1 = fold (\<lambda>i. process_block (take 64 (drop (i * 64) data))) [0..<full_blocks] sha1_init;
          rem = len - full_blocks * 64;
          tail0 = (if rem > 0 then copy_at 0 (take rem (drop (full_blocks * 64) data)) (replicate 128 0)
                   else replicate 128 0);
          tail1 = tail0[rem := 0x80];
          tail_blocks = (if rem < 56 then 1 else 2);
          bit_len = word_of_nat len * 8;
          tail2 = put_length (tail_blocks * 64 - 8) bit_len tail1
      in fold (\<lambda>i. process_block (take 64 (drop (i * 64) tail2))) [0..<tail_blocks] st1)"

definition sha1_hex :: "string \<Rightarrow> string" where
  "sha1_hex input = concat (map hex32 (sha1_state (bytes_of input)))"

section \<open>Padding and blocks\<close>

definition pad :: "bytes \<Rightarrow> bytes" where
  "pad msg = msg @ [0x80] @ replicate ((119 - length msg mod 64) mod 64) 0 @
     map (\<lambda>i. ucast (drop_bit ((7 - i) * 8) (word_of_nat (length msg) * 8 :: 64 word) AND 0xff)) [0..<8]"

function blocks :: "bytes \<Rightarrow> bytes list" where
  "blocks xs = (if length xs < 64 then [] else take 64 xs # blocks (drop 64 xs))"
  by pat_completeness auto
termination by (relation "measure length") auto

declare blocks.simps [simp del]

definition run_blocks :: "(bytes \<Rightarrow> 32 word list \<Rightarrow> 32 word list) \<Rightarrow> bytes \<Rightarrow> 32 word list \<Rightarrow> 32 word list" where
  "run_blocks compress msg st = fold compress (blocks msg) st"

lemma blocks_short: "length xs < 64 \<Longrightarrow> blocks xs = []"
  by (subst blocks.simps) simp

lemma blocks_step: "length xs = 64 \<Longrightarrow> blocks (xs @ ys) = xs # blocks ys"
  by (subst blocks.simps) simp

lemma blocks_append: "64 dvd length xs \<Longrightarrow> blocks (xs @ ys) = blocks xs @ blocks ys"
proof (induction xs rule: blocks.induct)
  case (1 xs)
  show ?case
  proof (cases "length xs < 64")
    case True
    with 1(2) have "xs = []" by (metis dvd_imp_le length_0_conv linorder_not_le neq0_conv)
    then show ?thesis by (simp add: blocks_short)
  next
    case False
    have "64 dvd length (drop 64 xs)" using 1(2) False by (simp add: dvd_diff_nat)
    from 1(1) [OF False this] False
    have "blocks (take 64 xs @ (drop 64 xs @ ys)) = take 64 xs # (blocks (drop 64 xs) @ blocks ys)"
      by (subst blocks_step) simp_all
    moreover have "blocks (take 64 xs @ drop 64 xs) = take 64 xs # blocks (drop 64 xs)"
      using False by (subst blocks_step) simp_all
    ultimately show ?thesis by (metis append.assoc append_Cons append_take_drop_id)
  qed
qed

lemma run_blocks_append:
  "64 dvd length xs \<Longrightarrow> run_blocks f (xs @ ys) st = run_blocks f ys (run_blocks f xs st)"
  by (simp add: run_blocks_def blocks_append)

lemma run_blocks_one: "length xs = 64 \<Longrightarrow> run_blocks f xs st = f xs st"
  using blocks_step [of xs "[]"] by (simp add: run_blocks_def blocks_short)

lemma run_blocks_indexed:
  "fold (\<lambda>i. f (take 64 (drop (i * 64) xs))) [0..<n] st = run_blocks f (take (n * 64) xs) st" if "n * 64 \<le> length xs"
  using that
proof (induction n)
  case 0
  then show ?case by (simp add: run_blocks_def blocks_short)
next
  case (Suc n)
  have "take (Suc n * 64) xs = take (n * 64) xs @ take 64 (drop (n * 64) xs)"
    by (metis mult_Suc add.commute take_add)
  moreover have "length (take (n * 64) xs) = n * 64" "length (take 64 (drop (n * 64) xs)) = 64"
    using Suc.prems by auto
  ultimately have "run_blocks f (take (Suc n * 64) xs) st = f (take 64 (drop (n * 64) xs)) (run_blocks f (take (n * 64) xs) st)"
    by (simp add: run_blocks_append run_blocks_one)
  with Suc show ?case by simp
qed

lemma fill_list:
  "off + n \<le> length t \<Longrightarrow>
     fold (\<lambda>i t. t[off + i := f i]) [0..<n] t = take off t @ map f [0..<n] @ drop (off + n) t"
proof (induction n)
  case (Suc n)
  then have "length t > off + n" by simp
  then have "drop (off + n) t = t ! (off + n) # drop (off + Suc n) t"
    by (simp add: Cons_nth_drop_Suc)
  with Suc show ?case by (simp add: list_update_append)
qed simp

lemma zero_fill_eq:
  assumes "a \<le> b" "b \<le> length t"
  shows "zero_fill a b t = take a t @ replicate (b - a) 0 @ drop b t"
proof -
  have "fold (\<lambda>i t. t[i := 0]) (map (\<lambda>i. a + i) [0..<b - a]) t =
      take a t @ map (\<lambda>i. 0) [0..<b - a] @ drop (a + (b - a)) t"
    using assms fill_list [of a "b - a" t "\<lambda>_. 0"] by (simp add: fold_map comp_def)
  moreover have "map (\<lambda>i. a + i) [0..<b - a] = [a..<b]" using assms map_add_upt [of a "b - a"] by (simp add: add.commute)
  ultimately show ?thesis using assms by (simp add: zero_fill_def map_replicate_const)
qed

lemma put_length_eq:
  "off + 8 \<le> length t \<Longrightarrow>
     put_length off bits t = take off t @ map (\<lambda>i. ucast (drop_bit ((7 - i) * 8) bits AND 0xff)) [0..<8] @ drop (off + 8) t"
  unfolding put_length_def by (rule fill_list)

lemma length_copy_at: "off + length src \<le> length dst \<Longrightarrow> length (copy_at off src dst) = length dst"
  by (simp add: copy_at_def)

section \<open>The streaming hash\<close>

text \<open>What the state stands for: the message so far is the blocks already hashed and the filled part of
  the buffer.\<close>

definition holds_block :: "32 word list \<Rightarrow> bytes \<Rightarrow> nat \<Rightarrow> bytes \<Rightarrow> bool" where
  "holds_block state buffer len msg \<longleftrightarrow> length buffer = 64 \<and> len < 64 \<and>
     (\<exists>prior. msg = prior @ take len buffer \<and> 64 dvd length prior \<and> state = run_blocks transform prior sha256_init)"

definition holds_message :: "sha256 \<Rightarrow> bytes \<Rightarrow> bool" where
  "holds_message st msg \<longleftrightarrow> holds_block (h_state st) (h_buffer st) (h_buffer_len st) msg \<and>
     h_bit_len st = word_of_nat (length msg) * 8"

lemma holds_block_step:
  assumes h: "holds_block state buffer len msg" and n: "n \<le> length data" "n \<le> 64 - len"
  defines "buffer' \<equiv> copy_at len (take n data) buffer"
  shows "if len + n = 64 then holds_block (transform buffer' state) buffer' 0 (msg @ take n data)
         else holds_block state buffer' (len + n) (msg @ take n data)"
proof -
  from h obtain prior where p: "msg = prior @ take len buffer" "64 dvd length prior"
      "state = run_blocks transform prior sha256_init" "length buffer = 64" "len < 64"
    by (auto simp: holds_block_def)
  have len: "length buffer' = 64" unfolding buffer'_def by (subst length_copy_at) (use p n in auto)
  have tk: "take (len + n) buffer' = take len buffer @ take n data"
    using p n by (simp add: buffer'_def copy_at_def min_absorb2)
  show ?thesis
  proof (cases "len + n = 64")
    case True
    with tk len have "buffer' = take len buffer @ take n data" by simp
    then have "msg @ take n data = prior @ buffer'" using p(1) by simp
    moreover have "transform buffer' state = run_blocks transform (prior @ buffer') sha256_init"
      using p len by (simp add: run_blocks_append run_blocks_one)
    ultimately show ?thesis using True len p(2) by (auto simp: holds_block_def)
  next
    case False
    moreover have "msg @ take n data = prior @ take (len + n) buffer'" using tk p(1) by simp
    ultimately show ?thesis using len p n by (auto simp: holds_block_def)
  qed
qed

lemma update_loop_spec:
  assumes "holds_block (h_state st) (h_buffer st) (h_buffer_len st) msg" "length data \<le> fuel"
  shows "holds_block (h_state (update_loop fuel data st)) (h_buffer (update_loop fuel data st))
           (h_buffer_len (update_loop fuel data st)) (msg @ data) \<and>
         h_bit_len (update_loop fuel data st) = h_bit_len st"
  using assms
proof (induction fuel arbitrary: data st msg)
  case (Suc fuel)
  show ?case
  proof (cases "data = []")
    case False
    define n where "n = take_size data st"
    have len: "h_buffer_len st < 64" using Suc.prems(1) by (simp add: holds_block_def)
    then have n: "n \<le> length data" "n \<le> 64 - h_buffer_len st" "0 < n"
      using False by (auto simp: n_def take_size_def Let_def)
    have h: "holds_block (h_state (update_round data st)) (h_buffer (update_round data st))
        (h_buffer_len (update_round data st)) (msg @ take n data)"
      using holds_block_step [OF Suc.prems(1) n(1,2)]
      by (simp add: update_round_def Let_def n_def split: if_splits)
    have "h_bit_len (update_round data st) = h_bit_len st" by (simp add: update_round_def Let_def)
    moreover have "length (drop n data) \<le> fuel" using Suc.prems(2) n by simp
    ultimately show ?thesis using Suc.IH [OF h, of "drop n data"] False by (simp add: n_def)
  qed (use Suc.prems in simp)
qed simp

lemma update256_holds: "holds_message st msg \<Longrightarrow> holds_message (update256 data st) (msg @ data)"
  using update_loop_spec [of "st\<lparr>h_bit_len := h_bit_len st + word_of_nat (length data) * 8\<rparr>" msg data "length data"]
  by (simp add: holds_message_def update256_def ring_distribs)

lemma reset_holds: "holds_message sha256_reset []"
  by (simp add: holds_message_def holds_block_def sha256_reset_def run_blocks_def blocks_short)

section \<open>The last blocks\<close>

definition length_bytes :: "64 word \<Rightarrow> bytes" where
  "length_bytes bits = map (\<lambda>i. ucast (drop_bit ((7 - i) * 8) bits AND 0xff)) [0..<8]"

lemma length_length_bytes [simp]: "length (length_bytes bits) = 8"
  by (simp add: length_bytes_def)

lemma put_length_bytes: "off + 8 \<le> length t \<Longrightarrow> put_length off bits t = take off t @ length_bytes bits @ drop (off + 8) t"
  unfolding length_bytes_def by (rule put_length_eq)

lemma pad_cases:
  assumes "64 dvd length prior" "length rest < 64"
  shows "pad (prior @ rest) =
    (if length rest < 56
     then prior @ rest @ [0x80] @ replicate (55 - length rest) 0 @ length_bytes (word_of_nat (length (prior @ rest)) * 8)
     else prior @ (rest @ [0x80] @ replicate (63 - length rest) 0) @
            replicate 56 0 @ length_bytes (word_of_nat (length (prior @ rest)) * 8))"
proof -
  obtain q where "length prior = 64 * q" using assms(1) by (auto simp: dvd_def)
  then have m: "length (prior @ rest) mod 64 = length rest" using assms(2) by simp
  show ?thesis
  proof (cases "length rest < 56")
    case True
    then have "119 - length rest = 55 - length rest + 1 * 64" by simp
    then have "(119 - length rest) mod 64 = 55 - length rest" by (simp only: mod_mult_self1) simp
    with True m show ?thesis by (simp add: pad_def length_bytes_def)
  next
    case False
    then have "119 - length rest = (63 - length rest) + 56" "(119 - length rest) mod 64 = 119 - length rest"
      using assms(2) by simp_all
    moreover have "replicate (63 - length rest) (0 :: 8 word) @ replicate 56 0 = replicate ((63 - length rest) + 56) 0"
      by (rule replicate_add [symmetric])
    ultimately show ?thesis using False m by (simp add: pad_def length_bytes_def)
  qed
qed

lemma update_split: "n < length t \<Longrightarrow> t[n := x] = take n t @ x # drop (Suc n) t"
  by (rule upd_conv_take_nth_drop)

lemma final_state:
  assumes "holds_message st msg"
  shows "h_state (snd (final_hex st)) = run_blocks transform (pad msg) sha256_init"
proof -
  define len where "len = h_buffer_len st"
  obtain prior where p: "msg = prior @ take len (h_buffer st)" "64 dvd length prior"
      "h_state st = run_blocks transform prior sha256_init" "length (h_buffer st) = 64" "len < 64"
    using assms by (auto simp: holds_message_def holds_block_def len_def)
  define rest where "rest = take len (h_buffer st)"
  have rest: "length rest = len" "msg = prior @ rest" using p by (simp_all add: rest_def)
  define bits where "bits = h_bit_len st"
  have bits: "bits = word_of_nat (length (prior @ rest)) * 8"
    using assms rest(2) by (simp add: holds_message_def bits_def)
  have tail: "(h_buffer st)[len := 0x80] = rest @ 0x80 # drop (Suc len) (h_buffer st)"
    using p by (simp add: update_split rest_def)
  show ?thesis
  proof (cases "len + 1 > 56")
    case False
    have z: "zero_fill (len + 1) 56 (rest @ 0x80 # drop (Suc len) (h_buffer st)) =
        rest @ [0x80] @ replicate (55 - len) 0 @ drop 56 (h_buffer st)"
      using False rest p by (subst zero_fill_eq) (simp_all add: drop_Cons')
    have "h_state (snd (final_hex st)) =
        transform (put_length 56 bits (zero_fill (len + 1) 56 ((h_buffer st)[len := 0x80]))) (h_state st)"
      using False by (simp add: final_hex_def Let_def len_def bits_def)
    also have "\<dots> = transform (rest @ [0x80] @ replicate (55 - len) 0 @ length_bytes bits) (h_state st)"
      unfolding tail z using False rest p Suc_diff_le [of len 55]
      by (subst put_length_bytes) (simp_all add: drop_Cons')
    finally show ?thesis
      using False rest p bits
      by (simp add: pad_cases run_blocks_append run_blocks_one)
  next
    case True
    have z: "zero_fill (len + 1) 64 (rest @ 0x80 # drop (Suc len) (h_buffer st)) =
        rest @ [0x80] @ replicate (63 - len) 0"
      using True rest p by (subst zero_fill_eq) (simp_all add: drop_Cons')
    have "put_length 56 bits (zero_fill 0 56 (replicate 64 0)) = replicate 56 0 @ length_bytes bits"
      by (simp add: put_length_bytes zero_fill_eq)
    moreover have "h_state (snd (final_hex st)) =
        transform (put_length 56 bits (zero_fill 0 56 (replicate 64 0)))
          (transform (zero_fill (len + 1) 64 ((h_buffer st)[len := 0x80])) (h_state st))"
      using True by (simp add: final_hex_def Let_def len_def bits_def)
    ultimately have "h_state (snd (final_hex st)) = transform (replicate 56 0 @ length_bytes bits)
        (transform (rest @ [0x80] @ replicate (63 - len) 0) (h_state st))"
      unfolding tail z by simp
    moreover define b1 where "b1 = rest @ [0x80] @ replicate (63 - len) 0"
    define b2 where "b2 = replicate 56 0 @ length_bytes bits"
    have "pad msg = prior @ (b1 @ b2)"
      using True rest p bits pad_cases [of prior rest] by (simp add: b1_def b2_def)
    moreover have "length b1 = 64" "length b2 = 64" using rest p by (simp_all add: b1_def b2_def)
    ultimately show ?thesis
      using p by (simp add: run_blocks_append run_blocks_one b2_def [symmetric]) (simp add: b1_def)
  qed
qed

lemma final_hex_state: "fst (final_hex st) = concat (map hex32 (h_state (snd (final_hex st))))"
  by (simp add: final_hex_def Let_def split: prod.split)

lemma sha1_state_pad: "sha1_state data = run_blocks process_block (pad data) sha1_init"
proof -
  define q where "q = length data div 64"
  define prior where "prior = take (q * 64) data"
  define rest where "rest = drop (q * 64) data"
  have pr: "data = prior @ rest" "length prior = q * 64" "length rest = length data - q * 64" "length rest < 64"
    by (simp_all add: prior_def rest_def q_def)
  define bits where "bits = (word_of_nat (length data) * 8 :: 64 word)"
  define L where "L = length rest"
  have len: "length data - q * 64 = L" "L < 64" using pr by (simp_all add: L_def)
  have full: "fold (\<lambda>i. process_block (take 64 (drop (i * 64) data))) [0..<q] sha1_init =
      run_blocks process_block prior sha1_init"
    unfolding prior_def by (rule run_blocks_indexed) (simp add: q_def)
  have "(if L > 0 then copy_at 0 (take L (drop (q * 64) data)) (replicate 128 0) else replicate 128 0) =
      rest @ replicate (128 - L) 0"
    using len by (auto simp: copy_at_def rest_def [symmetric] L_def)
  then have tail1: "(if L > 0 then copy_at 0 (take L (drop (q * 64) data)) (replicate 128 0) else replicate 128 0)[L := 0x80] =
      rest @ 0x80 # replicate (127 - L) 0"
    using len by (simp add: update_split L_def flip: replicate_Suc)
  define nb where "nb = (if L < 56 then 1 else 2 :: nat)"
  define tail2 where "tail2 = put_length (nb * 64 - 8) bits (rest @ 0x80 # replicate (127 - L) 0)"
  have code: "sha1_state data = fold (\<lambda>i. process_block (take 64 (drop (i * 64) tail2))) [0..<nb]
      (run_blocks process_block prior sha1_init)"
    unfolding sha1_state_def Let_def q_def [symmetric] len(1) full tail1 tail2_def nb_def bits_def ..
  have tail2: "take (nb * 64) tail2 = (if L < 56 then rest @ [0x80] @ replicate (55 - L) 0 @ length_bytes bits
      else (rest @ [0x80] @ replicate (63 - L) 0) @ replicate 56 0 @ length_bytes bits)"
    using len L_def unfolding tail2_def nb_def
    by (subst put_length_bytes) (auto simp: take_Cons' min_absorb1 replicate_add [symmetric])
  have "length tail2 \<ge> nb * 64"
    using len L_def unfolding tail2_def nb_def by (subst put_length_bytes) auto
  then have "sha1_state data = run_blocks process_block (take (nb * 64) tail2) (run_blocks process_block prior sha1_init)"
    unfolding code by (rule run_blocks_indexed)
  also have "\<dots> = run_blocks process_block (prior @ take (nb * 64) tail2) sha1_init"
    using pr(2) by (simp add: run_blocks_append)
  also have "prior @ take (nb * 64) tail2 = pad data"
    using pr len pad_cases [of prior rest] unfolding tail2 by (simp add: L_def bits_def)
  finally show ?thesis .
qed

section \<open>Chunks\<close>

interpretation sha256_stream: chunked_feed update256 holds_message
  by unfold_locales (rule update256_holds)

lemma final_of_message:
  "holds_message st msg \<Longrightarrow> fst (final_hex st) = concat (map hex32 (run_blocks transform (pad msg) sha256_init))"
  by (simp add: final_hex_state final_state)

text \<open>The fold of the file variant skips empty reads, which feed nothing.\<close>

lemma update256_Nil: "update256 [] st = st"
  by (simp add: update256_def)

lemma skip_empty_reads: "(\<lambda>buf st. if buf \<noteq> [] then update256 buf st else st) = update256"
  by (simp add: fun_eq_iff update256_Nil)

section \<open>Properties\<close>

text \<open>The streaming hash does not depend on how the data is cut into chunks: after any updates it
  returns the hash of the concatenated chunks under the padding of FIPS 180-4, and the one-shot and the
  file variant return that value too.\<close>

lemma sha256_any_chunks:
  "fst (final_hex (fold update256 chunks sha256_reset)) =
     concat (map hex32 (run_blocks transform (pad (concat chunks)) sha256_init)) \<and>
   sha256_file_hex path True chunks False = Inr (fst (final_hex (fold update256 chunks sha256_reset))) \<and>
   sha256_hex input = concat (map hex32 (run_blocks transform (pad (bytes_of input)) sha256_init))"
proof -
  have "holds_message (fold update256 chunks sha256_reset) (concat chunks)"
    by (rule sha256_stream.fold_stands_Nil [OF reset_holds])
  moreover have "holds_message (update256 (bytes_of input) sha256_reset) (bytes_of input)"
    using update256_holds [OF reset_holds, of "bytes_of input"] by simp
  ultimately show ?thesis
    by (simp add: final_of_message sha256_hex_def sha256_file_hex_def Let_def skip_empty_reads)
qed

text \<open>The one-shot SHA-1, with its two-block tail buffer, compresses exactly the padded message in
  order, for every length.\<close>

lemma sha1_hashes_padded_message:
  "sha1_hex input = concat (map hex32 (run_blocks process_block (pad (bytes_of input)) sha1_init))"
  by (simp add: sha1_hex_def sha1_state_pad)

end
