(* ===== verification/Base64.thy ===== *)
theory Base64
  imports Prelude "HOL-Library.Word"
begin

text \<open>
  \<open>utils/base64.hpp\<close>: the encoder and the lenient decoder that carry attachments and clipboard data.
  The 32-bit accumulators are words and the alphabet and the reverse table are those of the source.  The
  lemmas show that the decoder undoes the encoder for every byte string, in the standard and in the
  unpadded URL-safe spelling and with white space anywhere.
\<close>

unbundle bit_operations_syntax

definition b64_alphabet :: string where
  "b64_alphabet = ''ABCDEFGHIJKLMNOPQRSTUVWXYZabcdefghijklmnopqrstuvwxyz0123456789+/''"

definition byte_word :: "char \<Rightarrow> 32 word" where
  "byte_word c = word_of_nat (byte c)"

definition b64_char :: "32 word \<Rightarrow> char" where
  "b64_char w = b64_alphabet ! unat (w AND 0x3F)"

definition triple :: "char \<Rightarrow> char \<Rightarrow> char \<Rightarrow> 32 word" where
  "triple a b c = push_bit 16 (byte_word a) OR push_bit 8 (byte_word b) OR byte_word c"

text \<open>Full groups of three bytes, then the tail of one or two.\<close>

fun base64_encode :: "string \<Rightarrow> string" where
  "base64_encode (a # b # c # rest) =
     (let v = triple a b c
      in [b64_char (drop_bit 18 v), b64_char (drop_bit 12 v), b64_char (drop_bit 6 v), b64_char v]
         @ base64_encode rest)"
| "base64_encode [a] =
     (let v = push_bit 16 (byte_word a) in [b64_char (drop_bit 18 v), b64_char (drop_bit 12 v), CHR ''='', CHR ''=''])"
| "base64_encode [a, b] =
     (let v = push_bit 16 (byte_word a) OR push_bit 8 (byte_word b)
      in [b64_char (drop_bit 18 v), b64_char (drop_bit 12 v), b64_char (drop_bit 6 v), CHR ''=''])"
| "base64_encode [] = []"

definition b64_table :: "int list" where
  "b64_table =
    [-1,-1,-1,-1,-1,-1,-1,-1,-1,-3,-3,-1,-3,-3,-1,-1,
     -1,-1,-1,-1,-1,-1,-1,-1,-1,-1,-1,-1,-1,-1,-1,-1,
     -3,-1,-1,-1,-1,-1,-1,-1,-1,-1,-1,62,-1,62,-1,63,
     52,53,54,55,56,57,58,59,60,61,-1,-1,-1,-2,-1,-1,
     -1, 0, 1, 2, 3, 4, 5, 6, 7, 8, 9,10,11,12,13,14,
     15,16,17,18,19,20,21,22,23,24,25,-1,-1,-1,-1,63,
     -1,26,27,28,29,30,31,32,33,34,35,36,37,38,39,40,
     41,42,43,44,45,46,47,48,49,50,51,-1,-1,-1,-1,-1] @ replicate 128 (-1)"

fun b64_loop :: "32 word \<Rightarrow> nat \<Rightarrow> bool \<Rightarrow> string \<Rightarrow> string \<Rightarrow> string option" where
  "b64_loop buf bits seen_pad out [] =
     (if bits \<noteq> 0 \<and> bits \<noteq> 2 \<and> bits \<noteq> 4 then None else Some out)"
| "b64_loop buf bits seen_pad out (c # cs) =
     (let v = b64_table ! byte c
      in if v = -3 then b64_loop buf bits seen_pad out cs
         else if v = -2 then b64_loop buf bits True out cs
         else if v = -1 then None
         else if seen_pad then None
         else let buf' = push_bit 6 buf OR word_of_int v; bits' = bits + 6
           in if bits' \<ge> 8
              then b64_loop buf' (bits' - 8) seen_pad
                     (out @ [char_of (unat (drop_bit (bits' - 8) buf' AND 0xFF))]) cs
              else b64_loop buf' bits' seen_pad out cs)"

definition base64_decode :: "string \<Rightarrow> string option" where
  "base64_decode s = b64_loop 0 0 False [] s"

section \<open>The table against the alphabet\<close>

definition sextet :: "32 word \<Rightarrow> 32 word" where
  "sextet w = w AND 0x3F"

lemma sextet_less: "unat (sextet w) < 64"
proof -
  have "sextet w \<le> 0x3F" unfolding sextet_def by (rule word_and_le1)
  then show ?thesis by (simp add: word_le_nat_alt)
qed

lemma table_alphabet: "k < 64 \<Longrightarrow> b64_table ! byte (b64_alphabet ! k) = int k"
proof -
  have "list_all (\<lambda>k. b64_table ! byte (b64_alphabet ! k) = int k) [0..<64]" by code_simp
  then show "k < 64 \<Longrightarrow> ?thesis" by (simp add: list_all_iff)
qed

lemma table_char: "b64_table ! byte (b64_char w) = int (unat (sextet w))"
  unfolding b64_char_def sextet_def [symmetric] by (rule table_alphabet [OF sextet_less])

lemma table_pad: "b64_table ! byte CHR ''='' = -2"
  by code_simp

text \<open>One character of data, in the two cases of the accumulator.\<close>

lemma loop_data:
  "b64_loop buf bits False out (b64_char w # cs) =
     (if bits \<ge> 2
      then b64_loop (push_bit 6 buf OR sextet w) (bits - 2) False
             (out @ [char_of (unat (drop_bit (bits - 2) (push_bit 6 buf OR sextet w) AND 0xFF))]) cs
      else b64_loop (push_bit 6 buf OR sextet w) (bits + 6) False out cs)"
proof -
  define v where "v = unat (sextet w)"
  have v: "b64_table ! byte (b64_char w) = int v" "word_of_int (int v) = sextet w"
    by (simp_all add: v_def table_char)
  have "int v \<noteq> -3" "int v \<noteq> -2" "int v \<noteq> -1" by simp_all
  then show ?thesis
    unfolding b64_loop.simps v Let_def by (simp only: if_False) simp
qed

declare b64_loop.simps(2) [simp del]

lemma loop_pad [simp]: "b64_loop buf bits pd out (CHR ''='' # cs) = b64_loop buf bits True out cs"
  using table_pad by (simp add: b64_loop.simps(2) Let_def)

text \<open>The bits of a group.\<close>

lemma byte_word_bits: "bit (byte_word c) n \<Longrightarrow> n < 8"
proof (rule ccontr)
  assume b: "bit (byte_word c) n" and n: "\<not> n < 8"
  have "(256 :: nat) \<le> 2 ^ n" using power_increasing [of 8 n "2 :: nat"] n by simp
  then have "byte c < 2 ^ n" using byte_less_256 [of c] by linarith
  then have "\<not> bit (byte c) n" by (simp add: bit_nat_def)
  with b show False by (simp add: byte_word_def bit_of_nat_iff)
qed

lemma char_of_byte_word: "char_of (unat (byte_word c)) = c"
proof -
  have "byte c < 2 ^ 32" by (rule less_trans [OF byte_less_256]) simp
  then have "byte c mod 2 ^ 32 = byte c" by (rule mod_less)
  then have "unat (byte_word c) = byte c" by (simp add: byte_word_def unat_of_nat)
  then show ?thesis by simp
qed

lemma bit_sextet: "bit (sextet w) n \<longleftrightarrow> n < 6 \<and> bit w n"
proof -
  have "sextet w = take_bit 6 w"
    unfolding sextet_def take_bit_eq_mask by (simp add: mask_eq_exp_minus_1)
  then show ?thesis by (simp add: bit_take_bit_iff)
qed

lemma bit_low_byte: "bit (w AND 0xFF) n \<longleftrightarrow> n < 8 \<and> bit w n" for w :: "32 word"
proof -
  have "w AND 0xFF = take_bit 8 w"
    unfolding take_bit_eq_mask by (simp add: mask_eq_exp_minus_1)
  then show ?thesis by (simp add: bit_take_bit_iff)
qed

text \<open>Two consecutive sextets of a word in the accumulator give back eight of its bits.\<close>

lemma join_sextets:
  assumes "k \<le> 4"
  shows "drop_bit k (push_bit 6 (push_bit 6 buf OR sextet (drop_bit 6 u)) OR sextet u) AND 0xFF = drop_bit k u AND 0xFF"
proof (rule bit_word_eqI)
  fix n
  assume "n < LENGTH(32)"
  show "bit (drop_bit k (push_bit 6 (push_bit 6 buf OR sextet (drop_bit 6 u)) OR sextet u) AND 0xFF) n =
        bit (drop_bit k u AND 0xFF) n"
  proof (cases "n < 8")
    case True
    then have "k + n < 12" using assms by simp
    then show ?thesis using True
      by (cases "k + n < 6") (auto simp: bit_low_byte bit_drop_bit_eq bit_push_bit_iff bit_or_iff bit_sextet)
  qed (simp add: bit_low_byte)
qed

lemma triple_bytes:
  "drop_bit 16 (triple a b c) AND 0xFF = byte_word a" "drop_bit 8 (triple a b c) AND 0xFF = byte_word b"
  "triple a b c AND 0xFF = byte_word c"
  by (rule bit_word_eqI; auto simp: triple_def bit_low_byte bit_drop_bit_eq bit_push_bit_iff bit_or_iff
      dest: byte_word_bits)+

lemma encode_tail:
  "base64_encode [a] = (let v = triple a (char_of (0 :: nat)) (char_of (0 :: nat))
     in [b64_char (drop_bit 18 v), b64_char (drop_bit 12 v), CHR ''='', CHR ''=''])"
  "base64_encode [a, b] = (let v = triple a b (char_of (0 :: nat))
     in [b64_char (drop_bit 18 v), b64_char (drop_bit 12 v), b64_char (drop_bit 6 v), CHR ''=''])"
  by (simp_all add: triple_def byte_word_def)

section \<open>Decoding a group\<close>

text \<open>The accumulator after two, three and four characters of a group.\<close>

definition acc2 :: "32 word \<Rightarrow> 32 word \<Rightarrow> 32 word" where
  "acc2 buf v = push_bit 6 (push_bit 6 buf OR sextet (drop_bit 18 v)) OR sextet (drop_bit 12 v)"

definition acc3 :: "32 word \<Rightarrow> 32 word \<Rightarrow> 32 word" where
  "acc3 buf v = push_bit 6 (acc2 buf v) OR sextet (drop_bit 6 v)"

definition acc4 :: "32 word \<Rightarrow> 32 word \<Rightarrow> 32 word" where
  "acc4 buf v = push_bit 6 (acc3 buf v) OR sextet v"

lemma acc_bytes:
  "drop_bit 4 (acc2 buf v) AND 0xFF = drop_bit 16 v AND 0xFF"
  "drop_bit 2 (acc3 buf v) AND 0xFF = drop_bit 8 v AND 0xFF"
  "acc4 buf v AND 0xFF = v AND 0xFF"
  using join_sextets [of 4 buf "drop_bit 12 v"]
    join_sextets [of 2 "push_bit 6 buf OR sextet (drop_bit 18 v)" "drop_bit 6 v"]
    join_sextets [of 0 "acc2 buf v" v]
  by (simp_all add: acc2_def acc3_def acc4_def)

lemma loop_steps:
  "b64_loop buf 0 False out (b64_char w # cs) = b64_loop (push_bit 6 buf OR sextet w) 6 False out cs"
  "b64_loop buf 6 False out (b64_char w # cs) = b64_loop (push_bit 6 buf OR sextet w) 4 False
     (out @ [char_of (unat (drop_bit 4 (push_bit 6 buf OR sextet w) AND 0xFF))]) cs"
  "b64_loop buf 4 False out (b64_char w # cs) = b64_loop (push_bit 6 buf OR sextet w) 2 False
     (out @ [char_of (unat (drop_bit 2 (push_bit 6 buf OR sextet w) AND 0xFF))]) cs"
  "b64_loop buf 2 False out (b64_char w # cs) = b64_loop (push_bit 6 buf OR sextet w) 0 False
     (out @ [char_of (unat ((push_bit 6 buf OR sextet w) AND 0xFF))]) cs"
  by (simp_all add: loop_data)

lemma decode_two:
  "b64_loop buf 0 False out (b64_char (drop_bit 18 (triple a b c)) # b64_char (drop_bit 12 (triple a b c)) # cs) =
     b64_loop (acc2 buf (triple a b c)) 4 False (out @ [a]) cs"
  unfolding loop_steps acc2_def [symmetric] acc_bytes triple_bytes char_of_byte_word ..

lemma decode_three:
  "b64_loop (acc2 buf (triple a b c)) 4 False out (b64_char (drop_bit 6 (triple a b c)) # cs) =
     b64_loop (acc3 buf (triple a b c)) 2 False (out @ [b]) cs"
  unfolding loop_steps acc3_def [symmetric] acc_bytes triple_bytes char_of_byte_word ..

lemma decode_four:
  "b64_loop (acc3 buf (triple a b c)) 2 False out (b64_char (triple a b c) # cs) =
     b64_loop (acc4 buf (triple a b c)) 0 False (out @ [c]) cs"
  unfolding loop_steps acc4_def [symmetric] acc_bytes triple_bytes char_of_byte_word ..

lemmas decode_group = decode_two decode_three decode_four

lemma loop_encode: "b64_loop buf 0 False out (base64_encode s) = Some (out @ s)"
proof (induction s arbitrary: buf out rule: base64_encode.induct)
  case (1 a b c rest)
  then show ?case by (simp add: Let_def decode_group)
next
  case (2 a)
  show ?case by (simp add: encode_tail Let_def decode_group del: base64_encode.simps)
next
  case (3 a b)
  show ?case by (simp add: encode_tail Let_def decode_group del: base64_encode.simps)
qed simp

interpretation base64: codec base64_encode base64_decode
  by unfold_locales (simp add: base64_decode_def loop_encode)

section \<open>Lenient spellings\<close>

definition url_safe :: "char \<Rightarrow> char" where
  "url_safe c = (if c = CHR ''+'' then CHR ''-'' else if c = CHR ''/'' then CHR ''_'' else c)"

definition is_blank :: "char \<Rightarrow> bool" where
  "is_blank c \<longleftrightarrow> byte c \<in> {9, 10, 12, 13, 32}"

lemma table_url_safe: "b64_table ! byte (url_safe c) = b64_table ! byte c"
proof -
  have "b64_table ! byte CHR ''+'' = b64_table ! byte CHR ''-''" "b64_table ! byte CHR ''/'' = b64_table ! byte CHR ''_''"
    by code_simp+
  then show ?thesis by (simp add: url_safe_def)
qed

lemma table_blank: "is_blank c \<Longrightarrow> b64_table ! byte c = -3"
proof -
  have "list_all (\<lambda>n. b64_table ! n = -3) [9, 10, 12, 13, 32]" by code_simp
  then show "is_blank c \<Longrightarrow> ?thesis" by (auto simp: is_blank_def)
qed

lemma loop_url_safe: "b64_loop buf bits pd out (map url_safe cs) = b64_loop buf bits pd out cs"
  by (induction cs arbitrary: buf bits pd out) (simp_all add: b64_loop.simps(2) table_url_safe Let_def)

lemma loop_blanks: "b64_loop buf bits pd out (filter (\<lambda>c. \<not> is_blank c) cs) = b64_loop buf bits pd out cs"
proof (induction cs arbitrary: buf bits pd out)
  case (Cons c cs)
  then show ?case by (simp add: b64_loop.simps(2) Let_def table_blank)
qed simp

lemma loop_trailing_pads: "b64_loop buf bits pd out (cs @ replicate k CHR ''='') = b64_loop buf bits pd out cs"
proof (induction cs arbitrary: buf bits pd out)
  case Nil
  have "b64_loop buf bits pd out (replicate k CHR ''='') = b64_loop buf bits pd' out []" for pd pd'
    by (induction k arbitrary: pd) simp_all
  then show ?case by simp
next
  case (Cons c cs)
  then show ?case by (simp add: b64_loop.simps(2) Let_def)
qed

lemma b64_char_not_pad: "b64_char w \<noteq> CHR ''=''"
proof
  assume "b64_char w = CHR ''=''"
  with table_char [of w] table_pad have "int (unat (sextet w)) = -2" by (simp only:)
  then show False by linarith
qed

lemma encode_shape: "\<exists>k. base64_encode s = filter (\<lambda>c. c \<noteq> CHR ''='') (base64_encode s) @ replicate k CHR ''=''"
proof (induction s rule: base64_encode.induct)
  case (1 a b c rest)
  then show ?case by (auto simp: Let_def b64_char_not_pad)
next
  case (2 a)
  show ?case by (rule exI [of _ 2]) (simp add: Let_def b64_char_not_pad numeral_2_eq_2)
next
  case (3 a b)
  show ?case by (rule exI [of _ 1]) (simp add: Let_def b64_char_not_pad)
qed simp

lemma decode_unpadded: "base64_decode (filter (\<lambda>c. c \<noteq> CHR ''='') (base64_encode s)) = Some s"
proof -
  obtain k where "base64_encode s = filter (\<lambda>c. c \<noteq> CHR ''='') (base64_encode s) @ replicate k CHR ''=''"
    using encode_shape by blast
  then have "base64_decode (filter (\<lambda>c. c \<noteq> CHR ''='') (base64_encode s)) = base64_decode (base64_encode s)"
    unfolding base64_decode_def by (metis loop_trailing_pads)
  then show ?thesis by (simp add: base64.dec_enc)
qed

lemma length_base64_encode: "length (base64_encode s) = 4 * ((length s + 2) div 3)"
proof (induction s rule: base64_encode.induct)
  case (1 a b c rest)
  have "(length (a # b # c # rest) + 2) div 3 = Suc ((length rest + 2) div 3)" by simp
  with 1 show ?case by (simp add: Let_def)
qed (simp_all add: Let_def)

section \<open>Properties\<close>

text \<open>Decoding undoes encoding for every byte string, whether the text keeps its padding and the
  standard alphabet or is the URL-safe spelling without padding; white space anywhere in the text does
  not change what it decodes to; and the encoding has the size the code reserves for it.\<close>

lemma base64_roundtrip:
  "base64_decode (base64_encode s) = Some s \<and>
   base64_decode (map url_safe (filter (\<lambda>c. c \<noteq> CHR ''='') (base64_encode s))) = Some s \<and>
   base64_decode (filter (\<lambda>c. \<not> is_blank c) text) = base64_decode text \<and>
   length (base64_encode s) = 4 * ((length s + 2) div 3)"
proof -
  have "base64_decode (map url_safe cs) = base64_decode cs" for cs
    by (simp add: base64_decode_def loop_url_safe)
  moreover have "base64_decode (filter (\<lambda>c. \<not> is_blank c) text) = base64_decode text"
    by (simp add: base64_decode_def loop_blanks)
  ultimately show ?thesis by (simp add: base64.dec_enc decode_unpadded length_base64_encode)
qed

end
