(* ===== verification/Version.thy ===== *)
theory Version
  imports Prelude Json "HOL-Library.Char_ord" "HOL-Library.List_Lexorder" "HOL-Library.Product_Lexorder"
begin

text \<open>
  \<open>upgrade/version.cpp\<close>: the semantic versions by which the updater decides what is newer.  The
  specification is a key in a linear order (the three numbers, then the release before the
  pre-releases and these by their identifiers), with an order of its own on identifiers: the
  three-way comparison of the code is comparison of keys, so it is a total preorder.
\<close>

record sem_version =
  v_major :: int
  v_minor :: int
  v_patch :: int
  v_prerelease :: string

fun parse_digits :: "int \<Rightarrow> string \<Rightarrow> int option" where
  "parse_digits v [] = Some v"
| "parse_digits v (c # cs) =
     (if \<not> is_digit c then None
      else let v' = v * 10 + int (digit_val c) in if v' > 1000000 then None else parse_digits v' cs)"

definition parse_non_negative_int :: "string \<Rightarrow> int option" where
  "parse_non_negative_int s = (if s = [] then None else parse_digits 0 s)"

definition is_numeric_identifier :: "string \<Rightarrow> bool" where
  "is_numeric_identifier s \<longleftrightarrow> s \<noteq> [] \<and> list_all is_digit s"

text \<open>\<open>strtoll\<close> on a string of digits: the value, or the greatest 64-bit number.\<close>

definition strtoll_digits :: "string \<Rightarrow> int" where
  "strtoll_digits s = min (int (digits_val s)) int64_max"

text \<open>The loop over the common identifiers and the comparison of the sizes after it.\<close>

fun compare_ids :: "string list \<Rightarrow> string list \<Rightarrow> int" where
  "compare_ids [] [] = 0"
| "compare_ids [] (y # ys) = -1"
| "compare_ids (x # xs) [] = 1"
| "compare_ids (x # xs) (y # ys) =
     (let an = is_numeric_identifier x; bn = is_numeric_identifier y
      in if an \<and> bn then
           (let av = strtoll_digits x; bv = strtoll_digits y
            in if av < bv then -1 else if av > bv then 1 else compare_ids xs ys)
         else if an \<noteq> bn then (if an then -1 else 1)
         else if x < y then -1 else if x > y then 1 else compare_ids xs ys)"

definition compare_prerelease :: "string \<Rightarrow> string \<Rightarrow> int" where
  "compare_prerelease a b =
     (if a = [] \<and> b = [] then 0 else if a = [] then 1 else if b = [] then -1
      else compare_ids (split_on CHR ''.'' a) (split_on CHR ''.'' b))"

definition drop_v :: "string \<Rightarrow> string" where
  "drop_v s = (if s \<noteq> [] \<and> (hd s = CHR ''v'' \<or> hd s = CHR ''V'') then tl s else s)"

definition parse_sem_version :: "string \<Rightarrow> sem_version option" where
  "parse_sem_version raw =
     (let s = takeWhile (\<lambda>c. c \<noteq> CHR ''+'') (drop_v raw);
          has_dash = CHR ''-'' \<in> set s;
          pre = (if has_dash then tl (dropWhile (\<lambda>c. c \<noteq> CHR ''-'') s) else []);
          core = takeWhile (\<lambda>c. c \<noteq> CHR ''-'') s
      in if has_dash \<and> pre = [] then None
         else case split_on CHR ''.'' core of
           [a, b, c] \<Rightarrow>
             (case (parse_non_negative_int a, parse_non_negative_int b, parse_non_negative_int c) of
                (Some i, Some j, Some k) \<Rightarrow> Some \<lparr>v_major = i, v_minor = j, v_patch = k, v_prerelease = pre\<rparr>
              | _ \<Rightarrow> None)
         | _ \<Rightarrow> None)"

definition compare_sem_version :: "sem_version \<Rightarrow> sem_version \<Rightarrow> int" where
  "compare_sem_version a b =
     (if v_major a \<noteq> v_major b then (if v_major a < v_major b then -1 else 1)
      else if v_minor a \<noteq> v_minor b then (if v_minor a < v_minor b then -1 else 1)
      else if v_patch a \<noteq> v_patch b then (if v_patch a < v_patch b then -1 else 1)
      else compare_prerelease (v_prerelease a) (v_prerelease b))"

definition sem_version_less :: "sem_version \<Rightarrow> sem_version \<Rightarrow> bool" where
  "sem_version_less a b \<longleftrightarrow> compare_sem_version a b < 0"

section \<open>Identifiers in order\<close>

datatype version_id = Num int | Alpha string

instantiation version_id :: linorder
begin

fun less_version_id :: "version_id \<Rightarrow> version_id \<Rightarrow> bool" where
  "less_version_id (Num m) (Num n) = (m < n)"
| "less_version_id (Num m) (Alpha t) = True"
| "less_version_id (Alpha s) (Num n) = False"
| "less_version_id (Alpha s) (Alpha t) = (s < t)"

definition less_eq_version_id :: "version_id \<Rightarrow> version_id \<Rightarrow> bool" where
  "less_eq_version_id x y \<longleftrightarrow> x < y \<or> x = y"

instance
proof
  fix x y z :: version_id
  show "x < y \<longleftrightarrow> x \<le> y \<and> \<not> y \<le> x"
    by (cases x; cases y) (auto simp: less_eq_version_id_def)
  show "x \<le> x" by (simp add: less_eq_version_id_def)
  show "x \<le> z" if "x \<le> y" "y \<le> z"
    using that by (cases x; cases y; cases z) (auto simp: less_eq_version_id_def)
  show "x = y" if "x \<le> y" "y \<le> x"
    using that by (cases x; cases y) (auto simp: less_eq_version_id_def)
  show "x \<le> y \<or> y \<le> x"
    by (cases x; cases y) (auto simp: less_eq_version_id_def)
qed

end

definition identifier_of :: "string \<Rightarrow> version_id" where
  "identifier_of s = (if is_numeric_identifier s then Num (strtoll_digits s) else Alpha s)"

text \<open>A release comes after its pre-releases.\<close>

definition prerelease_key :: "string \<Rightarrow> nat \<times> version_id list" where
  "prerelease_key s = (if s = [] then (1, []) else (0, map identifier_of (split_on CHR ''.'' s)))"

definition version_key :: "sem_version \<Rightarrow> int \<times> int \<times> int \<times> nat \<times> version_id list" where
  "version_key v = (v_major v, v_minor v, v_patch v, prerelease_key (v_prerelease v))"

definition order_sign :: "'a :: linorder \<Rightarrow> 'a \<Rightarrow> int" where
  "order_sign x y = (if x < y then -1 else if x = y then 0 else 1)"

lemma compare_ids_sign: "compare_ids xs ys = order_sign (map identifier_of xs) (map identifier_of ys)"
proof (induction xs ys rule: compare_ids.induct)
  case (4 x xs y ys)
  then show ?case
    by (auto simp: order_sign_def identifier_of_def Let_def Cons_less_Cons)
qed (simp_all add: order_sign_def)

lemma compare_prerelease_sign: "compare_prerelease a b = order_sign (prerelease_key a) (prerelease_key b)"
  by (auto simp: compare_prerelease_def prerelease_key_def compare_ids_sign order_sign_def)

lemma compare_sign: "compare_sem_version a b = order_sign (version_key a) (version_key b)"
  by (auto simp: compare_sem_version_def version_key_def compare_prerelease_sign order_sign_def)

section \<open>Reading a version\<close>

definition show_version :: "sem_version \<Rightarrow> string" where
  "show_version v = show_int (v_major v) @ ''.'' @ show_int (v_minor v) @ ''.'' @ show_int (v_patch v) @
     (if v_prerelease v = [] then [] else CHR ''-'' # v_prerelease v)"

definition component_ok :: "int \<Rightarrow> bool" where
  "component_ok i \<longleftrightarrow> 0 \<le> i \<and> i \<le> 1000000"

definition version_ok :: "sem_version \<Rightarrow> bool" where
  "version_ok v \<longleftrightarrow> component_ok (v_major v) \<and> component_ok (v_minor v) \<and> component_ok (v_patch v) \<and>
     CHR ''+'' \<notin> set (v_prerelease v)"

lemma foldl_digits_mono: "v \<le> foldl (\<lambda>v c. v * 10 + digit_val c) v s"
proof (induction s arbitrary: v)
  case (Cons c s)
  have "v \<le> v * 10 + digit_val c" by simp
  also have "\<dots> \<le> foldl (\<lambda>v c. v * 10 + digit_val c) (v * 10 + digit_val c) s" by (rule Cons.IH)
  finally show ?case by simp
qed simp

lemma parse_digits_value:
  "parse_digits (int v) s =
     (if list_all is_digit s \<and> (s = [] \<or> foldl (\<lambda>v c. v * 10 + digit_val c) v s \<le> 1000000)
      then Some (int (foldl (\<lambda>v c. v * 10 + digit_val c) v s)) else None)"
proof (induction s arbitrary: v)
  case (Cons c s)
  have step: "int v * 10 + int (digit_val c) = int (v * 10 + digit_val c)" by simp
  show ?case
    using Cons.IH [of "v * 10 + digit_val c"] foldl_digits_mono [of "v * 10 + digit_val c" s]
    unfolding parse_digits.simps Let_def step by auto
qed simp

lemma parse_component: "parse_non_negative_int s = Some i \<longleftrightarrow> s \<noteq> [] \<and> list_all is_digit s \<and> i = int (digits_val s) \<and> i \<le> 1000000"
  using parse_digits_value [of 0 s] by (auto simp: parse_non_negative_int_def digits_val_def split: if_splits)

lemma parse_show_component: "component_ok i \<Longrightarrow> parse_non_negative_int (show_int i) = Some i"
  by (simp add: parse_component component_ok_def show_int_def show_nat_digits)

definition show_core :: "sem_version \<Rightarrow> string" where
  "show_core v = show_int (v_major v) @ ''.'' @ show_int (v_minor v) @ ''.'' @ show_int (v_patch v)"

lemma show_int_digits: "component_ok i \<Longrightarrow> c \<in> set (show_int i) \<Longrightarrow> is_digit c"
  using show_nat_digits [of "nat i"] by (simp add: component_ok_def show_int_def list_all_iff)

lemma show_int_free:
  "component_ok i \<Longrightarrow> CHR ''.'' \<notin> set (show_int i)" "component_ok i \<Longrightarrow> CHR ''-'' \<notin> set (show_int i)"
  "component_ok i \<Longrightarrow> CHR ''+'' \<notin> set (show_int i)"
proof -
  have no: "\<not> is_digit CHR ''.''" "\<not> is_digit CHR ''-''" "\<not> is_digit CHR ''+''" by (simp_all add: is_digit_def)
  show "component_ok i \<Longrightarrow> CHR ''.'' \<notin> set (show_int i)" using show_int_digits [of i] no(1) by blast
  show "component_ok i \<Longrightarrow> CHR ''-'' \<notin> set (show_int i)" using show_int_digits [of i] no(2) by blast
  show "component_ok i \<Longrightarrow> CHR ''+'' \<notin> set (show_int i)" using show_int_digits [of i] no(3) by blast
qed

lemma core_free:
  assumes "version_ok v"
  shows "CHR ''-'' \<notin> set (show_core v)" "CHR ''+'' \<notin> set (show_core v)"
  using assms by (simp_all add: version_ok_def show_core_def show_int_free)

lemma takeWhile_before: "x \<notin> set s \<Longrightarrow> takeWhile (\<lambda>c. c \<noteq> x) (s @ x # t) = s"
  by (induction s) auto

lemma dropWhile_before: "x \<notin> set s \<Longrightarrow> dropWhile (\<lambda>c. c \<noteq> x) (s @ x # t) = x # t"
  by (induction s) auto

lemma takeWhile_free: "x \<notin> set s \<Longrightarrow> takeWhile (\<lambda>c. c \<noteq> x) s = s"
  by (rule takeWhile_eq_all_conv [THEN iffD2]) auto

lemma split_core:
  "version_ok v \<Longrightarrow> split_on CHR ''.'' (show_core v) = [show_int (v_major v), show_int (v_minor v), show_int (v_patch v)]"
  by (simp add: show_core_def version_ok_def split_on_append split_on_sepfree show_int_free)

lemma show_version_core:
  "show_version v = show_core v @ (if v_prerelease v = [] then [] else CHR ''-'' # v_prerelease v)"
  by (simp add: show_version_def show_core_def)

lemma drop_v_core:
  assumes "version_ok v" "lead \<in> {[], ''v'', ''V''}"
  shows "drop_v (lead @ show_version v @ rest) = show_version v @ rest"
proof -
  obtain c cs where c: "show_int (v_major v) = c # cs"
    using show_nat_not_Nil by (metis neq_Nil_conv show_int_def)
  have "is_digit c" using show_int_digits [of "v_major v" c] assms(1) c by (simp add: version_ok_def)
  then have "c \<noteq> CHR ''v'' \<and> c \<noteq> CHR ''V''" by (auto simp: is_digit_def)
  with assms(2) c show ?thesis by (auto simp: drop_v_def show_version_def)
qed

lemma parse_show:
  assumes ok: "version_ok v" and "lead \<in> {[], ''v'', ''V''}" and rear: "rear = [] \<or> hd rear = CHR ''+''"
  shows "parse_sem_version (lead @ show_version v @ rear) = Some v"
proof -
  have plus: "CHR ''+'' \<notin> set (show_version v)"
    using core_free [OF ok] ok by (simp add: show_version_core version_ok_def)
  have cut: "takeWhile (\<lambda>c. c \<noteq> CHR ''+'') (show_version v @ rear) = show_version v"
  proof (cases rear)
    case (Cons c rest)
    with rear plus show ?thesis by (simp add: takeWhile_before)
  qed (simp add: takeWhile_free plus)
  have s: "takeWhile (\<lambda>c. c \<noteq> CHR ''+'') (drop_v (lead @ show_version v @ rear)) = show_version v"
    unfolding drop_v_core [OF ok assms(2)] by (rule cut)
  have comps: "parse_non_negative_int (show_int (v_major v)) = Some (v_major v)"
    "parse_non_negative_int (show_int (v_minor v)) = Some (v_minor v)"
    "parse_non_negative_int (show_int (v_patch v)) = Some (v_patch v)"
    using ok by (simp_all add: version_ok_def parse_show_component)
  show ?thesis
    unfolding parse_sem_version_def s Let_def unfolding show_version_core
    using core_free [OF ok] comps
    by (cases "v_prerelease v = []")
      (simp_all add: takeWhile_free takeWhile_before dropWhile_before split_core [OF ok])
qed

lemma parse_sound:
  assumes "parse_sem_version raw = Some v"
  shows "version_ok v"
proof -
  define s where "s = takeWhile (\<lambda>c. c \<noteq> CHR ''+'') (drop_v raw)"
  have "c \<noteq> CHR ''+''" if "c \<in> set s" for c using set_takeWhileD [of c "\<lambda>c. c \<noteq> CHR ''+''" "drop_v raw"] that by (simp add: s_def)
  moreover have "set (tl (dropWhile (\<lambda>c. c \<noteq> CHR ''-'') s)) \<subseteq> set s"
  proof
    fix c assume "c \<in> set (tl (dropWhile (\<lambda>c. c \<noteq> CHR ''-'') s))"
    then have "c \<in> set (dropWhile (\<lambda>c. c \<noteq> CHR ''-'') s)"
      by (cases "dropWhile (\<lambda>c. c \<noteq> CHR ''-'') s") auto
    then show "c \<in> set s" by (rule set_dropWhileD)
  qed
  ultimately have "CHR ''+'' \<notin> set (tl (dropWhile (\<lambda>c. c \<noteq> CHR ''-'') s))" by blast
  then show ?thesis
    using assms by (auto simp: parse_sem_version_def Let_def s_def [symmetric] version_ok_def component_ok_def parse_component
        split: list.splits option.splits if_splits)
qed

section \<open>Properties\<close>

text \<open>The three-way comparison orders versions by their key, so what the updater calls newer is a
  strict weak order: exactly one of older, newer and equal rank holds and being older is transitive.
  The printed form of a version, with or without a leading v and build metadata, is read back as that
  version, and whatever is read has components in range.\<close>

lemma version_order_and_parse:
  "compare_sem_version a b = order_sign (version_key a) (version_key b) \<and>
   (sem_version_less a b \<longleftrightarrow> version_key a < version_key b) \<and>
   (version_ok v \<longrightarrow> parse_sem_version (''v'' @ show_version v @ ''+'' @ build) = Some v \<and>
      parse_sem_version (show_version v) = Some v) \<and>
   (parse_sem_version raw = Some v \<longrightarrow> version_ok v)"
  using parse_show [of v "''v''" "''+'' @ build"] parse_show [of v "[]" "[]"] parse_sound [of raw v]
  by (simp add: compare_sign sem_version_less_def order_sign_def)

definition sample_version :: sem_version where
  "sample_version = \<lparr>v_major = 1, v_minor = 20, v_patch = 3, v_prerelease = ''rc.1''\<rparr>"

lemma version_order_and_parse_witness:
  "parse_sem_version ''v1.20.3-rc.1+x'' = Some sample_version \<and> version_ok sample_version"
proof -
  have "version_ok sample_version" by code_simp
  moreover have "''v'' @ show_version sample_version @ ''+'' @ ''x'' = ''v1.20.3-rc.1+x''" by code_simp
  ultimately show ?thesis using version_order_and_parse [of sample_version sample_version sample_version "''x''"] by simp
qed

end
