(* ===== verification/TodoState.thy ===== *)
theory TodoState
  imports Json "HOL-Library.AList"
begin

text \<open>
  \<open>session/todo_state.cpp\<close>: the task list the agent keeps for a session.  A tool call replaces the list
  or merges JSON items into it; the list is stored and shown as JSON and is put back into the context
  after a compaction.  The invariant is that ids are distinct and every item is normalized; the lemmas
  show that replacing and merging keep it, that merging updates in place and appends, and that a stored
  list is read back unchanged.
\<close>

record todo_item =
  t_id :: string
  t_content :: string
  t_status :: string

abbreviation trim_copy :: "string \<Rightarrow> string" where
  "trim_copy \<equiv> trim_by is_space"

definition todo_field :: "json \<Rightarrow> string \<Rightarrow> string" where
  "todo_field item key =
     (case field item key of
        Some (JStr s) \<Rightarrow> s
      | Some (JInt i) \<Rightarrow> show_int i
      | _ \<Rightarrow> [])"

definition item_key :: "json \<Rightarrow> string" where
  "item_key item = (let i = trim_copy (todo_field item ''id'') in if i = [] then ''?'' else i)"

text \<open>The last index of every id, and the items at those indices.\<close>

definition last_index :: "json list \<Rightarrow> (string \<times> nat) list" where
  "last_index raw = fold (\<lambda>(i, item) m. AList.update (item_key item) i m) (enumerate 0 raw) []"

definition dedupe_by_id :: "json \<Rightarrow> json list" where
  "dedupe_by_id raw =
     (case raw of
        JArr items \<Rightarrow>
          (let keep = map snd (last_index items)
           in map snd (filter (\<lambda>(i, item). i \<in> set keep) (enumerate 0 items)))
      | _ \<Rightarrow> [])"

definition is_valid_todo_status :: "string \<Rightarrow> bool" where
  "is_valid_todo_status s \<longleftrightarrow> s = ''pending'' \<or> s = ''in_progress'' \<or> s = ''completed'' \<or> s = ''cancelled''"

definition normalize_todo_status :: "string \<Rightarrow> string" where
  "normalize_todo_status status =
     (let s = ascii_lower (trim_copy status) in if is_valid_todo_status s then s else ''pending'')"

definition normalize_todo_item :: "json \<Rightarrow> todo_item" where
  "normalize_todo_item item =
     (let content = trim_copy (todo_field item ''content'')
      in \<lparr>t_id = item_key item,
          t_content = (if content = [] then ''(no description)'' else content),
          t_status = normalize_todo_status (todo_field item ''status'')\<rparr>)"

definition todo_items_from_json :: "json \<Rightarrow> todo_item list" where
  "todo_items_from_json raw =
     (case raw of JArr items \<Rightarrow> map normalize_todo_item (filter is_object items) | _ \<Rightarrow> [])"

definition todo_item_to_json :: "todo_item \<Rightarrow> json" where
  "todo_item_to_json item =
     JObj [(''id'', JStr (t_id item)), (''content'', JStr (t_content item)),
           (''status'', JStr (normalize_todo_status (t_status item)))]"

definition todo_items_to_json :: "todo_item list \<Rightarrow> json" where
  "todo_items_to_json items = JArr (map todo_item_to_json items)"

definition bump_count :: "string \<Rightarrow> (string \<times> json) list \<Rightarrow> (string \<times> json) list" where
  "bump_count status m =
     AList.update status (JInt ((case map_of m status of Some (JInt n) \<Rightarrow> n | _ \<Rightarrow> 0) + 1)) m"

definition todo_summary_to_json :: "todo_item list \<Rightarrow> json" where
  "todo_summary_to_json items =
     JObj (fold (\<lambda>item. bump_count (normalize_todo_status (t_status item))) items
       [(''total'', JInt (int (length items))), (''pending'', JInt 0), (''in_progress'', JInt 0),
        (''completed'', JInt 0), (''cancelled'', JInt 0)])"

definition todo_payload_to_json :: "string \<Rightarrow> todo_item list \<Rightarrow> json" where
  "todo_payload_to_json session items =
     JObj ([(''todos'', todo_items_to_json items), (''summary'', todo_summary_to_json items)] @
       (if session \<noteq> [] then [(''session_id'', JStr session)] else []))"

definition replace_todo_items :: "json \<Rightarrow> todo_item list" where
  "replace_todo_items raw = map normalize_todo_item (filter is_object (dedupe_by_id raw))"

text \<open>Updating an existing item: only the fields the update carries.\<close>

definition update_existing :: "json \<Rightarrow> todo_item \<Rightarrow> todo_item" where
  "update_existing item old =
     (let c = trim_copy (todo_field item ''content'');
          e1 = (if field item ''content'' \<noteq> None \<and> c \<noteq> [] then old\<lparr>t_content := c\<rparr> else old);
          s = normalize_todo_status (todo_field item ''status'')
      in if field item ''status'' \<noteq> None \<and> is_valid_todo_status s then e1\<lparr>t_status := s\<rparr> else e1)"

definition merge_item :: "json \<Rightarrow> todo_item list \<times> (string \<Rightarrow> nat option) \<Rightarrow> todo_item list \<times> (string \<Rightarrow> nat option)" where
  "merge_item item p =
     (case p of (out, index) \<Rightarrow>
        if \<not> is_object item then (out, index)
        else let i = trim_copy (todo_field item ''id'')
          in if i = [] then (out, index)
             else case index i of
               Some k \<Rightarrow> (out[k := update_existing item (out ! k)], index)
             | None \<Rightarrow>
                 (let next = normalize_todo_item item
                  in (out @ [next], index(t_id next \<mapsto> length out))))"

definition merge_todo_items :: "todo_item list \<Rightarrow> json \<Rightarrow> todo_item list" where
  "merge_todo_items current raw =
     (let out = map (\<lambda>t. t\<lparr>t_status := normalize_todo_status (t_status t)\<rparr>) current;
          index = fold (\<lambda>(i, t) m. m(t_id t \<mapsto> i)) (enumerate 0 out) (\<lambda>_. None)
      in fst (fold merge_item (dedupe_by_id raw) (out, index)))"

definition injection_line :: "todo_item \<Rightarrow> string" where
  "injection_line item =
     (let s = normalize_todo_status (t_status item)
      in ''- '' @ (if s = ''in_progress'' then ''[>]'' else ''[ ]'') @ '' '' @ t_id item @ ''. '' @ t_content item @
         '' ('' @ s @ '')'' @ [CHR 0x0A])"

definition format_todo_injection :: "todo_item list \<Rightarrow> string" where
  "format_todo_injection items =
     (let active = filter (\<lambda>t. normalize_todo_status (t_status t) \<in> {''pending'', ''in_progress''}) items;
          out = (if active = [] then []
                 else ''[Your active task list was preserved across context compression]'' @ [CHR 0x0A] @
                      concat (map injection_line active))
      in if out \<noteq> [] \<and> last out = CHR 0x0A then butlast out else out)"

section \<open>Normal items\<close>

definition trimmed :: "string \<Rightarrow> bool" where
  "trimmed s \<longleftrightarrow> s \<noteq> [] \<and> trim_copy s = s"

definition item_ok :: "todo_item \<Rightarrow> bool" where
  "item_ok t \<longleftrightarrow> trimmed (t_id t) \<and> trimmed (t_content t) \<and> is_valid_todo_status (t_status t)"

definition list_ok :: "todo_item list \<Rightarrow> bool" where
  "list_ok ts \<longleftrightarrow> list_all item_ok ts \<and> distinct (map t_id ts)"

lemma status_normal [simp]: "is_valid_todo_status (normalize_todo_status s)"
  by (simp add: normalize_todo_status_def Let_def) (simp add: is_valid_todo_status_def)

lemma status_fixed: "is_valid_todo_status s \<Longrightarrow> normalize_todo_status s = s"
proof -
  have "list_all (\<lambda>s. normalize_todo_status s = s) [''pending'', ''in_progress'', ''completed'', ''cancelled'']"
    by code_simp
  then show "is_valid_todo_status s \<Longrightarrow> ?thesis" by (auto simp: is_valid_todo_status_def)
qed

lemma trimmed_trim: "trim_copy s \<noteq> [] \<Longrightarrow> trimmed (trim_copy s)"
  by (simp add: trimmed_def)

lemma item_key_trimmed: "trimmed (item_key item)"
proof -
  have "trimmed ''?''" by code_simp
  then show ?thesis by (simp add: item_key_def Let_def trimmed_trim)
qed

lemma normalize_item_ok: "item_ok (normalize_todo_item item)"
proof -
  have "trimmed ''(no description)''" by code_simp
  then show ?thesis by (simp add: item_ok_def normalize_todo_item_def Let_def item_key_trimmed trimmed_trim)
qed

lemma normalize_item_id [simp]: "t_id (normalize_todo_item item) = item_key item"
  by (simp add: normalize_todo_item_def Let_def)

section \<open>Removing earlier duplicates\<close>

fun keep_last :: "json list \<Rightarrow> json list" where
  "keep_last [] = []"
| "keep_last (x # xs) = (if item_key x \<in> item_key ` set xs then keep_last xs else x # keep_last xs)"

definition index_table :: "nat \<Rightarrow> json list \<Rightarrow> (string \<times> nat) list \<Rightarrow> (string \<times> nat) list" where
  "index_table n xs m = fold (\<lambda>(i, item) m. AList.update (item_key item) i m) (enumerate n xs) m"

lemma index_table_simps [simp]:
  "index_table n [] m = m"
  "index_table n (x # xs) m = index_table (Suc n) xs (AList.update (item_key x) n m)"
  by (simp_all add: index_table_def)

lemma index_table_distinct: "distinct (map fst m) \<Longrightarrow> distinct (map fst (index_table n xs m))"
  by (induction xs arbitrary: n m) (simp_all add: distinct_update)

lemma index_table_map_of:
  "map_of (index_table n xs m) k =
     (case map_of (index_table n xs []) k of None \<Rightarrow> map_of m k | Some i \<Rightarrow> Some i)"
proof (induction xs arbitrary: n m)
  case (Cons x xs)
  show ?case
    using Cons [of "Suc n" "AList.update (item_key x) n m"] Cons [of "Suc n" "[(item_key x, n)]"]
    by (simp add: update_conv' split: option.splits)
qed simp

lemma index_table_None: "map_of (index_table n xs []) k = None \<longleftrightarrow> k \<notin> item_key ` set xs"
proof (induction xs arbitrary: n)
  case (Cons x xs)
  show ?case
    using Cons [of "Suc n"] by (subst index_table_simps(2), subst index_table_map_of) (auto split: option.split)
qed simp

lemma index_table_bound: "map_of (index_table n xs []) k = Some i \<Longrightarrow> n \<le> i"
proof (induction xs arbitrary: n)
  case (Cons x xs)
  from Cons.prems have "map_of (index_table (Suc n) xs [(item_key x, n)]) k = Some i" by simp
  then show ?case
    using Cons.IH [of "Suc n"] by (subst (asm) index_table_map_of) (fastforce split: option.splits if_splits)
qed simp

lemma index_table_range:
  assumes "n \<le> i" "i < n + length xs"
  shows "i \<in> snd ` set (index_table n xs []) \<longleftrightarrow> map_of (index_table n xs []) (item_key (xs ! (i - n))) = Some i"
proof
  assume "map_of (index_table n xs []) (item_key (xs ! (i - n))) = Some i"
  then show "i \<in> snd ` set (index_table n xs [])" by (force dest: map_of_SomeD)
next
  assume "i \<in> snd ` set (index_table n xs [])"
  then obtain k where "(k, i) \<in> set (index_table n xs [])" by auto
  then have "map_of (index_table n xs []) k = Some i" by (simp add: index_table_distinct)
  moreover have "k = item_key (xs ! (i - n))"
    if "map_of (index_table n xs []) k = Some i" "n \<le> i" "i < n + length xs" for xs and n k
    using that
  proof (induction xs arbitrary: n)
    case (Cons x xs)
    from Cons.prems(1) have m: "map_of (index_table (Suc n) xs [(item_key x, n)]) k = Some i" by simp
    show ?case
    proof (cases "map_of (index_table (Suc n) xs []) k")
      case None
      with m have "k = item_key x" "i = n"
        by (subst (asm) index_table_map_of, simp split: if_splits)+
      then show ?thesis by simp
    next
      case (Some j)
      with m have j: "map_of (index_table (Suc n) xs []) k = Some i"
        using index_table_map_of [of "Suc n" xs "[(item_key x, n)]" k] by simp
      then have "Suc n \<le> i" by (rule index_table_bound)
      with Cons.IH [OF j] Cons.prems show ?thesis by (simp add: nth_Cons' Suc_diff_le)
    qed
  qed simp
  ultimately show "map_of (index_table n xs []) (item_key (xs ! (i - n))) = Some i" using assms by metis
qed

text \<open>An index is kept exactly when no later item has the same id.\<close>

lemma kept_index:
  assumes "i < length xs"
  shows "map_of (index_table n xs []) (item_key (xs ! i)) = Some (n + i) \<longleftrightarrow>
     item_key (xs ! i) \<notin> item_key ` set (drop (Suc i) xs)"
  using assms
proof (induction xs arbitrary: n i)
  case (Cons x xs)
  show ?case
  proof (cases i)
    case 0
    show ?thesis
    proof (cases "map_of (index_table (Suc n) xs []) (item_key x)")
      case None
      with 0 show ?thesis
        using index_table_None [of "Suc n" xs "item_key x"]
        by (simp, subst index_table_map_of) simp
    next
      case (Some j)
      with 0 index_table_bound [OF Some] show ?thesis
        using index_table_None [of "Suc n" xs "item_key x"]
        by (simp, subst index_table_map_of) auto
    qed
  next
    case (Suc j)
    then have j: "j < length xs" using Cons.prems by simp
    then have "map_of (index_table (Suc n) xs []) (item_key (xs ! j)) \<noteq> None"
      by (simp only: index_table_None) simp
    then have "map_of (index_table n (x # xs) []) (item_key (xs ! j)) = map_of (index_table (Suc n) xs []) (item_key (xs ! j))"
      by (simp, subst index_table_map_of) auto
    with Cons.IH [OF j, of "Suc n"] Suc show ?thesis by simp
  qed
qed simp

lemma filter_enumerate_keep_last:
  "map snd (filter (\<lambda>(i, item). item_key item \<notin> item_key ` set (drop (Suc (i - n)) xs)) (enumerate n xs)) = keep_last xs"
proof (induction xs arbitrary: n)
  case (Cons x xs)
  have eq: "filter (\<lambda>(i, item). item_key item \<notin> item_key ` set (drop (Suc (i - n)) (x # xs))) (enumerate (Suc n) xs) =
      filter (\<lambda>(i, item). item_key item \<notin> item_key ` set (drop (Suc (i - Suc n)) xs)) (enumerate (Suc n) xs)"
    by (rule filter_cong) (auto simp: in_set_enumerate_eq Suc_diff_Suc)
  show ?case using Cons [of "Suc n"] eq by simp
qed simp

lemma dedupe_keep_last: "dedupe_by_id (JArr items) = keep_last items"
proof -
  have "filter (\<lambda>(i, item). i \<in> set (map snd (last_index items))) (enumerate 0 items) =
      filter (\<lambda>(i, item). item_key item \<notin> item_key ` set (drop (Suc (i - 0)) items)) (enumerate 0 items)"
  proof (rule filter_cong)
    fix p assume "p \<in> set (enumerate 0 items)"
    then have p: "p = (fst p, items ! fst p)" "fst p < length items"
      by (auto simp: in_set_enumerate_eq prod_eq_iff)
    define i where "i = fst p"
    note p = p [folded i_def]
    have "last_index items = index_table 0 items []" by (simp add: last_index_def index_table_def)
    with p(2) show "(case p of (i, item) \<Rightarrow> i \<in> set (map snd (last_index items))) =
        (case p of (i, item) \<Rightarrow> item_key item \<notin> item_key ` set (drop (Suc (i - 0)) items))"
      using index_table_range [of 0 i items] kept_index [of i items 0] by (subst (1 2) p(1)) simp
  qed simp
  then show ?thesis
    by (simp add: dedupe_by_id_def Let_def filter_enumerate_keep_last [of 0, simplified])
qed

lemma keep_last_subset: "set (keep_last xs) \<subseteq> set xs"
  by (induction xs) auto

lemma keep_last_distinct: "distinct (map item_key (keep_last xs))"
  by (induction xs) (use keep_last_subset in auto)

lemma keep_last_id: "distinct (map item_key xs) \<Longrightarrow> keep_last xs = xs"
  by (induction xs) auto

section \<open>Merging\<close>

text \<open>The contract of a merge: the updates that name an id go to the item with that id, in place; the
  others are appended in order.\<close>

definition usable :: "json \<Rightarrow> bool" where
  "usable item \<longleftrightarrow> is_object item \<and> trim_copy (todo_field item ''id'') \<noteq> []"

definition updates_of :: "json \<Rightarrow> json list" where
  "updates_of raw = filter usable (dedupe_by_id raw)"

definition updated :: "json list \<Rightarrow> todo_item \<Rightarrow> todo_item" where
  "updated us t = (case find (\<lambda>u. item_key u = t_id t) us of Some u \<Rightarrow> update_existing u t | None \<Rightarrow> t)"

definition merge_spec :: "todo_item list \<Rightarrow> json list \<Rightarrow> todo_item list" where
  "merge_spec current us =
     map (updated us) current @ map normalize_todo_item (filter (\<lambda>u. item_key u \<notin> t_id ` set current) us)"

lemma updated_Nil [simp]: "updated [] = (\<lambda>t. t)"
  by (simp add: updated_def fun_eq_iff)

lemma usable_key: "usable item \<Longrightarrow> trim_copy (todo_field item ''id'') = item_key item"
  by (simp add: usable_def item_key_def Let_def)

lemma update_existing_id [simp]: "t_id (update_existing u t) = t_id t"
  by (simp add: update_existing_def Let_def)

lemma update_existing_ok: "item_ok t \<Longrightarrow> item_ok (update_existing u t)"
  by (simp add: update_existing_def Let_def item_ok_def trimmed_trim)

definition index_ok :: "todo_item list \<Rightarrow> (string \<Rightarrow> nat option) \<Rightarrow> bool" where
  "index_ok out index \<longleftrightarrow> distinct (map t_id out) \<and>
     (\<forall>k i. index k = Some i \<longleftrightarrow> i < length out \<and> t_id (out ! i) = k)"

lemma index_okD:
  assumes "index_ok out index"
  shows "index k = None \<longleftrightarrow> k \<notin> t_id ` set out"
  using assms unfolding index_ok_def by (metis (no_types, lifting) imageE image_eqI in_set_conv_nth not_None_eq)

lemma update_ids: "map t_id (out[k := update_existing u (out ! k)]) = map t_id out"
  by (cases "k < length out") (simp_all add: map_update list_update_same_conv list_update_beyond)

lemma update_id_nth: "i < length out \<Longrightarrow> t_id (out[k := update_existing u (out ! k)] ! i) = t_id (out ! i)"
  using update_ids [of out k u] by (metis length_list_update nth_map)

lemma find_other: "item_key u \<notin> item_key ` set us \<Longrightarrow> t_id t = item_key u \<Longrightarrow> find (\<lambda>v. item_key v = t_id t) us = None"
  by (induction us) auto

lemma merge_spec_hit:
  assumes "index_ok out index" "index (item_key u) = Some k" "item_key u \<notin> item_key ` set us"
  shows "merge_spec (out[k := update_existing u (out ! k)]) us = merge_spec out (u # us)"
proof -
  have k: "k < length out" "t_id (out ! k) = item_key u" "distinct (map t_id out)"
    using assms by (auto simp: index_ok_def)
  have set_ids: "t_id ` set (out[k := update_existing u (out ! k)]) = t_id ` set out"
    using arg_cong [OF update_ids, of set] by simp
  have "map (updated us) (out[k := update_existing u (out ! k)]) = map (updated (u # us)) out"
  proof (rule nth_equalityI)
    fix i assume "i < length (map (updated us) (out[k := update_existing u (out ! k)]))"
    then have i: "i < length out" by simp
    show "map (updated us) (out[k := update_existing u (out ! k)]) ! i = map (updated (u # us)) out ! i"
    proof (cases "i = k")
      case True
      with k find_other [OF assms(3), of "update_existing u (out ! k)"] show ?thesis by (simp add: updated_def)
    next
      case False
      then have "t_id (out ! i) \<noteq> item_key u" using k i nth_eq_iff_index_eq [OF k(3), of i k] by simp
      with i False show ?thesis by (simp add: updated_def)
    qed
  qed simp
  moreover have "item_key u \<in> t_id ` set out" using k by (metis image_eqI nth_mem)
  ultimately show ?thesis by (simp add: merge_spec_def set_ids)
qed

lemma merge_spec_miss:
  assumes "item_key u \<notin> t_id ` set out" "item_key u \<notin> item_key ` set us"
  shows "merge_spec (out @ [normalize_todo_item u]) us = merge_spec out (u # us)"
proof -
  have "updated us (normalize_todo_item u) = normalize_todo_item u"
    using find_other [OF assms(2), of "normalize_todo_item u"] by (simp add: updated_def)
  moreover have "map (updated us) out = map (updated (u # us)) out"
    using assms(1) by (auto simp: updated_def)
  moreover have "filter (\<lambda>v. item_key v \<notin> t_id ` set (out @ [normalize_todo_item u])) us =
      filter (\<lambda>v. item_key v \<notin> t_id ` set out) us"
  proof (rule filter_cong [OF refl])
    fix v assume "v \<in> set us"
    then have "item_key v \<noteq> item_key u" using assms(2) by (metis image_eqI)
    then show "(item_key v \<notin> t_id ` set (out @ [normalize_todo_item u])) = (item_key v \<notin> t_id ` set out)" by simp
  qed
  ultimately show ?thesis using assms(1) by (simp add: merge_spec_def)
qed

lemma merge_item_skip: "\<not> usable u \<Longrightarrow> merge_item u p = p"
  by (cases p) (auto simp: merge_item_def usable_def Let_def)

lemma fold_merge_skip: "fold merge_item us p = fold merge_item (filter usable us) p"
  by (induction us arbitrary: p) (simp_all add: merge_item_skip)

lemma merge_item_cases:
  assumes "usable u"
  shows "index (item_key u) = None \<Longrightarrow>
       merge_item u (out, index) = (out @ [normalize_todo_item u], index(item_key u \<mapsto> length out))"
    and "index (item_key u) = Some k \<Longrightarrow> merge_item u (out, index) = (out[k := update_existing u (out ! k)], index)"
proof -
  have "is_object u" "item_key u \<noteq> []" using assms item_key_trimmed [of u] by (simp_all add: usable_def trimmed_def)
  with usable_key [OF assms]
  show "index (item_key u) = None \<Longrightarrow>
       merge_item u (out, index) = (out @ [normalize_todo_item u], index(item_key u \<mapsto> length out))"
    and "index (item_key u) = Some k \<Longrightarrow> merge_item u (out, index) = (out[k := update_existing u (out ! k)], index)"
    by (simp_all add: merge_item_def Let_def)
qed

lemma merge_item_step:
  assumes "index_ok out index" "usable u"
  shows "(case merge_item u (out, index) of (out', index') \<Rightarrow> index_ok out' index' \<and>
     (item_key u \<notin> item_key ` set us \<longrightarrow> merge_spec out' us = merge_spec out (u # us)))"
proof (cases "index (item_key u)")
  case None
  then have new: "item_key u \<notin> t_id ` set out" using index_okD [OF assms(1)] by simp
  have "merge_item u (out, index) = (out @ [normalize_todo_item u], index(item_key u \<mapsto> length out))"
    using assms(2) None by (rule merge_item_cases)
  moreover have "index_ok (out @ [normalize_todo_item u]) (index(item_key u \<mapsto> length out))"
    using assms(1) new unfolding index_ok_def
    by (auto simp: nth_append split: if_splits) (metis imageI nth_mem)
  ultimately show ?thesis using merge_spec_miss [OF new] by simp
next
  case (Some k)
  have "merge_item u (out, index) = (out[k := update_existing u (out ! k)], index)"
    using assms(2) Some by (rule merge_item_cases)
  moreover have "index_ok (out[k := update_existing u (out ! k)]) index"
    using assms(1) update_id_nth [of _ out k u] by (auto simp: index_ok_def update_ids)
  ultimately show ?thesis using merge_spec_hit [OF assms(1) Some] by simp
qed

lemma fold_merge_spec:
  "index_ok out index \<Longrightarrow> list_all usable us \<Longrightarrow> distinct (map item_key us) \<Longrightarrow>
     fst (fold merge_item us (out, index)) = merge_spec out us"
proof (induction us arbitrary: out index)
  case Nil
  show ?case by (simp add: merge_spec_def updated_def)
next
  case (Cons u us)
  obtain out' index' where m: "merge_item u (out, index) = (out', index')" by fastforce
  with merge_item_step [OF Cons.prems(1), of u us] Cons.prems
  have "index_ok out' index'" "merge_spec out' us = merge_spec out (u # us)" by auto
  with Cons m show ?case by simp
qed

lemma start_index_ok:
  assumes "distinct (map t_id out)"
  shows "index_ok out (fold (\<lambda>(i, t) m. m(t_id t \<mapsto> i)) (enumerate 0 out) (\<lambda>_. None))"
  using assms
proof (induction out rule: rev_induct)
  case (snoc t out)
  from snoc.prems have "distinct (map t_id out)" by simp
  note IH = snoc.IH [OF this]
  have new: "t_id t \<notin> t_id ` set out" using snoc.prems by simp
  show ?case
    using IH new unfolding index_ok_def
    by (auto simp: enumerate_append_eq nth_append split: if_splits) (metis imageI nth_mem)
qed (simp add: index_ok_def)

lemma updates_of_props: "list_all usable (updates_of raw)" "distinct (map item_key (updates_of raw))"
proof -
  show "list_all usable (updates_of raw)" by (simp add: updates_of_def list_all_iff)
  have "distinct (map item_key (dedupe_by_id raw))"
    by (cases raw) (simp_all add: dedupe_keep_last keep_last_distinct, simp_all add: dedupe_by_id_def)
  then show "distinct (map item_key (updates_of raw))" by (simp add: updates_of_def distinct_map_filter)
qed

lemma statuses_fixed: "list_all item_ok ts \<Longrightarrow> map (\<lambda>t. t\<lparr>t_status := normalize_todo_status (t_status t)\<rparr>) ts = ts"
  by (induction ts) (simp_all add: item_ok_def status_fixed)

lemma merge_is_spec: "list_ok current \<Longrightarrow> merge_todo_items current raw = merge_spec current (updates_of raw)"
  using fold_merge_spec [OF start_index_ok updates_of_props, of current raw]
  by (simp add: merge_todo_items_def Let_def list_ok_def statuses_fixed updates_of_def flip: fold_merge_skip)

lemma updated_ok: "item_ok t \<Longrightarrow> item_ok (updated us t) \<and> t_id (updated us t) = t_id t"
  by (simp add: updated_def update_existing_ok split: option.split)

lemma merge_keeps_ok: "list_ok current \<Longrightarrow> list_ok (merge_todo_items current raw)"
proof -
  assume ok: "list_ok current"
  let ?new = "filter (\<lambda>u. item_key u \<notin> t_id ` set current) (updates_of raw)"
  have "map t_id (map (updated (updates_of raw)) current) = map t_id current"
    using ok by (simp add: list_ok_def list_all_iff updated_ok)
  then have "map t_id (merge_spec current (updates_of raw)) = map t_id current @ map item_key ?new"
    by (simp add: merge_spec_def)
  moreover have "distinct (map item_key ?new)" using updates_of_props(2) by (rule distinct_map_filter)
  moreover have "set (map t_id current) \<inter> set (map item_key ?new) = {}" by (simp add: disjoint_iff image_iff) metis
  ultimately have "distinct (map t_id (merge_spec current (updates_of raw)))"
    using ok by (simp only: list_ok_def distinct_append)
  moreover have "list_all item_ok (merge_spec current (updates_of raw))"
    using ok by (auto simp: merge_spec_def list_ok_def list_all_iff updated_ok normalize_item_ok)
  ultimately show ?thesis unfolding merge_is_spec [OF ok] list_ok_def by simp
qed

lemma replace_ok: "list_ok (replace_todo_items raw)"
proof -
  have "distinct (map item_key (dedupe_by_id raw))"
    by (cases raw) (simp_all add: dedupe_keep_last keep_last_distinct, simp_all add: dedupe_by_id_def)
  then have "distinct (map item_key (filter is_object (dedupe_by_id raw)))" by (rule distinct_map_filter)
  then show ?thesis by (auto simp: list_ok_def replace_todo_items_def list_all_iff normalize_item_ok comp_def)
qed

section \<open>Stored lists\<close>

lemma field_todo_json:
  "todo_field (todo_item_to_json t) ''id'' = t_id t" "todo_field (todo_item_to_json t) ''content'' = t_content t"
  "todo_field (todo_item_to_json t) ''status'' = normalize_todo_status (t_status t)"
  by (simp_all add: todo_field_def todo_item_to_json_def)

lemma key_todo_json: "item_ok t \<Longrightarrow> item_key (todo_item_to_json t) = t_id t"
  by (simp add: item_key_def Let_def field_todo_json item_ok_def trimmed_def)

lemma item_roundtrip: "item_ok t \<Longrightarrow> normalize_todo_item (todo_item_to_json t) = t"
  by (simp add: normalize_todo_item_def key_todo_json field_todo_json Let_def)
    (simp add: item_ok_def trimmed_def status_fixed)

lemma is_object_todo_json [simp]: "is_object (todo_item_to_json t)"
  by (simp add: todo_item_to_json_def)

lemma keys_todo_json: "list_all item_ok ts \<Longrightarrow> map item_key (map todo_item_to_json ts) = map t_id ts"
  by (induction ts) (simp_all add: key_todo_json)

lemma items_roundtrip: "list_all item_ok ts \<Longrightarrow> map normalize_todo_item (map todo_item_to_json ts) = ts"
  by (induction ts) (simp_all add: item_roundtrip)

lemma filter_objects: "filter is_object (map todo_item_to_json ts) = map todo_item_to_json ts"
  by (induction ts) simp_all

lemma dedupe_stored: "list_ok ts \<Longrightarrow> dedupe_by_id (todo_items_to_json ts) = map todo_item_to_json ts"
  by (simp only: todo_items_to_json_def dedupe_keep_last list_ok_def keep_last_id keys_todo_json)

section \<open>The summary\<close>

definition count_of :: "string \<Rightarrow> (string \<times> json) list \<Rightarrow> int" where
  "count_of k m = (case map_of m k of Some (JInt n) \<Rightarrow> n | _ \<Rightarrow> 0)"

lemma count_of_bump: "count_of k (bump_count s m) = count_of k m + (if k = s then 1 else 0)"
  by (simp add: count_of_def bump_count_def update_conv')

lemma count_of_fold:
  "count_of k (fold (\<lambda>t. bump_count (normalize_todo_status (t_status t))) ts m) =
     count_of k m + int (length (filter (\<lambda>t. normalize_todo_status (t_status t) = k) ts))"
  by (induction ts arbitrary: m) (auto simp: count_of_bump)

definition summary_count :: "todo_item list \<Rightarrow> string \<Rightarrow> int" where
  "summary_count ts k = (case field (todo_summary_to_json ts) k of Some (JInt n) \<Rightarrow> n | _ \<Rightarrow> 0)"

lemma summary_count_eq:
  assumes "is_valid_todo_status k"
  shows "summary_count ts k = int (length (filter (\<lambda>t. normalize_todo_status (t_status t) = k) ts))"
proof -
  let ?m = "[(''total'', JInt (int (length ts))), (''pending'', JInt 0), (''in_progress'', JInt 0),
        (''completed'', JInt 0), (''cancelled'', JInt 0)]"
  have "summary_count ts k = count_of k (fold (\<lambda>t. bump_count (normalize_todo_status (t_status t))) ts ?m)"
    by (simp add: summary_count_def todo_summary_to_json_def count_of_def)
  moreover have "count_of k ?m = 0" using assms by (auto simp: is_valid_todo_status_def count_of_def)
  ultimately show ?thesis by (simp add: count_of_fold)
qed

lemma statuses_partition:
  "length ts = (\<Sum>k \<leftarrow> [''pending'', ''in_progress'', ''completed'', ''cancelled''].
     length (filter (\<lambda>t. normalize_todo_status (t_status t) = k) ts))"
proof (induction ts)
  case (Cons t ts)
  have "normalize_todo_status (t_status t) \<in> {''pending'', ''in_progress'', ''completed'', ''cancelled''}"
    using status_normal [of "t_status t"] by (auto simp: is_valid_todo_status_def)
  with Cons show ?case by auto
qed simp

text \<open>An update with a status the code does not know puts a finished item back to pending: the value is
  normalized before it is checked, so the check never refuses it.\<close>

lemma unknown_status_resets:
  "merge_todo_items [\<lparr>t_id = ''1'', t_content = ''x'', t_status = ''completed''\<rparr>]
     (JArr [JObj [(''id'', JStr ''1''), (''status'', JStr ''done'')]]) =
   [\<lparr>t_id = ''1'', t_content = ''x'', t_status = ''pending''\<rparr>]"
  by code_simp

interpretation todo_machine: op_machine "\<lambda>raw ts. merge_todo_items ts raw" list_ok
  by unfold_locales (rule merge_keeps_ok)

section \<open>Properties\<close>

text \<open>Whatever JSON the tool calls carry, after a replacement and any number of merges the ids of the
  task list are distinct and every item is normalized (trimmed, not empty, with a known status).\<close>

lemma todo_list_kept_normal:
  "list_ok (fold (\<lambda>raw ts. merge_todo_items ts raw) raws (replace_todo_items first))"
  by (rule todo_machine.run_inv [OF replace_ok])

text \<open>A normalized list that is stored as JSON is read back unchanged, by reading and by replacing,
  and its summary counts every item once under its status.\<close>

lemma todo_json_roundtrip:
  assumes "list_ok ts"
  shows "todo_items_from_json (todo_items_to_json ts) = ts \<and> replace_todo_items (todo_items_to_json ts) = ts \<and>
     int (length ts) = summary_count ts ''pending'' + summary_count ts ''in_progress'' +
       summary_count ts ''completed'' + summary_count ts ''cancelled''"
proof (intro conjI)
  have all: "list_all item_ok ts" using assms by (simp add: list_ok_def)
  show "todo_items_from_json (todo_items_to_json ts) = ts"
    using items_roundtrip [OF all] by (simp add: todo_items_from_json_def todo_items_to_json_def filter_objects)
  show "replace_todo_items (todo_items_to_json ts) = ts"
    using items_roundtrip [OF all] by (simp add: replace_todo_items_def dedupe_stored [OF assms] filter_objects)
  show "int (length ts) = summary_count ts ''pending'' + summary_count ts ''in_progress'' +
       summary_count ts ''completed'' + summary_count ts ''cancelled''"
    using statuses_partition [of ts] by (simp add: summary_count_eq is_valid_todo_status_def)
qed

text \<open>Merging refines its contract: the updates that name an id of the list change that item in place
  and only in the fields they carry, the others are appended in order, and nothing else changes.\<close>

lemma merge_refines_contract:
  assumes "list_ok current"
  shows "merge_todo_items current raw = merge_spec current (updates_of raw)"
  using assms by (rule merge_is_spec)

definition sample_todos :: "todo_item list" where
  "sample_todos = [\<lparr>t_id = ''1'', t_content = ''plan'', t_status = ''completed''\<rparr>,
     \<lparr>t_id = ''2'', t_content = ''build'', t_status = ''pending''\<rparr>]"

definition sample_update :: json where
  "sample_update = JArr [JObj [(''id'', JStr ''2''), (''status'', JStr ''in_progress'')],
     JObj [(''id'', JInt 3), (''content'', JStr ''ship'')]]"

lemma todo_json_roundtrip_witness:
  "replace_todo_items (todo_items_to_json sample_todos) = sample_todos"
proof -
  have "list_ok sample_todos" by code_simp
  with todo_json_roundtrip show ?thesis by blast
qed

lemma merge_refines_contract_witness:
  "merge_todo_items sample_todos sample_update =
     [\<lparr>t_id = ''1'', t_content = ''plan'', t_status = ''completed''\<rparr>,
      \<lparr>t_id = ''2'', t_content = ''build'', t_status = ''in_progress''\<rparr>,
      \<lparr>t_id = ''3'', t_content = ''ship'', t_status = ''pending''\<rparr>]"
proof -
  have "list_ok sample_todos" by code_simp
  then have "merge_todo_items sample_todos sample_update = merge_spec sample_todos (updates_of sample_update)"
    by (rule merge_refines_contract)
  also have "\<dots> = [\<lparr>t_id = ''1'', t_content = ''plan'', t_status = ''completed''\<rparr>,
      \<lparr>t_id = ''2'', t_content = ''build'', t_status = ''in_progress''\<rparr>,
      \<lparr>t_id = ''3'', t_content = ''ship'', t_status = ''pending''\<rparr>]" by code_simp
  finally show ?thesis .
qed

end
