(* ===== verification/Prompter.thy ===== *)
theory Prompter
  imports Permissions Json
begin

text \<open>
  \<open>session/permission_prompter.cpp\<close>: the blocking question whether a tool may run.  The prompting
  thread, the client's answer, a change of mode and the abort flag race; every locked section is one
  step of the model, and a response that looked up its request but has not delivered yet is in hand.
  A shared \<open>Pending\<close> object outlives its table entry, so objects and table are kept apart.  The id
  generator and the JSON parser are outside: an id is fresh when it names no object.
\<close>

section \<open>Choices\<close>

datatype decision_choice = ChoiceAllow | ChoiceDeny | ChoiceAllowSession

fun choice_name :: "decision_choice \<Rightarrow> string" where
  "choice_name ChoiceAllow = ''allow''"
| "choice_name ChoiceDeny = ''deny''"
| "choice_name ChoiceAllowSession = ''allow_session''"

definition parse_permission_choice :: "string \<Rightarrow> decision_choice option" where
  "parse_permission_choice s =
     (if s = ''allow'' then Some ChoiceAllow
      else if s = ''deny'' then Some ChoiceDeny
      else if s = ''allow_session'' then Some ChoiceAllowSession
      else None)"

fun to_permission_result :: "decision_choice \<Rightarrow> permission_result" where
  "to_permission_result ChoiceAllow = Allow"
| "to_permission_result ChoiceDeny = Deny"
| "to_permission_result ChoiceAllowSession = AlwaysAllow"

definition callback_prompt ::
  "(string \<Rightarrow> string \<Rightarrow> permission_result) option \<Rightarrow> string \<Rightarrow> string \<Rightarrow> permission_result" where
  "callback_prompt cb tool args = (case cb of None \<Rightarrow> Deny | Some f \<Rightarrow> f tool args)"

section \<open>State\<close>

record pending_request =
  p_responded :: bool
  p_choice :: decision_choice
  p_reason :: string
  p_tool :: string
  p_args :: json

text \<open>How far a call of \<open>prompt\<close> got; from \<open>Decided\<close> on with its choice, reason and timeout flag.\<close>

datatype prompt_phase =
  Registered
| Waiting
| Decided decision_choice string bool
| Removed decision_choice string bool
| Closed decision_choice string bool
| Returned decision_choice string bool

datatype prompt_event =
  PermissionRequest string string json
| PermissionClosed string string string
| PermissionTimeout string

fun event_id :: "prompt_event \<Rightarrow> string" where
  "event_id (PermissionRequest i t a) = i"
| "event_id (PermissionClosed i c r) = i"
| "event_id (PermissionTimeout i) = i"

record prompter =
  objects :: "string \<Rightarrow> pending_request option"
  open_ids :: "string set"
  phases :: "string \<Rightarrow> prompt_phase option"
  sent :: "prompt_event list"
  in_hand :: "(string \<times> decision_choice \<times> string) list"
  submitted :: "(string \<times> decision_choice) set"

definition new_prompter :: prompter where
  "new_prompter = \<lparr>objects = (\<lambda>_. None), open_ids = {}, phases = (\<lambda>_. None), sent = [], in_hand = [], submitted = {}\<rparr>"

section \<open>Locked sections\<close>

definition args_payload :: "(string \<Rightarrow> json option) \<Rightarrow> string \<Rightarrow> json" where
  "args_payload parse args = (case parse args of Some j \<Rightarrow> j | None \<Rightarrow> JStr args)"

definition register :: "string \<Rightarrow> string \<Rightarrow> json \<Rightarrow> prompter \<Rightarrow> prompter" where
  "register i tool args s =
     s\<lparr>objects := (objects s)(i \<mapsto> \<lparr>p_responded = False, p_choice = ChoiceDeny, p_reason = ''decision'',
                                p_tool = tool, p_args = args\<rparr>),
       open_ids := insert i (open_ids s), phases := (phases s)(i \<mapsto> Registered)\<rparr>"

definition emit_prompt :: "prompt_event \<Rightarrow> prompter \<Rightarrow> prompter" where
  "emit_prompt e s = s\<lparr>sent := sent s @ [e]\<rparr>"

definition set_phase :: "string \<Rightarrow> prompt_phase \<Rightarrow> prompter \<Rightarrow> prompter" where
  "set_phase i ph s = s\<lparr>phases := (phases s)(i \<mapsto> ph)\<rparr>"

text \<open>One round of the waiting loop: the object after it, and the outcome when the loop ends.\<close>

definition poll_pending ::
  "bool \<Rightarrow> bool \<Rightarrow> pending_request \<Rightarrow> pending_request \<times> (decision_choice \<times> string \<times> bool) option" where
  "poll_pending abort expired p =
     (if p_responded p then (p, Some (p_choice p, p_reason p, False))
      else if abort then
        (p\<lparr>p_choice := ChoiceDeny, p_reason := ''abort'', p_responded := True\<rparr>, Some (ChoiceDeny, ''abort'', False))
      else if expired then
        (p\<lparr>p_choice := ChoiceDeny, p_reason := ''timeout'', p_responded := True\<rparr>, Some (ChoiceDeny, ''timeout'', True))
      else (p, None))"

definition poll_prompt :: "string \<Rightarrow> bool \<Rightarrow> bool \<Rightarrow> pending_request \<Rightarrow> prompter \<Rightarrow> prompter" where
  "poll_prompt i abort expired p s =
     (case poll_pending abort expired p of (p', outcome) \<Rightarrow>
        s\<lparr>objects := (objects s)(i \<mapsto> p'),
          phases := (case outcome of Some (c, r, t) \<Rightarrow> (phases s)(i \<mapsto> Decided c r t) | None \<Rightarrow> phases s)\<rparr>)"

definition remove_pending :: "string \<Rightarrow> prompter \<Rightarrow> prompter" where
  "remove_pending i s = s\<lparr>open_ids := open_ids s - {i}\<rparr>"

text \<open>The second section of \<open>notify_decision\<close> and of each round of \<open>resolve_all\<close>.\<close>

definition answer_pending :: "decision_choice \<Rightarrow> string \<Rightarrow> pending_request \<Rightarrow> pending_request" where
  "answer_pending c r p =
     (if p_responded p then p else p\<lparr>p_choice := c, p_reason := r, p_responded := True\<rparr>)"

definition hand_over :: "(string \<times> decision_choice \<times> string) list \<Rightarrow> prompter \<Rightarrow> prompter" where
  "hand_over rs s =
     s\<lparr>in_hand := in_hand s @ rs, submitted := submitted s \<union> (\<lambda>(i, c, r). (i, c)) ` set rs\<rparr>"

definition notify_lookup :: "string \<Rightarrow> decision_choice \<Rightarrow> prompter \<Rightarrow> prompter" where
  "notify_lookup i c s = (if i \<notin> open_ids s then s else hand_over [(i, c, ''decision'')] s)"

definition resolve_lookup :: "string list \<Rightarrow> decision_choice \<Rightarrow> prompter \<Rightarrow> prompter" where
  "resolve_lookup ids c s = hand_over (map (\<lambda>i. (i, c, ''permission_mode_change'')) ids) s"

definition deliver_answer :: "string \<Rightarrow> decision_choice \<Rightarrow> string \<Rightarrow> prompter \<Rightarrow> prompter" where
  "deliver_answer i c r s = s\<lparr>objects := (objects s)(i := map_option (answer_pending c r) (objects s i))\<rparr>"

text \<open>The snapshot for a late client: the table is read first, then every object.\<close>

definition snapshot_ids :: "string list \<Rightarrow> prompter \<Rightarrow> string list" where
  "snapshot_ids ids s = filter (\<lambda>i. case objects s i of Some p \<Rightarrow> \<not> p_responded p | None \<Rightarrow> False) ids"

definition snapshot_pending_requests :: "string list \<Rightarrow> prompter \<Rightarrow> json list" where
  "snapshot_pending_requests ids s =
     map (\<lambda>i. case objects s i of
        Some p \<Rightarrow> JObj [(''request_id'', JStr i), (''tool'', JStr (p_tool p)), (''args'', p_args p)]
      | None \<Rightarrow> JNull) (snapshot_ids ids s)"

section \<open>Steps\<close>

inductive prompt_step :: "(string \<Rightarrow> json option) \<Rightarrow> bool \<Rightarrow> prompter \<Rightarrow> prompter \<Rightarrow> bool"
  for parse :: "string \<Rightarrow> json option" and has_timeout :: bool where
  call: "objects s i = None \<Longrightarrow> prompt_step parse has_timeout s (register i tool (args_payload parse args) s)"
| announce: "phases s i = Some Registered \<Longrightarrow> objects s i = Some p \<Longrightarrow>
     prompt_step parse has_timeout s (set_phase i Waiting (emit_prompt (PermissionRequest i (p_tool p) (p_args p)) s))"
| poll: "phases s i = Some Waiting \<Longrightarrow> objects s i = Some p \<Longrightarrow>
     prompt_step parse has_timeout s (poll_prompt i abort (has_timeout \<and> late) p s)"
| remove: "phases s i = Some (Decided c r t) \<Longrightarrow>
     prompt_step parse has_timeout s (set_phase i (Removed c r t) (remove_pending i s))"
| close: "phases s i = Some (Removed c r t) \<Longrightarrow>
     prompt_step parse has_timeout s (set_phase i (Closed c r t) (emit_prompt (PermissionClosed i (choice_name c) r) s))"
| finish: "phases s i = Some (Closed c r t) \<Longrightarrow>
     prompt_step parse has_timeout s
       (set_phase i (Returned c r t) (if t then emit_prompt (PermissionTimeout i) s else s))"
| notify: "prompt_step parse has_timeout s (notify_lookup i c s)"
| resolve: "set ids = open_ids s \<Longrightarrow> prompt_step parse has_timeout s (resolve_lookup ids c s)"
| deliver: "in_hand s = us @ (i, c, r) # vs \<Longrightarrow>
     prompt_step parse has_timeout s (deliver_answer i c r (s\<lparr>in_hand := us @ vs\<rparr>))"

inductive_cases prompt_stepE: "prompt_step parse has_timeout s s'"

inductive prompt_reachable :: "(string \<Rightarrow> json option) \<Rightarrow> bool \<Rightarrow> prompter \<Rightarrow> bool"
  for parse :: "string \<Rightarrow> json option" and has_timeout :: bool where
  init: "prompt_reachable parse has_timeout new_prompter"
| step: "prompt_reachable parse has_timeout s \<Longrightarrow> prompt_step parse has_timeout s s' \<Longrightarrow>
     prompt_reachable parse has_timeout s'"

section \<open>Invariant\<close>

definition events_of :: "string \<Rightarrow> prompter \<Rightarrow> prompt_event list" where
  "events_of i s = filter (\<lambda>e. event_id e = i) (sent s)"

text \<open>The outcome a phase carries, and the events a request has caused by then.\<close>

fun phase_outcome :: "prompt_phase \<Rightarrow> (decision_choice \<times> string \<times> bool) option" where
  "phase_outcome Registered = None"
| "phase_outcome Waiting = None"
| "phase_outcome (Decided c r t) = Some (c, r, t)"
| "phase_outcome (Removed c r t) = Some (c, r, t)"
| "phase_outcome (Closed c r t) = Some (c, r, t)"
| "phase_outcome (Returned c r t) = Some (c, r, t)"

fun phase_open :: "prompt_phase \<Rightarrow> bool" where
  "phase_open Registered = True"
| "phase_open Waiting = True"
| "phase_open (Decided c r t) = True"
| "phase_open _ = False"

fun phase_events :: "string \<Rightarrow> pending_request \<Rightarrow> prompt_phase \<Rightarrow> prompt_event list" where
  "phase_events i p Registered = []"
| "phase_events i p (Closed c r t) =
     [PermissionRequest i (p_tool p) (p_args p), PermissionClosed i (choice_name c) r]"
| "phase_events i p (Returned c r t) =
     [PermissionRequest i (p_tool p) (p_args p), PermissionClosed i (choice_name c) r] @
       (if t then [PermissionTimeout i] else [])"
| "phase_events i p _ = [PermissionRequest i (p_tool p) (p_args p)]"

definition pending_ok :: "string \<Rightarrow> prompter \<Rightarrow> pending_request \<Rightarrow> prompt_phase \<Rightarrow> bool" where
  "pending_ok i s p ph \<longleftrightarrow>
     (p_responded p \<longrightarrow> p_choice p = ChoiceDeny \<or> (i, p_choice p) \<in> submitted s) \<and>
     (i \<in> open_ids s \<longleftrightarrow> phase_open ph) \<and> events_of i s = phase_events i p ph \<and>
     (case phase_outcome ph of
        Some (c, r, t) \<Rightarrow> p_responded p \<and> p_choice p = c \<and> p_reason p = r \<and> (t \<longrightarrow> c = ChoiceDeny)
      | None \<Rightarrow> True)"

definition request_ok :: "string \<Rightarrow> prompter \<Rightarrow> bool" where
  "request_ok i s \<longleftrightarrow>
     (case (objects s i, phases s i) of
        (None, None) \<Rightarrow> i \<notin> open_ids s \<and> events_of i s = []
      | (Some p, Some ph) \<Rightarrow> pending_ok i s p ph
      | _ \<Rightarrow> False)"

definition hand_ok :: "prompter \<Rightarrow> bool" where
  "hand_ok s \<longleftrightarrow> (\<forall>i c r. (i, c, r) \<in> set (in_hand s) \<longrightarrow> objects s i \<noteq> None \<and> (i, c) \<in> submitted s)"

definition prompter_inv :: "prompter \<Rightarrow> bool" where
  "prompter_inv s \<longleftrightarrow> (\<forall>i. request_ok i s) \<and> hand_ok s"

lemma phase_events_answer [simp]: "phase_events i (answer_pending c r p) ph = phase_events i p ph"
  by (cases ph) (simp_all add: answer_pending_def)

lemma answered_choice:
  "(i, c) \<in> A \<Longrightarrow> (p_responded p \<longrightarrow> p_choice p = ChoiceDeny \<or> (i, p_choice p) \<in> A) \<Longrightarrow>
     p_choice (answer_pending c r p) = ChoiceDeny \<or> (i, p_choice (answer_pending c r p)) \<in> A"
  by (simp add: answer_pending_def)

lemma answer_pending_decided: "p_responded p \<Longrightarrow> answer_pending c r p = p"
  by (simp add: answer_pending_def)

lemma request_ok_cong:
  assumes "request_ok i s" "objects s' i = objects s i" "phases s' i = phases s i"
    and "i \<in> open_ids s' \<longleftrightarrow> i \<in> open_ids s" "events_of i s' = events_of i s" "submitted s \<subseteq> submitted s'"
  shows "request_ok i s'"
  using assms by (auto simp: request_ok_def pending_ok_def split: option.splits)

lemma request_okD:
  assumes "request_ok i s" "phases s i = Some ph"
  obtains p where "objects s i = Some p" "pending_ok i s p ph"
  using assms by (auto simp: request_ok_def split: option.splits)

lemma request_okI: "objects s i = Some p \<Longrightarrow> phases s i = Some ph \<Longrightarrow> pending_ok i s p ph \<Longrightarrow> request_ok i s"
  by (simp add: request_ok_def)

lemma events_of_emit:
  "events_of i (emit_prompt e s) = (if event_id e = i then events_of i s @ [e] else events_of i s)"
  by (simp add: events_of_def emit_prompt_def)

lemma prompter_fields [simp]:
  "objects (emit_prompt e s) = objects s" "phases (emit_prompt e s) = phases s" "open_ids (emit_prompt e s) = open_ids s"
  "submitted (emit_prompt e s) = submitted s" "in_hand (emit_prompt e s) = in_hand s"
  "objects (set_phase i ph s) = objects s" "phases (set_phase i ph s) = (phases s)(i \<mapsto> ph)"
  "open_ids (set_phase i ph s) = open_ids s" "submitted (set_phase i ph s) = submitted s"
  "in_hand (set_phase i ph s) = in_hand s" "events_of j (set_phase i ph s) = events_of j s"
  "objects (remove_pending i s) = objects s" "phases (remove_pending i s) = phases s"
  "open_ids (remove_pending i s) = open_ids s - {i}" "submitted (remove_pending i s) = submitted s"
  "in_hand (remove_pending i s) = in_hand s" "events_of j (remove_pending i s) = events_of j s"
  "events_of j (s\<lparr>in_hand := hs\<rparr>) = events_of j s"
  by (simp_all add: emit_prompt_def set_phase_def remove_pending_def events_of_def)

text \<open>A step that moves one call along keeps the invariant when it does so for that call.\<close>

lemma advance_inv:
  assumes "prompter_inv s" "request_ok i s'"
    and "\<And>j. j \<noteq> i \<Longrightarrow> objects s' j = objects s j \<and> phases s' j = phases s j \<and>
           (j \<in> open_ids s' \<longleftrightarrow> j \<in> open_ids s) \<and> events_of j s' = events_of j s"
    and "submitted s' = submitted s" "in_hand s' = in_hand s" "objects s i \<noteq> None \<longrightarrow> objects s' i \<noteq> None"
  shows "prompter_inv s'"
proof -
  have "request_ok j s'" for j
  proof (cases "j = i")
    case False
    with assms show ?thesis by (intro request_ok_cong [of j s s']) (auto simp: prompter_inv_def)
  qed (use assms in simp)
  moreover have "objects s j \<noteq> None \<longrightarrow> objects s' j \<noteq> None" for j
    using assms(3) [of j] assms(6) by (cases "j = i") auto
  then have "hand_ok s'" using assms(1,4,5) by (fastforce simp: prompter_inv_def hand_ok_def)
  ultimately show ?thesis by (simp add: prompter_inv_def)
qed

lemma register_inv:
  assumes "prompter_inv s" "objects s i = None"
  shows "prompter_inv (register i tool args s)"
proof (rule advance_inv [OF assms(1), where i = i])
  have "events_of i s = []"
    using assms by (auto simp: prompter_inv_def request_ok_def split: option.splits dest!: spec [of _ i])
  then show "request_ok i (register i tool args s)"
    by (simp add: request_ok_def pending_ok_def register_def events_of_def)
qed (simp_all add: register_def events_of_def)

lemma announce_inv:
  assumes "prompter_inv s" "phases s i = Some Registered" "objects s i = Some p"
  shows "prompter_inv (set_phase i Waiting (emit_prompt (PermissionRequest i (p_tool p) (p_args p)) s))"
proof (rule advance_inv [OF assms(1), where i = i])
  have "request_ok i s" using assms(1) by (simp add: prompter_inv_def)
  with assms(2,3) have "pending_ok i s p Registered" by (auto elim: request_okD)
  then show "request_ok i (set_phase i Waiting (emit_prompt (PermissionRequest i (p_tool p) (p_args p)) s))"
    using assms(3) by (intro request_okI) (auto simp: pending_ok_def events_of_emit)
qed (simp_all add: events_of_emit)

lemma poll_inv:
  assumes "prompter_inv s" "phases s i = Some Waiting" "objects s i = Some p"
  shows "prompter_inv (poll_prompt i abort expired p s)"
proof (rule advance_inv [OF assms(1), where i = i])
  have "request_ok i s" using assms(1) by (simp add: prompter_inv_def)
  with assms(2,3) have ok: "pending_ok i s p Waiting" by (auto elim: request_okD)
  show "request_ok i (poll_prompt i abort expired p s)"
    using ok assms(2) by (auto simp: request_ok_def pending_ok_def poll_prompt_def poll_pending_def events_of_def)
qed (auto simp: poll_prompt_def poll_pending_def events_of_def split: prod.split option.split)

lemma remove_inv:
  assumes "prompter_inv s" "phases s i = Some (Decided c r t)"
  shows "prompter_inv (set_phase i (Removed c r t) (remove_pending i s))"
proof (rule advance_inv [OF assms(1), where i = i])
  have "request_ok i s" using assms(1) by (simp add: prompter_inv_def)
  from request_okD [OF this assms(2)] obtain p where p: "objects s i = Some p" "pending_ok i s p (Decided c r t)" .
  then show "request_ok i (set_phase i (Removed c r t) (remove_pending i s))"
    by (intro request_okI) (auto simp: pending_ok_def)
qed simp_all

lemma close_inv:
  assumes "prompter_inv s" "phases s i = Some (Removed c r t)"
  shows "prompter_inv (set_phase i (Closed c r t) (emit_prompt (PermissionClosed i (choice_name c) r) s))"
proof (rule advance_inv [OF assms(1), where i = i])
  have "request_ok i s" using assms(1) by (simp add: prompter_inv_def)
  from request_okD [OF this assms(2)] obtain p where p: "objects s i = Some p" "pending_ok i s p (Removed c r t)" .
  then show "request_ok i (set_phase i (Closed c r t) (emit_prompt (PermissionClosed i (choice_name c) r) s))"
    by (intro request_okI) (auto simp: pending_ok_def events_of_emit)
qed (simp_all add: events_of_emit)

lemma finish_inv:
  assumes "prompter_inv s" "phases s i = Some (Closed c r t)"
  shows "prompter_inv (set_phase i (Returned c r t) (if t then emit_prompt (PermissionTimeout i) s else s))"
proof (rule advance_inv [OF assms(1), where i = i])
  have "request_ok i s" using assms(1) by (simp add: prompter_inv_def)
  from request_okD [OF this assms(2)] obtain p where p: "objects s i = Some p" "pending_ok i s p (Closed c r t)" .
  then show "request_ok i (set_phase i (Returned c r t) (if t then emit_prompt (PermissionTimeout i) s else s))"
    by (intro request_okI) (auto simp: pending_ok_def events_of_emit)
qed (simp_all add: events_of_emit)

lemma hand_over_inv:
  assumes "prompter_inv s" "\<forall>(i, c, r)\<in>set rs. i \<in> open_ids s"
  shows "prompter_inv (hand_over rs s)"
proof -
  have ok: "request_ok i s" for i using assms(1) by (simp add: prompter_inv_def)
  have "request_ok i (hand_over rs s)" for i
    by (rule request_ok_cong [OF ok]) (auto simp: hand_over_def events_of_def)
  moreover have obj: "objects s i \<noteq> None" if "i \<in> open_ids s" for i
    using ok [of i] that by (auto simp: request_ok_def split: option.splits)
  have "objects s i \<noteq> None \<and> (i, c) \<in> submitted (hand_over rs s)" if "(i, c, r) \<in> set (in_hand s @ rs)" for i c r
  proof (cases "(i, c, r) \<in> set rs")
    case True
    then have "(i, c) \<in> (\<lambda>(i, c, r). (i, c)) ` set rs" by force
    with True obj [of i] assms(2) show ?thesis by (auto simp: hand_over_def)
  next
    case False
    with that have "(i, c, r) \<in> set (in_hand s)" by simp
    with assms(1) have "objects s i \<noteq> None \<and> (i, c) \<in> submitted s" unfolding prompter_inv_def hand_ok_def by blast
    then show ?thesis by (simp add: hand_over_def)
  qed
  then have "hand_ok (hand_over rs s)" by (auto simp: hand_ok_def hand_over_def)
  ultimately show ?thesis by (simp add: prompter_inv_def)
qed

lemma deliver_inv:
  assumes "prompter_inv s" "in_hand s = us @ (i, c, r) # vs"
  shows "prompter_inv (deliver_answer i c r (s\<lparr>in_hand := us @ vs\<rparr>))"
proof -
  have sub: "(i, c) \<in> submitted s" using assms by (auto simp: prompter_inv_def hand_ok_def)
  have "request_ok j (deliver_answer i c r (s\<lparr>in_hand := us @ vs\<rparr>))" for j
  proof (cases "j = i")
    case True
    have "request_ok i s" using assms(1) by (simp add: prompter_inv_def)
    then show ?thesis
    proof (cases "phases s i")
      case (Some ph)
      obtain p where p: "objects s i = Some p" "pending_ok i s p ph"
        using request_okD [OF \<open>request_ok i s\<close> Some] .
      let ?p = "answer_pending c r p"
      have "p_choice ?p = ChoiceDeny \<or> (i, p_choice ?p) \<in> submitted s"
        using p(2) sub by (intro answered_choice) (auto simp: pending_ok_def)
      with p have "pending_ok i (deliver_answer i c r (s\<lparr>in_hand := us @ vs\<rparr>)) ?p ph"
        by (auto simp: pending_ok_def deliver_answer_def events_of_def answer_pending_decided split: option.splits)
      with p Some True show ?thesis by (intro request_okI) (auto simp: deliver_answer_def)
    qed (use True in \<open>auto simp: request_ok_def deliver_answer_def events_of_def split: option.splits\<close>)
  next
    case False
    have "request_ok j s" using assms(1) by (simp add: prompter_inv_def)
    then show ?thesis
      by (rule request_ok_cong) (use False in \<open>auto simp: deliver_answer_def events_of_def\<close>)
  qed
  moreover have "hand_ok (deliver_answer i c r (s\<lparr>in_hand := us @ vs\<rparr>))"
    using assms by (auto simp: prompter_inv_def hand_ok_def deliver_answer_def)
  ultimately show ?thesis by (simp add: prompter_inv_def)
qed

lemma prompt_step_inv: "prompt_step parse has_timeout s s' \<Longrightarrow> prompter_inv s \<Longrightarrow> prompter_inv s'"
proof (induction rule: prompt_step.induct)
  case (notify s i c)
  then show ?case by (auto simp: notify_lookup_def intro!: hand_over_inv)
next
  case (resolve ids s c)
  then show ?case by (auto simp: resolve_lookup_def intro!: hand_over_inv)
qed (simp_all add: register_inv announce_inv poll_inv remove_inv close_inv finish_inv deliver_inv)

lemma prompt_reachable_inv: "prompt_reachable parse has_timeout s \<Longrightarrow> prompter_inv s"
proof (induction rule: prompt_reachable.induct)
  case init
  show ?case by (simp add: prompter_inv_def hand_ok_def request_ok_def new_prompter_def events_of_def)
qed (rule prompt_step_inv)

lemma prompt_reachable_pending:
  assumes "prompt_reachable parse has_timeout s" "phases s i = Some ph"
  obtains p where "objects s i = Some p" "pending_ok i s p ph"
proof -
  have "request_ok i s" using prompt_reachable_inv [OF assms(1)] by (simp add: prompter_inv_def)
  from request_okD [OF this assms(2)] that show thesis .
qed

text \<open>The answer of a request, and that the first one stays.\<close>

definition answer_of :: "string \<Rightarrow> prompter \<Rightarrow> (decision_choice \<times> string) option" where
  "answer_of i s = (case objects s i of
     Some p \<Rightarrow> if p_responded p then Some (p_choice p, p_reason p) else None | None \<Rightarrow> None)"

lemma prompt_answer_kept:
  "prompt_step parse has_timeout s s' \<Longrightarrow> answer_of i s = Some a \<Longrightarrow> answer_of i s' = Some a"
proof (induction rule: prompt_step.induct)
  case (call s j tool args)
  then show ?case by (auto simp: answer_of_def register_def split: option.splits)
next
  case (poll s j p abort late)
  then show ?case
    by (auto simp: answer_of_def poll_prompt_def poll_pending_def split: option.splits if_splits)
next
  case (notify s j c)
  then show ?case by (simp add: answer_of_def notify_lookup_def hand_over_def)
next
  case (resolve ids s c)
  then show ?case by (simp add: answer_of_def resolve_lookup_def hand_over_def)
next
  case (deliver s us j c r vs)
  then show ?case by (auto simp: answer_of_def deliver_answer_def answer_pending_def split: option.splits if_splits)
qed (simp_all add: answer_of_def)

interpretation prompt_answer: first_answer "prompt_step parse has_timeout" "answer_of i" for parse has_timeout i
  by unfold_locales (rule prompt_answer_kept)

lemma answered_not_in_snapshot: "answer_of i s \<noteq> None \<Longrightarrow> i \<notin> set (snapshot_ids ids s)"
  by (auto simp: answer_of_def snapshot_ids_def split: option.splits if_splits)

section \<open>Properties\<close>

text \<open>C35: A prompt that returns anything but a refusal was answered: in every interleaving of prompts,
  decisions, mode changes, aborts and timeouts, a call that returns Allow or AlwaysAllow returns a
  choice that was submitted for its request id, and a timeout always refuses.\<close>

theorem prompt_needs_consent:
  assumes "prompt_reachable parse has_timeout s" "phases s i = Some (Returned c r t)"
    and "to_permission_result c \<noteq> Deny"
  shows "(i, c) \<in> submitted s \<and> \<not> t"
proof -
  obtain p where "objects s i = Some p" "pending_ok i s p (Returned c r t)"
    using prompt_reachable_pending [OF assms(1,2)] .
  with assms(3) show ?thesis by (cases c) (auto simp: pending_ok_def)
qed

text \<open>Clients see every prompt that has returned as one request, one closing event with the choice
  and reason it returned, and after that, only when it timed out, the timeout error; and the request is
  no longer open.\<close>

lemma prompt_events_in_order:
  assumes "prompt_reachable parse has_timeout s" "phases s i = Some (Returned c r t)"
  shows "\<exists>tool args. events_of i s =
     [PermissionRequest i tool args, PermissionClosed i (choice_name c) r] @ (if t then [PermissionTimeout i] else [])
     \<and> i \<notin> open_ids s"
proof -
  obtain p where "objects s i = Some p" "pending_ok i s p (Returned c r t)"
    using prompt_reachable_pending [OF assms] .
  then show ?thesis by (auto simp: pending_ok_def)
qed

text \<open>The first answer wins: once a request has one, from whichever party, no later decision, mode
  change, abort or timeout changes it, the call returns exactly that choice and reason, and the request
  is not offered to late clients any more.\<close>

lemma first_answer_wins:
  assumes "prompt_reachable parse has_timeout s" "answer_of i s = Some a"
    and "(prompt_step parse has_timeout)\<^sup>*\<^sup>* s s'"
  shows "answer_of i s' = Some a \<and> i \<notin> set (snapshot_ids ids s') \<and>
     (\<forall>c r t. phases s' i = Some (Returned c r t) \<longrightarrow> (c, r) = a)"
proof -
  have "prompt_reachable parse has_timeout s'"
    using assms(3,1) by (induction rule: rtranclp_induct) (auto intro: prompt_reachable.step)
  moreover have a: "answer_of i s' = Some a" using prompt_answer.answer_final [OF assms(3,2)] .
  ultimately have "(c, r) = a" if "phases s' i = Some (Returned c r t)" for c r t
    using prompt_reachable_pending [of parse has_timeout s' i "Returned c r t"] that
    by (auto simp: pending_ok_def answer_of_def split: option.splits if_splits)
  with a answered_not_in_snapshot [of i s' ids] show ?thesis by auto
qed

text \<open>A run in which the client allows a command: the call announces the request, the decision is
  looked up and delivered, and the call returns.\<close>

definition asked :: prompter where
  "asked = set_phase ''r'' Waiting (emit_prompt (PermissionRequest ''r'' ''bash'' (JStr ''ls''))
     (register ''r'' ''bash'' (JStr ''ls'') new_prompter))"

definition decided :: prompter where
  "decided = deliver_answer ''r'' ChoiceAllow ''decision'' ((notify_lookup ''r'' ChoiceAllow asked)\<lparr>in_hand := []\<rparr>)"

definition polled :: prompter where
  "polled = poll_prompt ''r'' False False
     \<lparr>p_responded = True, p_choice = ChoiceAllow, p_reason = ''decision'', p_tool = ''bash'', p_args = JStr ''ls''\<rparr> decided"

definition finished :: prompter where
  "finished = set_phase ''r'' (Returned ChoiceAllow ''decision'' False)
     (set_phase ''r'' (Closed ChoiceAllow ''decision'' False)
       (emit_prompt (PermissionClosed ''r'' ''allow'' ''decision'')
         (set_phase ''r'' (Removed ChoiceAllow ''decision'' False) (remove_pending ''r'' polled))))"

lemmas sample_defs = asked_def decided_def polled_def finished_def register_def emit_prompt_def set_phase_def
  notify_lookup_def hand_over_def deliver_answer_def answer_pending_def poll_prompt_def poll_pending_def
  remove_pending_def new_prompter_def

lemma decided_reachable: "prompt_reachable (\<lambda>_. None) False decided"
proof -
  let ?s1 = "register ''r'' ''bash'' (JStr ''ls'') new_prompter"
  have "prompt_reachable (\<lambda>_. None) False ?s1"
    using prompt_reachable.step [OF prompt_reachable.init prompt_step.call
        [where parse = "\<lambda>_. None" and has_timeout = False and i = "''r''" and tool = "''bash''" and args = "''ls''"]]
    by (simp add: args_payload_def new_prompter_def)
  moreover have "prompt_step (\<lambda>_. None) False ?s1 asked"
    using prompt_step.announce [of ?s1 "''r''" "\<lparr>p_responded = False, p_choice = ChoiceDeny, p_reason = ''decision'',
        p_tool = ''bash'', p_args = JStr ''ls''\<rparr>" "\<lambda>_. None" False]
    by (simp add: asked_def register_def)
  ultimately have "prompt_reachable (\<lambda>_. None) False asked" by (rule prompt_reachable.step)
  then have "prompt_reachable (\<lambda>_. None) False (notify_lookup ''r'' ChoiceAllow asked)"
    by (rule prompt_reachable.step) (rule prompt_step.notify)
  then show ?thesis
    unfolding decided_def
    by (rule prompt_reachable.step)
      (use prompt_step.deliver [of "notify_lookup ''r'' ChoiceAllow asked" "[]" "''r''" ChoiceAllow "''decision''" "[]"]
        in \<open>simp add: sample_defs\<close>)
qed

lemma finished_steps: "(prompt_step (\<lambda>_. None) False)\<^sup>*\<^sup>* decided finished"
proof -
  let ?s4 = "set_phase ''r'' (Removed ChoiceAllow ''decision'' False) (remove_pending ''r'' polled)"
  let ?s5 = "set_phase ''r'' (Closed ChoiceAllow ''decision'' False)
       (emit_prompt (PermissionClosed ''r'' ''allow'' ''decision'') ?s4)"
  have "prompt_step (\<lambda>_. None) False decided polled"
    using prompt_step.poll [of decided "''r''" "\<lparr>p_responded = True, p_choice = ChoiceAllow, p_reason = ''decision'',
        p_tool = ''bash'', p_args = JStr ''ls''\<rparr>" "\<lambda>_. None" False False False]
    unfolding polled_def by (simp add: sample_defs)
  moreover have "phases polled ''r'' = Some (Decided ChoiceAllow ''decision'' False)" by (simp add: sample_defs)
  then have "prompt_step (\<lambda>_. None) False polled ?s4" by (rule prompt_step.remove)
  moreover have "prompt_step (\<lambda>_. None) False ?s4 ?s5"
    using prompt_step.close [of ?s4 "''r''" ChoiceAllow "''decision''" False] by simp
  moreover have "prompt_step (\<lambda>_. None) False ?s5 finished"
    using prompt_step.finish [of ?s5 "''r''" ChoiceAllow "''decision''" False] unfolding finished_def by simp
  ultimately show ?thesis by (meson converse_rtranclp_into_rtranclp rtranclp.rtrancl_refl)
qed

lemma finished_reachable: "prompt_reachable (\<lambda>_. None) False finished"
  using finished_steps decided_reachable by (induction rule: rtranclp_induct) (auto intro: prompt_reachable.step)

lemma finished_phase: "phases finished ''r'' = Some (Returned ChoiceAllow ''decision'' False)"
  by (simp add: finished_def)

theorem prompt_needs_consent_witness: "(''r'', ChoiceAllow) \<in> submitted finished"
  using prompt_needs_consent [OF finished_reachable finished_phase] by simp

lemma prompt_events_in_order_witness:
  "\<exists>tool args. events_of ''r'' finished = [PermissionRequest ''r'' tool args, PermissionClosed ''r'' ''allow'' ''decision'']"
  using prompt_events_in_order [OF finished_reachable finished_phase] by auto

lemma first_answer_wins_witness: "answer_of ''r'' finished = Some (ChoiceAllow, ''decision'')"
proof -
  have "answer_of ''r'' decided = Some (ChoiceAllow, ''decision'')" by (simp add: answer_of_def sample_defs)
  from first_answer_wins [OF decided_reachable this finished_steps] show ?thesis by blast
qed

end
