(* ===== verification/QuestionPrompter.thy ===== *)
theory QuestionPrompter
  imports Json
begin

text \<open>
  \<open>session/ask_user_question_prompter.cpp\<close>: a batch of questions the agent asks the user.  As with
  permissions the asking thread races with answers, aborts and the deadline; here the answering client
  is told whether its response won.  One locked section is one step; \<open>won\<close> records the responses whose
  \<open>notify_response\<close> returned true.  The clock and the id generator are the environment's.
\<close>

record question_answer =
  a_question_id :: string
  a_selected :: "string list"
  a_custom_text :: string

record question_response =
  r_cancelled :: bool
  r_timed_out :: bool
  r_answers :: "question_answer list"

definition no_response :: question_response where
  "no_response = \<lparr>r_cancelled = False, r_timed_out = False, r_answers = []\<rparr>"

record question =
  q_responded :: bool
  q_accepting :: bool
  q_response :: question_response
  q_questions :: json
  q_timeout_ms :: int
  q_order :: nat
  q_created :: int
  q_deadline :: "int option"

datatype question_phase =
  Asked
| Awaiting
| Settled question_response string
| Dropped question_response string
| Answered question_response string

datatype question_event =
  QuestionRequest string json int nat
| QuestionClosed string string

fun question_event_id :: "question_event \<Rightarrow> string" where
  "question_event_id (QuestionRequest i q t n) = i"
| "question_event_id (QuestionClosed i r) = i"

record questions =
  q_objects :: "string \<Rightarrow> question option"
  q_table :: "string set"
  q_order_list :: "string list"
  q_next_order :: nat
  q_phases :: "string \<Rightarrow> question_phase option"
  q_sent :: "question_event list"
  q_in_hand :: "(string \<times> question_response) list"
  won :: "(string \<times> question_response) list"

definition no_questions :: questions where
  "no_questions = \<lparr>q_objects = (\<lambda>_. None), q_table = {}, q_order_list = [], q_next_order = 0, q_phases = (\<lambda>_. None),
     q_sent = [], q_in_hand = [], won = []\<rparr>"

section \<open>Locked sections\<close>

text \<open>A timeout of zero or less waits without a deadline.\<close>

definition new_question :: "json \<Rightarrow> int \<Rightarrow> int \<Rightarrow> nat \<Rightarrow> question" where
  "new_question payload timeout now order =
     \<lparr>q_responded = False, q_accepting = True, q_response = no_response, q_questions = payload,
      q_timeout_ms = (if timeout > 0 then timeout else 0), q_order = order, q_created = now,
      q_deadline = (if timeout > 0 then Some (now + timeout) else None)\<rparr>"

definition ask :: "string \<Rightarrow> json \<Rightarrow> int \<Rightarrow> int \<Rightarrow> questions \<Rightarrow> questions" where
  "ask i payload timeout now s =
     (let order = Suc (q_next_order s)
      in s\<lparr>q_next_order := order, q_objects := (q_objects s)(i \<mapsto> new_question payload timeout now order),
           q_table := insert i (q_table s), q_order_list := q_order_list s @ [i],
           q_phases := (q_phases s)(i \<mapsto> Asked)\<rparr>)"

definition q_emit :: "question_event \<Rightarrow> questions \<Rightarrow> questions" where
  "q_emit e s = s\<lparr>q_sent := q_sent s @ [e]\<rparr>"

definition q_set_phase :: "string \<Rightarrow> question_phase \<Rightarrow> questions \<Rightarrow> questions" where
  "q_set_phase i ph s = s\<lparr>q_phases := (q_phases s)(i \<mapsto> ph)\<rparr>"

text \<open>One round of the waiting loop.\<close>

definition poll_question :: "bool \<Rightarrow> int \<Rightarrow> question \<Rightarrow> question \<times> (question_response \<times> string) option" where
  "poll_question abort now q =
     (if q_responded q then
        (q\<lparr>q_accepting := False\<rparr>,
         Some (q_response q, if r_cancelled (q_response q) then ''cancelled'' else ''answered''))
      else if abort then
        (q\<lparr>q_accepting := False\<rparr>, Some (no_response\<lparr>r_cancelled := True\<rparr>, ''aborted''))
      else if (case q_deadline q of Some d \<Rightarrow> now \<ge> d | None \<Rightarrow> False) then
        (q\<lparr>q_accepting := False\<rparr>, Some (no_response\<lparr>r_timed_out := True\<rparr>, ''timeout''))
      else (q, None))"

definition poll_prompt_loop :: "string \<Rightarrow> bool \<Rightarrow> int \<Rightarrow> question \<Rightarrow> questions \<Rightarrow> questions" where
  "poll_prompt_loop i abort now q s =
     (case poll_question abort now q of (q', outcome) \<Rightarrow>
        s\<lparr>q_objects := (q_objects s)(i \<mapsto> q'),
          q_phases := (case outcome of Some (r, why) \<Rightarrow> (q_phases s)(i \<mapsto> Settled r why) | None \<Rightarrow> q_phases s)\<rparr>)"

definition drop_question :: "string \<Rightarrow> questions \<Rightarrow> questions" where
  "drop_question i s = s\<lparr>q_table := q_table s - {i}, q_order_list := remove1 i (q_order_list s)\<rparr>"

definition response_lookup :: "string \<Rightarrow> question_response \<Rightarrow> questions \<Rightarrow> questions" where
  "response_lookup i r s = (if i \<notin> q_table s then s else s\<lparr>q_in_hand := q_in_hand s @ [(i, r)]\<rparr>)"

text \<open>The second section of \<open>notify_response\<close>: whether the response won, and the object after it.\<close>

definition accept_response :: "question_response \<Rightarrow> question \<Rightarrow> bool \<times> question" where
  "accept_response r q =
     (if q_responded q \<or> \<not> q_accepting q then (False, q)
      else (True, q\<lparr>q_response := r, q_responded := True, q_accepting := False\<rparr>))"

definition response_deliver :: "string \<Rightarrow> question_response \<Rightarrow> questions \<Rightarrow> questions" where
  "response_deliver i r s =
     (case q_objects s i of
        None \<Rightarrow> s
      | Some q \<Rightarrow> (case accept_response r q of (ok, q') \<Rightarrow>
          s\<lparr>q_objects := (q_objects s)(i \<mapsto> q'), won := (if ok then won s @ [(i, r)] else won s)\<rparr>))"

definition pending_count :: "questions \<Rightarrow> nat" where
  "pending_count s = card (q_table s)"

text \<open>The snapshot: the ids in order of creation that have an entry, then those still open to answers.\<close>

record question_snapshot =
  qs_request_id :: string
  qs_questions :: json
  qs_order :: nat
  qs_created :: int
  qs_deadline :: "int option"

definition snapshot_question :: "string \<Rightarrow> question \<Rightarrow> question_snapshot" where
  "snapshot_question i q = \<lparr>qs_request_id = i, qs_questions = q_questions q, qs_order = q_order q,
     qs_created = q_created q, qs_deadline = q_deadline q\<rparr>"

definition snapshot_questions :: "questions \<Rightarrow> question_snapshot list" where
  "snapshot_questions s =
     concat (map (\<lambda>i. case q_objects s i of
        Some q \<Rightarrow> if q_responded q \<or> \<not> q_accepting q then [] else [snapshot_question i q]
      | None \<Rightarrow> []) (filter (\<lambda>i. i \<in> q_table s) (q_order_list s)))"

definition snapshot_json :: "question_snapshot \<Rightarrow> json" where
  "snapshot_json r = JObj [(''request_id'', JStr (qs_request_id r)), (''questions'', qs_questions r),
     (''request_order'', JInt (int (qs_order r))),
     (''timeout_ms'', JInt (case qs_deadline r of Some d \<Rightarrow> d - qs_created r | None \<Rightarrow> 0))]"

section \<open>Steps\<close>

inductive question_step :: "questions \<Rightarrow> questions \<Rightarrow> bool" where
  ask: "q_objects s i = None \<Longrightarrow> question_step s (ask i payload timeout now s)"
| announce: "q_phases s i = Some Asked \<Longrightarrow> q_objects s i = Some q \<Longrightarrow>
     question_step s (q_set_phase i Awaiting (q_emit (QuestionRequest i (q_questions q) (q_timeout_ms q) (q_order q)) s))"
| poll: "q_phases s i = Some Awaiting \<Longrightarrow> q_objects s i = Some q \<Longrightarrow>
     question_step s (poll_prompt_loop i abort now q s)"
| drop: "q_phases s i = Some (Settled r why) \<Longrightarrow> question_step s (q_set_phase i (Dropped r why) (drop_question i s))"
| close: "q_phases s i = Some (Dropped r why) \<Longrightarrow>
     question_step s (q_set_phase i (Answered r why) (q_emit (QuestionClosed i why) s))"
| look_up: "question_step s (response_lookup i r s)"
| deliver: "q_in_hand s = us @ (i, r) # vs \<Longrightarrow> question_step s (response_deliver i r (s\<lparr>q_in_hand := us @ vs\<rparr>))"

inductive question_reachable :: "questions \<Rightarrow> bool" where
  init: "question_reachable no_questions"
| step: "question_reachable s \<Longrightarrow> question_step s s' \<Longrightarrow> question_reachable s'"

section \<open>Invariant\<close>

fun settled_with :: "question_phase \<Rightarrow> (question_response \<times> string) option" where
  "settled_with Asked = None"
| "settled_with Awaiting = None"
| "settled_with (Settled r why) = Some (r, why)"
| "settled_with (Dropped r why) = Some (r, why)"
| "settled_with (Answered r why) = Some (r, why)"

fun question_open :: "question_phase \<Rightarrow> bool" where
  "question_open (Dropped r why) = False"
| "question_open (Answered r why) = False"
| "question_open _ = True"

definition wins_of :: "string \<Rightarrow> questions \<Rightarrow> (string \<times> question_response) list" where
  "wins_of i s = filter (\<lambda>(j, r). j = i) (won s)"

text \<open>What a call returns is the winning response, and without one the default of an abort or timeout.\<close>

definition outcome_ok :: "question \<Rightarrow> question_response \<Rightarrow> string \<Rightarrow> bool" where
  "outcome_ok q r why \<longleftrightarrow> \<not> q_accepting q \<and>
     (if q_responded q then r = q_response q \<and> why = (if r_cancelled r then ''cancelled'' else ''answered'')
      else (r, why) \<in> {(no_response\<lparr>r_cancelled := True\<rparr>, ''aborted''), (no_response\<lparr>r_timed_out := True\<rparr>, ''timeout'')})"

definition question_ok :: "string \<Rightarrow> questions \<Rightarrow> question \<Rightarrow> question_phase \<Rightarrow> bool" where
  "question_ok i s q ph \<longleftrightarrow>
     wins_of i s = (if q_responded q then [(i, q_response q)] else []) \<and>
     (i \<in> q_table s \<longleftrightarrow> question_open ph) \<and>
     (case settled_with ph of
        None \<Rightarrow> q_accepting q \<longleftrightarrow> \<not> q_responded q
      | Some (r, why) \<Rightarrow> outcome_ok q r why)"

definition entry_ok :: "string \<Rightarrow> questions \<Rightarrow> bool" where
  "entry_ok i s \<longleftrightarrow>
     (case (q_objects s i, q_phases s i) of
        (None, None) \<Rightarrow> i \<notin> q_table s \<and> wins_of i s = []
      | (Some q, Some ph) \<Rightarrow> question_ok i s q ph
      | _ \<Rightarrow> False)"

definition order_of :: "questions \<Rightarrow> string \<Rightarrow> nat" where
  "order_of s i = (case q_objects s i of Some q \<Rightarrow> q_order q | None \<Rightarrow> 0)"

definition order_ok :: "questions \<Rightarrow> bool" where
  "order_ok s \<longleftrightarrow> set (q_order_list s) = q_table s \<and> sorted_wrt (<) (map (order_of s) (q_order_list s)) \<and>
     (\<forall>i. order_of s i \<le> q_next_order s)"

definition questions_inv :: "questions \<Rightarrow> bool" where
  "questions_inv s \<longleftrightarrow> (\<forall>i. entry_ok i s) \<and> order_ok s"

lemma question_ok_cong:
  "(i \<in> q_table s' \<longleftrightarrow> i \<in> q_table s) \<Longrightarrow> wins_of i s' = wins_of i s \<Longrightarrow> question_ok i s' q ph = question_ok i s q ph"
  by (simp only: question_ok_def)

lemma entry_ok_cong:
  assumes "entry_ok i s" "q_objects s' i = q_objects s i" "q_phases s' i = q_phases s i"
    and "i \<in> q_table s' \<longleftrightarrow> i \<in> q_table s" "wins_of i s' = wins_of i s"
  shows "entry_ok i s'"
  using assms(1) unfolding entry_ok_def assms(2-5) question_ok_cong [OF assms(4,5)] .

lemma entry_okD:
  assumes "entry_ok i s" "q_phases s i = Some ph"
  obtains q where "q_objects s i = Some q" "question_ok i s q ph"
  using assms by (auto simp: entry_ok_def split: option.splits)

lemma entry_okI: "q_objects s i = Some q \<Longrightarrow> q_phases s i = Some ph \<Longrightarrow> question_ok i s q ph \<Longrightarrow> entry_ok i s"
  by (simp add: entry_ok_def)

lemma question_fields [simp]:
  "q_objects (q_emit e s) = q_objects s" "q_phases (q_emit e s) = q_phases s" "q_table (q_emit e s) = q_table s"
  "q_order_list (q_emit e s) = q_order_list s" "q_next_order (q_emit e s) = q_next_order s" "wins_of j (q_emit e s) = wins_of j s"
  "q_objects (q_set_phase i ph s) = q_objects s" "q_phases (q_set_phase i ph s) = (q_phases s)(i \<mapsto> ph)"
  "q_table (q_set_phase i ph s) = q_table s" "q_order_list (q_set_phase i ph s) = q_order_list s"
  "q_next_order (q_set_phase i ph s) = q_next_order s" "wins_of j (q_set_phase i ph s) = wins_of j s"
  "q_objects (drop_question i s) = q_objects s" "q_phases (drop_question i s) = q_phases s"
  "q_table (drop_question i s) = q_table s - {i}" "q_order_list (drop_question i s) = remove1 i (q_order_list s)"
  "q_next_order (drop_question i s) = q_next_order s" "wins_of j (drop_question i s) = wins_of j s"
  by (simp_all add: q_emit_def q_set_phase_def drop_question_def wins_of_def)

lemma order_ok_same:
  assumes "order_ok s" "order_of s' = order_of s" "q_order_list s' = q_order_list s" "q_table s' = q_table s"
    and "q_next_order s' = q_next_order s"
  shows "order_ok s'"
  using assms by (simp add: order_ok_def)

lemma advance_question:
  assumes "questions_inv s" "entry_ok i s'" "order_ok s'"
    and "\<And>j. j \<noteq> i \<Longrightarrow> q_objects s' j = q_objects s j \<and> q_phases s' j = q_phases s j \<and>
           (j \<in> q_table s' \<longleftrightarrow> j \<in> q_table s) \<and> wins_of j s' = wins_of j s"
  shows "questions_inv s'"
proof -
  have "entry_ok j s'" for j
  proof (cases "j = i")
    case False
    with assms show ?thesis by (intro entry_ok_cong [of j s s']) (auto simp: questions_inv_def)
  qed (use assms in simp)
  with assms show ?thesis by (simp add: questions_inv_def)
qed

lemma questions_invD: "questions_inv s \<Longrightarrow> entry_ok i s" "questions_inv s \<Longrightarrow> order_ok s"
  by (simp_all add: questions_inv_def)

lemma ask_inv:
  assumes "questions_inv s" "q_objects s i = None"
  shows "questions_inv (ask i payload timeout now s)"
proof (rule advance_question [OF assms(1), where i = i])
  have "entry_ok i s" using assms(1) by (rule questions_invD)
  then have i: "wins_of i s = []" "i \<notin> q_table s"
    using assms(2) by (auto simp: entry_ok_def split: option.splits)
  then show "entry_ok i (ask i payload timeout now s)"
    by (simp add: entry_ok_def question_ok_def ask_def Let_def new_question_def wins_of_def)
  have ord: "set (q_order_list s) = q_table s" "sorted_wrt (<) (map (order_of s) (q_order_list s))"
      "\<forall>j. order_of s j \<le> q_next_order s"
    using questions_invD(2) [OF assms(1)] by (simp_all add: order_ok_def)
  have o: "order_of (ask i payload timeout now s) j = (if j = i then Suc (q_next_order s) else order_of s j)" for j
    by (simp add: order_of_def ask_def Let_def new_question_def)
  have "map (order_of (ask i payload timeout now s)) (q_order_list s) = map (order_of s) (q_order_list s)"
    using i(2) ord(1) o by auto
  moreover have "\<forall>j\<in>set (q_order_list s). order_of s j < Suc (q_next_order s)" using ord(3) by (simp add: le_imp_less_Suc)
  moreover have "order_of (ask i payload timeout now s) i = Suc (q_next_order s)" using o by simp
  ultimately have "sorted_wrt (<) (map (order_of (ask i payload timeout now s)) (q_order_list s @ [i]))"
    using ord(2) by (simp only: map_append list.map sorted_wrt_append) simp
  moreover have "order_of (ask i payload timeout now s) j \<le> Suc (q_next_order s)" for j
    using ord(3) o by (simp add: le_SucI)
  ultimately show "order_ok (ask i payload timeout now s)"
    using ord(1) by (simp add: order_ok_def) (simp add: ask_def Let_def)
qed (simp add: ask_def Let_def wins_of_def)

lemma q_announce_inv:
  assumes "questions_inv s" "q_phases s i = Some Asked"
  shows "questions_inv (q_set_phase i Awaiting (q_emit e s))"
proof (rule advance_question [OF assms(1), where i = i])
  obtain q where "q_objects s i = Some q" "question_ok i s q Asked"
    using entry_okD [OF questions_invD(1) [OF assms(1)] assms(2)] .
  then show "entry_ok i (q_set_phase i Awaiting (q_emit e s))"
    by (intro entry_okI) (auto simp: question_ok_def)
  show "order_ok (q_set_phase i Awaiting (q_emit e s))"
    using questions_invD(2) [OF assms(1)] by (rule order_ok_same) (simp_all add: order_of_def fun_eq_iff)
qed simp

lemma q_poll_inv:
  assumes "questions_inv s" "q_phases s i = Some Awaiting" "q_objects s i = Some q"
  shows "questions_inv (poll_prompt_loop i abort now q s)"
proof (rule advance_question [OF assms(1), where i = i])
  have "question_ok i s q Awaiting"
    using entry_okD [OF questions_invD(1) [OF assms(1)] assms(2)] assms(3) by auto
  then show "entry_ok i (poll_prompt_loop i abort now q s)"
    using assms(2)
    by (auto simp: entry_ok_def question_ok_def poll_prompt_loop_def poll_question_def wins_of_def outcome_ok_def)
  obtain q' out where p: "poll_question abort now q = (q', out)" by fastforce
  then have "q_order q' = q_order q" by (auto simp: poll_question_def split: if_splits)
  then have "order_of (poll_prompt_loop i abort now q s) = order_of s"
    using assms(3) p by (simp add: order_of_def poll_prompt_loop_def fun_eq_iff)
  then show "order_ok (poll_prompt_loop i abort now q s)"
    by (rule order_ok_same [OF questions_invD(2) [OF assms(1)]]) (simp_all add: poll_prompt_loop_def split: prod.split)
qed (simp add: poll_prompt_loop_def wins_of_def split: prod.split option.split)

lemma q_drop_inv:
  assumes "questions_inv s" "q_phases s i = Some (Settled r why)"
  shows "questions_inv (q_set_phase i (Dropped r why) (drop_question i s))"
proof (rule advance_question [OF assms(1), where i = i])
  obtain q where "q_objects s i = Some q" "question_ok i s q (Settled r why)"
    using entry_okD [OF questions_invD(1) [OF assms(1)] assms(2)] .
  then show "entry_ok i (q_set_phase i (Dropped r why) (drop_question i s))"
    by (intro entry_okI) (auto simp: question_ok_def)
  have o: "order_ok s" using assms(1) by (rule questions_invD)
  then have "distinct (map (order_of s) (q_order_list s))" by (simp add: order_ok_def strict_sorted_distinct)
  then have d: "distinct (q_order_list s)" by (simp add: distinct_map)
  then have "remove1 i (q_order_list s) = filter (\<lambda>j. j \<noteq> i) (q_order_list s)" by (simp add: distinct_remove1_removeAll removeAll_filter_not_eq) (rule filter_cong, auto)
  moreover have "order_of (q_set_phase i (Dropped r why) (drop_question i s)) = order_of s" by (simp add: order_of_def fun_eq_iff)
  ultimately show "order_ok (q_set_phase i (Dropped r why) (drop_question i s))"
    using o by (auto simp: order_ok_def sorted_wrt_map sorted_wrt_filter)
qed simp

lemma q_close_inv:
  assumes "questions_inv s" "q_phases s i = Some (Dropped r why)"
  shows "questions_inv (q_set_phase i (Answered r why) (q_emit e s))"
proof (rule advance_question [OF assms(1), where i = i])
  obtain q where "q_objects s i = Some q" "question_ok i s q (Dropped r why)"
    using entry_okD [OF questions_invD(1) [OF assms(1)] assms(2)] .
  then show "entry_ok i (q_set_phase i (Answered r why) (q_emit e s))"
    by (intro entry_okI) (auto simp: question_ok_def)
  show "order_ok (q_set_phase i (Answered r why) (q_emit e s))"
    using questions_invD(2) [OF assms(1)] by (rule order_ok_same) (simp_all add: order_of_def fun_eq_iff)
qed simp

lemma q_hand_inv: "questions_inv s \<Longrightarrow> questions_inv (s\<lparr>q_in_hand := hs\<rparr>)"
proof -
  assume inv: "questions_inv s"
  have "entry_ok i (s\<lparr>q_in_hand := hs\<rparr>)" for i
    using questions_invD(1) [OF inv, of i] by (rule entry_ok_cong) (simp_all add: wins_of_def)
  moreover have "order_ok (s\<lparr>q_in_hand := hs\<rparr>)"
    using questions_invD(2) [OF inv] by (rule order_ok_same) (simp_all add: order_of_def fun_eq_iff)
  ultimately show ?thesis by (simp add: questions_inv_def)
qed

lemma q_deliver_inv:
  assumes "questions_inv s"
  shows "questions_inv (response_deliver i r s)"
proof (cases "q_objects s i")
  case (Some q)
  obtain ok q' where a: "accept_response r q = (ok, q')" by fastforce
  have code: "response_deliver i r s = s\<lparr>q_objects := (q_objects s)(i \<mapsto> q'), won := (if ok then won s @ [(i, r)] else won s)\<rparr>"
    using Some a by (simp add: response_deliver_def)
  have e: "entry_ok i s" using assms by (rule questions_invD)
  then obtain ph where ph: "q_phases s i = Some ph" "question_ok i s q ph"
    using Some by (auto simp: entry_ok_def split: option.splits)
  show ?thesis
  proof (rule advance_question [OF assms, where i = i])
    show "entry_ok i (response_deliver i r s)"
    proof (cases ok)
      case True
      with a have q: "\<not> q_responded q" "q_accepting q" "q' = q\<lparr>q_response := r, q_responded := True, q_accepting := False\<rparr>"
        by (auto simp: accept_response_def split: if_splits)
      have "settled_with ph = None"
        using ph(2) q(2) by (auto simp: question_ok_def outcome_ok_def split: option.splits)
      then have "question_ok i (response_deliver i r s) q' ph"
        using ph(2) q True unfolding code by (simp add: question_ok_def wins_of_def)
      then show ?thesis using ph(1) by (intro entry_okI) (simp_all add: code)
    next
      case False
      with a have "q' = q" by (auto simp: accept_response_def split: if_splits)
      then have "(q_objects s)(i \<mapsto> q') = q_objects s" using Some by (auto simp: fun_eq_iff)
      then have "response_deliver i r s = s" using False unfolding code by simp
      with e show ?thesis by simp
    qed
    have "q_order q' = q_order q" using a by (auto simp: accept_response_def split: if_splits)
    then have "order_of (response_deliver i r s) = order_of s"
      using Some unfolding code by (simp add: order_of_def fun_eq_iff)
    then show "order_ok (response_deliver i r s)"
      by (rule order_ok_same [OF questions_invD(2) [OF assms]]) (simp_all add: code)
  qed (simp add: code wins_of_def)
qed (simp add: response_deliver_def assms)

lemma question_step_inv: "question_step s s' \<Longrightarrow> questions_inv s \<Longrightarrow> questions_inv s'"
proof (induction rule: question_step.induct)
  case (look_up s i r)
  then show ?case by (simp add: response_lookup_def q_hand_inv)
qed (simp_all add: ask_inv q_announce_inv q_poll_inv q_drop_inv q_close_inv q_deliver_inv q_hand_inv)

lemma question_reachable_inv: "question_reachable s \<Longrightarrow> questions_inv s"
proof (induction rule: question_reachable.induct)
  case init
  show ?case
    by (simp add: questions_inv_def entry_ok_def order_ok_def order_of_def no_questions_def wins_of_def)
qed (rule question_step_inv)

definition question_answer_of :: "string \<Rightarrow> questions \<Rightarrow> question_response option" where
  "question_answer_of i s =
     (case q_objects s i of Some q \<Rightarrow> if q_responded q then Some (q_response q) else None | None \<Rightarrow> None)"

lemma question_answer_kept:
  "question_step s s' \<Longrightarrow> question_answer_of i s = Some a \<Longrightarrow> question_answer_of i s' = Some a"
proof (induction rule: question_step.induct)
  case (ask s j payload timeout now)
  then show ?case by (auto simp: question_answer_of_def ask_def Let_def split: option.splits)
next
  case (poll s j q abort now)
  then show ?case
    by (auto simp: question_answer_of_def poll_prompt_loop_def poll_question_def split: option.splits if_splits)
next
  case (look_up s j r)
  then show ?case by (simp add: question_answer_of_def response_lookup_def)
next
  case (deliver s us j r vs)
  then show ?case
    by (auto simp: question_answer_of_def response_deliver_def accept_response_def split: option.splits if_splits)
qed (simp_all add: question_answer_of_def)

interpretation question_answer: first_answer question_step "question_answer_of i" for i
  by unfold_locales (rule question_answer_kept)

lemma snapshot_ids_of:
  "map qs_order (concat (map (\<lambda>i. case q_objects s i of
        Some q \<Rightarrow> if q_responded q \<or> \<not> q_accepting q then [] else [snapshot_question i q]
      | None \<Rightarrow> []) is)) =
   map (order_of s) (filter (\<lambda>i. case q_objects s i of Some q \<Rightarrow> \<not> q_responded q \<and> q_accepting q | None \<Rightarrow> False) is)"
  by (induction "is") (auto simp: snapshot_question_def order_of_def split: option.split)

lemma snapshot_mem:
  "r \<in> set (snapshot_questions s) \<longleftrightarrow>
     (\<exists>i q. i \<in> set (q_order_list s) \<and> i \<in> q_table s \<and> q_objects s i = Some q \<and> \<not> q_responded q \<and> q_accepting q \<and>
        r = snapshot_question i q)"
proof
  assume "r \<in> set (snapshot_questions s)"
  then show "\<exists>i q. i \<in> set (q_order_list s) \<and> i \<in> q_table s \<and> q_objects s i = Some q \<and> \<not> q_responded q \<and> q_accepting q \<and>
        r = snapshot_question i q"
  proof -
    from \<open>r \<in> set (snapshot_questions s)\<close> obtain i where i: "i \<in> set (q_order_list s)" "i \<in> q_table s"
      "r \<in> set (case q_objects s i of
        Some q \<Rightarrow> if q_responded q \<or> \<not> q_accepting q then [] else [snapshot_question i q] | None \<Rightarrow> [])"
      by (auto simp: snapshot_questions_def)
    then show ?thesis by (cases "q_objects s i") (auto split: if_splits)
  qed
next
  assume "\<exists>i q. i \<in> set (q_order_list s) \<and> i \<in> q_table s \<and> q_objects s i = Some q \<and> \<not> q_responded q \<and> q_accepting q \<and>
        r = snapshot_question i q"
  then obtain i q where "i \<in> set (q_order_list s)" "i \<in> q_table s" "q_objects s i = Some q" "\<not> q_responded q"
    "q_accepting q" "r = snapshot_question i q" by blast
  then show "r \<in> set (snapshot_questions s)"
    by (force simp: snapshot_questions_def intro!: bexI [of _ i])
qed

section \<open>Properties\<close>

text \<open>A response that was told it won is what the asking call returns: in every interleaving a call
  that has returned either returned the one response whose sender was told it won, or no sender was told
  so and the call was aborted or ran into its deadline.\<close>

lemma winning_answer_returned:
  assumes "question_reachable s" "q_phases s i = Some (Answered r why)"
  shows "wins_of i s = [(i, r)] \<and> why = (if r_cancelled r then ''cancelled'' else ''answered'') \<or>
     wins_of i s = [] \<and> (r, why) \<in> {(no_response\<lparr>r_cancelled := True\<rparr>, ''aborted''),
       (no_response\<lparr>r_timed_out := True\<rparr>, ''timeout'')}"
proof -
  obtain q where "q_objects s i = Some q" "question_ok i s q (Answered r why)"
    using entry_okD [OF questions_invD(1) [OF question_reachable_inv [OF assms(1)]] assms(2)] .
  then show ?thesis by (auto simp: question_ok_def outcome_ok_def split: if_splits)
qed

text \<open>A client that subscribes late is offered exactly the questions that still accept an answer, in
  the order in which they were asked.\<close>

lemma late_snapshot_in_order:
  assumes "question_reachable s"
  shows "sorted_wrt (<) (map qs_order (snapshot_questions s)) \<and>
     {qs_request_id r | r. r \<in> set (snapshot_questions s)} =
       {i. i \<in> q_table s \<and> (\<exists>q. q_objects s i = Some q \<and> q_accepting q)}"
proof
  have inv: "questions_inv s" using assms by (rule question_reachable_inv)
  have o: "set (q_order_list s) = q_table s" "sorted_wrt (<) (map (order_of s) (q_order_list s))"
    using questions_invD(2) [OF inv] by (simp_all add: order_ok_def)
  then show "sorted_wrt (<) (map qs_order (snapshot_questions s))"
    unfolding snapshot_questions_def snapshot_ids_of
    by (simp add: sorted_wrt_map sorted_wrt_filter)
  have "\<not> q_responded q" if "q_objects s i = Some q" "q_accepting q" for i q
    using questions_invD(1) [OF inv, of i] that
    by (auto simp: entry_ok_def question_ok_def outcome_ok_def split: option.splits)
  then show "{qs_request_id r | r. r \<in> set (snapshot_questions s)} =
       {i. i \<in> q_table s \<and> (\<exists>q. q_objects s i = Some q \<and> q_accepting q)}"
    unfolding snapshot_mem using o(1) by (force simp: snapshot_question_def)
qed

text \<open>A run in which the user answers.\<close>

definition yes :: question_response where
  "yes = \<lparr>r_cancelled = False, r_timed_out = False, r_answers = [\<lparr>a_question_id = ''q'', a_selected = [''A''], a_custom_text = []\<rparr>]\<rparr>"

definition q_asked :: questions where
  "q_asked = q_set_phase ''r'' Awaiting (q_emit (QuestionRequest ''r'' (JArr []) 0 1) (ask ''r'' (JArr []) 0 5 no_questions))"

definition q_won :: questions where
  "q_won = response_deliver ''r'' yes ((response_lookup ''r'' yes q_asked)\<lparr>q_in_hand := []\<rparr>)"

definition q_polled :: questions where
  "q_polled = poll_prompt_loop ''r'' False 9
     ((new_question (JArr []) 0 5 1)\<lparr>q_response := yes, q_responded := True, q_accepting := False\<rparr>) q_won"

definition q_done :: questions where
  "q_done = q_set_phase ''r'' (Answered yes ''answered'') (q_emit (QuestionClosed ''r'' ''answered'')
     (q_set_phase ''r'' (Dropped yes ''answered'') (drop_question ''r'' q_polled)))"

lemmas question_sample_defs = q_asked_def q_won_def q_polled_def ask_def new_question_def q_emit_def q_set_phase_def
  response_lookup_def response_deliver_def accept_response_def poll_prompt_loop_def poll_question_def
  no_questions_def yes_def

lemma asked_reachable: "question_reachable q_asked"
proof -
  have "question_reachable (ask ''r'' (JArr []) 0 5 no_questions)"
    by (rule question_reachable.step [OF question_reachable.init question_step.ask]) (simp add: no_questions_def)
  then show ?thesis
    by (rule question_reachable.step)
      (use question_step.announce [of "ask ''r'' (JArr []) 0 5 no_questions" "''r''" "new_question (JArr []) 0 5 1"]
        in \<open>simp add: question_sample_defs\<close>)
qed

lemma done_reachable: "question_reachable q_done"
proof -
  let ?s3 = "response_lookup ''r'' yes q_asked"
  let ?s6 = "q_set_phase ''r'' (Dropped yes ''answered'') (drop_question ''r'' q_polled)"
  have "question_reachable ?s3" by (rule question_reachable.step [OF asked_reachable question_step.look_up])
  moreover have "question_step ?s3 q_won"
    using question_step.deliver [of ?s3 "[]" "''r''" yes "[]"] unfolding q_won_def
    by (simp add: response_lookup_def q_asked_def q_emit_def q_set_phase_def ask_def no_questions_def)
  ultimately have "question_reachable q_won" by (rule question_reachable.step)
  moreover have "question_step q_won q_polled"
    using question_step.poll [of q_won "''r''" "(new_question (JArr []) 0 5 1)\<lparr>q_response := yes, q_responded := True, q_accepting := False\<rparr>" False 9]
    unfolding q_polled_def by (simp add: question_sample_defs)
  ultimately have "question_reachable q_polled" by (rule question_reachable.step)
  moreover have "q_phases q_polled ''r'' = Some (Settled yes ''answered'')" by (simp add: question_sample_defs)
  then have "question_step q_polled ?s6" by (rule question_step.drop)
  ultimately have "question_reachable ?s6" by (rule question_reachable.step)
  then show ?thesis unfolding q_done_def
    by (rule question_reachable.step) (rule question_step.close, simp)
qed

lemma winning_answer_returned_witness: "wins_of ''r'' q_done = [(''r'', yes)]"
proof -
  have "q_phases q_done ''r'' = Some (Answered yes ''answered'')" by (simp add: q_done_def)
  from winning_answer_returned [OF done_reachable this] show ?thesis by auto
qed

lemma late_snapshot_in_order_witness: "sorted_wrt (<) (map qs_order (snapshot_questions q_asked)) \<and> length (snapshot_questions q_asked) = 1"
  using late_snapshot_in_order [OF asked_reachable] by (simp add: snapshot_questions_def question_sample_defs)

end
