(* ===== verification/LspFrame.thy ===== *)
theory LspFrame
  imports Json
begin

text \<open>
  \<open>lsp/lsp_frame.cpp\<close>: the framing of messages to and from language servers, a header with the length
  and a body.  The parser is fed with whatever the pipe delivers.  Parsing and printing of a body belong
  to the JSON library and are arguments.  The lemmas show that a stream of encoded messages is delivered
  message by message however it is cut, and that what the parser holds back is bounded for any input.
\<close>

abbreviation cr :: char where "cr \<equiv> CHR 0x0D"
abbreviation lf :: char where "lf \<equiv> CHR 0x0A"

definition max_frame_body :: nat where
  "max_frame_body = 128 * 1024 * 1024"

definition trim_header :: "string \<Rightarrow> string" where
  "trim_header s =
     rstrip (\<lambda>c. c = CHR '' '' \<or> c = CHR 0x09 \<or> c = cr) (dropWhile (\<lambda>c. c = CHR '' '' \<or> c = CHR 0x09) s)"

definition iequals :: "string \<Rightarrow> string \<Rightarrow> bool" where
  "iequals a b \<longleftrightarrow> ascii_lower a = ascii_lower b"

text \<open>The lines of a header block; \<open>-1\<close> stands for a malformed or missing length.  A line feed at the
  end of the block leaves an empty line, which is skipped.\<close>

fun content_length_lines :: "int \<Rightarrow> string list \<Rightarrow> int" where
  "content_length_lines len [] = len"
| "content_length_lines len (raw # lines) =
     (let line = trim_header raw
      in if line = [] then content_length_lines len lines
         else if CHR '':'' \<notin> set line then -1
         else let name = trim_header (takeWhile (\<lambda>c. c \<noteq> CHR '':'') line);
                  val = trim_header (tl (dropWhile (\<lambda>c. c \<noteq> CHR '':'') line))
           in if iequals name ''content-length'' then
                (if val = [] \<or> \<not> list_all is_digit val then -1
                 else if int (digits_val val) > int64_max then -1
                 else content_length_lines (int (digits_val val)) lines)
              else content_length_lines len lines)"

definition parse_content_length :: "string \<Rightarrow> int" where
  "parse_content_length header = content_length_lines (-1) (split_on lf header)"

definition frame_header :: "nat \<Rightarrow> string" where
  "frame_header n = ''Content-Length: '' @ show_nat n @ [cr, lf, cr, lf]"

definition encode_frame :: "(json \<Rightarrow> string) \<Rightarrow> json \<Rightarrow> string" where
  "encode_frame dump message = (let body = dump message in frame_header (length body) @ body)"

record frame_parser =
  f_buffer :: string
  f_pending :: int
  f_broken :: bool
  f_messages :: "json list"

definition new_parser :: frame_parser where
  "new_parser = \<lparr>f_buffer = [], f_pending = -1, f_broken = False, f_messages = []\<rparr>"

text \<open>The end of the header and the start of the body.\<close>

definition find_header_end :: "string \<Rightarrow> (nat \<times> nat) option" where
  "find_header_end buf =
     (case str_find [cr, lf, cr, lf] buf of
        Some n \<Rightarrow> Some (n, n + 4)
      | None \<Rightarrow> (case str_find [lf, lf] buf of Some n \<Rightarrow> Some (n, n + 2) | None \<Rightarrow> None))"

text \<open>The header half of a round: \<open>Inl\<close> the result of \<open>feed\<close> when it returns here.\<close>

definition header_step :: "frame_parser \<Rightarrow> (bool \<times> frame_parser) + frame_parser" where
  "header_step p =
     (if f_pending p < 0 then
        (case find_header_end (f_buffer p) of
           None \<Rightarrow>
             if length (f_buffer p) > 4096 then Inl (False, p\<lparr>f_broken := True\<rparr>) else Inl (True, p)
         | Some (header_end, body_begin) \<Rightarrow>
             (let len = parse_content_length (take header_end (f_buffer p))
              in if len < 0 \<or> nat len > max_frame_body then Inl (False, p\<lparr>f_broken := True\<rparr>)
                 else Inr (p\<lparr>f_buffer := drop body_begin (f_buffer p), f_pending := len\<rparr>)))
      else Inr p)"

text \<open>The body half, when the body is there.\<close>

definition body_step :: "(string \<Rightarrow> json option) \<Rightarrow> frame_parser \<Rightarrow> frame_parser" where
  "body_step parse p =
     (let n = nat (f_pending p); body = take n (f_buffer p);
          q = p\<lparr>f_buffer := drop n (f_buffer p), f_pending := -1\<rparr>
      in case parse body of None \<Rightarrow> q | Some m \<Rightarrow> q\<lparr>f_messages := f_messages q @ [m]\<rparr>)"

lemma str_find_bound: "str_find needle hay = Some n \<Longrightarrow> n + length needle \<le> length hay"
proof (induction hay arbitrary: n)
  case (Cons c hay)
  then show ?case by (auto split: if_splits option.splits dest: prefix_length_le)
qed (auto split: if_splits)

lemma find_header_end_bound: "find_header_end buf = Some (h, b) \<Longrightarrow> h + 2 \<le> b \<and> b \<le> length buf"
  by (auto simp: find_header_end_def split: option.splits dest!: str_find_bound)

lemma header_step_Inr:
  assumes "header_step p = Inr q" "f_pending p < 0"
  obtains h b where "find_header_end (f_buffer p) = Some (h, b)"
    "q = p\<lparr>f_buffer := drop b (f_buffer p), f_pending := parse_content_length (take h (f_buffer p))\<rparr>"
    "0 \<le> f_pending q" "f_pending q \<le> int max_frame_body"
  using assms by (auto simp: header_step_def Let_def not_less split: if_splits option.splits)

lemma header_step_Inl:
  assumes "header_step p = Inl (ok, q)"
  shows "f_pending p < 0 \<and> (ok \<and> q = p \<and> length (f_buffer p) \<le> 4096 \<or> \<not> ok \<and> q = p\<lparr>f_broken := True\<rparr>)"
  using assms by (auto simp: header_step_def Let_def split: if_splits option.splits)

lemma header_step_shrinks:
  assumes "header_step p = Inr q"
  shows "f_pending q \<ge> 0" "f_pending p < 0 \<Longrightarrow> length (f_buffer q) + 2 \<le> length (f_buffer p)"
    "f_pending p \<ge> 0 \<Longrightarrow> q = p"
proof -
  show same: "f_pending p \<ge> 0 \<Longrightarrow> q = p" using assms by (simp add: header_step_def)
  show "f_pending q \<ge> 0"
  proof (cases "f_pending p < 0")
    case True
    from header_step_Inr [OF assms True] show ?thesis by blast
  qed (use same in simp)
  assume "f_pending p < 0"
  from header_step_Inr [OF assms this] obtain h b where "find_header_end (f_buffer p) = Some (h, b)"
    "q = p\<lparr>f_buffer := drop b (f_buffer p), f_pending := parse_content_length (take h (f_buffer p))\<rparr>" .
  with find_header_end_bound [of "f_buffer p" h b] show "length (f_buffer q) + 2 \<le> length (f_buffer p)" by auto
qed

function feed_loop :: "(string \<Rightarrow> json option) \<Rightarrow> frame_parser \<Rightarrow> bool \<times> frame_parser" where
  "feed_loop parse p =
     (case header_step p of
        Inl result \<Rightarrow> result
      | Inr q \<Rightarrow>
          if length (f_buffer q) < nat (f_pending q) then (True, q)
          else feed_loop parse (body_step parse q))"
  by pat_completeness auto
termination
proof (relation "measure (\<lambda>(parse, p). length (f_buffer p) + (if f_pending p \<ge> 0 then 1 else 0))", goal_cases)
  case (2 parse p q)
  then show ?case
    using header_step_shrinks [OF 2(1)]
    by (cases "f_pending p < 0") (auto simp: body_step_def Let_def split: option.split)
qed simp

declare feed_loop.simps [simp del]

definition feed :: "(string \<Rightarrow> json option) \<Rightarrow> string \<Rightarrow> frame_parser \<Rightarrow> bool \<times> frame_parser" where
  "feed parse data p =
     (if f_broken p then (False, p) else feed_loop parse (p\<lparr>f_buffer := f_buffer p @ data\<rparr>))"

section \<open>What is held back\<close>

definition frame_inv :: "frame_parser \<Rightarrow> bool" where
  "frame_inv p \<longleftrightarrow> f_broken p \<or>
     (if f_pending p < 0 then length (f_buffer p) \<le> 4096
      else f_pending p \<le> int max_frame_body \<and> int (length (f_buffer p)) < f_pending p)"

lemma feed_loop_inv:
  assumes "\<not> f_broken p" "f_pending p \<le> int max_frame_body"
  shows "frame_inv (snd (feed_loop parse p)) \<and> (fst (feed_loop parse p) \<longleftrightarrow> \<not> f_broken (snd (feed_loop parse p)))"
  using assms
proof (induction parse p rule: feed_loop.induct)
  case (1 parse p)
  show ?case
  proof (cases "header_step p")
    case (Inl res)
    then have code: "feed_loop parse p = res" by (subst feed_loop.simps) simp
    obtain ok q where res: "res = (ok, q)" by fastforce
    from header_step_Inl [of p ok q] Inl res 1(2) show ?thesis
      unfolding code res by (auto simp: frame_inv_def)
  next
    case (Inr q)
    have q: "\<not> f_broken q" "f_pending q \<le> int max_frame_body" "f_pending q \<ge> 0"
    proof -
      show "f_pending q \<ge> 0" by (rule header_step_shrinks(1) [OF Inr])
      have "\<not> f_broken q \<and> f_pending q \<le> int max_frame_body"
      proof (cases "f_pending p < 0")
        case True
        from header_step_Inr [OF Inr True] obtain h b where
          "q = p\<lparr>f_buffer := drop b (f_buffer p), f_pending := parse_content_length (take h (f_buffer p))\<rparr>"
          "f_pending q \<le> int max_frame_body" .
        with 1(2) show ?thesis by simp
      qed (use 1(2,3) header_step_shrinks(3) [OF Inr] in simp)
      then show "\<not> f_broken q" "f_pending q \<le> int max_frame_body" by simp_all
    qed
    show ?thesis
    proof (cases "length (f_buffer q) < nat (f_pending q)")
      case True
      with Inr have "feed_loop parse p = (True, q)" by (subst feed_loop.simps) simp
      with True q show ?thesis by (simp add: frame_inv_def)
    next
      case False
      with Inr have "feed_loop parse p = feed_loop parse (body_step parse q)" by (subst feed_loop.simps) simp
      moreover have "\<not> f_broken (body_step parse q)" "f_pending (body_step parse q) \<le> int max_frame_body"
        using q by (simp_all add: body_step_def Let_def split: option.split)
      ultimately show ?thesis using 1(1) [OF Inr False] by simp
    qed
  qed
qed

lemma feed_inv:
  assumes "frame_inv p"
  shows "frame_inv (snd (feed parse data p)) \<and> (fst (feed parse data p) \<longleftrightarrow> \<not> f_broken (snd (feed parse data p)))"
proof (cases "f_broken p")
  case False
  with assms have "f_pending p \<le> int max_frame_body"
    by (simp add: frame_inv_def split: if_splits)
  then show ?thesis
    using False feed_loop_inv [of "p\<lparr>f_buffer := f_buffer p @ data\<rparr>" parse] by (simp add: feed_def)
qed (simp add: feed_def assms)

definition feed_state :: "(string \<Rightarrow> json option) \<Rightarrow> string \<Rightarrow> frame_parser \<Rightarrow> frame_parser" where
  "feed_state parse data p = snd (feed parse data p)"

interpretation frame_machine: op_machine "feed_state parse" frame_inv for parse
  by unfold_locales (simp add: feed_state_def feed_inv)

section \<open>Reading an encoded header\<close>

lemma length_show_nat: "n < 10 ^ k \<Longrightarrow> 0 < k \<Longrightarrow> length (show_nat n) \<le> k"
proof (induction k arbitrary: n)
  case (Suc k)
  show ?case
  proof (cases "n < 10")
    case True
    then show ?thesis by (subst show_nat.simps) simp
  next
    case False
    with Suc.prems have "n div 10 < 10 ^ k" "0 < k" by (auto simp: less_mult_imp_div_less intro: gr0I)
    with Suc.IH False show ?thesis by (subst show_nat.simps) simp
  qed
qed simp

lemma show_nat_no: "c \<in> set (show_nat n) \<Longrightarrow> 48 \<le> byte c \<and> byte c \<le> 57"
  using show_nat_digits [of n] by (simp add: list_all_iff is_digit_def)

abbreviation header_text :: "nat \<Rightarrow> string" where
  "header_text n \<equiv> ''Content-Length: '' @ show_nat n"

lemma header_text_free: "cr \<notin> set (header_text n)" "lf \<notin> set (header_text n)"
  using show_nat_no [of cr n] show_nat_no [of lf n] by auto

lemma str_find_first: "c \<notin> set s \<Longrightarrow> str_find (c # needle) (s @ c # needle @ t) = Some (length s)"
proof (induction s)
  case Nil
  show ?case by (simp add: prefix_def)
qed simp

lemma count_contains: "contains hay needle \<Longrightarrow> count_list needle c \<le> count_list hay c"
  by (auto simp: contains_iff)

text \<open>A part of a header that lacks its end holds no terminator.\<close>

lemma partial_header:
  assumes "prefix b (frame_header n)" "length b < length (frame_header n)"
  shows "find_header_end b = None"
proof -
  have "prefix b (header_text n @ [cr, lf, cr])"
  proof -
    have "frame_header n = (header_text n @ [cr, lf, cr]) @ [lf]" by (simp add: frame_header_def)
    with assms show ?thesis by (metis prefix_snoc nat_neq_iff)
  qed
  then obtain z where z: "header_text n @ [cr, lf, cr] = b @ z" by (auto simp: prefix_def)
  have "count_list (header_text n) lf = 0" using header_text_free(2) [of n] by (rule count_notin)
  then have "count_list (header_text n @ [cr, lf, cr]) lf = 1" by (simp only: count_list_append) simp
  with z have "count_list b lf \<le> 1" by simp
  then have "\<not> contains b [cr, lf, cr, lf]" "\<not> contains b [lf, lf]"
    using count_contains [of b "[cr, lf, cr, lf]" lf] count_contains [of b "[lf, lf]" lf] by auto
  then show ?thesis by (simp add: find_header_end_def str_find_None_iff [THEN iffD2])
qed

lemma complete_header: "find_header_end (frame_header n @ b) = Some (length (header_text n), length (frame_header n))"
  using str_find_first [OF header_text_free(1) [of n], of "[lf, cr, lf]" b]
  by (simp add: find_header_end_def frame_header_def)

lemma rstrip_keep: "s \<noteq> [] \<Longrightarrow> \<not> P (last s) \<Longrightarrow> rstrip P s = s"
  by (simp add: rstrip_id)

lemma last_show_nat: "is_digit (last (show_nat n))"
  using show_nat_digits [of n] show_nat_not_Nil [of n] by (metis last_in_set list_all_iff)

lemma digit_not_blank: "is_digit c \<Longrightarrow> c \<noteq> CHR '' '' \<and> c \<noteq> CHR 0x09 \<and> c \<noteq> cr"
  by (auto simp: is_digit_def)

lemma trim_header_digits: "trim_header (show_nat n) = show_nat n" "trim_header (CHR '' '' # show_nat n) = show_nat n"
proof -
  obtain c cs where c: "show_nat n = c # cs" using show_nat_not_Nil by (metis neq_Nil_conv)
  then have "is_digit c" using show_nat_digits [of n] by simp
  then have d: "dropWhile (\<lambda>c. c = CHR '' '' \<or> c = CHR 0x09) (show_nat n) = show_nat n"
    using c digit_not_blank by auto
  have "rstrip (\<lambda>c. c = CHR '' '' \<or> c = CHR 0x09 \<or> c = cr) (show_nat n) = show_nat n"
    using digit_not_blank [OF last_show_nat [of n]] by (intro rstrip_keep) auto
  with d show "trim_header (show_nat n) = show_nat n" "trim_header (CHR '' '' # show_nat n) = show_nat n"
    by (simp_all add: trim_header_def)
qed

lemma trim_header_text: "trim_header (header_text n) = header_text n"
proof -
  have "last (header_text n) = last (show_nat n)" by simp
  then have "rstrip (\<lambda>c. c = CHR '' '' \<or> c = CHR 0x09 \<or> c = cr) (header_text n) = header_text n"
    using digit_not_blank [OF last_show_nat [of n]] by (intro rstrip_keep) auto
  then show ?thesis by (simp add: trim_header_def)
qed

lemma parse_header_text:
  assumes "n \<le> max_frame_body"
  shows "parse_content_length (header_text n) = int n"
proof -
  have "split_on lf (header_text n) = [header_text n]" by (rule split_on_sepfree [OF header_text_free(2)])
  moreover have "trim_header ''Content-Length'' = ''Content-Length''" "iequals ''Content-Length'' ''content-length''"
    by code_simp+
  moreover have "CHR '':'' \<in> set (header_text n)" "header_text n \<noteq> []" by simp_all
  moreover have "takeWhile (\<lambda>c. c \<noteq> CHR '':'') (header_text n) = ''Content-Length''"
    "tl (dropWhile (\<lambda>c. c \<noteq> CHR '':'') (header_text n)) = CHR '' '' # show_nat n" by simp_all
  moreover have "int n \<le> int64_max" using assms by (simp add: max_frame_body_def)
  ultimately show ?thesis
    unfolding parse_content_length_def
    by (simp only: content_length_lines.simps Let_def trim_header_text trim_header_digits digits_val_show_nat
        show_nat_digits show_nat_not_Nil if_False if_True simp_thms not_True_eq_False not_less [symmetric])
qed

section \<open>Streams of encoded messages\<close>

definition frame_stream :: "(json \<Rightarrow> string) \<Rightarrow> json list \<Rightarrow> string" where
  "frame_stream dump ms = concat (map (encode_frame dump) ms)"

definition carried :: "(string \<Rightarrow> json option) \<Rightarrow> (json \<Rightarrow> string) \<Rightarrow> json list \<Rightarrow> bool" where
  "carried parse dump ms \<longleftrightarrow> (\<forall>m\<in>set ms. parse (dump m) = Some m \<and> length (dump m) \<le> max_frame_body)"

text \<open>What is left of a message at a cut: nothing complete in the buffer, or a header already read.\<close>

definition at_cut :: "(json \<Rightarrow> string) \<Rightarrow> json list \<Rightarrow> frame_parser \<Rightarrow> string \<Rightarrow> bool" where
  "at_cut dump rest p b \<longleftrightarrow>
     (if f_pending p < 0 then f_buffer p = b \<and> find_header_end b = None
      else \<exists>m rest'. rest = m # rest' \<and> f_pending p = int (length (dump m)) \<and>
             b = frame_header (length (dump m)) @ f_buffer p \<and> length (f_buffer p) < length (dump m))"

definition read_upto :: "(json \<Rightarrow> string) \<Rightarrow> json list \<Rightarrow> frame_parser \<Rightarrow> string \<Rightarrow> bool" where
  "read_upto dump ms p xs \<longleftrightarrow> \<not> f_broken p \<and>
     (\<exists>rest b. ms = f_messages p @ rest \<and> xs = frame_stream dump (f_messages p) @ b \<and>
        prefix b (frame_stream dump rest) \<and> at_cut dump rest p b)"

lemma frame_stream_simps [simp]:
  "frame_stream dump [] = []"
  "frame_stream dump (m # ms) = frame_header (length (dump m)) @ dump m @ frame_stream dump ms"
  "frame_stream dump (ms @ ns) = frame_stream dump ms @ frame_stream dump ns"
  by (simp_all add: frame_stream_def encode_frame_def Let_def)

lemma frame_header_size: "n \<le> max_frame_body \<Longrightarrow> length (frame_header n) \<le> 4096"
  using length_show_nat [of n 9] by (simp add: frame_header_def max_frame_body_def)

lemma header_step_read:
  assumes "f_pending p < 0" "f_buffer p = frame_header n @ b" "n \<le> max_frame_body"
  shows "header_step p = Inr (p\<lparr>f_buffer := b, f_pending := int n\<rparr>)"
proof -
  have "take (length (header_text n)) (frame_header n @ b) = header_text n" by (simp add: frame_header_def)
  then show ?thesis
    using assms complete_header [of n b] parse_header_text [OF assms(3)]
    by (simp add: header_step_def Let_def not_less)
qed

lemma body_step_read:
  assumes "f_pending p = int (length (dump m))" "f_buffer p = dump m @ b" "parse (dump m) = Some m"
  shows "body_step parse p = p\<lparr>f_buffer := b, f_pending := -1, f_messages := f_messages p @ [m]\<rparr>"
  using assms by (simp add: body_step_def Let_def)

lemma prefix_of_append: "prefix b (u @ v) \<Longrightarrow> \<not> length b < length u \<Longrightarrow> \<exists>b'. b = u @ b' \<and> prefix b' v"
proof -
  assume p: "prefix b (u @ v)" and len: "\<not> length b < length u"
  have "b = u @ []" "prefix [] v" if "prefix b u"
    using prefix_length_le [OF that] len that by (auto simp: prefix_def)
  with p show ?thesis by (auto simp: prefix_append)
qed

text \<open>The loop on a buffer with part of a stream in front of it.\<close>

lemma feed_loop_body:
  assumes "\<not> f_broken p" "f_pending p = int (length (dump m))" "prefix (f_buffer p) (dump m @ frame_stream dump rest)"
    and "carried parse dump (m # rest)"
    and IH: "\<And>q. \<not> f_broken q \<Longrightarrow> f_pending q < 0 \<Longrightarrow> prefix (f_buffer q) (frame_stream dump rest) \<Longrightarrow>
      \<exists>q'. feed_loop parse q = (True, q') \<and>
        read_upto dump (f_messages q @ rest) q' (frame_stream dump (f_messages q) @ f_buffer q)"
  shows "\<exists>p'. feed_loop parse p = (True, p') \<and> read_upto dump (f_messages p @ m # rest) p'
     (frame_stream dump (f_messages p) @ frame_header (length (dump m)) @ f_buffer p)"
proof (cases "length (f_buffer p) < length (dump m)")
  case True
  then have "feed_loop parse p = (True, p)" using assms(2) by (subst feed_loop.simps) (simp add: header_step_def)
  moreover have "read_upto dump (f_messages p @ m # rest) p
      (frame_stream dump (f_messages p) @ frame_header (length (dump m)) @ f_buffer p)"
    unfolding read_upto_def at_cut_def
    using assms(1-3) True
    by (intro conjI exI [of _ "m # rest"] exI [of _ "frame_header (length (dump m)) @ f_buffer p"]) simp_all
  ultimately show ?thesis by blast
next
  case False
  then obtain b where b: "f_buffer p = dump m @ b" "prefix b (frame_stream dump rest)"
    using prefix_of_append [OF assms(3)] by blast
  define q where "q = p\<lparr>f_buffer := b, f_pending := -1, f_messages := f_messages p @ [m]\<rparr>"
  have "parse (dump m) = Some m" using assms(4) by (simp add: carried_def)
  then have step: "body_step parse p = q" unfolding q_def using body_step_read [of p dump m b parse] assms(2) b(1) by simp
  have "feed_loop parse p = feed_loop parse q"
    using assms(2) False step by (subst feed_loop.simps) (simp add: header_step_def)
  with IH [of q] b assms(1) show ?thesis by (simp add: q_def)
qed

lemma feed_loop_stream:
  assumes "\<not> f_broken p" "f_pending p < 0" "prefix (f_buffer p) (frame_stream dump rest)" "carried parse dump rest"
  shows "\<exists>p'. feed_loop parse p = (True, p') \<and>
     read_upto dump (f_messages p @ rest) p' (frame_stream dump (f_messages p) @ f_buffer p)"
  using assms
proof (induction rest arbitrary: p)
  case Nil
  then have "f_buffer p = []" by simp
  moreover from this have none: "find_header_end (f_buffer p) = None" by (simp add: find_header_end_def)
  ultimately have "feed_loop parse p = (True, p)"
    using Nil by (subst feed_loop.simps) (simp add: header_step_def)
  with Nil none show ?case by (auto simp: read_upto_def at_cut_def)
next
  case (Cons m rest)
  let ?n = "length (dump m)"
  have n: "?n \<le> max_frame_body" using Cons.prems(4) by (simp add: carried_def)
  show ?case
  proof (cases "length (f_buffer p) < length (frame_header ?n)")
    case True
    have "prefix (f_buffer p) (frame_header ?n)"
      using Cons.prems(3) True by (auto simp: prefix_append)
    from partial_header [OF this True] have none: "find_header_end (f_buffer p) = None" .
    have "\<not> length (f_buffer p) > 4096" using True frame_header_size [OF n] by simp
    then have "feed_loop parse p = (True, p)"
      using Cons.prems(2) none by (subst feed_loop.simps) (simp add: header_step_def)
    moreover have "read_upto dump (f_messages p @ m # rest) p (frame_stream dump (f_messages p) @ f_buffer p)"
      unfolding read_upto_def at_cut_def using Cons.prems none
      by (intro conjI exI [of _ "m # rest"] exI [of _ "f_buffer p"]) simp_all
    ultimately show ?thesis by blast
  next
    case False
    then obtain b where b: "f_buffer p = frame_header ?n @ b" "prefix b (dump m @ frame_stream dump rest)"
      using prefix_of_append [of "f_buffer p" "frame_header ?n"] Cons.prems(3) by auto
    define q where "q = p\<lparr>f_buffer := b, f_pending := int ?n\<rparr>"
    have hs: "header_step p = Inr q" unfolding q_def by (rule header_step_read [OF Cons.prems(2) b(1) n])
    have hq: "header_step q = Inr q" by (simp add: header_step_def q_def)
    have same: "feed_loop parse p = feed_loop parse q"
      by (subst (1 2) feed_loop.simps) (simp only: hs hq)
    have "\<exists>p'. feed_loop parse q = (True, p') \<and> read_upto dump (f_messages q @ m # rest) p'
        (frame_stream dump (f_messages q) @ frame_header ?n @ f_buffer q)"
    proof (rule feed_loop_body)
      show "carried parse dump (m # rest)" by (rule Cons.prems(4))
      have "carried parse dump rest" using Cons.prems(4) by (simp add: carried_def)
      with Cons.IH show "\<exists>q'. feed_loop parse r = (True, q') \<and>
          read_upto dump (f_messages r @ rest) q' (frame_stream dump (f_messages r) @ f_buffer r)"
        if "\<not> f_broken r" "f_pending r < 0" "prefix (f_buffer r) (frame_stream dump rest)" for r
        using that by blast
    qed (use Cons.prems(1) b(2) in \<open>simp_all add: q_def\<close>)
    then show ?thesis unfolding same using b(1) by (simp add: q_def)
  qed
qed

lemma prefix_continues:
  assumes "prefix (u @ b @ data) (u @ v)"
  shows "prefix (b @ data) v"
  using assms by simp

text \<open>Feeding on at a cut.\<close>

lemma feed_reads_on:
  assumes "read_upto dump ms p xs" "carried parse dump ms" "prefix (xs @ data) (frame_stream dump ms)"
  shows "\<exists>p'. feed parse data p = (True, p') \<and> read_upto dump ms p' (xs @ data)"
proof -
  from assms(1) obtain rest b where r: "\<not> f_broken p" "ms = f_messages p @ rest"
    "xs = frame_stream dump (f_messages p) @ b" "prefix b (frame_stream dump rest)" "at_cut dump rest p b"
    by (auto simp: read_upto_def)
  have more: "prefix (b @ data) (frame_stream dump rest)" using assms(3) r(2,3) by simp
  define q where "q = p\<lparr>f_buffer := f_buffer p @ data\<rparr>"
  have feed: "feed parse data p = feed_loop parse q" using r(1) by (simp add: feed_def q_def)
  show ?thesis
  proof (cases "f_pending p < 0")
    case True
    with r(5) have "f_buffer p = b" by (simp add: at_cut_def)
    moreover have "carried parse dump rest" using assms(2) r(2) by (simp add: carried_def)
    ultimately show ?thesis
      unfolding feed using feed_loop_stream [of q dump rest parse] True r(1-3) more by (simp add: q_def)
  next
    case False
    with r(5) obtain m rest' where m: "rest = m # rest'" "f_pending p = int (length (dump m))"
      "b = frame_header (length (dump m)) @ f_buffer p" by (auto simp: at_cut_def)
    have c: "carried parse dump (m # rest')" using assms(2) r(2) m(1) by (simp add: carried_def)
    have "\<exists>p'. feed_loop parse q = (True, p') \<and> read_upto dump (f_messages q @ m # rest') p'
        (frame_stream dump (f_messages q) @ frame_header (length (dump m)) @ f_buffer q)"
    proof (rule feed_loop_body [OF _ _ _ c])
      show "prefix (f_buffer q) (dump m @ frame_stream dump rest')" using more m(1,3) by (simp add: q_def)
      have "carried parse dump rest'" using c by (simp add: carried_def)
      then show "\<exists>q'. feed_loop parse x = (True, q') \<and>
          read_upto dump (f_messages x @ rest') q' (frame_stream dump (f_messages x) @ f_buffer x)"
        if "\<not> f_broken x" "f_pending x < 0" "prefix (f_buffer x) (frame_stream dump rest')" for x
        using that by (intro feed_loop_stream)
    qed (use r(1) m(2) in \<open>simp_all add: q_def\<close>)
    then show ?thesis unfolding feed using r(2,3) m(1,3) by (simp add: q_def)
  qed
qed

text \<open>As a chunked feed: the state stands for what was read as long as that is part of the stream.\<close>

definition stands_for ::
  "(string \<Rightarrow> json option) \<Rightarrow> (json \<Rightarrow> string) \<Rightarrow> json list \<Rightarrow> frame_parser \<Rightarrow> string \<Rightarrow> bool" where
  "stands_for parse dump ms p xs \<longleftrightarrow>
     (carried parse dump ms \<and> prefix xs (frame_stream dump ms) \<longrightarrow> read_upto dump ms p xs)"

interpretation frames: chunked_feed "feed_state parse" "stands_for parse dump ms" for parse dump ms
proof
  fix p xs data
  assume "stands_for parse dump ms p xs"
  then show "stands_for parse dump ms (feed_state parse data p) (xs @ data)"
    using feed_reads_on [of dump ms p xs parse data]
    by (auto simp: stands_for_def feed_state_def dest: append_prefixD)
qed

lemma read_upto_complete:
  assumes "read_upto dump ms p (frame_stream dump ms)"
  shows "f_messages p = ms \<and> f_buffer p = [] \<and> f_pending p < 0"
proof -
  from assms obtain rest b where r: "ms = f_messages p @ rest"
    "frame_stream dump ms = frame_stream dump (f_messages p) @ b" "at_cut dump rest p b"
    by (auto simp: read_upto_def)
  then have b: "b = frame_stream dump rest" by (metis append_same_eq frame_stream_simps(3) same_append_eq)
  have neg: "f_pending p < 0"
  proof (rule ccontr)
    assume "\<not> f_pending p < 0"
    with r(3) b show False by (auto simp: at_cut_def dest: arg_cong [where f = length])
  qed
  have "rest = []"
  proof (cases rest)
    case (Cons m rest')
    with b r(3) neg complete_header [of "length (dump m)"] show ?thesis by (simp add: at_cut_def)
  qed
  with r b neg show ?thesis by (simp add: at_cut_def)
qed

lemma new_parser_reads: "read_upto dump ms new_parser []"
  by (simp add: read_upto_def new_parser_def at_cut_def find_header_end_def)

definition run_chunks :: "(string \<Rightarrow> json option) \<Rightarrow> string list \<Rightarrow> frame_parser" where
  "run_chunks parse chunks = fold (feed_state parse) chunks new_parser"

section \<open>Properties\<close>

text \<open>However the pipe cuts a stream of encoded messages, the parser delivers exactly these messages
  in order, keeps nothing back at the end and never reports the stream as broken.\<close>

lemma framed_stream_delivered:
  assumes "\<forall>m\<in>set ms. parse (dump m) = Some m \<and> length (dump m) \<le> max_frame_body"
    and "concat chunks = concat (map (encode_frame dump) ms)"
  shows "f_messages (run_chunks parse chunks) = ms \<and> f_buffer (run_chunks parse chunks) = [] \<and>
     \<not> f_broken (run_chunks parse chunks)"
proof -
  have "carried parse dump ms" using assms(1) by (simp add: carried_def)
  moreover have "stands_for parse dump ms (run_chunks parse chunks) (concat chunks)"
    unfolding run_chunks_def
    by (rule frames.fold_stands_Nil) (simp add: stands_for_def new_parser_reads)
  ultimately have r: "read_upto dump ms (run_chunks parse chunks) (frame_stream dump ms)"
    using assms(2) by (simp add: stands_for_def frame_stream_def)
  with read_upto_complete [OF r] show ?thesis by (simp add: read_upto_def)
qed

text \<open>What the parser holds back is bounded for any bytes: while it waits for a header at most 4096
  bytes, while it waits for a body fewer than announced and at most 128 MB; and feed returns false
  exactly when the stream is broken.\<close>

lemma frame_buffer_bounded:
  "(f_broken (run_chunks parse chunks) \<or>
     (if f_pending (run_chunks parse chunks) < 0 then length (f_buffer (run_chunks parse chunks)) \<le> 4096
      else f_pending (run_chunks parse chunks) \<le> int max_frame_body \<and>
        int (length (f_buffer (run_chunks parse chunks))) < f_pending (run_chunks parse chunks))) \<and>
   (fst (feed parse data (run_chunks parse chunks)) \<longleftrightarrow> \<not> f_broken (feed_state parse data (run_chunks parse chunks)))"
proof -
  have "frame_inv new_parser" by (simp add: frame_inv_def new_parser_def)
  then have inv: "frame_inv (run_chunks parse chunks)"
    unfolding run_chunks_def by (rule frame_machine.run_inv)
  show ?thesis
    using inv feed_inv [OF inv, of parse data] unfolding frame_inv_def feed_state_def by blast
qed

definition tiny_dump :: "json \<Rightarrow> string" where
  "tiny_dump j = (case j of JBool True \<Rightarrow> ''true'' | _ \<Rightarrow> ''null'')"

definition tiny_parse :: "string \<Rightarrow> json option" where
  "tiny_parse s = (if s = ''true'' then Some (JBool True) else if s = ''null'' then Some JNull else None)"

lemma framed_stream_delivered_witness:
  "f_messages (run_chunks tiny_parse [take 7 (encode_frame tiny_dump (JBool True)),
     drop 7 (encode_frame tiny_dump (JBool True)) @ encode_frame tiny_dump JNull]) = [JBool True, JNull]"
proof -
  let ?ms = "[JBool True, JNull]"
  have "\<forall>m\<in>set ?ms. tiny_parse (tiny_dump m) = Some m \<and> length (tiny_dump m) \<le> max_frame_body"
    by (simp add: tiny_parse_def tiny_dump_def max_frame_body_def)
  moreover have "concat [take 7 (encode_frame tiny_dump (JBool True)),
     drop 7 (encode_frame tiny_dump (JBool True)) @ encode_frame tiny_dump JNull] = concat (map (encode_frame tiny_dump) ?ms)"
    by simp
  ultimately show ?thesis
    using framed_stream_delivered [of ?ms tiny_parse tiny_dump] by blast
qed

end
