(* ===== verification/ToolGate.thy ===== *)
theory ToolGate
  imports Permissions ShellGuard DoomGuard HistoryRecovery
begin

text \<open>
  The tool phase of \<open>AgentLoop\<close> (\<open>agent_loop.cpp\<close>): between the model's answer and the execution of
  the tools it calls stands a chain of checks, and this theory models the whole chain as the code
  composes it: the expert policy, the doom guard, the permission manager, the shell guard, the path
  validator, the unattended-goal rule, the hooks, the headless rule and the user's prompt, then the
  execution, and around it the batches of read-only calls, the serial run of the others and the rows
  that are recorded for all of them.  What lies outside (tools, hooks, the user, the file system, the
  clock) is the record \<open>gate_env\<close>; every call may meet another environment.  The trace lists what was
  asked of the outside and what was executed, so that ``nothing runs unasked'' is a statement about it.
\<close>

section \<open>The outside\<close>

datatype hook_event = PreToolUse | PermissionRequest | PermissionResolved | PostToolUse

text \<open>Of \<open>HookAggregateOutcome\<close> the fields the tool phase reads.\<close>

record hook_outcome =
  hk_blocked :: bool
  hk_denied :: bool
  hk_allowed :: bool
  hk_continue_false :: bool
  hk_reason :: string
  hk_updated_input :: "json option"
  hk_replacement_output :: "string option"

text \<open>The parts of the session manager the tool phase reads.  \<open>sm_goal_active\<close> is the lookup of a thread
  goal with the status Active, \<open>None\<close> when there is no goal store; \<open>ge_now\<close> and \<open>ge_later\<close> are the steady
  clock in nanoseconds before and after the execution, \<open>ge_read_text\<close> the error of reading a file back.\<close>

record session_info =
  sm_project_dir :: string
  sm_session_id :: string
  sm_parent_session_id :: string
  sm_goal_active :: "(string \<Rightarrow> bool) option"

record gate_env =
  ge_fs :: fs_api
  ge_sort :: "permission_rule list \<Rightarrow> permission_rule list"
  ge_parse :: "string \<Rightarrow> json option"
  ge_dump :: "json \<Rightarrow> string"
  ge_canonical :: "string \<Rightarrow> string"
  ge_plan_path :: "string \<Rightarrow> string \<Rightarrow> string"
  ge_session :: "session_info option"
  ge_read_only :: "string \<Rightarrow> bool"
  ge_has_tool :: "string \<Rightarrow> bool"
  ge_policy_denies :: "string \<Rightarrow> bool"
  ge_loop_active :: bool
  ge_cwd :: string
  ge_validator :: path_validator
  ge_headless :: bool
  ge_hooks :: "(hook_event \<Rightarrow> string \<Rightarrow> json \<Rightarrow> json \<Rightarrow> hook_outcome) option"
  ge_permission_args :: "string \<Rightarrow> string \<Rightarrow> string"
  ge_ask :: "(string \<Rightarrow> string \<Rightarrow> permission_manager \<Rightarrow> permission_result \<times> permission_manager) option"
  ge_execute :: "string \<Rightarrow> string \<Rightarrow> permission_manager \<Rightarrow> (string + tool_result) \<times> permission_manager"
  ge_read_text :: "string \<Rightarrow> string option"
  ge_now :: int
  ge_later :: int

text \<open>What the tool phase did, in order: a permission hook asked, a permission resolved, the user
  asked, a tool executed.\<close>

datatype gate_event =
  HookAsked string json
| Resolved string string
| UserAsked string string
| Executed string string

record gate_state =
  gs_perms :: permission_manager
  gs_guard :: doom_guard
  gs_failures :: "(string \<times> int) list"
  gs_trace :: "gate_event list"

definition note_event :: "gate_event \<Rightarrow> gate_state \<Rightarrow> gate_state" where
  "note_event e st = st\<lparr>gs_trace := gs_trace st @ [e]\<rparr>"

definition failed_with :: "string \<Rightarrow> tool_result" where
  "failed_with out = \<lparr>res_output = out, res_success = False, res_summary = None\<rparr>"

section \<open>What a call is about\<close>

text \<open>\<open>extract_context\<close>: the path and the command named by the arguments.  \<open>contains\<close> on a value that is
  not an object is false.\<close>

definition extract_context :: "(string \<Rightarrow> json option) \<Rightarrow> tool_call \<Rightarrow> string \<times> string" where
  "extract_context parse tc =
     (case parse (function_arguments tc) of
        None \<Rightarrow> ([], [])
      | Some j \<Rightarrow>
          ((case string_field j ''file_path'' of Some p \<Rightarrow> p
            | None \<Rightarrow> (case string_field j ''image_path'' of Some p \<Rightarrow> p
            | None \<Rightarrow> (case string_field j ''path'' of Some p \<Rightarrow> p | None \<Rightarrow> []))),
           (case string_field j ''command'' of Some c \<Rightarrow> c | None \<Rightarrow> [])))"

definition payload_of_args :: "(string \<Rightarrow> json option) \<Rightarrow> string \<Rightarrow> json" where
  "payload_of_args parse args =
     (if args = [] then JObj []
      else case parse args of
        Some j \<Rightarrow> (if is_object j then j else JObj [(''raw'', JStr args)])
      | None \<Rightarrow> JObj [(''raw'', JStr args)])"

definition is_plan_file_path :: "gate_env \<Rightarrow> session_info \<Rightarrow> string \<Rightarrow> bool" where
  "is_plan_file_path env sm path =
     (if sm_project_dir sm = [] \<or> sm_session_id sm = [] \<or> path = [] then False
      else let plan_path = ge_canonical env (ge_plan_path env (sm_project_dir sm) (sm_session_id sm));
               resolved = ge_canonical env path
        in plan_path \<noteq> [] \<and> resolved \<noteq> [] \<and> plan_path = resolved)"

definition names_plan_file :: "gate_env \<Rightarrow> string \<Rightarrow> bool" where
  "names_plan_file env path = (case ge_session env of None \<Rightarrow> False | Some sm \<Rightarrow> is_plan_file_path env sm path)"

definition goal_unattended_active :: "gate_env \<Rightarrow> permission_manager \<Rightarrow> bool" where
  "goal_unattended_active env pm =
     (case ge_session env of
        None \<Rightarrow> False
      | Some sm \<Rightarrow>
          if pm_mode pm = Plan then False
          else case sm_goal_active sm of
            None \<Rightarrow> False
          | Some active \<Rightarrow>
              (let is_active = (\<lambda>sid. if sid = [] then False else active sid)
               in if is_active (sm_session_id sm) then True else is_active (sm_parent_session_id sm)))"

section \<open>The path boundary and the execution\<close>

definition is_cwd_validation_exempt :: "gate_env \<Rightarrow> permission_manager \<Rightarrow> string \<Rightarrow> string \<Rightarrow> bool" where
  "is_cwd_validation_exempt env pm tool path =
     (if tool = ''file_read'' \<or> (ge_loop_active env \<and> pm_mode pm = Yolo \<and> ge_read_only env tool) then True
      else if pm_mode pm = Yolo \<and> \<not> pm_dangerous pm \<and> \<not> ge_loop_active env then True
      else names_plan_file env path)"

definition path_validation_error :: "gate_env \<Rightarrow> permission_manager \<Rightarrow> string \<Rightarrow> string \<Rightarrow> string" where
  "path_validation_error env pm tool path =
     (if path = [] \<or> tool = ''bash'' then []
      else if ge_loop_active env \<and> pm_mode pm = Yolo \<and> \<not> ge_read_only env tool \<and>
              validate (ge_fs env) (make_validator (ge_fs env) (ge_cwd env) False) path \<noteq> []
           then ''LOOP Yolo external write blocked: '' @ path
      else if is_cwd_validation_exempt env pm tool path then []
      else validate (ge_fs env) (ge_validator env) path)"

definition execute_single_tool :: "gate_env \<Rightarrow> string \<Rightarrow> string \<Rightarrow> string \<Rightarrow> gate_state \<Rightarrow> tool_result \<times> gate_state" where
  "execute_single_tool env tool args path st =
     (let path_error = (if path \<noteq> [] \<and> tool \<noteq> ''bash''
                        then path_validation_error env (gs_perms st) tool path else [])
      in if path_error \<noteq> [] then (failed_with (''[Error] '' @ path_error), st)
         else if ge_has_tool env tool then
           (case ge_execute env tool args (gs_perms st) of
              (outcome, pm) \<Rightarrow>
                ((case outcome of
                    Inr r \<Rightarrow> r
                  | Inl what \<Rightarrow> failed_with (''[Error] Tool execution failed: '' @ what)),
                 note_event (Executed tool args) (st\<lparr>gs_perms := pm\<rparr>)))
         else (failed_with (''Unknown tool: '' @ tool), st))"

section \<open>The checks before anybody is asked\<close>

definition initial_auto_allow :: "gate_env \<Rightarrow> permission_manager \<Rightarrow> string \<Rightarrow> string \<Rightarrow> string \<Rightarrow> bool" where
  "initial_auto_allow env pm tool path command =
     (let targets_plan_file = pm_mode pm = Plan \<and> (tool = ''file_write'' \<or> tool = ''file_edit'') \<and>
            names_plan_file env path;
          auto_allow = should_auto_allow (ge_sort env) pm tool False path command;
          in_plan = (if pm_mode pm = Plan then targets_plan_file \<or> tool = ''TodoWrite'' else auto_allow)
      in if tool = ''ExitPlanMode'' \<and> pm_mode pm \<noteq> Plan then True else in_plan)"

definition ten_minutes :: int where
  "ten_minutes = 10 * 60 * 1000000000"

definition prune_failures :: "int \<Rightarrow> (string \<times> int) list \<Rightarrow> (string \<times> int) list" where
  "prune_failures now fs = [f \<leftarrow> fs. \<not> now - snd f > ten_minutes]"

definition shell_write_blocked :: "string \<Rightarrow> tool_result" where
  "shell_write_blocked failed_path = failed_with (''[Error] Shell write blocked for '' @ failed_path @
     '' because a recent safe file edit failed. '' @
     ''Re-read the file and retry with an exact file_edit old_string, or perform an explicit encoding conversion instead of bypassing text safety.'')"

text \<open>The block for a \<open>bash\<close> call that looks like a write: the refusal, if any, and the table of recent
  failures without those older than ten minutes.\<close>

definition shell_write_check ::
  "gate_env \<Rightarrow> permission_manager \<Rightarrow> string \<Rightarrow> (string \<times> int) list \<Rightarrow> tool_result option \<times> (string \<times> int) list" where
  "shell_write_check env pm command failures =
     (let loop_rejection = (if ge_loop_active env \<and> pm_mode pm = Yolo
            then loop_shell_write_escape_reason (ge_fs env) command (ge_cwd env) else [])
      in if loop_rejection \<noteq> [] then (Some (failed_with (''[Error] '' @ loop_rejection)), failures)
         else let recent = prune_failures (ge_now env) failures
           in (if pm_dangerous pm \<or> pm_mode pm = Yolo then None
               else map_option shell_write_blocked (find (command_mentions_path command) (map fst recent)),
               recent))"

text \<open>The block for a path argument: the boundary error, or whether the call may still run unasked.\<close>

definition path_check :: "gate_env \<Rightarrow> permission_manager \<Rightarrow> string \<Rightarrow> string \<Rightarrow> bool \<Rightarrow> tool_result + bool" where
  "path_check env pm tool path auto_allow =
     (if path \<noteq> [] \<and> tool \<noteq> ''bash'' then
        (let path_error = path_validation_error env pm tool path;
             targets_plan_file = pm_mode pm = Plan \<and> (tool = ''file_write'' \<or> tool = ''file_edit'') \<and>
               names_plan_file env path
         in if path_error \<noteq> [] then Inl (failed_with (''[Error] '' @ path_error))
            else if \<not> targets_plan_file \<and> is_dangerous_path (ge_fs env) (ge_validator env) path \<and> auto_allow \<and>
                    \<not> pm_dangerous pm \<and> pm_mode pm \<noteq> Yolo then Inr False
            else Inr auto_allow)
      else Inr auto_allow)"

definition denied_by_expert :: "string \<Rightarrow> tool_result" where
  "denied_by_expert tool =
     failed_with (''[Error] Tool denied by the active expert capability policy: '' @ tool)"

definition denied_in_yolo :: tool_result where
  "denied_in_yolo = failed_with ''[Permission denied by configured rule in yolo mode]''"

text \<open>All the checks up to the unattended-goal rule: a refusal, or whether the call may run unasked.\<close>

definition static_gate ::
  "gate_env \<Rightarrow> tool_call \<Rightarrow> string \<Rightarrow> string \<Rightarrow> gate_state \<Rightarrow> (tool_result + bool) \<times> gate_state" where
  "static_gate env tc path command st =
     (let tool = function_name tc; pm = gs_perms st
      in if ge_policy_denies env tool then (Inl (denied_by_expert tool), st)
         else case maybe_guard (ge_parse env) tc (gs_guard st) of
           (Some guarded, g) \<Rightarrow> (Inl guarded, st\<lparr>gs_guard := g\<rparr>)
         | (None, g) \<Rightarrow>
             (let st1 = st\<lparr>gs_guard := g\<rparr>;
                  auto_allow = initial_auto_allow env pm tool path command
              in if \<not> auto_allow \<and> pm_mode pm = Yolo then (Inl denied_in_yolo, st1)
                 else case (if tool = ''bash'' \<and> command_looks_like_file_write command
                            then shell_write_check env pm command (gs_failures st1)
                            else (None, gs_failures st1)) of
                   (Some refused, fs) \<Rightarrow> (Inl refused, st1\<lparr>gs_failures := fs\<rparr>)
                 | (None, fs) \<Rightarrow>
                     (let st2 = st1\<lparr>gs_failures := fs\<rparr>
                      in case path_check env pm tool path auto_allow of
                           Inl refused \<Rightarrow> (Inl refused, st2)
                         | Inr auto_allow' \<Rightarrow> (Inr (auto_allow' \<or> goal_unattended_active env pm), st2))))"

section \<open>Consent\<close>

definition hook_reason_or :: "string \<Rightarrow> hook_outcome \<Rightarrow> string" where
  "hook_reason_or text out = (if hk_reason out = [] then text else hk_reason out)"

text \<open>The permission hook: a refusal, or whether the call is allowed now; the flag says whether a
  permission request was dispatched and is still to be resolved.\<close>

definition hook_gate ::
  "gate_env \<Rightarrow> tool_call \<Rightarrow> bool \<Rightarrow> gate_state \<Rightarrow> (tool_result + bool \<times> bool) \<times> gate_state" where
  "hook_gate env tc auto_allow st =
     (case ge_hooks env of
        None \<Rightarrow> (Inr (auto_allow, False), st)
      | Some dispatch \<Rightarrow>
          if auto_allow then (Inr (auto_allow, False), st)
          else let payload = payload_of_args (ge_parse env) (function_arguments tc);
                   st1 = note_event (HookAsked (function_name tc) payload) st;
                   out = dispatch PermissionRequest (function_name tc) payload JNull
            in if hk_denied out \<or> hk_blocked out then
                 (Inl (failed_with (''[Hook denied permission] '' @ hook_reason_or ''Permission denied by hook.'' out)),
                  note_event (Resolved ''deny'' ''hook'') st1)
               else if hk_allowed out then (Inr (True, False), note_event (Resolved ''allow'' ''hook'') st1)
               else (Inr (False, True), st1))"

definition report :: "bool \<Rightarrow> string \<Rightarrow> string \<Rightarrow> gate_state \<Rightarrow> gate_state" where
  "report pending decision source st = (if pending then note_event (Resolved decision source) st else st)"

definition headless_refusal :: tool_result where
  "headless_refusal = failed_with
     (''[Headless mode] This tool call requires interactive user confirmation, which is unavailable in print (-p) '' @
      ''mode; it was denied automatically. Prefer a read-only alternative and continue. The user can rerun with '' @
      ''--yolo (or --permission-mode accept-edits) to allow such calls.'')"

definition headless_gate ::
  "gate_env \<Rightarrow> bool \<times> bool \<Rightarrow> gate_state \<Rightarrow> (tool_result + bool \<times> bool) \<times> gate_state" where
  "headless_gate env d st =
     (case d of (auto_allow, pending) \<Rightarrow>
        if \<not> auto_allow \<and> ge_headless env then
          (if pm_dangerous (gs_perms st) then (Inr (True, False), report pending ''allow'' ''headless'' st)
           else (Inl headless_refusal, report pending ''deny'' ''headless'' st))
        else (Inr (auto_allow, pending), st))"

text \<open>The prompt.  The user may change the mode while the question is open, so the answer comes with the
  permission manager as it is then.\<close>

definition user_gate ::
  "gate_env \<Rightarrow> tool_call \<Rightarrow> bool \<times> bool \<Rightarrow> gate_state \<Rightarrow> tool_result option \<times> gate_state" where
  "user_gate env tc d st =
     (case d of (auto_allow, pending) \<Rightarrow>
        if auto_allow then (None, st)
        else case ge_ask env of
          None \<Rightarrow> (None, report pending ''allow'' ''implicit'' st)
        | Some ask \<Rightarrow>
            (let tool = function_name tc;
                 args = ge_permission_args env tool (function_arguments tc)
             in case ask tool args (gs_perms st) of (perm, pm) \<Rightarrow>
               (let st1 = note_event (UserAsked tool args) (st\<lparr>gs_perms := pm\<rparr>)
                in if perm = Deny then
                     (Some (failed_with ''[User denied tool execution]''), report pending ''deny'' ''interactive'' st1)
                   else let st2 = report pending (if perm = AlwaysAllow then ''always_allow'' else ''allow'')
                                    ''interactive'' st1
                     in (None, if perm = AlwaysAllow \<and> pm_mode (gs_perms st2) \<noteq> Plan \<and>
                                  tool \<noteq> ''EnterPlanMode'' \<and> tool \<noteq> ''ExitPlanMode''
                               then st2\<lparr>gs_perms := add_session_allow tool (gs_perms st2)\<rparr> else st2))))"

definition consent_gate :: "gate_env \<Rightarrow> tool_call \<Rightarrow> bool \<Rightarrow> gate_state \<Rightarrow> tool_result option \<times> gate_state" where
  "consent_gate env tc auto_allow st =
     (case hook_gate env tc auto_allow st of
        (Inl r, st1) \<Rightarrow> (Some r, st1)
      | (Inr d, st1) \<Rightarrow>
          (case headless_gate env d st1 of
             (Inl r, st2) \<Rightarrow> (Some r, st2)
           | (Inr d', st2) \<Rightarrow> user_gate env tc d' st2))"

section \<open>Execution and its aftermath\<close>

fun put_failure :: "string \<Rightarrow> int \<Rightarrow> (string \<times> int) list \<Rightarrow> (string \<times> int) list" where
  "put_failure p t [] = [(p, t)]"
| "put_failure p t ((q, s) # fs) =
     (if p = q then (p, t) # fs else if p < q then (p, t) # (q, s) # fs else (q, s) # put_failure p t fs)"

definition remember_failure :: "gate_env \<Rightarrow> tool_call \<Rightarrow> string \<Rightarrow> tool_result \<Rightarrow> gate_state \<Rightarrow> gate_state" where
  "remember_failure env tc path r st =
     (if (function_name tc = ''file_edit'' \<or> function_name tc = ''file_write'') \<and> path \<noteq> [] \<and> \<not> res_success r \<and>
         (let lower = ascii_lower (res_output r)
          in contains lower ''encoding'' \<or> contains lower ''old_string'' \<or> contains lower ''round-trip'')
      then st\<lparr>gs_failures := put_failure path (ge_later env) (gs_failures st)\<rparr> else st)"

definition recheck_file :: "gate_env \<Rightarrow> string \<Rightarrow> string \<Rightarrow> tool_result \<Rightarrow> tool_result" where
  "recheck_file env command failed_path r =
     (if \<not> command_mentions_path command failed_path then r
      else case ge_read_text env failed_path of
        None \<Rightarrow> r
      | Some err \<Rightarrow>
          r\<lparr>res_success := False,
            res_output := res_output r @ (if res_output r \<noteq> [] \<and> last (res_output r) \<noteq> newline then [newline] else []) @
              ''[Error] Post-command encoding sanity check failed for '' @ failed_path @ '': '' @ err\<rparr>)"

definition recheck_files :: "gate_env \<Rightarrow> tool_call \<Rightarrow> string \<Rightarrow> (string \<times> int) list \<Rightarrow> tool_result \<Rightarrow> tool_result" where
  "recheck_files env tc command failures r =
     (if function_name tc = ''bash'' \<and> res_success r \<and> command_looks_like_file_write command
      then fold (recheck_file env command) (map fst failures) r else r)"

text \<open>The runner of a call that may write: the body of the lambda of phase 2.\<close>

definition write_runner ::
  "gate_env \<Rightarrow> tool_call \<Rightarrow> string \<Rightarrow> string \<Rightarrow> gate_state \<Rightarrow> tool_result \<times> gate_state" where
  "write_runner env tc path command st =
     (case static_gate env tc path command st of
        (Inl r, st1) \<Rightarrow> (r, st1)
      | (Inr auto_allow, st1) \<Rightarrow>
          (case consent_gate env tc auto_allow st1 of
             (Some r, st2) \<Rightarrow> (r, st2)
           | (None, st2) \<Rightarrow>
               (case execute_single_tool env (function_name tc) (function_arguments tc) path st2 of
                  (r, st3) \<Rightarrow>
                    (let st4 = remember_failure env tc path r st3
                     in (recheck_files env tc command (gs_failures st4) r, st4)))))"

text \<open>The runner of a read-only call (phase 1): no permission check.\<close>

definition read_runner ::
  "gate_env \<Rightarrow> tool_call \<Rightarrow> string \<Rightarrow> string \<Rightarrow> gate_state \<Rightarrow> tool_result \<times> gate_state" where
  "read_runner env tc path command st =
     (if ge_policy_denies env (function_name tc) then (denied_by_expert (function_name tc), st)
      else case maybe_guard (ge_parse env) tc (gs_guard st) of
        (Some guarded, g) \<Rightarrow> (guarded, st\<lparr>gs_guard := g\<rparr>)
      | (None, g) \<Rightarrow>
          execute_single_tool env (function_name tc) (function_arguments tc) path (st\<lparr>gs_guard := g\<rparr>))"

section \<open>Hooks around a call\<close>

text \<open>The hook before a tool: a refusal, or the call with the arguments the hook may have replaced.\<close>

definition pre_tool_hook :: "gate_env \<Rightarrow> tool_call \<Rightarrow> tool_result + tool_call" where
  "pre_tool_hook env tc =
     (case ge_hooks env of
        None \<Rightarrow> Inr tc
      | Some dispatch \<Rightarrow>
          (let out = dispatch PreToolUse (function_name tc) (payload_of_args (ge_parse env) (function_arguments tc)) JNull;
               tc' = (case hk_updated_input out of
                        None \<Rightarrow> tc
                      | Some (JStr s) \<Rightarrow> tc\<lparr>function_arguments := s\<rparr>
                      | Some j \<Rightarrow> tc\<lparr>function_arguments := ge_dump env j\<rparr>)
           in if hk_denied out \<or> hk_blocked out
              then Inl (failed_with (''[Hook denied tool execution] '' @ hook_reason_or ''Tool execution denied by hook.'' out))
              else Inr tc'))"

definition post_tool_hook :: "gate_env \<Rightarrow> tool_call \<Rightarrow> tool_result \<Rightarrow> tool_result" where
  "post_tool_hook env tc r =
     (case ge_hooks env of
        None \<Rightarrow> r
      | Some dispatch \<Rightarrow>
          (let out = dispatch PostToolUse (function_name tc) (payload_of_args (ge_parse env) (function_arguments tc))
                 (JObj [(''success'', JBool (res_success r)), (''output'', JStr (res_output r))]);
               stops = hk_blocked out \<or> hk_continue_false out
           in case hk_replacement_output out of
                Some text \<Rightarrow> r\<lparr>res_output := text, res_success := (if stops then False else res_success r)\<rparr>
              | None \<Rightarrow> if stops \<and> hk_reason out \<noteq> []
                        then r\<lparr>res_output := hk_reason out, res_success := False\<rparr> else r))"

type_synonym tool_runner =
  "gate_env \<Rightarrow> tool_call \<Rightarrow> string \<Rightarrow> string \<Rightarrow> gate_state \<Rightarrow> tool_result \<times> gate_state"

definition run_tool_with_lifecycle ::
  "tool_runner \<Rightarrow> gate_env \<Rightarrow> tool_call \<Rightarrow> gate_state \<Rightarrow> tool_result \<times> gate_state" where
  "run_tool_with_lifecycle runner env tc st =
     (case pre_tool_hook env tc of
        Inl r \<Rightarrow> (r, st)
      | Inr tc' \<Rightarrow>
          (case extract_context (ge_parse env) tc' of (path, command) \<Rightarrow>
             (case runner env tc' path command st of (r, st') \<Rightarrow> (post_tool_hook env tc' r, st'))))"

section \<open>The phases of a turn\<close>

type_synonym entry = "nat \<times> tool_call"

definition record_doom_guard_result :: "gate_env \<Rightarrow> tool_call \<Rightarrow> tool_result \<Rightarrow> gate_state \<Rightarrow> gate_state" where
  "record_doom_guard_result env tc r st = st\<lparr>gs_guard := record_result (ge_parse env) tc r (gs_guard st)\<rparr>"

definition max_concurrency :: "nat \<Rightarrow> nat" where
  "max_concurrency hardware = min 4 (max 1 hardware)"

text \<open>The calls of one batch, in the order in which their threads happen to get through, and then the
  harvest in the order of the batch.\<close>

fun run_entries :: "(nat \<Rightarrow> gate_env) \<Rightarrow> entry list \<Rightarrow> gate_state \<Rightarrow> (nat \<times> tool_result) list \<times> gate_state" where
  "run_entries env [] st = ([], st)"
| "run_entries env ((i, tc) # es) st =
     (case run_tool_with_lifecycle read_runner (env i) tc st of (r, st1) \<Rightarrow>
        (case run_entries env es st1 of (rs, st2) \<Rightarrow> ((i, r) # rs, st2)))"

definition harvest :: "(nat \<Rightarrow> gate_env) \<Rightarrow> (nat \<times> tool_result) list \<Rightarrow> entry \<Rightarrow> gate_state \<Rightarrow> gate_state" where
  "harvest env rs e st =
     (case map_of rs (fst e) of
        None \<Rightarrow> st
      | Some r \<Rightarrow> record_doom_guard_result (env (fst e)) (snd e) r st)"

function read_phase ::
  "nat \<Rightarrow> (nat \<Rightarrow> bool) \<Rightarrow> (entry list \<Rightarrow> entry list) \<Rightarrow> (nat \<Rightarrow> gate_env) \<Rightarrow> entry list \<Rightarrow> gate_state \<Rightarrow>
     (nat \<times> tool_result) list \<times> gate_state" where
  "read_phase hardware aborted order env es st =
     (if es = [] \<or> aborted (fst (hd es)) then ([], st)
      else let batch = take (max_concurrency hardware) es
        in case run_entries env (order batch) st of (rs, st1) \<Rightarrow>
          (case read_phase hardware aborted order env (drop (max_concurrency hardware) es)
                  (fold (harvest env rs) batch st1) of
             (rs', st2) \<Rightarrow> (rs @ rs', st2)))"
  by pat_completeness auto
termination
  by (relation "measure (\<lambda>(h, a, ord, env, es, st). length es)") (auto simp: max_concurrency_def)

declare read_phase.simps [simp del]

fun write_phase ::
  "(nat \<Rightarrow> bool) \<Rightarrow> (nat \<Rightarrow> gate_env) \<Rightarrow> entry list \<Rightarrow> gate_state \<Rightarrow> (nat \<times> tool_result) list \<times> gate_state" where
  "write_phase aborted env [] st = ([], st)"
| "write_phase aborted env ((i, tc) # es) st =
     (if aborted i then ([], st)
      else case run_tool_with_lifecycle write_runner (env i) tc st of (r, st1) \<Rightarrow>
        (case write_phase aborted env es (record_doom_guard_result (env i) tc r st1) of
           (rs, st2) \<Rightarrow> ((i, r) # rs, st2)))"

definition read_entries :: "(string \<Rightarrow> bool) \<Rightarrow> tool_call list \<Rightarrow> entry list" where
  "read_entries ro calls = [e \<leftarrow> enumerate 0 calls. ro (function_name (snd e))]"

definition write_entries :: "(string \<Rightarrow> bool) \<Rightarrow> tool_call list \<Rightarrow> entry list" where
  "write_entries ro calls = [e \<leftarrow> enumerate 0 calls. \<not> ro (function_name (snd e))]"

text \<open>Both phases: the results by position (a position without one was not reached before an abort).\<close>

definition tool_phase ::
  "nat \<Rightarrow> (nat \<Rightarrow> bool) \<Rightarrow> (entry list \<Rightarrow> entry list) \<Rightarrow> (string \<Rightarrow> bool) \<Rightarrow> (nat \<Rightarrow> gate_env) \<Rightarrow> tool_call list \<Rightarrow>
     gate_state \<Rightarrow> (nat \<Rightarrow> tool_result option) \<times> gate_state" where
  "tool_phase hardware aborted order ro env calls st =
     (case read_phase hardware aborted order env (read_entries ro calls) st of (rs, st1) \<Rightarrow>
        (case write_phase aborted env (write_entries ro calls) st1 of (ws, st2) \<Rightarrow>
           (map_of (rs @ ws), st2)))"

section \<open>The recorded rows\<close>

text \<open>\<open>format_tool_result\<close>; the metadata and the content parts carry summaries, hunks and attachments for
  the interface and are a parameter.\<close>

definition format_tool_result ::
  "(string \<Rightarrow> string) \<Rightarrow> (tool_result \<Rightarrow> json \<times> json) \<Rightarrow> string \<Rightarrow> tool_result \<Rightarrow> chat_message" where
  "format_tool_result ensure_utf8 extras i r =
     empty_message\<lparr>role := ''tool'', content := ensure_utf8 (res_output r), tool_call_id := i,
       metadata := fst (extras r), content_parts := snd (extras r)\<rparr>"

definition tool_row ::
  "(string \<Rightarrow> string) \<Rightarrow> (tool_result \<Rightarrow> json \<times> json) \<Rightarrow> (nat \<Rightarrow> tool_result option) \<Rightarrow> entry \<Rightarrow> chat_message" where
  "tool_row ensure_utf8 extras results e =
     (case results (fst e) of
        Some r \<Rightarrow> format_tool_result ensure_utf8 extras (call_id (snd e)) r
      | None \<Rightarrow> format_tool_result ensure_utf8 extras (call_id (snd e)) (failed_with ''[Interrupted]''))"

section \<open>What was executed\<close>

definition executed_in :: "gate_event list \<Rightarrow> (string \<times> string) list" where
  "executed_in evs = List.map_filter (\<lambda>e. case e of Executed n a \<Rightarrow> Some (n, a) | _ \<Rightarrow> None) evs"

definition executed :: "gate_state \<Rightarrow> (string \<times> string) list" where
  "executed st = executed_in (gs_trace st)"

lemma executed_in_append [simp]: "executed_in (xs @ ys) = executed_in xs @ executed_in ys"
  by (simp add: executed_in_def List.map_filter_def)

lemma executed_in_simps [simp]:
  "executed_in [] = []"
  "executed_in (Executed n a # evs) = (n, a) # executed_in evs"
  "executed_in (UserAsked n a # evs) = executed_in evs"
  "executed_in (HookAsked n j # evs) = executed_in evs"
  "executed_in (Resolved d s # evs) = executed_in evs"
  by (simp_all add: executed_in_def List.map_filter_def)

lemma executed_cong: "gs_trace st = gs_trace st' \<Longrightarrow> executed st = executed st'"
  by (simp add: executed_def)

lemma note_event_fields [simp]:
  "gs_perms (note_event e st) = gs_perms st" "gs_guard (note_event e st) = gs_guard st"
  "gs_failures (note_event e st) = gs_failures st" "gs_trace (note_event e st) = gs_trace st @ [e]"
  by (simp_all add: note_event_def)

lemma report_fields [simp]:
  "gs_perms (report p d s st) = gs_perms st" "executed (report p d s st) = executed st"
  by (simp_all add: report_def executed_def)

lemma static_gate_fields [simp]:
  "gs_perms (snd (static_gate env tc path command st)) = gs_perms st"
  "gs_trace (snd (static_gate env tc path command st)) = gs_trace st"
  by (simp_all add: static_gate_def Let_def split: option.split prod.split sum.split)

lemma static_gate_executed [simp]: "executed (snd (static_gate env tc path command st)) = executed st"
  by (rule executed_cong) simp

lemma static_gate_InrD:
  assumes "fst (static_gate env tc path command st) = Inr auto_allow"
  shows "\<not> ge_policy_denies env (function_name tc)"
    "fst (maybe_guard (ge_parse env) tc (gs_guard st)) = None"
    "initial_auto_allow env (gs_perms st) (function_name tc) path command \<or> pm_mode (gs_perms st) \<noteq> Yolo"
    "function_name tc = ''bash'' \<Longrightarrow> command_looks_like_file_write command \<Longrightarrow>
       fst (shell_write_check env (gs_perms st) command (gs_failures st)) = None"
    "path \<noteq> [] \<Longrightarrow> function_name tc \<noteq> ''bash'' \<Longrightarrow>
       path_validation_error env (gs_perms st) (function_name tc) path = []"
    "auto_allow \<longleftrightarrow>
       path_check env (gs_perms st) (function_name tc) path
         (initial_auto_allow env (gs_perms st) (function_name tc) path command) = Inr True \<or>
       goal_unattended_active env (gs_perms st)"
  using assms
  by (auto simp: static_gate_def Let_def path_check_def split: option.splits prod.splits sum.splits if_splits)

definition hook_permits :: "gate_env \<Rightarrow> tool_call \<Rightarrow> bool" where
  "hook_permits env tc =
     (case ge_hooks env of
        None \<Rightarrow> False
      | Some dispatch \<Rightarrow>
          (let out = dispatch PermissionRequest (function_name tc) (payload_of_args (ge_parse env) (function_arguments tc)) JNull
           in hk_allowed out \<and> \<not> hk_denied out \<and> \<not> hk_blocked out))"

definition user_agrees :: "gate_env \<Rightarrow> permission_manager \<Rightarrow> tool_call \<Rightarrow> bool" where
  "user_agrees env pm tc =
     (case ge_ask env of
        None \<Rightarrow> False
      | Some ask \<Rightarrow> fst (ask (function_name tc) (ge_permission_args env (function_name tc) (function_arguments tc)) pm) \<noteq> Deny)"

text \<open>What counts as consent for a call that the rules and the mode do not let run by themselves.  An
  embedding without a prompt lets such calls run.\<close>

definition consented :: "gate_env \<Rightarrow> permission_manager \<Rightarrow> tool_call \<Rightarrow> bool" where
  "consented env pm tc \<longleftrightarrow> hook_permits env tc \<or> (ge_headless env \<and> pm_dangerous pm) \<or>
     (\<not> ge_headless env \<and> user_agrees env pm tc) \<or> (\<not> ge_headless env \<and> ge_ask env = None)"

lemma hook_gate_cases:
  "hook_gate env tc auto_allow st = (Inr (a, p), st1) \<Longrightarrow>
     (a \<longleftrightarrow> auto_allow \<or> hook_permits env tc) \<and> gs_perms st1 = gs_perms st \<and> (auto_allow \<longrightarrow> st1 = st)"
  by (auto simp: hook_gate_def hook_permits_def Let_def split: option.splits if_splits)

lemma hook_gate_executed [simp]: "executed (snd (hook_gate env tc auto_allow st)) = executed st"
  by (auto simp: hook_gate_def executed_def Let_def split: option.split)

lemma headless_gate_cases:
  "headless_gate env (a, p) st = (Inr (a', p'), st1) \<Longrightarrow>
     (a' \<longleftrightarrow> a \<or> ge_headless env \<and> pm_dangerous (gs_perms st)) \<and> (\<not> a' \<longrightarrow> \<not> ge_headless env) \<and>
     gs_perms st1 = gs_perms st \<and> (a \<longrightarrow> st1 = st)"
  by (auto simp: headless_gate_def split: if_splits)

lemma headless_gate_executed [simp]: "executed (snd (headless_gate env d st)) = executed st"
  by (auto simp: headless_gate_def split: prod.split)

lemma user_gate_executed [simp]: "executed (snd (user_gate env tc d st)) = executed st"
  by (auto simp: user_gate_def executed_def report_def Let_def split: prod.split option.split)

lemma user_gate_None:
  "user_gate env tc (a, p) st = (None, st1) \<Longrightarrow>
     (a \<or> ge_ask env = None \<or> user_agrees env (gs_perms st) tc) \<and> (a \<longrightarrow> st1 = st)"
  by (auto simp: user_gate_def user_agrees_def Let_def split: option.splits prod.splits if_splits)

lemma consent_gate_executed [simp]: "executed (snd (consent_gate env tc auto_allow st)) = executed st"
proof -
  obtain h st1 where h: "hook_gate env tc auto_allow st = (h, st1)" by (cases "hook_gate env tc auto_allow st")
  have 1: "executed st1 = executed st" using hook_gate_executed [of env tc auto_allow st] h by simp
  show ?thesis
  proof (cases h)
    case (Inr d)
    obtain d' st2 where d: "headless_gate env d st1 = (d', st2)" by (cases "headless_gate env d st1")
    have "executed st2 = executed st1" using headless_gate_executed [of env d st1] d by simp
    with h Inr d 1 show ?thesis by (cases d') (simp_all add: consent_gate_def)
  qed (simp add: consent_gate_def h 1)
qed

lemma consent_gate_NoneD:
  assumes "consent_gate env tc auto_allow st = (None, st2)"
  shows "auto_allow \<or> consented env (gs_perms st) tc" "auto_allow \<longrightarrow> st2 = st"
proof -
  from assms obtain a p st1 a' p' st' where
    h: "hook_gate env tc auto_allow st = (Inr (a, p), st1)" and
    d: "headless_gate env (a, p) st1 = (Inr (a', p'), st')" and
    u: "user_gate env tc (a', p') st' = (None, st2)"
    by (auto simp: consent_gate_def split: prod.splits sum.splits)
  have p: "gs_perms st1 = gs_perms st" "gs_perms st' = gs_perms st1"
    using hook_gate_cases [OF h] headless_gate_cases [OF d] by blast+
  have a: "a \<longleftrightarrow> auto_allow \<or> hook_permits env tc"
    using hook_gate_cases [OF h] by blast
  have a': "a' \<longleftrightarrow> a \<or> ge_headless env \<and> pm_dangerous (gs_perms st)" "\<not> a' \<longrightarrow> \<not> ge_headless env"
    using headless_gate_cases [OF d, unfolded p(1)] by blast+
  have "a' \<or> ge_ask env = None \<or> user_agrees env (gs_perms st) tc"
    using user_gate_None [OF u, unfolded p] by blast
  with a a' show "auto_allow \<or> consented env (gs_perms st) tc" by (auto simp: consented_def)
  show "auto_allow \<longrightarrow> st2 = st"
  proof
    assume "auto_allow"
    then have "st1 = st" "a" using hook_gate_cases [OF h] a by blast+
    moreover from this have "st' = st1" "a'" using headless_gate_cases [OF d] by blast+
    moreover from this have "st2 = st'" using user_gate_None [OF u] by blast
    ultimately show "st2 = st" by simp
  qed
qed

lemma execute_single_tool_cases:
  "executed (snd (execute_single_tool env tool args path st)) = executed st \<or>
   executed (snd (execute_single_tool env tool args path st)) = executed st @ [(tool, args)] \<and>
     (path \<noteq> [] \<longrightarrow> tool \<noteq> ''bash'' \<longrightarrow> path_validation_error env (gs_perms st) tool path = [])"
  by (auto simp: execute_single_tool_def executed_def Let_def split: prod.split)

lemma remember_failure_executed [simp]: "executed (remember_failure env tc path r st) = executed st"
  by (simp add: remember_failure_def executed_def)

lemma write_runner_cases:
  obtains "executed (snd (write_runner env tc path command st)) = executed st"
  | auto_allow st1 st2 where
      "static_gate env tc path command st = (Inr auto_allow, st1)"
      "consent_gate env tc auto_allow st1 = (None, st2)"
      "executed (snd (write_runner env tc path command st)) = executed st @ [(function_name tc, function_arguments tc)]"
      "path \<noteq> [] \<longrightarrow> function_name tc \<noteq> ''bash'' \<longrightarrow>
         path_validation_error env (gs_perms st2) (function_name tc) path = []"
proof -
  obtain s st1 where s: "static_gate env tc path command st = (s, st1)" by (cases "static_gate env tc path command st")
  have e1: "executed st1 = executed st" using static_gate_executed [of env tc path command st] s by simp
  show ?thesis
  proof (cases s)
    case (Inl r)
    then show ?thesis using that(1) s e1 by (simp add: write_runner_def)
  next
    case (Inr a)
    obtain c st2 where c: "consent_gate env tc a st1 = (c, st2)" by (cases "consent_gate env tc a st1")
    have e2: "executed st2 = executed st" using consent_gate_executed [of env tc a st1] c e1 by simp
    show ?thesis
    proof (cases c)
      case (Some r)
      then show ?thesis using that(1) s Inr c e2 by (simp add: write_runner_def)
    next
      case None
      let ?x = "execute_single_tool env (function_name tc) (function_arguments tc) path st2"
      have "executed (snd (write_runner env tc path command st)) = executed (snd ?x)"
        using s Inr c None by (simp add: write_runner_def Let_def split: prod.split)
      with execute_single_tool_cases [of env "function_name tc" "function_arguments tc" path st2] show ?thesis
        using that(1) that(2) [OF s [unfolded Inr] c [unfolded None]] e2 by metis
    qed
  qed
qed

section \<open>Nothing runs without consent\<close>

definition runs_by_itself :: "gate_env \<Rightarrow> permission_manager \<Rightarrow> string \<Rightarrow> string \<Rightarrow> string \<Rightarrow> bool" where
  "runs_by_itself env pm tool path command \<longleftrightarrow>
     path_check env pm tool path (initial_auto_allow env pm tool path command) = Inr True"

lemma runs_by_itself_allow: "runs_by_itself env pm tool path command \<Longrightarrow> initial_auto_allow env pm tool path command"
  by (auto simp: runs_by_itself_def path_check_def Let_def split: if_splits)

lemma maybe_guard_answer: "fst (maybe_guard parse tc g) = Some r \<Longrightarrow> \<not> res_success r"
  by (auto simp: maybe_guard_def make_cached_read_result_def make_synthetic_result_def Let_def split: if_splits)

lemma write_runner_ranD:
  assumes "executed (snd (write_runner env tc path command st)) \<noteq> executed st"
  shows "executed (snd (write_runner env tc path command st)) = executed st @ [(function_name tc, function_arguments tc)]"
    "\<not> ge_policy_denies env (function_name tc)"
    "fst (maybe_guard (ge_parse env) tc (gs_guard st)) = None"
    "path \<noteq> [] \<Longrightarrow> function_name tc \<noteq> ''bash'' \<Longrightarrow>
       path_validation_error env (gs_perms st) (function_name tc) path = []"
    "function_name tc = ''bash'' \<Longrightarrow> command_looks_like_file_write command \<Longrightarrow>
       fst (shell_write_check env (gs_perms st) command (gs_failures st)) = None"
    "pm_mode (gs_perms st) = Yolo \<Longrightarrow> initial_auto_allow env (gs_perms st) (function_name tc) path command"
    "runs_by_itself env (gs_perms st) (function_name tc) path command \<or>
     goal_unattended_active env (gs_perms st) \<or> consented env (gs_perms st) tc"
proof -
  from assms obtain a st1 st2 where
    s: "static_gate env tc path command st = (Inr a, st1)" and
    c: "consent_gate env tc a st1 = (None, st2)" and
    e: "executed (snd (write_runner env tc path command st)) = executed st @ [(function_name tc, function_arguments tc)]"
    by (cases rule: write_runner_cases [of env tc path command st]) blast+
  have "fst (static_gate env tc path command st) = Inr a" by (simp add: s)
  note stat = static_gate_InrD [OF this]
  have p: "gs_perms st1 = gs_perms st" using static_gate_fields(1) [of env tc path command st] by (simp add: s)
  show "executed (snd (write_runner env tc path command st)) = executed st @ [(function_name tc, function_arguments tc)]"
    by (rule e)
  show "\<not> ge_policy_denies env (function_name tc)" by (rule stat)
  show "fst (maybe_guard (ge_parse env) tc (gs_guard st)) = None" by (rule stat)
  show "path_validation_error env (gs_perms st) (function_name tc) path = []"
    if "path \<noteq> []" "function_name tc \<noteq> ''bash''" using that by (rule stat(5))
  show "fst (shell_write_check env (gs_perms st) command (gs_failures st)) = None"
    if "function_name tc = ''bash''" "command_looks_like_file_write command" using that by (rule stat(4))
  show "initial_auto_allow env (gs_perms st) (function_name tc) path command"
    if "pm_mode (gs_perms st) = Yolo" using stat(3) that by blast
  show "runs_by_itself env (gs_perms st) (function_name tc) path command \<or>
     goal_unattended_active env (gs_perms st) \<or> consented env (gs_perms st) tc"
    using consent_gate_NoneD(1) [OF c, unfolded p] stat(6) by (auto simp: runs_by_itself_def)
qed

text \<open>What lets a call run by itself: the rules and the mode allow it, and a dangerous path is let through
  only in Yolo mode, with the dangerous flag, or as the plan file of Plan mode.\<close>

lemma runs_by_itself_reasons:
  "runs_by_itself env pm tool path command \<Longrightarrow>
     initial_auto_allow env pm tool path command \<and>
     (path = [] \<or> tool = ''bash'' \<or> \<not> is_dangerous_path (ge_fs env) (ge_validator env) path \<or>
      pm_dangerous pm \<or> pm_mode pm = Yolo \<or>
      (pm_mode pm = Plan \<and> tool \<in> {''file_write'', ''file_edit''} \<and> names_plan_file env path))"
  by (auto simp: runs_by_itself_def path_check_def Let_def split: if_splits)

text \<open>What a path that raised no error is: exempt from the check, or inside the boundary.\<close>

lemma path_validation_reasons:
  "path_validation_error env pm tool path = [] \<Longrightarrow> path \<noteq> [] \<Longrightarrow> tool \<noteq> ''bash'' \<Longrightarrow>
     is_cwd_validation_exempt env pm tool path \<or> dangerous_mode (ge_validator env) \<or>
     is_inside_working_dir (ge_validator env) (resolved_path (ge_fs env) (ge_validator env) path)"
  by (simp add: path_validation_error_def validate_def Let_def split: if_splits)

text \<open>C1: A call that may change something is executed only after every check agreed.  The expert policy
  does not deny it and the doom guard lets it pass.  The path argument of a tool other than \<open>bash\<close> raised
  no boundary error: it resolves to a place inside the working directory, or the validator runs in its
  dangerous mode, or the code exempts it (Yolo mode without the dangerous flag and outside a loop, the
  plan file, \<open>file_read\<close> and read-only tools in a Yolo loop).  And the call runs by itself, or an unattended goal is
  active, or it got consent: a hook allowed it, or the process is headless with the dangerous flag, or the
  user agreed, or there is nobody to ask.  To run by itself it must be allowed by the rules and the mode,
  and a dangerous path is not let through by itself except in Yolo mode, with the dangerous flag, or as
  the plan file of Plan mode.  The call is then executed once, with exactly its arguments.\<close>

theorem no_write_without_consent:
  assumes "executed (snd (write_runner env tc path command st)) \<noteq> executed st"
  shows "executed (snd (write_runner env tc path command st)) = executed st @ [(function_name tc, function_arguments tc)] \<and>
    \<not> ge_policy_denies env (function_name tc) \<and>
    fst (maybe_guard (ge_parse env) tc (gs_guard st)) = None \<and>
    (path \<noteq> [] \<longrightarrow> function_name tc \<noteq> ''bash'' \<longrightarrow>
       path_validation_error env (gs_perms st) (function_name tc) path = [] \<and>
       (is_cwd_validation_exempt env (gs_perms st) (function_name tc) path \<or> dangerous_mode (ge_validator env) \<or>
        is_inside_working_dir (ge_validator env) (resolved_path (ge_fs env) (ge_validator env) path))) \<and>
    (runs_by_itself env (gs_perms st) (function_name tc) path command \<or>
     goal_unattended_active env (gs_perms st) \<or> consented env (gs_perms st) tc) \<and>
    (runs_by_itself env (gs_perms st) (function_name tc) path command \<longrightarrow>
       initial_auto_allow env (gs_perms st) (function_name tc) path command \<and>
       (path = [] \<or> function_name tc = ''bash'' \<or> \<not> is_dangerous_path (ge_fs env) (ge_validator env) path \<or>
        pm_dangerous (gs_perms st) \<or> pm_mode (gs_perms st) = Yolo \<or>
        (pm_mode (gs_perms st) = Plan \<and> function_name tc \<in> {''file_write'', ''file_edit''} \<and>
         names_plan_file env path)))"
  using write_runner_ranD [OF assms] path_validation_reasons runs_by_itself_reasons by blast

lemma yolo_refuses:
  assumes "pm_mode (gs_perms st) = Yolo" "\<not> initial_auto_allow env (gs_perms st) (function_name tc) path command"
  shows "\<exists>out. fst (static_gate env tc path command st) = Inl out \<and> \<not> res_success out"
proof -
  obtain gr g where m: "maybe_guard (ge_parse env) tc (gs_guard st) = (gr, g)"
    by (cases "maybe_guard (ge_parse env) tc (gs_guard st)")
  show ?thesis
  proof (cases gr)
    case (Some r)
    then have "\<not> res_success r" using maybe_guard_answer [of "ge_parse env" tc "gs_guard st" r] m by simp
    then show ?thesis using m Some by (simp add: static_gate_def Let_def denied_by_expert_def failed_with_def)
  qed (use m assms in \<open>simp add: static_gate_def Let_def denied_by_expert_def denied_in_yolo_def failed_with_def\<close>)
qed

text \<open>In Yolo mode a Deny rule that outranks every matching Allow rule is final: the call is not
  executed, neither a hook nor the user is asked, and an active goal does not lift it; only the
  dangerous flag does, and \<open>ExitPlanMode\<close>, which the code lets pass before it looks at the verdict.\<close>

lemma yolo_deny_is_final:
  assumes "\<And>rs. mset (ge_sort env rs) = mset rs"
    and "\<And>rs. sorted_wrt (\<lambda>a b. rule_priority a \<ge> rule_priority b) (ge_sort env rs)"
    and "pm_mode (gs_perms st) = Yolo" "\<not> pm_dangerous (gs_perms st)" "function_name tc \<noteq> ''ExitPlanMode''"
    and "r \<in> set (pm_rules (gs_perms st))" "rule_matches r (function_name tc) path command" "rule_act r = RuleDeny"
    and "\<And>q. q \<in> set (pm_rules (gs_perms st)) \<Longrightarrow> rule_matches q (function_name tc) path command \<Longrightarrow>
      rule_act q = RuleAllow \<Longrightarrow> rule_priority q < rule_priority r"
  shows "gs_trace (snd (write_runner env tc path command st)) = gs_trace st \<and>
    \<not> res_success (fst (write_runner env tc path command st))"
proof -
  have srt: "rule_sorting (ge_sort env)" using assms(1,2) by unfold_locales
  have "first_match (ge_sort env (pm_rules (gs_perms st))) (function_name tc) path command = Some RuleDeny"
    using rule_sorting.top_deny_first [OF srt assms(6-9)] .
  then have no: "\<not> initial_auto_allow env (gs_perms st) (function_name tc) path command"
    using assms(3-5) by (simp add: initial_auto_allow_def rule_sorting.auto_allow_cases [OF srt])
  from yolo_refuses [OF assms(3) no] obtain out
    where s: "fst (static_gate env tc path command st) = Inl out" "\<not> res_success out" by blast
  then have "fst (write_runner env tc path command st) = out"
    "snd (write_runner env tc path command st) = snd (static_gate env tc path command st)"
    by (auto simp: write_runner_def split: prod.split sum.split)
  with s show ?thesis by simp
qed

text \<open>C2: Plan mode is read-only: a call that may change something runs unasked only when it edits the
  session's own plan file or is \<open>TodoWrite\<close>.  Anything else needs consent, whatever the rules, the
  session grants and an active goal say.\<close>

theorem plan_mode_protects:
  assumes "pm_mode (gs_perms st) = Plan"
    and "executed (snd (write_runner env tc path command st)) \<noteq> executed st"
  shows "function_name tc = ''TodoWrite'' \<or>
    (function_name tc \<in> {''file_write'', ''file_edit''} \<and> names_plan_file env path) \<or>
    consented env (gs_perms st) tc"
proof -
  have "\<not> goal_unattended_active env (gs_perms st)"
    using assms(1) by (simp add: goal_unattended_active_def split: option.split)
  with write_runner_ranD(7) [OF assms(2)] have "runs_by_itself env (gs_perms st) (function_name tc) path command \<or>
      consented env (gs_perms st) tc" by blast
  then show ?thesis
    using assms(1) by (auto dest!: runs_by_itself_allow simp: initial_auto_allow_def Let_def)
qed


section \<open>Turns\<close>

text \<open>A runner executes the call it is given at most once, and under its own name.\<close>

definition one_shot :: "tool_runner \<Rightarrow> bool" where
  "one_shot runner \<longleftrightarrow> (\<forall>env tc path command st.
     executed (snd (runner env tc path command st)) = executed st \<or>
     executed (snd (runner env tc path command st)) = executed st @ [(function_name tc, function_arguments tc)])"

lemma one_shot_write: "one_shot write_runner"
  unfolding one_shot_def using write_runner_ranD(1) by blast

lemma read_runner_cases:
  "snd (read_runner env tc path command st) = st \<or>
   (\<exists>g. snd (read_runner env tc path command st) = st\<lparr>gs_guard := g\<rparr> \<or>
        read_runner env tc path command st =
          execute_single_tool env (function_name tc) (function_arguments tc) path (st\<lparr>gs_guard := g\<rparr>))"
  by (auto simp: read_runner_def split: prod.split option.split)

lemma one_shot_read: "one_shot read_runner"
  unfolding one_shot_def
proof (intro allI)
  fix env tc path command and st :: gate_state
  have g: "executed (st\<lparr>gs_guard := g\<rparr>) = executed st" for g by (simp add: executed_def)
  show "executed (snd (read_runner env tc path command st)) = executed st \<or>
    executed (snd (read_runner env tc path command st)) = executed st @ [(function_name tc, function_arguments tc)]"
    using read_runner_cases [of env tc path command st]
  proof (elim disjE exE)
    fix g
    assume "read_runner env tc path command st =
      execute_single_tool env (function_name tc) (function_arguments tc) path (st\<lparr>gs_guard := g\<rparr>)"
    with execute_single_tool_cases [of env "function_name tc" "function_arguments tc" path "st\<lparr>gs_guard := g\<rparr>"]
    show ?thesis by (auto simp: g)
  qed (simp_all add: g)
qed

lemma pre_tool_hook_name: "pre_tool_hook env tc = Inr tc' \<Longrightarrow> function_name tc' = function_name tc"
  by (auto simp: pre_tool_hook_def Let_def split: option.splits if_splits json.splits)

lemma lifecycle_executed:
  assumes "one_shot runner"
  shows "\<exists>xs. executed (snd (run_tool_with_lifecycle runner env tc st)) = executed st @ xs \<and>
    (xs = [] \<or> (\<exists>args. xs = [(function_name tc, args)]))"
proof (cases "pre_tool_hook env tc")
  case (Inr tc')
  obtain path command where c: "extract_context (ge_parse env) tc' = (path, command)"
    by (cases "extract_context (ge_parse env) tc'")
  have "snd (run_tool_with_lifecycle runner env tc st) = snd (runner env tc' path command st)"
    by (simp add: run_tool_with_lifecycle_def Inr c split: prod.split)
  then show ?thesis
    using assms [unfolded one_shot_def, rule_format, of env tc' path command st] pre_tool_hook_name [OF Inr]
    by auto
qed (simp add: run_tool_with_lifecycle_def)

lemma record_executed [simp]: "executed (record_doom_guard_result env tc r st) = executed st"
  by (simp add: record_doom_guard_result_def executed_def)

lemma harvest_executed [simp]: "executed (fold (harvest env rs) es st) = executed st"
  by (induction es arbitrary: st) (simp_all add: harvest_def split: option.split)

abbreviation entry_name :: "entry \<Rightarrow> string" where
  "entry_name e \<equiv> function_name (snd e)"

lemma subseq_step: "xs = [] \<or> (\<exists>args. xs = [(n, args)]) \<Longrightarrow> subseq (map fst ys) ns \<Longrightarrow> subseq (map fst (xs @ ys)) (n # ns)"
  by auto

lemma run_entries_executed:
  "\<exists>xs. executed (snd (run_entries env es st)) = executed st @ xs \<and> subseq (map fst xs) (map entry_name es)"
proof (induction es arbitrary: st)
  case (Cons e es)
  obtain i tc where e: "e = (i, tc)" by (cases e)
  obtain r st1 where r: "run_tool_with_lifecycle read_runner (env i) tc st = (r, st1)"
    by (cases "run_tool_with_lifecycle read_runner (env i) tc st")
  from lifecycle_executed [OF one_shot_read, of "env i" tc st] obtain xs
    where 1: "executed st1 = executed st @ xs" and xs: "xs = [] \<or> (\<exists>args. xs = [(function_name tc, args)])"
    by (auto simp: r)
  from Cons.IH [of st1] obtain ys
    where ys: "executed (snd (run_entries env es st1)) = executed st1 @ ys" "subseq (map fst ys) (map entry_name es)"
    by blast
  have s: "snd (run_entries env ((i, tc) # es) st) = snd (run_entries env es st1)"
    by (simp add: r split: prod.split)
  show ?case
    by (rule exI [of _ "xs @ ys"]) (use subseq_step [OF xs ys(2)] in \<open>simp add: e s ys(1) 1 del: run_entries.simps write_phase.simps\<close>)
qed simp

lemma write_phase_executed:
  "\<exists>xs. executed (snd (write_phase aborted env es st)) = executed st @ xs \<and> subseq (map fst xs) (map entry_name es)"
proof (induction es arbitrary: st)
  case (Cons e es)
  obtain i tc where e: "e = (i, tc)" by (cases e)
  show ?case
  proof (cases "aborted i")
    case False
    obtain r st1 where r: "run_tool_with_lifecycle write_runner (env i) tc st = (r, st1)"
      by (cases "run_tool_with_lifecycle write_runner (env i) tc st")
    let ?st = "record_doom_guard_result (env i) tc r st1"
    from lifecycle_executed [OF one_shot_write, of "env i" tc st] obtain xs
      where 1: "executed st1 = executed st @ xs" and xs: "xs = [] \<or> (\<exists>args. xs = [(function_name tc, args)])"
      by (auto simp: r)
    from Cons.IH [of ?st] obtain ys
      where ys: "executed (snd (write_phase aborted env es ?st)) = executed ?st @ ys"
        "subseq (map fst ys) (map entry_name es)"
      by blast
    have s: "snd (write_phase aborted env ((i, tc) # es) st) = snd (write_phase aborted env es ?st)"
      using False by (simp add: r split: prod.split)
    show ?thesis
      by (rule exI [of _ "xs @ ys"]) (use subseq_step [OF xs ys(2)] in \<open>simp add: e s ys(1) 1 del: run_entries.simps write_phase.simps\<close>)
  qed (simp add: e)
qed simp

lemma subseq_mset: "subseq xs ys \<Longrightarrow> mset xs \<subseteq># mset ys"
proof (induction rule: list_emb.induct)
  case (list_emb_Cons xs ys y)
  have "mset ys \<subseteq># mset (y # ys)" by simp
  with list_emb_Cons.IH show ?case by (rule subset_mset.order_trans)
qed simp_all

lemma read_phase_executed:
  assumes "\<And>b. mset (order b) = mset b"
  shows "\<exists>xs. executed (snd (read_phase hw aborted order env es st)) = executed st @ xs \<and>
    mset (map fst xs) \<subseteq># mset (map entry_name es)"
proof (induction es arbitrary: st rule: length_induct)
  case (1 es)
  show ?case
  proof (cases "es = [] \<or> aborted (fst (hd es))")
    case True
    then show ?thesis by (subst read_phase.simps) auto
  next
    case False
    let ?n = "max_concurrency hw"
    obtain rs st1 where r: "run_entries env (order (take ?n es)) st = (rs, st1)"
      by (cases "run_entries env (order (take ?n es)) st")
    from run_entries_executed [of env "order (take ?n es)" st] obtain xs
      where xs: "executed st1 = executed st @ xs" "subseq (map fst xs) (map entry_name (order (take ?n es)))"
      by (auto simp: r)
    let ?st = "fold (harvest env rs) (take ?n es) st1"
    have "length (drop ?n es) < length es" using False by (simp add: max_concurrency_def)
    then obtain ys where ys:
      "executed (snd (read_phase hw aborted order env (drop ?n es) ?st)) = executed ?st @ ys"
      "mset (map fst ys) \<subseteq># mset (map entry_name (drop ?n es))"
      using 1 by blast
    have "mset (map fst xs) \<subseteq># mset (map entry_name (order (take ?n es)))"
      by (rule subseq_mset [OF xs(2)])
    also have "mset (map entry_name (order (take ?n es))) = mset (map entry_name (take ?n es))"
      by (simp add: assms)
    finally have "mset (map fst (xs @ ys)) \<subseteq># mset (map entry_name (take ?n es @ drop ?n es))"
      using ys(2) by (simp only: map_append mset_append subset_mset.add_mono)
    moreover have "snd (read_phase hw aborted order env es st) = snd (read_phase hw aborted order env (drop ?n es) ?st)"
      using False by (subst read_phase.simps) (simp add: r Let_def split: prod.split)
    ultimately show ?thesis by (intro exI [of _ "xs @ ys"]) (simp add: ys(1) xs(1))
  qed
qed

text \<open>C5: In one turn every call is executed at most once: the read-only calls first, in batches whose
  threads may overtake each other, and then the others one at a time in the order of the model's answer,
  whatever the hooks, the user and an abort do.\<close>

theorem calls_run_in_order:
  assumes "\<And>b. mset (order b) = mset b"
  shows "\<exists>rs ws. executed (snd (tool_phase hw aborted order ro env calls st)) = executed st @ rs @ ws \<and>
    mset (map fst rs) \<subseteq># mset (map function_name [tc \<leftarrow> calls. ro (function_name tc)]) \<and>
    subseq (map fst ws) (map function_name [tc \<leftarrow> calls. \<not> ro (function_name tc)])"
proof -
  have names: "map entry_name [e \<leftarrow> enumerate n cs. P (entry_name e)] =
      map function_name [tc \<leftarrow> cs. P (function_name tc)]" for n P and cs :: "tool_call list"
    by (induction cs arbitrary: n) simp_all
  obtain rs st1 where r: "read_phase hw aborted order env (read_entries ro calls) st = (rs, st1)"
    by (cases "read_phase hw aborted order env (read_entries ro calls) st")
  from read_phase_executed [of order hw aborted env "read_entries ro calls" st, OF assms] obtain xs
    where xs: "executed st1 = executed st @ xs" "mset (map fst xs) \<subseteq># mset (map entry_name (read_entries ro calls))"
    by (auto simp: r)
  from write_phase_executed [of aborted env "write_entries ro calls" st1] obtain ys
    where ys: "executed (snd (write_phase aborted env (write_entries ro calls) st1)) = executed st1 @ ys"
      "subseq (map fst ys) (map entry_name (write_entries ro calls))" by blast
  have s: "snd (tool_phase hw aborted order ro env calls st) = snd (write_phase aborted env (write_entries ro calls) st1)"
    by (simp add: tool_phase_def r split: prod.split)
  have "executed (snd (tool_phase hw aborted order ro env calls st)) = executed st @ xs @ ys"
    by (simp add: s ys(1) xs(1))
  moreover have "mset (map fst xs) \<subseteq># mset (map function_name [tc \<leftarrow> calls. ro (function_name tc)])"
    using xs(2) unfolding read_entries_def names [of ro] .
  moreover have "subseq (map fst ys) (map function_name [tc \<leftarrow> calls. \<not> ro (function_name tc)])"
    using ys(2) unfolding write_entries_def names [of "\<lambda>n. \<not> ro n"] .
  ultimately show ?thesis by blast
qed

section \<open>Every call gets its answer\<close>

lemma run_entries_keys: "map fst (fst (run_entries env es st)) = map fst es"
  by (induction es arbitrary: st) (auto simp: split_beta)

lemma read_phase_keys:
  assumes "\<And>b. mset (order b) = mset b" "\<And>i. \<not> aborted i"
  shows "fst ` set (fst (read_phase hw aborted order env es st)) = fst ` set es"
proof (induction es arbitrary: st rule: length_induct)
  case (1 es)
  show ?case
  proof (cases "es = []")
    case False
    let ?n = "max_concurrency hw"
    let ?b = "take ?n es"
    let ?r = "run_entries env (order ?b) st"
    let ?st = "fold (harvest env (fst ?r)) ?b (snd ?r)"
    have "length (drop ?n es) < length es" using False by (simp add: max_concurrency_def)
    then have "fst ` set (fst (read_phase hw aborted order env (drop ?n es) ?st)) = fst ` set (drop ?n es)"
      using 1 by blast
    moreover have "fst (read_phase hw aborted order env es st) =
        fst ?r @ fst (read_phase hw aborted order env (drop ?n es) ?st)"
      using False assms(2) by (subst read_phase.simps) (simp add: Let_def split: prod.split)
    moreover have "fst ` set (fst ?r) = fst ` set (order ?b)"
      using arg_cong [OF run_entries_keys [of env "order ?b" st], of set] by simp
    moreover have "set (order ?b) = set ?b" using assms(1) [of ?b] by (metis mset_eq_setD)
    moreover have "fst ` set ?b \<union> fst ` set (drop ?n es) = fst ` set es"
      by (metis append_take_drop_id image_Un set_append)
    ultimately show ?thesis by (simp add: image_Un)
  qed (subst read_phase.simps, simp)
qed

lemma write_phase_keys:
  assumes "\<And>i. \<not> aborted i"
  shows "map fst (fst (write_phase aborted env es st)) = map fst es"
  using assms by (induction es arbitrary: st) (auto simp: split_beta)

lemma tool_phase_answers:
  assumes "\<And>b. mset (order b) = mset b" "\<And>i. \<not> aborted i" "i < length calls"
  shows "fst (tool_phase hw aborted order ro env calls st) i \<noteq> None"
proof -
  let ?r = "read_phase hw aborted order env (read_entries ro calls) st"
  let ?w = "write_phase aborted env (write_entries ro calls) (snd ?r)"
  have "fst ` set (fst ?r @ fst ?w) = fst ` set (read_entries ro calls) \<union> fst ` set (write_entries ro calls)"
    using read_phase_keys [of order aborted hw env "read_entries ro calls" st, OF assms(1,2)]
      arg_cong [OF write_phase_keys [of aborted env "write_entries ro calls" "snd ?r", OF assms(2)], of set]
    by (simp add: image_Un)
  also have "\<dots> = fst ` set (enumerate 0 calls)"
    by (auto simp: read_entries_def write_entries_def image_iff)
  also have "\<dots> = {0..<length calls}"
    using arg_cong [OF map_fst_enumerate [of 0 calls], of set] by (simp del: map_fst_enumerate)
  finally have "i \<in> fst ` set (fst ?r @ fst ?w)" using assms(3) by simp
  moreover have "fst (tool_phase hw aborted order ro env calls st) = map_of (fst ?r @ fst ?w)"
    by (simp add: tool_phase_def split_beta)
  ultimately show ?thesis by (simp only: map_of_eq_None_iff not_not)
qed

lemma tool_row_fields [simp]:
  "role (tool_row utf8 extras results e) = ''tool''" "tool_call_id (tool_row utf8 extras results e) = call_id (snd e)"
  by (simp_all add: tool_row_def format_tool_result_def empty_message_def split: option.split)

section \<open>Two ways around the rules\<close>

text \<open>An unattended goal lifts every rule outside Yolo and Plan mode: a call that a Deny rule refuses is
  executed, and nobody is asked.\<close>

lemma goal_lifts_deny_rules:
  assumes "goal_unattended_active env (gs_perms st)" "pm_mode (gs_perms st) \<noteq> Yolo"
    and "\<not> ge_policy_denies env (function_name tc)" "fst (maybe_guard (ge_parse env) tc (gs_guard st)) = None"
    and "function_name tc \<noteq> ''bash''" "path_validation_error env (gs_perms st) (function_name tc) path = []"
    and "ge_has_tool env (function_name tc)"
  shows "gs_trace (snd (write_runner env tc path command st)) =
    gs_trace st @ [Executed (function_name tc) (function_arguments tc)]"
proof -
  obtain st1 where s: "static_gate env tc path command st = (Inr True, st1)" "gs_trace st1 = gs_trace st"
      "gs_perms st1 = gs_perms st"
  proof -
    obtain g where m: "maybe_guard (ge_parse env) tc (gs_guard st) = (None, g)"
      using assms(4) by (cases "maybe_guard (ge_parse env) tc (gs_guard st)") simp
    have "fst (static_gate env tc path command st) = Inr True"
      using assms m by (auto simp: static_gate_def path_check_def Let_def)
    then show ?thesis
      using that [of "snd (static_gate env tc path command st)"] static_gate_fields [of env tc path command st]
      by (metis prod.collapse)
  qed
  have "consent_gate env tc True st1 = (None, st1)"
    by (simp add: consent_gate_def hook_gate_def headless_gate_def user_gate_def split: option.split)
  then have "gs_trace (snd (write_runner env tc path command st)) =
      gs_trace (snd (execute_single_tool env (function_name tc) (function_arguments tc) path st1))"
    using s(1) by (simp add: write_runner_def remember_failure_def Let_def split: prod.split)
  then show ?thesis using assms(5-7) s(2,3) by (simp add: execute_single_tool_def split: prod.split)
qed

text \<open>The rules are never looked at for a tool that counts as read-only.\<close>

lemma read_only_ignores_rules:
  "executed (snd (read_runner env tc path command (st\<lparr>gs_perms := (gs_perms st)\<lparr>pm_rules := rs\<rparr>\<rparr>))) =
   executed (snd (read_runner env tc path command st))"
proof -
  have "path_validation_error env (pm\<lparr>pm_rules := rs\<rparr>) tool p = path_validation_error env pm tool p" for pm tool p
    by (simp add: path_validation_error_def is_cwd_validation_exempt_def)
  then show ?thesis
    by (auto simp: read_runner_def execute_single_tool_def executed_def Let_def split: prod.split option.split)
qed

section \<open>Concrete runs\<close>

definition sample_gate :: gate_env where
  "sample_gate = \<lparr>ge_fs = plain_fs, ge_sort = sort_key (\<lambda>r. - rule_priority r), ge_parse = (\<lambda>_. None),
     ge_dump = (\<lambda>_. []), ge_canonical = (\<lambda>p. p), ge_plan_path = (\<lambda>d s. d @ slash # s), ge_session = None,
     ge_read_only = (\<lambda>_. False), ge_has_tool = (\<lambda>_. True), ge_policy_denies = (\<lambda>_. False),
     ge_loop_active = False, ge_cwd = ''/w'', ge_validator = make_validator plain_fs ''/w'' False,
     ge_headless = False, ge_hooks = None, ge_permission_args = (\<lambda>_ a. a),
     ge_ask = Some (\<lambda>_ _ pm. (Allow, pm)),
     ge_execute = (\<lambda>_ _ pm. (Inr \<lparr>res_output = ''done'', res_success = True, res_summary = None\<rparr>, pm)),
     ge_read_text = (\<lambda>_. None), ge_now = 0, ge_later = 0\<rparr>"

definition gate_start :: "permission_mode \<Rightarrow> gate_state" where
  "gate_start m = \<lparr>gs_perms = set_mode m (configure_permissions False ''default'' init_manager),
     gs_guard = \<lparr>attempts = [], cooldown_turns = (\<lambda>_. None)\<rparr>, gs_failures = [], gs_trace = []\<rparr>"

definition call_of :: "string \<Rightarrow> string \<Rightarrow> tool_call" where
  "call_of i n = \<lparr>call_id = i, function_name = n, function_arguments = ''x''\<rparr>"

lemma sample_write: "executed (snd (write_runner sample_gate (call_of ''1'' ''file_write'') ''/w/a'' [] (gate_start Default))) \<noteq>
    executed (gate_start Default)"
  by code_simp

theorem no_write_without_consent_witness:
  "consented sample_gate (gs_perms (gate_start Default)) (call_of ''1'' ''file_write'')"
proof -
  have "\<not> runs_by_itself sample_gate (gs_perms (gate_start Default)) ''file_write'' ''/w/a'' []" by code_simp
  moreover have "\<not> goal_unattended_active sample_gate (gs_perms (gate_start Default))" by code_simp
  ultimately show ?thesis using no_write_without_consent [OF sample_write] by (simp add: call_of_def)
qed

lemma yolo_deny_is_final_witness:
  "gs_trace (snd (write_runner sample_gate (call_of ''1'' ''bash'') [] ''rm -rf /home'' (gate_start Yolo))) = []"
proof -
  have r: "gs_perms (gate_start Yolo) = set_mode Yolo (configure_permissions False ''default'' init_manager)"
    by (simp add: gate_start_def)
  have s: "ge_sort sample_gate = sort_key (\<lambda>r. - rule_priority r)" by (simp add: sample_gate_def)
  have "gs_trace (snd (write_runner sample_gate (call_of ''1'' ''bash'') [] ''rm -rf /home'' (gate_start Yolo))) =
      gs_trace (gate_start Yolo) \<and>
    \<not> res_success (fst (write_runner sample_gate (call_of ''1'' ''bash'') [] ''rm -rf /home'' (gate_start Yolo)))"
  proof (rule yolo_deny_is_final [where r = "deny_rule ''bash'' [] ''rm -rf /''"])
    show "rule_matches (deny_rule ''bash'' [] ''rm -rf /'') (function_name (call_of ''1'' ''bash'')) [] ''rm -rf /home''"
      by code_simp
  qed (auto simp: r s stable_sort.srt_desc configure_permissions_def permission_mode_from_meta_name_def
      init_manager_def pm_defs deny_rule_def call_of_def)
  then show ?thesis by (simp add: gate_start_def)
qed

theorem plan_mode_protects_witness:
  "consented sample_gate (gs_perms (gate_start Plan)) (call_of ''1'' ''bash'')"
proof -
  have "executed (snd (write_runner sample_gate (call_of ''1'' ''bash'') [] ''ls'' (gate_start Plan))) \<noteq>
      executed (gate_start Plan)" by code_simp
  moreover have "pm_mode (gs_perms (gate_start Plan)) = Plan" by code_simp
  ultimately show ?thesis
    using plan_mode_protects [of "gate_start Plan" sample_gate "call_of ''1'' ''bash''" "[]" "''ls''"]
    by (simp add: call_of_def)
qed

definition loop_gate :: gate_env where
  "loop_gate = sample_gate\<lparr>ge_loop_active := True\<rparr>"


theorem calls_run_in_order_witness:
  "\<exists>rs ws. executed (snd (tool_phase 1 (\<lambda>_. False) rev (\<lambda>n. n = ''grep'') (\<lambda>_. sample_gate)
       [call_of ''1'' ''bash'', call_of ''2'' ''grep''] (gate_start Yolo))) = rs @ ws \<and>
     mset (map fst rs) \<subseteq># {#''grep''#} \<and> subseq (map fst ws) [''bash'']"
  using calls_run_in_order [of rev 1 "\<lambda>_. False" "\<lambda>n. n = ''grep''" "\<lambda>_. sample_gate"
      "[call_of ''1'' ''bash'', call_of ''2'' ''grep'']" "gate_start Yolo"]
  by (simp add: call_of_def) (simp add: executed_def gate_start_def)

end
