(* ===== verification/MtimeTracker.thy ===== *)
theory MtimeTracker
  imports Json
begin

text \<open>
  \<open>tool/mtime_tracker.cpp\<close>: what the agent knows about the files it has read.  A file may be edited only
  on top of a baseline (a read or a write the tracker has recorded), and a repeated read of an unchanged
  range is answered from a cache of at most 100 observations.  The file system is the record \<open>tracker_fs\<close>
  (\<open>None\<close> where the code's call throws or reports an error); it may be another one at every operation.
  The last part models the table of weak mutex pointers that serializes the writers of one file.
\<close>

section \<open>State\<close>

record tracker_fs =
  tf_weakly_canonical :: "string \<Rightarrow> string option"
  tf_absolute :: "string \<Rightarrow> string option"
  tf_lexically_normal :: "string \<Rightarrow> string"
  tf_last_write_time :: "string \<Rightarrow> int option"

record read_metadata =
  md_encoding :: string
  md_line_ending :: string
  md_start_line :: int
  md_end_line :: int
  md_lossy :: bool
  md_lossy_count :: nat

definition no_metadata :: read_metadata where
  "no_metadata = \<lparr>md_encoding = [], md_line_ending = [], md_start_line = 0, md_end_line = 0,
     md_lossy = False, md_lossy_count = 0\<rparr>"

datatype baseline_status = BaselineOk | NotRead | UnsafeRead | ExternallyModified

record baseline_check =
  bc_status :: baseline_status
  bc_unchanged_content :: bool

record observation_key =
  ok_path :: string
  ok_start_line :: int
  ok_end_line :: int
  ok_byte_mode :: bool
  ok_byte_offset :: int
  ok_max_bytes :: int

record observation =
  ob_mtime :: int
  ob_tool_call_id :: string
  ob_persisted_path :: string

record file_record =
  fr_mtime :: int
  fr_partial :: bool
  fr_content :: "string option"
  fr_metadata :: "read_metadata option"

record tracker =
  records :: "string \<Rightarrow> file_record option"
  observations :: "observation_key \<Rightarrow> observation option"
  observation_lru :: "observation_key list"

definition new_tracker :: tracker where
  "new_tracker = \<lparr>records = (\<lambda>_. None), observations = (\<lambda>_. None), observation_lru = []\<rparr>"

definition max_read_observation_entries :: nat where
  "max_read_observation_entries = 100"

text \<open>\<open>file_time_type::time_point::min\<close>: 64-bit ticks.\<close>

definition oldest_time :: int where
  "oldest_time = - (2 ^ 63)"

section \<open>Operations\<close>

definition tracker_path_key :: "tracker_fs \<Rightarrow> string \<Rightarrow> string" where
  "tracker_path_key fs path =
     (case tf_weakly_canonical fs path of
        Some c \<Rightarrow> (if c \<noteq> [] then tf_lexically_normal fs c
                   else case tf_absolute fs path of
                     Some a \<Rightarrow> (if a \<noteq> [] then tf_lexically_normal fs a else tf_lexically_normal fs path)
                   | None \<Rightarrow> tf_lexically_normal fs path)
      | None \<Rightarrow> (case tf_absolute fs path of
                   Some a \<Rightarrow> (if a \<noteq> [] then tf_lexically_normal fs a else tf_lexically_normal fs path)
                 | None \<Rightarrow> tf_lexically_normal fs path))"

text \<open>What a read asked for: the lines, or the bytes.\<close>

record read_range =
  rr_start_line :: int
  rr_end_line :: int
  rr_byte_mode :: bool
  rr_byte_offset :: int
  rr_max_bytes :: int

definition make_observation_key :: "tracker_fs \<Rightarrow> string \<Rightarrow> read_range \<Rightarrow> observation_key" where
  "make_observation_key fs path r =
     \<lparr>ok_path = tracker_path_key fs path, ok_start_line = rr_start_line r, ok_end_line = rr_end_line r,
      ok_byte_mode = rr_byte_mode r, ok_byte_offset = rr_byte_offset r, ok_max_bytes = rr_max_bytes r\<rparr>"

definition remove_observations :: "string \<Rightarrow> tracker \<Rightarrow> tracker" where
  "remove_observations key t =
     t\<lparr>observations := (\<lambda>k. if ok_path k = key then None else observations t k),
       observation_lru := [k \<leftarrow> observation_lru t. ok_path k \<noteq> key]\<rparr>"

text \<open>The \<open>while\<close> loop that evicts from the front of the list.\<close>

fun evict_observations ::
  "observation_key list \<Rightarrow> (observation_key \<Rightarrow> observation option) \<Rightarrow>
     observation_key list \<times> (observation_key \<Rightarrow> observation option)" where
  "evict_observations [] obs = ([], obs)"
| "evict_observations (k # ks) obs =
     (if length (k # ks) > max_read_observation_entries then evict_observations ks (obs(k := None))
      else (k # ks, obs))"

definition touch_observation :: "observation_key \<Rightarrow> tracker \<Rightarrow> tracker" where
  "touch_observation key t =
     (case evict_observations ([k \<leftarrow> observation_lru t. k \<noteq> key] @ [key]) (observations t) of
        (lru, obs) \<Rightarrow> t\<lparr>observations := obs, observation_lru := lru\<rparr>)"

definition put_record :: "string \<Rightarrow> file_record \<Rightarrow> tracker \<Rightarrow> tracker" where
  "put_record key r t = t\<lparr>records := (records t)(key := Some r)\<rparr>"

definition record_read :: "tracker_fs \<Rightarrow> string \<Rightarrow> string \<Rightarrow> bool \<Rightarrow> read_metadata \<Rightarrow> tracker \<Rightarrow> tracker" where
  "record_read fs path text partial metadata t =
     (let key = tracker_path_key fs path
      in case tf_last_write_time fs key of
           None \<Rightarrow> t
         | Some mtime \<Rightarrow>
             put_record key \<lparr>fr_mtime = mtime, fr_partial = partial,
               fr_content = (if partial then None else Some text), fr_metadata = Some metadata\<rparr> t)"

definition seed_transcript_read_baseline :: "tracker_fs \<Rightarrow> string \<Rightarrow> string \<Rightarrow> read_metadata \<Rightarrow> tracker \<Rightarrow> tracker" where
  "seed_transcript_read_baseline fs path text metadata t =
     (let key = tracker_path_key fs path
      in remove_observations key
           (put_record key \<lparr>fr_mtime = oldest_time, fr_partial = False, fr_content = Some text,
              fr_metadata = Some metadata\<rparr> t))"

definition unchanged_read_observation :: "tracker_fs \<Rightarrow> string \<Rightarrow> read_range \<Rightarrow> tracker \<Rightarrow> observation option" where
  "unchanged_read_observation fs path r t =
     (let key = make_observation_key fs path r
      in case observations t key of
           None \<Rightarrow> None
         | Some ob \<Rightarrow>
             (case tf_last_write_time fs (ok_path key) of
                None \<Rightarrow> None
              | Some mtime \<Rightarrow> if mtime = ob_mtime ob then Some ob else None))"

definition has_unchanged_read_observation :: "tracker_fs \<Rightarrow> string \<Rightarrow> read_range \<Rightarrow> tracker \<Rightarrow> bool" where
  "has_unchanged_read_observation fs path r t \<longleftrightarrow> unchanged_read_observation fs path r t \<noteq> None"

definition record_read_observation :: "tracker_fs \<Rightarrow> string \<Rightarrow> read_range \<Rightarrow> tracker \<Rightarrow> tracker" where
  "record_read_observation fs path r t =
     (let key = make_observation_key fs path r
      in case tf_last_write_time fs (ok_path key) of
           None \<Rightarrow> t
         | Some mtime \<Rightarrow>
             touch_observation key
               (t\<lparr>observations := (observations t)(key \<mapsto>
                  \<lparr>ob_mtime = mtime, ob_tool_call_id = [], ob_persisted_path = []\<rparr>)\<rparr>))"

definition record_read_observation_result ::
  "tracker_fs \<Rightarrow> string \<Rightarrow> read_range \<Rightarrow> string \<Rightarrow> string \<Rightarrow> tracker \<Rightarrow> tracker" where
  "record_read_observation_result fs path r call persisted t =
     (if call = [] \<and> persisted = [] then t
      else let key = make_observation_key fs path r
        in case observations t key of
             None \<Rightarrow> t
           | Some ob \<Rightarrow>
               (let ob1 = (if call \<noteq> [] then ob\<lparr>ob_tool_call_id := call\<rparr> else ob);
                    ob2 = (if persisted \<noteq> [] then ob1\<lparr>ob_persisted_path := persisted\<rparr> else ob1)
                in t\<lparr>observations := (observations t)(key \<mapsto> ob2)\<rparr>))"

definition invalidate_read_observations :: "tracker_fs \<Rightarrow> string \<Rightarrow> tracker \<Rightarrow> tracker" where
  "invalidate_read_observations fs path t = remove_observations (tracker_path_key fs path) t"

definition clear_read_observations :: "tracker \<Rightarrow> tracker" where
  "clear_read_observations t = t\<lparr>observations := (\<lambda>_. None), observation_lru := []\<rparr>"

definition invalidate_agent_read_state :: "tracker_fs \<Rightarrow> string \<Rightarrow> tracker \<Rightarrow> tracker" where
  "invalidate_agent_read_state fs path t =
     (let key = tracker_path_key fs path
      in remove_observations key (t\<lparr>records := (records t)(key := None)\<rparr>))"

definition was_externally_modified :: "tracker_fs \<Rightarrow> string \<Rightarrow> tracker \<Rightarrow> bool" where
  "was_externally_modified fs path t =
     (let key = tracker_path_key fs path
      in case records t key of
           None \<Rightarrow> False
         | Some r \<Rightarrow> (case tf_last_write_time fs key of None \<Rightarrow> False | Some mtime \<Rightarrow> mtime \<noteq> fr_mtime r))"

definition is_lossy :: "file_record \<Rightarrow> bool" where
  "is_lossy r \<longleftrightarrow> (case fr_metadata r of None \<Rightarrow> False | Some m \<Rightarrow> md_lossy m)"

definition check_of :: "baseline_status \<Rightarrow> bool \<Rightarrow> baseline_check" where
  "check_of s b = \<lparr>bc_status = s, bc_unchanged_content = b\<rparr>"

definition validate_read_baseline_for_edit :: "tracker_fs \<Rightarrow> string \<Rightarrow> string \<Rightarrow> tracker \<Rightarrow> baseline_check" where
  "validate_read_baseline_for_edit fs path current t =
     (let key = tracker_path_key fs path
      in case records t key of
           None \<Rightarrow> check_of NotRead False
         | Some r \<Rightarrow>
             (case tf_last_write_time fs key of
                None \<Rightarrow> check_of ExternallyModified False
              | Some mtime \<Rightarrow>
                  if mtime = fr_mtime r then
                    (if is_lossy r then check_of UnsafeRead False else check_of BaselineOk False)
                  else if fr_partial r then
                    (if is_lossy r then check_of UnsafeRead False else check_of ExternallyModified False)
                  else if fr_content r = Some current then check_of BaselineOk True
                  else check_of ExternallyModified False))"

definition record_write :: "tracker_fs \<Rightarrow> string \<Rightarrow> string option \<Rightarrow> tracker \<Rightarrow> tracker" where
  "record_write fs path text t =
     (let key = tracker_path_key fs path
      in case tf_last_write_time fs key of
           None \<Rightarrow> t
         | Some mtime \<Rightarrow>
             remove_observations key
               (put_record key \<lparr>fr_mtime = mtime, fr_partial = False, fr_content = text, fr_metadata = None\<rparr> t))"

definition read_metadata_of :: "tracker_fs \<Rightarrow> string \<Rightarrow> tracker \<Rightarrow> read_metadata option" where
  "read_metadata_of fs path t =
     (case records t (tracker_path_key fs path) of None \<Rightarrow> None | Some r \<Rightarrow> fr_metadata r)"

section \<open>The tracker as a machine\<close>

datatype tracker_op =
  RecordRead string string bool read_metadata
| SeedBaseline string string read_metadata
| RecordObservation string read_range
| ObservationResult string read_range string string
| InvalidateObservations string
| ClearObservations
| InvalidateAgentState string
| RecordWrite string "string option"

fun tracker_step :: "tracker_fs \<times> tracker_op \<Rightarrow> tracker \<Rightarrow> tracker" where
  "tracker_step (fs, RecordRead p c part m) t = record_read fs p c part m t"
| "tracker_step (fs, SeedBaseline p c m) t = seed_transcript_read_baseline fs p c m t"
| "tracker_step (fs, RecordObservation p r) t = record_read_observation fs p r t"
| "tracker_step (fs, ObservationResult p r c o') t = record_read_observation_result fs p r c o' t"
| "tracker_step (fs, InvalidateObservations p) t = invalidate_read_observations fs p t"
| "tracker_step (fs, ClearObservations) t = clear_read_observations t"
| "tracker_step (fs, InvalidateAgentState p) t = invalidate_agent_read_state fs p t"
| "tracker_step (fs, RecordWrite p c) t = record_write fs p c t"

definition run_tracker :: "(tracker_fs \<times> tracker_op) list \<Rightarrow> tracker" where
  "run_tracker ops = fold tracker_step ops new_tracker"

section \<open>Which record counts\<close>

text \<open>What one operation says about the record of a file: nothing, or the new record.\<close>

definition read_record :: "int \<Rightarrow> bool \<Rightarrow> string option \<Rightarrow> read_metadata option \<Rightarrow> file_record" where
  "read_record mtime partial text m = \<lparr>fr_mtime = mtime, fr_partial = partial, fr_content = text, fr_metadata = m\<rparr>"

fun verdict :: "tracker_fs \<Rightarrow> tracker_op \<Rightarrow> string \<Rightarrow> file_record option option" where
  "verdict fs (RecordRead p c part m) key =
     (if tracker_path_key fs p \<noteq> key then None
      else map_option (\<lambda>mt. Some (read_record mt part (if part then None else Some c) (Some m))) (tf_last_write_time fs key))"
| "verdict fs (SeedBaseline p c m) key =
     (if tracker_path_key fs p \<noteq> key then None else Some (Some (read_record oldest_time False (Some c) (Some m))))"
| "verdict fs (RecordWrite p c) key =
     (if tracker_path_key fs p \<noteq> key then None
      else map_option (\<lambda>mt. Some (read_record mt False c None)) (tf_last_write_time fs key))"
| "verdict fs (InvalidateAgentState p) key = (if tracker_path_key fs p \<noteq> key then None else Some None)"
| "verdict fs _ key = None"

text \<open>The baseline of a file: the verdict of the most recent operation that has one.\<close>

fun baseline :: "(tracker_fs \<times> tracker_op) list \<Rightarrow> string \<Rightarrow> file_record option" where
  "baseline [] key = None"
| "baseline ((fs, oper) # older) key = (case verdict fs oper key of Some r \<Rightarrow> r | None \<Rightarrow> baseline older key)"

lemma remove_observations_fields [simp]:
  "records (remove_observations key t) = records t"
  "observations (remove_observations key t) = (\<lambda>k. if ok_path k = key then None else observations t k)"
  "observation_lru (remove_observations key t) = [k \<leftarrow> observation_lru t. ok_path k \<noteq> key]"
  by (simp_all add: remove_observations_def)

lemma put_record_fields [simp]:
  "records (put_record key r t) = (records t)(key := Some r)"
  "observations (put_record key r t) = observations t"
  "observation_lru (put_record key r t) = observation_lru t"
  by (simp_all add: put_record_def)

lemma touch_observation_records [simp]: "records (touch_observation key t) = records t"
  by (simp add: touch_observation_def split: prod.split)

lemmas tracker_defs = record_read_def seed_transcript_read_baseline_def record_read_observation_def
  record_read_observation_result_def invalidate_read_observations_def clear_read_observations_def
  invalidate_agent_read_state_def record_write_def

lemma step_records:
  "records (tracker_step (fs, oper) t) key =
     (case verdict fs oper key of Some r \<Rightarrow> r | None \<Rightarrow> records t key)"
  by (cases oper) (auto simp: tracker_defs read_record_def Let_def split: option.splits)

lemma run_tracker_snoc [simp]: "run_tracker (ops @ [e]) = tracker_step e (run_tracker ops)"
  by (simp add: run_tracker_def)

lemma records_baseline: "records (run_tracker ops) key = baseline (rev ops) key"
proof (induction ops rule: rev_induct)
  case (snoc e ops)
  then show ?case by (cases e) (simp add: step_records split: option.split)
qed (simp add: run_tracker_def new_tracker_def)

text \<open>A file may be edited exactly when the most recent operation on it was a read or a write the
  tracker could stamp, and either its time stamp is still the recorded one and the read was not lossy, or
  only the time stamp changed: the whole file was read or written and its content is still that one.\<close>

lemma edit_needs_baseline:
  "bc_status (validate_read_baseline_for_edit fs path current (run_tracker ops)) = BaselineOk \<longleftrightarrow>
     (case (baseline (rev ops) (tracker_path_key fs path), tf_last_write_time fs (tracker_path_key fs path)) of
        (Some r, Some mtime) \<Rightarrow>
          mtime = fr_mtime r \<and> \<not> is_lossy r \<or> mtime \<noteq> fr_mtime r \<and> \<not> fr_partial r \<and> fr_content r = Some current
      | _ \<Rightarrow> False)"
  by (auto simp: validate_read_baseline_for_edit_def check_of_def records_baseline Let_def split: option.split)

text \<open>The second case forgets the loss: a whole file that could only be read with replacement characters is
  accepted as a baseline once its time stamp has changed.\<close>

lemma lossy_read_accepted_after_touch:
  assumes "tf_last_write_time fs0 (tracker_path_key fs0 p) = Some t0"
    and "tracker_path_key fs p = tracker_path_key fs0 p"
    and "tf_last_write_time fs (tracker_path_key fs p) = Some t1" "t1 \<noteq> t0" "md_lossy m"
  shows "bc_status (validate_read_baseline_for_edit fs0 p text (run_tracker [(fs0, RecordRead p text False m)])) = UnsafeRead \<and>
    bc_status (validate_read_baseline_for_edit fs p text (run_tracker [(fs0, RecordRead p text False m)])) = BaselineOk"
  using assms by (simp add: run_tracker_def record_read_def validate_read_baseline_for_edit_def check_of_def is_lossy_def)

section \<open>The cache of observations\<close>

lemma evict_observations_drop:
  "evict_observations ks obs =
     (drop (length ks - max_read_observation_entries) ks,
      \<lambda>k. if k \<in> set (take (length ks - max_read_observation_entries) ks) then None else obs k)"
proof (induction ks obs rule: evict_observations.induct)
  case (2 k ks obs)
  show ?case
  proof (cases "length (k # ks) > max_read_observation_entries")
    case True
    then have n: "length (k # ks) - max_read_observation_entries = Suc (length ks - max_read_observation_entries)"
      by simp
    have "evict_observations (k # ks) obs = evict_observations ks (obs(k := None))" using True by simp
    also note 2 [OF True]
    finally show ?thesis unfolding n by (auto simp: fun_eq_iff)
  qed simp
qed simp

lemma evict_observations_id:
  "length ks \<le> max_read_observation_entries \<Longrightarrow> evict_observations ks obs = (ks, obs)"
  by (simp add: evict_observations_drop)

definition cache_ok :: "tracker \<Rightarrow> bool" where
  "cache_ok t \<longleftrightarrow> distinct (observation_lru t) \<and> set (observation_lru t) = dom (observations t) \<and>
     length (observation_lru t) \<le> max_read_observation_entries"

lemma touch_cache_ok:
  assumes "distinct ks" "dom obs = insert key (set ks)" "length ks \<le> max_read_observation_entries"
  shows "cache_ok (touch_observation key (t\<lparr>observations := obs, observation_lru := ks\<rparr>))"
proof -
  let ?ks = "[k \<leftarrow> ks. k \<noteq> key] @ [key]"
  let ?n = "length ?ks - max_read_observation_entries"
  have d: "distinct ?ks" using assms(1) by simp
  have s: "set ?ks = dom obs" using assms(2) by auto
  have "set (take ?n ?ks) \<inter> set (drop ?n ?ks) = {}" by (rule set_take_disj_set_drop_if_distinct [OF d]) simp
  moreover have "set (take ?n ?ks) \<union> set (drop ?n ?ks) = dom obs"
    by (metis append_take_drop_id s set_append)
  ultimately have "dom (\<lambda>k. if k \<in> set (take ?n ?ks) then None else obs k) = set (drop ?n ?ks)"
    by (auto simp: dom_def split: if_splits)
  moreover have "distinct (drop ?n ?ks)" using d by (rule distinct_drop)
  ultimately show ?thesis
    by (simp add: touch_observation_def evict_observations_drop cache_ok_def del: set_append)
qed

lemma cache_ok_same: "observations t' = observations t \<Longrightarrow> observation_lru t' = observation_lru t \<Longrightarrow> cache_ok t \<Longrightarrow> cache_ok t'"
  by (simp add: cache_ok_def)

lemma remove_cache_ok: "cache_ok t \<Longrightarrow> cache_ok (remove_observations key t)"
  by (auto simp: cache_ok_def dom_def intro: order_trans [OF length_filter_le] split: if_splits)

lemma step_cache_ok: "cache_ok t \<Longrightarrow> cache_ok (tracker_step e t)"
proof (cases e)
  case (Pair fs oper)
  assume t: "cache_ok t"
  show ?thesis
  proof (cases oper)
    case (RecordObservation p r)
    let ?k = "make_observation_key fs p r"
    show ?thesis
    proof (cases "tf_last_write_time fs (ok_path ?k)")
      case (Some mt)
      let ?obs = "(observations t)(?k \<mapsto> \<lparr>ob_mtime = mt, ob_tool_call_id = [], ob_persisted_path = []\<rparr>)"
      have "cache_ok (touch_observation ?k (t\<lparr>observations := ?obs, observation_lru := observation_lru t\<rparr>))"
        using t by (intro touch_cache_ok) (auto simp: cache_ok_def)
      then show ?thesis by (simp add: Pair RecordObservation record_read_observation_def Some Let_def)
    qed (simp add: Pair RecordObservation record_read_observation_def t Let_def)
  next
    case (ObservationResult p r c o')
    with t show ?thesis
      by (auto simp: Pair cache_ok_def record_read_observation_result_def Let_def dom_def split: option.split)
  next
    case (RecordRead p c part m)
    with t show ?thesis
      by (auto simp: Pair record_read_def Let_def intro: cache_ok_same [of _ t] split: option.split)
  next
    case ClearObservations
    then show ?thesis by (simp add: Pair clear_read_observations_def cache_ok_def)
  qed (use t in \<open>auto simp: Pair tracker_defs Let_def remove_cache_ok cache_ok_same [of _ t] split: option.split\<close>)
qed

interpretation tracker_machine: op_machine tracker_step cache_ok
  by unfold_locales (rule step_cache_ok)

text \<open>The cache of read observations never holds more than 100 entries, and its table and its
  recency list always hold the same keys, each once.\<close>

lemma observation_cache_bounded:
  "length (observation_lru (run_tracker ops)) \<le> 100 \<and> distinct (observation_lru (run_tracker ops)) \<and>
   set (observation_lru (run_tracker ops)) = dom (observations (run_tracker ops))"
proof -
  have "cache_ok new_tracker" by (simp add: cache_ok_def new_tracker_def)
  then have "cache_ok (run_tracker ops)" unfolding run_tracker_def by (rule tracker_machine.run_inv)
  then show ?thesis by (simp add: cache_ok_def max_read_observation_entries_def)
qed

text \<open>The operations after which no observation of a file is left.\<close>

fun drops_observations :: "tracker_fs \<Rightarrow> tracker_op \<Rightarrow> string \<Rightarrow> bool" where
  "drops_observations fs (SeedBaseline p c m) key = (tracker_path_key fs p = key)"
| "drops_observations fs (InvalidateObservations p) key = (tracker_path_key fs p = key)"
| "drops_observations fs (InvalidateAgentState p) key = (tracker_path_key fs p = key)"
| "drops_observations fs (RecordWrite p c) key = (tracker_path_key fs p = key \<and> tf_last_write_time fs key \<noteq> None)"
| "drops_observations fs ClearObservations key = True"
| "drops_observations fs _ key = False"

definition observes :: "tracker_fs \<times> tracker_op \<Rightarrow> observation_key \<Rightarrow> int \<Rightarrow> bool" where
  "observes e k mtime \<longleftrightarrow> (case e of (fs, oper) \<Rightarrow>
     (case oper of
        RecordObservation p r \<Rightarrow> make_observation_key fs p r = k \<and> tf_last_write_time fs (ok_path k) = Some mtime
      | _ \<Rightarrow> False))"

lemma touch_observation_SomeD:
  "observations (touch_observation key t) k = Some ob \<Longrightarrow> observations t k = Some ob"
  by (auto simp: touch_observation_def evict_observations_drop split: if_splits)

lemma step_observation:
  assumes "observations (tracker_step (fs, oper) t) k = Some ob"
  shows "\<not> drops_observations fs oper (ok_path k) \<and>
    (observes (fs, oper) k (ob_mtime ob) \<or> (\<exists>ob'. observations t k = Some ob' \<and> ob_mtime ob' = ob_mtime ob))"
proof (cases oper)
  case (RecordObservation p r)
  let ?k = "make_observation_key fs p r"
  show ?thesis
  proof (cases "tf_last_write_time fs (ok_path ?k)")
    case (Some mt)
    then have "observations t k = Some ob \<or> k = ?k \<and> ob_mtime ob = mt"
      using assms RecordObservation
      by (auto simp: record_read_observation_def Let_def dest!: touch_observation_SomeD split: if_splits)
    then show ?thesis using Some RecordObservation by (auto simp: observes_def)
  qed (use assms RecordObservation in \<open>simp add: record_read_observation_def Let_def\<close>)
next
  case (ObservationResult p r c o')
  with assms show ?thesis
    by (auto simp: record_read_observation_result_def Let_def split: if_splits option.splits)
qed (use assms in \<open>auto simp: tracker_defs Let_def split: option.splits if_splits\<close>)

lemma observation_origin:
  assumes "observations (run_tracker ops) k = Some ob"
  shows "\<exists>before e after. ops = before @ e # after \<and> observes e k (ob_mtime ob) \<and>
    (\<forall>(fs, oper)\<in>set after. \<not> drops_observations fs oper (ok_path k))"
  using assms
proof (induction ops arbitrary: ob rule: rev_induct)
  case (snoc e ops)
  obtain fs oper where e: "e = (fs, oper)" by (cases e)
  from snoc.prems have "observations (tracker_step (fs, oper) (run_tracker ops)) k = Some ob" by (simp add: e)
  from step_observation [OF this] have nd: "\<not> drops_observations fs oper (ok_path k)" and
    c: "observes e k (ob_mtime ob) \<or> (\<exists>ob'. observations (run_tracker ops) k = Some ob' \<and> ob_mtime ob' = ob_mtime ob)"
    by (simp_all add: e)
  from c show ?case
  proof (elim disjE exE conjE)
    assume "observes e k (ob_mtime ob)"
    then show ?thesis by (intro exI [of _ ops] exI [of _ e] exI [of _ "[]"]) simp
  next
    fix ob'
    assume "observations (run_tracker ops) k = Some ob'" "ob_mtime ob' = ob_mtime ob"
    from snoc.IH [OF this(1)] this(2) obtain before e' after where
      "ops = before @ e' # after" "observes e' k (ob_mtime ob)"
      "\<forall>(fs, oper)\<in>set after. \<not> drops_observations fs oper (ok_path k)" by auto
    with nd show ?thesis
      by (intro exI [of _ before] exI [of _ e'] exI [of _ "after @ [e]"]) (auto simp: e)
  qed
qed (simp add: run_tracker_def new_tracker_def)

text \<open>C31: A repeated read is answered from the cache only when it is safe: the very same range was read
  before, the file has now the time stamp it had then, and in between nothing was written to it through
  the agent and nobody invalidated it.\<close>

theorem cached_read_is_fresh:
  assumes "unchanged_read_observation fs path r (run_tracker ops) = Some ob"
  shows "\<exists>before fs' p' r' after. ops = before @ (fs', RecordObservation p' r') # after \<and>
    make_observation_key fs' p' r' = make_observation_key fs path r \<and>
    tf_last_write_time fs' (tracker_path_key fs path) = tf_last_write_time fs (tracker_path_key fs path) \<and>
    (\<forall>(fs', oper)\<in>set after. \<not> drops_observations fs' oper (tracker_path_key fs path))"
proof -
  let ?k = "make_observation_key fs path r"
  have k: "ok_path ?k = tracker_path_key fs path" by (simp add: make_observation_key_def)
  from assms have ob: "observations (run_tracker ops) ?k = Some ob"
    and now: "tf_last_write_time fs (tracker_path_key fs path) = Some (ob_mtime ob)"
    by (auto simp: unchanged_read_observation_def Let_def k split: option.splits if_splits)
  from observation_origin [OF ob] obtain before e after where
    o: "ops = before @ e # after" "observes e ?k (ob_mtime ob)"
      "\<forall>(fs, oper)\<in>set after. \<not> drops_observations fs oper (ok_path ?k)" by blast
  from o(2) obtain fs' p' r' where e: "e = (fs', RecordObservation p' r')"
    by (cases e) (auto simp: observes_def split: tracker_op.splits)
  have "make_observation_key fs' p' r' = ?k" using o(2) by (simp add: e observes_def)
  moreover have "tf_last_write_time fs' (tracker_path_key fs path) = tf_last_write_time fs (tracker_path_key fs path)"
    using o(2) now by (simp add: e observes_def k)
  moreover have "\<forall>(fs', oper)\<in>set after. \<not> drops_observations fs' oper (tracker_path_key fs path)"
    using o(3) by (simp add: k)
  moreover have "ops = before @ (fs', RecordObservation p' r') # after" using o(1) by (simp add: e)
  ultimately show ?thesis by blast
qed

section \<open>The lock of a file\<close>

text \<open>The table of weak pointers to mutexes.  An owner is a guard (it holds the mutex or waits for it) with
  the file and the mutex it points to; a weak pointer can be locked while an owner is left.\<close>

record lock_table =
  lt_weak :: "string \<Rightarrow> nat option"
  lt_owners :: "(nat \<times> string \<times> nat) list"
  lt_next :: nat

definition no_locks :: lock_table where
  "no_locks = \<lparr>lt_weak = (\<lambda>_. None), lt_owners = [], lt_next = 0\<rparr>"

definition lock_weak :: "lock_table \<Rightarrow> string \<Rightarrow> nat option" where
  "lock_weak t key =
     (case lt_weak t key of
        None \<Rightarrow> None
      | Some m \<Rightarrow> if m \<in> (snd \<circ> snd) ` set (lt_owners t) then Some m else None)"

definition acquire_write_guard :: "nat \<Rightarrow> string \<Rightarrow> lock_table \<Rightarrow> lock_table" where
  "acquire_write_guard guard key t =
     (case lock_weak t key of
        Some m \<Rightarrow> t\<lparr>lt_owners := (guard, key, m) # lt_owners t\<rparr>
      | None \<Rightarrow>
          (let m = lt_next t
           in t\<lparr>lt_weak := (lt_weak t)(key \<mapsto> m), lt_owners := (guard, key, m) # lt_owners t, lt_next := m + 1\<rparr>))"

definition release_write_guard :: "nat \<Rightarrow> lock_table \<Rightarrow> lock_table" where
  "release_write_guard guard t = t\<lparr>lt_owners := [w \<leftarrow> lt_owners t. fst w \<noteq> guard]\<rparr>"

datatype lock_op = Acquire nat string | Release nat

fun lock_step :: "lock_op \<Rightarrow> lock_table \<Rightarrow> lock_table" where
  "lock_step (Acquire g key) t = acquire_write_guard g key t"
| "lock_step (Release g) t = release_write_guard g t"

definition locks_ok :: "lock_table \<Rightarrow> bool" where
  "locks_ok t \<longleftrightarrow> (\<forall>g key m. (g, key, m) \<in> set (lt_owners t) \<longrightarrow> lt_weak t key = Some m) \<and>
     (\<forall>key m. lt_weak t key = Some m \<longrightarrow> m < lt_next t) \<and>
     (\<forall>k1 k2 m. lt_weak t k1 = Some m \<longrightarrow> lt_weak t k2 = Some m \<longrightarrow> k1 = k2)"

lemma acquire_locks_ok: "locks_ok t \<Longrightarrow> locks_ok (acquire_write_guard g key t)"
proof (cases "lock_weak t key")
  case None
  assume t: "locks_ok t"
  then have "(g', key, m) \<notin> set (lt_owners t)" for g' m
    using None by (auto simp: lock_weak_def locks_ok_def image_iff split: option.splits if_splits)
  with t None show ?thesis
    by (auto simp: acquire_write_guard_def locks_ok_def Let_def less_Suc_eq)
next
  case (Some m)
  assume "locks_ok t"
  then show ?thesis
    using Some by (auto simp: acquire_write_guard_def locks_ok_def lock_weak_def split: option.splits if_splits)
qed

interpretation lock_machine: op_machine lock_step locks_ok
proof
  fix t and oper :: lock_op
  assume "locks_ok t"
  then show "locks_ok (lock_step oper t)"
    by (cases oper) (auto simp: acquire_locks_ok, auto simp: release_write_guard_def locks_ok_def)
qed

text \<open>Writers of one file exclude each other and writers of different files do not: two guards that are
  alive at the same time share their mutex exactly when they are for the same file.\<close>

lemma same_file_same_mutex:
  assumes "(g1, key1, m1) \<in> set (lt_owners (fold lock_step ops no_locks))"
    and "(g2, key2, m2) \<in> set (lt_owners (fold lock_step ops no_locks))"
  shows "m1 = m2 \<longleftrightarrow> key1 = key2"
proof -
  have "locks_ok no_locks" by (simp add: locks_ok_def no_locks_def)
  then have ok: "locks_ok (fold lock_step ops no_locks)" by (rule lock_machine.run_inv)
  then have "lt_weak (fold lock_step ops no_locks) key1 = Some m1" "lt_weak (fold lock_step ops no_locks) key2 = Some m2"
    using assms unfolding locks_ok_def by blast+
  with ok show ?thesis unfolding locks_ok_def by auto
qed

definition plain_tracker_fs :: "int \<Rightarrow> tracker_fs" where
  "plain_tracker_fs t = \<lparr>tf_weakly_canonical = Some, tf_absolute = Some, tf_lexically_normal = (\<lambda>p. p),
     tf_last_write_time = (\<lambda>_. Some t)\<rparr>"

definition whole_file :: read_range where
  "whole_file = \<lparr>rr_start_line = 0, rr_end_line = 0, rr_byte_mode = False, rr_byte_offset = 0, rr_max_bytes = 0\<rparr>"

theorem cached_read_is_fresh_witness:
  "\<exists>before fs' p' r' after. [(plain_tracker_fs 7, RecordObservation ''a'' whole_file)] =
     before @ (fs', RecordObservation p' r') # after"
  using cached_read_is_fresh [of "plain_tracker_fs 7" "''a''" whole_file
      "[(plain_tracker_fs 7, RecordObservation ''a'' whole_file)]"
      "\<lparr>ob_mtime = 7, ob_tool_call_id = [], ob_persisted_path = []\<rparr>"]
  by (simp add: unchanged_read_observation_def run_tracker_def new_tracker_def record_read_observation_def
      make_observation_key_def tracker_path_key_def plain_tracker_fs_def touch_observation_def Let_def
      max_read_observation_entries_def) blast

lemma same_file_same_mutex_witness:
  "lt_owners (fold lock_step [Acquire 1 ''a'', Acquire 2 ''a'', Acquire 3 ''b''] no_locks) =
     [(3, ''b'', 1), (2, ''a'', 0), (1, ''a'', 0)] \<and> ((1 :: nat) = 0 \<longleftrightarrow> ''b'' = ''a'')"
proof -
  let ?t = "fold lock_step [Acquire 1 ''a'', Acquire 2 ''a'', Acquire 3 ''b''] no_locks"
  have own: "lt_owners ?t = [(3, ''b'', 1), (2, ''a'', 0), (1, ''a'', 0)]" by code_simp
  have "(1 :: nat) = 0 \<longleftrightarrow> ''b'' = ''a''"
    using same_file_same_mutex [of 3 "''b''" 1 "[Acquire 1 ''a'', Acquire 2 ''a'', Acquire 3 ''b'']" 2 "''a''" 0,
        unfolded own] by simp
  with own show ?thesis by blast
qed

end
