(* ===== verification/TextBuffer.thy ===== *)
theory TextBuffer
  imports Prelude
begin

text \<open>
  \<open>utils/text_file_buffer.cpp\<close> (the build without the Windows code pages): how the file tools turn the
  bytes of a file into UTF-8 text with LF line ends and back, in the encoding the file had and the line ends
  the code chooses for it (mixed ones become LF), and the write that is verified by reading it back and
  undone, as far as the code notices, when it is not.  A byte is a
  \<open>char\<close>; a code point is a \<open>nat\<close>, since no value of the code's \<open>unsigned int\<close> arithmetic exceeds 21 bits
  here (\<open>next_utf8_bound\<close>).  The outcomes of the file operations are arguments of the definitions.
\<close>

unbundle bit_operations_syntax

section \<open>Data\<close>

datatype text_encoding = Utf8 | Utf8Bom | Utf16Le | Utf16Be | Gbk | Gb18030 | BinaryText | UnsupportedText

datatype line_ending = EndNone | EndLf | EndCrLf | EndCr | EndMixed

record text_metadata =
  tm_encoding :: text_encoding
  tm_line_ending :: line_ending
  tm_has_bom :: bool
  tm_binary :: bool
  tm_unsupported :: bool
  tm_lossy :: bool
  tm_lossy_count :: nat
  tm_error :: string

definition fresh_metadata :: text_metadata where
  "fresh_metadata = \<lparr>tm_encoding = Utf8, tm_line_ending = EndLf, tm_has_bom = False, tm_binary = False,
     tm_unsupported = False, tm_lossy = False, tm_lossy_count = 0, tm_error = []\<rparr>"

record text_buffer =
  tb_path :: string
  tb_raw_bytes :: string
  tb_text :: string
  tb_metadata :: text_metadata

record buffer_result =
  br_success :: bool
  br_buffer :: text_buffer
  br_error :: string

abbreviation byte_char :: "nat \<Rightarrow> char" where
  "byte_char n \<equiv> char_of n"

definition starts_with_bytes :: "nat list \<Rightarrow> string \<Rightarrow> bool" where
  "starts_with_bytes bom bytes \<longleftrightarrow> map byte (take (length bom) bytes) = bom"

section \<open>UTF-8\<close>

definition append_utf8 :: "nat \<Rightarrow> string" where
  "append_utf8 cp = map byte_char
     (if cp \<le> 0x7F then [cp]
      else if cp \<le> 0x7FF then [0xC0 OR drop_bit 6 cp, 0x80 OR (cp AND 0x3F)]
      else if cp \<le> 0xFFFF then [0xE0 OR drop_bit 12 cp, 0x80 OR (drop_bit 6 cp AND 0x3F), 0x80 OR (cp AND 0x3F)]
      else [0xF0 OR drop_bit 18 cp, 0x80 OR (drop_bit 12 cp AND 0x3F), 0x80 OR (drop_bit 6 cp AND 0x3F),
            0x80 OR (cp AND 0x3F)])"

text \<open>Length, first bits and smallest value of a sequence, from its first byte.\<close>

definition utf8_head :: "nat \<Rightarrow> (nat \<times> nat \<times> nat) option" where
  "utf8_head b0 =
     (if b0 AND 0xE0 = 0xC0 then Some (2, b0 AND 0x1F, 0x80)
      else if b0 AND 0xF0 = 0xE0 then Some (3, b0 AND 0x0F, 0x800)
      else if b0 AND 0xF8 = 0xF0 then Some (4, b0 AND 0x07, 0x10000)
      else None)"

fun utf8_tail :: "nat \<Rightarrow> string \<Rightarrow> nat option" where
  "utf8_tail v [] = Some v"
| "utf8_tail v (c # cs) =
     (if byte c AND 0xC0 \<noteq> (0x80 :: nat) then None
      else utf8_tail (push_bit 6 v OR (byte c AND 0x3F)) cs)"

definition is_surrogate :: "nat \<Rightarrow> bool" where
  "is_surrogate cp \<longleftrightarrow> 0xD800 \<le> cp \<and> cp \<le> 0xDFFF"

text \<open>\<open>next_utf8_codepoint\<close> at the head of the rest of the text: the code point and what follows it.\<close>

fun next_utf8 :: "string \<Rightarrow> (nat \<times> string) option" where
  "next_utf8 [] = None"
| "next_utf8 (c # cs) =
     (if byte c \<le> (0x7F :: nat) then Some (byte c, cs)
      else case utf8_head (byte c) of
        None \<Rightarrow> None
      | Some (len, value, min_value) \<Rightarrow>
          if length (c # cs) < len then None
          else case utf8_tail value (take (len - 1) cs) of
            None \<Rightarrow> None
          | Some v \<Rightarrow>
              if v < min_value \<or> v > 0x10FFFF then None
              else if is_surrogate v then None
              else Some (v, drop (len - 1) cs))"

lemma next_utf8_shorter: "next_utf8 s = Some (cp, rest) \<Longrightarrow> length rest < length s"
  by (cases s) (auto split: if_splits option.splits)

function text_bytes_are_valid_utf8 :: "string \<Rightarrow> bool" where
  "text_bytes_are_valid_utf8 s =
     (if s = [] then True
      else case next_utf8 s of None \<Rightarrow> False | Some (cp, rest) \<Rightarrow> text_bytes_are_valid_utf8 rest)"
  by pat_completeness auto
termination
  by (relation "measure length") (auto dest: next_utf8_shorter)

declare text_bytes_are_valid_utf8.simps [simp del]

record utf8_stats =
  us_total :: nat
  us_valid_non_ascii :: nat
  us_invalid_bytes :: nat
  us_invalid_spans :: nat

function scan_utf8_from :: "utf8_stats \<Rightarrow> string \<Rightarrow> utf8_stats" where
  "scan_utf8_from st s =
     (if s = [] then st
      else case next_utf8 s of
        Some (cp, rest) \<Rightarrow>
          scan_utf8_from (if cp > 0x7F then st\<lparr>us_valid_non_ascii := us_valid_non_ascii st + 1\<rparr> else st) rest
      | None \<Rightarrow>
          scan_utf8_from (st\<lparr>us_invalid_bytes := us_invalid_bytes st + 1, us_invalid_spans := us_invalid_spans st + 1\<rparr>)
            (tl s))"
  by pat_completeness auto
termination
  by (relation "measure (length \<circ> snd)") (auto dest: next_utf8_shorter)

declare scan_utf8_from.simps [simp del]

definition scan_utf8_bytes :: "string \<Rightarrow> utf8_stats" where
  "scan_utf8_bytes s =
     scan_utf8_from \<lparr>us_total = length s, us_valid_non_ascii = 0, us_invalid_bytes = 0, us_invalid_spans = 0\<rparr> s"

definition strongly_looks_like_damaged_utf8 :: "utf8_stats \<Rightarrow> bool \<Rightarrow> bool" where
  "strongly_looks_like_damaged_utf8 st has_utf8_bom =
     (if us_invalid_bytes st = 0 then False
      else if \<not> has_utf8_bom \<and> us_valid_non_ascii st = 0 then False
      else if \<not> has_utf8_bom \<and> us_valid_non_ascii st < us_invalid_spans st then False
      else us_invalid_bytes st \<le> 4 \<or> us_invalid_bytes st * 100 \<le> max (us_total st) 1)"

definition replacement_utf8 :: string where
  "replacement_utf8 = map byte_char [0xEF, 0xBF, 0xBD]"

function decode_lossy_from :: "string \<Rightarrow> string \<times> nat" where
  "decode_lossy_from s =
     (if s = [] then ([], 0)
      else case next_utf8 s of
        Some (cp, rest) \<Rightarrow> (case decode_lossy_from rest of (out, n) \<Rightarrow> (take (length s - length rest) s @ out, n))
      | None \<Rightarrow> (case decode_lossy_from (tl s) of (out, n) \<Rightarrow> (replacement_utf8 @ out, n + 1)))"
  by pat_completeness auto
termination
  by (relation "measure length") (auto dest: next_utf8_shorter)

declare decode_lossy_from.simps [simp del]

section \<open>UTF-16\<close>

definition read_u16 :: "bool \<Rightarrow> char \<Rightarrow> char \<Rightarrow> nat" where
  "read_u16 little_endian a b =
     (if little_endian then byte a OR push_bit 8 (byte b) else byte b OR push_bit 8 (byte a))"

definition append_u16 :: "bool \<Rightarrow> nat \<Rightarrow> string" where
  "append_u16 little_endian v =
     (if little_endian then [byte_char (v AND 0xFF), byte_char (drop_bit 8 v AND 0xFF)]
      else [byte_char (drop_bit 8 v AND 0xFF), byte_char (v AND 0xFF)])"

fun decode_utf16_loop :: "bool \<Rightarrow> string \<Rightarrow> string \<Rightarrow> string + string" where
  "decode_utf16_loop le out (a # b # rest) =
     (let u = read_u16 le a b
      in if 0xD800 \<le> u \<and> u \<le> 0xDBFF then
           (case rest of
              c # d # rest' \<Rightarrow>
                (let low = read_u16 le c d
                 in if low < 0xDC00 \<or> low > 0xDFFF
                    then Inl ''[Error] UTF-16 text contains an invalid surrogate pair.''
                    else decode_utf16_loop le
                      (out @ append_utf8 (0x10000 + (push_bit 10 (u - 0xD800) OR (low - 0xDC00)))) rest')
            | _ \<Rightarrow> Inl ''[Error] UTF-16 text ended inside a surrogate pair.'')
         else if 0xDC00 \<le> u \<and> u \<le> 0xDFFF then Inl ''[Error] UTF-16 text contains an unpaired low surrogate.''
         else decode_utf16_loop le (out @ append_utf8 u) rest)"
| "decode_utf16_loop le out _ = Inr out"

definition decode_utf16_bytes :: "string \<Rightarrow> bool \<Rightarrow> nat \<Rightarrow> string + string" where
  "decode_utf16_bytes bytes le offset =
     (if (length bytes - offset) mod 2 \<noteq> 0 then Inl ''[Error] UTF-16 text has an odd byte count.''
      else decode_utf16_loop le [] (drop offset bytes))"

definition utf16_of_code_point :: "bool \<Rightarrow> nat \<Rightarrow> string" where
  "utf16_of_code_point le cp =
     (if cp \<le> 0xFFFF then append_u16 le cp
      else let cp' = cp - 0x10000
        in append_u16 le (0xD800 OR drop_bit 10 cp') @ append_u16 le (0xDC00 OR (cp' AND 0x3FF)))"

function encode_utf16_loop :: "bool \<Rightarrow> string \<Rightarrow> string option" where
  "encode_utf16_loop le s =
     (if s = [] then Some []
      else case next_utf8 s of
        None \<Rightarrow> None
      | Some (cp, rest) \<Rightarrow> map_option (\<lambda>out. utf16_of_code_point le cp @ out) (encode_utf16_loop le rest))"
  by pat_completeness auto
termination
  by (relation "measure (length \<circ> snd)") (auto dest: next_utf8_shorter)

declare encode_utf16_loop.simps [simp del]

definition bom16 :: "bool \<Rightarrow> string" where
  "bom16 le = map byte_char (if le then [0xFF, 0xFE] else [0xFE, 0xFF])"

definition encode_utf16_bytes :: "string \<Rightarrow> bool \<Rightarrow> bool \<Rightarrow> string + string" where
  "encode_utf16_bytes utf8 le with_bom =
     (if \<not> text_bytes_are_valid_utf8 utf8 then Inl ''[Error] Internal text is not valid UTF-8.''
      else case encode_utf16_loop le utf8 of
        None \<Rightarrow> Inl ''[Error] Internal text is not valid UTF-8.''
      | Some out \<Rightarrow> Inr ((if with_bom then bom16 le else []) @ out))"

section \<open>Line ends\<close>

abbreviation ch_cr :: char where "ch_cr \<equiv> CHR 0x0D"
abbreviation ch_lf :: char where "ch_lf \<equiv> CHR 0x0A"

fun normalize_text_to_lf :: "string \<Rightarrow> string" where
  "normalize_text_to_lf [] = []"
| "normalize_text_to_lf (c # cs) =
     (if c = ch_cr then ch_lf # normalize_text_to_lf (if cs \<noteq> [] \<and> hd cs = ch_lf then tl cs else cs)
      else c # normalize_text_to_lf cs)"

text \<open>The counts of CR LF, LF and CR.\<close>

fun count_line_ends :: "string \<Rightarrow> nat \<times> nat \<times> nat \<Rightarrow> nat \<times> nat \<times> nat" where
  "count_line_ends [] n = n"
| "count_line_ends (c # cs) (crlf, lf, cr) =
     (if c = ch_cr then
        (if cs \<noteq> [] \<and> hd cs = ch_lf then count_line_ends (tl cs) (crlf + 1, lf, cr)
         else count_line_ends cs (crlf, lf, cr + 1))
      else if c = ch_lf then count_line_ends cs (crlf, lf + 1, cr)
      else count_line_ends cs (crlf, lf, cr))"

definition detect_line_ending_style :: "string \<Rightarrow> line_ending" where
  "detect_line_ending_style text =
     (case count_line_ends text (0, 0, 0) of (crlf, lf, cr) \<Rightarrow>
        let kinds = of_bool (crlf > 0) + of_bool (lf > 0) + of_bool (cr > 0) :: nat
        in if kinds = 0 then EndNone else if kinds > 1 then EndMixed
           else if crlf > 0 then EndCrLf else if cr > 0 then EndCr else EndLf)"

definition write_style_for :: "line_ending \<Rightarrow> line_ending" where
  "write_style_for style = (if style = EndCrLf \<or> style = EndCr then style else EndLf)"

definition restore_line_endings :: "string \<Rightarrow> line_ending \<Rightarrow> string" where
  "restore_line_endings lf_text style =
     (let target = write_style_for style
      in if target = EndLf then normalize_text_to_lf lf_text
         else let replacement = (if target = EndCrLf then [ch_cr, ch_lf] else [ch_cr])
           in concat (map (\<lambda>c. if c = ch_lf then replacement else [c]) (normalize_text_to_lf lf_text)))"

section \<open>Kinds of content\<close>

definition looks_like_binary :: "string \<Rightarrow> bool" where
  "looks_like_binary bytes =
     (if bytes = [] then False
      else let sample = take 4096 bytes;
               controls = length [c \<leftarrow> sample. byte c < (0x20 :: nat) \<and>
                 c \<notin> {ch_lf, ch_cr, CHR 0x09, CHR 0x0C, CHR 0x08, CHR 0x1B}]
        in CHR 0x00 \<in> set sample \<or> controls > length sample div 20)"

text \<open>The NUL bytes at odd and at even positions of the first 512 bytes.\<close>

fun count_nuls :: "nat \<Rightarrow> string \<Rightarrow> nat \<times> nat \<Rightarrow> nat \<times> nat" where
  "count_nuls i [] n = n"
| "count_nuls i (c # cs) (odd_nuls, even_nuls) =
     (if c \<noteq> CHR 0x00 then count_nuls (i + 1) cs (odd_nuls, even_nuls)
      else if i mod 2 = 1 then count_nuls (i + 1) cs (odd_nuls + 1, even_nuls)
      else count_nuls (i + 1) cs (odd_nuls, even_nuls + 1))"

definition looks_like_utf16_without_bom :: "bool \<Rightarrow> string \<Rightarrow> bool" where
  "looks_like_utf16_without_bom le bytes =
     (let sample = take 512 bytes
      in if length sample < 8 then False
         else case count_nuls 0 sample (0, 0) of (odd_nuls, even_nuls) \<Rightarrow>
           if le then odd_nuls > length sample div 8 \<and> even_nuls < odd_nuls div 4
           else even_nuls > length sample div 8 \<and> odd_nuls < even_nuls div 4)"

fun text_encoding_label :: "text_encoding \<Rightarrow> string" where
  "text_encoding_label Utf8 = ''utf-8''"
| "text_encoding_label Utf8Bom = ''utf-8-bom''"
| "text_encoding_label Utf16Le = ''utf-16le''"
| "text_encoding_label Utf16Be = ''utf-16be''"
| "text_encoding_label Gbk = ''gbk/cp936''"
| "text_encoding_label Gb18030 = ''gb18030''"
| "text_encoding_label BinaryText = ''binary''"
| "text_encoding_label UnsupportedText = ''unsupported''"

fun line_ending_label :: "line_ending \<Rightarrow> string" where
  "line_ending_label EndNone = ''none''"
| "line_ending_label EndLf = ''lf''"
| "line_ending_label EndCrLf = ''crlf''"
| "line_ending_label EndCr = ''cr''"
| "line_ending_label EndMixed = ''mixed''"

section \<open>Decoding a file\<close>

definition make_decoded_result :: "string \<Rightarrow> string \<Rightarrow> string \<Rightarrow> text_encoding \<Rightarrow> bool \<Rightarrow> nat option \<Rightarrow> buffer_result" where
  "make_decoded_result path raw decoded encoding has_bom lossy =
     \<lparr>br_success = True,
      br_buffer = \<lparr>tb_path = path, tb_raw_bytes = raw, tb_text = normalize_text_to_lf decoded,
        tb_metadata = fresh_metadata\<lparr>tm_encoding := encoding, tm_has_bom := has_bom, tm_lossy := lossy \<noteq> None,
          tm_lossy_count := (case lossy of Some n \<Rightarrow> n | None \<Rightarrow> 0),
          tm_line_ending := detect_line_ending_style decoded\<rparr>\<rparr>,
      br_error = []\<rparr>"

definition fail_decode :: "string \<Rightarrow> string \<Rightarrow> text_encoding \<Rightarrow> string \<Rightarrow> bool \<Rightarrow> buffer_result" where
  "fail_decode path raw encoding err binary =
     \<lparr>br_success = False,
      br_buffer = \<lparr>tb_path = path, tb_raw_bytes = raw, tb_text = [],
        tb_metadata = fresh_metadata\<lparr>tm_encoding := encoding, tm_binary := binary, tm_unsupported := \<not> binary,
          tm_error := err\<rparr>\<rparr>,
      br_error = err\<rparr>"

definition decode_lossy_utf8 :: "string \<Rightarrow> string \<times> nat" where
  "decode_lossy_utf8 bytes = decode_lossy_from bytes"

definition ambiguous_error :: "string \<Rightarrow> string" where
  "ambiguous_error how = ''[Error] File can be read with file_read using lossy '' @ how @
     ''decoding, but its encoding is too ambiguous to edit safely.''"

definition decode_text_file_bytes :: "string \<Rightarrow> string \<Rightarrow> bool \<Rightarrow> buffer_result" where
  "decode_text_file_bytes bytes path allow_lossy =
     (if starts_with_bytes [0xEF, 0xBB, 0xBF] bytes then
        (let body = drop 3 bytes
         in if \<not> text_bytes_are_valid_utf8 body then
              (if allow_lossy \<and> \<not> looks_like_binary body then
                 (case decode_lossy_utf8 body of (out, n) \<Rightarrow> make_decoded_result path bytes out Utf8Bom True (Some n))
               else fail_decode path bytes UnsupportedText
                 ''[Error] UTF-8 BOM file can be read with file_read using lossy decoding, but its bytes are too ambiguous to edit safely.'' False)
            else make_decoded_result path bytes body Utf8Bom True None)
      else if starts_with_bytes [0xFF, 0xFE] bytes then
        (case decode_utf16_bytes bytes True 2 of
           Inl err \<Rightarrow> fail_decode path bytes UnsupportedText err False
         | Inr out \<Rightarrow> make_decoded_result path bytes out Utf16Le True None)
      else if starts_with_bytes [0xFE, 0xFF] bytes then
        (case decode_utf16_bytes bytes False 2 of
           Inl err \<Rightarrow> fail_decode path bytes UnsupportedText err False
         | Inr out \<Rightarrow> make_decoded_result path bytes out Utf16Be True None)
      else case (if looks_like_utf16_without_bom True bytes then decode_utf16_bytes bytes True 0 else Inl []) of
        Inr out \<Rightarrow> make_decoded_result path bytes out Utf16Le False None
      | Inl _ \<Rightarrow>
          (case (if looks_like_utf16_without_bom False bytes then decode_utf16_bytes bytes False 0 else Inl []) of
             Inr out \<Rightarrow> make_decoded_result path bytes out Utf16Be False None
           | Inl _ \<Rightarrow>
               if looks_like_binary bytes then
                 fail_decode path bytes BinaryText
                   ''[Error] File appears to be binary and cannot be safely edited as text.'' True
               else if text_bytes_are_valid_utf8 bytes then make_decoded_result path bytes bytes Utf8 False None
               else if strongly_looks_like_damaged_utf8 (scan_utf8_bytes bytes) False then
                 (if allow_lossy then
                    (case decode_lossy_utf8 bytes of (out, n) \<Rightarrow> make_decoded_result path bytes out Utf8 False (Some n))
                  else fail_decode path bytes UnsupportedText (ambiguous_error ''UTF-8 '') False)
               else if allow_lossy then
                 (case decode_lossy_utf8 bytes of (out, n) \<Rightarrow> make_decoded_result path bytes out Utf8 False (Some n))
               else fail_decode path bytes UnsupportedText (ambiguous_error []) False))"

definition decode_with_bom16 :: "string \<Rightarrow> string \<Rightarrow> bool \<Rightarrow> text_encoding \<Rightarrow> buffer_result" where
  "decode_with_bom16 bytes path le encoding =
     (let offset = (if starts_with_bytes (if le then [0xFF, 0xFE] else [0xFE, 0xFF]) bytes then 2 else 0)
      in case decode_utf16_bytes bytes le offset of
           Inl err \<Rightarrow> fail_decode path bytes UnsupportedText err False
         | Inr out \<Rightarrow> make_decoded_result path bytes out encoding (offset = 2) None)"

definition decode_text_file_bytes_with_metadata :: "string \<Rightarrow> text_metadata \<Rightarrow> string \<Rightarrow> buffer_result" where
  "decode_text_file_bytes_with_metadata bytes metadata path =
     (case tm_encoding metadata of
        Utf8 \<Rightarrow>
          (if \<not> text_bytes_are_valid_utf8 bytes
           then fail_decode path bytes UnsupportedText ''[Error] Written bytes are not valid UTF-8.'' False
           else make_decoded_result path bytes bytes Utf8 False None)
      | Utf8Bom \<Rightarrow>
          (if \<not> starts_with_bytes [0xEF, 0xBB, 0xBF] bytes
           then fail_decode path bytes UnsupportedText ''[Error] UTF-8 BOM was not preserved.'' False
           else decode_text_file_bytes bytes path False)
      | Utf16Le \<Rightarrow> decode_with_bom16 bytes path True Utf16Le
      | Utf16Be \<Rightarrow> decode_with_bom16 bytes path False Utf16Be
      | _ \<Rightarrow> fail_decode path bytes UnsupportedText
               ''[Error] Cannot verify bytes with unsupported target encoding.'' False)"

section \<open>Encoding\<close>

definition encode_text_for_write :: "string \<Rightarrow> text_metadata \<Rightarrow> string + string" where
  "encode_text_for_write lf_text metadata =
     (if tm_lossy metadata then
        Inl (''[Error] Target file cannot be safely written as text because it was decoded lossily. '' @
          ''Use file_read for inspection and convert the file to a confirmed encoding before editing.'')
      else if tm_binary metadata \<or> tm_unsupported metadata \<or> tm_encoding metadata = BinaryText \<or>
              tm_encoding metadata = UnsupportedText then
        Inl (''[Error] Target file cannot be safely written as text because its encoding is '' @
          text_encoding_label (tm_encoding metadata) @ ''.'')
      else let text = restore_line_endings lf_text (tm_line_ending metadata)
        in case tm_encoding metadata of
             Utf8 \<Rightarrow> (if \<not> text_bytes_are_valid_utf8 text then Inl ''[Error] Text is not valid UTF-8.'' else Inr text)
           | Utf8Bom \<Rightarrow>
               (if \<not> text_bytes_are_valid_utf8 text then Inl ''[Error] Text is not valid UTF-8.''
                else Inr (map byte_char [0xEF, 0xBB, 0xBF] @ text))
           | Utf16Le \<Rightarrow> encode_utf16_bytes text True (tm_has_bom metadata)
           | Utf16Be \<Rightarrow> encode_utf16_bytes text False (tm_has_bom metadata)
           | Gbk \<Rightarrow> Inl ''[Error] GBK encoding is only available through the Windows codepage adapter in this build.''
           | Gb18030 \<Rightarrow> Inl ''[Error] GB18030 encoding is only available through the Windows codepage adapter in this build.''
           | _ \<Rightarrow> Inl ''[Error] Unsupported target text encoding.'')"

section \<open>The verified write\<close>

text \<open>The file at the path is its bytes, or \<open>None\<close>.  The outcome of a write: the directory or the file
  cannot be opened (the file is as before), the stream fails half way (the file was truncated and
  holds what was written so far), or all is written.  The stream is asked before it is closed, so it may also
  be good and lose what its buffer still holds when that is flushed: \<open>LostOnClose\<close>, which the function
  does not notice.  A failed read is \<open>False\<close>.\<close>

datatype write_outcome = WriteOk | NoDirectory string | NoOpen | StreamFails nat | LostOnClose nat

definition write_raw_file :: "write_outcome \<Rightarrow> string \<Rightarrow> string \<Rightarrow> string option \<Rightarrow> string option \<times> string option" where
  "write_raw_file outcome path bytes disk =
     (case outcome of
        NoDirectory what \<Rightarrow> (Some (''[Error] Cannot create parent directory: '' @ what), disk)
      | NoOpen \<Rightarrow> (Some (''[Error] Cannot write to file: '' @ path), disk)
      | StreamFails n \<Rightarrow> (Some (''[Error] Cannot write to file: '' @ path), Some (take n bytes))
      | WriteOk \<Rightarrow> (None, Some bytes)
      | LostOnClose n \<Rightarrow> (None, Some (take n bytes)))"

definition read_raw_file :: "bool \<Rightarrow> string \<Rightarrow> string option \<Rightarrow> string + string" where
  "read_raw_file can_open path disk =
     (case disk of
        Some bytes \<Rightarrow> (if can_open then Inr bytes else Inl (''[Error] Cannot open file: '' @ path))
      | None \<Rightarrow> Inl (''[Error] Cannot open file: '' @ path))"

definition read_text_file_buffer :: "bool \<Rightarrow> string \<Rightarrow> bool \<Rightarrow> string option \<Rightarrow> buffer_result" where
  "read_text_file_buffer can_open path allow_lossy disk =
     (case read_raw_file can_open path disk of
        Inl err \<Rightarrow> fail_decode path [] UnsupportedText err False
      | Inr raw \<Rightarrow> decode_text_file_bytes raw path allow_lossy)"

record safe_write_result =
  sw_success :: bool
  sw_error :: string
  sw_rolled_back :: bool
  sw_rollback_failed :: bool

definition sw_result :: "bool \<Rightarrow> string \<Rightarrow> bool \<Rightarrow> bool \<Rightarrow> safe_write_result" where
  "sw_result ok err back failed = \<lparr>sw_success = ok, sw_error = err, sw_rolled_back = back, sw_rollback_failed = failed\<rparr>"

record io_outcomes =
  io_first_read :: bool
  io_write :: write_outcome
  io_second_read :: bool
  io_undo :: write_outcome
  io_remove :: "string option"

text \<open>The undo after a failed verification: the old bytes are written back, or a new file is removed.\<close>

definition roll_back :: "io_outcomes \<Rightarrow> string \<Rightarrow> string option \<Rightarrow> string \<Rightarrow> string option \<Rightarrow> safe_write_result \<times> string option" where
  "roll_back io path before reason disk =
     (case before of
        Some pre_write_bytes \<Rightarrow>
          (case write_raw_file (io_undo io) path pre_write_bytes disk of
             (Some err, disk') \<Rightarrow>
               (sw_result False (''[Error] Post-write round-trip verification failed for '' @ path @
                  '' and rollback failed: '' @ err) False True, disk')
           | (None, disk') \<Rightarrow> (sw_result False (reason @ ''; edit was rolled back for '' @ path @ ''.'') True False, disk'))
      | None \<Rightarrow>
          (case io_remove io of
             Some err \<Rightarrow>
               (sw_result False (''[Error] Post-write round-trip verification failed for '' @ path @
                  '' and rollback failed: '' @ err) False True, disk)
           | None \<Rightarrow> (sw_result False (reason @ ''; edit was rolled back for '' @ path @ ''.'') True False, None)))"

text \<open>After the write: read back, decode with the metadata of the file, compare with the intended text.
  When reading back fails, a file that existed is restored; a new one is left as it is.\<close>

definition verify_write ::
  "io_outcomes \<Rightarrow> string \<Rightarrow> string \<Rightarrow> text_metadata \<Rightarrow> string option \<Rightarrow> string option \<Rightarrow> safe_write_result \<times> string option" where
  "verify_write io path lf_text metadata before disk =
     (case read_raw_file (io_second_read io) path disk of
        Inl _ \<Rightarrow>
          (case before of
             Some pre_write_bytes \<Rightarrow>
               (case write_raw_file (io_undo io) path pre_write_bytes disk of
                  (Some err, disk') \<Rightarrow>
                    (sw_result False (''[Error] Post-write verification could not read '' @ path @
                       '' and rollback failed: '' @ err) False True, disk')
                | (None, disk') \<Rightarrow>
                    (sw_result False (''[Error] Post-write verification could not read '' @ path @
                       ''; edit was rolled back.'') True False, disk'))
           | None \<Rightarrow>
               (sw_result False (''[Error] Post-write verification could not read '' @ path @
                  ''; edit was rolled back.'') True False, disk))
      | Inr written \<Rightarrow>
          (let round_trip = decode_text_file_bytes_with_metadata written metadata path
           in if br_success round_trip \<and> tb_text (br_buffer round_trip) = normalize_text_to_lf lf_text
              then (sw_result True [] False False, disk)
              else roll_back io path before
                (if br_success round_trip then ''[Error] Post-write round-trip verification changed the intended text''
                 else br_error round_trip) disk))"

definition safe_write_text_file ::
  "io_outcomes \<Rightarrow> string \<Rightarrow> string \<Rightarrow> text_metadata \<Rightarrow> string option \<Rightarrow> safe_write_result \<times> string option" where
  "safe_write_text_file io path lf_text metadata disk =
     (case encode_text_for_write lf_text metadata of
        Inl err \<Rightarrow> (sw_result False err False False, disk)
      | Inr bytes \<Rightarrow>
          (case (if disk \<noteq> None then map_sum id Some (read_raw_file (io_first_read io) path disk) else Inr None) of
             Inl err \<Rightarrow> (sw_result False err False False, disk)
           | Inr before \<Rightarrow>
               (case write_raw_file (io_write io) path bytes disk of
                  (Some err, disk') \<Rightarrow> (sw_result False err False False, disk')
                | (None, disk') \<Rightarrow> verify_write io path lf_text metadata before disk')))"

text \<open>Lines: \<open>split_lf_lines_preserve_empty\<close> and \<open>line_range_content\<close>.\<close>

fun split_lf_lines :: "string \<Rightarrow> string \<Rightarrow> string list" where
  "split_lf_lines line [] = (if line = [] then [] else [line])"
| "split_lf_lines line (c # cs) =
     (if c = ch_lf then line # (if cs = [] then [] else split_lf_lines [] cs) else split_lf_lines (line @ [c]) cs)"

text \<open>The text cut after every line feed that is not the last byte: the lines with their ends.\<close>

fun keep_line_ends :: "string \<Rightarrow> string \<Rightarrow> string list" where
  "keep_line_ends line [] = [line]"
| "keep_line_ends line (c # cs) =
     (if c = ch_lf \<and> cs \<noteq> [] then (line @ [c]) # keep_line_ends [] cs else keep_line_ends (line @ [c]) cs)"

definition line_range_content :: "string \<Rightarrow> int \<Rightarrow> int \<Rightarrow> string option \<times> int" where
  "line_range_content lf_text start_line end_line =
     (if start_line \<le> 0 \<or> end_line < start_line then (None, 0)
      else let lines = (if lf_text = [] then [] else keep_line_ends [] lf_text);
               line_count = int (length lines)
        in if line_count = 0 \<or> start_line > line_count then (None, line_count)
           else let clamped_end = min end_line line_count
             in (Some (concat (take (nat (clamped_end - start_line + 1)) (drop (nat (start_line - 1)) lines))), line_count))"

section \<open>Arithmetic of the bit operations\<close>

lemma or_disjoint: "v < 2 ^ n \<Longrightarrow> push_bit n k OR v = push_bit n k + v" for v k :: nat
proof -
  assume "v < 2 ^ n"
  then have v: "take_bit n v = v" by (simp add: take_bit_nat_eq_self_iff)
  have "push_bit n k AND take_bit n v = 0" by (rule bit_eqI) (auto simp: bit_simps)
  then show ?thesis by (simp add: v disjunctive_add_eq_or)
qed

lemma and_low: "x AND (2 ^ n - 1) = x mod 2 ^ n" for x :: nat
  by (simp add: take_bit_eq_mod [symmetric] take_bit_eq_mask mask_eq_exp_minus_1)

lemma and_simps [simp]:
  "x AND 0x3F = x mod 64" "x AND 0x1F = x mod 32" "x AND 0x0F = x mod 16" "x AND 0x07 = x mod 8"
  "x AND 0xFF = x mod 256" "x AND 0x3FF = x mod 1024" for x :: nat
  using and_low [of x 6] and_low [of x 5] and_low [of x 4] and_low [of x 3] and_low [of x 8] and_low [of x 10]
  by simp_all

lemma or_numerals [simp]:
  "v < 64 \<Longrightarrow> 0x80 OR v = 0x80 + v" "v < 32 \<Longrightarrow> 0xC0 OR v = 0xC0 + v" "v < 16 \<Longrightarrow> 0xE0 OR v = 0xE0 + v"
  "v < 8 \<Longrightarrow> 0xF0 OR v = 0xF0 + v" "v < 1024 \<Longrightarrow> 0xD800 OR v = 0xD800 + v" "v < 1024 \<Longrightarrow> 0xDC00 OR v = 0xDC00 + v"
  for v :: nat
  using or_disjoint [of v 6 2] or_disjoint [of v 5 6] or_disjoint [of v 4 14] or_disjoint [of v 3 30]
    or_disjoint [of v 10 54] or_disjoint [of v 10 55]
  by (simp_all add: push_bit_eq_mult)

lemma or_push [simp]:
  "w < 64 \<Longrightarrow> push_bit 6 v OR w = v * 64 + w" "w < 1024 \<Longrightarrow> push_bit 10 v OR w = v * 1024 + w"
  "w < 256 \<Longrightarrow> w OR push_bit 8 v = v * 256 + w" for v w :: nat
  using or_disjoint [of w 6 v] or_disjoint [of w 10 v] or_disjoint [of w 8 v]
  by (simp_all add: push_bit_eq_mult or.commute)

lemma and_high: "b AND push_bit n m = push_bit n (drop_bit n b AND m)" for b m :: nat
  by (rule bit_eqI) (auto simp: bit_simps)

lemma div_eq_bounds: "0 < k \<Longrightarrow> b div k = q \<longleftrightarrow> q * k \<le> b \<and> b < Suc q * k" for b k q :: nat
proof -
  assume "0 < k"
  have "b div k = q \<longleftrightarrow> q \<le> b div k \<and> b div k < Suc q" by auto
  with \<open>0 < k\<close> show ?thesis by (simp only: less_eq_div_iff_mult_less_eq div_less_iff_less_mult)
qed

lemma head_bits:
  "b < 256 \<Longrightarrow> b AND 0xE0 = 0xC0 \<longleftrightarrow> 192 \<le> b \<and> b < 224"
  "b < 256 \<Longrightarrow> b AND 0xF0 = 0xE0 \<longleftrightarrow> 224 \<le> b \<and> b < 240"
  "b < 256 \<Longrightarrow> b AND 0xF8 = 0xF0 \<longleftrightarrow> 240 \<le> b \<and> b < 248"
  "b < 256 \<Longrightarrow> b AND 0xC0 = 0x80 \<longleftrightarrow> 128 \<le> b \<and> b < 192" for b :: nat
proof -
  have d: "b < 256 \<Longrightarrow> b div 32 < 8" "b < 256 \<Longrightarrow> b div 16 < 16" "b < 256 \<Longrightarrow> b div 8 < 32" "b < 256 \<Longrightarrow> b div 64 < 4"
    by simp_all
  have e: "b div 32 = 6 \<longleftrightarrow> 192 \<le> b \<and> b < 224" "b div 16 = 14 \<longleftrightarrow> 224 \<le> b \<and> b < 240"
    "b div 8 = 30 \<longleftrightarrow> 240 \<le> b \<and> b < 248" "b div 64 = 2 \<longleftrightarrow> 128 \<le> b \<and> b < 192"
    using div_eq_bounds [of 32 b 6] div_eq_bounds [of 16 b 14] div_eq_bounds [of 8 b 30] div_eq_bounds [of 64 b 2]
    by simp_all
  have a: "b AND 0xE0 = b div 32 mod 8 * 32" "b AND 0xF0 = b div 16 mod 16 * 16"
    "b AND 0xF8 = b div 8 mod 32 * 8" "b AND 0xC0 = b div 64 mod 4 * 64"
    using and_high [of b 5 7] and_high [of b 4 15] and_high [of b 3 31] and_high [of b 6 3] and_low [of "b div 64" 2]
    by (simp_all add: push_bit_eq_mult drop_bit_eq_div)
  assume "b < 256"
  then show "b AND 0xE0 = 0xC0 \<longleftrightarrow> 192 \<le> b \<and> b < 224" "b AND 0xF0 = 0xE0 \<longleftrightarrow> 224 \<le> b \<and> b < 240"
    "b AND 0xF8 = 0xF0 \<longleftrightarrow> 240 \<le> b \<and> b < 248" "b AND 0xC0 = 0x80 \<longleftrightarrow> 128 \<le> b \<and> b < 192"
    using d by (simp_all add: a e [symmetric])
qed

lemma char_of_byte [simp]: "byte_char (byte c) = c"
  by (rule char_of_char)

lemma byte_char_eqI: "n = byte c \<Longrightarrow> byte_char n = c"
  by simp

lemmas bits_arith = drop_bit_eq_div push_bit_eq_mult

section \<open>Code points\<close>

text \<open>A code point UTF-8 can carry.\<close>

definition scalar_value :: "nat \<Rightarrow> bool" where
  "scalar_value cp \<longleftrightarrow> cp \<le> 0x10FFFF \<and> \<not> is_surrogate cp"

lemma continuation_mod: "128 \<le> x \<Longrightarrow> x < 192 \<Longrightarrow> x mod 64 = x - 128" for x :: nat
  using mod_mult_self1 [of "x - 128" 2 64] by simp

lemma utf8_tail_Some:
  "utf8_tail v cs = Some w \<Longrightarrow> (\<forall>c\<in>set cs. 128 \<le> byte c \<and> byte c < (192 :: nat)) \<and>
     w = foldl (\<lambda>v c. v * 64 + (byte c - 128)) v cs"
proof (induction v cs rule: utf8_tail.induct)
  case (2 v c cs)
  have c: "byte c AND 0xC0 = (0x80 :: nat)" using 2(2) by (simp split: if_splits)
  then have r: "128 \<le> byte c" "byte c < (192 :: nat)" using head_bits(4) [of "byte c"] by simp_all
  have "push_bit 6 v OR (byte c AND 0x3F) = v * 64 + (byte c - 128)"
    using continuation_mod [OF r] r by simp
  moreover have "utf8_tail (push_bit 6 v OR (byte c AND 0x3F)) cs = Some w"
    using 2(2) c by (simp only: utf8_tail.simps not_not if_not_P if_False)
  ultimately show ?case using 2(1) [of] c r by simp
qed simp

lemma mod_pieces: "x mod 32 = x - 192" if "192 \<le> x" "x < 224" for x :: nat
  using mod_mult_self1 [of "x - 192" 6 32] that by simp

lemma mod_pieces3: "x mod 16 = x - 224" if "224 \<le> x" "x < 240" for x :: nat
  using mod_mult_self1 [of "x - 224" 14 16] that by simp

lemma mod_pieces4: "x mod 8 = x - 240" if "240 \<le> x" "x < 248" for x :: nat
  using mod_mult_self1 [of "x - 240" 30 8] that by simp

lemma utf8_head_cases:
  assumes "b < 256" "utf8_head b = Some (len, v, m)"
  obtains "len = 2" "v = b - 192" "m = 0x80" "192 \<le> b" "b < 224"
  | "len = 3" "v = b - 224" "m = 0x800" "224 \<le> b" "b < 240"
  | "len = 4" "v = b - 240" "m = 0x10000" "240 \<le> b" "b < 248"
  using assms mod_pieces [of b] mod_pieces3 [of b] mod_pieces4 [of b]
  by (auto simp: utf8_head_def head_bits split: if_splits)

lemma utf8_head_eq:
  "192 \<le> b \<Longrightarrow> b < 224 \<Longrightarrow> utf8_head b = Some (2, b - 192, 0x80)"
  "224 \<le> b \<Longrightarrow> b < 240 \<Longrightarrow> utf8_head b = Some (3, b - 224, 0x800)"
  "240 \<le> b \<Longrightarrow> b < 248 \<Longrightarrow> utf8_head b = Some (4, b - 240, 0x10000)"
  using mod_pieces [of b] mod_pieces3 [of b] mod_pieces4 [of b]
  by (simp_all add: utf8_head_def head_bits)

text \<open>Joining and splitting the groups of six bits.\<close>

lemma split_groups:
  assumes "x < (64 :: nat)" "y < 64" "z < 64"
  shows "(v * 64 + x) div 64 = v" "(v * 64 + x) mod 64 = x"
    "((v * 64 + y) * 64 + x) div 4096 = v" "((v * 64 + y) * 64 + x) div 64 = v * 64 + y"
    "(((v * 64 + z) * 64 + y) * 64 + x) div 262144 = v"
    "(((v * 64 + z) * 64 + y) * 64 + x) div 4096 = v * 64 + z"
proof -
  show 1: "(v * 64 + x) div 64 = v" "(v * 64 + x) mod 64 = x" for v using assms(1) by simp_all
  have d: "a div 4096 = a div 64 div 64" "a div 262144 = a div 64 div 64 div 64" for a :: nat
    by (simp_all add: div_mult2_eq [symmetric])
  show "((v * 64 + y) * 64 + x) div 64 = v * 64 + y" using assms by simp
  show "((v * 64 + y) * 64 + x) div 4096 = v" using assms unfolding d by simp
  show "(((v * 64 + z) * 64 + y) * 64 + x) div 262144 = v" using assms unfolding d by simp
  show "(((v * 64 + z) * 64 + y) * 64 + x) div 4096 = v * 64 + z" using assms unfolding d by simp
qed

lemma append_utf8_2:
  assumes "x < 64" "2 \<le> v" "v < 32"
  shows "append_utf8 (v * 64 + x) = map char_of [192 + v, 128 + x]"
  using assms by (simp add: append_utf8_def drop_bit_eq_div split_groups)

lemma append_utf8_3:
  assumes "x < 64" "y < 64" "0x800 \<le> (v * 64 + y) * 64 + x" "v < 16"
  shows "append_utf8 ((v * 64 + y) * 64 + x) = map char_of [224 + v, 128 + y, 128 + x]"
proof -
  define n where "n = (v * 64 + y) * 64 + x"
  have n: "n div 4096 = v" "n div 64 = v * 64 + y" "n mod 64 = x"
    using split_groups [OF assms(1,2,1)] unfolding n_def by blast+
  have "\<not> n \<le> 0x7FF" "n \<le> 0xFFFF" using assms unfolding n_def by simp_all
  then have "append_utf8 n = map char_of [224 + v, 128 + y, 128 + x]"
    using assms by (simp add: append_utf8_def drop_bit_eq_div n)
  then show ?thesis by (simp only: n_def)
qed

lemma append_utf8_4:
  assumes "x < 64" "y < 64" "z < 64" "0x10000 \<le> ((v * 64 + z) * 64 + y) * 64 + x" "v < 8"
  shows "append_utf8 (((v * 64 + z) * 64 + y) * 64 + x) = map char_of [240 + v, 128 + z, 128 + y, 128 + x]"
proof -
  define n where "n = ((v * 64 + z) * 64 + y) * 64 + x"
  have n: "n div 262144 = v" "n div 4096 = v * 64 + z" "n mod 64 = x"
    using split_groups [OF assms(1-3)] unfolding n_def by blast+
  have "n div 64 = (v * 64 + z) * 64 + y" using split_groups(1) [OF assms(1,2,3)] unfolding n_def .
  then have y: "n div 64 mod 64 = y" by (simp only: split_groups(2) [OF assms(2,2,2)])
  have "\<not> n \<le> 0xFFFF" using assms(4) unfolding n_def by simp
  then have "append_utf8 n = map char_of [240 + v, 128 + z, 128 + y, 128 + x]"
    using assms by (simp add: append_utf8_def drop_bit_eq_div n y)
  then show ?thesis by (simp only: n_def)
qed

lemma next_utf8_Some:
  assumes "next_utf8 s = Some (cp, rest)"
  shows "s = append_utf8 cp @ rest \<and> scalar_value cp"
proof -
  from assms obtain c cs where s: "s = c # cs" by (cases s) auto
  show ?thesis
  proof (cases "byte c \<le> (0x7F :: nat)")
    case True
    then have "byte c < (0xD800 :: nat)" by simp
    with True assms show ?thesis
      by (auto simp: s append_utf8_def scalar_value_def is_surrogate_def)
  next
    case False
    with assms obtain len v0 m where h: "utf8_head (byte c) = Some (len, v0, m)"
      and l: "\<not> length (c # cs) < len" and t: "utf8_tail v0 (take (len - 1) cs) = Some cp"
      and r: "\<not> (cp < m \<or> cp > 0x10FFFF)" "\<not> is_surrogate cp" "rest = drop (len - 1) cs"
      by (auto simp: s split: option.splits if_splits)
    have sv: "scalar_value cp" using r by (simp add: scalar_value_def)
    note tl = utf8_tail_Some [OF t]
    have "c # cs = append_utf8 cp @ rest"
    proof (rule utf8_head_cases [OF byte_less_256 h])
      assume a: "len = 2" "v0 = byte c - 192" "m = 0x80" "192 \<le> byte c" "byte c < (224 :: nat)"
      from l a(1) obtain d ds where cs: "cs = d # ds" by (cases cs) auto
      have d: "128 \<le> byte d" "byte d < (192 :: nat)" and cp: "cp = v0 * 64 + (byte d - 128)"
        using tl by (simp_all add: cs a(1))
      have "2 \<le> v0" using r(1) a(2,3,5) d cp by linarith
      then show ?thesis
        using append_utf8_2 [of "byte d - 128" v0] a d by (simp add: cs cp r(3))
    next
      assume a: "len = 3" "v0 = byte c - 224" "m = 0x800" "224 \<le> byte c" "byte c < (240 :: nat)"
      from l a(1) obtain d e ds where cs: "cs = d # e # ds" by (cases cs; cases "tl cs") auto
      have d: "128 \<le> byte d" "byte d < (192 :: nat)" "128 \<le> byte e" "byte e < (192 :: nat)"
        using tl by (simp_all add: cs a(1))
      have tk: "take (len - 1) cs = [d, e]" by (simp add: cs a(1))
      have cp: "cp = (v0 * 64 + (byte d - 128)) * 64 + (byte e - 128)"
        using tl unfolding tk by (simp only: foldl_Cons foldl_Nil)
      have "0x800 \<le> cp" using r(1) a(3) by simp
      then show ?thesis
        using append_utf8_3 [of "byte e - 128" "byte d - 128" v0] a d by (simp add: cs cp r(3))
    next
      assume a: "len = 4" "v0 = byte c - 240" "m = 0x10000" "240 \<le> byte c" "byte c < (248 :: nat)"
      from l a(1) obtain d e f ds where cs: "cs = d # e # f # ds" by (cases cs; cases "tl cs"; cases "tl (tl cs)") auto
      have d: "128 \<le> byte d" "byte d < (192 :: nat)" "128 \<le> byte e" "byte e < (192 :: nat)"
          "128 \<le> byte f" "byte f < (192 :: nat)"
        using tl by (simp_all add: cs a(1))
      have tk: "take (len - 1) cs = [d, e, f]" by (simp add: cs a(1))
      have cp: "cp = ((v0 * 64 + (byte d - 128)) * 64 + (byte e - 128)) * 64 + (byte f - 128)"
        using tl unfolding tk by (simp only: foldl_Cons foldl_Nil)
      have "0x10000 \<le> cp" using r(1) a(3) by simp
      then show ?thesis
        using append_utf8_4 [of "byte f - 128" "byte e - 128" "byte d - 128" v0] a d by (simp add: cs cp r(3))
    qed
    with sv show ?thesis by (simp add: s)
  qed
qed

lemma next_utf8_bound: "next_utf8 s = Some (cp, rest) \<Longrightarrow> cp < 2 ^ 21"
  using next_utf8_Some [of s cp rest] by (simp add: scalar_value_def)

section \<open>UTF-16\<close>

lemma read_append_u16:
  assumes "v < 65536"
  shows "\<exists>a b. append_u16 le v = [a, b] \<and> read_u16 le a b = v"
proof -
  have h: "v div 256 < 256" using assms by simp
  have "v div 256 * 256 + v mod 256 = v" by simp
  with h show ?thesis by (auto simp: append_u16_def read_u16_def drop_bit_eq_div)
qed

lemma decode_code_point:
  assumes "scalar_value cp"
  shows "decode_utf16_loop le out (utf16_of_code_point le cp @ rest) = decode_utf16_loop le (out @ append_utf8 cp) rest"
proof (cases "cp \<le> 0xFFFF")
  case True
  then have "cp < 65536" by simp
  from read_append_u16 [OF this, of le] obtain a b where ab: "append_u16 le cp = [a, b]" "read_u16 le a b = cp" by blast
  have "\<not> (0xD800 \<le> cp \<and> cp \<le> 0xDBFF)" "\<not> (0xDC00 \<le> cp \<and> cp \<le> 0xDFFF)"
    using assms by (auto simp: scalar_value_def is_surrogate_def)
  with True ab show ?thesis by (auto simp: utf16_of_code_point_def)
next
  case False
  define x where "x = cp - 0x10000"
  have x: "cp = 0x10000 + x" "x < 1048576"
    using False assms by (auto simp: x_def scalar_value_def)
  define z y where "z = x div 1024" and "y = x mod 1024"
  have d: "z < 1024" "y < 1024" "push_bit 10 z OR y = x" "drop_bit 10 x = z" "x AND 0x3FF = y"
    using x(2) by (simp_all add: z_def y_def drop_bit_eq_div)
  have "0xD800 + z < 65536" "0xDC00 + y < 65536" using d by simp_all
  from read_append_u16 [OF this(1), of le] read_append_u16 [OF this(2), of le] obtain a b c e
    where h: "append_u16 le (0xD800 + z) = [a, b]" "read_u16 le a b = 0xD800 + z"
      and l: "append_u16 le (0xDC00 + y) = [c, e]" "read_u16 le c e = 0xDC00 + y" by blast
  have "utf16_of_code_point le cp = [a, b, c, e]"
    using False d h(1) l(1) by (simp add: utf16_of_code_point_def Let_def x_def [symmetric] del: and_simps)
  then show ?thesis using d h(2) l(2) x(1) by (simp add: Let_def)
qed

lemma encode_decode_loop:
  "encode_utf16_loop le s = Some b \<Longrightarrow> decode_utf16_loop le out b = Inr (out @ s)"
proof (induction le s arbitrary: b out rule: encode_utf16_loop.induct)
  case (1 le s)
  show ?case
  proof (cases "s = []")
    case True
    with 1(2) show ?thesis by (simp add: encode_utf16_loop.simps [of le "[]"])
  next
    case False
    with 1(2) obtain cp rest b' where n: "next_utf8 s = Some (cp, rest)"
      and e: "encode_utf16_loop le rest = Some b'" and b: "b = utf16_of_code_point le cp @ b'"
      by (subst (asm) encode_utf16_loop.simps) (auto split: option.splits)
    from next_utf8_Some [OF n] have s: "s = append_utf8 cp @ rest" "scalar_value cp" by simp_all
    have "decode_utf16_loop le out b = decode_utf16_loop le (out @ append_utf8 cp) b'"
      by (simp add: b decode_code_point [OF s(2)])
    also have "\<dots> = Inr ((out @ append_utf8 cp) @ rest)" by (rule 1(1) [OF False n [symmetric, THEN sym] _ e]) simp
    finally show ?thesis by (simp add: s(1))
  qed
qed

lemma utf16_length_even: "even (length (utf16_of_code_point le cp))"
  by (simp add: utf16_of_code_point_def append_u16_def Let_def)

lemma encode_length_even: "encode_utf16_loop le s = Some b \<Longrightarrow> even (length b)"
proof (induction le s arbitrary: b rule: encode_utf16_loop.induct)
  case (1 le s)
  then show ?case
    by (subst (asm) (2) encode_utf16_loop.simps) (auto simp: utf16_length_even split: option.splits if_splits)
qed

lemma encode_utf16_total: "text_bytes_are_valid_utf8 s \<Longrightarrow> encode_utf16_loop le s \<noteq> None"
proof (induction s rule: text_bytes_are_valid_utf8.induct)
  case (1 s)
  then show ?case
    by (subst (asm) (2) text_bytes_are_valid_utf8.simps, subst encode_utf16_loop.simps)
      (auto split: option.splits if_splits)
qed

lemma decode_encode_utf16:
  assumes "encode_utf16_bytes s le with_bom = Inr bytes"
  shows "decode_utf16_bytes bytes le (if with_bom then 2 else 0) = Inr s"
proof -
  from assms obtain b where b: "encode_utf16_loop le s = Some b" "bytes = (if with_bom then bom16 le else []) @ b"
    by (auto simp: encode_utf16_bytes_def split: option.splits if_splits)
  have "length bytes - (if with_bom then 2 else 0) = length b" by (simp add: b(2) bom16_def)
  moreover have "drop (if with_bom then 2 else 0) bytes = b" by (simp add: b(2) bom16_def)
  ultimately show ?thesis
    using encode_length_even [OF b(1)] encode_decode_loop [OF b(1), of "[]"]
    by (simp add: decode_utf16_bytes_def even_iff_mod_2_eq_zero)
qed

section \<open>Line ends\<close>

lemma no_cr_normalize [simp]: "ch_cr \<notin> set (normalize_text_to_lf s)"
  by (induction s rule: normalize_text_to_lf.induct) (auto split: if_splits)

lemma normalize_no_cr: "ch_cr \<notin> set s \<Longrightarrow> normalize_text_to_lf s = s"
  by (induction s) auto

definition expand_ends :: "string \<Rightarrow> string \<Rightarrow> string" where
  "expand_ends r s = concat (map (\<lambda>c. if c = ch_lf then r else [c]) s)"

lemma expand_ends_simps [simp]:
  "expand_ends r [] = []" "expand_ends r (c # s) = (if c = ch_lf then r else [c]) @ expand_ends r s"
  by (simp_all add: expand_ends_def)

lemma hd_expand_ends: "ch_cr \<notin> set s \<Longrightarrow> expand_ends [ch_cr] s \<noteq> [] \<Longrightarrow> hd (expand_ends [ch_cr] s) \<noteq> ch_lf"
  by (cases s) auto

lemma normalize_expand:
  "ch_cr \<notin> set s \<Longrightarrow> normalize_text_to_lf (expand_ends [ch_cr, ch_lf] s) = s"
  "ch_cr \<notin> set s \<Longrightarrow> normalize_text_to_lf (expand_ends [ch_cr] s) = s"
proof (induction s)
  case (Cons c s)
  { case 1 then show ?case using Cons.IH(1) by auto }
  { case 2 then show ?case using Cons.IH(2) hd_expand_ends [of s] by auto }
qed simp_all

lemma restore_expand:
  "restore_line_endings t style =
     (case write_style_for style of
        EndCrLf \<Rightarrow> expand_ends [ch_cr, ch_lf] (normalize_text_to_lf t)
      | EndCr \<Rightarrow> expand_ends [ch_cr] (normalize_text_to_lf t)
      | _ \<Rightarrow> normalize_text_to_lf t)"
  by (cases style) (simp_all add: restore_line_endings_def write_style_for_def expand_ends_def Let_def)

lemma normalize_restore: "normalize_text_to_lf (restore_line_endings t style) = normalize_text_to_lf t"
  by (simp add: restore_expand normalize_expand normalize_no_cr split: line_ending.split)

lemma count_expand:
  assumes "ch_cr \<notin> set s"
  shows "count_line_ends (expand_ends [ch_cr, ch_lf] s) (i, j, k) = (i + count_list s ch_lf, j, k)"
    "count_line_ends (expand_ends [ch_cr] s) (i, j, k) = (i, j, k + count_list s ch_lf)"
    "count_line_ends s (i, j, k) = (i, j + count_list s ch_lf, k)"
  using assms
proof (induction s arbitrary: i j k)
  case (Cons c s)
  { case 1 then show ?case using Cons.IH(1) by auto }
  { case 2 then show ?case using Cons.IH(2) hd_expand_ends [of s] by (auto split: if_splits) }
  { case 3 then show ?case using Cons.IH(3) by auto }
qed simp_all

lemma detect_restore:
  "detect_line_ending_style (restore_line_endings t style) =
     (if ch_lf \<in> set (normalize_text_to_lf t) then write_style_for style else EndNone)"
  using count_expand [OF no_cr_normalize, of t 0 0 0]
  by (simp add: detect_line_ending_style_def restore_expand write_style_for_def count_list_0_iff Let_def
      split: line_ending.split)

section \<open>Writing and reading back\<close>

lemma make_decoded_simps [simp]:
  "br_success (make_decoded_result path raw out enc bom lossy)"
  "tb_text (br_buffer (make_decoded_result path raw out enc bom lossy)) = normalize_text_to_lf out"
  "tm_encoding (tb_metadata (br_buffer (make_decoded_result path raw out enc bom lossy))) = enc"
  "tm_line_ending (tb_metadata (br_buffer (make_decoded_result path raw out enc bom lossy))) = detect_line_ending_style out"
  "\<not> br_success (fail_decode path raw enc err bin)"
  by (simp_all add: make_decoded_result_def fresh_metadata_def fail_decode_def)

text \<open>UTF-16 text written without a byte order mark that begins with one would be taken for marked.\<close>

definition bom_clash :: "string \<Rightarrow> text_metadata \<Rightarrow> bool" where
  "bom_clash bytes md \<longleftrightarrow> \<not> tm_has_bom md \<and>
     (tm_encoding md = Utf16Le \<and> starts_with_bytes [0xFF, 0xFE] bytes \<or>
      tm_encoding md = Utf16Be \<and> starts_with_bytes [0xFE, 0xFF] bytes)"

lemma decode_with_bom16_back:
  assumes "encode_utf16_bytes s le with_bom = Inr bytes"
    and "with_bom \<or> \<not> starts_with_bytes (if le then [0xFF, 0xFE] else [0xFE, 0xFF]) bytes"
  shows "decode_with_bom16 bytes path le enc = make_decoded_result path bytes s enc with_bom None"
proof -
  have "starts_with_bytes (if le then [0xFF, 0xFE] else [0xFE, 0xFF]) bytes = with_bom"
  proof (cases with_bom)
    case True
    with assms(1) obtain b where "bytes = bom16 le @ b"
      by (auto simp: encode_utf16_bytes_def split: option.splits if_splits)
    then show ?thesis using True by (simp add: starts_with_bytes_def bom16_def)
  qed (use assms(2) in simp)
  then show ?thesis using decode_encode_utf16 [OF assms(1)]
    by (cases with_bom) (simp_all add: decode_with_bom16_def Let_def)
qed

lemma decode_utf8_bom:
  "text_bytes_are_valid_utf8 s \<Longrightarrow>
     decode_text_file_bytes (map byte_char [0xEF, 0xBB, 0xBF] @ s) path lossy =
       make_decoded_result path (map byte_char [0xEF, 0xBB, 0xBF] @ s) s Utf8Bom True None"
  by (simp add: decode_text_file_bytes_def starts_with_bytes_def)

lemma encode_decodes:
  assumes "encode_text_for_write t md = Inr bytes" "\<not> bom_clash bytes md"
  shows "\<exists>bom. decode_text_file_bytes_with_metadata bytes md path =
    make_decoded_result path bytes (restore_line_endings t (tm_line_ending md)) (tm_encoding md) bom None"
proof (cases "tm_encoding md")
  case Utf16Le
  with assms show ?thesis
    using decode_with_bom16_back [of _ True "tm_has_bom md" bytes path Utf16Le]
    by (auto simp: encode_text_for_write_def Let_def bom_clash_def decode_text_file_bytes_with_metadata_def split: if_splits)
next
  case Utf16Be
  with assms show ?thesis
    using decode_with_bom16_back [of _ False "tm_has_bom md" bytes path Utf16Be]
    by (auto simp: encode_text_for_write_def Let_def bom_clash_def decode_text_file_bytes_with_metadata_def split: if_splits)
next
  case Utf8Bom
  with assms(1) have v: "text_bytes_are_valid_utf8 (restore_line_endings t (tm_line_ending md))"
    and b: "bytes = map byte_char [0xEF, 0xBB, 0xBF] @ restore_line_endings t (tm_line_ending md)"
    by (auto simp: encode_text_for_write_def Let_def split: if_splits)
  have "starts_with_bytes [0xEF, 0xBB, 0xBF] bytes" by (simp add: b starts_with_bytes_def)
  with Utf8Bom show ?thesis
    using decode_utf8_bom [OF v, of path False, folded b]
    by (auto simp: decode_text_file_bytes_with_metadata_def)
qed (use assms(1) in \<open>auto simp: encode_text_for_write_def Let_def decode_text_file_bytes_with_metadata_def split: if_splits\<close>)


lemma roll_back_cases:
  "roll_back io path before reason disk = (r, disk') \<Longrightarrow>
     \<not> sw_success r \<and> (sw_rolled_back r \<longleftrightarrow> \<not> sw_rollback_failed r) \<and>
     (sw_rolled_back r \<longrightarrow> disk' = before \<or> (\<exists>n old. io_undo io = LostOnClose n \<and> before = Some old \<and> disk' = Some (take n old)))"
  by (auto simp: roll_back_def write_raw_file_def sw_result_def
      split: option.splits prod.splits write_outcome.splits)

lemma verify_write_cases:
  assumes "verify_write io path t md before disk = (r, disk')"
  shows "sw_success r \<and> disk' = disk \<and> (\<exists>written. disk = Some written \<and>
       br_success (decode_text_file_bytes_with_metadata written md path) \<and>
       tb_text (br_buffer (decode_text_file_bytes_with_metadata written md path)) = normalize_text_to_lf t) \<or>
    \<not> sw_success r \<and> (sw_rolled_back r \<longleftrightarrow> \<not> sw_rollback_failed r) \<and>
      (sw_rolled_back r \<longrightarrow> before \<noteq> None \<or> io_second_read io \<longrightarrow> disk \<noteq> None \<longrightarrow>
        disk' = before \<or> (\<exists>n old. io_undo io = LostOnClose n \<and> before = Some old \<and> disk' = Some (take n old)))"
proof (cases "read_raw_file (io_second_read io) path disk")
  case (Inl err)
  with assms show ?thesis
    by (auto simp: verify_write_def write_raw_file_def sw_result_def read_raw_file_def
        split: option.splits prod.splits write_outcome.splits if_splits)
next
  case (Inr written)
  let ?rt = "decode_text_file_bytes_with_metadata written md path"
  have d: "disk = Some written" using Inr by (auto simp: read_raw_file_def split: option.splits if_splits)
  show ?thesis
  proof (cases "br_success ?rt \<and> tb_text (br_buffer ?rt) = normalize_text_to_lf t")
    case True
    with assms Inr d show ?thesis by (auto simp: verify_write_def sw_result_def Let_def)
  next
    case False
    with assms Inr obtain reason where "roll_back io path before reason disk = (r, disk')"
      by (auto simp: verify_write_def Let_def)
    from roll_back_cases [OF this] show ?thesis by blast
  qed
qed

lemma safe_write_cases:
  assumes "safe_write_text_file io path t md disk = (r, disk')"
  shows "if sw_success r
    then \<exists>bytes written. encode_text_for_write t md = Inr bytes \<and> disk' = Some written \<and>
           br_success (decode_text_file_bytes_with_metadata written md path) \<and>
           tb_text (br_buffer (decode_text_file_bytes_with_metadata written md path)) = normalize_text_to_lf t \<and>
           (written = bytes \<or> (\<exists>n. io_write io = LostOnClose n \<and> written = take n bytes))
    else sw_rollback_failed r \<or> disk = None \<or> disk' = disk \<or> (\<exists>n. io_write io = StreamFails n) \<or>
      (\<exists>n old. io_undo io = LostOnClose n \<and> disk = Some old \<and> disk' = Some (take n old))"
proof (cases "encode_text_for_write t md")
  case (Inl err)
  with assms show ?thesis by (auto simp: safe_write_text_file_def sw_result_def)
next
  case e: (Inr bytes)
  let ?b = "if disk \<noteq> None then map_sum id Some (read_raw_file (io_first_read io) path disk) else Inr None"
  show ?thesis
  proof (cases ?b)
    case (Inl err)
    with assms e show ?thesis by (auto simp: safe_write_text_file_def sw_result_def)
  next
    case b: (Inr before)
    then have bd: "before = disk" by (auto simp: read_raw_file_def split: if_splits option.splits)
    have s: "(case write_raw_file (io_write io) path bytes disk of
        (Some err, disk') \<Rightarrow> (sw_result False err False False, disk')
      | (None, disk') \<Rightarrow> verify_write io path t md disk disk') = (r, disk')"
      using assms unfolding safe_write_text_file_def e b bd by simp
    consider written where "verify_write io path t md disk (Some written) = (r, disk')"
        "written = bytes \<or> (\<exists>n. io_write io = LostOnClose n \<and> written = take n bytes)"
      | "\<not> sw_success r" "disk' = disk \<or> (\<exists>n. io_write io = StreamFails n)"
      using s by (cases "io_write io") (auto simp: write_raw_file_def sw_result_def)
    then show ?thesis
    proof cases
      case 1
      from verify_write_cases [OF 1(1)] e 1(2) show ?thesis by (cases disk) auto
    qed auto
  qed
qed

text \<open>C30: The verified write does not take its own word for it.  After a success the file was read back and
  decodes to the intended text; it holds exactly the encoded bytes, or, when the stream lost the end of them as it
  was closed, a part of them that still decodes to that text.  After a failure a file that existed has its old bytes, unless the result
  reports a failed rollback, the first write broke off half way (which the code does not undo), or the
  rollback itself lost its end as it was closed (which the code does not notice).\<close>

theorem safe_write_is_transactional:
  "case safe_write_text_file io path t md disk of (r, disk') \<Rightarrow>
     (if sw_success r
      then \<exists>bytes written. encode_text_for_write t md = Inr bytes \<and> disk' = Some written \<and>
             br_success (decode_text_file_bytes_with_metadata written md path) \<and>
             tb_text (br_buffer (decode_text_file_bytes_with_metadata written md path)) = normalize_text_to_lf t \<and>
             (written = bytes \<or> (\<exists>n. io_write io = LostOnClose n \<and> written = take n bytes))
      else sw_rollback_failed r \<or> disk = None \<or> disk' = disk \<or> (\<exists>n. io_write io = StreamFails n) \<or>
        (\<exists>n old. io_undo io = LostOnClose n \<and> disk = Some old \<and> disk' = Some (take n old)))"
  using safe_write_cases [of io path t md disk] by (auto split: prod.split)

lemma safe_write_changes:
  assumes "safe_write_text_file io path t md disk = (r, disk')" "disk' \<noteq> disk"
  shows "(\<exists>bytes. encode_text_for_write t md = Inr bytes) \<and> (disk = None \<or> io_first_read io)"
  using assms by (auto simp: safe_write_text_file_def read_raw_file_def split: sum.splits option.splits if_splits)

lemma safe_write_ok:
  assumes "encode_text_for_write t md = Inr bytes" "\<not> bom_clash bytes md"
    and "io_first_read io" "io_write io = WriteOk" "io_second_read io"
  shows "safe_write_text_file io path t md disk = (sw_result True [] False False, Some bytes)"
proof -
  have "br_success (decode_text_file_bytes_with_metadata bytes md path)"
    "tb_text (br_buffer (decode_text_file_bytes_with_metadata bytes md path)) = normalize_text_to_lf t"
    using encode_decodes [OF assms(1,2), of path] by (auto simp: normalize_restore)
  with assms show ?thesis
    by (cases disk) (simp_all add: safe_write_text_file_def read_raw_file_def write_raw_file_def verify_write_def)
qed

text \<open>The write does what it is for: when the text can be encoded and every file operation succeeds,
  it reports success and the file holds the encoded text.\<close>

lemma safe_write_succeeds:
  assumes "encode_text_for_write t md = Inr bytes" "\<not> bom_clash bytes md"
    and "io_first_read io" "io_write io = WriteOk" "io_second_read io"
  shows "safe_write_text_file io path t md disk = (sw_result True [] False False, Some bytes)"
  using assms by (rule safe_write_ok)

text \<open>A stream that fails half way through leaves a truncated file, and the result says neither that it
  was rolled back nor that a rollback failed.\<close>

lemma short_write_not_undone:
  assumes "encode_text_for_write t md = Inr bytes" "io_first_read io" "io_write io = StreamFails n"
  shows "snd (safe_write_text_file io path t md (Some old)) = Some (take n bytes) \<and>
    \<not> sw_rolled_back (fst (safe_write_text_file io path t md (Some old))) \<and>
    \<not> sw_rollback_failed (fst (safe_write_text_file io path t md (Some old)))"
  using assms by (simp add: safe_write_text_file_def read_raw_file_def write_raw_file_def sw_result_def)

text \<open>A rollback that loses its bytes as the stream is closed is reported as done: here the file is left empty.\<close>

lemma lost_rollback_not_noticed:
  assumes "encode_text_for_write t md = Inr bytes" "io_first_read io" "io_write io = WriteOk" "\<not> io_second_read io"
    "io_undo io = LostOnClose 0"
  shows "snd (safe_write_text_file io path t md (Some old)) = Some [] \<and>
    sw_rolled_back (fst (safe_write_text_file io path t md (Some old))) \<and>
    \<not> sw_rollback_failed (fst (safe_write_text_file io path t md (Some old)))"
  using assms by (simp add: safe_write_text_file_def read_raw_file_def write_raw_file_def verify_write_def sw_result_def)

text \<open>A lost end is noticed only when it changes the decoded text: without its last byte a file of CRLF lines ends in
  a CR, which counts as a line end too.\<close>

lemma lost_line_feed_accepted:
  "safe_write_text_file \<lparr>io_first_read = True, io_write = LostOnClose 2, io_second_read = True, io_undo = WriteOk, io_remove = None\<rparr>
     ''f'' (map byte_char [0x61, 0x0A]) (fresh_metadata\<lparr>tm_line_ending := EndCrLf\<rparr>) (Some ''b'') =
   (sw_result True [] False False, Some (map byte_char [0x61, 0x0D]))"
  by code_simp

text \<open>A new file that cannot be read back is reported as rolled back but stays.\<close>

lemma new_file_not_removed:
  assumes "encode_text_for_write t md = Inr bytes" "io_write io = WriteOk" "\<not> io_second_read io"
  shows "snd (safe_write_text_file io path t md None) = Some bytes \<and>
    sw_rolled_back (fst (safe_write_text_file io path t md None))"
  using assms by (simp add: safe_write_text_file_def read_raw_file_def write_raw_file_def verify_write_def sw_result_def)

text \<open>A file with mixed line ends gets LF everywhere, also on the lines that were not edited.\<close>

lemma mixed_line_ends_rewritten:
  "ch_lf \<in> set (normalize_text_to_lf t) \<Longrightarrow>
     detect_line_ending_style (restore_line_endings t EndMixed) = EndLf"
  by (simp add: detect_restore write_style_for_def)


definition good_io :: io_outcomes where
  "good_io = \<lparr>io_first_read = True, io_write = WriteOk, io_second_read = True, io_undo = WriteOk, io_remove = None\<rparr>"

lemma safe_write_succeeds_witness:
  "safe_write_text_file good_io ''f'' ''b'' fresh_metadata (Some ''a'') = (sw_result True [] False False, Some ''b'')"
proof (rule safe_write_succeeds)
  show "encode_text_for_write ''b'' fresh_metadata = Inr ''b''" by code_simp
qed (simp_all add: good_io_def bom_clash_def fresh_metadata_def)

end
