(* ===== verification/ScratchPath.thy ===== *)
theory ScratchPath
  imports Prelude
begin

text \<open>
  The scratch directory of a session (\<open>tool/tool_executor.cpp\<close>): file tools accept a path that begins
  with one spelling of \<open>ACECODE_TMPDIR\<close>, which stands for a directory below the workspace.  Paths are
  those of a POSIX build: \<open>path_from_utf8\<close> keeps the string, there are no root names, and the lexical
  operations of \<open>std::filesystem::path\<close> (\<open>operator/\<close>, iteration, \<open>lexically_normal\<close>) are written out on
  strings.  The queries that look at the disk are arguments.  The main result is that a resolved alias
  names a file strictly below the scratch directory.
\<close>

section \<open>POSIX paths\<close>

definition is_absolute_path :: "string \<Rightarrow> bool" where
  "is_absolute_path p \<longleftrightarrow> p \<noteq> [] \<and> hd p = slash"

definition path_append :: "string \<Rightarrow> string \<Rightarrow> string" where
  "path_append p r =
     (if is_absolute_path r then r
      else if p \<noteq> [] \<and> last p \<noteq> slash then p @ slash # r
      else p @ r)"

text \<open>The names of a path, without the empty ones between slashes.\<close>

definition path_names :: "string \<Rightarrow> string list" where
  "path_names p = [s \<leftarrow> split_on slash p. s \<noteq> []]"

text \<open>Iteration over a relative path: a trailing slash gives a last empty component.\<close>

definition path_filename :: "string \<Rightarrow> string" where
  "path_filename p = last (split_on slash p)"

definition path_components :: "string \<Rightarrow> string list" where
  "path_components p = path_names p @ (if p \<noteq> [] \<and> last p = slash then [[]] else [])"

text \<open>\<open>lexically_normal\<close>: the names kept so far are a stack.\<close>

fun normal_names :: "bool \<Rightarrow> string list \<Rightarrow> string list \<Rightarrow> string list" where
  "normal_names absolute kept [] = rev kept"
| "normal_names absolute kept (s # ss) =
     (if s = ''.'' then normal_names absolute kept ss
      else if s = ''..'' then
        (case kept of
           [] \<Rightarrow> normal_names absolute (if absolute then [] else [''..'']) ss
         | k # ks \<Rightarrow> normal_names absolute (if k = ''..'' then ''..'' # kept else ks) ss)
      else normal_names absolute (s # kept) ss)"

definition lexically_normal :: "string \<Rightarrow> string" where
  "lexically_normal p =
     (if p = [] then []
      else let absolute = is_absolute_path p;
               names = normal_names absolute [] (path_names p);
               trailing = (names \<noteq> [] \<and> last names \<noteq> ''..'' \<and> path_filename p \<in> {[], ''.'', ''..''})
        in if \<not> absolute \<and> names = [] then ''.''
           else (if absolute then [slash] else []) @ join_with slash names @ (if trailing then [slash] else []))"

definition parent_path :: "string \<Rightarrow> string" where
  "parent_path p =
     (let dir = rstrip (\<lambda>c. c \<noteq> slash) p; stem = rstrip (\<lambda>c. c = slash) dir
      in if stem = [] \<and> dir \<noteq> [] then [slash] else stem)"

section \<open>The workspace's temporary root\<close>

text \<open>\<open>weakly_canonical\<close> and \<open>absolute\<close>, \<open>None\<close> when they report an error.\<close>

record scope_fs =
  sc_weakly_canonical :: "string \<Rightarrow> string option"
  sc_absolute :: "string \<Rightarrow> string option"

definition normalized_path_for_scope :: "scope_fs \<Rightarrow> string \<Rightarrow> string \<Rightarrow> string" where
  "normalized_path_for_scope fs raw cwd =
     (if raw = [] then []
      else if \<not> is_absolute_path raw \<and> cwd = [] then []
      else let path = (if is_absolute_path raw then raw else path_append cwd raw);
               normalized = (case sc_weakly_canonical fs path of
                   Some c \<Rightarrow> c
                 | None \<Rightarrow> (case sc_absolute fs path of Some a \<Rightarrow> a | None \<Rightarrow> path));
               text = lexically_normal normalized;
               body = (if prefix ''//?/'' text then drop 4 text else text);
               stripped = rstrip (\<lambda>c. c = slash) body
        in if body \<noteq> [] \<and> stripped = [] then [slash] else stripped)"

definition is_workspace_scratch_path :: "scope_fs \<Rightarrow> string \<Rightarrow> string \<Rightarrow> string \<Rightarrow> bool" where
  "is_workspace_scratch_path fs scratch_dir cwd file_path =
     (if file_path = [] \<or> scratch_dir = [] then False
      else let scratch_root = parent_path scratch_dir
        in if scratch_root = [] then False
           else let file = normalized_path_for_scope fs file_path cwd;
                    root = normalized_path_for_scope fs scratch_root cwd
             in if file = [] \<or> root = [] then False
                else file = root \<or>
                  (length file > length root \<and> take (length root) file = root \<and> file ! length root = slash))"

section \<open>The alias\<close>

definition scratch_path_aliases :: "string list" where
  "scratch_path_aliases = [''%ACECODE_TMPDIR%'', ''${ACECODE_TMPDIR}'', ''$ACECODE_TMPDIR'']"

text \<open>\<open>find_ascii_case_insensitive\<close> for a needle that is not empty.\<close>

definition find_ascii_case_insensitive :: "string \<Rightarrow> string \<Rightarrow> nat option" where
  "find_ascii_case_insensitive s needle =
     (if needle = [] \<or> length s < length needle then None else str_find (ascii_lower needle) (ascii_lower s))"

text \<open>The loop over the spellings; the offset \<open>npos\<close> is \<open>None\<close>.\<close>

definition earlier_alias :: "string \<Rightarrow> string \<Rightarrow> (nat \<times> nat) option \<Rightarrow> (nat \<times> nat) option" where
  "earlier_alias s alias found =
     (case find_ascii_case_insensitive s alias of
        None \<Rightarrow> found
      | Some off \<Rightarrow>
          (case found of
             None \<Rightarrow> Some (off, length alias)
           | Some (first, len) \<Rightarrow> if off < first then Some (off, length alias) else found))"

definition find_first_scratch_alias :: "string \<Rightarrow> (nat \<times> nat) option" where
  "find_first_scratch_alias s = fold (earlier_alias s) scratch_path_aliases None"

definition references_scratch_path_alias :: "string \<Rightarrow> bool" where
  "references_scratch_path_alias s \<longleftrightarrow> find_first_scratch_alias s \<noteq> None"

definition scratch_path_error :: "string \<Rightarrow> string" where
  "scratch_path_error msg = ''[Error] Invalid parameter file_path: '' @ msg"

text \<open>The checks on what follows the alias: the file below the scratch directory, or the error.\<close>

definition scratch_suffix :: "string \<Rightarrow> string + string" where
  "scratch_suffix after_alias =
     (if after_alias = [] \<or> (hd after_alias \<noteq> slash \<and> hd after_alias \<noteq> backslash)
      then Inl (scratch_path_error ''ACECODE_TMPDIR file paths must include a file name after the alias prefix.'')
      else let suffix = dropWhile (\<lambda>c. c = slash \<or> c = backslash) after_alias
        in if suffix = []
           then Inl (scratch_path_error ''ACECODE_TMPDIR file paths must include a file name after the alias prefix.'')
           else if references_scratch_path_alias suffix
           then Inl (scratch_path_error ''ACECODE_TMPDIR may appear only once as the leading file-tool path component.'')
           else let relative = forward_slashes suffix
             in if is_absolute_path relative
                then Inl (scratch_path_error ''ACECODE_TMPDIR file paths must remain relative to the session scratch directory.'')
                else if ''..'' \<in> set (path_components relative)
                then Inl (scratch_path_error ''ACECODE_TMPDIR file paths cannot contain parent traversal components.'')
                else if path_filename relative = [] \<or> path_filename relative = ''.''
                then Inl (scratch_path_error ''ACECODE_TMPDIR file paths must identify a file beneath the session scratch directory.'')
                else Inr relative)"

text \<open>The scratch directory made absolute.\<close>

definition scratch_root_of :: "string \<Rightarrow> string \<Rightarrow> string + string" where
  "scratch_root_of scratch_dir cwd =
     (let err = Inl (scratch_path_error
            ''ACECODE_TMPDIR cannot be resolved without an absolute scratch directory or working directory.'')
      in if \<not> is_absolute_path scratch_dir \<and> cwd = [] then err
         else let root = lexically_normal (if is_absolute_path scratch_dir then scratch_dir else path_append cwd scratch_dir)
           in if is_absolute_path root then Inr root else err)"

text \<open>The path to use and whether it came from the alias, or the error.\<close>

definition resolve_scratch_path_alias :: "string \<Rightarrow> string \<Rightarrow> string \<Rightarrow> string + string \<times> bool" where
  "resolve_scratch_path_alias scratch_dir cwd file_path =
     (case find_first_scratch_alias file_path of
        None \<Rightarrow> Inr (file_path, False)
      | Some (off, len) \<Rightarrow>
          if off \<noteq> 0
          then Inl (scratch_path_error ''ACECODE_TMPDIR must be the first path component when used with file tools.'')
          else if scratch_dir = []
          then Inl (scratch_path_error
            ''ACECODE_TMPDIR is unavailable for this tool call; use an absolute path or retry in an active session.'')
          else case scratch_suffix (drop len file_path) of
            Inl err \<Rightarrow> Inl err
          | Inr relative \<Rightarrow>
              (case scratch_root_of scratch_dir cwd of
                 Inl err \<Rightarrow> Inl err
               | Inr root \<Rightarrow> Inr (lexically_normal (path_append root relative), True)))"

section \<open>Paths and their names\<close>

lemma names_append_slash: "path_names (p @ slash # r) = path_names p @ path_names r"
proof -
  have "split_on slash (p @ slash # r) = split_on slash p @ split_on slash r"
    by (induction p) (auto split: list.splits)
  then show ?thesis by (simp add: path_names_def)
qed

lemma names_simps [simp]:
  "path_names [] = []"
  "path_names (slash # p) = path_names p"
  using names_append_slash [of "[]" p] by (simp_all add: path_names_def)

lemma names_snoc_slash [simp]: "path_names (p @ [slash]) = path_names p"
  using names_append_slash [of p "[]"] by simp

lemma names_are_names: "s \<in> set (path_names p) \<Longrightarrow> s \<noteq> [] \<and> slash \<notin> set s"
  using split_on_no_sep [of s slash p] by (auto simp: path_names_def)

lemma names_append:
  assumes "\<not> is_absolute_path r"
  shows "path_names (path_append p r) = path_names p @ path_names r"
proof (cases "p = [] \<or> last p \<noteq> slash")
  case True
  with assms show ?thesis by (auto simp: path_append_def names_append_slash)
next
  case False
  then have p: "p = butlast p @ [slash]" by (metis append_butlast_last_id)
  then have "path_append p r = butlast p @ slash # r" using assms False
    unfolding path_append_def by (metis append.assoc append_Cons append_Nil)
  then show ?thesis by (subst (2) p) (simp add: names_append_slash)
qed

lemma names_join:
  "(\<forall>s\<in>set ns. s \<noteq> [] \<and> slash \<notin> set s) \<Longrightarrow> path_names (join_with slash ns) = ns"
proof (induction slash ns rule: join_with.induct)
  case (2 s)
  then show ?case by (simp add: path_names_def split_on_sepfree)
next
  case (3 s t ss)
  then have "path_names s = [s]" by (simp add: path_names_def split_on_sepfree)
  with 3 show ?case by (simp add: names_append_slash)
qed simp

lemma normal_names_sub: "set (normal_names a kept ss) \<subseteq> set kept \<union> set ss \<union> {''..''}"
proof (induction a kept ss rule: normal_names.induct)
  case (2 a kept s ss)
  then show ?case by (cases kept) (auto split: if_splits)
qed auto

lemma normal_names_absolute:
  "set kept \<inter> {''.'', ''..''} = {} \<Longrightarrow> set (normal_names True kept ss) \<inter> {''.'', ''..''} = {}"
proof (induction True kept ss rule: normal_names.induct)
  case (2 kept s ss)
  then show ?case by (cases kept) (auto split: if_splits)
qed simp

lemma normal_names_plain:
  "''..'' \<notin> set ss \<Longrightarrow> normal_names a kept ss = rev kept @ [s \<leftarrow> ss. s \<noteq> ''.'']"
  by (induction ss arbitrary: kept) auto

lemma absolute_append [simp]: "is_absolute_path p \<Longrightarrow> is_absolute_path (p @ r)"
  by (simp add: is_absolute_path_def)

lemma names_lexically_normal:
  assumes "is_absolute_path p"
  shows "path_names (lexically_normal p) = normal_names True [] (path_names p)"
    and "is_absolute_path (lexically_normal p)"
proof -
  let ?ns = "normal_names True [] (path_names p)"
  have "\<forall>s\<in>set ?ns. s \<noteq> [] \<and> slash \<notin> set s"
    using normal_names_sub [of True "[]" "path_names p"] names_are_names [of _ p] by fastforce
  then have "path_names (join_with slash ?ns) = ?ns" by (rule names_join)
  moreover have "p \<noteq> []" using assms by (auto simp: is_absolute_path_def)
  then obtain tl where "lexically_normal p = slash # join_with slash ?ns @ tl" "tl = [] \<or> tl = [slash]"
    using assms by (simp add: lexically_normal_def Let_def)
  ultimately show "path_names (lexically_normal p) = ?ns" "is_absolute_path (lexically_normal p)"
    by (auto simp: is_absolute_path_def)
qed

lemma lexically_normal_no_dots:
  "is_absolute_path p \<Longrightarrow> set (path_names (lexically_normal p)) \<inter> {''.'', ''..''} = {}"
  using normal_names_absolute [of "[]"] by (simp add: names_lexically_normal)

lemma lexically_normal_absolute_iff: "is_absolute_path (lexically_normal p) \<longleftrightarrow> is_absolute_path p"
proof (cases "is_absolute_path p \<or> p = []")
  case True
  then show ?thesis
    by (elim disjE) (simp_all add: names_lexically_normal, simp add: lexically_normal_def is_absolute_path_def)
next
  case False
  let ?ns = "normal_names False [] (path_names p)"
  have "\<forall>s\<in>set ?ns. s \<noteq> [] \<and> slash \<notin> set s"
    using normal_names_sub [of False "[]" "path_names p"] names_are_names [of _ p] by fastforce
  then have "\<not> is_absolute_path (join_with slash ?ns @ r)" if "?ns \<noteq> []" for r
    using that by (cases ?ns rule: remdups_adj.cases) (auto simp: is_absolute_path_def neq_Nil_conv)
  with False show ?thesis by (auto simp: lexically_normal_def Let_def is_absolute_path_def)
qed

section \<open>Confinement\<close>

definition strictly_below :: "string \<Rightarrow> string \<Rightarrow> bool" where
  "strictly_below root p \<longleftrightarrow> is_absolute_path p \<and> set (path_names p) \<inter> {''.'', ''..''} = {} \<and>
     (\<exists>more. more \<noteq> [] \<and> path_names p = path_names root @ more)"

lemma path_names_filename: "path_filename p \<noteq> [] \<Longrightarrow> path_filename p \<in> set (path_names p)"
  by (simp add: path_filename_def path_names_def)

lemma scratch_suffix_plain:
  assumes "scratch_suffix after = Inr relative"
  shows "\<not> is_absolute_path relative \<and> ''..'' \<notin> set (path_names relative) \<and>
    [s \<leftarrow> path_names relative. s \<noteq> ''.''] \<noteq> []"
proof -
  from assms have p: "\<not> is_absolute_path relative" "''..'' \<notin> set (path_components relative)"
      "path_filename relative \<noteq> []" "path_filename relative \<noteq> ''.''"
    by (auto simp: scratch_suffix_def Let_def split: if_splits)
  with path_names_filename [of relative] have "[s \<leftarrow> path_names relative. s \<noteq> ''.''] \<noteq> []"
    by (auto simp: filter_empty_conv)
  with p show ?thesis by (simp add: path_components_def)
qed

text \<open>An alias cannot leave the scratch directory: a path resolved from one is absolute, free of
  dot components, and its names are those of the normalized scratch directory followed by at least
  one more.\<close>

lemma scratch_alias_confined:
  assumes "resolve_scratch_path_alias scratch_dir cwd file_path = Inr (p, True)"
  shows "\<exists>root. scratch_root_of scratch_dir cwd = Inr root \<and> is_absolute_path root \<and> strictly_below root p"
proof -
  from assms obtain after relative root
    where s: "scratch_suffix after = Inr relative" and r: "scratch_root_of scratch_dir cwd = Inr root"
      and p: "p = lexically_normal (path_append root relative)"
    by (auto simp: resolve_scratch_path_alias_def split: option.splits if_splits sum.splits)
  from r have a: "is_absolute_path root"
    by (auto simp: scratch_root_of_def Let_def split: if_splits)
  from r obtain q where q: "root = lexically_normal q"
    by (auto simp: scratch_root_of_def Let_def split: if_splits)
  with a have no_dots: "set (path_names root) \<inter> {''.'', ''..''} = {}"
    using lexically_normal_no_dots lexically_normal_absolute_iff by metis
  have plain: "\<not> is_absolute_path relative" "''..'' \<notin> set (path_names relative)"
    "[s \<leftarrow> path_names relative. s \<noteq> ''.''] \<noteq> []"
    using scratch_suffix_plain [OF s] by simp_all
  have ja: "is_absolute_path (path_append root relative)"
    using a plain(1) by (simp add: path_append_def)
  have "path_names p = path_names root @ [s \<leftarrow> path_names relative. s \<noteq> ''.'']"
    using plain no_dots by (simp add: p names_lexically_normal [OF ja] names_append normal_names_plain filter_id_conv)
      (metis (mono_tags, lifting) disjoint_iff filter_id_conv insertI1)
  with plain(3) have "strictly_below root p"
    using lexically_normal_no_dots [OF ja] ja by (auto simp: strictly_below_def p lexically_normal_absolute_iff)
  with r a show ?thesis by blast
qed

text \<open>A path without an alias is used as it is, and only such a path is.\<close>

lemma resolve_plain_path:
  "resolve_scratch_path_alias scratch_dir cwd p = Inr (q, False) \<longleftrightarrow> \<not> references_scratch_path_alias p \<and> q = p"
  by (auto simp: resolve_scratch_path_alias_def references_scratch_path_alias_def
      split: option.splits if_splits sum.splits)

lemma scratch_alias_confined_witness:
  "resolve_scratch_path_alias ''tmp/../t'' ''/w'' ''$acecode_tmpdir/./a/b.py'' = Inr (''/w/t/a/b.py'', True) \<and>
   strictly_below ''/w/t'' ''/w/t/a/b.py''"
proof -
  have e: "resolve_scratch_path_alias ''tmp/../t'' ''/w'' ''$acecode_tmpdir/./a/b.py'' = Inr (''/w/t/a/b.py'', True)"
    by code_simp
  have "scratch_root_of ''tmp/../t'' ''/w'' = Inr ''/w/t''" by code_simp
  with scratch_alias_confined [OF e] e show ?thesis by simp
qed

end
