(* ===== verification/FileEdit.thy ===== *)
theory FileEdit
  imports MtimeTracker TextBuffer ScratchPath Diff
begin

text \<open>
  \<open>tool/file_edit_tool.cpp\<close> and \<open>tool/file_write_tool.cpp\<close>: the two tools that change files.  They put
  the read tracker, the text buffer, the scratch alias and the line diff together, and the model composes
  the theories of those parts in the same way.  The state is the tracker, the contents of the files and
  the calls of the checkpoint hook (whether it returned or threw, and what it then saved, is outside: see
  \<open>Checkpoints\<close>); what the operating system answers is the record \<open>edit_env\<close>.  A call that
  ends with an exception (\<open>exists\<close> or \<open>file_size\<close> may throw) has no result.

  The lemmas say where a search text matches, also across straight and curly quotes, that an edit replaces
  exactly the match, that replacing all occurrences is joining the pieces between them, that no file
  changes without a baseline of its present content, and that an edit leaves a baseline for the next one.
\<close>

section \<open>Results and messages\<close>

record tool_summary =
  ts_verb :: string
  ts_object :: string
  ts_metrics :: "(string \<times> string) list"
  ts_icon :: string

record edit_result =
  er_output :: string
  er_success :: bool
  er_summary :: "tool_summary option"
  er_hunks :: "diff_hunk list option"

definition plain_result :: "string \<Rightarrow> bool \<Rightarrow> edit_result" where
  "plain_result out ok = \<lparr>er_output = out, er_success = ok, er_summary = None, er_hunks = None\<rparr>"

definition missing_parameter :: "string \<Rightarrow> string" where
  "missing_parameter name = ''[Error] Required parameter missing: '' @ name"

definition file_not_found :: "string \<Rightarrow> string \<Rightarrow> string" where
  "file_not_found path cwd = ''[Error] File not found: '' @ path @
     (if cwd \<noteq> [] then ch_lf # ''Current directory: '' @ cwd else [])"

definition file_too_large_for_edit :: "nat \<Rightarrow> nat \<Rightarrow> string \<Rightarrow> string" where
  "file_too_large_for_edit size_mb limit_mb suggestion =
     ''[Error] File is too large to edit safely as one in-memory operation ('' @ show_nat size_mb @
     ''MiB; edit limit '' @ show_nat limit_mb @ ''MiB).'' @ (if suggestion \<noteq> [] then '' '' @ suggestion else [])"

definition external_modification :: "string \<Rightarrow> string" where
  "external_modification path = ''[Error] File was modified externally since it was last read. '' @
     ''Re-read the file before writing to avoid data loss: '' @ path"

definition file_not_read_for_edit :: "string \<Rightarrow> string" where
  "file_not_read_for_edit path = ''[Error] File has not been read yet. Read the target file with file_read '' @
     ''before editing it: '' @ path"

definition file_read_not_safe_for_edit :: "string \<Rightarrow> string" where
  "file_read_not_safe_for_edit path = ''[Error] File read is not safe enough to edit. Re-read the target file '' @
     ''with non-lossy text decoding before editing it: '' @ path"

definition no_changes_to_make :: string where
  "no_changes_to_make = ''[Error] No changes to make: old_string and new_string are exactly the same.''"

definition cannot_create_file_exists :: "string \<Rightarrow> string" where
  "cannot_create_file_exists path = ''[Error] Cannot create new file - file already exists: '' @ path"

definition notebook_edit_required :: "string \<Rightarrow> string" where
  "notebook_edit_required path =
     ''[Error] File is a Jupyter Notebook. Use a notebook-specific editor instead of file_edit: '' @ path"

definition string_not_found :: "string \<Rightarrow> string" where
  "string_not_found path = ''[Error] old_string not found in '' @ path @
     ''. Re-read the current file content with file_read and retry with '' @
     ''an exact old_string including enough surrounding whitespace and '' @
     ''indentation to identify the target.''"

definition legacy_range_edit_arguments :: "string \<Rightarrow> string" where
  "legacy_range_edit_arguments path = ''[Error] file_edit no longer supports start_line, end_line, '' @
     ''expected_hash, or read_id arguments. Read the current file content '' @
     ''with file_read and retry with an exact old_string replacement: '' @ path"

definition string_not_unique :: "nat \<Rightarrow> string \<Rightarrow> string" where
  "string_not_unique count path = ''[Error] old_string found '' @ show_nat count @ '' times in '' @ path @
     ''. Include more surrounding lines '' @
     ''to uniquely identify the target location, or set replace_all to true '' @
     ''to replace every occurrence.''"

section \<open>Arguments\<close>

text \<open>\<open>get_or\<close> of the argument parser: the value, unless it is missing or not a string.\<close>

definition get_string_or :: "json \<Rightarrow> string \<Rightarrow> string \<Rightarrow> string" where
  "get_string_or j key dflt = (case string_field j key of Some s \<Rightarrow> s | None \<Rightarrow> dflt)"

definition ends_with_ipynb :: "string \<Rightarrow> bool" where
  "ends_with_ipynb path \<longleftrightarrow> suffix ''.ipynb'' (ascii_lower path)"

definition is_blank_content :: "string \<Rightarrow> bool" where
  "is_blank_content content \<longleftrightarrow> list_all is_space content"

definition ascii_lower_trim :: "string \<Rightarrow> string" where
  "ascii_lower_trim s = ascii_lower (trim_by is_space s)"

definition parse_semantic_bool :: "json \<Rightarrow> string \<Rightarrow> bool \<Rightarrow> bool" where
  "parse_semantic_bool j key dflt =
     (case field j key of
        None \<Rightarrow> dflt
      | Some (JBool b) \<Rightarrow> b
      | Some (JInt i) \<Rightarrow> wrap_signed 32 i \<noteq> 0
      | Some (JStr s) \<Rightarrow>
          (let text = ascii_lower_trim s
           in if text \<in> {''true'', ''1'', ''yes'', ''on''} then True
              else if text \<in> {''false'', ''0'', ''no'', ''off''} then False
              else dflt)
      | Some _ \<Rightarrow> dflt)"

definition has_legacy_range_args :: "json \<Rightarrow> bool" where
  "has_legacy_range_args j \<longleftrightarrow>
     is_object j \<and> list_ex (\<lambda>k. field j k \<noteq> None) [''start_line'', ''end_line'', ''expected_hash'', ''read_id'']"

section \<open>Finding the match\<close>

definition file_uses_crlf :: "string \<Rightarrow> bool" where
  "file_uses_crlf content \<longleftrightarrow> contains content [ch_cr, ch_lf]"

definition lf_to_crlf :: "string \<Rightarrow> string" where
  "lf_to_crlf s = concat (map (\<lambda>i. if s ! i = ch_lf \<and> (i = 0 \<or> s ! (i - 1) \<noteq> ch_cr) then [ch_cr, ch_lf] else [s ! i])
     [0..<length s])"

definition left_single :: string where "left_single = map byte_char [0xE2, 0x80, 0x98]"
definition right_single :: string where "right_single = map byte_char [0xE2, 0x80, 0x99]"
definition left_double :: string where "left_double = map byte_char [0xE2, 0x80, 0x9C]"
definition right_double :: string where "right_double = map byte_char [0xE2, 0x80, 0x9D]"

text \<open>The loop of \<open>normalize_quotes_with_offsets\<close> at byte \<open>i\<close>: for every byte of the normalized text
  the byte, where it starts and where it ends in the original.\<close>

fun quote_scan :: "nat \<Rightarrow> string \<Rightarrow> (char \<times> nat \<times> nat) list" where
  "quote_scan i [] = []"
| "quote_scan i (c # cs) =
     (if prefix left_single (c # cs) \<or> prefix right_single (c # cs)
      then (squote, i, i + 3) # quote_scan (i + 3) (drop 2 cs)
      else if prefix left_double (c # cs) \<or> prefix right_double (c # cs)
      then (dquote, i, i + 3) # quote_scan (i + 3) (drop 2 cs)
      else (c, i, i + 1) # quote_scan (i + 1) cs)"

record quote_normalized_text =
  qn_text :: string
  qn_start_offsets :: "nat list"
  qn_end_offsets :: "nat list"

definition normalize_quotes_with_offsets :: "string \<Rightarrow> quote_normalized_text" where
  "normalize_quotes_with_offsets s =
     \<lparr>qn_text = map fst (quote_scan 0 s), qn_start_offsets = map (fst \<circ> snd) (quote_scan 0 s),
      qn_end_offsets = map (snd \<circ> snd) (quote_scan 0 s)\<rparr>"

definition normalize_quotes :: "string \<Rightarrow> string" where
  "normalize_quotes s = qn_text (normalize_quotes_with_offsets s)"

definition find_actual_string_by_quotes :: "string \<Rightarrow> string \<Rightarrow> string option" where
  "find_actual_string_by_quotes content search =
     (if search = [] then None
      else let nc = normalize_quotes_with_offsets content; ns = normalize_quotes search
        in case str_find ns (qn_text nc) of
             None \<Rightarrow> None
           | Some found \<Rightarrow>
               (if ns = [] then None
                else let final = found + length ns - 1
                  in if found \<ge> length (qn_start_offsets nc) \<or> final \<ge> length (qn_end_offsets nc) then None
                     else let start = qn_start_offsets nc ! found; stop = qn_end_offsets nc ! final
                       in if stop < start \<or> stop > length content then None
                          else Some (take (stop - start) (drop start content))))"

definition is_opening_quote_context :: "string \<Rightarrow> nat \<Rightarrow> bool" where
  "is_opening_quote_context s i \<longleftrightarrow> i = 0 \<or>
     s ! (i - 1) \<in> {CHR '' '', CHR 0x09, ch_lf, ch_cr, CHR ''('', CHR ''['', CHR ''{''}"

definition apply_curly_double_quotes :: "string \<Rightarrow> string" where
  "apply_curly_double_quotes s = concat (map (\<lambda>i.
     if s ! i = dquote then (if is_opening_quote_context s i then left_double else right_double) else [s ! i])
     [0..<length s])"

definition apply_curly_single_quotes :: "string \<Rightarrow> string" where
  "apply_curly_single_quotes s = concat (map (\<lambda>i.
     if s ! i = squote then
       (if i > 0 \<and> i + 1 < length s \<and> is_alpha (s ! (i - 1)) \<and> is_alpha (s ! (i + 1)) then right_single
        else if is_opening_quote_context s i then left_single else right_single)
     else [s ! i]) [0..<length s])"

definition preserve_quote_style :: "string \<Rightarrow> string \<Rightarrow> string \<Rightarrow> string" where
  "preserve_quote_style requested_old actual_old requested_new =
     (if requested_old = actual_old then requested_new
      else let r1 = (if contains actual_old left_double \<or> contains actual_old right_double
                     then apply_curly_double_quotes requested_new else requested_new)
        in if contains actual_old left_single \<or> contains actual_old right_single
           then apply_curly_single_quotes r1 else r1)"

text \<open>The text to replace, as it is in the file, and its replacement.\<close>

definition build_match_plan :: "string \<Rightarrow> string \<Rightarrow> string \<Rightarrow> (string \<times> string) option" where
  "build_match_plan content requested_old requested_new =
     (let by_quotes = (\<lambda>old new. map_option (\<lambda>actual. (actual, preserve_quote_style old actual new))
                         (find_actual_string_by_quotes content old));
          plain = by_quotes requested_old requested_new
      in if contains content requested_old then Some (requested_old, requested_new)
         else if file_uses_crlf content \<and> ch_lf \<in> set requested_old then
           (let old_crlf = lf_to_crlf requested_old; new_crlf = lf_to_crlf requested_new
            in if contains content old_crlf then Some (old_crlf, new_crlf)
               else case by_quotes old_crlf new_crlf of Some plan \<Rightarrow> Some plan | None \<Rightarrow> plain)
         else plain)"

section \<open>Replacing\<close>

text \<open>The loops search from a position; here the text before the position is dropped.\<close>

lemma rest_shorter:
  "needle \<noteq> [] \<Longrightarrow> str_find needle hay = Some i \<Longrightarrow> length hay - (i + length needle) < length hay"
  using str_find_SomeD [of needle hay i] by (cases needle) auto

function count_occurrences :: "string \<Rightarrow> string \<Rightarrow> nat" where
  "count_occurrences content needle =
     (if needle = [] then 0
      else case str_find needle content of
        None \<Rightarrow> 0
      | Some i \<Rightarrow> 1 + count_occurrences (drop (i + length needle) content) needle)"
  by pat_completeness auto
termination
  by (relation "measure (length \<circ> fst)") (auto dest: rest_shorter)

declare count_occurrences.simps [simp del]

text \<open>With the empty needle the loop would not end; no caller passes it (\<open>plan_needle_not_empty\<close>).\<close>

function replace_from :: "string \<Rightarrow> string \<Rightarrow> string \<Rightarrow> string" where
  "replace_from content needle replacement =
     (if needle = [] then content
      else case str_find needle content of
        None \<Rightarrow> content
      | Some i \<Rightarrow> take i content @ replacement @ replace_from (drop (i + length needle) content) needle replacement)"
  by pat_completeness auto
termination
  by (relation "measure (length \<circ> fst)") (auto dest: rest_shorter)

declare replace_from.simps [simp del]

definition replace_occurrences :: "string \<Rightarrow> string \<Rightarrow> string \<Rightarrow> bool \<Rightarrow> string" where
  "replace_occurrences content needle replacement replace_all =
     (case str_find needle content of
        None \<Rightarrow> content
      | Some i \<Rightarrow>
          if \<not> replace_all then take i content @ replacement @ drop (i + length needle) content
          else replace_from content needle replacement)"

section \<open>State and environment\<close>

record edit_state =
  ed_tracker :: tracker
  ed_files :: "string \<Rightarrow> string option"
  ed_hook_calls :: "(string \<times> string option \<times> bool) list"

text \<open>The parser of the arguments (left: its error text), the context of the call, what the file system
  answers before and after the write, whether \<open>exists\<close> and \<open>file_size\<close> throw, the outcomes of reading
  and writing, the checkpoint hook, if one is set (whether it returns or throws for a path), the current directory, the icon of a tool, and what the
  language server's diagnostics make of the output.\<close>

record edit_env =
  ee_parse :: "string \<Rightarrow> string + json"
  ee_scratch_dir :: string
  ee_cwd :: string
  ee_current_path :: string
  ee_exists_throws :: bool
  ee_size_throws :: bool
  ee_can_read :: bool
  ee_io :: io_outcomes
  ee_fs :: tracker_fs
  ee_fs_after :: tracker_fs
  ee_checkpoint_hook :: "(string \<Rightarrow> bool) option"
  ee_icon :: "string \<Rightarrow> string"
  ee_diagnostics :: "string \<Rightarrow> string \<Rightarrow> string"

definition max_edit_file_size :: nat where
  "max_edit_file_size = 10 * 1024 * 1024"

definition check_edit_file_size :: "nat \<Rightarrow> string \<Rightarrow> edit_result option" where
  "check_edit_file_size file_size suggestion =
     (if file_size > max_edit_file_size
      then Some (plain_result (file_too_large_for_edit (file_size div (1024 * 1024)) (max_edit_file_size div (1024 * 1024))
             suggestion) False)
      else None)"

text \<open>The hook runs inside \<open>safe_write_text_file\<close>, after the text is encoded and the old bytes are
  read and before anything is written, so the file has its old content when it is called.  What is kept is the path,
  that content and whether the hook returned; an exception of it is logged and the write goes on.\<close>

definition run_checkpoint_hook :: "edit_env \<Rightarrow> string \<Rightarrow> string \<Rightarrow> text_metadata \<Rightarrow> edit_state \<Rightarrow> edit_state" where
  "run_checkpoint_hook env path text metadata st =
     (case encode_text_for_write text metadata of
        Inl _ \<Rightarrow> st
      | Inr _ \<Rightarrow>
          if ed_files st path = None \<or> io_first_read (ee_io env)
          then (case ee_checkpoint_hook env of
                  None \<Rightarrow> st
                | Some returns \<Rightarrow> st\<lparr>ed_hook_calls := ed_hook_calls st @ [(path, ed_files st path, returns path)]\<rparr>)
          else st)"

definition checked_write ::
  "edit_env \<Rightarrow> string \<Rightarrow> string \<Rightarrow> text_metadata \<Rightarrow> edit_state \<Rightarrow> safe_write_result \<times> edit_state" where
  "checked_write env path text metadata st =
     (case safe_write_text_file (ee_io env) path text metadata (ed_files st path) of
        (r, disk') \<Rightarrow> (r, (run_checkpoint_hook env path text metadata st)\<lparr>ed_files := (ed_files st)(path := disk')\<rparr>))"

definition note_write :: "edit_env \<Rightarrow> string \<Rightarrow> string \<Rightarrow> edit_state \<Rightarrow> edit_state" where
  "note_write env path text st = st\<lparr>ed_tracker := record_write (ee_fs_after env) path (Some text) (ed_tracker st)\<rparr>"

definition diff_metrics :: "diff_stats \<Rightarrow> (string \<times> string) list" where
  "diff_metrics stats = [(''+'', show_nat (additions stats)), (''-'', show_nat (deletions stats))]"

definition run_validated_write ::
  "edit_env \<Rightarrow> string \<Rightarrow> bool \<Rightarrow> string \<Rightarrow> string \<Rightarrow> text_metadata \<Rightarrow> edit_state \<Rightarrow> edit_result \<times> edit_state" where
  "run_validated_write env path file_existed old_content new_content metadata st =
     (case checked_write env path new_content metadata st of
        (w, st1) \<Rightarrow>
          if \<not> sw_success w then (plain_result (sw_error w) False, st1)
          else case generate_unified_diff old_content new_content path of
            (diff, stats) \<Rightarrow>
              (\<lparr>er_output = ee_diagnostics env path
                  ((if file_existed then ''Edited '' else ''Created file: '') @ path @ [ch_lf, ch_lf] @ diff),
                er_success = True,
                er_summary = Some \<lparr>ts_verb = (if file_existed then ''Edited'' else ''Created''), ts_object = path,
                  ts_metrics = diff_metrics stats, ts_icon = ee_icon env ''file_edit''\<rparr>,
                er_hunks = Some (generate_structured_diff old_content new_content)\<rparr>,
               note_write env path new_content st1))"

definition make_old_string_not_found_result :: "string \<Rightarrow> string \<Rightarrow> string \<Rightarrow> edit_result" where
  "make_old_string_not_found_result path normalized_content requested_old =
     (let first_line = trim_by is_space (takeWhile (\<lambda>c. c \<noteq> ch_lf) (normalize_text_to_lf requested_old));
          message = string_not_found path @ [ch_lf] @
            ''ACECode matches old_string against UTF-8 text with LF line endings. '' @
            ''Re-read the relevant lines and retry with the exact current text '' @
            ''instead of shell or Python writes.'';
          hint = (if first_line = [] then []
                  else case str_find first_line normalized_content of
                    None \<Rightarrow> []
                  | Some pos \<Rightarrow> ch_lf # ''A substring from old_string appears near line '' @
                      show_nat (1 + count_list (take pos normalized_content) ch_lf) @
                      ''. Re-read a narrow range around that line and include more surrounding text.'')
      in plain_result (message @ hint) False)"

section \<open>The tools\<close>

definition baseline_error :: "string \<Rightarrow> baseline_status \<Rightarrow> string option" where
  "baseline_error path status =
     (case status of
        BaselineOk \<Rightarrow> None
      | NotRead \<Rightarrow> Some (file_not_read_for_edit path)
      | UnsafeRead \<Rightarrow> Some (file_read_not_safe_for_edit path)
      | ExternallyModified \<Rightarrow> Some (external_modification path))"

text \<open>The text of an existing file, or the refusal: a file that was read lossily is reported as such.\<close>

definition load_for_write :: "edit_env \<Rightarrow> string \<Rightarrow> edit_state \<Rightarrow> string + text_buffer" where
  "load_for_write env path st =
     (let r = read_text_file_buffer (ee_can_read env) path False (ed_files st path)
      in if br_success r then Inr (br_buffer r)
         else case read_metadata_of (ee_fs env) path (ed_tracker st) of
           Some m \<Rightarrow> if md_lossy m then Inl (file_read_not_safe_for_edit path) else Inl (br_error r)
         | None \<Rightarrow> Inl (br_error r))"

text \<open>From a checked buffer to the file: the plan, the count, the replacement.\<close>

definition apply_edit ::
  "edit_env \<Rightarrow> string \<Rightarrow> text_buffer \<Rightarrow> string \<Rightarrow> string \<Rightarrow> bool \<Rightarrow> edit_state \<Rightarrow> edit_result \<times> edit_state" where
  "apply_edit env path buffer old_string new_string replace_all st =
     (let text = tb_text buffer
      in case build_match_plan text (normalize_text_to_lf old_string) (normalize_text_to_lf new_string) of
           None \<Rightarrow> (make_old_string_not_found_result path text old_string, st)
         | Some (actual_old, actual_new) \<Rightarrow>
             (let count = count_occurrences text actual_old
              in if count = 0 then (make_old_string_not_found_result path text old_string, st)
                 else if count > 1 \<and> \<not> replace_all then (plain_result (string_not_unique count path) False, st)
                 else run_validated_write env path True text
                        (replace_occurrences text actual_old actual_new replace_all) (tb_metadata buffer) st))"

definition edit_existing ::
  "edit_env \<Rightarrow> string \<Rightarrow> string \<Rightarrow> string \<Rightarrow> bool \<Rightarrow> edit_state \<Rightarrow> edit_result \<times> edit_state" where
  "edit_existing env path old_string new_string replace_all st =
     (case load_for_write env path st of
        Inl err \<Rightarrow> (plain_result err False, st)
      | Inr buffer \<Rightarrow>
          if old_string = [] then
            (if \<not> is_blank_content (tb_text buffer) then (plain_result (cannot_create_file_exists path) False, st)
             else run_validated_write env path True (tb_text buffer) (normalize_text_to_lf new_string)
                    (tb_metadata buffer) st)
          else case baseline_error path (bc_status
                 (validate_read_baseline_for_edit (ee_fs env) path (tb_text buffer) (ed_tracker st))) of
            Some err \<Rightarrow> (plain_result err False, st)
          | None \<Rightarrow> apply_edit env path buffer old_string new_string replace_all st)"

definition edit_size_suggestion :: string where
  "edit_size_suggestion = ''Use bounded file_read or grep calls to inspect it. Large-file mutation is not supported.''"

text \<open>With the resolved path, under the write guard; \<open>None\<close> is an exception.\<close>

definition edit_at ::
  "edit_env \<Rightarrow> string \<Rightarrow> string \<Rightarrow> string \<Rightarrow> bool \<Rightarrow> edit_state \<Rightarrow> edit_result option \<times> edit_state" where
  "edit_at env path old_string new_string replace_all st =
     (if ee_exists_throws env then (None, st)
      else case ed_files st path of
        None \<Rightarrow>
          (if old_string \<noteq> []
           then (Some (plain_result (file_not_found path (ee_current_path env) @
                  ''. Use file_edit with empty old_string or file_write to create a new file.'') False), st)
           else apfst Some (run_validated_write env path False [] (normalize_text_to_lf new_string) fresh_metadata st))
      | Some bytes \<Rightarrow>
          if ee_size_throws env then (None, st)
          else case check_edit_file_size (length bytes) edit_size_suggestion of
            Some err \<Rightarrow> (Some err, st)
          | None \<Rightarrow> apfst Some (edit_existing env path old_string new_string replace_all st))"

text \<open>The checks that need no file: the request, or the error.\<close>

record edit_request =
  rq_path :: string
  rq_old :: string
  rq_new :: string
  rq_replace_all :: bool

definition parse_edit_request :: "edit_env \<Rightarrow> string \<Rightarrow> string + edit_request" where
  "parse_edit_request env arguments_json =
     (case ee_parse env arguments_json of
        Inl what \<Rightarrow> Inl (''Failed to parse tool arguments: '' @ what)
      | Inr j \<Rightarrow>
          (let file_path = get_string_or j ''file_path'' []; old_string = get_string_or j ''old_string'' [];
               new_string = get_string_or j ''new_string'' []
           in if file_path = [] then Inl (missing_parameter ''file_path'')
              else case resolve_scratch_path_alias (ee_scratch_dir env) (ee_cwd env) file_path of
                Inl err \<Rightarrow> Inl err
              | Inr (path, used_alias) \<Rightarrow>
                  if has_legacy_range_args j then Inl (legacy_range_edit_arguments path)
                  else if old_string = new_string then Inl no_changes_to_make
                  else if ends_with_ipynb path then Inl (notebook_edit_required path)
                  else Inr \<lparr>rq_path = path, rq_old = old_string, rq_new = new_string,
                    rq_replace_all = parse_semantic_bool j ''replace_all'' False\<rparr>))"

definition execute_file_edit :: "edit_env \<Rightarrow> string \<Rightarrow> edit_state \<Rightarrow> edit_result option \<times> edit_state" where
  "execute_file_edit env arguments_json st =
     (case parse_edit_request env arguments_json of
        Inl err \<Rightarrow> (Some (plain_result err False), st)
      | Inr rq \<Rightarrow> edit_at env (rq_path rq) (rq_old rq) (rq_new rq) (rq_replace_all rq) st)"

definition finish_file_write :: "edit_env \<Rightarrow> string \<Rightarrow> text_buffer option \<Rightarrow> string \<Rightarrow> edit_state \<Rightarrow> edit_result \<times> edit_state" where
  "finish_file_write env path old content st =
     (let normalized = normalize_text_to_lf content;
          metadata = (case old of None \<Rightarrow> fresh_metadata | Some b \<Rightarrow> tb_metadata b)
      in case checked_write env path normalized metadata st of
           (w, st1) \<Rightarrow>
             if \<not> sw_success w then (plain_result (sw_error w) False, st1)
             else (case old of
               None \<Rightarrow>
                 (let new_lines = count_list normalized ch_lf +
                        (if normalized \<noteq> [] \<and> last normalized \<noteq> ch_lf then 1 else 0)
                  in \<lparr>er_output = ee_diagnostics env path (''Created file: '' @ path), er_success = True,
                      er_summary = Some \<lparr>ts_verb = ''Created'', ts_object = path, ts_metrics = [(''+'', show_nat new_lines)],
                        ts_icon = ee_icon env ''file_write''\<rparr>,
                      er_hunks = Some (generate_structured_diff [] normalized)\<rparr>)
             | Some b \<Rightarrow>
                 (case generate_unified_diff (tb_text b) normalized path of
                    (diff, stats) \<Rightarrow>
                      \<lparr>er_output = ee_diagnostics env path (''Updated file: '' @ path @ [ch_lf, ch_lf] @ diff),
                       er_success = True,
                       er_summary = Some \<lparr>ts_verb = ''Wrote'', ts_object = path, ts_metrics = diff_metrics stats,
                         ts_icon = ee_icon env ''file_write''\<rparr>,
                       er_hunks = Some (generate_structured_diff (tb_text b) normalized)\<rparr>),
               note_write env path normalized st1))"

definition write_at :: "edit_env \<Rightarrow> string \<Rightarrow> string \<Rightarrow> edit_state \<Rightarrow> edit_result option \<times> edit_state" where
  "write_at env path content st =
     (if ee_exists_throws env then (None, st)
      else apfst Some
        (case ed_files st path of
           None \<Rightarrow> finish_file_write env path None content st
         | Some _ \<Rightarrow>
             (case load_for_write env path st of
                Inl err \<Rightarrow> (plain_result err False, st)
              | Inr buffer \<Rightarrow>
                  (case baseline_error path (bc_status
                      (validate_read_baseline_for_edit (ee_fs env) path (tb_text buffer) (ed_tracker st))) of
                     Some err \<Rightarrow> (plain_result err False, st)
                   | None \<Rightarrow> finish_file_write env path (Some buffer) content st))))"

definition execute_file_write :: "edit_env \<Rightarrow> string \<Rightarrow> edit_state \<Rightarrow> edit_result option \<times> edit_state" where
  "execute_file_write env arguments_json st =
     (case ee_parse env arguments_json of
        Inl what \<Rightarrow> (Some (plain_result (''Failed to parse tool arguments: '' @ what) False), st)
      | Inr j \<Rightarrow>
          (let file_path = get_string_or j ''file_path'' []; content = get_string_or j ''content'' []
           in if file_path = [] then (Some (plain_result (missing_parameter ''file_path'') False), st)
              else case resolve_scratch_path_alias (ee_scratch_dir env) (ee_cwd env) file_path of
                Inl err \<Rightarrow> (Some (plain_result err False), st)
              | Inr (path, used_alias) \<Rightarrow> write_at env path content st))"

section \<open>Occurrences\<close>

lemma find_cut: "str_find needle hay = Some i \<Longrightarrow> hay = take i hay @ needle @ drop (i + length needle) hay"
  using str_find_SomeD [of needle hay i] by (metis add.commute append_take_drop_id drop_drop)

lemma find_first_cut: "str_find needle hay = Some i \<Longrightarrow> str_find needle (take i hay @ needle) = Some i"
proof (induction hay arbitrary: i)
  case (Cons c hay)
  show ?case
  proof (cases "prefix needle (c # hay)")
    case True
    with Cons.prems show ?thesis by (cases needle) auto
  next
    case False
    with Cons.prems obtain j where j: "str_find needle hay = Some j" "i = Suc j" by auto
    have "prefix (c # take j hay @ needle) (c # hay)"
      using find_cut [OF j(1)] by (metis append.assoc append_Cons prefixI)
    with False have "\<not> prefix needle (c # take j hay @ needle)" by (meson prefix_order.trans)
    with j Cons.IH show ?thesis by simp
  qed
qed (simp split: if_splits)

lemma count_occurrences_Some:
  "needle \<noteq> [] \<Longrightarrow> str_find needle content = Some i \<Longrightarrow>
     count_occurrences content needle = 1 + count_occurrences (drop (i + length needle) content) needle"
  by (subst count_occurrences.simps) simp

lemma count_occurrences_None:
  "needle = [] \<or> str_find needle content = None \<Longrightarrow> count_occurrences content needle = 0"
  by (subst count_occurrences.simps) auto

lemma count_pos_iff: "count_occurrences content needle > 0 \<longleftrightarrow> needle \<noteq> [] \<and> contains content needle"
  by (cases "needle = []"; cases "str_find needle content")
    (use str_find_None_iff [of needle content] in \<open>auto simp: count_occurrences_Some count_occurrences_None\<close>)

lemma replace_from_simps:
  "needle \<noteq> [] \<Longrightarrow> str_find needle content = Some i \<Longrightarrow> replace_from content needle r =
     take i content @ r @ replace_from (drop (i + length needle) content) needle r"
  "str_find needle content = None \<Longrightarrow> replace_from content needle r = content"
  by (subst replace_from.simps; simp)+

text \<open>The pieces between the occurrences the loops see: each one runs up to the first occurrence in
  the rest of the text, and the last holds none.\<close>

definition cut_at :: "string \<Rightarrow> string list \<Rightarrow> string \<Rightarrow> string" where
  "cut_at between pieces final = concat (map (\<lambda>p. p @ between) pieces) @ final"

lemma cut_at_simps [simp]:
  "cut_at b [] final = final"
  "cut_at b (p # ps) final = p @ b @ cut_at b ps final"
  by (simp_all add: cut_at_def)

lemma occurrences_cut:
  assumes "needle \<noteq> []"
  obtains pieces final where "content = cut_at needle pieces final"
    "length pieces = count_occurrences content needle"
    "\<forall>p\<in>set pieces. str_find needle (p @ needle) = Some (length p)"
    "\<not> contains final needle"
    "\<forall>r. replace_from content needle r = cut_at r pieces final"
proof -
  have "\<exists>pieces final. content = cut_at needle pieces final \<and> length pieces = count_occurrences content needle \<and>
      (\<forall>p\<in>set pieces. str_find needle (p @ needle) = Some (length p)) \<and> \<not> contains final needle \<and>
      (\<forall>r. replace_from content needle r = cut_at r pieces final)"
  proof (induction "length content" arbitrary: content rule: less_induct)
    case less
    show ?case
    proof (cases "str_find needle content")
      case None
      then show ?thesis
        using str_find_None_iff [of needle content]
        by (intro exI [of _ "[]"] exI [of _ content]) (auto simp: count_occurrences_None replace_from_simps)
    next
      case (Some i)
      let ?rest = "drop (i + length needle) content"
      have "length ?rest < length content" using rest_shorter [OF assms Some] by simp
      from less [OF this] obtain ps final where *: "?rest = cut_at needle ps final"
        "length ps = count_occurrences ?rest needle"
        "\<forall>p\<in>set ps. str_find needle (p @ needle) = Some (length p)" "\<not> contains final needle"
        "\<forall>r. replace_from ?rest needle r = cut_at r ps final" by blast
      have len: "length (take i content) = i" using str_find_SomeD [OF Some] by simp
      have "content = cut_at needle (take i content # ps) final"
        using find_cut [OF Some] *(1) by simp
      moreover have "str_find needle (take i content @ needle) = Some (length (take i content))"
        using find_first_cut [OF Some] len by simp
      ultimately show ?thesis using * assms Some
        by (intro exI [of _ "take i content # ps"] exI [of _ final])
          (simp add: count_occurrences_Some replace_from_simps)
    qed
  qed
  with that show ?thesis by blast
qed

lemma unique_occurrence:
  assumes "count_occurrences content needle = 1"
  obtains before after where "content = before @ needle @ after"
    "replace_occurrences content needle r a = before @ r @ after"
    "str_find needle (before @ needle) = Some (length before)" "\<not> contains after needle"
proof -
  have n: "needle \<noteq> []" using assms count_occurrences_None by force
  from occurrences_cut [OF n, of content] obtain ps final
    where *: "content = cut_at needle ps final" "length ps = count_occurrences content needle"
      "\<forall>p\<in>set ps. str_find needle (p @ needle) = Some (length p)" "\<not> contains final needle"
      "\<forall>r. replace_from content needle r = cut_at r ps final" by blast
  from *(2) assms obtain p where ps: "ps = [p]" by (auto simp: length_Suc_conv)
  with * have c: "content = p @ needle @ final" and f: "str_find needle (p @ needle) = Some (length p)" by simp_all
  have fc: "str_find needle content = Some (length p)"
    using str_find_append_Some [OF f, of final] by (simp add: c)
  have "replace_occurrences content needle r a = p @ r @ final"
    using *(5) ps fc by (simp add: replace_occurrences_def) (simp add: c)
  with that c f *(4) show ?thesis by blast
qed

text \<open>Replacing all occurrences is the textbook operation: the content is cut at the leftmost
  occurrences that do not overlap, as many as \<open>count_occurrences\<close> says, and the pieces are joined
  with the replacement.\<close>

lemma replace_all_joins_pieces:
  assumes "count_occurrences content needle > 0"
  shows "\<exists>pieces final. content = cut_at needle pieces final \<and>
    length pieces = count_occurrences content needle \<and>
    (\<forall>p\<in>set pieces. str_find needle (p @ needle) = Some (length p)) \<and> \<not> contains final needle \<and>
    replace_occurrences content needle replacement True = cut_at replacement pieces final"
proof -
  have n: "needle \<noteq> []" and c: "contains content needle" using assms by (simp_all add: count_pos_iff)
  then obtain i where "str_find needle content = Some i"
    using str_find_None_iff [of needle content] by (cases "str_find needle content") auto
  then have "replace_occurrences content needle replacement True = replace_from content needle replacement"
    by (simp add: replace_occurrences_def)
  with occurrences_cut [OF n, of content] show ?thesis by metis
qed

lemma replace_all_joins_pieces_witness:
  "count_occurrences ''aaaba'' ''aa'' = 1 \<and> replace_occurrences ''xayaz'' ''a'' ''bb'' True = ''xbbybbz'' \<and>
   (\<exists>pieces final. ''xayaz'' = cut_at ''a'' pieces final \<and> length pieces = 2 \<and>
      replace_occurrences ''xayaz'' ''a'' ''bb'' True = cut_at ''bb'' pieces final)"
proof -
  have c: "count_occurrences ''xayaz'' ''a'' = 2" by code_simp
  then have "count_occurrences ''xayaz'' ''a'' > 0" by simp
  from replace_all_joins_pieces [OF this, of "''bb''"] c
  have "\<exists>pieces final. ''xayaz'' = cut_at ''a'' pieces final \<and> length pieces = 2 \<and>
      replace_occurrences ''xayaz'' ''a'' ''bb'' True = cut_at ''bb'' pieces final" by metis
  moreover have "count_occurrences ''aaaba'' ''aa'' = 1" by code_simp
  moreover have "replace_occurrences ''xayaz'' ''a'' ''bb'' True = ''xbbybbz''" by code_simp
  ultimately show ?thesis by blast
qed

section \<open>Straight and curly quotes\<close>

text \<open>The units of a text: a curly quote or a byte, with what it is normalized to.\<close>

fun quote_units :: "string \<Rightarrow> (char \<times> string) list" where
  "quote_units [] = []"
| "quote_units (c # cs) =
     (if prefix left_single (c # cs) \<or> prefix right_single (c # cs) then (squote, take 3 (c # cs)) # quote_units (drop 2 cs)
      else if prefix left_double (c # cs) \<or> prefix right_double (c # cs) then (dquote, take 3 (c # cs)) # quote_units (drop 2 cs)
      else (c, [c]) # quote_units cs)"

definition spell_units :: "(char \<times> string) list \<Rightarrow> string" where
  "spell_units us = concat (map snd us)"

lemma spell_units_simps [simp]:
  "spell_units [] = []"
  "spell_units (u # us) = snd u @ spell_units us"
  "spell_units (us @ vs) = spell_units us @ spell_units vs"
  by (simp_all add: spell_units_def)

lemma spell_quote_units: "spell_units (quote_units s) = s"
  by (induction s rule: quote_units.induct) simp_all

lemma curly_length [simp]:
  "length left_single = 3" "length right_single = 3" "length left_double = 3" "length right_double = 3"
  by (simp_all add: left_single_def right_single_def left_double_def right_double_def)

lemma quote_scan_units:
  "map fst (quote_scan i s) = map fst (quote_units s)"
  "map (fst \<circ> snd) (quote_scan i s) = map (\<lambda>n. i + length (spell_units (take n (quote_units s)))) [0..<length (quote_units s)]"
  "map (snd \<circ> snd) (quote_scan i s) = map (\<lambda>n. i + length (spell_units (take (Suc n) (quote_units s)))) [0..<length (quote_units s)]"
proof (induction i s rule: quote_scan.induct)
  case (2 i c cs)
  have len: "length (take 3 (c # cs)) = 3" if "prefix q (c # cs)" "length q = 3" for q :: string
    using that by (auto dest: prefix_length_le)
  {
    case 1
    show ?case using "2.IH" by simp
  next
    case 2
    show ?case using "2.IH" len
      by (auto simp: upt_conv_Cons map_Suc_upt [symmetric] comp_def simp del: upt_Suc)
  next
    case 3
    show ?case using "2.IH" len
      by (auto simp: upt_conv_Cons map_Suc_upt [symmetric] comp_def simp del: upt_Suc)
  }
qed simp_all

lemma normalize_quotes_units: "normalize_quotes s = map fst (quote_units s)"
  by (simp add: normalize_quotes_def normalize_quotes_with_offsets_def quote_scan_units)

text \<open>A run of units is read back as itself.\<close>

lemma quote_units_prefix: "quote_units s = us @ vs \<Longrightarrow> quote_units (spell_units us) = us"
proof (induction s arbitrary: us rule: quote_units.induct)
  case (2 c cs)
  show ?case
  proof (cases us)
    case (Cons u us')
    let ?curly = "\<lambda>q. prefix q (c # cs)"
    have pre: "prefix (spell_units us) (c # cs)"
      using "2.prems" spell_quote_units [of "c # cs"] by (metis prefixI spell_units_simps(3))
    show ?thesis
    proof (cases "?curly left_single \<or> ?curly right_single \<or> ?curly left_double \<or> ?curly right_double")
      case True
      then have l: "length (c # cs) \<ge> 3" by (auto dest: prefix_length_le)
      have u: "u = ((if ?curly left_single \<or> ?curly right_single then squote else dquote), take 3 (c # cs))"
        "quote_units (drop 2 cs) = us' @ vs"
        using True "2.prems" Cons by (auto split: if_splits)
      have ih: "quote_units (spell_units us') = us'"
        using True u(2) "2.IH"(1,2) by (cases "?curly left_single \<or> ?curly right_single") auto
      have same: "prefix q (take 3 (c # cs) @ t) \<longleftrightarrow> prefix q (c # cs)" if "length q = 3" for q t :: string
        using that l by (simp add: prefix_take_iff)
      obtain d t where dt: "take 3 (c # cs) @ spell_units us' = d # t" "drop 2 t = spell_units us'"
          "take 3 (d # t) = take 3 (c # cs)"
        using l by (cases cs; cases "tl cs") auto
      have curly: "prefix left_single (d # t) = ?curly left_single" "prefix right_single (d # t) = ?curly right_single"
        "prefix left_double (d # t) = ?curly left_double" "prefix right_double (d # t) = ?curly right_double"
        using same [of _ "spell_units us'", unfolded dt(1)] curly_length by blast+
      have "quote_units (d # t) = u # us'"
        unfolding quote_units.simps curly dt(2,3) ih using True u(1) by (auto split: if_splits)
      then show ?thesis using Cons dt(1) u(1) by simp
    next
      case False
      then have u: "u = (c, [c])" "quote_units cs = us' @ vs" using "2.prems" Cons by auto
      have ih: "quote_units (spell_units us') = us'" using False "2.IH"(3) u(2) by auto
      have "\<not> prefix q (c # spell_units us')" if "\<not> ?curly q" for q
        using that pre Cons u(1) by (metis append_Cons append_Nil prefix_order.trans snd_conv spell_units_simps(2))
      with False show ?thesis using Cons u(1) ih by simp
    qed
  qed simp
qed simp

lemma quote_units_suffix: "quote_units s = us @ vs \<Longrightarrow> quote_units (spell_units vs) = vs"
proof (induction s arbitrary: us rule: quote_units.induct)
  case (2 c cs)
  show ?case
  proof (cases us)
    case Nil
    with "2.prems" show ?thesis using spell_quote_units [of "c # cs"] by simp
  next
    case (Cons u us')
    then show ?thesis using 2 by (auto split: if_splits)
  qed
qed simp

lemma quote_units_slice: "quote_units s = us @ vs @ ws \<Longrightarrow> quote_units (spell_units vs) = vs"
  using quote_units_suffix [of s us "vs @ ws"] quote_units_prefix [of "spell_units (vs @ ws)" vs ws] by simp

lemma find_actual_units:
  assumes "search \<noteq> []"
  shows "find_actual_string_by_quotes content search =
    map_option (\<lambda>i. spell_units (take (length (normalize_quotes search)) (drop i (quote_units content))))
      (str_find (normalize_quotes search) (normalize_quotes content))"
proof -
  let ?us = "quote_units content" and ?ns = "normalize_quotes search"
  have ne: "?ns \<noteq> []" using assms by (cases search) (auto simp: normalize_quotes_units)
  show ?thesis
  proof (cases "str_find ?ns (normalize_quotes content)")
    case None
    then show ?thesis by (simp add: find_actual_string_by_quotes_def assms normalize_quotes_def Let_def)
  next
    case (Some i)
    let ?n = "length ?ns"
    have b: "i + ?n \<le> length ?us" using str_find_SomeD [OF Some] by (simp add: normalize_quotes_units)
    have n: "?n > 0" using ne by simp
    define j where "j = i + ?n - 1"
    have j: "j < length ?us" "Suc j = i + ?n" "i < length ?us" unfolding j_def using b n by linarith+
    have st: "qn_start_offsets (normalize_quotes_with_offsets content) ! i = length (spell_units (take i ?us))"
      "length (qn_start_offsets (normalize_quotes_with_offsets content)) = length ?us"
      using j(3) unfolding normalize_quotes_with_offsets_def quote_normalized_text.simps quote_scan_units(2) by simp_all
    have en: "qn_end_offsets (normalize_quotes_with_offsets content) ! j = length (spell_units (take (i + ?n) ?us))"
      "length (qn_end_offsets (normalize_quotes_with_offsets content)) = length ?us"
      using j(1,2) unfolding normalize_quotes_with_offsets_def quote_normalized_text.simps quote_scan_units(3) by simp_all
    have sp: "spell_units (take (i + ?n) ?us) = spell_units (take i ?us) @ spell_units (take ?n (drop i ?us))"
      by (simp add: take_add)
    have whole: "content = spell_units (take (i + ?n) ?us) @ spell_units (drop (i + ?n) ?us)"
      using spell_quote_units [of content] by (metis append_take_drop_id spell_units_simps(3))
    have "length (spell_units (take (i + ?n) ?us)) \<le> length content" by (subst whole) simp
    moreover have "take (length (spell_units (take (i + ?n) ?us)) - length (spell_units (take i ?us)))
        (drop (length (spell_units (take i ?us))) content) = spell_units (take ?n (drop i ?us))"
      by (subst whole) (simp add: sp)
    moreover have "length (spell_units (take i ?us)) \<le> length (spell_units (take (i + ?n) ?us))" by (simp add: sp)
    moreover have "str_find ?ns (qn_text (normalize_quotes_with_offsets content)) = Some i"
      using Some by (simp add: normalize_quotes_def)
    moreover have "i + ?n - Suc 0 = j" by (simp add: j_def)
    ultimately show ?thesis
      using assms ne Some st en j by (simp add: find_actual_string_by_quotes_def Let_def)
  qed
qed

lemma find_actual_correct:
  "case find_actual_string_by_quotes content search of
     Some actual \<Rightarrow> actual \<noteq> [] \<and> contains content actual \<and> normalize_quotes actual = normalize_quotes search
   | None \<Rightarrow> search = [] \<or> \<not> contains (normalize_quotes content) (normalize_quotes search)"
proof (cases "search = []")
  case True
  then show ?thesis by (simp add: find_actual_string_by_quotes_def)
next
  case False
  let ?us = "quote_units content" and ?ns = "normalize_quotes search"
  have ne: "?ns \<noteq> []" using False by (cases search) (auto simp: normalize_quotes_units)
  show ?thesis
  proof (cases "str_find ?ns (normalize_quotes content)")
    case None
    then have "\<not> contains (normalize_quotes content) ?ns" using str_find_None_iff by blast
    with None False show ?thesis by (simp add: find_actual_units)
  next
    case (Some i)
    let ?vs = "take (length ?ns) (drop i ?us)"
    have cut: "?us = take i ?us @ ?vs @ drop (length ?ns) (drop i ?us)" by (metis append_take_drop_id)
    have "map fst ?vs = ?ns"
      using str_find_SomeD [OF Some] by (simp add: normalize_quotes_units take_map drop_map)
    then have n: "normalize_quotes (spell_units ?vs) = ?ns"
      using quote_units_slice [OF cut] by (simp add: normalize_quotes_units)
    have "content = spell_units (take i ?us) @ spell_units ?vs @ spell_units (drop (length ?ns) (drop i ?us))"
      using spell_quote_units [of content] cut by (metis spell_units_simps(3))
    then have "contains content (spell_units ?vs)" by (metis containsI)
    moreover have "spell_units ?vs \<noteq> []" using n ne by (auto simp: normalize_quotes_units)
    ultimately show ?thesis using False Some n by (simp add: find_actual_units)
  qed
qed

text \<open>The tolerant search is sound and complete.  What it returns is a part of the file that reads like
  the search text once curly quotes are taken for straight ones; and it finds nothing only when the
  search text is empty or occurs nowhere under that reading.\<close>

lemma quote_search_correct:
  "case find_actual_string_by_quotes content search of
     Some actual \<Rightarrow> actual \<noteq> [] \<and> contains content actual \<and> normalize_quotes actual = normalize_quotes search
   | None \<Rightarrow> search = [] \<or> \<not> contains (normalize_quotes content) (normalize_quotes search)"
  by (rule find_actual_correct)

lemma no_crlf: "ch_cr \<notin> set content \<Longrightarrow> \<not> file_uses_crlf content"
  by (auto simp: file_uses_crlf_def contains_iff)

text \<open>The buffer's text has LF line ends, so the branch for CR LF files is never taken there.\<close>

lemma build_match_plan_lf:
  "ch_cr \<notin> set content \<Longrightarrow> build_match_plan content old new =
     (if contains content old then Some (old, new)
      else map_option (\<lambda>actual. (actual, preserve_quote_style old actual new)) (find_actual_string_by_quotes content old))"
  by (simp add: build_match_plan_def no_crlf)

lemma build_match_plan_correct:
  assumes "ch_cr \<notin> set content" "build_match_plan content old new = Some (actual_old, actual_new)"
  shows "contains content actual_old \<and> normalize_quotes actual_old = normalize_quotes old \<and>
    (actual_old = old \<longrightarrow> actual_new = new)"
  using assms find_actual_correct [where content = content and search = old]
  by (auto simp: build_match_plan_lf preserve_quote_style_def split: if_splits)

text \<open>The replacing loop is never entered with an empty needle.\<close>

lemma plan_needle_not_empty: "count_occurrences content needle \<noteq> 0 \<Longrightarrow> needle \<noteq> []"
  using count_occurrences_None [of needle content] by auto

section \<open>What the tools do\<close>

definition lf_result :: "buffer_result \<Rightarrow> bool" where
  "lf_result r \<longleftrightarrow> br_success r \<longrightarrow> ch_cr \<notin> set (tb_text (br_buffer r))"

lemma lf_results [simp]:
  "lf_result (make_decoded_result path raw out enc bom lossy)" "lf_result (fail_decode path raw enc err bin)"
  by (simp_all add: lf_result_def)

lemma lf_branches:
  "lf_result a \<Longrightarrow> lf_result b \<Longrightarrow> lf_result (if c then a else b)"
  "(\<And>x. lf_result (f x)) \<Longrightarrow> (\<And>y. lf_result (g y)) \<Longrightarrow> lf_result (case s of Inl x \<Rightarrow> f x | Inr y \<Rightarrow> g y)"
  "(\<And>x y. lf_result (h x y)) \<Longrightarrow> lf_result (case p of (x, y) \<Rightarrow> h x y)"
  by (simp_all split: sum.split prod.split)

lemma lf_decode: "lf_result (decode_text_file_bytes bytes path lossy)"
  unfolding decode_text_file_bytes_def Let_def by (intro lf_branches lf_results)

lemma load_for_write_Inr:
  assumes "load_for_write env path st = Inr buffer"
  shows "ee_can_read env \<and> (\<exists>bytes. ed_files st path = Some bytes \<and>
    br_success (decode_text_file_bytes bytes path False) \<and> buffer = br_buffer (decode_text_file_bytes bytes path False)) \<and>
    ch_cr \<notin> set (tb_text buffer)"
proof -
  let ?r = "read_text_file_buffer (ee_can_read env) path False (ed_files st path)"
  from assms have r: "br_success ?r" "buffer = br_buffer ?r"
    by (auto simp: load_for_write_def Let_def split: if_splits option.splits)
  then obtain bytes where "ee_can_read env" "ed_files st path = Some bytes" "?r = decode_text_file_bytes bytes path False"
    by (auto simp: read_text_file_buffer_def read_raw_file_def split: option.splits if_splits)
  with r lf_decode [of bytes path False] show ?thesis by (auto simp: lf_result_def)
qed

lemma run_checkpoint_hook_fields [simp]:
  "ed_tracker (run_checkpoint_hook env path text md st) = ed_tracker st"
  "ed_files (run_checkpoint_hook env path text md st) = ed_files st"
  by (simp_all add: run_checkpoint_hook_def split: sum.split option.split)

text \<open>Whatever the hook does, the write is the same.\<close>

lemma hook_does_not_stop_write:
  "fst (checked_write (env\<lparr>ee_checkpoint_hook := hook\<rparr>) path text md st) = fst (checked_write env path text md st) \<and>
   ed_files (snd (checked_write (env\<lparr>ee_checkpoint_hook := hook\<rparr>) path text md st)) = ed_files (snd (checked_write env path text md st))"
  by (simp add: checked_write_def split: prod.split)

text \<open>The calls of the hook when a file is about to change.\<close>

definition hook_called :: "edit_env \<Rightarrow> string \<Rightarrow> edit_state \<Rightarrow> edit_state \<Rightarrow> bool" where
  "hook_called env path st st' \<longleftrightarrow> ed_hook_calls st' = ed_hook_calls st @
     (case ee_checkpoint_hook env of None \<Rightarrow> [] | Some returns \<Rightarrow> [(path, ed_files st path, returns path)])"

text \<open>What one verified write does to the state, whichever tool makes it.\<close>

definition write_effect :: "edit_env \<Rightarrow> string \<Rightarrow> string \<Rightarrow> text_metadata \<Rightarrow> edit_state \<Rightarrow> bool \<Rightarrow> edit_state \<Rightarrow> bool" where
  "write_effect env path text md st ok st' \<longleftrightarrow>
     (\<forall>q. q \<noteq> path \<longrightarrow> ed_files st' q = ed_files st q) \<and>
     (ed_files st' path \<noteq> ed_files st path \<longrightarrow> hook_called env path st st') \<and>
     (if ok
      then (\<exists>bytes written. encode_text_for_write text md = Inr bytes \<and> ed_files st' path = Some written \<and>
          (written = bytes \<or> (\<exists>n. io_write (ee_io env) = LostOnClose n \<and> written = take n bytes))) \<and>
        ed_tracker st' = record_write (ee_fs_after env) path (Some text) (ed_tracker st)
      else ed_tracker st' = ed_tracker st \<and>
        (ed_files st path \<noteq> None \<and> io_undo (ee_io env) = WriteOk \<and> (\<forall>n. io_write (ee_io env) \<noteq> StreamFails n) \<longrightarrow>
           ed_files st' path = ed_files st path))"

lemma rollback_failed_undo:
  "safe_write_text_file io path t md (Some old) = (r, disk') \<Longrightarrow> io_undo io = WriteOk \<Longrightarrow> \<not> sw_rollback_failed r"
  by (auto simp: safe_write_text_file_def verify_write_def roll_back_def write_raw_file_def read_raw_file_def sw_result_def
      Let_def split: sum.splits option.splits if_splits write_outcome.splits prod.splits)

lemma checked_write_effect:
  assumes "checked_write env path text md st = (w, st1)"
  shows "write_effect env path text md st (sw_success w) (if sw_success w then note_write env path text st1 else st1)"
proof -
  obtain disk' where w: "safe_write_text_file (ee_io env) path text md (ed_files st path) = (w, disk')"
    and s: "st1 = (run_checkpoint_hook env path text md st)\<lparr>ed_files := (ed_files st)(path := disk')\<rparr>"
    using assms by (auto simp: checked_write_def split: prod.splits)
  have hook: "hook_called env path st st1" if "disk' \<noteq> ed_files st path"
    using safe_write_changes [OF w that] by (auto simp: s run_checkpoint_hook_def hook_called_def split: option.split)
  have hooked: "hook_called env path st (note_write env path text st1) \<longleftrightarrow> hook_called env path st st1"
    by (simp add: hook_called_def note_write_def)
  have wc: "if sw_success w
    then \<exists>bytes written. encode_text_for_write text md = Inr bytes \<and> disk' = Some written \<and>
      (written = bytes \<or> (\<exists>n. io_write (ee_io env) = LostOnClose n \<and> written = take n bytes))
    else sw_rollback_failed w \<or> ed_files st path = None \<or> disk' = ed_files st path \<or>
      (\<exists>n. io_write (ee_io env) = StreamFails n) \<or>
      (\<exists>n old. io_undo (ee_io env) = LostOnClose n \<and> ed_files st path = Some old \<and> disk' = Some (take n old))"
    using safe_write_cases [OF w] by (auto split: if_splits)
  show ?thesis
  proof (cases "sw_success w")
    case True
    from True wc have "\<exists>bytes written. encode_text_for_write text md = Inr bytes \<and> disk' = Some written \<and>
      (written = bytes \<or> (\<exists>n. io_write (ee_io env) = LostOnClose n \<and> written = take n bytes))" by simp
    moreover have "ed_files (note_write env path text st1) = (ed_files st)(path := disk')"
      "ed_tracker (note_write env path text st1) = record_write (ee_fs_after env) path (Some text) (ed_tracker st)"
      by (simp_all add: note_write_def s)
    ultimately show ?thesis using True hook hooked by (simp add: write_effect_def)
  next
    case False
    have "disk' = ed_files st path"
      if "ed_files st path = Some old" "io_undo (ee_io env) = WriteOk" "\<forall>n. io_write (ee_io env) \<noteq> StreamFails n" for old
      using wc False that rollback_failed_undo [OF w [unfolded that(1)] that(2)] by auto
    with False hook show ?thesis by (auto simp: write_effect_def s)
  qed
qed

lemma run_validated_write_effect:
  assumes "run_validated_write env path existed old new md st = (r, st')"
  shows "write_effect env path new md st (er_success r) st'"
proof -
  obtain w st1 where w: "checked_write env path new md st = (w, st1)" by fastforce
  from assms w have "er_success r = sw_success w \<and> st' = (if sw_success w then note_write env path new st1 else st1)"
    by (auto simp: run_validated_write_def plain_result_def split: prod.splits if_splits)
  with checked_write_effect [OF w] show ?thesis by simp
qed

lemma finish_file_write_effect:
  assumes "finish_file_write env path old content st = (r, st')"
  shows "write_effect env path (normalize_text_to_lf content)
    (case old of None \<Rightarrow> fresh_metadata | Some b \<Rightarrow> tb_metadata b) st (er_success r) st'"
proof -
  let ?md = "case old of None \<Rightarrow> fresh_metadata | Some b \<Rightarrow> tb_metadata b"
  obtain w st1 where w: "checked_write env path (normalize_text_to_lf content) ?md st = (w, st1)" by fastforce
  from assms w have "er_success r = sw_success w \<and>
      st' = (if sw_success w then note_write env path (normalize_text_to_lf content) st1 else st1)"
    by (auto simp: finish_file_write_def plain_result_def Let_def split: prod.splits if_splits option.splits)
  with checked_write_effect [OF w] show ?thesis by simp
qed

text \<open>Whoever writes, the call either leaves the state alone and fails, or passed the checks and wrote.\<close>

definition may_write :: "edit_env \<Rightarrow> string \<Rightarrow> edit_state \<Rightarrow> bool" where
  "may_write env path st \<longleftrightarrow> ed_files st path = None \<or>
     (\<exists>buffer. load_for_write env path st = Inr buffer \<and>
       (bc_status (validate_read_baseline_for_edit (ee_fs env) path (tb_text buffer) (ed_tracker st)) = BaselineOk \<or>
        is_blank_content (tb_text buffer)))"

definition call_effect :: "edit_env \<Rightarrow> edit_state \<Rightarrow> edit_result option \<Rightarrow> edit_state \<Rightarrow> bool" where
  "call_effect env st out st' \<longleftrightarrow>
     st' = st \<and> (\<forall>r. out = Some r \<longrightarrow> \<not> er_success r) \<or>
     (\<exists>r path text md. out = Some r \<and> may_write env path st \<and> write_effect env path text md st (er_success r) st')"

lemma call_effectI:
  "run_validated_write env path existed old new md st = (r, st') \<Longrightarrow> may_write env path st \<Longrightarrow> call_effect env st (Some r) st'"
  "finish_file_write env path old' content st = (r, st') \<Longrightarrow> may_write env path st \<Longrightarrow> call_effect env st (Some r) st'"
  unfolding call_effect_def using run_validated_write_effect finish_file_write_effect by blast+

lemma plain_call_effect:
  "call_effect env st (Some (plain_result err False)) st" "call_effect env st None st"
  by (simp_all add: call_effect_def plain_result_def)

lemma baseline_error_None: "baseline_error path status = None \<longleftrightarrow> status = BaselineOk"
  by (cases status) (simp_all add: baseline_error_def)

lemma not_found_effect: "call_effect env st (Some (make_old_string_not_found_result path text old)) st"
  by (simp add: call_effect_def make_old_string_not_found_result_def plain_result_def Let_def)

lemma apply_edit_effect:
  assumes "apply_edit env path buffer old new all st = (r, st')" "may_write env path st"
  shows "call_effect env st (Some r) st'"
  using assms call_effectI(1) plain_call_effect not_found_effect
  by (auto simp: apply_edit_def Let_def split: option.splits prod.splits if_splits)

lemma edit_existing_effect:
  assumes "edit_existing env path old new all st = (r, st')"
  shows "call_effect env st (Some r) st'"
proof (cases "load_for_write env path st")
  case (Inl err)
  with assms show ?thesis using plain_call_effect by (auto simp: edit_existing_def)
next
  case (Inr buffer)
  show ?thesis
  proof (cases "old = []")
    case True
    with Inr assms show ?thesis
      using plain_call_effect call_effectI(1) [of env path True] by (auto simp: edit_existing_def may_write_def split: if_splits)
  next
    case False
    with Inr assms show ?thesis
      using plain_call_effect apply_edit_effect [of env path buffer old new all st r st']
      by (auto simp: edit_existing_def may_write_def baseline_error_None split: option.splits)
  qed
qed

lemma edit_at_effect:
  assumes "edit_at env path old new all st = (out, st')"
  shows "call_effect env st out st'"
proof (cases "ed_files st path")
  case None
  obtain r st1 where e: "run_validated_write env path False [] (normalize_text_to_lf new) fresh_metadata st = (r, st1)"
    by fastforce
  have "call_effect env st (Some r) st1" using None by (intro call_effectI(1) [OF e]) (simp add: may_write_def)
  with None assms show ?thesis
    using plain_call_effect [of env st] by (auto simp: edit_at_def e split: if_splits)
next
  case (Some bytes)
  obtain r st1 where e: "edit_existing env path old new all st = (r, st1)" by fastforce
  from Some assms edit_existing_effect [OF e] show ?thesis
    using plain_call_effect [of env st] by (auto simp: edit_at_def check_edit_file_size_def e split: if_splits)
qed

lemma execute_file_edit_effect: "execute_file_edit env args st = (out, st') \<Longrightarrow> call_effect env st out st'"
  using edit_at_effect [of env _ _ _ _ st out st'] plain_call_effect [of env st]
  by (auto simp: execute_file_edit_def split: sum.splits)

lemma write_at_effect:
  assumes "write_at env path content st = (out, st')"
  shows "call_effect env st out st'"
proof (cases "ed_files st path")
  case None
  obtain r st1 where e: "finish_file_write env path None content st = (r, st1)" by fastforce
  have "call_effect env st (Some r) st1" using None by (intro call_effectI(2) [OF e]) (simp add: may_write_def)
  with None assms show ?thesis using plain_call_effect [of env st] by (auto simp: write_at_def e split: if_splits)
next
  case Some: (Some bytes)
  show ?thesis
  proof (cases "load_for_write env path st")
    case (Inl err)
    with Some assms show ?thesis using plain_call_effect [of env st] by (auto simp: write_at_def split: if_splits)
  next
    case (Inr buffer)
    obtain r st1 where e: "finish_file_write env path (Some buffer) content st = (r, st1)" by fastforce
    have "call_effect env st (Some r) st1"
      if "bc_status (validate_read_baseline_for_edit (ee_fs env) path (tb_text buffer) (ed_tracker st)) = BaselineOk"
      using Inr that by (intro call_effectI(2) [OF e]) (simp add: may_write_def)
    with Some Inr assms show ?thesis using plain_call_effect [of env st]
      by (auto simp: write_at_def e baseline_error_None split: if_splits option.splits)
  qed
qed

lemma execute_file_write_effect: "execute_file_write env args st = (out, st') \<Longrightarrow> call_effect env st out st'"
  using write_at_effect [of env _ _ st out st'] plain_call_effect [of env st]
  by (auto simp: execute_file_write_def Let_def split: sum.splits if_splits)

text \<open>One call of either tool.\<close>

datatype file_call = EditCall string | WriteCall string

fun run_call :: "edit_env \<Rightarrow> file_call \<Rightarrow> edit_state \<Rightarrow> edit_result option \<times> edit_state" where
  "run_call env (EditCall args) st = execute_file_edit env args st"
| "run_call env (WriteCall args) st = execute_file_write env args st"

lemma run_call_effect: "run_call env call st = (out, st') \<Longrightarrow> call_effect env st out st'"
  using execute_file_edit_effect execute_file_write_effect by (cases call) auto

text \<open>C21: No file changes unseen.  When a call of either tool changes the file system, it changes one file;
  that file did not exist, or the tracker vouches for a read of its present content, or it is blank;
  and if a checkpoint hook is set, it was called once, with the path of this file, while the file still had
  the content from before the change.  Whether the hook then saved that content is its own matter: it may also throw,
  and the file is changed all the same.  Nobody else writes to the file during the call.\<close>

theorem changes_need_baseline_and_hook_call:
  assumes "run_call env call st = (out, st')" "ed_files st' \<noteq> ed_files st"
  shows "\<exists>path. ed_files st' = (ed_files st)(path := ed_files st' path) \<and>
    (ed_files st path = None \<or>
     (\<exists>buffer. load_for_write env path st = Inr buffer \<and>
       (bc_status (validate_read_baseline_for_edit (ee_fs env) path (tb_text buffer) (ed_tracker st)) = BaselineOk \<or>
        is_blank_content (tb_text buffer)))) \<and>
    ed_hook_calls st' = ed_hook_calls st @
      (case ee_checkpoint_hook env of None \<Rightarrow> [] | Some returns \<Rightarrow> [(path, ed_files st path, returns path)])"
proof -
  from run_call_effect [OF assms(1)] assms(2) obtain ok path tx md
    where e: "may_write env path st" "write_effect env path tx md st ok st'"
    by (auto simp: call_effect_def)
  then have f: "ed_files st' = (ed_files st)(path := ed_files st' path)" by (intro ext) (auto simp: write_effect_def)
  with assms(2) have "ed_files st' path \<noteq> ed_files st path" by (metis fun_upd_triv)
  with e(2) have "hook_called env path st st'" by (simp add: write_effect_def)
  with e(1) f show ?thesis unfolding may_write_def hook_called_def by blast
qed

text \<open>C22: A call that fails, or ends with an exception, leaves the tracker as it was and every file that
  existed with its bytes, provided writing does not break off half way and undoing a write works.\<close>

theorem failed_call_keeps_files:
  assumes "run_call env call st = (out, st')" "\<forall>r. out = Some r \<longrightarrow> \<not> er_success r"
    and "io_undo (ee_io env) = WriteOk" "\<forall>n. io_write (ee_io env) \<noteq> StreamFails n" "ed_files st path \<noteq> None"
  shows "ed_tracker st' = ed_tracker st \<and> ed_files st' path = ed_files st path"
proof -
  consider "st' = st" | r p tx md where "out = Some r" "write_effect env p tx md st (er_success r) st'"
    using run_call_effect [OF assms(1)] by (auto simp: call_effect_def)
  then show ?thesis
  proof cases
    case (2 r p tx md)
    with assms(2) have "\<not> er_success r" by blast
    with 2 assms(3-5) show ?thesis by (cases "path = p") (auto simp: write_effect_def)
  qed simp
qed

text \<open>After a successful call the tracker holds a baseline for the next one: a further edit of the
  file is accepted as long as its time stamp is the one after the write, and also after a touch that
  did not change its text; a file changed by someone else is refused.\<close>

lemma written_file_has_baseline:
  assumes "run_call env call st = (Some r, st')" "er_success r"
    and "\<And>p. tf_last_write_time (ee_fs_after env) (tracker_path_key (ee_fs_after env) p) = Some written"
    and "\<And>n. io_write (ee_io env) \<noteq> LostOnClose n"
  shows "\<exists>path new bytes md. ed_files st' = (ed_files st)(path \<mapsto> bytes) \<and> encode_text_for_write new md = Inr bytes \<and>
    (\<forall>fs now current.
       tracker_path_key fs path = tracker_path_key (ee_fs_after env) path \<longrightarrow>
       tf_last_write_time fs (tracker_path_key fs path) = Some now \<longrightarrow>
       bc_status (validate_read_baseline_for_edit fs path current (ed_tracker st')) =
         (if now = written \<or> current = new then BaselineOk else ExternallyModified))"
proof -
  from run_call_effect [OF assms(1)] assms(2) obtain path tx md
    where e: "write_effect env path tx md st True st'" by (auto simp: call_effect_def)
  then obtain bytes where b: "encode_text_for_write tx md = Inr bytes" "ed_files st' path = Some bytes"
    and t: "ed_tracker st' = record_write (ee_fs_after env) path (Some tx) (ed_tracker st)"
    and f: "\<forall>q. q \<noteq> path \<longrightarrow> ed_files st' q = ed_files st q"
    using assms(4) by (auto simp: write_effect_def)
  have "ed_files st' = (ed_files st)(path \<mapsto> bytes)" using b f by auto
  moreover have "bc_status (validate_read_baseline_for_edit fs path current (ed_tracker st')) =
      (if now = written \<or> current = tx then BaselineOk else ExternallyModified)"
    if "tracker_path_key fs path = tracker_path_key (ee_fs_after env) path"
      "tf_last_write_time fs (tracker_path_key fs path) = Some now" for fs now current
    using that assms(3) [of path]
    by (simp add: t validate_read_baseline_for_edit_def record_write_def Let_def check_of_def is_lossy_def)
  ultimately show ?thesis using b(1) by blast
qed

text \<open>An edit replaces the one match and nothing else: when it succeeds (without \<open>replace_all\<close>), the
  text of the file had exactly one occurrence of the text to replace, which is the requested one up to
  the style of quotes, and the file now holds the same text with that occurrence replaced, in the
  file's own encoding and line ends; no other file is touched.\<close>

lemma edit_replaces_unique_match:
  assumes "execute_file_edit env args st = (Some r, st')" "er_success r"
    and "parse_edit_request env args = Inr rq" "rq_old rq \<noteq> []" "\<not> rq_replace_all rq"
    and "\<And>n. io_write (ee_io env) \<noteq> LostOnClose n"
  shows "\<exists>buffer before actual_old after actual_new bytes.
    load_for_write env (rq_path rq) st = Inr buffer \<and>
    tb_text buffer = before @ actual_old @ after \<and> count_occurrences (tb_text buffer) actual_old = 1 \<and>
    normalize_quotes actual_old = normalize_quotes (normalize_text_to_lf (rq_old rq)) \<and>
    (actual_old = normalize_text_to_lf (rq_old rq) \<longrightarrow> actual_new = normalize_text_to_lf (rq_new rq)) \<and>
    encode_text_for_write (before @ actual_new @ after) (tb_metadata buffer) = Inr bytes \<and>
    ed_files st' = (ed_files st)(rq_path rq \<mapsto> bytes)"
proof -
  let ?old = "normalize_text_to_lf (rq_old rq)" and ?new = "normalize_text_to_lf (rq_new rq)"
  from assms(1,3) have at: "edit_at env (rq_path rq) (rq_old rq) (rq_new rq) False st = (Some r, st')"
    using assms(5) by (simp add: execute_file_edit_def)
  with assms(2,4) obtain fl where ex: "edit_existing env (rq_path rq) (rq_old rq) (rq_new rq) False st = (r, st')"
    and "ed_files st (rq_path rq) = Some fl"
    by (auto simp: edit_at_def plain_result_def check_edit_file_size_def apfst_def map_prod_def
        split: if_splits option.splits prod.splits)
  with assms(2,4) obtain buffer where b: "load_for_write env (rq_path rq) st = Inr buffer"
    and ap: "apply_edit env (rq_path rq) buffer (rq_old rq) (rq_new rq) False st = (r, st')"
    by (auto simp: edit_existing_def plain_result_def split: sum.splits option.splits)
  with assms(2) obtain ao an where plan: "build_match_plan (tb_text buffer) ?old ?new = Some (ao, an)"
    and c: "count_occurrences (tb_text buffer) ao = 1"
    and w: "run_validated_write env (rq_path rq) True (tb_text buffer)
      (replace_occurrences (tb_text buffer) ao an False) (tb_metadata buffer) st = (r, st')"
    by (auto simp: apply_edit_def make_old_string_not_found_result_def plain_result_def Let_def not_less le_Suc_eq
        split: if_splits option.splits prod.splits)
  obtain before after where cut: "tb_text buffer = before @ ao @ after"
      "replace_occurrences (tb_text buffer) ao an False = before @ an @ after"
    using unique_occurrence [OF c] by metis
  have lf: "ch_cr \<notin> set (tb_text buffer)" using load_for_write_Inr [OF b] by blast
  from run_validated_write_effect [OF w] assms(2) obtain bytes
    where "encode_text_for_write (before @ an @ after) (tb_metadata buffer) = Inr bytes"
      "ed_files st' (rq_path rq) = Some bytes" "\<forall>q. q \<noteq> rq_path rq \<longrightarrow> ed_files st' q = ed_files st q"
    using assms(6) by (auto simp: write_effect_def cut(2))
  moreover from this have "ed_files st' = (ed_files st)(rq_path rq \<mapsto> bytes)" by auto
  ultimately show ?thesis using b cut(1) c build_match_plan_correct [OF lf plan] by blast
qed

lemma edit_reaches_write:
  assumes "parse_edit_request env args = Inr rq" "rq_old rq \<noteq> []"
    and "\<not> ee_exists_throws env" "\<not> ee_size_throws env"
    and "ed_files st (rq_path rq) = Some fl" "length fl \<le> max_edit_file_size"
    and "load_for_write env (rq_path rq) st = Inr buffer"
    and "bc_status (validate_read_baseline_for_edit (ee_fs env) (rq_path rq) (tb_text buffer) (ed_tracker st)) = BaselineOk"
    and "tb_text buffer = before @ normalize_text_to_lf (rq_old rq) @ after"
    and "str_find (normalize_text_to_lf (rq_old rq)) (before @ normalize_text_to_lf (rq_old rq)) = Some (length before)"
    and "count_occurrences (tb_text buffer) (normalize_text_to_lf (rq_old rq)) = 1"
  shows "execute_file_edit env args st = apfst Some (run_validated_write env (rq_path rq) True (tb_text buffer)
    (before @ normalize_text_to_lf (rq_new rq) @ after) (tb_metadata buffer) st)"
proof -
  let ?old = "normalize_text_to_lf (rq_old rq)" and ?new = "normalize_text_to_lf (rq_new rq)"
  let ?text = "tb_text buffer" and ?new_text = "before @ normalize_text_to_lf (rq_new rq) @ after"
  have lf: "ch_cr \<notin> set ?text" using load_for_write_Inr [OF assms(7)] by blast
  have plan: "build_match_plan ?text ?old ?new = Some (?old, ?new)"
    using lf assms(9) containsI by (simp add: build_match_plan_lf)
  obtain u v where uv: "?text = u @ ?old @ v" "replace_occurrences ?text ?old ?new (rq_replace_all rq) = u @ ?new @ v"
      "str_find ?old (u @ ?old) = Some (length u)"
    using unique_occurrence [OF assms(11)] by metis
  have "str_find ?old (u @ ?old @ v) = Some (length u)" "str_find ?old (before @ ?old @ after) = Some (length before)"
    using str_find_append_Some [OF uv(3), of v] str_find_append_Some [OF assms(10), of after] by simp_all
  then have "length u = length before" unfolding uv(1) [symmetric] assms(9) [symmetric] by simp
  moreover have "u @ ?old @ v = before @ ?old @ after" using uv(1) assms(9) by (rule trans [OF sym])
  ultimately have "u = before \<and> v = after" by simp
  then have rep: "replace_occurrences ?text ?old ?new (rq_replace_all rq) = ?new_text" using uv(2) by simp
  have "apply_edit env (rq_path rq) buffer (rq_old rq) (rq_new rq) (rq_replace_all rq) st =
      run_validated_write env (rq_path rq) True ?text ?new_text (tb_metadata buffer) st"
    using plan assms(11) rep by (simp add: apply_edit_def)
  then show ?thesis
    using assms(1-8) by (simp add: execute_file_edit_def edit_at_def check_edit_file_size_def edit_existing_def
        baseline_error_def)
qed

lemma edit_goes_through:
  assumes "parse_edit_request env args = Inr rq" "rq_old rq \<noteq> []"
    and "\<not> ee_exists_throws env" "\<not> ee_size_throws env"
    and "ed_files st (rq_path rq) = Some fl" "length fl \<le> max_edit_file_size"
    and "load_for_write env (rq_path rq) st = Inr buffer"
    and "bc_status (validate_read_baseline_for_edit (ee_fs env) (rq_path rq) (tb_text buffer) (ed_tracker st)) = BaselineOk"
    and "tb_text buffer = before @ normalize_text_to_lf (rq_old rq) @ after"
    and "str_find (normalize_text_to_lf (rq_old rq)) (before @ normalize_text_to_lf (rq_old rq)) = Some (length before)"
    and "count_occurrences (tb_text buffer) (normalize_text_to_lf (rq_old rq)) = 1"
    and "encode_text_for_write (before @ normalize_text_to_lf (rq_new rq) @ after) (tb_metadata buffer) = Inr bytes"
    and "\<not> bom_clash bytes (tb_metadata buffer)"
    and "io_first_read (ee_io env)" "io_write (ee_io env) = WriteOk" "io_second_read (ee_io env)"
  shows "\<exists>r st'. execute_file_edit env args st = (Some r, st') \<and> er_success r \<and>
    ed_files st' = (ed_files st)(rq_path rq \<mapsto> bytes)"
proof -
  let ?text = "tb_text buffer" and ?new_text = "before @ normalize_text_to_lf (rq_new rq) @ after"
  have w: "safe_write_text_file (ee_io env) (rq_path rq) ?new_text (tb_metadata buffer) (ed_files st (rq_path rq)) =
      (sw_result True [] False False, Some bytes)"
    by (rule safe_write_ok [OF assms(12-16)])
  obtain r st' where e: "run_validated_write env (rq_path rq) True ?text ?new_text (tb_metadata buffer) st = (r, st')"
    by fastforce
  then have r: "er_success r" "ed_files st' = (ed_files st)(rq_path rq \<mapsto> bytes)"
    by (auto simp: run_validated_write_def checked_write_def w note_write_def sw_result_def split: prod.splits)
  have "execute_file_edit env args st = (Some r, st')"
    using edit_reaches_write [OF assms(1-11)] e by simp
  with r show ?thesis by blast
qed

text \<open>An edit that should succeed does: for a readable file below the size limit with a valid
  baseline in which the requested text is counted once, when the new text can be encoded and the
  file operations work, the call returns success and the file holds the new text.\<close>

lemma edit_succeeds:
  assumes "parse_edit_request env args = Inr rq" "rq_old rq \<noteq> []"
    and "\<not> ee_exists_throws env" "\<not> ee_size_throws env"
    and "ed_files st (rq_path rq) = Some fl" "length fl \<le> max_edit_file_size"
    and "load_for_write env (rq_path rq) st = Inr buffer"
    and "bc_status (validate_read_baseline_for_edit (ee_fs env) (rq_path rq) (tb_text buffer) (ed_tracker st)) = BaselineOk"
    and "tb_text buffer = before @ normalize_text_to_lf (rq_old rq) @ after"
    and "str_find (normalize_text_to_lf (rq_old rq)) (before @ normalize_text_to_lf (rq_old rq)) = Some (length before)"
    and "count_occurrences (tb_text buffer) (normalize_text_to_lf (rq_old rq)) = 1"
    and "encode_text_for_write (before @ normalize_text_to_lf (rq_new rq) @ after) (tb_metadata buffer) = Inr bytes"
    and "\<not> bom_clash bytes (tb_metadata buffer)"
    and "io_first_read (ee_io env)" "io_write (ee_io env) = WriteOk" "io_second_read (ee_io env)"
  shows "\<exists>r st'. execute_file_edit env args st = (Some r, st') \<and> er_success r \<and>
    ed_files st' = (ed_files st)(rq_path rq \<mapsto> bytes)"
  using assms by (rule edit_goes_through)

text \<open>Occurrences that overlap count once, so a text that overlaps itself passes for unique.\<close>

lemma overlapping_matches_count_once:
  "count_occurrences ''aaa'' ''aa'' = 1" "''aaa'' = ''aa'' @ ''a''" "''aaa'' = ''a'' @ ''aa''"
proof -
  show "count_occurrences ''aaa'' ''aa'' = 1" by code_simp
qed simp_all

section \<open>An edit of a file\<close>

text \<open>A concrete world: one file that was read, and a clock that does not move.\<close>

definition plain_fs :: tracker_fs where
  "plain_fs = \<lparr>tf_weakly_canonical = Some, tf_absolute = Some, tf_lexically_normal = (\<lambda>p. p), tf_last_write_time = (\<lambda>_. Some 7)\<rparr>"

definition sample_env :: "json \<Rightarrow> edit_env" where
  "sample_env j = \<lparr>ee_parse = (\<lambda>_. Inr j), ee_scratch_dir = [], ee_cwd = ''/w'', ee_current_path = ''/w'',
     ee_exists_throws = False, ee_size_throws = False, ee_can_read = True, ee_io = good_io, ee_fs = plain_fs,
     ee_fs_after = plain_fs, ee_checkpoint_hook = Some (\<lambda>_. False), ee_icon = (\<lambda>_. ''E''), ee_diagnostics = (\<lambda>_ out. out)\<rparr>"

definition sample_state :: edit_state where
  "sample_state = \<lparr>ed_tracker = record_read plain_fs ''/w/f'' ''say a b'' False no_metadata new_tracker,
     ed_files = [''/w/f'' \<mapsto> ''say a b''], ed_hook_calls = []\<rparr>"

definition sample_args :: "string \<Rightarrow> string \<Rightarrow> json" where
  "sample_args old new = JObj [(''file_path'', JStr ''/w/f''), (''old_string'', JStr old), (''new_string'', JStr new)]"

abbreviation sample_result :: "string \<Rightarrow> string \<Rightarrow> edit_result option \<times> edit_state" where
  "sample_result old new \<equiv> execute_file_edit (sample_env (sample_args old new)) [] sample_state"

definition sample_buffer :: text_buffer where
  "sample_buffer = \<lparr>tb_path = ''/w/f'', tb_raw_bytes = ''say a b'', tb_text = ''say a b'',
     tb_metadata = fresh_metadata\<lparr>tm_line_ending := EndNone\<rparr>\<rparr>"

definition sample_rq :: edit_request where
  "sample_rq = \<lparr>rq_path = ''/w/f'', rq_old = ''b'', rq_new = ''xy'', rq_replace_all = False\<rparr>"

abbreviation edit_env1 :: edit_env where
  "edit_env1 \<equiv> sample_env (sample_args ''b'' ''xy'')"

lemma sample_request: "parse_edit_request edit_env1 [] = Inr sample_rq"
  by code_simp

lemma sample_load: "load_for_write edit_env1 (rq_path sample_rq) sample_state = Inr sample_buffer"
  by code_simp

lemma sample_baseline:
  "bc_status (validate_read_baseline_for_edit (ee_fs edit_env1) (rq_path sample_rq) (tb_text sample_buffer)
     (ed_tracker sample_state)) = BaselineOk"
  by code_simp

lemma sample_match:
  "tb_text sample_buffer = ''say a '' @ normalize_text_to_lf (rq_old sample_rq) @ []"
  "str_find (normalize_text_to_lf (rq_old sample_rq)) (''say a '' @ normalize_text_to_lf (rq_old sample_rq)) = Some (length ''say a '')"
  "count_occurrences (tb_text sample_buffer) (normalize_text_to_lf (rq_old sample_rq)) = 1"
proof -
  show "tb_text sample_buffer = ''say a '' @ normalize_text_to_lf (rq_old sample_rq) @ []" by code_simp
  show "str_find (normalize_text_to_lf (rq_old sample_rq)) (''say a '' @ normalize_text_to_lf (rq_old sample_rq)) =
    Some (length ''say a '')" by code_simp
  show "count_occurrences (tb_text sample_buffer) (normalize_text_to_lf (rq_old sample_rq)) = 1" by code_simp
qed

lemma sample_encode:
  "encode_text_for_write (''say a '' @ normalize_text_to_lf (rq_new sample_rq) @ []) (tb_metadata sample_buffer) = Inr ''say a xy''"
  by code_simp

lemma sample_misc:
  "rq_old sample_rq \<noteq> []" "rq_path sample_rq = ''/w/f''" "\<not> rq_replace_all sample_rq"
  "\<not> ee_exists_throws edit_env1" "\<not> ee_size_throws edit_env1"
  "ed_files sample_state ''/w/f'' = Some ''say a b''" "length ''say a b'' \<le> max_edit_file_size"
  "\<not> bom_clash ''say a xy'' (tb_metadata sample_buffer)"
  "io_first_read (ee_io edit_env1)" "io_write (ee_io edit_env1) = WriteOk" "io_second_read (ee_io edit_env1)"
  "io_undo (ee_io edit_env1) = WriteOk" "ee_fs_after edit_env1 = plain_fs"
  by (simp_all add: sample_rq_def sample_env_def sample_state_def max_edit_file_size_def good_io_def sample_buffer_def
      bom_clash_def fresh_metadata_def)

lemma sample_edit:
  obtains r st' where "execute_file_edit edit_env1 [] sample_state = (Some r, st')"
    "er_success r" "ed_files st' = (ed_files sample_state)(''/w/f'' \<mapsto> ''say a xy'')"
  using edit_goes_through [OF sample_request sample_misc(1,4,5) sample_misc(6) [folded sample_misc(2)] sample_misc(7)
      sample_load sample_baseline sample_match sample_encode sample_misc(8-11)] sample_misc(2) by metis

lemma edit_succeeds_witness:
  "\<exists>r st'. execute_file_edit edit_env1 [] sample_state = (Some r, st') \<and> er_success r \<and>
     ed_files st' ''/w/f'' = Some ''say a xy''"
  using edit_succeeds [OF sample_request sample_misc(1,4,5) sample_misc(6) [folded sample_misc(2)] sample_misc(7)
      sample_load sample_baseline sample_match sample_encode sample_misc(8-11)] sample_misc(2)
  by (metis fun_upd_same)

lemma edit_replaces_unique_match_witness:
  "\<exists>r st' buffer before actual_old after actual_new. execute_file_edit edit_env1 [] sample_state = (Some r, st') \<and>
     load_for_write edit_env1 ''/w/f'' sample_state = Inr buffer \<and> tb_text buffer = before @ actual_old @ after \<and>
     encode_text_for_write (before @ actual_new @ after) (tb_metadata buffer) = Inr ''say a xy''"
proof -
  obtain r st' where e: "execute_file_edit edit_env1 [] sample_state = (Some r, st')" "er_success r"
    "ed_files st' = (ed_files sample_state)(''/w/f'' \<mapsto> ''say a xy'')" by (rule sample_edit)
  have "io_write (ee_io edit_env1) \<noteq> LostOnClose n" for n using sample_misc(10) by simp
  from edit_replaces_unique_match [OF e(1,2) sample_request sample_misc(1,3) this] e(3) sample_misc(2)
  obtain buffer before actual_old after actual_new bytes
    where *: "load_for_write edit_env1 ''/w/f'' sample_state = Inr buffer" "tb_text buffer = before @ actual_old @ after"
      "encode_text_for_write (before @ actual_new @ after) (tb_metadata buffer) = Inr bytes"
      "(ed_files sample_state)(''/w/f'' \<mapsto> ''say a xy'') = (ed_files sample_state)(''/w/f'' \<mapsto> bytes)"
    by metis
  from *(4) have "bytes = ''say a xy''" by (metis fun_upd_same option.inject)
  with e(1) * show ?thesis by blast
qed

theorem changes_need_baseline_and_hook_call_witness:
  "\<exists>out st'. run_call edit_env1 (EditCall []) sample_state = (out, st') \<and>
     ed_files st' ''/w/f'' = Some ''say a xy'' \<and> ed_hook_calls st' = [(''/w/f'', Some ''say a b'', False)]"
proof -
  obtain r st' where e: "execute_file_edit edit_env1 [] sample_state = (Some r, st')"
    "ed_files st' = (ed_files sample_state)(''/w/f'' \<mapsto> ''say a xy'')" by (rule sample_edit)
  have r: "run_call edit_env1 (EditCall []) sample_state = (Some r, st')" using e(1) by simp
  have "ed_files st' ''/w/f'' \<noteq> ed_files sample_state ''/w/f''" using e(2) sample_misc(6) by simp
  then have "ed_files st' \<noteq> ed_files sample_state" by metis
  from changes_need_baseline_and_hook_call [OF r this] obtain path
    where p: "ed_files st' = (ed_files sample_state)(path := ed_files st' path)"
      "ed_hook_calls st' = [(path, ed_files sample_state path, False)]"
    by (auto simp: sample_env_def sample_state_def)
  from p(1) have "path = ''/w/f''"
    using \<open>ed_files st' ''/w/f'' \<noteq> ed_files sample_state ''/w/f''\<close> by (metis fun_upd_other)
  with r e(2) p(2) sample_misc(6) show ?thesis by simp
qed

lemma written_file_has_baseline_witness:
  "\<exists>r st' path new. run_call edit_env1 (EditCall []) sample_state = (Some r, st') \<and>
     bc_status (validate_read_baseline_for_edit plain_fs path new (ed_tracker st')) = BaselineOk"
proof -
  obtain r st' where e: "execute_file_edit edit_env1 [] sample_state = (Some r, st')" "er_success r" by (rule sample_edit)
  have r: "run_call edit_env1 (EditCall []) sample_state = (Some r, st')" using e(1) by simp
  have "tf_last_write_time (ee_fs_after edit_env1) (tracker_path_key (ee_fs_after edit_env1) p) = Some 7" for p
    by (simp add: sample_misc(13) plain_fs_def)
  moreover have "io_write (ee_io edit_env1) \<noteq> LostOnClose n" for n using sample_misc(10) by simp
  ultimately obtain path new where
    "\<forall>fs now current. tracker_path_key fs path = tracker_path_key (ee_fs_after edit_env1) path \<longrightarrow>
       tf_last_write_time fs (tracker_path_key fs path) = Some now \<longrightarrow>
       bc_status (validate_read_baseline_for_edit fs path current (ed_tracker st')) =
         (if now = 7 \<or> current = new then BaselineOk else ExternallyModified)"
    using written_file_has_baseline [OF r e(2), of 7] by blast
  from this [rule_format, of plain_fs 7 new]
  have "bc_status (validate_read_baseline_for_edit plain_fs path new (ed_tracker st')) = BaselineOk"
    by (simp add: sample_misc(13) plain_fs_def)
  with r show ?thesis by blast
qed

text \<open>The file cannot be read back after the write, which is undone.\<close>

definition unreadable_env :: edit_env where
  "unreadable_env = edit_env1\<lparr>ee_io := good_io\<lparr>io_second_read := False\<rparr>\<rparr>"

lemma run_validated_write_fails:
  "\<not> sw_success (fst (safe_write_text_file (ee_io env) path new md (ed_files st path))) \<Longrightarrow>
     \<not> er_success (fst (run_validated_write env path existed old new md st))"
  by (auto simp: run_validated_write_def checked_write_def plain_result_def split: prod.splits)

lemma unreadable_edit: "map_option er_success (fst (run_call unreadable_env (EditCall []) sample_state)) = Some False"
proof -
  have l: "load_for_write unreadable_env (rq_path sample_rq) sample_state = Inr sample_buffer" by code_simp
  have p: "parse_edit_request unreadable_env [] = Inr sample_rq" by code_simp
  have m: "\<not> ee_exists_throws unreadable_env" "\<not> ee_size_throws unreadable_env" "ee_fs unreadable_env = ee_fs edit_env1"
    using sample_misc(4,5) by (simp_all add: unreadable_env_def)
  have "\<not> sw_success (fst (safe_write_text_file (ee_io unreadable_env) ''/w/f'' (''say a '' @ normalize_text_to_lf (rq_new sample_rq) @ [])
      (tb_metadata sample_buffer) (Some ''say a b'')))"
    unfolding safe_write_text_file_def sample_encode
    by (simp add: unreadable_env_def good_io_def read_raw_file_def write_raw_file_def verify_write_def sw_result_def)
  then have "\<not> er_success (fst (run_validated_write unreadable_env (rq_path sample_rq) True (tb_text sample_buffer)
      (''say a '' @ normalize_text_to_lf (rq_new sample_rq) @ []) (tb_metadata sample_buffer) sample_state))"
    by (intro run_validated_write_fails) (simp only: sample_misc(2,6) not_False_eq_True)
  then show ?thesis
    unfolding run_call.simps edit_reaches_write [OF p sample_misc(1) m(1,2) sample_misc(6) [folded sample_misc(2)]
        sample_misc(7) l sample_baseline [folded m(3)] sample_match]
    by (simp only: fst_apfst option.map simp_thms)
qed

theorem failed_call_keeps_files_witness:
  "map_option er_success (fst (run_call unreadable_env (EditCall []) sample_state)) = Some False \<and>
   ed_files (snd (run_call unreadable_env (EditCall []) sample_state)) ''/w/f'' = Some ''say a b''"
proof -
  obtain out st' where r: "run_call unreadable_env (EditCall []) sample_state = (out, st')" by fastforce
  have "\<forall>x. out = Some x \<longrightarrow> \<not> er_success x" using unreadable_edit r by auto
  from failed_call_keeps_files [OF r this, of "''/w/f''"] sample_misc(6)
  have "ed_files st' ''/w/f'' = Some ''say a b''" by (simp add: unreadable_env_def good_io_def)
  with unreadable_edit r show ?thesis by simp
qed

end
