(* ===== verification/SortedMap.thy ===== *)
theory SortedMap
  imports Prelude
begin

text \<open>
  A \<open>std::map\<close> with string keys as the list of its entries in the order of the keys: what an insertion
  makes of it, and the lemmas the components that keep such maps share.
\<close>

text \<open>Insertion: a key that is there keeps its place and gets the new value.\<close>

fun put_sorted :: "string \<Rightarrow> 'a \<Rightarrow> (string \<times> 'a) list \<Rightarrow> (string \<times> 'a) list" where
  "put_sorted k v [] = [(k, v)]"
| "put_sorted k v ((k', v') # m) =
     (if k < k' then (k, v) # (k', v') # m
      else if k = k' then (k, v) # m
      else (k', v') # put_sorted k v m)"

lemma map_of_put_sorted [simp]: "map_of (put_sorted k v m) = (map_of m)(k \<mapsto> v)"
  by (induction k v m rule: put_sorted.induct) auto

lemma keys_put_sorted [simp]: "fst ` set (put_sorted k v m) = insert k (fst ` set m)"
  by (induction k v m rule: put_sorted.induct) auto

abbreviation table :: "(string \<times> 'a) list \<Rightarrow> bool" where
  "table m \<equiv> sorted_wrt (<) (map fst m)"

lemma table_put_sorted: "table m \<Longrightarrow> table (put_sorted k v m)"
proof (induction k v m rule: put_sorted.induct)
  case (2 k v k' v' m)
  then have "\<forall>x \<in> fst ` set (put_sorted k v m). k' < x" if "\<not> k < k'" "k \<noteq> k'"
    using that by auto
  with 2 show ?case by (auto intro: less_trans)
qed simp

lemma table_distinct: "table m \<Longrightarrow> distinct (map fst m)"
  by (rule strict_sorted_distinct)

lemma put_sorted_last: "table (m @ [(k, v)]) \<Longrightarrow> put_sorted k v m = m @ [(k, v)]"
proof (induction m)
  case (Cons e m)
  obtain k' v' where "e = (k', v')" by fastforce
  with Cons have "k' < k" "put_sorted k v m = m @ [(k, v)]" by auto
  with \<open>e = (k', v')\<close> show ?case by auto
qed simp

lemma fold_put_sorted: "table (a @ m) \<Longrightarrow> fold (\<lambda>(k, v). put_sorted k v) m a = a @ m"
proof (induction m arbitrary: a)
  case (Cons e m)
  obtain k v where e: "e = (k, v)" by fastforce
  have "table ((a @ [(k, v)]) @ m)" using Cons.prems by (simp add: e)
  moreover have "table (a @ [(k, v)])" using Cons.prems by (simp add: e sorted_wrt_append)
  ultimately show ?case using Cons.IH [of "a @ [(k, v)]"] by (simp add: e put_sorted_last)
qed simp

end
