(* ===== verification/Checkpoints.thy ===== *)
theory Checkpoints
  imports HistoryRecovery Diff ScratchPath Hashing SortedMap
begin

text \<open>
  \<open>session/file_checkpoint_store.cpp\<close> and \<open>session/session_rewind.cpp\<close>: before a tool changes a file, its
  old content is copied into the session's checkpoint directory, and \<open>/rewind\<close> to a user message puts the
  files back.  Every user turn opens a snapshot, which inherits the backups of the one before.  Snapshots
  are written to the session journal as messages and read back when the session is resumed.

  The contents of the workspace's files and of the backups are two maps (the checkpoint directory is no
  tracked file); permission bits are left out.  What can fail in the file system is the record
  \<open>checkpoint_io\<close>; time stamps and fresh ids are arguments.  The lemmas show that a rewind puts every file
  that was captured in the turn back to the content it was captured with, what that leaves out (changes made
  before the first backup, and writes whose backup failed), that the preview shown
  before a rewind lists exactly what it changes, and that the journal replays to the same snapshots.
\<close>

unbundle bit_operations_syntax

section \<open>Data\<close>

record file_backup =
  fb_file_name :: string
  fb_version :: int
  fb_time :: string
  fb_absent :: bool

record file_snapshot =
  sn_uuid :: string
  sn_message_uuid :: string
  sn_backups :: "(string \<times> file_backup) list"
  sn_timestamp :: string

record checkpoint_store =
  cs_project_dir :: string
  cs_session_id :: string
  cs_max_snapshots :: nat
  cs_snapshots :: "file_snapshot list"
  cs_tracked_files :: "string list"
  cs_active_uuid :: string
  cs_captured :: "string list"

record checkpoint_disk =
  cd_files :: "string \<Rightarrow> string option"
  cd_backups :: "string \<times> string \<times> string \<Rightarrow> string option"

text \<open>What the file system may do: the canonical form of a path, what a failed backup copy leaves behind,
  what a failed restore says and leaves behind, a failed removal, unreadable files and backups, a failed
  \<open>exists\<close>, garbage that cannot be removed, and backups that can be neither linked nor copied.\<close>

record checkpoint_io =
  ci_scope :: scope_fs
  ci_backup_fails :: "string \<Rightarrow> string option option"
  ci_restore_fails :: "string \<Rightarrow> (string \<times> string option) option"
  ci_remove_fails :: "string \<Rightarrow> string option"
  ci_file_readable :: "string \<Rightarrow> bool"
  ci_backup_readable :: "string \<Rightarrow> bool"
  ci_exists_fails :: "string \<Rightarrow> string option"
  ci_keeps_garbage :: "string \<Rightarrow> bool"
  ci_fork_fails :: "string \<Rightarrow> bool"

definition insert_sorted :: "string \<Rightarrow> string list \<Rightarrow> string list" where
  "insert_sorted x s = map fst (put_sorted x () (map (\<lambda>y. (y, ())) s))"

section \<open>Names\<close>

definition fnv1a_64 :: "string \<Rightarrow> 64 word" where
  "fnv1a_64 s = foldl (\<lambda>h c. (h XOR of_nat (byte c)) * 1099511628211) 14695981039346656037 s"

definition hash_hex16 :: "string \<Rightarrow> string" where
  "hash_hex16 s = map (\<lambda>i. hex_digit (unat (drop_bit (4 * i) (fnv1a_64 s) AND 15))) (rev [0..<16])"

definition make_backup_file_name :: "string \<Rightarrow> int \<Rightarrow> string" where
  "make_backup_file_name tracking_path version = hash_hex16 tracking_path @ ''@v'' @ show_int version"

definition normalize_tracking_path :: "scope_fs \<Rightarrow> string \<Rightarrow> string" where
  "normalize_tracking_path fs file_path =
     (let p = (case sc_weakly_canonical fs file_path of
            Some c \<Rightarrow> c
          | None \<Rightarrow> (case sc_absolute fs file_path of Some a \<Rightarrow> a | None \<Rightarrow> file_path))
      in forward_slashes (lexically_normal p))"

text \<open>Where a backup lies: project, session, name.\<close>

definition backup_key :: "checkpoint_store \<Rightarrow> string \<Rightarrow> string \<times> string \<times> string" where
  "backup_key st name = (cs_project_dir st, cs_session_id st, name)"

definition backup_path :: "checkpoint_store \<Rightarrow> string \<Rightarrow> string" where
  "backup_path st name =
     path_append (path_append (path_append (cs_project_dir st) ''file-checkpoints'') (cs_session_id st)) name"

definition next_version_for :: "checkpoint_store \<Rightarrow> string \<Rightarrow> int" where
  "next_version_for st tracking_path =
     foldl (\<lambda>latest s. case map_of (sn_backups s) tracking_path of
       Some b \<Rightarrow> max latest (fb_version b) | None \<Rightarrow> latest) 0 (cs_snapshots st) + 1"

section \<open>Snapshots\<close>

definition new_checkpoint_store :: "nat \<Rightarrow> checkpoint_store" where
  "new_checkpoint_store max_snapshots =
     \<lparr>cs_project_dir = [], cs_session_id = [], cs_max_snapshots = (if max_snapshots = 0 then 1 else max_snapshots),
      cs_snapshots = [], cs_tracked_files = [], cs_active_uuid = [], cs_captured = []\<rparr>"

definition set_session :: "string \<Rightarrow> string \<Rightarrow> checkpoint_store \<Rightarrow> checkpoint_store" where
  "set_session project session st = st\<lparr>cs_project_dir := project, cs_session_id := session\<rparr>"

definition reset_store :: "checkpoint_store \<Rightarrow> checkpoint_store" where
  "reset_store st = st\<lparr>cs_snapshots := [], cs_tracked_files := [], cs_active_uuid := [], cs_captured := []\<rparr>"

definition referenced_backups :: "checkpoint_store \<Rightarrow> string set" where
  "referenced_backups st =
     set [fb_file_name b. s \<leftarrow> cs_snapshots st, (p, b) \<leftarrow> sn_backups s, \<not> fb_absent b \<and> fb_file_name b \<noteq> []]"

definition cleanup_unreferenced_backups :: "checkpoint_io \<Rightarrow> checkpoint_store \<Rightarrow> checkpoint_disk \<Rightarrow> checkpoint_disk" where
  "cleanup_unreferenced_backups io st d =
     (if cs_project_dir st = [] \<or> cs_session_id st = [] then d
      else d\<lparr>cd_backups := (\<lambda>(project, session, name).
        if project = cs_project_dir st \<and> session = cs_session_id st \<and> name \<notin> referenced_backups st \<and>
           \<not> ci_keeps_garbage io name
        then None else cd_backups d (project, session, name))\<rparr>)"

definition enforce_snapshot_cap ::
  "checkpoint_io \<Rightarrow> checkpoint_store \<times> checkpoint_disk \<Rightarrow> checkpoint_store \<times> checkpoint_disk" where
  "enforce_snapshot_cap io = (\<lambda>(st, d).
     (let st1 = st\<lparr>cs_snapshots := drop (length (cs_snapshots st) - cs_max_snapshots st) (cs_snapshots st)\<rparr>
      in (st1, cleanup_unreferenced_backups io st1 d)))"

definition make_snapshot ::
  "checkpoint_io \<Rightarrow> string \<Rightarrow> string \<Rightarrow> string \<Rightarrow> checkpoint_store \<times> checkpoint_disk \<Rightarrow>
     file_snapshot \<times> checkpoint_store \<times> checkpoint_disk" where
  "make_snapshot io new_uuid now user_message_uuid = (\<lambda>(st, d).
     (let s = \<lparr>sn_uuid = new_uuid, sn_message_uuid = user_message_uuid,
            sn_backups = (if cs_snapshots st \<noteq> [] then sn_backups (last (cs_snapshots st)) else []),
            sn_timestamp = now\<rparr>;
          res = enforce_snapshot_cap io
            (st\<lparr>cs_snapshots := cs_snapshots st @ [s], cs_active_uuid := user_message_uuid, cs_captured := []\<rparr>, d)
      in (last (cs_snapshots (fst res)), res)))"

text \<open>The last snapshot of a message: its index.\<close>

definition find_snapshot_index :: "string \<Rightarrow> file_snapshot list \<Rightarrow> nat option" where
  "find_snapshot_index message_uuid ss =
     find (\<lambda>i. sn_message_uuid (ss ! i) = message_uuid) (rev [0..<length ss])"

definition find_snapshot :: "checkpoint_store \<Rightarrow> string \<Rightarrow> file_snapshot option" where
  "find_snapshot st message_uuid =
     map_option (nth (cs_snapshots st)) (find_snapshot_index message_uuid (cs_snapshots st))"

definition find_active_snapshot :: "checkpoint_store \<Rightarrow> nat option" where
  "find_active_snapshot st =
     (if cs_active_uuid st = [] then None else find_snapshot_index (cs_active_uuid st) (cs_snapshots st))"

definition can_restore :: "checkpoint_store \<Rightarrow> string \<Rightarrow> bool" where
  "can_restore st message_uuid \<longleftrightarrow> find_snapshot st message_uuid \<noteq> None"

text \<open>Copying the file away, or noting its absence.  A failed copy ends the call.\<close>

definition take_backup ::
  "checkpoint_io \<Rightarrow> string \<Rightarrow> string \<Rightarrow> checkpoint_store \<Rightarrow> checkpoint_disk \<Rightarrow> file_backup option \<times> checkpoint_disk" where
  "take_backup io now path st d =
     (let version = next_version_for st path
      in case cd_files d path of
           None \<Rightarrow> (Some \<lparr>fb_file_name = [], fb_version = version, fb_time = now, fb_absent = True\<rparr>, d)
         | Some bytes \<Rightarrow>
             (let name = make_backup_file_name path version; key = backup_key st name
              in case ci_backup_fails io path of
                   Some left_behind \<Rightarrow> (None, d\<lparr>cd_backups := (cd_backups d)(key := left_behind)\<rparr>)
                 | None \<Rightarrow>
                     (Some \<lparr>fb_file_name = name, fb_version = version, fb_time = now, fb_absent = False\<rparr>,
                      d\<lparr>cd_backups := (cd_backups d)(key \<mapsto> bytes)\<rparr>)))"

definition track_before_write ::
  "checkpoint_io \<Rightarrow> string \<Rightarrow> string \<Rightarrow> checkpoint_store \<times> checkpoint_disk \<Rightarrow>
     file_snapshot option \<times> checkpoint_store \<times> checkpoint_disk" where
  "track_before_write io now file_path = (\<lambda>(st, d).
     (case find_active_snapshot st of
        None \<Rightarrow> (None, st, d)
      | Some i \<Rightarrow>
          if cs_project_dir st = [] \<or> cs_session_id st = [] then (None, st, d)
          else let path = normalize_tracking_path (ci_scope io) file_path
            in if path \<in> set (cs_captured st) then (None, st, d)
               else case take_backup io now path st d of
                 (None, d1) \<Rightarrow> (None, st, d1)
               | (Some b, d1) \<Rightarrow>
                   (let s = (cs_snapshots st ! i)
                          \<lparr>sn_backups := put_sorted path b (sn_backups (cs_snapshots st ! i)), sn_timestamp := now\<rparr>
                    in (Some s,
                        st\<lparr>cs_snapshots := (cs_snapshots st)[i := s],
                           cs_tracked_files := insert_sorted path (cs_tracked_files st),
                           cs_captured := insert_sorted path (cs_captured st)\<rparr>, d1))))"

section \<open>Rewinding\<close>

record restore_result =
  rr_files_changed :: "string list"
  rr_errors :: "string list"

definition changed_file :: "string \<Rightarrow> restore_result \<Rightarrow> restore_result" where
  "changed_file p r = r\<lparr>rr_files_changed := rr_files_changed r @ [p]\<rparr>"

definition restore_error :: "string \<Rightarrow> restore_result \<Rightarrow> restore_result" where
  "restore_error e r = r\<lparr>rr_errors := rr_errors r @ [e]\<rparr>"

definition set_file :: "string \<Rightarrow> string option \<Rightarrow> checkpoint_disk \<Rightarrow> checkpoint_disk" where
  "set_file p c d = d\<lparr>cd_files := (cd_files d)(p := c)\<rparr>"

text \<open>One round of the loop: a file that was absent is deleted, another is copied back unless it is as it was.\<close>

definition restore_entry ::
  "checkpoint_io \<Rightarrow> checkpoint_store \<Rightarrow> string \<times> file_backup \<Rightarrow> restore_result \<times> checkpoint_disk \<Rightarrow>
     restore_result \<times> checkpoint_disk" where
  "restore_entry io st = (\<lambda>(p, b) (r, d).
     (if fb_absent b then
        (case cd_files d p of
           None \<Rightarrow> (r, d)
         | Some _ \<Rightarrow>
             (case ci_remove_fails io p of
                Some what \<Rightarrow> (restore_error (''Failed to delete '' @ p @ '': '' @ what) r, d)
              | None \<Rightarrow> (changed_file p r, set_file p None d)))
      else case cd_backups d (backup_key st (fb_file_name b)) of
        None \<Rightarrow> (restore_error (''Backup missing for '' @ p) r, d)
      | Some bytes \<Rightarrow>
          (let current = (if ci_file_readable io p then cd_files d p else None);
               target = (if ci_backup_readable io (fb_file_name b) then Some bytes else None)
           in if current \<noteq> None \<and> target \<noteq> None \<and> current = target then (r, d)
              else case ci_restore_fails io p of
                Some (what, left_behind) \<Rightarrow>
                  (restore_error (''Failed to restore '' @ p @ '': '' @ what) r, set_file p left_behind d)
              | None \<Rightarrow> (changed_file p r, set_file p (Some bytes) d))))"

definition rewind_to ::
  "checkpoint_io \<Rightarrow> string \<Rightarrow> checkpoint_store \<Rightarrow> checkpoint_disk \<Rightarrow> restore_result \<times> checkpoint_disk" where
  "rewind_to io message_uuid st d =
     (case find_snapshot st message_uuid of
        None \<Rightarrow> (\<lparr>rr_files_changed = [], rr_errors = [''No file checkpoint found for this message.'']\<rparr>, d)
      | Some s \<Rightarrow> fold (restore_entry io st) (sn_backups s) (\<lparr>rr_files_changed = [], rr_errors = []\<rparr>, d))"

section \<open>Previews\<close>

record diff_summary =
  df_files_changed :: "string list"
  df_insertions :: nat
  df_deletions :: nat
  df_errors :: "string list"

definition diff_entry ::
  "checkpoint_io \<Rightarrow> checkpoint_store \<Rightarrow> checkpoint_disk \<Rightarrow> string \<times> file_backup \<Rightarrow> diff_summary \<Rightarrow> diff_summary" where
  "diff_entry io st d = (\<lambda>(p, b) r.
     (let target = (if fb_absent b then Some []
            else case cd_backups d (backup_key st (fb_file_name b)) of
              Some bytes \<Rightarrow> if ci_backup_readable io (fb_file_name b) then Some bytes else None
            | None \<Rightarrow> None);
          current = (case cd_files d p of
              Some bytes \<Rightarrow> if ci_file_readable io p then Some bytes else None
            | None \<Rightarrow> Some [])
      in case target of
           None \<Rightarrow> r\<lparr>df_errors := df_errors r @ [''Missing backup for '' @ p @ '': cannot open '' @ backup_path st (fb_file_name b)]\<rparr>
         | Some wanted \<Rightarrow>
             (case current of
                None \<Rightarrow> r\<lparr>df_errors := df_errors r @ [''Cannot read current file '' @ p]\<rparr>
              | Some now \<Rightarrow>
                  if (cd_files d p \<noteq> None) = (\<not> fb_absent b) \<and> now = wanted then r
                  else case generate_unified_diff now wanted p of
                    (diff, stats) \<Rightarrow>
                      r\<lparr>df_files_changed := df_files_changed r @ [p],
                        df_insertions := df_insertions r + additions stats,
                        df_deletions := df_deletions r + deletions stats\<rparr>)))"

definition checkpoint_diff_stats ::
  "checkpoint_io \<Rightarrow> string \<Rightarrow> checkpoint_store \<Rightarrow> checkpoint_disk \<Rightarrow> diff_summary" where
  "checkpoint_diff_stats io message_uuid st d =
     (let start = \<lparr>df_files_changed = [], df_insertions = 0, df_deletions = 0, df_errors = []\<rparr>
      in case find_snapshot st message_uuid of
           None \<Rightarrow> start
         | Some s \<Rightarrow> fold (diff_entry io st d) (sn_backups s) start)"

text \<open>The display path: relative to the workspace when the file lies in it.  On normalized paths
  \<open>lexically_relative\<close> is free of dot-dot components exactly when the names of the root come first.\<close>

definition turn_diff_display_path :: "scope_fs \<Rightarrow> string \<Rightarrow> string \<Rightarrow> string" where
  "turn_diff_display_path fs tracking_path workspace_root =
     (if workspace_root = [] then tracking_path
      else let canonical = (\<lambda>p. lexically_normal (case sc_weakly_canonical fs p of Some c \<Rightarrow> c | None \<Rightarrow> p));
               path = canonical tracking_path; root = canonical workspace_root;
               rest = drop (length (path_names root)) (path_names path)
        in if is_absolute_path path = is_absolute_path root \<and> prefix (path_names root) (path_names path) \<and>
              ''..'' \<notin> set rest
           then (if rest = [] then ''.'' else join_with slash rest)
           else tracking_path)"

record net_diff_file =
  nf_file :: string
  nf_additions :: nat
  nf_deletions :: nat
  nf_hunks :: "diff_hunk list"

record net_diff =
  nd_user_message_uuid :: string
  nd_complete :: bool
  nd_files :: "net_diff_file list"
  nd_errors :: "string list"

definition net_diff_error :: "string \<Rightarrow> net_diff \<Rightarrow> net_diff" where
  "net_diff_error e r = r\<lparr>nd_complete := False, nd_errors := nd_errors r @ [e]\<rparr>"

definition net_diff_entry ::
  "checkpoint_io \<Rightarrow> checkpoint_store \<Rightarrow> checkpoint_disk \<Rightarrow> string \<Rightarrow> file_snapshot \<Rightarrow> string \<Rightarrow> net_diff \<Rightarrow> net_diff" where
  "net_diff_entry io st d workspace_root s p r =
     (case map_of (sn_backups s) p of
        None \<Rightarrow> net_diff_error (''Missing checkpoint metadata for '' @ p) r
      | Some b \<Rightarrow>
          (case (if fb_absent b then Some []
                 else if ci_backup_readable io (fb_file_name b) then cd_backups d (backup_key st (fb_file_name b)) else None) of
             None \<Rightarrow> net_diff_error (''Missing backup for '' @ p @ '': cannot open '' @ backup_path st (fb_file_name b)) r
           | Some old \<Rightarrow>
               (case ci_exists_fails io p of
                  Some what \<Rightarrow> net_diff_error (''Cannot inspect current file '' @ p @ '': '' @ what) r
                | None \<Rightarrow>
                    (case cd_files d p of
                       Some bytes \<Rightarrow>
                         if \<not> ci_file_readable io p
                         then net_diff_error (''Cannot read current file '' @ p @ '': cannot open '' @ p) r
                         else if \<not> fb_absent b \<and> old = bytes then r
                         else (let name = turn_diff_display_path (ci_scope io) p workspace_root;
                                   hunks = generate_structured_diff old bytes
                           in r\<lparr>nd_files := nd_files r @ [\<lparr>nf_file = name, nf_additions = count_kind Added hunks,
                                nf_deletions = count_kind Removed hunks, nf_hunks = hunks\<rparr>]\<rparr>)
                     | None \<Rightarrow>
                         if fb_absent b then r
                         else (let name = turn_diff_display_path (ci_scope io) p workspace_root;
                                   hunks = generate_structured_diff old []
                           in r\<lparr>nd_files := nd_files r @ [\<lparr>nf_file = name, nf_additions = count_kind Added hunks,
                                nf_deletions = count_kind Removed hunks, nf_hunks = hunks\<rparr>]\<rparr>)))))"

definition build_active_turn_net_diff ::
  "checkpoint_io \<Rightarrow> string \<Rightarrow> checkpoint_store \<Rightarrow> checkpoint_disk \<Rightarrow> net_diff" where
  "build_active_turn_net_diff io workspace_root st d =
     (let start = \<lparr>nd_user_message_uuid = cs_active_uuid st, nd_complete = True, nd_files = [], nd_errors = []\<rparr>
      in case find_snapshot st (cs_active_uuid st) of
           None \<Rightarrow> net_diff_error ''No active file checkpoint found for this turn.'' start
         | Some s \<Rightarrow> fold (net_diff_entry io st d workspace_root s) (cs_captured st) start)"

section \<open>The journal\<close>

definition encode_backup :: "file_backup \<Rightarrow> json" where
  "encode_backup b = JObj
     ([(''absent'', JBool (fb_absent b))] @
      (if fb_file_name b \<noteq> [] then [(''backup_file_name'', JStr (fb_file_name b))] else []) @
      [(''backup_time'', JStr (fb_time b)), (''version'', JInt (fb_version b))])"

definition decode_backup :: "json \<Rightarrow> file_backup option" where
  "decode_backup j =
     (if \<not> is_object j then None
      else let b = \<lparr>fb_file_name = (case field j ''backup_file_name'' of Some (JStr s) \<Rightarrow> s | _ \<Rightarrow> []),
               fb_version = (case field j ''version'' of Some (JInt i) \<Rightarrow> wrap_signed 32 i | _ \<Rightarrow> 0),
               fb_time = (case field j ''backup_time'' of Some (JStr s) \<Rightarrow> s | _ \<Rightarrow> []),
               fb_absent = (case field j ''absent'' of Some (JBool a) \<Rightarrow> a | _ \<Rightarrow> False)\<rparr>
        in if \<not> fb_absent b \<and> fb_file_name b = [] then None
           else if fb_version b \<le> 0 then None
           else Some b)"

definition encode_snapshot_message :: "string \<Rightarrow> string \<Rightarrow> file_snapshot \<Rightarrow> chat_message" where
  "encode_snapshot_message new_uuid now s =
     (let stamp = (if sn_timestamp s = [] then now else sn_timestamp s)
      in empty_message\<lparr>role := ''system'', content := ''[File checkpoint]'',
           uuid := (if sn_uuid s = [] then new_uuid else sn_uuid s), timestamp := stamp,
           subtype := ''file_checkpoint'', is_meta := True,
           metadata := JObj [(''message_uuid'', JStr (sn_message_uuid s)), (''timestamp'', JStr stamp),
             (''tracked_files'', JObj (map (apsnd encode_backup) (sn_backups s)))]\<rparr>)"

fun json_items :: "json \<Rightarrow> (string \<times> json) list" where
  "json_items (JObj m) = m"
| "json_items _ = []"

text \<open>\<open>value("timestamp", ...)\<close> throws when the field is no string: \<open>Inl\<close>.\<close>

definition decode_snapshot_message :: "chat_message \<Rightarrow> unit + file_snapshot option" where
  "decode_snapshot_message msg =
     (if \<not> is_meta msg \<or> subtype msg \<noteq> ''file_checkpoint'' \<or> \<not> is_object (metadata msg) then Inr None
      else case string_field (metadata msg) ''message_uuid'' of
        None \<Rightarrow> Inr None
      | Some mu \<Rightarrow>
          (case (case field (metadata msg) ''timestamp'' of
                   None \<Rightarrow> Some (timestamp msg) | Some (JStr s) \<Rightarrow> Some s | Some _ \<Rightarrow> None) of
             None \<Rightarrow> Inl ()
           | Some stamp \<Rightarrow>
               (let add = (\<lambda>(k, v) m. case decode_backup v of None \<Rightarrow> m | Some b \<Rightarrow> put_sorted k b m);
                    files = (case field (metadata msg) ''tracked_files'' of
                        Some t \<Rightarrow> if is_object t then fold add (json_items t) [] else []
                      | None \<Rightarrow> [])
                in Inr (Some \<lparr>sn_uuid = uuid msg, sn_message_uuid = mu, sn_backups = files, sn_timestamp = stamp\<rparr>))))"

text \<open>The loop of \<open>load_from_messages\<close>: a later record of a message replaces the earlier one.\<close>

fun replace_snapshot :: "file_snapshot \<Rightarrow> file_snapshot list \<Rightarrow> file_snapshot list" where
  "replace_snapshot s [] = [s]"
| "replace_snapshot s (t # ts) = (if sn_message_uuid t = sn_message_uuid s then s # ts else t # replace_snapshot s ts)"

fun replay_messages :: "chat_message list \<Rightarrow> file_snapshot list \<Rightarrow> unit + file_snapshot list" where
  "replay_messages [] ss = Inr ss"
| "replay_messages (m # ms) ss =
     (case decode_snapshot_message m of
        Inl e \<Rightarrow> Inl e
      | Inr None \<Rightarrow> replay_messages ms ss
      | Inr (Some s) \<Rightarrow> replay_messages ms (replace_snapshot s ss))"

definition activate_last :: "checkpoint_store \<Rightarrow> checkpoint_store" where
  "activate_last st =
     (if cs_snapshots st = [] then st
      else st\<lparr>cs_active_uuid := sn_message_uuid (last (cs_snapshots st)),
        cs_tracked_files := fold insert_sorted (map fst (sn_backups (last (cs_snapshots st)))) (cs_tracked_files st)\<rparr>)"

definition load_from_messages ::
  "checkpoint_io \<Rightarrow> string \<Rightarrow> string \<Rightarrow> chat_message list \<Rightarrow> checkpoint_store \<times> checkpoint_disk \<Rightarrow>
     unit + checkpoint_store \<times> checkpoint_disk" where
  "load_from_messages io project session msgs = (\<lambda>(st, d).
     (case replay_messages msgs [] of
        Inl e \<Rightarrow> Inl e
      | Inr ss \<Rightarrow>
          (case enforce_snapshot_cap io
              (activate_last ((set_session project session (reset_store st))\<lparr>cs_snapshots := ss\<rparr>), d) of
             (st1, d1) \<Rightarrow> Inr (st1\<lparr>cs_captured := []\<rparr>, d1))))"

text \<open>Forking a session: the retained snapshots with their backups, linked or copied once each.\<close>

definition fork_backup ::
  "checkpoint_io \<Rightarrow> checkpoint_store \<Rightarrow> string \<Rightarrow> file_backup \<Rightarrow> string list \<times> checkpoint_disk \<Rightarrow> string list \<times> checkpoint_disk" where
  "fork_backup io st new_session b = (\<lambda>(copied, d).
     (let name = fb_file_name b
      in if fb_absent b \<or> name = [] \<or> name \<in> set copied then (copied, d)
         else case cd_backups d (backup_key st name) of
           Some bytes \<Rightarrow>
             (name # copied,
              if ci_fork_fails io name then d
              else d\<lparr>cd_backups := (cd_backups d)((cs_project_dir st, new_session, name) \<mapsto> bytes)\<rparr>)
         | None \<Rightarrow> (name # copied, d)))"

definition fork_to_session ::
  "checkpoint_io \<Rightarrow> string \<Rightarrow> string \<Rightarrow> string \<Rightarrow> string list \<Rightarrow> checkpoint_store \<times> checkpoint_disk \<Rightarrow>
     chat_message list \<times> checkpoint_store \<times> checkpoint_disk" where
  "fork_to_session io new_uuid now new_session retained_uuids = (\<lambda>(st, d).
     (let retained = [s \<leftarrow> cs_snapshots st. sn_message_uuid s \<in> set retained_uuids];
          d1 = snd (fold (fork_backup io st new_session) (concat (map (\<lambda>s. map snd (sn_backups s)) retained)) ([], d));
          st1 = activate_last (st\<lparr>cs_session_id := new_session, cs_snapshots := retained, cs_tracked_files := [],
            cs_active_uuid := []\<rparr>)
      in (map (encode_snapshot_message new_uuid now) retained, st1\<lparr>cs_captured := []\<rparr>, d1)))"

definition remove_session_backups :: "string \<Rightarrow> string \<Rightarrow> checkpoint_disk \<Rightarrow> checkpoint_disk" where
  "remove_session_backups project session d =
     d\<lparr>cd_backups := (\<lambda>(p, s, name). if p = project \<and> s = session then None else cd_backups d (p, s, name))\<rparr>"

section \<open>Rewind targets\<close>

definition synthetic_tags :: "string list" where
  "synthetic_tags = [''<bash-input>'', ''<bash-stdout>'', ''<bash-stderr>'', ''<bash-exit-code>'',
     ''<local-command-stdout>'', ''<local-command-stderr>'', ''<task-notification>'', ''<tick>'', ''<teammate-message'']"

definition is_blank_char :: "char \<Rightarrow> bool" where
  "is_blank_char c \<longleftrightarrow> c \<in> {CHR 0x0A, CHR 0x0D, CHR 0x09, CHR '' ''}"

fun squeeze_ws :: "bool \<Rightarrow> string \<Rightarrow> string" where
  "squeeze_ws in_space [] = []"
| "squeeze_ws in_space (c # cs) =
     (if is_blank_char c then (if in_space then [] else '' '') @ squeeze_ws True cs
      else c # squeeze_ws False cs)"

definition collapse_ws :: "string \<Rightarrow> string" where
  "collapse_ws s = trim_by (\<lambda>c. c = CHR '' '') (squeeze_ws False s)"

definition ensure_user_message_identity :: "string \<Rightarrow> string \<Rightarrow> chat_message \<Rightarrow> chat_message" where
  "ensure_user_message_identity new_uuid now msg =
     (if role msg \<noteq> ''user'' then msg
      else let m1 = (if uuid msg = [] then msg\<lparr>uuid := new_uuid\<rparr> else msg)
        in if timestamp m1 = [] then m1\<lparr>timestamp := now\<rparr> else m1)"

definition is_file_checkpoint_message :: "chat_message \<Rightarrow> bool" where
  "is_file_checkpoint_message msg \<longleftrightarrow> is_meta msg \<and> subtype msg = ''file_checkpoint''"

definition is_rewind_selectable_user_message :: "chat_message \<Rightarrow> bool" where
  "is_rewind_selectable_user_message msg =
     (if role msg \<noteq> ''user'' then False
      else if is_meta msg \<or> is_compact_summary msg then False
      else if content msg = [] then False
      else if prefix ''!'' (content msg) then False
      else \<not> contains_any (content msg) synthetic_tags)"

definition rewind_preview_text :: "chat_message \<Rightarrow> nat \<Rightarrow> string" where
  "rewind_preview_text msg max_bytes =
     (let s = collapse_ws (content msg)
      in if length s \<le> max_bytes then s
         else if max_bytes \<le> 3 then take max_bytes s
         else take (max_bytes - 3) s @ ''...'')"

record rewind_target =
  rt_message_index :: nat
  rt_message_uuid :: string
  rt_preview :: string
  rt_has_stable_uuid :: bool

definition collect_rewind_targets :: "chat_message list \<Rightarrow> rewind_target list" where
  "collect_rewind_targets msgs =
     map (\<lambda>(i, m). \<lparr>rt_message_index = i, rt_message_uuid = uuid m, rt_preview = rewind_preview_text m 80,
         rt_has_stable_uuid = (uuid m \<noteq> [])\<rparr>)
       [(i, m) \<leftarrow> enumerate 0 msgs. is_rewind_selectable_user_message m]"

definition retained_prefix_before_index :: "chat_message list \<Rightarrow> nat \<Rightarrow> chat_message list" where
  "retained_prefix_before_index msgs target = take (min target (length msgs)) msgs"

definition rewind_prefill_text :: "chat_message \<Rightarrow> string" where
  "rewind_prefill_text msg = (if \<not> is_rewind_selectable_user_message msg then [] else content msg)"

section \<open>Sorted tables\<close>

lemma set_insert_sorted [simp]: "set (insert_sorted x s) = insert x (set s)"
  by (simp add: insert_sorted_def image_image)

section \<open>The journal\<close>

definition backup_ok :: "file_backup \<Rightarrow> bool" where
  "backup_ok b \<longleftrightarrow> 0 < fb_version b \<and> fb_version b \<le> int32_max \<and> (fb_absent b \<or> fb_file_name b \<noteq> [])"

definition snapshot_ok :: "file_snapshot \<Rightarrow> bool" where
  "snapshot_ok s \<longleftrightarrow> table (sn_backups s) \<and> (\<forall>(p, b) \<in> set (sn_backups s). backup_ok b) \<and>
     sn_uuid s \<noteq> [] \<and> sn_timestamp s \<noteq> []"

lemma decode_encode_backup: "backup_ok b \<Longrightarrow> decode_backup (encode_backup b) = Some b"
  by (cases b) (auto simp: encode_backup_def decode_backup_def backup_ok_def Let_def)

lemma decode_backups:
  "\<forall>(p, b) \<in> set m. backup_ok b \<Longrightarrow>
     fold (\<lambda>(k, v) acc. case decode_backup v of None \<Rightarrow> acc | Some b \<Rightarrow> put_sorted k b acc) (map (apsnd encode_backup) m) a =
     fold (\<lambda>(k, v). put_sorted k v) m a"
  by (induction m arbitrary: a) (auto simp: decode_encode_backup)

lemma decode_encode_snapshot:
  assumes "snapshot_ok s"
  shows "decode_snapshot_message (encode_snapshot_message new_uuid now s) = Inr (Some s)"
proof -
  have "fold (\<lambda>(k, v) acc. case decode_backup v of None \<Rightarrow> acc | Some b \<Rightarrow> put_sorted k b acc)
      (map (apsnd encode_backup) (sn_backups s)) [] = sn_backups s"
    using assms decode_backups [of "sn_backups s" "[]"] fold_put_sorted [of "[]" "sn_backups s"]
    by (simp add: snapshot_ok_def)
  then show ?thesis
    using assms by (simp add: decode_snapshot_message_def encode_snapshot_message_def snapshot_ok_def Let_def
        string_field_def)
qed

section \<open>Turns and writes as a machine\<close>

text \<open>A turn of the user begins with a snapshot.  A write of a tool tracks the file and then changes it, at any
  time: the turns of a goal, which are hidden, open no snapshot, and their writes count for the last turn that
  did.  The backup may fail, and the tool writes all the same.  Anything else (the user, a shell command, a
  rewind) may change any files at any time without being tracked.  Ghosts remember the turns, the files at
  the start of each, the content each file had just before its first tracked write of a turn
  (\<open>cw_before\<close>), and the files that were changed in a turn before such a write (\<open>cw_foreign\<close>); the
  journal is the list of the messages the session manager appends.  The file system may answer
  differently at every step, only the canonical form of paths is fixed; the version counter stays in its 32 bits.\<close>

record checkpoint_world =
  cw_store :: checkpoint_store
  cw_disk :: checkpoint_disk
  cw_turns :: "string list"
  cw_starts :: "string \<Rightarrow> string \<Rightarrow> string option"
  cw_before :: "string \<Rightarrow> string \<Rightarrow> string option option"
  cw_foreign :: "string \<Rightarrow> string set"
  cw_journal :: "chat_message list"

definition after_begin :: "string \<Rightarrow> chat_message \<Rightarrow> checkpoint_store \<Rightarrow> checkpoint_disk \<Rightarrow> checkpoint_world \<Rightarrow> checkpoint_world" where
  "after_begin mu m st d w =
     \<lparr>cw_store = st, cw_disk = d, cw_turns = cw_turns w @ [mu],
      cw_starts = (cw_starts w)(mu := cd_files d), cw_before = (cw_before w)(mu := Map.empty),
      cw_foreign = (cw_foreign w)(mu := {}), cw_journal = cw_journal w @ [m]\<rparr>"

text \<open>The first tracked write of a file in a turn is the one that counts.\<close>

definition note_before :: "string \<Rightarrow> string option \<Rightarrow> (string \<Rightarrow> string option option) \<Rightarrow> string \<Rightarrow> string option option" where
  "note_before path c before = (if before path = None then before(path \<mapsto> c) else before)"

definition after_write ::
  "string \<Rightarrow> string option \<Rightarrow> chat_message option \<Rightarrow> checkpoint_store \<Rightarrow> checkpoint_disk \<Rightarrow> checkpoint_world \<Rightarrow> checkpoint_world" where
  "after_write path c m st d w =
     (let turn = cs_active_uuid (cw_store w)
      in w\<lparr>cw_store := st, cw_disk := set_file path c d,
           cw_before := (if m = None then cw_before w
             else (cw_before w)(turn := note_before path (cd_files (cw_disk w) path) (cw_before w turn))),
           cw_foreign := (if m = None \<and> cw_before w turn path = None
             then (cw_foreign w)(turn := insert path (cw_foreign w turn)) else cw_foreign w),
           cw_journal := cw_journal w @ (case m of None \<Rightarrow> [] | Some msg \<Rightarrow> [msg])\<rparr>)"

definition after_outside :: "(string \<Rightarrow> string option) \<Rightarrow> checkpoint_world \<Rightarrow> checkpoint_world" where
  "after_outside f w =
     (let turn = cs_active_uuid (cw_store w)
      in w\<lparr>cw_disk := (cw_disk w)\<lparr>cd_files := f\<rparr>,
           cw_foreign := (cw_foreign w)(turn := cw_foreign w turn \<union>
             {p. f p \<noteq> cd_files (cw_disk w) p \<and> cw_before w turn p = None})\<rparr>)"

inductive checkpoint_step :: "checkpoint_io \<Rightarrow> string set \<Rightarrow> checkpoint_world \<Rightarrow> checkpoint_world \<Rightarrow> bool" for io P where
  begin_turn:
  "checkpoint_step io P w (after_begin mu (encode_snapshot_message id1 now s) st d w)"
  if "mu \<noteq> []" "mu \<notin> set (cw_turns w)" "id1 \<noteq> []" "now \<noteq> []"
    "make_snapshot io' id1 now mu (cw_store w, cw_disk w) = (s, st, d)"
| tool_write:
  "checkpoint_step io P w
     (after_write (normalize_tracking_path (ci_scope io) file_path) c (map_option (encode_snapshot_message id1 now) res) st d w)"
  if "normalize_tracking_path (ci_scope io) file_path \<in> P" "now \<noteq> []" "ci_scope io' = ci_scope io"
    "next_version_for (cw_store w) (normalize_tracking_path (ci_scope io) file_path) \<le> int32_max"
    "track_before_write io' now file_path (cw_store w, cw_disk w) = (res, st, d)"
| outside_change: "checkpoint_step io P w (after_outside f w)"

definition start_world :: "string \<Rightarrow> string \<Rightarrow> nat \<Rightarrow> checkpoint_disk \<Rightarrow> checkpoint_world" where
  "start_world project session cap d =
     \<lparr>cw_store = set_session project session (new_checkpoint_store cap), cw_disk = d, cw_turns = [],
      cw_starts = (\<lambda>_. cd_files d), cw_before = (\<lambda>_. Map.empty), cw_foreign = (\<lambda>_. {}), cw_journal = []\<rparr>"

section \<open>What the snapshots hold\<close>

definition holds_start :: "checkpoint_store \<Rightarrow> checkpoint_disk \<Rightarrow> file_backup \<Rightarrow> string option \<Rightarrow> bool" where
  "holds_start st d b c \<longleftrightarrow>
     (if fb_absent b then c = None else c \<noteq> None \<and> cd_backups d (backup_key st (fb_file_name b)) = c)"

definition entry_ok :: "string set \<Rightarrow> file_snapshot list \<Rightarrow> string \<times> file_backup \<Rightarrow> bool" where
  "entry_ok P ss = (\<lambda>(p, b). p \<in> P \<and> backup_ok b \<and>
     (\<not> fb_absent b \<longrightarrow> fb_file_name b = make_backup_file_name p (fb_version b)) \<and>
     (\<exists>b'. map_of (sn_backups (last ss)) p = Some b' \<and> fb_version b \<le> fb_version b'))"

definition snapshots_ok :: "string set \<Rightarrow> file_snapshot list \<Rightarrow> bool" where
  "snapshots_ok P ss \<longleftrightarrow> distinct (map sn_message_uuid ss) \<and>
     (\<forall>s\<in>set ss. snapshot_ok s \<and> sn_message_uuid s \<noteq> [] \<and> (\<forall>e\<in>set (sn_backups s). entry_ok P ss e))"

definition checkpoint_inv :: "string set \<Rightarrow> checkpoint_world \<Rightarrow> bool" where
  "checkpoint_inv P w \<longleftrightarrow>
     (let st = cw_store w; ss = cs_snapshots st; d = cw_disk w
      in cs_max_snapshots st > 0 \<and> length ss \<le> cs_max_snapshots st \<and> cs_project_dir st \<noteq> [] \<and> cs_session_id st \<noteq> [] \<and>
         snapshots_ok P ss \<and> sn_message_uuid ` set ss \<subseteq> set (cw_turns w) \<and>
         (ss = [] \<longrightarrow> cs_active_uuid st = []) \<and>
         (ss \<noteq> [] \<longrightarrow> cs_active_uuid st = sn_message_uuid (last ss) \<and>
            set (cs_captured st) = dom (cw_before w (cs_active_uuid st))) \<and>
         (\<forall>s\<in>set ss. \<forall>p c. cw_before w (sn_message_uuid s) p = Some c \<longrightarrow>
            (\<exists>b. map_of (sn_backups s) p = Some b \<and> holds_start st d b c)))"

text \<open>As long as nothing but tracked writes changed a file, what was captured is what the turn began with.\<close>

definition ghosts_ok :: "checkpoint_world \<Rightarrow> bool" where
  "ghosts_ok w \<longleftrightarrow>
     (let turn = cs_active_uuid (cw_store w)
      in (turn \<noteq> [] \<longrightarrow> (\<forall>p. cw_before w turn p = None \<longrightarrow> p \<notin> cw_foreign w turn \<longrightarrow>
            cd_files (cw_disk w) p = cw_starts w turn p)) \<and>
         (\<forall>mu p c. mu \<noteq> [] \<longrightarrow> cw_before w mu p = Some c \<longrightarrow> p \<notin> cw_foreign w mu \<longrightarrow> c = cw_starts w mu p))"

definition newest :: "string \<Rightarrow> int \<Rightarrow> file_snapshot \<Rightarrow> int" where
  "newest p latest s = (case map_of (sn_backups s) p of Some b \<Rightarrow> max latest (fb_version b) | None \<Rightarrow> latest)"

lemma newest_ge: "a \<le> newest p a s" "map_of (sn_backups s) p = Some b \<Longrightarrow> fb_version b \<le> newest p a s"
  by (simp_all add: newest_def split: option.split)

lemma foldl_newest_ge: "a \<le> foldl (newest p) a ss"
proof (induction ss arbitrary: a)
  case (Cons t ss)
  then show ?case using order_trans [OF newest_ge(1) Cons.IH] by simp
qed simp

lemma foldl_newest_member:
  "s \<in> set ss \<Longrightarrow> map_of (sn_backups s) p = Some b \<Longrightarrow> fb_version b \<le> foldl (newest p) a ss"
proof (induction ss arbitrary: a)
  case (Cons t ss)
  show ?case
  proof (cases "s = t")
    case True
    with Cons.prems(2) have "fb_version b \<le> newest p a t" by (simp add: newest_ge(2))
    also have "\<dots> \<le> foldl (newest p) (newest p a t) ss" by (rule foldl_newest_ge)
    finally show ?thesis by simp
  next
    case False
    with Cons show ?thesis by simp
  qed
qed simp

lemma next_version_newest: "next_version_for st p = foldl (newest p) 0 (cs_snapshots st) + 1"
  by (simp add: next_version_for_def newest_def [abs_def])

lemma next_version_fresh:
  "0 < next_version_for st p"
  "s \<in> set (cs_snapshots st) \<Longrightarrow> map_of (sn_backups s) p = Some b \<Longrightarrow> fb_version b < next_version_for st p"
  using foldl_newest_ge [of 0 p "cs_snapshots st"] foldl_newest_member [of s "cs_snapshots st" p b 0]
  by (simp_all add: next_version_newest)

lemma find_snapshot_index_last:
  "ss \<noteq> [] \<Longrightarrow> find_snapshot_index (sn_message_uuid (last ss)) ss = Some (length ss - 1)"
  by (cases ss rule: rev_cases) (simp_all add: find_snapshot_index_def)

lemma find_snapshot_member:
  assumes "distinct (map sn_message_uuid (cs_snapshots st))" "s \<in> set (cs_snapshots st)"
  shows "find_snapshot st (sn_message_uuid s) = Some s"
proof -
  let ?ss = "cs_snapshots st"
  from assms(2) obtain i where i: "i < length ?ss" "?ss ! i = s" by (auto simp: in_set_conv_nth)
  have "find_snapshot_index (sn_message_uuid s) ?ss \<noteq> None"
    unfolding find_snapshot_index_def find_None_iff using i by (metis atLeastLessThan_iff set_rev set_upt zero_le)
  then obtain j where j: "find_snapshot_index (sn_message_uuid s) ?ss = Some j" by blast
  then have "j < length ?ss" "sn_message_uuid (?ss ! j) = sn_message_uuid s"
    unfolding find_snapshot_index_def by (auto dest!: find_Some_iff [THEN iffD1] simp: rev_nth)
  then have "j = i" using assms(1) i by (metis distinct_conv_nth length_map nth_map)
  with j i show ?thesis by (simp add: find_snapshot_def)
qed

lemma make_name_inject:
  assumes "make_backup_file_name p v = make_backup_file_name q u" "inj_on hash_hex16 P" "p \<in> P" "q \<in> P" "0 < v" "0 < u"
  shows "p = q \<and> v = u"
proof -
  have l: "length (hash_hex16 x) = 16" for x by (simp add: hash_hex16_def)
  have "hash_hex16 p = hash_hex16 q \<and> show_int v = show_int u"
    using assms(1) l [of p] l [of q] by (simp add: make_backup_file_name_def)
  then have "p = q" "show_nat (nat v) = show_nat (nat u)"
    using assms(2-6) inj_onD [OF assms(2), of p q] by (simp_all add: show_int_def)
  with assms(5,6) show ?thesis by (simp add: show_nat_inject)
qed

section \<open>Keeping the invariant\<close>

lemma cleanup_keeps:
  "fb_absent b \<or> fb_file_name b \<in> referenced_backups st \<Longrightarrow>
     holds_start st (cleanup_unreferenced_backups io st d) b c = holds_start st d b c"
  by (auto simp: holds_start_def cleanup_unreferenced_backups_def backup_key_def)

lemma cleanup_files [simp]: "cd_files (cleanup_unreferenced_backups io st d) = cd_files d"
  by (simp add: cleanup_unreferenced_backups_def)

lemma referencedI:
  "s \<in> set (cs_snapshots st) \<Longrightarrow> (p, b) \<in> set (sn_backups s) \<Longrightarrow> \<not> fb_absent b \<Longrightarrow> fb_file_name b \<noteq> [] \<Longrightarrow>
     fb_file_name b \<in> referenced_backups st"
  by (force simp: referenced_backups_def)

lemma make_snapshot_shape:
  assumes "make_snapshot io id1 now mu (st, d) = (s, st1, d1)" "cs_max_snapshots st > 0"
    "length (cs_snapshots st) \<le> cs_max_snapshots st"
  obtains older where "cs_snapshots st1 = older @ [s]" "set older \<subseteq> set (cs_snapshots st)" "suffix older (cs_snapshots st)"
    "older = drop (length (cs_snapshots st) + 1 - cs_max_snapshots st) (cs_snapshots st)"
    "length (cs_snapshots st1) \<le> cs_max_snapshots st"
    "sn_message_uuid s = mu" "sn_uuid s = id1" "sn_timestamp s = now"
    "sn_backups s = (if cs_snapshots st \<noteq> [] then sn_backups (last (cs_snapshots st)) else [])"
    "cs_active_uuid st1 = mu" "cs_captured st1 = []" "cs_max_snapshots st1 = cs_max_snapshots st"
    "cs_project_dir st1 = cs_project_dir st" "cs_session_id st1 = cs_session_id st"
    "d1 = cleanup_unreferenced_backups io st1 d"
proof -
  let ?ss = "cs_snapshots st"
  let ?k = "length ?ss + 1 - cs_max_snapshots st"
  let ?s = "\<lparr>sn_uuid = id1, sn_message_uuid = mu,
    sn_backups = (if ?ss \<noteq> [] then sn_backups (last ?ss) else []), sn_timestamp = now\<rparr>"
  have k: "?k \<le> length ?ss" using assms(2) by simp
  then have dr: "drop ?k (?ss @ [?s]) = drop ?k ?ss @ [?s]" by simp
  have s1: "cs_snapshots st1 = drop ?k ?ss @ [?s]" "s = ?s" "cs_active_uuid st1 = mu" "cs_captured st1 = []"
    "cs_max_snapshots st1 = cs_max_snapshots st" "cs_project_dir st1 = cs_project_dir st"
    "cs_session_id st1 = cs_session_id st" "d1 = cleanup_unreferenced_backups io st1 d"
    using assms(1) dr by (auto simp: make_snapshot_def enforce_snapshot_cap_def Let_def)
  then show ?thesis
    using that [of "drop ?k ?ss"] assms(2,3) by (simp add: set_drop_subset suffix_drop)
qed

lemma entry_ok_last:
  assumes "snapshots_ok P ss" "ss \<noteq> []" "p \<in> fst ` set (sn_backups s)" "s \<in> set ss"
  shows "p \<in> fst ` set (sn_backups (last ss))"
  using assms by (force simp: snapshots_ok_def entry_ok_def dest!: map_of_SomeD)

text \<open>Entries only mention the table of the last snapshot.\<close>

lemma backup_entry_ok_cong: "map_of (sn_backups (last ss)) = map_of (sn_backups (last ss')) \<Longrightarrow> entry_ok P ss e = entry_ok P ss' e"
  by (simp add: entry_ok_def)

lemma begin_snapshots_ok:
  assumes "snapshots_ok P ss" "set older \<subseteq> set ss" "suffix older ss" "mu \<notin> sn_message_uuid ` set ss"
    "sn_message_uuid s = mu" "mu \<noteq> []" "sn_uuid s \<noteq> []" "sn_timestamp s \<noteq> []"
    "sn_backups s = (if ss \<noteq> [] then sn_backups (last ss) else [])"
  shows "snapshots_ok P (older @ [s])"
proof -
  have d: "distinct (map sn_message_uuid (older @ [s]))"
    using assms(1-5) by (auto simp: snapshots_ok_def suffix_def distinct_append)
  have e: "entry_ok P (older @ [s]) x" if "ss \<noteq> []" "entry_ok P ss x" for x
    using that assms(9) by (simp add: entry_ok_def)
  have "snapshot_ok s \<and> (\<forall>x\<in>set (sn_backups s). entry_ok P (older @ [s]) x)"
  proof (cases "ss = []")
    case True
    then show ?thesis using assms(7-9) by (simp add: snapshot_ok_def)
  next
    case False
    then have "last ss \<in> set ss" by simp
    then have "snapshot_ok (last ss)" "\<forall>x\<in>set (sn_backups (last ss)). entry_ok P ss x"
      using assms(1) by (simp_all add: snapshots_ok_def)
    with assms(7-9) False e show ?thesis by (simp add: snapshot_ok_def)
  qed
  moreover have "snapshot_ok t \<and> sn_message_uuid t \<noteq> [] \<and> (\<forall>x\<in>set (sn_backups t). entry_ok P (older @ [s]) x)"
    if "t \<in> set older" for t
    using that assms(1,2) e by (fastforce simp: snapshots_ok_def)
  ultimately show ?thesis using d assms(5,6) by (auto simp: snapshots_ok_def)
qed

lemma begin_turn_inv:
  assumes inv: "checkpoint_inv P w" and mu: "mu \<noteq> []" "mu \<notin> set (cw_turns w)" "id1 \<noteq> []" "now \<noteq> []"
    and mk: "make_snapshot io id1 now mu (cw_store w, cw_disk w) = (s, st, d)"
  shows "checkpoint_inv P (after_begin mu m st d w)"
proof -
  let ?ss = "cs_snapshots (cw_store w)"
  have i: "cs_max_snapshots (cw_store w) > 0" "length ?ss \<le> cs_max_snapshots (cw_store w)"
    "cs_project_dir (cw_store w) \<noteq> []" "cs_session_id (cw_store w) \<noteq> []" "snapshots_ok P ?ss"
    "sn_message_uuid ` set ?ss \<subseteq> set (cw_turns w)"
    and held: "\<And>s p c. s \<in> set ?ss \<Longrightarrow> cw_before w (sn_message_uuid s) p = Some c \<Longrightarrow>
      \<exists>b. map_of (sn_backups s) p = Some b \<and> holds_start (cw_store w) (cw_disk w) b c"
    using inv by (auto simp: checkpoint_inv_def Let_def)
  from make_snapshot_shape [OF mk i(1,2)] obtain older where k:
    "cs_snapshots st = older @ [s]" "set older \<subseteq> set ?ss" "suffix older ?ss"
    "length (cs_snapshots st) \<le> cs_max_snapshots (cw_store w)"
    "sn_message_uuid s = mu" "sn_uuid s = id1" "sn_timestamp s = now"
    "sn_backups s = (if ?ss \<noteq> [] then sn_backups (last ?ss) else [])"
    "cs_active_uuid st = mu" "cs_captured st = []" "cs_max_snapshots st = cs_max_snapshots (cw_store w)"
    "cs_project_dir st = cs_project_dir (cw_store w)" "cs_session_id st = cs_session_id (cw_store w)"
    "d = cleanup_unreferenced_backups io st (cw_disk w)" by metis
  have fresh: "mu \<notin> sn_message_uuid ` set ?ss" using i(6) mu(2) by blast
  have ok: "snapshots_ok P (older @ [s])"
    using begin_snapshots_ok [OF i(5) k(2,3) fresh k(5) mu(1) _ _ k(8)] k(6,7) mu(3,4) by simp
  have "\<exists>b. map_of (sn_backups t) p = Some b \<and> holds_start st d b c"
    if t: "t \<in> set older" and p: "cw_before w (sn_message_uuid t) p = Some c" for t p c
  proof -
    obtain b where b: "map_of (sn_backups t) p = Some b"
      "holds_start (cw_store w) (cw_disk w) b c"
      using held [OF _ p] t k(2) by blast
    have pb: "(p, b) \<in> set (sn_backups t)" using b(1) by (rule map_of_SomeD)
    have bo: "backup_ok b" using ok t pb by (force simp: snapshots_ok_def entry_ok_def)
    have "fb_absent b \<or> fb_file_name b \<in> referenced_backups st"
      using referencedI [OF _ pb, of st] t k(1) bo by (auto simp: backup_ok_def)
    then have "holds_start st d b c = holds_start st (cw_disk w) b c" for c
      unfolding k(14) by (rule cleanup_keeps)
    moreover have "holds_start st (cw_disk w) b c = holds_start (cw_store w) (cw_disk w) b c" for c
      by (simp add: holds_start_def backup_key_def k)
    ultimately show ?thesis using b by auto
  qed
  moreover have "sn_message_uuid t \<noteq> mu" if "t \<in> set older" for t using that k(2) fresh by blast
  moreover have "sn_message_uuid ` set older \<subseteq> set (cw_turns w) \<union> {mu}" using k(2) i(6) by blast
  ultimately show ?thesis
    using ok i(1-4) k(1,4,5,9-13) by (simp add: checkpoint_inv_def after_begin_def Let_def)
qed

lemma make_name_not_empty [simp]: "make_backup_file_name p v \<noteq> []"
  by (simp add: make_backup_file_name_def)

lemma take_backup_effect:
  assumes "take_backup io now path st d = (r, d1)"
  shows "cd_files d1 = cd_files d \<and>
    (\<forall>b0 c. fb_absent b0 \<or> fb_file_name b0 \<noteq> make_backup_file_name path (next_version_for st path) \<longrightarrow>
       holds_start st d1 b0 c = holds_start st d b0 c) \<and>
    (\<forall>b. r = Some b \<longrightarrow> fb_version b = next_version_for st path \<and>
      (\<not> fb_absent b \<longrightarrow> fb_file_name b = make_backup_file_name path (fb_version b)) \<and> holds_start st d1 b (cd_files d path))"
proof (cases "cd_files d path")
  case None
  with assms show ?thesis by (auto simp: take_backup_def holds_start_def Let_def)
next
  case (Some bytes)
  with assms show ?thesis by (auto simp: take_backup_def holds_start_def backup_key_def Let_def split: option.splits)
qed

lemma holds_start_cong:
  "cs_project_dir st1 = cs_project_dir st \<Longrightarrow> cs_session_id st1 = cs_session_id st \<Longrightarrow> cd_backups d1 = cd_backups d \<Longrightarrow>
     holds_start st1 d1 b c = holds_start st d b c"
  by (simp add: holds_start_def backup_key_def)

text \<open>The outcomes of tracking within a turn: nothing to do, a failed backup, or a new one in the last snapshot.\<close>

lemma track_in_turn:
  assumes "track_before_write io now file_path (st, d) = (res, st1, d1)"
    "path = normalize_tracking_path (ci_scope io) file_path" "cs_snapshots st = older @ [t]"
    "cs_active_uuid st = sn_message_uuid t" "sn_message_uuid t \<noteq> []" "cs_project_dir st \<noteq> []" "cs_session_id st \<noteq> []"
  shows "path \<in> set (cs_captured st) \<and> res = None \<and> st1 = st \<and> d1 = d \<or>
    path \<notin> set (cs_captured st) \<and> res = None \<and> st1 = st \<and> take_backup io now path st d = (None, d1) \<or>
    path \<notin> set (cs_captured st) \<and> (\<exists>b s. take_backup io now path st d = (Some b, d1) \<and>
      s = t\<lparr>sn_backups := put_sorted path b (sn_backups t), sn_timestamp := now\<rparr> \<and> res = Some s \<and>
      st1 = st\<lparr>cs_snapshots := older @ [s], cs_tracked_files := insert_sorted path (cs_tracked_files st),
        cs_captured := insert_sorted path (cs_captured st)\<rparr>)"
proof -
  have i: "find_active_snapshot st = Some (length older)"
    using find_snapshot_index_last [of "older @ [t]"] assms(3-5) by (simp add: find_active_snapshot_def)
  obtain r d2 where tb: "take_backup io now path st d = (r, d2)" by fastforce
  show ?thesis
    using assms(1-3,6,7) i tb by (cases r) (auto simp: track_before_write_def Let_def split: if_splits)
qed

lemma track_without_turn:
  "track_before_write io now file_path (st, d) = (res, st1, d1) \<Longrightarrow> cs_active_uuid st = [] \<Longrightarrow> res = None \<and> st1 = st \<and> d1 = d"
  by (simp add: track_before_write_def find_active_snapshot_def)

lemma capture_snapshots_ok:
  assumes ok: "snapshots_ok P (older @ [t])" and b: "path \<in> P" "backup_ok b"
    "\<not> fb_absent b \<longrightarrow> fb_file_name b = make_backup_file_name path (fb_version b)" "now \<noteq> []"
    and newest: "\<And>s b0. s \<in> set (older @ [t]) \<Longrightarrow> map_of (sn_backups s) path = Some b0 \<Longrightarrow> fb_version b0 < fb_version b"
  defines "s \<equiv> t\<lparr>sn_backups := put_sorted path b (sn_backups t), sn_timestamp := now\<rparr>"
  shows "snapshots_ok P (older @ [s])"
proof -
  have e: "entry_ok P (older @ [s]) x" if x: "u \<in> set (older @ [t])" "x \<in> set (sn_backups u)" for u x
  proof -
    obtain p b0 where px: "x = (p, b0)" by fastforce
    from ok x have "entry_ok P (older @ [t]) x" by (auto simp: snapshots_ok_def)
    moreover have "fb_version b0 < fb_version b" if "p = path"
    proof -
      have "table (sn_backups u)" using ok x(1) by (auto simp: snapshots_ok_def snapshot_ok_def)
      then have "map_of (sn_backups u) path = Some b0"
        using x(2) px that table_distinct map_of_eq_Some_iff by metis
      then show ?thesis using newest x(1) by blast
    qed
    ultimately show ?thesis by (auto simp: entry_ok_def px s_def)
  qed
  have t: "snapshot_ok t" "sn_message_uuid t \<noteq> []" using ok by (simp_all add: snapshots_ok_def)
  have "x = (path, b) \<or> x \<in> set (sn_backups t)" if "x \<in> set (put_sorted path b m)" "set m \<subseteq> set (sn_backups t)" for x m
    using that by (induction path b m rule: put_sorted.induct) (auto split: if_splits)
  then have in_s: "x = (path, b) \<or> x \<in> set (sn_backups t)" if "x \<in> set (sn_backups s)" for x
    using that by (simp add: s_def)
  have new: "entry_ok P (older @ [s]) (path, b)" using b by (simp add: entry_ok_def s_def)
  have "snapshot_ok s"
    using t(1) b(2,4) in_s by (fastforce simp: snapshot_ok_def table_put_sorted s_def)
  moreover have "entry_ok P (older @ [s]) x" if "x \<in> set (sn_backups s)" for x
    using in_s [OF that] new e [of t x] by auto
  moreover have "snapshot_ok u \<and> sn_message_uuid u \<noteq> [] \<and> (\<forall>x\<in>set (sn_backups u). entry_ok P (older @ [s]) x)"
    if "u \<in> set older" for u
    using ok that e [of u] by (auto simp: snapshots_ok_def)
  moreover have "distinct (map sn_message_uuid (older @ [s]))" "sn_message_uuid s \<noteq> []"
    using ok t(2) by (simp_all add: snapshots_ok_def s_def)
  ultimately show ?thesis by (simp add: snapshots_ok_def)
qed

text \<open>A write that saved nothing: neither the store nor a backup that counts has changed.\<close>

lemma unsaved_write_inv:
  assumes "checkpoint_inv P w" "\<And>s p b c. s \<in> set (cs_snapshots (cw_store w)) \<Longrightarrow> map_of (sn_backups s) p = Some b \<Longrightarrow>
    holds_start (cw_store w) (cw_disk w) b c \<Longrightarrow> holds_start (cw_store w) d1 b c"
  shows "checkpoint_inv P (after_write path c None (cw_store w) d1 w)"
proof -
  have "holds_start st (set_file path c d1) b x = holds_start st d1 b x" for st b x
    by (simp add: holds_start_def set_file_def)
  with assms show ?thesis unfolding checkpoint_inv_def after_write_def Let_def
    by (simp add: option.map(1)) blast
qed

lemma other_backup_name:
  assumes "snapshots_ok P ss" "inj_on hash_hex16 P" "u \<in> set ss" "map_of (sn_backups u) p = Some b0" "path \<in> P" "0 < v"
    and "p = path \<Longrightarrow> fb_version b0 < v"
  shows "fb_absent b0 \<or> fb_file_name b0 \<noteq> make_backup_file_name path v"
proof (rule ccontr)
  assume a: "\<not> ?thesis"
  have en: "entry_ok P ss (p, b0)" using assms(1,3,4) map_of_SomeD by (fastforce simp: snapshots_ok_def)
  with a have "make_backup_file_name p (fb_version b0) = make_backup_file_name path v" by (simp add: entry_ok_def)
  then have "p = path \<and> fb_version b0 = v"
    using make_name_inject [OF _ assms(2), of p "fb_version b0" path v] en assms(5,6)
    by (simp add: entry_ok_def backup_ok_def)
  with assms(7) show False by simp
qed

lemma checkpoint_invD:
  assumes "checkpoint_inv P w"
  shows "snapshots_ok P (cs_snapshots (cw_store w))"
    and "s \<in> set (cs_snapshots (cw_store w)) \<Longrightarrow> cw_before w (sn_message_uuid s) p = Some c \<Longrightarrow>
      \<exists>b. map_of (sn_backups s) p = Some b \<and> holds_start (cw_store w) (cw_disk w) b c"
    and "length (cs_snapshots (cw_store w)) \<le> cs_max_snapshots (cw_store w)"
  using assms unfolding checkpoint_inv_def Let_def by blast+

lemma tool_write_inv:
  assumes inv: "checkpoint_inv P w"
    and path: "path = normalize_tracking_path (ci_scope io) file_path" "path \<in> P" "now \<noteq> []"
    and v: "next_version_for (cw_store w) path \<le> int32_max" and hash: "inj_on hash_hex16 P"
    and tr: "track_before_write io now file_path (cw_store w, cw_disk w) = (res, st1, d1)"
  shows "checkpoint_inv P (after_write path c (map_option enc res) st1 d1 w)"
proof (cases "cs_snapshots (cw_store w) = []")
  case True
  then have "res = None \<and> st1 = cw_store w \<and> d1 = cw_disk w"
    using track_without_turn [OF tr] inv by (simp add: checkpoint_inv_def Let_def)
  then show ?thesis using unsaved_write_inv [OF inv, of "cw_disk w"] by simp
next
  case ne: False
  let ?st = "cw_store w" and ?d = "cw_disk w"
  have act: "cs_active_uuid ?st = sn_message_uuid (last (cs_snapshots ?st))"
    and dirs: "cs_project_dir ?st \<noteq> []" "cs_session_id ?st \<noteq> []"
    and ok0: "snapshots_ok P (cs_snapshots ?st)"
    using inv ne by (auto simp: checkpoint_inv_def Let_def)
  obtain older t where ss: "cs_snapshots ?st = older @ [t]" using ne by (metis append_butlast_last_id)
  have at: "cs_active_uuid ?st = sn_message_uuid t" using act ss by simp
  have tn: "sn_message_uuid t \<noteq> []" using ok0 ss by (simp add: snapshots_ok_def)
  note ok = ok0 [unfolded ss]
  let ?v = "next_version_for ?st path"
  have other: "fb_absent b0 \<or> fb_file_name b0 \<noteq> make_backup_file_name path ?v"
    if "u \<in> set (older @ [t])" "map_of (sn_backups u) p = Some b0" for u p b0
  proof (rule other_backup_name [OF ok hash that path(2) next_version_fresh(1)])
    show "fb_version b0 < ?v" if "p = path"
      using next_version_fresh(2) [of u ?st path b0] \<open>u \<in> set (older @ [t])\<close> \<open>map_of (sn_backups u) p = Some b0\<close> that ss by simp
  qed
  consider "path \<in> set (cs_captured ?st)" "res = None" "st1 = ?st" "d1 = ?d"
    | "res = None" "st1 = ?st" "take_backup io now path ?st ?d = (None, d1)"
    | b s where "path \<notin> set (cs_captured ?st)" "take_backup io now path ?st ?d = (Some b, d1)"
      "s = t\<lparr>sn_backups := put_sorted path b (sn_backups t), sn_timestamp := now\<rparr>" "res = Some s"
      "st1 = ?st\<lparr>cs_snapshots := older @ [s], cs_tracked_files := insert_sorted path (cs_tracked_files ?st),
         cs_captured := insert_sorted path (cs_captured ?st)\<rparr>"
    using track_in_turn [OF tr path(1) ss at tn dirs] by blast
  then show ?thesis
  proof cases
    case 1
    then show ?thesis using unsaved_write_inv [OF inv, of "cw_disk w"] by simp
  next
    case 2
    then show ?thesis using unsaved_write_inv [OF inv, of d1] take_backup_effect [OF 2(3)] other by (simp add: ss)
  next
    case (3 b s)
    have b: "fb_version b = ?v" "\<not> fb_absent b \<longrightarrow> fb_file_name b = make_backup_file_name path (fb_version b)"
      "holds_start ?st d1 b (cd_files ?d path)" "cd_files d1 = cd_files ?d"
      "\<And>b0 x. fb_absent b0 \<or> fb_file_name b0 \<noteq> make_backup_file_name path ?v \<Longrightarrow> holds_start ?st d1 b0 x = holds_start ?st ?d b0 x"
      using take_backup_effect [OF 3(2)] by blast+
    have "fb_absent b \<or> fb_file_name b \<noteq> []" using b(2) make_name_not_empty by metis
    then have bok: "backup_ok b" using b(1) v next_version_fresh(1) [of ?st path] by (simp add: backup_ok_def)
    have newest: "fb_version b0 < fb_version b" if "u \<in> set (older @ [t])" "map_of (sn_backups u) path = Some b0" for u b0
      using next_version_fresh(2) [of u ?st path b0] that ss b(1) by simp
    have ok1: "snapshots_ok P (older @ [s])"
      unfolding 3(3) by (rule capture_snapshots_ok [OF ok path(2) bok b(2) path(3) newest])
    have moved: "holds_start st1 (set_file path c d1) b0 x = holds_start ?st d1 b0 x" for b0 x
      by (simp add: 3(5) holds_start_def backup_key_def set_file_def)
    let ?tu = "sn_message_uuid t"
    have cap: "set (cs_captured ?st) = dom (cw_before w ?tu)"
      using inv ne at by (auto simp: checkpoint_inv_def Let_def)
    then have new: "note_before path (cd_files ?d path) (cw_before w ?tu) = (cw_before w ?tu)(path \<mapsto> cd_files ?d path)"
      using 3(1) by (auto simp: note_before_def)
    have held: "\<exists>b. map_of (sn_backups u) p = Some b \<and> holds_start st1 (set_file path c d1) b x"
      if u: "u \<in> set (older @ [t])" "cw_before w (sn_message_uuid u) p = Some x" for u p x
    proof -
      obtain b0 where b0: "map_of (sn_backups u) p = Some b0" "holds_start ?st ?d b0 x"
        using checkpoint_invD(2) [OF inv, of u p x] u ss by auto
      with b(5) [OF other [OF u(1) b0(1)]] moved show ?thesis by auto
    qed
    have dist: "sn_message_uuid u \<noteq> ?tu" if "u \<in> set older" for u
    proof -
      have "distinct (map sn_message_uuid (older @ [t]))" using ok unfolding snapshots_ok_def by blast
      with that show ?thesis by (metis distinct_append distinct.simps(2) image_eqI list.set_map list.simps(15)
            disjoint_iff insertI1 map_append list.map(2))
    qed
    have su: "sn_message_uuid s = ?tu" by (simp add: 3(3))
    let ?w = "after_write path c (map_option enc res) st1 d1 w"
    have g: "cw_store ?w = st1" "cw_disk ?w = set_file path c d1" "cw_turns ?w = cw_turns w"
      "cw_before ?w = (cw_before w)(?tu := (cw_before w ?tu)(path \<mapsto> cd_files ?d path))"
      by (simp_all add: after_write_def 3(4) at new Let_def)
    have f: "cs_snapshots st1 = older @ [s]" "cs_active_uuid st1 = ?tu"
      "cs_max_snapshots st1 = cs_max_snapshots ?st" "cs_project_dir st1 = cs_project_dir ?st"
      "cs_session_id st1 = cs_session_id ?st" "set (cs_captured st1) = insert path (set (cs_captured ?st))"
      by (simp_all add: 3(5) at)
    have rest: "cs_max_snapshots ?st > 0" "length (cs_snapshots ?st) \<le> cs_max_snapshots ?st"
      "sn_message_uuid ` set (cs_snapshots ?st) \<subseteq> set (cw_turns w)"
      using inv by (simp_all add: checkpoint_inv_def Let_def)
    have "\<exists>b. map_of (sn_backups u) p = Some b \<and> holds_start st1 (set_file path c d1) b x"
      if u: "u \<in> set (older @ [s])" "cw_before ?w (sn_message_uuid u) p = Some x" for u p x
    proof (cases "u = s")
      case True
      show ?thesis
      proof (cases "p = path")
        case True
        with \<open>u = s\<close> u(2) have "x = cd_files ?d path" by (simp add: g su)
        with True \<open>u = s\<close> b(3) moved show ?thesis by (simp add: 3(3))
      next
        case False
        with \<open>u = s\<close> u(2) held [of t p x] show ?thesis by (simp add: g su) (simp add: 3(3))
      qed
    next
      case False
      with u(1) have o: "u \<in> set older" by simp
      with u(2) dist [OF o] held [of u p x] show ?thesis by (simp add: g)
    qed
    moreover have "length (older @ [s]) \<le> cs_max_snapshots ?st" "sn_message_uuid ` set (older @ [s]) \<subseteq> set (cw_turns w)"
      using rest(2,3) by (simp_all add: ss su)
    moreover have "set (cs_captured st1) = dom (cw_before ?w ?tu)" by (simp add: f(6) cap g)
    ultimately show ?thesis unfolding checkpoint_inv_def g(1-3) Let_def f(1-5) using ok1 rest(1) dirs su by simp
  qed
qed

text \<open>Other changes touch no backup.\<close>

lemma outside_change_inv: "checkpoint_inv P w \<Longrightarrow> checkpoint_inv P (after_outside f w)"
proof -
  have "holds_start st (d\<lparr>cd_files := f\<rparr>) b c = holds_start st d b c" for st d b c
    by (simp add: holds_start_def)
  then show "checkpoint_inv P w \<Longrightarrow> ?thesis" by (simp add: checkpoint_inv_def after_outside_def Let_def)
qed

lemma track_scope:
  assumes "ci_scope io' = ci_scope io"
  shows "normalize_tracking_path (ci_scope io) = normalize_tracking_path (ci_scope io')" by (simp add: assms)

lemma step_inv:
  assumes "checkpoint_step io P w w'" "checkpoint_inv P w" "inj_on hash_hex16 P"
  shows "checkpoint_inv P w'"
  using assms(1)
proof cases
  case (begin_turn mu id1 now io' s st d)
  then show ?thesis using begin_turn_inv [OF assms(2)] by simp
next
  case (tool_write file_path now io' res st d c id1)
  then show ?thesis unfolding tool_write(1) track_scope [OF tool_write(4)]
    by (intro tool_write_inv [OF assms(2) refl _ _ _ assms(3)]) simp_all
next
  case (outside_change f)
  then show ?thesis using outside_change_inv [OF assms(2)] by simp
qed

lemma track_store:
  assumes "track_before_write io now file_path (st, d) = (res, st1, d1)"
  shows "cs_active_uuid st1 = cs_active_uuid st \<and> cd_files d1 = cd_files d"
proof (cases "find_active_snapshot st")
  case (Some i)
  obtain r d2 where "take_backup io now (normalize_tracking_path (ci_scope io) file_path) st d = (r, d2)" by fastforce
  with Some assms take_backup_effect [OF this] show ?thesis
    by (cases r) (auto simp: track_before_write_def Let_def split: if_splits)
qed (use assms in \<open>simp add: track_before_write_def\<close>)

lemma begin_files:
  assumes "make_snapshot io id1 now mu (st, d) = (s, st1, d1)"
  shows "cs_active_uuid st1 = mu \<and> cd_files d1 = cd_files d"
  using assms by (auto simp: make_snapshot_def enforce_snapshot_cap_def Let_def)

lemma step_ghosts:
  assumes "checkpoint_step io P w w'" "ghosts_ok w"
  shows "ghosts_ok w'"
  using assms(1)
proof cases
  case (begin_turn mu id1 now io' s st d)
  with assms(2) begin_files [OF begin_turn(6)] show ?thesis by (simp add: ghosts_ok_def after_begin_def Let_def)
next
  case (tool_write file_path now io' res st d c id1)
  note same = track_store [OF tool_write(6)]
  show ?thesis
  proof (cases res)
    case None
    with assms(2) same show ?thesis
      by (auto simp: tool_write(1) ghosts_ok_def after_write_def set_file_def Let_def)
  next
    case (Some x)
    with assms(2) same show ?thesis
      by (auto simp: tool_write(1) ghosts_ok_def after_write_def set_file_def note_before_def Let_def split: if_splits)
  qed
next
  case (outside_change f)
  with assms(2) show ?thesis by (auto simp: ghosts_ok_def after_outside_def Let_def)
qed

lemma checkpoint_start_inv: "project \<noteq> [] \<Longrightarrow> session \<noteq> [] \<Longrightarrow> checkpoint_inv P (start_world project session cap d)"
  by (simp add: checkpoint_inv_def start_world_def set_session_def new_checkpoint_store_def snapshots_ok_def Let_def)

definition checkpoint_reachable :: "checkpoint_io \<Rightarrow> string set \<Rightarrow> checkpoint_world \<Rightarrow> checkpoint_world \<Rightarrow> bool" where
  "checkpoint_reachable io P = (checkpoint_step io P)\<^sup>*\<^sup>*"

lemma checkpoint_reachable_inv:
  assumes "checkpoint_reachable io P w w'" "checkpoint_inv P w" "ghosts_ok w" "inj_on hash_hex16 P"
  shows "checkpoint_inv P w' \<and> ghosts_ok w'"
  using assms(1) unfolding checkpoint_reachable_def
  by (induction rule: rtranclp_induct) (use assms(2-4) step_inv step_ghosts in blast)+

section \<open>Rewinding\<close>

text \<open>The file operations of a rewind succeed.\<close>

definition restores_work :: "checkpoint_io \<Rightarrow> bool" where
  "restores_work io \<longleftrightarrow> (\<forall>p. ci_restore_fails io p = None) \<and> (\<forall>p. ci_remove_fails io p = None)"

lemma restore_entry_files:
  assumes "restores_work io" "holds_start st d b c"
  shows "cd_files (snd (restore_entry io st (p, b) (r, d))) = (cd_files d)(p := c) \<and>
    cd_backups (snd (restore_entry io st (p, b) (r, d))) = cd_backups d"
  using assms
  by (auto simp: restore_entry_def restores_work_def holds_start_def set_file_def Let_def fun_upd_idem_iff
      split: option.splits if_splits)

lemma restore_entry_other:
  "q \<noteq> p \<Longrightarrow> cd_files (snd (restore_entry io st (p, b) (r, d))) q = cd_files d q"
  "cd_backups (snd (restore_entry io st (p, b) (r, d))) = cd_backups d"
  by (auto simp: restore_entry_def set_file_def Let_def split: option.splits if_splits)

lemma restore_loop:
  assumes "restores_work io" "distinct (map fst m)" "map_of m p = Some b" "holds_start st d b c"
  shows "cd_files (snd (fold (restore_entry io st) m (r, d))) p = c"
  using assms(2-4)
proof (induction m arbitrary: r d)
  case (Cons e m)
  obtain q a where e: "e = (q, a)" by fastforce
  obtain r1 d1 where s: "restore_entry io st (q, a) (r, d) = (r1, d1)" by fastforce
  show ?case
  proof (cases "q = p")
    case True
    then have "a = b" using Cons.prems(2) by (simp add: e)
    have "cd_files d1 p = c"
      using restore_entry_files [OF assms(1) Cons.prems(3), of p r] s True \<open>a = b\<close> by simp
    moreover have "p \<notin> fst ` set m" using Cons.prems(1) True by (simp add: e)
    then have "cd_files (snd (fold (restore_entry io st) m (r1, d1))) p = cd_files d1 p" for r1 d1
    proof (induction m arbitrary: r1 d1)
      case (Cons e' m')
      obtain q' a' r2 d2 where "e' = (q', a')" "restore_entry io st (q', a') (r1, d1) = (r2, d2)" by (metis surj_pair)
      with Cons restore_entry_other(1) [of p q' io st a' r1 d1] show ?case by auto
    qed simp
    ultimately show ?thesis by (simp add: e s)
  next
    case False
    have "cd_backups d1 = cd_backups d" using restore_entry_other(2) [of io st q a r d] s by simp
    then have "holds_start st d1 b c" using Cons.prems(3) by (simp add: holds_start_def)
    with Cons False show ?thesis by (simp add: e s)
  qed
qed simp

text \<open>C23: Rewinding to a user message undoes what the tools did in its turn.  Turns, tracked writes (also of the hidden turns
  of a goal), failing backups and changes nobody tracks may follow each other in any order; then a rewind whose file operations
  succeed gives every file whose backup was taken in that turn the content it had just before its first
  tracked write of the turn, also when later turns changed it again, and a file that did not exist then is
  gone.  That is its content at the start of the turn, unless the file was changed before in the turn without a
  backup (by something else, or by a tool whose backup failed).  It is assumed that the hashes of the tracked
  paths differ and that the version numbers of backups stay within 32 bits.\<close>

theorem rewind_restores_captured_content:
  assumes "checkpoint_reachable io P (start_world project session cap d0) w"
    and "project \<noteq> []" "session \<noteq> []" "inj_on hash_hex16 P" "restores_work io'"
    and "can_restore (cw_store w) mu" "cw_before w mu p = Some c" "cd_backups d = cd_backups (cw_disk w)"
  shows "cd_files (snd (rewind_to io' mu (cw_store w) d)) p = c \<and> (p \<notin> cw_foreign w mu \<longrightarrow> c = cw_starts w mu p)"
proof -
  have "ghosts_ok (start_world project session cap d0)"
    by (simp add: ghosts_ok_def start_world_def)
  with checkpoint_reachable_inv [OF assms(1) checkpoint_start_inv [OF assms(2,3)] _ assms(4)]
  have inv: "checkpoint_inv P w" and gh: "ghosts_ok w" by simp_all
  obtain i where "find_snapshot_index mu (cs_snapshots (cw_store w)) = Some i"
    using assms(6) by (auto simp: can_restore_def find_snapshot_def)
  then have "i < length (cs_snapshots (cw_store w))" "sn_message_uuid (cs_snapshots (cw_store w) ! i) = mu"
    unfolding find_snapshot_index_def by (auto dest!: find_Some_iff [THEN iffD1] simp: rev_nth)
  then obtain s where s: "s \<in> set (cs_snapshots (cw_store w))" "sn_message_uuid s = mu" by (metis nth_mem)
  have d: "distinct (map sn_message_uuid (cs_snapshots (cw_store w)))" and t: "table (sn_backups s)" and m: "mu \<noteq> []"
    using checkpoint_invD(1) [OF inv] s by (auto simp: snapshots_ok_def snapshot_ok_def)
  obtain b where b: "map_of (sn_backups s) p = Some b" "holds_start (cw_store w) (cw_disk w) b c"
    using checkpoint_invD(2) [OF inv s(1)] s(2) assms(7) by blast
  have "holds_start (cw_store w) d b c" using b(2) assms(8) by (simp add: holds_start_def)
  then have "cd_files (snd (rewind_to io' mu (cw_store w) d)) p = c"
    using restore_loop [OF assms(5) table_distinct [OF t] b(1)] find_snapshot_member [OF d s(1)] s(2)
    by (simp add: rewind_to_def)
  moreover have "p \<notin> cw_foreign w mu \<longrightarrow> c = cw_starts w mu p" using gh m assms(7) by (simp add: ghosts_ok_def Let_def)
  ultimately show ?thesis by blast
qed

text \<open>The backups a snapshot inherits are another matter: they are from before the turn that took them.  A
  file changed in the first turn and not in the second is put back to its first content by a rewind to
  the second turn, although the second turn began with the changed one.\<close>

lemma inherited_backup_undoes_earlier_turn:
  assumes "find_snapshot st mu = Some s" "sn_backups s = [(p, b)]" "holds_start st d b (Some old)"
    "cd_files d p = Some changed" "restores_work io"
  shows "cd_files (snd (rewind_to io mu st d)) p = Some old"
  using restore_loop [OF assms(5), of "sn_backups s" p b st d "Some old"] assms(1-3) by (simp add: rewind_to_def)

section \<open>The preview\<close>

definition differs :: "checkpoint_store \<Rightarrow> checkpoint_disk \<Rightarrow> string \<times> file_backup \<Rightarrow> bool" where
  "differs st d = (\<lambda>(p, b).
     if fb_absent b then cd_files d p \<noteq> None else cd_files d p \<noteq> cd_backups d (backup_key st (fb_file_name b)))"

definition all_readable :: "checkpoint_io \<Rightarrow> bool" where
  "all_readable io \<longleftrightarrow> (\<forall>p. ci_file_readable io p) \<and> (\<forall>n. ci_backup_readable io n)"

definition backups_present :: "checkpoint_store \<Rightarrow> checkpoint_disk \<Rightarrow> (string \<times> file_backup) list \<Rightarrow> bool" where
  "backups_present st d m \<longleftrightarrow>
     (\<forall>(p, b) \<in> set m. fb_absent b \<or> cd_backups d (backup_key st (fb_file_name b)) \<noteq> None)"

lemma diff_entry_differs:
  assumes "all_readable io" "fb_absent b \<or> cd_backups d (backup_key st (fb_file_name b)) \<noteq> None"
  shows "df_files_changed (diff_entry io st d (p, b) r) = df_files_changed r @ (if differs st d (p, b) then [p] else []) \<and>
    df_errors (diff_entry io st d (p, b) r) = df_errors r"
  using assms by (auto simp: diff_entry_def differs_def all_readable_def Let_def split: option.split prod.split)

lemma restore_entry_differs:
  assumes "all_readable io" "restores_work io" "fb_absent b \<or> cd_backups d (backup_key st (fb_file_name b)) \<noteq> None"
    and "restore_entry io st (p, b) (r, d) = (r1, d1)"
  shows "rr_files_changed r1 = rr_files_changed r @ (if differs st d (p, b) then [p] else []) \<and>
    rr_errors r1 = rr_errors r \<and> cd_backups d1 = cd_backups d \<and> (\<forall>q. q \<noteq> p \<longrightarrow> cd_files d1 q = cd_files d q)"
  using assms by (auto simp: restore_entry_def differs_def all_readable_def restores_work_def set_file_def changed_file_def Let_def
      split: option.splits if_splits)

lemma diff_loop:
  "all_readable io \<Longrightarrow> backups_present st d m \<Longrightarrow>
     df_files_changed (fold (diff_entry io st d) m r) = df_files_changed r @ map fst (filter (differs st d) m) \<and>
     df_errors (fold (diff_entry io st d) m r) = df_errors r"
proof (induction m arbitrary: r)
  case (Cons e m)
  obtain p b where e: "e = (p, b)" by fastforce
  with Cons.prems diff_entry_differs [of io b d st p r] Cons.IH [of "diff_entry io st d (p, b) r"]
  show ?case by (auto simp: backups_present_def)
qed simp

lemma restore_loop_changes:
  assumes "all_readable io" "restores_work io"
  shows "backups_present st d m \<Longrightarrow> distinct (map fst m) \<Longrightarrow>
     rr_files_changed (fst (fold (restore_entry io st) m (r, d))) = rr_files_changed r @ map fst (filter (differs st d) m) \<and>
     rr_errors (fst (fold (restore_entry io st) m (r, d))) = rr_errors r"
proof (induction m arbitrary: r d)
  case (Cons e m)
  obtain p b where e: "e = (p, b)" by fastforce
  obtain r1 d1 where s: "restore_entry io st (p, b) (r, d) = (r1, d1)" by fastforce
  have en: "fb_absent b \<or> cd_backups d (backup_key st (fb_file_name b)) \<noteq> None"
    using Cons.prems(1) by (auto simp: backups_present_def e)
  note st = restore_entry_differs [OF assms en s]
  have "differs st d1 x = differs st d x" if "x \<in> set m" for x
  proof -
    obtain q a where "x = (q, a)" by fastforce
    moreover from this that Cons.prems(2) have "q \<noteq> p" by (force simp: e)
    ultimately show ?thesis using st by (simp add: differs_def)
  qed
  then have "filter (differs st d1) m = filter (differs st d) m" by (rule filter_cong [OF refl])
  moreover have "backups_present st d1 m" using Cons.prems(1) st by (simp add: backups_present_def e)
  ultimately show ?case using Cons.IH [of d1 r1] Cons.prems(2) st by (simp add: e s)
qed simp

text \<open>The preview tells the truth: when files and backups can be read and the file operations work, the
  files the preview of a rewind lists are exactly the files the rewind changes, in the same order, and
  neither reports an error.\<close>

lemma preview_matches_rewind:
  assumes "find_snapshot st mu = Some s" "table (sn_backups s)" "all_readable io" "restores_work io"
    "backups_present st d (sn_backups s)"
  shows "df_files_changed (checkpoint_diff_stats io mu st d) = rr_files_changed (fst (rewind_to io mu st d)) \<and>
    df_errors (checkpoint_diff_stats io mu st d) = [] \<and> rr_errors (fst (rewind_to io mu st d)) = []"
  using diff_loop [OF assms(3,5)] restore_loop_changes [OF assms(3,4,5) table_distinct [OF assms(2)]] assms(1)
  by (simp add: checkpoint_diff_stats_def rewind_to_def Let_def)

section \<open>Replaying the journal\<close>

lemma replay_append:
  "replay_messages (ms @ [m]) ss = (case replay_messages ms ss of Inl e \<Rightarrow> Inl e | Inr ss' \<Rightarrow> replay_messages [m] ss')"
proof (induction ms arbitrary: ss)
  case (Cons a ms)
  then show ?case by (simp split: sum.split option.split)
qed (simp split: sum.split option.split)

lemma replay_snapshot:
  "snapshot_ok s \<Longrightarrow> replay_messages [encode_snapshot_message id1 now s] ss = Inr (replace_snapshot s ss)"
  by (simp add: decode_encode_snapshot)

lemma replace_snapshot_new: "sn_message_uuid s \<notin> sn_message_uuid ` set ss \<Longrightarrow> replace_snapshot s ss = ss @ [s]"
  by (induction ss) auto

lemma replace_snapshot_last:
  "sn_message_uuid t = sn_message_uuid s \<Longrightarrow> sn_message_uuid s \<notin> sn_message_uuid ` set ss \<Longrightarrow> replace_snapshot s (ss @ [t]) = ss @ [s]"
  by (induction ss) auto

definition journal_inv :: "checkpoint_world \<Rightarrow> bool" where
  "journal_inv w \<longleftrightarrow> (\<exists>all. replay_messages (cw_journal w) [] = Inr all \<and> map sn_message_uuid all = cw_turns w \<and>
     distinct (cw_turns w) \<and> cs_max_snapshots (cw_store w) > 0 \<and>
     cs_snapshots (cw_store w) = drop (length all - cs_max_snapshots (cw_store w)) all)"

lemma begin_turn_journal:
  assumes inv: "checkpoint_inv P w" "journal_inv w" and mu: "mu \<noteq> []" "mu \<notin> set (cw_turns w)" "id1 \<noteq> []" "now \<noteq> []"
    and mk: "make_snapshot io id1 now mu (cw_store w, cw_disk w) = (s, st, d)"
  shows "journal_inv (after_begin mu (encode_snapshot_message id1 now s) st d w)"
proof -
  let ?ss = "cs_snapshots (cw_store w)" and ?cap = "cs_max_snapshots (cw_store w)"
  obtain all where a: "replay_messages (cw_journal w) [] = Inr all" "map sn_message_uuid all = cw_turns w"
    "distinct (cw_turns w)" "?cap > 0" "?ss = drop (length all - ?cap) all"
    using inv(2) by (auto simp: journal_inv_def)
  have k: "cs_snapshots st = drop (length ?ss + 1 - ?cap) ?ss @ [s]" "sn_message_uuid s = mu"
    "cs_max_snapshots st = ?cap"
    using make_snapshot_shape [OF mk a(4) checkpoint_invD(3) [OF inv(1)]] by metis+
  have "checkpoint_inv P (after_begin mu (encode_snapshot_message id1 now s) st d w)"
    by (rule begin_turn_inv [OF inv(1) mu mk])
  then have "snapshots_ok P (cs_snapshots st)" using checkpoint_invD(1) by (fastforce simp: after_begin_def)
  then have "snapshot_ok s" using k(1) by (simp add: snapshots_ok_def)
  moreover have "sn_message_uuid s \<notin> sn_message_uuid ` set all"
    using mu(2) a(2) k(2) by (metis list.set_map)
  ultimately have r: "replay_messages [encode_snapshot_message id1 now s] all = Inr (all @ [s])"
    using replay_snapshot [of s id1 now all] replace_snapshot_new [of s all] by metis
  have "replay_messages (cw_journal w @ [encode_snapshot_message id1 now s]) [] = Inr (all @ [s])"
    unfolding replay_append a(1) by (simp only: r sum.case)
  moreover have "drop (length ?ss + 1 - ?cap) ?ss @ [s] = drop (length (all @ [s]) - ?cap) (all @ [s])"
    using a(4) by (cases "length all < ?cap") (auto simp: a(5) Suc_diff_le)
  ultimately show ?thesis
    using a(2-4) mu(2) k by (simp add: journal_inv_def after_begin_def)
qed

lemma tool_write_journal:
  assumes inv: "checkpoint_inv P w" "journal_inv w"
    and path: "path = normalize_tracking_path (ci_scope io) file_path" "path \<in> P" "now \<noteq> []"
    and v: "next_version_for (cw_store w) path \<le> int32_max" and hash: "inj_on hash_hex16 P"
    and tr: "track_before_write io now file_path (cw_store w, cw_disk w) = (res, st1, d1)"
  shows "journal_inv (after_write path c (map_option (encode_snapshot_message id1 now) res) st1 d1 w)"
proof (cases "cs_snapshots (cw_store w) = []")
  case True
  then have "res = None \<and> st1 = cw_store w \<and> d1 = cw_disk w"
    using track_without_turn [OF tr] inv(1) by (simp add: checkpoint_inv_def Let_def)
  with inv(2) show ?thesis by (simp add: journal_inv_def after_write_def Let_def)
next
  case ne: False
  let ?st = "cw_store w" and ?cap = "cs_max_snapshots (cw_store w)"
  have act: "cs_active_uuid ?st = sn_message_uuid (last (cs_snapshots ?st))"
    and dirs: "cs_project_dir ?st \<noteq> []" "cs_session_id ?st \<noteq> []"
    using inv(1) ne by (auto simp: checkpoint_inv_def Let_def)
  obtain older t where ss: "cs_snapshots ?st = older @ [t]" using ne by (metis append_butlast_last_id)
  have at: "cs_active_uuid ?st = sn_message_uuid t" using act ss by simp
  have tn: "sn_message_uuid t \<noteq> []" using checkpoint_invD(1) [OF inv(1)] ss by (simp add: snapshots_ok_def)
  obtain all where a: "replay_messages (cw_journal w) [] = Inr all" "map sn_message_uuid all = cw_turns w"
    "distinct (cw_turns w)" "?cap > 0" "cs_snapshots ?st = drop (length all - ?cap) all"
    using inv(2) by (auto simp: journal_inv_def)
  consider "res = None" "st1 = ?st"
    | b s where "s = t\<lparr>sn_backups := put_sorted path b (sn_backups t), sn_timestamp := now\<rparr>" "res = Some s"
      "cs_snapshots st1 = older @ [s]" "cs_max_snapshots st1 = ?cap"
    using track_in_turn [OF tr path(1) ss at tn dirs] by fastforce
  then show ?thesis
  proof cases
    case 1
    with inv(2) show ?thesis by (simp add: journal_inv_def after_write_def Let_def)
  next
    case (2 b s)
    let ?w = "after_write path c (map_option (encode_snapshot_message id1 now) res) st1 d1 w"
    have "checkpoint_inv P ?w" by (rule tool_write_inv [OF inv(1) path v hash tr])
    then have "snapshots_ok P (cs_snapshots st1)" using checkpoint_invD(1) by (fastforce simp: after_write_def Let_def)
    then have ok: "snapshot_ok s" by (simp add: 2(3) snapshots_ok_def)
    obtain init where i: "all = init @ [t]" "older = drop (length all - ?cap) init"
    proof -
      have "all \<noteq> []" using a(5) ss by auto
      then obtain init l where al: "all = init @ [l]" by (metis append_butlast_last_id)
      have "length all - ?cap \<le> length init" using a(4) al by simp
      with a(5) ss al have "older = drop (length all - ?cap) init \<and> t = l" by simp
      with al that show ?thesis by blast
    qed
    have "sn_message_uuid t \<notin> sn_message_uuid ` set init" using a(2,3) i(1) by (metis distinct.simps(2)
          distinct_append list.set_map map_append list.map(2) list.set_intros(1) disjoint_iff)
    then have "replace_snapshot s all = init @ [s]" using 2(1) i(1) by (simp add: replace_snapshot_last)
    with a(1) replay_snapshot [OF ok, of id1 now all]
    have "replay_messages (cw_journal ?w) [] = Inr (init @ [s])"
      by (simp add: after_write_def 2(2) replay_append Let_def del: replay_messages.simps)
    moreover have "map sn_message_uuid (init @ [s]) = cw_turns w" using a(2) i(1) 2(1) by simp
    moreover have "older @ [s] = drop (length (init @ [s]) - ?cap) (init @ [s])"
      using i a(4) by simp
    ultimately show ?thesis using a(3,4) 2(3,4) unfolding journal_inv_def
      by (intro exI [of _ "init @ [s]"]) (simp add: after_write_def Let_def)
  qed
qed

lemma step_journal:
  assumes "checkpoint_step io P w w'" "checkpoint_inv P w" "journal_inv w" "inj_on hash_hex16 P"
  shows "journal_inv w'"
  using assms(1)
proof cases
  case (begin_turn mu id1 now io' s st d)
  then show ?thesis using begin_turn_journal [OF assms(2,3)] by simp
next
  case (tool_write file_path now io' res st d c id1)
  then show ?thesis unfolding tool_write(1) track_scope [OF tool_write(4)]
    by (intro tool_write_journal [OF assms(2,3) refl _ _ _ assms(4)]) simp_all
next
  case (outside_change f)
  then show ?thesis using assms(3) by (simp add: journal_inv_def after_outside_def Let_def)
qed

lemma reachable_journal:
  assumes "checkpoint_reachable io P (start_world project session cap d0) w" "project \<noteq> []" "session \<noteq> []"
    "inj_on hash_hex16 P"
  shows "checkpoint_inv P w \<and> journal_inv w"
  using assms(1) unfolding checkpoint_reachable_def
proof (induction rule: rtranclp_induct)
  case base
  then show ?case using checkpoint_start_inv [OF assms(2,3)]
    by (simp add: journal_inv_def start_world_def set_session_def new_checkpoint_store_def)
next
  case (step w w')
  then show ?case using step_inv [OF _ _ assms(4)] step_journal [OF _ _ _ assms(4)] by blast
qed

text \<open>C24: A resumed session can be rewound like the live one: replaying the journal of a session into a new
  store of the same capacity gives the snapshots the live store holds, evictions included, and the same
  active turn.\<close>

theorem checkpoint_journal_replays:
  assumes "checkpoint_reachable io P (start_world project session cap d0) w" "project \<noteq> []" "session \<noteq> []"
    "inj_on hash_hex16 P" "cs_max_snapshots fresh = cs_max_snapshots (cw_store w)"
  shows "\<exists>st d. load_from_messages io' project session (cw_journal w) (fresh, d1) = Inr (st, d) \<and>
    cs_snapshots st = cs_snapshots (cw_store w) \<and> cs_active_uuid st = cs_active_uuid (cw_store w)"
proof -
  have inv: "checkpoint_inv P w" "journal_inv w" using reachable_journal [OF assms(1-4)] by simp_all
  obtain all where a: "replay_messages (cw_journal w) [] = Inr all" "cs_max_snapshots (cw_store w) > 0"
    "cs_snapshots (cw_store w) = drop (length all - cs_max_snapshots (cw_store w)) all"
    using inv(2) by (auto simp: journal_inv_def)
  have act: "cs_active_uuid (cw_store w) = (if all = [] then [] else sn_message_uuid (last all))"
    using inv(1) a(2,3) by (auto simp: checkpoint_inv_def Let_def)
  obtain st2 d2 where e: "enforce_snapshot_cap io'
      (activate_last ((set_session project session (reset_store fresh))\<lparr>cs_snapshots := all\<rparr>), d1) = (st2, d2)"
    by fastforce
  then have l: "load_from_messages io' project session (cw_journal w) (fresh, d1) = Inr (st2\<lparr>cs_captured := []\<rparr>, d2)"
    by (simp add: load_from_messages_def a(1))
  from e have "st2 = fst (enforce_snapshot_cap io'
      (activate_last ((set_session project session (reset_store fresh))\<lparr>cs_snapshots := all\<rparr>), d1))" by simp
  then have "cs_snapshots st2 = drop (length all - cs_max_snapshots fresh) all \<and>
      cs_active_uuid st2 = (if all = [] then [] else sn_message_uuid (last all))"
    by (simp add: enforce_snapshot_cap_def activate_last_def set_session_def reset_store_def Let_def)
  with l act a(3) assms(5) show ?thesis by simp
qed

section \<open>Two turns\<close>

text \<open>A concrete session: the first turn changes the file once, a second turn begins, and changes it again.\<close>

definition sound_io :: checkpoint_io where
  "sound_io = \<lparr>ci_scope = \<lparr>sc_weakly_canonical = Some, sc_absolute = Some\<rparr>, ci_backup_fails = (\<lambda>_. None),
     ci_restore_fails = (\<lambda>_. None), ci_remove_fails = (\<lambda>_. None), ci_file_readable = (\<lambda>_. True),
     ci_backup_readable = (\<lambda>_. True), ci_exists_fails = (\<lambda>_. None), ci_keeps_garbage = (\<lambda>_. False),
     ci_fork_fails = (\<lambda>_. False)\<rparr>"

definition do_begin :: "string \<Rightarrow> checkpoint_world \<Rightarrow> checkpoint_world" where
  "do_begin mu w = (case make_snapshot sound_io ''i'' ''n'' mu (cw_store w, cw_disk w) of
     (s, st, d) \<Rightarrow> after_begin mu (encode_snapshot_message ''i'' ''n'' s) st d w)"

definition do_write :: "string \<Rightarrow> checkpoint_world \<Rightarrow> checkpoint_world" where
  "do_write c w = (case track_before_write sound_io ''n'' ''/w/f'' (cw_store w, cw_disk w) of
     (res, st, d) \<Rightarrow> after_write (normalize_tracking_path (ci_scope sound_io) ''/w/f'') (Some c)
        (map_option (encode_snapshot_message ''i'' ''n'') res) st d w)"

definition turn0 :: checkpoint_world where
  "turn0 = start_world ''p'' ''s'' 5 \<lparr>cd_files = [''/w/f'' \<mapsto> ''a''], cd_backups = (\<lambda>_. None)\<rparr>"

definition turn1 :: checkpoint_world where "turn1 = do_write ''b'' (do_begin ''u1'' turn0)"
definition turn2 :: checkpoint_world where "turn2 = do_begin ''u2'' turn1"
definition turn3 :: checkpoint_world where "turn3 = do_write ''c'' turn2"

lemma do_begin_step:
  "mu \<noteq> [] \<Longrightarrow> mu \<notin> set (cw_turns w) \<Longrightarrow> checkpoint_step sound_io P w (do_begin mu w)"
  unfolding do_begin_def by (auto split: prod.split intro!: checkpoint_step.begin_turn)

lemma do_write_step:
  assumes "next_version_for (cw_store w) ''/w/f'' \<le> int32_max"
  shows "checkpoint_step sound_io {''/w/f''} w (do_write c w)"
proof -
  have n: "normalize_tracking_path (ci_scope sound_io) ''/w/f'' = ''/w/f''" by code_simp
  obtain res st d where t: "track_before_write sound_io ''n'' ''/w/f'' (cw_store w, cw_disk w) = (res, st, d)"
    by (metis surj_pair)
  show ?thesis
    using checkpoint_step.tool_write [OF _ _ refl _ t, where P = "{''/w/f''}" and c = "Some c" and ?id1.0 = "''i''"] assms
    by (simp add: n do_write_def t)
qed

lemma turns_values:
  "next_version_for (cw_store (do_begin ''u1'' turn0)) ''/w/f'' = 1" "next_version_for (cw_store turn2) ''/w/f'' = 2"
  "cw_turns turn1 = [''u1'']"
proof -
  show "next_version_for (cw_store (do_begin ''u1'' turn0)) ''/w/f'' = 1" by code_simp
  show "next_version_for (cw_store turn2) ''/w/f'' = 2" by code_simp
  show "cw_turns turn1 = [''u1'']" by code_simp
qed

lemma turns_reachable: "checkpoint_reachable sound_io {''/w/f''} turn0 turn3"
proof -
  have s1: "checkpoint_step sound_io {''/w/f''} turn0 (do_begin ''u1'' turn0)"
    by (rule do_begin_step) (simp_all add: turn0_def start_world_def)
  have s2: "checkpoint_step sound_io {''/w/f''} (do_begin ''u1'' turn0) turn1"
    unfolding turn1_def by (rule do_write_step) (simp_all add: turns_values)
  have s3: "checkpoint_step sound_io {''/w/f''} turn1 turn2"
    unfolding turn2_def by (rule do_begin_step) (simp_all add: turns_values)
  have s4: "checkpoint_step sound_io {''/w/f''} turn2 turn3"
    unfolding turn3_def by (rule do_write_step) (simp_all add: turns_values)
  from s1 have "(checkpoint_step sound_io {''/w/f''})\<^sup>*\<^sup>* turn0 (do_begin ''u1'' turn0)" by (rule r_into_rtranclp)
  from this s2 have "(checkpoint_step sound_io {''/w/f''})\<^sup>*\<^sup>* turn0 turn1" by (rule rtranclp.rtrancl_into_rtrancl)
  from this s3 have "(checkpoint_step sound_io {''/w/f''})\<^sup>*\<^sup>* turn0 turn2" by (rule rtranclp.rtrancl_into_rtrancl)
  from this s4 show ?thesis unfolding checkpoint_reachable_def by (rule rtranclp.rtrancl_into_rtrancl)
qed

lemma sound_io_works: "restores_work sound_io" "all_readable sound_io"
  by (simp_all add: restores_work_def all_readable_def sound_io_def)

text \<open>The second turn starts with ``b'', and a rewind to it brings back ``a''.\<close>

lemma rewind_goes_too_far:
  "cw_starts turn2 ''u2'' ''/w/f'' = Some ''b''"
  "cd_files (snd (rewind_to sound_io ''u2'' (cw_store turn2) (cw_disk turn2))) ''/w/f'' = Some ''a''"
proof -
  show "cw_starts turn2 ''u2'' ''/w/f'' = Some ''b''" by code_simp
  show "cd_files (snd (rewind_to sound_io ''u2'' (cw_store turn2) (cw_disk turn2))) ''/w/f'' = Some ''a''" by code_simp
qed

text \<open>A backup that fails stops nobody: the tool changes the file, and a rewind of the turn leaves it changed and
  reports neither a change nor an error.\<close>

lemma failed_backup_not_undone:
  "case track_before_write (sound_io\<lparr>ci_backup_fails := (\<lambda>_. Some None)\<rparr>) ''n'' ''/w/f''
      (cw_store (do_begin ''u1'' turn0), cw_disk (do_begin ''u1'' turn0)) of
     (res, st, d) \<Rightarrow> res = None \<and>
       (case rewind_to sound_io ''u1'' st (set_file ''/w/f'' (Some ''b'') d) of
          (r, d') \<Rightarrow> rr_files_changed r = [] \<and> rr_errors r = [] \<and> cd_files d' ''/w/f'' = Some ''b'')"
  by code_simp

theorem rewind_restores_captured_content_witness:
  "cd_files (cw_disk turn3) ''/w/f'' = Some ''c'' \<and>
   cd_files (snd (rewind_to sound_io ''u1'' (cw_store turn3) (cw_disk turn3))) ''/w/f'' = Some ''a''"
proof -
  have c: "can_restore (cw_store turn3) ''u1''" by code_simp
  have m: "cw_before turn3 ''u1'' ''/w/f'' = Some (Some ''a'')" by code_simp
  have f: "cd_files (cw_disk turn3) ''/w/f'' = Some ''c''" by code_simp
  from rewind_restores_captured_content [OF turns_reachable [unfolded turn0_def] _ _ _ sound_io_works(1) c m refl] f
  show ?thesis by simp
qed

lemma preview_matches_rewind_witness:
  "df_files_changed (checkpoint_diff_stats sound_io ''u1'' (cw_store turn3) (cw_disk turn3)) =
   rr_files_changed (fst (rewind_to sound_io ''u1'' (cw_store turn3) (cw_disk turn3)))"
proof -
  let ?s = "hd (cs_snapshots (cw_store turn3))"
  have f: "find_snapshot (cw_store turn3) ''u1'' = Some ?s" by code_simp
  have t: "table (sn_backups ?s)" by code_simp
  have "backups_present (cw_store turn3) (cw_disk turn3) (sn_backups ?s)" by code_simp
  from preview_matches_rewind [OF f t sound_io_works(2,1) this] show ?thesis by blast
qed

theorem checkpoint_journal_replays_witness:
  "\<exists>st d. load_from_messages sound_io ''p'' ''s'' (cw_journal turn3)
      (new_checkpoint_store 5, \<lparr>cd_files = (\<lambda>_. None), cd_backups = (\<lambda>_. None)\<rparr>) = Inr (st, d) \<and>
     cs_snapshots st = cs_snapshots (cw_store turn3) \<and> cs_active_uuid st = ''u2''"
proof -
  have c: "cs_max_snapshots (new_checkpoint_store 5) = cs_max_snapshots (cw_store turn3)" by code_simp
  have a: "cs_active_uuid (cw_store turn3) = ''u2''" by code_simp
  from checkpoint_journal_replays [OF turns_reachable [unfolded turn0_def] _ _ _ c, of sound_io
      "\<lparr>cd_files = (\<lambda>_. None), cd_backups = (\<lambda>_. None)\<rparr>"] a
  show ?thesis by simp
qed

lemma rewind_preview_bounded: "length (rewind_preview_text m n) \<le> n"
  by (cases "n \<le> 3") (auto simp: rewind_preview_text_def Let_def)

end
