(* ===== verification/GoalStore.thy ===== *)
theory GoalStore
  imports Json
begin

text \<open>
  \<open>session/thread_goal_store.cpp\<close>: the table of thread goals, one row per thread, kept in the project's
  SQLite database.  The table is a map from thread ids to rows; what each SQL statement does is modelled
  on that map, and whether it can be prepared, bound and executed is an argument (\<open>sql_outcome\<close>), so
  every error path of the source is a branch here.  The store's handle can be open although the schema was
  never created: then the table is missing and every statement fails.  Texts are bound as C strings, so
  they end at their first NUL.  The 64-bit counters wrap.
\<close>

section \<open>Goals\<close>

datatype goal_status = GoalActive | GoalPaused | GoalBlocked | GoalUsageLimited | GoalBudgetLimited | GoalComplete

record thread_goal =
  tg_thread_id :: string
  tg_goal_id :: string
  tg_objective :: string
  tg_status :: goal_status
  tg_token_budget :: "int option"
  tg_tokens_used :: int
  tg_time_used :: int
  tg_created_at :: int
  tg_updated_at :: int

definition goal_status_name :: "goal_status \<Rightarrow> string" where
  "goal_status_name s =
     (case s of GoalActive \<Rightarrow> ''active'' | GoalPaused \<Rightarrow> ''paused'' | GoalBlocked \<Rightarrow> ''blocked''
      | GoalUsageLimited \<Rightarrow> ''usage_limited'' | GoalBudgetLimited \<Rightarrow> ''budget_limited'' | GoalComplete \<Rightarrow> ''complete'')"

definition parse_goal_status :: "string \<Rightarrow> goal_status option" where
  "parse_goal_status s =
     (if s = ''active'' then Some GoalActive
      else if s = ''paused'' then Some GoalPaused
      else if s = ''blocked'' then Some GoalBlocked
      else if s = ''usage_limited'' then Some GoalUsageLimited
      else if s = ''budget_limited'' then Some GoalBudgetLimited
      else if s = ''complete'' then Some GoalComplete
      else None)"

definition max_objective_bytes :: nat where "max_objective_bytes = 4000"

definition trim_goal_objective :: "string \<Rightarrow> string" where
  "trim_goal_objective text = trim_by is_space text"

text \<open>The checks return the error, or \<open>None\<close>.\<close>

definition validate_goal_objective :: "string \<Rightarrow> string option" where
  "validate_goal_objective s =
     (if trim_goal_objective s = [] then Some ''Goal objective cannot be empty.''
      else if length (trim_goal_objective s) > max_objective_bytes then Some ''Goal objective is too long.''
      else None)"

definition validate_goal_token_budget :: "int option \<Rightarrow> string option" where
  "validate_goal_token_budget budget =
     (case budget of
        Some b \<Rightarrow> if b \<le> 0 then Some ''Goal token budget must be a positive integer.'' else None
      | None \<Rightarrow> None)"

definition goal_remaining :: "thread_goal \<Rightarrow> int \<Rightarrow> int" where
  "goal_remaining goal budget = max 0 (wrap_signed 64 (budget - tg_tokens_used goal))"

definition thread_goal_to_json :: "thread_goal \<Rightarrow> json" where
  "thread_goal_to_json goal =
     JObj [(''thread_id'', JStr (tg_thread_id goal)), (''goal_id'', JStr (tg_goal_id goal)),
       (''objective'', JStr (tg_objective goal)), (''status'', JStr (goal_status_name (tg_status goal))),
       (''token_budget'', (case tg_token_budget goal of Some b \<Rightarrow> JInt b | None \<Rightarrow> JNull)),
       (''remaining_tokens'', (case tg_token_budget goal of Some b \<Rightarrow> JInt (goal_remaining goal b) | None \<Rightarrow> JNull)),
       (''tokens_used'', JInt (tg_tokens_used goal)), (''time_used_seconds'', JInt (tg_time_used goal)),
       (''created_at_ms'', JInt (tg_created_at goal)), (''updated_at_ms'', JInt (tg_updated_at goal))]"

section \<open>The database\<close>

datatype sql_outcome = SqlOk | PrepareFails string | BindFails string | StepFails string

text \<open>\<open>gd_rows = None\<close>: the table does not exist.  \<open>gd_v2\<close>: its check admits the two later statuses.\<close>

type_synonym goal_rows = "string \<Rightarrow> thread_goal option"

record goal_db =
  gd_open :: bool
  gd_rows :: "goal_rows option"
  gd_v2 :: bool

definition sql_error :: "string \<Rightarrow> string \<Rightarrow> string" where
  "sql_error what msg = what @ '': '' @ msg"

definition c_string :: "string \<Rightarrow> string" where
  "c_string s = takeWhile (\<lambda>c. byte c \<noteq> 0) s"

definition not_initialized :: string where
  "not_initialized = ''goal store is not initialized''"

text \<open>A statement on a missing table cannot be prepared.\<close>

definition sql_on :: "goal_db \<Rightarrow> sql_outcome \<Rightarrow> sql_outcome" where
  "sql_on db out =
     (case (gd_rows db, out) of
        (None, PrepareFails m) \<Rightarrow> PrepareFails m
      | (None, _) \<Rightarrow> PrepareFails ''no such table: thread_goals''
      | (Some _, _) \<Rightarrow> out)"

definition status_admitted :: "goal_db \<Rightarrow> goal_status \<Rightarrow> bool" where
  "status_admitted db status \<longleftrightarrow> gd_v2 db \<or> (status \<noteq> GoalBlocked \<and> status \<noteq> GoalUsageLimited)"

text \<open>The error of a statement, with the texts for a failed bind and a failed step.\<close>

definition statement_error :: "string \<Rightarrow> string \<Rightarrow> sql_outcome \<Rightarrow> string option" where
  "statement_error bind_text step_text out =
     (case out of
        SqlOk \<Rightarrow> None
      | PrepareFails m \<Rightarrow> Some (sql_error ''prepare failed'' m)
      | BindFails m \<Rightarrow> Some (sql_error bind_text m)
      | StepFails m \<Rightarrow> Some (sql_error step_text m))"

definition db_rows :: "goal_db \<Rightarrow> goal_rows" where
  "db_rows db = (case gd_rows db of Some rows \<Rightarrow> rows | None \<Rightarrow> (\<lambda>_. None))"

definition put_row :: "string \<Rightarrow> thread_goal option \<Rightarrow> goal_db \<Rightarrow> goal_db" where
  "put_row tid g db = db\<lparr>gd_rows := Some ((db_rows db)(tid := g))\<rparr>"

section \<open>Opening the store\<close>

text \<open>What fails while the store is opened; \<open>None\<close> is success.\<close>

record open_outcome =
  oo_create_dirs :: "string option"
  oo_open :: "string option"
  oo_pragma :: "string option"
  oo_migrations :: "string option"
  oo_begin :: "string option"
  oo_create_table :: "string option"
  oo_read_schema :: "string option"
  oo_migrate :: "string option"
  oo_versions :: "string option"
  oo_commit :: "string option"

definition create_goal_table :: "goal_db \<Rightarrow> goal_db" where
  "create_goal_table db =
     (case gd_rows db of
        None \<Rightarrow> db\<lparr>gd_rows := Some (\<lambda>_. None), gd_v2 := True\<rparr>
      | Some rows \<Rightarrow> db)"

text \<open>The transaction: on an error everything is rolled back.  After a failed commit the connection still
  sees the tables.\<close>

definition initialize_schema :: "open_outcome \<Rightarrow> goal_db \<Rightarrow> string option \<times> goal_db" where
  "initialize_schema oo db =
     (case oo_create_table oo of
        Some e \<Rightarrow> (Some e, db)
      | None \<Rightarrow>
     (case oo_read_schema oo of
        Some e \<Rightarrow> (Some e, db)
      | None \<Rightarrow>
     (case (if gd_v2 (create_goal_table db) then None else oo_migrate oo) of
        Some e \<Rightarrow> (Some e, db)
      | None \<Rightarrow>
     (case oo_versions oo of
        Some e \<Rightarrow> (Some e, db)
      | None \<Rightarrow> (oo_commit oo, (create_goal_table db)\<lparr>gd_v2 := True\<rparr>)))))"

definition initialize :: "open_outcome \<Rightarrow> goal_db \<Rightarrow> string option \<times> goal_db" where
  "initialize oo db =
     (if gd_open db then (None, db)
      else case oo_create_dirs oo of
        Some m \<Rightarrow> (Some (''failed to create project state directory: '' @ m), db)
      | None \<Rightarrow>
     (case oo_open oo of
        Some m \<Rightarrow> (Some (sql_error ''failed to open goal state database'' m), db\<lparr>gd_open := False\<rparr>)
      | None \<Rightarrow>
     (let db1 = db\<lparr>gd_open := True\<rparr>
      in case oo_pragma oo of
        Some e \<Rightarrow> (Some e, db1)
      | None \<Rightarrow>
     (case oo_migrations oo of
        Some e \<Rightarrow> (Some e, db1)
      | None \<Rightarrow>
     (case oo_begin oo of
        Some e \<Rightarrow> (Some e, db1)
      | None \<Rightarrow> initialize_schema oo db1)))))"

text \<open>\<open>SessionManager::goal_store\<close> and \<open>existing_goal_store\<close>: the store of a session; a store that cannot
  be initialized is dropped.\<close>

definition available :: "goal_db \<Rightarrow> bool" where
  "available db \<longleftrightarrow> gd_open db"

definition goal_store :: "open_outcome \<Rightarrow> goal_db option \<Rightarrow> goal_db option" where
  "goal_store oo store =
     (case store of
        None \<Rightarrow> None
      | Some db \<Rightarrow>
          if available db then Some db
          else (case initialize oo db of (Some e, _) \<Rightarrow> None | (None, db') \<Rightarrow> Some db'))"

text \<open>The result for the caller, and the store that is kept.\<close>

definition existing_goal_store :: "open_outcome \<Rightarrow> bool \<Rightarrow> goal_db option \<Rightarrow> goal_db option \<times> goal_db option" where
  "existing_goal_store oo file_exists store =
     (case store of
        None \<Rightarrow> (None, None)
      | Some db \<Rightarrow>
          if available db then (Some db, Some db)
          else if \<not> file_exists then (None, Some db)
          else (case initialize oo db of (Some e, _) \<Rightarrow> (None, None) | (None, db') \<Rightarrow> (Some db', Some db')))"

section \<open>Reading and writing goals\<close>

definition get_thread_goal :: "sql_outcome \<Rightarrow> string \<Rightarrow> goal_db \<Rightarrow> string + thread_goal option" where
  "get_thread_goal out thread_id db =
     (if \<not> gd_open db then Inl not_initialized
      else case statement_error ''goal read failed'' ''goal read failed'' (sql_on db out) of
        Some e \<Rightarrow> Inl e
      | None \<Rightarrow> Inr (db_rows db (c_string thread_id)))"

definition check_goal :: "string \<Rightarrow> int option \<Rightarrow> string option" where
  "check_goal objective token_budget =
     (case validate_goal_objective (trim_goal_objective objective) of
        Some e \<Rightarrow> Some e
      | None \<Rightarrow> validate_goal_token_budget token_budget)"

definition replace_thread_goal ::
  "sql_outcome \<Rightarrow> int \<Rightarrow> string \<Rightarrow> string \<Rightarrow> string \<Rightarrow> int option \<Rightarrow> goal_status \<Rightarrow> goal_db \<Rightarrow> string option \<times> goal_db" where
  "replace_thread_goal out now new_id thread_id objective token_budget status db =
     (if \<not> gd_open db then (Some not_initialized, db)
      else case check_goal objective token_budget of
        Some e \<Rightarrow> (Some e, db)
      | None \<Rightarrow>
     (case statement_error ''goal bind failed'' ''goal replace failed''
             (if \<not> status_admitted db status \<and> sql_on db out = SqlOk
              then StepFails ''CHECK constraint failed'' else sql_on db out) of
        Some e \<Rightarrow> (Some e, db)
      | None \<Rightarrow>
          (None, put_row (c_string thread_id) (Some
             \<lparr>tg_thread_id = c_string thread_id, tg_goal_id = c_string new_id,
              tg_objective = c_string (trim_goal_objective objective), tg_status = status,
              tg_token_budget = token_budget, tg_tokens_used = 0, tg_time_used = 0,
              tg_created_at = now, tg_updated_at = now\<rparr>) db)))"

text \<open>\<open>UPDATE ... WHERE thread_id = ? AND ...\<close>: whether a row changed, and the table.\<close>

definition update_row :: "string \<Rightarrow> (thread_goal \<Rightarrow> bool) \<Rightarrow> (thread_goal \<Rightarrow> thread_goal) \<Rightarrow> goal_db \<Rightarrow> bool \<times> goal_db" where
  "update_row tid applies f db =
     (case db_rows db (c_string tid) of
        Some g \<Rightarrow> if applies g then (True, put_row (c_string tid) (Some (f g)) db) else (False, db)
      | None \<Rightarrow> (False, db))"

text \<open>An update's result: an error, or whether a row changed.\<close>

definition update_statement ::
  "string \<Rightarrow> string \<Rightarrow> sql_outcome \<Rightarrow> goal_status option \<Rightarrow> string \<Rightarrow> (thread_goal \<Rightarrow> bool) \<Rightarrow>
     (thread_goal \<Rightarrow> thread_goal) \<Rightarrow> goal_db \<Rightarrow> (string + bool) \<times> goal_db" where
  "update_statement bind_text step_text out sets tid applies f db =
     (case update_row tid applies f db of (changed, db') \<Rightarrow>
        (let refused = changed \<and> (case sets of Some s \<Rightarrow> \<not> status_admitted db s | None \<Rightarrow> False)
         in case statement_error bind_text step_text
                (if refused \<and> sql_on db out = SqlOk then StepFails ''CHECK constraint failed'' else sql_on db out) of
              Some e \<Rightarrow> (Inl e, db)
            | None \<Rightarrow> (Inr changed, db')))"

definition update_thread_goal_status ::
  "sql_outcome \<Rightarrow> int \<Rightarrow> string \<Rightarrow> string \<Rightarrow> goal_status \<Rightarrow> goal_db \<Rightarrow> (string + bool) \<times> goal_db" where
  "update_thread_goal_status out now thread_id goal_id status db =
     (if \<not> gd_open db then (Inl not_initialized, db)
      else update_statement ''goal status bind failed'' ''goal status update failed'' out (Some status) thread_id
             (\<lambda>g. tg_goal_id g = c_string goal_id) (\<lambda>g. g\<lparr>tg_status := status, tg_updated_at := now\<rparr>) db)"

definition update_thread_goal_objective ::
  "sql_outcome \<Rightarrow> int \<Rightarrow> string \<Rightarrow> string \<Rightarrow> string \<Rightarrow> int option \<Rightarrow> goal_db \<Rightarrow> (string + bool) \<times> goal_db" where
  "update_thread_goal_objective out now thread_id goal_id objective token_budget db =
     (if \<not> gd_open db then (Inl not_initialized, db)
      else case check_goal objective token_budget of
        Some e \<Rightarrow> (Inl e, db)
      | None \<Rightarrow> update_statement ''goal objective bind failed'' ''goal objective update failed'' out None thread_id
             (\<lambda>g. tg_goal_id g = c_string goal_id)
             (\<lambda>g. g\<lparr>tg_objective := c_string (trim_goal_objective objective),
                    tg_token_budget := token_budget, tg_updated_at := now\<rparr>) db)"

definition pause_active_thread_goal :: "sql_outcome \<Rightarrow> int \<Rightarrow> string \<Rightarrow> goal_db \<Rightarrow> (string + bool) \<times> goal_db" where
  "pause_active_thread_goal out now thread_id db =
     (if \<not> gd_open db then (Inl not_initialized, db)
      else update_statement ''goal pause bind failed'' ''goal pause failed'' out (Some GoalPaused) thread_id
             (\<lambda>g. tg_status g = GoalActive) (\<lambda>g. g\<lparr>tg_status := GoalPaused, tg_updated_at := now\<rparr>) db)"

definition delete_thread_goal :: "sql_outcome \<Rightarrow> string \<Rightarrow> goal_db \<Rightarrow> string option \<times> goal_db" where
  "delete_thread_goal out thread_id db =
     (if \<not> gd_open db then (Some not_initialized, db)
      else case statement_error ''goal delete bind failed'' ''goal delete failed'' (sql_on db out) of
        Some e \<Rightarrow> (Some e, db)
      | None \<Rightarrow> (None, put_row (c_string thread_id) None db))"

text \<open>An operation of several statements is not one transaction: other threads and processes may write between
  its read and its write.  The operations below that read first take two tables, \<open>seen\<close>, the one the read
  finds, and \<open>db\<close>, the one the write finds; an operation that is not interrupted has both equal.\<close>

definition copy_goal_from ::
  "(nat \<Rightarrow> sql_outcome) \<Rightarrow> int \<Rightarrow> string \<Rightarrow> string \<Rightarrow> string \<Rightarrow> goal_db \<Rightarrow> goal_db \<Rightarrow> string option \<times> goal_db" where
  "copy_goal_from out now new_id from_thread to_thread seen db =
     (if \<not> gd_open seen then (Some not_initialized, db)
      else case get_thread_goal (out 0) from_thread seen of
        Inr (Some g) \<Rightarrow> replace_thread_goal (out 1) now new_id to_thread (tg_objective g) (tg_token_budget g) (tg_status g) db
      | _ \<Rightarrow> (None, db))"

definition copy_goal_reset_usage ::
  "(nat \<Rightarrow> sql_outcome) \<Rightarrow> int \<Rightarrow> string \<Rightarrow> string \<Rightarrow> string \<Rightarrow> goal_db \<Rightarrow> string option \<times> goal_db" where
  "copy_goal_reset_usage out now new_id from_thread to_thread db =
     copy_goal_from out now new_id from_thread to_thread db db"

section \<open>Accounting\<close>

record accounting_result =
  ar_goal :: "thread_goal option"
  ar_updated :: bool
  ar_limited :: bool
  ar_error :: "string option"

definition no_accounting :: accounting_result where
  "no_accounting = \<lparr>ar_goal = None, ar_updated = False, ar_limited = False, ar_error = None\<rparr>"

text \<open>What the row that was read asks for: nothing, with the result, or the counters and the status to
  write.\<close>

definition plan_accounting ::
  "string \<Rightarrow> int \<Rightarrow> int \<Rightarrow> bool \<Rightarrow> thread_goal option \<Rightarrow> accounting_result + int \<times> int \<times> goal_status \<times> bool" where
  "plan_accounting goal_id tokens seconds allow_complete before =
     (case before of
        None \<Rightarrow> Inl no_accounting
      | Some g \<Rightarrow>
          if tg_goal_id g \<noteq> goal_id then Inl no_accounting
          else if tg_status g \<noteq> GoalActive \<and> \<not> (allow_complete \<and> tg_status g = GoalComplete)
          then Inl (no_accounting\<lparr>ar_goal := Some g\<rparr>)
          else if max 0 tokens = 0 \<and> max 0 seconds = 0 then Inl (no_accounting\<lparr>ar_goal := Some g\<rparr>)
          else (let next_tokens = wrap_signed 64 (tg_tokens_used g + max 0 tokens);
                    next_time = wrap_signed 64 (tg_time_used g + max 0 seconds);
                    limited = (tg_status g = GoalActive \<and>
                      (case tg_token_budget g of Some b \<Rightarrow> next_tokens \<ge> b | None \<Rightarrow> False))
                in Inr (next_tokens, next_time, (if limited then GoalBudgetLimited else tg_status g), limited)))"

text \<open>The write and the read after it; the row may have changed since it was read.\<close>

definition write_accounting ::
  "(nat \<Rightarrow> sql_outcome) \<Rightarrow> int \<Rightarrow> string \<Rightarrow> string \<Rightarrow> int \<times> int \<times> goal_status \<times> bool \<Rightarrow> goal_db \<Rightarrow>
     accounting_result \<times> goal_db" where
  "write_accounting out now thread_id goal_id planned db =
     (case planned of (next_tokens, next_time, next_status, limited) \<Rightarrow>
        let r = no_accounting\<lparr>ar_limited := limited\<rparr>
        in case update_statement ''goal account bind failed'' ''goal account failed'' (out 1) (Some next_status) thread_id
                  (\<lambda>g. tg_goal_id g = c_string goal_id)
                  (\<lambda>g. g\<lparr>tg_tokens_used := next_tokens, tg_time_used := next_time, tg_status := next_status,
                         tg_updated_at := now\<rparr>) db of
             (Inl e, db') \<Rightarrow> (r\<lparr>ar_error := Some e\<rparr>, db')
           | (Inr changed, db') \<Rightarrow>
               (case get_thread_goal (out 2) thread_id db' of
                  Inl e \<Rightarrow> (r\<lparr>ar_updated := changed, ar_error := Some e\<rparr>, db')
                | Inr g \<Rightarrow> (r\<lparr>ar_updated := changed, ar_goal := g\<rparr>, db')))"

definition account_usage_from ::
  "(nat \<Rightarrow> sql_outcome) \<Rightarrow> int \<Rightarrow> string \<Rightarrow> string \<Rightarrow> int \<Rightarrow> int \<Rightarrow> bool \<Rightarrow> goal_db \<Rightarrow> goal_db \<Rightarrow>
     accounting_result \<times> goal_db" where
  "account_usage_from out now thread_id goal_id tokens seconds allow_complete seen db =
     (if \<not> gd_open seen then (no_accounting\<lparr>ar_error := Some not_initialized\<rparr>, db)
      else case get_thread_goal (out 0) thread_id seen of
        Inl e \<Rightarrow> (no_accounting\<lparr>ar_error := Some e\<rparr>, db)
      | Inr before \<Rightarrow>
          (case plan_accounting goal_id tokens seconds allow_complete before of
             Inl r \<Rightarrow> (r, db)
           | Inr planned \<Rightarrow> write_accounting out now thread_id goal_id planned db))"

definition account_thread_goal_usage ::
  "(nat \<Rightarrow> sql_outcome) \<Rightarrow> int \<Rightarrow> string \<Rightarrow> string \<Rightarrow> int \<Rightarrow> int \<Rightarrow> bool \<Rightarrow> goal_db \<Rightarrow> accounting_result \<times> goal_db" where
  "account_thread_goal_usage out now thread_id goal_id tokens seconds allow_complete db =
     account_usage_from out now thread_id goal_id tokens seconds allow_complete db db"

lemmas account_alone = account_thread_goal_usage_def account_usage_from_def

section \<open>What the statements do to the table\<close>

lemma put_row_fields [simp]:
  "gd_open (put_row t g db) = gd_open db" "gd_v2 (put_row t g db) = gd_v2 db"
  "db_rows (put_row t g db) = (db_rows db)(t := g)" "gd_rows (put_row t g db) \<noteq> None"
  by (simp_all add: put_row_def db_rows_def)

lemma sql_on_ok [simp]: "gd_rows db \<noteq> None \<Longrightarrow> sql_on db out = out"
  by (auto simp: sql_on_def)

lemma missing_table_error: "gd_rows db = None \<Longrightarrow> sql_on db out \<noteq> SqlOk"
  by (auto simp: sql_on_def split: sql_outcome.splits)

lemma statement_error_None [simp]: "statement_error a b out = None \<longleftrightarrow> out = SqlOk"
  by (simp add: statement_error_def split: sql_outcome.split)

lemma update_row_rows:
  "update_row t P f db = (changed, db') \<Longrightarrow>
     gd_open db' = gd_open db \<and> gd_v2 db' = gd_v2 db \<and>
     (changed \<longrightarrow> (\<exists>g. db_rows db (c_string t) = Some g \<and> P g \<and> db_rows db' = (db_rows db)(c_string t \<mapsto> f g))) \<and>
     (\<not> changed \<longrightarrow> db' = db)"
  by (auto simp: update_row_def split: option.splits if_splits)

text \<open>An update leaves the table alone, or rewrites the one row it names.\<close>

lemma update_statement_cases:
  assumes "update_statement a b out sets t P f db = (r, db')"
  obtains "db' = db"
  | g where "r = Inr True" "db_rows db (c_string t) = Some g" "P g" "gd_open db' = gd_open db"
      "db_rows db' = (db_rows db)(c_string t \<mapsto> f g)"
proof -
  obtain changed dbu where u: "update_row t P f db = (changed, dbu)" by fastforce
  from assms have "db' = db \<or> (r = Inr changed \<and> db' = dbu)"
    unfolding update_statement_def Let_def u by (auto split: option.splits)
  then consider "db' = db" | "changed" "r = Inr True" "db' = dbu"
    using update_row_rows [OF u] by (cases changed) auto
  then show ?thesis
  proof cases
    case 2
    with update_row_rows [OF u] that(2) show ?thesis by blast
  qed (rule that(1))
qed

lemma update_statement_ok:
  assumes "db_rows db (c_string t) = Some g" "out = SqlOk" "gd_v2 db \<or> (\<forall>s. sets = Some s \<longrightarrow> status_admitted db s)"
  shows "update_statement a b out sets t P f db =
    (Inr (P g), if P g then put_row (c_string t) (Some (f g)) db else db)"
proof -
  have "gd_rows db \<noteq> None" using assms(1) by (auto simp: db_rows_def split: option.splits)
  with assms show ?thesis
    by (auto simp: update_statement_def update_row_def statement_error_def status_admitted_def split: option.splits)
qed

section \<open>The rows stay well formed\<close>

definition goal_row_ok :: "string \<Rightarrow> thread_goal \<Rightarrow> bool" where
  "goal_row_ok t g \<longleftrightarrow> tg_thread_id g = t \<and> length (tg_objective g) \<le> max_objective_bytes \<and>
     (\<forall>b. tg_token_budget g = Some b \<longrightarrow> b > 0) \<and>
     int64_min \<le> tg_tokens_used g \<and> tg_tokens_used g \<le> int64_max"

definition goals_ok :: "goal_db \<Rightarrow> bool" where
  "goals_ok db \<longleftrightarrow> (\<forall>t g. db_rows db t = Some g \<longrightarrow> goal_row_ok t g)"

lemma goals_ok_put: "goals_ok db \<Longrightarrow> (\<And>g'. g = Some g' \<Longrightarrow> goal_row_ok t g') \<Longrightarrow> goals_ok (put_row t g db)"
  by (auto simp: goals_ok_def)

lemma goals_ok_row: "goals_ok db \<Longrightarrow> db_rows db t = Some g \<Longrightarrow> goal_row_ok t g"
  by (auto simp: goals_ok_def)

lemma goals_ok_update:
  assumes "update_statement a b out sets t P f db = (r, db')" "goals_ok db"
    and "\<And>g. goal_row_ok (c_string t) g \<Longrightarrow> P g \<Longrightarrow> goal_row_ok (c_string t) (f g)"
  shows "goals_ok db'"
  using assms(1)
proof (cases rule: update_statement_cases)
  case 1 then show ?thesis using assms(2) by simp
next
  case (2 g)
  with assms(2,3) show ?thesis by (auto simp: goals_ok_def)
qed

lemma length_c_string: "length (c_string s) \<le> length s"
  by (simp add: c_string_def length_takeWhile_le)

lemma check_goal_ok:
  "check_goal objective b = None \<Longrightarrow> length (c_string (trim_goal_objective objective)) \<le> max_objective_bytes"
  "check_goal objective b = None \<Longrightarrow> b = Some n \<Longrightarrow> n > 0"
  using length_c_string [of "trim_goal_objective objective"]
  by (auto simp: check_goal_def validate_goal_objective_def validate_goal_token_budget_def trim_goal_objective_def
      split: if_splits option.splits)

lemma wrap_signed_range: "int64_min \<le> wrap_signed 64 i" "wrap_signed 64 i \<le> int64_max"
proof -
  have "0 \<le> (i + 2 ^ 63) mod 2 ^ 64" "(i + 2 ^ 63) mod 2 ^ 64 < 2 ^ 64" for i :: int by simp_all
  from this [of i] show "int64_min \<le> wrap_signed 64 i" "wrap_signed 64 i \<le> int64_max"
    by (simp_all add: wrap_signed_def)
qed

lemma replace_goals_ok [inv_steps]:
  "goals_ok db \<Longrightarrow> goals_ok (snd (replace_thread_goal out now i t objective b s db))"
  by (auto simp: replace_thread_goal_def goal_row_ok_def check_goal_ok intro!: goals_ok_put split: option.split)

lemma update_status_goals_ok [inv_steps]:
  assumes "goals_ok db" shows "goals_ok (snd (update_thread_goal_status out now t i s db))"
proof (cases "gd_open db")
  case True
  then show ?thesis
    by (auto simp: update_thread_goal_status_def goal_row_ok_def intro!: goals_ok_update [OF surjective_pairing assms])
qed (simp add: update_thread_goal_status_def assms)

lemma update_objective_goals_ok [inv_steps]:
  assumes "goals_ok db" shows "goals_ok (snd (update_thread_goal_objective out now t i objective b db))"
  using assms
  by (auto simp: update_thread_goal_objective_def goal_row_ok_def check_goal_ok split: option.split
      intro!: goals_ok_update [OF surjective_pairing assms])

lemma pause_goals_ok [inv_steps]:
  assumes "goals_ok db" shows "goals_ok (snd (pause_active_thread_goal out now t db))"
  using assms
  by (auto simp: pause_active_thread_goal_def goal_row_ok_def intro!: goals_ok_update [OF surjective_pairing assms])

lemma delete_goals_ok [inv_steps]: "goals_ok db \<Longrightarrow> goals_ok (snd (delete_thread_goal out t db))"
  by (auto simp: delete_thread_goal_def intro!: goals_ok_put split: option.split)

lemma copy_goals_ok [inv_steps]: "goals_ok db \<Longrightarrow> goals_ok (snd (copy_goal_from out now i a b seen db))"
  by (simp add: copy_goal_from_def replace_goals_ok split: sum.split option.split)

lemma plan_accounting_range:
  assumes "plan_accounting i tokens seconds allow before = Inr (nt, ns, st, l)"
  shows "int64_min \<le> nt" "nt \<le> int64_max"
proof -
  from assms have "\<exists>u. nt = wrap_signed 64 u"
    by (auto simp: plan_accounting_def Let_def split: option.splits if_splits)
  with wrap_signed_range show "int64_min \<le> nt" "nt \<le> int64_max" by auto
qed

lemma write_accounting_goals_ok:
  assumes "goals_ok db" "int64_min \<le> nt" "nt \<le> int64_max"
  shows "goals_ok (snd (write_accounting out now t i (nt, ns, st, l) db))"
proof -
  define upd where "upd = update_statement ''goal account bind failed'' ''goal account failed'' (out 1) (Some st) t
      (\<lambda>g. tg_goal_id g = c_string i)
      (\<lambda>g. g\<lparr>tg_tokens_used := nt, tg_time_used := ns, tg_status := st, tg_updated_at := now\<rparr>) db"
  have "goals_ok (snd upd)"
    using assms unfolding upd_def
    by (intro goals_ok_update [OF surjective_pairing assms(1)]) (simp add: goal_row_ok_def)
  moreover have "snd (write_accounting out now t i (nt, ns, st, l) db) = snd upd"
    unfolding write_accounting_def Let_def prod.case upd_def [symmetric]
    by (cases upd; cases "fst upd") (auto split: sum.split)
  ultimately show ?thesis by simp
qed

lemma account_goals_ok [inv_steps]:
  assumes "goals_ok db" shows "goals_ok (snd (account_usage_from out now t i tokens seconds allow seen db))"
proof -
  have "goals_ok (snd (write_accounting out now t i p db))"
    if "plan_accounting i tokens seconds allow before = Inr p" for before p
  proof -
    obtain nt ns st l where p: "p = (nt, ns, st, l)" by (cases p)
    show ?thesis
      unfolding p using that [unfolded p]
      by (intro write_accounting_goals_ok [OF assms]) (erule plan_accounting_range)+
  qed
  with assms show ?thesis
    by (simp add: account_usage_from_def split: sum.split)
qed

lemma initialize_rows: "db_rows (snd (initialize oo db)) = db_rows db"
  by (auto simp: initialize_def initialize_schema_def create_goal_table_def Let_def db_rows_def split: option.splits)

section \<open>Accounting against its specification\<close>

text \<open>What accounting a positive amount means for the row of the thread.\<close>

definition reaches :: "int option \<Rightarrow> int \<Rightarrow> bool" where
  "reaches budget used \<longleftrightarrow> (\<exists>b. budget = Some b \<and> used \<ge> b)"

definition accounted :: "int \<Rightarrow> int \<Rightarrow> int \<Rightarrow> thread_goal \<Rightarrow> thread_goal" where
  "accounted now tokens seconds g =
     g\<lparr>tg_tokens_used := tg_tokens_used g + tokens, tg_time_used := tg_time_used g + seconds,
       tg_status := (if tg_status g = GoalActive \<and> reaches (tg_token_budget g) (tg_tokens_used g + tokens)
                     then GoalBudgetLimited else tg_status g),
       tg_updated_at := now\<rparr>"

definition accountable :: "string \<Rightarrow> bool \<Rightarrow> thread_goal \<Rightarrow> bool" where
  "accountable goal_id allow_complete g \<longleftrightarrow> tg_goal_id g = goal_id \<and>
     (tg_status g = GoalActive \<or> (allow_complete \<and> tg_status g = GoalComplete))"

lemma plan_accountable:
  assumes "accountable i allow g" "0 \<le> tokens" "0 \<le> seconds" "tokens > 0 \<or> seconds > 0"
    and "0 \<le> tg_tokens_used g" "tg_tokens_used g + tokens \<le> int64_max"
    and "0 \<le> tg_time_used g" "tg_time_used g + seconds \<le> int64_max"
  shows "plan_accounting i tokens seconds allow (Some g) =
    Inr (tg_tokens_used (accounted now tokens seconds g), tg_time_used (accounted now tokens seconds g),
         tg_status (accounted now tokens seconds g),
         tg_status g = GoalActive \<and> reaches (tg_token_budget g) (tg_tokens_used g + tokens))"
proof -
  have "max 0 tokens = tokens" "max 0 seconds = seconds" using assms(2,3) by simp_all
  with assms show ?thesis
    by (cases "tg_token_budget g") (auto simp: plan_accounting_def accountable_def accounted_def reaches_def Let_def)
qed

lemma plan_not_accountable:
  "\<not> (\<exists>g. before = Some g \<and> accountable i allow g) \<Longrightarrow> \<exists>r. plan_accounting i tokens seconds allow before = Inl r \<and> \<not> ar_updated r"
  by (auto simp: plan_accounting_def accountable_def no_accounting_def split: option.split)

lemma write_accounting_ok:
  assumes "gd_open db" "db_rows db (c_string t) = Some g" "gd_v2 db" "tg_goal_id g = c_string i" "\<forall>n. out n = SqlOk"
    and "g' = g\<lparr>tg_tokens_used := nt, tg_time_used := ns, tg_status := st, tg_updated_at := now\<rparr>"
  shows "write_accounting out now t i (nt, ns, st, l) db =
    (\<lparr>ar_goal = Some g', ar_updated = True, ar_limited = l, ar_error = None\<rparr>, put_row (c_string t) (Some g') db)"
  using assms
  by (simp add: write_accounting_def update_statement_ok no_accounting_def get_thread_goal_def statement_error_def)


section \<open>Where the store falls short\<close>

text \<open>Accounting reads the row and writes it back in two statements.  A pause by the user between the two
  is overwritten: the goal runs on.\<close>

lemma pause_lost_in_accounting:
  assumes "gd_open db" "db_rows db (c_string t) = Some g" "gd_v2 db" "tg_goal_id g = c_string i" "c_string i = i"
    and "plan_accounting i tokens seconds allow (Some g) = Inr (nt, ns, GoalActive, l)"
    and "update_thread_goal_status SqlOk now1 t i GoalPaused db = (Inr True, db1)" "\<forall>n. out n = SqlOk"
  shows "\<exists>g'. db_rows (snd (write_accounting out now2 t i (nt, ns, GoalActive, l) db1)) (c_string t) = Some g' \<and>
    tg_status g' = GoalActive"
proof -
  have db1: "db1 = put_row (c_string t) (Some (g\<lparr>tg_status := GoalPaused, tg_updated_at := now1\<rparr>)) db"
    using assms by (simp add: update_thread_goal_status_def update_statement_ok)
  then show ?thesis
    using assms by (simp add: write_accounting_def update_statement_ok Let_def split: sum.split)
qed

text \<open>An objective whose first byte is NUL passes the check and is stored empty.\<close>

lemma empty_objective_stored:
  "check_goal (CHR 0x00 # ''x'') None = None \<and> c_string (trim_goal_objective (CHR 0x00 # ''x'')) = []"
  by code_simp

text \<open>A store whose schema could not be created reports success when it is opened again.\<close>

lemma failed_initialize_forgotten:
  assumes "\<not> gd_open db" "oo_create_dirs oo = None" "oo_open oo = None" "oo_pragma oo = Some e" "gd_rows db = None"
  shows "fst (initialize oo db) = Some e" "fst (initialize oo' (snd (initialize oo db))) = None"
    "\<exists>e'. get_thread_goal out t (snd (initialize oo db)) = Inl e'"
  using assms
  by (simp_all add: initialize_def get_thread_goal_def sql_on_def statement_error_def split: sql_outcome.split)

section \<open>Concrete runs\<close>

definition sample_goal :: thread_goal where
  "sample_goal = \<lparr>tg_thread_id = ''t'', tg_goal_id = ''g'', tg_objective = ''ship'', tg_status = GoalActive,
     tg_token_budget = Some 100, tg_tokens_used = 90, tg_time_used = 5, tg_created_at = 0, tg_updated_at = 0\<rparr>"

definition sample_goal_db :: goal_db where
  "sample_goal_db = \<lparr>gd_open = True, gd_rows = Some [''t'' \<mapsto> sample_goal], gd_v2 = True\<rparr>"

lemma c_string_plain: "c_string ''t'' = ''t''" "c_string ''g'' = ''g''"
  by (simp_all add: c_string_def)


end
