(* ===== verification/GoalCommands.thy ===== *)
theory GoalCommands
  imports GoalStore
begin

text \<open>
  Who works on the goals: the \<open>/goal\<close> command of the terminal (\<open>commands/goal_command.cpp\<close>) and the one of
  the daemon (\<open>session/session_registry.cpp\<close>), the three tools the model may call (\<open>tool/goal_tool.cpp\<close>) and
  the agent loop's own accounting (\<open>agent_loop.cpp\<close>).  A command returns what it says and emits, as a list
  of actions, and the database.  Commands, tools and accounting run on different threads (and processes)
  over one database, and each reads in one statement and writes in another: the definitions named \<open>_from\<close>
  take the table the read finds and the table the write finds, and \<open>goal_move\<close> relates any two of them.  The
  last read of an operation, for what it shows, is taken right after its write.  The text of the goal
  summary is left out.
\<close>

section \<open>Arguments of the command\<close>

abbreviation blank4 :: "char \<Rightarrow> bool" where
  "blank4 c \<equiv> c \<in> {CHR '' '', CHR 0x09, CHR 0x0D, CHR 0x0A}"

text \<open>\<open>args.substr(0, first_space)\<close> and the trimmed rest.\<close>

definition first_word :: "string \<Rightarrow> string" where
  "first_word args = takeWhile (\<lambda>c. \<not> blank4 c) args"

definition rest_words :: "string \<Rightarrow> string" where
  "rest_words args = trim_by is_space (drop (Suc (length (first_word args))) args)"

definition budget_suffix :: "string \<Rightarrow> int \<times> string" where
  "budget_suffix s =
     (if s \<noteq> [] \<and> last s = CHR ''k'' then (1000, butlast s)
      else if s \<noteq> [] \<and> last s = CHR ''m'' then (1000000, butlast s)
      else (1, s))"

text \<open>The digits of the budget: the terminal stops when the value is not positive, the daemon does not.\<close>

fun tui_budget_digits :: "int \<Rightarrow> string \<Rightarrow> int option" where
  "tui_budget_digits v [] = Some v"
| "tui_budget_digits v (c # cs) =
     (if \<not> is_digit c then None
      else let v' = wrap_signed 64 (v * 10 + int (digit_val c))
        in if v' \<le> 0 then None else tui_budget_digits v' cs)"

fun daemon_budget_digits :: "int \<Rightarrow> string \<Rightarrow> int option" where
  "daemon_budget_digits v [] = Some v"
| "daemon_budget_digits v (c # cs) =
     (if \<not> is_digit c then None else daemon_budget_digits (wrap_signed 64 (v * 10 + int (digit_val c))) cs)"

definition budget_of_digits :: "(int \<Rightarrow> string \<Rightarrow> int option) \<Rightarrow> string \<Rightarrow> int option" where
  "budget_of_digits digits text =
     (case budget_suffix (ascii_lower text) of (multiplier, s) \<Rightarrow>
        if s = [] then None
        else case digits 0 s of
          None \<Rightarrow> None
        | Some value \<Rightarrow>
            (let b = wrap_signed 64 (value * multiplier) in if b > 0 then Some b else None))"

definition parse_budget_value :: "string \<Rightarrow> int option" where
  "parse_budget_value text = (if text = [] then None else budget_of_digits tui_budget_digits text)"

definition parse_goal_budget_value :: "string \<Rightarrow> int option" where
  "parse_goal_budget_value text = (if text = [] then None else budget_of_digits daemon_budget_digits text)"

record goal_args =
  ga_token_budget :: "int option"
  ga_remainder :: string
  ga_error :: string

definition budget_syntax_error :: string where
  "budget_syntax_error = ''Goal token budget must be a positive integer, optionally suffixed with K or M.''"

definition parse_goal_args :: "string \<Rightarrow> goal_args" where
  "parse_goal_args raw =
     (let args = trim_by is_space raw
      in if take 8 args \<noteq> ''--tokens'' then \<lparr>ga_token_budget = None, ga_remainder = args, ga_error = []\<rparr>
         else let rest = trim_by is_space (drop 8 args)
           in if rest = []
              then \<lparr>ga_token_budget = None, ga_remainder = [],
                    ga_error = ''Usage: /goal --tokens <positive-int>[K|M] <objective>''\<rparr>
              else case parse_budget_value (first_word rest) of
                None \<Rightarrow> \<lparr>ga_token_budget = None, ga_remainder = [], ga_error = budget_syntax_error\<rparr>
              | Some b \<Rightarrow> \<lparr>ga_token_budget = Some b, ga_remainder = rest_words rest, ga_error = []\<rparr>)"

definition parse_registry_goal_args :: "string \<Rightarrow> goal_args" where
  "parse_registry_goal_args raw =
     (let args = trim_by is_space raw
      in if take 8 args \<noteq> ''--tokens'' then \<lparr>ga_token_budget = None, ga_remainder = args, ga_error = []\<rparr>
         else let rest = trim_by is_space (drop 8 args)
           in case parse_goal_budget_value (first_word rest) of
                None \<Rightarrow> \<lparr>ga_token_budget = None, ga_remainder = [], ga_error = budget_syntax_error\<rparr>
              | Some b \<Rightarrow> \<lparr>ga_token_budget = Some b, ga_remainder = rest_words rest, ga_error = []\<rparr>)"

section \<open>The command of the terminal\<close>

datatype goal_action =
  GoalSays string
| GoalShows thread_goal
| GoalUpdated thread_goal
| GoalCleared string
| GoalAudit string thread_goal
| RestoreGoalRuntime
| NotifyObjective
| ClearStaleAbort
| MaybeContinueGoal

text \<open>\<open>gc_sql n\<close> is the outcome of the command's \<open>n\<close>-th statement.\<close>

record goal_cmd_env =
  gc_manager :: bool
  gc_store :: bool
  gc_session :: string
  gc_ensured_session :: string
  gc_sql :: "nat \<Rightarrow> sql_outcome"
  gc_new_id :: string
  gc_now :: int

definition goal_error :: "string \<Rightarrow> goal_action" where
  "goal_error e = GoalSays (''Goal error: '' @ e)"

definition updated_goal :: "goal_cmd_env \<Rightarrow> string \<Rightarrow> goal_db \<Rightarrow> thread_goal option" where
  "updated_goal env sid db = (case get_thread_goal (gc_sql env 2) sid db of Inr g \<Rightarrow> g | Inl e \<Rightarrow> None)"

definition updated_actions :: "thread_goal option \<Rightarrow> goal_action list" where
  "updated_actions g = (case g of Some x \<Rightarrow> [GoalUpdated x, RestoreGoalRuntime] | None \<Rightarrow> [])"

definition shown_goal :: "string \<Rightarrow> thread_goal option \<Rightarrow> goal_action" where
  "shown_goal instead g = (case g of Some x \<Rightarrow> GoalShows x | None \<Rightarrow> GoalSays instead)"

definition no_goal_set :: string where
  "no_goal_set = ''No goal set. Use /goal <objective> to create one.''"

type_synonym goal_run = "goal_action list \<times> goal_db"

definition tui_view :: "goal_cmd_env \<Rightarrow> goal_db \<Rightarrow> goal_run" where
  "tui_view env db =
     (if gc_session env = [] then ([GoalSays no_goal_set], db)
      else case get_thread_goal (gc_sql env 0) (gc_session env) db of
        Inl e \<Rightarrow> ([goal_error e], db)
      | Inr g \<Rightarrow> ([shown_goal no_goal_set g], db))"

definition tui_clear :: "goal_cmd_env \<Rightarrow> string \<Rightarrow> thread_goal option \<Rightarrow> goal_db \<Rightarrow> goal_run" where
  "tui_clear env sid current db =
     (if current = None then ([GoalSays ''No goal to clear.''], db)
      else case delete_thread_goal (gc_sql env 1) sid db of
        (Some e, db') \<Rightarrow> ([goal_error e], db')
      | (None, db') \<Rightarrow> ([GoalCleared sid, RestoreGoalRuntime, GoalSays ''Goal cleared.''], db'))"

definition update_failed :: "string + bool \<Rightarrow> string option" where
  "update_failed r = (case r of Inl e \<Rightarrow> Some e | Inr changed \<Rightarrow> if changed then None else Some [])"

definition tui_pause :: "goal_cmd_env \<Rightarrow> string \<Rightarrow> thread_goal option \<Rightarrow> goal_db \<Rightarrow> goal_run" where
  "tui_pause env sid current db =
     (case current of
        None \<Rightarrow> ([GoalSays ''No goal to pause.''], db)
      | Some g \<Rightarrow>
          if tg_status g \<noteq> GoalActive then ([GoalSays ''Goal is not active.''], db)
          else (case update_thread_goal_status (gc_sql env 1) (gc_now env) sid (tg_goal_id g) GoalPaused db of
            (r, db') \<Rightarrow>
              (case update_failed r of
                 Some e \<Rightarrow> ([goal_error e], db')
               | None \<Rightarrow> (updated_actions (updated_goal env sid db') @ [GoalSays ''Goal paused.''], db'))))"

definition over_budget :: "thread_goal \<Rightarrow> bool" where
  "over_budget g \<longleftrightarrow> (case tg_token_budget g of Some b \<Rightarrow> tg_tokens_used g \<ge> b | None \<Rightarrow> False)"

definition over_budget_text :: string where
  "over_budget_text = ''Goal is over its token budget. Create a replacement goal with a larger budget.''"

definition tui_resume :: "goal_cmd_env \<Rightarrow> string \<Rightarrow> thread_goal option \<Rightarrow> goal_db \<Rightarrow> goal_run" where
  "tui_resume env sid current db =
     (case current of
        None \<Rightarrow> ([GoalSays ''No goal to resume.''], db)
      | Some g \<Rightarrow>
          if tg_status g = GoalComplete then ([GoalSays ''Goal is already complete.''], db)
          else if over_budget g then ([GoalSays over_budget_text], db)
          else (case update_thread_goal_status (gc_sql env 1) (gc_now env) sid (tg_goal_id g) GoalActive db of
            (r, db') \<Rightarrow>
              (case update_failed r of
                 Some e \<Rightarrow> ([goal_error e], db')
               | None \<Rightarrow> (updated_actions (updated_goal env sid db') @
                   [GoalSays ''Goal resumed.'', ClearStaleAbort, MaybeContinueGoal], db'))))"

definition tui_edit :: "goal_cmd_env \<Rightarrow> string \<Rightarrow> string \<Rightarrow> thread_goal option \<Rightarrow> goal_db \<Rightarrow> goal_run" where
  "tui_edit env sid tail current db =
     (case current of
        None \<Rightarrow> ([GoalSays ''No goal to edit.''], db)
      | Some g \<Rightarrow>
          (let parsed = parse_goal_args tail; objective = trim_goal_objective (ga_remainder parsed);
               budget = (if ga_token_budget parsed \<noteq> None then ga_token_budget parsed else tg_token_budget g)
           in if ga_error parsed \<noteq> [] then ([GoalSays (ga_error parsed)], db)
              else case validate_goal_objective objective of
                Some e \<Rightarrow> ([GoalSays e], db)
              | None \<Rightarrow>
                  (case update_thread_goal_objective (gc_sql env 1) (gc_now env) sid (tg_goal_id g) objective budget db of
                     (r, db') \<Rightarrow>
                       (case update_failed r of
                          Some e \<Rightarrow> ([goal_error e], db')
                        | None \<Rightarrow>
                            (updated_actions (updated_goal env sid db') @
                               [shown_goal ''Goal updated.'' (updated_goal env sid db'), NotifyObjective], db')))))"

definition tui_create :: "goal_cmd_env \<Rightarrow> string \<Rightarrow> string \<Rightarrow> goal_db \<Rightarrow> goal_run" where
  "tui_create env sid args db =
     (let parsed = parse_goal_args args; objective = trim_goal_objective (ga_remainder parsed)
      in if ga_error parsed \<noteq> [] then ([GoalSays (ga_error parsed)], db)
         else case validate_goal_objective objective of
           Some e \<Rightarrow> ([GoalSays e], db)
         | None \<Rightarrow>
             (case replace_thread_goal (gc_sql env 1) (gc_now env) (gc_new_id env) sid objective
                     (ga_token_budget parsed) GoalActive db of
                (Some e, db') \<Rightarrow> ([goal_error e], db')
              | (None, db') \<Rightarrow>
                  (updated_actions (updated_goal env sid db') @
                     [shown_goal ''Goal created.'' (updated_goal env sid db'), MaybeContinueGoal], db')))"

definition no_storage :: string where "no_storage = ''Goal storage is not available.''"

definition no_active_session :: string where "no_active_session = ''No active session is available for /goal.''"

definition state_only :: "string \<Rightarrow> bool" where
  "state_only sub \<longleftrightarrow> sub = ''clear'' \<or> sub = ''pause'' \<or> sub = ''resume'' \<or> sub = ''edit''"

definition cmd_goal_from :: "goal_cmd_env \<Rightarrow> string \<Rightarrow> goal_db \<Rightarrow> goal_db \<Rightarrow> goal_run" where
  "cmd_goal_from env raw_args seen db =
     (let args = trim_by is_space raw_args; sub = ascii_lower (first_word args);
          sid = (if state_only sub then gc_session env else gc_ensured_session env)
      in if \<not> gc_manager env \<or> \<not> gc_store env then ([GoalSays no_storage], db)
         else if args = [] \<or> ascii_lower args = ''view'' then tui_view env db
         else if sid = [] then ([GoalSays no_active_session], db)
         else case get_thread_goal (gc_sql env 0) sid seen of
           Inl e \<Rightarrow> ([goal_error e], db)
         | Inr current \<Rightarrow>
             if sub = ''clear'' then tui_clear env sid current db
             else if sub = ''pause'' then tui_pause env sid current db
             else if sub = ''resume'' then tui_resume env sid current db
             else if sub = ''edit'' then tui_edit env sid (rest_words args) current db
             else tui_create env sid args db)"

definition cmd_goal :: "goal_cmd_env \<Rightarrow> string \<Rightarrow> goal_db \<Rightarrow> goal_run" where
  "cmd_goal env raw_args db = cmd_goal_from env raw_args db db"

section \<open>The command of the daemon\<close>

datatype command_status = Accepted string | Failed string

type_synonym builtin_run = "command_status \<times> goal_action list \<times> goal_db"

definition accepted :: "goal_action list \<Rightarrow> goal_db \<Rightarrow> builtin_run" where
  "accepted as db = (Accepted ''completed'', as, db)"

definition daemon_view :: "goal_cmd_env \<Rightarrow> goal_db \<Rightarrow> builtin_run" where
  "daemon_view env db =
     (if gc_session env = [] then accepted [GoalSays no_goal_set] db
      else case get_thread_goal (gc_sql env 0) (gc_session env) db of
        Inl e \<Rightarrow> (Failed e, [goal_error e], db)
      | Inr g \<Rightarrow> accepted [shown_goal no_goal_set g] db)"

definition daemon_clear :: "goal_cmd_env \<Rightarrow> string \<Rightarrow> thread_goal option \<Rightarrow> goal_db \<Rightarrow> builtin_run" where
  "daemon_clear env sid current db =
     (if current = None then accepted [GoalSays ''No goal to clear.''] db
      else case delete_thread_goal (gc_sql env 1) sid db of
        (Some e, db') \<Rightarrow> (Failed e, [goal_error e], db')
      | (None, db') \<Rightarrow> accepted [GoalCleared sid, RestoreGoalRuntime, GoalSays ''Goal cleared.''] db')"

definition daemon_pause :: "goal_cmd_env \<Rightarrow> string \<Rightarrow> thread_goal option \<Rightarrow> goal_db \<Rightarrow> builtin_run" where
  "daemon_pause env sid current db =
     (case current of
        Some g \<Rightarrow>
          if tg_status g \<noteq> GoalActive then accepted [GoalSays ''Goal is not active.''] db
          else (case update_thread_goal_status (gc_sql env 1) (gc_now env) sid (tg_goal_id g) GoalPaused db of
            (r, db') \<Rightarrow>
              (case update_failed r of
                 Some e \<Rightarrow> (Failed e, [goal_error e], db')
               | None \<Rightarrow> accepted (updated_actions (updated_goal env sid db') @ [GoalSays ''Goal paused.'']) db'))
      | None \<Rightarrow> accepted [GoalSays ''Goal is not active.''] db)"

definition daemon_resume :: "goal_cmd_env \<Rightarrow> string \<Rightarrow> thread_goal option \<Rightarrow> goal_db \<Rightarrow> builtin_run" where
  "daemon_resume env sid current db =
     (case current of
        None \<Rightarrow> accepted [GoalSays ''No goal to resume.''] db
      | Some g \<Rightarrow>
          if tg_status g = GoalComplete then accepted [GoalSays ''Goal is already complete.''] db
          else if over_budget g then accepted [GoalSays over_budget_text] db
          else (case update_thread_goal_status (gc_sql env 1) (gc_now env) sid (tg_goal_id g) GoalActive db of
            (r, db') \<Rightarrow>
              (case update_failed r of
                 Some e \<Rightarrow> (Failed e, [goal_error e], db')
               | None \<Rightarrow> accepted (updated_actions (updated_goal env sid db') @ [GoalSays ''Goal resumed.''] @
                   (case updated_goal env sid db' of Some x \<Rightarrow> [GoalAudit ''resume'' x] | None \<Rightarrow> []) @
                   [ClearStaleAbort, MaybeContinueGoal]) db')))"

definition daemon_edit :: "goal_cmd_env \<Rightarrow> string \<Rightarrow> string \<Rightarrow> thread_goal option \<Rightarrow> goal_db \<Rightarrow> builtin_run" where
  "daemon_edit env sid tail current db =
     (case current of
        None \<Rightarrow> accepted [GoalSays ''No goal to edit.''] db
      | Some g \<Rightarrow>
          (let parsed = parse_registry_goal_args tail; objective = trim_goal_objective (ga_remainder parsed);
               budget = (if ga_token_budget parsed \<noteq> None then ga_token_budget parsed else tg_token_budget g)
           in if ga_error parsed \<noteq> [] then (Failed (ga_error parsed), [GoalSays (ga_error parsed)], db)
              else case validate_goal_objective objective of
                Some e \<Rightarrow> (Failed e, [GoalSays e], db)
              | None \<Rightarrow>
                  (case update_thread_goal_objective (gc_sql env 1) (gc_now env) sid (tg_goal_id g) objective budget db of
                     (r, db') \<Rightarrow>
                       (case update_failed r of
                          Some e \<Rightarrow> (Failed e, [goal_error e], db')
                        | None \<Rightarrow>
                            accepted (updated_actions (updated_goal env sid db') @
                               [shown_goal ''Goal updated.'' (updated_goal env sid db'), NotifyObjective]) db'))))"

definition daemon_create :: "goal_cmd_env \<Rightarrow> string \<Rightarrow> string \<Rightarrow> goal_db \<Rightarrow> builtin_run" where
  "daemon_create env sid args db =
     (let parsed = parse_registry_goal_args args; objective = trim_goal_objective (ga_remainder parsed)
      in if ga_error parsed \<noteq> [] then (Failed (ga_error parsed), [GoalSays (ga_error parsed)], db)
         else case validate_goal_objective objective of
           Some e \<Rightarrow> (Failed e, [GoalSays e], db)
         | None \<Rightarrow>
             (case replace_thread_goal (gc_sql env 1) (gc_now env) (gc_new_id env) sid objective
                     (ga_token_budget parsed) GoalActive db of
                (Some e, db') \<Rightarrow> (Failed e, [goal_error e], db')
              | (None, db') \<Rightarrow>
                  accepted (updated_actions (updated_goal env sid db') @
                     [shown_goal ''Goal created.'' (updated_goal env sid db')] @
                     (case updated_goal env sid db' of Some x \<Rightarrow> [GoalAudit ''create'' x] | None \<Rightarrow> []) @
                     [MaybeContinueGoal]) db'))"

definition execute_goal_builtin_from :: "goal_cmd_env \<Rightarrow> string \<Rightarrow> goal_db \<Rightarrow> goal_db \<Rightarrow> builtin_run" where
  "execute_goal_builtin_from env raw_args seen db =
     (let args = trim_by is_space raw_args; sub = ascii_lower (first_word args);
          sid = (if state_only sub then gc_session env else gc_ensured_session env)
      in if \<not> gc_manager env then (Failed ''session unavailable'', [], db)
         else if \<not> gc_store env then (Failed ''goal storage unavailable'', [GoalSays no_storage], db)
         else if args = [] \<or> ascii_lower args = ''view'' then daemon_view env db
         else if sid = [] then (Failed ''no active session'', [GoalSays no_active_session], db)
         else case get_thread_goal (gc_sql env 0) sid seen of
           Inl e \<Rightarrow> (Failed e, [goal_error e], db)
         | Inr current \<Rightarrow>
             if sub = ''clear'' then daemon_clear env sid current db
             else if sub = ''pause'' then daemon_pause env sid current db
             else if sub = ''resume'' then daemon_resume env sid current db
             else if sub = ''edit'' then daemon_edit env sid (rest_words args) current db
             else daemon_create env sid args db)"

definition execute_goal_builtin :: "goal_cmd_env \<Rightarrow> string \<Rightarrow> goal_db \<Rightarrow> builtin_run" where
  "execute_goal_builtin env raw_args db = execute_goal_builtin_from env raw_args db db"

section \<open>The tools of the model\<close>

text \<open>The result before it is printed; \<open>None\<close> is an exception of the JSON library.\<close>

datatype goal_tool_result = GoalToolError string | GoalToolOk json

record goal_tool_env =
  gt_manager :: bool
  gt_store :: bool
  gt_session :: string
  gt_ensured_session :: string
  gt_parse :: "string \<Rightarrow> string + json"
  gt_sql :: "nat \<Rightarrow> sql_outcome"
  gt_new_id :: string
  gt_now :: int

definition goal_payload :: "thread_goal option \<Rightarrow> json" where
  "goal_payload g = JObj [(''goal'', (case g of Some x \<Rightarrow> thread_goal_to_json x | None \<Rightarrow> JNull))]"

definition parse_optional_budget :: "json \<Rightarrow> string + int option" where
  "parse_optional_budget args =
     (case field args ''token_budget'' of
        None \<Rightarrow> Inr None
      | Some JNull \<Rightarrow> Inr None
      | Some (JInt i) \<Rightarrow>
          if wrap_signed 64 i \<le> 0 then Inl ''token_budget must be a positive integer'' else Inr (Some (wrap_signed 64 i))
      | Some _ \<Rightarrow> Inl ''token_budget must be a positive integer'')"

definition storage_unavailable :: string where "storage_unavailable = ''goal storage is not available''"

definition get_goal_tool :: "goal_tool_env \<Rightarrow> goal_db \<Rightarrow> goal_tool_result" where
  "get_goal_tool env db =
     (if \<not> gt_manager env \<or> \<not> gt_store env then GoalToolError storage_unavailable
      else if gt_session env = [] then GoalToolOk (goal_payload None)
      else case get_thread_goal (gt_sql env 0) (gt_session env) db of
        Inl e \<Rightarrow> GoalToolError e
      | Inr g \<Rightarrow> GoalToolOk (goal_payload g))"

definition text_or_braces :: "string \<Rightarrow> string" where
  "text_or_braces s = (if s = [] then ''{}'' else s)"

definition goal_exists_text :: string where
  "goal_exists_text =
     ''A goal already exists. Do not replace an existing goal from a model tool; ask the user to use /goal.''"

definition create_goal_tool_from :: "goal_tool_env \<Rightarrow> string \<Rightarrow> goal_db \<Rightarrow> goal_db \<Rightarrow> goal_tool_result \<times> goal_db" where
  "create_goal_tool_from env arguments_json seen db =
     (if \<not> gt_manager env then (GoalToolError storage_unavailable, db)
      else if gt_ensured_session env = [] then (GoalToolError ''session is not available'', db)
      else if \<not> gt_store env then (GoalToolError storage_unavailable, db)
      else case gt_parse env (text_or_braces arguments_json) of
        Inl e \<Rightarrow> (GoalToolError (''invalid JSON: '' @ e), db)
      | Inr args \<Rightarrow>
     (case string_field args ''objective'' of
        None \<Rightarrow> (GoalToolError ''create_goal requires objective'', db)
      | Some objective \<Rightarrow>
     (case get_thread_goal (gt_sql env 0) (gt_ensured_session env) seen of
        Inl e \<Rightarrow> (GoalToolError e, db)
      | Inr (Some _) \<Rightarrow> (GoalToolError goal_exists_text, db)
      | Inr None \<Rightarrow>
     (case parse_optional_budget args of
        Inl e \<Rightarrow> (GoalToolError e, db)
      | Inr budget \<Rightarrow>
     (case replace_thread_goal (gt_sql env 1) (gt_now env) (gt_new_id env) (gt_ensured_session env)
             (trim_goal_objective objective) budget GoalActive db of
        (Some e, db') \<Rightarrow> (GoalToolError (if e = [] then ''failed to create goal'' else e), db')
      | (None, db') \<Rightarrow>
          (GoalToolOk (goal_payload (case get_thread_goal (gt_sql env 2) (gt_ensured_session env) db' of
             Inr g \<Rightarrow> g | Inl e \<Rightarrow> None)), db'))))))"

definition create_goal_tool :: "goal_tool_env \<Rightarrow> string \<Rightarrow> goal_db \<Rightarrow> goal_tool_result \<times> goal_db" where
  "create_goal_tool env arguments_json db = create_goal_tool_from env arguments_json db db"

text \<open>\<open>args.value("status", "")\<close> throws when the arguments are no object or the status is no string.\<close>

definition status_argument :: "json \<Rightarrow> string option" where
  "status_argument args =
     (if \<not> is_object args then None
      else case field args ''status'' of None \<Rightarrow> Some [] | Some (JStr s) \<Rightarrow> Some s | Some _ \<Rightarrow> None)"

definition target_status :: "string \<Rightarrow> goal_status option" where
  "target_status s =
     (if s = ''complete'' then Some GoalComplete else if s = ''blocked'' then Some GoalBlocked else None)"

definition completion_report_due :: "goal_status \<Rightarrow> thread_goal option \<Rightarrow> bool" where
  "completion_report_due target updated \<longleftrightarrow> target = GoalComplete \<and>
     (case updated of Some g \<Rightarrow> tg_token_budget g \<noteq> None \<or> tg_time_used g > 0 | None \<Rightarrow> False)"

definition completion_report :: string where
  "completion_report =
     ''Goal achieved. Report final usage from this tool result's goal '' @
     ''fields: include token usage from tokens_used and token_budget '' @
     ''when token_budget is present, and summarize time_used_seconds '' @
     ''in a concise, human-friendly form appropriate to the response '' @
     ''language.''"

definition update_payload :: "goal_status \<Rightarrow> thread_goal option \<Rightarrow> json" where
  "update_payload target updated =
     JObj ([(''goal'', (case updated of Some g \<Rightarrow> thread_goal_to_json g | None \<Rightarrow> JNull)),
            (''final'', JBool (target = GoalComplete))] @
       (case updated of
          Some g \<Rightarrow> (case tg_token_budget g of
              Some b \<Rightarrow> [(''token_budget'', JInt b), (''tokens_used'', JInt (tg_tokens_used g)),
                         (''remaining_tokens'', JInt (goal_remaining g b))]
            | None \<Rightarrow> [])
        | None \<Rightarrow> []) @
       (if completion_report_due target updated then [(''completion_budget_report'', JStr completion_report)] else []))"

text \<open>What the tool does to the row, once its arguments are read.\<close>

definition update_goal_status_from ::
  "goal_tool_env \<Rightarrow> goal_status \<Rightarrow> goal_db \<Rightarrow> goal_db \<Rightarrow> goal_tool_result \<times> goal_db" where
  "update_goal_status_from env target seen db =
     (case get_thread_goal (gt_sql env 0) (gt_session env) seen of
        Inl e \<Rightarrow> (GoalToolError e, db)
      | Inr None \<Rightarrow> (GoalToolError ''no goal exists'', db)
      | Inr (Some g) \<Rightarrow>
     (case update_thread_goal_status (gt_sql env 1) (gt_now env) (gt_session env) (tg_goal_id g) target db of
        (r, db') \<Rightarrow>
          (case update_failed r of
             Some e \<Rightarrow> (GoalToolError (if e = [] then ''failed to update goal'' else e), db')
           | None \<Rightarrow>
               (GoalToolOk (update_payload target
                  (case get_thread_goal (gt_sql env 2) (gt_session env) db' of Inr u \<Rightarrow> u | Inl e \<Rightarrow> None)), db'))))"

text \<open>The callback accounts for the time of the running step first.\<close>

definition update_goal_tool ::
  "goal_tool_env \<Rightarrow> (goal_db \<Rightarrow> goal_db) \<Rightarrow> string \<Rightarrow> goal_db \<Rightarrow> goal_tool_result option \<times> goal_db" where
  "update_goal_tool env account arguments_json db =
     (if \<not> gt_manager env then (Some (GoalToolError storage_unavailable), db)
      else if gt_session env = [] then (Some (GoalToolError ''no current session''), db)
      else if \<not> gt_store env then (Some (GoalToolError storage_unavailable), db)
      else case gt_parse env (text_or_braces arguments_json) of
        Inl e \<Rightarrow> (Some (GoalToolError (''invalid JSON: '' @ e)), db)
      | Inr args \<Rightarrow>
     (case status_argument args of
        None \<Rightarrow> (None, db)
      | Some status \<Rightarrow>
     (case target_status status of
        None \<Rightarrow> (Some (GoalToolError (''update_goal only supports status '' @ [dquote] @ ''complete'' @ [dquote] @
                  '' or '' @ [dquote] @ ''blocked'' @ [dquote])), db)
      | Some target \<Rightarrow>
          (case update_goal_status_from env target (account db) (account db) of (r, db') \<Rightarrow> (Some r, db')))))"

section \<open>The accounting of the agent loop\<close>

text \<open>The loop's goal fields, its database (\<open>None\<close>: no session manager, or no store yet) and what it emits.
  Times are nanoseconds of the steady clock; 0 is no checkpoint.\<close>

record goal_runtime =
  gr_store :: "goal_db option"
  gr_thread :: string
  gr_goal :: string
  gr_checkpoint :: int
  gr_notice_goal :: string
  gr_budget_steering :: bool
  gr_objective_steering :: bool
  gr_actions :: "goal_action list"

definition forget_goal :: "goal_runtime \<Rightarrow> goal_runtime" where
  "forget_goal rt = rt\<lparr>gr_thread := [], gr_goal := [], gr_checkpoint := 0\<rparr>"

definition act :: "goal_action list \<Rightarrow> goal_runtime \<Rightarrow> goal_runtime" where
  "act as rt = rt\<lparr>gr_actions := gr_actions rt @ as\<rparr>"

definition restore_goal_runtime :: "sql_outcome \<Rightarrow> string \<Rightarrow> int \<Rightarrow> goal_runtime \<Rightarrow> goal_runtime" where
  "restore_goal_runtime out sid now rt =
     (case gr_store rt of
        None \<Rightarrow> forget_goal rt
      | Some db \<Rightarrow>
          if sid = [] then forget_goal rt
          else case get_thread_goal out sid db of
            Inr (Some g) \<Rightarrow>
              if tg_status g \<noteq> GoalActive then forget_goal rt
              else rt\<lparr>gr_thread := sid, gr_goal := tg_goal_id g, gr_checkpoint := now\<rparr>
          | _ \<Rightarrow> forget_goal rt)"

definition emit_goal_updated :: "int \<Rightarrow> thread_goal \<Rightarrow> goal_runtime \<Rightarrow> goal_runtime" where
  "emit_goal_updated now g rt =
     (let rt1 = act [GoalUpdated g] rt
      in if tg_status g = GoalActive
         then rt1\<lparr>gr_thread := tg_thread_id g, gr_goal := tg_goal_id g, gr_checkpoint := now\<rparr>
         else if tg_goal_id g = gr_goal rt1 then forget_goal rt1
         else rt1)"

definition emit_goal_cleared :: "string \<Rightarrow> goal_runtime \<Rightarrow> goal_runtime" where
  "emit_goal_cleared sid rt =
     (let rt1 = act [GoalCleared sid] rt in if sid = gr_thread rt1 then forget_goal rt1 else rt1)"

definition elapsed_seconds :: "int \<Rightarrow> int \<Rightarrow> int" where
  "elapsed_seconds checkpoint now = (if checkpoint \<noteq> 0 then (now - checkpoint) div 1000000000 else 0)"

definition budget_notice :: "thread_goal \<Rightarrow> goal_runtime \<Rightarrow> goal_runtime" where
  "budget_notice g rt =
     (if gr_notice_goal rt \<noteq> tg_goal_id g
      then (act [GoalSays ''[Goal] Token budget reached; automatic continuation stopped.''] rt)
             \<lparr>gr_notice_goal := tg_goal_id g, gr_budget_steering := True\<rparr>
      else rt)"

text \<open>\<open>out 0\<close> is the statement that restores the fields; then come those of the store.\<close>

definition account_goal_usage ::
  "(nat \<Rightarrow> sql_outcome) \<Rightarrow> string \<Rightarrow> int \<Rightarrow> int \<Rightarrow> int \<Rightarrow> bool \<Rightarrow> goal_runtime \<Rightarrow> goal_runtime" where
  "account_goal_usage out sid wall now token_delta allow_complete rt =
     (case gr_store rt of
        None \<Rightarrow> rt
      | Some db \<Rightarrow>
          if sid = [] then rt
          else let rt1 = (if gr_thread rt \<noteq> sid \<or> gr_goal rt = [] then restore_goal_runtime (out 0) sid now rt else rt)
            in if gr_thread rt1 \<noteq> sid \<or> gr_goal rt1 = [] then rt1
               else (case account_thread_goal_usage (\<lambda>n. out (n + 1)) wall sid (gr_goal rt1) (max 0 token_delta)
                            (elapsed_seconds (gr_checkpoint rt1) now) allow_complete db of
                 (r, db') \<Rightarrow>
                   (let rt2 = rt1\<lparr>gr_checkpoint := now, gr_store := Some db'\<rparr>
                    in case (ar_error r, ar_goal r) of
                         (None, Some g) \<Rightarrow>
                           if ar_limited r then budget_notice g (emit_goal_updated now g rt2)
                           else if ar_updated r then emit_goal_updated now g rt2
                           else rt2
                       | _ \<Rightarrow> rt2)))"

text \<open>After a provider error: \<open>out 0\<close> reads, then accounting, then a second read, the update and a last read.
  \<open>stop_goal_from\<close> is the second read and the update.\<close>

definition stop_goal_from ::
  "(nat \<Rightarrow> sql_outcome) \<Rightarrow> string \<Rightarrow> int \<Rightarrow> int \<Rightarrow> goal_db \<Rightarrow> goal_db \<Rightarrow> ((string + bool) \<times> goal_db) option" where
  "stop_goal_from out sid wall status_code seen db =
     (case get_thread_goal (out 5) sid seen of
        Inr (Some g) \<Rightarrow>
          if tg_status g \<noteq> GoalActive then None
          else Some (update_thread_goal_status (out 6) wall sid (tg_goal_id g)
                 (if status_code = 429 then GoalUsageLimited else GoalBlocked) db)
      | _ \<Rightarrow> None)"

definition stop_active_goal_after_turn_error ::
  "(nat \<Rightarrow> sql_outcome) \<Rightarrow> string \<Rightarrow> int \<Rightarrow> int \<Rightarrow> int \<Rightarrow> goal_runtime \<Rightarrow> goal_runtime" where
  "stop_active_goal_after_turn_error out sid wall now status_code rt =
     (case gr_store rt of
        None \<Rightarrow> rt
      | Some db \<Rightarrow>
          if sid = [] then rt
          else case get_thread_goal (out 0) sid db of
            Inr (Some g0) \<Rightarrow>
              if tg_status g0 \<noteq> GoalActive then rt
              else (let rt1 = account_goal_usage (\<lambda>n. out (n + 1)) sid wall now 0 False rt;
                        db1 = the (gr_store rt1)
                    in case stop_goal_from out sid wall status_code db1 db1 of
                         None \<Rightarrow> rt1
                       | Some (r, db2) \<Rightarrow>
                                  if update_failed r \<noteq> None then rt1\<lparr>gr_store := Some db2\<rparr>
                                  else act [GoalSays (if status_code = 429
                                      then ''[Goal] Provider usage limit hit; goal marked usage_limited and automatic continuation stopped. Use /goal resume to continue later.''
                                      else ''[Goal] Turn ended with an error; goal marked blocked and automatic continuation stopped. Use /goal resume to retry.'')]
                                    (case get_thread_goal (out 7) sid db2 of
                                       Inr (Some u) \<Rightarrow> emit_goal_updated now u (rt1\<lparr>gr_store := Some db2\<rparr>)
                                     | _ \<Rightarrow> rt1\<lparr>gr_store := Some db2\<rparr>))
          | _ \<Rightarrow> rt)"

definition notify_goal_objective_updated :: "bool \<Rightarrow> goal_runtime \<Rightarrow> goal_runtime" where
  "notify_goal_objective_updated busy rt = (if busy then rt\<lparr>gr_objective_steering := True\<rparr> else rt)"

text \<open>The hidden prompts for the next request: which ones, for which goal.\<close>

datatype goal_prompt = BudgetLimitPrompt thread_goal | ObjectiveUpdatedPrompt thread_goal

definition maybe_inject_goal_steering :: "sql_outcome \<Rightarrow> string \<Rightarrow> goal_runtime \<Rightarrow> goal_prompt list \<times> goal_runtime" where
  "maybe_inject_goal_steering out sid rt =
     (let budget = gr_budget_steering rt; objective = gr_objective_steering rt;
          rt1 = rt\<lparr>gr_budget_steering := False, gr_objective_steering := False\<rparr>
      in if \<not> budget \<and> \<not> objective then ([], rt1)
         else case gr_store rt1 of
           None \<Rightarrow> ([], rt1)
         | Some db \<Rightarrow>
             if sid = [] then ([], rt1)
             else case get_thread_goal out sid db of
               Inr (Some g) \<Rightarrow>
                 ((if budget \<and> tg_status g = GoalBudgetLimited then [BudgetLimitPrompt g] else []) @
                  (if objective \<and> tg_status g = GoalActive then [ObjectiveUpdatedPrompt g] else []), rt1)
             | _ \<Rightarrow> ([], rt1))"

text \<open>Whether a next goal turn is queued, for which goal.\<close>

definition maybe_continue_goal ::
  "sql_outcome \<Rightarrow> bool \<Rightarrow> bool \<Rightarrow> bool \<Rightarrow> bool \<Rightarrow> bool \<Rightarrow> string \<Rightarrow> goal_db option \<Rightarrow> thread_goal option" where
  "maybe_continue_goal out abort_requested busy update_goal_allowed plan_mode queue_free sid store =
     (if abort_requested \<or> busy then None
      else if \<not> update_goal_allowed then None
      else if plan_mode then None
      else case store of
        None \<Rightarrow> None
      | Some db \<Rightarrow>
          if sid = [] then None
          else case get_thread_goal out sid db of
            Inr (Some g) \<Rightarrow> if tg_status g = GoalActive \<and> queue_free then Some g else None
          | _ \<Rightarrow> None)"

section \<open>The two commands agree\<close>

text \<open>A budget that both parsers read alike: a number of digits has no leading zero and stays in 64 bits.\<close>

definition dec_val :: "int \<Rightarrow> string \<Rightarrow> int" where
  "dec_val v s = foldl (\<lambda>n c. n * 10 + int (digit_val c)) v s"

definition plain_budget :: "string \<Rightarrow> bool" where
  "plain_budget text \<longleftrightarrow>
     (case budget_suffix (ascii_lower text) of (multiplier, s) \<Rightarrow>
        list_all is_digit s \<longrightarrow> s \<noteq> [] \<longrightarrow> digit_val (hd s) > 0 \<and> dec_val 0 s * multiplier \<le> int64_max)"

definition budget_word :: "string \<Rightarrow> string option" where
  "budget_word raw =
     (let args = trim_by is_space raw
      in if take 8 args = ''--tokens'' then Some (first_word (trim_by is_space (drop 8 args))) else None)"

lemma dec_val_simps [simp]: "dec_val v [] = v" "dec_val v (c # s) = dec_val (v * 10 + int (digit_val c)) s"
  by (simp_all add: dec_val_def)

lemma dec_val_ge: "0 \<le> v \<Longrightarrow> v \<le> dec_val v s"
proof (induction s arbitrary: v)
  case (Cons c s)
  have "v \<le> v * 10 + int (digit_val c)" using Cons.prems by simp
  also have "\<dots> \<le> dec_val (v * 10 + int (digit_val c)) s" using Cons.prems by (intro Cons.IH) simp
  finally show ?case by simp
qed simp

lemma digits_not_all:
  "\<not> list_all is_digit s \<Longrightarrow> tui_budget_digits v s = None \<and> daemon_budget_digits v s = None"
proof (induction s arbitrary: v)
  case (Cons c s)
  show ?case
  proof (cases "is_digit c")
    case True
    with Cons show ?thesis by (simp add: Let_def)
  qed simp
qed simp

lemma digits_agree:
  "list_all is_digit s \<Longrightarrow> 0 < v \<or> (v = 0 \<and> s \<noteq> [] \<and> digit_val (hd s) > 0) \<Longrightarrow> dec_val v s \<le> int64_max \<Longrightarrow>
     tui_budget_digits v s = Some (dec_val v s) \<and> daemon_budget_digits v s = Some (dec_val v s)"
proof (induction s arbitrary: v)
  case (Cons c s)
  let ?v = "v * 10 + int (digit_val c)"
  have pos: "0 < ?v" using Cons.prems(2) by auto
  then have "?v \<le> dec_val ?v s" by (intro dec_val_ge) simp
  also have "\<dots> \<le> int64_max" using Cons.prems(3) by simp
  finally have "wrap_signed 64 ?v = ?v" using pos by (intro wrap_signed_simps(2)) simp_all
  moreover have "tui_budget_digits ?v s = Some (dec_val ?v s) \<and> daemon_budget_digits ?v s = Some (dec_val ?v s)"
    using Cons.prems pos by (intro Cons.IH) simp_all
  ultimately show ?case using Cons.prems(1) pos by (simp add: Let_def)
qed auto

lemma budget_suffix_mult: "budget_suffix s = (m, r) \<Longrightarrow> m \<ge> 1"
  by (auto simp: budget_suffix_def split: if_splits)

lemma plain_budget_agrees:
  assumes "plain_budget text" shows "parse_budget_value text = parse_goal_budget_value text"
proof -
  obtain m s where ms: "budget_suffix (ascii_lower text) = (m, s)" by fastforce
  have "tui_budget_digits 0 s = daemon_budget_digits 0 s" if "s \<noteq> []"
  proof (cases "list_all is_digit s")
    case True
    then have h: "digit_val (hd s) > 0" "dec_val 0 s * m \<le> int64_max"
      using assms that by (simp_all add: plain_budget_def ms)
    have "0 \<le> dec_val 0 s" by (rule dec_val_ge) simp
    then have "dec_val 0 s * 1 \<le> dec_val 0 s * m" using budget_suffix_mult [OF ms] by (intro mult_left_mono) simp_all
    with h(2) have "dec_val 0 s \<le> int64_max" by linarith
    then show ?thesis using digits_agree [OF True, of 0] h(1) that by simp
  qed (simp add: digits_not_all)
  then show ?thesis by (simp add: parse_budget_value_def parse_goal_budget_value_def budget_of_digits_def ms)
qed

lemma parsed_args_agree:
  assumes "\<And>w. budget_word raw = Some w \<Longrightarrow> plain_budget w"
  shows "ga_error (parse_goal_args raw) = [] \<longleftrightarrow> ga_error (parse_registry_goal_args raw) = []"
    "ga_error (parse_goal_args raw) = [] \<Longrightarrow> parse_goal_args raw = parse_registry_goal_args raw"
proof -
  define rest where "rest = trim_by is_space (drop 8 (trim_by is_space raw))"
  have e: "budget_syntax_error \<noteq> []" by (simp add: budget_syntax_error_def)
  have "parse_budget_value (first_word rest) = parse_goal_budget_value (first_word rest)"
    if "take 8 (trim_by is_space raw) = ''--tokens''"
    using assms that by (intro plain_budget_agrees) (simp add: budget_word_def rest_def Let_def)
  moreover have "rest = [] \<Longrightarrow> parse_goal_budget_value (first_word rest) = None"
    by (simp add: first_word_def parse_goal_budget_value_def)
  ultimately show "ga_error (parse_goal_args raw) = [] \<longleftrightarrow> ga_error (parse_registry_goal_args raw) = []"
    "ga_error (parse_goal_args raw) = [] \<Longrightarrow> parse_goal_args raw = parse_registry_goal_args raw"
    using e unfolding parse_goal_args_def parse_registry_goal_args_def Let_def rest_def [symmetric]
    by (auto split: option.splits)
qed

lemma commands_agree:
  "snd (tui_view env db) = snd (snd (daemon_view env db))"
  "snd (tui_clear env sid cur db) = snd (snd (daemon_clear env sid cur db))"
  "snd (tui_pause env sid cur db) = snd (snd (daemon_pause env sid cur db))"
  "snd (tui_resume env sid cur db) = snd (snd (daemon_resume env sid cur db))"
  by (auto simp: tui_view_def daemon_view_def tui_clear_def daemon_clear_def tui_pause_def daemon_pause_def
      tui_resume_def daemon_resume_def accepted_def split: sum.split option.split prod.split)

lemma edit_create_agree:
  assumes "\<And>w. budget_word raw = Some w \<Longrightarrow> plain_budget w"
  shows "snd (tui_edit env sid raw cur db) = snd (snd (daemon_edit env sid raw cur db))"
    "snd (tui_create env sid raw db) = snd (snd (daemon_create env sid raw db))"
proof -
  note p = parsed_args_agree [OF assms]
  show "snd (tui_edit env sid raw cur db) = snd (snd (daemon_edit env sid raw cur db))"
    using p by (cases "ga_error (parse_goal_args raw) = []")
      (auto simp: tui_edit_def daemon_edit_def accepted_def Let_def split: sum.split option.split prod.split)
  show "snd (tui_create env sid raw db) = snd (snd (daemon_create env sid raw db))"
    using p by (cases "ga_error (parse_goal_args raw) = []")
      (auto simp: tui_create_def daemon_create_def accepted_def Let_def split: sum.split option.split prod.split)
qed

text \<open>The terminal and the daemon implement \<open>/goal\<close> twice, and the two agree: on the same arguments,
  session and database outcomes they leave the same goals, provided the budget, if one is given, is
  written without a leading zero and fits in 64 bits.\<close>

lemma goal_commands_agree:
  assumes "\<And>w. budget_word raw = Some w \<or> budget_word (rest_words (trim_by is_space raw)) = Some w \<Longrightarrow> plain_budget w"
  shows "snd (cmd_goal env raw db) = snd (snd (execute_goal_builtin env raw db))"
proof -
  let ?args = "trim_by is_space raw"
  have c: "snd (tui_create env sid ?args db) = snd (snd (daemon_create env sid ?args db))" for sid
    using assms by (intro edit_create_agree(2)) (simp add: budget_word_def Let_def)
  have e: "snd (tui_edit env sid (rest_words ?args) cur db) = snd (snd (daemon_edit env sid (rest_words ?args) cur db))" for sid cur
    using assms by (intro edit_create_agree(1)) blast
  show ?thesis
    by (simp add: cmd_goal_def execute_goal_builtin_def cmd_goal_from_def execute_goal_builtin_from_def Let_def commands_agree c e split: sum.split)
qed

text \<open>With a leading zero they do not; and beyond 64 bits both accept a small budget for a huge number.\<close>

lemma leading_zero_budget:
  "parse_budget_value ''0100'' = None" "parse_goal_budget_value ''0100'' = Some 100"
  by code_simp+

lemma overflowing_budget_accepted:
  "parse_budget_value ''18446744073709551617'' = Some 1" "parse_goal_budget_value ''18446744073709551617'' = Some 1"
  "parse_budget_value ''18446744073709552k'' = Some 384" "parse_goal_budget_value ''18446744073709552k'' = Some 384"
  by code_simp+

section \<open>Who may change a goal\<close>

datatype goal_actor = User | Model | Loop | Fork

text \<open>The callback of the update tool is the loop's accounting on the same database.\<close>

definition tool_accounting ::
  "(nat \<Rightarrow> sql_outcome) \<Rightarrow> string \<Rightarrow> int \<Rightarrow> int \<Rightarrow> goal_runtime \<Rightarrow> goal_db \<Rightarrow> goal_db" where
  "tool_accounting out sid wall now rt db =
     (case gr_store (account_goal_usage out sid wall now 0 True (rt\<lparr>gr_store := Some db\<rparr>)) of
        Some db' \<Rightarrow> db' | None \<Rightarrow> db)"

text \<open>\<open>goal_move a seen db db'\<close>: an operation of \<open>a\<close> that read the table \<open>seen\<close> turns the table \<open>db\<close> into
  \<open>db'\<close>.  The two tables are any two: what others wrote between the read and the write is not restricted.
  The model's update tool and the loop's reaction to an error account first and then read again; the two
  parts are moves of their own.\<close>

inductive goal_move :: "goal_actor \<Rightarrow> goal_db \<Rightarrow> goal_db \<Rightarrow> goal_db \<Rightarrow> bool" where
  terminal_command: "goal_move User seen db (snd (cmd_goal_from env raw seen db))"
| daemon_command: "goal_move User seen db (snd (snd (execute_goal_builtin_from env raw seen db)))"
| create_tool: "goal_move Model seen db (snd (create_goal_tool_from tenv args seen db))"
| update_tool: "target_status st = Some target \<Longrightarrow>
    goal_move Model seen db (snd (update_goal_status_from tenv target seen db))"
| accounts: "a \<in> {Loop, Model} \<Longrightarrow> goal_move a seen db (snd (account_usage_from out now t i tokens seconds allow seen db))"
| loop_stops: "stop_goal_from out sid wall code seen db = Some (r, db') \<Longrightarrow> goal_move Loop seen db db'"
| loop_pauses: "goal_move Loop seen db (snd (pause_active_thread_goal o1 now1 sid db))"
| session_forks: "goal_move Fork seen db (snd (copy_goal_from out now1 nid from_t to_t seen db))"

text \<open>What a move may do to the goals that exist: the fields it may not touch, and which goals it may start.\<close>

definition same_goal :: "thread_goal \<Rightarrow> thread_goal \<Rightarrow> bool" where
  "same_goal g g' \<longleftrightarrow> tg_goal_id g' = tg_goal_id g \<and> tg_objective g' = tg_objective g \<and>
     tg_token_budget g' = tg_token_budget g"

definition runs_as :: "goal_db \<Rightarrow> string \<Rightarrow> string \<Rightarrow> bool" where
  "runs_as db t i \<longleftrightarrow> (\<exists>g. db_rows db t = Some g \<and> c_string (tg_goal_id g) = i \<and> tg_status g = GoalActive)"

definition keeps_from :: "goal_db \<Rightarrow> goal_db \<Rightarrow> goal_db \<Rightarrow> bool" where
  "keeps_from seen db db' \<longleftrightarrow>
     (\<forall>t g. db_rows db t = Some g \<longrightarrow> (\<exists>g'. db_rows db' t = Some g' \<and> same_goal g g' \<and>
        (tg_status g' = GoalActive \<longrightarrow> tg_status g = GoalActive \<or> runs_as seen t (tg_goal_id g))))"

definition begins_fresh :: "thread_goal \<Rightarrow> bool" where
  "begins_fresh g \<longleftrightarrow> tg_tokens_used g = 0 \<and> (\<forall>b. tg_token_budget g = Some b \<longrightarrow> 0 < b)"

definition resumable :: "goal_db \<Rightarrow> string \<Rightarrow> string \<Rightarrow> bool" where
  "resumable db t i \<longleftrightarrow> (\<exists>g. db_rows db t = Some g \<and> c_string (tg_goal_id g) = i \<and>
     tg_status g \<noteq> GoalComplete \<and> \<not> over_budget g)"

definition may_start :: "goal_actor \<Rightarrow> goal_db \<Rightarrow> goal_db \<Rightarrow> string \<Rightarrow> thread_goal \<Rightarrow> bool" where
  "may_start a seen db t g' \<longleftrightarrow>
     (a \<noteq> Loop \<and> begins_fresh g' \<or> a = User \<and> resumable seen t (tg_goal_id g') \<or>
      (a = Loop \<or> a = Model) \<and> runs_as seen t (tg_goal_id g')) \<and>
     (seen = db \<longrightarrow> \<not> over_budget g')"

definition ran_before :: "goal_db \<Rightarrow> string \<Rightarrow> thread_goal \<Rightarrow> bool" where
  "ran_before db t g' \<longleftrightarrow>
     (\<exists>g. db_rows db t = Some g \<and> tg_goal_id g = tg_goal_id g' \<and> tg_status g = GoalActive)"

definition starts_well :: "goal_actor \<Rightarrow> goal_db \<Rightarrow> goal_db \<Rightarrow> goal_db \<Rightarrow> bool" where
  "starts_well a seen db db' \<longleftrightarrow> (\<forall>t g'. db_rows db' t = Some g' \<longrightarrow> tg_status g' = GoalActive \<longrightarrow>
     ran_before db t g' \<or> may_start a seen db t g')"

lemma same_goal_refl [simp]: "same_goal g g" by (simp add: same_goal_def)

lemma keeps_from_refl [simp]: "keeps_from seen db db" by (simp add: keeps_from_def)

lemma starts_well_refl [simp]: "starts_well a seen db db" by (auto simp: starts_well_def ran_before_def)

lemma fresh_not_over: "begins_fresh g \<Longrightarrow> \<not> over_budget g"
  by (auto simp: begins_fresh_def over_budget_def split: option.splits)

lemma over_budget_stamped: "over_budget (g\<lparr>tg_status := s, tg_updated_at := n\<rparr>) \<longleftrightarrow> over_budget g"
  by (simp add: over_budget_def split: option.split)

lemma fresh_may_start: "a \<noteq> Loop \<Longrightarrow> begins_fresh g \<Longrightarrow> may_start a seen db t g"
  by (simp add: may_start_def fresh_not_over)

lemma keeps_update:
  assumes "update_statement a b out sets t P f db = (r, db')"
    and "\<And>g. P g \<Longrightarrow> db_rows db (c_string t) = Some g \<Longrightarrow> same_goal g (f g) \<and>
      (tg_status (f g) = GoalActive \<longrightarrow> tg_status g = GoalActive \<or> runs_as seen (c_string t) (tg_goal_id g))"
  shows "keeps_from seen db db'"
  using assms(1)
proof (cases rule: update_statement_cases)
  case (2 g)
  with assms(2) [of g] show ?thesis by (auto simp: keeps_from_def)
qed simp

lemma starts_update:
  assumes "update_statement a b out sets t P f db = (r, db')"
    and "\<And>g. P g \<Longrightarrow> db_rows db (c_string t) = Some g \<Longrightarrow> tg_status (f g) = GoalActive \<Longrightarrow>
      (tg_goal_id (f g) = tg_goal_id g \<and> tg_status g = GoalActive) \<or> may_start ac seen db (c_string t) (f g)"
  shows "starts_well ac seen db db'"
  using assms(1)
proof (cases rule: update_statement_cases)
  case (2 g)
  with assms(2) [of g] show ?thesis by (auto simp: starts_well_def ran_before_def)
qed simp

text \<open>The statements, one by one.\<close>

lemma status_update_keeps:
  "s \<noteq> GoalActive \<Longrightarrow> keeps_from seen db (snd (update_thread_goal_status out now t i s db))"
  by (auto simp: update_thread_goal_status_def same_goal_def intro!: keeps_update [OF surjective_pairing])

lemma status_update_starts:
  "s \<noteq> GoalActive \<Longrightarrow> starts_well a seen db (snd (update_thread_goal_status out now t i s db))"
  by (auto simp: update_thread_goal_status_def intro!: starts_update [OF surjective_pairing])

lemma pause_keeps: "keeps_from seen db (snd (pause_active_thread_goal out now t db))"
  by (auto simp: pause_active_thread_goal_def same_goal_def intro!: keeps_update [OF surjective_pairing])

lemma pause_starts: "starts_well a seen db (snd (pause_active_thread_goal out now t db))"
  by (auto simp: pause_active_thread_goal_def intro!: starts_update [OF surjective_pairing])

lemma write_accounting_snd:
  "snd (write_accounting out now t i (nt, ns, st, l) db) =
     snd (update_statement ''goal account bind failed'' ''goal account failed'' (out 1) (Some st) t
      (\<lambda>g. tg_goal_id g = c_string i)
      (\<lambda>g. g\<lparr>tg_tokens_used := nt, tg_time_used := ns, tg_status := st, tg_updated_at := now\<rparr>) db)"
proof -
  define upd where "upd = update_statement ''goal account bind failed'' ''goal account failed'' (out 1) (Some st) t
      (\<lambda>g. tg_goal_id g = c_string i)
      (\<lambda>g. g\<lparr>tg_tokens_used := nt, tg_time_used := ns, tg_status := st, tg_updated_at := now\<rparr>) db"
  show ?thesis
    unfolding write_accounting_def Let_def prod.case upd_def [symmetric]
    by (cases upd; cases "fst upd") (auto split: sum.split)
qed

lemma get_thread_goal_row: "get_thread_goal out t db = Inr g \<Longrightarrow> g = db_rows db (c_string t)"
  by (auto simp: get_thread_goal_def split: if_splits option.splits)

text \<open>Accounting writes nothing, or a row whose status is Active only if the goal it read runs.\<close>

lemma account_effect:
  "snd (account_usage_from out now t i tokens seconds allow seen db) = db \<or>
   (\<exists>nt ns st l. snd (account_usage_from out now t i tokens seconds allow seen db) =
      snd (write_accounting out now t i (nt, ns, st, l) db) \<and>
      (st = GoalActive \<longrightarrow> runs_as seen (c_string t) (c_string i)))"
proof (cases "\<exists>p before. gd_open seen \<and> get_thread_goal (out 0) t seen = Inr before \<and>
    plan_accounting i tokens seconds allow before = Inr p")
  case True
  then obtain p before where h: "gd_open seen" "get_thread_goal (out 0) t seen = Inr before"
    "plan_accounting i tokens seconds allow before = Inr p" by blast
  obtain nt ns st l where p: "p = (nt, ns, st, l)" by (cases p)
  from h(3) [unfolded p] obtain g where "before = Some g" "tg_goal_id g = i" "st = GoalActive \<longrightarrow> tg_status g = GoalActive"
    by (auto simp: plan_accounting_def Let_def split: option.splits if_splits)
  moreover from this(1) get_thread_goal_row [OF h(2)] have "db_rows seen (c_string t) = Some g" by simp
  ultimately have "st = GoalActive \<longrightarrow> runs_as seen (c_string t) (c_string i)"
    unfolding runs_as_def by blast
  moreover have "snd (account_usage_from out now t i tokens seconds allow seen db) =
      snd (write_accounting out now t i (nt, ns, st, l) db)"
    using h p by (simp add: account_usage_from_def)
  ultimately show ?thesis by blast
qed (auto simp: account_usage_from_def split: sum.split)

lemma accounting_keeps: "keeps_from seen db (snd (account_usage_from out now t i tokens seconds allow seen db))"
proof -
  have "keeps_from seen db (snd (write_accounting out now t i (nt, ns, st, l) db))"
    if "st = GoalActive \<longrightarrow> runs_as seen (c_string t) (c_string i)" for nt ns st l
    using that unfolding write_accounting_snd
    by (intro keeps_update [OF surjective_pairing]) (auto simp: same_goal_def)
  with account_effect [of out now t i tokens seconds allow seen db] show ?thesis by auto
qed

lemma accounting_starts:
  assumes "a = Loop \<or> a = Model"
  shows "starts_well a seen db (snd (account_usage_from out now t i tokens seconds allow seen db))"
proof -
  have "starts_well a seen db (snd (write_accounting out now t i (nt, ns, st, l) db))"
    if st: "st = GoalActive \<longrightarrow> runs_as seen (c_string t) (c_string i)" for nt ns st l
    unfolding write_accounting_snd
  proof (rule starts_update [OF surjective_pairing])
    fix g
    assume g: "tg_goal_id g = c_string i" "db_rows db (c_string t) = Some g"
    let ?g = "g\<lparr>tg_tokens_used := nt, tg_time_used := ns, tg_status := st, tg_updated_at := now\<rparr>"
    assume "tg_status ?g = GoalActive"
    then have r: "runs_as seen (c_string t) (c_string i)" using st by simp
    show "tg_goal_id ?g = tg_goal_id g \<and> tg_status g = GoalActive \<or> may_start a seen db (c_string t) ?g"
    proof (cases "seen = db")
      case True
      with r g have "tg_status g = GoalActive" by (auto simp: runs_as_def)
      then show ?thesis by simp
    next
      case False
      with r g assms show ?thesis by (auto simp: may_start_def)
    qed
  qed
  with account_effect [of out now t i tokens seconds allow seen db] show ?thesis by auto
qed

lemma replace_keeps:
  "db_rows db (c_string t) = None \<Longrightarrow> keeps_from seen db (snd (replace_thread_goal out now i t ob b s db))"
  by (auto simp: replace_thread_goal_def keeps_from_def split: option.split)

lemma replace_starts:
  "a \<noteq> Loop \<Longrightarrow> starts_well a seen db (snd (replace_thread_goal out now i t ob b s db))"
  by (auto simp: replace_thread_goal_def starts_well_def ran_before_def begins_fresh_def check_goal_ok
      intro!: fresh_may_start dest: check_goal_ok(2) split: option.split)

lemma delete_starts: "starts_well a seen db (snd (delete_thread_goal out t db))"
  by (auto simp: delete_thread_goal_def starts_well_def ran_before_def split: option.split)

lemma objective_update_starts:
  "starts_well a seen db (snd (update_thread_goal_objective out now t i ob b db))"
  by (auto simp: update_thread_goal_objective_def split: option.split intro!: starts_update [OF surjective_pairing])

text \<open>The commands.\<close>

lemma resume_starts:
  assumes "cur = db_rows seen (c_string sid)"
  shows "starts_well User seen db (snd (tui_resume env sid cur db))"
proof (cases cur)
  case (Some g)
  have "starts_well User seen db
      (snd (update_thread_goal_status (gc_sql env 1) (gc_now env) sid (tg_goal_id g) GoalActive db))"
    if "\<not> over_budget g" "tg_status g \<noteq> GoalComplete"
  proof (cases "gd_open db")
    case True
    then have nn: "\<not> \<not> gd_open db" by simp
    show ?thesis
      unfolding update_thread_goal_status_def if_not_P [OF nn]
    proof (rule starts_update [OF surjective_pairing])
      fix h assume h: "tg_goal_id h = c_string (tg_goal_id g)" "db_rows db (c_string sid) = Some h"
      have "db_rows seen (c_string sid) = Some g" using assms Some by simp
      then have "resumable seen (c_string sid) (tg_goal_id h)" unfolding resumable_def using that h(1) by simp
      moreover have "\<not> over_budget h" if "seen = db" using that h assms Some \<open>\<not> over_budget g\<close> by simp
      ultimately show "(tg_goal_id (h\<lparr>tg_status := GoalActive, tg_updated_at := gc_now env\<rparr>) = tg_goal_id h \<and>
          tg_status h = GoalActive) \<or>
        may_start User seen db (c_string sid) (h\<lparr>tg_status := GoalActive, tg_updated_at := gc_now env\<rparr>)"
        by (auto simp: may_start_def over_budget_stamped)
    qed
  qed (simp add: update_thread_goal_status_def)
  with Some show ?thesis by (auto simp: tui_resume_def case_prod_unfold split: option.split)
qed (simp add: tui_resume_def)

lemma command_parts_start:
  "starts_well User seen db (snd (tui_view env db))" "starts_well User seen db (snd (tui_clear env sid cur db))"
  "starts_well User seen db (snd (tui_pause env sid cur db))"
  "starts_well User seen db (snd (tui_edit env sid tail cur db))"
  "starts_well User seen db (snd (tui_create env sid args db))"
  "starts_well User seen db (snd (snd (daemon_edit env sid tail cur db)))"
  "starts_well User seen db (snd (snd (daemon_create env sid args db)))"
proof -
  show "starts_well User seen db (snd (tui_view env db))" by (simp add: tui_view_def split: sum.split)
  show "starts_well User seen db (snd (tui_clear env sid cur db))"
    by (simp add: tui_clear_def case_prod_unfold delete_starts split: option.split)
  show "starts_well User seen db (snd (tui_pause env sid cur db))"
    by (simp add: tui_pause_def case_prod_unfold status_update_starts split: option.split)
  show "starts_well User seen db (snd (tui_edit env sid tail cur db))"
    by (simp add: tui_edit_def case_prod_unfold Let_def objective_update_starts split: option.split)
  show "starts_well User seen db (snd (tui_create env sid args db))"
    by (simp add: tui_create_def case_prod_unfold Let_def replace_starts split: option.split)
  show "starts_well User seen db (snd (snd (daemon_edit env sid tail cur db)))"
    by (simp add: daemon_edit_def accepted_def case_prod_unfold Let_def objective_update_starts split: option.split)
  show "starts_well User seen db (snd (snd (daemon_create env sid args db)))"
    by (simp add: daemon_create_def accepted_def case_prod_unfold Let_def replace_starts split: option.split)
qed

lemma tui_starts: "starts_well User seen db (snd (cmd_goal_from env raw seen db))"
  by (auto simp: cmd_goal_from_def Let_def command_parts_start split: sum.split
      intro!: resume_starts dest!: get_thread_goal_row)

lemma daemon_starts: "starts_well User seen db (snd (snd (execute_goal_builtin_from env raw seen db)))"
  by (auto simp: execute_goal_builtin_from_def Let_def command_parts_start commands_agree [symmetric] split: sum.split
      intro!: resume_starts dest!: get_thread_goal_row)

text \<open>The tools and the loop.\<close>

lemma create_tool_effect:
  "snd (create_goal_tool_from env args seen db) = db \<or>
   (\<exists>ob b. db_rows seen (c_string (gt_ensured_session env)) = None \<and>
     snd (create_goal_tool_from env args seen db) =
       snd (replace_thread_goal (gt_sql env 1) (gt_now env) (gt_new_id env) (gt_ensured_session env) ob b GoalActive db))"
  unfolding create_goal_tool_from_def
  by (auto simp: case_prod_unfold split: sum.split option.split dest!: get_thread_goal_row)

lemma update_tool_effect:
  "snd (update_goal_status_from env target seen db) = db \<or>
   (\<exists>i. snd (update_goal_status_from env target seen db) =
      snd (update_thread_goal_status (gt_sql env 1) (gt_now env) (gt_session env) i target db))"
  unfolding update_goal_status_from_def by (auto simp: case_prod_unfold split: sum.split option.split)

lemma target_not_active: "target_status st = Some s \<Longrightarrow> s \<noteq> GoalActive"
  by (auto simp: target_status_def split: if_splits)

lemma stop_effect:
  assumes "stop_goal_from out sid wall code seen db = Some (r, db')"
  obtains i s where "s \<noteq> GoalActive" "db' = snd (update_thread_goal_status (out 6) wall sid i s db)"
proof -
  from assms have "\<exists>g :: thread_goal. update_thread_goal_status (out 6) wall sid (tg_goal_id g)
      (if code = 429 then GoalUsageLimited else GoalBlocked) db = (r, db')"
    unfolding stop_goal_from_def by (auto split: sum.splits option.splits if_splits)
  then obtain g :: thread_goal where "update_thread_goal_status (out 6) wall sid (tg_goal_id g)
      (if code = 429 then GoalUsageLimited else GoalBlocked) db = (r, db')" by blast
  then show ?thesis by (intro that [of "if code = 429 then GoalUsageLimited else GoalBlocked" "tg_goal_id g"]) simp_all
qed

lemma replace_other_rows:
  "u \<noteq> c_string t \<Longrightarrow> db_rows (snd (replace_thread_goal out now i t ob b s db)) u = db_rows db u"
  by (simp add: replace_thread_goal_def split: option.split)

text \<open>C25: A goal that starts to run, starts with tokens left.  An operation reads the table and writes it in
  two statements, and whatever others write in between: if a goal runs after the write that did not run
  before it (under the same id), then it was begun afresh, at zero under a positive budget, by the user, the
  model or a fork; or the user resumed it, and the goal his command had read was neither complete nor out of
  budget; or the loop or the model accounted for it, and the goal the accounting had read was running.  An
  operation that nobody interrupts never starts a goal that has used up its budget.\<close>

theorem goals_start_with_tokens_left:
  assumes "goal_move a seen db db'" "db_rows db' t = Some g'" "tg_status g' = GoalActive"
    and "\<nexists>g. db_rows db t = Some g \<and> tg_goal_id g = tg_goal_id g' \<and> tg_status g = GoalActive"
  shows "(a \<noteq> Loop \<and> tg_tokens_used g' = 0 \<and> (\<forall>b. tg_token_budget g' = Some b \<longrightarrow> 0 < b) \<or>
    a = User \<and> (\<exists>g. db_rows seen t = Some g \<and> c_string (tg_goal_id g) = tg_goal_id g' \<and>
      tg_status g \<noteq> GoalComplete \<and> (\<forall>b. tg_token_budget g = Some b \<longrightarrow> tg_tokens_used g < b)) \<or>
    (a = Loop \<or> a = Model) \<and> (\<exists>g. db_rows seen t = Some g \<and> c_string (tg_goal_id g) = tg_goal_id g' \<and>
      tg_status g = GoalActive)) \<and>
    (seen = db \<longrightarrow> (\<forall>b. tg_token_budget g' = Some b \<longrightarrow> tg_tokens_used g' < b))"
proof -
  from assms(1) have "starts_well a seen db db'"
  proof cases
    case (create_tool tenv args)
    then show ?thesis using create_tool_effect [of tenv args seen db] by (auto simp: replace_starts)
  next
    case (update_tool st target tenv)
    then show ?thesis
      using update_tool_effect [of tenv target seen db] target_not_active by (auto simp: status_update_starts)
  next
    case (loop_stops out sid wall code r)
    from loop_stops(2) show ?thesis by (rule stop_effect) (simp add: status_update_starts)
  next
    case (session_forks out now nid from_t to_t)
    then show ?thesis by (simp add: copy_goal_from_def replace_starts split: sum.split option.split)
  qed (auto simp: tui_starts daemon_starts accounting_starts pause_starts)
  with assms(2-4) have m: "may_start a seen db t g'" unfolding starts_well_def ran_before_def by blast
  have over: "\<not> over_budget g \<longleftrightarrow> (\<forall>b. tg_token_budget g = Some b \<longrightarrow> tg_tokens_used g < b)" for g
    by (auto simp: over_budget_def split: option.splits)
  from m show ?thesis unfolding may_start_def begins_fresh_def resumable_def runs_as_def over by blast
qed

text \<open>C26: The model and the loop do not change what a goal is.  Whatever the model's tools, the accounting, a
  failed turn or an abort write, and whatever others wrote since they read: the goal in the table keeps its
  objective, its budget and its id, and it runs afterwards only if it ran before the write or ran when it
  was read.  The one exception is a model that creates a goal after it had read that there was none.\<close>

theorem model_and_loop_keep_goals:
  assumes "goal_move a seen db db'" "a = Model \<or> a = Loop" "db_rows db t = Some g"
  shows "a = Model \<and> db_rows seen t = None \<or>
    (\<exists>g'. db_rows db' t = Some g' \<and> tg_objective g' = tg_objective g \<and> tg_token_budget g' = tg_token_budget g \<and>
      tg_goal_id g' = tg_goal_id g \<and>
      (tg_status g' = GoalActive \<longrightarrow> tg_status g = GoalActive \<or>
         (\<exists>g0. db_rows seen t = Some g0 \<and> c_string (tg_goal_id g0) = tg_goal_id g \<and> tg_status g0 = GoalActive)))"
proof -
  from assms(1,2) have "a = Model \<and> db_rows seen t = None \<or> db_rows db' t = db_rows db t \<or> keeps_from seen db db'"
  proof cases
    case (create_tool tenv args)
    then show ?thesis
      using create_tool_effect [of tenv args seen db]
        replace_other_rows [of t "gt_ensured_session tenv"] by (cases "t = c_string (gt_ensured_session tenv)") auto
  next
    case (update_tool st target tenv)
    then show ?thesis
      using update_tool_effect [of tenv target seen db] target_not_active by (auto simp: status_update_keeps)
  next
    case (loop_stops out sid wall code r)
    from loop_stops(2) show ?thesis by (rule stop_effect) (simp add: status_update_keeps)
  qed (auto simp: accounting_keeps pause_keeps)
  then consider "a = Model \<and> db_rows seen t = None" | "db_rows db' t = Some g" | "keeps_from seen db db'"
    using assms(3) by auto
  then show ?thesis
    using assms(3) by cases (auto simp: keeps_from_def same_goal_def runs_as_def)
qed

text \<open>Operations that nobody interrupts are moves with one table, or two moves in a row.\<close>

abbreviation alone :: "goal_actor \<Rightarrow> goal_db \<Rightarrow> goal_db \<Rightarrow> bool" where
  "alone a \<equiv> (\<lambda>d d'. goal_move a d d d')\<^sup>*\<^sup>*"

text \<open>The loop's accounting is the store's, on its own database.\<close>

lemma goal_runtime_store [simp]:
  "gr_store (forget_goal rt) = gr_store rt" "gr_store (act as rt) = gr_store rt"
  "gr_store (restore_goal_runtime out sid now rt) = gr_store rt"
  "gr_store (emit_goal_updated now g rt) = gr_store rt" "gr_store (budget_notice g rt) = gr_store rt"
  by (auto simp: forget_goal_def act_def restore_goal_runtime_def emit_goal_updated_def budget_notice_def Let_def
      split: option.split sum.split)

lemma loop_accounting_store:
  assumes "gr_store rt = Some db"
  shows "gr_store (account_goal_usage out sid wall now delta allow rt) = Some db \<or>
    (\<exists>i tokens seconds. gr_store (account_goal_usage out sid wall now delta allow rt) =
       Some (snd (account_thread_goal_usage (\<lambda>n. out (n + 1)) wall sid i tokens seconds allow db)))"
proof -
  define rt1 where "rt1 = (if gr_thread rt \<noteq> sid \<or> gr_goal rt = [] then restore_goal_runtime (out 0) sid now rt else rt)"
  have s: "gr_store rt1 = Some db" using assms by (simp add: rt1_def)
  obtain r db' where a: "account_thread_goal_usage (\<lambda>n. out (n + 1)) wall sid (gr_goal rt1) (max 0 delta)
      (elapsed_seconds (gr_checkpoint rt1) now) allow db = (r, db')" by fastforce
  show ?thesis
  proof (cases "sid = [] \<or> gr_thread rt1 \<noteq> sid \<or> gr_goal rt1 = []")
    case True
    then have "gr_store (account_goal_usage out sid wall now delta allow rt) = Some db"
      using assms s unfolding account_goal_usage_def Let_def rt1_def [symmetric] by auto
    then show ?thesis ..
  next
    case False
    then have "gr_store (account_goal_usage out sid wall now delta allow rt) = Some db'"
      using assms a unfolding account_goal_usage_def Let_def rt1_def [symmetric] by (simp split: option.split)
    moreover have "db' = snd (account_thread_goal_usage (\<lambda>n. out (n + 1)) wall sid (gr_goal rt1) (max 0 delta)
      (elapsed_seconds (gr_checkpoint rt1) now) allow db)" using a by simp
    ultimately show ?thesis by blast
  qed
qed

lemma accounting_alone:
  assumes "gr_store rt = Some db" "gr_store (account_goal_usage out sid wall now delta allow rt) = Some db'"
    and "a \<in> {Loop, Model}"
  shows "alone a db db'"
proof -
  have "alone a db (snd (account_thread_goal_usage o1 w sid i tokens seconds allow db))" for o1 w i tokens seconds
    unfolding account_thread_goal_usage_def by (intro r_into_rtranclp accounts assms(3))
  with loop_accounting_store [OF assms(1), of out sid wall now delta allow] assms(2) show ?thesis by auto
qed

lemma tool_accounting_alone: "alone Model db (tool_accounting out sid wall now rt db)"
  using accounting_alone [of "rt\<lparr>gr_store := Some db\<rparr>" db out sid wall now 0 True _ Model]
  by (auto simp: tool_accounting_def split: option.split)

lemma operations_alone:
  "alone User db (snd (cmd_goal env raw db))"
  "alone User db (snd (snd (execute_goal_builtin env raw db)))"
  "alone Model db (snd (create_goal_tool tenv args db))"
  "alone Fork db (snd (copy_goal_reset_usage out wall nid from_t to_t db))"
  "alone Model db (snd (update_goal_tool tenv (tool_accounting out sid wall now rt) args db))"
proof -
  show "alone User db (snd (cmd_goal env raw db))" "alone User db (snd (snd (execute_goal_builtin env raw db)))"
    "alone Model db (snd (create_goal_tool tenv args db))"
    "alone Fork db (snd (copy_goal_reset_usage out wall nid from_t to_t db))"
    unfolding cmd_goal_def execute_goal_builtin_def create_goal_tool_def copy_goal_reset_usage_def
    by (rule r_into_rtranclp, rule goal_move.intros)+
  let ?db1 = "tool_accounting out sid wall now rt db"
  have "alone Model db (snd (update_goal_status_from tenv target ?db1 ?db1))" if "target_status st = Some target" for st target
    by (rule rtranclp.rtrancl_into_rtrancl [OF tool_accounting_alone update_tool [OF that]])
  then show "alone Model db (snd (update_goal_tool tenv (tool_accounting out sid wall now rt) args db))"
    unfolding update_goal_tool_def by (auto simp: case_prod_unfold tool_accounting_alone split: sum.split option.split)
qed

lemma loop_stop_alone:
  assumes "gr_store rt = Some db" "gr_store (stop_active_goal_after_turn_error out sid wall now code rt) = Some db'"
  shows "alone Loop db db'"
proof -
  define rt1 where "rt1 = account_goal_usage (\<lambda>n. out (n + 1)) sid wall now 0 False rt"
  obtain db1 where db1: "gr_store rt1 = Some db1"
    using loop_accounting_store [OF assms(1), of "\<lambda>n. out (n + 1)" sid wall now 0 False] by (auto simp: rt1_def)
  have a: "alone Loop db db1" by (rule accounting_alone [OF assms(1) db1 [unfolded rt1_def]]) simp
  have "alone Loop db db2" if "stop_goal_from out sid wall code db1 db1 = Some (r, db2)" for r db2
    by (rule rtranclp.rtrancl_into_rtrancl [OF a loop_stops [OF that]])
  moreover have "db' = db \<or> db' = db1 \<or> (\<exists>r. stop_goal_from out sid wall code db1 db1 = Some (r, db'))"
    using assms db1 unfolding stop_active_goal_after_turn_error_def rt1_def [symmetric]
    by (auto simp: Let_def case_prod_unfold split: if_splits sum.splits option.splits)
  ultimately show ?thesis using a by auto
qed

section \<open>Where the rules do not reach\<close>

text \<open>An edit may set a budget below what is already used; the goal keeps running, and is continued.\<close>

lemma edit_below_usage_keeps_running:
  assumes "gd_open db" "gd_v2 db" "db_rows db (c_string t) = Some g" "tg_status g = GoalActive" "tg_goal_id g = c_string i"
    and "check_goal ob (Some b) = None" "b \<le> tg_tokens_used g"
    and "update_thread_goal_objective SqlOk now t i ob (Some b) db = (r, db')"
  shows "\<exists>g'. db_rows db' (c_string t) = Some g' \<and> tg_status g' = GoalActive \<and> over_budget g'"
  using assms by (auto simp: update_thread_goal_objective_def update_statement_ok over_budget_def)

text \<open>A goal that runs out of tokens while \<open>/goal resume\<close> is under way is started over its budget.\<close>

lemma resume_races_with_accounting:
  assumes "gd_open db" "gd_v2 db" "db_rows seen (c_string sid) = Some g" "tg_status g \<noteq> GoalComplete" "\<not> over_budget g"
    and "db_rows db (c_string sid) = Some h" "tg_goal_id h = c_string (tg_goal_id g)" "over_budget h" "gc_sql env 1 = SqlOk"
  shows "\<exists>h'. db_rows (snd (tui_resume env sid (db_rows seen (c_string sid)) db)) (c_string sid) = Some h' \<and>
    tg_status h' = GoalActive \<and> over_budget h'"
  using assms
  by (auto simp: tui_resume_def update_thread_goal_status_def update_statement_ok over_budget_def case_prod_unfold
      split: option.splits)

text \<open>A model that had read that there is no goal overwrites the one the user creates meanwhile, although the
  tool's answer to an existing goal is to leave it to the user.\<close>

lemma create_races_with_user:
  assumes "gd_open seen" "gd_rows seen \<noteq> None" "db_rows seen (c_string sid) = None" "\<forall>n. gt_sql tenv n = SqlOk"
    and "gd_open db" "status_admitted db GoalActive" "db_rows db (c_string sid) = Some g"
    and "gt_manager tenv" "gt_store tenv" "gt_ensured_session tenv = sid" "sid \<noteq> []"
    and "gt_parse tenv (text_or_braces args) = Inr j" "string_field j ''objective'' = Some ob"
    and "parse_optional_budget j = Inr b" "check_goal (trim_goal_objective ob) b = None"
  shows "\<exists>g'. db_rows (snd (create_goal_tool_from tenv args seen db)) (c_string sid) = Some g' \<and>
    tg_objective g' = c_string (trim_goal_objective (trim_goal_objective ob)) \<and> tg_goal_id g' = c_string (gt_new_id tenv)"
proof -
  have "gd_rows db \<noteq> None" using assms(7) by (auto simp: db_rows_def split: option.splits)
  with assms show ?thesis
    by (simp add: create_goal_tool_from_def get_thread_goal_def replace_thread_goal_def statement_error_def
        case_prod_unfold Let_def split: option.split)
qed

text \<open>The tool can mark a complete goal as blocked; \<open>/goal resume\<close> then starts it again.\<close>

lemma complete_goal_reopened:
  assumes "gd_open db" "gd_v2 db" "db_rows db (c_string t) = Some g" "tg_status g = GoalComplete"
    and "tg_goal_id g = c_string i" "target_status s = Some GoalBlocked" "\<not> over_budget g"
    and "update_thread_goal_status SqlOk now t i GoalBlocked db = (r, db1)"
    and "update_thread_goal_status SqlOk now2 t i GoalActive db1 = (r2, db2)"
  shows "\<exists>g2. db_rows db2 (c_string t) = Some g2 \<and> tg_status g2 = GoalActive"
  using assms by (auto simp: update_thread_goal_status_def update_statement_ok)

text \<open>Time is cut to whole seconds at every accounting and the rest is dropped: gaps of less than a second
  are never counted, however many there are.\<close>

lemma short_gap_not_counted:
  assumes "gr_store rt = Some db" "gr_thread rt = sid" "sid \<noteq> []" "gr_goal rt \<noteq> []"
    and "gr_checkpoint rt > 0" "gr_checkpoint rt \<le> now" "now < gr_checkpoint rt + 1000000000" "gd_open db"
  shows "gr_store (account_goal_usage out sid wall now 0 allow rt) = Some db \<and>
    gr_checkpoint (account_goal_usage out sid wall now 0 allow rt) = now"
proof -
  have "elapsed_seconds (gr_checkpoint rt) now = 0" using assms(5-7) by (simp add: elapsed_seconds_def)
  moreover have "\<exists>r. account_thread_goal_usage o' wall sid (gr_goal rt) 0 0 allow db = (r, db) \<and> \<not> ar_limited r \<and> \<not> ar_updated r" for o'
    using assms(8) by (auto simp: account_alone plan_accounting_def no_accounting_def
        split: sum.split option.split)
  ultimately show ?thesis
    using assms(1-4) by (auto simp: account_goal_usage_def Let_def split: option.split prod.split) (metis prod.inject)+
qed

section \<open>The rows stay well formed\<close>

lemma command_parts_goals_ok:
  assumes "goals_ok db"
  shows "goals_ok (snd (tui_view env db))" "goals_ok (snd (tui_clear env sid cur db))"
    "goals_ok (snd (tui_pause env sid cur db))" "goals_ok (snd (tui_resume env sid cur db))"
    "goals_ok (snd (tui_edit env sid tail cur db))" "goals_ok (snd (tui_create env sid args db))"
    "goals_ok (snd (snd (daemon_edit env sid tail cur db)))" "goals_ok (snd (snd (daemon_create env sid args db)))"
proof -
  note steps = assms replace_goals_ok [OF assms] update_status_goals_ok [OF assms]
    update_objective_goals_ok [OF assms] delete_goals_ok [OF assms]
  show "goals_ok (snd (tui_view env db))" by (simp add: tui_view_def steps split: sum.split)
  show "goals_ok (snd (tui_clear env sid cur db))"
    by (simp add: tui_clear_def case_prod_unfold steps split: option.split)
  show "goals_ok (snd (tui_pause env sid cur db))"
    by (simp add: tui_pause_def case_prod_unfold steps split: option.split)
  show "goals_ok (snd (tui_resume env sid cur db))"
    by (simp add: tui_resume_def case_prod_unfold steps split: option.split)
  show "goals_ok (snd (tui_edit env sid tail cur db))"
    by (simp add: tui_edit_def case_prod_unfold Let_def steps split: option.split)
  show "goals_ok (snd (tui_create env sid args db))"
    by (simp add: tui_create_def case_prod_unfold Let_def steps split: option.split)
  show "goals_ok (snd (snd (daemon_edit env sid tail cur db)))"
    by (simp add: daemon_edit_def accepted_def case_prod_unfold Let_def steps split: option.split)
  show "goals_ok (snd (snd (daemon_create env sid args db)))"
    by (simp add: daemon_create_def accepted_def case_prod_unfold Let_def steps split: option.split)
qed

lemma tui_goals_ok: "goals_ok db \<Longrightarrow> goals_ok (snd (cmd_goal_from env raw seen db))"
  by (simp add: cmd_goal_from_def Let_def command_parts_goals_ok split: sum.split)

lemma daemon_goals_ok: "goals_ok db \<Longrightarrow> goals_ok (snd (snd (execute_goal_builtin_from env raw seen db)))"
  by (simp add: execute_goal_builtin_from_def Let_def commands_agree [symmetric] command_parts_goals_ok split: sum.split)

text \<open>C28: Every row of the goal table is well formed after any sequence of commands, tool calls, accountings,
  failures and forks, however their reads and writes interleave and whatever statements of the database fail
  in between: it sits under its own thread id, its objective is within the size limit, its budget is positive
  and its counter is a 64-bit value.\<close>

theorem goal_rows_stay_well_formed:
  assumes "(\<lambda>d d'. \<exists>a seen. goal_move a seen d d')\<^sup>*\<^sup>* db db'" "goals_ok db"
  shows "goals_ok db'"
  using assms
proof (induction rule: rtranclp_induct)
  case (step d d')
  then have ok: "goals_ok d" by blast
  from step(2) obtain a seen where "goal_move a seen d d'" by blast
  then show ?case
  proof cases
    case (create_tool tenv args)
    with create_tool_effect [of tenv args seen d] ok show ?thesis by (auto simp: replace_goals_ok)
  next
    case (update_tool st target tenv)
    with update_tool_effect [of tenv target seen d] ok show ?thesis by (auto simp: update_status_goals_ok)
  next
    case (loop_stops out sid wall code r)
    from loop_stops(2) show ?thesis by (rule stop_effect) (simp add: update_status_goals_ok ok)
  qed (use ok in \<open>auto intro: tui_goals_ok daemon_goals_ok inv_steps\<close>)
qed

section \<open>Concrete runs\<close>

definition sample_cmd_env :: goal_cmd_env where
  "sample_cmd_env = \<lparr>gc_manager = True, gc_store = True, gc_session = ''t'', gc_ensured_session = ''t'',
     gc_sql = (\<lambda>_. SqlOk), gc_new_id = ''g2'', gc_now = 9\<rparr>"

definition paused_goal_db :: goal_db where
  "paused_goal_db = put_row ''t'' (Some (sample_goal\<lparr>tg_status := GoalPaused\<rparr>)) sample_goal_db"

lemma goal_commands_agree_witness:
  "snd (cmd_goal sample_cmd_env ''--tokens 5k ship it'' sample_goal_db) =
   snd (snd (execute_goal_builtin sample_cmd_env ''--tokens 5k ship it'' sample_goal_db))"
proof (rule goal_commands_agree)
  fix w
  assume "budget_word ''--tokens 5k ship it'' = Some w \<or>
    budget_word (rest_words (trim_by is_space ''--tokens 5k ship it'')) = Some w"
  moreover have "budget_word ''--tokens 5k ship it'' = Some ''5k''" by code_simp
  moreover have "budget_word (rest_words (trim_by is_space ''--tokens 5k ship it'')) = None" by code_simp
  moreover have "plain_budget ''5k''" by code_simp
  ultimately show "plain_budget w" by auto
qed

text \<open>The user pauses between the loop's read and its write.\<close>

theorem model_and_loop_keep_goals_witness:
  "\<exists>g'. db_rows (snd (account_usage_from (\<lambda>_. SqlOk) 9 ''t'' ''g'' 1 0 False sample_goal_db paused_goal_db)) ''t'' =
     Some g' \<and> tg_objective g' = ''ship'' \<and> tg_token_budget g' = Some 100"
proof -
  let ?p = "sample_goal\<lparr>tg_status := GoalPaused\<rparr>"
  have "db_rows paused_goal_db ''t'' = Some ?p" by (simp add: paused_goal_db_def)
  from model_and_loop_keep_goals [OF accounts [of Loop sample_goal_db _ "\<lambda>_. SqlOk" 9 "''t''" "''g''" 1 0 False] _ this]
  have "\<exists>g'. db_rows (snd (account_usage_from (\<lambda>_. SqlOk) 9 ''t'' ''g'' 1 0 False sample_goal_db paused_goal_db)) ''t'' =
     Some g' \<and> tg_objective g' = tg_objective ?p \<and> tg_token_budget g' = tg_token_budget ?p" by blast
  then show ?thesis by (simp add: sample_goal_def)
qed

theorem goals_start_with_tokens_left_witness:
  "\<exists>g'. db_rows (snd (cmd_goal sample_cmd_env ''resume'' paused_goal_db)) ''t'' = Some g' \<and>
     tg_status g' = GoalActive \<and> tg_tokens_used g' < 100"
proof -
  let ?g = "sample_goal\<lparr>tg_status := GoalActive, tg_updated_at := 9\<rparr>"
  have r: "db_rows (snd (cmd_goal_from sample_cmd_env ''resume'' paused_goal_db paused_goal_db)) ''t'' = Some ?g"
    by code_simp
  have s: "tg_status ?g = GoalActive" "tg_token_budget ?g = Some 100" by code_simp+
  have "\<nexists>g. db_rows paused_goal_db ''t'' = Some g \<and> tg_goal_id g = tg_goal_id ?g \<and> tg_status g = GoalActive"
    by (simp add: paused_goal_db_def)
  from goals_start_with_tokens_left [OF terminal_command r s(1) this] s(2) have "tg_tokens_used ?g < 100" by blast
  with r s show ?thesis unfolding cmd_goal_def by blast
qed

theorem goal_rows_stay_well_formed_witness:
  "goals_ok (snd (cmd_goal sample_cmd_env ''resume'' paused_goal_db))"
proof -
  have "goals_ok sample_goal_db"
    unfolding goals_ok_def
  proof (intro allI impI)
    fix t g assume "db_rows sample_goal_db t = Some g"
    then have "t = ''t''" "g = sample_goal" by (auto simp: db_rows_def sample_goal_db_def split: if_splits)
    then show "goal_row_ok t g" by (simp add: goal_row_ok_def sample_goal_def max_objective_bytes_def)
  qed
  moreover have "goal_row_ok ''t'' (sample_goal\<lparr>tg_status := GoalPaused\<rparr>)"
    by (simp add: goal_row_ok_def sample_goal_def max_objective_bytes_def)
  ultimately have "goals_ok paused_goal_db" unfolding paused_goal_db_def by (intro goals_ok_put) simp_all
  moreover have "(\<lambda>d d'. \<exists>a seen. goal_move a seen d d')\<^sup>*\<^sup>* paused_goal_db (snd (cmd_goal sample_cmd_env ''resume'' paused_goal_db))"
    unfolding cmd_goal_def by (intro r_into_rtranclp exI) (rule terminal_command)
  ultimately show ?thesis by (rule goal_rows_stay_well_formed [rotated])
qed

end
