(* ===== verification/SessionCodec.thy ===== *)
theory SessionCodec
  imports HistoryRecovery
begin

text \<open>
  What a session file holds of a conversation and how the history for the model is rebuilt from it:
  \<open>session/session_serializer.cpp\<close> (one JSON line per message) and \<open>session/compact_checkpoint.cpp\<close>
  (checkpoints that replace everything before them).  Printing and parsing JSON text belong to the library
  and are parameters.  The library throws when \<open>value(key, default)\<close> meets a value of another type; such
  files are outside the model, which reads the default there.
\<close>

section \<open>Reading values\<close>

definition value_bool :: "json \<Rightarrow> string \<Rightarrow> bool \<Rightarrow> bool" where
  "value_bool j k d = (case field j k of Some (JBool b) \<Rightarrow> b | _ \<Rightarrow> d)"

definition value_int :: "json \<Rightarrow> string \<Rightarrow> int \<Rightarrow> int" where
  "value_int j k d = (case field j k of Some (JInt i) \<Rightarrow> wrap_signed 32 i | _ \<Rightarrow> d)"

definition value_str :: "json \<Rightarrow> string \<Rightarrow> string \<Rightarrow> string" where
  "value_str j k d = (case field j k of Some (JStr s) \<Rightarrow> s | _ \<Rightarrow> d)"

text \<open>\<open>json::empty\<close>.\<close>

fun json_empty :: "json \<Rightarrow> bool" where
  "json_empty JNull = True"
| "json_empty (JArr xs) = (xs = [])"
| "json_empty (JObj m) = (m = [])"
| "json_empty _ = False"

fun is_array :: "json \<Rightarrow> bool" where
  "is_array (JArr xs) = True"
| "is_array _ = False"

section \<open>One message\<close>

definition text_entry :: "string \<Rightarrow> string \<Rightarrow> (string \<times> json) list" where
  "text_entry k s = (if s \<noteq> [] then [(k, JStr s)] else [])"

definition flag_entry :: "string \<Rightarrow> bool \<Rightarrow> (string \<times> json) list" where
  "flag_entry k b = (if b then [(k, JBool True)] else [])"

text \<open>The object before it is printed, and the message read from a parsed object.\<close>

definition message_object :: "chat_message \<Rightarrow> json" where
  "message_object m =
     JObj ([(''role'', JStr (role m))] @ text_entry ''content'' (content m) @
       (if is_array (content_parts m) \<and> \<not> json_empty (content_parts m) then [(''content_parts'', content_parts m)] else []) @
       (if json_empty (tool_calls m) then []
        else case tool_calls m of
          JObj call \<Rightarrow> [(''tool_calls'', JArr [JObj call])]
        | JArr calls \<Rightarrow> [(''tool_calls'', JArr calls)]
        | _ \<Rightarrow> []) @
       text_entry ''tool_call_id'' (tool_call_id m) @ text_entry ''reasoning_content'' (reasoning_content m) @
       text_entry ''uuid'' (uuid m) @ text_entry ''subtype'' (subtype m) @ text_entry ''timestamp'' (timestamp m) @
       flag_entry ''is_meta'' (is_meta m) @ flag_entry ''is_compact_summary'' (is_compact_summary m) @
       (if json_empty (metadata m) then [] else [(''metadata'', metadata m)]))"

definition read_tool_calls :: "json option \<Rightarrow> json" where
  "read_tool_calls v =
     (case v of
        Some (JArr calls) \<Rightarrow> JArr calls
      | Some (JObj call) \<Rightarrow> JArr [JObj call]
      | _ \<Rightarrow> JNull)"

definition message_of_object :: "json \<Rightarrow> chat_message" where
  "message_of_object j =
     \<lparr>role = value_str j ''role'' [], content = value_str j ''content'' [],
      content_parts = (case field j ''content_parts'' of Some (JArr ps) \<Rightarrow> JArr ps | _ \<Rightarrow> JNull),
      tool_calls = read_tool_calls (field j ''tool_calls''),
      tool_call_id = value_str j ''tool_call_id'' [], reasoning_content = value_str j ''reasoning_content'' [],
      uuid = value_str j ''uuid'' [], subtype = value_str j ''subtype'' [], timestamp = value_str j ''timestamp'' [],
      is_meta = value_bool j ''is_meta'' False, is_compact_summary = value_bool j ''is_compact_summary'' False,
      metadata = (case field j ''metadata'' of Some (JObj m) \<Rightarrow> JObj m | _ \<Rightarrow> JNull), display_override = []\<rparr>"

definition serialize_message :: "(json \<Rightarrow> string) \<Rightarrow> chat_message \<Rightarrow> string" where
  "serialize_message dump m = dump (message_object m)"

text \<open>\<open>None\<close> is the parse error of the library.\<close>

definition deserialize_message :: "(string \<Rightarrow> json option) \<Rightarrow> string \<Rightarrow> chat_message option" where
  "deserialize_message parse line = map_option message_of_object (parse line)"

section \<open>Checkpoints\<close>

record compact_checkpoint =
  cc_version :: int
  cc_id :: string
  cc_timestamp :: string
  cc_trigger :: string
  cc_summary :: string
  cc_messages_compressed :: int
  cc_tokens_saved :: int
  cc_pre_tokens :: int
  cc_post_tokens :: int
  cc_window_number :: nat
  cc_first_window_id :: string
  cc_previous_window_id :: string
  cc_window_id :: string
  cc_replacement_history :: "chat_message list"

definition checkpoint_subtype :: string where "checkpoint_subtype = ''compact_checkpoint''"

definition is_compact_checkpoint_message :: "chat_message \<Rightarrow> bool" where
  "is_compact_checkpoint_message m \<longleftrightarrow> is_meta m \<and> subtype m = checkpoint_subtype"

definition message_to_json :: "(json \<Rightarrow> string) \<Rightarrow> (string \<Rightarrow> json option) \<Rightarrow> chat_message \<Rightarrow> json" where
  "message_to_json dump parse m = (case parse (serialize_message dump m) of Some j \<Rightarrow> j | None \<Rightarrow> JNull)"

definition message_from_json :: "(json \<Rightarrow> string) \<Rightarrow> (string \<Rightarrow> json option) \<Rightarrow> json \<Rightarrow> chat_message option" where
  "message_from_json dump parse j = (if is_object j then deserialize_message parse (dump j) else None)"

definition encode_compact_checkpoint ::
  "(json \<Rightarrow> string) \<Rightarrow> (string \<Rightarrow> json option) \<Rightarrow> string \<Rightarrow> string \<Rightarrow> compact_checkpoint \<Rightarrow> chat_message" where
  "encode_compact_checkpoint dump parse new_uuid now c =
     (let i = (if cc_id c = [] then new_uuid else cc_id c); t = (if cc_timestamp c = [] then now else cc_timestamp c)
      in empty_message\<lparr>role := ''system'', content := ''[Compact checkpoint]'', uuid := i, subtype := checkpoint_subtype,
           timestamp := t, is_meta := True,
           metadata := JObj
             [(''version'', JInt (cc_version c)), (''id'', JStr i), (''timestamp'', JStr t),
              (''trigger'', JStr (cc_trigger c)), (''summary'', JStr (cc_summary c)),
              (''messages_compressed'', JInt (cc_messages_compressed c)),
              (''estimated_tokens_saved'', JInt (cc_tokens_saved c)),
              (''pre_tokens'', JInt (cc_pre_tokens c)), (''post_tokens'', JInt (cc_post_tokens c)),
              (''window_number'', JInt (int (cc_window_number c))),
              (''first_window_id'', JStr (cc_first_window_id c)),
              (''previous_window_id'', JStr (cc_previous_window_id c)), (''window_id'', JStr (cc_window_id c)),
              (''replacement_history'', JArr (map (message_to_json dump parse) (cc_replacement_history c)))]\<rparr>)"

fun all_or_none :: "'a option list \<Rightarrow> 'a list option" where
  "all_or_none [] = Some []"
| "all_or_none (None # xs) = None"
| "all_or_none (Some x # xs) = map_option (Cons x) (all_or_none xs)"

text \<open>A window number is read as an unsigned 64-bit number; a negative one counts as 0.\<close>

definition window_number_of :: "json \<Rightarrow> nat" where
  "window_number_of j = (case field j ''window_number'' of Some (JInt i) \<Rightarrow> nat i | _ \<Rightarrow> 0)"

definition decode_compact_checkpoint ::
  "(json \<Rightarrow> string) \<Rightarrow> (string \<Rightarrow> json option) \<Rightarrow> chat_message \<Rightarrow> compact_checkpoint option" where
  "decode_compact_checkpoint dump parse m =
     (if \<not> is_compact_checkpoint_message m \<or> \<not> is_object (metadata m) then None
      else case field (metadata m) ''replacement_history'' of
        Some (JArr items) \<Rightarrow>
          map_option (\<lambda>history.
            \<lparr>cc_version = value_int (metadata m) ''version'' 1, cc_id = value_str (metadata m) ''id'' (uuid m),
             cc_timestamp = value_str (metadata m) ''timestamp'' (timestamp m),
             cc_trigger = value_str (metadata m) ''trigger'' [], cc_summary = value_str (metadata m) ''summary'' [],
             cc_messages_compressed = value_int (metadata m) ''messages_compressed'' 0,
             cc_tokens_saved = value_int (metadata m) ''estimated_tokens_saved'' 0,
             cc_pre_tokens = value_int (metadata m) ''pre_tokens'' 0,
             cc_post_tokens = value_int (metadata m) ''post_tokens'' 0,
             cc_window_number = window_number_of (metadata m),
             cc_first_window_id = value_str (metadata m) ''first_window_id'' [],
             cc_previous_window_id = value_str (metadata m) ''previous_window_id'' [],
             cc_window_id = value_str (metadata m) ''window_id'' [], cc_replacement_history = history\<rparr>)
            (all_or_none (map (message_from_json dump parse) items))
      | _ \<Rightarrow> None)"

section \<open>The history for the model\<close>

definition is_transcript_only_message :: "chat_message \<Rightarrow> bool" where
  "is_transcript_only_message m \<longleftrightarrow> is_object (metadata m) \<and> value_bool (metadata m) ''transcript_only'' False"

definition is_provider_role :: "string \<Rightarrow> bool" where
  "is_provider_role r \<longleftrightarrow> r = ''system'' \<or> r = ''user'' \<or> r = ''assistant'' \<or> r = ''tool''"

definition provider_relevant :: "chat_message \<Rightarrow> bool" where
  "provider_relevant m \<longleftrightarrow> \<not> is_compact_checkpoint_message m \<and> \<not> is_meta m \<and> \<not> is_transcript_only_message m \<and>
     is_provider_role (role m)"

definition provider_relevant_messages :: "chat_message list \<Rightarrow> chat_message list" where
  "provider_relevant_messages ms = filter provider_relevant ms"

text \<open>The backward search: the last checkpoint that can be read, and the rows after it.\<close>

fun last_checkpoint ::
  "(chat_message \<Rightarrow> compact_checkpoint option) \<Rightarrow> chat_message list \<Rightarrow> chat_message list \<Rightarrow>
     (compact_checkpoint \<times> chat_message list) option" where
  "last_checkpoint decode [] rest = None"
| "last_checkpoint decode (m # before) rest =
     (case decode m of Some c \<Rightarrow> Some (c, rest) | None \<Rightarrow> last_checkpoint decode before (m # rest))"

text \<open>The forward walk over those rows.\<close>

definition replay_row :: "(chat_message \<Rightarrow> compact_checkpoint option) \<Rightarrow> chat_message \<Rightarrow> chat_message list \<Rightarrow> chat_message list" where
  "replay_row decode m effective =
     (if is_compact_checkpoint_message m
      then case decode m of Some c \<Rightarrow> cc_replacement_history c | None \<Rightarrow> effective
      else effective @ provider_relevant_messages [m])"

definition reconstruct_with_recovery ::
  "(chat_message \<Rightarrow> compact_checkpoint option) \<Rightarrow> chat_message list \<Rightarrow> chat_message list \<times> recovery_stats" where
  "reconstruct_with_recovery decode raw =
     (case last_checkpoint decode (rev raw) [] of
        None \<Rightarrow> recover_provider_history (provider_relevant_messages raw)
      | Some (c, rest) \<Rightarrow> recover_provider_history (fold (replay_row decode) rest (cc_replacement_history c)))"

definition reconstruct_effective_model_history ::
  "(chat_message \<Rightarrow> compact_checkpoint option) \<Rightarrow> chat_message list \<Rightarrow> chat_message list" where
  "reconstruct_effective_model_history decode raw = fst (reconstruct_with_recovery decode raw)"

section \<open>A message survives the file\<close>

text \<open>What is kept: an empty list of parts or of calls and an empty metadata value come back as null, a
  single call as a list, and the text for the terminal is not stored.\<close>

definition stored_message :: "chat_message \<Rightarrow> chat_message" where
  "stored_message m = m\<lparr>
     content_parts := (case content_parts m of JArr (p # ps) \<Rightarrow> JArr (p # ps) | _ \<Rightarrow> JNull),
     tool_calls := (case tool_calls m of JArr (c # cs) \<Rightarrow> JArr (c # cs) | JObj (f # fs) \<Rightarrow> JArr [JObj (f # fs)] | _ \<Rightarrow> JNull),
     metadata := (case metadata m of JObj (e # es) \<Rightarrow> JObj (e # es) | _ \<Rightarrow> JNull),
     display_override := []\<rparr>"

lemma map_of_entries [simp]:
  "map_of (text_entry k s) k' = (if k' = k \<and> s \<noteq> [] then Some (JStr s) else None)"
  "map_of (flag_entry k b) k' = (if k' = k \<and> b then Some (JBool True) else None)"
  by (auto simp: text_entry_def flag_entry_def)

lemma stored_fields [simp]:
  "role (stored_message m) = role m" "content (stored_message m) = content m"
  "tool_call_id (stored_message m) = tool_call_id m" "reasoning_content (stored_message m) = reasoning_content m"
  "is_meta (stored_message m) = is_meta m" "subtype (stored_message m) = subtype m"
  by (simp_all add: stored_message_def)

lemma stored_idem: "stored_message (stored_message m) = stored_message m"
  by (auto simp: stored_message_def split: json.split list.split)

lemma message_entries:
  "value_str (message_object m) ''role'' [] = role m" "value_str (message_object m) ''content'' [] = content m"
  "value_str (message_object m) ''tool_call_id'' [] = tool_call_id m"
  "value_str (message_object m) ''reasoning_content'' [] = reasoning_content m"
  "value_str (message_object m) ''uuid'' [] = uuid m" "value_str (message_object m) ''subtype'' [] = subtype m"
  "value_str (message_object m) ''timestamp'' [] = timestamp m"
  "value_bool (message_object m) ''is_meta'' False = is_meta m"
  "value_bool (message_object m) ''is_compact_summary'' False = is_compact_summary m"
  by (auto simp: message_object_def value_str_def value_bool_def map_add_def split: json.split)

lemma message_parts:
  "field (message_object m) ''content_parts'' =
     (if is_array (content_parts m) \<and> \<not> json_empty (content_parts m) then Some (content_parts m) else None)"
  "field (message_object m) ''tool_calls'' =
     (if json_empty (tool_calls m) then None
      else case tool_calls m of JObj call \<Rightarrow> Some (JArr [JObj call]) | JArr calls \<Rightarrow> Some (JArr calls) | _ \<Rightarrow> None)"
  "field (message_object m) ''metadata'' = (if json_empty (metadata m) then None else Some (metadata m))"
  by (auto simp: message_object_def map_add_def split: json.split)

lemma message_object_roundtrip: "message_of_object (message_object m) = stored_message m"
proof -
  have "(case field (message_object m) ''content_parts'' of Some (JArr ps) \<Rightarrow> JArr ps | _ \<Rightarrow> JNull) =
      (case content_parts m of JArr (p # ps) \<Rightarrow> JArr (p # ps) | _ \<Rightarrow> JNull)"
    by (auto simp: message_parts split: json.split list.split)
  moreover have "read_tool_calls (field (message_object m) ''tool_calls'') =
      (case tool_calls m of JArr (c # cs) \<Rightarrow> JArr (c # cs) | JObj (f # fs) \<Rightarrow> JArr [JObj (f # fs)] | _ \<Rightarrow> JNull)"
    by (auto simp: message_parts read_tool_calls_def split: json.split list.split)
  moreover have "(case field (message_object m) ''metadata'' of Some (JObj e) \<Rightarrow> JObj e | _ \<Rightarrow> JNull) =
      (case metadata m of JObj (e # es) \<Rightarrow> JObj (e # es) | _ \<Rightarrow> JNull)"
    by (auto simp: message_parts split: json.split list.split)
  ultimately show ?thesis
    by (simp add: message_of_object_def message_entries stored_message_def)
qed

text \<open>The library reads back what it printed of these messages.\<close>

definition reads_back :: "(json \<Rightarrow> string) \<Rightarrow> (string \<Rightarrow> json option) \<Rightarrow> chat_message list \<Rightarrow> bool" where
  "reads_back dump parse ms \<longleftrightarrow> (\<forall>m\<in>set ms. parse (dump (message_object m)) = Some (message_object m))"

lemma message_json:
  assumes "reads_back dump parse ms" "m \<in> set ms"
  shows "message_to_json dump parse m = message_object m"
    "message_from_json dump parse (message_object m) = Some (stored_message m)"
    "deserialize_message parse (serialize_message dump m) = Some (stored_message m)"
  using assms
  by (simp_all add: message_to_json_def serialize_message_def reads_back_def message_from_json_def
      deserialize_message_def message_object_roundtrip) (simp add: message_object_def message_object_roundtrip)

lemma all_or_none_map: "(\<And>x. x \<in> set xs \<Longrightarrow> f x = Some (g x)) \<Longrightarrow> all_or_none (map f xs) = Some (map g xs)"
  by (induction xs) auto

section \<open>A checkpoint survives the file\<close>

definition checkpoint_numbers_ok :: "compact_checkpoint \<Rightarrow> bool" where
  "checkpoint_numbers_ok c \<longleftrightarrow> (\<forall>i \<in> {cc_version c, cc_messages_compressed c, cc_tokens_saved c, cc_pre_tokens c, cc_post_tokens c}.
     int32_min \<le> i \<and> i \<le> int32_max)"

lemma checkpoint_message_fields [simp]:
  "is_compact_checkpoint_message (encode_compact_checkpoint dump parse u now c)"
  "role (encode_compact_checkpoint dump parse u now c) = ''system''"
  "\<not> provider_relevant (encode_compact_checkpoint dump parse u now c)"
  by (simp_all add: encode_compact_checkpoint_def Let_def is_compact_checkpoint_message_def provider_relevant_def)

lemma decode_encode_checkpoint:
  assumes "reads_back dump parse (cc_replacement_history c)" "checkpoint_numbers_ok c"
  shows "decode_compact_checkpoint dump parse (encode_compact_checkpoint dump parse u now c) =
    Some (c\<lparr>cc_id := (if cc_id c = [] then u else cc_id c), cc_timestamp := (if cc_timestamp c = [] then now else cc_timestamp c),
            cc_replacement_history := map stored_message (cc_replacement_history c)\<rparr>)"
proof -
  let ?m = "encode_compact_checkpoint dump parse u now c"
  have "all_or_none (map (message_from_json dump parse) (map (message_to_json dump parse) (cc_replacement_history c))) =
      Some (map stored_message (cc_replacement_history c))"
    by (subst map_map, rule all_or_none_map) (simp add: message_json [OF assms(1)])
  moreover have "field (metadata ?m) ''replacement_history'' =
      Some (JArr (map (message_to_json dump parse) (cc_replacement_history c)))" "is_object (metadata ?m)"
    by (simp_all add: encode_compact_checkpoint_def Let_def)
  moreover have "is_compact_checkpoint_message ?m" by simp
  ultimately have "decode_compact_checkpoint dump parse ?m = Some
      \<lparr>cc_version = value_int (metadata ?m) ''version'' 1, cc_id = value_str (metadata ?m) ''id'' (uuid ?m),
       cc_timestamp = value_str (metadata ?m) ''timestamp'' (timestamp ?m),
       cc_trigger = value_str (metadata ?m) ''trigger'' [], cc_summary = value_str (metadata ?m) ''summary'' [],
       cc_messages_compressed = value_int (metadata ?m) ''messages_compressed'' 0,
       cc_tokens_saved = value_int (metadata ?m) ''estimated_tokens_saved'' 0,
       cc_pre_tokens = value_int (metadata ?m) ''pre_tokens'' 0, cc_post_tokens = value_int (metadata ?m) ''post_tokens'' 0,
       cc_window_number = window_number_of (metadata ?m),
       cc_first_window_id = value_str (metadata ?m) ''first_window_id'' [],
       cc_previous_window_id = value_str (metadata ?m) ''previous_window_id'' [],
       cc_window_id = value_str (metadata ?m) ''window_id'' [],
       cc_replacement_history = map stored_message (cc_replacement_history c)\<rparr>"
    by (simp add: decode_compact_checkpoint_def)
  also have "\<dots> = Some (c\<lparr>cc_id := (if cc_id c = [] then u else cc_id c),
      cc_timestamp := (if cc_timestamp c = [] then now else cc_timestamp c),
      cc_replacement_history := map stored_message (cc_replacement_history c)\<rparr>)"
    using assms(2)
    by (simp add: encode_compact_checkpoint_def Let_def value_int_def value_str_def window_number_of_def
        checkpoint_numbers_ok_def)
  finally show ?thesis .
qed

section \<open>Rebuilding the history\<close>

lemma last_checkpoint_append:
  "(\<And>m. m \<in> set xs \<Longrightarrow> decode m = None) \<Longrightarrow> last_checkpoint decode (xs @ ys) rest = last_checkpoint decode ys (rev xs @ rest)"
  by (induction xs arbitrary: rest) auto

lemma replay_plain_rows:
  "(\<And>m. m \<in> set rows \<Longrightarrow> decode m = None) \<Longrightarrow>
     fold (replay_row decode) rows effective = effective @ provider_relevant_messages rows"
proof (induction rows arbitrary: effective)
  case (Cons m rows)
  then have "fold (replay_row decode) rows e = e @ provider_relevant_messages rows" for e by simp
  moreover have "replay_row decode m effective = effective @ provider_relevant_messages [m]"
    using Cons.prems by (simp add: replay_row_def provider_relevant_messages_def provider_relevant_def)
  moreover have "provider_relevant_messages (m # rows) = provider_relevant_messages [m] @ provider_relevant_messages rows"
    by (simp add: provider_relevant_messages_def)
  ultimately show ?case by simp
qed (simp add: provider_relevant_messages_def)

lemma history_after_checkpoint:
  assumes "reads_back dump parse (cc_replacement_history c)" "checkpoint_numbers_ok c"
    and "\<And>m. m \<in> set later \<Longrightarrow> \<not> is_compact_checkpoint_message m"
  shows "reconstruct_effective_model_history (decode_compact_checkpoint dump parse)
      (earlier @ encode_compact_checkpoint dump parse u now c # later) =
    fst (recover_provider_history (map stored_message (cc_replacement_history c) @ provider_relevant_messages later))"
proof -
  let ?decode = "decode_compact_checkpoint dump parse"
  have none: "m \<in> set later \<Longrightarrow> ?decode m = None" for m
    using assms(3) by (simp add: decode_compact_checkpoint_def)
  have "last_checkpoint ?decode (rev (earlier @ encode_compact_checkpoint dump parse u now c # later)) [] =
      last_checkpoint ?decode (encode_compact_checkpoint dump parse u now c # rev earlier) later"
    using last_checkpoint_append [of "rev later" ?decode] none by simp
  then show ?thesis
    using decode_encode_checkpoint [OF assms(1,2), of u now] replay_plain_rows [of later ?decode, OF none]
    by (simp add: reconstruct_effective_model_history_def reconstruct_with_recovery_def)
qed

text \<open>C16: A session that is loaded again continues from its last checkpoint.  Whatever was recorded before
  it, the history for the model is what the checkpoint replaced it with, as the file keeps it, followed by
  the rows recorded after it that are meant for the model; the recovery then only repairs that list.\<close>

theorem history_resumes_at_last_checkpoint:
  assumes "reads_back dump parse (cc_replacement_history c)" "checkpoint_numbers_ok c"
    and "\<And>m. m \<in> set later \<Longrightarrow> \<not> is_compact_checkpoint_message m"
  shows "reconstruct_effective_model_history (decode_compact_checkpoint dump parse)
      (earlier @ encode_compact_checkpoint dump parse u now c # later) =
    fst (recover_provider_history (map stored_message (cc_replacement_history c) @ provider_relevant_messages later))"
  by (rule history_after_checkpoint [OF assms])

text \<open>Without a checkpoint it is the recorded rows.\<close>

lemma history_without_checkpoint:
  "(\<And>m. m \<in> set raw \<Longrightarrow> decode m = None) \<Longrightarrow>
     reconstruct_effective_model_history decode raw = fst (recover_provider_history (provider_relevant_messages raw))"
  using last_checkpoint_append [of "rev raw" decode "[]" "[]"]
  by (simp add: reconstruct_effective_model_history_def reconstruct_with_recovery_def)

section \<open>A concrete file\<close>

definition sample_checkpoint :: compact_checkpoint where
  "sample_checkpoint = \<lparr>cc_version = 2, cc_id = ''k'', cc_timestamp = ''now'', cc_trigger = ''auto'', cc_summary = ''s'',
     cc_messages_compressed = 3, cc_tokens_saved = 1, cc_pre_tokens = 9, cc_post_tokens = 8, cc_window_number = 1,
     cc_first_window_id = [], cc_previous_window_id = [], cc_window_id = ''w'',
     cc_replacement_history = [empty_message\<lparr>role := ''user'', content := ''summary''\<rparr>]\<rparr>"

theorem history_resumes_at_last_checkpoint_witness:
  "reconstruct_effective_model_history
     (decode_compact_checkpoint (\<lambda>_. ''x'') (\<lambda>_. Some (message_object (hd (cc_replacement_history sample_checkpoint)))))
     ([empty_message\<lparr>role := ''user'', content := ''old''\<rparr>] @
      encode_compact_checkpoint (\<lambda>_. ''x'') (\<lambda>_. Some (message_object (hd (cc_replacement_history sample_checkpoint)))) ''u'' ''n'' sample_checkpoint #
      [empty_message\<lparr>role := ''user'', content := ''new''\<rparr>]) =
   [empty_message\<lparr>role := ''user'', content := ''summary''\<rparr>, empty_message\<lparr>role := ''user'', content := ''new''\<rparr>]"
proof -
  let ?dump = "\<lambda>_ :: json. ''x''"
  let ?parse = "\<lambda>_ :: string. Some (message_object (hd (cc_replacement_history sample_checkpoint)))"
  have r: "reads_back ?dump ?parse (cc_replacement_history sample_checkpoint)"
    by (simp add: reads_back_def sample_checkpoint_def)
  have n: "checkpoint_numbers_ok sample_checkpoint" by (simp add: checkpoint_numbers_ok_def sample_checkpoint_def)
  have l: "m \<in> set [empty_message\<lparr>role := ''user'', content := ''new''\<rparr>] \<Longrightarrow> \<not> is_compact_checkpoint_message m" for m
    by (simp add: is_compact_checkpoint_message_def empty_message_def)
  have f: "fst (recover_provider_history (map stored_message (cc_replacement_history sample_checkpoint) @
      provider_relevant_messages [empty_message\<lparr>role := ''user'', content := ''new''\<rparr>])) =
     [empty_message\<lparr>role := ''user'', content := ''summary''\<rparr>, empty_message\<lparr>role := ''user'', content := ''new''\<rparr>]"
    by code_simp
  from history_resumes_at_last_checkpoint [OF r n l] f show ?thesis by (rule trans)
qed

end
