(* ===== verification/RetryPolicy.thy ===== *)
theory RetryPolicy
  imports Json
begin

text \<open>
  \<open>provider/retry_policy.cpp\<close>: which provider errors are tried again, what a \<open>Retry-After\<close> header means and
  how long to wait.  Parsing JSON, numbers (\<open>strtod\<close>) and dates (\<open>curl_getdate\<close>) are parameters.  The
  waiting itself (a condition variable) is left out.
\<close>

section \<open>Quota errors\<close>

definition trim_ascii :: "string \<Rightarrow> string" where
  "trim_ascii s = trim_by (\<lambda>c. c \<in> {CHR '' '', CHR 0x09, CHR 0x0D, CHR 0x0A}) s"

definition is_hard_quota_code :: "string \<Rightarrow> bool" where
  "is_hard_quota_code v \<longleftrightarrow>
     (let code = ascii_lower (trim_ascii v)
      in code = ''insufficient_quota'' \<or> code = ''billing_hard_limit_reached'' \<or> code = ''billing_not_active'' \<or>
         code = ''credit_balance_too_low'' \<or> code = ''hard_limit_reached'')"

definition quota_key :: "string \<Rightarrow> bool" where
  "quota_key k \<longleftrightarrow> (let key = ascii_lower k
     in key = ''code'' \<or> key = ''type'' \<or> key = ''error_code'' \<or> key = ''reason'')"

fun json_has_hard_quota_code :: "json \<Rightarrow> bool" and quota_entries :: "(string \<times> json) list \<Rightarrow> bool"
  and quota_items :: "json list \<Rightarrow> bool" where
  "json_has_hard_quota_code (JObj m) = quota_entries m"
| "json_has_hard_quota_code (JArr xs) = quota_items xs"
| "json_has_hard_quota_code _ = False"
| "quota_entries [] = False"
| "quota_entries ((k, v) # m) =
     ((quota_key k \<and> (case v of JStr s \<Rightarrow> is_hard_quota_code s | _ \<Rightarrow> False)) \<or>
      json_has_hard_quota_code v \<or> quota_entries m)"
| "quota_items [] = False"
| "quota_items (x # xs) = (json_has_hard_quota_code x \<or> quota_items xs)"

definition provider_error_body_has_hard_quota :: "(string \<Rightarrow> json option) \<Rightarrow> string \<Rightarrow> bool" where
  "provider_error_body_has_hard_quota parse body =
     (case parse body of Some j \<Rightarrow> json_has_hard_quota_code j | None \<Rightarrow> is_hard_quota_code body)"

definition retryable_statuses :: "int list" where
  "retryable_statuses = [408, 425, 429, 500, 502, 503, 504, 529]"

definition overload_texts :: "string list" where
  "overload_texts = [''overloaded_error'', [dquote] @ ''type'' @ [dquote] @ '':'' @ [dquote] @ ''overloaded'' @ [dquote],
     [dquote] @ ''type'' @ [dquote] @ '': '' @ [dquote] @ ''overloaded'' @ [dquote], ''server overloaded'']"

definition provider_http_error_is_retryable :: "(string \<Rightarrow> json option) \<Rightarrow> int \<Rightarrow> string \<Rightarrow> bool" where
  "provider_http_error_is_retryable parse status_code body =
     (if status_code = 429 \<and> provider_error_body_has_hard_quota parse body then False
      else if status_code \<in> set retryable_statuses then True
      else if 400 \<le> status_code \<and> status_code < 500 then False
      else contains_any (ascii_lower body) overload_texts)"

section \<open>Retry-After\<close>

text \<open>What \<open>strtod\<close> finds: the text is not a number, or one that is out of range, or a number of
  seconds, given as its whole milliseconds (and whether it is negative).\<close>

datatype seconds_text = NoNumber | NumberOutOfRange | NegativeSeconds | Milliseconds nat

text \<open>The bound \<open>INT64_MAX\<close> as a double is \<open>2 ^ 63\<close>.\<close>

definition parse_retry_after_ms :: "(string \<Rightarrow> seconds_text) \<Rightarrow> (string \<Rightarrow> int) \<Rightarrow> string \<Rightarrow> int \<Rightarrow> int option" where
  "parse_retry_after_ms strtod getdate v now =
     (let trimmed = trim_ascii v
      in if trimmed = [] then None
         else case strtod trimmed of
           NumberOutOfRange \<Rightarrow> None
         | NegativeSeconds \<Rightarrow> None
         | Milliseconds ms \<Rightarrow> if int ms > 2 ^ 63 then None else Some (int ms)
         | NoNumber \<Rightarrow>
             (let retry_at = getdate trimmed
              in if retry_at < 0 \<or> retry_at \<le> now then None
                 else if retry_at - now > int64_max div 1000 then None
                 else Some ((retry_at - now) * 1000)))"

section \<open>The delay\<close>

definition base_delay_ms :: int where "base_delay_ms = 1000"
definition max_delay_ms :: int where "max_delay_ms = 20 * 60 * 1000"

text \<open>The doubling loop.\<close>

fun double_delay :: "nat \<Rightarrow> int \<Rightarrow> int" where
  "double_delay 0 delay = delay"
| "double_delay (Suc n) delay =
     (if \<not> delay < max_delay_ms then delay
      else if delay > max_delay_ms div 2 then max_delay_ms
      else double_delay n (delay * 2))"

definition provider_retry_delay_ms :: "nat \<Rightarrow> int option \<Rightarrow> int" where
  "provider_retry_delay_ms retry_number server_delay =
     (case server_delay of
        Some d \<Rightarrow> if d \<ge> 0 then min d max_delay_ms
                  else min (double_delay (if retry_number > 0 then min (retry_number - 1) 63 else 0) base_delay_ms) max_delay_ms
      | None \<Rightarrow> min (double_delay (if retry_number > 0 then min (retry_number - 1) 63 else 0) base_delay_ms) max_delay_ms)"

definition saturating_retry_attempt :: "nat \<Rightarrow> int" where
  "saturating_retry_attempt retry_number = int (min retry_number (nat int32_max))"

section \<open>What they compute\<close>

lemma double_delay_exact: "0 \<le> d \<Longrightarrow> d \<le> max_delay_ms \<Longrightarrow> double_delay n d = min (d * 2 ^ n) max_delay_ms"
proof (induction n arbitrary: d)
  case (Suc n)
  have big: "max_delay_ms \<le> d * 2 ^ Suc n" if "max_delay_ms div 2 < d"
  proof -
    have "max_delay_ms \<le> d * 2 * 1" using that by (simp add: max_delay_ms_def)
    also have "d * 2 * 1 \<le> d * 2 * 2 ^ n" using Suc.prems(1) by (intro mult_left_mono) simp_all
    finally show ?thesis by (simp add: ac_simps)
  qed
  show ?case
  proof (cases "max_delay_ms div 2 < d")
    case True
    with big Suc.prems(2) show ?thesis by (auto simp: min_def)
  next
    case False
    then have "d * 2 \<le> max_delay_ms" "d < max_delay_ms" by (simp_all add: max_delay_ms_def)
    with False Suc.IH [of "d * 2"] Suc.prems(1) show ?thesis by (simp add: ac_simps)
  qed
qed (simp add: min_def)

text \<open>The waiting time between retries is the documented one: one second, doubled at each retry and
  never more than twenty minutes, for every retry number; a delay the server asks for replaces it and is
  capped at the same twenty minutes; it is never negative.\<close>

lemma retry_delay_doubles_to_cap:
  "provider_retry_delay_ms n server =
     (case server of
        Some d \<Rightarrow> if 0 \<le> d then min d 1200000 else min (1000 * 2 ^ (n - 1)) 1200000
      | None \<Rightarrow> min (1000 * 2 ^ (n - 1)) 1200000) \<and>
   0 \<le> provider_retry_delay_ms n server \<and> provider_retry_delay_ms n server \<le> 1200000"
proof -
  let ?k = "if n > 0 then min (n - 1) 63 else 0"
  have m: "max_delay_ms = 1200000" "base_delay_ms = 1000" by (simp_all add: max_delay_ms_def base_delay_ms_def)
  have "double_delay ?k base_delay_ms = min (1000 * 2 ^ ?k) 1200000"
    by (subst double_delay_exact) (simp_all add: m)
  also have "\<dots> = min (1000 * 2 ^ (n - 1)) 1200000"
  proof (cases "n - 1 \<le> 63")
    case False
    then have "(2 :: int) ^ 63 \<le> 2 ^ (n - 1)" by (intro power_increasing) simp_all
    with False show ?thesis by simp
  qed auto
  finally have d: "double_delay ?k base_delay_ms = min (1000 * 2 ^ (n - 1)) 1200000" .
  then show ?thesis
    by (cases "n = 0") (auto simp: provider_retry_delay_ms_def m min_def split: option.split)
qed

text \<open>Quota codes make a 429 final; other client errors are final whatever their text says.\<close>

lemma quota_error_is_final: "provider_error_body_has_hard_quota parse body \<Longrightarrow> \<not> provider_http_error_is_retryable parse 429 body"
  by (simp add: provider_http_error_is_retryable_def)

lemma client_error_is_final:
  "400 \<le> c \<Longrightarrow> c < 500 \<Longrightarrow> c \<notin> {408, 425, 429} \<Longrightarrow> \<not> provider_http_error_is_retryable parse c body"
  by (auto simp: provider_http_error_is_retryable_def retryable_statuses_def)

text \<open>At the limit the value does not fit the 64-bit result.\<close>

lemma retry_after_beyond_int64:
  "strtod v = Milliseconds (2 ^ 63) \<Longrightarrow> trim_ascii v = v \<Longrightarrow> v \<noteq> [] \<Longrightarrow>
     parse_retry_after_ms strtod getdate v now = Some (int64_max + 1)"
  by (simp add: parse_retry_after_ms_def)

end
