(* ===== verification/Compaction.thy ===== *)
theory Compaction
  imports SessionCodec RetryPolicy
begin

text \<open>
  \<open>commands/compact.cpp\<close>: the token estimates, when a conversation is compacted, the request that asks the
  model for a summary, and the history that replaces the conversation.  The provider is outside: what it
  answers, and when the user cancels, is given as a list of rounds; a run that still waits when the list
  ends has no result.  Printing JSON is a parameter.
\<close>

section \<open>Estimates\<close>

abbreviation size_max :: nat where "size_max \<equiv> 2 ^ 64 - 1"

definition message_payload_bytes :: "(json \<Rightarrow> string) \<Rightarrow> chat_message \<Rightarrow> nat" where
  "message_payload_bytes dump m =
     length (content m) + length (reasoning_content m) +
     (if is_array (content_parts m) \<and> \<not> json_empty (content_parts m) then length (dump (content_parts m)) else 0) +
     (if json_empty (tool_calls m) then 0 else length (dump (tool_calls m))) +
     length (tool_call_id m) + length (role m) + 16"

text \<open>The sum, or \<open>None\<close> when it leaves the size type.\<close>

fun sum_payload :: "(json \<Rightarrow> string) \<Rightarrow> nat \<Rightarrow> chat_message list \<Rightarrow> nat option" where
  "sum_payload dump acc [] = Some acc"
| "sum_payload dump acc (m # ms) =
     (if message_payload_bytes dump m > size_max \<or> acc > size_max - message_payload_bytes dump m then None
      else sum_payload dump (acc + message_payload_bytes dump m) ms)"

definition estimate_message_tokens :: "(json \<Rightarrow> string) \<Rightarrow> chat_message list \<Rightarrow> int" where
  "estimate_message_tokens dump ms =
     (case sum_payload dump 0 ms of
        None \<Rightarrow> int32_max
      | Some bytes \<Rightarrow>
          (let tokens = int (((bytes + 3) mod 2 ^ 64) div 4) in if tokens > int32_max then int32_max else tokens))"

definition approx_token_count :: "string \<Rightarrow> nat" where
  "approx_token_count text = (if length text > size_max - 3 then size_max else length text + 3) div 4"

section \<open>Truncation\<close>

definition is_utf8_continuation :: "char \<Rightarrow> bool" where
  "is_utf8_continuation c \<longleftrightarrow> 128 \<le> byte c \<and> byte c < 192"

definition ellipsis :: string where "ellipsis = map char_of [0xE2 :: nat, 0x80, 0xA6]"

definition truncation_marker :: "nat \<Rightarrow> string" where
  "truncation_marker removed_tokens = ellipsis @ show_nat removed_tokens @ '' tokens truncated'' @ ellipsis"

text \<open>The two scans to a character boundary.\<close>

fun prefix_boundary :: "string \<Rightarrow> nat \<Rightarrow> nat" where
  "prefix_boundary text 0 = 0"
| "prefix_boundary text (Suc p) =
     (if Suc p < length text \<and> is_utf8_continuation (text ! Suc p) then prefix_boundary text p else Suc p)"

function suffix_boundary :: "string \<Rightarrow> nat \<Rightarrow> nat" where
  "suffix_boundary text s =
     (if s < length text \<and> is_utf8_continuation (text ! s) then suffix_boundary text (Suc s) else s)"
  by pat_completeness auto
termination by (relation "measure (\<lambda>(text, s). length text - s)") auto

declare suffix_boundary.simps [simp del]

definition truncate_text_to_token_budget :: "string \<Rightarrow> nat \<Rightarrow> string" where
  "truncate_text_to_token_budget text max_tokens =
     (if text = [] then []
      else let max_bytes = (if max_tokens > size_max div 4 then size_max else max_tokens * 4)
        in if max_tokens > 0 \<and> length text \<le> max_bytes then text
           else if max_bytes = 0 then truncation_marker (approx_token_count text)
           else let left_budget = max_bytes div 2; right_budget = max_bytes - left_budget;
                    prefix_end = prefix_boundary text (min left_budget (length text));
                    suffix_start0 = suffix_boundary text
                      (if length text > right_budget then length text - right_budget else 0);
                    suffix_start = (if suffix_start0 < prefix_end then prefix_end else suffix_start0);
                    removed_bytes = (if length text > max_bytes then length text - max_bytes else 0)
             in take prefix_end text @ truncation_marker ((removed_bytes + 3) div 4) @ drop suffix_start text)"

section \<open>The user's own messages\<close>

definition internal_context_keys :: "string list" where
  "internal_context_keys =
     [''transcript_only'', ''hidden_goal_context'', ''hidden_plan_mode_context'', ''hidden_todo_context'',
      ''hidden_hook_stop_continuation'', ''compact_initial_context'']"

definition has_internal_user_context_metadata :: "chat_message \<Rightarrow> bool" where
  "has_internal_user_context_metadata m \<longleftrightarrow>
     is_object (metadata m) \<and> list_ex (\<lambda>k. value_bool (metadata m) k False) internal_context_keys"

definition compact_summary_prefix :: string where
  "compact_summary_prefix =
     ''Another language model started to solve this problem and produced a summary of its thinking process. '' @
     ''You also have access to the state of the tools that were used by that language model. '' @
     ''Use this to build on the work that has already been done and avoid duplicating work. '' @
     ''Here is the summary produced by the other language model, use the information in this summary '' @
     ''to assist with your own analysis:''"

abbreviation newline :: char where "newline \<equiv> CHR 0x0A"

definition compact_user_summary_message :: "string \<Rightarrow> string" where
  "compact_user_summary_message summary_text = compact_summary_prefix @ [newline] @ summary_text"

definition is_compact_summary_message :: "chat_message \<Rightarrow> bool" where
  "is_compact_summary_message m \<longleftrightarrow> is_compact_summary m \<or>
     take (length (compact_summary_prefix @ [newline])) (content m) = compact_summary_prefix @ [newline]"

definition is_real_user_message :: "chat_message \<Rightarrow> bool" where
  "is_real_user_message m \<longleftrightarrow> role m = ''user'' \<and> \<not> is_meta m \<and>
     \<not> has_internal_user_context_metadata m \<and> \<not> is_compact_summary_message m"

section \<open>The compacted history\<close>

definition retained_user_message :: "chat_message \<Rightarrow> string \<Rightarrow> chat_message" where
  "retained_user_message m text =
     m\<lparr>role := ''user'', content := text, content_parts := JArr [], tool_calls := JNull, tool_call_id := [],
       reasoning_content := [], subtype := [], is_meta := False, is_compact_summary := False\<rparr>"

text \<open>From the newest message backwards; the newest comes first.\<close>

fun select_user_messages :: "nat \<Rightarrow> chat_message list \<Rightarrow> chat_message list" where
  "select_user_messages remaining [] = []"
| "select_user_messages remaining (m # older) =
     (if \<not> is_real_user_message m then select_user_messages remaining older
      else if remaining = 0 then []
      else if approx_token_count (content m) \<le> remaining
      then retained_user_message m (content m) #
        select_user_messages (remaining - approx_token_count (content m)) older
      else retained_user_message m (truncate_text_to_token_budget (content m) remaining) #
        select_user_messages 0 older)"

definition summary_message :: "string \<Rightarrow> chat_message" where
  "summary_message summary_text = empty_message\<lparr>role := ''user'', content := compact_user_summary_message summary_text,
     is_compact_summary := True, metadata := JObj [(''compact_summary'', JBool True)]\<rparr>"

definition build_compacted_history :: "chat_message list \<Rightarrow> string \<Rightarrow> nat \<Rightarrow> chat_message list" where
  "build_compacted_history messages summary_text max_user_message_tokens =
     (if max_user_message_tokens > 0 then rev (select_user_messages max_user_message_tokens (rev messages)) else []) @
     [summary_message summary_text]"

definition compact_user_max_tokens :: nat where "compact_user_max_tokens = 20000"

definition normalize_messages_for_api :: "chat_message list \<Rightarrow> chat_message list" where
  "normalize_messages_for_api ms = fst (recover_provider_history (provider_relevant_messages ms))"

section \<open>When to compact\<close>

definition effective_context_window :: "int \<Rightarrow> int" where
  "effective_context_window w = (if w \<le> 0 then 0 else min (w * 95 div 100) int32_max)"

definition auto_compact_threshold :: "int \<Rightarrow> int" where
  "auto_compact_threshold w =
     (if w \<le> 0 then 0 else min (effective_context_window w) (min (w * 90 div 100) int32_max))"

definition should_auto_compact :: "int \<Rightarrow> int \<Rightarrow> int \<Rightarrow> bool" where
  "should_auto_compact w server_total_tokens estimated \<longleftrightarrow>
     \<not> w \<le> 0 \<and> max server_total_tokens estimated \<ge> auto_compact_threshold w"

record token_warning =
  tw_above_warning :: bool
  tw_above_error :: bool
  tw_above_auto_compact :: bool

text \<open>The share that is left (a floating-point number for the display) is left out.\<close>

definition token_warning_state :: "int \<Rightarrow> int \<Rightarrow> token_warning" where
  "token_warning_state estimated w =
     (if effective_context_window w \<le> 0
      then \<lparr>tw_above_warning = True, tw_above_error = True, tw_above_auto_compact = True\<rparr>
      else let remaining = effective_context_window w - estimated
        in \<lparr>tw_above_warning = remaining < 20000, tw_above_error = remaining < 5000,
            tw_above_auto_compact = estimated \<ge> auto_compact_threshold w\<rparr>)"

section \<open>Context overflow\<close>

datatype error_kind = NoError | UserCancelled | Timeout | Network | Http | MalformedSse | MalformedJson | UnknownError

record provider_error =
  pe_kind :: error_kind
  pe_status :: int
  pe_display :: string
  pe_raw_body :: string
  pe_pretty_json :: string
  pe_retryable :: bool
  pe_server_retry_after :: int

definition has_error :: "provider_error \<Rightarrow> bool" where
  "has_error e \<longleftrightarrow> pe_kind e \<noteq> NoError"

definition no_error :: provider_error where
  "no_error = \<lparr>pe_kind = NoError, pe_status = 0, pe_display = [], pe_raw_body = [], pe_pretty_json = [],
     pe_retryable = False, pe_server_retry_after = -1\<rparr>"

definition overflow_codes :: "string list" where
  "overflow_codes = [''context_length_exceeded'', ''context_window_exceeded'', ''input_too_long'', ''prompt_too_long'']"

fun has_context_overflow_code :: "json \<Rightarrow> bool" and overflow_entries :: "(string \<times> json) list \<Rightarrow> bool"
  and overflow_items :: "json list \<Rightarrow> bool" where
  "has_context_overflow_code (JObj m) = overflow_entries m"
| "has_context_overflow_code (JArr xs) = overflow_items xs"
| "has_context_overflow_code _ = False"
| "overflow_entries [] = False"
| "overflow_entries ((k, v) # m) =
     (((k = ''code'' \<or> k = ''type'') \<and> (case v of JStr s \<Rightarrow> ascii_lower s \<in> set overflow_codes | _ \<Rightarrow> False)) \<or>
      has_context_overflow_code v \<or> overflow_entries m)"
| "overflow_items [] = False"
| "overflow_items (x # xs) = (has_context_overflow_code x \<or> overflow_items xs)"

definition raw_body_has_context_overflow_code :: "(string \<Rightarrow> json option) \<Rightarrow> string \<Rightarrow> bool" where
  "raw_body_has_context_overflow_code parse body =
     (if body = [] then False
      else case parse body of Some j \<Rightarrow> has_context_overflow_code j | None \<Rightarrow> False)"

definition overflow_texts :: "string list" where
  "overflow_texts = [''context_length_exceeded'', ''context_window_exceeded'', ''maximum context length'',
     ''max context length'', ''context length exceeded'', ''context window exceeded'', ''exceeds the context window'',
     ''exceeded the context window'', ''prompt is too long'', ''input is too long'', ''too many input tokens'']"

definition is_context_overflow_text :: "string \<Rightarrow> bool" where
  "is_context_overflow_text s \<longleftrightarrow> contains_any (ascii_lower s) overflow_texts"

definition provider_error_search_text :: "provider_error \<Rightarrow> string" where
  "provider_error_search_text e =
     ascii_lower (pe_display e @ [newline] @ pe_raw_body e @ [newline] @ pe_pretty_json e)"

definition is_context_overflow_error :: "(string \<Rightarrow> json option) \<Rightarrow> provider_error \<Rightarrow> bool" where
  "is_context_overflow_error parse e =
     (if pe_kind e \<noteq> Http then False
      else if pe_status e \<noteq> 400 \<and> pe_status e \<noteq> 413 \<and> pe_status e \<noteq> 422 then False
      else raw_body_has_context_overflow_code parse (pe_raw_body e) \<or>
        is_context_overflow_text (provider_error_search_text e))"

definition is_retryable_compaction_error :: "(string \<Rightarrow> json option) \<Rightarrow> provider_error \<Rightarrow> bool" where
  "is_retryable_compaction_error parse e \<longleftrightarrow>
     has_error e \<and> pe_retryable e \<and> pe_kind e \<noteq> UserCancelled \<and> \<not> is_context_overflow_error parse e"

section \<open>Context before the last request\<close>

text \<open>The index, from the back: the last real user message, or else the last summary, or else the end.\<close>

fun insertion_from_back :: "nat option \<Rightarrow> chat_message list \<Rightarrow> nat option" where
  "insertion_from_back fallback [] = fallback"
| "insertion_from_back fallback (m # before) =
     (if role m \<noteq> ''user'' then insertion_from_back fallback before
      else if is_compact_summary_message m
      then insertion_from_back (if fallback = None then Some (length before) else fallback) before
      else if is_real_user_message m then Some (length before)
      else insertion_from_back fallback before)"

definition insert_context_before_last_real_user_or_summary ::
  "chat_message list \<Rightarrow> chat_message list \<Rightarrow> chat_message list" where
  "insert_context_before_last_real_user_or_summary messages context_rows =
     (if context_rows = [] then messages
      else let i = (case insertion_from_back None (rev messages) of Some n \<Rightarrow> n | None \<Rightarrow> length messages)
        in take i messages @ context_rows @ drop i messages)"

section \<open>Making room in the summarization request\<close>

text \<open>The ids of the calls of a row, as this function reads them.\<close>

definition object_id :: "json \<Rightarrow> string option" where
  "object_id call = string_field call ''id''"

definition array_of :: "json \<Rightarrow> json list" where
  "array_of j = (case j of JArr xs \<Rightarrow> xs | _ \<Rightarrow> [])"

definition removed_call_ids :: "chat_message \<Rightarrow> string list" where
  "removed_call_ids m = List.map_filter object_id (array_of (tool_calls m))"

text \<open>A tool row is removed together with its call: the first assistant row that holds the call.\<close>

fun drop_call :: "string \<Rightarrow> chat_message list \<Rightarrow> chat_message list \<times> nat" where
  "drop_call i [] = ([], 0)"
| "drop_call i (m # ms) =
     (let retained = filter (\<lambda>call. object_id call \<noteq> Some i) (array_of (tool_calls m))
      in if role m = ''assistant'' \<and> is_array (tool_calls m) \<and> retained \<noteq> array_of (tool_calls m)
         then (if retained = [] \<and> content m = [] \<and> reasoning_content m = [] then (ms, 1)
               else (m\<lparr>tool_calls := JArr retained\<rparr> # ms, 0))
         else (case drop_call i ms of (ms', n) \<Rightarrow> (m # ms', n)))"

definition remove_oldest_history_item :: "chat_message list \<Rightarrow> nat \<times> chat_message list" where
  "remove_oldest_history_item history =
     (case history of
        [] \<Rightarrow> (0, [])
      | m # rest \<Rightarrow>
          if role m = ''assistant'' \<and> is_array (tool_calls m)
          then (let kept_rows = filter (\<lambda>x. \<not> (role x = ''tool'' \<and> tool_call_id x \<in> set (removed_call_ids m))) rest
                in (1 + (length rest - length kept_rows), kept_rows))
          else if role m = ''tool'' \<and> tool_call_id m \<noteq> []
          then (case drop_call (tool_call_id m) rest of (rest', n) \<Rightarrow> (1 + n, rest'))
          else (1, rest))"

section \<open>Asking for the summary\<close>

text \<open>What a call of the provider brings: a response with its finish reason, text and error, or an exception.\<close>

datatype chat_outcome = ChatResponse string string provider_error | ChatThrows string

record compact_round =
  cr_aborted_before :: bool
  cr_outcome :: chat_outcome
  cr_aborted_after :: bool
  cr_wait_aborted :: bool

record compact_run =
  cp_history :: "chat_message list"
  cp_items_removed :: nat
  cp_transient_retries :: nat
  cp_request_retries :: int
  cp_delays :: "int list"

definition cancelled_text :: string where "cancelled_text = ''Compaction cancelled.''"

definition no_removable_text :: string where
  "no_removable_text = ''Context window exceeded while compacting with no removable history item.''"

definition make_room :: "compact_run \<Rightarrow> compact_run" where
  "make_room cp =
     (case remove_oldest_history_item (cp_history cp) of
        (n, history) \<Rightarrow> cp\<lparr>cp_history := history, cp_items_removed := cp_items_removed cp + n, cp_transient_retries := 0\<rparr>)"

definition note_retry :: "provider_error \<Rightarrow> compact_run \<Rightarrow> compact_run" where
  "note_retry e cp =
     (let retries = min (cp_transient_retries cp + 1) size_max
      in cp\<lparr>cp_transient_retries := retries, cp_request_retries := min (cp_request_retries cp + 1) int32_max,
            cp_delays := cp_delays cp @ [provider_retry_delay_ms retries
              (if pe_server_retry_after e \<ge> 0 then Some (pe_server_retry_after e) else None)]\<rparr>)"

text \<open>One round: the end with an error or the summary, or the state for the next round.\<close>

definition compact_step ::
  "(string \<Rightarrow> json option) \<Rightarrow> compact_round \<Rightarrow> compact_run \<Rightarrow> ((string + string) \<times> compact_run) + compact_run" where
  "compact_step parse r cp =
     (if cr_aborted_before r then Inl (Inl cancelled_text, cp)
      else case cr_outcome r of
        ChatThrows message \<Rightarrow>
          if is_context_overflow_text message \<and> cp_history cp \<noteq> [] then Inr (make_room cp)
          else Inl (Inl (if is_context_overflow_text message then no_removable_text else ''Summarization failed: '' @ message), cp)
      | ChatResponse finish_reason text e \<Rightarrow>
          if cr_aborted_after r then Inl (Inl cancelled_text, cp)
          else if finish_reason \<noteq> ''error'' then Inl (Inr text, cp)
          else let context_overflow = (if has_error e then is_context_overflow_error parse e else is_context_overflow_text text)
            in if context_overflow \<and> cp_history cp \<noteq> [] then Inr (make_room cp)
               else if has_error e \<and> is_retryable_compaction_error parse e
               then (if cr_wait_aborted r then Inl (Inl cancelled_text, note_retry e cp) else Inr (note_retry e cp))
               else Inl (Inl (if context_overflow then no_removable_text
                  else ''Summarization failed: '' @ (if has_error e \<and> pe_display e \<noteq> [] then pe_display e else text)), cp))"

fun compact_rounds ::
  "(string \<Rightarrow> json option) \<Rightarrow> compact_round list \<Rightarrow> compact_run \<Rightarrow> ((string + string) \<times> compact_run) option" where
  "compact_rounds parse [] cp = None"
| "compact_rounds parse (r # rs) cp =
     (case compact_step parse r cp of Inl finished \<Rightarrow> Some finished | Inr cp' \<Rightarrow> compact_rounds parse rs cp')"

definition compact_prompt :: string where
  "compact_prompt =
     ''You are performing a CONTEXT CHECKPOINT COMPACTION. Create a handoff summary for another LLM that will resume the task.'' @
     [newline, newline] @ ''Include:'' @ [newline] @
     ''- Current progress and key decisions made'' @ [newline] @
     ''- Important context, constraints, or user preferences'' @ [newline] @
     ''- What remains to be done (clear next steps)'' @ [newline] @
     ''- Any critical data, examples, or references needed to continue'' @ [newline, newline] @
     ''Be concise, structured, and focused on helping the next LLM seamlessly continue the work.''"

definition compact_request :: "chat_message list \<Rightarrow> chat_message list \<Rightarrow> chat_message list" where
  "compact_request initial_context request_history =
     normalize_messages_for_api initial_context @ request_history @
     [empty_message\<lparr>role := ''user'', content := compact_prompt\<rparr>]"

text \<open>The requests that are sent while the rounds last.\<close>

fun compact_requests ::
  "(string \<Rightarrow> json option) \<Rightarrow> chat_message list \<Rightarrow> compact_round list \<Rightarrow> compact_run \<Rightarrow> chat_message list list" where
  "compact_requests parse initial_context [] cp = []"
| "compact_requests parse initial_context (r # rs) cp =
     (if cr_aborted_before r then []
      else compact_request initial_context (cp_history cp) #
        (case compact_step parse r cp of
           Inl finished \<Rightarrow> []
         | Inr cp' \<Rightarrow> compact_requests parse initial_context rs cp'))"

record compact_result =
  co_performed :: bool
  co_messages_compressed :: int
  co_tokens_saved :: int
  co_items_removed :: nat
  co_request_retries :: int
  co_summary :: string
  co_messages :: "chat_message list"
  co_error :: string

definition compact_messages ::
  "(json \<Rightarrow> string) \<Rightarrow> (string \<Rightarrow> json option) \<Rightarrow> chat_message list \<Rightarrow> compact_round list \<Rightarrow> compact_result option" where
  "compact_messages dump parse messages rounds =
     (let original = normalize_messages_for_api messages
      in case compact_rounds parse rounds
             \<lparr>cp_history = original, cp_items_removed = 0, cp_transient_retries = 0, cp_request_retries = 0, cp_delays = []\<rparr> of
           None \<Rightarrow> None
         | Some (Inl e, cp) \<Rightarrow>
             Some \<lparr>co_performed = False, co_messages_compressed = 0, co_tokens_saved = 0, co_items_removed = cp_items_removed cp,
                   co_request_retries = cp_request_retries cp, co_summary = [], co_messages = [], co_error = e\<rparr>
         | Some (Inr summary_text, cp) \<Rightarrow>
             (let compacted = build_compacted_history original summary_text compact_user_max_tokens
              in Some \<lparr>co_performed = True,
                   co_messages_compressed = max 0 (int (length original) - max 0 (int (length compacted) - 1)),
                   co_tokens_saved = max 0 (estimate_message_tokens dump original - estimate_message_tokens dump compacted),
                   co_items_removed = cp_items_removed cp, co_request_retries = cp_request_retries cp,
                   co_summary = summary_text, co_messages = compacted, co_error = []\<rparr>))"

section \<open>Truncation keeps characters whole\<close>

lemma prefix_boundary_le: "prefix_boundary text p \<le> p"
proof (induction p)
  case (Suc p)
  then have "prefix_boundary text p \<le> Suc p" by simp
  then show ?case by simp
qed simp

lemma prefix_boundary_stops:
  "prefix_boundary text p = 0 \<or> length text \<le> prefix_boundary text p \<or>
     \<not> is_utf8_continuation (text ! prefix_boundary text p)"
  by (induction "text" p rule: prefix_boundary.induct) auto

lemma suffix_boundary_ge: "s \<le> suffix_boundary text s"
  by (induction "text" s rule: suffix_boundary.induct) (subst suffix_boundary.simps, auto)

lemma suffix_boundary_stops:
  "length text \<le> suffix_boundary text s \<or> \<not> is_utf8_continuation (text ! suffix_boundary text s)"
proof (induction "text" s rule: suffix_boundary.induct)
  case (1 t s)
  show ?case
  proof (cases "s < length t \<and> is_utf8_continuation (t ! s)")
    case True
    with 1 show ?thesis by (subst (1 2) suffix_boundary.simps) simp
  next
    case False
    then show ?thesis by (subst (1 2) suffix_boundary.simps) auto
  qed
qed

lemma suffix_boundary_le: "s \<le> length text \<Longrightarrow> suffix_boundary text s \<le> length text"
proof (induction "text" s rule: suffix_boundary.induct)
  case (1 t s)
  then show ?case by (subst suffix_boundary.simps) simp
qed

text \<open>A character boundary of the text: its ends, and every byte that starts a character.\<close>

definition at_boundary :: "string \<Rightarrow> nat \<Rightarrow> bool" where
  "at_boundary text p \<longleftrightarrow> p = 0 \<or> length text \<le> p \<or> \<not> is_utf8_continuation (text ! p)"

text \<open>Truncation keeps the beginning and the end of a text.  What is too long for the budget becomes a
  prefix, a marker and a suffix; both are cut at character boundaries, they do not overlap, and together
  they are within the budget of bytes.\<close>

lemma truncation_cuts_at_boundaries:
  assumes "text \<noteq> []" "0 < max_tokens" "max_tokens \<le> size_max div 4" "max_tokens * 4 < length text"
  shows "\<exists>p q. truncate_text_to_token_budget text max_tokens =
      take p text @ truncation_marker ((length text - max_tokens * 4 + 3) div 4) @ drop q text \<and>
    p \<le> q \<and> q \<le> length text \<and> p + (length text - q) \<le> max_tokens * 4 \<and> at_boundary text p \<and> at_boundary text q"
proof -
  define m where "m = max_tokens * 4"
  define p where "p = prefix_boundary text (m div 2)"
  define q0 where "q0 = suffix_boundary text (length text - (m - m div 2))"
  define q where "q = (if q0 < p then p else q0)"
  have m: "0 < m" "m < length text" using assms(2,4) by (simp_all add: m_def)
  have p: "p \<le> m div 2" "at_boundary text p"
    using prefix_boundary_le prefix_boundary_stops by (auto simp: p_def at_boundary_def)
  have q0: "length text - (m - m div 2) \<le> q0" "q0 \<le> length text" "at_boundary text q0"
    using suffix_boundary_ge suffix_boundary_stops suffix_boundary_le
    by (auto simp: q0_def at_boundary_def)
  have "truncate_text_to_token_budget text max_tokens = take p text @ truncation_marker ((length text - m + 3) div 4) @ drop q text"
  proof -
    have c: "(if max_tokens > size_max div 4 then size_max else max_tokens * 4) = m"
      "min (m div 2) (length text) = m div 2"
      "(if length text > m - m div 2 then length text - (m - m div 2) else 0) = length text - (m - m div 2)"
      "(if length text > m then length text - m else 0) = length text - m"
      "\<not> (max_tokens > 0 \<and> length text \<le> m)" "m \<noteq> 0" using assms m by (auto simp: m_def)
    show ?thesis
      unfolding truncate_text_to_token_budget_def Let_def c(1) p_def q0_def q_def
      by (simp only: c(2-6) assms(1) if_False)
  qed
  moreover have "p \<le> q" "q \<le> length text" "at_boundary text q"
    using p q0 m by (auto simp: q_def)
  moreover have "p + (length text - q) \<le> m" using p(1) q0(1) m by (auto simp: q_def)
  ultimately show ?thesis using p(2) unfolding m_def by blast
qed

section \<open>Estimates are monotone\<close>

lemma sum_payload_Some:
  "acc \<le> size_max \<Longrightarrow> sum_payload dump acc ms =
     (if acc + sum_list (map (message_payload_bytes dump) ms) \<le> size_max
      then Some (acc + sum_list (map (message_payload_bytes dump) ms)) else None)"
proof (induction ms arbitrary: acc)
  case (Cons m ms)
  show ?case
  proof (cases "acc + message_payload_bytes dump m \<le> size_max")
    case True
    then show ?thesis using Cons.IH [OF True] by (auto simp: add.assoc)
  next
    case False
    then show ?thesis by auto
  qed
qed simp

text \<open>Rows that go make the estimate smaller, as long as it is not saturated by absurd sizes.\<close>

lemma estimate_drop_le:
  assumes "sum_list (map (message_payload_bytes dump) ms) < size_max - 3"
  shows "estimate_message_tokens dump (drop n ms) \<le> estimate_message_tokens dump ms"
proof -
  have "sum_list (map (message_payload_bytes dump) ms) =
      sum_list (map (message_payload_bytes dump) (take n ms)) + sum_list (map (message_payload_bytes dump) (drop n ms))"
    by (metis append_take_drop_id map_append sum_list_append)
  then have le: "sum_list (map (message_payload_bytes dump) (drop n ms)) \<le> sum_list (map (message_payload_bytes dump) ms)"
    by simp
  have e: "estimate_message_tokens dump xs = min (int ((sum_list (map (message_payload_bytes dump) xs) + 3) div 4)) int32_max"
    if "sum_list (map (message_payload_bytes dump) xs) < size_max - 3" for xs
    using that sum_payload_Some [of 0 dump xs] by (simp add: estimate_message_tokens_def Let_def)
  have "(sum_list (map (message_payload_bytes dump) (drop n ms)) + 3) div 4 \<le>
      (sum_list (map (message_payload_bytes dump) ms) + 3) div 4" using le by (intro div_le_mono) simp
  then show ?thesis using e [OF assms] e [of "drop n ms"] le assms by simp
qed

lemma estimate_nonneg: "0 \<le> estimate_message_tokens dump ms"
  by (simp add: estimate_message_tokens_def Let_def split: option.split)

lemma compaction_threshold_bounds:
  assumes "0 < w" "w \<le> int32_max"
  shows "0 \<le> auto_compact_threshold w" "auto_compact_threshold w = w * 90 div 100" "auto_compact_threshold w < w"
  using assms by (simp_all add: auto_compact_threshold_def effective_context_window_def)

lemma should_auto_compact_mono:
  "should_auto_compact w s e \<Longrightarrow> s \<le> s' \<Longrightarrow> e \<le> e' \<Longrightarrow> should_auto_compact w s' e'"
  by (auto simp: should_auto_compact_def)

section \<open>The compacted history keeps the newest requests\<close>

text \<open>The reference: the newest \<open>k\<close> messages of the user, the oldest of them possibly cut.\<close>

definition user_messages :: "chat_message list \<Rightarrow> chat_message list" where
  "user_messages ms = filter is_real_user_message ms"

definition same_or_cut :: "chat_message \<Rightarrow> chat_message \<Rightarrow> bool" where
  "same_or_cut u m \<longleftrightarrow> m = retained_user_message u (content u) \<or>
     (\<exists>b. m = retained_user_message u (truncate_text_to_token_budget (content u) b))"

definition tokens_of :: "chat_message list \<Rightarrow> nat" where
  "tokens_of ms = sum_list (map (\<lambda>m. approx_token_count (content m)) ms)"

lemma tokens_of_simps [simp]:
  "tokens_of [] = 0" "tokens_of (m # ms) = approx_token_count (content m) + tokens_of ms"
  "tokens_of (xs @ ys) = tokens_of xs + tokens_of ys" "tokens_of (rev xs) = tokens_of xs"
  by (simp_all add: tokens_of_def rev_map [symmetric])

text \<open>Going backwards: all but the last selected one are whole; the selection stops only when the budget is
  used up.\<close>

lemma select_spec:
  "\<exists>k \<le> length (user_messages ms).
     length (select_user_messages n ms) = k \<and>
     (\<forall>i<k. same_or_cut (user_messages ms ! i) (select_user_messages n ms ! i) \<and>
       (i + 1 < k \<longrightarrow> select_user_messages n ms ! i = retained_user_message (user_messages ms ! i) (content (user_messages ms ! i)))) \<and>
     tokens_of (take (k - 1) (user_messages ms)) \<le> n \<and>
     (k < length (user_messages ms) \<longrightarrow> n \<le> tokens_of (take k (user_messages ms)))"
proof (induction ms arbitrary: n)
  case (Cons m ms)
  let ?us = "user_messages ms"
  let ?c = "approx_token_count (content m)"
  consider "\<not> is_real_user_message m" | "is_real_user_message m" "n = 0" | "is_real_user_message m" "n \<noteq> 0" "?c \<le> n"
    | "is_real_user_message m" "n \<noteq> 0" "n < ?c" by linarith
  then show ?case
  proof cases
    case 1
    with Cons.IH [of n] show ?thesis by (simp add: user_messages_def)
  next
    case 2
    then show ?thesis by (intro exI [of _ 0]) simp
  next
    case 3
    obtain k where k: "k \<le> length ?us" "length (select_user_messages (n - ?c) ms) = k"
      "\<And>i. i < k \<Longrightarrow> same_or_cut (?us ! i) (select_user_messages (n - ?c) ms ! i)"
      "\<And>i. i + 1 < k \<Longrightarrow> select_user_messages (n - ?c) ms ! i = retained_user_message (?us ! i) (content (?us ! i))"
      "tokens_of (take (k - 1) ?us) \<le> n - ?c" "k < length ?us \<Longrightarrow> n - ?c \<le> tokens_of (take k ?us)"
      using Cons.IH [of "n - ?c"] by auto
    have u: "user_messages (m # ms) = m # ?us" using 3(1) by (simp add: user_messages_def)
    have s: "select_user_messages n (m # ms) = retained_user_message m (content m) # select_user_messages (n - ?c) ms"
      using 3 by simp
    show ?thesis
      unfolding u s
    proof (intro exI [of _ "Suc k"] conjI allI impI)
      fix i assume i: "i < Suc k"
      show "same_or_cut ((m # ?us) ! i) ((retained_user_message m (content m) # select_user_messages (n - ?c) ms) ! i)"
        using i k(3) by (cases i) (auto simp: same_or_cut_def)
      assume "i + 1 < Suc k"
      then show "(retained_user_message m (content m) # select_user_messages (n - ?c) ms) ! i =
          retained_user_message ((m # ?us) ! i) (content ((m # ?us) ! i))"
        using k(4) by (cases i) auto
    next
      show "tokens_of (take (Suc k - 1) (m # ?us)) \<le> n" using k(5) 3(3) by (cases k) auto
    next
      assume "Suc k < length (m # ?us)"
      with k(6) show "n \<le> tokens_of (take (Suc k) (m # ?us))" by simp
    qed (use k(1,2) in simp_all)
  next
    case 4
    have "select_user_messages 0 ms = []" by (induction ms) simp_all
    with 4 show ?thesis
      by (intro exI [of _ 1]) (auto simp: user_messages_def same_or_cut_def)
  qed
qed (simp add: user_messages_def)

text \<open>C14: After compaction the model still has the user's newest requests.  The compacted history is a
  number of the user's last messages, in their order, followed by the summary; all of them are whole,
  except that the oldest one kept may be cut; older messages are left out only when those kept use up the
  token budget, and the whole ones are within it.\<close>

theorem compacted_history_keeps_newest:
  assumes "0 < n"
  shows "\<exists>k kept_rows. build_compacted_history ms summary_text n = kept_rows @ [summary_message summary_text] \<and>
    k \<le> length (user_messages ms) \<and> length kept_rows = k \<and>
    (\<forall>i<k. let u = user_messages ms ! (length (user_messages ms) - k + i) in
       same_or_cut u (kept_rows ! i) \<and> (0 < i \<longrightarrow> kept_rows ! i = retained_user_message u (content u))) \<and>
    tokens_of (drop (length (user_messages ms) - (k - 1)) (user_messages ms)) \<le> n \<and>
    (k < length (user_messages ms) \<longrightarrow> n \<le> tokens_of (drop (length (user_messages ms) - k) (user_messages ms)))"
proof -
  let ?us = "user_messages ms"
  have r: "user_messages (rev ms) = rev ?us" by (simp add: user_messages_def rev_filter)
  obtain k where k: "k \<le> length ?us" "length (select_user_messages n (rev ms)) = k"
    "\<And>i. i < k \<Longrightarrow> same_or_cut (rev ?us ! i) (select_user_messages n (rev ms) ! i)"
    "\<And>i. i + 1 < k \<Longrightarrow> select_user_messages n (rev ms) ! i = retained_user_message (rev ?us ! i) (content (rev ?us ! i))"
    "tokens_of (take (k - 1) (rev ?us)) \<le> n" "k < length ?us \<Longrightarrow> n \<le> tokens_of (take k (rev ?us))"
    using select_spec [of "rev ms" n] unfolding r by auto
  let ?R = "rev (select_user_messages n (rev ms))"
  have at: "?R ! i = select_user_messages n (rev ms) ! (k - Suc i)" "?us ! (length ?us - k + i) = rev ?us ! (k - Suc i)"
    if "i < k" for i using that k(1,2) by (simp_all add: rev_nth)
  have t: "tokens_of (take j (rev ?us)) = tokens_of (drop (length ?us - j) ?us)" for j
    by (simp add: take_rev)
  show ?thesis
  proof (intro exI [of _ k] exI [of _ ?R] conjI allI impI)
    show "build_compacted_history ms summary_text n = ?R @ [summary_message summary_text]"
      using assms by (simp add: build_compacted_history_def)
    fix i assume i: "i < k"
    have "0 < i \<Longrightarrow> k - Suc i + 1 < k" using i by simp
    with at [OF i] k(3) [of "k - Suc i"] k(4) [of "k - Suc i"] i
    show "let u = ?us ! (length ?us - k + i) in
       same_or_cut u (?R ! i) \<and> (0 < i \<longrightarrow> ?R ! i = retained_user_message u (content u))"
      by (simp add: Let_def)
  next
    show "tokens_of (drop (length ?us - (k - 1)) ?us) \<le> n" using k(5) by (simp only: t)
  next
    assume "k < length ?us"
    with k(6) show "n \<le> tokens_of (drop (length ?us - k) ?us)" by (simp only: t)
  qed (use k(1,2) in simp_all)
qed

lemma compacted_history_is_user_rows:
  "m \<in> set (build_compacted_history ms summary_text n) \<Longrightarrow> role m = ''user''"
proof -
  have "m \<in> set (select_user_messages k xs) \<Longrightarrow> role m = ''user''" for k xs
    by (induction k xs rule: select_user_messages.induct) (auto simp: retained_user_message_def split: if_splits)
  then show "m \<in> set (build_compacted_history ms summary_text n) \<Longrightarrow> role m = ''user''"
    by (auto simp: build_compacted_history_def summary_message_def empty_message_def split: if_splits)
qed

lemma user_rows_valid: "(\<And>m. m \<in> set ms \<Longrightarrow> role m = ''user'') \<Longrightarrow> scan {} u ms = Some ({}, u)"
  by (induction ms) auto

section \<open>Making room keeps the protocol\<close>

lemma scan_without_calls:
  assumes "scan w u ms = Some (w', u')" "S \<subseteq> u" "v \<subseteq> u"
  shows "\<exists>v'. scan (w - S) v (filter (\<lambda>x. \<not> (role x = ''tool'' \<and> tool_call_id x \<in> S)) ms) = Some (w' - S, v')"
  using assms
proof (induction ms arbitrary: w u v)
  case (Cons m ms)
  consider "role m = ''tool''" | "role m = ''system''" | "role m = ''assistant''"
    | "role m \<noteq> ''tool''" "role m \<noteq> ''system''" "role m \<noteq> ''assistant''" by blast
  then show ?case
  proof cases
    case 1
    with Cons.prems(1) have m: "tool_call_id m \<in> w" "scan (w - {tool_call_id m}) u ms = Some (w', u')"
      by (simp_all split: if_splits)
    have "w - {tool_call_id m} - S = (if tool_call_id m \<in> S then w - S else w - S - {tool_call_id m})" by auto
    with Cons.IH [OF m(2) Cons.prems(2,3)] m(1) 1 show ?thesis
      by (cases "tool_call_id m \<in> S") simp_all
  next
    case 2
    with Cons.prems(1) have "scan w u ms = Some (w', u')" by simp
    from Cons.IH [OF this Cons.prems(2,3)] 2 show ?thesis by simp
  next
    case 3
    with Cons.prems(1) have w: "w = {}" by (simp split: if_splits)
    with 3 Cons.prems(1) obtain ids where ids: "call_ids (tool_calls m) = Some ids" "distinct ids" "set ids \<inter> u = {}"
      "ids \<noteq> [] \<or> has_assistant_content m" "scan (set ids) (u \<union> set ids) ms = Some (w', u')"
      by (auto split: option.splits if_splits)
    have "S \<subseteq> u \<union> set ids" "v \<union> set ids \<subseteq> u \<union> set ids" using Cons.prems(2,3) by auto
    moreover have "set ids - S = set ids" "set ids \<inter> v = {}" using ids(3) Cons.prems(2,3) by auto
    ultimately show ?thesis using Cons.IH [OF ids(5), of "v \<union> set ids"] ids(1,2,4) 3 w by auto
  next
    case 4
    with Cons.prems(1) have "w = {}" "scan {} u ms = Some (w', u')" by (simp_all split: if_splits)
    from Cons.IH [OF this(2) Cons.prems(2,3)] this(1) 4 show ?thesis by simp
  qed
qed simp

lemma valid_id_object: "valid_tool_call_id c = Some i \<Longrightarrow> object_id c = Some i"
  by (auto simp: valid_tool_call_id_def object_id_def split: option.splits if_splits json.splits)

lemma removed_ids_of_valid: "call_ids (tool_calls m) = Some ids \<Longrightarrow> is_array (tool_calls m) \<Longrightarrow> removed_call_ids m = ids"
proof -
  assume c: "call_ids (tool_calls m) = Some ids" and a: "is_array (tool_calls m)"
  then obtain cs where cs: "tool_calls m = JArr cs" by (cases "tool_calls m") simp_all
  with c have v: "\<And>x. x \<in> set cs \<Longrightarrow> valid_tool_call_id x \<noteq> None" "ids = map (\<lambda>x. the (valid_tool_call_id x)) cs"
    by (simp_all add: call_ids_def split: if_splits)
  have "List.map_filter object_id cs = map (\<lambda>x. the (valid_tool_call_id x)) cs"
    using v(1)
  proof (induction cs)
    case (Cons x xs)
    then obtain i where "valid_tool_call_id x = Some i" by fastforce
    with Cons show ?case by (simp add: List.map_filter_simps valid_id_object)
  qed (simp add: List.map_filter_simps)
  with v(2) cs show ?thesis by (simp add: removed_call_ids_def array_of_def)
qed

lemma scan_fewer_used:
  "scan w u ms = Some (w', u') \<Longrightarrow> v \<subseteq> u \<Longrightarrow> \<exists>v'. scan w v ms = Some (w', v')"
  using scan_without_calls [of w u ms w' u' "{}" v] by simp

lemma making_room_keeps_valid:
  assumes "valid_history h"
  shows "valid_history (snd (remove_oldest_history_item h))"
proof (cases h)
  case (Cons m rest)
  from assms obtain u' where s: "scan {} {} (m # rest) = Some ({}, u')"
    by (auto simp: valid_history_def Cons split: option.splits)
  then have nt: "role m \<noteq> ''tool''" by (auto split: if_splits)
  show ?thesis
  proof (cases "role m = ''assistant'' \<and> is_array (tool_calls m)")
    case True
    with s obtain ids where ids: "call_ids (tool_calls m) = Some ids" "scan (set ids) (set ids) rest = Some ({}, u')"
      by (auto split: option.splits if_splits)
    obtain v' where "scan (set ids - set ids) {} (filter (\<lambda>x. \<not> (role x = ''tool'' \<and> tool_call_id x \<in> set ids)) rest) =
        Some ({} - set ids, v')"
      using scan_without_calls [OF ids(2), of "set ids" "{}"] by auto
    then show ?thesis
      using True removed_ids_of_valid [OF ids(1)] unfolding Cons
      by (simp add: remove_oldest_history_item_def valid_history_def Let_def)
  next
    case False
    have "\<exists>v'. scan {} {} rest = Some ({}, v')"
    proof (cases "role m = ''assistant''")
      case True
      with False s obtain ids where ids: "call_ids (tool_calls m) = Some ids" "scan (set ids) (set ids) rest = Some ({}, u')"
        by (auto split: option.splits if_splits)
      with False True have "ids = []" by (cases "tool_calls m") (simp_all add: call_ids_def)
      with ids(2) show ?thesis by auto
    next
      case False
      with s nt show ?thesis by (auto split: if_splits)
    qed
    with False nt show ?thesis unfolding Cons by (auto simp: remove_oldest_history_item_def valid_history_def)
  qed
qed (simp add: remove_oldest_history_item_def valid_history_def)

lemma drop_call_length: "drop_call i ms = (ms', n) \<Longrightarrow> length ms' \<le> length ms"
  by (induction i ms arbitrary: ms' n rule: drop_call.induct) (auto simp: Let_def split: prod.splits if_splits)

lemma making_room_shortens: "h \<noteq> [] \<Longrightarrow> length (snd (remove_oldest_history_item h)) < length h"
  by (cases h) (auto simp: remove_oldest_history_item_def Let_def less_Suc_eq_le drop_call_length split: prod.split)

section \<open>The loop that asks for the summary\<close>

lemma make_room_fields:
  "cp_history (make_room cp) = snd (remove_oldest_history_item (cp_history cp))"
  by (simp add: make_room_def split: prod.split)

lemma note_retry_history [simp]: "cp_history (note_retry e cp) = cp_history cp"
  by (simp add: note_retry_def Let_def)

lemma compact_step_history:
  assumes "compact_step parse r cp = Inr cp'"
  shows "cp_history cp' = cp_history cp \<or> (cp_history cp \<noteq> [] \<and> cp_history cp' = snd (remove_oldest_history_item (cp_history cp)))"
  using assms by (auto simp: compact_step_def make_room_fields Let_def split: if_splits chat_outcome.splits)

text \<open>A round in which the provider asks to wait and try again.\<close>

definition transient_round :: "(string \<Rightarrow> json option) \<Rightarrow> compact_round \<Rightarrow> bool" where
  "transient_round parse r \<longleftrightarrow>
     (case cr_outcome r of
        ChatResponse finish_reason text e \<Rightarrow> finish_reason = ''error'' \<and> is_retryable_compaction_error parse e
      | ChatThrows message \<Rightarrow> False)"

lemma compact_step_measure:
  assumes "compact_step parse r cp = Inr cp'"
  shows "length (cp_history cp') + (if transient_round parse r then 0 else 1) \<le> length (cp_history cp)"
proof (cases "cp_history cp' = cp_history cp")
  case True
  have "transient_round parse r"
  proof (rule ccontr)
    assume n: "\<not> transient_round parse r"
    with assms have "cp' = make_room cp" "cp_history cp \<noteq> []"
      by (auto simp: compact_step_def transient_round_def Let_def split: if_splits chat_outcome.splits)
    with True making_room_shortens [of "cp_history cp"] show False by (simp add: make_room_fields)
  qed
  with True show ?thesis by simp
next
  case False
  with compact_step_history [OF assms] making_room_shortens [of "cp_history cp"] show ?thesis by auto
qed

text \<open>C15: Asking for a summary comes to an end.  The retries that make room are at most as many as the
  history has rows; so once the provider has answered more often than that, not counting the answers that
  ask to wait, there is a result: a summary or an error.\<close>

theorem compaction_terminates:
  assumes "length (normalize_messages_for_api messages) < length (filter (\<lambda>r. \<not> transient_round parse r) rounds)"
  shows "\<exists>result. compact_messages dump parse messages rounds = Some result \<and>
    (co_performed result \<longleftrightarrow> co_error result = []) \<and>
    (co_performed result \<longrightarrow> co_messages result =
       build_compacted_history (normalize_messages_for_api messages) (co_summary result) compact_user_max_tokens)"
proof -
  have run: "\<exists>out. compact_rounds parse rounds cp = Some out"
    if "length (cp_history cp) < length (filter (\<lambda>r. \<not> transient_round parse r) rounds)" for cp
    using that
  proof (induction rounds arbitrary: cp)
    case (Cons r rs)
    show ?case
    proof (cases "compact_step parse r cp")
      case (Inr cp')
      have "length (cp_history cp') < length (filter (\<lambda>r. \<not> transient_round parse r) rs)"
        using compact_step_measure [OF Inr] Cons.prems by (auto split: if_splits)
      from Cons.IH [OF this] Inr show ?thesis by simp
    qed simp
  qed simp
  have err: "compact_rounds parse rounds cp = Some (Inl e, cp') \<Longrightarrow> e \<noteq> []" for cp cp' e
  proof (induction rounds arbitrary: cp)
    case (Cons r rs)
    have "compact_step parse r cp = Inl (Inl e, cp') \<Longrightarrow> e \<noteq> []"
      by (auto simp: compact_step_def cancelled_text_def no_removable_text_def Let_def split: if_splits chat_outcome.splits)
    with Cons show ?case by (auto split: sum.splits)
  qed simp
  define st where "st = \<lparr>cp_history = normalize_messages_for_api messages, cp_items_removed = 0, cp_transient_retries = 0,
    cp_request_retries = 0, cp_delays = []\<rparr>"
  obtain out cp' where o: "compact_rounds parse rounds st = Some (out, cp')"
    using run [of st] assms by (auto simp: st_def)
  with err [of st] show ?thesis
    by (cases out) (auto simp: compact_messages_def st_def [symmetric] Let_def)
qed

section \<open>Context rows in the request\<close>

lemma insertion_from_back_spec:
  "insertion_from_back fb ms = Some i \<Longrightarrow>
     fb = Some i \<or> (i < length ms \<and> role (rev ms ! i) = ''user'')"
proof (induction fb ms rule: insertion_from_back.induct)
  case (2 fb m before)
  then show ?case by (auto simp: nth_append split: if_splits)
qed simp

lemma scan_before_user:
  assumes "scan w u (xs @ m # ys) = Some r" "role m = ''user''"
  shows "\<exists>u'. scan w u xs = Some ({}, u')"
  using assms by (auto simp: scan_append split: option.splits prod.splits if_splits)

lemma scan_context_rows:
  "(\<And>m. m \<in> set c \<Longrightarrow> role m \<noteq> ''tool'' \<and> role m \<noteq> ''assistant'') \<Longrightarrow> scan {} u c = Some ({}, u)"
  by (induction c) auto

lemma request_with_context_valid:
  assumes "valid_history h" "\<And>m. m \<in> set c \<Longrightarrow> role m \<noteq> ''tool'' \<and> role m \<noteq> ''assistant''"
  shows "valid_history (insert_context_before_last_real_user_or_summary h c)"
proof -
  obtain u0 where u0: "scan {} {} h = Some ({}, u0)"
    using assms(1) by (auto simp: valid_history_def split: option.splits)
  define i where "i = (case insertion_from_back None (rev h) of Some n \<Rightarrow> n | None \<Rightarrow> length h)"
  have "\<exists>u. scan {} {} (take i h) = Some ({}, u)"
  proof (cases "insertion_from_back None (rev h)")
    case None
    with u0 show ?thesis by (simp add: i_def)
  next
    case (Some n)
    with insertion_from_back_spec [OF Some] have n: "i = n" "n < length h" "role (h ! n) = ''user''"
      by (simp_all add: i_def)
    then have "h = take n h @ h ! n # drop (Suc n) h" by (simp add: id_take_nth_drop)
    with u0 scan_before_user [of "{}" "{}" "take n h" "h ! n" "drop (Suc n) h"] n show ?thesis by auto
  qed
  then obtain u where u: "scan {} {} (take i h) = Some ({}, u)" ..
  have "scan {} {} (take i h @ drop i h) = Some ({}, u0)" using u0 by simp
  then have d: "scan {} u (drop i h) = Some ({}, u0)" by (simp only: scan_append u option.case prod.case)
  show ?thesis
    using u d scan_context_rows [OF assms(2), where u = u] u0
    by (simp add: insert_context_before_last_real_user_or_summary_def i_def [symmetric] Let_def valid_history_def scan_append)
qed

section \<open>The requests\<close>

lemma subseq_removed: "valid_history h \<Longrightarrow> subseq (snd (remove_oldest_history_item h)) h"
proof (cases h)
  case (Cons m rest)
  assume "valid_history h"
  then have "role m \<noteq> ''tool''" by (auto simp: valid_history_def Cons split: option.splits if_splits)
  then show ?thesis unfolding Cons by (auto simp: remove_oldest_history_item_def Let_def intro: list_emb_Cons)
qed (simp add: remove_oldest_history_item_def)

lemma context_unchanged:
  assumes "\<And>m. m \<in> set c \<Longrightarrow> role m \<noteq> ''tool'' \<and> role m \<noteq> ''assistant''"
  shows "normalize_messages_for_api c = provider_relevant_messages c \<and> scan {} u (normalize_messages_for_api c) = Some ({}, u)"
proof -
  have s: "scan {} v (provider_relevant_messages c) = Some ({}, v)" for v
    by (rule scan_context_rows) (use assms in \<open>simp add: provider_relevant_messages_def\<close>)
  then have "valid_history (provider_relevant_messages c)" by (simp add: valid_history_def)
  with recovery_is_idempotent [of "provider_relevant_messages c"] s show ?thesis by (simp add: normalize_messages_for_api_def)
qed

lemma compact_request_valid:
  assumes "valid_history h" "\<And>m. m \<in> set c \<Longrightarrow> role m \<noteq> ''tool'' \<and> role m \<noteq> ''assistant''"
  shows "valid_history (compact_request c h)"
proof -
  obtain u where "scan {} {} h = Some ({}, u)" using assms(1) by (auto simp: valid_history_def split: option.splits)
  moreover have "scan {} {} (normalize_messages_for_api c) = Some ({}, {})" using context_unchanged [OF assms(2)] by blast
  ultimately show ?thesis by (simp add: compact_request_def valid_history_def scan_append)
qed

text \<open>The history that is sent: the recovered one with its oldest rows removed some number of times.\<close>

definition shortened :: "chat_message list \<Rightarrow> chat_message list \<Rightarrow> bool" where
  "shortened original h \<longleftrightarrow> valid_history h \<and> subseq h original \<and>
     (\<exists>k. h = ((\<lambda>x. snd (remove_oldest_history_item x)) ^^ k) original)"

lemma shortened_more: "shortened original h \<Longrightarrow> shortened original (snd (remove_oldest_history_item h))"
  unfolding shortened_def by (metis funpow.simps(2) comp_apply making_room_keeps_valid subseq_order.trans subseq_removed)

lemma requests_shortened:
  "shortened original (cp_history cp) \<Longrightarrow> request \<in> set (compact_requests parse c rounds cp) \<Longrightarrow>
     \<exists>h. request = compact_request c h \<and> shortened original h"
proof (induction rounds arbitrary: cp)
  case (Cons r rs)
  show ?case
  proof (cases "request = compact_request c (cp_history cp)")
    case False
    obtain cp' where cp': "compact_step parse r cp = Inr cp'" "request \<in> set (compact_requests parse c rs cp')"
      using Cons.prems(2) False by (cases "compact_step parse r cp") (auto split: if_splits)
    from compact_step_history [OF cp'(1)] Cons.prems(1) have "shortened original (cp_history cp')"
      using shortened_more by metis
    from Cons.IH [OF this cp'(2)] show ?thesis .
  qed (use Cons.prems in blast)
qed simp


section \<open>Concrete runs\<close>

definition user_row :: "string \<Rightarrow> chat_message" where
  "user_row s = empty_message\<lparr>role := ''user'', content := s\<rparr>"

definition round_of :: "chat_outcome \<Rightarrow> compact_round" where
  "round_of out = \<lparr>cr_aborted_before = False, cr_outcome = out, cr_aborted_after = False, cr_wait_aborted = False\<rparr>"

theorem compacted_history_keeps_newest_witness:
  "\<exists>kept_rows. build_compacted_history [user_row ''old'', user_row ''new''] ''s'' 1 = kept_rows @ [summary_message ''s''] \<and>
     length kept_rows \<le> 2"
proof -
  have "user_messages [user_row ''old'', user_row ''new''] = [user_row ''old'', user_row ''new'']" by code_simp
  then show ?thesis
    using compacted_history_keeps_newest [of 1 "[user_row ''old'', user_row ''new'']" "''s''"] by auto
qed

definition asked_once :: compact_run where
  "asked_once = \<lparr>cp_history = normalize_messages_for_api [user_row ''old'', user_row ''new''], cp_items_removed = 0,
     cp_transient_retries = 0, cp_request_retries = 0, cp_delays = []\<rparr>"

lemma overflow_round_makes_room:
  "map (map content) (compact_requests (\<lambda>_. None) [user_row ''ctx'']
     [round_of (ChatThrows ''prompt is too long''), round_of (ChatResponse ''stop'' ''sum'' no_error)] asked_once) =
   [[''ctx'', ''old'', ''new'', compact_prompt], [''ctx'', ''new'', compact_prompt]]"
  by code_simp


theorem compaction_terminates_witness:
  "\<exists>result. compact_messages (\<lambda>_. []) (\<lambda>_. None) [user_row ''hi'']
     [round_of (ChatThrows ''prompt is too long''), round_of (ChatResponse ''stop'' ''sum'' no_error)] = Some result \<and>
   (co_performed result \<longleftrightarrow> co_error result = [])"
proof -
  let ?rounds = "[round_of (ChatThrows ''prompt is too long''), round_of (ChatResponse ''stop'' ''sum'' no_error)]"
  have "length (normalize_messages_for_api [user_row ''hi'']) = 1" by code_simp
  moreover have "filter (\<lambda>r. \<not> transient_round (\<lambda>_. None) r) ?rounds = ?rounds"
    by (simp add: transient_round_def round_of_def)
  ultimately show ?thesis
    using compaction_terminates [of "[user_row ''hi'']" "\<lambda>_. None" ?rounds "\<lambda>_. []"] by auto
qed

end
