(* ===== verification/SessionLog.thy ===== *)
theory SessionLog
  imports SessionCodec "HOL-Library.Sublist"
begin

text \<open>
  The session file of \<open>session/session_storage.cpp\<close>: one message per line, appended one at a time, and the
  reader that skips damaged lines.  The file is its bytes, \<open>None\<close> when there is none.  What each file
  operation reports, and how many bytes arrive when a write stops short or the process dies, is given with
  the call.  Printing and parsing JSON text are parameters.
\<close>

abbreviation line_feed :: char where "line_feed \<equiv> CHR 0x0A"
abbreviation carriage_return :: char where "carriage_return \<equiv> CHR 0x0D"

section \<open>Reading\<close>

record load_diagnostics =
  ld_malformed :: nat
  ld_partial_tail :: bool
  ld_unterminated :: bool

definition no_diagnostics :: load_diagnostics where
  "no_diagnostics = \<lparr>ld_malformed = 0, ld_partial_tail = False, ld_unterminated = False\<rparr>"

definition load_recovered :: "load_diagnostics \<Rightarrow> bool" where
  "load_recovered d \<longleftrightarrow> ld_malformed d > 0 \<or> ld_partial_tail d \<or> ld_unterminated d"

definition strip_cr :: "string \<Rightarrow> string" where
  "strip_cr s = (if s \<noteq> [] \<and> last s = carriage_return then butlast s else s)"

definition try_deserialize_session_record :: "(string \<Rightarrow> json option) \<Rightarrow> string \<Rightarrow> chat_message option" where
  "try_deserialize_session_record parse line =
     (case parse line of
        None \<Rightarrow> None
      | Some j \<Rightarrow> if \<not> is_object j \<or> value_str j ''role'' [] = [] then None else deserialize_message parse line)"

function load_loop ::
  "(string \<Rightarrow> json option) \<Rightarrow> string \<Rightarrow> chat_message list \<times> load_diagnostics \<Rightarrow> chat_message list \<times> load_diagnostics" where
  "load_loop parse rest (ms, d) =
     (if rest = [] then (ms, d)
      else if line_feed \<notin> set rest then
        (let tail = strip_cr rest
         in if tail = [] then (ms, d)
            else case try_deserialize_session_record parse tail of
              Some m \<Rightarrow> (ms @ [m], d\<lparr>ld_unterminated := True\<rparr>)
            | None \<Rightarrow> (ms, d\<lparr>ld_partial_tail := True\<rparr>))
      else let line = strip_cr (takeWhile (\<lambda>c. c \<noteq> line_feed) rest)
        in load_loop parse (tl (dropWhile (\<lambda>c. c \<noteq> line_feed) rest))
             (if line = [] then (ms, d)
              else case try_deserialize_session_record parse line of
                Some m \<Rightarrow> (ms @ [m], d)
              | None \<Rightarrow> (ms, d\<lparr>ld_malformed := ld_malformed d + 1\<rparr>)))"
  by pat_completeness auto
termination
proof (relation "measure (\<lambda>(parse, rest, acc). length rest)")
  fix rest :: string
  assume "rest \<noteq> []"
  moreover have "length (dropWhile (\<lambda>c. c \<noteq> line_feed) rest) \<le> length rest" by (rule length_dropWhile_le)
  ultimately show "((parse, tl (dropWhile (\<lambda>c. c \<noteq> line_feed) rest), acc), (parse, rest, ms, d)) \<in>
      measure (\<lambda>(parse, rest, acc). length rest)" for parse :: "string \<Rightarrow> json option" and acc ms and d :: load_diagnostics
    by (cases rest) auto
qed auto

definition load_messages_with_diagnostics ::
  "(string \<Rightarrow> json option) \<Rightarrow> string option \<Rightarrow> chat_message list \<times> load_diagnostics" where
  "load_messages_with_diagnostics parse file =
     (case file of None \<Rightarrow> ([], no_diagnostics) | Some bytes \<Rightarrow> load_loop parse bytes ([], no_diagnostics))"

definition load_messages :: "(string \<Rightarrow> json option) \<Rightarrow> string option \<Rightarrow> chat_message list" where
  "load_messages parse file = fst (load_messages_with_diagnostics parse file)"

section \<open>Writing\<close>

text \<open>\<open>ai_written\<close>: \<open>None\<close> when all bytes reach the file, otherwise how many do.\<close>

record append_io =
  ai_serialize_throws :: bool
  ai_directories :: bool
  ai_exists_known :: bool
  ai_regular :: bool
  ai_size_known :: bool
  ai_tail_opens :: bool
  ai_tail_read :: bool
  ai_opens :: bool
  ai_written :: "nat option"

definition record_bytes :: "(json \<Rightarrow> string) \<Rightarrow> chat_message \<Rightarrow> string \<Rightarrow> string" where
  "record_bytes dump m old =
     (if old \<noteq> [] \<and> last old \<noteq> line_feed then [line_feed] else []) @ serialize_message dump m @ [line_feed]"

definition bytes_of_file :: "string option \<Rightarrow> string" where
  "bytes_of_file file = (case file of None \<Rightarrow> [] | Some bytes \<Rightarrow> bytes)"

definition append_message ::
  "append_io \<Rightarrow> (json \<Rightarrow> string) \<Rightarrow> chat_message \<Rightarrow> string option \<Rightarrow> bool \<times> string option" where
  "append_message io dump m file =
     (if ai_serialize_throws io then (False, file)
      else if \<not> ai_directories io then (False, file)
      else if \<not> ai_exists_known io then (False, file)
      else if file \<noteq> None \<and> (\<not> ai_regular io \<or> \<not> ai_size_known io) then (False, file)
      else if bytes_of_file file \<noteq> [] \<and> (\<not> ai_tail_opens io \<or> \<not> ai_tail_read io) then (False, file)
      else if \<not> ai_opens io then (False, file)
      else let old = bytes_of_file file; new = record_bytes dump m old
        in case ai_written io of
             None \<Rightarrow> (True, Some (old @ new))
           | Some n \<Rightarrow> (False, Some (old @ take n new)))"

text \<open>The rewrite of a whole file; the replacement is atomic.\<close>

definition write_messages :: "bool \<Rightarrow> (json \<Rightarrow> string) \<Rightarrow> chat_message list \<Rightarrow> string option \<Rightarrow> string option" where
  "write_messages replaced dump ms file =
     (if replaced then Some (concat (map (\<lambda>m. serialize_message dump m @ [line_feed]) ms)) else file)"

text \<open>A sequence of appends, of this and of later processes: the messages for which the call reported
  success, and the file.\<close>

fun append_run ::
  "(json \<Rightarrow> string) \<Rightarrow> (append_io \<times> chat_message) list \<Rightarrow> string option \<Rightarrow> chat_message list \<times> string option" where
  "append_run dump [] file = ([], file)"
| "append_run dump ((io, m) # run) file =
     (case append_message io dump m file of
        (ok, file1) \<Rightarrow> (case append_run dump run file1 of (acknowledged, file2) \<Rightarrow>
          (if ok then m # acknowledged else acknowledged, file2)))"

section \<open>What a file holds\<close>

definition line_messages :: "(string \<Rightarrow> json option) \<Rightarrow> string \<Rightarrow> chat_message list" where
  "line_messages parse line =
     (if strip_cr line = [] then []
      else case try_deserialize_session_record parse (strip_cr line) of Some m \<Rightarrow> [m] | None \<Rightarrow> [])"

definition held :: "(string \<Rightarrow> json option) \<Rightarrow> string \<Rightarrow> chat_message list" where
  "held parse bytes = concat (map (line_messages parse) (split_on line_feed bytes))"

declare load_loop.simps [simp del]

lemma split_on_sep: "split_on d (s @ d # t) = split_on d s @ split_on d t"
proof (induction s)
  case (Cons c s)
  then show ?case by (cases "split_on d s") (auto dest: split_on_not_Nil [THEN notE])
qed simp

lemma held_simps [simp]:
  "held parse [] = []" "held parse (s @ line_feed # t) = held parse s @ held parse t"
  "held parse (s @ [line_feed]) = held parse s"
  by (simp_all add: held_def split_on_sep line_messages_def strip_cr_def)

lemma held_line: "line_feed \<notin> set s \<Longrightarrow> held parse s = line_messages parse s"
  by (simp add: held_def split_on_sepfree)

lemma cut_at_sep:
  "d \<notin> set s \<Longrightarrow> takeWhile (\<lambda>c. c \<noteq> d) (s @ d # t) = s"
  "d \<notin> set s \<Longrightarrow> dropWhile (\<lambda>c. c \<noteq> d) (s @ d # t) = d # t"
  by (induction s) auto

lemma load_loop_held: "fst (load_loop parse rest (ms, d)) = ms @ held parse rest"
proof (induction parse rest "(ms, d)" arbitrary: ms d rule: load_loop.induct)
  case (1 parse rest ms d)
  consider "rest = []" | "rest \<noteq> []" "line_feed \<notin> set rest" | "rest \<noteq> []" "line_feed \<in> set rest" by blast
  then show ?case
  proof cases
    case 2
    then show ?thesis
      by (subst load_loop.simps) (simp add: held_line line_messages_def Let_def split: option.split)
  next
    case 3
    let ?line = "takeWhile (\<lambda>c. c \<noteq> line_feed) rest"
    let ?rest = "tl (dropWhile (\<lambda>c. c \<noteq> line_feed) rest)"
    have "dropWhile (\<lambda>c. c \<noteq> line_feed) rest \<noteq> []" using 3(2) by (simp add: dropWhile_eq_Nil_conv)
    moreover from this have "hd (dropWhile (\<lambda>c. c \<noteq> line_feed) rest) = line_feed"
      using hd_dropWhile [of "\<lambda>c. c \<noteq> line_feed" rest] by simp
    ultimately have "dropWhile (\<lambda>c. c \<noteq> line_feed) rest = line_feed # ?rest" by (metis list.collapse)
    then have rest: "rest = ?line @ line_feed # ?rest" by (metis takeWhile_dropWhile_id)
    have "line_feed \<notin> set ?line" by (auto dest: set_takeWhileD)
    then have h: "held parse rest = line_messages parse ?line @ held parse ?rest"
      by (subst rest) (simp add: held_line)
    obtain ms' d' where acc: "(if strip_cr ?line = [] then (ms, d)
        else case try_deserialize_session_record parse (strip_cr ?line) of
          Some m \<Rightarrow> (ms @ [m], d) | None \<Rightarrow> (ms, d\<lparr>ld_malformed := ld_malformed d + 1\<rparr>)) = (ms', d')"
      by (metis surj_pair)
    then have "ms' = ms @ line_messages parse ?line" by (auto simp: line_messages_def split: if_splits option.splits)
    moreover have "fst (load_loop parse ?rest (ms', d')) = ms' @ held parse ?rest"
      using 1 [OF 3(1) _ refl acc] 3(2) by simp
    moreover have "load_loop parse rest (ms, d) = load_loop parse ?rest (ms', d')"
      using 3 acc by (subst load_loop.simps) (simp add: Let_def)
    ultimately show ?thesis using h by simp
  qed (simp add: load_loop.simps)
qed

lemma load_messages_held: "load_messages parse file = held parse (bytes_of_file file)"
  by (simp add: load_messages_def load_messages_with_diagnostics_def load_loop_held bytes_of_file_def split: option.split)

section \<open>Appending\<close>

text \<open>What is relied on from the JSON library and of the rows: a message is printed on one line without
  raw control characters, reads back, and no proper part of an object's text is itself a JSON text; rows
  have a role.\<close>

definition record_ok :: "(json \<Rightarrow> string) \<Rightarrow> (string \<Rightarrow> json option) \<Rightarrow> chat_message \<Rightarrow> bool" where
  "record_ok dump parse m \<longleftrightarrow>
     (let text = dump (message_object m)
      in parse text = Some (message_object m) \<and> line_feed \<notin> set text \<and> carriage_return \<notin> set text \<and>
         list_all (\<lambda>n. parse (take n text) = None) [0..<length text] \<and> text \<noteq> [] \<and> role m \<noteq> [])"

lemma strip_cr_id: "carriage_return \<notin> set s \<Longrightarrow> strip_cr s = s"
  by (metis last_in_set strip_cr_def)

lemma whole_record_read:
  assumes "record_ok dump parse m"
  shows "held parse (serialize_message dump m) = [stored_message m]"
proof -
  let ?s = "serialize_message dump m"
  have s: "parse ?s = Some (message_object m)" "line_feed \<notin> set ?s" "strip_cr ?s = ?s" "?s \<noteq> []" "role m \<noteq> []"
    using assms by (auto simp: record_ok_def serialize_message_def Let_def strip_cr_id)
  moreover have "is_object (message_object m)" by (simp add: message_object_def)
  ultimately have "try_deserialize_session_record parse ?s = Some (stored_message m)"
    by (simp add: try_deserialize_session_record_def deserialize_message_def message_entries message_object_roundtrip)
  with s show ?thesis by (simp add: held_line line_messages_def)
qed

lemma cut_record_skipped:
  assumes "record_ok dump parse m" "n < length (serialize_message dump m)"
  shows "held parse (take n (serialize_message dump m)) = []"
proof -
  let ?s = "take n (serialize_message dump m)"
  have sub: "set ?s \<subseteq> set (serialize_message dump m)" by (rule set_take_subset)
  then have s: "line_feed \<notin> set ?s" "strip_cr ?s = ?s"
    using assms(1) by (auto simp: record_ok_def serialize_message_def Let_def intro!: strip_cr_id)
  have "parse ?s = None"
    using assms by (auto simp: record_ok_def serialize_message_def Let_def list_all_iff)
  with s show ?thesis by (simp add: held_line line_messages_def try_deserialize_session_record_def)
qed

lemma cut_write:
  assumes "record_ok dump parse m"
  shows "held parse (old @ take n (record_bytes dump m old)) =
    held parse old @ (if n \<ge> length (record_bytes dump m old) - 1 then [stored_message m] else [])"
proof -
  let ?s = "serialize_message dump m"
  have ne: "?s \<noteq> []" using assms by (simp add: record_ok_def serialize_message_def Let_def)
  have cut: "held parse (take k (?s @ [line_feed])) = (if k \<ge> length ?s then [stored_message m] else [])" for k
    using whole_record_read [OF assms] cut_record_skipped [OF assms, of k]
    by (cases "k - length ?s") auto
  show ?thesis
  proof (cases "old \<noteq> [] \<and> last old \<noteq> line_feed")
    case True
    then show ?thesis using ne cut by (cases n) (auto simp: record_bytes_def)
  next
    case False
    then have "held parse (old @ take n (?s @ [line_feed])) = held parse old @ held parse (take n (?s @ [line_feed]))"
    proof (cases "old = []")
      case False
      with \<open>\<not> (old \<noteq> [] \<and> last old \<noteq> line_feed)\<close> obtain front where "old = front @ [line_feed]"
        by (metis append_butlast_last_id)
      then show ?thesis using held_simps(2) [of parse front] by simp
    qed simp
    with False cut [of n] show ?thesis by (auto simp: record_bytes_def)
  qed
qed

lemma append_message_effect:
  assumes "record_ok dump parse m" "append_message io dump m file = (ok, file')"
  shows "\<exists>landed. load_messages parse file' = load_messages parse file @ (if landed then [stored_message m] else []) \<and>
    (ok \<longrightarrow> landed)"
proof -
  let ?old = "bytes_of_file file"
  consider "file' = file" "\<not> ok" | n where "file' = Some (?old @ take n (record_bytes dump m ?old))"
      "ok \<longrightarrow> n = length (record_bytes dump m ?old)"
  proof (cases "file' = file \<and> \<not> ok")
    case False
    then have w: "(ok, file') = (case ai_written io of
         None \<Rightarrow> (True, Some (?old @ record_bytes dump m ?old))
       | Some n \<Rightarrow> (False, Some (?old @ take n (record_bytes dump m ?old))))"
      using assms(2) by (simp add: append_message_def Let_def split: if_splits)
    show ?thesis
    proof (cases "ai_written io")
      case None
      with w that(2) [of "length (record_bytes dump m ?old)"] show ?thesis by simp
    next
      case (Some n)
      with w that(2) [of n] show ?thesis by simp
    qed
  qed (use that(1) in blast)
  then show ?thesis
  proof cases
    case 1
    then show ?thesis by (intro exI [of _ False]) simp
  next
    case 2
    with cut_write [OF assms(1), of ?old n]
    show ?thesis
      by (intro exI [of _ "n \<ge> length (record_bytes dump m ?old) - 1"]) (auto simp: load_messages_held bytes_of_file_def)
  qed
qed

text \<open>C17: A session file survives crashes.  Whatever the file holds, damaged or not, after any sequence of
  appends, each of which may fail or be cut off at any byte, a reader sees what it saw before followed by the
  appended messages in their order: every one whose append reported success is there, and nothing that was
  not appended; a torn record never swallows the one behind it.\<close>

theorem session_log_survives_crashes:
  assumes "\<forall>(io, m)\<in>set run. record_ok dump parse m"
  shows "\<exists>kept. load_messages parse (snd (append_run dump run file)) = load_messages parse file @ map stored_message kept \<and>
    subseq (fst (append_run dump run file)) kept \<and> subseq kept (map snd run)"
  using assms
proof (induction run arbitrary: "file")
  case (Cons step run)
  obtain io m where step: "step = (io, m)" by fastforce
  obtain ok file1 where one: "append_message io dump m file = (ok, file1)" by fastforce
  have "record_ok dump parse m" using Cons.prems step by auto
  from append_message_effect [OF this one] obtain landed where
    l: "load_messages parse file1 = load_messages parse file @ (if landed then [stored_message m] else [])" "ok \<longrightarrow> landed"
    by blast
  obtain kept where k: "load_messages parse (snd (append_run dump run file1)) = load_messages parse file1 @ map stored_message kept"
      "subseq (fst (append_run dump run file1)) kept" "subseq kept (map snd run)"
    using Cons.IH [of file1] Cons.prems by auto
  show ?case
    using k l by (intro exI [of _ "if landed then m # kept else kept"])
      (auto simp: step one case_prod_unfold)
qed simp

section \<open>Rewriting\<close>

text \<open>A file that was rewritten as a whole reads back exactly, and without a complaint.\<close>

lemma rewritten_file_reads_back:
  assumes "\<forall>m\<in>set ms. record_ok dump parse m"
  shows "load_messages_with_diagnostics parse (write_messages True dump ms file) = (map stored_message ms, no_diagnostics)"
proof -
  have "load_loop parse (concat (map (\<lambda>m. serialize_message dump m @ [line_feed]) ms)) (acc, d) =
      (acc @ map stored_message ms, d)" for acc d
    using assms
  proof (induction ms arbitrary: acc)
    case (Cons m ms)
    let ?s = "serialize_message dump m"
    have s: "line_feed \<notin> set ?s" "strip_cr ?s = ?s" "?s \<noteq> []"
      using Cons.prems by (auto simp: record_ok_def serialize_message_def Let_def intro!: strip_cr_id)
    have "line_messages parse ?s = [stored_message m]"
      using whole_record_read [of dump parse m] Cons.prems s(1) by (simp add: held_line)
    then have t: "try_deserialize_session_record parse ?s = Some (stored_message m)"
      using s by (auto simp: line_messages_def split: option.splits)
    let ?more = "concat (map (\<lambda>m. serialize_message dump m @ [line_feed]) ms)"
    from s t have "load_loop parse (?s @ line_feed # ?more) (acc, d) = load_loop parse ?more (acc @ [stored_message m], d)"
      by (subst load_loop.simps) (simp add: Let_def cut_at_sep)
    with Cons show ?case by simp
  qed (simp add: load_loop.simps)
  then show ?thesis by (simp add: write_messages_def load_messages_with_diagnostics_def)
qed

section \<open>A concrete log\<close>

definition sample_row :: chat_message where
  "sample_row = empty_message\<lparr>role := ''user'', content := ''hi''\<rparr>"

definition append_ok :: append_io where
  "append_ok = \<lparr>ai_serialize_throws = False, ai_directories = True, ai_exists_known = True, ai_regular = True,
     ai_size_known = True, ai_tail_opens = True, ai_tail_read = True, ai_opens = True, ai_written = None\<rparr>"

definition sample_parse :: "string \<Rightarrow> json option" where
  "sample_parse text = (if text = ''{r}'' then Some (message_object sample_row) else None)"

theorem session_log_survives_crashes_witness:
  "load_messages sample_parse (snd (append_run (\<lambda>_. ''{r}'')
       [(append_ok\<lparr>ai_written := Some 2\<rparr>, sample_row), (append_ok, sample_row)] (Some ''{ol''))) =
     [stored_message sample_row]"
proof -
  have ok: "record_ok (\<lambda>_. ''{r}'') sample_parse sample_row"
    by (simp add: record_ok_def sample_parse_def sample_row_def upt_rec)
  have "fst (append_run (\<lambda>_. ''{r}'') [(append_ok\<lparr>ai_written := Some 2\<rparr>, sample_row), (append_ok, sample_row)] (Some ''{ol'')) =
      [sample_row]" "load_messages sample_parse (Some ''{ol'') = []"
    "length (load_messages sample_parse (snd (append_run (\<lambda>_. ''{r}'')
       [(append_ok\<lparr>ai_written := Some 2\<rparr>, sample_row), (append_ok, sample_row)] (Some ''{ol'')))) = 1"
    by code_simp+
  moreover obtain kept where "load_messages sample_parse (snd (append_run (\<lambda>_. ''{r}'')
       [(append_ok\<lparr>ai_written := Some 2\<rparr>, sample_row), (append_ok, sample_row)] (Some ''{ol''))) =
      load_messages sample_parse (Some ''{ol'') @ map stored_message kept"
    "subseq (fst (append_run (\<lambda>_. ''{r}'')
       [(append_ok\<lparr>ai_written := Some 2\<rparr>, sample_row), (append_ok, sample_row)] (Some ''{ol''))) kept"
    using session_log_survives_crashes [of "[(append_ok\<lparr>ai_written := Some 2\<rparr>, sample_row), (append_ok, sample_row)]"
        "\<lambda>_. ''{r}''" sample_parse "Some ''{ol''"] ok by auto
  ultimately show ?thesis by (cases kept) (auto split: if_splits)
qed

end
