(* ===== verification/ThreadRepair.thy ===== *)
theory ThreadRepair
  imports SessionLog Compaction
begin

text \<open>
  \<open>session/thread_repair.cpp\<close>: the deterministic repair of a thread whose history the provider rejects.
  It recovers the history, drops the oldest user turns until the rest fits, and records the outcome as a
  checkpoint in the session file.
\<close>

section \<open>The repair\<close>

datatype repair_status = NoChange | Repaired | HistoryExhausted | RepairFailed

record repair_options =
  ro_trigger :: string
  ro_target_tokens :: int
  ro_force_prune :: bool

record repair_result =
  rr_status :: repair_status
  rr_history_issues :: recovery_stats
  rr_load_issues :: load_diagnostics
  rr_replacement :: "chat_message list"
  rr_checkpoint :: compact_checkpoint
  rr_pre_tokens :: int
  rr_post_tokens :: int
  rr_pruned_groups :: nat
  rr_pruned_messages :: nat
  rr_reason :: string

definition empty_checkpoint :: compact_checkpoint where
  "empty_checkpoint = \<lparr>cc_version = 2, cc_id = [], cc_timestamp = [], cc_trigger = [], cc_summary = [],
     cc_messages_compressed = 0, cc_tokens_saved = 0, cc_pre_tokens = 0, cc_post_tokens = 0, cc_window_number = 0,
     cc_first_window_id = [], cc_previous_window_id = [], cc_window_id = [], cc_replacement_history = []\<rparr>"

definition status_text :: "repair_status \<Rightarrow> string" where
  "status_text s =
     (case s of NoChange \<Rightarrow> ''noChange'' | Repaired \<Rightarrow> ''repaired'' | HistoryExhausted \<Rightarrow> ''historyExhausted''
      | RepairFailed \<Rightarrow> ''failed'')"

definition real_user_starts :: "chat_message list \<Rightarrow> nat list" where
  "real_user_starts ms = filter (\<lambda>i. is_real_user_message (ms ! i)) [0..<length ms]"

text \<open>The loop, over the starts of the turns behind the first: how many turns are dropped, and from where
  the history is kept.\<close>

fun prune_groups ::
  "(json \<Rightarrow> string) \<Rightarrow> repair_options \<Rightarrow> int \<Rightarrow> chat_message list \<Rightarrow> nat list \<Rightarrow> nat \<Rightarrow> nat \<Rightarrow> nat \<times> nat" where
  "prune_groups dump options pre_tokens ms [] groups keep_from = (groups, keep_from)"
| "prune_groups dump options pre_tokens ms (start # starts) groups keep_from =
     (let force_first = (ro_force_prune options \<and> groups = 0);
          current = (if keep_from = 0 then pre_tokens else estimate_message_tokens dump (drop keep_from ms));
          over_target = (ro_target_tokens options > 0 \<and> current > ro_target_tokens options)
      in if \<not> force_first \<and> \<not> over_target then (groups, keep_from)
         else prune_groups dump options pre_tokens ms starts (groups + 1) start)"

definition plan_thread_repair ::
  "(json \<Rightarrow> string) \<Rightarrow> (string \<Rightarrow> json option) \<Rightarrow> string \<Rightarrow> string \<Rightarrow> chat_message list \<Rightarrow> repair_options \<Rightarrow>
     load_diagnostics \<Rightarrow> repair_result" where
  "plan_thread_repair dump parse new_uuid now raw options diagnostics =
     (case reconstruct_with_recovery (decode_compact_checkpoint dump parse) raw of (recovered_rows, stats) \<Rightarrow>
        let pre = estimate_message_tokens dump recovered_rows;
            target_requires_prune = (ro_target_tokens options > 0 \<and> pre > ro_target_tokens options)
        in case prune_groups dump options pre recovered_rows (tl (real_user_starts recovered_rows)) 0 0 of (groups, keep_from) \<Rightarrow>
          let replacement = (if keep_from > 0 then fst (recover_provider_history (drop keep_from recovered_rows))
                             else recovered_rows);
              post = estimate_message_tokens dump replacement;
              result = \<lparr>rr_status = NoChange, rr_history_issues = stats, rr_load_issues = diagnostics,
                rr_replacement = replacement, rr_checkpoint = empty_checkpoint, rr_pre_tokens = pre, rr_post_tokens = post,
                rr_pruned_groups = groups, rr_pruned_messages = keep_from, rr_reason = []\<rparr>;
              recovery_changed = (stats_changed stats \<or> load_recovered diagnostics)
          in if groups = 0 \<and> \<not> recovery_changed
             then (if target_requires_prune \<or> ro_force_prune options
                   then result\<lparr>rr_status := HistoryExhausted, rr_reason := ''no removable completed user-turn group remains''\<rparr>
                   else result\<lparr>rr_status := NoChange, rr_reason := ''provider history is already consistent''\<rparr>)
             else result\<lparr>rr_status := Repaired,
               rr_reason := (if groups > 0 then ''old completed user-turn groups were pruned''
                             else ''provider history structure was recovered''),
               rr_checkpoint := empty_checkpoint\<lparr>cc_id := new_uuid, cc_timestamp := now, cc_trigger := ro_trigger options,
                 cc_summary := ''Deterministic thread repair'', cc_messages_compressed := int keep_from,
                 cc_tokens_saved := max 0 (pre - post), cc_pre_tokens := pre, cc_post_tokens := post,
                 cc_replacement_history := replacement\<rparr>\<rparr>)"

text \<open>\<open>SessionManager::append_compact_checkpoint\<close>; whether the session is started and has its files is
  given.\<close>

definition append_compact_checkpoint ::
  "append_io \<Rightarrow> bool \<Rightarrow> (json \<Rightarrow> string) \<Rightarrow> (string \<Rightarrow> json option) \<Rightarrow> string \<Rightarrow> string \<Rightarrow> compact_checkpoint \<Rightarrow>
     string option \<Rightarrow> bool \<times> string option" where
  "append_compact_checkpoint io created dump parse new_uuid now checkpoint file =
     (if \<not> created then (False, file)
      else append_message io dump (encode_compact_checkpoint dump parse new_uuid now checkpoint) file)"

text \<open>With the session manager, \<open>None\<close> when there is none.\<close>

definition apply_thread_repair ::
  "(append_io \<times> bool) option \<Rightarrow> (json \<Rightarrow> string) \<Rightarrow> (string \<Rightarrow> json option) \<Rightarrow> string \<Rightarrow> string \<Rightarrow> repair_options \<Rightarrow>
     load_diagnostics \<Rightarrow> chat_message list \<times> string option \<Rightarrow> repair_result \<times> chat_message list \<times> string option" where
  "apply_thread_repair manager dump parse new_uuid now options diagnostics = (\<lambda>(history, file).
     let result = plan_thread_repair dump parse new_uuid now history options diagnostics
     in if rr_status result \<noteq> Repaired then (result, history, file)
        else case manager of
          None \<Rightarrow> (result\<lparr>rr_status := RepairFailed, rr_reason := ''active session manager is unavailable''\<rparr>, history, file)
        | Some (io, created) \<Rightarrow>
            (case append_compact_checkpoint io created dump parse new_uuid now (rr_checkpoint result) file of
               (appended, file') \<Rightarrow>
                 if \<not> appended
                 then (result\<lparr>rr_status := RepairFailed, rr_reason := ''failed to append repair checkpoint''\<rparr>, history, file')
                 else (result, rr_replacement result, file')))"

text \<open>The report.\<close>

definition thread_repair_result_to_json :: "repair_result \<Rightarrow> string \<Rightarrow> json" where
  "thread_repair_result_to_json r thread_id =
     JObj ([(''status'', JStr (status_text (rr_status r))),
        (''issues'', JObj
          [(''malformedToolCalls'', JInt (int (malformed_calls (rr_history_issues r)))),
           (''duplicateToolCalls'', JInt (int (duplicate_calls (rr_history_issues r)))),
           (''synthesizedToolResults'', JInt (int (synthesized_results (rr_history_issues r)))),
           (''standaloneToolResults'', JInt (int (standalone_results (rr_history_issues r)))),
           (''unexpectedToolResults'', JInt (int (unexpected_results (rr_history_issues r)))),
           (''duplicateToolResults'', JInt (int (duplicate_results (rr_history_issues r)))),
           (''emptyAssistantMessages'', JInt (int (empty_assistants (rr_history_issues r)))),
           (''malformedRecords'', JInt (int (ld_malformed (rr_load_issues r)))),
           (''ignoredPartialTail'', JBool (ld_partial_tail (rr_load_issues r))),
           (''recoveredUnterminatedRecord'', JBool (ld_unterminated (rr_load_issues r)))]),
        (''preTokens'', JInt (rr_pre_tokens r)), (''postTokens'', JInt (rr_post_tokens r)),
        (''prunedGroups'', JInt (int (rr_pruned_groups r))), (''prunedMessages'', JInt (int (rr_pruned_messages r))),
        (''checkpointId'', (if cc_id (rr_checkpoint r) = [] then JNull else JStr (cc_id (rr_checkpoint r)))),
        (''reason'', JStr (rr_reason r))] @
       (if thread_id \<noteq> [] then [(''threadId'', JStr thread_id)] else []))"

section \<open>What pruning keeps\<close>

text \<open>Where the history starts after \<open>k\<close> turns were dropped.\<close>

definition keep_start :: "nat list \<Rightarrow> nat \<Rightarrow> nat" where
  "keep_start starts k = (if k = 0 then 0 else starts ! k)"

definition fits_target :: "(json \<Rightarrow> string) \<Rightarrow> repair_options \<Rightarrow> chat_message list \<Rightarrow> bool" where
  "fits_target dump options ms \<longleftrightarrow> ro_target_tokens options \<le> 0 \<or> estimate_message_tokens dump ms \<le> ro_target_tokens options"

lemma real_user_starts_props:
  "sorted_wrt (<) (real_user_starts ms)"
  "i \<in> set (real_user_starts ms) \<longleftrightarrow> i < length ms \<and> is_real_user_message (ms ! i)"
  by (auto simp: real_user_starts_def sorted_wrt_filter)

lemma later_start_positive:
  assumes "0 < k" "k < length (real_user_starts ms)"
  shows "0 < real_user_starts ms ! k"
  using sorted_wrt_nth_less [OF real_user_starts_props(1), of 0 k ms] assms by simp

lemma prune_groups_spec:
  assumes "prune_groups dump options pre ms (drop (Suc g) starts) g (keep_start starts g) = (k, keep_from)"
    and "pre = estimate_message_tokens dump ms" "\<And>j. 0 < j \<Longrightarrow> j < length starts \<Longrightarrow> 0 < starts ! j"
    and "g = 0 \<or> g < length starts"
  shows "g \<le> k \<and> keep_from = keep_start starts k \<and> (k = 0 \<or> k < length starts) \<and>
    (\<forall>j. g \<le> j \<and> j < k \<longrightarrow> \<not> fits_target dump options (drop (keep_start starts j) ms) \<or> (ro_force_prune options \<and> j = 0)) \<and>
    (Suc k < length starts \<longrightarrow> fits_target dump options (drop keep_from ms) \<and> (ro_force_prune options \<longrightarrow> 0 < k))"
  using assms(1,4)
proof (induction "drop (Suc g) starts" arbitrary: g)
  case Nil
  then have "length starts \<le> Suc g" by simp
  with Nil show ?case by auto
next
  case (Cons s rest)
  then have g: "Suc g < length starts" by (metis drop_all list.discI not_le)
  with Cons.hyps(2) have s: "s = starts ! Suc g" "rest = drop (Suc (Suc g)) starts"
    by (simp_all add: Cons_nth_drop_Suc [symmetric])
  have cur: "(if keep_start starts g = 0 then pre else estimate_message_tokens dump (drop (keep_start starts g) ms)) =
      estimate_message_tokens dump (drop (keep_start starts g) ms)" using assms(2) by simp
  show ?case
  proof (cases "fits_target dump options (drop (keep_start starts g) ms) \<and> \<not> (ro_force_prune options \<and> g = 0)")
    case True
    then have "(k, keep_from) = (g, keep_start starts g)"
      using Cons.prems(1) cur unfolding Cons.hyps(2) [symmetric] by (auto simp: fits_target_def Let_def split: if_splits)
    with True g show ?thesis by auto
  next
    case False
    then have "prune_groups dump options pre ms (drop (Suc (Suc g)) starts) (Suc g) (keep_start starts (Suc g)) = (k, keep_from)"
      using Cons.prems(1) cur s unfolding Cons.hyps(2) [symmetric]
      by (auto simp: fits_target_def keep_start_def Let_def split: if_splits)
    note ih = Cons.hyps(1) [OF s(2) this disjI2 [OF g]]
    have "j = g \<or> Suc g \<le> j" if "g \<le> j" for j using that by auto
    with ih False show ?thesis by (metis Suc_leD)
  qed
qed

lemma suffix_at_user_valid:
  assumes "valid_history ms" "i < length ms" "role (ms ! i) = ''user''"
  shows "valid_history (drop i ms)"
proof -
  obtain u where "scan {} {} (take i ms @ drop i ms) = Some ({}, u)"
    using assms(1) by (auto simp: valid_history_def split: option.splits)
  then obtain w1 u1 where s: "scan w1 u1 (drop i ms) = Some ({}, u)"
    by (auto simp: scan_append simp del: append_take_drop_id split: option.splits)
  have d: "drop i ms = ms ! i # drop (Suc i) ms" using assms(2) by (simp add: Cons_nth_drop_Suc)
  with s assms(3) have "w1 = {}" by (simp split: if_splits)
  with scan_fewer_used [OF s, of "{}"] show ?thesis by (auto simp: valid_history_def)
qed

lemma reconstructed_valid: "valid_history (fst (reconstruct_with_recovery decode raw))"
  using recovered_valid by (simp add: reconstruct_with_recovery_def split: option.split prod.split)

lemma plan_fields:
  assumes "reconstruct_with_recovery (decode_compact_checkpoint dump parse) raw = (rows, stats)"
    and "prune_groups dump options (estimate_message_tokens dump rows) rows (tl (real_user_starts rows)) 0 0 = (groups, keep_from)"
  shows "rr_pruned_groups (plan_thread_repair dump parse new_uuid now raw options diagnostics) = groups"
    "rr_pruned_messages (plan_thread_repair dump parse new_uuid now raw options diagnostics) = keep_from"
    "rr_replacement (plan_thread_repair dump parse new_uuid now raw options diagnostics) =
       (if keep_from > 0 then fst (recover_provider_history (drop keep_from rows)) else rows)"
  by (simp_all add: plan_thread_repair_def assms Let_def)

text \<open>A repair drops as few turns as the target allows.  The history that replaces the recovered one is a
  suffix of it that starts with a user's turn, or all of it; it follows the provider's protocol; every longer
  suffix is above the target (or is the whole history when one turn must go); and unless only the newest turn
  is left it meets the target.\<close>

lemma repair_drops_fewest_turns:
  fixes raw dump parse new_uuid now options diagnostics
  defines "rows \<equiv> fst (reconstruct_with_recovery (decode_compact_checkpoint dump parse) raw)"
  defines "starts \<equiv> real_user_starts rows"
  defines "r \<equiv> plan_thread_repair dump parse new_uuid now raw options diagnostics"
  shows "valid_history (rr_replacement r) \<and> rr_replacement r = drop (rr_pruned_messages r) rows \<and>
    rr_pruned_messages r = keep_start starts (rr_pruned_groups r) \<and>
    (rr_pruned_groups r = 0 \<or> rr_pruned_groups r < length starts) \<and>
    (\<forall>j < rr_pruned_groups r. \<not> fits_target dump options (drop (keep_start starts j) rows) \<or> (ro_force_prune options \<and> j = 0)) \<and>
    (Suc (rr_pruned_groups r) < length starts \<longrightarrow>
      fits_target dump options (rr_replacement r) \<and> (ro_force_prune options \<longrightarrow> 0 < rr_pruned_groups r))"
proof -
  obtain stats where rec: "reconstruct_with_recovery (decode_compact_checkpoint dump parse) raw = (rows, stats)"
    by (metis rows_def prod.collapse)
  obtain k keep_from where p: "prune_groups dump options (estimate_message_tokens dump rows) rows (tl starts) 0 0 = (k, keep_from)"
    by fastforce
  note fields = plan_fields [OF rec p [unfolded starts_def], of new_uuid now diagnostics, folded r_def]
  have v: "valid_history rows" unfolding rows_def by (rule reconstructed_valid)
  have "prune_groups dump options (estimate_message_tokens dump rows) rows (drop (Suc 0) starts) 0 (keep_start starts 0) = (k, keep_from)"
    using p by (simp add: drop_Suc keep_start_def)
  note spec = prune_groups_spec [OF this refl later_start_positive [of _ rows, folded starts_def] disjI1 [OF refl]]
  have keep: "drop keep_from rows = (if keep_from > 0 then fst (recover_provider_history (drop keep_from rows)) else rows) \<and>
      valid_history (drop keep_from rows)"
  proof (cases "keep_from = 0")
    case False
    have "keep_from = keep_start starts k" "k = 0 \<or> k < length starts" using spec by (blast, blast)
    with False have "keep_from = starts ! k" "k < length starts" by (simp_all add: keep_start_def split: if_splits)
    then have "keep_from \<in> set starts" by simp
    then have "keep_from < length rows" "role (rows ! keep_from) = ''user''"
      unfolding starts_def by (simp_all add: real_user_starts_props is_real_user_message_def)
    from suffix_at_user_valid [OF v this] recovery_is_idempotent show ?thesis by simp
  qed (use v in simp)
  have rep: "rr_replacement r = drop keep_from rows" using keep fields(3) by simp
  show ?thesis unfolding rep fields(1,2) using spec keep by blast
qed

section \<open>Memory and file agree\<close>

lemma stored_valid:
  assumes "valid_history ms"
  shows "valid_history (map stored_message ms)"
proof -
  have "scan w u ms = Some (w', u') \<Longrightarrow> scan w u (map stored_message ms) = Some (w', u')" for w u w' u'
  proof (induction ms arbitrary: w u)
    case (Cons m ms)
    have "call_ids (tool_calls m) = Some ids \<Longrightarrow> call_ids (tool_calls (stored_message m)) = Some ids" for ids
      by (auto simp: stored_message_def call_ids_def split: json.splits list.splits if_splits)
    moreover have "has_assistant_content m \<Longrightarrow> has_assistant_content (stored_message m)"
      by (auto simp: stored_message_def has_assistant_content_def split: json.splits list.splits)
    ultimately show ?case using Cons by (auto split: if_splits option.splits)
  qed simp
  then show ?thesis using assms by (auto simp: valid_history_def split: option.splits prod.splits)
qed

lemma stored_checkpoint_row [simp]:
  "stored_message (encode_compact_checkpoint dump parse u now c) = encode_compact_checkpoint dump parse u now c"
  by (simp add: stored_message_def encode_compact_checkpoint_def empty_message_def Let_def)

lemma estimate_range: "0 \<le> estimate_message_tokens dump ms" "estimate_message_tokens dump ms \<le> int32_max"
  using estimate_nonneg by (auto simp: estimate_message_tokens_def Let_def split: option.splits)

lemma repaired_checkpoint:
  assumes "rr_status (plan_thread_repair dump parse u now raw options diagnostics) = Repaired"
  shows "cc_replacement_history (rr_checkpoint (plan_thread_repair dump parse u now raw options diagnostics)) =
      rr_replacement (plan_thread_repair dump parse u now raw options diagnostics)"
    "rr_pruned_messages (plan_thread_repair dump parse u now raw options diagnostics) \<le> 2147483647 \<Longrightarrow>
      checkpoint_numbers_ok (rr_checkpoint (plan_thread_repair dump parse u now raw options diagnostics))"
proof -
  obtain rows stats where rec: "reconstruct_with_recovery (decode_compact_checkpoint dump parse) raw = (rows, stats)" by fastforce
  obtain k keep_from where p: "prune_groups dump options (estimate_message_tokens dump rows) rows (tl (real_user_starts rows)) 0 0 =
      (k, keep_from)" by fastforce
  let ?r = "plan_thread_repair dump parse u now raw options diagnostics"
  have c: "cc_replacement_history (rr_checkpoint ?r) = rr_replacement ?r \<and> cc_version (rr_checkpoint ?r) = 2 \<and>
      cc_messages_compressed (rr_checkpoint ?r) = int (rr_pruned_messages ?r) \<and>
      cc_pre_tokens (rr_checkpoint ?r) = estimate_message_tokens dump rows \<and>
      cc_post_tokens (rr_checkpoint ?r) = estimate_message_tokens dump (rr_replacement ?r) \<and>
      cc_tokens_saved (rr_checkpoint ?r) = max 0 (cc_pre_tokens (rr_checkpoint ?r) - cc_post_tokens (rr_checkpoint ?r))"
  proof -
    have np: "\<not> (k = 0 \<and> \<not> (stats_changed stats \<or> load_recovered diagnostics))"
      using assms unfolding plan_thread_repair_def rec p Let_def prod.case by (auto split: if_splits)
    then show ?thesis
      unfolding plan_thread_repair_def rec p Let_def prod.case if_not_P [OF np] by (simp add: empty_checkpoint_def)
  qed
  then show "cc_replacement_history (rr_checkpoint ?r) = rr_replacement ?r" by blast
  assume "rr_pruned_messages ?r \<le> 2147483647"
  with c estimate_range [of dump rows] estimate_range [of dump "rr_replacement ?r"]
  show "checkpoint_numbers_ok (rr_checkpoint ?r)"
    by (simp add: checkpoint_numbers_ok_def max_def)
qed

lemma repair_cases:
  assumes "apply_thread_repair manager dump parse u now options diagnostics (history, file) = (r, history', file')"
  defines "p \<equiv> plan_thread_repair dump parse u now history options diagnostics"
  shows "(\<exists>io. rr_status p = Repaired \<and> r = p \<and> history' = rr_replacement p \<and>
      append_message io dump (encode_compact_checkpoint dump parse u now (rr_checkpoint p)) file = (True, file')) \<or>
    rr_status r \<noteq> Repaired \<and> history' = history"
proof -
  note run = assms(1) [unfolded apply_thread_repair_def prod.case, folded p_def]
  show ?thesis
  proof (cases "rr_status p = Repaired")
    case rep: True
    show ?thesis
    proof (cases manager)
      case (Some pair)
      obtain io created where s: "manager = Some (io, created)" using Some by (cases pair) simp
      obtain appended f where a: "append_compact_checkpoint io created dump parse u now (rr_checkpoint p) file = (appended, f)"
        by fastforce
      show ?thesis
      proof (cases appended)
        case True
        with run rep s a have "(p, rr_replacement p, f) = (r, history', file')" by (auto simp: Let_def)
        then have "r = p" "history' = rr_replacement p" "file' = f" by auto
        moreover have "append_message io dump (encode_compact_checkpoint dump parse u now (rr_checkpoint p)) file = (True, f)"
          using a True by (simp add: append_compact_checkpoint_def split: if_splits)
        ultimately show ?thesis using rep by blast
      qed (use run rep s a in \<open>auto simp: Let_def\<close>)
    qed (use run rep in \<open>auto simp: Let_def\<close>)
  qed (use run in \<open>auto simp: Let_def\<close>)
qed

lemma repair_applied:
  assumes "apply_thread_repair manager dump parse u now options diagnostics (history, file) = (r, history', file')"
    and "rr_status r = Repaired"
  shows "\<exists>io. r = plan_thread_repair dump parse u now history options diagnostics \<and>
    history' = rr_replacement (plan_thread_repair dump parse u now history options diagnostics) \<and>
    append_message io dump (encode_compact_checkpoint dump parse u now
      (rr_checkpoint (plan_thread_repair dump parse u now history options diagnostics))) file = (True, file')"
  using repair_cases [OF assms(1)] assms(2) by blast

lemma repair_not_applied:
  assumes "apply_thread_repair manager dump parse u now options diagnostics (history, file) = (r, history', file')"
    and "rr_status r \<noteq> Repaired"
  shows "history' = history"
  using repair_cases [OF assms(1)] assms(2) by blast

text \<open>C18: A repaired thread survives a restart.  A repair that reports success has replaced the history by a
  valid one, and whoever reads the session file afterwards gets that history back, whatever the file held
  before; a repair that does not report success leaves the history as it was.\<close>

theorem repair_survives_restart:
  assumes "apply_thread_repair manager dump parse u now options diagnostics (history, file) = (r, history', file')"
    and "record_ok dump parse (encode_compact_checkpoint dump parse u now (rr_checkpoint r))"
    and "reads_back dump parse (rr_replacement r)" "rr_pruned_messages r \<le> 2147483647"
  shows "if rr_status r = Repaired
    then valid_history history' \<and>
      reconstruct_effective_model_history (decode_compact_checkpoint dump parse) (load_messages parse file') = map stored_message history'
    else history' = history"
proof (cases "rr_status r = Repaired")
  case True
  let ?p = "plan_thread_repair dump parse u now history options diagnostics"
  from repair_applied [OF assms(1) True] obtain io where a: "r = ?p" "history' = rr_replacement ?p"
    "append_message io dump (encode_compact_checkpoint dump parse u now (rr_checkpoint ?p)) file = (True, file')" by blast
  obtain landed where l: "load_messages parse file' = load_messages parse file @
      (if landed then [stored_message (encode_compact_checkpoint dump parse u now (rr_checkpoint ?p))] else [])" "landed"
    using append_message_effect [OF assms(2) [unfolded a(1)] a(3)] by blast
  have p: "rr_status ?p = Repaired" using True a(1) by simp
  note c = repaired_checkpoint(1) [OF p]
  have v: "valid_history (rr_replacement ?p)"
  proof -
    obtain rows stats where rec: "reconstruct_with_recovery (decode_compact_checkpoint dump parse) history = (rows, stats)" by fastforce
    obtain k keep_from where pr: "prune_groups dump options (estimate_message_tokens dump rows) rows (tl (real_user_starts rows)) 0 0 =
      (k, keep_from)" by fastforce
    have "valid_history rows" using reconstructed_valid [of "decode_compact_checkpoint dump parse" history] rec by simp
    then show ?thesis using recovered_valid by (simp add: plan_fields(3) [OF rec pr])
  qed
  have "reads_back dump parse (cc_replacement_history (rr_checkpoint ?p))" using assms(3) a(1) c by simp
  moreover have "checkpoint_numbers_ok (rr_checkpoint ?p)" using repaired_checkpoint(2) [OF p] assms(4) a(1) by simp
  ultimately have "reconstruct_effective_model_history (decode_compact_checkpoint dump parse) (load_messages parse file') =
      fst (recover_provider_history (map stored_message (rr_replacement ?p)))"
    using history_after_checkpoint [of dump parse "rr_checkpoint ?p" "[]" "load_messages parse file" u now] l c
    by (simp add: provider_relevant_messages_def)
  with recovery_is_idempotent stored_valid [OF v] v True a(2) show ?thesis by simp
next
  case False
  with repair_not_applied [OF assms(1)] show ?thesis by simp
qed

section \<open>A concrete thread\<close>

definition sample_thread :: "chat_message list" where
  "sample_thread = [empty_message\<lparr>role := ''user'', content := ''a''\<rparr>, empty_message\<lparr>role := ''assistant'', content := ''b''\<rparr>,
     empty_message\<lparr>role := ''user'', content := ''c''\<rparr>]"

definition sample_options :: repair_options where
  "sample_options = \<lparr>ro_trigger = ''t'', ro_target_tokens = 1, ro_force_prune = True\<rparr>"

definition repaired_row :: chat_message where
  "repaired_row = empty_message\<lparr>role := ''user'', content := ''c''\<rparr>"

text \<open>The JSON library cut down to the two rows of the example.\<close>

definition thread_dump :: "json \<Rightarrow> string" where
  "thread_dump j = (if value_str j ''uuid'' [] = [] then ''{u}'' else ''{c}'')"

definition checkpoint_text :: json where
  "checkpoint_text = message_object (encode_compact_checkpoint thread_dump (\<lambda>_. Some (message_object repaired_row)) ''u'' ''n''
     (rr_checkpoint (plan_thread_repair thread_dump (\<lambda>_. Some (message_object repaired_row)) ''u'' ''n'' sample_thread
        sample_options no_diagnostics)))"

definition thread_parse :: "string \<Rightarrow> json option" where
  "thread_parse text = (if text = ''{u}'' then Some (message_object repaired_row)
     else if text = ''{c}'' then Some checkpoint_text else None)"

definition sample_repair :: "repair_result \<times> chat_message list \<times> string option" where
  "sample_repair = apply_thread_repair (Some (append_ok, True)) thread_dump thread_parse ''u'' ''n'' sample_options no_diagnostics
     (sample_thread, Some ''{torn'')"


lemma thread_reconstructed:
  "reconstruct_with_recovery (decode_compact_checkpoint dump parse) sample_thread = (sample_thread, no_stats)"
proof -
  have "last_checkpoint (decode_compact_checkpoint dump parse) (rev sample_thread) [] = None"
    by (simp add: sample_thread_def decode_compact_checkpoint_def is_compact_checkpoint_message_def empty_message_def)
  moreover have "recover_provider_history (provider_relevant_messages sample_thread) = (sample_thread, no_stats)" by code_simp
  ultimately show ?thesis by (simp add: reconstruct_with_recovery_def)
qed

lemma thread_starts: "real_user_starts sample_thread = [0, 2]"
  by code_simp

lemma thread_pruned:
  "prune_groups thread_dump sample_options pre sample_thread [2] 0 0 = (1, 2)"
  "recover_provider_history (drop 2 sample_thread) = ([repaired_row], no_stats)"
  by (simp add: sample_options_def) code_simp

abbreviation sample_plan :: "(string \<Rightarrow> json option) \<Rightarrow> repair_result" where
  "sample_plan parse \<equiv> plan_thread_repair thread_dump parse ''u'' ''n'' sample_thread sample_options no_diagnostics"

lemma thread_plan:
  "rr_status (sample_plan parse) = Repaired" "rr_replacement (sample_plan parse) = [repaired_row]"
  "rr_pruned_messages (sample_plan parse) = 2" "rr_pruned_groups (sample_plan parse) = 1"
  "cc_replacement_history (rr_checkpoint (sample_plan parse)) = [repaired_row]"
  "cc_id (rr_checkpoint (sample_plan parse)) = ''u''" "cc_timestamp (rr_checkpoint (sample_plan parse)) = ''n''"
  by (simp_all add: plan_thread_repair_def thread_reconstructed thread_starts thread_pruned Let_def del: prune_groups.simps)

lemma plan_any_parser: "sample_plan parse = sample_plan parse'"
  by (simp add: plan_thread_repair_def thread_reconstructed thread_starts thread_pruned Let_def del: prune_groups.simps)

lemma row_parses: "thread_parse (thread_dump (message_object repaired_row)) = Some (message_object repaired_row)"
proof -
  have "value_str (message_object repaired_row) ''uuid'' [] = []" by (simp add: message_entries repaired_row_def empty_message_def)
  then show ?thesis by (simp add: thread_dump_def thread_parse_def)
qed

lemma checkpoint_row:
  "encode_compact_checkpoint thread_dump thread_parse ''u'' ''n'' (rr_checkpoint (sample_plan thread_parse)) =
   encode_compact_checkpoint thread_dump (\<lambda>_. Some (message_object repaired_row)) ''u'' ''n''
     (rr_checkpoint (sample_plan (\<lambda>_. Some (message_object repaired_row))))"
  using row_parses plan_any_parser [of thread_parse "\<lambda>_. Some (message_object repaired_row)"]
  by (simp add: encode_compact_checkpoint_def thread_plan message_to_json_def serialize_message_def Let_def)

lemma checkpoint_row_ok:
  "record_ok thread_dump thread_parse
     (encode_compact_checkpoint thread_dump thread_parse ''u'' ''n'' (rr_checkpoint (sample_plan thread_parse)))"
proof -
  let ?m = "encode_compact_checkpoint thread_dump thread_parse ''u'' ''n'' (rr_checkpoint (sample_plan thread_parse))"
  have "value_str (message_object ?m) ''uuid'' [] = ''u''"
    by (simp add: message_entries) (simp add: encode_compact_checkpoint_def thread_plan Let_def)
  then have d: "thread_dump (message_object ?m) = ''{c}''" by (simp add: thread_dump_def)
  have "message_object ?m = checkpoint_text" unfolding checkpoint_text_def checkpoint_row by simp
  with d show ?thesis by (simp add: record_ok_def thread_parse_def upt_rec)
qed

theorem repair_survives_restart_witness:
  "\<exists>r file'. apply_thread_repair (Some (append_ok, True)) thread_dump thread_parse ''u'' ''n'' sample_options no_diagnostics
       (sample_thread, Some ''{torn'') = (r, [repaired_row], file') \<and> rr_status r = Repaired \<and>
     reconstruct_effective_model_history (decode_compact_checkpoint thread_dump thread_parse)
       (load_messages thread_parse file') = [repaired_row]"
proof -
  let ?m = "encode_compact_checkpoint thread_dump thread_parse ''u'' ''n'' (rr_checkpoint (sample_plan thread_parse))"
  obtain file' where "append_message append_ok thread_dump ?m (Some ''{torn'') = (True, file')"
    by (simp add: append_message_def append_ok_def Let_def)
  then have run: "apply_thread_repair (Some (append_ok, True)) thread_dump thread_parse ''u'' ''n'' sample_options no_diagnostics
       (sample_thread, Some ''{torn'') = (sample_plan thread_parse, [repaired_row], file')"
    by (simp add: apply_thread_repair_def append_compact_checkpoint_def thread_plan)
  have "reads_back thread_dump thread_parse (rr_replacement (sample_plan thread_parse))"
    by (simp add: thread_plan reads_back_def row_parses)
  from repair_survives_restart [OF run checkpoint_row_ok this]
  have "reconstruct_effective_model_history (decode_compact_checkpoint thread_dump thread_parse) (load_messages thread_parse file') =
      map stored_message [repaired_row]"
    by (simp add: thread_plan)
  moreover have "map stored_message [repaired_row] = [repaired_row]"
    by (simp add: repaired_row_def stored_message_def empty_message_def)
  ultimately have "reconstruct_effective_model_history (decode_compact_checkpoint thread_dump thread_parse)
      (load_messages thread_parse file') = [repaired_row]" by (rule trans)
  with run thread_plan(1) show ?thesis by blast
qed

lemma repair_drops_fewest_turns_witness:
  "valid_history (rr_replacement (sample_plan thread_parse)) \<and>
   drop (rr_pruned_messages (sample_plan thread_parse)) sample_thread = [repaired_row] \<and>
   rr_pruned_messages (sample_plan thread_parse) = keep_start [0, 2] 1"
  using repair_drops_fewest_turns [of thread_dump thread_parse "''u''" "''n''" sample_thread sample_options no_diagnostics]
    thread_plan(2,4) [of thread_parse]
  unfolding thread_reconstructed thread_starts fst_conv by metis

end
