(* ===== verification/ToolRegistry.thy ===== *)
theory ToolRegistry
  imports SortedMap HistoryRecovery DoomGuard
begin

text \<open>
  The registry of \<open>tool/tool_executor.cpp\<close> and the names the model sees (\<open>tool/tool_protocol_names.cpp\<close>):
  four built-in tools are offered under shorter names, and a name the model calls is resolved back to the
  registered tool.  What a tool does when it runs is a parameter.
\<close>

section \<open>Names\<close>

definition model_tool_name_mappings :: "(string \<times> string) list" where
  "model_tool_name_mappings =
     [(''file_write'', ''write''), (''file_edit'', ''edit''), (''file_read'', ''read''), (''TodoWrite'', ''todowrite'')]"

definition model_tool_name_for_native :: "string \<Rightarrow> string" where
  "model_tool_name_for_native native_name =
     (case find (\<lambda>(n, p). n = native_name) model_tool_name_mappings of Some (n, p) \<Rightarrow> p | None \<Rightarrow> native_name)"

definition native_tool_name_for_public_alias :: "string \<Rightarrow> string option" where
  "native_tool_name_for_public_alias public_name =
     map_option fst (find (\<lambda>(n, p). p = public_name) model_tool_name_mappings)"

text \<open>The first loop of the check over the mappings, with the names seen so far, and the second one.\<close>

fun check_mappings :: "string list \<Rightarrow> string list \<Rightarrow> (string \<times> string) list \<Rightarrow> string option" where
  "check_mappings natives publics [] = None"
| "check_mappings natives publics ((n, p) # ms) =
     (if n = [] \<or> p = [] then Some ''tool protocol names must not be empty''
      else if n = p then Some (''tool protocol mapping must change the native name '' @ [CHR 0x27] @ n @ [CHR 0x27])
      else if n \<in> set natives then Some (''duplicate native tool protocol name '' @ [CHR 0x27] @ n @ [CHR 0x27])
      else if p \<in> set publics then Some (''duplicate public tool protocol name '' @ [CHR 0x27] @ p @ [CHR 0x27])
      else check_mappings (n # natives) (p # publics) ms)"

definition validate_model_tool_name_mappings :: "(string \<times> string) list \<Rightarrow> string option" where
  "validate_model_tool_name_mappings ms =
     (case check_mappings [] [] ms of
        Some e \<Rightarrow> Some e
      | None \<Rightarrow>
          (case find (\<lambda>(n, p). p \<in> fst ` set ms) ms of
             Some (n, p) \<Rightarrow> Some (''public tool protocol name '' @ [CHR 0x27] @ p @ [CHR 0x27] @ '' collides with a mapped native name'')
           | None \<Rightarrow> None))"

record tool_def =
  td_name :: string
  td_description :: string
  td_parameters :: json

text \<open>\<open>Inl\<close> is the error.\<close>

fun translate_loop :: "string list \<Rightarrow> tool_def list \<Rightarrow> string + tool_def list" where
  "translate_loop emitted [] = Inr []"
| "translate_loop emitted (d # ds) =
     (let d' = d\<lparr>td_name := model_tool_name_for_native (td_name d)\<rparr>
      in if td_name d' \<in> set emitted then Inl (''duplicate model-facing tool name '' @ [CHR 0x27] @ td_name d' @ [CHR 0x27])
         else case translate_loop (td_name d' # emitted) ds of Inl e \<Rightarrow> Inl e | Inr ds' \<Rightarrow> Inr (d' # ds'))"

definition translate_tool_definitions_for_model :: "tool_def list \<Rightarrow> string + tool_def list" where
  "translate_tool_definitions_for_model ds =
     (case validate_model_tool_name_mappings model_tool_name_mappings of
        Some e \<Rightarrow> Inl e
      | None \<Rightarrow> translate_loop [] ds)"

text \<open>The names inside the calls of a request.\<close>

definition rename_entry :: "(string \<times> json) list \<Rightarrow> string \<Rightarrow> (json \<Rightarrow> json) \<Rightarrow> (string \<times> json) list" where
  "rename_entry m k f = map (\<lambda>(k', v). (k', if k' = k then f v else v)) m"

definition rewrite_tool_call_for_model :: "json \<Rightarrow> json" where
  "rewrite_tool_call_for_model call =
     (case call of
        JObj m \<Rightarrow>
          (case field call ''function'' of
             Some (JObj f) \<Rightarrow>
               (case field (JObj f) ''name'' of
                  Some (JStr n) \<Rightarrow>
                    JObj (rename_entry m ''function''
                      (\<lambda>_. JObj (rename_entry f ''name'' (\<lambda>_. JStr (model_tool_name_for_native n)))))
                | _ \<Rightarrow> call)
           | _ \<Rightarrow> call)
      | _ \<Rightarrow> call)"

definition rewrite_message_for_model :: "chat_message \<Rightarrow> chat_message" where
  "rewrite_message_for_model m =
     (case tool_calls m of
        JArr calls \<Rightarrow> m\<lparr>tool_calls := JArr (map rewrite_tool_call_for_model calls)\<rparr>
      | JObj c \<Rightarrow> m\<lparr>tool_calls := rewrite_tool_call_for_model (JObj c)\<rparr>
      | _ \<Rightarrow> m)"

definition rewrite_tool_calls_for_model :: "chat_message list \<Rightarrow> chat_message list" where
  "rewrite_tool_calls_for_model ms = map rewrite_message_for_model ms"

section \<open>The registry\<close>

datatype tool_source = Builtin | Mcp

record tool_impl =
  ti_definition :: tool_def
  ti_run :: "string \<Rightarrow> tool_result"
  ti_read_only :: bool
  ti_source :: tool_source
  ti_owner :: string

type_synonym registry = "(string \<times> tool_impl) list"

record capability_policy =
  cp_builtin_tools :: "string list option"
  cp_mcp_servers :: "string list option"

definition tool_allowed_by_policy :: "tool_impl \<Rightarrow> capability_policy option \<Rightarrow> bool" where
  "tool_allowed_by_policy impl policy =
     (case policy of
        None \<Rightarrow> True
      | Some p \<Rightarrow>
          if ti_source impl = Builtin
          then (case cp_builtin_tools p of None \<Rightarrow> True | Some names \<Rightarrow> td_name (ti_definition impl) \<in> set names)
          else (case cp_mcp_servers p of None \<Rightarrow> True | Some servers \<Rightarrow> ti_owner impl \<noteq> [] \<and> ti_owner impl \<in> set servers))"

definition register_tool :: "tool_impl \<Rightarrow> registry \<Rightarrow> bool \<times> registry" where
  "register_tool tool tools =
     (let name = td_name (ti_definition tool);
          public = model_tool_name_for_native name
      in if validate_model_tool_name_mappings model_tool_name_mappings \<noteq> None then (False, tools)
         else if (case map_of tools name of
                    None \<Rightarrow> False
                  | Some old \<Rightarrow> ti_source old \<noteq> ti_source tool \<or> ti_owner old \<noteq> ti_owner tool)
         then (False, tools)
         else if list_ex (\<lambda>(registered, impl). registered \<noteq> name \<and> model_tool_name_for_native registered = public) tools
         then (False, tools)
         else (True, put_sorted name tool tools))"

definition unregister_tool :: "string \<Rightarrow> string option \<Rightarrow> registry \<Rightarrow> bool \<times> registry" where
  "unregister_tool name expected_owner tools =
     (case map_of tools name of
        None \<Rightarrow> (False, tools)
      | Some impl \<Rightarrow>
          if (case expected_owner of None \<Rightarrow> False | Some owner \<Rightarrow> ti_owner impl \<noteq> owner) then (False, tools)
          else (True, filter (\<lambda>(n, i). n \<noteq> name) tools))"

definition get_tool_definitions :: "capability_policy option \<Rightarrow> registry \<Rightarrow> tool_def list" where
  "get_tool_definitions policy tools =
     map (ti_definition \<circ> snd) (filter (\<lambda>(n, impl). tool_allowed_by_policy impl policy) tools)"

definition get_tool_definitions_by_source :: "tool_source \<Rightarrow> capability_policy option \<Rightarrow> registry \<Rightarrow> tool_def list" where
  "get_tool_definitions_by_source src policy tools =
     map (ti_definition \<circ> snd) (filter (\<lambda>(n, impl). ti_source impl = src \<and> tool_allowed_by_policy impl policy) tools)"

definition get_model_tool_definitions :: "capability_policy option \<Rightarrow> registry \<Rightarrow> tool_def list" where
  "get_model_tool_definitions policy tools =
     (case translate_tool_definitions_for_model (get_tool_definitions policy tools) of Inl e \<Rightarrow> [] | Inr ds \<Rightarrow> ds)"

definition get_model_tool_definitions_by_source ::
  "tool_source \<Rightarrow> capability_policy option \<Rightarrow> registry \<Rightarrow> tool_def list" where
  "get_model_tool_definitions_by_source src policy tools =
     (case translate_tool_definitions_for_model (get_tool_definitions_by_source src policy tools) of Inl e \<Rightarrow> [] | Inr ds \<Rightarrow> ds)"

definition resolve_model_tool_name_to_native :: "registry \<Rightarrow> string \<Rightarrow> string" where
  "resolve_model_tool_name_to_native tools model_name =
     (if map_of tools model_name \<noteq> None then model_name
      else case native_tool_name_for_public_alias model_name of
        Some native \<Rightarrow> if map_of tools native \<noteq> None then native else model_name
      | None \<Rightarrow> model_name)"

definition is_allowed :: "registry \<Rightarrow> capability_policy option \<Rightarrow> string \<Rightarrow> bool" where
  "is_allowed tools policy name = (case map_of tools name of None \<Rightarrow> False | Some impl \<Rightarrow> tool_allowed_by_policy impl policy)"

definition is_denied_by_policy :: "registry \<Rightarrow> capability_policy option \<Rightarrow> string \<Rightarrow> bool" where
  "is_denied_by_policy tools policy name =
     (case map_of tools name of None \<Rightarrow> False | Some impl \<Rightarrow> \<not> tool_allowed_by_policy impl policy)"

text \<open>What a call of \<open>execute\<close> comes to: an unknown tool, a refusal, or a run of the tool.\<close>

datatype executed_call = UnknownTool string | DeniedByExpert string | RanTool string tool_result

definition execute_tool :: "registry \<Rightarrow> capability_policy option \<Rightarrow> string \<Rightarrow> string \<Rightarrow> executed_call" where
  "execute_tool tools policy name arguments =
     (case map_of tools name of
        None \<Rightarrow> UnknownTool name
      | Some impl \<Rightarrow>
          if \<not> tool_allowed_by_policy impl policy then DeniedByExpert name else RanTool name (ti_run impl arguments))"

text \<open>The registries a session can reach.\<close>

inductive registry_reachable :: "registry \<Rightarrow> bool" where
  registry_empty: "registry_reachable []"
| registry_add: "registry_reachable tools \<Longrightarrow> registry_reachable (snd (register_tool tool tools))"
| registry_remove: "registry_reachable tools \<Longrightarrow> registry_reachable (snd (unregister_tool name owner tools))"

section \<open>Names and calls\<close>

lemma mappings_valid: "validate_model_tool_name_mappings model_tool_name_mappings = None"
  by code_simp

lemma model_name_cases:
  "(n, p) \<in> set model_tool_name_mappings \<and> model_tool_name_for_native n = p \<or>
   n \<notin> fst ` set model_tool_name_mappings \<and> model_tool_name_for_native n = n" if "p = model_tool_name_for_native n"
  using that by (auto simp: model_tool_name_for_native_def model_tool_name_mappings_def)

lemma mapped_names:
  assumes "(n, p) \<in> set model_tool_name_mappings"
  shows "native_tool_name_for_public_alias p = Some n" "model_tool_name_for_native p = p" "p \<noteq> n"
  using assms
  by (auto simp: native_tool_name_for_public_alias_def model_tool_name_for_native_def model_tool_name_mappings_def)

lemma field_rename [simp]:
  "map_of (rename_entry m k f) k' = (if k' = k then map_option f (map_of m k) else map_of m k')"
  by (induction m) (auto simp: rename_entry_def)

lemma rewritten_call_id: "valid_tool_call_id c = Some i \<Longrightarrow> valid_tool_call_id (rewrite_tool_call_for_model c) = Some i"
  by (cases c) (auto simp: rewrite_tool_call_for_model_def valid_tool_call_id_def string_field_def
      model_tool_name_for_native_def model_tool_name_mappings_def split: option.splits json.splits if_splits)

text \<open>Renaming the calls of a request does not touch what the protocol is about.\<close>

lemma rewritten_fields [simp]:
  "role (rewrite_message_for_model m) = role m" "tool_call_id (rewrite_message_for_model m) = tool_call_id m"
  "has_assistant_content (rewrite_message_for_model m) = has_assistant_content m"
  "content (rewrite_message_for_model m) = content m" "metadata (rewrite_message_for_model m) = metadata m"
  "is_meta (rewrite_message_for_model m) = is_meta m"
  by (cases "tool_calls m"; simp add: rewrite_message_for_model_def has_assistant_content_def)+

lemma rewritten_call_ids:
  "call_ids (tool_calls m) = Some ids \<Longrightarrow> call_ids (tool_calls (rewrite_message_for_model m)) = Some ids"
proof -
  assume c: "call_ids (tool_calls m) = Some ids"
  show ?thesis
  proof (cases "tool_calls m")
    case (JArr cs)
    with c have v: "cs \<noteq> []" "\<And>x. x \<in> set cs \<Longrightarrow> valid_tool_call_id x \<noteq> None" "ids = map (\<lambda>x. the (valid_tool_call_id x)) cs"
      by (simp_all add: call_ids_def split: if_splits)
    have same: "x \<in> set cs \<Longrightarrow> valid_tool_call_id (rewrite_tool_call_for_model x) = valid_tool_call_id x" for x
      using v(2) [of x] rewritten_call_id by fastforce
    with v show ?thesis by (simp add: rewrite_message_for_model_def JArr call_ids_def)
  qed (use c in \<open>simp_all add: rewrite_message_for_model_def call_ids_def\<close>)
qed

lemma rewritten_valid:
  assumes "valid_history h"
  shows "valid_history (rewrite_tool_calls_for_model h)"
proof -
  have "scan w u h = Some (w', u') \<Longrightarrow> scan w u (map rewrite_message_for_model h) = Some (w', u')" for w u w' u'
  proof (induction h arbitrary: w u)
    case (Cons m h)
    then show ?case using rewritten_call_ids [of m] by (auto split: if_splits option.splits)
  qed simp
  then show ?thesis
    using assms by (auto simp: valid_history_def rewrite_tool_calls_for_model_def split: option.splits prod.splits)
qed

section \<open>Every offered name leads to its tool\<close>

definition registry_ok :: "registry \<Rightarrow> bool" where
  "registry_ok tools \<longleftrightarrow> table tools \<and> (\<forall>n impl. map_of tools n = Some impl \<longrightarrow> td_name (ti_definition impl) = n) \<and>
     inj_on model_tool_name_for_native (fst ` set tools)"

lemma registry_reachable_ok: "registry_reachable tools \<Longrightarrow> registry_ok tools"
proof (induction rule: registry_reachable.induct)
  case (registry_add tools tool)
  let ?n = "td_name (ti_definition tool)"
  show ?case
  proof (cases "fst (register_tool tool tools)")
    case True
    then have r: "snd (register_tool tool tools) = put_sorted ?n tool tools"
      and free: "\<not> list_ex (\<lambda>(k, impl). k \<noteq> ?n \<and> model_tool_name_for_native k = model_tool_name_for_native ?n) tools"
      by (auto simp: register_tool_def Let_def split: if_splits)
    have "inj_on model_tool_name_for_native (insert ?n (fst ` set tools))"
      using registry_add.IH free by (auto simp: registry_ok_def inj_on_insert list_ex_iff)
    with registry_add.IH show ?thesis by (auto simp: r registry_ok_def table_put_sorted)
  next
    case False
    then have "snd (register_tool tool tools) = tools" by (auto simp: register_tool_def Let_def split: if_splits)
    with registry_add.IH show ?thesis by simp
  qed
next
  case (registry_remove tools name owner)
  let ?rest = "filter (\<lambda>(n, i). n \<noteq> name) tools"
  have "snd (unregister_tool name owner tools) \<in> {tools, ?rest}"
    by (auto simp: unregister_tool_def split: option.splits)
  moreover have "registry_ok ?rest"
  proof -
    have "map fst ?rest = filter (\<lambda>n. n \<noteq> name) (map fst tools)" by (simp add: filter_map comp_def case_prod_unfold)
    then have "table ?rest" using registry_remove.IH by (simp add: registry_ok_def sorted_wrt_filter)
    moreover have "map_of ?rest n = Some impl \<Longrightarrow> map_of tools n = Some impl" for n impl
    proof -
      assume "map_of ?rest n = Some impl"
      then have "(n, impl) \<in> set tools" by (auto dest: map_of_SomeD)
      moreover have "distinct (map fst tools)" using registry_remove.IH by (auto simp: registry_ok_def table_distinct)
      ultimately show ?thesis by simp
    qed
    moreover have "fst ` set ?rest \<subseteq> fst ` set tools" by auto
    ultimately show ?thesis using registry_remove.IH by (auto simp: registry_ok_def intro: inj_on_subset)
  qed
  ultimately show ?case using registry_remove.IH by auto
qed (simp add: registry_ok_def)

lemma resolve_model_name:
  assumes "registry_ok tools" "map_of tools n \<noteq> None"
  shows "resolve_model_tool_name_to_native tools (model_tool_name_for_native n) = n"
proof -
  let ?p = "model_tool_name_for_native n"
  consider "(n, ?p) \<in> set model_tool_name_mappings" | "?p = n" using model_name_cases [OF refl, of n] by blast
  then show ?thesis
  proof cases
    case 1
    have "map_of tools ?p = None"
    proof (rule ccontr)
      assume "map_of tools ?p \<noteq> None"
      then have "?p \<in> fst ` set tools" "n \<in> fst ` set tools" using assms(2) by (simp_all add: map_of_eq_None_iff)
      with assms(1) mapped_names(2) [OF 1] have "?p = n" by (auto simp: registry_ok_def dest: inj_onD)
      with mapped_names(3) [OF 1] show False by simp
    qed
    with assms(2) mapped_names(1) [OF 1] show ?thesis by (simp add: resolve_model_tool_name_to_native_def)
  next
    case 2
    with assms(2) show ?thesis by (simp add: resolve_model_tool_name_to_native_def)
  qed
qed

lemma translate_all:
  assumes "distinct (map (\<lambda>d. model_tool_name_for_native (td_name d)) ds)"
    "\<forall>d\<in>set ds. model_tool_name_for_native (td_name d) \<notin> set emitted"
  shows "translate_loop emitted ds = Inr (map (\<lambda>d. d\<lparr>td_name := model_tool_name_for_native (td_name d)\<rparr>) ds)"
  using assms
proof (induction ds arbitrary: emitted)
  case (Cons a ds)
  have "translate_loop (model_tool_name_for_native (td_name a) # emitted) ds =
      Inr (map (\<lambda>d. d\<lparr>td_name := model_tool_name_for_native (td_name d)\<rparr>) ds)"
    using Cons.prems by (intro Cons.IH) (auto simp: image_iff)
  with Cons.prems show ?case by (simp add: Let_def)
qed simp

lemma offered_definitions:
  assumes "registry_ok tools"
  shows "get_model_tool_definitions policy tools =
    map (\<lambda>d. d\<lparr>td_name := model_tool_name_for_native (td_name d)\<rparr>) (get_tool_definitions policy tools)"
proof -
  let ?allowed = "filter (\<lambda>(n, impl). tool_allowed_by_policy impl policy) tools"
  have d: "distinct (map fst tools)" using assms by (auto simp: registry_ok_def table_distinct)
  have key: "(n, impl) \<in> set tools \<Longrightarrow> td_name (ti_definition impl) = n" for n impl
    using assms map_of_is_SomeI [OF d] by (simp add: registry_ok_def)
  then have names: "map (\<lambda>d. model_tool_name_for_native (td_name d)) (get_tool_definitions policy tools) =
      map model_tool_name_for_native (map fst ?allowed)"
    by (auto simp: get_tool_definitions_def)
  have "distinct (map fst ?allowed)" using d by (simp add: distinct_map_filter)
  moreover have "inj_on model_tool_name_for_native (set (map fst ?allowed))"
    by (rule inj_on_subset [of _ "fst ` set tools"]) (use assms in \<open>auto simp: registry_ok_def\<close>)
  ultimately have "distinct (map model_tool_name_for_native (map fst ?allowed))" by (simp add: distinct_map del: map_map)
  with names show ?thesis
    using translate_all [of "get_tool_definitions policy tools" "[]"]
    by (simp add: get_model_tool_definitions_def translate_tool_definitions_for_model_def mappings_valid)
qed

lemma offered_names:
  assumes "registry_ok tools"
  shows "td_name ` set (get_model_tool_definitions policy tools) = model_tool_name_for_native ` {n. is_allowed tools policy n}"
proof -
  have d: "distinct (map fst tools)" using assms by (auto simp: registry_ok_def table_distinct)
  have "{n. is_allowed tools policy n} = td_name ` set (get_tool_definitions policy tools)"
  proof (intro set_eqI iffI)
    fix n
    assume "n \<in> {n. is_allowed tools policy n}"
    then obtain impl where i: "map_of tools n = Some impl" "tool_allowed_by_policy impl policy"
      by (auto simp: is_allowed_def split: option.splits)
    then have "ti_definition impl \<in> set (get_tool_definitions policy tools)"
      using map_of_SomeD [OF i(1)] by (force simp: get_tool_definitions_def)
    moreover have "td_name (ti_definition impl) = n" using assms i(1) by (simp add: registry_ok_def)
    ultimately show "n \<in> td_name ` set (get_tool_definitions policy tools)" by force
  next
    fix n
    assume "n \<in> td_name ` set (get_tool_definitions policy tools)"
    then obtain k impl where i: "(k, impl) \<in> set tools" "tool_allowed_by_policy impl policy" "n = td_name (ti_definition impl)"
      by (auto simp: get_tool_definitions_def)
    have "map_of tools k = Some impl" using i(1) d by (rule map_of_is_SomeI [rotated])
    with assms i show "n \<in> {n. is_allowed tools policy n}" by (auto simp: registry_ok_def is_allowed_def)
  qed
  then show ?thesis by (force simp: offered_definitions [OF assms])
qed

text \<open>C12: Every tool the model is offered can be called under the name it is offered by.  After any
  registrations and removals the offered names are exactly the public names of the registered tools the
  policy allows, none is lost to a clash, and a call under such a name runs that tool; a tool the policy
  refuses never runs.\<close>

theorem offered_names_lead_to_tools:
  assumes "registry_reachable tools"
  shows "td_name ` set (get_model_tool_definitions policy tools) = model_tool_name_for_native ` {n. is_allowed tools policy n} \<and>
    (is_allowed tools policy n \<longrightarrow>
      (\<exists>impl. map_of tools n = Some impl \<and>
        execute_tool tools policy (resolve_model_tool_name_to_native tools (model_tool_name_for_native n)) arguments =
          RanTool n (ti_run impl arguments))) \<and>
    (\<not> is_allowed tools policy n \<longrightarrow> (\<forall>m r. execute_tool tools policy n arguments \<noteq> RanTool m r))"
proof -
  have ok: "registry_ok tools" by (rule registry_reachable_ok [OF assms])
  have "is_allowed tools policy n \<Longrightarrow> resolve_model_tool_name_to_native tools (model_tool_name_for_native n) = n"
    by (rule resolve_model_name [OF ok]) (auto simp: is_allowed_def split: option.splits)
  then show ?thesis
    using offered_names [OF ok] by (auto simp: is_allowed_def execute_tool_def split: option.splits)
qed

section \<open>A concrete registry\<close>

definition done_result :: tool_result where
  "done_result = \<lparr>res_output = ''done'', res_success = True, res_summary = None\<rparr>"

definition named_tool :: "string \<Rightarrow> tool_source \<Rightarrow> tool_impl" where
  "named_tool n src = \<lparr>ti_definition = \<lparr>td_name = n, td_description = [], td_parameters = JNull\<rparr>,
     ti_run = (\<lambda>a. done_result), ti_read_only = False, ti_source = src, ti_owner = (if src = Mcp then ''s'' else [])\<rparr>"

definition sample_registry :: registry where
  "sample_registry = snd (register_tool (named_tool ''write'' Mcp) (snd (register_tool (named_tool ''file_write'' Builtin) [])))"

text \<open>A server's tool cannot take the public name of a built-in one.\<close>

lemma clash_refused: "map fst sample_registry = [''file_write'']"
  by code_simp

lemma public_names: "model_tool_name_for_native ''file_write'' = ''write''" "model_tool_name_for_native ''write'' = ''write''"
  by (simp_all add: model_tool_name_for_native_def model_tool_name_mappings_def)

theorem offered_names_lead_to_tools_witness:
  "td_name ` set (get_model_tool_definitions None sample_registry) = {''write''} \<and>
   execute_tool sample_registry None (resolve_model_tool_name_to_native sample_registry ''write'') [] = RanTool ''file_write'' done_result"
proof -
  have r: "registry_reachable sample_registry"
    unfolding sample_registry_def by (intro registry_reachable.intros)
  have s: "sample_registry = [(''file_write'', named_tool ''file_write'' Builtin)]"
    by (simp add: sample_registry_def register_tool_def named_tool_def Let_def mappings_valid public_names)
  have a: "{n. is_allowed sample_registry None n} = {''file_write''}"
    by (auto simp: s is_allowed_def tool_allowed_by_policy_def split: if_splits)
  from offered_names_lead_to_tools [OF r, of None "''file_write''" "[]"] a public_names
  show ?thesis by (auto simp: s named_tool_def)
qed
end
