(* ===== verification/StreamCollect.thy ===== *)
theory StreamCollect
  imports Compaction ToolRegistry
begin

text \<open>
  One request to the provider: how \<open>AgentLoop::call_provider_and_collect\<close> assembles the response from the
  stream of events, and how the response becomes the assistant row of the history.  The stream is a list
  of events and the way the call ended; the provider itself is outside.  Progress events are left out.
\<close>

section \<open>The response\<close>

text \<open>The estimate of the prompt's composition inside the usage is left out.\<close>

record token_usage =
  tu_prompt :: int
  tu_completion :: int
  tu_total :: int
  tu_cache_read :: int
  tu_cache_write :: int
  tu_reasoning :: int
  tu_has_data :: bool

definition no_usage :: token_usage where
  "no_usage = \<lparr>tu_prompt = 0, tu_completion = 0, tu_total = 0, tu_cache_read = 0, tu_cache_write = 0,
     tu_reasoning = 0, tu_has_data = False\<rparr>"

record chat_response =
  rp_content :: string
  rp_parts :: json
  rp_reasoning :: string
  rp_calls :: "tool_call list"
  rp_finish :: string
  rp_usage :: token_usage

definition fresh_response :: chat_response where
  "fresh_response = \<lparr>rp_content = [], rp_parts = JArr [], rp_reasoning = [], rp_calls = [], rp_finish = ''stop'',
     rp_usage = no_usage\<rparr>"

definition has_tool_calls :: "chat_response \<Rightarrow> bool" where
  "has_tool_calls r \<longleftrightarrow> rp_calls r \<noteq> []"

section \<open>The stream\<close>

text \<open>An error event carries whether an abort was requested when it arrived.\<close>

datatype stream_event =
  Delta string
| ReasoningDelta string
| ToolCallDelta
| ToolCallEvent tool_call
| DoneEvent string json
| UsageEvent token_usage
| RetryEvent provider_error
| RetryResumeEvent provider_error
| ErrorEvent string provider_error bool

datatype stream_end = StreamReturned | StreamThrew string | StreamThrewUnknown

record collected =
  cl_response :: chat_response
  cl_error_seen :: bool
  cl_error :: provider_error
  cl_attempt :: int
  cl_output_seen :: bool
  cl_first_outputs :: "(int \<times> string) list"

definition collect_start :: collected where
  "collect_start = \<lparr>cl_response = fresh_response, cl_error_seen = False, cl_error = no_error, cl_attempt = 1,
     cl_output_seen = False, cl_first_outputs = []\<rparr>"

text \<open>The first output of an attempt goes to the trajectory.\<close>

definition first_output :: "string \<Rightarrow> collected \<Rightarrow> collected" where
  "first_output channel st =
     (if cl_output_seen st then st
      else st\<lparr>cl_output_seen := True, cl_first_outputs := cl_first_outputs st @ [(cl_attempt st, channel)]\<rparr>)"

definition with_response :: "(chat_response \<Rightarrow> chat_response) \<Rightarrow> collected \<Rightarrow> collected" where
  "with_response f st = st\<lparr>cl_response := f (cl_response st)\<rparr>"

text \<open>The error of an error event: a cancelled request after an abort is none.\<close>

definition error_of_event :: "string \<Rightarrow> provider_error \<Rightarrow> provider_error" where
  "error_of_event text e =
     (let e1 = (if \<not> has_error e then e\<lparr>pe_kind := UnknownError, pe_display := text\<rparr> else e)
      in if pe_display e1 = [] then e1\<lparr>pe_display := text\<rparr> else e1)"

definition collect_event :: "registry \<Rightarrow> stream_event \<Rightarrow> collected \<Rightarrow> collected" where
  "collect_event tools ev st =
     (case ev of
        Delta s \<Rightarrow>
          with_response (\<lambda>r. r\<lparr>rp_content := rp_content r @ s\<rparr>) (if s \<noteq> [] then first_output ''content'' st else st)
      | ReasoningDelta s \<Rightarrow>
          with_response (\<lambda>r. r\<lparr>rp_reasoning := rp_reasoning r @ s\<rparr>) (if s \<noteq> [] then first_output ''reasoning'' st else st)
      | ToolCallDelta \<Rightarrow> first_output ''tool_call'' st
      | ToolCallEvent c \<Rightarrow>
          with_response (\<lambda>r. r\<lparr>rp_calls := rp_calls r @
              [c\<lparr>function_name := resolve_model_tool_name_to_native tools (function_name c)\<rparr>]\<rparr>)
            (first_output ''tool_call'' st)
      | DoneEvent reason parts \<Rightarrow>
          with_response (\<lambda>r. r\<lparr>rp_finish := (if reason \<noteq> [] then reason else rp_finish r),
            rp_parts := (if is_array parts \<and> \<not> json_empty parts then parts else rp_parts r)\<rparr>) st
      | UsageEvent u \<Rightarrow> with_response (\<lambda>r. r\<lparr>rp_usage := u\<rparr>) st
      | RetryEvent e \<Rightarrow>
          st\<lparr>cl_error := e, cl_response := fresh_response, cl_attempt := cl_attempt st + 1, cl_output_seen := False\<rparr>
      | RetryResumeEvent e \<Rightarrow> st
      | ErrorEvent text e aborting \<Rightarrow>
          if (pe_kind e = UserCancelled \<or> text = ''Request cancelled'') \<and> aborting then st
          else st\<lparr>cl_error_seen := True, cl_error := error_of_event text e\<rparr>)"

definition collect_end :: "stream_end \<Rightarrow> collected \<Rightarrow> collected" where
  "collect_end e st =
     (case e of
        StreamReturned \<Rightarrow> st
      | StreamThrew text \<Rightarrow>
          st\<lparr>cl_error_seen := True, cl_error := (cl_error st)\<lparr>pe_kind := UnknownError, pe_display := text\<rparr>\<rparr>
      | StreamThrewUnknown \<Rightarrow>
          st\<lparr>cl_error_seen := True,
             cl_error := (cl_error st)\<lparr>pe_kind := UnknownError, pe_display := ''Provider request failed with an unknown exception''\<rparr>\<rparr>)"

definition collect_stream :: "registry \<Rightarrow> stream_event list \<times> stream_end \<Rightarrow> collected" where
  "collect_stream tools = (\<lambda>(evs, e). collect_end e (fold (collect_event tools) evs collect_start))"

text \<open>The total that the provider reported, when it counts for the size of the context.\<close>

definition reported_tokens :: "bool \<Rightarrow> collected \<Rightarrow> int option" where
  "reported_tokens aborted c =
     (let u = rp_usage (cl_response c)
      in if \<not> cl_error_seen c \<and> \<not> aborted \<and> tu_has_data u
         then Some (if tu_total u > 0 then tu_total u else tu_prompt u) else None)"

section \<open>The assistant row\<close>

definition signed_thinking_part :: "json \<Rightarrow> bool" where
  "signed_thinking_part part \<longleftrightarrow> is_object part \<and>
     (value_str part ''type'' [] = ''thinking'' \<and> string_field part ''signature'' \<noteq> None \<or>
      value_str part ''type'' [] = ''redacted_thinking'' \<and> string_field part ''data'' \<noteq> None)"

definition call_object :: "tool_call \<Rightarrow> json" where
  "call_object c = JObj [(''id'', JStr (call_id c)), (''type'', JStr ''function''),
     (''function'', JObj [(''name'', JStr (function_name c)), (''arguments'', JStr (function_arguments c))])]"

definition format_assistant_tool_calls :: "chat_response \<Rightarrow> chat_message" where
  "format_assistant_tool_calls r =
     empty_message\<lparr>role := ''assistant'', content := rp_content r, reasoning_content := rp_reasoning r,
       content_parts := (if list_ex signed_thinking_part (array_of (rp_parts r)) then rp_parts r else JNull),
       tool_calls := JArr (map call_object (rp_calls r))\<rparr>"

section \<open>Retries\<close>

lemma collect_parts [simp]:
  "cl_response (first_output channel st) = cl_response st" "cl_response (with_response f st) = f (cl_response st)"
  "cl_attempt (first_output channel st) = cl_attempt st" "cl_attempt (with_response f st) = cl_attempt st"
  "cl_first_outputs (with_response f st) = cl_first_outputs st" "cl_output_seen (with_response f st) = cl_output_seen st"
  by (simp_all add: first_output_def with_response_def)

lemma collect_event_response:
  assumes "cl_response a = cl_response b"
  shows "cl_response (collect_event tools ev a) = cl_response (collect_event tools ev b)"
  by (cases ev) (simp_all add: collect_event_def assms)

lemma fold_response:
  "cl_response a = cl_response b \<Longrightarrow>
     cl_response (fold (collect_event tools) evs a) = cl_response (fold (collect_event tools) evs b)"
proof (induction evs arbitrary: a b)
  case (Cons ev evs)
  from Cons.IH [OF collect_event_response [OF Cons.prems]] show ?case by simp
qed simp

text \<open>What a failed attempt delivered is gone: the response is the one of the events after the last retry,
  and no output is delivered twice.\<close>

lemma response_of_last_attempt:
  "cl_response (fold (collect_event tools) (before @ RetryEvent e # attempt) st) =
   cl_response (fold (collect_event tools) attempt collect_start)"
  using fold_response [of "collect_event tools (RetryEvent e) (fold (collect_event tools) before st)" collect_start]
  by (simp add: collect_event_def collect_start_def)

lemma collected_text:
  "\<forall>ev\<in>set evs. (\<forall>e. ev \<noteq> RetryEvent e) \<Longrightarrow>
     rp_content (cl_response (fold (collect_event tools) evs st)) =
       rp_content (cl_response st) @ concat (map (\<lambda>ev. case ev of Delta s \<Rightarrow> s | _ \<Rightarrow> []) evs)"
proof (induction evs arbitrary: st)
  case (Cons ev evs)
  have "rp_content (cl_response (collect_event tools ev st)) =
      rp_content (cl_response st) @ (case ev of Delta s \<Rightarrow> s | _ \<Rightarrow> [])"
    using Cons.prems by (cases ev) (simp_all add: collect_event_def)
  with Cons show ?case by simp
qed simp

text \<open>The trajectory has at most one first output for every attempt.\<close>

definition attempts_ok :: "collected \<Rightarrow> bool" where
  "attempts_ok st \<longleftrightarrow> distinct (map fst (cl_first_outputs st)) \<and> (\<forall>a\<in>fst ` set (cl_first_outputs st). a \<le> cl_attempt st) \<and>
     (cl_attempt st \<in> fst ` set (cl_first_outputs st) \<longrightarrow> cl_output_seen st)"

lemma one_first_output_per_attempt: "attempts_ok (fold (collect_event tools) evs collect_start)"
proof -
  have first: "attempts_ok st \<Longrightarrow> attempts_ok (first_output channel st)" for channel st
    by (auto simp: attempts_ok_def first_output_def)
  have resp: "attempts_ok (with_response f st) = attempts_ok st" for f st
    by (simp add: attempts_ok_def)
  have "attempts_ok st \<Longrightarrow> attempts_ok (collect_event tools ev st)" for ev st
  proof (cases ev)
    case (RetryEvent e)
    assume "attempts_ok st"
    with RetryEvent show ?thesis by (auto simp: attempts_ok_def collect_event_def)
  qed (simp_all add: collect_event_def resp first, simp add: attempts_ok_def)
  moreover have "attempts_ok collect_start" by (simp add: attempts_ok_def collect_start_def)
  ultimately show ?thesis by (induction evs rule: rev_induct) auto
qed

lemma call_object_ids:
  assumes "\<forall>c\<in>set cs. call_id c \<noteq> [] \<and> function_name c \<noteq> []" "cs \<noteq> []"
  shows "call_ids (JArr (map call_object cs)) = Some (map call_id cs)"
proof -
  have "c \<in> set cs \<Longrightarrow> valid_tool_call_id (call_object c) = Some (call_id c)" for c
    using assms(1) by (auto simp: valid_tool_call_id_def call_object_def string_field_def)
  with assms(2) show ?thesis by (simp add: call_ids_def)
qed

end
