(* ===== verification/TurnLoop.thy ===== *)
theory TurnLoop
  imports StreamCollect ThreadRepair ToolGate Checkpoints
begin

text \<open>
  One turn of the agent, \<open>AgentLoop::run_agent_with_input\<close>: the user's row, the loop of model steps with
  compaction, steering, recovery from a context that is too long, empty answers, tool calls and the stop
  hook, and the end of the turn.  What the loop meets in an iteration (the abort flag at each of its tests,
  texts for the request, the stream, tool results, hooks, waiting input) is a \<open>turn_round\<close>; a turn that
  still runs when the list of rounds ends has no result.  Goals are accounted in \<open>GoalCommands\<close>, the gate
  in front of a tool is \<open>ToolGate\<close>; here a tool call is its result.  Texts the code shows in Chinese are
  left out of the trace.
\<close>

section \<open>Rows\<close>

record user_input =
  ui_text :: string
  ui_display :: string
  ui_parts :: json
  ui_metadata :: json

definition has_content_parts :: "user_input \<Rightarrow> bool" where
  "has_content_parts i \<longleftrightarrow> is_array (ui_parts i) \<and> \<not> json_empty (ui_parts i)"

definition input_empty :: "user_input \<Rightarrow> bool" where
  "input_empty i \<longleftrightarrow> ui_text i = [] \<and> \<not> has_content_parts i"

definition as_object :: "json \<Rightarrow> json" where
  "as_object j = (if is_object j then j else JObj [])"

definition with_entry :: "json \<Rightarrow> string \<Rightarrow> json \<Rightarrow> json" where
  "with_entry j k v = (case j of JObj m \<Rightarrow> JObj (put_sorted k v m) | _ \<Rightarrow> j)"

text \<open>The text part of the input that holds the text the user typed gets the expanded prompt.\<close>

fun replace_text_part :: "string \<Rightarrow> string \<Rightarrow> json list \<Rightarrow> json list option" where
  "replace_text_part prompt typed [] = None"
| "replace_text_part prompt typed (p # ps) =
     (if is_object p \<and> value_str p ''type'' [] = ''text'' \<and> value_str p ''text'' [] = typed
      then Some (with_entry p ''text'' (JStr prompt) # ps)
      else map_option (Cons p) (replace_text_part prompt typed ps))"

definition prompt_parts :: "string \<Rightarrow> string \<Rightarrow> json list \<Rightarrow> json list" where
  "prompt_parts prompt typed parts =
     (if prompt = typed then parts
      else case replace_text_part prompt typed parts of
        Some ps \<Rightarrow> ps
      | None \<Rightarrow>
          (let suffix = (if take (length typed) prompt = typed then drop (length typed) prompt else prompt)
           in if suffix \<noteq> [] then parts @ [JObj [(''text'', JStr suffix), (''type'', JStr ''text'')]] else parts))"

definition user_metadata :: "string \<Rightarrow> bool \<Rightarrow> user_input \<Rightarrow> json" where
  "user_metadata prompt hidden i =
     (let m0 = (if is_object (ui_metadata i) \<and> \<not> json_empty (ui_metadata i) then ui_metadata i else JNull);
          m1 = (if ui_display i \<noteq> [] \<and> ui_display i \<noteq> ui_text i
                then with_entry (as_object m0) ''display_text'' (JStr (ui_display i))
                else if prompt \<noteq> ui_text i
                then (if string_field (as_object m0) ''display_text'' = None
                      then with_entry (as_object m0) ''display_text'' (JStr (ui_text i)) else as_object m0)
                else m0)
      in if hidden then with_entry (as_object m1) ''hidden_goal_context'' (JBool True) else m1)"

definition prepared_user_row :: "string \<Rightarrow> bool \<Rightarrow> string \<Rightarrow> string \<Rightarrow> user_input \<Rightarrow> chat_message" where
  "prepared_user_row prompt hidden new_uuid now i =
     ensure_user_message_identity new_uuid now
       (empty_message\<lparr>role := ''user'', content := prompt,
          content_parts := (if has_content_parts i then JArr (prompt_parts prompt (ui_text i) (array_of (ui_parts i))) else JNull),
          metadata := user_metadata prompt hidden i\<rparr>)"

definition steering_row :: "string \<Rightarrow> string \<Rightarrow> string \<Rightarrow> user_input \<Rightarrow> chat_message" where
  "steering_row turn_id new_uuid now i =
     (let m0 = as_object (ui_metadata i);
          m1 = (if ui_display i \<noteq> [] \<and> ui_display i \<noteq> ui_text i
                then with_entry m0 ''display_text'' (JStr (ui_display i)) else m0)
      in ensure_user_message_identity new_uuid now
           (empty_message\<lparr>role := ''user'', content := ui_text i, content_parts := ui_parts i,
              metadata := with_entry (with_entry m1 ''turn_steer'' (JBool True)) ''turn_id'' (JStr turn_id)\<rparr>))"

definition hidden_row :: "string \<Rightarrow> string \<Rightarrow> (string \<times> json) list \<Rightarrow> string \<Rightarrow> chat_message" where
  "hidden_row new_uuid now entries text =
     ensure_user_message_identity new_uuid now (empty_message\<lparr>role := ''user'', content := text, metadata := JObj entries\<rparr>)"

section \<open>State and rounds\<close>

datatype recovery_stage = Normal | HistoryRepaired | EmergencyProfile

datatype turn_event =
  StepStart nat
| StepFinish nat string
| RequestSent "chat_message list"
| Answered collected
| StreamReset
| Said string string
| EmptyAnswerNotice nat bool
| GoalStopped
| CheckpointAppended compact_checkpoint
| TurnDone string

record compact_window =
  cw_initialized :: bool
  cw_number :: nat
  cw_current :: string
  cw_first :: string

record turn_state =
  tn_messages :: "chat_message list"
  tn_last_tokens :: int
  tn_generation :: nat
  tn_window :: compact_window
  tn_iterations :: nat
  tn_step :: nat
  tn_stage :: recovery_stage
  tn_emergency :: bool
  tn_empty_retries :: nat
  tn_status :: string
  tn_terminator :: bool
  tn_stop_hook_active :: bool
  tn_aborted :: bool
  tn_trace :: "turn_event list"

text \<open>The outcome of the Stop hook.\<close>

record stop_outcome =
  so_continue_false :: bool
  so_blocked :: bool
  so_denied :: bool
  so_reason :: string

record turn_round =
  rd_abort_while :: bool
  rd_abort_head :: bool
  rd_abort_usage :: bool
  rd_abort_stream :: bool
  rd_abort_error :: bool
  rd_interrupting :: bool
  rd_context :: "chat_message list"
  rd_window :: int
  rd_compact_blocked :: bool
  rd_compact_provider :: bool
  rd_compact_rounds :: "compact_round list"
  rd_compact_stopped :: bool
  rd_session :: "(append_io \<times> bool) option"
  rd_session_rows :: "chat_message list"
  rd_session_file :: "string option"
  rd_uuid :: "nat \<Rightarrow> nat \<Rightarrow> string"
  rd_now :: string
  rd_steers :: "user_input list"
  rd_goal_prompts :: "string list"
  rd_system_prompt :: string
  rd_skill_context :: string
  rd_session_context :: string
  rd_swarm_context :: string
  rd_hook_context :: string
  rd_plan_context :: string
  rd_todo_context :: string
  rd_provider :: bool
  rd_stream :: "stream_event list \<times> stream_end"
  rd_results :: "nat \<Rightarrow> tool_result option"
  rd_prompts :: "nat \<Rightarrow> (string \<times> string) option"
  rd_replacements :: "chat_message option"
  rd_stop_hook :: "stop_outcome option"
  rd_late_steers :: "user_input list"

text \<open>What stays the same in a turn.\<close>

record turn_config =
  tc_dump :: "json \<Rightarrow> string"
  tc_parse :: "string \<Rightarrow> json option"
  tc_utf8 :: "string \<Rightarrow> string"
  tc_extras :: "tool_result \<Rightarrow> json \<times> json"
  tc_tools :: registry
  tc_max_iterations :: int
  tc_turn_id :: string
  tc_no_model_prompt :: string

definition push_row :: "chat_message \<Rightarrow> turn_state \<Rightarrow> turn_state" where
  "push_row m st = st\<lparr>tn_messages := tn_messages st @ [m]\<rparr>"

definition push_rows :: "chat_message list \<Rightarrow> turn_state \<Rightarrow> turn_state" where
  "push_rows ms st = st\<lparr>tn_messages := tn_messages st @ ms\<rparr>"

definition emit_events :: "turn_event list \<Rightarrow> turn_state \<Rightarrow> turn_state" where
  "emit_events evs st = st\<lparr>tn_trace := tn_trace st @ evs\<rparr>"

text \<open>A test of the abort flag: once it was seen it stays set until the next turn.\<close>

definition see_abort :: "bool \<Rightarrow> turn_state \<Rightarrow> turn_state" where
  "see_abort flag st = st\<lparr>tn_aborted := tn_aborted st \<or> flag\<rparr>"

definition turn_error :: "turn_state \<Rightarrow> turn_state" where
  "turn_error st = emit_events [GoalStopped] (st\<lparr>tn_status := ''error''\<rparr>)"

definition abort_notice_text :: "turn_round \<Rightarrow> string" where
  "abort_notice_text r = (if rd_interrupting r then ''[Interjected]'' else ''[Interrupted]'')"

section \<open>Compaction\<close>

definition exceeds_auto_threshold :: "turn_config \<Rightarrow> turn_round \<Rightarrow> user_input option \<Rightarrow> turn_state \<Rightarrow> bool" where
  "exceeds_auto_threshold cfg r pending st =
     (let history = normalize_messages_for_api (tn_messages st);
          waiting = (case pending of
             Some i \<Rightarrow> if input_empty i then []
               else [empty_message\<lparr>role := ''user'', content := ui_text i, content_parts := ui_parts i, metadata := ui_metadata i\<rparr>]
           | None \<Rightarrow> [])
      in should_auto_compact (rd_window r) (tn_last_tokens st)
           (estimate_message_tokens (tc_dump cfg) (rd_context r @ history @ waiting)))"

definition initialize_compact_window :: "turn_config \<Rightarrow> turn_round \<Rightarrow> compact_window \<Rightarrow> compact_window" where
  "initialize_compact_window cfg r w =
     (if cw_initialized w then w
      else let fresh = \<lparr>cw_initialized = True, cw_number = 0, cw_current = rd_uuid r 0 0, cw_first = rd_uuid r 0 0\<rparr>
        in if rd_session r = None then fresh
           else case last_checkpoint (decode_compact_checkpoint (tc_dump cfg) (tc_parse cfg)) (rev (rd_session_rows r)) [] of
             None \<Rightarrow> fresh
           | Some (c, rest) \<Rightarrow>
               (let current = (if cc_window_id c \<noteq> [] then cc_window_id c
                               else if cc_id c \<noteq> [] then cc_id c else cw_current fresh)
                in fresh\<lparr>cw_number := cc_window_number c, cw_current := current,
                     cw_first := (if cc_first_window_id c = [] then current else cc_first_window_id c)\<rparr>))"

definition advance_compact_window :: "string \<Rightarrow> compact_window \<Rightarrow> compact_window" where
  "advance_compact_window new_id w =
     w\<lparr>cw_number := (if cw_number w < size_max then cw_number w + 1 else cw_number w), cw_current := new_id,
       cw_first := (if cw_first w = [] then (if cw_current w = [] then new_id else cw_current w) else cw_first w)\<rparr>"

definition apply_compact_result :: "turn_config \<Rightarrow> turn_round \<Rightarrow> string \<Rightarrow> compact_result \<Rightarrow> turn_state \<Rightarrow> turn_state" where
  "apply_compact_result cfg r trigger result st =
     (let tokens = (\<lambda>rows. estimate_message_tokens (tc_dump cfg) (rd_context r @ rows));
          pre_tokens = tokens (normalize_messages_for_api (tn_messages st));
          replacement = normalize_messages_for_api (co_messages result);
          post_tokens = tokens replacement;
          before = initialize_compact_window cfg r (tn_window st);
          window = advance_compact_window (rd_uuid r 0 1) before;
          checkpoint = empty_checkpoint\<lparr>cc_trigger := trigger, cc_summary := co_summary result,
            cc_messages_compressed := co_messages_compressed result, cc_tokens_saved := co_tokens_saved result,
            cc_pre_tokens := pre_tokens, cc_post_tokens := post_tokens, cc_window_number := cw_number window,
            cc_first_window_id := cw_first window, cc_previous_window_id := cw_current before,
            cc_window_id := cw_current window, cc_replacement_history := replacement\<rparr>
      in emit_events (if rd_session r = None then [] else [CheckpointAppended checkpoint])
           (st\<lparr>tn_messages := replacement, tn_last_tokens := post_tokens, tn_generation := tn_generation st + 1,
               tn_window := window\<rparr>))"

text \<open>\<open>None\<close>: the compaction still waits for the provider.\<close>

definition maybe_run_auto_compact :: "turn_config \<Rightarrow> turn_round \<Rightarrow> turn_state \<Rightarrow> (bool \<times> turn_state) option" where
  "maybe_run_auto_compact cfg r st =
     (if rd_compact_blocked r then Some (False, st)
      else if \<not> rd_compact_provider r then Some (False, st)
      else case compact_messages (tc_dump cfg) (tc_parse cfg) (tn_messages st) (rd_compact_rounds r) of
        None \<Rightarrow> None
      | Some result \<Rightarrow>
          if \<not> co_performed result then Some (False, st)
          else Some (\<not> rd_compact_stopped r, apply_compact_result cfg r ''auto'' result st))"

section \<open>The request\<close>

definition context_row :: "string \<Rightarrow> (string \<times> json) list \<Rightarrow> chat_message list" where
  "context_row text entries =
     (if text = [] then []
      else [empty_message\<lparr>role := ''user'', content := text, metadata := (if entries = [] then JNull else JObj entries)\<rparr>])"

definition request_contexts :: "turn_round \<Rightarrow> chat_message list" where
  "request_contexts r =
     context_row (rd_session_context r) [] @ context_row (rd_swarm_context r) [] @ context_row (rd_hook_context r) [] @
     context_row (rd_plan_context r) [(''hidden_plan_mode_context'', JBool True)] @
     context_row (rd_todo_context r) [(''hidden_todo_context'', JBool True)]"

text \<open>The emergency profile leaves every context out and offers the core tools only.\<close>

definition build_api_request_messages :: "turn_round \<Rightarrow> turn_state \<Rightarrow> chat_message list" where
  "build_api_request_messages r st =
     (let contexts = (if tn_emergency st then [] else request_contexts r);
          skill = (if tn_emergency st then [] else rd_skill_context r);
          system_row = empty_message\<lparr>role := ''system'', content := rd_system_prompt r\<rparr>;
          skill_rows = (if skill = [] then []
            else [empty_message\<lparr>role := ''system'', content := skill, metadata := JObj [(''request_local_skill_context'', JBool True)]\<rparr>])
      in [system_row] @ skill_rows @
         insert_context_before_last_real_user_or_summary
           (rewrite_tool_calls_for_model (normalize_messages_for_api (tn_messages st))) contexts)"

definition is_core_tool :: "tool_def \<Rightarrow> bool" where
  "is_core_tool d \<longleftrightarrow> td_name d \<in> {''bash'', ''read'', ''write'', ''edit'', ''task_complete''}"

definition request_tools :: "turn_config \<Rightarrow> capability_policy option \<Rightarrow> turn_state \<Rightarrow> tool_def list" where
  "request_tools cfg policy st =
     (if tn_emergency st then filter is_core_tool (get_model_tool_definitions_by_source Builtin policy (tc_tools cfg))
      else get_model_tool_definitions policy (tc_tools cfg))"

section \<open>Waiting input\<close>

definition drain_active_turn_inputs :: "turn_config \<Rightarrow> turn_round \<Rightarrow> nat \<Rightarrow> user_input list \<Rightarrow> turn_state \<Rightarrow> bool \<times> turn_state" where
  "drain_active_turn_inputs cfg r place waiting st =
     (waiting \<noteq> [],
      push_rows (map (\<lambda>(i, input). steering_row (tc_turn_id cfg) (rd_uuid r place i) (rd_now r) input) (enumerate 0 waiting)) st)"

definition maybe_inject_goal_steering :: "turn_round \<Rightarrow> turn_state \<Rightarrow> turn_state" where
  "maybe_inject_goal_steering r st =
     push_rows (map (\<lambda>(i, text). hidden_row (rd_uuid r 2 i) (rd_now r) [(''hidden_goal_context'', JBool True)] text)
       (enumerate 0 (rd_goal_prompts r))) st"

section \<open>Errors of the provider\<close>

datatype error_outcome = ErrorProceed | ErrorContinue | ErrorBreak

definition model_output_seen :: "collected \<Rightarrow> bool" where
  "model_output_seen c \<longleftrightarrow> rp_content (cl_response c) \<noteq> [] \<or> rp_reasoning (cl_response c) \<noteq> [] \<or> has_tool_calls (cl_response c)"

definition overflow_repair_options :: "turn_config \<Rightarrow> turn_round \<Rightarrow> chat_message list \<Rightarrow> turn_state \<Rightarrow> repair_options" where
  "overflow_repair_options cfg r request st =
     (let request_tokens = estimate_message_tokens (tc_dump cfg) request;
          history_tokens = estimate_message_tokens (tc_dump cfg) (normalize_messages_for_api (tn_messages st));
          fixed_tokens = max 0 (request_tokens - history_tokens);
          two_thirds = max 1 (request_tokens * 2 div 3);
          target_total = (if rd_window r > 0 then min two_thirds (rd_window r * 7 div 10) else two_thirds)
      in \<lparr>ro_trigger = ''repair-context-overflow'', ro_target_tokens = max 1 (target_total - fixed_tokens), ro_force_prune = True\<rparr>)"

definition enter_emergency :: "turn_state \<Rightarrow> turn_state" where
  "enter_emergency st = emit_events [StreamReset] (st\<lparr>tn_stage := EmergencyProfile, tn_emergency := True\<rparr>)"

definition exhausted_text :: string where
  "exhausted_text = '' Automatic thread repair and the emergency request profile were both exhausted; the fixed context or current input may exceed the provider's actual limit.''"

text \<open>What is left when nothing can be tried any more.\<close>

definition report_provider_error :: "turn_config \<Rightarrow> collected \<Rightarrow> turn_state \<Rightarrow> turn_state" where
  "report_provider_error cfg c st =
     (let shown = pe_display (cl_error c) @
            (if is_context_overflow_error (tc_parse cfg) (cl_error c) \<and> tn_stage st = EmergencyProfile \<and> \<not> model_output_seen c
             then exhausted_text else [])
      in emit_events [Said ''error'' (''[Error] '' @ shown), GoalStopped] (st\<lparr>tn_status := ''error''\<rparr>))"

definition handle_provider_error ::
  "turn_config \<Rightarrow> turn_round \<Rightarrow> chat_message list \<Rightarrow> collected \<Rightarrow> turn_state \<Rightarrow> error_outcome \<times> turn_state" where
  "handle_provider_error cfg r request c st =
     (if \<not> cl_error_seen c then (ErrorProceed, st)
      else if rd_abort_error r then (ErrorBreak, see_abort True st)
      else if is_context_overflow_error (tc_parse cfg) (cl_error c) \<and> \<not> model_output_seen c then
        (case tn_stage st of
           Normal \<Rightarrow>
             (case apply_thread_repair (rd_session r) (tc_dump cfg) (tc_parse cfg) (rd_uuid r 3 0) (rd_now r)
                     (overflow_repair_options cfg r request st) no_diagnostics (tn_messages st, rd_session_file r) of
                (result, history, file) \<Rightarrow>
                  if rr_status result = Repaired
                  then (ErrorContinue,
                    emit_events [CheckpointAppended (rr_checkpoint result), StreamReset]
                      (st\<lparr>tn_messages := history, tn_stage := HistoryRepaired, tn_generation := tn_generation st + 1,
                          tn_last_tokens := 0\<rparr>))
                  else (ErrorContinue, enter_emergency st))
         | HistoryRepaired \<Rightarrow> (ErrorContinue, enter_emergency st)
         | EmergencyProfile \<Rightarrow> (ErrorBreak, report_provider_error cfg c st))
      else (ErrorBreak, report_provider_error cfg c st))"

section \<open>Answers\<close>

abbreviation max_empty_retries :: nat where "max_empty_retries \<equiv> 2"

definition has_answer_parts :: "chat_response \<Rightarrow> bool" where
  "has_answer_parts resp \<longleftrightarrow> is_array (rp_parts resp) \<and> \<not> json_empty (rp_parts resp)"

definition blank_text :: "string \<Rightarrow> bool" where
  "blank_text s \<longleftrightarrow> (\<forall>ch\<in>set s. ch \<in> {CHR '' '', CHR 0x09, CHR 0x0D, CHR 0x0A})"

definition response_is_blank :: "chat_response \<Rightarrow> bool" where
  "response_is_blank resp \<longleftrightarrow> \<not> has_answer_parts resp \<and> blank_text (rp_content resp)"

definition truncated_by_length :: "chat_response \<Rightarrow> bool" where
  "truncated_by_length resp \<longleftrightarrow> rp_finish resp = ''length''"

definition finish_reason :: "string \<Rightarrow> string" where
  "finish_reason s = (if s = [] then ''unknown'' else s)"

definition nudge_text :: "bool \<Rightarrow> string" where
  "nudge_text truncated =
     (if truncated
      then ''[SYSTEM NOTE] Your previous reply was cut off by the output token limit (finish_reason=length) before any answer text or tool call was produced. Keep internal reasoning brief this time and continue the task now: either call the next tool or reply with your answer text directly.''
      else ''[SYSTEM NOTE] Your previous reply was empty: it contained no answer text and no tool calls. Continue the task now: either call the next tool or reply with your answer text directly.'')"

definition empty_answer_row :: "chat_response \<Rightarrow> chat_message" where
  "empty_answer_row resp =
     empty_message\<lparr>role := ''assistant'', content := rp_content resp, reasoning_content := rp_reasoning resp\<rparr>"

definition text_answer_row :: "chat_response \<Rightarrow> chat_message" where
  "text_answer_row resp =
     (empty_answer_row resp)\<lparr>content_parts := (if has_answer_parts resp then rp_parts resp else JNull)\<rparr>"

text \<open>The Stop hook: \<open>None\<close> when no hooks are configured.\<close>

definition maybe_continue_from_stop_hook :: "turn_round \<Rightarrow> turn_state \<Rightarrow> bool \<times> turn_state" where
  "maybe_continue_from_stop_hook r st =
     (case rd_stop_hook r of
        None \<Rightarrow> (False, st)
      | Some so \<Rightarrow>
          if so_continue_false so then (False, st\<lparr>tn_stop_hook_active := False\<rparr>)
          else if (so_blocked so \<or> so_denied so) \<and> \<not> tn_stop_hook_active st \<and> so_reason so \<noteq> []
          then (True,
            push_row (hidden_row (rd_uuid r 6 0) (rd_now r)
                [(''hidden_goal_context'', JBool True), (''hidden_hook_stop_continuation'', JBool True)] (so_reason so))
              (st\<lparr>tn_stop_hook_active := True\<rparr>))
          else (False, st\<lparr>tn_stop_hook_active := False\<rparr>))"

datatype iteration_end = Again | Leave

text \<open>What may keep a turn going after its answer: the Stop hook or input that arrived in the meantime.\<close>

definition continue_after_answer :: "turn_config \<Rightarrow> turn_round \<Rightarrow> turn_state \<Rightarrow> bool \<times> turn_state" where
  "continue_after_answer cfg r st =
     (case maybe_continue_from_stop_hook r st of
        (True, st1) \<Rightarrow> (True, st1)
      | (False, st1) \<Rightarrow> drain_active_turn_inputs cfg r 7 (rd_late_steers r) st1)"

definition empty_answer :: "turn_config \<Rightarrow> turn_round \<Rightarrow> collected \<Rightarrow> turn_state \<Rightarrow> iteration_end \<times> turn_state" where
  "empty_answer cfg r c st =
     (let resp = cl_response c; k = tn_step st; truncated = truncated_by_length resp;
          st1 = push_row (empty_answer_row resp) st
      in if tn_empty_retries st1 < max_empty_retries
         then (let n = tn_empty_retries st1 + 1;
                   nudge = hidden_row (rd_uuid r 4 0) (rd_now r)
                     [(''empty_response_retry'', JBool True), (''hidden_goal_context'', JBool True)] (nudge_text truncated)
               in (Again, emit_events [EmptyAnswerNotice n truncated, StepFinish k ''empty_response_retry'']
                     ((push_row nudge st1)\<lparr>tn_empty_retries := n,
                        tn_iterations := (if tn_iterations st1 > 0 then tn_iterations st1 - 1 else tn_iterations st1)\<rparr>)))
         else (Leave, emit_events [EmptyAnswerNotice (max_empty_retries + 1) truncated, GoalStopped, StepFinish k ''error'']
                 (st1\<lparr>tn_status := ''error''\<rparr>)))"

definition text_answer :: "turn_config \<Rightarrow> turn_round \<Rightarrow> collected \<Rightarrow> turn_state \<Rightarrow> iteration_end \<times> turn_state" where
  "text_answer cfg r c st =
     (let resp = cl_response c;
          st1 = emit_events [Said ''assistant'' (rp_content resp), StepFinish (tn_step st) (finish_reason (rp_finish resp))]
                  (push_row (text_answer_row resp) st)
      in case continue_after_answer cfg r st1 of (True, st2) \<Rightarrow> (Again, st2) | (False, st2) \<Rightarrow> (Leave, st2))"

section \<open>Tool calls\<close>

text \<open>The results are given as they stand after the budget for results; a call without one was interrupted.\<close>

definition prompt_row :: "string \<Rightarrow> string \<Rightarrow> string \<times> string \<Rightarrow> string \<Rightarrow> chat_message" where
  "prompt_row new_uuid now = (\<lambda>(text, display) source.
     hidden_row new_uuid now
       ([(''display_text'', JStr (if display = [] then ''[Tool prompt loaded]'' else display))] @
        (if source = [] then [] else [(''source_tool'', JStr source)]) @ [(''synthetic_user_prompt'', JBool True)]) text)"

definition call_rows :: "turn_config \<Rightarrow> turn_round \<Rightarrow> nat \<times> tool_call \<Rightarrow> chat_message list" where
  "call_rows cfg r e =
     tool_row (tc_utf8 cfg) (tc_extras cfg) (rd_results r) e #
     (case rd_prompts r (fst e) of
        Some p \<Rightarrow>
          if rd_results r (fst e) \<noteq> None \<and> fst p \<noteq> []
          then [prompt_row (rd_uuid r 5 (fst e)) (rd_now r) p (function_name (snd e))] else []
      | None \<Rightarrow> [])"

definition terminates_turn :: "(nat \<Rightarrow> tool_result option) \<Rightarrow> nat \<times> tool_call \<Rightarrow> bool" where
  "terminates_turn results e =
     (case results (fst e) of
        None \<Rightarrow> False
      | Some res \<Rightarrow>
          function_name (snd e) = ''task_complete'' \<and> res_success res \<or>
          function_name (snd e) = ''ExitPlanMode'' \<and> \<not> res_success res)"

definition execute_tool_calls :: "turn_config \<Rightarrow> turn_round \<Rightarrow> chat_response \<Rightarrow> turn_state \<Rightarrow> bool \<times> turn_state" where
  "execute_tool_calls cfg r resp st =
     (let entries = enumerate 0 (rp_calls resp);
          rows = [format_assistant_tool_calls resp] @ concat (map (call_rows cfg r) entries) @
            (case rd_replacements r of Some m \<Rightarrow> [m] | None \<Rightarrow> [])
      in (list_ex (terminates_turn (rd_results r)) entries, push_rows rows st))"

definition tool_answer :: "turn_config \<Rightarrow> turn_round \<Rightarrow> collected \<Rightarrow> turn_state \<Rightarrow> iteration_end \<times> turn_state" where
  "tool_answer cfg r c st =
     (let resp = cl_response c
      in case execute_tool_calls cfg r resp (st\<lparr>tn_empty_retries := 0\<rparr>) of
           (fired, st1) \<Rightarrow>
             (let st2 = emit_events [StepFinish (tn_step st) (finish_reason (rp_finish resp))] (st1\<lparr>tn_terminator := fired\<rparr>)
              in if \<not> fired then (Again, st2)
                 else case continue_after_answer cfg r st2 of
                   (True, st3) \<Rightarrow> (Again, st3\<lparr>tn_terminator := False\<rparr>)
                 | (False, st3) \<Rightarrow> (Again, st3)))"

section \<open>One iteration\<close>

text \<open>From the request to the end of the step.\<close>

definition model_step ::
  "turn_config \<Rightarrow> turn_round \<Rightarrow> chat_message list \<Rightarrow> turn_state \<Rightarrow> iteration_end \<times> turn_state" where
  "model_step cfg r request st =
     (let k = tn_step st + 1; c = collect_stream (tc_tools cfg) (rd_stream r); resp = cl_response c;
          st1 = emit_events [StepStart k, RequestSent request, Answered c]
            (st\<lparr>tn_step := k,
                tn_last_tokens := (case reported_tokens (rd_abort_usage r) c of Some n \<Rightarrow> n | None \<Rightarrow> tn_last_tokens st)\<rparr>)
      in if rd_abort_usage r \<or> rd_abort_stream r
         then (Leave, emit_events [Said ''system'' (abort_notice_text r), StepFinish k ''aborted''] (see_abort True st1))
         else case handle_provider_error cfg r request c st1 of
           (ErrorContinue, st2) \<Rightarrow>
             (Again, emit_events [StepFinish k ''retry''] (st2\<lparr>tn_iterations := tn_iterations st2 - 1\<rparr>))
         | (ErrorBreak, st2) \<Rightarrow> (Leave, emit_events [StepFinish k ''error''] st2)
         | (ErrorProceed, st2) \<Rightarrow>
             if has_tool_calls resp then tool_answer cfg r c st2
             else if response_is_blank resp then empty_answer cfg r c st2
             else text_answer cfg r c st2)"

definition compact_before_request :: "turn_config \<Rightarrow> turn_round \<Rightarrow> turn_state \<Rightarrow> (bool \<times> turn_state) option" where
  "compact_before_request cfg r st =
     (if tn_iterations st > 1 \<and> tn_stage st = Normal \<and> exceeds_auto_threshold cfg r None st
      then maybe_run_auto_compact cfg r st else Some (True, st))"

definition after_compaction :: "turn_config \<Rightarrow> turn_round \<Rightarrow> turn_state \<Rightarrow> iteration_end \<times> turn_state" where
  "after_compaction cfg r st =
     (let st1 = maybe_inject_goal_steering r (snd (drain_active_turn_inputs cfg r 1 (rd_steers r) st));
          request = build_api_request_messages r st1
      in if \<not> rd_provider r
         then (Leave, emit_events [Said ''error'' (tc_no_model_prompt cfg), GoalStopped] (st1\<lparr>tn_status := ''error''\<rparr>))
         else model_step cfg r request st1)"

text \<open>\<open>None\<close>: a compaction inside the iteration still waits.\<close>

definition turn_iteration :: "turn_config \<Rightarrow> turn_round \<Rightarrow> turn_state \<Rightarrow> (iteration_end \<times> turn_state) option" where
  "turn_iteration cfg r st =
     (let st1 = st\<lparr>tn_iterations := tn_iterations st + 1\<rparr>
      in if rd_abort_head r
         then Some (Leave, emit_events [Said ''system'' (abort_notice_text r)] (see_abort True st1))
         else case compact_before_request cfg r st1 of
           None \<Rightarrow> None
         | Some (False, st2) \<Rightarrow> Some (Leave, turn_error st2)
         | Some (True, st2) \<Rightarrow> Some (after_compaction cfg r st2))"

section \<open>The turn\<close>

definition has_max_iterations :: "turn_config \<Rightarrow> bool" where
  "has_max_iterations cfg \<longleftrightarrow> tc_max_iterations cfg > 0"

definition iterations_left :: "turn_config \<Rightarrow> turn_state \<Rightarrow> bool" where
  "iterations_left cfg st \<longleftrightarrow> \<not> has_max_iterations cfg \<or> int (tn_iterations st) < tc_max_iterations cfg"

text \<open>The loop; without a round the turn still runs.\<close>

fun turn_loop :: "turn_config \<Rightarrow> turn_round list \<Rightarrow> turn_state \<Rightarrow> turn_state option" where
  "turn_loop cfg [] st = None"
| "turn_loop cfg (r # rounds) st =
     (if rd_abort_while r then Some (see_abort True st)
      else if tn_terminator st \<or> \<not> iterations_left cfg st then Some st
      else case turn_iteration cfg r st of
        None \<Rightarrow> None
      | Some (Leave, st') \<Rightarrow> Some st'
      | Some (Again, st') \<Rightarrow> turn_loop cfg rounds st')"

definition stopped_text :: "int \<Rightarrow> string" where
  "stopped_text n = ''Agent loop stopped: reached max_iterations ('' @ show_int n @ '')''"

definition turn_aborted_text :: string where
  "turn_aborted_text = ''<turn_aborted>'' @ [newline] @
     ''The user interrupted the previous turn on purpose to submit new instructions. Any running tools or commands may have partially executed; inspect their state before retrying.'' @
     [newline] @ ''</turn_aborted>''"

record turn_finish =
  tf_abort_after_loop :: bool
  tf_aborted :: bool
  tf_interrupting :: bool
  tf_uuid :: string
  tf_now :: string

definition interrupted_marker :: "turn_config \<Rightarrow> turn_finish \<Rightarrow> chat_message" where
  "interrupted_marker cfg fin =
     hidden_row (tf_uuid fin) (tf_now fin)
       [(''hidden_goal_context'', JBool True), (''interrupted_turn_id'', JStr (tc_turn_id cfg)),
        (''turn_interrupt_marker'', JBool True)] turn_aborted_text"

text \<open>After the loop.  The abort flag is read again before each of the two endings.\<close>

definition finish_turn :: "turn_config \<Rightarrow> turn_finish \<Rightarrow> turn_state \<Rightarrow> turn_state" where
  "finish_turn cfg fin st =
     (let st0 = see_abort (tf_abort_after_loop fin) st;
          st1 = (if \<not> tn_aborted st0 \<and> \<not> tn_terminator st0 \<and> has_max_iterations cfg \<and> \<not> iterations_left cfg st0
                 then emit_events [Said ''system'' (stopped_text (tc_max_iterations cfg))] (st0\<lparr>tn_status := ''error''\<rparr>) else st0);
          st2 = see_abort (tf_aborted fin) st1;
          st3 = (if tn_aborted st2
                 then (let st' = st2\<lparr>tn_status := ''aborted''\<rparr>
                       in if tf_interrupting fin then push_row (interrupted_marker cfg fin) st' else st')
                 else st2)
      in emit_events [TurnDone (tn_status st3)] st3)"

text \<open>How a turn begins: the outcome of the prompt hook, the input and the round of the compaction before it.\<close>

record turn_begin =
  tb_hidden :: bool
  tb_prompt_hook :: "stop_outcome option"
  tb_input :: user_input
  tb_prompt :: string
  tb_now :: string
  tb_round :: turn_round

definition start_turn :: "turn_state \<Rightarrow> turn_state" where
  "start_turn st =
     st\<lparr>tn_iterations := 0, tn_step := 0, tn_stage := Normal, tn_emergency := False, tn_empty_retries := 0,
        tn_status := ''completed'', tn_terminator := False, tn_aborted := False, tn_trace := []\<rparr>"

definition prompt_refused :: "turn_begin \<Rightarrow> string option" where
  "prompt_refused b =
     (if tb_hidden b then None
      else case tb_prompt_hook b of
        None \<Rightarrow> None
      | Some so \<Rightarrow>
          if so_blocked so \<or> so_denied so
          then Some (if so_reason so = [] then ''User prompt blocked by hook.'' else so_reason so) else None)"

definition preturn_compact :: "turn_config \<Rightarrow> turn_begin \<Rightarrow> turn_state \<Rightarrow> (bool \<times> turn_state) option" where
  "preturn_compact cfg b st =
     (if exceeds_auto_threshold cfg (tb_round b) (Some (tb_input b)) st
      then maybe_run_auto_compact cfg (tb_round b) st else Some (True, st))"

definition run_turn ::
  "turn_config \<Rightarrow> turn_begin \<Rightarrow> turn_round list \<Rightarrow> turn_finish \<Rightarrow> turn_state \<Rightarrow> turn_state option" where
  "run_turn cfg b rounds fin st =
     (case prompt_refused b of
        Some reason \<Rightarrow>
          Some (emit_events [Said ''error'' (''[Hook blocked prompt] '' @ reason), TurnDone ''error'']
            ((start_turn st)\<lparr>tn_status := ''error''\<rparr>))
      | None \<Rightarrow>
          (case preturn_compact cfg b (start_turn st) of
             None \<Rightarrow> None
           | Some (compacted, st1) \<Rightarrow>
               (let st2 = push_row (prepared_user_row (tb_prompt b) (tb_hidden b) (tc_turn_id cfg) (tb_now b) (tb_input b)) st1
                in if \<not> compacted then Some (finish_turn cfg fin (turn_error st2))
                   else map_option (finish_turn cfg fin) (turn_loop cfg rounds st2))))"
end
