(* ===== verification/TurnProofs.thy ===== *)
theory TurnProofs
  imports TurnLoop
begin

text \<open>
  What holds of a turn of \<open>TurnLoop\<close>: the markers of its steps, the requests it sends, its recovery from a
  context that is too long, its outcome and that it ends.  The lemmas go function by function; each says
  what the function adds to the trace and which parts of the control state it leaves alone.
\<close>

section \<open>Events\<close>

fun quiet :: "turn_event \<Rightarrow> bool" where
  "quiet (Said _ _) = True"
| "quiet (EmptyAnswerNotice _ _) = True"
| "quiet GoalStopped = True"
| "quiet (CheckpointAppended _) = True"
| "quiet _ = False"

text \<open>The markers of steps, the requests and the last answer in a trace.\<close>

definition markers :: "turn_event list \<Rightarrow> (bool \<times> nat) list" where
  "markers = List.map_filter (\<lambda>e. case e of StepStart k \<Rightarrow> Some (True, k) | StepFinish k _ \<Rightarrow> Some (False, k) | _ \<Rightarrow> None)"

definition requests :: "turn_event list \<Rightarrow> chat_message list list" where
  "requests = List.map_filter (\<lambda>e. case e of RequestSent ms \<Rightarrow> Some ms | _ \<Rightarrow> None)"

fun last_answer :: "collected option \<Rightarrow> turn_event list \<Rightarrow> collected option" where
  "last_answer a [] = a"
| "last_answer a (Answered c # evs) = last_answer (Some c) evs"
| "last_answer a (_ # evs) = last_answer a evs"

text \<open>Every reset of the stream follows an answer that was refused as too long before the model had said anything.\<close>

definition silent_overflow :: "(string \<Rightarrow> json option) \<Rightarrow> collected \<Rightarrow> bool" where
  "silent_overflow parse c \<longleftrightarrow>
     cl_error_seen c \<and> is_context_overflow_error parse (cl_error c) \<and> \<not> model_output_seen c"

fun resets_justified :: "(string \<Rightarrow> json option) \<Rightarrow> collected option \<Rightarrow> turn_event list \<Rightarrow> bool" where
  "resets_justified parse a [] = True"
| "resets_justified parse a (Answered c # evs) = resets_justified parse (Some c) evs"
| "resets_justified parse a (StreamReset # evs) =
     ((\<exists>c. a = Some c \<and> silent_overflow parse c) \<and> resets_justified parse a evs)"
| "resets_justified parse a (_ # evs) = resets_justified parse a evs"

definition dones :: "turn_event list \<Rightarrow> string list" where
  "dones = List.map_filter (\<lambda>e. case e of TurnDone s \<Rightarrow> Some s | _ \<Rightarrow> None)"

definition resets :: "turn_event list \<Rightarrow> nat" where
  "resets evs = length (filter (\<lambda>e. e = StreamReset) evs)"

lemma markers_append [simp]: "markers (xs @ ys) = markers xs @ markers ys"
  by (simp add: markers_def List.map_filter_def)

lemma requests_append [simp]: "requests (xs @ ys) = requests xs @ requests ys"
  by (simp add: requests_def List.map_filter_def)

lemma dones_append [simp]: "dones (xs @ ys) = dones xs @ dones ys"
  by (simp add: dones_def List.map_filter_def)

lemma resets_append [simp]: "resets (xs @ ys) = resets xs + resets ys"
  by (simp add: resets_def)

lemma last_answer_append [simp]: "last_answer a (xs @ ys) = last_answer (last_answer a xs) ys"
  by (induction a xs rule: last_answer.induct) simp_all

lemma resets_justified_append [simp]:
  "resets_justified parse a (xs @ ys) \<longleftrightarrow> resets_justified parse a xs \<and> resets_justified parse (last_answer a xs) ys"
  by (induction parse a xs rule: resets_justified.induct) auto

lemma trace_nil [simp]: "markers [] = []" "requests [] = []" "dones [] = []" "resets [] = 0"
  by (simp_all add: markers_def requests_def dones_def resets_def List.map_filter_def)

lemma trace_event [simp]:
  "markers [StepStart k] = [(True, k)]" "markers [StepFinish k s] = [(False, k)]" "markers [RequestSent ms] = []"
  "markers [Answered c] = []" "markers [StreamReset] = []" "markers [TurnDone s] = []"
  "requests [StepStart k] = []" "requests [StepFinish k s] = []" "requests [RequestSent ms] = [ms]"
  "requests [Answered c] = []" "requests [StreamReset] = []" "requests [TurnDone s] = []"
  "dones [StepStart k] = []" "dones [StepFinish k s] = []" "dones [RequestSent ms] = []"
  "dones [Answered c] = []" "dones [StreamReset] = []" "dones [TurnDone s] = [s]"
  "resets [StepStart k] = 0" "resets [StepFinish k s] = 0" "resets [RequestSent ms] = 0"
  "resets [Answered c] = 0" "resets [StreamReset] = 1" "resets [TurnDone s] = 0"
  by (simp_all add: markers_def requests_def dones_def resets_def List.map_filter_def ex_bool_eq)

lemma trace_opening [simp]:
  "markers [StepStart k, RequestSent ms, Answered c] = [(True, k)]" "requests [StepStart k, RequestSent ms, Answered c] = [ms]"
  "resets [StepStart k, RequestSent ms, Answered c] = 0" "dones [StepStart k, RequestSent ms, Answered c] = []"
  by (simp_all add: markers_def requests_def dones_def resets_def List.map_filter_def ex_bool_eq)

lemma quiet_traces:
  assumes "list_all quiet evs"
  shows "markers evs = []" "requests evs = []" "dones evs = []" "resets evs = 0" "last_answer a evs = a" "resets_justified parse a evs"
proof -
  have "markers evs = [] \<and> requests evs = [] \<and> dones evs = [] \<and> resets evs = 0 \<and> last_answer a evs = a \<and> resets_justified parse a evs"
    using assms
  proof (induction evs)
    case (Cons e evs)
    then show ?case
      by (cases e) (simp_all add: markers_def requests_def dones_def resets_def List.map_filter_def)
  qed simp
  then show "markers evs = []" "requests evs = []" "dones evs = []" "resets evs = 0" "last_answer a evs = a" "resets_justified parse a evs"
    by simp_all
qed

section \<open>The parts of an iteration\<close>

lemma push_emit_simps [simp]:
  "tn_trace (push_row m st) = tn_trace st" "tn_trace (push_rows ms st) = tn_trace st"
  "tn_trace (emit_events evs st) = tn_trace st @ evs" "tn_trace (see_abort f st) = tn_trace st"
  "tn_step (push_row m st) = tn_step st" "tn_step (push_rows ms st) = tn_step st"
  "tn_step (emit_events evs st) = tn_step st" "tn_step (see_abort f st) = tn_step st"
  "tn_stage (push_row m st) = tn_stage st" "tn_stage (push_rows ms st) = tn_stage st"
  "tn_stage (emit_events evs st) = tn_stage st" "tn_stage (see_abort f st) = tn_stage st"
  "tn_iterations (push_row m st) = tn_iterations st" "tn_iterations (push_rows ms st) = tn_iterations st"
  "tn_iterations (emit_events evs st) = tn_iterations st" "tn_iterations (see_abort f st) = tn_iterations st"
  "tn_empty_retries (push_row m st) = tn_empty_retries st" "tn_empty_retries (push_rows ms st) = tn_empty_retries st"
  "tn_empty_retries (emit_events evs st) = tn_empty_retries st" "tn_empty_retries (see_abort f st) = tn_empty_retries st"
  "tn_status (push_row m st) = tn_status st" "tn_status (push_rows ms st) = tn_status st"
  "tn_status (emit_events evs st) = tn_status st" "tn_status (see_abort f st) = tn_status st"
  "tn_terminator (push_row m st) = tn_terminator st" "tn_terminator (push_rows ms st) = tn_terminator st"
  "tn_terminator (emit_events evs st) = tn_terminator st" "tn_terminator (see_abort f st) = tn_terminator st"
  "tn_aborted (push_row m st) = tn_aborted st" "tn_aborted (push_rows ms st) = tn_aborted st"
  "tn_aborted (emit_events evs st) = tn_aborted st" "tn_aborted (see_abort f st) = (tn_aborted st \<or> f)"
  by (simp_all add: push_row_def push_rows_def emit_events_def see_abort_def)

text \<open>A part that leaves the control state alone and adds quiet events only.\<close>

definition control :: "turn_state \<Rightarrow> nat \<times> nat \<times> recovery_stage \<times> nat \<times> string \<times> bool \<times> bool" where
  "control st = (tn_iterations st, tn_step st, tn_stage st, tn_empty_retries st, tn_status st, tn_terminator st, tn_aborted st)"

definition keeps :: "turn_state \<Rightarrow> turn_state \<Rightarrow> bool" where
  "keeps st st' \<longleftrightarrow> control st' = control st \<and> (\<exists>evs. list_all quiet evs \<and> tn_trace st' = tn_trace st @ evs)"

lemma keepsI: "control st' = control st \<Longrightarrow> tn_trace st' = tn_trace st @ evs \<Longrightarrow> list_all quiet evs \<Longrightarrow> keeps st st'"
  by (auto simp: keeps_def)

lemma keeps_refl [simp, intro]: "keeps st st"
  by (rule keepsI [where evs = "[]"]) simp_all

lemma keeps_trans [trans]: "keeps a b \<Longrightarrow> keeps b c \<Longrightarrow> keeps a c"
  unfolding keeps_def by (metis append.assoc list_all_append)

lemma keeps_push [simp]: "keeps st (push_row m st)" "keeps st (push_rows ms st)"
  by (auto intro!: keepsI [where evs = "[]"] simp: control_def)

lemma keeps_compact:
  assumes "maybe_run_auto_compact cfg r st = Some (ok, st')"
  shows "keeps st st'"
proof -
  have "keeps st (apply_compact_result cfg r trigger result st)" for trigger result
    by (rule keepsI [where evs = "tn_trace (apply_compact_result cfg r trigger result \<lparr>tn_messages = tn_messages st, tn_last_tokens = 0,
         tn_generation = 0, tn_window = tn_window st, tn_iterations = 0, tn_step = 0, tn_stage = Normal, tn_emergency = False,
         tn_empty_retries = 0, tn_status = [], tn_terminator = False, tn_stop_hook_active = False, tn_aborted = False,
         tn_trace = []\<rparr>)"])
      (simp_all add: apply_compact_result_def Let_def control_def emit_events_def)
  with assms show ?thesis by (auto simp: maybe_run_auto_compact_def split: if_splits option.splits)
qed

lemma keeps_compact_before:
  "compact_before_request cfg r st = Some (ok, st') \<Longrightarrow> keeps st st'"
  by (auto simp: compact_before_request_def split: if_splits dest: keeps_compact)

lemma keeps_drain: "drain_active_turn_inputs cfg r place waiting st = (b, st') \<Longrightarrow> keeps st st'"
  by (auto simp: drain_active_turn_inputs_def)

lemma keeps_steering: "keeps st (maybe_inject_goal_steering r st)"
  by (simp add: maybe_inject_goal_steering_def)

lemma keeps_stop_hook:
  assumes "maybe_continue_from_stop_hook r st = (b, st')"
  shows "keeps st st'"
proof -
  have "keeps st (st\<lparr>tn_stop_hook_active := f\<rparr>)" "keeps st (push_row m (st\<lparr>tn_stop_hook_active := f\<rparr>))" for f m
    by (auto intro!: keepsI [where evs = "[]"] simp: control_def)
  with assms show ?thesis
    by (auto simp: maybe_continue_from_stop_hook_def split: option.splits if_splits intro: keeps_trans)
qed

lemma keeps_continue:
  "continue_after_answer cfg r st = (b, st') \<Longrightarrow> keeps st st'"
  by (auto simp: continue_after_answer_def split: prod.splits bool.splits dest: keeps_stop_hook keeps_drain intro: keeps_trans)

lemma keeps_fields:
  assumes "keeps st st'"
  shows "tn_iterations st' = tn_iterations st" "tn_step st' = tn_step st" "tn_stage st' = tn_stage st"
    "tn_empty_retries st' = tn_empty_retries st" "tn_status st' = tn_status st" "tn_terminator st' = tn_terminator st"
    "tn_aborted st' = tn_aborted st" "markers (tn_trace st') = markers (tn_trace st)"
    "requests (tn_trace st') = requests (tn_trace st)" "dones (tn_trace st') = dones (tn_trace st)" "resets (tn_trace st') = resets (tn_trace st)"
    "last_answer a (tn_trace st') = last_answer a (tn_trace st)"
    "resets_justified parse a (tn_trace st') = resets_justified parse a (tn_trace st)"
  using assms by (auto simp: keeps_def control_def quiet_traces)

lemma continue_fields:
  assumes "continue_after_answer cfg r st = (b, st')"
  shows "control st' = control st" "markers (tn_trace st') = markers (tn_trace st)"
  using keeps_continue [OF assms] by (auto simp: keeps_def quiet_traces)

section \<open>The end of a step\<close>

definition closes :: "turn_state \<Rightarrow> turn_state \<Rightarrow> bool" where
  "closes st st' \<longleftrightarrow> tn_step st' = tn_step st \<and> tn_stage st' = tn_stage st \<and> tn_aborted st' = tn_aborted st \<and>
     (\<exists>mid reason tail. list_all quiet mid \<and> list_all quiet tail \<and>
        tn_trace st' = tn_trace st @ mid @ [StepFinish (tn_step st) reason] @ tail)"

lemma closesI:
  assumes "tn_trace st1 = tn_trace st @ mid @ [StepFinish (tn_step st) reason]" "list_all quiet mid"
    "tn_step st1 = tn_step st" "tn_stage st1 = tn_stage st" "tn_aborted st1 = tn_aborted st" "keeps st1 st'"
  shows "closes st st'"
  using assms unfolding closes_def keeps_def control_def by (metis append.assoc prod.inject)

lemma text_answer_ends:
  assumes "text_answer cfg r c st = (x, st')"
  shows "closes st st'" "tn_iterations st' = tn_iterations st" "tn_empty_retries st' = tn_empty_retries st"
    "tn_status st' = tn_status st" "tn_terminator st' = tn_terminator st"
proof -
  let ?s = "emit_events [Said ''assistant'' (rp_content (cl_response c)), StepFinish (tn_step st) (finish_reason (rp_finish (cl_response c)))]
    (push_row (text_answer_row (cl_response c)) st)"
  obtain b s where s: "continue_after_answer cfg r ?s = (b, s)" by fastforce
  have "s = st'" using assms by (cases b) (simp_all add: text_answer_def Let_def s)
  with keeps_continue [OF s] have k: "keeps ?s st'" by simp
  show "closes st st'" by (rule closesI [where ?st1.0 = ?s and mid = "[Said ''assistant'' (rp_content (cl_response c))]"]) (simp_all add: k)
  show "tn_iterations st' = tn_iterations st" "tn_empty_retries st' = tn_empty_retries st"
    "tn_status st' = tn_status st" "tn_terminator st' = tn_terminator st"
    using keeps_fields [OF k] by simp_all
qed

lemma empty_answer_ends:
  assumes "empty_answer cfg r c st = (x, st')"
  shows "closes st st'" "x = Again \<Longrightarrow> tn_iterations st' = tn_iterations st - 1"
    "x = Again \<Longrightarrow> tn_empty_retries st < 2 \<and> tn_empty_retries st' = Suc (tn_empty_retries st)"
    "x = Again \<Longrightarrow> tn_status st' = tn_status st" "tn_terminator st' = tn_terminator st"
    "x = Leave \<Longrightarrow> tn_status st' = ''error''"
proof -
  have same: "tn_step st' = tn_step st" "tn_stage st' = tn_stage st" "tn_aborted st' = tn_aborted st"
    using assms by (auto simp: empty_answer_def Let_def split: if_splits)
  have "\<exists>mid reason. list_all quiet mid \<and> tn_trace st' = tn_trace st @ mid @ [StepFinish (tn_step st) reason]"
  proof (cases "tn_empty_retries st < max_empty_retries")
    case True
    with assms show ?thesis
      by (intro exI [of _ "[EmptyAnswerNotice (tn_empty_retries st + 1) (truncated_by_length (cl_response c))]"])
        (auto simp: empty_answer_def Let_def)
  next
    case False
    with assms show ?thesis
      by (intro exI [of _ "[EmptyAnswerNotice (max_empty_retries + 1) (truncated_by_length (cl_response c)), GoalStopped]"])
        (auto simp: empty_answer_def Let_def)
  qed
  with same show "closes st st'" by (auto intro: closesI)
qed (use assms in \<open>auto simp: empty_answer_def Let_def split: if_splits\<close>)

lemma terminates_by_name:
  "terminates_turn results e \<Longrightarrow> function_name (snd e) \<in> {''task_complete'', ''ExitPlanMode''}"
  by (auto simp: terminates_turn_def split: option.splits)

lemma tool_answer_ends:
  assumes "tool_answer cfg r c st = (x, st')"
  shows "x = Again" "closes st st'" "tn_iterations st' = tn_iterations st" "tn_empty_retries st' = 0"
    "tn_status st' = tn_status st"
    "tn_terminator st' \<Longrightarrow> \<exists>call\<in>set (rp_calls (cl_response c)). function_name call \<in> {''task_complete'', ''ExitPlanMode''}"
proof -
  obtain fired s where f: "execute_tool_calls cfg r (cl_response c) (st\<lparr>tn_empty_retries := 0\<rparr>) = (fired, s)" by fastforce
  have s: "\<exists>rows. s = push_rows rows (st\<lparr>tn_empty_retries := 0\<rparr>)"
    and named: "fired \<Longrightarrow> \<exists>call\<in>set (rp_calls (cl_response c)). function_name call \<in> {''task_complete'', ''ExitPlanMode''}"
    using f by (auto simp: execute_tool_calls_def Let_def list_ex_iff in_set_enumerate_eq dest!: terminates_by_name)
  let ?s = "emit_events [StepFinish (tn_step st) (finish_reason (rp_finish (cl_response c)))] (s\<lparr>tn_terminator := fired\<rparr>)"
  obtain b s3 where s3: "continue_after_answer cfg r ?s = (b, s3)" by fastforce
  have "(if \<not> fired then (Again, ?s) else case (b, s3) of (True, st3) \<Rightarrow> (Again, st3\<lparr>tn_terminator := False\<rparr>) | (False, st3) \<Rightarrow> (Again, st3)) =
      (x, st')"
    using assms unfolding tool_answer_def Let_def f prod.case s3 by simp
  then have x: "x = Again \<and> (st' = ?s \<and> \<not> fired \<or> fired \<and> b \<and> st' = s3\<lparr>tn_terminator := False\<rparr> \<or> fired \<and> \<not> b \<and> st' = s3)"
    by (cases b; cases fired) simp_all
  then show "x = Again" by simp
  from s obtain rows where rows: "s = push_rows rows (st\<lparr>tn_empty_retries := 0\<rparr>)" ..
  note k = keeps_continue [OF s3]
  obtain t where t: "keeps ?s t" and eq: "tn_step st' = tn_step t" "tn_stage st' = tn_stage t" "tn_aborted st' = tn_aborted t"
      "tn_trace st' = tn_trace t" "tn_iterations st' = tn_iterations t" "tn_empty_retries st' = tn_empty_retries t"
      "tn_status st' = tn_status t"
  proof (cases "st' = ?s")
    case True
    show ?thesis by (rule that [of ?s]) (simp_all add: True)
  next
    case False
    with x have "st' = s3\<lparr>tn_terminator := False\<rparr> \<or> st' = s3" by auto
    then show ?thesis by (elim disjE) (rule that [OF k]; simp)+
  qed
  have c: "closes st t" by (rule closesI [where ?st1.0 = ?s and mid = "[]", OF _ _ _ _ _ t]) (simp_all add: rows)
  from c show "closes st st'" by (simp only: closes_def eq)
  show "tn_iterations st' = tn_iterations st" "tn_empty_retries st' = 0" "tn_status st' = tn_status st"
    using keeps_fields [OF t] by (simp_all only: eq) (simp_all add: rows)
  show "tn_terminator st' \<Longrightarrow> \<exists>call\<in>set (rp_calls (cl_response c)). function_name call \<in> {''task_complete'', ''ExitPlanMode''}"
    using x named keeps_fields(6) [OF k] by auto
qed

section \<open>Recovery\<close>

fun stage_rank :: "recovery_stage \<Rightarrow> nat" where
  "stage_rank Normal = 0"
| "stage_rank HistoryRepaired = 1"
| "stage_rank EmergencyProfile = 2"

lemma stage_rank_le: "stage_rank s \<le> 2"
  by (cases s) simp_all

lemma provider_error_cases:
  assumes "handle_provider_error cfg r request c st = (out, st')"
  shows "out = ErrorProceed \<and> st' = st \<and> \<not> cl_error_seen c \<or>
    out = ErrorContinue \<and> silent_overflow (tc_parse cfg) c \<and> stage_rank (tn_stage st) < stage_rank (tn_stage st') \<and>
      (\<exists>pre. list_all quiet pre \<and> tn_trace st' = tn_trace st @ pre @ [StreamReset]) \<and>
      (tn_iterations st', tn_step st', tn_empty_retries st', tn_status st', tn_terminator st', tn_aborted st') =
      (tn_iterations st, tn_step st, tn_empty_retries st, tn_status st, tn_terminator st, tn_aborted st) \<or>
    out = ErrorBreak \<and> cl_error_seen c \<and> (tn_aborted st' \<and> tn_status st' = tn_status st \<or> tn_status st' = ''error'') \<and> tn_terminator st' = tn_terminator st \<and>
      tn_stage st' = tn_stage st \<and> tn_step st' = tn_step st \<and> (tn_aborted st \<longrightarrow> tn_aborted st') \<and>
      (\<exists>evs. list_all quiet evs \<and> tn_trace st' = tn_trace st @ evs)"
proof -
  have report: "tn_status (report_provider_error cfg c s) = ''error''" "tn_stage (report_provider_error cfg c s) = tn_stage s"
    "tn_step (report_provider_error cfg c s) = tn_step s" "tn_aborted (report_provider_error cfg c s) = tn_aborted s"
    "tn_terminator (report_provider_error cfg c s) = tn_terminator s"
    "\<exists>evs. list_all quiet evs \<and> tn_trace (report_provider_error cfg c s) = tn_trace s @ evs" for s
    by (simp_all add: report_provider_error_def Let_def)
  have emergency: "tn_trace (enter_emergency st) = tn_trace st @ [StreamReset]" "tn_stage (enter_emergency st) = EmergencyProfile"
    "(tn_iterations (enter_emergency st), tn_step (enter_emergency st), tn_empty_retries (enter_emergency st), tn_status (enter_emergency st),
      tn_terminator (enter_emergency st), tn_aborted (enter_emergency st)) =
     (tn_iterations st, tn_step st, tn_empty_retries st, tn_status st, tn_terminator st, tn_aborted st)"
    by (simp_all add: enter_emergency_def)
  show ?thesis
  proof (cases "cl_error_seen c \<and> \<not> rd_abort_error r \<and> is_context_overflow_error (tc_parse cfg) (cl_error c) \<and> \<not> model_output_seen c")
    case False
    with assms report [of st] show ?thesis by (auto simp: handle_provider_error_def split: if_splits)
  next
    case True
    then have silent: "silent_overflow (tc_parse cfg) c" by (simp add: silent_overflow_def)
    have e: "handle_provider_error cfg r request c st = (case tn_stage st of
           Normal \<Rightarrow>
             (case apply_thread_repair (rd_session r) (tc_dump cfg) (tc_parse cfg) (rd_uuid r 3 0) (rd_now r)
                     (overflow_repair_options cfg r request st) no_diagnostics (tn_messages st, rd_session_file r) of
                (result, history, file) \<Rightarrow>
                  if rr_status result = Repaired
                  then (ErrorContinue,
                    emit_events [CheckpointAppended (rr_checkpoint result), StreamReset]
                      (st\<lparr>tn_messages := history, tn_stage := HistoryRepaired, tn_generation := tn_generation st + 1,
                          tn_last_tokens := 0\<rparr>))
                  else (ErrorContinue, enter_emergency st))
         | HistoryRepaired \<Rightarrow> (ErrorContinue, enter_emergency st)
         | EmergencyProfile \<Rightarrow> (ErrorBreak, report_provider_error cfg c st))"
      using True by (simp add: handle_provider_error_def)
    have pre0: "\<exists>pre. list_all quiet pre \<and> tn_trace (enter_emergency st) = tn_trace st @ pre @ [StreamReset]"
      by (rule exI [of _ "[]"]) (simp add: emergency)
    show ?thesis
    proof (cases "tn_stage st")
      case Normal
      obtain result history file' where a: "apply_thread_repair (rd_session r) (tc_dump cfg) (tc_parse cfg) (rd_uuid r 3 0) (rd_now r)
          (overflow_repair_options cfg r request st) no_diagnostics (tn_messages st, rd_session_file r) = (result, history, file')"
        by (metis prod_cases3)
      show ?thesis
      proof (cases "rr_status result = Repaired")
        case True
        with assms have "out = ErrorContinue" "st' = emit_events [CheckpointAppended (rr_checkpoint result), StreamReset]
            (st\<lparr>tn_messages := history, tn_stage := HistoryRepaired, tn_generation := tn_generation st + 1, tn_last_tokens := 0\<rparr>)"
          by (simp_all add: e Normal a)
        with silent Normal show ?thesis by (auto intro!: exI [of _ "[CheckpointAppended (rr_checkpoint result)]"])
      next
        case False
        with assms have "out = ErrorContinue" "st' = enter_emergency st" by (simp_all add: e Normal a)
        with silent Normal emergency pre0 show ?thesis by simp
      qed
    next
      case HistoryRepaired
      with assms have "out = ErrorContinue" "st' = enter_emergency st" by (simp_all add: e)
      with silent HistoryRepaired emergency pre0 show ?thesis by simp
    next
      case EmergencyProfile
      with assms have "out = ErrorBreak" "st' = report_provider_error cfg c st" by (simp_all add: e)
      with True report [of st] show ?thesis by simp
    qed
  qed
qed

section \<open>Requests\<close>

definition sent_request :: "chat_message list \<Rightarrow> bool" where
  "sent_request ms \<longleftrightarrow> valid_history ms \<and> ms \<noteq> [] \<and> role (hd ms) = ''system''"

lemma system_prefix_valid:
  "(\<And>m. m \<in> set c \<Longrightarrow> role m = ''system'') \<Longrightarrow> valid_history h \<Longrightarrow> valid_history (c @ h)"
  using scan_context_rows [of c "{}"] by (auto simp: valid_history_def scan_append)

lemma request_contexts_roles: "m \<in> set (request_contexts r) \<Longrightarrow> role m = ''user''"
  by (auto simp: request_contexts_def context_row_def split: if_splits)

lemma request_valid: "sent_request (build_api_request_messages r st)"
proof -
  let ?h = "rewrite_tool_calls_for_model (normalize_messages_for_api (tn_messages st))"
  let ?c = "if tn_emergency st then [] else request_contexts r"
  have "valid_history ?h"
    by (rule rewritten_valid) (simp add: normalize_messages_for_api_def recovered_valid)
  then have i: "valid_history (insert_context_before_last_real_user_or_summary ?h ?c)"
    by (rule request_with_context_valid) (auto dest: request_contexts_roles split: if_splits)
  define skill_rows where "skill_rows = (if (if tn_emergency st then [] else rd_skill_context r) = [] then [] else
     [empty_message\<lparr>role := ''system'', content := (if tn_emergency st then [] else rd_skill_context r),
        metadata := JObj [(''request_local_skill_context'', JBool True)]\<rparr>])"
  have e: "build_api_request_messages r st = ([empty_message\<lparr>role := ''system'', content := rd_system_prompt r\<rparr>] @ skill_rows) @
      insert_context_before_last_real_user_or_summary ?h ?c"
    by (simp add: build_api_request_messages_def Let_def skill_rows_def)
  have "valid_history (build_api_request_messages r st)"
    unfolding e by (rule system_prefix_valid [OF _ i]) (auto simp: skill_rows_def split: if_splits)
  then show ?thesis by (simp add: sent_request_def) (simp add: e)
qed

section \<open>What every iteration keeps\<close>

definition step_pairs :: "nat \<Rightarrow> (bool \<times> nat) list" where
  "step_pairs n = concat (map (\<lambda>k. [(True, k), (False, k)]) [1..<Suc n])"

lemma step_pairs_Suc: "step_pairs (Suc n) = step_pairs n @ [(True, Suc n), (False, Suc n)]"
  by (simp add: step_pairs_def)

definition requests_and_resets_ok :: "turn_config \<Rightarrow> turn_state \<Rightarrow> bool" where
  "requests_and_resets_ok cfg st \<longleftrightarrow> list_all sent_request (requests (tn_trace st)) \<and>
     resets_justified (tc_parse cfg) None (tn_trace st) \<and> resets (tn_trace st) \<le> stage_rank (tn_stage st) \<and>
     dones (tn_trace st) = []"

definition turn_inv :: "turn_config \<Rightarrow> turn_state \<Rightarrow> bool" where
  "turn_inv cfg st \<longleftrightarrow> markers (tn_trace st) = step_pairs (tn_step st) \<and> requests_and_resets_ok cfg st"

definition open_step :: "turn_config \<Rightarrow> collected \<Rightarrow> turn_state \<Rightarrow> bool" where
  "open_step cfg c st \<longleftrightarrow> (\<exists>n. tn_step st = Suc n \<and> markers (tn_trace st) = step_pairs n @ [(True, Suc n)]) \<and>
     last_answer None (tn_trace st) = Some c \<and> requests_and_resets_ok cfg st"

lemma turn_inv_keeps: "turn_inv cfg st \<Longrightarrow> keeps st st' \<Longrightarrow> turn_inv cfg st'"
  by (simp add: turn_inv_def requests_and_resets_ok_def keeps_fields)

lemma opened:
  assumes "turn_inv cfg st" "sent_request request"
  shows "open_step cfg c (emit_events [StepStart (tn_step st + 1), RequestSent request, Answered c]
      (st\<lparr>tn_step := tn_step st + 1, tn_last_tokens := n\<rparr>))"
  using assms
  by (simp add: open_step_def turn_inv_def requests_and_resets_ok_def)

lemma closed_step:
  assumes "open_step cfg c st" "closes st st'"
  shows "turn_inv cfg st'" "last_answer None (tn_trace st') = Some c"
proof -
  from assms obtain mid reason tail where t: "list_all quiet mid" "list_all quiet tail"
      "tn_trace st' = tn_trace st @ mid @ [StepFinish (tn_step st) reason] @ tail"
      "tn_step st' = tn_step st" "tn_stage st' = tn_stage st"
    by (auto simp: closes_def)
  with assms(1) show "turn_inv cfg st'" "last_answer None (tn_trace st') = Some c"
    by (auto simp: open_step_def turn_inv_def requests_and_resets_ok_def quiet_traces step_pairs_Suc
        simp del: append_Cons append_Nil)
qed

lemma open_step_error:
  assumes "open_step cfg c st" "handle_provider_error cfg r request c st = (out, st')"
  shows "open_step cfg c st'"
proof -
  from provider_error_cases [OF assms(2)] consider (same) "st' = st"
    | (reset) pre where "silent_overflow (tc_parse cfg) c" "stage_rank (tn_stage st) < stage_rank (tn_stage st')"
      "list_all quiet pre" "tn_trace st' = tn_trace st @ pre @ [StreamReset]" "tn_step st' = tn_step st"
    | (over) evs where "list_all quiet evs" "tn_trace st' = tn_trace st @ evs" "tn_step st' = tn_step st" "tn_stage st' = tn_stage st"
    by blast
  then show ?thesis
    by cases (use assms(1) in \<open>auto simp: open_step_def requests_and_resets_ok_def quiet_traces\<close>)
qed

section \<open>Progress and outcome\<close>

text \<open>An answer that may end a turn.\<close>

definition ends_turn :: "collected \<Rightarrow> bool" where
  "ends_turn c \<longleftrightarrow> \<not> cl_error_seen c \<and>
     (if has_tool_calls (cl_response c)
      then \<exists>call\<in>set (rp_calls (cl_response c)). function_name call \<in> {''task_complete'', ''ExitPlanMode''}
      else \<not> response_is_blank (cl_response c))"

definition answered :: "turn_state \<Rightarrow> bool" where
  "answered st \<longleftrightarrow> (\<exists>c. last_answer None (tn_trace st) = Some c \<and> ends_turn c)"

definition running :: "turn_config \<Rightarrow> turn_state \<Rightarrow> bool" where
  "running cfg st \<longleftrightarrow> turn_inv cfg st \<and> tn_status st = ''completed'' \<and> \<not> tn_aborted st \<and> tn_empty_retries st \<le> 2 \<and>
     (tn_terminator st \<longrightarrow> answered st)"

definition left_turn :: "turn_config \<Rightarrow> turn_state \<Rightarrow> bool" where
  "left_turn cfg st \<longleftrightarrow> turn_inv cfg st \<and>
     (tn_aborted st \<or> tn_status st = ''error'' \<or> tn_status st = ''completed'' \<and> answered st) \<and>
     tn_status st \<in> {''error'', ''completed''}"

definition retries_left :: "turn_state \<Rightarrow> nat" where
  "retries_left st = (2 - tn_empty_retries st) + (2 - stage_rank (tn_stage st))"

text \<open>An iteration counts, or it uses up one of the retries.\<close>

definition advances :: "turn_state \<Rightarrow> turn_state \<Rightarrow> bool" where
  "advances st st' \<longleftrightarrow>
     tn_iterations st' = Suc (tn_iterations st) \<and> retries_left st' \<le> retries_left st + 2 \<or>
     tn_iterations st' = tn_iterations st \<and> retries_left st' < retries_left st"

lemma model_step_spec:
  assumes run: "running cfg st" "\<not> tn_terminator st" and req: "sent_request request"
    and it: "tn_iterations st = Suc n" and step: "model_step cfg r request st = (x, st')"
  shows "(x = Again \<and> running cfg st' \<and> advances (st\<lparr>tn_iterations := n\<rparr>) st') \<or> (x = Leave \<and> left_turn cfg st' \<and> \<not> tn_terminator st')"
proof -
  define c where "c = collect_stream (tc_tools cfg) (rd_stream r)"
  define st1 where "st1 = emit_events [StepStart (tn_step st + 1), RequestSent request, Answered c]
     (st\<lparr>tn_step := tn_step st + 1,
         tn_last_tokens := (case reported_tokens (rd_abort_usage r) c of Some n \<Rightarrow> n | None \<Rightarrow> tn_last_tokens st)\<rparr>)"
  have inv: "turn_inv cfg st" using run by (simp add: running_def)
  have o1: "open_step cfg c st1" unfolding st1_def by (rule opened [OF inv req])
  have f1: "tn_iterations st1 = Suc n" "tn_empty_retries st1 = tn_empty_retries st" "tn_stage st1 = tn_stage st"
      "tn_status st1 = ''completed''" "\<not> tn_aborted st1" "\<not> tn_terminator st1" "tn_step st1 = tn_step st + 1"
      "tn_empty_retries st1 \<le> 2"
    using run it by (simp_all add: st1_def running_def)
  show ?thesis
  proof (cases "rd_abort_usage r \<or> rd_abort_stream r")
    case True
    then have "x = Leave" "st' = emit_events [Said ''system'' (abort_notice_text r), StepFinish (tn_step st + 1) ''aborted''] (see_abort True st1)"
      using step unfolding model_step_def Let_def c_def [symmetric] st1_def [symmetric] if_P [OF True] by simp_all
    moreover have "closes (see_abort True st1) st'"
      unfolding calculation
      by (rule closesI [where mid = "[Said ''system'' (abort_notice_text r)]", OF _ _ _ _ _ keeps_refl]) (simp_all add: f1)
    moreover have "open_step cfg c (see_abort True st1)" using o1 by (simp add: open_step_def requests_and_resets_ok_def)
    ultimately show ?thesis using closed_step f1 by (auto simp: left_turn_def)
  next
    case False
    obtain out st2 where h: "handle_provider_error cfg r request c st1 = (out, st2)" by fastforce
    have o2: "open_step cfg c st2" by (rule open_step_error [OF o1 h])
    have eq: "(case (out, st2) of
           (ErrorContinue, st2) \<Rightarrow>
             (Again, emit_events [StepFinish (tn_step st + 1) ''retry''] (st2\<lparr>tn_iterations := tn_iterations st2 - 1\<rparr>))
         | (ErrorBreak, st2) \<Rightarrow> (Leave, emit_events [StepFinish (tn_step st + 1) ''error''] st2)
         | (ErrorProceed, st2) \<Rightarrow>
             if has_tool_calls (cl_response c) then tool_answer cfg r c st2
             else if response_is_blank (cl_response c) then empty_answer cfg r c st2
             else text_answer cfg r c st2) = (x, st')"
      using step unfolding model_step_def Let_def c_def [symmetric] st1_def [symmetric] if_not_P [OF False] h .
    show ?thesis
    proof (cases out)
      case ErrorContinue
      then have x: "x = Again" "st' = emit_events [StepFinish (tn_step st + 1) ''retry''] (st2\<lparr>tn_iterations := tn_iterations st2 - 1\<rparr>)"
        using eq by simp_all
      from provider_error_cases [OF h] ErrorContinue have s2: "stage_rank (tn_stage st1) < stage_rank (tn_stage st2)"
        "(tn_iterations st2, tn_step st2, tn_empty_retries st2, tn_status st2, tn_terminator st2, tn_aborted st2) =
         (tn_iterations st1, tn_step st1, tn_empty_retries st1, tn_status st1, tn_terminator st1, tn_aborted st1)" by simp_all
      have "closes st2 st'"
        by (rule closesI [where mid = "[]", OF _ _ _ _ _ keeps_refl]) (use s2 f1 in \<open>simp_all add: x\<close>)
      with closed_step(1) [OF o2] have "turn_inv cfg st'" by blast
      then show ?thesis using s2 f1 stage_rank_le [of "tn_stage st2"] by (simp add: x running_def advances_def retries_left_def)
    next
      case ErrorBreak
      then have x: "x = Leave" "st' = emit_events [StepFinish (tn_step st + 1) ''error''] st2" using eq by simp_all
      from provider_error_cases [OF h] ErrorBreak have s2: "tn_aborted st2 \<and> tn_status st2 = tn_status st1 \<or> tn_status st2 = ''error''"
        "tn_terminator st2 = tn_terminator st1" "tn_step st2 = tn_step st1" by auto
      have "closes st2 st'"
        by (rule closesI [where mid = "[]", OF _ _ _ _ _ keeps_refl]) (use s2 f1 in \<open>simp_all add: x\<close>)
      with closed_step(1) [OF o2] have "turn_inv cfg st'" by blast
      with s2 f1 show ?thesis by (auto simp: x left_turn_def)
    next
      case ErrorProceed
      with provider_error_cases [OF h] have s2: "st2 = st1" "\<not> cl_error_seen c" by auto
      show ?thesis
      proof (cases "has_tool_calls (cl_response c)")
        case True
        with eq ErrorProceed have t: "tool_answer cfg r c st1 = (x, st')" by (simp add: s2)
        note e = tool_answer_ends [OF t]
        have "tn_aborted st' = tn_aborted st1" "tn_stage st' = tn_stage st1" using e(2) by (simp_all add: closes_def)
        moreover have "tn_terminator st' \<Longrightarrow> answered st'"
          using e(6) True s2 closed_step(2) [OF o1 e(2)] by (auto simp: answered_def ends_turn_def)
        ultimately show ?thesis
          using e f1 closed_step(1) [OF o1 e(2)] by (auto simp: running_def advances_def retries_left_def)
      next
        case calls: False
        show ?thesis
        proof (cases "response_is_blank (cl_response c)")
          case True
          with eq ErrorProceed calls have t: "empty_answer cfg r c st1 = (x, st')" by (simp add: s2)
          note e = empty_answer_ends [OF t]
          have "tn_aborted st' = tn_aborted st1" "tn_stage st' = tn_stage st1" using e(1) by (simp_all add: closes_def)
          then show ?thesis
            using e f1 closed_step(1) [OF o1 e(1)] stage_rank_le [of "tn_stage st1"]
            by (cases x) (auto simp: running_def left_turn_def advances_def retries_left_def)
        next
          case False
          with eq ErrorProceed calls have t: "text_answer cfg r c st1 = (x, st')" by (simp add: s2)
          note e = text_answer_ends [OF t]
          have a: "tn_aborted st' = tn_aborted st1" "tn_stage st' = tn_stage st1" using e(1) by (simp_all add: closes_def)
          have "answered st'" using closed_step(2) [OF o1 e(1)] calls False s2 by (auto simp: answered_def ends_turn_def)
          with a show ?thesis
            using e f1 closed_step(1) [OF o1 e(1)]
            by (cases x) (auto simp: running_def left_turn_def advances_def retries_left_def)
        qed
      qed
    qed
  qed
qed

lemma keeps_running: "running cfg st \<Longrightarrow> keeps st st' \<Longrightarrow> running cfg st'"
  by (auto simp: running_def answered_def keeps_fields intro: turn_inv_keeps)

lemma retries_left_cong:
  "tn_empty_retries st = tn_empty_retries st' \<Longrightarrow> tn_stage st = tn_stage st' \<Longrightarrow> retries_left st = retries_left st'"
  by (simp add: retries_left_def)

lemma step_count:
  assumes "model_step cfg r request st = (x, st')"
  shows "tn_step st' = Suc (tn_step st)"
proof -
  define c where "c = collect_stream (tc_tools cfg) (rd_stream r)"
  define st1 where "st1 = emit_events [StepStart (tn_step st + 1), RequestSent request, Answered c]
     (st\<lparr>tn_step := tn_step st + 1,
         tn_last_tokens := (case reported_tokens (rd_abort_usage r) c of Some n \<Rightarrow> n | None \<Rightarrow> tn_last_tokens st)\<rparr>)"
  have s1: "tn_step st1 = Suc (tn_step st)" by (simp add: st1_def)
  obtain out st2 where h: "handle_provider_error cfg r request c st1 = (out, st2)" by fastforce
  have s2: "tn_step st2 = tn_step st1" using provider_error_cases [OF h] by auto
  have "(if rd_abort_usage r \<or> rd_abort_stream r
         then (Leave, emit_events [Said ''system'' (abort_notice_text r), StepFinish (tn_step st + 1) ''aborted''] (see_abort True st1))
         else case (out, st2) of
           (ErrorContinue, st2) \<Rightarrow>
             (Again, emit_events [StepFinish (tn_step st + 1) ''retry''] (st2\<lparr>tn_iterations := tn_iterations st2 - 1\<rparr>))
         | (ErrorBreak, st2) \<Rightarrow> (Leave, emit_events [StepFinish (tn_step st + 1) ''error''] st2)
         | (ErrorProceed, st2) \<Rightarrow>
             if has_tool_calls (cl_response c) then tool_answer cfg r c st2
             else if response_is_blank (cl_response c) then empty_answer cfg r c st2
             else text_answer cfg r c st2) = (x, st')"
    using assms unfolding model_step_def Let_def c_def [symmetric] st1_def [symmetric] h .
  then show ?thesis
    using s1 s2 tool_answer_ends(2) [of cfg r c st2 x st'] empty_answer_ends(1) [of cfg r c st2 x st']
      text_answer_ends(1) [of cfg r c st2 x st']
    by (cases out) (auto simp: closes_def split: if_splits)
qed

lemma iteration_spec:
  assumes run: "running cfg st" "\<not> tn_terminator st" and it: "turn_iteration cfg r st = Some (x, st')"
  shows "(x = Again \<and> running cfg st' \<and> advances st st' \<or> x = Leave \<and> left_turn cfg st') \<and> tn_step st' \<le> Suc (tn_step st)"
proof -
  let ?s = "st\<lparr>tn_iterations := tn_iterations st + 1\<rparr>"
  have r1: "running cfg ?s" using run(1) by (simp add: running_def turn_inv_def requests_and_resets_ok_def answered_def)
  show ?thesis
  proof (cases "rd_abort_head r")
    case True
    with it have x: "x = Leave" "st' = emit_events [Said ''system'' (abort_notice_text r)] (see_abort True ?s)"
      by (simp_all add: turn_iteration_def Let_def)
    have "turn_inv cfg st'" using run(1)
      by (simp add: x running_def turn_inv_def requests_and_resets_ok_def quiet_traces)
    with run show ?thesis by (simp add: x left_turn_def running_def)
  next
    case False
    with it obtain ok st2 where c: "compact_before_request cfg r ?s = Some (ok, st2)"
      by (auto simp: turn_iteration_def Let_def split: option.splits)
    have k2: "keeps ?s st2" by (rule keeps_compact_before [OF c])
    show ?thesis
    proof (cases ok)
      case False
      with it c \<open>\<not> rd_abort_head r\<close> have x: "x = Leave" "st' = turn_error st2" by (simp_all add: turn_iteration_def Let_def)
      have "turn_inv cfg st'" using keeps_running [OF r1 k2]
        by (simp add: x turn_error_def running_def turn_inv_def requests_and_resets_ok_def quiet_traces)
      with keeps_fields [OF k2] show ?thesis by (simp add: x left_turn_def turn_error_def)
    next
      case True
      with it c \<open>\<not> rd_abort_head r\<close> have a: "after_compaction cfg r st2 = (x, st')" by (simp add: turn_iteration_def Let_def)
      define st3 where "st3 = maybe_inject_goal_steering r (snd (drain_active_turn_inputs cfg r 1 (rd_steers r) st2))"
      have k3: "keeps ?s st3"
        unfolding st3_def
        by (rule keeps_trans [OF keeps_trans [OF k2 keeps_drain [OF prod.collapse [symmetric]]] keeps_steering])
      have r3: "running cfg st3" by (rule keeps_running [OF r1 k3])
      note f3 = keeps_fields [OF k3]
      show ?thesis
      proof (cases "rd_provider r")
        case False
        with a have x: "x = Leave"
            "st' = emit_events [Said ''error'' (tc_no_model_prompt cfg), GoalStopped] (st3\<lparr>tn_status := ''error''\<rparr>)"
          by (simp_all add: after_compaction_def Let_def st3_def)
        have "turn_inv cfg st'" using r3
          by (simp add: x running_def turn_inv_def requests_and_resets_ok_def quiet_traces)
        with f3 show ?thesis by (simp add: x left_turn_def)
      next
        case True
        with a have m: "model_step cfg r (build_api_request_messages r st3) st3 = (x, st')"
          by (simp add: after_compaction_def Let_def st3_def)
        have "retries_left (st3\<lparr>tn_iterations := tn_iterations st\<rparr>) = retries_left st"
          by (rule retries_left_cong) (simp_all add: f3)
        then show ?thesis
          using model_step_spec [OF r3 _ request_valid _ m, of "tn_iterations st"] step_count [OF m] f3 run
          by (auto simp: advances_def)
      qed
    qed
  qed
qed

section \<open>The loop\<close>

definition loop_ended :: "turn_config \<Rightarrow> turn_state \<Rightarrow> bool" where
  "loop_ended cfg st \<longleftrightarrow> left_turn cfg st \<or> running cfg st \<and> (tn_terminator st \<or> \<not> iterations_left cfg st)"

lemma loop_spec:
  "running cfg st \<Longrightarrow> turn_loop cfg rounds st = Some st' \<Longrightarrow> loop_ended cfg st'"
proof (induction cfg rounds st rule: turn_loop.induct)
  case (2 cfg r rounds st)
  show ?case
  proof (cases "rd_abort_while r")
    case True
    with 2 show ?thesis
      by (auto simp: loop_ended_def left_turn_def running_def turn_inv_def requests_and_resets_ok_def)
  next
    case False
    show ?thesis
    proof (cases "tn_terminator st \<or> \<not> iterations_left cfg st")
      case True
      with False 2 show ?thesis by (simp add: loop_ended_def)
    next
      case go: False
      with False 2(3) obtain x s where i: "turn_iteration cfg r st = Some (x, s)" by (auto split: option.splits)
      from iteration_spec [OF 2(2) _ i] go
      have s: "x = Again \<and> running cfg s \<or> x = Leave \<and> left_turn cfg s" by auto
      show ?thesis
      proof (cases x)
        case Again
        with s i go False 2(3) 2(1) [OF False go i refl Again] show ?thesis by simp
      next
        case Leave
        with s i go False 2(3) show ?thesis by (simp add: loop_ended_def)
      qed
    qed
  qed
qed simp

text \<open>What bounds the iterations: three for each that counts, and the retries that are left.\<close>

definition potential :: "turn_config \<Rightarrow> turn_state \<Rightarrow> nat" where
  "potential cfg st = 3 * (nat (tc_max_iterations cfg) - tn_iterations st) + retries_left st"

definition compaction_answers :: "turn_config \<Rightarrow> turn_round \<Rightarrow> bool" where
  "compaction_answers cfg r \<longleftrightarrow>
     (rd_compact_provider r \<longrightarrow> (\<forall>ms. compact_messages (tc_dump cfg) (tc_parse cfg) ms (rd_compact_rounds r) \<noteq> None))"

lemma compaction_answered:
  assumes "compaction_answers cfg r"
  shows "maybe_run_auto_compact cfg r st \<noteq> None"
proof -
  from assms have "rd_compact_provider r \<Longrightarrow>
      compact_messages (tc_dump cfg) (tc_parse cfg) (tn_messages st) (rd_compact_rounds r) \<noteq> None"
    by (simp add: compaction_answers_def)
  then show ?thesis by (auto simp: maybe_run_auto_compact_def) (rule exI [of _ False], simp)
qed

lemma iteration_answered:
  assumes "compaction_answers cfg r"
  shows "turn_iteration cfg r st \<noteq> None"
proof -
  let ?s = "st\<lparr>tn_iterations := tn_iterations st + 1\<rparr>"
  have "compact_before_request cfg r ?s \<noteq> None"
    using compaction_answered [OF assms, of ?s] by (simp add: compact_before_request_def ex_bool_eq)
  then obtain ok s where "compact_before_request cfg r ?s = Some (ok, s)" by auto
  then show ?thesis by (cases ok) (simp_all add: turn_iteration_def Let_def)
qed

lemma loop_returns:
  assumes "has_max_iterations cfg"
  shows "running cfg st \<Longrightarrow> list_all (compaction_answers cfg) rounds \<Longrightarrow> potential cfg st < length rounds \<Longrightarrow>
    \<exists>st'. turn_loop cfg rounds st = Some st' \<and> tn_step st' \<le> tn_step st + potential cfg st"
proof (induction rounds arbitrary: st)
  case (Cons r rounds)
  show ?case
  proof (cases "rd_abort_while r \<or> tn_terminator st \<or> \<not> iterations_left cfg st")
    case True
    then show ?thesis by auto
  next
    case False
    then have left: "tn_iterations st < nat (tc_max_iterations cfg)" "\<not> tn_terminator st"
      using assms by (auto simp: iterations_left_def has_max_iterations_def)
    obtain x s where i: "turn_iteration cfg r st = Some (x, s)"
      using iteration_answered [of cfg r st] Cons.prems(2) by auto
    note spec = iteration_spec [OF Cons.prems(1) left(2) i]
    show ?thesis
    proof (cases x)
      case Again
      with spec have a: "running cfg s" "advances st s" "tn_step s \<le> Suc (tn_step st)" by auto
      then have p: "potential cfg s < potential cfg st" using left(1) by (auto simp: advances_def potential_def)
      have ra: "list_all (compaction_answers cfg) rounds" "potential cfg s < length rounds" using Cons.prems p by auto
      from Cons.IH [OF a(1) ra] obtain st'
        where "turn_loop cfg rounds s = Some st'" "tn_step st' \<le> tn_step s + potential cfg s" by blast
      with False i Again a(3) p show ?thesis by auto
    next
      case Leave
      have "potential cfg st > 0" using left(1) by (simp add: potential_def)
      with spec False i Leave show ?thesis by auto
    qed
  qed
qed simp

section \<open>The whole turn\<close>

lemma start_running: "running cfg (start_turn st)"
  by (simp add: running_def start_turn_def turn_inv_def requests_and_resets_ok_def step_pairs_def)

lemma keeps_preturn: "preturn_compact cfg b st = Some (ok, st') \<Longrightarrow> keeps st st'"
  by (auto simp: preturn_compact_def split: if_splits dest: keeps_compact)

lemma finish_spec:
  assumes "loop_ended cfg st"
  shows "\<exists>s. turn_inv cfg s \<and> tn_step s = tn_step st \<and> tn_status s \<in> {''completed'', ''error'', ''aborted''} \<and>
    (tn_status s = ''completed'' \<longrightarrow> answered s) \<and> (tn_status s = ''aborted'') = tn_aborted s \<and>
    finish_turn cfg fin st = emit_events [TurnDone (tn_status s)] s"
proof -
  define st0 where "st0 = see_abort (tf_abort_after_loop fin) st"
  define st1 where "st1 = (if \<not> tn_aborted st0 \<and> \<not> tn_terminator st0 \<and> has_max_iterations cfg \<and> \<not> iterations_left cfg st0
     then emit_events [Said ''system'' (stopped_text (tc_max_iterations cfg))] (st0\<lparr>tn_status := ''error''\<rparr>) else st0)"
  define st2 where "st2 = see_abort (tf_aborted fin) st1"
  define st3 where "st3 = (if tn_aborted st2
     then (let st' = st2\<lparr>tn_status := ''aborted''\<rparr>
           in if tf_interrupting fin then push_row (interrupted_marker cfg fin) st' else st') else st2)"
  have f: "finish_turn cfg fin st = emit_events [TurnDone (tn_status st3)] st3"
    by (simp add: finish_turn_def Let_def st0_def st1_def st2_def st3_def)
  have inv: "turn_inv cfg st" and status: "tn_status st \<in> {''completed'', ''error''}"
    and ans: "tn_status st = ''completed'' \<longrightarrow> tn_aborted st \<or> answered st \<or> \<not> tn_terminator st \<and> \<not> iterations_left cfg st"
    using assms by (auto simp: loop_ended_def left_turn_def running_def)
  have i1: "turn_inv cfg st1" using inv
    by (auto simp: st1_def st0_def turn_inv_def requests_and_resets_ok_def quiet_traces)
  have s1: "tn_status st1 \<in> {''completed'', ''error''}" "tn_status st1 = ''completed'' \<longrightarrow> tn_aborted st1 \<or> answered st1"
      "tn_step st1 = tn_step st"
    using status ans by (auto simp: st1_def st0_def answered_def iterations_left_def)
  have "turn_inv cfg st3" "tn_step st3 = tn_step st"
    using i1 s1 by (auto simp: st3_def st2_def turn_inv_def requests_and_resets_ok_def Let_def)
  moreover have "tn_status st3 \<in> {''completed'', ''error'', ''aborted''}" "tn_status st3 = ''completed'' \<longrightarrow> answered st3"
      "(tn_status st3 = ''aborted'') = tn_aborted st3"
    using s1 by (auto simp: st3_def st2_def Let_def answered_def)
  ultimately show ?thesis using f by blast
qed

text \<open>Every finished turn is a state before its last event.\<close>

lemma turn_spec:
  assumes "run_turn cfg b rounds fin st = Some st'"
  shows "\<exists>s. turn_inv cfg s \<and> tn_status s \<in> {''completed'', ''error'', ''aborted''} \<and>
    (tn_status s = ''completed'' \<longrightarrow> answered s) \<and> (tn_status s = ''aborted'') = tn_aborted s \<and>
    st' = emit_events [TurnDone (tn_status s)] s"
proof (cases "prompt_refused b")
  case (Some reason)
  let ?s = "emit_events [Said ''error'' (''[Hook blocked prompt] '' @ reason)] ((start_turn st)\<lparr>tn_status := ''error''\<rparr>)"
  have "turn_inv cfg ?s" using start_running [of cfg st]
    by (simp add: running_def turn_inv_def requests_and_resets_ok_def quiet_traces)
  moreover have "st' = emit_events [TurnDone (tn_status ?s)] ?s"
    using assms Some by (simp add: run_turn_def emit_events_def)
  moreover have "tn_status ?s = ''error''" "\<not> tn_aborted ?s" by (simp_all add: start_turn_def)
  ultimately show ?thesis by (intro exI [of _ ?s]) simp
next
  case None
  with assms obtain ok st1 where p: "preturn_compact cfg b (start_turn st) = Some (ok, st1)"
    by (auto simp: run_turn_def split: option.splits)
  let ?s = "push_row (prepared_user_row (tb_prompt b) (tb_hidden b) (tc_turn_id cfg) (tb_now b) (tb_input b)) st1"
  have run: "running cfg ?s"
    by (rule keeps_running [OF keeps_running [OF start_running keeps_preturn [OF p]] keeps_push(1)])
  have "\<exists>s. loop_ended cfg s \<and> st' = finish_turn cfg fin s"
  proof (cases ok)
    case True
    with assms None p obtain s where "turn_loop cfg rounds ?s = Some s" "st' = finish_turn cfg fin s"
      by (auto simp: run_turn_def Let_def)
    with loop_spec [OF run] show ?thesis by blast
  next
    case False
    have "left_turn cfg (turn_error ?s)"
      using run by (simp add: left_turn_def running_def turn_error_def turn_inv_def requests_and_resets_ok_def quiet_traces)
    with False assms None p show ?thesis by (auto simp: run_turn_def Let_def loop_ended_def)
  qed
  then obtain s where s: "loop_ended cfg s" "st' = finish_turn cfg fin s" by blast
  from finish_spec [OF s(1), of fin] s(2) show ?thesis by metis
qed

section \<open>Properties\<close>

text \<open>C7: A turn with a limit on its iterations ends, whatever the provider, the tools, the hooks and the user
  do: of \<open>3 * max + 5\<close> rounds it needs no more, as long as its compactions are answered.  Each counted
  iteration may be followed by at most two empty answers, and the recovery from a context that is too long
  adds at most two requests to the turn, so the model is asked at most \<open>3 * max + 4\<close> times.\<close>

theorem limited_turn_ends:
  assumes "tc_max_iterations cfg > 0" "3 * nat (tc_max_iterations cfg) + 5 \<le> length rounds"
    and "compaction_answers cfg (tb_round b)" "list_all (compaction_answers cfg) rounds"
  shows "\<exists>st'. run_turn cfg b rounds fin st = Some st' \<and> tn_step st' \<le> 3 * nat (tc_max_iterations cfg) + 4"
proof (cases "prompt_refused b")
  case (Some reason)
  then show ?thesis by (simp add: run_turn_def start_turn_def)
next
  case None
  have "preturn_compact cfg b (start_turn st) \<noteq> None"
    using compaction_answered [OF assms(3)] by (simp add: preturn_compact_def ex_bool_eq)
  then obtain ok st1 where p: "preturn_compact cfg b (start_turn st) = Some (ok, st1)" by auto
  let ?s = "push_row (prepared_user_row (tb_prompt b) (tb_hidden b) (tc_turn_id cfg) (tb_now b) (tb_input b)) st1"
  note k = keeps_trans [OF keeps_preturn [OF p] keeps_push(1)]
  have run: "running cfg ?s" by (rule keeps_running [OF start_running k])
  have pot: "potential cfg ?s = 3 * nat (tc_max_iterations cfg) + 4" "tn_step ?s = 0"
    using keeps_fields [OF k] by (simp_all add: potential_def retries_left_def start_turn_def)
  obtain s where s: "loop_ended cfg s" "tn_step s \<le> 3 * nat (tc_max_iterations cfg) + 4"
      "run_turn cfg b rounds fin st = Some (finish_turn cfg fin s)"
  proof (cases ok)
    case True
    obtain s where "turn_loop cfg rounds ?s = Some s" "tn_step s \<le> tn_step ?s + potential cfg ?s"
      using loop_returns [OF _ run assms(4)] assms(1,2) pot by (auto simp: has_max_iterations_def)
    with True None p pot show ?thesis
      by (intro that [of s]) (auto simp: run_turn_def Let_def loop_spec [OF run])
  next
    case False
    have "left_turn cfg (turn_error ?s)"
      using run by (simp add: left_turn_def running_def turn_error_def turn_inv_def requests_and_resets_ok_def quiet_traces)
    with False None p pot show ?thesis
      by (intro that [of "turn_error ?s"]) (auto simp: run_turn_def Let_def loop_ended_def turn_error_def)
  qed
  from finish_spec [OF s(1), of fin] s(2,3) show ?thesis by fastforce
qed

text \<open>C8: The life of every model step is recorded without a gap: in the events of a finished turn the steps
  are numbered from one, each start is followed by its own finish before the next start, also for a step that
  was aborted, refused, repeated or answered with nothing, and the end of the turn is announced once.\<close>

theorem model_steps_bracketed:
  assumes "run_turn cfg b rounds fin st = Some st'"
  shows "markers (tn_trace st') = concat (map (\<lambda>k. [(True, k), (False, k)]) [1..<Suc (tn_step st')]) \<and>
    dones (tn_trace st') = [tn_status st']"
proof -
  from turn_spec [OF assms] obtain s where "turn_inv cfg s" "st' = emit_events [TurnDone (tn_status s)] s" by blast
  then show ?thesis by (simp add: turn_inv_def step_pairs_def requests_and_resets_ok_def)
qed

text \<open>C6: Every request a turn sends to the provider opens with the system prompt and is a history the
  provider accepts, whatever the history of the session, the contexts, the steering input and the tool
  results are.  A turn is replayed at most twice, and only when the provider refused the request as too long
  and the model had not said, thought or called anything in it.\<close>

theorem requests_valid_and_replays_bounded:
  assumes "run_turn cfg b rounds fin st = Some st'"
  shows "list_all (\<lambda>ms. valid_history ms \<and> ms \<noteq> [] \<and> role (hd ms) = ''system'') (requests (tn_trace st')) \<and>
    resets (tn_trace st') \<le> 2 \<and> resets_justified (tc_parse cfg) None (tn_trace st')"
proof -
  from turn_spec [OF assms] obtain s where s: "turn_inv cfg s" "st' = emit_events [TurnDone (tn_status s)] s" by blast
  have "sent_request = (\<lambda>ms. valid_history ms \<and> ms \<noteq> [] \<and> role (hd ms) = ''system'')"
    by (rule ext) (simp add: sent_request_def)
  with s stage_rank_le [of "tn_stage s"] show ?thesis
    by (simp add: turn_inv_def requests_and_resets_ok_def)
qed

text \<open>C9: The reported outcome can be believed: it is completed, error or aborted; aborted exactly when the
  abort was seen; and completed only when the last answer came without an error and either was a text that is
  not blank or asked for the tool that ends the turn.\<close>

theorem completed_turn_was_answered:
  assumes "run_turn cfg b rounds fin st = Some st'"
  shows "tn_status st' \<in> {''completed'', ''error'', ''aborted''} \<and> (tn_status st' = ''aborted'') = tn_aborted st' \<and>
    (tn_status st' = ''completed'' \<longrightarrow>
      (\<exists>c. last_answer None (tn_trace st') = Some c \<and> \<not> cl_error_seen c \<and>
        (if has_tool_calls (cl_response c)
         then \<exists>call\<in>set (rp_calls (cl_response c)). function_name call \<in> {''task_complete'', ''ExitPlanMode''}
         else \<not> response_is_blank (cl_response c))))"
proof -
  from turn_spec [OF assms] obtain s where "tn_status s \<in> {''completed'', ''error'', ''aborted''}"
    "tn_status s = ''completed'' \<longrightarrow> answered s" "(tn_status s = ''aborted'') = tn_aborted s"
    "st' = emit_events [TurnDone (tn_status s)] s" by blast
  then show ?thesis by (simp add: answered_def ends_turn_def)
qed

section \<open>Concrete turns\<close>

definition idle_round :: turn_round where
  "idle_round = \<lparr>rd_abort_while = False, rd_abort_head = False, rd_abort_usage = False, rd_abort_stream = False,
     rd_abort_error = False, rd_interrupting = False, rd_context = [], rd_window = 0, rd_compact_blocked = False,
     rd_compact_provider = False, rd_compact_rounds = [], rd_compact_stopped = False, rd_session = None,
     rd_session_rows = [], rd_session_file = None, rd_uuid = (\<lambda>i j. ''u''), rd_now = ''t'', rd_steers = [],
     rd_goal_prompts = [], rd_system_prompt = ''be helpful'', rd_skill_context = [], rd_session_context = [],
     rd_swarm_context = [], rd_hook_context = [], rd_plan_context = [], rd_todo_context = [], rd_provider = True,
     rd_stream = ([], StreamReturned), rd_results = (\<lambda>i. None), rd_prompts = (\<lambda>i. None), rd_replacements = None,
     rd_stop_hook = None, rd_late_steers = []\<rparr>"

definition answer_round :: turn_round where
  "answer_round = idle_round\<lparr>rd_stream := ([Delta ''hi'', DoneEvent ''stop'' JNull], StreamReturned)\<rparr>"

definition sample_config :: "int \<Rightarrow> turn_config" where
  "sample_config n = \<lparr>tc_dump = (\<lambda>j. []), tc_parse = (\<lambda>s. None), tc_utf8 = (\<lambda>s. s), tc_extras = (\<lambda>r. (JNull, JNull)),
     tc_tools = [], tc_max_iterations = n, tc_turn_id = ''turn'', tc_no_model_prompt = ''no model''\<rparr>"

definition sample_begin :: turn_begin where
  "sample_begin = \<lparr>tb_hidden = False, tb_prompt_hook = None,
     tb_input = \<lparr>ui_text = ''go'', ui_display = [], ui_parts = JNull, ui_metadata = JNull\<rparr>,
     tb_prompt = ''go'', tb_now = ''t'', tb_round = idle_round\<rparr>"

definition sample_finish :: turn_finish where
  "sample_finish = \<lparr>tf_abort_after_loop = False, tf_aborted = False, tf_interrupting = False, tf_uuid = ''m'', tf_now = ''t''\<rparr>"

definition sample_state :: turn_state where
  "sample_state = \<lparr>tn_messages = [], tn_last_tokens = 0, tn_generation = 0,
     tn_window = \<lparr>cw_initialized = False, cw_number = 0, cw_current = [], cw_first = []\<rparr>,
     tn_iterations = 0, tn_step = 0, tn_stage = Normal, tn_emergency = False, tn_empty_retries = 0, tn_status = [],
     tn_terminator = False, tn_stop_hook_active = False, tn_aborted = False, tn_trace = []\<rparr>"

text \<open>First an empty answer, then a text.\<close>

definition sample_run :: "int \<Rightarrow> turn_state option" where
  "sample_run n = run_turn (sample_config n) sample_begin [idle_round, answer_round] sample_finish sample_state"

definition shown :: "turn_event list \<Rightarrow> (string \<times> nat) list" where
  "shown = List.map_filter (\<lambda>e. case e of StepStart k \<Rightarrow> Some (''start'', k) | StepFinish k s \<Rightarrow> Some (s, k) | TurnDone s \<Rightarrow> Some (s, 0)
     | _ \<Rightarrow> None)"

lemma no_window: "rd_window r \<le> 0 \<Longrightarrow> \<not> exceeds_auto_threshold cfg r pending st"
  by (simp add: exceeds_auto_threshold_def should_auto_compact_def Let_def)

lemma sample_parts:
  "prompt_refused sample_begin = None"
  "preturn_compact (sample_config n) sample_begin st = Some (True, st)"
  "compact_before_request cfg idle_round st = Some (True, st)" "compact_before_request cfg answer_round st = Some (True, st)"
  "after_compaction cfg idle_round st = model_step cfg idle_round (build_api_request_messages idle_round st) st"
  "after_compaction cfg answer_round st = model_step cfg answer_round (build_api_request_messages answer_round st) st"
  "turn_iteration cfg idle_round st =
     Some (model_step cfg idle_round (build_api_request_messages idle_round (st\<lparr>tn_iterations := tn_iterations st + 1\<rparr>)) (st\<lparr>tn_iterations := tn_iterations st + 1\<rparr>))"
  "turn_iteration cfg answer_round st =
     Some (model_step cfg answer_round (build_api_request_messages answer_round (st\<lparr>tn_iterations := tn_iterations st + 1\<rparr>)) (st\<lparr>tn_iterations := tn_iterations st + 1\<rparr>))"
proof -
  have w: "rd_window idle_round \<le> 0" "rd_window answer_round \<le> 0" by (simp_all add: idle_round_def answer_round_def)
  show "prompt_refused sample_begin = None" by (simp add: prompt_refused_def sample_begin_def)
  show "preturn_compact (sample_config n) sample_begin st = Some (True, st)"
    using no_window [OF w(1)] by (simp add: preturn_compact_def sample_begin_def)
  show c: "compact_before_request cfg idle_round st = Some (True, st)" "compact_before_request cfg answer_round st = Some (True, st)" for st
    using no_window [OF w(1)] no_window [OF w(2)] by (simp_all add: compact_before_request_def)
  show a: "after_compaction cfg idle_round st = model_step cfg idle_round (build_api_request_messages idle_round st) st"
    "after_compaction cfg answer_round st = model_step cfg answer_round (build_api_request_messages answer_round st) st" for st
    by (simp_all add: after_compaction_def idle_round_def answer_round_def drain_active_turn_inputs_def
        maybe_inject_goal_steering_def push_rows_def Let_def enumerate_eq_zip)
  show "turn_iteration cfg idle_round st =
     Some (model_step cfg idle_round (build_api_request_messages idle_round (st\<lparr>tn_iterations := tn_iterations st + 1\<rparr>)) (st\<lparr>tn_iterations := tn_iterations st + 1\<rparr>))"
    "turn_iteration cfg answer_round st =
     Some (model_step cfg answer_round (build_api_request_messages answer_round (st\<lparr>tn_iterations := tn_iterations st + 1\<rparr>)) (st\<lparr>tn_iterations := tn_iterations st + 1\<rparr>))"
    by (simp_all add: turn_iteration_def c a Let_def) (simp_all add: idle_round_def answer_round_def)
qed

lemma idle_step:
  "collect_stream [] (rd_stream idle_round) = collect_start"
  "cl_response (collect_stream [] (rd_stream answer_round)) = fresh_response\<lparr>rp_content := ''hi'', rp_finish := ''stop''\<rparr>"
  "\<not> cl_error_seen (collect_stream [] (rd_stream answer_round))"
  by (simp_all add: idle_round_def answer_round_def collect_stream_def collect_event_def collect_end_def with_response_def
      first_output_def collect_start_def fresh_response_def)

lemma sample_fields [simp]:
  "tc_tools (sample_config n) = []" "tc_max_iterations (sample_config n) = n"
  "rd_abort_while idle_round = False" "rd_abort_while answer_round = False"
  "rd_abort_usage idle_round = False" "rd_abort_usage answer_round = False" "rd_abort_stream idle_round = False"
  "rd_abort_stream answer_round = False" "rd_stop_hook answer_round = None" "rd_late_steers answer_round = []"
  "tf_abort_after_loop sample_finish = False" "tf_aborted sample_finish = False"
  by (simp_all add: sample_config_def idle_round_def answer_round_def sample_finish_def)

lemma idle_model_step:
  assumes "tn_empty_retries st = 0" "tn_iterations st = Suc n"
  shows "\<exists>st'. model_step (sample_config m) idle_round q st = (Again, st') \<and>
    control st' = (n, Suc (tn_step st), tn_stage st, 1, tn_status st, tn_terminator st, tn_aborted st) \<and>
    tn_trace st' = tn_trace st @ [StepStart (Suc (tn_step st)), RequestSent q, Answered collect_start, EmptyAnswerNotice 1 False,
      StepFinish (Suc (tn_step st)) ''empty_response_retry'']"
proof -
  have c: "\<not> cl_error_seen collect_start" "cl_response collect_start = fresh_response" by (simp_all add: collect_start_def)
  have f: "\<not> has_tool_calls fresh_response" "response_is_blank fresh_response" "\<not> truncated_by_length fresh_response"
    by (simp_all add: has_tool_calls_def response_is_blank_def has_answer_parts_def blank_text_def fresh_response_def
        truncated_by_length_def)
  show ?thesis
    by (simp add: model_step_def Let_def idle_step handle_provider_error_def c f empty_answer_def assms control_def)
qed

lemma answer_model_step:
  "\<exists>c st'. model_step (sample_config m) answer_round q st = (Leave, st') \<and>
    control st' = (tn_iterations st, Suc (tn_step st), tn_stage st, tn_empty_retries st, tn_status st, tn_terminator st, tn_aborted st) \<and>
    tn_trace st' = tn_trace st @ [StepStart (Suc (tn_step st)), RequestSent q, Answered c, Said ''assistant'' ''hi'',
      StepFinish (Suc (tn_step st)) ''stop'']"
proof -
  let ?c = "collect_stream [] (rd_stream answer_round)"
  have f: "\<not> has_tool_calls (cl_response ?c)" "\<not> response_is_blank (cl_response ?c)" "rp_content (cl_response ?c) = ''hi''"
      "finish_reason (rp_finish (cl_response ?c)) = ''stop''"
    by (simp_all add: idle_step has_tool_calls_def response_is_blank_def has_answer_parts_def blank_text_def fresh_response_def
        finish_reason_def)
  show ?thesis
    by (simp add: model_step_def Let_def idle_step(3) handle_provider_error_def f text_answer_def continue_after_answer_def
        maybe_continue_from_stop_hook_def drain_active_turn_inputs_def control_def enumerate_eq_zip push_rows_def)
qed

lemma sample_run_value:
  assumes "n \<in> {1, 2}"
  shows "\<exists>st. sample_run n = Some st \<and> tn_status st = (if n = 2 then ''completed'' else ''error'') \<and> tn_step st = 2 \<and>
    shown (tn_trace st) = [(''start'', 1), (''empty_response_retry'', 1), (''start'', 2), (''stop'', 2),
      (if n = 2 then ''completed'' else ''error'', 0)]"
proof -
  let ?cfg = "sample_config n"
  define s0 where "s0 = push_row (prepared_user_row (tb_prompt sample_begin) (tb_hidden sample_begin) (tc_turn_id ?cfg)
     (tb_now sample_begin) (tb_input sample_begin)) (start_turn sample_state)"
  have c0: "control s0 = (0, 0, Normal, 0, ''completed'', False, False)" "tn_trace s0 = []"
    by (simp_all add: s0_def control_def start_turn_def)
  then have f0: "tn_iterations s0 = 0" "tn_empty_retries s0 = 0" "tn_step s0 = 0" "\<not> tn_terminator s0" "tn_stage s0 = Normal"
      "tn_status s0 = ''completed''" "\<not> tn_aborted s0"
    by (simp_all add: control_def)
  let ?s = "s0\<lparr>tn_iterations := Suc 0\<rparr>"
  obtain s1 where s1: "model_step ?cfg idle_round (build_api_request_messages idle_round ?s) ?s = (Again, s1)"
      "control s1 = (0, 1, Normal, 1, ''completed'', False, False)"
      "tn_trace s1 = [StepStart 1, RequestSent (build_api_request_messages idle_round ?s), Answered collect_start,
        EmptyAnswerNotice 1 False, StepFinish 1 ''empty_response_retry'']"
    using idle_model_step [of ?s 0 n "build_api_request_messages idle_round ?s"] c0 f0 by auto
  let ?t = "s1\<lparr>tn_iterations := Suc 0\<rparr>"
  have f1: "tn_iterations s1 = 0" "tn_step s1 = 1" "\<not> tn_terminator s1" "tn_stage s1 = Normal" "tn_status s1 = ''completed''"
      "\<not> tn_aborted s1" "tn_empty_retries s1 = 1"
    using s1(2) by (simp_all add: control_def)
  obtain c s2 where s2: "model_step ?cfg answer_round (build_api_request_messages answer_round ?t) ?t = (Leave, s2)"
      "control s2 = (1, 2, Normal, 1, ''completed'', False, False)"
      "tn_trace s2 = tn_trace s1 @ [StepStart 2, RequestSent (build_api_request_messages answer_round ?t), Answered c,
        Said ''assistant'' ''hi'', StepFinish 2 ''stop'']"
    using answer_model_step [of n "build_api_request_messages answer_round ?t" ?t] f1 by (auto simp: numeral_2_eq_2)
  have f2: "tn_iterations s2 = 1" "tn_step s2 = 2" "\<not> tn_terminator s2" "tn_stage s2 = Normal" "tn_status s2 = ''completed''"
      "\<not> tn_aborted s2"
    using s2(2) by (simp_all add: control_def)
  have "turn_loop ?cfg [idle_round, answer_round] s0 = Some s2"
    using assms f0 f1 s1(1) s2(1) by (auto simp: sample_parts iterations_left_def has_max_iterations_def)
  then have "sample_run n = Some (finish_turn ?cfg sample_finish s2)"
    by (simp add: sample_run_def run_turn_def sample_parts s0_def Let_def)
  then show ?thesis
    using assms f2 s1(3) s2(3)
    by (auto simp: finish_turn_def Let_def iterations_left_def has_max_iterations_def shown_def List.map_filter_def)
qed

lemma sample_run_completes:
  "\<exists>st. sample_run 2 = Some st \<and> tn_status st = ''completed'' \<and>
    shown (tn_trace st) = [(''start'', 1), (''empty_response_retry'', 1), (''start'', 2), (''stop'', 2), (''completed'', 0)]"
  using sample_run_value [of 2] by auto

text \<open>An answer in the last permitted iteration is reported as an error: the test after the loop looks at the
  count only.\<close>

lemma answer_in_last_iteration_is_error:
  "\<exists>st. sample_run 1 = Some st \<and> tn_status st = ''error'' \<and>
    shown (tn_trace st) = [(''start'', 1), (''empty_response_retry'', 1), (''start'', 2), (''stop'', 2), (''error'', 0)]"
  using sample_run_value [of 1] by auto

theorem limited_turn_ends_witness:
  "\<exists>st'. run_turn (sample_config 1) sample_begin (replicate 8 idle_round) sample_finish sample_state = Some st' \<and> tn_step st' \<le> 7"
proof -
  have a: "compaction_answers (sample_config 1) idle_round" by (simp add: compaction_answers_def idle_round_def)
  have b: "compaction_answers (sample_config 1) (tb_round sample_begin)" using a by (simp add: sample_begin_def)
  have l: "list_all (compaction_answers (sample_config 1)) (replicate 8 idle_round)"
    using a by (simp add: list_all_iff)
  show ?thesis
    using limited_turn_ends [OF _ _ b l, of sample_finish sample_state] by simp
qed

theorem model_steps_bracketed_witness:
  "\<exists>st. sample_run 2 = Some st \<and> markers (tn_trace st) = [(True, 1), (False, 1), (True, 2), (False, 2)] \<and>
     dones (tn_trace st) = [''completed'']"
proof -
  obtain st where "sample_run 2 = Some st" "tn_status st = ''completed''" "tn_step st = 2"
    using sample_run_value [of 2] by auto
  moreover have "[1..<Suc 2] = [1, 2]" by (simp add: upt_rec)
  ultimately show ?thesis
    using model_steps_bracketed [of "sample_config 2" sample_begin "[idle_round, answer_round]" sample_finish sample_state st]
    by (simp add: sample_run_def)
qed

theorem requests_valid_and_replays_bounded_witness:
  "\<exists>st. sample_run 2 = Some st \<and> resets (tn_trace st) \<le> 2 \<and> resets_justified (\<lambda>s. None) None (tn_trace st)"
  using sample_run_value [of 2]
    requests_valid_and_replays_bounded [of "sample_config 2" sample_begin "[idle_round, answer_round]" sample_finish sample_state]
  by (auto simp: sample_run_def sample_config_def)

theorem completed_turn_was_answered_witness:
  "\<exists>st c. sample_run 2 = Some st \<and> last_answer None (tn_trace st) = Some c \<and> \<not> cl_error_seen c"
  using sample_run_value [of 2]
    completed_turn_was_answered [of "sample_config 2" sample_begin "[idle_round, answer_round]" sample_finish sample_state]
  by (auto simp: sample_run_def)

end
