(* ===== verification/TurnControl.thy ===== *)
theory TurnControl
  imports TurnLoop
begin

text \<open>
  The threads around a turn: callers that submit work, steer or interrupt the running turn, abort and shut
  down, and the worker that takes one task after the other (\<open>agent_loop.cpp\<close>).  A state holds the fields
  these functions share; every critical section and every store to an atomic flag that the other threads can
  see is one move, and the moves of callers and worker interleave freely.  The trace records what was
  accepted, queued, started and thrown away.  What a task does is left out: a chat turn appears by its
  resetting the flags, opening, taking waiting input, settling and closing.
\<close>

section \<open>State\<close>

datatype worker_task =
  ChatTask user_input bool
| ShellTask string
| CompactTask
| ControlTask nat

fun is_turn_task :: "worker_task \<Rightarrow> bool" where
  "is_turn_task (ControlTask n) = False"
| "is_turn_task _ = True"

datatype steer_status = SteerAccepted | InvalidInput | NoActiveTurn | NonSteerable | TurnMismatch | QueueFull

text \<open>Where the worker is: before the task's first statement, with the flags reset, inside an open turn,
  behind the loop of a turn, behind its closing, and before it clears its mark.\<close>

datatype worker_phase = Waiting | Taken worker_task | Started worker_task | Open | Settled | Closed | Leaving | Stopped

datatype control_event =
  AcceptedInput user_input
| CommittedInput string user_input
| PromisedInput string user_input
| DroppedInput user_input
| SteerReply steer_status string
| TaskQueued worker_task
| ControlAccepted nat bool
| UrgentTaken worker_task
| OrdinaryTaken worker_task
| InterruptMarker string

record turn_control =
  qc_tasks :: "worker_task list"
  qc_priority :: "worker_task list"
  qc_active :: "worker_task option"
  qc_phase :: worker_phase
  qc_shutdown :: bool
  qc_abort :: bool
  qc_interrupt :: bool
  qc_busy :: bool
  qc_turn_id :: string
  qc_accepting :: bool
  qc_pending :: "user_input list"
  qc_sequence :: nat
  qc_trace :: "control_event list"

definition control_start :: turn_control where
  "control_start = \<lparr>qc_tasks = [], qc_priority = [], qc_active = None, qc_phase = Waiting, qc_shutdown = False,
     qc_abort = False, qc_interrupt = False, qc_busy = False, qc_turn_id = [], qc_accepting = False, qc_pending = [],
     qc_sequence = 0, qc_trace = []\<rparr>"

definition log_event :: "control_event \<Rightarrow> turn_control \<Rightarrow> turn_control" where
  "log_event e st = st\<lparr>qc_trace := qc_trace st @ [e]\<rparr>"

definition log_events :: "control_event list \<Rightarrow> turn_control \<Rightarrow> turn_control" where
  "log_events es st = st\<lparr>qc_trace := qc_trace st @ es\<rparr>"

abbreviation max_pending_steers :: nat where "max_pending_steers \<equiv> 128"

section \<open>The callers\<close>

definition is_blank_char :: "char \<Rightarrow> bool" where
  "is_blank_char ch \<longleftrightarrow> ch \<in> {CHR '' '', CHR 0x09, CHR 0x0A, CHR 0x0B, CHR 0x0C, CHR 0x0D}"

definition has_meaningful_user_input :: "user_input \<Rightarrow> bool" where
  "has_meaningful_user_input i \<longleftrightarrow> has_content_parts i \<or> list_ex (\<lambda>ch. \<not> is_blank_char ch) (ui_text i)"

definition abort_turn :: "turn_control \<Rightarrow> turn_control" where
  "abort_turn st = st\<lparr>qc_abort := True\<rparr>"

definition clear_stale_abort_request :: "turn_control \<Rightarrow> turn_control" where
  "clear_stale_abort_request st = (if \<not> qc_busy st then st\<lparr>qc_abort := False\<rparr> else st)"

text \<open>The second half of \<open>submit\<close>, \<open>submit_shell\<close> and \<open>submit_compact\<close>.\<close>

definition push_task :: "worker_task \<Rightarrow> turn_control \<Rightarrow> turn_control" where
  "push_task t st = log_event (TaskQueued t) (st\<lparr>qc_tasks := qc_tasks st @ [t]\<rparr>)"

definition enqueue_control :: "turn_control \<Rightarrow> turn_control" where
  "enqueue_control st =
     (if qc_shutdown st then st
      else let behind = ((case qc_active st of Some t \<Rightarrow> is_turn_task t | None \<Rightarrow> False) \<or>
                 list_ex is_turn_task (qc_priority st) \<or> list_ex is_turn_task (qc_tasks st));
               n = qc_sequence st + 1
        in log_events [ControlAccepted n behind, TaskQueued (ControlTask n)]
             (st\<lparr>qc_tasks := qc_tasks st @ [ControlTask n], qc_sequence := n\<rparr>))"

definition push_goal_continuation :: "user_input \<Rightarrow> turn_control \<Rightarrow> turn_control" where
  "push_goal_continuation i st =
     (if qc_shutdown st \<or> qc_priority st \<noteq> [] \<or> qc_tasks st \<noteq> [] then st else push_task (ChatTask i True) st)"

text \<open>What steering and interrupting refuse, in the code's order; \<open>None\<close>: nothing.\<close>

definition refuse_input :: "string \<Rightarrow> user_input \<Rightarrow> turn_control \<Rightarrow> (steer_status \<times> string) option" where
  "refuse_input expected i st =
     (if expected = [] then Some (InvalidInput, [])
      else if \<not> has_meaningful_user_input i then Some (InvalidInput, [])
      else if \<not> qc_accepting st \<or> qc_turn_id st = [] then Some (if qc_busy st then NonSteerable else NoActiveTurn, [])
      else if expected \<noteq> qc_turn_id st then Some (TurnMismatch, qc_turn_id st)
      else None)"

definition steer_input :: "string \<Rightarrow> user_input \<Rightarrow> turn_control \<Rightarrow> turn_control" where
  "steer_input expected i st =
     (case refuse_input expected i st of
        Some (status, turn) \<Rightarrow> log_event (SteerReply status turn) st
      | None \<Rightarrow>
          if length (qc_pending st) \<ge> max_pending_steers then log_event (SteerReply QueueFull (qc_turn_id st)) st
          else log_events [AcceptedInput i, SteerReply SteerAccepted (qc_turn_id st)] (st\<lparr>qc_pending := qc_pending st @ [i]\<rparr>))"

definition follow_up :: "string \<Rightarrow> user_input \<Rightarrow> user_input" where
  "follow_up turn i =
     i\<lparr>ui_metadata := with_entry (with_entry (as_object (ui_metadata i)) ''turn_interrupt'' (JBool True))
        ''interrupted_turn_id'' (JStr turn)\<rparr>"

definition follow_up_task :: "string \<Rightarrow> user_input \<Rightarrow> worker_task" where
  "follow_up_task turn i = ChatTask (follow_up turn i) False"

definition interrupt_turn :: "string \<Rightarrow> user_input \<Rightarrow> turn_control \<Rightarrow> turn_control" where
  "interrupt_turn expected i st =
     (case refuse_input expected i st of
        Some (status, turn) \<Rightarrow> log_event (SteerReply status turn) st
      | None \<Rightarrow>
          (let turn = qc_turn_id st; promised = qc_pending st @ [i]
           in if length (qc_priority st) + length promised > max_pending_steers then log_event (SteerReply QueueFull turn) st
              else log_events (AcceptedInput i # map (PromisedInput turn) promised @ [SteerReply SteerAccepted turn])
                (st\<lparr>qc_priority := qc_priority st @ map (follow_up_task turn) promised, qc_pending := [],
                    qc_accepting := False, qc_interrupt := True, qc_abort := True\<rparr>)))"

definition active_turn :: "turn_control \<Rightarrow> string" where
  "active_turn st = (if qc_accepting st then qc_turn_id st else [])"

definition request_shutdown :: "turn_control \<Rightarrow> turn_control" where
  "request_shutdown st = st\<lparr>qc_shutdown := True\<rparr>"

section \<open>The worker\<close>

definition take_task :: "turn_control \<Rightarrow> turn_control option" where
  "take_task st =
     (if qc_phase st \<noteq> Waiting then None
      else if qc_shutdown st then Some (st\<lparr>qc_phase := Stopped\<rparr>)
      else case qc_priority st of
        t # ts \<Rightarrow> Some (log_event (UrgentTaken t) (st\<lparr>qc_priority := ts, qc_active := Some t, qc_phase := Taken t\<rparr>))
      | [] \<Rightarrow>
          (case qc_tasks st of
             t # ts \<Rightarrow> Some (log_event (OrdinaryTaken t) (st\<lparr>qc_tasks := ts, qc_active := Some t, qc_phase := Taken t\<rparr>))
           | [] \<Rightarrow> None))"

text \<open>The first statements of \<open>run_agent_with_input\<close>, \<open>run_shell\<close> and \<open>run_compact\<close>.\<close>

definition enter_task :: "turn_control \<Rightarrow> turn_control option" where
  "enter_task st =
     (case qc_phase st of
        Taken (ChatTask i h) \<Rightarrow> Some (st\<lparr>qc_phase := Started (ChatTask i h), qc_abort := False, qc_interrupt := False, qc_busy := True\<rparr>)
      | Taken (ControlTask n) \<Rightarrow> Some (st\<lparr>qc_phase := Leaving\<rparr>)
      | Taken t \<Rightarrow> Some (st\<lparr>qc_phase := Started t, qc_abort := False, qc_busy := True\<rparr>)
      | _ \<Rightarrow> None)"

text \<open>A prompt refused by its hook, a shell command and a compaction end without opening a turn, an opened
  turn after its closing.\<close>

definition leave_task :: "turn_control \<Rightarrow> turn_control option" where
  "leave_task st =
     (case qc_phase st of
        Started t \<Rightarrow> Some (st\<lparr>qc_phase := Leaving, qc_busy := False\<rparr>)
      | Closed \<Rightarrow> Some (st\<lparr>qc_phase := Leaving, qc_busy := False\<rparr>)
      | _ \<Rightarrow> None)"

definition begin_active_turn :: "string \<Rightarrow> turn_control \<Rightarrow> turn_control option" where
  "begin_active_turn turn st =
     (case qc_phase st of
        Started (ChatTask i h) \<Rightarrow>
          Some (st\<lparr>qc_phase := Open, qc_pending := [], qc_turn_id := turn, qc_accepting := turn \<noteq> []\<rparr>)
      | _ \<Rightarrow> None)"

definition drain_inputs :: "bool \<Rightarrow> turn_control \<Rightarrow> turn_control option" where
  "drain_inputs close_if_empty st =
     (if qc_phase st \<noteq> Open then None
      else if \<not> qc_accepting st \<or> qc_turn_id st = [] then Some st
      else if qc_pending st = [] then Some (if close_if_empty then st\<lparr>qc_accepting := False, qc_turn_id := []\<rparr> else st)
      else Some (log_events (map (CommittedInput (qc_turn_id st)) (qc_pending st)) (st\<lparr>qc_pending := []\<rparr>)))"

text \<open>Behind the loop: was the turn interrupted for another one?  The id of the turn is the worker's own.\<close>

definition settle_turn :: "string \<Rightarrow> turn_control \<Rightarrow> turn_control option" where
  "settle_turn turn st =
     (if qc_phase st \<noteq> Open then None
      else if qc_abort st \<and> qc_interrupt st
      then Some (log_event (InterruptMarker turn) (st\<lparr>qc_phase := Settled, qc_interrupt := False\<rparr>))
      else Some (st\<lparr>qc_phase := Settled\<rparr>))"

definition close_active_turn :: "turn_control \<Rightarrow> turn_control option" where
  "close_active_turn st =
     (if qc_phase st \<noteq> Settled then None
      else Some (log_events (map DroppedInput (qc_pending st))
        (st\<lparr>qc_phase := Closed, qc_pending := [], qc_accepting := False, qc_turn_id := []\<rparr>)))"

definition end_task :: "turn_control \<Rightarrow> turn_control option" where
  "end_task st = (if qc_phase st = Leaving then Some (st\<lparr>qc_phase := Waiting, qc_active := None\<rparr>) else None)"

datatype control_move =
  CallAbort | CallClearStale | CallPush worker_task | CallControl | CallContinue user_input
| CallSteer string user_input | CallInterrupt string user_input | CallShutdown
| DoTake | DoEnter | DoLeave | DoBegin string | DoDrain bool | DoSettle string | DoClose | DoEnd

text \<open>Callers push turn tasks only; control tasks come from \<open>enqueue_control\<close>.\<close>

definition control_move :: "control_move \<Rightarrow> turn_control \<Rightarrow> turn_control option" where
  "control_move mv st =
     (case mv of
        CallAbort \<Rightarrow> Some (abort_turn st)
      | CallClearStale \<Rightarrow> Some (clear_stale_abort_request st)
      | CallPush t \<Rightarrow> if is_turn_task t then Some (push_task t st) else None
      | CallControl \<Rightarrow> Some (enqueue_control st)
      | CallContinue i \<Rightarrow> Some (push_goal_continuation i st)
      | CallSteer expected i \<Rightarrow> Some (steer_input expected i st)
      | CallInterrupt expected i \<Rightarrow> Some (interrupt_turn expected i st)
      | CallShutdown \<Rightarrow> Some (request_shutdown st)
      | DoTake \<Rightarrow> take_task st
      | DoEnter \<Rightarrow> enter_task st
      | DoLeave \<Rightarrow> leave_task st
      | DoBegin turn \<Rightarrow> begin_active_turn turn st
      | DoDrain b \<Rightarrow> drain_inputs b st
      | DoSettle turn \<Rightarrow> settle_turn turn st
      | DoClose \<Rightarrow> close_active_turn st
      | DoEnd \<Rightarrow> end_task st)"

fun run_moves :: "control_move list \<Rightarrow> turn_control \<Rightarrow> turn_control option" where
  "run_moves [] st = Some st"
| "run_moves (mv # mvs) st = (case control_move mv st of None \<Rightarrow> None | Some st' \<Rightarrow> run_moves mvs st')"

inductive control_reachable :: "turn_control \<Rightarrow> bool" where
  start: "control_reachable control_start"
| move: "control_reachable st \<Longrightarrow> control_move mv st = Some st' \<Longrightarrow> control_reachable st'"

section \<open>What the trace tells\<close>

definition accepted_inputs :: "control_event list \<Rightarrow> user_input list" where
  "accepted_inputs = List.map_filter (\<lambda>e. case e of AcceptedInput i \<Rightarrow> Some i | _ \<Rightarrow> None)"

definition handled_inputs :: "control_event list \<Rightarrow> user_input list" where
  "handled_inputs = List.map_filter
     (\<lambda>e. case e of CommittedInput _ i \<Rightarrow> Some i | PromisedInput _ i \<Rightarrow> Some i | DroppedInput i \<Rightarrow> Some i | _ \<Rightarrow> None)"

definition promised_tasks :: "control_event list \<Rightarrow> worker_task list" where
  "promised_tasks = List.map_filter (\<lambda>e. case e of PromisedInput turn i \<Rightarrow> Some (follow_up_task turn i) | _ \<Rightarrow> None)"

definition urgent_tasks :: "control_event list \<Rightarrow> worker_task list" where
  "urgent_tasks = List.map_filter (\<lambda>e. case e of UrgentTaken t \<Rightarrow> Some t | _ \<Rightarrow> None)"

definition queued_tasks :: "control_event list \<Rightarrow> worker_task list" where
  "queued_tasks = List.map_filter (\<lambda>e. case e of TaskQueued t \<Rightarrow> Some t | _ \<Rightarrow> None)"

definition ordinary_tasks :: "control_event list \<Rightarrow> worker_task list" where
  "ordinary_tasks = List.map_filter (\<lambda>e. case e of OrdinaryTaken t \<Rightarrow> Some t | _ \<Rightarrow> None)"

definition control_numbers :: "worker_task list \<Rightarrow> nat list" where
  "control_numbers = List.map_filter (\<lambda>t. case t of ControlTask n \<Rightarrow> Some n | _ \<Rightarrow> None)"

text \<open>The control calls that were told that no turn is ahead of them, and were not run yet; no turn may be
  taken while there are any.\<close>

fun after_event :: "nat set \<Rightarrow> control_event \<Rightarrow> nat set" where
  "after_event w (ControlAccepted n behind) = (if behind then w else insert n w)"
| "after_event w (OrdinaryTaken (ControlTask n)) = w - {n}"
| "after_event w _ = w"

fun turn_taken :: "control_event \<Rightarrow> bool" where
  "turn_taken (UrgentTaken t) = is_turn_task t"
| "turn_taken (OrdinaryTaken t) = is_turn_task t"
| "turn_taken _ = False"

fun unhurried :: "nat set \<Rightarrow> control_event list \<Rightarrow> nat set" where
  "unhurried w [] = w"
| "unhurried w (e # es) = unhurried (after_event w e) es"

fun controls_first :: "nat set \<Rightarrow> control_event list \<Rightarrow> bool" where
  "controls_first w [] = True"
| "controls_first w (e # es) \<longleftrightarrow> (turn_taken e \<longrightarrow> w = {}) \<and> controls_first (after_event w e) es"

lemmas trace_defs =
  accepted_inputs_def handled_inputs_def promised_tasks_def urgent_tasks_def queued_tasks_def ordinary_tasks_def

lemma control_trace_append [simp]:
  "accepted_inputs (xs @ ys) = accepted_inputs xs @ accepted_inputs ys"
  "handled_inputs (xs @ ys) = handled_inputs xs @ handled_inputs ys"
  "promised_tasks (xs @ ys) = promised_tasks xs @ promised_tasks ys"
  "urgent_tasks (xs @ ys) = urgent_tasks xs @ urgent_tasks ys"
  "queued_tasks (xs @ ys) = queued_tasks xs @ queued_tasks ys"
  "ordinary_tasks (xs @ ys) = ordinary_tasks xs @ ordinary_tasks ys"
  "control_numbers (ts @ us) = control_numbers ts @ control_numbers us"
  by (simp_all add: trace_defs control_numbers_def List.map_filter_def)

lemma unhurried_append [simp]: "unhurried w (xs @ ys) = unhurried (unhurried w xs) ys"
  by (induction xs arbitrary: w) simp_all

lemma controls_first_append [simp]:
  "controls_first w (xs @ ys) \<longleftrightarrow> controls_first w xs \<and> controls_first (unhurried w xs) ys"
  by (induction xs arbitrary: w) auto

lemma control_trace_simps [simp]:
  "accepted_inputs [] = []" "handled_inputs [] = []" "promised_tasks [] = []" "urgent_tasks [] = []" "queued_tasks [] = []"
  "ordinary_tasks [] = []" "control_numbers [] = []"
  "accepted_inputs (e # es) = (case e of AcceptedInput i \<Rightarrow> [i] | _ \<Rightarrow> []) @ accepted_inputs es"
  "handled_inputs (e # es) =
     (case e of CommittedInput _ i \<Rightarrow> [i] | PromisedInput _ i \<Rightarrow> [i] | DroppedInput i \<Rightarrow> [i] | _ \<Rightarrow> []) @ handled_inputs es"
  "promised_tasks (e # es) = (case e of PromisedInput turn i \<Rightarrow> [follow_up_task turn i] | _ \<Rightarrow> []) @ promised_tasks es"
  "urgent_tasks (e # es) = (case e of UrgentTaken t \<Rightarrow> [t] | _ \<Rightarrow> []) @ urgent_tasks es"
  "queued_tasks (e # es) = (case e of TaskQueued t \<Rightarrow> [t] | _ \<Rightarrow> []) @ queued_tasks es"
  "ordinary_tasks (e # es) = (case e of OrdinaryTaken t \<Rightarrow> [t] | _ \<Rightarrow> []) @ ordinary_tasks es"
  "control_numbers (t # ts) = (case t of ControlTask n \<Rightarrow> [n] | _ \<Rightarrow> []) @ control_numbers ts"
  by (simp_all add: trace_defs control_numbers_def List.map_filter_def split: control_event.split worker_task.split)

text \<open>Runs of one kind of event.\<close>

lemma many_committed [simp]:
  "accepted_inputs (map (CommittedInput turn) is) = []" "handled_inputs (map (CommittedInput turn) is) = is" "promised_tasks (map (CommittedInput turn) is) = []"
  "urgent_tasks (map (CommittedInput turn) is) = []" "queued_tasks (map (CommittedInput turn) is) = []" "ordinary_tasks (map (CommittedInput turn) is) = []"
  "unhurried w (map (CommittedInput turn) is) = w" "controls_first w (map (CommittedInput turn) is)"
  by (induction "is") simp_all

lemma many_promised [simp]:
  "accepted_inputs (map (PromisedInput turn) is) = []" "handled_inputs (map (PromisedInput turn) is) = is" "promised_tasks (map (PromisedInput turn) is) = map (follow_up_task turn) is"
  "urgent_tasks (map (PromisedInput turn) is) = []" "queued_tasks (map (PromisedInput turn) is) = []" "ordinary_tasks (map (PromisedInput turn) is) = []"
  "unhurried w (map (PromisedInput turn) is) = w" "controls_first w (map (PromisedInput turn) is)"
  by (induction "is") simp_all

lemma many_dropped [simp]:
  "accepted_inputs (map DroppedInput is) = []" "handled_inputs (map DroppedInput is) = is" "promised_tasks (map DroppedInput is) = []"
  "urgent_tasks (map DroppedInput is) = []" "queued_tasks (map DroppedInput is) = []" "ordinary_tasks (map DroppedInput is) = []"
  "unhurried w (map DroppedInput is) = w" "controls_first w (map DroppedInput is)"
  by (induction "is") simp_all

lemma log_simps [simp]:
  "qc_trace (log_event e st) = qc_trace st @ [e]" "qc_trace (log_events es st) = qc_trace st @ es"
  "qc_tasks (log_event e st) = qc_tasks st" "qc_tasks (log_events es st) = qc_tasks st"
  "qc_priority (log_event e st) = qc_priority st" "qc_priority (log_events es st) = qc_priority st"
  "qc_active (log_event e st) = qc_active st" "qc_active (log_events es st) = qc_active st"
  "qc_phase (log_event e st) = qc_phase st" "qc_phase (log_events es st) = qc_phase st"
  "qc_pending (log_event e st) = qc_pending st" "qc_pending (log_events es st) = qc_pending st"
  "qc_accepting (log_event e st) = qc_accepting st" "qc_accepting (log_events es st) = qc_accepting st"
  "qc_turn_id (log_event e st) = qc_turn_id st" "qc_turn_id (log_events es st) = qc_turn_id st"
  "qc_sequence (log_event e st) = qc_sequence st" "qc_sequence (log_events es st) = qc_sequence st"
  "qc_shutdown (log_event e st) = qc_shutdown st" "qc_shutdown (log_events es st) = qc_shutdown st"
  "qc_abort (log_event e st) = qc_abort st" "qc_abort (log_events es st) = qc_abort st"
  by (simp_all add: log_event_def log_events_def)

section \<open>Input\<close>

definition input_inv :: "turn_control \<Rightarrow> bool" where
  "input_inv st \<longleftrightarrow>
     accepted_inputs (qc_trace st) = handled_inputs (qc_trace st) @ qc_pending st \<and>
     promised_tasks (qc_trace st) = urgent_tasks (qc_trace st) @ qc_priority st \<and>
     length (qc_pending st) \<le> max_pending_steers \<and> length (qc_priority st) \<le> max_pending_steers \<and>
     (\<not> qc_accepting st \<longrightarrow> qc_pending st = []) \<and>
     (qc_accepting st \<longrightarrow> qc_phase st = Open \<or> qc_phase st = Settled)"

lemma input_start: "input_inv control_start"
  by (simp add: input_inv_def control_start_def)

lemma refuse_accepting: "refuse_input expected i st = None \<Longrightarrow> qc_accepting st"
  by (auto simp: refuse_input_def split: if_splits)

lemma input_calls:
  assumes "input_inv st"
  shows "input_inv (abort_turn st)" "input_inv (clear_stale_abort_request st)" "input_inv (push_task t st)"
    "input_inv (enqueue_control st)" "input_inv (push_goal_continuation i st)" "input_inv (request_shutdown st)"
    "input_inv (steer_input expected i st)" "input_inv (interrupt_turn expected i st)"
proof -
  show p: "input_inv (push_task t st)" for t using assms by (simp add: input_inv_def push_task_def)
  show "input_inv (push_goal_continuation i st)" using assms p by (simp add: push_goal_continuation_def)
  show "input_inv (abort_turn st)" "input_inv (clear_stale_abort_request st)" "input_inv (request_shutdown st)"
    "input_inv (enqueue_control st)"
    using assms by (simp_all add: input_inv_def abort_turn_def clear_stale_abort_request_def request_shutdown_def
        enqueue_control_def Let_def)
  show "input_inv (steer_input expected i st)"
    using assms refuse_accepting [of expected i st]
    by (auto simp: input_inv_def steer_input_def split: option.split)
  show "input_inv (interrupt_turn expected i st)"
    using assms by (auto simp: input_inv_def interrupt_turn_def Let_def split: option.split)
qed

lemma input_take: "input_inv st \<Longrightarrow> take_task st = Some st' \<Longrightarrow> input_inv st'"
  by (auto simp: input_inv_def take_task_def split: if_splits list.splits)

lemma input_enter: "input_inv st \<Longrightarrow> enter_task st = Some st' \<Longrightarrow> input_inv st'"
  by (auto simp: input_inv_def enter_task_def split: worker_phase.splits worker_task.splits)

lemma input_leave: "input_inv st \<Longrightarrow> leave_task st = Some st' \<Longrightarrow> input_inv st'"
  by (auto simp: input_inv_def leave_task_def split: worker_phase.splits)

lemma input_begin: "input_inv st \<Longrightarrow> begin_active_turn turn st = Some st' \<Longrightarrow> input_inv st'"
  by (auto simp: input_inv_def begin_active_turn_def split: worker_phase.splits worker_task.splits)

lemma input_drain: "input_inv st \<Longrightarrow> drain_inputs b st = Some st' \<Longrightarrow> input_inv st'"
  by (auto simp: input_inv_def drain_inputs_def split: if_splits)

lemma input_settle: "input_inv st \<Longrightarrow> settle_turn turn st = Some st' \<Longrightarrow> input_inv st'"
  by (auto simp: input_inv_def settle_turn_def split: if_splits)

lemma input_close: "input_inv st \<Longrightarrow> close_active_turn st = Some st' \<Longrightarrow> input_inv st'"
  by (auto simp: input_inv_def close_active_turn_def split: if_splits)

lemma input_end: "input_inv st \<Longrightarrow> end_task st = Some st' \<Longrightarrow> input_inv st'"
  by (auto simp: input_inv_def end_task_def split: if_splits)

lemmas input_worker =
  input_take input_enter input_leave input_begin input_drain input_settle input_close input_end

lemma input_reachable: "control_reachable st \<Longrightarrow> input_inv st"
proof (induction rule: control_reachable.induct)
  case (move st mv st')
  then show ?case
    by (cases mv) (auto simp: control_move_def input_calls split: if_splits dest: input_worker)
qed (rule input_start)

section \<open>Control calls\<close>

definition turn_active :: "turn_control \<Rightarrow> bool" where
  "turn_active st \<longleftrightarrow> (case qc_active st of Some t \<Rightarrow> is_turn_task t | None \<Rightarrow> False)"

definition phase_ok :: "turn_control \<Rightarrow> bool" where
  "phase_ok st \<longleftrightarrow>
     (case qc_phase st of
        Taken t \<Rightarrow> qc_active st = Some t
      | Started t \<Rightarrow> qc_active st = Some t
      | Waiting \<Rightarrow> qc_active st = None
      | Open \<Rightarrow> turn_active st
      | Settled \<Rightarrow> turn_active st
      | _ \<Rightarrow> True)"

definition unhurried_ok :: "turn_control \<Rightarrow> nat set \<Rightarrow> bool" where
  "unhurried_ok st w \<longleftrightarrow> (w \<noteq> {} \<longrightarrow> qc_priority st = [] \<and> \<not> turn_active st) \<and>
     (\<forall>n\<in>w. ControlTask n \<in> set (takeWhile (\<lambda>t. \<not> is_turn_task t) (qc_tasks st)))"

definition numbers_upto :: "nat \<Rightarrow> nat list" where
  "numbers_upto n = [1..<Suc n]"

lemma numbers_upto_simps [simp]: "numbers_upto 0 = []" "numbers_upto (Suc n) = numbers_upto n @ [Suc n]"
  by (simp_all add: numbers_upto_def)

definition control_inv :: "turn_control \<Rightarrow> bool" where
  "control_inv st \<longleftrightarrow>
     queued_tasks (qc_trace st) = ordinary_tasks (qc_trace st) @ qc_tasks st \<and>
     control_numbers (ordinary_tasks (qc_trace st)) @ control_numbers (qc_tasks st) = numbers_upto (qc_sequence st) \<and>
     list_all is_turn_task (qc_priority st) \<and> phase_ok st \<and>
     controls_first {} (qc_trace st) \<and> unhurried_ok st (unhurried {} (qc_trace st))"

lemma turn_numbers [simp]: "is_turn_task t \<Longrightarrow> (case t of ControlTask n \<Rightarrow> [n] | _ \<Rightarrow> []) = []"
  by (cases t) simp_all

lemma unhurried_push:
  "unhurried_ok st w \<Longrightarrow> unhurried_ok (log_events es (st\<lparr>qc_tasks := qc_tasks st @ ts\<rparr>)) w"
  by (auto simp: unhurried_ok_def turn_active_def takeWhile_append split: if_splits dest: set_takeWhileD)

lemma phase_log [simp]:
  "phase_ok (log_events es st) = phase_ok st" "phase_ok (log_event e st) = phase_ok st"
  "turn_active (log_events es st) = turn_active st" "turn_active (log_event e st) = turn_active st"
  "unhurried_ok (log_events es st) w = unhurried_ok st w" "unhurried_ok (log_event e st) w = unhurried_ok st w"
  by (simp_all add: phase_ok_def turn_active_def unhurried_ok_def split: worker_phase.split)

lemma phase_cong:
  assumes "qc_phase st' = qc_phase st" "qc_active st' = qc_active st"
  shows "phase_ok st' = phase_ok st" "turn_active st' = turn_active st"
  using assms by (simp_all add: phase_ok_def turn_active_def split: worker_phase.split)

lemma control_start_inv: "control_inv control_start"
  by (simp add: control_inv_def control_start_def phase_ok_def unhurried_ok_def)

text \<open>A move that leaves the queues, the worker and the trace alone, up to events about input.\<close>

lemma control_cong:
  assumes "control_inv st" "qc_tasks st' = qc_tasks st" "qc_priority st' = qc_priority st" "qc_active st' = qc_active st"
    "qc_phase st' = qc_phase st" "qc_sequence st' = qc_sequence st" "qc_trace st' = qc_trace st @ es"
    "queued_tasks es = []" "ordinary_tasks es = []" "controls_first (unhurried {} (qc_trace st)) es"
    "unhurried (unhurried {} (qc_trace st)) es = unhurried {} (qc_trace st)"
  shows "control_inv st'"
  using assms(1) phase_cong [OF assms(5,4)] assms(2-4,6-11)
  by (simp add: control_inv_def unhurried_ok_def)

lemma control_push: "control_inv st \<Longrightarrow> is_turn_task t \<Longrightarrow> control_inv (push_task t st)"
  using unhurried_push [of st "unhurried {} (qc_trace st)" "[TaskQueued t]" "[t]"]
    phase_cong [of "st\<lparr>qc_tasks := qc_tasks st @ [t]\<rparr>" st]
  by (simp add: control_inv_def push_task_def turn_numbers)

lemma control_enqueue:
  assumes "control_inv st"
  shows "control_inv (enqueue_control st)"
proof (cases "qc_shutdown st")
  case False
  let ?n = "qc_sequence st + 1"
  define behind where "behind \<longleftrightarrow> turn_active st \<or> list_ex is_turn_task (qc_priority st) \<or> list_ex is_turn_task (qc_tasks st)"
  let ?w = "unhurried {} (qc_trace st)"
  let ?st = "st\<lparr>qc_tasks := qc_tasks st @ [ControlTask ?n], qc_sequence := ?n\<rparr>"
  have e: "enqueue_control st = log_events [ControlAccepted ?n behind, TaskQueued (ControlTask ?n)] ?st"
    using False by (simp add: enqueue_control_def Let_def turn_active_def behind_def)
  have u: "unhurried_ok ?st ?w"
    using unhurried_push [of st ?w "[]" "[ControlTask ?n]"] assms
    by (simp add: control_inv_def unhurried_ok_def turn_active_def)
  have "unhurried_ok ?st (if behind then ?w else insert ?n ?w)"
  proof (cases behind)
    case False
    then have nb: "\<not> turn_active st" "\<not> list_ex is_turn_task (qc_priority st)" "\<not> list_ex is_turn_task (qc_tasks st)"
      by (simp_all add: behind_def)
    then have "takeWhile (\<lambda>t. \<not> is_turn_task t) (qc_tasks st @ [ControlTask ?n]) = qc_tasks st @ [ControlTask ?n]"
      by (simp add: list_ex_iff)
    moreover have "qc_priority st = []"
      using nb assms by (cases "qc_priority st") (auto simp: control_inv_def)
    moreover have "\<not> turn_active ?st" using nb by (simp add: turn_active_def)
    ultimately show ?thesis using u False by (auto simp: unhurried_ok_def)
  qed (use u in simp)
  moreover have "phase_ok ?st" using assms phase_cong(1) [of ?st st] by (simp add: control_inv_def)
  moreover have "control_numbers (ordinary_tasks (qc_trace st)) @ control_numbers (qc_tasks ?st) = numbers_upto ?n"
    using assms by (simp add: control_inv_def)
  ultimately show ?thesis using assms unfolding e by (cases behind) (simp_all add: control_inv_def)
qed (use assms in \<open>simp add: enqueue_control_def\<close>)

lemma control_interrupt:
  assumes "control_inv st" "input_inv st"
  shows "control_inv (interrupt_turn expected i st)"
proof (cases "refuse_input expected i st")
  case (Some r)
  then show ?thesis
    by (cases r) (auto simp: interrupt_turn_def intro!: control_cong [OF assms(1)])
next
  case None
  from refuse_accepting [OF None] assms have "turn_active st"
    by (auto simp: input_inv_def control_inv_def phase_ok_def)
  with assms(1) have w: "unhurried {} (qc_trace st) = {}" by (auto simp: control_inv_def unhurried_ok_def)
  show ?thesis
  proof (cases "length (qc_priority st) + length (qc_pending st @ [i]) > max_pending_steers")
    case True
    then show ?thesis by (auto simp: interrupt_turn_def None Let_def intro!: control_cong [OF assms(1)])
  next
    case False
    have l: "list_all is_turn_task (map (follow_up_task turn) is)" for turn "is"
      by (induction "is") (simp_all add: follow_up_task_def)
    let ?st = "st\<lparr>qc_priority := qc_priority st @ map (follow_up_task (qc_turn_id st)) (qc_pending st @ [i]), qc_pending := [],
        qc_accepting := False, qc_interrupt := True, qc_abort := True\<rparr>"
    have "phase_ok ?st" using assms(1) phase_cong(1) [of ?st st] by (simp add: control_inv_def)
    moreover have "list_all is_turn_task (qc_priority ?st)"
      using assms(1) l [of "qc_turn_id st" "qc_pending st @ [i]"] by (simp add: control_inv_def)
    moreover have "unhurried_ok ?st {}" by (simp add: unhurried_ok_def)
    ultimately show ?thesis
      using False None assms(1) by (simp add: interrupt_turn_def Let_def control_inv_def w)
  qed
qed

lemma control_steer: "control_inv st \<Longrightarrow> control_inv (steer_input expected i st)"
  by (auto simp: steer_input_def split: option.split prod.split intro: control_cong)

lemma control_take:
  assumes "control_inv st" "take_task st = Some st'"
  shows "control_inv st'"
proof -
  have idle: "qc_active st = None" "qc_phase st = Waiting"
    using assms by (auto simp: take_task_def control_inv_def phase_ok_def split: if_splits)
  let ?w = "unhurried {} (qc_trace st)"
  show ?thesis
  proof (cases "qc_shutdown st")
    case True
    with assms idle show ?thesis
      by (auto simp: take_task_def control_inv_def phase_ok_def unhurried_ok_def turn_active_def)
  next
    case False
    show ?thesis
    proof (cases "qc_priority st")
      case (Cons t ts)
      with False idle assms(2) have st': "st' = log_event (UrgentTaken t)
          (st\<lparr>qc_priority := ts, qc_active := Some t, qc_phase := Taken t\<rparr>)" by (simp add: take_task_def)
      have "?w = {}" using assms(1) Cons by (auto simp: control_inv_def unhurried_ok_def)
      with assms(1) Cons show ?thesis by (simp add: st' control_inv_def phase_ok_def unhurried_ok_def)
    next
      case Nil
      with False idle assms(2) obtain t ts where q: "qc_tasks st = t # ts" and st': "st' = log_event (OrdinaryTaken t)
          (st\<lparr>qc_tasks := ts, qc_active := Some t, qc_phase := Taken t\<rparr>)" by (auto simp: take_task_def split: list.splits)
      have u: "unhurried_ok st ?w" using assms(1) by (simp add: control_inv_def)
      show ?thesis
      proof (cases "is_turn_task t")
        case True
        with u q have "?w = {}" by (auto simp: unhurried_ok_def)
        moreover have "after_event {} (OrdinaryTaken t) = {}" by (cases t) simp_all
        ultimately show ?thesis using assms(1) q Nil by (simp add: st' control_inv_def phase_ok_def unhurried_ok_def)
      next
        case False
        then obtain n where t: "t = ControlTask n" by (cases t) simp_all
        have "unhurried_ok (st\<lparr>qc_tasks := ts, qc_active := Some t, qc_phase := Taken t\<rparr>) (?w - {n})"
          using u q Nil by (auto simp: unhurried_ok_def t turn_active_def)
        with assms(1) q Nil show ?thesis by (simp add: st' control_inv_def phase_ok_def t)
      qed
    qed
  qed
qed

text \<open>The other moves of the worker do not touch the queues; its mark changes at the end only.\<close>

lemma unhurried_fields [simp]:
  "unhurried_ok (st\<lparr>qc_phase := ph\<rparr>) w = unhurried_ok st w" "unhurried_ok (st\<lparr>qc_abort := f\<rparr>) w = unhurried_ok st w"
  "unhurried_ok (st\<lparr>qc_interrupt := f\<rparr>) w = unhurried_ok st w" "unhurried_ok (st\<lparr>qc_busy := f\<rparr>) w = unhurried_ok st w"
  "unhurried_ok (st\<lparr>qc_pending := is\<rparr>) w = unhurried_ok st w" "unhurried_ok (st\<lparr>qc_turn_id := turn\<rparr>) w = unhurried_ok st w"
  "unhurried_ok (st\<lparr>qc_accepting := f\<rparr>) w = unhurried_ok st w"
  by (simp_all add: unhurried_ok_def turn_active_def)

lemma control_enter: "control_inv st \<Longrightarrow> enter_task st = Some st' \<Longrightarrow> control_inv st'"
  by (auto simp: enter_task_def control_inv_def phase_ok_def split: worker_phase.splits worker_task.splits)

lemma control_leave: "control_inv st \<Longrightarrow> leave_task st = Some st' \<Longrightarrow> control_inv st'"
  by (auto simp: leave_task_def control_inv_def phase_ok_def split: worker_phase.splits)

lemma control_begin: "control_inv st \<Longrightarrow> begin_active_turn turn st = Some st' \<Longrightarrow> control_inv st'"
  by (auto simp: begin_active_turn_def control_inv_def phase_ok_def turn_active_def split: worker_phase.splits worker_task.splits)

lemma control_drain: "control_inv st \<Longrightarrow> drain_inputs b st = Some st' \<Longrightarrow> control_inv st'"
  by (auto simp: drain_inputs_def split: if_splits intro: control_cong [where st = st])

lemma control_end: "control_inv st \<Longrightarrow> end_task st = Some st' \<Longrightarrow> control_inv st'"
  by (auto simp: end_task_def control_inv_def phase_ok_def unhurried_ok_def turn_active_def split: if_splits)

lemma control_settle:
  assumes "control_inv st" "settle_turn turn st = Some st'"
  shows "control_inv st'"
proof -
  from assms(2) have "qc_phase st = Open" and st': "st' = st\<lparr>qc_phase := Settled\<rparr> \<or>
      st' = log_event (InterruptMarker turn) (st\<lparr>qc_phase := Settled, qc_interrupt := False\<rparr>)"
    by (auto simp: settle_turn_def split: if_splits)
  with assms(1) have "turn_active st" by (simp add: control_inv_def phase_ok_def)
  with assms(1) st' show ?thesis by (auto simp: control_inv_def phase_ok_def unhurried_ok_def turn_active_def)
qed

lemma control_close:
  assumes "control_inv st" "close_active_turn st = Some st'"
  shows "control_inv st'"
proof -
  from assms(2) have st': "st' = log_events (map DroppedInput (qc_pending st))
        (st\<lparr>qc_phase := Closed, qc_pending := [], qc_accepting := False, qc_turn_id := []\<rparr>)"
    by (simp add: close_active_turn_def split: if_splits)
  with assms(1) show ?thesis by (simp add: control_inv_def phase_ok_def unhurried_ok_def turn_active_def)
qed

lemmas control_worker =
  control_take control_enter control_leave control_begin control_drain control_settle control_close control_end

lemma control_reachable_inv: "control_reachable st \<Longrightarrow> control_inv st"
proof (induction rule: control_reachable.induct)
  case (move st mv st')
  note i = input_reachable [OF move.hyps(1)]
  have flags: "control_inv (abort_turn st)" "control_inv (clear_stale_abort_request st)" "control_inv (request_shutdown st)"
    by (rule control_cong [OF move.IH, where es = "[]"];
        simp add: abort_turn_def clear_stale_abort_request_def request_shutdown_def)+
  have goal: "control_inv (push_goal_continuation j st)" for j
    using control_push [OF move.IH, of "ChatTask j True"] move.IH by (simp add: push_goal_continuation_def)
  from move.hyps(2) show ?case
    by (cases mv)
      (auto simp: control_move_def flags goal control_enqueue control_steer control_interrupt control_push move.IH i
        split: if_splits dest: control_worker [OF move.IH])
qed (rule control_start_inv)

section \<open>Properties\<close>

text \<open>C10: However the callers and the worker interleave, an accepted steering or interrupting input is neither
  lost nor doubled nor overtaken: the accepted inputs are, in their order, those put into the history,
  promised as follow-up turns or reported as thrown away, and then those that wait; the follow-up turns of
  interrupts are started in the order they were promised; once a turn accepts no input nothing waits in it;
  and neither queue grows beyond 128.\<close>

theorem accepted_input_is_accounted_for:
  assumes "control_reachable st"
  shows "accepted_inputs (qc_trace st) = handled_inputs (qc_trace st) @ qc_pending st \<and>
    promised_tasks (qc_trace st) = urgent_tasks (qc_trace st) @ qc_priority st \<and>
    (\<not> qc_accepting st \<longrightarrow> qc_pending st = []) \<and>
    length (qc_pending st) \<le> 128 \<and> length (qc_priority st) \<le> 128"
  using input_reachable [OF assms] by (simp add: input_inv_def)

text \<open>C11: The receipt of a control call is kept.  Ordinary tasks are taken in the order they were queued, the
  control calls run in the order of their numbers, each once, and a call that was told that no turn is ahead
  of it runs before any turn is taken, whatever is submitted, steered or interrupted in the meantime.\<close>

theorem control_receipts_are_kept:
  assumes "control_reachable st"
  shows "queued_tasks (qc_trace st) = ordinary_tasks (qc_trace st) @ qc_tasks st \<and>
    control_numbers (ordinary_tasks (qc_trace st)) @ control_numbers (qc_tasks st) = [1..<Suc (qc_sequence st)] \<and>
    controls_first {} (qc_trace st)"
  using control_reachable_inv [OF assms] by (simp add: control_inv_def numbers_upto_def)

lemma run_moves_reachable: "control_reachable st \<Longrightarrow> run_moves mvs st = Some st' \<Longrightarrow> control_reachable st'"
  by (induction mvs st rule: run_moves.induct) (auto split: option.splits intro: control_reachable.move)

section \<open>Concrete runs\<close>

definition text_input :: "string \<Rightarrow> user_input" where
  "text_input s = \<lparr>ui_text = s, ui_display = [], ui_parts = JNull, ui_metadata = JNull\<rparr>"

text \<open>A turn is steered, interrupted, and its follow-ups wait.\<close>

definition interrupted_run :: "turn_control option" where
  "interrupted_run = run_moves
     [CallControl, CallPush (ChatTask (text_input ''a'') False), DoTake, DoEnter, DoEnd, DoTake, DoEnter, DoBegin ''t'',
      CallSteer ''t'' (text_input ''b''), CallInterrupt ''t'' (text_input ''c''), CallSteer ''t'' (text_input ''d'')] control_start"

lemma interrupted_values:
  "map_option (\<lambda>st. (map ui_text (accepted_inputs (qc_trace st)), length (qc_priority st), qc_sequence st, qc_pending st = [])) interrupted_run =
   Some ([''b'', ''c''], 2, 1, True)"
  by code_simp

theorem accepted_input_is_accounted_for_witness:
  "\<exists>st. interrupted_run = Some st \<and> accepted_inputs (qc_trace st) = handled_inputs (qc_trace st) \<and>
     map ui_text (accepted_inputs (qc_trace st)) = [''b'', ''c''] \<and> promised_tasks (qc_trace st) = urgent_tasks (qc_trace st) @ qc_priority st"
proof -
  obtain st where st: "interrupted_run = Some st" "map ui_text (accepted_inputs (qc_trace st)) = [''b'', ''c'']" "qc_pending st = []"
    using interrupted_values by (auto simp del: map_eq_Cons_conv)
  have "control_reachable st"
    using st(1) unfolding interrupted_run_def by (rule run_moves_reachable [OF control_reachable.start])
  from accepted_input_is_accounted_for [OF this] st show ?thesis by (intro exI [of _ st]) simp
qed

theorem control_receipts_are_kept_witness:
  "\<exists>st. interrupted_run = Some st \<and> controls_first {} (qc_trace st) \<and>
     control_numbers (ordinary_tasks (qc_trace st)) @ control_numbers (qc_tasks st) = [1]"
proof -
  obtain st where st: "interrupted_run = Some st" "qc_sequence st = 1" using interrupted_values by auto
  have "control_reachable st"
    using st(1) unfolding interrupted_run_def by (rule run_moves_reachable [OF control_reachable.start])
  from control_receipts_are_kept [OF this] st show ?thesis by (intro exI [of _ st]) simp
qed

text \<open>A shutdown between the taking of a task and its first statement loses its abort: the turn runs on with
  the flag cleared, and the caller waits for it.\<close>

lemma shutdown_abort_lost:
  "map_option (\<lambda>st. (qc_shutdown st, qc_abort st, qc_phase st = Open))
     (run_moves [CallPush (ChatTask (text_input ''a'') False), DoTake, CallShutdown, CallAbort, DoEnter, DoBegin ''t''] control_start) =
   Some (True, False, True)"
  by code_simp

text \<open>An input that was accepted after the last look at the queue is thrown away when the turn ends by an error.\<close>

lemma accepted_steer_dropped:
  "map_option (\<lambda>st. qc_trace st)
     (run_moves [CallPush (ChatTask (text_input ''a'') False), DoTake, DoEnter, DoBegin ''t'', CallSteer ''t'' (text_input ''b''),
        DoSettle ''t'', DoClose] control_start) =
   Some [TaskQueued (ChatTask (text_input ''a'') False), OrdinaryTaken (ChatTask (text_input ''a'') False),
     AcceptedInput (text_input ''b''), SteerReply SteerAccepted ''t'', DroppedInput (text_input ''b'')]"
  by code_simp

end
