(* ===== verification/Encoding.thy ===== *)
theory Encoding
  imports TextBuffer
begin

text \<open>
  \<open>utils/encoding.hpp\<close> and \<open>utils/encoding.cpp\<close> (the build without the Windows code pages): the test for UTF-8,
  cutting a text at a character, the conversion of arbitrary bytes to UTF-8 and the decoder for the output of
  a subprocess, which arrives in pieces.  The test looks at the pattern of the bytes only; the strict
  one of \<open>TextBuffer\<close> also refuses overlong forms and surrogates.
\<close>

unbundle bit_operations_syntax

section \<open>Sequences\<close>

text \<open>The length a sequence with this first byte has, 0 for a byte that starts none.\<close>

definition utf8_seq_len :: "char \<Rightarrow> nat" where
  "utf8_seq_len c =
     (if byte c \<le> (0x7F :: nat) then 1
      else if byte c AND 0xE0 = (0xC0 :: nat) then 2
      else if byte c AND 0xF0 = (0xE0 :: nat) then 3
      else if byte c AND 0xF8 = (0xF0 :: nat) then 4
      else 0)"

definition is_continuation :: "char \<Rightarrow> bool" where
  "is_continuation c \<longleftrightarrow> byte c AND 0xC0 = (0x80 :: nat)"

fun is_valid_utf8 :: "string \<Rightarrow> bool" where
  "is_valid_utf8 [] = True"
| "is_valid_utf8 (c # cs) =
     (let n = utf8_seq_len c
      in n \<noteq> 0 \<and> n \<le> length (c # cs) \<and> list_all is_continuation (take (n - 1) cs) \<and> is_valid_utf8 (drop (n - 1) cs))"

section \<open>Cutting\<close>

text \<open>The loop of both directions: back from a position to a byte that is no continuation, and forward.\<close>

fun cut_back :: "string \<Rightarrow> nat \<Rightarrow> nat" where
  "cut_back s 0 = 0"
| "cut_back s (Suc i) = (if is_continuation (s ! Suc i) then cut_back s i else Suc i)"

definition truncate_utf8_prefix :: "string \<Rightarrow> nat \<Rightarrow> string \<Rightarrow> string" where
  "truncate_utf8_prefix src max_bytes dots =
     (if length src \<le> max_bytes then src
      else if max_bytes \<le> length dots then take max_bytes dots
      else take (cut_back src (max_bytes - length dots)) src @ dots)"

definition truncate_utf8_suffix :: "string \<Rightarrow> nat \<Rightarrow> string \<Rightarrow> string" where
  "truncate_utf8_suffix src max_bytes dots =
     (if length src \<le> max_bytes then src
      else if max_bytes \<le> length dots then take max_bytes dots
      else dots @ dropWhile is_continuation (drop (length src - (max_bytes - length dots)) src))"

text \<open>The walk back over the text in reverse, with the continuation bytes seen; how many bytes to drop.\<close>

fun partial_tail :: "nat \<Rightarrow> string \<Rightarrow> nat" where
  "partial_tail seen [] = 0"
| "partial_tail seen (c # rest) =
     (if is_continuation c then (if seen + 1 > 3 then 0 else partial_tail (seen + 1) rest)
      else if utf8_seq_len c = 0 then 0
      else if seen + 1 < utf8_seq_len c then seen + 1 else 0)"

definition trim_trailing_partial_utf8 :: "string \<Rightarrow> string" where
  "trim_trailing_partial_utf8 buf = take (length buf - partial_tail 0 (rev buf)) buf"

section \<open>Arbitrary bytes\<close>

definition utf8_bom :: string where
  "utf8_bom = map byte_char [0xEF, 0xBB, 0xBF]"

definition strip_utf8_bom :: "string \<Rightarrow> string" where
  "strip_utf8_bom text = (if take 3 text = utf8_bom then drop 3 text else text)"

definition is_high_surrogate :: "nat \<Rightarrow> bool" where
  "is_high_surrogate u \<longleftrightarrow> 0xD800 \<le> u \<and> u \<le> 0xDBFF"

definition is_low_surrogate :: "nat \<Rightarrow> bool" where
  "is_low_surrogate u \<longleftrightarrow> 0xDC00 \<le> u \<and> u \<le> 0xDFFF"

fun utf16_to_utf8 :: "bool \<Rightarrow> string \<Rightarrow> string" where
  "utf16_to_utf8 le (a # b # c # d # rest) =
     (let u = read_u16 le a b; low = read_u16 le c d
      in if u = 0 then utf16_to_utf8 le (c # d # rest)
         else if is_high_surrogate u \<and> is_low_surrogate low
         then append_utf8 (0x10000 + (push_bit 10 (u - 0xD800) OR (low - 0xDC00))) @ utf16_to_utf8 le rest
         else append_utf8 (if is_surrogate u then 0x3F else u) @ utf16_to_utf8 le (c # d # rest))"
| "utf16_to_utf8 le (a # b # rest) =
     (let u = read_u16 le a b
      in if u = 0 then utf16_to_utf8 le rest
         else append_utf8 (if is_surrogate u then 0x3F else u) @ utf16_to_utf8 le rest)"
| "utf16_to_utf8 le _ = []"

definition nuls_at :: "bool \<Rightarrow> string \<Rightarrow> nat" where
  "nuls_at at_even s = length (filter (\<lambda>(i, c). byte c = (0 :: nat) \<and> even i = at_even) (enumerate 0 (take 512 s)))"

definition looks_like_utf16 :: "bool \<Rightarrow> string \<Rightarrow> bool" where
  "looks_like_utf16 le s =
     (let sample = min (length s) 512
      in \<not> sample < 8 \<and> nuls_at (\<not> le) s > sample div 8 \<and> nuls_at le s < nuls_at (\<not> le) s div 4)"

fun replace_invalid :: "string \<Rightarrow> string" where
  "replace_invalid [] = []"
| "replace_invalid (c # cs) =
     (let n = utf8_seq_len c
      in if n \<noteq> 0 \<and> n \<le> length (c # cs) \<and> list_all is_continuation (take (n - 1) cs)
         then c # take (n - 1) cs @ replace_invalid (drop (n - 1) cs)
         else CHR ''?'' # replace_invalid cs)"

definition ensure_utf8 :: "string \<Rightarrow> string" where
  "ensure_utf8 src =
     (if src = [] then []
      else if starts_with_bytes [0xFF, 0xFE] src then utf16_to_utf8 True (drop 2 src)
      else if starts_with_bytes [0xFE, 0xFF] src then utf16_to_utf8 False (drop 2 src)
      else if looks_like_utf16 True src then utf16_to_utf8 True src
      else if looks_like_utf16 False src then utf16_to_utf8 False src
      else if is_valid_utf8 src then strip_utf8_bom src
      else strip_utf8_bom (replace_invalid src))"

section \<open>The incremental decoder\<close>

record text_decoder =
  td_pending :: string
  td_bom_checked :: bool

definition fresh_decoder :: text_decoder where
  "fresh_decoder = \<lparr>td_pending = [], td_bom_checked = False\<rparr>"

text \<open>How far the scan comes: to the end, to the start of an unfinished sequence, or \<open>None\<close> for bytes that
  are no UTF-8.\<close>

fun utf8_scan :: "string \<Rightarrow> nat option" where
  "utf8_scan [] = Some 0"
| "utf8_scan (c # cs) =
     (let n = utf8_seq_len c
      in if n = 0 then None
         else if length (c # cs) < n then Some 0
         else if \<not> list_all is_continuation (take (n - 1) cs) then None
         else map_option (\<lambda>k. k + n) (utf8_scan (drop (n - 1) cs)))"

definition decoder_emit_boundary :: "string \<Rightarrow> nat" where
  "decoder_emit_boundary buf = (case utf8_scan buf of Some i \<Rightarrow> i | None \<Rightarrow> length buf)"

definition decoder_decode_safe :: "string \<Rightarrow> string" where
  "decoder_decode_safe safe = (if safe = [] then [] else if is_valid_utf8 safe then safe else ensure_utf8 safe)"

definition may_be_bom :: "string \<Rightarrow> bool" where
  "may_be_bom s \<longleftrightarrow> length s < 3 \<and> take (length s) utf8_bom = s"

definition check_bom :: "text_decoder \<Rightarrow> text_decoder" where
  "check_bom d =
     (if td_bom_checked d then d
      else if length (td_pending d) \<ge> 3
      then d\<lparr>td_pending := strip_utf8_bom (td_pending d), td_bom_checked := True\<rparr>
      else if \<not> may_be_bom (td_pending d) then d\<lparr>td_bom_checked := True\<rparr> else d)"

definition push_bytes :: "string \<Rightarrow> text_decoder \<Rightarrow> string \<times> text_decoder" where
  "push_bytes data d =
     (let d1 = d\<lparr>td_pending := td_pending d @ data\<rparr>
      in if td_pending d1 = [] then ([], d1)
         else let d2 = check_bom d1
           in if \<not> td_bom_checked d2 then ([], d2)
              else let k = decoder_emit_boundary (td_pending d2)
                in if k = 0 then ([], d2)
                   else (decoder_decode_safe (take k (td_pending d2)), d2\<lparr>td_pending := drop k (td_pending d2)\<rparr>))"

definition flush_bytes :: "text_decoder \<Rightarrow> string \<times> text_decoder" where
  "flush_bytes d =
     (if td_pending d = [] then ([], d) else (decoder_decode_safe (td_pending d), \<lparr>td_pending = [], td_bom_checked = False\<rparr>))"

definition reset_decoder :: "text_decoder \<Rightarrow> text_decoder" where
  "reset_decoder d = \<lparr>td_pending = [], td_bom_checked = False\<rparr>"

text \<open>A subprocess: the output it delivers in pieces, and the end of it.\<close>

definition feed_piece :: "string \<Rightarrow> string \<times> text_decoder \<Rightarrow> string \<times> text_decoder" where
  "feed_piece data = (\<lambda>(out, d). case push_bytes data d of (s, d') \<Rightarrow> (out @ s, d'))"

definition decode_pieces :: "string list \<Rightarrow> string" where
  "decode_pieces pieces =
     (case fold feed_piece pieces ([], fresh_decoder) of (out, d) \<Rightarrow> out @ fst (flush_bytes d))"

section \<open>Valid text\<close>

lemma seq_len_cases:
  obtains "byte c < (128 :: nat)" "utf8_seq_len c = 1" | "128 \<le> byte c" "byte c < (192 :: nat)" "utf8_seq_len c = 0"
  | "192 \<le> byte c" "byte c < (224 :: nat)" "utf8_seq_len c = 2" | "224 \<le> byte c" "byte c < (240 :: nat)" "utf8_seq_len c = 3"
  | "240 \<le> byte c" "byte c < (248 :: nat)" "utf8_seq_len c = 4" | "248 \<le> byte c" "utf8_seq_len c = 0"
proof -
  let ?b = "byte c :: nat"
  note h = head_bits [of ?b, OF byte_less_256]
  have "utf8_seq_len c = (if ?b < 128 then 1 else if 192 \<le> ?b \<and> ?b < 224 then 2 else if 224 \<le> ?b \<and> ?b < 240 then 3
      else if 240 \<le> ?b \<and> ?b < 248 then 4 else 0)"
    by (simp add: utf8_seq_len_def h)
  with that show thesis by (cases "?b < 128"; cases "?b < 192"; cases "?b < 224"; cases "?b < 240"; cases "?b < 248") simp_all
qed

lemma seq_len_le: "utf8_seq_len c \<le> 4"
  by (cases c rule: seq_len_cases) simp_all

lemma continuation_range: "is_continuation c \<longleftrightarrow> 128 \<le> byte c \<and> byte c < (192 :: nat)"
  using head_bits(4) [of "byte c :: nat"] by (simp add: is_continuation_def)

lemma lead_no_continuation: "utf8_seq_len c \<noteq> 0 \<Longrightarrow> \<not> is_continuation c"
  by (cases c rule: seq_len_cases) (simp_all add: continuation_range)

text \<open>A valid text is a sequence of whole characters.\<close>

lemma valid_append: "is_valid_utf8 xs \<Longrightarrow> is_valid_utf8 (xs @ ys) \<longleftrightarrow> is_valid_utf8 ys"
proof (induction xs rule: is_valid_utf8.induct)
  case (2 c cs)
  then show ?case by (auto simp: Let_def)
qed simp

lemma valid_character:
  assumes "n = utf8_seq_len c" "n \<noteq> 0" "length conts = n - 1" "list_all is_continuation conts"
  shows "is_valid_utf8 (c # conts)"
  using assms by (simp add: Let_def)

lemma valid_induct [consumes 1, case_names Nil Char]:
  assumes "is_valid_utf8 s" "P []"
    and "\<And>c conts s. length conts + 1 = utf8_seq_len c \<Longrightarrow> list_all is_continuation conts \<Longrightarrow> is_valid_utf8 s \<Longrightarrow> P s \<Longrightarrow>
      P (c # conts @ s)"
  shows "P s"
  using assms(1)
proof (induction s rule: is_valid_utf8.induct)
  case (2 c cs)
  let ?n = "utf8_seq_len c - 1"
  from 2(2) have n: "length (take ?n cs) + 1 = utf8_seq_len c" "list_all is_continuation (take ?n cs)" "is_valid_utf8 (drop ?n cs)"
    by (simp_all add: Let_def) linarith
  from assms(3) [OF n 2(1) [OF refl n(3)]] show ?case by simp
qed (rule assms(2))

lemma valid_take:
  "is_valid_utf8 s \<Longrightarrow> n < length s \<Longrightarrow> \<not> is_continuation (s ! n) \<Longrightarrow> is_valid_utf8 (take n s)"
proof (induction arbitrary: n rule: valid_induct)
  case (Char c conts s)
  show ?case
  proof (cases n)
    case (Suc m)
    have "length conts \<le> m"
    proof (rule ccontr)
      assume "\<not> length conts \<le> m"
      then have "(c # conts @ s) ! n \<in> set conts" by (simp add: Suc nth_append)
      with Char show False by (auto simp: list_all_iff)
    qed
    then have "take n (c # conts @ s) = (c # conts) @ take (m - length conts) s" by (simp add: Suc)
    moreover have "is_valid_utf8 (take (m - length conts) s)"
      using Char.prems \<open>length conts \<le> m\<close> by (intro Char.IH) (auto simp: Suc nth_append)
    moreover have "is_valid_utf8 (c # conts)" by (rule valid_character [OF refl]) (use Char in auto)
    ultimately show ?thesis using valid_append [of "c # conts"] by metis
  qed simp
qed simp

lemma valid_drop: "is_valid_utf8 s \<Longrightarrow> is_valid_utf8 (take n s) \<Longrightarrow> is_valid_utf8 (drop n s)"
  using valid_append [of "take n s" "drop n s"] by simp

lemma valid_continuations:
  "is_valid_utf8 s \<Longrightarrow> n + 3 < length s \<Longrightarrow> \<exists>i \<le> 3. \<not> is_continuation (s ! (n + i))"
proof (induction arbitrary: n rule: valid_induct)
  case (Char c conts s)
  have l: "length conts \<le> 3" using Char(1) seq_len_le [of c] by simp
  show ?case
  proof (cases "n \<le> length conts")
    case True
    show ?thesis
    proof (cases "n = 0")
      case True
      then show ?thesis using lead_no_continuation [of c] Char(1) by (intro exI [of _ 0]) simp
    next
      case False
      with True Char.prems l have "s \<noteq> []" by auto
      then obtain d s' where s: "s = d # s'" by (cases s) auto
      have "\<not> is_continuation d" using Char(3) lead_no_continuation [of d] by (simp add: s Let_def)
      moreover have "(c # conts @ s) ! (n + (length conts + 1 - n)) = d" using True by (simp add: s nth_append)
      ultimately show ?thesis using False True l by (intro exI [of _ "length conts + 1 - n"]) auto
    qed
  next
    case False
    then obtain m where m: "n = Suc (length conts) + m" using less_imp_Suc_add by (metis add_Suc not_le)
    from Char.IH [of m] Char.prems obtain i where "i \<le> 3" "\<not> is_continuation (s ! (m + i))" by (auto simp: m)
    then show ?thesis by (intro exI [of _ i]) (simp add: m nth_append)
  qed
qed simp

section \<open>Cutting\<close>

lemma cut_back_spec:
  "cut_back s n \<le> n \<and> (cut_back s n = 0 \<or> \<not> is_continuation (s ! cut_back s n)) \<and>
     (\<forall>i. cut_back s n < i \<and> i \<le> n \<longrightarrow> is_continuation (s ! i))"
proof (induction n)
  case (Suc n)
  then show ?case by (auto simp: le_Suc_eq)
qed simp

lemma cut_back_near:
  assumes "is_valid_utf8 s" "n < length s"
  shows "n \<le> cut_back s n + 3"
proof (rule ccontr)
  assume far: "\<not> n \<le> cut_back s n + 3"
  let ?m = "cut_back s n + 1"
  obtain i where i: "i \<le> 3" "\<not> is_continuation (s ! (?m + i))"
    using valid_continuations [OF assms(1), of ?m] assms(2) far by auto
  have "cut_back s n < ?m + i" "?m + i \<le> n" using i(1) far by simp_all
  with cut_back_spec [of s n] i(2) show False by blast
qed

lemma cut_back_valid:
  assumes "is_valid_utf8 s" "n < length s"
  shows "is_valid_utf8 (take (cut_back s n) s)"
proof (cases "cut_back s n = 0")
  case False
  with cut_back_spec [of s n] assms show ?thesis by (intro valid_take) auto
qed simp

definition ascii_text :: "string \<Rightarrow> bool" where
  "ascii_text s \<longleftrightarrow> list_all (\<lambda>c. byte c < (128 :: nat)) s"

lemma ascii_valid: "ascii_text s \<Longrightarrow> is_valid_utf8 s"
proof (induction s)
  case (Cons c s)
  then have "utf8_seq_len c = 1" by (cases c rule: seq_len_cases) (simp_all add: ascii_text_def)
  with Cons show ?case by (simp add: ascii_text_def)
qed simp

lemma ascii_take: "ascii_text s \<Longrightarrow> ascii_text (take n s)"
  by (auto simp: ascii_text_def list_all_iff dest: in_set_takeD)

lemma dropWhile_drop: "\<exists>k. dropWhile P xs = drop k xs \<and> k \<le> length xs \<and> (k < length xs \<longrightarrow> \<not> P (xs ! k)) \<and> (\<forall>i < k. P (xs ! i))"
proof (induction xs)
  case (Cons x xs)
  show ?case
  proof (cases "P x")
    case True
    from Cons obtain k where "dropWhile P xs = drop k xs" "k \<le> length xs" "k < length xs \<longrightarrow> \<not> P (xs ! k)" "\<forall>i < k. P (xs ! i)" by blast
    with True show ?thesis by (intro exI [of _ "Suc k"]) (auto simp: nth_Cons')
  qed (auto intro: exI [of _ 0])
qed simp

lemma valid_drop_lead:
  assumes "is_valid_utf8 s" "n < length s \<longrightarrow> \<not> is_continuation (s ! n)"
  shows "is_valid_utf8 (drop n s)"
  using assms valid_take [of s n] valid_drop [of s n] by (cases "n < length s") auto

lemma suffix_spec:
  assumes "is_valid_utf8 s" "n < length s"
  shows "is_valid_utf8 (dropWhile is_continuation (drop n s)) \<and> length (dropWhile is_continuation (drop n s)) \<le> length s - n \<and>
    length s - n \<le> length (dropWhile is_continuation (drop n s)) + 3"
proof -
  obtain k where k: "dropWhile is_continuation (drop n s) = drop k (drop n s)" "k \<le> length (drop n s)"
      "k < length (drop n s) \<longrightarrow> \<not> is_continuation (drop n s ! k)" "\<forall>i < k. is_continuation (drop n s ! i)"
    using dropWhile_drop [of is_continuation "drop n s"] by blast
  have "n + k < length s \<longrightarrow> \<not> is_continuation (s ! (n + k))" using k(3) by auto
  then have "is_valid_utf8 (drop (n + k) s)" by (rule valid_drop_lead [OF assms(1)])
  moreover have "k \<le> 3"
  proof (rule ccontr)
    assume "\<not> k \<le> 3"
    with k(2) have "n + 3 < length s" by simp
    from valid_continuations [OF assms(1) this] obtain i where "i \<le> 3" "\<not> is_continuation (s ! (n + i))" by blast
    moreover from this(1) \<open>\<not> k \<le> 3\<close> have "i < k" by simp
    ultimately show False using k(2,4) by auto
  qed
  moreover have "dropWhile is_continuation (drop n s) = drop (n + k) s" by (simp add: k(1) add.commute)
  ultimately show ?thesis by (simp, arith)
qed

section \<open>A partial tail\<close>

lemma valid_last:
  "is_valid_utf8 s \<Longrightarrow> s \<noteq> [] \<Longrightarrow>
     \<exists>before c conts. s = before @ c # conts \<and> list_all is_continuation conts \<and> length conts + 1 = utf8_seq_len c"
proof (induction rule: valid_induct)
  case (Char c conts s)
  show ?case
  proof (cases "s = []")
    case True
    with Char show ?thesis by (intro exI [of _ "[]"]) auto
  next
    case False
    with Char.IH obtain before d ds where "s = before @ d # ds" "list_all is_continuation ds" "length ds + 1 = utf8_seq_len d" by blast
    then show ?thesis by (intro exI [of _ "c # conts @ before"]) auto
  qed
qed simp

lemma partial_tail_walk:
  assumes "list_all is_continuation conts" "seen + length conts \<le> 3" "utf8_seq_len c \<noteq> 0"
  shows "partial_tail seen (conts @ c # rest) = (if seen + length conts + 1 < utf8_seq_len c then seen + length conts + 1 else 0)"
  using assms by (induction conts arbitrary: seen) (auto simp: lead_no_continuation)

lemma trim_whole: "is_valid_utf8 s \<Longrightarrow> trim_trailing_partial_utf8 s = s"
proof (cases "s = []")
  case False
  assume "is_valid_utf8 s"
  from valid_last [OF this False] obtain before c conts
    where s: "s = before @ c # conts" "list_all is_continuation conts" "length conts + 1 = utf8_seq_len c" by blast
  have "partial_tail 0 (rev conts @ c # rev before) = 0"
    using s seq_len_le [of c] by (subst partial_tail_walk) (auto simp: list_all_iff)
  then show ?thesis by (simp add: trim_trailing_partial_utf8_def s(1))
qed (simp add: trim_trailing_partial_utf8_def)

text \<open>A cut inside a valid text leaves whole characters and the beginning of one.\<close>

lemma valid_prefix:
  "is_valid_utf8 s \<Longrightarrow> n \<le> length s \<Longrightarrow>
     \<exists>k \<le> n. is_valid_utf8 (take k s) \<and> (k = n \<or> (\<exists>c conts. drop k (take n s) = c # conts \<and> list_all is_continuation conts \<and>
       length conts + 1 < utf8_seq_len c))"
proof (induction arbitrary: n rule: valid_induct)
  case (Char c conts s)
  show ?case
  proof (cases "n \<le> length conts")
    case True
    show ?thesis
    proof (cases n)
      case (Suc m)
      have "drop 0 (take n (c # conts @ s)) = c # take m conts" using True by (simp add: Suc)
      moreover have "list_all is_continuation (take m conts)" using Char(2) by (auto simp: list_all_iff dest: in_set_takeD)
      moreover have "length (take m conts) + 1 < utf8_seq_len c" using True Char(1) by (simp add: Suc)
      ultimately show ?thesis by (intro exI [of _ 0]) auto
    qed auto
  next
    case False
    then obtain m where m: "n = Suc (length conts) + m" using less_imp_Suc_add by (metis add_Suc not_le)
    from Char.IH [of m] Char.prems obtain k where k: "k \<le> m" "is_valid_utf8 (take k s)"
      "k = m \<or> (\<exists>d ds. drop k (take m s) = d # ds \<and> list_all is_continuation ds \<and> length ds + 1 < utf8_seq_len d)"
      by (auto simp: m)
    have "is_valid_utf8 (c # conts)" by (rule valid_character [OF refl]) (use Char in auto)
    with k(2) have "is_valid_utf8 (take (Suc (length conts) + k) (c # conts @ s))"
      using valid_append [of "c # conts" "take k s"] by simp
    with k(1,3) show ?thesis by (intro exI [of _ "Suc (length conts) + k"]) (auto simp: m)
  qed
qed simp

lemma trim_prefix:
  assumes "is_valid_utf8 s" "n \<le> length s"
  shows "\<exists>k \<le> n. trim_trailing_partial_utf8 (take n s) = take k s \<and> is_valid_utf8 (take k s) \<and> n \<le> k + 3"
proof -
  from valid_prefix [OF assms] obtain k where k: "k \<le> n" "is_valid_utf8 (take k s)"
    "k = n \<or> (\<exists>c conts. drop k (take n s) = c # conts \<and> list_all is_continuation conts \<and> length conts + 1 < utf8_seq_len c)" by blast
  show ?thesis
  proof (cases "k = n")
    case True
    with k(2) trim_whole [OF k(2)] show ?thesis by auto
  next
    case False
    with k(3) obtain c conts where c: "drop k (take n s) = c # conts" "list_all is_continuation conts"
      "length conts + 1 < utf8_seq_len c" by blast
    have "take n s = take k s @ drop k (take n s)" using k(1)
      by (metis append_take_drop_id min.absorb1 take_take)
    then have split: "take n s = take k s @ c # conts" by (simp only: c(1))
    have "partial_tail 0 (rev (take n s)) = length conts + 1"
      unfolding split using c seq_len_le [of c]
      by (simp, subst partial_tail_walk) (auto simp: list_all_iff)
    moreover have "length (take n s) = k + (length conts + 1)"
      using split k(1) assms(2) by (metis length_append length_Cons length_take min.absorb2 Suc_eq_plus1 le_trans)
    ultimately have "trim_trailing_partial_utf8 (take n s) = take k (take n s)" by (simp add: trim_trailing_partial_utf8_def)
    moreover have "n \<le> k + 3" using \<open>length (take n s) = _\<close> assms(2) c(3) seq_len_le [of c] by simp
    ultimately show ?thesis using k(1,2) by (intro exI [of _ k]) (simp add: min_absorb1)
  qed
qed


section \<open>The output is valid\<close>

lemma replaced_valid: "is_valid_utf8 (replace_invalid s)"
proof (induction s rule: replace_invalid.induct)
  case (2 c cs)
  let ?n = "utf8_seq_len c"
  show ?case
  proof (cases "?n \<noteq> 0 \<and> ?n \<le> length (c # cs) \<and> list_all is_continuation (take (?n - 1) cs)")
    case True
    then have "is_valid_utf8 (c # take (?n - 1) cs)" by (intro valid_character [OF refl]) auto
    then have "is_valid_utf8 ((c # take (?n - 1) cs) @ replace_invalid (drop (?n - 1) cs))"
      using valid_append 2(1) [OF refl True] by blast
    with True show ?thesis by (simp add: Let_def)
  next
    case False
    have "utf8_seq_len (CHR ''?'') = 1" by code_simp
    with 2(2) [OF refl False] have "is_valid_utf8 (CHR ''?'' # replace_invalid cs)" by simp
    moreover have "replace_invalid (c # cs) = CHR ''?'' # replace_invalid cs" using False by (simp only: replace_invalid.simps Let_def if_False)
    ultimately show ?thesis by simp
  qed
qed simp

lemma bom_valid: "is_valid_utf8 utf8_bom"
  by code_simp

lemma stripped_valid: "is_valid_utf8 s \<Longrightarrow> is_valid_utf8 (strip_utf8_bom s)"
  using valid_drop [of s 3] bom_valid by (auto simp: strip_utf8_bom_def)


lemma byte_of: "n < 256 \<Longrightarrow> byte (char_of n) = n" for n :: nat
  by simp

lemma seq_len_of:
  "n < 128 \<Longrightarrow> utf8_seq_len (char_of n) = 1" "192 \<le> n \<Longrightarrow> n < 224 \<Longrightarrow> utf8_seq_len (char_of n) = 2"
  "224 \<le> n \<Longrightarrow> n < 240 \<Longrightarrow> utf8_seq_len (char_of n) = 3" "240 \<le> n \<Longrightarrow> n < 248 \<Longrightarrow> utf8_seq_len (char_of n) = 4"
  for n :: nat
  by (cases "char_of n :: char" rule: seq_len_cases; simp add: byte_of)+

lemma continuation_of: "x < 64 \<Longrightarrow> is_continuation (char_of (128 + x))" for x :: nat
  by (simp add: continuation_range byte_of)

lemma appended_valid:
  assumes "cp < 0x200000"
  shows "is_valid_utf8 (append_utf8 cp)"
proof -
  define x y z where "x = cp mod 64" and "y = cp div 64 mod 64" and "z = cp div 4096 mod 64"
  have l: "x < 64" "y < 64" "z < 64" by (simp_all add: x_def y_def z_def)
  have d: "cp div 4096 = cp div 64 div 64" "cp div 262144 = cp div 64 div 64 div 64" by (simp_all add: div_mult2_eq [symmetric])
  have two: "cp = cp div 64 * 64 + x" and three: "cp = (cp div 4096 * 64 + y) * 64 + x"
    and four: "cp = ((cp div 262144 * 64 + z) * 64 + y) * 64 + x"
    by (simp_all add: x_def y_def z_def d)
  consider "cp < 0x80" | "0x80 \<le> cp" "cp < 0x800" | "0x800 \<le> cp" "cp < 0x10000" | "0x10000 \<le> cp" by linarith
  then show ?thesis
  proof cases
    case 1
    then show ?thesis by (simp add: append_utf8_def seq_len_of)
  next
    case 2
    then have v: "2 \<le> cp div 64" "cp div 64 < 32" by simp_all
    have "append_utf8 cp = map char_of [192 + cp div 64, 128 + x]" by (subst two) (rule append_utf8_2 [OF l(1) v])
    then show ?thesis using v l by (simp add: seq_len_of continuation_of)
  next
    case 3
    then have v: "cp div 4096 < 16" by simp
    have "append_utf8 cp = map char_of [224 + cp div 4096, 128 + y, 128 + x]"
      by (subst three) (rule append_utf8_3 [OF l(1,2) _ v], use three 3 in simp)
    then show ?thesis using v l by (simp add: seq_len_of continuation_of)
  next
    case 4
    have v: "cp div 262144 < 8" using assms by simp
    have "append_utf8 cp = map char_of [240 + cp div 262144, 128 + z, 128 + y, 128 + x]"
      by (subst four) (rule append_utf8_4 [OF l _ v], use four 4 in simp)
    then show ?thesis using v l by (simp add: seq_len_of continuation_of)
  qed
qed

lemma read_u16_less: "read_u16 le a b < 65536"
proof -
  have "byte a < (256 :: nat)" "byte b < (256 :: nat)" by (rule byte_less_256)+
  then have "byte b * 256 + byte a < (65536 :: nat)" "byte a * 256 + byte b < (65536 :: nat)" by linarith+
  then show ?thesis by (simp add: read_u16_def byte_less_256)
qed

lemma surrogate_pair_less:
  assumes "is_high_surrogate u" "is_low_surrogate low"
  shows "0x10000 + (push_bit 10 (u - 0xD800) OR (low - 0xDC00)) < 0x200000"
proof -
  have "low - 0xDC00 < 1024" "u - 0xD800 < 1024" using assms unfolding is_high_surrogate_def is_low_surrogate_def by linarith+
  then show ?thesis by simp
qed

lemma unit_valid: "is_valid_utf8 (append_utf8 (if is_surrogate (read_u16 le a b) then 0x3F else read_u16 le a b))"
  using read_u16_less [of le a b] by (intro appended_valid) simp

lemma utf16_valid: "is_valid_utf8 (utf16_to_utf8 le s)"
proof (induction le s rule: utf16_to_utf8.induct)
  case (1 le a b c d rest)
  let ?u = "read_u16 le a b" and ?low = "read_u16 le c d"
  consider "?u = 0" | "?u \<noteq> 0" "is_high_surrogate ?u \<and> is_low_surrogate ?low" | "?u \<noteq> 0" "\<not> (is_high_surrogate ?u \<and> is_low_surrogate ?low)"
    by blast
  then show ?case
  proof cases
    case 1
    with "1.IH"(1) show ?thesis by (simp add: Let_def)
  next
    case 2
    with "1.IH"(2) surrogate_pair_less show ?thesis
      by (simp add: Let_def valid_append [OF appended_valid])
  next
    case 3
    with "1.IH"(3) show ?thesis by (auto simp: Let_def valid_append [OF unit_valid])
  qed
qed (simp_all add: Let_def unit_valid)

lemma ensured_valid: "is_valid_utf8 (ensure_utf8 s)"
  by (simp add: ensure_utf8_def utf16_valid stripped_valid replaced_valid)

lemma decoded_valid: "is_valid_utf8 (decoder_decode_safe s)"
  by (simp add: decoder_decode_safe_def ensured_valid)

section \<open>The decoder and the pieces\<close>

lemma fed_valid: "is_valid_utf8 (fst s) \<Longrightarrow> is_valid_utf8 (fst (feed_piece data s))"
  by (auto simp: feed_piece_def push_bytes_def Let_def valid_append decoded_valid split: prod.split)

lemma all_fed_valid: "is_valid_utf8 (fst s) \<Longrightarrow> is_valid_utf8 (fst (fold feed_piece pieces s))"
  by (induction pieces arbitrary: s) (simp_all add: fed_valid)

lemma decoded_pieces_valid: "is_valid_utf8 (decode_pieces pieces)"
  using all_fed_valid [of "([], fresh_decoder)" pieces]
  by (auto simp: decode_pieces_def flush_bytes_def valid_append decoded_valid split: prod.split)

text \<open>The beginning of a text decides whether it has a byte order mark once it cannot be cut short of one.\<close>

lemma length_bom: "length utf8_bom = 3"
  by (simp add: utf8_bom_def)

lemma strip_append:
  assumes "\<not> may_be_bom xs"
  shows "strip_utf8_bom (xs @ ys) = strip_utf8_bom xs @ ys"
proof (cases "3 \<le> length xs")
  case False
  then have "length xs < 3" by simp
  with assms have "take (length xs) utf8_bom \<noteq> xs" by (simp add: may_be_bom_def)
  moreover have "take (length xs) (take 3 (xs @ ys)) = xs" using False by simp
  ultimately have "take 3 (xs @ ys) \<noteq> utf8_bom" by metis
  moreover have "take 3 xs \<noteq> utf8_bom" using False length_bom by (metis length_take min.cobounded1)
  ultimately show ?thesis by (simp add: strip_utf8_bom_def)
qed (simp add: strip_utf8_bom_def)

lemma may_be_bom_append: "may_be_bom (xs @ ys) \<Longrightarrow> may_be_bom xs"
proof -
  assume "may_be_bom (xs @ ys)"
  then have l: "length (xs @ ys) < 3" and t: "take (length (xs @ ys)) utf8_bom = xs @ ys" by (simp_all add: may_be_bom_def)
  from arg_cong [OF t, of "take (length xs)"] have "take (length xs) utf8_bom = xs" by (simp add: min_absorb1)
  with l show ?thesis by (simp add: may_be_bom_def)
qed

lemma short_strip: "length xs < 3 \<Longrightarrow> strip_utf8_bom xs = xs"
  using length_bom by (auto simp: strip_utf8_bom_def dest: arg_cong [where f = length])

lemma bom_beginning_invalid: "may_be_bom xs \<Longrightarrow> xs \<noteq> [] \<Longrightarrow> \<not> is_valid_utf8 xs"
proof -
  assume m: "may_be_bom xs" "xs \<noteq> []"
  then have "length xs < 3" "length xs \<noteq> 0" by (simp_all add: may_be_bom_def)
  then have "length xs = 1 \<or> length xs = 2" by linarith
  with m(1) have "xs = take 1 utf8_bom \<or> xs = take 2 utf8_bom" by (auto simp: may_be_bom_def)
  moreover have "\<not> is_valid_utf8 (take 1 utf8_bom)" "\<not> is_valid_utf8 (take 2 utf8_bom)" by code_simp+
  ultimately show ?thesis by blast
qed

lemma scan_prefix:
  "is_valid_utf8 s \<Longrightarrow> n \<le> length s \<Longrightarrow> \<exists>k \<le> n. utf8_scan (take n s) = Some k \<and> is_valid_utf8 (take k s)"
proof (induction arbitrary: n rule: valid_induct)
  case (Char c conts s)
  show ?case
  proof (cases "n \<le> length conts")
    case True
    with Char(1) show ?thesis by (cases n) (auto simp: Let_def)
  next
    case False
    then obtain m where m: "n = Suc (length conts) + m" using less_imp_Suc_add by (metis add_Suc not_le)
    from Char.IH [of m] Char.prems obtain k where k: "k \<le> m" "utf8_scan (take m s) = Some k" "is_valid_utf8 (take k s)"
      by (auto simp: m)
    have n: "utf8_seq_len c - 1 = length conts" "utf8_seq_len c = Suc (length conts)" using Char(1) by simp_all
    have t: "take n (c # conts @ s) = c # conts @ take m s" by (simp add: m)
    have "utf8_scan (take n (c # conts @ s)) = Some (k + utf8_seq_len c)"
      using Char(2) k(2) unfolding t utf8_scan.simps Let_def n by simp
    moreover have "is_valid_utf8 (c # conts)" by (rule valid_character [OF refl]) (use Char in auto)
    with k(3) have "is_valid_utf8 (take (k + utf8_seq_len c) (c # conts @ s))"
      using valid_append [of "c # conts" "take k s"] by (simp add: n del: is_valid_utf8.simps)
    moreover have "k + utf8_seq_len c \<le> n" using k(1) by (simp add: m n)
    ultimately show ?thesis by blast
  qed
qed simp

text \<open>What the decoder has written and what it holds back, after the bytes \<open>xs\<close> of a valid text.\<close>

definition decoded_upto :: "string \<times> text_decoder \<Rightarrow> string \<Rightarrow> bool" where
  "decoded_upto s xs \<longleftrightarrow>
     (if td_bom_checked (snd s)
      then \<not> may_be_bom xs \<and> is_valid_utf8 (fst s) \<and> fst s @ td_pending (snd s) = strip_utf8_bom xs
      else fst s = [] \<and> td_pending (snd s) = xs \<and> may_be_bom xs)"

definition decodes :: "string \<Rightarrow> string \<times> text_decoder \<Rightarrow> string \<Rightarrow> bool" where
  "decodes text s xs \<longleftrightarrow> (is_valid_utf8 text \<and> prefix xs text \<longrightarrow> decoded_upto s xs)"

lemma emitted_upto:
  assumes "is_valid_utf8 text" "prefix xs text" "\<not> may_be_bom xs" "is_valid_utf8 out" "out @ p = strip_utf8_bom xs"
  shows "\<exists>k \<le> length p. decoder_emit_boundary p = k \<and> decoder_decode_safe (take k p) = take k p \<and> is_valid_utf8 (take k p)"
proof -
  from assms(2) obtain ys where "text = xs @ ys" by (auto simp: prefix_def)
  with assms(3,5) have s: "strip_utf8_bom text = out @ p @ ys" by (simp add: strip_append flip: append_assoc)
  have v: "is_valid_utf8 (p @ ys)" using stripped_valid [OF assms(1)] valid_append [OF assms(4)] by (simp add: s)
  from scan_prefix [OF this, of "length p"] obtain k where "k \<le> length p" "utf8_scan p = Some k" "is_valid_utf8 (take k p)"
    by auto
  then show ?thesis by (auto simp: decoder_emit_boundary_def decoder_decode_safe_def)
qed

lemma check_bom_upto:
  assumes "decoded_upto (out, d) xs"
  shows "decoded_upto (out, check_bom (d\<lparr>td_pending := td_pending d @ data\<rparr>)) (xs @ data)"
proof (cases "td_bom_checked d")
  case True
  with assms show ?thesis by (auto simp: decoded_upto_def check_bom_def strip_append dest: may_be_bom_append)
next
  case False
  with assms have "out = []" "td_pending d = xs" by (simp_all add: decoded_upto_def)
  with False show ?thesis by (auto simp: decoded_upto_def check_bom_def short_strip may_be_bom_def)
qed

lemma feed_decodes:
  assumes "decodes text s xs"
  shows "decodes text (feed_piece data s) (xs @ data)"
proof (cases "is_valid_utf8 text \<and> prefix (xs @ data) text")
  case True
  obtain out d where s: "s = (out, d)" by (cases s)
  from True have "prefix xs text" by (blast dest: append_prefixD)
  with assms True have "decoded_upto (out, d) xs" by (simp add: decodes_def s)
  note d2 = check_bom_upto [OF this, of data]
  let ?d1 = "d\<lparr>td_pending := td_pending d @ data\<rparr>"
  let ?d2 = "check_bom ?d1"
  have "decoded_upto (feed_piece data (out, d)) (xs @ data)"
  proof (cases "td_pending ?d1 = [] \<or> \<not> td_bom_checked ?d2")
    case True
    then show ?thesis using d2
      by (auto simp: feed_piece_def push_bytes_def Let_def decoded_upto_def check_bom_def may_be_bom_def split: if_splits)
  next
    case False
    with d2 have u: "\<not> may_be_bom (xs @ data)" "is_valid_utf8 out" "out @ td_pending ?d2 = strip_utf8_bom (xs @ data)"
      by (simp_all add: decoded_upto_def)
    from emitted_upto [OF _ _ u] True obtain k where k: "decoder_emit_boundary (td_pending ?d2) = k"
      "decoder_decode_safe (take k (td_pending ?d2)) = take k (td_pending ?d2)" "is_valid_utf8 (take k (td_pending ?d2))" by blast
    have "feed_piece data (out, d) = (out @ take k (td_pending ?d2), ?d2\<lparr>td_pending := drop k (td_pending ?d2)\<rparr>)"
      using False k by (auto simp: feed_piece_def push_bytes_def Let_def)
    then show ?thesis using u k(3) False by (simp add: decoded_upto_def valid_append)
  qed
  then show ?thesis by (simp add: decodes_def s)
qed (auto simp: decodes_def)

interpretation decoder: chunked_feed feed_piece "decodes whole" for whole
  by unfold_locales (rule feed_decodes)

lemma decoded_whole:
  assumes "is_valid_utf8 (concat pieces)"
  shows "decode_pieces pieces = strip_utf8_bom (concat pieces)"
proof -
  have "decodes (concat pieces) ([], fresh_decoder) []"
    by (simp add: decodes_def decoded_upto_def fresh_decoder_def may_be_bom_def)
  from decoder.fold_stands_Nil [OF this]
  have "decodes (concat pieces) (fold feed_piece pieces ([], fresh_decoder)) (concat pieces)" .
  moreover obtain out d where f: "fold feed_piece pieces ([], fresh_decoder) = (out, d)" by fastforce
  ultimately have u: "decoded_upto (out, d) (concat pieces)" using assms by (simp add: decodes_def)
  show ?thesis
  proof (cases "td_bom_checked d")
    case True
    with u have w: "is_valid_utf8 out" "out @ td_pending d = strip_utf8_bom (concat pieces)" by (simp_all add: decoded_upto_def)
    then have "is_valid_utf8 (td_pending d)" using stripped_valid [OF assms] valid_append by metis
    then show ?thesis using w(2) by (auto simp: decode_pieces_def f flush_bytes_def decoder_decode_safe_def)
  next
    case False
    with u have h: "out = []" "td_pending d = concat pieces" "may_be_bom (concat pieces)" by (simp_all add: decoded_upto_def)
    from bom_beginning_invalid [OF h(3)] assms have n: "concat pieces = []" by blast
    have "strip_utf8_bom [] = []" by (rule short_strip) simp
    with h(1,2) n show ?thesis by (simp only: decode_pieces_def f prod.case flush_bytes_def if_True fst_conv append_Nil2 refl simp_thms)
  qed
qed


section \<open>Properties\<close>

text \<open>C32: However the output of a subprocess is cut into pieces, the text the decoder makes of it passes the
  test for UTF-8; and when the output was such a text, the decoder delivers it whole, without its
  byte order mark, character by character although the cuts may fall inside characters or inside
  the mark.\<close>

theorem decoder_independent_of_pieces:
  "is_valid_utf8 (decode_pieces pieces) \<and>
   (is_valid_utf8 (concat pieces) \<longrightarrow> decode_pieces pieces = strip_utf8_bom (concat pieces))"
  by (intro conjI impI decoded_pieces_valid decoded_whole)

definition euro_pieces :: "string list" where
  "euro_pieces = map (map byte_char) [[0xEF], [0xBB], [0xBF, 0x41, 0xE2], [0x82], [], [0xAC, 0xC3], [0xA9]]"

theorem decoder_independent_of_pieces_witness:
  "decode_pieces euro_pieces = map byte_char [0x41, 0xE2, 0x82, 0xAC, 0xC3, 0xA9]"
proof -
  have "is_valid_utf8 (concat euro_pieces)" by code_simp
  with decoder_independent_of_pieces [of euro_pieces] have "decode_pieces euro_pieces = strip_utf8_bom (concat euro_pieces)" by blast
  also have "\<dots> = map byte_char [0x41, 0xE2, 0x82, 0xAC, 0xC3, 0xA9]" by code_simp
  finally show ?thesis .
qed

text \<open>Cutting a valid text to a number of bytes, at the end or at the beginning, yields a valid text of at
  most that many bytes, and so does dropping a partial character from what a read with a byte
  budget returned; each gives up at most three bytes beyond what the budget demands.\<close>

lemma cut_text_stays_valid:
  assumes "is_valid_utf8 s" "ascii_text dots"
  shows "is_valid_utf8 (truncate_utf8_prefix s n dots) \<and> length (truncate_utf8_prefix s n dots) \<le> n \<and>
    is_valid_utf8 (truncate_utf8_suffix s n dots) \<and> length (truncate_utf8_suffix s n dots) \<le> n \<and>
    (length s > n \<longrightarrow> n \<le> length (truncate_utf8_prefix s n dots) + 3 \<or> n \<le> length dots) \<and>
    (length s > n \<longrightarrow> n \<le> length (truncate_utf8_suffix s n dots) + 3 \<or> n \<le> length dots) \<and>
    (n \<le> length s \<longrightarrow> prefix (trim_trailing_partial_utf8 (take n s)) s \<and>
      is_valid_utf8 (trim_trailing_partial_utf8 (take n s)) \<and> n \<le> length (trim_trailing_partial_utf8 (take n s)) + 3)"
proof -
  consider "length s \<le> n" | "n < length s" "n \<le> length dots" | "n < length s" "length dots < n" by linarith
  then have "is_valid_utf8 (truncate_utf8_prefix s n dots) \<and> length (truncate_utf8_prefix s n dots) \<le> n \<and>
    is_valid_utf8 (truncate_utf8_suffix s n dots) \<and> length (truncate_utf8_suffix s n dots) \<le> n \<and>
    (length s > n \<longrightarrow> n \<le> length (truncate_utf8_prefix s n dots) + 3 \<or> n \<le> length dots) \<and>
    (length s > n \<longrightarrow> n \<le> length (truncate_utf8_suffix s n dots) + 3 \<or> n \<le> length dots)"
  proof cases
    case 1
    with assms show ?thesis by (simp add: truncate_utf8_prefix_def truncate_utf8_suffix_def)
  next
    case 2
    with ascii_valid [OF ascii_take [OF assms(2)]] show ?thesis
      by (simp add: truncate_utf8_prefix_def truncate_utf8_suffix_def)
  next
    case 3
    let ?m = "n - length dots"
    have m: "?m < length s" "length s - ?m < length s" using 3 by simp_all
    note d = ascii_valid [OF assms(2)]
    have "is_valid_utf8 (take (cut_back s ?m) s @ dots)"
      using valid_append [OF cut_back_valid [OF assms(1) m(1)]] d by blast
    moreover have "is_valid_utf8 (dots @ dropWhile is_continuation (drop (length s - ?m) s))"
      using valid_append [OF d] suffix_spec [OF assms(1) m(2)] by blast
    moreover have "cut_back s ?m \<le> ?m" "?m \<le> cut_back s ?m + 3"
      using cut_back_spec [of s ?m] cut_back_near [OF assms(1) m(1)] by blast+
    moreover have "length (dropWhile is_continuation (drop (length s - ?m) s)) \<le> ?m"
        "?m \<le> length (dropWhile is_continuation (drop (length s - ?m) s)) + 3"
      using suffix_spec [OF assms(1) m(2)] m(1) by simp_all
    ultimately show ?thesis using 3
      by (simp add: truncate_utf8_prefix_def truncate_utf8_suffix_def) (intro conjI; linarith)
  qed
  moreover have "prefix (trim_trailing_partial_utf8 (take n s)) s \<and> is_valid_utf8 (trim_trailing_partial_utf8 (take n s)) \<and>
      n \<le> length (trim_trailing_partial_utf8 (take n s)) + 3" if le: "n \<le> length s"
  proof -
    from trim_prefix [OF assms(1) le] obtain k where "k \<le> n" "trim_trailing_partial_utf8 (take n s) = take k s"
      "is_valid_utf8 (take k s)" "n \<le> k + 3" by blast
    with le show ?thesis by (simp add: take_is_prefix)
  qed
  ultimately show ?thesis by blast
qed

lemma cut_text_stays_valid_witness:
  "is_valid_utf8 (truncate_utf8_prefix (map byte_char [0x41, 0xE2, 0x82, 0xAC, 0xC3, 0xA9]) 5 ''...'') \<and>
   truncate_utf8_prefix (map byte_char [0x41, 0xE2, 0x82, 0xAC, 0xC3, 0xA9]) 5 ''...'' = ''A...''"
proof -
  have v: "is_valid_utf8 (map byte_char [0x41, 0xE2, 0x82, 0xAC, 0xC3, 0xA9])" by code_simp
  have d: "ascii_text ''...''" by code_simp
  have "truncate_utf8_prefix (map byte_char [0x41, 0xE2, 0x82, 0xAC, 0xC3, 0xA9]) 5 ''...'' = ''A...''" by code_simp
  moreover have "is_valid_utf8 (truncate_utf8_prefix (map byte_char [0x41, 0xE2, 0x82, 0xAC, 0xC3, 0xA9]) 5 ''...'')"
    by (rule cut_text_stays_valid [OF v d, THEN conjunct1])
  ultimately show ?thesis by (intro conjI)
qed

text \<open>The strict test implies this one; the overlong form of NUL and a surrogate pass this one alone.\<close>

lemma strict_is_valid: "text_bytes_are_valid_utf8 s \<Longrightarrow> is_valid_utf8 s"
proof (induction s rule: text_bytes_are_valid_utf8.induct)
  case (1 s)
  show ?case
  proof (cases s)
    case (Cons c cs)
    from 1(2) obtain cp rest where n: "next_utf8 s = Some (cp, rest)" "text_bytes_are_valid_utf8 rest"
      by (subst (asm) text_bytes_are_valid_utf8.simps) (auto simp: Cons simp del: next_utf8.simps split: option.splits)
    note v = 1(1) [OF _ n(1) refl n(2)]
    show ?thesis
    proof (cases "byte c \<le> (0x7F :: nat)")
      case True
      with n(1) v show ?thesis by (simp add: Cons utf8_seq_len_def)
    next
      case False
      with n(1) obtain len v0 m w where h: "utf8_head (byte c) = Some (len, v0, m)" "len \<le> length s"
        "utf8_tail v0 (take (len - 1) cs) = Some w" "rest = drop (len - 1) cs"
        by (auto simp: Cons split: option.splits if_splits)
      have "list_all is_continuation (take (len - 1) cs)"
        using utf8_tail_Some [OF h(3)] by (auto simp: list_all_iff continuation_range)
      moreover have "utf8_seq_len c = len" "len \<noteq> 0"
        using h(1) by (cases c rule: seq_len_cases; cases rule: utf8_head_cases [OF byte_less_256 h(1)]; simp)+
      ultimately show ?thesis using v h(2,4) by (simp add: Cons Let_def)
    qed
  qed simp
qed

lemma strict_refuses: "next_utf8 s = None \<Longrightarrow> s \<noteq> [] \<Longrightarrow> \<not> text_bytes_are_valid_utf8 s"
  by (subst text_bytes_are_valid_utf8.simps) simp

lemma overlong_passes_test:
  "is_valid_utf8 (map byte_char [0xC0, 0x80]) \<and> \<not> text_bytes_are_valid_utf8 (map byte_char [0xC0, 0x80])"
proof
  show "is_valid_utf8 (map byte_char [0xC0, 0x80])" by code_simp
  have "next_utf8 (map byte_char [0xC0, 0x80]) = None" by code_simp
  then show "\<not> text_bytes_are_valid_utf8 (map byte_char [0xC0, 0x80])" by (rule strict_refuses) simp
qed

lemma surrogate_passes_test:
  "is_valid_utf8 (map byte_char [0xED, 0xA0, 0x80]) \<and> \<not> text_bytes_are_valid_utf8 (map byte_char [0xED, 0xA0, 0x80])"
proof
  show "is_valid_utf8 (map byte_char [0xED, 0xA0, 0x80])" by code_simp
  have "next_utf8 (map byte_char [0xED, 0xA0, 0x80]) = None" by (simp add: utf8_head_def is_surrogate_def)
  then show "\<not> text_bytes_are_valid_utf8 (map byte_char [0xED, 0xA0, 0x80])" by (rule strict_refuses) simp
qed

text \<open>After a stray byte the character at the end of the same piece is not held back.\<close>

lemma split_after_stray_byte:
  "decode_pieces [map byte_char [0x80, 0xE2], map byte_char [0x82, 0xAC]] = ''????''"
  "decode_pieces [map byte_char [0x80], map byte_char [0xE2], map byte_char [0x82, 0xAC]] = CHR ''?'' # map byte_char [0xE2, 0x82, 0xAC]"
  by code_simp+

end
