(* ===== verification/ToolResults.thy ===== *)
theory ToolResults
  imports Encoding TurnLoop
begin

text \<open>
  \<open>session/tool_result_storage.cpp\<close>: a tool result that is too long for the model is saved to a file of
  the session and replaced by a message with the path and the beginning of it; what was decided
  for a call is recorded, so that a resumed session shows the model the same rows.  Files are a map
  from paths (of the POSIX build) to bytes; directories are not modelled, and whether they can be made and the file
  written is an argument.  The last part is the end of the tool phase: the rows that are recorded for a batch of
  calls, after the replacements, with the prompts some results add behind their row.
\<close>

section \<open>Names and messages\<close>

definition persisted_output_tag :: string where
  "persisted_output_tag = ''<persisted-output>''"

definition persisted_output_closing_tag :: string where
  "persisted_output_closing_tag = ''</persisted-output>''"

definition safe_id_char :: "char \<Rightarrow> bool" where
  "safe_id_char ch \<longleftrightarrow>
     (byte (CHR ''a'') \<le> (byte ch :: nat) \<and> byte ch \<le> (byte (CHR ''z'') :: nat)) \<or>
     (byte (CHR ''A'') \<le> (byte ch :: nat) \<and> byte ch \<le> (byte (CHR ''Z'') :: nat)) \<or>
     (byte (CHR ''0'') \<le> (byte ch :: nat) \<and> byte ch \<le> (byte (CHR ''9'') :: nat)) \<or>
     ch = CHR ''_'' \<or> ch = CHR ''-'' \<or> ch = CHR ''.''"

definition sanitize_tool_call_id :: "string \<Rightarrow> string" where
  "sanitize_tool_call_id i =
     (if i = [] then ''tool_result'' else map (\<lambda>ch. if safe_id_char ch then ch else CHR ''_'') i)"

text \<open>\<open>fs::path::operator/\<close> for a relative second part.\<close>

definition path_append :: "string \<Rightarrow> string \<Rightarrow> string" where
  "path_append dir name = dir @ (if dir = [] \<or> last dir = CHR ''/'' then [] else ''/'') @ name"

definition tool_result_path :: "string \<Rightarrow> string \<Rightarrow> string" where
  "tool_result_path dir i = path_append dir (sanitize_tool_call_id i @ ''.txt'')"

definition tool_results_dir_for_session :: "string \<Rightarrow> string \<Rightarrow> string" where
  "tool_results_dir_for_session project_dir session_id =
     (if project_dir = [] \<or> session_id = [] then [] else path_append (path_append project_dir session_id) ''tool-results'')"

definition generate_preview :: "string \<Rightarrow> nat \<Rightarrow> string \<times> bool" where
  "generate_preview text_bytes preview_bytes =
     (if \<not> length text_bytes > preview_bytes then (text_bytes, False)
      else (truncate_utf8_prefix text_bytes preview_bytes [], True))"

definition estimate_after_persist :: "nat \<Rightarrow> nat" where
  "estimate_after_persist preview_bytes = preview_bytes + 1024"

text \<open>\<open>%.1f\<close> of \<open>n / d\<close> for a power of two \<open>d\<close>: the quotient is exact (below 2 to the 53), the decimal is rounded to
  nearest, ties to even.\<close>

definition one_decimal :: "nat \<Rightarrow> nat \<Rightarrow> string" where
  "one_decimal n d =
     (let q = 10 * n div d; r = 10 * n mod d;
          t = (if 2 * r > d \<or> 2 * r = d \<and> odd q then q + 1 else q)
      in show_nat (t div 10) @ ''.'' @ show_nat (t mod 10))"

definition format_bytes_compact :: "nat \<Rightarrow> string" where
  "format_bytes_compact n =
     (if n < 1024 then show_nat n @ ''B''
      else if n < 1024 * 1024 then one_decimal n 1024 @ ''KB''
      else one_decimal n (1024 * 1024) @ ''MB'')"

definition is_persisted_output_message :: "string \<Rightarrow> bool" where
  "is_persisted_output_message s \<longleftrightarrow> prefix persisted_output_tag s"

definition saved_marker :: string where
  "saved_marker = ''Full output saved to: ''"

definition persisted_output_filepath :: "string \<Rightarrow> string" where
  "persisted_output_filepath s =
     (if \<not> is_persisted_output_message s then []
      else case str_find saved_marker s of
        None \<Rightarrow> []
      | Some start \<Rightarrow>
          rstrip (\<lambda>c. c = CHR 0x0D \<or> c = CHR '' '' \<or> c = CHR 0x09)
            (takeWhile (\<lambda>c. c \<noteq> CHR 0x0A) (drop (start + length saved_marker) s)))"

section \<open>Saving one result\<close>

record persisted =
  ps_filepath :: string
  ps_original_size :: nat
  ps_preview :: string
  ps_has_more :: bool

datatype save_outcome = Saved | NoDirectory | NotOpened | ShortSave nat

type_synonym files = "string \<Rightarrow> string option"

definition persist_tool_result ::
  "(string \<Rightarrow> save_outcome) \<Rightarrow> string \<Rightarrow> string \<Rightarrow> string \<Rightarrow> nat \<Rightarrow> files \<Rightarrow> persisted \<times> files" where
  "persist_tool_result io output i dir preview_bytes fs =
     (if dir = [] then (\<lparr>ps_filepath = [], ps_original_size = 0, ps_preview = [], ps_has_more = False\<rparr>, fs)
      else
        let safe = ensure_utf8 output;
            path = tool_result_path dir i;
            p = \<lparr>ps_filepath = path, ps_original_size = length safe, ps_preview = fst (generate_preview safe preview_bytes),
              ps_has_more = snd (generate_preview safe preview_bytes)\<rparr>
        in if io path = NoDirectory then (p\<lparr>ps_filepath := []\<rparr>, fs)
           else if fs path \<noteq> None then (p, fs)
           else case io path of
             NotOpened \<Rightarrow> (p\<lparr>ps_filepath := []\<rparr>, fs)
           | ShortSave k \<Rightarrow> (p\<lparr>ps_filepath := []\<rparr>, fs(path \<mapsto> take k safe))
           | _ \<Rightarrow> (p, fs(path \<mapsto> safe)))"

definition build_large_tool_result_message :: "persisted \<Rightarrow> nat \<Rightarrow> string" where
  "build_large_tool_result_message p preview_bytes =
     persisted_output_tag @ [CHR 0x0A] @
     ''Output too large ('' @ format_bytes_compact (ps_original_size p) @ ''). Full output saved to: '' @ ps_filepath p @
       [CHR 0x0A, CHR 0x0A] @
     ''Preview (first '' @ format_bytes_compact preview_bytes @ ''):'' @ [CHR 0x0A] @
     ps_preview p @ (if ps_has_more p then [CHR 0x0A] @ ''...'' @ [CHR 0x0A] else [CHR 0x0A]) @
     persisted_output_closing_tag"

section \<open>The budget of a batch\<close>

record replacement_state =
  rs_seen :: "string set"
  rs_replacements :: "string \<Rightarrow> string option"

definition no_replacements :: replacement_state where
  "no_replacements = \<lparr>rs_seen = {}, rs_replacements = Map.empty\<rparr>"

record replacement_record =
  rr_id :: string
  rr_replacement :: string

record budget_options =
  bo_default_threshold :: nat
  bo_tool_threshold :: "string \<Rightarrow> nat option"
  bo_batch_budget :: nat
  bo_preview :: nat

definition default_budget_options :: budget_options where
  "default_budget_options = \<lparr>bo_default_threshold = 50000, bo_tool_threshold = [''bash'' \<mapsto> 30000],
     bo_batch_budget = 200000, bo_preview = 2000\<rparr>"

record candidate =
  cd_index :: nat
  cd_id :: string
  cd_tool :: string
  cd_size :: nat

definition threshold_for_tool :: "budget_options \<Rightarrow> string \<Rightarrow> nat" where
  "threshold_for_tool opts tool =
     (case bo_tool_threshold opts tool of Some n \<Rightarrow> n | None \<Rightarrow> bo_default_threshold opts)"

text \<open>The locals of \<open>enforce_tool_result_budget\<close>.\<close>

record budget_run =
  br_results :: "tool_result list"
  br_state :: replacement_state
  br_files :: files
  br_fresh :: "candidate list"
  br_frozen :: nat
  br_visible :: nat
  br_records :: "replacement_record list"
  br_replaced_size :: nat

definition set_output :: "nat \<Rightarrow> string \<Rightarrow> tool_result list \<Rightarrow> tool_result list" where
  "set_output i s rs = rs[i := (rs ! i)\<lparr>res_output := s\<rparr>]"

definition count_frozen :: "nat \<Rightarrow> budget_run \<Rightarrow> budget_run" where
  "count_frozen n b = b\<lparr>br_frozen := br_frozen b + n, br_visible := br_visible b + n\<rparr>"

definition see_id :: "string \<Rightarrow> budget_run \<Rightarrow> budget_run" where
  "see_id i b = b\<lparr>br_state := (br_state b)\<lparr>rs_seen := insert i (rs_seen (br_state b))\<rparr>\<rparr>"

definition keep_replacement :: "string \<Rightarrow> string \<Rightarrow> budget_run \<Rightarrow> budget_run" where
  "keep_replacement i s b =
     b\<lparr>br_state := (br_state b)\<lparr>rs_replacements := (rs_replacements (br_state b))(i \<mapsto> s)\<rparr>\<rparr>"

text \<open>The first loop, for the call at an index.\<close>

definition sort_out :: "bool list \<Rightarrow> nat \<times> tool_call \<Rightarrow> budget_run \<Rightarrow> budget_run" where
  "sort_out ready = (\<lambda>(i, tc) b.
     if i \<ge> length ready \<or> \<not> ready ! i then b
     else if call_id tc = [] then b
     else let output = res_output (br_results b ! i)
       in case rs_replacements (br_state b) (call_id tc) of
            Some r \<Rightarrow> count_frozen (length r) (b\<lparr>br_results := set_output i r (br_results b)\<rparr>)
          | None \<Rightarrow>
              if is_persisted_output_message output
              then count_frozen (length output) (keep_replacement (call_id tc) output (see_id (call_id tc) b))
              else if call_id tc \<in> rs_seen (br_state b) then count_frozen (length output) b
              else b\<lparr>br_fresh := br_fresh b @ [\<lparr>cd_index = i, cd_id = call_id tc, cd_tool = function_name tc,
                       cd_size = length output\<rparr>],
                     br_visible := br_visible b + length output\<rparr>)"

text \<open>Saving a candidate's output: the part both later loops share.\<close>

definition replace_candidate ::
  "(string \<Rightarrow> save_outcome) \<Rightarrow> string \<Rightarrow> budget_options \<Rightarrow> candidate \<Rightarrow> budget_run \<Rightarrow> string option \<times> budget_run" where
  "replace_candidate io dir opts c b =
     (case persist_tool_result io (res_output (br_results b ! cd_index c)) (cd_id c) dir (bo_preview opts) (br_files b) of
        (p, fs) \<Rightarrow>
          let b1 = (see_id (cd_id c) b)\<lparr>br_files := fs\<rparr>
          in if ps_filepath p = [] then (None, b1)
             else let r = build_large_tool_result_message p (bo_preview opts)
               in (Some r, (keep_replacement (cd_id c) r b1)\<lparr>br_results := set_output (cd_index c) r (br_results b1),
                    br_records := br_records b1 @ [\<lparr>rr_id = cd_id c, rr_replacement = r\<rparr>],
                    br_replaced_size := br_replaced_size b1 + cd_size c\<rparr>))"

text \<open>The second loop: what is too long by itself; the other candidates are collected.\<close>

definition replace_oversized ::
  "(string \<Rightarrow> save_outcome) \<Rightarrow> string \<Rightarrow> budget_options \<Rightarrow> candidate \<Rightarrow> candidate list \<times> budget_run \<Rightarrow>
     candidate list \<times> budget_run" where
  "replace_oversized io dir opts c = (\<lambda>(rest, b).
     if cd_size c \<le> threshold_for_tool opts (cd_tool c) then (rest @ [c], b)
     else case replace_candidate io dir opts c b of
       (None, b1) \<Rightarrow> (rest, b1\<lparr>br_frozen := br_frozen b1 + cd_size c\<rparr>)
     | (Some r, b1) \<Rightarrow>
         (rest, b1\<lparr>br_visible := br_visible b1 - cd_size c + length r, br_frozen := br_frozen b1 + length r\<rparr>))"

text \<open>Which of the sorted rest are replaced: while the remaining size exceeds the budget.\<close>

fun select_ids :: "budget_options \<Rightarrow> nat \<Rightarrow> candidate list \<Rightarrow> string list" where
  "select_ids opts remaining [] = []"
| "select_ids opts remaining (c # cs) =
     (if remaining \<le> bo_batch_budget opts then []
      else cd_id c # select_ids opts
        (if cd_size c > estimate_after_persist (bo_preview opts)
         then remaining - cd_size c + estimate_after_persist (bo_preview opts) else remaining) cs)"

definition replace_selected ::
  "(string \<Rightarrow> save_outcome) \<Rightarrow> string \<Rightarrow> budget_options \<Rightarrow> string list \<Rightarrow> candidate \<Rightarrow> budget_run \<Rightarrow> budget_run" where
  "replace_selected io dir opts selected c b =
     (if cd_id c \<notin> set selected then see_id (cd_id c) b else snd (replace_candidate io dir opts c b))"

definition start_budget :: "tool_result list \<Rightarrow> replacement_state \<Rightarrow> files \<Rightarrow> budget_run" where
  "start_budget results st fs = \<lparr>br_results = results, br_state = st, br_files = fs, br_fresh = [], br_frozen = 0,
     br_visible = 0, br_records = [], br_replaced_size = 0\<rparr>"

text \<open>\<open>std::sort\<close> by descending size leaves the order of equal sizes open and is the argument \<open>order\<close>.\<close>

definition enforce_tool_result_budget ::
  "(string \<Rightarrow> save_outcome) \<Rightarrow> (candidate list \<Rightarrow> candidate list) \<Rightarrow> budget_options \<Rightarrow> tool_call list \<Rightarrow>
     tool_result list \<Rightarrow> bool list \<Rightarrow> string \<Rightarrow> replacement_state \<Rightarrow> files \<Rightarrow> budget_run" where
  "enforce_tool_result_budget io order opts calls results ready dir st fs =
     (if dir = [] \<or> calls = [] then start_budget results st fs
      else
        let n = min (length calls) (length results);
            b1 = fold (sort_out ready) (enumerate 0 (take n calls)) (start_budget results st fs)
        in case fold (replace_oversized io dir opts) (br_fresh b1) ([], b1) of
             (rest, b2) \<Rightarrow>
               if br_visible b2 \<le> bo_batch_budget opts then fold (\<lambda>c. see_id (cd_id c)) rest b2
               else let sorted_rest = order rest;
                        selected = select_ids opts (br_frozen b2 + sum_list (map cd_size sorted_rest)) sorted_rest
                 in fold (replace_selected io dir opts selected) sorted_rest b2)"

section \<open>The record in the history\<close>

definition replacement_json :: "replacement_record \<Rightarrow> json" where
  "replacement_json r = JObj [(''kind'', JStr ''tool-result''), (''replacement'', JStr (rr_replacement r)),
     (''tool_call_id'', JStr (rr_id r))]"

definition encode_content_replacement_message :: "replacement_record list \<Rightarrow> chat_message" where
  "encode_content_replacement_message records =
     empty_message\<lparr>role := ''system'', content := ''[Content replacement records]'', is_meta := True,
       subtype := ''content_replacement'', metadata := JObj [(''replacements'', JArr (map replacement_json records))]\<rparr>"

definition is_content_replacement_message :: "chat_message \<Rightarrow> bool" where
  "is_content_replacement_message msg \<longleftrightarrow> is_meta msg \<and> subtype msg = ''content_replacement''"

text \<open>One item: \<open>value\<close> throws for a member that is no string, every other defect skips the item.\<close>

definition decode_replacement :: "json \<Rightarrow> unit + replacement_record option" where
  "decode_replacement item =
     (if \<not> is_object item then Inr None
      else case field item ''kind'' of
        None \<Rightarrow> Inr None
      | Some (JStr k) \<Rightarrow>
          if k \<noteq> ''tool-result'' then Inr None
          else let i = (case string_field item ''tool_call_id'' of Some s \<Rightarrow> s
                 | None \<Rightarrow> (case string_field item ''toolUseId'' of Some s \<Rightarrow> s | None \<Rightarrow> []))
            in if i = [] then Inr None
               else (case string_field item ''replacement'' of
                 None \<Rightarrow> Inr None | Some r \<Rightarrow> Inr (Some \<lparr>rr_id = i, rr_replacement = r\<rparr>))
      | Some _ \<Rightarrow> Inl ())"

fun decode_replacements :: "json list \<Rightarrow> unit + replacement_record list" where
  "decode_replacements [] = Inr []"
| "decode_replacements (item # items) =
     (case decode_replacement item of
        Inl e \<Rightarrow> Inl e
      | Inr r \<Rightarrow>
          (case decode_replacements items of
             Inl e \<Rightarrow> Inl e
           | Inr rs \<Rightarrow> Inr (case r of None \<Rightarrow> rs | Some x \<Rightarrow> x # rs)))"

definition decode_content_replacement_message :: "chat_message \<Rightarrow> unit + replacement_record list" where
  "decode_content_replacement_message msg =
     (if \<not> is_content_replacement_message msg \<or> \<not> is_object (metadata msg) then Inr []
      else case field (metadata msg) ''replacements'' of
        Some (JArr items) \<Rightarrow> decode_replacements items
      | _ \<Rightarrow> Inr [])"

definition see_tool_row :: "chat_message \<Rightarrow> replacement_state \<Rightarrow> replacement_state" where
  "see_tool_row msg st =
     (if role msg = ''tool'' \<and> tool_call_id msg \<noteq> []
      then \<lparr>rs_seen = insert (tool_call_id msg) (rs_seen st),
        rs_replacements = (if is_persisted_output_message (content msg) \<and> rs_replacements st (tool_call_id msg) = None
          then (rs_replacements st)(tool_call_id msg \<mapsto> content msg) else rs_replacements st)\<rparr>
      else st)"

definition take_record :: "replacement_record \<Rightarrow> replacement_state \<Rightarrow> replacement_state" where
  "take_record r st =
     (if rr_id r \<in> rs_seen st then st\<lparr>rs_replacements := (rs_replacements st)(rr_id r \<mapsto> rr_replacement r)\<rparr> else st)"

definition take_records :: "chat_message \<Rightarrow> unit + replacement_state \<Rightarrow> unit + replacement_state" where
  "take_records msg acc =
     (case acc of
        Inl e \<Rightarrow> Inl e
      | Inr st \<Rightarrow>
          (case decode_content_replacement_message msg of Inl e \<Rightarrow> Inl e | Inr rs \<Rightarrow> Inr (fold take_record rs st)))"

definition reconstruct_replacement_state :: "chat_message list \<Rightarrow> unit + replacement_state" where
  "reconstruct_replacement_state messages = fold take_records messages (Inr (fold see_tool_row messages no_replacements))"

definition reapply_row :: "replacement_state \<Rightarrow> chat_message \<Rightarrow> chat_message \<times> bool" where
  "reapply_row st msg =
     (if role msg \<noteq> ''tool'' \<or> tool_call_id msg = [] then (msg, False)
      else case rs_replacements st (tool_call_id msg) of
        None \<Rightarrow> (msg, False)
      | Some r \<Rightarrow> if content msg = r then (msg, False) else (msg\<lparr>content := r\<rparr>, True))"

definition apply_tool_result_replacements :: "chat_message list \<Rightarrow> replacement_state \<Rightarrow> chat_message list \<times> nat" where
  "apply_tool_result_replacements messages st =
     (map (fst \<circ> reapply_row st) messages, length (filter (snd \<circ> reapply_row st) messages))"

section \<open>In the agent loop\<close>

text \<open>After the tools of an answer: the state is read off the history, the batch is brought under its
  budget, its rows are recorded and, if something was replaced, the record of it.\<close>

definition ready_results :: "tool_result list \<Rightarrow> bool list \<Rightarrow> nat \<Rightarrow> tool_result option" where
  "ready_results results ready i = (if i < length ready \<and> ready ! i then Some (results ! i) else None)"

text \<open>The user row a result may bring along; \<open>prompts\<close> is the text and the shown text of the result at an
  index, \<open>stamp\<close> the identity the row gets.\<close>

definition prompt_after ::
  "(nat \<Rightarrow> (string \<times> string) option) \<Rightarrow> (nat \<Rightarrow> string \<times> string) \<Rightarrow> bool list \<Rightarrow> nat \<times> tool_call \<Rightarrow> chat_message list" where
  "prompt_after prompts stamp ready e =
     (case prompts (fst e) of
        None \<Rightarrow> []
      | Some p \<Rightarrow>
          if fst e < length ready \<and> ready ! fst e \<and> fst p \<noteq> []
          then [prompt_row (fst (stamp (fst e))) (snd (stamp (fst e))) p (function_name (snd e))] else [])"

definition batch_rows ::
  "(tool_result \<Rightarrow> json \<times> json) \<Rightarrow> (nat \<Rightarrow> (string \<times> string) option) \<Rightarrow> (nat \<Rightarrow> string \<times> string) \<Rightarrow>
     bool list \<Rightarrow> tool_result list \<Rightarrow> (nat \<times> tool_call) list \<Rightarrow> chat_message list" where
  "batch_rows extras prompts stamp ready results es =
     concat (map (\<lambda>e. tool_row ensure_utf8 extras (ready_results results ready) e # prompt_after prompts stamp ready e) es)"

definition recorded_batch ::
  "(tool_result \<Rightarrow> json \<times> json) \<Rightarrow> (nat \<Rightarrow> (string \<times> string) option) \<Rightarrow> (nat \<Rightarrow> string \<times> string) \<Rightarrow>
     tool_call list \<Rightarrow> bool list \<Rightarrow> budget_run \<Rightarrow> chat_message list" where
  "recorded_batch extras prompts stamp calls ready b =
     batch_rows extras prompts stamp ready (br_results b) (enumerate 0 calls) @
     (if br_records b = [] then [] else [encode_content_replacement_message (br_records b)])"

definition record_tool_batch ::
  "(string \<Rightarrow> save_outcome) \<Rightarrow> (candidate list \<Rightarrow> candidate list) \<Rightarrow> (tool_result \<Rightarrow> json \<times> json) \<Rightarrow>
     (nat \<Rightarrow> (string \<times> string) option) \<Rightarrow> (nat \<Rightarrow> string \<times> string) \<Rightarrow> string \<Rightarrow>
     tool_call list \<Rightarrow> tool_result list \<Rightarrow> bool list \<Rightarrow> chat_message list \<Rightarrow> files \<Rightarrow>
     unit + (chat_message list \<times> files)" where
  "record_tool_batch io order extras prompts stamp dir calls results ready history fs =
     (if dir = [] then Inr (history @ recorded_batch extras prompts stamp calls ready (start_budget results no_replacements fs), fs)
      else case reconstruct_replacement_state history of
        Inl e \<Rightarrow> Inl e
      | Inr st \<Rightarrow>
          let b = enforce_tool_result_budget io order default_budget_options calls results ready dir st fs
          in Inr (history @ recorded_batch extras prompts stamp calls ready b, br_files b))"

text \<open>The vectors \<open>results\<close> and \<open>result_ready\<close> after the phases: a call that was not reached has the result it
  was constructed with and is not ready.\<close>

definition result_vector :: "nat \<Rightarrow> (nat \<Rightarrow> tool_result option) \<Rightarrow> tool_result list" where
  "result_vector n answers =
     map (\<lambda>i. case answers i of Some r \<Rightarrow> r | None \<Rightarrow> \<lparr>res_output = [], res_success = True, res_summary = None\<rparr>) [0..<n]"

definition ready_vector :: "nat \<Rightarrow> (nat \<Rightarrow> tool_result option) \<Rightarrow> bool list" where
  "ready_vector n answers = map (\<lambda>i. answers i \<noteq> None) [0..<n]"

text \<open>The calls of an answer are executed and recorded; the row of the answer is in the history by then.\<close>

definition run_and_record ::
  "(string \<Rightarrow> save_outcome) \<Rightarrow> (candidate list \<Rightarrow> candidate list) \<Rightarrow> (tool_result \<Rightarrow> json \<times> json) \<Rightarrow>
     (nat \<Rightarrow> (string \<times> string) option) \<Rightarrow> (nat \<Rightarrow> string \<times> string) \<Rightarrow> string \<Rightarrow>
     (nat \<Rightarrow> tool_result option) \<Rightarrow> tool_call list \<Rightarrow> chat_message list \<Rightarrow> files \<Rightarrow> unit + (chat_message list \<times> files)" where
  "run_and_record io order extras prompts stamp dir answers calls history fs =
     record_tool_batch io order extras prompts stamp dir calls (result_vector (length calls) answers)
       (ready_vector (length calls) answers) history fs"

section \<open>Steps of the later loops\<close>

text \<open>The message that takes the place of an output.\<close>

definition saved_message :: "string \<Rightarrow> nat \<Rightarrow> string \<Rightarrow> string \<Rightarrow> string" where
  "saved_message dir n i output = build_large_tool_result_message
     \<lparr>ps_filepath = tool_result_path dir i, ps_original_size = length (ensure_utf8 output),
       ps_preview = fst (generate_preview (ensure_utf8 output) n), ps_has_more = snd (generate_preview (ensure_utf8 output) n)\<rparr> n"

text \<open>A candidate is passed over, or its output is saved and replaced.\<close>

definition candidate_step :: "string \<Rightarrow> budget_options \<Rightarrow> candidate \<Rightarrow> budget_run \<Rightarrow> budget_run \<Rightarrow> bool" where
  "candidate_step dir opts c b b' \<longleftrightarrow>
     br_files b \<subseteq>\<^sub>m br_files b' \<and> (\<forall>p. p \<noteq> tool_result_path dir (cd_id c) \<longrightarrow> br_files b' p = br_files b p) \<and>
     (br_results b' = br_results b \<and> br_records b' = br_records b \<or>
      (let output = res_output (br_results b ! cd_index c); m = saved_message dir (bo_preview opts) (cd_id c) output
       in br_results b' = set_output (cd_index c) m (br_results b) \<and>
          br_records b' = br_records b @ [\<lparr>rr_id = cd_id c, rr_replacement = m\<rparr>] \<and>
          (br_files b (tool_result_path dir (cd_id c)) = None \<longrightarrow>
             br_files b' (tool_result_path dir (cd_id c)) = Some (ensure_utf8 output))))"

lemma see_id_simps [simp]:
  "br_results (see_id i b) = br_results b" "br_records (see_id i b) = br_records b" "br_files (see_id i b) = br_files b"
  "br_fresh (see_id i b) = br_fresh b" "rs_seen (br_state (see_id i b)) = insert i (rs_seen (br_state b))"
  "rs_replacements (br_state (see_id i b)) = rs_replacements (br_state b)"
  by (simp_all add: see_id_def)

lemma keep_replacement_simps [simp]:
  "br_results (keep_replacement i s b) = br_results b" "br_records (keep_replacement i s b) = br_records b"
  "br_files (keep_replacement i s b) = br_files b" "br_fresh (keep_replacement i s b) = br_fresh b"
  "rs_seen (br_state (keep_replacement i s b)) = rs_seen (br_state b)"
  "rs_replacements (br_state (keep_replacement i s b)) = (rs_replacements (br_state b))(i \<mapsto> s)"
  by (simp_all add: keep_replacement_def)

lemma count_frozen_simps [simp]:
  "br_results (count_frozen n b) = br_results b" "br_records (count_frozen n b) = br_records b"
  "br_files (count_frozen n b) = br_files b" "br_fresh (count_frozen n b) = br_fresh b"
  "br_state (count_frozen n b) = br_state b"
  by (simp_all add: count_frozen_def)

lemma path_not_empty: "tool_result_path dir i \<noteq> []"
  by (simp add: tool_result_path_def path_append_def)

lemma persist_cases:
  assumes "dir \<noteq> []" "persist_tool_result io output i dir n fs = (p, fs')"
  shows "fs \<subseteq>\<^sub>m fs' \<and> (\<forall>q. q \<noteq> tool_result_path dir i \<longrightarrow> fs' q = fs q) \<and>
    (ps_filepath p = [] \<and> io (tool_result_path dir i) \<noteq> Saved \<or>
     build_large_tool_result_message p n = saved_message dir n i output \<and> ps_filepath p \<noteq> [] \<and>
     (fs (tool_result_path dir i) = None \<longrightarrow> fs' (tool_result_path dir i) = Some (ensure_utf8 output)))"
proof -
  note p = assms(2) [unfolded persist_tool_result_def Let_def]
  show ?thesis using assms(1) p path_not_empty [of dir i]
    by (cases "io (tool_result_path dir i)"; cases "fs (tool_result_path dir i)")
      (auto simp: saved_message_def map_le_def)
qed

lemma replace_candidate_step:
  assumes "dir \<noteq> []" "replace_candidate io dir opts c b = (r, b')"
  shows "candidate_step dir opts c b b' \<and> (r = None \<longrightarrow> io (tool_result_path dir (cd_id c)) \<noteq> Saved) \<and>
    (\<forall>m. r = Some m \<longrightarrow> br_results b' = set_output (cd_index c) (saved_message dir (bo_preview opts) (cd_id c)
      (res_output (br_results b ! cd_index c))) (br_results b))"
proof -
  obtain p fs where ps: "persist_tool_result io (res_output (br_results b ! cd_index c)) (cd_id c) dir (bo_preview opts) (br_files b) = (p, fs)"
    by fastforce
  show ?thesis using persist_cases [OF assms(1) ps] assms(2)
    by (auto simp: replace_candidate_def ps Let_def candidate_step_def split: if_splits)
qed

lemma candidate_step_seen: "candidate_step dir opts c b (see_id (cd_id c) b)"
  by (simp add: candidate_step_def)

lemma candidate_step_counts:
  "candidate_step dir opts c b (b'\<lparr>br_frozen := f\<rparr>) \<longleftrightarrow> candidate_step dir opts c b b'"
  "candidate_step dir opts c b (b'\<lparr>br_visible := v\<rparr>) \<longleftrightarrow> candidate_step dir opts c b b'"
  by (simp_all add: candidate_step_def)

text \<open>What holds of a batch before a candidate is treated and after it.\<close>

locale batch_invariant =
  fixes dir :: string and opts :: budget_options and holds :: "budget_run \<Rightarrow> candidate list \<Rightarrow> bool"
  assumes any_order: "holds b xs \<Longrightarrow> mset xs = mset ys \<Longrightarrow> holds b ys"
    and one_step: "holds b (c # xs) \<Longrightarrow> candidate_step dir opts c b b' \<Longrightarrow> holds b' xs"
begin

lemma oversized_holds:
  "dir \<noteq> [] \<Longrightarrow> holds b (cs @ rest) \<Longrightarrow> fold (replace_oversized io dir opts) cs (rest, b) = (rest', b') \<Longrightarrow> holds b' rest'"
proof (induction cs arbitrary: rest b)
  case (Cons c cs)
  show ?case
  proof (cases "cd_size c \<le> threshold_for_tool opts (cd_tool c)")
    case True
    have "holds b (cs @ rest @ [c])" by (rule any_order [OF Cons.prems(2)]) simp
    with Cons True show ?thesis by (simp add: replace_oversized_def)
  next
    case False
    obtain r b1 where r: "replace_candidate io dir opts c b = (r, b1)" by fastforce
    have s: "candidate_step dir opts c b b1" using replace_candidate_step [OF Cons.prems(1) r] by blast
    have prems: "holds b (c # (cs @ rest))" using Cons.prems(2) by simp
    show ?thesis
    proof (cases r)
      case None
      have "holds (b1\<lparr>br_frozen := br_frozen b1 + cd_size c\<rparr>) (cs @ rest)"
        by (rule one_step [OF prems]) (simp add: candidate_step_counts s)
      with Cons False None r show ?thesis by (simp add: replace_oversized_def)
    next
      case (Some m)
      have "holds (b1\<lparr>br_visible := br_visible b1 - cd_size c + length m, br_frozen := br_frozen b1 + length m\<rparr>) (cs @ rest)"
        by (rule one_step [OF prems]) (simp add: candidate_step_counts s)
      with Cons False Some r show ?thesis by (simp add: replace_oversized_def)
    qed
  qed
qed simp

lemma selected_holds: "dir \<noteq> [] \<Longrightarrow> holds b cs \<Longrightarrow> holds (fold (replace_selected io dir opts selected) cs b) []"
proof (induction cs arbitrary: b)
  case (Cons c cs)
  have "candidate_step dir opts c b (replace_selected io dir opts selected c b)"
    using replace_candidate_step [OF Cons.prems(1), of io opts c b] candidate_step_seen
    by (cases "replace_candidate io dir opts c b") (simp add: replace_selected_def)
  from Cons.IH [OF Cons.prems(1) one_step [OF Cons.prems(2) this]] show ?case by simp
qed simp

lemma seen_holds: "holds b cs \<Longrightarrow> holds (fold (\<lambda>c. see_id (cd_id c)) cs b) []"
proof (induction cs arbitrary: b)
  case (Cons c cs)
  from Cons.IH [OF one_step [OF Cons.prems candidate_step_seen]] show ?case by simp
qed simp

lemma enforced_holds:
  assumes "holds b1 (br_fresh b1)" "b1 = fold (sort_out ready) (enumerate 0 (take (min (length calls) (length results)) calls))
      (start_budget results st fs)" "dir \<noteq> []" "calls \<noteq> []" "\<And>xs. mset (order xs) = mset xs"
  shows "holds (enforce_tool_result_budget io order opts calls results ready dir st fs) []"
proof -
  obtain rest b2 where r: "fold (replace_oversized io dir opts) (br_fresh b1) ([], b1) = (rest, b2)" by fastforce
  have h: "holds b2 rest" by (rule oversized_holds [OF assms(3) _ r]) (simp add: assms(1))
  have o: "holds b2 (order rest)" by (rule any_order [OF h]) (simp add: assms(5))
  show ?thesis using seen_holds [OF h] selected_holds [OF assms(3) o] assms(3,4) r
    unfolding assms(2) by (simp add: enforce_tool_result_budget_def Let_def)
qed

end

section \<open>The first loop\<close>

lemma set_output_simps [simp]:
  "length (set_output i s rs) = length rs" "i \<noteq> j \<Longrightarrow> set_output i s rs ! j = rs ! j"
  "i < length rs \<Longrightarrow> res_output (set_output i s rs ! i) = s"
  by (simp_all add: set_output_def)

text \<open>After \<open>k\<close> calls: those that are ready and new are candidates, with their outputs untouched.\<close>

definition ready_at :: "bool list \<Rightarrow> nat \<Rightarrow> bool" where
  "ready_at ready i \<longleftrightarrow> i < length ready \<and> ready ! i"

definition new_output :: "replacement_state \<Rightarrow> tool_call \<Rightarrow> tool_result \<Rightarrow> bool" where
  "new_output st tc r \<longleftrightarrow> call_id tc \<noteq> [] \<and> rs_replacements st (call_id tc) = None \<and> call_id tc \<notin> rs_seen st \<and>
     \<not> is_persisted_output_message (res_output r)"

definition call_ids_of :: "tool_call list \<Rightarrow> string list" where
  "call_ids_of calls = [i \<leftarrow> map call_id calls. i \<noteq> []]"

definition sorted_out ::
  "tool_call list \<Rightarrow> tool_result list \<Rightarrow> bool list \<Rightarrow> replacement_state \<Rightarrow> files \<Rightarrow> nat \<Rightarrow> budget_run \<Rightarrow> bool" where
  "sorted_out calls results ready st fs k b \<longleftrightarrow>
     br_files b = fs \<and> br_records b = [] \<and> length (br_results b) = length results \<and>
     (\<forall>i. k \<le> i \<longrightarrow> br_results b ! i = results ! i) \<and>
     (\<forall>i < k. br_results b ! i = results ! i \<or> rs_replacements st (call_id (calls ! i)) = Some (res_output (br_results b ! i))) \<and>
     (\<forall>c \<in> set (br_fresh b). cd_index c < k \<and> ready_at ready (cd_index c) \<and> cd_id c \<noteq> [] \<and>
       cd_id c = call_id (calls ! cd_index c) \<and> cd_tool c = function_name (calls ! cd_index c) \<and>
       cd_size c = length (res_output (results ! cd_index c)) \<and> br_results b ! cd_index c = results ! cd_index c) \<and>
     distinct (map cd_index (br_fresh b)) \<and>
     (\<forall>i. i \<notin> call_id ` set (take k calls) \<longrightarrow>
       rs_replacements (br_state b) i = rs_replacements st i \<and> (i \<in> rs_seen (br_state b) \<longleftrightarrow> i \<in> rs_seen st)) \<and>
     (\<forall>i < k. ready_at ready i \<and> new_output st (calls ! i) (results ! i) \<longrightarrow> (\<exists>c \<in> set (br_fresh b). cd_index c = i))"

lemma nth_new_image:
  assumes "distinct (map f (call_ids_of calls))" "k < length calls" "call_id (calls ! k) \<noteq> []"
  shows "f (call_id (calls ! k)) \<notin> f ` set (call_ids_of (take k calls))"
proof
  assume "f (call_id (calls ! k)) \<in> f ` set (call_ids_of (take k calls))"
  moreover have "call_ids_of calls = call_ids_of (take k calls) @ call_ids_of (drop k calls)"
    unfolding call_ids_of_def by (metis append_take_drop_id filter_append map_append)
  moreover have "call_id (calls ! k) \<in> set (call_ids_of (drop k calls))"
    using assms(2,3) by (simp add: call_ids_of_def flip: Cons_nth_drop_Suc)
  ultimately show False using assms(1) by (auto simp: disjoint_iff)
qed

lemma nth_new_id:
  assumes "distinct (call_ids_of calls)" "k < length calls" "call_id (calls ! k) \<noteq> []"
  shows "call_id (calls ! k) \<notin> call_id ` set (take k calls)"
  using nth_new_image [of id, OF _ assms(2,3)] assms(1,3) by (auto simp: call_ids_of_def)

lemma different_images:
  assumes "distinct (map f (call_ids_of calls))" "i < length calls" "j < length calls" "i \<noteq> j"
    "call_id (calls ! i) \<noteq> []" "call_id (calls ! j) \<noteq> []"
  shows "f (call_id (calls ! i)) \<noteq> f (call_id (calls ! j))"
proof -
  have "f (call_id (calls ! i)) \<noteq> f (call_id (calls ! j))"
    if "i < j" "j < length calls" "call_id (calls ! i) \<noteq> []" "call_id (calls ! j) \<noteq> []" for i j
  proof -
    have "calls ! i \<in> set (take j calls)" using that(1,2) by (auto simp: in_set_conv_nth intro!: exI [of _ i])
    with that(3) have "call_id (calls ! i) \<in> set (call_ids_of (take j calls))" by (simp add: call_ids_of_def)
    with nth_new_image [OF assms(1) that(2,4)] show ?thesis by (metis imageI)
  qed
  with assms(2-6) show ?thesis by (metis nat_neq_iff)
qed

lemma sort_out_step:
  assumes "sorted_out calls results ready st fs k b" "distinct (call_ids_of calls)" "k < length calls" "k < length results"
  shows "sorted_out calls results ready st fs (Suc k) (sort_out ready (k, calls ! k) b)"
proof -
  let ?i = "call_id (calls ! k)"
  have new: "?i \<noteq> [] \<Longrightarrow> rs_replacements (br_state b) ?i = rs_replacements st ?i \<and> (?i \<in> rs_seen (br_state b) \<longleftrightarrow> ?i \<in> rs_seen st)"
    using assms(1) nth_new_id [OF assms(2,3)] unfolding sorted_out_def by blast
  have k: "br_results b ! k = results ! k" "length (br_results b) = length results" "k < length (br_results b)"
    using assms(1,4) by (auto simp: sorted_out_def)
  have out: "br_results b' ! j = results ! j \<or> rs_replacements st (call_id (calls ! j)) = Some (res_output (br_results b' ! j))"
    if "br_results b' = br_results b" "j < Suc k" for b' :: budget_run and j
    using assms(1) that by (auto simp: sorted_out_def less_Suc_eq)
  have ids: "call_id ` set (take (Suc k) calls) = insert ?i (call_id ` set (take k calls))"
    using assms(3) by (simp add: take_Suc_conv_app_nth)
  note inv = assms(1) [unfolded sorted_out_def]
  consider "\<not> ready_at ready k" | "ready_at ready k" "?i = []"
    | r where "ready_at ready k" "?i \<noteq> []" "rs_replacements (br_state b) ?i = Some r"
    | "ready_at ready k" "?i \<noteq> []" "rs_replacements (br_state b) ?i = None" "is_persisted_output_message (res_output (results ! k))"
    | "ready_at ready k" "?i \<noteq> []" "rs_replacements (br_state b) ?i = None" "\<not> is_persisted_output_message (res_output (results ! k))"
        "?i \<in> rs_seen (br_state b)"
    | "ready_at ready k" "?i \<noteq> []" "rs_replacements (br_state b) ?i = None" "\<not> is_persisted_output_message (res_output (results ! k))"
        "?i \<notin> rs_seen (br_state b)"
    by blast
  then show ?thesis
  proof cases
    case 1
    then have "sort_out ready (k, calls ! k) b = b" by (auto simp: sort_out_def ready_at_def)
    with inv 1 show ?thesis by (auto simp: sorted_out_def ids less_Suc_eq)
  next
    case 2
    then have "sort_out ready (k, calls ! k) b = b" by (auto simp: sort_out_def ready_at_def)
    with inv 2 show ?thesis by (auto simp: sorted_out_def ids less_Suc_eq new_output_def)
  next
    case 3
    then have s: "sort_out ready (k, calls ! k) b = count_frozen (length r) (b\<lparr>br_results := set_output k r (br_results b)\<rparr>)"
      by (simp add: sort_out_def ready_at_def)
    show ?thesis unfolding s sorted_out_def using inv 3 new k
      by (auto simp: ids less_Suc_eq new_output_def)
  next
    case 4
    then have "sort_out ready (k, calls ! k) b =
        count_frozen (length (res_output (results ! k))) (keep_replacement ?i (res_output (results ! k)) (see_id ?i b))"
      by (simp add: sort_out_def ready_at_def k Let_def)
    with inv 4 new k show ?thesis by (auto simp: sorted_out_def ids less_Suc_eq new_output_def)
  next
    case 5
    then have "sort_out ready (k, calls ! k) b = count_frozen (length (res_output (results ! k))) b"
      by (simp add: sort_out_def ready_at_def k)
    with inv 5 new k show ?thesis by (auto simp: sorted_out_def ids less_Suc_eq new_output_def)
  next
    case 6
    then have s: "sort_out ready (k, calls ! k) b = b\<lparr>br_fresh := br_fresh b @ [\<lparr>cd_index = k, cd_id = ?i,
        cd_tool = function_name (calls ! k), cd_size = length (res_output (results ! k))\<rparr>],
        br_visible := br_visible b + length (res_output (results ! k))\<rparr>"
      by (simp add: sort_out_def ready_at_def k Let_def)
    show ?thesis unfolding s sorted_out_def using inv 6 new k
      by (auto simp: ids less_Suc_eq new_output_def)
  qed
qed

lemma sort_out_all:
  assumes "distinct (call_ids_of calls)" "k \<le> length calls" "k \<le> length results"
  shows "sorted_out calls results ready st fs k (fold (sort_out ready) (enumerate 0 (take k calls)) (start_budget results st fs))"
  using assms(2,3)
proof (induction k)
  case 0
  then show ?case by (simp add: sorted_out_def start_budget_def)
next
  case (Suc k)
  then have "enumerate 0 (take (Suc k) calls) = enumerate 0 (take k calls) @ [(k, calls ! k)]"
    by (simp add: take_Suc_conv_app_nth enumerate_append_eq)
  with Suc sort_out_step [OF _ assms(1), of results ready st fs k] show ?case by simp
qed

section \<open>Saved outputs\<close>

lemma str_find_skip:
  assumes "needle \<noteq> []" "hd needle \<notin> set pre"
  shows "str_find needle (pre @ hay) = map_option (\<lambda>k. length pre + k) (str_find needle hay)"
  using assms(2)
proof (induction pre)
  case (Cons x pre)
  have "\<not> prefix needle (x # pre @ hay)" using assms(1) Cons.prems by (cases needle) auto
  with Cons show ?case by (simp add: option.map_comp o_def)
next
  case Nil
  show ?case by (cases "str_find needle hay") simp_all
qed

lemma str_find_here: "str_find needle (needle @ rest) = Some 0"
proof (cases "needle @ rest")
  case (Cons x xs)
  have "prefix needle (needle @ rest)" by simp
  then show ?thesis unfolding Cons by simp
qed simp

lemma sanitized_safe: "c \<in> set (sanitize_tool_call_id i) \<Longrightarrow> safe_id_char c"
proof -
  have "safe_id_char (CHR ''_'')" by code_simp
  moreover have "\<forall>c \<in> set ''tool_result''. safe_id_char c" by code_simp
  ultimately show "c \<in> set (sanitize_tool_call_id i) \<Longrightarrow> safe_id_char c" by (auto simp: sanitize_tool_call_id_def split: if_splits)
qed

lemma no_line_feed_in_path: "CHR 0x0A \<notin> set dir \<Longrightarrow> CHR 0x0A \<notin> set (tool_result_path dir i)"
proof -
  have "\<not> safe_id_char (CHR 0x0A)" by code_simp
  then show "CHR 0x0A \<notin> set dir \<Longrightarrow> CHR 0x0A \<notin> set (tool_result_path dir i)"
    using sanitized_safe [of "CHR 0x0A" i] by (auto simp: tool_result_path_def path_append_def)
qed

lemma path_end: "\<exists>p. tool_result_path dir i = p @ ''t''"
proof
  show "tool_result_path dir i = (dir @ (if dir = [] \<or> last dir = CHR ''/'' then [] else ''/'') @ sanitize_tool_call_id i @ ''.tx'') @ ''t''"
    by (simp add: tool_result_path_def path_append_def)
qed

lemma one_decimal_chars: "c \<in> set (one_decimal n d) \<Longrightarrow> c = CHR ''.'' \<or> (\<exists>m. c \<in> set (show_nat m))"
  by (auto simp: one_decimal_def Let_def split: if_splits)

lemma size_chars: "c \<in> set (format_bytes_compact n) \<Longrightarrow> c \<in> set ''.KMB'' \<or> (\<exists>m. c \<in> set (show_nat m))"
  by (auto simp: format_bytes_compact_def dest: one_decimal_chars split: if_splits)

lemma saved_message_persisted: "is_persisted_output_message (saved_message dir n i output)"
  by (simp add: is_persisted_output_message_def saved_message_def build_large_tool_result_message_def)

definition message_head :: "nat \<Rightarrow> string" where
  "message_head n = persisted_output_tag @ [CHR 0x0A] @ ''Output too large ('' @ format_bytes_compact n @ ''). ''"

definition message_rest :: "nat \<Rightarrow> string \<Rightarrow> string" where
  "message_rest n safe = ''Preview (first '' @ format_bytes_compact n @ ''):'' @ [CHR 0x0A] @ fst (generate_preview safe n) @
     (if snd (generate_preview safe n) then [CHR 0x0A] @ ''...'' @ [CHR 0x0A] else [CHR 0x0A]) @ persisted_output_closing_tag"

lemma saved_message_parts:
  "saved_message dir n i output = message_head (length (ensure_utf8 output)) @ saved_marker @ tool_result_path dir i @
     CHR 0x0A # CHR 0x0A # message_rest n (ensure_utf8 output)"
  by (simp add: saved_message_def build_large_tool_result_message_def message_head_def message_rest_def saved_marker_def)

lemma digit_not_F: "CHR ''F'' \<notin> set (show_nat m)"
  using show_nat_digits [of m] by (auto simp: list_all_iff is_digit_def)

lemma message_head_no_F: "CHR ''F'' \<notin> set (message_head n)"
  using digit_not_F by (auto simp: message_head_def persisted_output_tag_def dest: size_chars)

lemma saved_message_path:
  assumes "CHR 0x0A \<notin> set dir"
  shows "persisted_output_filepath (saved_message dir n i output) = tool_result_path dir i"
proof -
  let ?s = "saved_message dir n i output" and ?h = "message_head (length (ensure_utf8 output))"
  have "str_find saved_marker ?s = map_option (\<lambda>k. length ?h + k)
      (str_find saved_marker (saved_marker @ tool_result_path dir i @ CHR 0x0A # CHR 0x0A # message_rest n (ensure_utf8 output)))"
    unfolding saved_message_parts by (rule str_find_skip) (simp_all add: saved_marker_def message_head_no_F)
  also have "\<dots> = Some (length ?h)" by (simp only: str_find_here) simp
  finally have f: "str_find saved_marker ?s = Some (length ?h)" .
  have d: "drop (length ?h + length saved_marker) ?s = tool_result_path dir i @ CHR 0x0A # CHR 0x0A # message_rest n (ensure_utf8 output)"
    by (simp add: saved_message_parts)
  have t: "takeWhile (\<lambda>c. c \<noteq> CHR 0x0A) (tool_result_path dir i @ CHR 0x0A # CHR 0x0A # message_rest n (ensure_utf8 output)) = tool_result_path dir i"
    using no_line_feed_in_path [OF assms, of i] by (subst takeWhile_append2) auto
  have r: "rstrip (\<lambda>c. c = CHR 0x0D \<or> c = CHR '' '' \<or> c = CHR 0x09) (tool_result_path dir i) = tool_result_path dir i"
    using path_end [of dir i] by (auto intro!: rstrip_id)
  show ?thesis by (simp add: persisted_output_filepath_def saved_message_persisted f d t r)
qed

text \<open>No output is lost: it is still there, or known to be replaced from before, or in the file its message names.\<close>

definition output_kept ::
  "tool_call list \<Rightarrow> tool_result list \<Rightarrow> replacement_state \<Rightarrow> budget_run \<Rightarrow> nat \<Rightarrow> bool" where
  "output_kept calls results st b i \<longleftrightarrow>
     (let out = res_output (br_results b ! i)
      in out = res_output (results ! i) \<or> rs_replacements st (call_id (calls ! i)) = Some out \<or>
         is_persisted_output_message out \<and>
         br_files b (persisted_output_filepath out) = Some (ensure_utf8 (res_output (results ! i))))"

definition keeps_outputs ::
  "string \<Rightarrow> tool_call list \<Rightarrow> tool_result list \<Rightarrow> replacement_state \<Rightarrow> files \<Rightarrow> budget_run \<Rightarrow> candidate list \<Rightarrow> bool" where
  "keeps_outputs dir calls results st fs b xs \<longleftrightarrow>
     CHR 0x0A \<notin> set dir \<longrightarrow>
     (length (br_results b) = length results \<and> fs \<subseteq>\<^sub>m br_files b \<and>
      distinct (map cd_index xs) \<and> distinct (map (\<lambda>c. tool_result_path dir (cd_id c)) xs) \<and>
      (\<forall>c \<in> set xs. cd_index c < length results \<and> br_results b ! cd_index c = results ! cd_index c \<and>
        br_files b (tool_result_path dir (cd_id c)) = None) \<and>
      (\<forall>i < length results. output_kept calls results st b i))"

lemma output_kept_mono:
  "output_kept calls results st b i \<Longrightarrow> br_results b' ! i = br_results b ! i \<Longrightarrow> br_files b \<subseteq>\<^sub>m br_files b' \<Longrightarrow>
     output_kept calls results st b' i"
  by (auto simp: output_kept_def Let_def map_le_def dom_def)

lemma keeps_outputs_step:
  assumes "keeps_outputs dir calls results st fs b (c # xs)" "candidate_step dir opts c b b'"
  shows "keeps_outputs dir calls results st fs b' xs"
  unfolding keeps_outputs_def
proof (intro impI)
  assume d: "CHR 0x0A \<notin> set dir"
  let ?p = "tool_result_path dir (cd_id c)" and ?out = "res_output (results ! cd_index c)"
  note b = assms(1) [unfolded keeps_outputs_def, rule_format, OF d]
  have le: "br_files b \<subseteq>\<^sub>m br_files b'" and other: "\<forall>q. q \<noteq> ?p \<longrightarrow> br_files b' q = br_files b q"
    using assms(2) by (simp_all add: candidate_step_def)
  from assms(2) b consider "br_results b' = br_results b"
    | "br_results b' = set_output (cd_index c) (saved_message dir (bo_preview opts) (cd_id c) ?out) (br_results b)"
      "br_files b' ?p = Some (ensure_utf8 ?out)"
    by (auto simp: candidate_step_def Let_def)
  then have "length (br_results b') = length results \<and> (\<forall>c \<in> set xs. br_results b' ! cd_index c = results ! cd_index c) \<and>
      (\<forall>i < length results. output_kept calls results st b' i)"
  proof cases
    case 1
    with b output_kept_mono [OF _ _ le] show ?thesis by simp
  next
    case 2
    have "output_kept calls results st b' i" if "i < length results" for i
    proof (cases "i = cd_index c")
      case True
      then show ?thesis using 2 b d saved_message_path [of dir] by (simp add: output_kept_def Let_def saved_message_persisted)
    next
      case False
      with b that 2 show ?thesis by (intro output_kept_mono [OF _ _ le]) simp_all
    qed
    moreover have "cd_index x \<noteq> cd_index c" if "x \<in> set xs" for x using b imageI [OF that, of cd_index] by auto
    ultimately show ?thesis using b 2 by (auto simp: set_output_def nth_list_update)
  qed
  moreover have "fs \<subseteq>\<^sub>m br_files b'" using b le map_le_trans by blast
  moreover have "tool_result_path dir (cd_id x) \<noteq> ?p" if "x \<in> set xs" for x
    using b imageI [OF that, of "\<lambda>c. tool_result_path dir (cd_id c)"] by auto
  ultimately show "length (br_results b') = length results \<and> fs \<subseteq>\<^sub>m br_files b' \<and>
      distinct (map cd_index xs) \<and> distinct (map (\<lambda>c. tool_result_path dir (cd_id c)) xs) \<and>
      (\<forall>c \<in> set xs. cd_index c < length results \<and> br_results b' ! cd_index c = results ! cd_index c \<and>
        br_files b' (tool_result_path dir (cd_id c)) = None) \<and>
      (\<forall>i < length results. output_kept calls results st b' i)"
    using b other by simp
qed

lemma distinct_map_mset: "mset xs = mset ys \<Longrightarrow> distinct (map f xs) \<longleftrightarrow> distinct (map f ys)"
  by (metis mset_eq_imp_distinct_iff mset_map)

lemma keeps_outputs_order: "keeps_outputs dir calls results st fs b xs \<Longrightarrow> mset xs = mset ys \<Longrightarrow> keeps_outputs dir calls results st fs b ys"
  using distinct_map_mset [of xs ys cd_index] distinct_map_mset [of xs ys "\<lambda>c. tool_result_path dir (cd_id c)"] mset_eq_setD [of xs ys] by (simp add: keeps_outputs_def)

interpretation kept: batch_invariant dir opts "keeps_outputs dir calls results st fs" for dir opts calls results st fs
  by unfold_locales (rule keeps_outputs_order keeps_outputs_step; assumption)+

lemma distinct_images:
  assumes "distinct (map cd_index xs)" "\<And>c. c \<in> set xs \<Longrightarrow> cd_index c < length calls \<and> cd_id c = call_id (calls ! cd_index c) \<and> cd_id c \<noteq> []"
    "distinct (map f (call_ids_of calls))"
  shows "distinct (map (\<lambda>c. f (cd_id c)) xs)"
  using assms(1,2)
proof (induction xs)
  case (Cons c xs)
  have "f (cd_id c) \<noteq> f (cd_id x)" if "x \<in> set xs" for x
  proof -
    have "cd_index c \<noteq> cd_index x" using Cons.prems(1) that by auto
    with different_images [OF assms(3), of "cd_index c" "cd_index x"] Cons.prems(2) [of c] Cons.prems(2) [of x] that
    show ?thesis by auto
  qed
  then have "f (cd_id c) \<notin> (\<lambda>c. f (cd_id c)) ` set xs" by auto
  moreover have "distinct (map (\<lambda>c. f (cd_id c)) xs)" by (rule Cons.IH) (use Cons.prems(1) in simp, rule Cons.prems(2), simp)
  ultimately show ?case by simp
qed simp

lemma sorted_out_keeps:
  assumes "sorted_out calls results ready st fs (length calls) b" "length results = length calls"
    "distinct (map (tool_result_path dir) (call_ids_of calls))"
    "\<And>tc. tc \<in> set calls \<Longrightarrow> fs (tool_result_path dir (call_id tc)) = None"
  shows "keeps_outputs dir calls results st fs b (br_fresh b)"
proof -
  note b = assms(1) [unfolded sorted_out_def]
  have "distinct (map (\<lambda>c. tool_result_path dir (cd_id c)) (br_fresh b))"
    by (rule distinct_images [OF _ _ assms(3)]) (use b in auto)
  moreover have "br_files b (tool_result_path dir (cd_id c)) = None" if "c \<in> set (br_fresh b)" for c
    using b that assms(4) nth_mem by (metis (no_types, lifting))
  ultimately show ?thesis using b assms(2) by (auto simp: keeps_outputs_def output_kept_def Let_def)
qed

text \<open>A replaced output stays replaced, and every oversized one that can be saved is replaced.\<close>

definition stays_replaced :: "nat set \<Rightarrow> budget_run \<Rightarrow> candidate list \<Rightarrow> bool" where
  "stays_replaced is b xs \<longleftrightarrow> (\<forall>i \<in> is. i < length (br_results b) \<and> is_persisted_output_message (res_output (br_results b ! i)))"

lemma stays_replaced_step:
  "stays_replaced is b (c # xs) \<Longrightarrow> candidate_step dir opts c b b' \<Longrightarrow> stays_replaced is b' xs"
proof -
  assume s: "stays_replaced is b (c # xs)" "candidate_step dir opts c b b'"
  have "i < length (br_results b') \<and> is_persisted_output_message (res_output (br_results b' ! i))" if "i \<in> is" for i
    using s that by (cases "i = cd_index c") (auto simp: stays_replaced_def candidate_step_def Let_def saved_message_persisted)
  then show "stays_replaced is b' xs" by (simp add: stays_replaced_def)
qed

interpretation replaced: batch_invariant dir opts "stays_replaced is" for dir opts "is"
  by unfold_locales (simp add: stays_replaced_def, rule stays_replaced_step)

lemma oversized_replaced:
  assumes "dir \<noteq> []" "c \<in> set cs" "threshold_for_tool opts (cd_tool c) < cd_size c" "io (tool_result_path dir (cd_id c)) = Saved"
    "cd_index c < length (br_results b)" "fold (replace_oversized io dir opts) cs (rest, b) = (rest', b')"
  shows "stays_replaced {cd_index c} b' rest'"
  using assms(2,5,6)
proof (induction cs arbitrary: rest b)
  case (Cons x cs)
  obtain r b1 where r: "replace_candidate io dir opts x b = (r, b1)" by fastforce
  note step = replace_candidate_step [OF assms(1) r]
  show ?case
  proof (cases "c = x")
    case True
    with step assms(4) obtain m where m: "r = Some m" by (cases r) auto
    let ?b = "b1\<lparr>br_visible := br_visible b1 - cd_size c + length m, br_frozen := br_frozen b1 + length m\<rparr>"
    have "stays_replaced {cd_index c} ?b (cs @ rest)" using step m True Cons.prems(2)
      by (simp add: stays_replaced_def saved_message_persisted)
    moreover have "replace_oversized io dir opts x (rest, b) = (rest, ?b)" using True assms(3) r m
      by (simp add: replace_oversized_def)
    with Cons.prems(3) have "fold (replace_oversized io dir opts) cs (rest, ?b) = (rest', b')" by simp
    ultimately show ?thesis by (rule replaced.oversized_holds [OF assms(1)])
  next
    case False
    have l: "length (br_results b1) = length (br_results b)" using step by (auto simp: candidate_step_def Let_def)
    show ?thesis
    proof (cases "cd_size x \<le> threshold_for_tool opts (cd_tool x)")
      case True
      with Cons False show ?thesis by (simp add: replace_oversized_def)
    next
      case over: False
      obtain rest1 b2 where f: "replace_oversized io dir opts x (rest, b) = (rest1, b2)" by fastforce
      with over r have "length (br_results b2) = length (br_results b1)" by (auto simp: replace_oversized_def split: option.splits)
      with Cons.prems False f l have "c \<in> set cs" "cd_index c < length (br_results b2)"
        "fold (replace_oversized io dir opts) cs (rest1, b2) = (rest', b')" by simp_all
      then show ?thesis by (rule Cons.IH)
    qed
  qed
qed simp

text \<open>The two together, for the whole of \<open>enforce_tool_result_budget\<close>.\<close>

lemma enforced_outputs_kept:
  assumes "dir \<noteq> []" "CHR 0x0A \<notin> set dir" "length results = length calls" "\<And>xs. mset (order xs) = mset xs"
    "distinct (map (tool_result_path dir) (call_ids_of calls))" "\<And>tc. tc \<in> set calls \<Longrightarrow> fs (tool_result_path dir (call_id tc)) = None"
    "calls \<noteq> []" "b = enforce_tool_result_budget io order opts calls results ready dir st fs"
  shows "keeps_outputs dir calls results st fs b []"
proof -
  have d: "distinct (call_ids_of calls)" using assms(5) by (simp add: distinct_map)
  note so = sort_out_all [OF d, of "length calls" results ready st fs, simplified assms(3), simplified]
  show ?thesis unfolding assms(8)
    by (rule kept.enforced_holds [OF sorted_out_keeps [OF so assms(3,5,6)]]) (simp_all add: assms)
qed

lemma enforced_oversized:
  assumes "dir \<noteq> []" "length results = length calls" "\<And>xs. mset (order xs) = mset xs" "distinct (call_ids_of calls)"
    "i < length calls" "ready_at ready i" "new_output st (calls ! i) (results ! i)"
    "threshold_for_tool opts (function_name (calls ! i)) < length (res_output (results ! i))"
    "io (tool_result_path dir (call_id (calls ! i))) = Saved"
  shows "is_persisted_output_message (res_output (br_results
    (enforce_tool_result_budget io order opts calls results ready dir st fs) ! i))"
proof -
  let ?b1 = "fold (sort_out ready) (enumerate 0 calls) (start_budget results st fs)"
  have b: "sorted_out calls results ready st fs (length calls) ?b1"
    using sort_out_all [OF assms(4), of "length calls" results ready st fs] assms(2) by simp
  with assms(5-7) obtain c where c: "c \<in> set (br_fresh ?b1)" "cd_index c = i" unfolding sorted_out_def by blast
  with b have f: "cd_id c = call_id (calls ! i)" "cd_tool c = function_name (calls ! i)" "cd_size c = length (res_output (results ! i))"
    unfolding sorted_out_def by blast+
  obtain rest b2 where r: "fold (replace_oversized io dir opts) (br_fresh ?b1) ([], ?b1) = (rest, b2)" by fastforce
  have "length (br_results ?b1) = length calls" using b assms(2) by (simp add: sorted_out_def)
  then have h: "stays_replaced {i} b2 rest" using oversized_replaced [OF assms(1) c(1) _ _ _ r] assms(5,8,9) c(2) f by simp
  have "stays_replaced {i} b2 (order rest)" using h by (simp add: stays_replaced_def)
  with replaced.seen_holds [OF h] replaced.selected_holds [OF assms(1) this]
  have "stays_replaced {i} (enforce_tool_result_budget io order opts calls results ready dir st fs) []"
    using assms(1,2,5) r by (auto simp: enforce_tool_result_budget_def Let_def)
  then show ?thesis by (simp add: stays_replaced_def)
qed

section \<open>The recorded rows\<close>

text \<open>Text the history takes as it is: valid and without NUL.\<close>

definition plain_text :: "string \<Rightarrow> bool" where
  "plain_text s \<longleftrightarrow> is_valid_utf8 s \<and> CHR 0x00 \<notin> set s"

definition plain_ascii :: "string \<Rightarrow> bool" where
  "plain_ascii s \<longleftrightarrow> list_all (\<lambda>c. 0 < (byte c :: nat) \<and> byte c < (128 :: nat)) s"

lemma plain_ascii_plain: "plain_ascii s \<Longrightarrow> plain_text s"
proof -
  assume s: "plain_ascii s"
  then have "ascii_text s" by (auto simp: plain_ascii_def ascii_text_def list_all_iff)
  moreover have "CHR 0x00 \<notin> set s" using s by (auto simp: plain_ascii_def list_all_iff)
  ultimately show ?thesis by (simp add: plain_text_def ascii_valid)
qed

lemma plain_append: "plain_text xs \<Longrightarrow> plain_text ys \<Longrightarrow> plain_text (xs @ ys)"
  by (simp add: plain_text_def valid_append)

lemma plain_ascii_append: "plain_ascii (xs @ ys) \<longleftrightarrow> plain_ascii xs \<and> plain_ascii ys"
  by (simp add: plain_ascii_def)

lemma plain_ascii_show: "plain_ascii (show_nat n)"
  using show_nat_digits [of n] by (auto simp: plain_ascii_def list_all_iff is_digit_def)

lemma plain_ascii_size: "plain_ascii (format_bytes_compact n)"
  using plain_ascii_show by (auto simp: plain_ascii_def list_all_iff dest!: size_chars)

lemma ensure_plain:
  assumes "plain_text (c # s)" "byte c < (128 :: nat)"
  shows "ensure_utf8 (c # s) = c # s"
proof -
  have nul: "byte x \<noteq> (0 :: nat)" if "x \<in> set (c # s)" for x
  proof
    assume "byte x = (0 :: nat)"
    moreover have "byte (CHR 0x00) = (0 :: nat)" by simp
    ultimately have "x = CHR 0x00" by (simp only: flip: byte_eq_iff)
    with that assms(1) show False by (simp add: plain_text_def)
  qed
  then have "nuls_at e (c # s) = 0" for e
    by (auto simp: nuls_at_def filter_empty_conv enumerate_eq_zip simp del: take_Suc_Cons take_Cons_numeral set_simps
        dest!: set_zip_rightD in_set_takeD nul)
  then have "\<not> looks_like_utf16 le (c # s)" for le by (simp add: looks_like_utf16_def Let_def)
  moreover have "\<not> starts_with_bytes [0xFF, 0xFE] (c # s)" "\<not> starts_with_bytes [0xFE, 0xFF] (c # s)"
    using assms(2) by (auto simp: starts_with_bytes_def)
  moreover have "strip_utf8_bom (c # s) = c # s" using assms(2) by (auto simp: strip_utf8_bom_def utf8_bom_def)
  ultimately show ?thesis using assms(1) by (simp add: ensure_utf8_def plain_text_def del: is_valid_utf8.simps)
qed

lemma plain_preview: "plain_text safe \<Longrightarrow> plain_text (fst (generate_preview safe n))"
  by (auto simp: generate_preview_def truncate_utf8_prefix_def plain_text_def cut_back_valid dest: in_set_takeD)

lemma plain_path:
  assumes "plain_text dir"
  shows "plain_text (tool_result_path dir i)"
proof -
  have "0 < (byte c :: nat) \<and> byte c < (128 :: nat)" if "safe_id_char c" for c
    using that by (auto simp: safe_id_char_def)
  then have "plain_ascii (sanitize_tool_call_id i)" using sanitized_safe [of _ i] by (simp add: plain_ascii_def list_all_iff)
  then have "plain_ascii ((if dir = [] \<or> last dir = CHR ''/'' then [] else ''/'') @ sanitize_tool_call_id i @ ''.txt'')"
    by (simp add: plain_ascii_append) (simp add: plain_ascii_def)
  from plain_append [OF assms plain_ascii_plain [OF this]] show ?thesis by (simp only: tool_result_path_def path_append_def)
qed

lemma plain_saved_message:
  assumes "plain_text dir" "CHR 0x00 \<notin> set (ensure_utf8 output)"
  shows "plain_text (saved_message dir n i output)"
proof -
  have "plain_text (ensure_utf8 output)" using assms(2) by (simp add: plain_text_def ensured_valid)
  note p = plain_preview [OF this, of n]
  have "plain_ascii (message_head k)" for k
    using plain_ascii_size by (simp add: message_head_def persisted_output_tag_def plain_ascii_append) (simp add: plain_ascii_def)
  note h = plain_ascii_plain [OF this]
  have "plain_text saved_marker" by (rule plain_ascii_plain) (simp add: saved_marker_def plain_ascii_def)
  moreover have "plain_text (message_rest n (ensure_utf8 output))"
  proof -
    have a: "plain_ascii (''Preview (first '' @ format_bytes_compact n @ ''):'' @ [CHR 0x0A])"
      using plain_ascii_size by (simp add: plain_ascii_append) (simp add: plain_ascii_def)
    have "plain_ascii ((if more then [CHR 0x0A] @ ''...'' @ [CHR 0x0A] else [CHR 0x0A]) @ persisted_output_closing_tag)" for more
      by (simp add: plain_ascii_def persisted_output_closing_tag_def)
    note b = this
    from a [THEN plain_ascii_plain] p b [THEN plain_ascii_plain]
    have "plain_text ((''Preview (first '' @ format_bytes_compact n @ ''):'' @ [CHR 0x0A]) @ fst (generate_preview (ensure_utf8 output) n) @
        ((if snd (generate_preview (ensure_utf8 output) n) then [CHR 0x0A] @ ''...'' @ [CHR 0x0A] else [CHR 0x0A]) @ persisted_output_closing_tag))"
      by (rule plain_append [OF _ plain_append])
    then show ?thesis by (simp only: message_rest_def append_assoc)
  qed
  moreover have "plain_text [CHR 0x0A, CHR 0x0A]" by (rule plain_ascii_plain) (simp add: plain_ascii_def)
  ultimately have "plain_text (message_head (length (ensure_utf8 output)) @ saved_marker @ tool_result_path dir i @
      [CHR 0x0A, CHR 0x0A] @ message_rest n (ensure_utf8 output))"
    using h plain_path [OF assms(1)] by (intro plain_append)
  then show ?thesis by (simp only: saved_message_parts append_Cons append_Nil)
qed

lemma ensure_saved_message:
  assumes "plain_text dir" "CHR 0x00 \<notin> set (ensure_utf8 output)"
  shows "ensure_utf8 (saved_message dir n i output) = saved_message dir n i output"
proof -
  have "saved_message dir n i output = CHR ''<'' # tl (saved_message dir n i output)"
    by (simp add: saved_message_parts message_head_def persisted_output_tag_def)
  then show ?thesis using plain_saved_message [OF assms, of n i] ensure_plain [of "CHR ''<''" "tl (saved_message dir n i output)"] by simp
qed

text \<open>A record tells what the row of its call says.\<close>

definition records_match ::
  "tool_call list \<Rightarrow> tool_result list \<Rightarrow> bool list \<Rightarrow> string \<Rightarrow> nat \<Rightarrow> budget_run \<Rightarrow> candidate list \<Rightarrow> bool" where
  "records_match calls results ready dir n b xs \<longleftrightarrow>
     length (br_results b) = length results \<and> distinct (map cd_index xs) \<and>
     (\<forall>c \<in> set xs. cd_index c < length results \<and> ready_at ready (cd_index c) \<and> cd_id c = call_id (calls ! cd_index c) \<and>
       cd_id c \<noteq> [] \<and> br_results b ! cd_index c = results ! cd_index c) \<and>
     (\<forall>r \<in> set (br_records b). \<exists>i < length results. ready_at ready i \<and> i \<notin> cd_index ` set xs \<and> rr_id r = call_id (calls ! i) \<and>
       rr_id r \<noteq> [] \<and> res_output (br_results b ! i) = rr_replacement r \<and>
       rr_replacement r = saved_message dir n (rr_id r) (res_output (results ! i)))"

lemma records_match_order: "records_match calls results ready dir n b xs \<Longrightarrow> mset xs = mset ys \<Longrightarrow> records_match calls results ready dir n b ys"
  using distinct_map_mset [of xs ys cd_index] mset_eq_setD [of xs ys] by (auto simp: records_match_def)

lemma records_match_step:
  assumes "records_match calls results ready dir (bo_preview opts) b (c # xs)" "candidate_step dir opts c b b'"
  shows "records_match calls results ready dir (bo_preview opts) b' xs"
proof -
  let ?m = "saved_message dir (bo_preview opts) (cd_id c) (res_output (results ! cd_index c))"
  note b = assms(1) [unfolded records_match_def]
  from assms(2) b consider "br_results b' = br_results b" "br_records b' = br_records b"
    | "br_results b' = set_output (cd_index c) ?m (br_results b)"
      "br_records b' = br_records b @ [\<lparr>rr_id = cd_id c, rr_replacement = ?m\<rparr>]"
    by (auto simp: candidate_step_def Let_def)
  then show ?thesis
  proof cases
    case 1
    with b show ?thesis by (auto simp: records_match_def)
  next
    case 2
    have other: "cd_index c \<noteq> cd_index x" if "x \<in> set xs" for x using b imageI [OF that, of cd_index] by auto
    have "\<exists>i < length results. ready_at ready i \<and> i \<notin> cd_index ` set xs \<and> rr_id r = call_id (calls ! i) \<and> rr_id r \<noteq> [] \<and>
        res_output (br_results b' ! i) = rr_replacement r \<and> rr_replacement r = saved_message dir (bo_preview opts) (rr_id r) (res_output (results ! i))"
      if r: "r \<in> set (br_records b')" for r
    proof (cases "r \<in> set (br_records b)")
      case True
      with b obtain i where i: "i < length results" "ready_at ready i" "i \<notin> cd_index ` set (c # xs)" "rr_id r = call_id (calls ! i)"
        "rr_id r \<noteq> []" "res_output (br_results b ! i) = rr_replacement r"
        "rr_replacement r = saved_message dir (bo_preview opts) (rr_id r) (res_output (results ! i))" by blast
      then show ?thesis using 2(1) by (intro exI [of _ i]) auto
    next
      case False
      with r 2(2) have "r = \<lparr>rr_id = cd_id c, rr_replacement = ?m\<rparr>" by simp
      then show ?thesis using 2(1) b other by (intro exI [of _ "cd_index c"]) auto
    qed
    with 2(1) b other show ?thesis by (auto simp: records_match_def)
  qed
qed

interpretation recorded: batch_invariant dir opts "records_match calls results ready dir (bo_preview opts)" for dir opts calls results ready
  by unfold_locales (rule records_match_order records_match_step; assumption)+

lemma enforced_records:
  assumes "length results = length calls" "\<And>xs. mset (order xs) = mset xs" "distinct (call_ids_of calls)"
  shows "records_match calls results ready dir (bo_preview opts)
    (enforce_tool_result_budget io order opts calls results ready dir st fs) []"
proof (cases "dir = [] \<or> calls = []")
  case True
  then show ?thesis by (simp add: enforce_tool_result_budget_def start_budget_def records_match_def)
next
  case False
  let ?b1 = "fold (sort_out ready) (enumerate 0 calls) (start_budget results st fs)"
  have b: "sorted_out calls results ready st fs (length calls) ?b1"
    using sort_out_all [OF assms(3), of "length calls" results ready st fs] assms(1) by simp
  then have "records_match calls results ready dir (bo_preview opts) ?b1 (br_fresh ?b1)"
    using assms(1) by (auto simp: sorted_out_def records_match_def)
  then show ?thesis by (rule recorded.enforced_holds) (use assms False in simp_all)
qed

section \<open>Resuming\<close>

definition is_tool_row :: "chat_message \<Rightarrow> bool" where
  "is_tool_row m \<longleftrightarrow> role m = ''tool'' \<and> tool_call_id m \<noteq> []"

definition tool_row_ids :: "chat_message list \<Rightarrow> string set" where
  "tool_row_ids h = tool_call_id ` {m \<in> set h. is_tool_row m}"

definition saved_rows :: "chat_message list \<Rightarrow> (string \<times> string) list" where
  "saved_rows h = map (\<lambda>m. (tool_call_id m, content m)) (filter (\<lambda>m. is_tool_row m \<and> is_persisted_output_message (content m)) h)"

definition records_of :: "chat_message list \<Rightarrow> replacement_record list" where
  "records_of h = concat (map (\<lambda>m. case decode_content_replacement_message m of Inr rs \<Rightarrow> rs | Inl _ \<Rightarrow> []) h)"

definition record_pairs :: "replacement_record list \<Rightarrow> (string \<times> string) list" where
  "record_pairs rs = rev (map (\<lambda>r. (rr_id r, rr_replacement r)) rs)"

definition replacement_in :: "chat_message list \<Rightarrow> string \<Rightarrow> string option" where
  "replacement_in h = map_of (saved_rows h) ++ map_of (record_pairs (records_of h))"

definition decodable :: "chat_message list \<Rightarrow> bool" where
  "decodable h \<longleftrightarrow> (\<forall>m \<in> set h. decode_content_replacement_message m \<noteq> Inl ())"

lemma rows_append:
  "tool_row_ids (g @ h) = tool_row_ids g \<union> tool_row_ids h" "saved_rows (g @ h) = saved_rows g @ saved_rows h"
  "records_of (g @ h) = records_of g @ records_of h" "record_pairs (rs @ ss) = record_pairs ss @ record_pairs rs"
  "decodable (g @ h) \<longleftrightarrow> decodable g \<and> decodable h"
  by (auto simp: tool_row_ids_def saved_rows_def records_of_def record_pairs_def decodable_def)

lemma seen_rows:
  "rs_seen (fold see_tool_row h st) = rs_seen st \<union> tool_row_ids h"
  "rs_replacements (fold see_tool_row h st) = map_of (saved_rows h) ++ rs_replacements st"
proof (induction h arbitrary: st)
  case (Cons m h)
  {
    case 1
    show ?case using Cons(1) [of "see_tool_row m st"] by (auto simp: see_tool_row_def tool_row_ids_def is_tool_row_def)
  next
    case 2
    show ?case using Cons(2) [of "see_tool_row m st"]
      by (auto simp: see_tool_row_def saved_rows_def is_tool_row_def map_add_def split: option.splits)
  }
qed (simp_all add: tool_row_ids_def saved_rows_def)

lemma taken_records:
  "rr_id ` set rs \<subseteq> rs_seen st \<Longrightarrow>
     fold take_record rs st = st\<lparr>rs_replacements := rs_replacements st ++ map_of (record_pairs rs)\<rparr>"
proof (induction rs arbitrary: st)
  case (Cons r rs)
  let ?st = "st\<lparr>rs_replacements := (rs_replacements st)(rr_id r \<mapsto> rr_replacement r)\<rparr>"
  have "fold take_record (r # rs) st = fold take_record rs ?st" using Cons.prems by (simp add: take_record_def)
  also have "\<dots> = ?st\<lparr>rs_replacements := rs_replacements ?st ++ map_of (record_pairs rs)\<rparr>"
    by (rule Cons.IH) (use Cons.prems in simp)
  also have "rs_replacements ?st = rs_replacements st ++ map_of [(rr_id r, rr_replacement r)]" by simp
  also have "record_pairs rs @ [(rr_id r, rr_replacement r)] = record_pairs (r # rs)" by (simp add: record_pairs_def)
  then have "map_of [(rr_id r, rr_replacement r)] ++ map_of (record_pairs rs) = map_of (record_pairs (r # rs))"
    by (metis map_of_append)
  then have "(rs_replacements st ++ map_of [(rr_id r, rr_replacement r)]) ++ map_of (record_pairs rs) =
      rs_replacements st ++ map_of (record_pairs (r # rs))" by (simp only: flip: map_add_assoc)
  finally show ?case by simp
qed (simp add: record_pairs_def)

lemma taken_messages: "decodable h \<Longrightarrow> fold take_records h (Inr st) = Inr (fold take_record (records_of h) st)"
proof (induction h arbitrary: st)
  case (Cons m h)
  then obtain rs where "decode_content_replacement_message m = Inr rs"
    by (cases "decode_content_replacement_message m") (auto simp: decodable_def)
  with Cons show ?case by (simp add: take_records_def records_of_def decodable_def)
qed (simp add: records_of_def)

lemma reconstructed:
  assumes "decodable h" "rr_id ` set (records_of h) \<subseteq> tool_row_ids h"
  shows "reconstruct_replacement_state h = Inr \<lparr>rs_seen = tool_row_ids h, rs_replacements = replacement_in h\<rparr>"
  using assms seen_rows [of h no_replacements] taken_records [of "records_of h" "fold see_tool_row h no_replacements"]
  by (simp add: reconstruct_replacement_state_def taken_messages no_replacements_def replacement_in_def)

text \<open>The rows of a history are what its replacements make of them.\<close>

definition settled :: "chat_message list \<Rightarrow> bool" where
  "settled h \<longleftrightarrow> decodable h \<and> rr_id ` set (records_of h) \<subseteq> tool_row_ids h \<and>
     (\<forall>m \<in> set h. is_tool_row m \<longrightarrow> (\<forall>x. replacement_in h (tool_call_id m) = Some x \<longrightarrow> x = content m))"

lemma settled_reapply:
  assumes "settled h" "reconstruct_replacement_state h = Inr st"
  shows "apply_tool_result_replacements h st = (h, 0)"
proof -
  have "rs_replacements st = replacement_in h" using assms reconstructed [of h] by (auto simp: settled_def)
  then have "reapply_row st m = (m, False)" if "m \<in> set h" for m
    using assms(1) that by (auto simp: settled_def reapply_row_def is_tool_row_def split: option.split)
  then show ?thesis by (simp add: apply_tool_result_replacements_def map_idI filter_empty_conv)
qed

lemma tool_row_plain: "decode_content_replacement_message (tool_row utf8 extras rs e) = Inr []"
  by (simp add: decode_content_replacement_message_def is_content_replacement_message_def tool_row_def format_tool_result_def
    empty_message_def split: option.split)

lemma decoded_records:
  assumes "\<And>r. r \<in> set rs \<Longrightarrow> rr_id r \<noteq> []"
  shows "decode_content_replacement_message (encode_content_replacement_message rs) = Inr rs"
proof -
  have "decode_replacement (replacement_json r) = Inr (Some r)" if "rr_id r \<noteq> []" for r
    using that by (simp add: decode_replacement_def replacement_json_def string_field_def)
  then have "decode_replacements (map replacement_json rs) = Inr rs" using assms by (induction rs) simp_all
  then show ?thesis by (simp add: decode_content_replacement_message_def is_content_replacement_message_def
    encode_content_replacement_message_def empty_message_def)
qed

lemma prompt_row_fields [simp]:
  "role (prompt_row u now p source) = ''user''" "is_meta (prompt_row u now p source) = False"
  by (simp_all add: prompt_row_def hidden_row_def ensure_user_message_identity_def empty_message_def split: prod.split)

lemma prompt_after_user: "m \<in> set (prompt_after prompts stamp ready e) \<Longrightarrow> role m = ''user'' \<and> \<not> is_meta m"
  by (auto simp: prompt_after_def split: option.splits if_splits)

lemma batch_rows_set:
  "set (batch_rows extras prompts stamp ready results es) =
     tool_row ensure_utf8 extras (ready_results results ready) ` set es \<union>
     (\<Union>e \<in> set es. set (prompt_after prompts stamp ready e))"
  by (auto simp: batch_rows_def)

lemma batch_rows_Cons:
  "batch_rows extras prompts stamp ready results (e # es) =
     tool_row ensure_utf8 extras (ready_results results ready) e # prompt_after prompts stamp ready e @
     batch_rows extras prompts stamp ready results es"
  "batch_rows extras prompts stamp ready results [] = []"
  by (simp_all add: batch_rows_def)

lemma batch_row_decoded:
  assumes "m \<in> set (batch_rows extras prompts stamp ready results es)"
  shows "decode_content_replacement_message m = Inr []"
proof -
  from assms consider e where "m = tool_row ensure_utf8 extras (ready_results results ready) e"
    | e where "m \<in> set (prompt_after prompts stamp ready e)" by (auto simp: batch_rows_set)
  then show ?thesis
  proof cases
    case 2
    then show ?thesis
      using prompt_after_user [of m prompts stamp ready e]
      by (simp add: decode_content_replacement_message_def is_content_replacement_message_def)
  qed (simp add: tool_row_plain)
qed

lemma batch_records:
  assumes "\<And>r. r \<in> set (br_records b) \<Longrightarrow> rr_id r \<noteq> []"
  shows "records_of (recorded_batch extras prompts stamp calls ready b) = br_records b \<and>
    decodable (recorded_batch extras prompts stamp calls ready b)"
proof -
  have rows: "records_of (batch_rows extras prompts stamp ready rs es) = [] \<and> decodable (batch_rows extras prompts stamp ready rs es)"
    for rs es by (auto simp: records_of_def decodable_def batch_row_decoded)
  moreover have "records_of [encode_content_replacement_message (br_records b)] = br_records b \<and>
      decodable [encode_content_replacement_message (br_records b)]"
    using decoded_records [OF assms] by (simp add: records_of_def decodable_def)
  moreover have "records_of [] = []" "decodable []" by (simp_all add: records_of_def decodable_def)
  ultimately show ?thesis by (auto simp: recorded_batch_def rows_append)
qed

lemma batch_tool_rows:
  assumes "m \<in> set (recorded_batch extras prompts stamp calls ready b)" "is_tool_row m"
  shows "\<exists>i < length calls. tool_call_id m = call_id (calls ! i) \<and>
    m = tool_row ensure_utf8 extras (ready_results (br_results b) ready) (i, calls ! i) \<and>
    (ready_at ready i \<longrightarrow> content m = ensure_utf8 (res_output (br_results b ! i)))"
proof -
  have "m \<in> set (batch_rows extras prompts stamp ready (br_results b) (enumerate 0 calls))"
    using assms by (auto simp: recorded_batch_def is_tool_row_def encode_content_replacement_message_def empty_message_def split: if_splits)
  then obtain i where "i < length calls" "m = tool_row ensure_utf8 extras (ready_results (br_results b) ready) (i, calls ! i)"
    using assms(2) by (auto simp: batch_rows_set in_set_enumerate_eq is_tool_row_def dest: prompt_after_user)
  then show ?thesis by (intro exI [of _ i]) (auto simp: tool_row_def ready_results_def ready_at_def format_tool_result_def)
qed

text \<open>The rows of the results, among the rows of a batch.\<close>

lemma batch_result_rows:
  "filter (\<lambda>m. role m = ''tool'') (recorded_batch extras prompts stamp calls ready b) =
     map (tool_row ensure_utf8 extras (ready_results (br_results b) ready)) (enumerate 0 calls)"
proof -
  have "filter (\<lambda>m. role m = ''tool'') (prompt_after prompts stamp ready e) = []" for e
    by (auto simp: filter_empty_conv dest: prompt_after_user)
  then have "filter (\<lambda>m. role m = ''tool'') (batch_rows extras prompts stamp ready rs es) =
      map (tool_row ensure_utf8 extras (ready_results rs ready)) es" for rs es
    by (induction es) (simp_all add: batch_rows_Cons)
  then show ?thesis by (simp add: recorded_batch_def encode_content_replacement_message_def empty_message_def)
qed

lemma batch_result_ids:
  "map tool_call_id (filter (\<lambda>m. role m = ''tool'') (recorded_batch extras prompts stamp calls ready b)) = map call_id calls"
proof -
  have "map tool_call_id (map (tool_row ensure_utf8 extras rs) (enumerate 0 calls)) = map call_id (map snd (enumerate 0 calls))" for rs
    by (simp del: map_snd_enumerate)
  then show ?thesis unfolding batch_result_rows map_snd_enumerate .
qed

lemma batch_row_ids: "tool_row_ids (recorded_batch extras prompts stamp calls ready b) = set (call_ids_of calls)"
proof -
  let ?rows = "recorded_batch extras prompts stamp calls ready b"
  have "tool_row_ids ?rows = {i \<in> set (map tool_call_id (filter (\<lambda>m. role m = ''tool'') ?rows)). i \<noteq> []}"
    by (auto simp: tool_row_ids_def is_tool_row_def)
  then show ?thesis unfolding batch_result_ids by (simp add: call_ids_of_def)
qed

lemma keys_of_rows: "fst ` set (saved_rows g) \<subseteq> tool_row_ids g" "fst ` set (record_pairs rs) = rr_id ` set rs"
  by (auto simp: saved_rows_def tool_row_ids_def record_pairs_def image_iff)

lemma same_call:
  assumes "distinct (call_ids_of calls)" "i < length calls" "j < length calls" "call_id (calls ! i) = call_id (calls ! j)"
    "call_id (calls ! i) \<noteq> []"
  shows "i = j"
  using different_images [of id calls i j] assms by auto

lemma settled_batch:
  assumes "settled h" "distinct (call_ids_of calls)" "set (call_ids_of calls) \<inter> tool_row_ids h = {}"
    "records_match calls results ready dir n b []" "length results = length calls" "plain_text dir"
    "\<And>r. r \<in> set results \<Longrightarrow> CHR 0x00 \<notin> set (ensure_utf8 (res_output r))"
  shows "settled (h @ recorded_batch extras prompts stamp calls ready b)"
proof -
  let ?rows = "recorded_batch extras prompts stamp calls ready b"
  note h = assms(1) [unfolded settled_def]
  have rec: "\<exists>i < length calls. ready_at ready i \<and> rr_id r = call_id (calls ! i) \<and> rr_id r \<noteq> [] \<and>
      res_output (br_results b ! i) = rr_replacement r \<and> ensure_utf8 (rr_replacement r) = rr_replacement r"
    if r: "r \<in> set (br_records b)" for r
  proof -
    from assms(4) r obtain i where i: "i < length results" "ready_at ready i" "rr_id r = call_id (calls ! i)" "rr_id r \<noteq> []"
      "res_output (br_results b ! i) = rr_replacement r" "rr_replacement r = saved_message dir n (rr_id r) (res_output (results ! i))"
      unfolding records_match_def by blast
    have "ensure_utf8 (rr_replacement r) = rr_replacement r" unfolding i(6)
      by (rule ensure_saved_message [OF assms(6) assms(7)]) (simp add: i(1))
    with i assms(5) show ?thesis by auto
  qed
  then have b: "records_of ?rows = br_records b" "decodable ?rows" using batch_records by blast+
  have ids: "tool_row_ids ?rows = set (call_ids_of calls)" by (rule batch_row_ids)
  have rid: "rr_id ` set (br_records b) \<subseteq> set (call_ids_of calls)" using rec by (fastforce simp: call_ids_of_def)
  have "x = content m" if m: "m \<in> set h" "is_tool_row m" "replacement_in (h @ ?rows) (tool_call_id m) = Some x" for m x
  proof -
    have t: "tool_call_id m \<in> tool_row_ids h" using m(1,2) by (auto simp: tool_row_ids_def)
    then have "tool_call_id m \<notin> set (call_ids_of calls)" using assms(3) by blast
    then have "tool_call_id m \<notin> fst ` set (saved_rows ?rows)" "tool_call_id m \<notin> fst ` set (record_pairs (br_records b))"
      using rid keys_of_rows(1) [of ?rows] unfolding ids keys_of_rows(2) by (metis subsetD)+
    then have "map_of (saved_rows ?rows) (tool_call_id m) = None" "map_of (record_pairs (br_records b)) (tool_call_id m) = None"
      by (simp_all only: map_of_eq_None_iff not_False_eq_True)
    then have "replacement_in (h @ ?rows) (tool_call_id m) = replacement_in h (tool_call_id m)"
      unfolding replacement_in_def rows_append b map_of_append map_add_def by (simp split: option.split)
    with h m show ?thesis by auto
  qed
  moreover have "x = content m" if m: "m \<in> set ?rows" "is_tool_row m" "replacement_in (h @ ?rows) (tool_call_id m) = Some x" for m x
  proof -
    obtain i where i: "i < length calls" "tool_call_id m = call_id (calls ! i)"
      "m = tool_row ensure_utf8 extras (ready_results (br_results b) ready) (i, calls ! i)"
      "ready_at ready i \<longrightarrow> content m = ensure_utf8 (res_output (br_results b ! i))" using batch_tool_rows [OF m(1,2)] by blast
    have ne: "call_id (calls ! i) \<noteq> []" using m(2) i(2) by (simp add: is_tool_row_def)
    have "tool_call_id m \<notin> tool_row_ids h" using assms(3) i(1,2) ne by (force simp: call_ids_of_def)
    then have "tool_call_id m \<notin> fst ` set (saved_rows h)" "tool_call_id m \<notin> fst ` set (record_pairs (records_of h))"
      using h keys_of_rows(1) [of h] unfolding keys_of_rows(2) by (metis subsetD)+
    then have "map_of (saved_rows h) (tool_call_id m) = None" "map_of (record_pairs (records_of h)) (tool_call_id m) = None"
      by (simp_all only: map_of_eq_None_iff not_False_eq_True)
    with m(3) have "map_of (record_pairs (br_records b)) (tool_call_id m) = Some x \<or> map_of (saved_rows ?rows) (tool_call_id m) = Some x"
      unfolding replacement_in_def rows_append b map_of_append map_add_def by (simp split: option.splits)
    then consider "(tool_call_id m, x) \<in> set (record_pairs (br_records b))" | "(tool_call_id m, x) \<in> set (saved_rows ?rows)"
      by (blast dest: map_of_SomeD)
    then show ?thesis
    proof cases
      case 1
      then obtain r where r: "r \<in> set (br_records b)" "rr_id r = tool_call_id m" "rr_replacement r = x" by (auto simp: record_pairs_def)
      from rec [OF r(1)] obtain j where j: "j < length calls" "ready_at ready j" "rr_id r = call_id (calls ! j)"
        "res_output (br_results b ! j) = x" "ensure_utf8 x = x" unfolding r(3) by blast
      have "i = j" by (rule same_call [OF assms(2) i(1) j(1) _ ne]) (use r(2) i(2) j(3) in simp)
      with i(4) j show ?thesis by simp
    next
      case 2
      then obtain m' where m': "m' \<in> set ?rows" "is_tool_row m'" "tool_call_id m' = tool_call_id m" "content m' = x"
        by (auto simp: saved_rows_def)
      from batch_tool_rows [OF m'(1,2)] obtain j where j: "j < length calls" "tool_call_id m' = call_id (calls ! j)"
        "m' = tool_row ensure_utf8 extras (ready_results (br_results b) ready) (j, calls ! j)" by blast
      have "i = j" by (rule same_call [OF assms(2) i(1) j(1) _ ne]) (use m'(3) i(2) j(2) in simp)
      with i(3) j(3) m'(4) show ?thesis by simp
    qed
  qed
  ultimately show ?thesis using h ids rid assms(3) by (auto simp: settled_def rows_append b)
qed

text \<open>A session as it is recorded: messages, and batches of results whose calls have ids of their own.\<close>

inductive recorded_session ::
  "(candidate list \<Rightarrow> candidate list) \<Rightarrow> (tool_result \<Rightarrow> json \<times> json) \<Rightarrow> string \<Rightarrow> chat_message list \<Rightarrow> bool"
  for order :: "candidate list \<Rightarrow> candidate list" and extras :: "tool_result \<Rightarrow> json \<times> json" and dir :: string
where
  start: "recorded_session order extras dir []"
| message: "recorded_session order extras dir h \<Longrightarrow> role m \<noteq> ''tool'' \<Longrightarrow> \<not> is_content_replacement_message m \<Longrightarrow>
    recorded_session order extras dir (h @ [m])"
| batch: "recorded_session order extras dir h \<Longrightarrow> length results = length calls \<Longrightarrow> distinct (call_ids_of calls) \<Longrightarrow>
    set (call_ids_of calls) \<inter> tool_row_ids h = {} \<Longrightarrow> \<forall>r \<in> set results. CHR 0x00 \<notin> set (ensure_utf8 (res_output r)) \<Longrightarrow>
    record_tool_batch io order extras prompts stamp dir calls results ready h fs = Inr (h', fs') \<Longrightarrow> recorded_session order extras dir h'"

lemma settled_message:
  assumes "settled h" "role m \<noteq> ''tool''" "\<not> is_content_replacement_message m"
  shows "settled (h @ [m])"
proof -
  have "tool_row_ids [m] = {}" "saved_rows [m] = []" "records_of [m] = []" "decodable [m]"
    using assms(2,3) by (simp_all add: tool_row_ids_def saved_rows_def records_of_def decodable_def is_tool_row_def
      decode_content_replacement_message_def)
  with assms show ?thesis by (auto simp: settled_def rows_append replacement_in_def is_tool_row_def)
qed

lemma recorded_settled:
  assumes "recorded_session order extras dir h" "plain_text dir" "\<And>xs. mset (order xs) = mset xs"
  shows "settled h"
  using assms(1)
proof induction
  case start
  show ?case by (simp add: settled_def decodable_def records_of_def)
next
  case (message h m)
  then show ?case by (intro settled_message)
next
  case (batch h results calls io prompts stamp ready fs h' fs')
  note records = enforced_records [OF batch.hyps(2) assms(3) batch.hyps(3), of ready dir default_budget_options io]
  have n: "CHR 0x00 \<notin> set (ensure_utf8 (res_output r))" if "r \<in> set results" for r using batch.hyps(5) that by blast
  note step = settled_batch [where prompts = prompts and stamp = stamp, OF batch.IH batch.hyps(3,4) _ batch.hyps(2) assms(2) n]
  show ?case
  proof (cases "dir = []")
    case True
    have "records_match calls results ready dir 0 (start_budget results no_replacements fs) []"
      by (simp add: records_match_def start_budget_def)
    from step [OF this] batch.hyps(6) True show ?thesis by (auto simp: record_tool_batch_def)
  next
    case False
    with batch.hyps(6) obtain st where "h' = h @ recorded_batch extras prompts stamp calls ready
        (enforce_tool_result_budget io order default_budget_options calls results ready dir st fs)"
      by (auto simp: record_tool_batch_def Let_def split: sum.splits)
    with step [OF records] show ?thesis by simp
  qed
qed

section \<open>The rows of a turn\<close>

definition used_ids :: "chat_message list \<Rightarrow> string set" where
  "used_ids h = (case scan {} {} h of Some (w, u) \<Rightarrow> u | None \<Rightarrow> {})"

text \<open>In a history the provider accepts, every result answers a call that was made.\<close>

lemma scanned_rows:
  "scan w u h = Some (w', u') \<Longrightarrow> w \<subseteq> u \<Longrightarrow> tool_row_ids h \<subseteq> u' \<and> u \<subseteq> u' \<and> w' \<subseteq> u'"
proof (induction w u h rule: scan.induct)
  case (2 w u m ms)
  have rows: "tool_row_ids (m # ms) = (if is_tool_row m then {tool_call_id m} else {}) \<union> tool_row_ids ms"
    by (auto simp: tool_row_ids_def)
  consider "role m = ''tool''" | "role m = ''system''" | "role m = ''assistant''"
    | "role m \<noteq> ''tool''" "role m \<noteq> ''system''" "role m \<noteq> ''assistant''" by blast
  then show ?case
  proof cases
    case 1
    with 2 have "tool_row_ids ms \<subseteq> u' \<and> u \<subseteq> u' \<and> w' \<subseteq> u'" by (auto split: if_splits)
    with 1 2 rows show ?thesis by (auto split: if_splits)
  next
    case 2
    with "2.IH" "2.prems" rows show ?thesis by (simp add: is_tool_row_def)
  next
    case 3
    with "2.prems" obtain ids where i: "call_ids (tool_calls m) = Some ids" "scan (set ids) (u \<union> set ids) ms = Some (w', u')"
      "distinct ids \<and> set ids \<inter> u = {} \<and> (ids \<noteq> [] \<or> has_assistant_content m)" "w = {}"
      by (auto split: option.splits if_splits)
    with 3 have "tool_row_ids ms \<subseteq> u' \<and> u \<union> set ids \<subseteq> u' \<and> w' \<subseteq> u'" by (intro "2.IH"(3)) simp_all
    with 3 rows show ?thesis by (simp add: is_tool_row_def)
  next
    case 4
    with "2.prems" have "scan {} u ms = Some (w', u')" "w = {}" by (simp_all split: if_splits)
    with 4 "2.IH"(4) rows show ?thesis by (simp add: is_tool_row_def)
  qed
qed (auto simp: tool_row_ids_def)

lemma used_rows: "valid_history h \<Longrightarrow> tool_row_ids h \<subseteq> used_ids h"
  using scanned_rows [of "{}" "{}" h] by (auto simp: valid_history_def used_ids_def split: option.splits)

text \<open>Nothing is replaced for a call no row of the history answers.\<close>

lemma taken_known:
  "dom (rs_replacements st) \<subseteq> rs_seen st \<Longrightarrow>
     rs_seen (fold take_record rs st) = rs_seen st \<and> dom (rs_replacements (fold take_record rs st)) \<subseteq> rs_seen st"
proof (induction rs arbitrary: st)
  case (Cons r rs)
  have "dom (rs_replacements (take_record r st)) \<subseteq> rs_seen (take_record r st)" "rs_seen (take_record r st) = rs_seen st"
    using Cons.prems by (auto simp: take_record_def)
  with Cons.IH [of "take_record r st"] show ?case by simp
qed simp

lemma reconstructed_known:
  assumes "decodable h"
  obtains st where "reconstruct_replacement_state h = Inr st" "dom (rs_replacements st) \<subseteq> tool_row_ids h"
proof -
  let ?s = "fold see_tool_row h no_replacements"
  have seen: "rs_seen ?s = tool_row_ids h" "rs_replacements ?s = map_of (saved_rows h)"
    using seen_rows [of h no_replacements] by (simp_all add: no_replacements_def)
  then have "dom (rs_replacements ?s) \<subseteq> rs_seen ?s" using keys_of_rows(1) [of h] by (simp add: dom_map_of_conv_image_fst)
  from taken_known [OF this, of "records_of h"] seen that [of "fold take_record (records_of h) ?s"] assms
  show ?thesis by (simp add: reconstruct_replacement_state_def taken_messages)
qed

text \<open>The output of a call in the end: its own, one decided before, or the message about the file it was saved to.\<close>

definition answers_calls ::
  "tool_call list \<Rightarrow> tool_result list \<Rightarrow> replacement_state \<Rightarrow> string \<Rightarrow> nat \<Rightarrow> budget_run \<Rightarrow> candidate list \<Rightarrow> bool" where
  "answers_calls calls results st dir n b xs \<longleftrightarrow>
     length (br_results b) = length results \<and> distinct (map cd_index xs) \<and>
     (\<forall>c \<in> set xs. cd_index c < length results \<and> cd_id c = call_id (calls ! cd_index c) \<and>
       br_results b ! cd_index c = results ! cd_index c) \<and>
     (\<forall>i < length results. br_results b ! i = results ! i \<or>
       rs_replacements st (call_id (calls ! i)) = Some (res_output (br_results b ! i)) \<or>
       res_output (br_results b ! i) = saved_message dir n (call_id (calls ! i)) (res_output (results ! i)))"

lemma answers_calls_order:
  "answers_calls calls results st dir n b xs \<Longrightarrow> mset xs = mset ys \<Longrightarrow> answers_calls calls results st dir n b ys"
  using distinct_map_mset [of xs ys cd_index] mset_eq_setD [of xs ys] by (auto simp: answers_calls_def)

lemma answers_calls_step:
  assumes "answers_calls calls results st dir (bo_preview opts) b (c # xs)" "candidate_step dir opts c b b'"
  shows "answers_calls calls results st dir (bo_preview opts) b' xs"
proof -
  let ?m = "saved_message dir (bo_preview opts) (cd_id c) (res_output (results ! cd_index c))"
  note b = assms(1) [unfolded answers_calls_def]
  from assms(2) b consider "br_results b' = br_results b" | "br_results b' = set_output (cd_index c) ?m (br_results b)"
    by (auto simp: candidate_step_def Let_def)
  then show ?thesis
  proof cases
    case 1
    with b show ?thesis by (auto simp: answers_calls_def)
  next
    case 2
    have other: "cd_index c \<noteq> cd_index x" if "x \<in> set xs" for x using b imageI [OF that, of cd_index] by auto
    have "br_results b' ! i = results ! i \<or> rs_replacements st (call_id (calls ! i)) = Some (res_output (br_results b' ! i)) \<or>
        res_output (br_results b' ! i) = saved_message dir (bo_preview opts) (call_id (calls ! i)) (res_output (results ! i))"
      if "i < length results" for i
      using 2 b that by (cases "i = cd_index c") simp_all
    with 2 b other show ?thesis by (simp add: answers_calls_def)
  qed
qed

interpretation answered: batch_invariant dir opts "answers_calls calls results st dir (bo_preview opts)"
  for dir opts calls results st
  by unfold_locales (rule answers_calls_order answers_calls_step; assumption)+

lemma enforced_answers:
  assumes "length results = length calls" "\<And>xs. mset (order xs) = mset xs" "distinct (call_ids_of calls)"
  shows "answers_calls calls results st dir (bo_preview opts)
    (enforce_tool_result_budget io order opts calls results ready dir st fs) []"
proof (cases "dir = [] \<or> calls = []")
  case True
  then show ?thesis by (simp add: enforce_tool_result_budget_def start_budget_def answers_calls_def)
next
  case False
  let ?b1 = "fold (sort_out ready) (enumerate 0 calls) (start_budget results st fs)"
  have "sorted_out calls results ready st fs (length calls) ?b1"
    using sort_out_all [OF assms(3), of "length calls" results ready st fs] assms(1) by simp
  then have "answers_calls calls results st dir (bo_preview opts) ?b1 (br_fresh ?b1)"
    using assms(1) by (auto simp: sorted_out_def answers_calls_def)
  then show ?thesis by (rule answered.enforced_holds) (use assms False in simp_all)
qed

lemma scan_users:
  "(\<And>m. m \<in> set ms \<Longrightarrow> role m = ''user'') \<Longrightarrow> scan {} u ms = Some ({}, u)"
  by (induction ms) simp_all

lemma scan_batch_rows:
  assumes "distinct (map call_id calls)" "calls \<noteq> []" "\<And>i. n \<le> i \<Longrightarrow> i + 1 < n + length calls \<Longrightarrow> prompts i = None"
  shows "scan (set (map call_id calls)) u (batch_rows extras prompts stamp ready rs (enumerate n calls)) = Some ({}, u)"
  using assms
proof (induction calls arbitrary: n)
  case (Cons tc calls)
  show ?case
  proof (cases "calls = []")
    case True
    then show ?thesis using scan_users [of "prompt_after prompts stamp ready (n, tc)" u] prompt_after_user
      by (simp add: batch_rows_Cons)
  next
    case False
    have "prompts n = None" using Cons.prems(3) [of n] False by (cases calls) simp_all
    then have "prompt_after prompts stamp ready (n, tc) = []" by (simp add: prompt_after_def)
    moreover have "insert (call_id tc) (call_id ` set calls) - {call_id tc} = set (map call_id calls)"
      using Cons.prems(1) by auto
    moreover have "scan (set (map call_id calls)) u (batch_rows extras prompts stamp ready rs (enumerate (Suc n) calls)) = Some ({}, u)"
      by (rule Cons.IH) (use Cons.prems False in auto)
    ultimately show ?thesis by (simp add: batch_rows_Cons)
  qed
qed simp

lemma recorded_batch_valid:
  assumes "valid_history h" "role a = ''assistant''" "call_ids (tool_calls a) = Some (map call_id calls)"
    and "calls \<noteq> []" "distinct (map call_id calls)" "set (map call_id calls) \<inter> used_ids h = {}"
    and "\<And>i. i + 1 < length calls \<Longrightarrow> prompts i = None"
  shows "valid_history (h @ a # recorded_batch extras prompts stamp calls ready b)"
proof -
  from assms(1) obtain u where u: "scan {} {} h = Some ({}, u)" by (auto simp: valid_history_def split: option.splits)
  have "scan (set (map call_id calls)) u' (batch_rows extras prompts stamp ready (br_results b) (enumerate 0 calls)) = Some ({}, u')" for u'
    by (rule scan_batch_rows [OF assms(5,4)]) (simp add: assms(7))
  then have "scan (set (map call_id calls)) u' (recorded_batch extras prompts stamp calls ready b) = Some ({}, u')" for u'
    by (simp add: recorded_batch_def scan_append encode_content_replacement_message_def)
  then show ?thesis using u assms(2-6) by (simp add: valid_history_def scan_append used_ids_def)
qed

lemma batch_row_content:
  assumes "i < length calls" "ready_at ready i"
  shows "content (filter (\<lambda>m. role m = ''tool'') (recorded_batch extras prompts stamp calls ready b) ! i) =
    ensure_utf8 (res_output (br_results b ! i))"
  using assms by (simp add: batch_result_rows nth_enumerate_eq tool_row_def ready_results_def ready_at_def format_tool_result_def)

section \<open>Properties\<close>


definition sample_call :: tool_call where
  "sample_call = \<lparr>call_id = ''call/1'', function_name = ''grep'', function_arguments = []\<rparr>"

definition sample_result :: "string \<Rightarrow> tool_result" where
  "sample_result s = \<lparr>res_output = s, res_success = True, res_summary = None\<rparr>"

definition sample_options :: budget_options where
  "sample_options = \<lparr>bo_default_threshold = 5, bo_tool_threshold = Map.empty, bo_batch_budget = 1000, bo_preview = 4\<rparr>"

definition sample_budget :: budget_run where
  "sample_budget = enforce_tool_result_budget (\<lambda>_. Saved) (sort_key (\<lambda>c. - int (cd_size c))) sample_options [sample_call]
     [sample_result ''0123456789''] [True] ''/s'' no_replacements Map.empty"


text \<open>C20: A resumed session shows the model the rows it has seen. In every session recorded by messages and
  batches of results, with ids the calls do not share, reading the decisions back off the history
  succeeds and applying them changes no row, so the beginning of the conversation stays the same;
  provided the directory is plain text and no output holds a NUL.\<close>

theorem resumed_rows_unchanged:
  assumes "recorded_session order extras dir h" "plain_text dir" "\<And>xs. mset (order xs) = mset xs"
  shows "\<exists>st. reconstruct_replacement_state h = Inr st \<and> apply_tool_result_replacements h st = (h, 0)"
proof -
  have s: "settled h" by (rule recorded_settled [OF assms])
  then obtain st where "reconstruct_replacement_state h = Inr st" using reconstructed [of h] by (auto simp: settled_def)
  with settled_reapply [OF s] show ?thesis by blast
qed

definition sample_batch :: "unit + (chat_message list \<times> files)" where
  "sample_batch = record_tool_batch (\<lambda>_. Saved) (sort_key (\<lambda>c. - int (cd_size c))) (\<lambda>_. (JNull, JNull)) (\<lambda>_. None) (\<lambda>_. ([], [])) ''/s'' [sample_call]
     [sample_result (replicate 50001 (CHR ''x''))] [True] [] Map.empty"

theorem resumed_rows_unchanged_witness:
  "\<exists>st. reconstruct_replacement_state (fst (projr sample_batch)) = Inr st \<and>
     apply_tool_result_replacements (fst (projr sample_batch)) st = (fst (projr sample_batch), 0)"
proof -
  let ?order = "sort_key (\<lambda>c. - int (cd_size c))" and ?xs = "replicate 50001 (CHR ''x'')"
  have r: "sample_batch = Inr (projr sample_batch)"
    by (simp add: sample_batch_def record_tool_batch_def reconstruct_replacement_state_def Let_def)
  have "plain_text ?xs" by (rule plain_ascii_plain) (simp add: plain_ascii_def list_all_iff)
  moreover have "?xs = CHR ''x'' # replicate 50000 (CHR ''x'')" by (simp only: replicate_Suc [symmetric]) (simp only: eval_nat_numeral)
  ultimately have "ensure_utf8 ?xs = ?xs" using ensure_plain [of "CHR ''x''" "replicate 50000 (CHR ''x'')"] by simp
  then have n: "CHR 0x00 \<notin> set (ensure_utf8 ?xs)" by simp
  have "recorded_session ?order (\<lambda>_. (JNull, JNull)) ''/s'' (fst (projr sample_batch))"
  proof (rule recorded_session.batch [OF recorded_session.start])
    show "record_tool_batch (\<lambda>_. Saved) ?order (\<lambda>_. (JNull, JNull)) (\<lambda>_. None) (\<lambda>_. ([], [])) ''/s'' [sample_call] [sample_result ?xs] [True] [] Map.empty =
        Inr (fst (projr sample_batch), snd (projr sample_batch))"
      using r by (simp only: sample_batch_def prod.collapse)
  qed (use n in \<open>simp_all add: sample_call_def sample_result_def call_ids_of_def tool_row_ids_def\<close>)
  moreover have "plain_text ''/s''" by (rule plain_ascii_plain) (simp add: plain_ascii_def)
  ultimately show ?thesis by (rule resumed_rows_unchanged) simp
qed

text \<open>C4: Whatever happens in the tool phase (refusals, hooks, failures, an abort in the middle) and whatever is
  done to long results, the rows recorded after an answer make the history valid again: one result row per call,
  in order, so the provider accepts it and the recovery has nothing to repair.  Without an abort each row
  holds the output of its own call or the message about the file that output was saved to.  This needs a valid
  history, call ids that are distinct and new to it, readable records of earlier replacements, and no user
  prompt from any result but the last.\<close>

theorem turn_leaves_valid_history:
  assumes "valid_history h" "role a = ''assistant''" "call_ids (tool_calls a) = Some (map call_id calls)"
    and "calls \<noteq> []" "distinct (map call_id calls)" "set (map call_id calls) \<inter> used_ids h = {}"
    and "decodable (h @ [a])" "\<And>i. i + 1 < length calls \<Longrightarrow> prompts i = None"
    and "\<And>b. mset (order b) = mset b" "\<And>xs. mset (sorter xs) = mset xs"
    and "answers = fst (tool_phase hw aborted order ro env calls st)"
  shows "\<exists>rows fs'. run_and_record io sorter extras prompts stamp dir answers calls (h @ [a]) fs = Inr (h @ a # rows, fs') \<and>
    valid_history (h @ a # rows) \<and>
    map tool_call_id (filter (\<lambda>m. role m = ''tool'') rows) = map call_id calls \<and>
    ((\<forall>i. \<not> aborted i) \<longrightarrow> (\<forall>i < length calls.
      content (filter (\<lambda>m. role m = ''tool'') rows ! i) = ensure_utf8 (res_output (the (answers i))) \<or>
      content (filter (\<lambda>m. role m = ''tool'') rows ! i) = ensure_utf8 (saved_message dir (bo_preview default_budget_options)
        (call_id (calls ! i)) (res_output (the (answers i))))))"
proof -
  let ?results = "result_vector (length calls) answers" and ?ready = "ready_vector (length calls) answers"
  let ?rows = "recorded_batch extras prompts stamp calls ?ready"
  have len: "length ?results = length calls" by (simp add: result_vector_def)
  have "call_ids_of calls = filter (\<lambda>i. i \<noteq> []) (map call_id calls)" by (simp add: call_ids_of_def)
  then have d: "distinct (call_ids_of calls)" using distinct_filter [OF assms(5)] by metis
  obtain rst where rst: "reconstruct_replacement_state (h @ [a]) = Inr rst" "dom (rs_replacements rst) \<subseteq> tool_row_ids (h @ [a])"
    by (rule reconstructed_known [OF assms(7)])
  have "tool_row_ids (h @ [a]) = tool_row_ids h" using assms(2) by (auto simp: rows_append tool_row_ids_def is_tool_row_def)
  with rst(2) used_rows [OF assms(1)] have known: "dom (rs_replacements rst) \<subseteq> used_ids h" by blast
  have fresh: "rs_replacements rst (call_id (calls ! i)) = None" if "i < length calls" for i
  proof -
    have "call_id (calls ! i) \<notin> used_ids h" using assms(6) nth_mem [OF that] by auto
    with known show ?thesis by blast
  qed
  obtain b fs' where b: "run_and_record io sorter extras prompts stamp dir answers calls (h @ [a]) fs = Inr (h @ a # ?rows b, fs')"
    and out: "answers_calls calls ?results rst dir (bo_preview default_budget_options) b []"
  proof (cases "dir = []")
    case True
    let ?b = "start_budget ?results no_replacements fs"
    have "run_and_record io sorter extras prompts stamp dir answers calls (h @ [a]) fs = Inr (h @ a # ?rows ?b, fs)"
      using True by (simp add: run_and_record_def record_tool_batch_def)
    moreover have "answers_calls calls ?results rst dir (bo_preview default_budget_options) ?b []"
      by (simp add: answers_calls_def start_budget_def)
    ultimately show ?thesis by (rule that)
  next
    case False
    let ?b = "enforce_tool_result_budget io sorter default_budget_options calls ?results ?ready dir rst fs"
    have "run_and_record io sorter extras prompts stamp dir answers calls (h @ [a]) fs = Inr (h @ a # ?rows ?b, br_files ?b)"
      using False rst(1) by (simp add: run_and_record_def record_tool_batch_def Let_def)
    then show ?thesis by (rule that) (rule enforced_answers [OF len assms(10) d])
  qed
  have "content (filter (\<lambda>m. role m = ''tool'') (?rows b) ! i) = ensure_utf8 (res_output (the (answers i))) \<or>
      content (filter (\<lambda>m. role m = ''tool'') (?rows b) ! i) = ensure_utf8 (saved_message dir (bo_preview default_budget_options)
        (call_id (calls ! i)) (res_output (the (answers i))))"
    if "\<forall>i. \<not> aborted i" "i < length calls" for i
  proof -
    have "answers i \<noteq> None" unfolding assms(11) by (rule tool_phase_answers [OF assms(9) _ that(2)]) (use that(1) in blast)
    then have r: "ready_at ?ready i" "?results ! i = the (answers i)"
      using that(2) by (auto simp: ready_at_def ready_vector_def result_vector_def)
    from out that(2) fresh [OF that(2)] len show ?thesis
      unfolding batch_row_content [OF that(2) r(1)] answers_calls_def by (metis r(2) option.distinct(1))
  qed
  with b recorded_batch_valid [OF assms(1-6,8)] show ?thesis by (auto simp: batch_result_ids)
qed

definition asks_once :: chat_message where
  "asks_once = empty_message\<lparr>role := ''assistant'', tool_calls := JArr [JObj [(''id'', JStr ''c1''), (''function'', JObj [(''name'', JStr ''grep''), (''arguments'', JStr ''x'')])]]\<rparr>"

theorem turn_leaves_valid_history_witness:
  "\<exists>rows fs'. run_and_record (\<lambda>_. Saved) (\<lambda>xs. xs) (\<lambda>_. (JNull, JNull)) (\<lambda>_. Some (''read on'', [])) (\<lambda>_. (''u'', ''t'')) ''/s''
      (fst (tool_phase 1 (\<lambda>_. False) (\<lambda>b. b) (\<lambda>_. True) (\<lambda>_. sample_gate) [call_of ''c1'' ''grep''] (gate_start Default)))
      [call_of ''c1'' ''grep''] [asks_once] Map.empty = Inr (asks_once # rows, fs') \<and>
    valid_history (asks_once # rows) \<and> map tool_call_id (filter (\<lambda>m. role m = ''tool'') rows) = [''c1'']"
proof -
  have "valid_history []" by (simp add: valid_history_def)
  moreover have "role asks_once = ''assistant''" by (simp add: asks_once_def)
  moreover have "call_ids (tool_calls asks_once) = Some (map call_id [call_of ''c1'' ''grep''])"
    by (simp add: asks_once_def call_ids_def valid_tool_call_id_def string_field_def call_of_def)
  moreover have "decodable ([] @ [asks_once])"
    by (simp add: decodable_def asks_once_def decode_content_replacement_message_def is_content_replacement_message_def empty_message_def)
  ultimately show ?thesis
    using turn_leaves_valid_history [of "[]" asks_once "[call_of ''c1'' ''grep'']" "\<lambda>_. Some (''read on'', [])" "\<lambda>b. b" "\<lambda>xs. xs"
        _ 1 "\<lambda>_. False" "\<lambda>_. True" "\<lambda>_. sample_gate" "gate_start Default" "\<lambda>_. Saved" "\<lambda>_. (JNull, JNull)" "\<lambda>_. (''u'', ''t'')" "''/s''" Map.empty]
    by (fastforce simp: call_of_def used_ids_def)
qed

text \<open>A prompt brought along by any other result is recorded between the results, where the provider does
  not accept a user row; the recovery then closes the open call with a placeholder and drops its result.\<close>

definition asks_twice :: chat_message where
  "asks_twice = empty_message\<lparr>role := ''assistant'', tool_calls := JArr
     [JObj [(''id'', JStr ''1''), (''function'', JObj [(''name'', JStr ''a'')])],
      JObj [(''id'', JStr ''2''), (''function'', JObj [(''name'', JStr ''b'')])]]\<rparr>"

definition early_prompt_rows :: "chat_message list" where
  "early_prompt_rows = batch_rows (\<lambda>_. (JNull, JNull)) (\<lambda>i. if i = 0 then Some (''go on'', []) else None) (\<lambda>_. (''u'', ''t''))
     [True, True] [sample_result ''x'', sample_result ''y''] (enumerate 0 [call_of ''1'' ''a'', call_of ''2'' ''b''])"

lemma early_prompt_costs_result:
  "\<not> valid_history (asks_twice # early_prompt_rows) \<and>
   map (\<lambda>m. (role m, content m)) (fst (recover_provider_history (asks_twice # early_prompt_rows))) =
     [(''assistant'', []), (''tool'', ''x''), (''tool'', content (interrupted_tool_result ''2'')), (''user'', ''go on'')]"
  by code_simp

text \<open>A result too short for the estimate never lowers what remains, so all of such a batch are chosen; and the
  message for one that fits its preview is longer than the result.\<close>

lemma short_results_all_selected:
  "bo_batch_budget opts < remaining \<Longrightarrow> (\<And>c. c \<in> set cs \<Longrightarrow> cd_size c \<le> estimate_after_persist (bo_preview opts)) \<Longrightarrow>
     select_ids opts remaining cs = map cd_id cs"
proof (induction cs)
  case (Cons c cs)
  have "\<not> estimate_after_persist (bo_preview opts) < cd_size c" using Cons.prems(2) [of c] by simp
  moreover have "select_ids opts remaining cs = map cd_id cs" by (rule Cons.IH) (use Cons.prems in simp_all)
  ultimately show ?case using Cons.prems(1) by simp
qed simp

lemma short_result_grows:
  "length (ensure_utf8 output) \<le> n \<Longrightarrow> length (ensure_utf8 output) < length (saved_message dir n i output)"
  by (simp add: saved_message_def build_large_tool_result_message_def generate_preview_def persisted_output_tag_def)

text \<open>Where ids are shared, the decision for the first call replaces the result of the second.\<close>

lemma reused_id_gets_old_output:
  assumes "rs_replacements st (call_id tc) = Some old" "call_id tc \<noteq> []"
  shows "res_output (br_results (sort_out [True] (0, tc) (start_budget [r] st fs)) ! 0) = old"
  using assms by (simp add: sort_out_def start_budget_def set_output_def)

text \<open>Ids that differ only in characters outside the safe set name one file, and the second output is not saved.\<close>

lemma colliding_ids_share_a_file:
  "tool_result_path ''/s'' ''a/b'' = tool_result_path ''/s'' ''a_b'' \<and>
   (let fs = snd (persist_tool_result (\<lambda>_. Saved) ''first'' ''a/b'' ''/s'' 9 Map.empty)
    in persist_tool_result (\<lambda>_. Saved) ''second'' ''a_b'' ''/s'' 9 fs =
         (\<lparr>ps_filepath = ''/s/a_b.txt'', ps_original_size = 6, ps_preview = ''second'', ps_has_more = False\<rparr>, fs))"
proof -
  have p: "tool_result_path ''/s'' ''a/b'' = ''/s/a_b.txt''" "tool_result_path ''/s'' ''a_b'' = ''/s/a_b.txt''" by code_simp+
  have "ensure_utf8 ''second'' = ''second''" by (rule ensure_plain) (rule plain_ascii_plain, simp_all add: plain_ascii_def)
  then show ?thesis by (simp add: persist_tool_result_def Let_def p generate_preview_def)
qed

text \<open>A record whose kind is no string ends the reading with an exception.\<close>

lemma damaged_kind_throws:
  "reconstruct_replacement_state [empty_message\<lparr>is_meta := True, subtype := ''content_replacement'',
     metadata := JObj [(''replacements'', JArr [JObj [(''kind'', JInt 1)]])]\<rparr>] = Inl ()"
  by (simp add: reconstruct_replacement_state_def take_records_def decode_content_replacement_message_def
    is_content_replacement_message_def decode_replacement_def)

end
