(* ===== verification/Repeats.thy ===== *)
theory Repeats
  imports ToolGate
begin

text \<open>
  What the doom guard does to a model's answer that repeats a call (\<open>agent_loop.cpp\<close>, the two phases of
  \<open>ToolGate\<close>, over the guard of \<open>DoomGuard\<close>).  The guard starts clean with every answer of the model.  A
  batch of read-only calls passes the guard before any of its results is recorded, so up to a batch of them
  may run beside the one that was recorded before; the other calls are checked and recorded one at a time.
\<close>

section \<open>What one call does\<close>

text \<open>The answer of the tool itself; an exception is an answer, too.\<close>

definition tool_answer :: "gate_env \<Rightarrow> tool_call \<Rightarrow> permission_manager \<Rightarrow> tool_result" where
  "tool_answer env tc pm =
     (case fst (ge_execute env (function_name tc) (function_arguments tc) pm) of
        Inr r \<Rightarrow> r
      | Inl what \<Rightarrow> failed_with (''[Error] Tool execution failed: '' @ what))"

definition runs_of :: "(string \<Rightarrow> json option) \<Rightarrow> call_key \<Rightarrow> (string \<times> string) list \<Rightarrow> nat" where
  "runs_of parse k xs =
     length [(n, a) \<leftarrow> xs. build_key parse \<lparr>call_id = [], function_name = n, function_arguments = a\<rparr> = k]"

lemma runs_of_simps [simp]:
  "runs_of parse k [] = 0" "runs_of parse k (xs @ ys) = runs_of parse k xs + runs_of parse k ys"
  "runs_of parse k [(function_name tc, function_arguments tc)] = (if build_key parse tc = k then 1 else 0)"
  by (simp_all add: runs_of_def build_key_call)

lemma failed_not_useful: "\<not> res_success r \<Longrightarrow> classify_result r \<noteq> Useful"
  using useful_success by blast

lemma failed_with_not_useful [simp]: "classify_result (failed_with s) \<noteq> Useful"
  by (rule failed_not_useful) (simp add: failed_with_def)

lemma guard_update_fields [simp]:
  "executed (st\<lparr>gs_guard := g\<rparr>) = executed st" "executed (st\<lparr>gs_failures := fs\<rparr>) = executed st"
  by (simp_all add: executed_def)

lemma execute_single_tool_outcome:
  assumes "execute_single_tool env (function_name tc) (function_arguments tc) path st = (r, st')"
  shows "gs_guard st' = gs_guard st" "executed st' = executed st \<and> classify_result r \<noteq> Useful \<or>
    executed st' = executed st @ [(function_name tc, function_arguments tc)] \<and> r = tool_answer env tc (gs_perms st)"
  using assms
  by (auto simp: execute_single_tool_def tool_answer_def executed_def Let_def split: if_splits prod.splits)

text \<open>A call ends unexecuted and without a useful answer, or it passed the guard and is executed once.\<close>

definition call_outcome :: "gate_env \<Rightarrow> tool_call \<Rightarrow> gate_state \<Rightarrow> tool_result \<times> gate_state \<Rightarrow> bool" where
  "call_outcome env tc st res \<longleftrightarrow> (case res of (r, st') \<Rightarrow>
     attempts (gs_guard st') = attempts (gs_guard st) \<and>
     (executed st' = executed st \<and> classify_result r \<noteq> Useful \<or>
      executed st' = executed st @ [(function_name tc, function_arguments tc)] \<and>
      fst (maybe_guard (ge_parse env) tc (gs_guard st)) = None \<and>
      (\<exists>pm command fs. r = recheck_files env tc command fs (tool_answer env tc pm))))"

lemma guarded_attempts: "maybe_guard parse tc g = (x, g') \<Longrightarrow> attempts g' = attempts g"
  using maybe_guard_attempts [of parse tc g] by simp

lemma guarded_not_useful: "maybe_guard parse tc g = (Some r, g') \<Longrightarrow> classify_result r \<noteq> Useful"
  using maybe_guard_answer [of parse tc g r] by (intro failed_not_useful) simp

lemma recheck_nothing: "recheck_files env tc command [] r = r"
  by (simp add: recheck_files_def)

lemma read_runner_outcome: "call_outcome env tc st (read_runner env tc path command st)"
proof (cases "ge_policy_denies env (function_name tc)")
  case False
  obtain x g where m: "maybe_guard (ge_parse env) tc (gs_guard st) = (x, g)" by fastforce
  show ?thesis
  proof (cases x)
    case None
    obtain r st' where e: "execute_single_tool env (function_name tc) (function_arguments tc) path (st\<lparr>gs_guard := g\<rparr>) = (r, st')"
      by fastforce
    have "read_runner env tc path command st = (r, st')" using False m None e by (simp add: read_runner_def)
    then show ?thesis
      using execute_single_tool_outcome [OF e] guarded_attempts [OF m] m None
        recheck_nothing [of env tc command "tool_answer env tc (gs_perms st)", symmetric]
      unfolding call_outcome_def by auto
  next
    case (Some r)
    then have "read_runner env tc path command st = (r, st\<lparr>gs_guard := g\<rparr>)" using False m by (simp add: read_runner_def)
    then show ?thesis
      using guarded_attempts [OF m] guarded_not_useful [OF m [unfolded Some]] by (simp add: call_outcome_def)
  qed
qed (simp add: read_runner_def call_outcome_def denied_by_expert_def failed_not_useful)

lemma shell_write_check_failed:
  "shell_write_check env pm command fs = (Some r, fs') \<Longrightarrow> \<not> res_success r"
  by (auto simp: shell_write_check_def shell_write_blocked_def failed_with_def Let_def split: if_splits option.splits prod.splits)

lemma path_check_failed: "path_check env pm tool path a = Inl r \<Longrightarrow> \<not> res_success r"
  by (auto simp: path_check_def failed_with_def Let_def split: if_splits)

lemma static_gate_outcome:
  assumes "static_gate env tc path command st = (x, st')"
  shows "attempts (gs_guard st') = attempts (gs_guard st)" "executed st' = executed st"
    "x = Inl r \<Longrightarrow> classify_result r \<noteq> Useful"
proof -
  show "executed st' = executed st" using static_gate_executed [of env tc path command st] assms by simp
  obtain y g where m: "maybe_guard (ge_parse env) tc (gs_guard st) = (y, g)" by fastforce
  show "attempts (gs_guard st') = attempts (gs_guard st)"
    using assms guarded_attempts [OF m] unfolding static_gate_def Let_def m
    by (auto split: if_splits option.splits prod.splits sum.splits)
  show "classify_result r \<noteq> Useful" if "x = Inl r"
  proof -
    have "\<not> res_success r"
      using assms that maybe_guard_answer [of "ge_parse env" tc "gs_guard st" r] unfolding static_gate_def Let_def m
      by (auto simp: denied_by_expert_def denied_in_yolo_def failed_with_def shell_write_check_failed path_check_failed
          split: if_splits option.splits prod.splits sum.splits)
    then show ?thesis by (rule failed_not_useful)
  qed
qed

lemma consent_gate_outcome:
  assumes "consent_gate env tc a st = (x, st')"
  shows "gs_guard st' = gs_guard st" "executed st' = executed st" "x = Some r \<Longrightarrow> classify_result r \<noteq> Useful"
proof -
  show "executed st' = executed st" using consent_gate_executed [of env tc a st] assms by simp
  have r: "gs_guard (report p d s t) = gs_guard t" for p d s t by (simp add: report_def)
  obtain h st1 where h: "hook_gate env tc a st = (h, st1)" by fastforce
  have 1: "gs_guard st1 = gs_guard st" "\<And>r. h = Inl r \<Longrightarrow> classify_result r \<noteq> Useful"
    using h by (auto simp: hook_gate_def Let_def split: option.splits if_splits)
  obtain d st2 where d: "headless_gate env (projr h) st1 = (d, st2)" by fastforce
  have 2: "gs_guard st2 = gs_guard st1" "\<And>r. d = Inl r \<Longrightarrow> classify_result r \<noteq> Useful"
    using d by (auto simp: headless_gate_def headless_refusal_def r split: prod.splits if_splits)
  obtain u st3 where u: "user_gate env tc (projr d) st2 = (u, st3)" by fastforce
  have 3: "gs_guard st3 = gs_guard st2" "\<And>r. u = Some r \<Longrightarrow> classify_result r \<noteq> Useful"
    using u by (auto simp: user_gate_def Let_def r split: prod.splits option.splits if_splits)
  have s: "(x, st') = (case h of Inl r \<Rightarrow> (Some r, st1) | Inr _ \<Rightarrow> (case d of Inl r \<Rightarrow> (Some r, st2) | Inr _ \<Rightarrow> (u, st3)))"
    using assms h d u by (simp add: consent_gate_def split: sum.splits)
  from s 1 2 3 show "gs_guard st' = gs_guard st" by (auto split: sum.splits)
  from s 1 2 3 show "classify_result r \<noteq> Useful" if "x = Some r" using that by (auto split: sum.splits)
qed

lemma write_runner_outcome: "call_outcome env tc st (write_runner env tc path command st)"
proof -
  obtain x st1 where s: "static_gate env tc path command st = (x, st1)" by fastforce
  note s1 = static_gate_outcome [OF s]
  show ?thesis
  proof (cases x)
    case (Inl r)
    then show ?thesis using s s1 by (simp add: write_runner_def call_outcome_def)
  next
    case (Inr a)
    have g: "fst (maybe_guard (ge_parse env) tc (gs_guard st)) = None"
      using s Inr static_gate_InrD(2) [of env tc path command st a] by simp
    obtain y st2 where c: "consent_gate env tc a st1 = (y, st2)" by fastforce
    note c1 = consent_gate_outcome [OF c]
    show ?thesis
    proof (cases y)
      case (Some r)
      then show ?thesis using s Inr c s1 c1 by (simp add: write_runner_def call_outcome_def)
    next
      case None
      obtain r st3 where e: "execute_single_tool env (function_name tc) (function_arguments tc) path st2 = (r, st3)"
        by fastforce
      note e1 = execute_single_tool_outcome [OF e]
      define st4 where "st4 = remember_failure env tc path r st3"
      have w: "write_runner env tc path command st = (recheck_files env tc command (gs_failures st4) r, st4)"
        using s Inr c None e by (simp add: write_runner_def st4_def Let_def)
      have m: "gs_guard st4 = gs_guard st3" "executed st4 = executed st3"
        by (simp_all add: st4_def) (simp add: remember_failure_def)
      show ?thesis
        using e1(2)
      proof
        assume n: "executed st3 = executed st2 \<and> classify_result r \<noteq> Useful"
        have "executed (snd (write_runner env tc path command st)) = executed st"
          using n w m s1 c1 by simp
        have "\<not> res_success r" using e n
          by (auto simp: execute_single_tool_def executed_def failed_with_def Let_def split: if_splits prod.splits)
        then have "recheck_files env tc command (gs_failures st4) r = r" by (simp add: recheck_files_def)
        with n w m s1 c1 e1(1) show ?thesis by (simp add: call_outcome_def)
      next
        assume "executed st3 = executed st2 @ [(function_name tc, function_arguments tc)] \<and> r = tool_answer env tc (gs_perms st2)"
        with w m s1 c1 e1(1) g show ?thesis by (auto simp: call_outcome_def)
      qed
    qed
  qed
qed

lemma lifecycle_outcome:
  assumes "ge_hooks env = None" "runner = read_runner \<or> runner = write_runner"
  shows "call_outcome env tc st (run_tool_with_lifecycle runner env tc st)"
proof -
  obtain path command where c: "extract_context (ge_parse env) tc = (path, command)" by fastforce
  have "run_tool_with_lifecycle runner env tc st = runner env tc path command st"
    using assms(1) by (simp add: run_tool_with_lifecycle_def pre_tool_hook_def post_tool_hook_def c)
  then show ?thesis using assms(2) read_runner_outcome write_runner_outcome by auto
qed

section \<open>The two phases\<close>

text \<open>What is assumed of the calls of an answer: no hooks, one parser, and no useful answer to a call of the
  key \<open>k\<close> or one related to it; a call of the key itself is not told a way out either.\<close>

definition hopeless :: "(nat \<Rightarrow> gate_env) \<Rightarrow> (string \<Rightarrow> json option) \<Rightarrow> call_key \<Rightarrow> tool_call \<Rightarrow> bool" where
  "hopeless env parse k tc \<longleftrightarrow> (\<forall>i pm command fs.
     let r = recheck_files (env i) tc command fs (tool_answer (env i) tc pm)
     in (related k (build_key parse tc) \<longrightarrow> classify_result r \<noteq> Useful) \<and>
        (build_key parse tc = k \<longrightarrow> unhelpful r))"

definition plain_env :: "(nat \<Rightarrow> gate_env) \<Rightarrow> (string \<Rightarrow> json option) \<Rightarrow> bool" where
  "plain_env env parse \<longleftrightarrow> (\<forall>i. ge_hooks (env i) = None \<and> ge_parse (env i) = parse)"

lemma hopeless_call:
  assumes "plain_env env parse" "hopeless env parse k tc" "runner = read_runner \<or> runner = write_runner"
    and "run_tool_with_lifecycle runner (env i) tc st = (r, st')"
  obtains xs where "attempts (gs_guard st') = attempts (gs_guard st)" "executed st' = executed st @ xs"
    "related k (build_key parse tc) \<Longrightarrow> classify_result r \<noteq> Useful"
    "runs_of parse k xs \<le> (if build_key parse tc = k \<and> unhelpful r then 1 else 0)"
    "runs_of parse k xs > 0 \<Longrightarrow> low_count k (gs_guard st) \<le> 1"
proof -
  have e: "ge_hooks (env i) = None" "ge_parse (env i) = parse" using assms(1) by (simp_all add: plain_env_def)
  have "call_outcome (env i) tc st (r, st')" using lifecycle_outcome [OF e(1) assms(3), of tc st] assms(4) by simp
  then consider
      "attempts (gs_guard st') = attempts (gs_guard st)" "executed st' = executed st" "classify_result r \<noteq> Useful"
    | pm command fs where "attempts (gs_guard st') = attempts (gs_guard st)"
      "executed st' = executed st @ [(function_name tc, function_arguments tc)]"
      "fst (maybe_guard parse tc (gs_guard st)) = None"
      "r = recheck_files (env i) tc command fs (tool_answer (env i) tc pm)"
    unfolding call_outcome_def e(2) by auto
  then show ?thesis
  proof cases
    case 1
    then show ?thesis by (intro that [of "[]"]) simp_all
  next
    case 2
    have r: "(related k (build_key parse tc) \<longrightarrow> classify_result r \<noteq> Useful) \<and> (build_key parse tc = k \<longrightarrow> unhelpful r)"
      using assms(2) unfolding hopeless_def 2(4) Let_def by blast
    with 2 unguarded_low_count [OF 2(3)] show ?thesis
      by (intro that [of "[(function_name tc, function_arguments tc)]"]) (auto split: if_splits)
  qed
qed

text \<open>Which entries of a batch are counted against the key when their results are recorded.\<close>

definition counted :: "(string \<Rightarrow> json option) \<Rightarrow> call_key \<Rightarrow> (nat \<times> tool_result) list \<Rightarrow> entry \<Rightarrow> bool" where
  "counted parse k rs e \<longleftrightarrow> build_key parse (snd e) = k \<and> (case map_of rs (fst e) of None \<Rightarrow> False | Some r \<Rightarrow> unhelpful r)"

definition useless :: "(string \<Rightarrow> json option) \<Rightarrow> call_key \<Rightarrow> (nat \<times> tool_result) list \<Rightarrow> entry \<Rightarrow> bool" where
  "useless parse k rs e \<longleftrightarrow> related k (build_key parse (snd e)) \<longrightarrow>
     (\<forall>r. map_of rs (fst e) = Some r \<longrightarrow> classify_result r \<noteq> Useful)"

lemma run_entries_repeats:
  assumes "plain_env env parse" "\<And>e. e \<in> set es \<Longrightarrow> hopeless env parse k (snd e)" "distinct (map fst es)"
  shows "\<exists>xs. attempts (gs_guard (snd (run_entries env es st))) = attempts (gs_guard st) \<and>
    executed (snd (run_entries env es st)) = executed st @ xs \<and>
    runs_of parse k xs \<le> length [e \<leftarrow> es. counted parse k (fst (run_entries env es st)) e] \<and>
    (runs_of parse k xs > 0 \<longrightarrow> low_count k (gs_guard st) \<le> 1) \<and>
    (\<forall>e \<in> set es. useless parse k (fst (run_entries env es st)) e)"
  using assms(2,3)
proof (induction es arbitrary: st)
  case (Cons e es)
  obtain i tc where e: "e = (i, tc)" by (cases e)
  obtain r st1 where r: "run_tool_with_lifecycle read_runner (env i) tc st = (r, st1)" by fastforce
  obtain rs st2 where rs: "run_entries env es st1 = (rs, st2)" by fastforce
  have h: "hopeless env parse k tc" using Cons.prems(1) [of e] by (simp add: e)
  obtain xs where xs: "attempts (gs_guard st1) = attempts (gs_guard st)" "executed st1 = executed st @ xs"
    "related k (build_key parse tc) \<Longrightarrow> classify_result r \<noteq> Useful"
    "runs_of parse k xs \<le> (if build_key parse tc = k \<and> unhelpful r then 1 else 0)"
    "runs_of parse k xs > 0 \<Longrightarrow> low_count k (gs_guard st) \<le> 1"
    by (rule hopeless_call [OF assms(1) h _ r]) simp_all
  have "\<exists>ys. attempts (gs_guard st2) = attempts (gs_guard st1) \<and> executed st2 = executed st1 @ ys \<and>
    runs_of parse k ys \<le> length [e \<leftarrow> es. counted parse k rs e] \<and>
    (runs_of parse k ys > 0 \<longrightarrow> low_count k (gs_guard st1) \<le> 1) \<and> (\<forall>e \<in> set es. useless parse k rs e)"
    using Cons.IH [of st1] Cons.prems rs by simp
  then obtain ys where ys: "attempts (gs_guard st2) = attempts (gs_guard st1)" "executed st2 = executed st1 @ ys"
    "runs_of parse k ys \<le> length [e \<leftarrow> es. counted parse k rs e]"
    "runs_of parse k ys > 0 \<longrightarrow> low_count k (gs_guard st1) \<le> 1" "\<forall>e \<in> set es. useless parse k rs e"
    by (elim exE conjE) (rule that; assumption)
  have ne: "fst e' \<noteq> i" if "e' \<in> set es" for e' using Cons.prems(2) that by (force simp: e)
  have c: "[e \<leftarrow> es. counted parse k ((i, r) # rs) e] = [e \<leftarrow> es. counted parse k rs e]"
    by (rule filter_cong [OF refl]) (simp add: counted_def ne)
  have u: "useless parse k ((i, r) # rs) e'" if "e' \<in> set es" for e'
    using ys(5) that by (simp add: useless_def ne)
  have run: "run_entries env (e # es) st = ((i, r) # rs, st2)" by (simp add: e r rs)
  have low: "low_count k (gs_guard st1) = low_count k (gs_guard st)" using xs(1) by (rule low_count_attempts)
  have hd: "counted parse k ((i, r) # rs) e \<longleftrightarrow> build_key parse tc = k \<and> unhelpful r" by (simp add: counted_def e)
  have "runs_of parse k (xs @ ys) \<le> length [e \<leftarrow> e # es. counted parse k ((i, r) # rs) e]"
    using xs(4) ys(3) hd by (auto simp: c split: if_splits)
  moreover have "useless parse k ((i, r) # rs) e" using xs(3) by (simp add: useless_def e)
  ultimately show ?case
    unfolding run fst_conv snd_conv using xs ys u low by (intro exI [of _ "xs @ ys"]) auto
qed simp

lemma harvest_low_count:
  assumes "plain_env env parse" "\<forall>e \<in> set es. useless parse k rs e"
    and "length (attempts (gs_guard st)) + length es \<le> max_attempts"
  shows "low_count k (gs_guard st) + length [e \<leftarrow> es. counted parse k rs e] \<le>
      low_count k (gs_guard (fold (harvest env rs) es st)) \<and>
    length (attempts (gs_guard (fold (harvest env rs) es st))) \<le> length (attempts (gs_guard st)) + length es"
  using assms(2,3)
proof (induction es arbitrary: st)
  case (Cons e es)
  let ?st = "harvest env rs e st"
  have p: "ge_parse (env (fst e)) = parse" using assms(1) by (simp add: plain_env_def)
  have "low_count k (gs_guard st) + (if counted parse k rs e then 1 else 0) \<le> low_count k (gs_guard ?st) \<and>
      length (attempts (gs_guard ?st)) \<le> Suc (length (attempts (gs_guard st)))"
  proof (cases "map_of rs (fst e)")
    case (Some r)
    have g: "gs_guard ?st = record_result parse (snd e) r (gs_guard st)"
      by (simp add: harvest_def Some record_doom_guard_result_def p)
    have "related k (build_key parse (snd e)) \<Longrightarrow> classify_result r \<noteq> Useful"
      using Cons.prems(1) Some by (simp add: useless_def)
    moreover have "length (attempts (gs_guard st)) < max_attempts" using Cons.prems(2) by simp
    ultimately show ?thesis
      using record_low_count [of k parse "snd e" r "gs_guard st"] Some by (simp add: g counted_def)
  qed (simp add: harvest_def counted_def)
  moreover from this have "length (attempts (gs_guard ?st)) + length es \<le> max_attempts" using Cons.prems(2) by simp
  ultimately show ?case using Cons.IH [of ?st] Cons.prems(1) by auto
qed simp

text \<open>The bookkeeping shared by the phases: \<open>tally parse k width st st' n\<close> says that from \<open>st\<close> to \<open>st'\<close> at
  most \<open>n\<close> attempts were recorded, every run of the key was recorded against it, and the runs together with
  what was counted before stay within \<open>1 + width\<close>.\<close>

definition tally :: "(string \<Rightarrow> json option) \<Rightarrow> call_key \<Rightarrow> nat \<Rightarrow> gate_state \<Rightarrow> gate_state \<Rightarrow> nat \<Rightarrow> bool" where
  "tally parse k width st st' n \<longleftrightarrow> length (attempts (gs_guard st')) \<le> length (attempts (gs_guard st)) + n \<and>
     (\<exists>xs. executed st' = executed st @ xs \<and>
        low_count k (gs_guard st) + runs_of parse k xs \<le> low_count k (gs_guard st') \<and>
        (runs_of parse k xs > 0 \<longrightarrow> low_count k (gs_guard st) + runs_of parse k xs \<le> 1 + width))"

lemma tally_refl: "tally parse k width st st n"
  by (auto simp: tally_def intro!: exI [of _ "[]"])

lemma tallyE:
  assumes "tally parse k width st st' n"
  obtains xs where "length (attempts (gs_guard st')) \<le> length (attempts (gs_guard st)) + n"
    "executed st' = executed st @ xs" "low_count k (gs_guard st) + runs_of parse k xs \<le> low_count k (gs_guard st')"
    "runs_of parse k xs > 0 \<longrightarrow> low_count k (gs_guard st) + runs_of parse k xs \<le> 1 + width"
  using assms unfolding tally_def by (elim exE conjE) (rule that; assumption)

lemma tally_trans:
  assumes "tally parse k width st st1 m" "tally parse k width st1 st2 n"
  shows "tally parse k width st st2 (m + n)"
proof -
  obtain xs where xs: "length (attempts (gs_guard st1)) \<le> length (attempts (gs_guard st)) + m"
    "executed st1 = executed st @ xs" "low_count k (gs_guard st) + runs_of parse k xs \<le> low_count k (gs_guard st1)"
    "runs_of parse k xs > 0 \<longrightarrow> low_count k (gs_guard st) + runs_of parse k xs \<le> 1 + width"
    by (rule tallyE [OF assms(1)])
  obtain ys where ys: "length (attempts (gs_guard st2)) \<le> length (attempts (gs_guard st1)) + n"
    "executed st2 = executed st1 @ ys" "low_count k (gs_guard st1) + runs_of parse k ys \<le> low_count k (gs_guard st2)"
    "runs_of parse k ys > 0 \<longrightarrow> low_count k (gs_guard st1) + runs_of parse k ys \<le> 1 + width"
    by (rule tallyE [OF assms(2)])
  show ?thesis
    unfolding tally_def
  proof (intro conjI exI [of _ "xs @ ys"])
    show "0 < runs_of parse k (xs @ ys) \<longrightarrow> low_count k (gs_guard st) + runs_of parse k (xs @ ys) \<le> 1 + width"
      using xs(3,4) ys(4) by (cases "runs_of parse k ys = 0") auto
  qed (use xs ys in simp_all)
qed

lemma tally_mono: "tally parse k w st st' n \<Longrightarrow> w \<le> w' \<Longrightarrow> tally parse k w' st st' n"
  by (erule tallyE) (auto simp: tally_def)

text \<open>A phase of read-only calls: each batch is one step of width \<open>max_concurrency\<close>, or of any width if the
  key is not called.\<close>

lemma read_phase_tally:
  assumes "plain_env env parse" "\<And>b. mset (order b) = mset b" "\<And>e. e \<in> set es \<Longrightarrow> hopeless env parse k (snd e)"
    and "distinct (map fst es)" "length (attempts (gs_guard st)) + length es \<le> max_attempts"
    and "max_concurrency hw \<le> width \<or> (\<forall>e \<in> set es. build_key parse (snd e) \<noteq> k)"
  shows "tally parse k width st (snd (read_phase hw aborted order env es st)) (length es)"
  using assms(3-6)
proof (induction es arbitrary: st rule: length_induct)
  case (1 es)
  show ?case
  proof (cases "es = [] \<or> aborted (fst (hd es))")
    case True
    then have "read_phase hw aborted order env es st = ([], st)" by (subst read_phase.simps) simp
    then show ?thesis by (simp add: tally_refl)
  next
    case False
    let ?n = "max_concurrency hw" and ?b = "take (max_concurrency hw) es" and ?d = "drop (max_concurrency hw) es"
    obtain rs st1 where r: "run_entries env (order ?b) st = (rs, st1)" by fastforce
    let ?st = "fold (harvest env rs) ?b st1"
    have sub: "set ?b \<subseteq> set es" "set ?d \<subseteq> set es" by (auto dest: in_set_takeD in_set_dropD)
    have ord: "set (order ?b) = set ?b" using assms(2) by (metis set_mset_mset)
    have "mset (map fst (order ?b)) = mset (map fst ?b)" by (simp add: assms(2))
    moreover have "distinct (map fst ?b)" "distinct (map fst ?d)"
      using "1.prems"(2) by (simp_all add: take_map [symmetric] drop_map [symmetric])
    ultimately have dis: "distinct (map fst (order ?b))" by (metis mset_eq_imp_distinct_iff)
    have hop: "hopeless env parse k (snd e)" if "e \<in> set (order ?b)" for e using that "1.prems"(1) sub(1) ord by blast
    have "\<exists>xs. attempts (gs_guard st1) = attempts (gs_guard st) \<and> executed st1 = executed st @ xs \<and>
        runs_of parse k xs \<le> length [e \<leftarrow> order ?b. counted parse k rs e] \<and>
        (runs_of parse k xs > 0 \<longrightarrow> low_count k (gs_guard st) \<le> 1) \<and> (\<forall>e \<in> set (order ?b). useless parse k rs e)"
      using run_entries_repeats [OF assms(1) hop dis, of st] r by simp
    then obtain xs where xs: "attempts (gs_guard st1) = attempts (gs_guard st)" "executed st1 = executed st @ xs"
        "runs_of parse k xs \<le> length [e \<leftarrow> order ?b. counted parse k rs e]"
        "runs_of parse k xs > 0 \<longrightarrow> low_count k (gs_guard st) \<le> 1" "\<forall>e \<in> set (order ?b). useless parse k rs e"
      by (elim exE conjE) (rule that; assumption)
    have "mset [e \<leftarrow> order ?b. counted parse k rs e] = mset [e \<leftarrow> ?b. counted parse k rs e]" by (simp add: assms(2))
    then have same: "length [e \<leftarrow> order ?b. counted parse k rs e] = length [e \<leftarrow> ?b. counted parse k rs e]"
      by (rule mset_eq_length)
    have low: "low_count k (gs_guard st1) = low_count k (gs_guard st)" using xs(1) by (rule low_count_attempts)
    have len: "length (attempts (gs_guard st1)) + length ?b \<le> max_attempts" using "1.prems"(3) xs(1) by simp
    have useless: "\<forall>e \<in> set ?b. useless parse k rs e" using xs(5) ord by blast
    note h = harvest_low_count [OF assms(1) useless len]
    have width: "length [e \<leftarrow> ?b. counted parse k rs e] \<le> width"
      using "1.prems"(4)
    proof
      assume "\<forall>e \<in> set es. build_key parse (snd e) \<noteq> k"
      then have "[e \<leftarrow> ?b. counted parse k rs e] = []" using sub(1) by (auto simp: counted_def filter_empty_conv)
      then show ?thesis by simp
    next
      assume "?n \<le> width"
      moreover have "length [e \<leftarrow> ?b. counted parse k rs e] \<le> ?n" by (rule order_trans [OF length_filter_le]) simp
      ultimately show ?thesis by simp
    qed
    have "tally parse k width st ?st (length ?b)"
      unfolding tally_def
    proof (intro conjI exI [of _ xs])
      show "executed ?st = executed st @ xs" using xs(2) by simp
      show "0 < runs_of parse k xs \<longrightarrow> low_count k (gs_guard st) + runs_of parse k xs \<le> 1 + width"
        using xs(3,4) same width by auto
    qed (use h xs(1,3) same low in simp_all)
    moreover have "length ?d < length es" using False by (simp add: max_concurrency_def)
    have "length (attempts (gs_guard ?st)) + length ?d \<le> max_attempts" using h "1.prems"(3) xs(1) by auto
    with "1.IH" \<open>length ?d < length es\<close> "1.prems"(1,4) sub(2) \<open>distinct (map fst ?d)\<close>
    have "tally parse k width ?st (snd (read_phase hw aborted order env ?d ?st)) (length ?d)" by blast
    ultimately have "tally parse k width st (snd (read_phase hw aborted order env ?d ?st)) (length ?b + length ?d)"
      by (rule tally_trans)
    moreover have "snd (read_phase hw aborted order env es st) = snd (read_phase hw aborted order env ?d ?st)"
      using False by (subst read_phase.simps) (simp add: r Let_def split: prod.split)
    moreover have "length ?b + length ?d = length es" by simp
    ultimately show ?thesis by simp
  qed
qed

text \<open>The other calls are steps of width one.\<close>

lemma write_phase_tally:
  assumes "plain_env env parse" "\<And>e. e \<in> set es \<Longrightarrow> hopeless env parse k (snd e)"
    and "length (attempts (gs_guard st)) + length es \<le> max_attempts"
  shows "tally parse k 1 st (snd (write_phase aborted env es st)) (length es)"
  using assms(2,3)
proof (induction es arbitrary: st)
  case (Cons e es)
  obtain i tc where e: "e = (i, tc)" by (cases e)
  show ?case
  proof (cases "aborted i")
    case False
    obtain r st1 where r: "run_tool_with_lifecycle write_runner (env i) tc st = (r, st1)" by fastforce
    let ?st = "record_doom_guard_result (env i) tc r st1"
    have p: "ge_parse (env i) = parse" using assms(1) by (simp add: plain_env_def)
    have h: "hopeless env parse k tc" using Cons.prems(1) [of e] by (simp add: e)
    obtain xs where xs: "attempts (gs_guard st1) = attempts (gs_guard st)" "executed st1 = executed st @ xs"
      "related k (build_key parse tc) \<Longrightarrow> classify_result r \<noteq> Useful"
      "runs_of parse k xs \<le> (if build_key parse tc = k \<and> unhelpful r then 1 else 0)"
      "runs_of parse k xs > 0 \<Longrightarrow> low_count k (gs_guard st) \<le> 1"
      by (rule hopeless_call [OF assms(1) h _ r]) simp_all
    have lt: "length (attempts (gs_guard st1)) < max_attempts" using Cons.prems(2) xs(1) by simp
    have rec: "low_count k (gs_guard st1) + (if build_key parse tc = k \<and> unhelpful r then 1 else 0) \<le>
        low_count k (record_result parse tc r (gs_guard st1))"
      "length (attempts (record_result parse tc r (gs_guard st1))) \<le> Suc (length (attempts (gs_guard st1)))"
      using record_low_count [where k = k and parse = parse and tc = tc and r = r and g = "gs_guard st1"] xs(3) lt
      by blast+
    have low: "low_count k (gs_guard st1) = low_count k (gs_guard st)" using xs(1) by (rule low_count_attempts)
    have g: "gs_guard ?st = record_result parse tc r (gs_guard st1)" by (simp add: record_doom_guard_result_def p)
    have "tally parse k 1 st ?st 1"
      unfolding tally_def
    proof (intro conjI exI [of _ xs])
      show "executed ?st = executed st @ xs" using xs(2) by simp
      show "low_count k (gs_guard st) + runs_of parse k xs \<le> low_count k (gs_guard ?st)"
        using rec(1) xs(4) low unfolding g by linarith
      show "0 < runs_of parse k xs \<longrightarrow> low_count k (gs_guard st) + runs_of parse k xs \<le> 1 + 1"
        using xs(4,5) by (auto split: if_splits)
    qed (use rec(2) xs(1) in \<open>simp add: g\<close>)
    moreover have "tally parse k 1 ?st (snd (write_phase aborted env es ?st)) (length es)"
      using Cons.prems rec(2) xs(1) by (intro Cons.IH) (simp_all add: g)
    ultimately have "tally parse k 1 st (snd (write_phase aborted env es ?st)) (1 + length es)" by (rule tally_trans)
    moreover have "snd (write_phase aborted env (e # es) st) = snd (write_phase aborted env es ?st)"
      using False by (simp add: e r split: prod.split)
    ultimately show ?thesis by simp
  qed (simp add: e tally_refl)
qed (simp add: tally_refl)

section \<open>An answer that repeats a call\<close>


text \<open>The bound for read-only calls is met: the first batch runs whole, whatever it repeats.\<close>

lemma first_batch_runs_whole:
  assumes "attempts (gs_guard st) = []" "cooldown_turns (gs_guard st) = (\<lambda>_. None)"
    and "\<And>i. ge_hooks (env i) = None" "\<And>e. e \<in> set es \<Longrightarrow> fst (extract_context (ge_parse (env (fst e))) (snd e)) = [] \<and>
      \<not> ge_policy_denies (env (fst e)) (function_name (snd e)) \<and> ge_has_tool (env (fst e)) (function_name (snd e))"
  shows "executed (snd (run_entries env es st)) =
    executed st @ map (\<lambda>e. (function_name (snd e), function_arguments (snd e))) es"
  using assms(1,2,4)
proof (induction es arbitrary: st)
  case (Cons e es)
  obtain i tc where e: "e = (i, tc)" by (cases e)
  obtain command where c: "extract_context (ge_parse (env i)) tc = ([], command)"
    using Cons.prems(3) [of e] by (cases "extract_context (ge_parse (env i)) tc") (simp add: e)
  have m: "maybe_guard parse call (gs_guard st) = (None, gs_guard st)" for parse call
    using Cons.prems(1,2) by (simp add: maybe_guard_def Let_def cooldown_active_def exact_result_count_def
        low_signal_exact_count_def low_signal_semantic_count_def prior_attempts_before_guard_def)
  obtain r st1 where r: "run_tool_with_lifecycle read_runner (env i) tc st = (r, st1)" by fastforce
  then have st1: "gs_guard st1 = gs_guard st" "executed st1 = executed st @ [(function_name tc, function_arguments tc)]"
    using assms(3) [of i] c m Cons.prems(3) [of e]
    by (auto simp: run_tool_with_lifecycle_def pre_tool_hook_def post_tool_hook_def read_runner_def e
        execute_single_tool_def executed_def split: prod.splits)
  have "executed (snd (run_entries env es st1)) =
      executed st1 @ map (\<lambda>e. (function_name (snd e), function_arguments (snd e))) es"
    using Cons.prems by (intro Cons.IH) (simp_all add: st1)
  then show ?case by (auto simp: e r st1(2) split: prod.split)
qed simp

section \<open>Concrete runs\<close>

definition failing_gate :: gate_env where
  "failing_gate = sample_gate\<lparr>ge_execute := (\<lambda>_ _ pm. (Inr (failed_with ''no such file''), pm))\<rparr>"

definition five_calls :: "string \<Rightarrow> tool_call list" where
  "five_calls n = map (\<lambda>i. call_of i n) [''1'', ''2'', ''3'', ''4'', ''5'']"


end
