(* ===== verification/Spec2Isabelle.thy ===== *)
theory Spec2Isabelle
  imports Permissions ShellGuard EventDispatcher DoomGuard Diff WordDiff LoopSchedule HistoryRecovery Hashing
    Base64 Version TodoState Prompter QuestionPrompter LspFrame ToolGate MtimeTracker TextBuffer ScratchPath FileEdit
    Checkpoints GoalCommands Compaction SessionLog ThreadRepair ToolRegistry StreamCollect TurnLoop TurnProofs TurnControl
    Encoding ToolResults Repeats
begin

text \<open>
  A verification development for ACECode (\<open>src/\<close>), a terminal coding agent written in C++17.

  \<^bold>\<open>The program.\<close>  A user's prompt goes to an \<open>AgentLoop\<close> (\<open>agent_loop.cpp\<close>), whose worker thread takes one
  task after the other.  A turn records the prompt, compacts the conversation when it approaches the context
  window, sends a request to the model's provider, collects the streamed answer, runs the tools the answer
  calls (after rules, guards, hooks and the user have agreed) and asks again with their results, until the
  model answers with text or calls the tool that ends the turn.  Around the loop stand the session file the
  rows are written to, the checkpoints that let the user rewind files, the goal a thread works on, the
  scheduled loops of the daemon, the event stream the interfaces read and the prompters that ask the user.

  \<^bold>\<open>How it is modelled.\<close>  Each C++ class or file is a group of definitions in a theory of its own, with the names
  of the code: a struct is a record, an enum a datatype, a function a definition or a recursive function over
  explicit state, an error a branch of an option or a sum.  \<open>std::string\<close> is a list of bytes (chars),
  \<open>std::map\<close> with string keys the sorted list of its entries (\<open>SortedMap\<close>), JSON the tree of \<open>Json\<close>.  Machine
  integers are words where the code relies on their width (\<open>Hashing\<close>, \<open>Base64\<close>) and integers with the bound or
  the wrap-around written out elsewhere.  Threads are moves on a shared state, one for each critical section,
  interleaved freely.  Everything outside the sources is a parameter or an argument: the file system, the clock,
  fresh ids, the provider, hooks, tools, SQLite, the JSON parser and printer, \<open>weakly_canonical\<close> and time zones.
  Loops that the outside drives (a compaction, a turn) run over a list of rounds that says what they meet; a
  list that ends before the loop does gives \<open>None\<close>, and it is proved how many rounds are enough.

  \<^bold>\<open>The turn.\<close>
  \<^item> \<open>TurnLoop\<close>: \<open>run_agent_with_input\<close>, \<open>prepare_user_turn\<close>, \<open>build_api_request_messages\<close>, \<open>handle_provider_error\<close>,
    \<open>maybe_run_auto_compact\<close>, \<open>apply_compact_result\<close>, the rows \<open>execute_tool_calls\<close> leaves, empty answers, the stop hook,
    waiting input and the end of a turn.  \<open>turn_round\<close> holds what one iteration meets.
    \<open>TurnProofs\<close> shows that a turn with a limit of \<open>n\<close> iterations needs at most \<open>3 * n + 5\<close> rounds and \<open>3 * n + 4\<close> requests
    (three for a counted iteration, since an empty answer is not counted and tools give the two retries back, and
    four for the retries at the start), that every request is a history the provider accepts, that a turn is
    replayed at most twice and never after the model has said something, that the steps in the event log are
    bracketed, and that an outcome \<open>completed\<close> means an answer.  Without a limit a turn may run for ever, as in the code.
  \<^item> \<open>StreamCollect\<close>: \<open>call_provider_and_collect\<close>, from the events of a stream to the response and the assistant row; what a
    failed attempt delivered is gone after its retry.  \<open>RetryPolicy\<close>: \<open>provider/retry_policy.cpp\<close>.
  \<^item> \<open>TurnControl\<close>: \<open>submit\<close>, \<open>steer_input\<close>, \<open>interrupt_turn\<close>, \<open>enqueue_control\<close>, \<open>abort\<close>, \<open>shutdown\<close> and \<open>worker_main\<close>; every accepted
    input is accounted for in order, both queues are bounded, and the receipt of a control call is kept.
  \<^item> \<open>ToolRegistry\<close>: \<open>tool/tool_executor.cpp\<close> and \<open>tool/tool_protocol_names.cpp\<close>; every tool offered to the model can be called
    by the name it is offered under.
  \<^item> \<open>ToolGate\<close>: the checks in front of a tool, the read and the write phase, the hooks and the rows of a batch of calls:
    nothing is written without a rule, the mode, a goal, a hook or the user consenting; Plan mode and the work root
    of a scheduled loop are kept; the calls run in order.  Every one is answered by a row (\<open>ToolResults\<close>).  \<open>Repeats\<close>:
    how often an answer can make the same useless call run, batches of read-only calls included.  It uses \<open>Permissions\<close> (\<open>permissions.hpp\<close>,
    rules and modes), \<open>PathValidator\<close> (\<open>utils/path_validator.hpp\<close>), \<open>ShellGuard\<close> (\<open>agent_loop_shell_guard.hpp\<close>), \<open>DoomGuard\<close>
    (\<open>agent_loop_doom_guard.cpp\<close>, repeated calls) and \<open>ScratchPath\<close> (the scratch alias of \<open>tool_executor.cpp\<close>).

  \<^bold>\<open>The conversation.\<close>
  \<^item> \<open>HistoryRecovery\<close> (\<open>session/session_history_recovery.cpp\<close>): the repair before every request; \<open>valid_history\<close> is the
    provider's protocol as a predicate of its own (each tool row answers a waiting call, each call is answered once), and
    recovery always reaches it, changes nothing that has it and accounts for every row.
  \<^item> \<open>Compaction\<close> (\<open>commands/compact.cpp\<close>): estimates, thresholds, the summarization loop and the replacement history.  The
    rounds are enough when there is one for every row of the history and for every retry.
  \<^item> \<open>SessionCodec\<close> (\<open>session/session_serializer.cpp\<close>, \<open>session/compact_checkpoint.cpp\<close>), \<open>SessionLog\<close> (\<open>session/session_storage.cpp\<close>, torn writes
    included) and \<open>ThreadRepair\<close> (\<open>session/thread_repair.cpp\<close>): what is written is read back, a crash loses at most the row
    being written, and a repair survives a restart.

  \<^bold>\<open>Files.\<close>
  \<^item> \<open>TextBuffer\<close> (\<open>utils/text_file_buffer.cpp\<close>): decoding, line ends and the write that puts the old content back; a stream
    may also lose its end unnoticed when it is closed.
  \<^item> \<open>MtimeTracker\<close> (\<open>tool/mtime_tracker.cpp\<close>) and \<open>FileEdit\<close> (\<open>tool/file_edit_tool.cpp\<close>, \<open>tool/file_write_tool.cpp\<close>): a file is changed only
    against a baseline that was read and after the checkpoint hook was called (which may fail), and a failed call changes nothing.
  \<^item> \<open>Checkpoints\<close> (\<open>session/file_checkpoint_store.cpp\<close>, \<open>session/session_rewind.cpp\<close>): rewinding restores what the
    backups of a turn captured, with writes nobody tracks and failing backups at any time, and the journal rebuilds the store.
  \<^item> \<open>Encoding\<close> (\<open>utils/encoding.hpp\<close>, \<open>utils/encoding.cpp\<close>, without the Windows code pages): cutting a text at a character, and the
    decoder for a subprocess, whose result does not depend on where its output is cut.
  \<^item> \<open>ToolResults\<close> (\<open>session/tool_result_storage.cpp\<close> and its place in the loop): a result too long for the model goes to a file and leaves
    a message with its path; nothing is lost, and a resumed session shows the same rows.  The rows recorded for a batch, with
    the prompts some results add, leave a valid history if only the last result adds one.  An output's reading reference
    is left to \<open>MtimeTracker\<close>.
  \<^item> \<open>Lcs\<close>, \<open>Diff\<close> and \<open>WordDiff\<close> (\<open>tool/diff_utils.cpp\<close>, \<open>tool/word_diff.cpp\<close>, \<open>tool/diff_view_truncate.cpp\<close>): the diffs rebuild both sides.

  \<^bold>\<open>Goals, loops and the interfaces.\<close>
  \<^item> \<open>GoalStore\<close> and \<open>GoalCommands\<close> (\<open>session/thread_goal_store.cpp\<close>, \<open>commands/goal_command.cpp\<close>, \<open>tool/goal_tool.cpp\<close>, the goal parts of the
    loop): well-formed rows, budgets, and who may change a goal.  An operation that reads and then writes takes the table of each
    of the two statements, so that others may write in between.
  \<^item> \<open>LoopTypes\<close> and \<open>LoopSchedule\<close> (\<open>loop/\<close>): definitions, next and missed runs, against the least time that matches.
  \<^item> \<open>EventDispatcher\<close>, \<open>Prompter\<close> and \<open>QuestionPrompter\<close> (\<open>session/\<close>): delivery in order with nothing stranded, and one answer for each
    question.  \<open>TodoState\<close> (\<open>session/todo_state.cpp\<close>): the merge against a contract on ids.
  \<^item> \<open>LspFrame\<close> (\<open>lsp/lsp_frame.cpp\<close>), \<open>Hashing\<close>, \<open>Base64\<close> and \<open>Version\<close>: codecs and hashes, streaming against one shot.

  \<^bold>\<open>Shared.\<close>  \<open>Prelude\<close> has the byte predicates, numerals, list lemmas and the interfaces several components share as locales:
  a machine whose operations keep an invariant, a parser fed in chunks, a question with one answer, a codec.  The components
  interpret them on their own definitions.  Components of their own state further interfaces: the sorting of rules, the
  occurrences of a schedule, the checker of a shell target.

  \<^bold>\<open>Assumptions.\<close>  Where a law of the outside is needed it is a hypothesis with a name: the JSON printer's text is read back,
  a sort is stable, a time zone's offset is what the code asks for, a compaction is answered.  Each theorem with a
  hypothesis is applied to a concrete input in the theorem \<open>..._witness\<close> that follows it.

  \<^bold>\<open>Not modelled.\<close>  The terminal, web and desktop interfaces, the command line and the image codecs are rendering, I/O and
  vendored code.  The HTTP side of the providers and the MCP client talk to services.  Of the agent loop, the texts of the
  system prompt and of the contexts, trajectory records, progress events, turn timing, the net diff of a turn, side
  questions, \<open>run_shell\<close> and \<open>run_compact\<close> are left out; \<open>request_tokens * 2\<close> in the recovery from an overlong context is taken
  without its overflow beyond \<open>2 ^ 30\<close> tokens.  Of session storage, metadata files, listing and purging are left out.  A
  permission bit of a file, a condition variable and the joining of a thread are not part of any state.
\<close>

end
